(* ===== verification/Prelude.thy ===== *)
theory Prelude
  imports "HOL-Library.Word" "HOL-Library.Multiset"
begin

unbundle bit_operations_syntax

text \<open>
  Shared vocabulary of the development: machine integers, the ways the simulator
  gives up (failed \<open>assert\<close>, \<open>fatal\<close>, \<open>panic\<close>), and generic lemmas on lists, hash
  chains, byte memories and masks that several components use.
\<close>

section \<open>Types and errors\<close>

type_synonym u8 = "8 word"
type_synonym u32 = "32 word"

datatype sim_error =
    Assert_failed
  | Fatal string
  | Panic string
  | Aborted
  | Null_deref

type_synonym 'a res = "sim_error + 'a"

definition res_bind :: "'a res \<Rightarrow> ('a \<Rightarrow> 'b res) \<Rightarrow> 'b res" where
  "res_bind m f = (case m of Inl e \<Rightarrow> Inl e | Inr x \<Rightarrow> f x)"

lemma res_bind_simps [simp]:
  "res_bind (Inl e) f = Inl e"
  "res_bind (Inr x) f = f x"
  by (simp_all add: res_bind_def)

lemma res_bind_eq_Inr [simp]:
  "res_bind m f = Inr y \<longleftrightarrow> (\<exists>x. m = Inr x \<and> f x = Inr y)"
  by (cases m) auto

lemma res_bind_assoc [simp]:
  "res_bind (res_bind m f) g = res_bind m (\<lambda>x. res_bind (f x) g)"
  by (cases m) auto

section \<open>Loops\<close>

text \<open>A \<open>for\<close> loop whose body may give up.\<close>

fun res_fold :: "('a \<Rightarrow> 's \<Rightarrow> 's res) \<Rightarrow> 'a list \<Rightarrow> 's \<Rightarrow> 's res" where
  "res_fold f [] s = Inr s"
| "res_fold f (x # xs) s = res_bind (f x s) (res_fold f xs)"

lemma res_fold_append [simp]:
  "res_fold f (xs @ ys) s = res_bind (res_fold f xs s) (res_fold f ys)"
proof (induction xs arbitrary: s)
  case (Cons x xs)
  then show ?case by (cases "f x s") simp_all
qed simp

lemma res_fold_inv:
  assumes "Q 0 s" "\<And>k s. k < length xs \<Longrightarrow> Q k s \<Longrightarrow> \<exists>s'. f (xs ! k) s = Inr s' \<and> Q (Suc k) s'"
  shows "\<exists>s'. res_fold f xs s = Inr s' \<and> Q (length xs) s'"
  using assms
proof (induction xs arbitrary: s Q)
  case (Cons x xs)
  from Cons.prems(2) [of 0 s] Cons.prems(1) obtain t where t: "f x s = Inr t" "Q (Suc 0) t" by auto
  have "\<exists>s'. res_fold f xs t = Inr s' \<and> Q (Suc (length xs)) s'"
    by (rule Cons.IH [of "\<lambda>k. Q (Suc k)"]) (use t Cons.prems(2) in force)+
  with t show ?case by simp
qed simp

lemma res_fold_invariant:
  assumes "I s" "\<And>x s. x \<in> set xs \<Longrightarrow> I s \<Longrightarrow> \<exists>s'. f x s = Inr s' \<and> I s'"
  shows "\<exists>s'. res_fold f xs s = Inr s' \<and> I s'"
  by (rule res_fold_inv [where Q = "\<lambda>_. I"]) (use assms in auto)

lemma res_fold_pure: "res_fold (\<lambda>x s. Inr (f x s)) xs s = Inr (fold f xs s)"
  by (induction xs arbitrary: s) simp_all

section \<open>Strings\<close>

text \<open>\<open>tolower\<close> of the C locale, and \<open>strcasecmp\<close> as a test of equality.\<close>

definition to_lower :: "char \<Rightarrow> char" where
  "to_lower c = (if 65 \<le> (of_char c :: nat) \<and> (of_char c :: nat) \<le> 90 then char_of (of_char c + 32 :: nat) else c)"

definition strcaseeq :: "string \<Rightarrow> string \<Rightarrow> bool" where
  "strcaseeq a b \<longleftrightarrow> map to_lower a = map to_lower b"

section \<open>Hash chains\<close>

text \<open>
  Several structures of the code are arrays of singly linked collision chains, owned by
  the structure. A chain is a list here. \<open>move_front\<close> is the lookup that relinks the
  element it finds at the chain's head, \<open>update_first\<close> a store through the pointer a
  lookup returned, \<open>remove_first\<close> an unlink.
\<close>

definition move_front :: "('a \<Rightarrow> bool) \<Rightarrow> 'a list \<Rightarrow> 'a list" where
  "move_front P ps =
     (case dropWhile (\<lambda>p. \<not> P p) ps of
        [] \<Rightarrow> ps
      | p # r \<Rightarrow> p # takeWhile (\<lambda>p. \<not> P p) ps @ r)"

fun update_first :: "('a \<Rightarrow> bool) \<Rightarrow> ('a \<Rightarrow> 'a) \<Rightarrow> 'a list \<Rightarrow> 'a list" where
  "update_first P f [] = []"
| "update_first P f (x # xs) = (if P x then f x # xs else x # update_first P f xs)"

fun remove_first :: "('a \<Rightarrow> bool) \<Rightarrow> 'a list \<Rightarrow> 'a list" where
  "remove_first P [] = []"
| "remove_first P (x # xs) = (if P x then xs else x # remove_first P xs)"

lemma move_front_Nil [simp]: "move_front P [] = []"
  by (simp add: move_front_def)

lemma move_front_hit: "P x \<Longrightarrow> move_front P (x # xs) = x # xs"
  by (simp add: move_front_def)

lemma move_front_cases:
  obtains (miss) "\<forall>p \<in> set ps. \<not> P p" "move_front P ps = ps"
  | (hit) xs p ys where "ps = xs @ p # ys" "\<forall>q \<in> set xs. \<not> P q" "P p"
      "move_front P ps = p # xs @ ys"
proof (cases "\<forall>p \<in> set ps. \<not> P p")
  case True
  then have "dropWhile (\<lambda>p. \<not> P p) ps = []" by (simp only: dropWhile_eq_Nil_conv)
  then have "move_front P ps = ps" by (simp only: move_front_def list.case)
  with True show thesis by (rule miss)
next
  case False
  then obtain xs p ys where *: "ps = xs @ p # ys" "\<forall>q \<in> set xs. \<not> P q" "P p"
    by (metis split_list_first_prop)
  then have "dropWhile (\<lambda>p. \<not> P p) ps = p # ys" "takeWhile (\<lambda>p. \<not> P p) ps = xs"
    by (simp_all add: takeWhile_append)
  then have "move_front P ps = p # xs @ ys" by (simp only: move_front_def list.case append.simps)
  with * show thesis by (rule hit)
qed

lemma mset_move_front [simp]: "mset (move_front P ps) = mset ps"
  by (rule move_front_cases [of ps P]) simp_all

lemma set_move_front [simp]: "set (move_front P ps) = set ps"
  by (metis mset_move_front set_mset_mset)

lemma length_move_front [simp]: "length (move_front P ps) = length ps"
  by (metis mset_move_front size_mset)

lemma find_append: "find P (xs @ ys) = (case find P xs of None \<Rightarrow> find P ys | Some x \<Rightarrow> Some x)"
  by (induction xs) auto

lemma find_None_set: "find P xs = None \<longleftrightarrow> (\<forall>x \<in> set xs. \<not> P x)"
  by (induction xs) auto

lemma find_move_front [simp]:
  "find (\<lambda>p. key p = k') (move_front (\<lambda>p. key p = k) ps) = find (\<lambda>p. key p = k') ps"
proof (rule move_front_cases [of ps "\<lambda>p. key p = k"])
  fix xs p ys
  assume *: "ps = xs @ p # ys" "\<forall>q\<in>set xs. key q \<noteq> k" "key p = k"
    "move_front (\<lambda>p. key p = k) ps = p # xs @ ys"
  have "k' = k \<Longrightarrow> find (\<lambda>p. key p = k') xs = None"
    using *(2) by (simp add: find_None_set)
  with * show ?thesis by (cases "k' = k") (simp_all add: find_append split: option.split)
qed simp

lemma map_key_update_first [simp]:
  "(\<And>x. key (f x) = key x) \<Longrightarrow> map key (update_first P f ps) = map key ps"
  by (induction ps) auto

lemma find_update_first:
  "(\<And>x. key (f x) = key x) \<Longrightarrow>
   find (\<lambda>p. key p = k') (update_first (\<lambda>p. key p = k) f ps) =
     (if k' = k then map_option f (find (\<lambda>p. key p = k) ps) else find (\<lambda>p. key p = k') ps)"
  by (induction ps) auto

lemma length_update_first [simp]: "length (update_first P f ps) = length ps"
  by (induction ps) auto

lemma set_remove_first: "set (remove_first P ps) \<subseteq> set ps"
  by (induction ps) auto

lemma length_remove_first [simp]:
  "length (remove_first P ps) = (if \<exists>x \<in> set ps. P x then length ps - 1 else length ps)"
proof (induction ps)
  case (Cons x xs)
  then show ?case by (cases xs) auto
qed simp

lemma distinct_remove_first:
  "distinct (map key ps) \<Longrightarrow> distinct (map key (remove_first P ps))"
  by (induction ps) (auto dest: set_remove_first [THEN subsetD])

lemma find_key_None: "find (\<lambda>p. key p = k) ps = None \<longleftrightarrow> k \<notin> key ` set ps"
  by (induction ps) auto

lemma find_remove_first:
  "distinct (map key ps) \<Longrightarrow>
   find (\<lambda>p. key p = k') (remove_first (\<lambda>p. key p = k) ps) =
     (if k' = k then None else find (\<lambda>p. key p = k') ps)"
  by (induction ps) (auto simp: find_key_None)

lemma find_SomeD: "find P ps = Some p \<Longrightarrow> p \<in> set ps \<and> P p"
  by (induction ps) (auto split: if_splits)

lemma distinct_keys_find:
  "distinct (map key ps) \<Longrightarrow> p \<in> set ps \<Longrightarrow> find (\<lambda>q. key q = key p) ps = Some p"
  by (induction ps) (auto simp: rev_image_eqI)

section \<open>Byte memories\<close>

text \<open>
  The abstract view of an address space: a function from addresses to bytes, written and
  read in runs that wrap around at \<open>2 ^ 32\<close> as the code's unsigned addresses do.
\<close>

fun put_bytes :: "(u32 \<Rightarrow> u8) \<Rightarrow> u32 \<Rightarrow> u8 list \<Rightarrow> (u32 \<Rightarrow> u8)" where
  "put_bytes v a [] = v"
| "put_bytes v a (b # bs) = put_bytes (v(a := b)) (a + 1) bs"

fun get_bytes :: "(u32 \<Rightarrow> u8) \<Rightarrow> u32 \<Rightarrow> nat \<Rightarrow> u8 list" where
  "get_bytes v a 0 = []"
| "get_bytes v a (Suc n) = v a # get_bytes v (a + 1) n"

lemma length_get_bytes [simp]: "length (get_bytes v a n) = n"
  by (induction n arbitrary: a) auto

lemma put_bytes_append:
  "put_bytes v a (xs @ ys) = put_bytes (put_bytes v a xs) (a + of_nat (length xs)) ys"
  by (induction xs arbitrary: v a) (auto simp: add.assoc)

lemma get_bytes_add:
  "get_bytes v a (m + n) = get_bytes v a m @ get_bytes v (a + of_nat m) n"
  by (induction m arbitrary: a) (auto simp: add.assoc)

lemma get_bytes_nth: "i < n \<Longrightarrow> get_bytes v a n ! i = v (a + of_nat i)"
  by (induction n arbitrary: a i) (auto simp: nth_Cons' of_nat_diff)

lemma get_bytes_cong:
  "(\<And>i. i < n \<Longrightarrow> v (a + of_nat i) = w (a + of_nat i)) \<Longrightarrow> get_bytes v a n = get_bytes w a n"
  by (rule nth_equalityI) (auto simp: get_bytes_nth)

lemma put_bytes_other:
  "(\<And>i. i < length bs \<Longrightarrow> a \<noteq> b + of_nat i) \<Longrightarrow> put_bytes v b bs a = v a"
proof (induction bs arbitrary: v b)
  case (Cons x xs)
  have "a \<noteq> b" using Cons.prems [of 0] by simp
  moreover have "put_bytes (v(b := x)) (b + 1) xs a = (v(b := x)) a"
    by (rule Cons.IH) (use Cons.prems [of "Suc _"] in \<open>auto simp: add.assoc\<close>)
  ultimately show ?case by simp
qed simp

lemma of_nat_u32_eq_iff:
  "i < 2 ^ 32 \<Longrightarrow> j < 2 ^ 32 \<Longrightarrow> (of_nat i :: u32) = of_nat j \<longleftrightarrow> i = j"
  by (simp add: word_of_nat_eq_iff take_bit_nat_eq_self)

lemma put_bytes_nth:
  "length bs \<le> 2 ^ 32 \<Longrightarrow> i < length bs \<Longrightarrow> put_bytes v a bs (a + of_nat i) = bs ! i"
proof (induction bs arbitrary: v a i)
  case (Cons x xs)
  show ?case
  proof (cases i)
    case 0
    have "put_bytes (v(a := x)) (a + 1) xs a = (v(a := x)) a"
    proof (rule put_bytes_other)
      fix j assume "j < length xs"
      with Cons.prems have "Suc j < 2 ^ 32" by simp
      then have "(of_nat (Suc j) :: u32) \<noteq> of_nat 0" by (subst of_nat_u32_eq_iff) auto
      then show "a \<noteq> a + 1 + of_nat j" by (simp add: add.assoc)
    qed
    with 0 show ?thesis by simp
  next
    case (Suc j)
    with Cons.prems Cons.IH [of j "v(a := x)" "a + 1"] show ?thesis
      by (simp add: add.assoc del: fun_upd_apply)
  qed
qed simp

lemma get_put_bytes: "length bs \<le> 2 ^ 32 \<Longrightarrow> get_bytes (put_bytes v a bs) a (length bs) = bs"
  by (rule nth_equalityI) (auto simp: get_bytes_nth put_bytes_nth)

section \<open>Masks\<close>

lemma unat_and_mask: "unat (a AND mask n :: u32) = unat a mod 2 ^ n"
  by (simp flip: take_bit_eq_mask take_bit_eq_mod add: unsigned_take_bit_eq)

lemma and_not_mask_plus: "(a AND NOT (mask n)) + (a AND mask n) = (a :: u32)"
proof -
  have "(a AND NOT (mask n)) + (a AND mask n) = (a AND NOT (mask n)) OR (a AND mask n)"
    by (rule disjunctive_add) (simp add: bit_simps)
  also have "\<dots> = a" by (rule bit_word_eqI) (auto simp: bit_simps)
  finally show ?thesis .
qed

lemma unat_and_not_mask: "unat (a AND NOT (mask n) :: u32) = unat a - unat a mod 2 ^ n"
proof -
  have "a AND NOT (mask n) = a - (a AND mask n)"
    using and_not_mask_plus [of a n] by (metis add_diff_cancel_right')
  moreover have "(a AND mask n) \<le> a" by (rule word_and_le2)
  ultimately show ?thesis by (simp add: unat_sub unat_and_mask)
qed

section \<open>Runs inside an aligned block\<close>

text \<open>
  An access that stays inside a page (of any size dividing the address space) does on the
  page's own array what \<open>put_bytes\<close> and \<open>get_bytes\<close> do on addresses.
\<close>

lemma block_add:
  assumes "N dvd 4294967296" "unat (a :: u32) mod N + i < N"
  shows "unat (a + of_nat i) = unat a + i"
    "unat (a + of_nat i) div N = unat a div N" "unat (a + of_nat i) mod N = unat a mod N + i"
proof -
  from assms(1) obtain k where k: "4294967296 = N * k" by (rule dvdE)
  have "unat a < N * k" using unsigned_less [of a] k by simp
  then have "unat a div N < k" by (simp add: less_mult_imp_div_less mult.commute)
  then have "N * Suc (unat a div N) \<le> N * k" by (intro mult_le_mono2) simp
  moreover have "unat a = N * (unat a div N) + unat a mod N" by simp
  ultimately have "unat a + i < 4294967296"
    using k assms(2) unfolding mult_Suc_right by linarith
  then show *: "unat (a + of_nat i) = unat a + i" by (simp add: unat_word_ariths unat_of_nat)
  have "unat a + i = unat a div N * N + (unat a mod N + i)" by simp
  with assms(2) show "unat (a + of_nat i) div N = unat a div N"
      "unat (a + of_nat i) mod N = unat a mod N + i"
    unfolding * by (simp_all only: div_mult_self3 div_less mod_mult_self3 mod_less)
qed

lemma block_diff:
  assumes "N dvd 4294967296" "unat (b :: u32) div N = unat a div N" "unat a mod N \<le> unat b mod N" "0 < N"
  shows "b = a + of_nat (unat b mod N - unat a mod N)"
proof -
  have "unat a mod N + (unat b mod N - unat a mod N) < N" using assms(3,4) by simp
  from block_add(1) [OF assms(1) this]
  have "unat (a + of_nat (unat b mod N - unat a mod N)) = unat a + (unat b mod N - unat a mod N)" .
  also have "\<dots> = unat b"
    using assms(3) div_mult_mod_eq [of "unat a" N] div_mult_mod_eq [of "unat b" N] unfolding assms(2)
    by linarith
  finally show ?thesis by (simp add: word_unat_eq_iff)
qed

lemma put_bytes_block:
  assumes "N dvd 4294967296" "0 < N" "unat a mod N + n \<le> N" "n \<le> length buf"
    and other: "\<And>b. unat b div N \<noteq> unat a div N \<Longrightarrow> v' b = v b"
    and same: "\<And>b. unat b div N = unat a div N \<Longrightarrow> v' b =
        (if unat a mod N \<le> unat b mod N \<and> unat b mod N < unat a mod N + n
         then buf ! (unat b mod N - unat a mod N) else v b)"
  shows "v' = put_bytes v a (take n buf)"
proof
  fix b
  have "N \<le> 4294967296" using assms(1) by (simp add: dvd_imp_le)
  then have len: "length (take n buf) \<le> 2 ^ 32" using assms(3) by simp
  show "v' b = put_bytes v a (take n buf) b"
  proof (cases "\<exists>i < n. b = a + of_nat i")
    case True
    then obtain i where i: "i < n" "b = a + of_nat i" by blast
    then have "unat a mod N + i < N" using assms(3) by simp
    note sp = block_add [OF assms(1) this]
    from i assms(4) len have "put_bytes v a (take n buf) b = buf ! i" by (simp add: put_bytes_nth)
    with sp i show ?thesis by (simp add: same)
  next
    case False
    with assms(4) have "put_bytes v a (take n buf) b = v b" by (intro put_bytes_other) auto
    moreover have "v' b = v b"
    proof (cases "unat b div N = unat a div N")
      case True
      have "\<not> (unat a mod N \<le> unat b mod N \<and> unat b mod N < unat a mod N + n)"
        using False block_diff [OF assms(1) True _ assms(2)]
        by (metis add_diff_inverse_nat leD nat_add_left_cancel_less)
      then show ?thesis by (auto simp: same [OF True])
    qed (rule other)
    ultimately show ?thesis by simp
  qed
qed

lemma get_bytes_block:
  assumes "N dvd 4294967296" "unat a mod N + n \<le> N"
    and same: "\<And>b. unat b div N = unat a div N \<Longrightarrow> v b = f (unat b mod N)"
  shows "get_bytes v a n = map (\<lambda>i. f (unat a mod N + i)) [0..<n]"
proof (rule nth_equalityI)
  fix i assume "i < length (get_bytes v a n)"
  then have i: "i < n" "unat a mod N + i < N" using assms(2) by simp_all
  from block_add [OF assms(1) i(2)] i same show "get_bytes v a n ! i = map (\<lambda>i. f (unat a mod N + i)) [0..<n] ! i"
    by (simp add: get_bytes_nth)
qed simp

section \<open>Searches and logarithms\<close>

text \<open>The position of the first element of an array that satisfies a test.\<close>

fun find_index_from :: "('a \<Rightarrow> bool) \<Rightarrow> nat \<Rightarrow> 'a list \<Rightarrow> nat option" where
  "find_index_from P i [] = None"
| "find_index_from P i (x # xs) = (if P x then Some i else find_index_from P (i + 1) xs)"

lemma find_index_from_hit:
  "i < length xs \<Longrightarrow> P (xs ! i) \<Longrightarrow> (\<And>l. l < i \<Longrightarrow> \<not> P (xs ! l)) \<Longrightarrow> find_index_from P k xs = Some (k + i)"
proof (induction xs arbitrary: k i)
  case (Cons x xs)
  show ?case
  proof (cases i)
    case 0
    with Cons.prems show ?thesis by simp
  next
    case (Suc j)
    have "\<not> P x" using Cons.prems(3) [of 0] Suc by simp
    moreover have "\<not> P (xs ! l)" if "l < j" for l using Cons.prems(3) [of "Suc l"] Suc that by simp
    ultimately show ?thesis using Cons.IH [of j "k + 1"] Cons.prems(1,2) Suc by simp
  qed
qed simp

lemma find_index_from_None: "find_index_from P k xs = None \<longleftrightarrow> (\<forall>x \<in> set xs. \<not> P x)"
  by (induction xs arbitrary: k) auto

lemma find_index_from_append:
  "(\<And>x. x \<in> set xs \<Longrightarrow> \<not> P x) \<Longrightarrow> P y \<Longrightarrow> find_index_from P k (xs @ y # ys) = Some (k + length xs)"
  by (induction xs arbitrary: k) auto

text \<open>\<open>log_base2\<close> of \<open>src/lib/misc/misc.c\<close>: the shift loop on a signed value.\<close>

function log_base2_loop :: "int \<Rightarrow> nat \<Rightarrow> int \<times> nat" where
  "log_base2_loop v r = (if v \<noteq> 0 \<and> even v then log_base2_loop (v div 2) (r + 1) else (v, r))"
  by pat_completeness auto
termination
  by (relation "measure (\<lambda>(v, r). nat \<bar>v\<bar>)") (auto elim!: evenE)

declare log_base2_loop.simps [simp del]

definition log_base2 :: "int \<Rightarrow> nat res" where
  "log_base2 x =
     (if x = 0 then Inl Aborted
      else let (v, r) = log_base2_loop x 0 in if v \<noteq> 1 then Inl Aborted else Inr r)"

end
