(* ===== verification/Memory.thy ===== *)
theory Memory
  imports Prelude
begin

text \<open>
  Functional memory image (\<open>src/mem-system/memory.c\<close>): an array of 1024 collision
  chains of 4KB pages, with permissions, lazily allocated page data and a safe mode.
  Arrays of fixed size are functions from the index, chains are lists (\<open>Prelude\<close>), the
  page data is NULL (\<open>None\<close>) until the first write. A pointer to a page is the page's
  tag: every store through it is an \<open>update_first\<close> on the page with that tag. The
  statistics counters \<open>mem_mapped_space\<close> and \<open>mem_max_mapped_space\<close> are left out.
\<close>

section \<open>State\<close>

abbreviation MEM_LOG_PAGE_SIZE :: nat where "MEM_LOG_PAGE_SIZE \<equiv> 12"
abbreviation MEM_PAGE_SIZE :: u32 where "MEM_PAGE_SIZE \<equiv> 4096"
abbreviation MEM_PAGE_COUNT :: nat where "MEM_PAGE_COUNT \<equiv> 1024"

type_synonym mem_access_t = u32

definition mem_access_none :: mem_access_t where "mem_access_none = 0x00"
definition mem_access_read :: mem_access_t where "mem_access_read = 0x01"
definition mem_access_write :: mem_access_t where "mem_access_write = 0x02"
definition mem_access_exec :: mem_access_t where "mem_access_exec = 0x04"
definition mem_access_init :: mem_access_t where "mem_access_init = 0x08"
definition mem_access_modif :: mem_access_t where "mem_access_modif = 0x10"

lemmas mem_access_defs = mem_access_none_def mem_access_read_def mem_access_write_def
  mem_access_exec_def mem_access_init_def mem_access_modif_def

record mem_page_t =
  mp_tag :: u32
  mp_perm :: mem_access_t
  mp_data :: "(nat \<Rightarrow> u8) option"

record mem_t =
  num_links :: int
  pages :: "nat \<Rightarrow> mem_page_t list"
  safe :: bool
  heap_break :: u32
  last_address :: u32

definition page_tag :: "u32 \<Rightarrow> u32" where
  "page_tag addr = addr AND NOT (MEM_PAGE_SIZE - 1)"

definition page_index :: "u32 \<Rightarrow> nat" where
  "page_index addr = unat (drop_bit MEM_LOG_PAGE_SIZE addr) mod MEM_PAGE_COUNT"

definition page_offset :: "u32 \<Rightarrow> nat" where
  "page_offset addr = unat (addr AND (MEM_PAGE_SIZE - 1))"

lemma unat_page_offset: "page_offset addr = unat addr mod 4096"
  using unat_and_mask [of addr 12] by (simp add: page_offset_def mask_eq_exp_minus_1)

lemma page_offset_less [simp]: "page_offset addr < 4096"
  by (simp add: unat_page_offset)

lemma unat_page_tag: "unat (page_tag addr) = unat addr div 4096 * 4096"
  using unat_and_not_mask [of addr 12]
  by (simp add: page_tag_def mask_eq_exp_minus_1 minus_mod_eq_div_mult)

lemma page_index_eq: "page_index addr = unat addr div 4096 mod 1024"
  by (simp add: page_index_def unat_drop_bit_eq drop_bit_eq_div [of _ "unat addr"])

lemma page_tag_eq_iff: "page_tag a = page_tag b \<longleftrightarrow> unat a div 4096 = unat b div 4096"
  by (simp add: word_unat_eq_iff unat_page_tag)

lemma page_index_cong: "page_tag a = page_tag b \<Longrightarrow> page_index a = page_index b"
  by (simp add: page_tag_eq_iff page_index_eq)

lemma page_tag_idem [simp]: "page_tag (page_tag a) = page_tag a"
  by (simp add: page_tag_eq_iff unat_page_tag)

lemma page_index_tag [simp]: "page_index (page_tag a) = page_index a"
  by (rule page_index_cong) simp

lemma page_offset_tag [simp]: "page_offset (page_tag a) = 0"
  by (simp add: unat_page_offset unat_page_tag)

lemma unat_add_in_page:
  "page_offset a + i < 4096 \<Longrightarrow> unat (a + of_nat i) = unat a + i"
  using block_add(1) [of 4096 a i] by (simp add: unat_page_offset)

lemma same_page:
  assumes "page_offset a + i < 4096"
  shows "page_tag (a + of_nat i) = page_tag a" "page_offset (a + of_nat i) = page_offset a + i"
  using block_add [of 4096 a i] assms by (simp_all add: page_tag_eq_iff unat_page_offset)

section \<open>Page table operations\<close>

definition page_lookup :: "mem_t \<Rightarrow> u32 \<Rightarrow> mem_page_t option" where
  "page_lookup mem addr = find (\<lambda>p. mp_tag p = page_tag addr) (pages mem (page_index addr))"

definition mem_page_get :: "mem_t \<Rightarrow> u32 \<Rightarrow> mem_t \<times> mem_page_t option" where
  "mem_page_get mem addr =
     (let tag = page_tag addr; index = page_index addr; chain = pages mem index
      in (mem\<lparr>pages := (pages mem)(index := move_front (\<lambda>p. mp_tag p = tag) chain)\<rparr>,
          find (\<lambda>p. mp_tag p = tag) chain))"

text \<open>A store through a page pointer.\<close>

definition page_update :: "mem_t \<Rightarrow> u32 \<Rightarrow> (mem_page_t \<Rightarrow> mem_page_t) \<Rightarrow> mem_t" where
  "page_update mem addr f =
     mem\<lparr>pages := (pages mem)(page_index addr :=
        update_first (\<lambda>p. mp_tag p = page_tag addr) f (pages mem (page_index addr)))\<rparr>"

definition mem_page_get_next :: "mem_t \<Rightarrow> u32 \<Rightarrow> mem_page_t option" where
  "mem_page_get_next mem addr =
     (let tag = page_tag (addr + MEM_PAGE_SIZE) in
      if tag = 0 then None
      else case find (\<lambda>p. mp_tag p = tag) (pages mem (page_index tag)) of
        Some page \<Rightarrow> Some page
      | None \<Rightarrow> snd (fold (\<lambda>index s. fold (\<lambda>page (mintag, minpage).
            if mp_tag page > tag \<and> mp_tag page < mintag
            then (mp_tag page, Some page) else (mintag, minpage)) (pages mem index) s)
          [0..<MEM_PAGE_COUNT] (0xffffffff, None)))"

definition mem_page_create :: "mem_t \<Rightarrow> u32 \<Rightarrow> mem_access_t \<Rightarrow> mem_t" where
  "mem_page_create mem addr perm =
     (let page = \<lparr>mp_tag = page_tag addr, mp_perm = perm, mp_data = None\<rparr>;
          index = page_index addr
      in mem\<lparr>pages := (pages mem)(index := page # pages mem index)\<rparr>)"

definition mem_page_free :: "mem_t \<Rightarrow> u32 \<Rightarrow> mem_t" where
  "mem_page_free mem addr =
     mem\<lparr>pages := (pages mem)(page_index addr :=
        remove_first (\<lambda>p. mp_tag p = page_tag addr) (pages mem (page_index addr)))\<rparr>"

section \<open>Accesses\<close>

definition mem_read_page :: "mem_page_t \<Rightarrow> nat \<Rightarrow> nat \<Rightarrow> u8 list" where
  "mem_read_page page offset sz =
     (case mp_data page of
        None \<Rightarrow> replicate sz 0
      | Some d \<Rightarrow> map (\<lambda>i. d (offset + i)) [0..<sz])"

definition mem_write_page :: "nat \<Rightarrow> nat \<Rightarrow> u8 list \<Rightarrow> mem_page_t \<Rightarrow> mem_page_t" where
  "mem_write_page offset sz buf page =
     (let d = (case mp_data page of None \<Rightarrow> (\<lambda>_. 0) | Some d \<Rightarrow> d)
      in page\<lparr>mp_data := Some (\<lambda>i. if offset \<le> i \<and> i < offset + sz
                                      then buf ! (i - offset) else d i)\<rparr>)"

text \<open>
  The result is the memory and the contents of the caller's buffer after the call.
\<close>

definition mem_access_page_boundary ::
  "mem_t \<Rightarrow> u32 \<Rightarrow> nat \<Rightarrow> u8 list \<Rightarrow> mem_access_t \<Rightarrow> (mem_t \<times> u8 list) res" where
  "mem_access_page_boundary mem addr sz buf access =
     (let (mem, page) = mem_page_get mem addr; offset = page_offset addr in
      if \<not> offset + sz \<le> unat MEM_PAGE_SIZE then Inl Assert_failed
      else if page = None \<and> safe mem then Inl (Fatal ''page not allocated'')
      else if page = None \<and> (access = mem_access_read \<or> access = mem_access_exec)
      then Inr (mem, replicate sz 0)
      else
        let mem = (if page = None \<and> (access = mem_access_write \<or> access = mem_access_init)
                   then mem_page_create mem addr (mem_access_read OR mem_access_write OR
                          mem_access_exec OR mem_access_init)
                   else mem)
        in case page_lookup mem addr of
             None \<Rightarrow> Inl Assert_failed
           | Some _ \<Rightarrow>
        let mem = (if access = mem_access_write
                   then page_update mem addr (\<lambda>p. p\<lparr>mp_perm := mp_perm p OR mem_access_modif\<rparr>)
                   else mem)
        in case page_lookup mem addr of
             None \<Rightarrow> Inl Null_deref
           | Some p \<Rightarrow>
        if safe mem \<and> (mp_perm p AND access) \<noteq> access then Inl (Fatal ''permission denied'')
        else if access = mem_access_read \<or> access = mem_access_exec
        then Inr (mem, mem_read_page p offset sz)
        else if access = mem_access_write \<or> access = mem_access_init
        then Inr (page_update mem addr (mem_write_page offset sz buf), take sz buf)
        else Inl Aborted)"

function mem_access_loop ::
  "mem_t \<Rightarrow> u32 \<Rightarrow> nat \<Rightarrow> u8 list \<Rightarrow> mem_access_t \<Rightarrow> (mem_t \<times> u8 list) res" where
  "mem_access_loop mem addr sz buf access =
     (if sz = 0 then Inr (mem, [])
      else
        let offset = page_offset addr;
            chunksize = min sz (unat MEM_PAGE_SIZE - offset)
        in res_bind (mem_access_page_boundary mem addr chunksize buf access) (\<lambda>(mem, out).
           res_bind (mem_access_loop mem (addr + of_nat chunksize) (sz - chunksize)
                       (drop chunksize buf) access) (\<lambda>(mem, out').
           Inr (mem, out @ out'))))"
  by pat_completeness auto

termination mem_access_loop
proof (relation "measure (\<lambda>(mem, addr, sz, buf, access). sz)", goal_cases)
  case (2 mem addr sz buf access)
  then show ?case using page_offset_less [of addr] by (simp add: min_def)
qed simp

declare mem_access_loop.simps [simp del]

definition mem_access ::
  "mem_t \<Rightarrow> u32 \<Rightarrow> nat \<Rightarrow> u8 list \<Rightarrow> mem_access_t \<Rightarrow> (mem_t \<times> u8 list) res" where
  "mem_access mem addr sz buf access =
     mem_access_loop (mem\<lparr>last_address := addr\<rparr>) addr sz buf access"

definition mem_read :: "mem_t \<Rightarrow> u32 \<Rightarrow> nat \<Rightarrow> (mem_t \<times> u8 list) res" where
  "mem_read mem addr sz = mem_access mem addr sz (replicate sz 0) mem_access_read"

definition mem_write :: "mem_t \<Rightarrow> u32 \<Rightarrow> nat \<Rightarrow> u8 list \<Rightarrow> mem_t res" where
  "mem_write mem addr sz buf =
     res_bind (mem_access mem addr sz buf mem_access_write) (\<lambda>(mem, _). Inr mem)"

section \<open>Buffers, creation and links\<close>

text \<open>\<open>mem_get_buffer\<close> returns a pointer into a page: the page's tag and an offset.\<close>

definition mem_get_buffer ::
  "mem_t \<Rightarrow> u32 \<Rightarrow> nat \<Rightarrow> mem_access_t \<Rightarrow> (mem_t \<times> (u32 \<times> nat) option) res" where
  "mem_get_buffer mem addr sz access =
     (let offset = page_offset addr in
      if offset + sz > unat MEM_PAGE_SIZE then Inr (mem, None)
      else let (mem, page) = mem_page_get mem addr in
        case page of
          None \<Rightarrow> Inr (mem, None)
        | Some p \<Rightarrow>
            if (mp_perm p AND access) \<noteq> access \<and> safe mem then Inl (Fatal ''permission denied'')
            else Inr (if mp_data p = None
                      then page_update mem addr (\<lambda>p. p\<lparr>mp_data := Some (\<lambda>_. 0)\<rparr>) else mem,
                      Some (page_tag addr, offset)))"

text \<open>The body of the copy loop of \<open>mem_copy\<close>, once per page.\<close>

definition mem_copy_page :: "mem_t \<Rightarrow> u32 \<Rightarrow> u32 \<Rightarrow> mem_t res" where
  "mem_copy_page mem dest src =
     (let (mem, page_dest) = mem_page_get mem dest; (mem, page_src) = mem_page_get mem src in
      case (page_src, page_dest) of
        (Some ps, Some pd) \<Rightarrow>
          Inr (case mp_data ps of
                 Some d \<Rightarrow> page_update mem dest (\<lambda>p. p\<lparr>mp_data := Some d\<rparr>)
               | None \<Rightarrow> (if mp_data pd \<noteq> None
                          then page_update mem dest (\<lambda>p. p\<lparr>mp_data := Some (\<lambda>_. 0)\<rparr>) else mem))
      | _ \<Rightarrow> Inl Assert_failed)"

fun mem_copy_loop :: "mem_t \<Rightarrow> u32 \<Rightarrow> u32 \<Rightarrow> nat \<Rightarrow> mem_t res" where
  "mem_copy_loop mem dest src sz =
     (if sz > 0
      then res_bind (mem_copy_page mem dest src) (\<lambda>mem.
             mem_copy_loop mem (dest + MEM_PAGE_SIZE) (src + MEM_PAGE_SIZE) (sz - unat MEM_PAGE_SIZE))
      else Inr mem)"

declare mem_copy_loop.simps [simp del]

definition mem_copy :: "mem_t \<Rightarrow> u32 \<Rightarrow> u32 \<Rightarrow> nat \<Rightarrow> mem_t res" where
  "mem_copy mem dest src sz =
     (if dest AND (MEM_PAGE_SIZE - 1) \<noteq> 0 \<or> src AND (MEM_PAGE_SIZE - 1) \<noteq> 0 \<or>
         of_nat sz AND (MEM_PAGE_SIZE - 1) \<noteq> 0 then Inl Assert_failed
      else if src < dest \<and> src + of_nat sz > dest \<or> dest < src \<and> dest + of_nat sz > src
      then Inl (Fatal ''mem_copy: cannot copy overlapping regions'')
      else mem_copy_loop mem dest src sz)"

definition mem_create :: "bool \<Rightarrow> mem_t" where
  "mem_create mem_safe_mode =
     \<lparr>num_links = 0, pages = (\<lambda>_. []), safe = mem_safe_mode, heap_break = 0, last_address = 0\<rparr>"

partial_function (option) mem_clear_chain :: "nat \<Rightarrow> mem_t \<Rightarrow> mem_t option" where
  "mem_clear_chain i mem =
     (case pages mem i of
        [] \<Rightarrow> Some mem
      | p # _ \<Rightarrow> mem_clear_chain i (mem_page_free mem (mp_tag p)))"

text \<open>\<open>None\<close>: a chain is never emptied (its pages hash elsewhere).\<close>

definition mem_clear :: "mem_t \<Rightarrow> mem_t option" where
  "mem_clear mem =
     fold (\<lambda>i m. Option.bind m (mem_clear_chain i)) [0..<MEM_PAGE_COUNT] (Some mem)"

text \<open>\<open>mem_free\<close>: the memory is gone (\<open>Inr ()\<close>) or the assertion on links fails.\<close>

definition mem_free :: "mem_t \<Rightarrow> unit res option" where
  "mem_free mem =
     (if num_links mem \<noteq> 0 then Some (Inl Assert_failed)
      else map_option (\<lambda>_. Inr ()) (mem_clear mem))"

definition mem_link :: "mem_t \<Rightarrow> mem_t" where
  "mem_link mem = mem\<lparr>num_links := num_links mem + 1\<rparr>"

text \<open>\<open>mem_unlink\<close>: \<open>Inr None\<close> when the last link frees the memory.\<close>

definition mem_unlink :: "mem_t \<Rightarrow> mem_t option res option" where
  "mem_unlink mem =
     (if num_links mem < 0 then Some (Inl Assert_failed)
      else if num_links mem \<noteq> 0 then Some (Inr (Some (mem\<lparr>num_links := num_links mem - 1\<rparr>)))
      else map_option (\<lambda>r. case r of Inl e \<Rightarrow> Inl e | Inr _ \<Rightarrow> Inr None) (mem_free mem))"

section \<open>Mapping\<close>

text \<open>
  The searches for free space and the loops over the page tags of a range may run for
  ever; \<open>None\<close> is "does not return".
\<close>

partial_function (option) map_space_loop ::
  "mem_t \<Rightarrow> u32 \<Rightarrow> u32 \<Rightarrow> u32 \<Rightarrow> (mem_t \<times> u32) res option" where
  "map_space_loop mem tag_start tag_end sz =
     (if tag_end = 0 then Some (Inr (mem, - 1))
      else let (mem, page) = mem_page_get mem tag_end in
        if page \<noteq> None
        then map_space_loop mem (tag_end + MEM_PAGE_SIZE) (tag_end + MEM_PAGE_SIZE) sz
        else if tag_end - tag_start + MEM_PAGE_SIZE = sz then Some (Inr (mem, tag_start))
        else if \<not> tag_end - tag_start + MEM_PAGE_SIZE < sz then Some (Inl Assert_failed)
        else map_space_loop mem tag_start (tag_end + MEM_PAGE_SIZE) sz)"

definition mem_map_space :: "mem_t \<Rightarrow> u32 \<Rightarrow> u32 \<Rightarrow> (mem_t \<times> u32) res option" where
  "mem_map_space mem addr sz =
     (if addr AND (MEM_PAGE_SIZE - 1) \<noteq> 0 \<or> sz AND (MEM_PAGE_SIZE - 1) \<noteq> 0
      then Some (Inl Assert_failed)
      else map_space_loop mem addr addr sz)"

partial_function (option) map_space_down_loop ::
  "mem_t \<Rightarrow> u32 \<Rightarrow> u32 \<Rightarrow> u32 \<Rightarrow> (mem_t \<times> u32) res option" where
  "map_space_down_loop mem tag_start tag_end sz =
     (if tag_start = 0 then Some (Inr (mem, - 1))
      else let (mem, page) = mem_page_get mem tag_start in
        if page \<noteq> None
        then map_space_down_loop mem (tag_start - MEM_PAGE_SIZE) (tag_start - MEM_PAGE_SIZE) sz
        else if tag_end - tag_start + MEM_PAGE_SIZE = sz then Some (Inr (mem, tag_start))
        else if \<not> tag_end - tag_start + MEM_PAGE_SIZE < sz then Some (Inl Assert_failed)
        else map_space_down_loop mem (tag_start - MEM_PAGE_SIZE) tag_end sz)"

definition mem_map_space_down :: "mem_t \<Rightarrow> u32 \<Rightarrow> u32 \<Rightarrow> (mem_t \<times> u32) res option" where
  "mem_map_space_down mem addr sz =
     (if addr AND (MEM_PAGE_SIZE - 1) \<noteq> 0 \<or> sz AND (MEM_PAGE_SIZE - 1) \<noteq> 0
      then Some (Inl Assert_failed)
      else map_space_down_loop mem addr addr sz)"

text \<open>\<open>for (tag = tag1; tag <= tag2; tag += MEM_PAGE_SIZE) body\<close>\<close>

partial_function (option) tag_loop :: "u32 \<Rightarrow> (u32 \<Rightarrow> 's \<Rightarrow> 's) \<Rightarrow> u32 \<Rightarrow> 's \<Rightarrow> 's option" where
  "tag_loop tag2 body tag s =
     (if tag \<le> tag2 then tag_loop tag2 body (tag + MEM_PAGE_SIZE) (body tag s) else Some s)"

definition mem_map_page :: "mem_access_t \<Rightarrow> u32 \<Rightarrow> mem_t \<Rightarrow> mem_t" where
  "mem_map_page perm tag mem =
     (let (mem, page) = mem_page_get mem tag;
          mem = (if page = None then mem_page_create mem tag perm else mem)
      in page_update mem tag (\<lambda>p. p\<lparr>mp_perm := mp_perm p OR perm\<rparr>))"

definition mem_map :: "mem_t \<Rightarrow> u32 \<Rightarrow> u32 \<Rightarrow> mem_access_t \<Rightarrow> mem_t option" where
  "mem_map mem addr sz perm =
     (let tag1 = page_tag addr; tag2 = page_tag (addr + sz - 1)
      in tag_loop tag2 (mem_map_page perm) tag1 mem)"

definition mem_unmap :: "mem_t \<Rightarrow> u32 \<Rightarrow> u32 \<Rightarrow> mem_t res option" where
  "mem_unmap mem addr sz =
     (if addr AND (MEM_PAGE_SIZE - 1) \<noteq> 0 \<or> sz AND (MEM_PAGE_SIZE - 1) \<noteq> 0
      then Some (Inl Assert_failed)
      else let tag1 = page_tag addr; tag2 = page_tag (addr + sz - 1)
        in map_option Inr (tag_loop tag2 (\<lambda>tag mem. mem_page_free mem tag) tag1 mem))"

definition mem_protect_page :: "mem_access_t \<Rightarrow> u32 \<Rightarrow> mem_t \<Rightarrow> mem_t" where
  "mem_protect_page perm tag mem =
     (let (mem, page) = mem_page_get mem tag in
      if page = None then mem else page_update mem tag (\<lambda>p. p\<lparr>mp_perm := perm\<rparr>))"

definition mem_protect :: "mem_t \<Rightarrow> u32 \<Rightarrow> u32 \<Rightarrow> mem_access_t \<Rightarrow> mem_t res option" where
  "mem_protect mem addr sz perm =
     (if addr AND (MEM_PAGE_SIZE - 1) \<noteq> 0 \<or> sz AND (MEM_PAGE_SIZE - 1) \<noteq> 0
      then Some (Inl Assert_failed)
      else let tag1 = page_tag addr; tag2 = page_tag (addr + sz - 1)
        in map_option Inr (tag_loop tag2 (mem_protect_page perm) tag1 mem))"

section \<open>Strings, files and clones\<close>

text \<open>A C string is its bytes up to the terminator; a file is its bytes.\<close>

definition mem_write_string :: "mem_t \<Rightarrow> u32 \<Rightarrow> u8 list \<Rightarrow> mem_t res" where
  "mem_write_string mem addr str =
     res_bind (mem_access mem addr (length str + 1) (str @ [0]) mem_access_write) (\<lambda>(mem, _). Inr mem)"

fun mem_read_string_loop ::
  "mem_t \<Rightarrow> u32 \<Rightarrow> nat \<Rightarrow> nat \<Rightarrow> u8 list \<Rightarrow> (mem_t \<times> nat \<times> u8 list) res" where
  "mem_read_string_loop mem addr 0 i str = Inr (mem, i, str)"
| "mem_read_string_loop mem addr (Suc n) i str =
     res_bind (mem_access mem (addr + of_nat i) 1 [0] mem_access_read) (\<lambda>(mem, buf).
     let str = str @ buf in
     if hd buf = 0 then Inr (mem, i, str) else mem_read_string_loop mem addr n (Suc i) str)"

definition mem_read_string :: "mem_t \<Rightarrow> u32 \<Rightarrow> nat \<Rightarrow> (mem_t \<times> nat \<times> u8 list) res" where
  "mem_read_string mem addr sz = mem_read_string_loop mem addr sz 0 []"

fun mem_zero :: "mem_t \<Rightarrow> u32 \<Rightarrow> nat \<Rightarrow> mem_t res" where
  "mem_zero mem addr 0 = Inr mem"
| "mem_zero mem addr (Suc n) =
     res_bind (mem_access mem addr 0 [0] mem_access_write) (\<lambda>(mem, _). mem_zero mem (addr + 1) n)"

function mem_dump_loop :: "mem_t \<Rightarrow> u32 \<Rightarrow> u32 \<Rightarrow> (mem_t \<times> u8 list) res" where
  "mem_dump_loop mem start stop =
     (if start < stop then
        let sz = min MEM_PAGE_SIZE (stop - start) in
        res_bind (mem_access mem start (unat sz) (replicate (unat sz) 0) mem_access_read) (\<lambda>(mem, buf).
        res_bind (mem_dump_loop mem (start + sz) stop) (\<lambda>(mem, rest). Inr (mem, buf @ rest)))
      else Inr (mem, []))"
  by pat_completeness auto

lemma dump_step:
  assumes "start < stop"
  shows "unat (stop - (start + min 4096 (stop - start))) < unat (stop - start :: u32)"
proof -
  define d where "d = stop - start"
  define m where "m = min 4096 d"
  have "d \<noteq> 0" using assms by (auto simp: d_def)
  then have "m \<noteq> 0" by (auto simp: m_def min_def split: if_splits)
  then have "0 < unat m" by (simp add: unat_gt_0)
  moreover have "m \<le> d" by (simp add: m_def)
  then have "unat (d - m) = unat d - unat m" "unat m \<le> unat d"
    by (simp_all add: unat_sub word_le_nat_alt)
  ultimately have "unat (d - m) < unat d" by linarith
  moreover have "stop - (start + m) = d - m" by (simp add: d_def algebra_simps)
  ultimately show ?thesis by (simp only: d_def m_def)
qed

termination mem_dump_loop
  by (relation "measure (\<lambda>(mem, start, stop). unat (stop - start))") (auto simp: dump_step)

declare mem_dump_loop.simps [simp del]

definition mem_dump :: "bool \<Rightarrow> mem_t \<Rightarrow> u32 \<Rightarrow> u32 \<Rightarrow> (mem_t \<times> u8 list) res" where
  "mem_dump mem_safe_mode mem start stop =
     res_bind (mem_dump_loop (mem\<lparr>safe := False\<rparr>) start stop)
       (\<lambda>(mem, file). Inr (mem\<lparr>safe := mem_safe_mode\<rparr>, file))"

function mem_load_loop :: "mem_t \<Rightarrow> u8 list \<Rightarrow> u32 \<Rightarrow> mem_t res" where
  "mem_load_loop mem file start =
     (let buf = take (unat MEM_PAGE_SIZE) file; sz = length buf in
      if sz = 0 then Inr mem
      else res_bind (mem_access mem start sz buf mem_access_write) (\<lambda>(mem, _).
           mem_load_loop mem (drop sz file) (start + of_nat sz)))"
  by pat_completeness auto
termination
  by (relation "measure (\<lambda>(mem, file, start). length file)") auto

declare mem_load_loop.simps [simp del]

definition mem_load :: "bool \<Rightarrow> mem_t \<Rightarrow> u8 list \<Rightarrow> u32 \<Rightarrow> mem_t res" where
  "mem_load mem_safe_mode mem file start =
     res_bind (mem_load_loop (mem\<lparr>safe := False\<rparr>) file start) (\<lambda>mem. Inr (mem\<lparr>safe := mem_safe_mode\<rparr>))"

definition mem_clone_page :: "mem_page_t \<Rightarrow> mem_t res \<Rightarrow> mem_t res" where
  "mem_clone_page page dst =
     res_bind dst (\<lambda>dst.
     let dst = mem_page_create dst (mp_tag page) (mp_perm page) in
     case mp_data page of
       None \<Rightarrow> Inr dst
     | Some d \<Rightarrow> res_bind (mem_access dst (mp_tag page) (unat MEM_PAGE_SIZE)
                    (map d [0..<unat MEM_PAGE_SIZE]) mem_access_init) (\<lambda>(dst, _). Inr dst))"

definition mem_clone :: "mem_t \<Rightarrow> mem_t \<Rightarrow> mem_t res option" where
  "mem_clone dst_mem src_mem =
     map_option (\<lambda>dst.
       res_bind (fold (\<lambda>i d. fold mem_clone_page (pages src_mem i) d) [0..<MEM_PAGE_COUNT]
                   (Inr (dst\<lparr>safe := False\<rparr>)))
         (\<lambda>dst. Inr (dst\<lparr>safe := safe src_mem, heap_break := heap_break src_mem\<rparr>)))
     (mem_clear dst_mem)"

section \<open>The byte view\<close>

text \<open>
  What a program sees of a memory image: every address has a byte, zero where there is no
  page or no page data yet, and a page is reached by its tag whatever the order of its
  chain. \<open>allowed\<close> is what safe mode asks of an address before it is accessed.
\<close>

definition page_bytes :: "mem_page_t \<Rightarrow> nat \<Rightarrow> u8" where
  "page_bytes p = (case mp_data p of None \<Rightarrow> (\<lambda>_. 0) | Some d \<Rightarrow> d)"

definition mem_byte :: "mem_t \<Rightarrow> u32 \<Rightarrow> u8" where
  "mem_byte mem a = (case page_lookup mem a of None \<Rightarrow> 0 | Some p \<Rightarrow> page_bytes p (page_offset a))"

definition allowed :: "mem_t \<Rightarrow> mem_access_t \<Rightarrow> u32 \<Rightarrow> bool" where
  "allowed mem access a =
     (case page_lookup mem a of
        None \<Rightarrow> \<not> safe mem
      | Some p \<Rightarrow> safe mem \<longrightarrow> (mp_perm p OR (if access = mem_access_write then mem_access_modif else 0))
                               AND access = access)"

lemma page_lookup_cong: "page_tag a = page_tag b \<Longrightarrow> page_lookup mem a = page_lookup mem b"
  by (simp add: page_lookup_def page_index_cong [of a b])

lemma page_lookup_SomeD: "page_lookup mem a = Some p \<Longrightarrow> mp_tag p = page_tag a"
  unfolding page_lookup_def by (drule find_SomeD) simp

lemma page_lookup_pages_cong: "pages m = pages m' \<Longrightarrow> page_lookup m a = page_lookup m' a"
  by (simp add: page_lookup_def)

lemma page_lookup_last [simp]: "page_lookup (m\<lparr>last_address := x\<rparr>) a = page_lookup m a"
  by (simp add: page_lookup_def)

lemma page_lookup_safe [simp]: "page_lookup (m\<lparr>safe := x\<rparr>) a = page_lookup m a"
  by (simp add: page_lookup_def)

lemma mem_page_get_eq:
  "mem_page_get mem a = (fst (mem_page_get mem a), page_lookup mem a)"
  by (simp add: mem_page_get_def page_lookup_def Let_def)

lemma page_lookup_get [simp]: "page_lookup (fst (mem_page_get mem a)) b = page_lookup mem b"
  by (simp add: mem_page_get_def page_lookup_def Let_def)

lemma safe_get [simp]: "safe (fst (mem_page_get mem a)) = safe mem"
  by (simp add: mem_page_get_def Let_def)

lemma safe_update [simp]: "safe (page_update mem a f) = safe mem"
  by (simp add: page_update_def)

lemma safe_create [simp]: "safe (mem_page_create mem a perm) = safe mem"
  by (simp add: mem_page_create_def Let_def)

lemma page_lookup_update:
  "(\<And>p. mp_tag (f p) = mp_tag p) \<Longrightarrow>
   page_lookup (page_update mem a f) b =
     (if page_tag b = page_tag a then map_option f (page_lookup mem a) else page_lookup mem b)"
  by (auto simp: page_lookup_def page_update_def find_update_first dest: page_index_cong)

lemma page_lookup_create:
  "page_lookup (mem_page_create mem a perm) b =
     (if page_tag b = page_tag a then Some \<lparr>mp_tag = page_tag a, mp_perm = perm, mp_data = None\<rparr>
      else page_lookup mem b)"
  by (auto simp: page_lookup_def mem_page_create_def Let_def dest: page_index_cong)

lemma mp_tag_write_page [simp]: "mp_tag (mem_write_page off n buf p) = mp_tag p"
  by (simp add: mem_write_page_def Let_def)

lemma page_bytes_write_page:
  "page_bytes (mem_write_page off n buf p) i =
     (if off \<le> i \<and> i < off + n then buf ! (i - off) else page_bytes p i)"
  by (simp add: mem_write_page_def page_bytes_def Let_def split: option.split)

lemma mem_read_page_eq: "mem_read_page p off n = map (\<lambda>i. page_bytes p (off + i)) [0..<n]"
  by (simp add: mem_read_page_def page_bytes_def map_replicate_const split: option.split)

text \<open>One access that stays inside its page.\<close>

lemma get_bytes_page:
  assumes "page_offset a + n \<le> 4096"
  shows "get_bytes (mem_byte mem) a n =
     (case page_lookup mem a of None \<Rightarrow> replicate n 0 | Some p \<Rightarrow> mem_read_page p (page_offset a) n)"
proof (rule nth_equalityI)
  show "length (get_bytes (mem_byte mem) a n) = length (case page_lookup mem a of
      None \<Rightarrow> replicate n 0 | Some p \<Rightarrow> mem_read_page p (page_offset a) n)"
    by (simp add: mem_read_page_eq split: option.split)
next
  fix i assume "i < length (get_bytes (mem_byte mem) a n)"
  then have "i < n" and "page_offset a + i < 4096" using assms by simp_all
  with same_page [OF this(2)] page_lookup_cong [OF same_page(1) [OF this(2)], of mem]
  show "get_bytes (mem_byte mem) a n ! i = (case page_lookup mem a of
      None \<Rightarrow> replicate n 0 | Some p \<Rightarrow> mem_read_page p (page_offset a) n) ! i"
    by (simp add: get_bytes_nth mem_byte_def mem_read_page_eq split: option.split)
qed

lemma put_bytes_page:
  assumes "page_offset a + n \<le> 4096" "n \<le> length buf"
    and other: "\<And>b. page_tag b \<noteq> page_tag a \<Longrightarrow> v' b = v b"
    and same: "\<And>b. page_tag b = page_tag a \<Longrightarrow> v' b =
        (if page_offset a \<le> page_offset b \<and> page_offset b < page_offset a + n
         then buf ! (page_offset b - page_offset a) else v b)"
  shows "v' = put_bytes v a (take n buf)"
  by (rule put_bytes_block [of 4096])
    (use assms in \<open>auto simp: page_tag_eq_iff unat_page_offset\<close>)

text \<open>The access kinds the callers use, and what one access does to the byte view.\<close>

definition access_kinds :: "mem_access_t set" where
  "access_kinds = {mem_access_read, mem_access_write, mem_access_exec, mem_access_init}"

definition is_store :: "mem_access_t \<Rightarrow> bool" where
  "is_store access \<longleftrightarrow> access = mem_access_write \<or> access = mem_access_init"

definition access_post ::
  "mem_t \<Rightarrow> mem_t \<Rightarrow> mem_access_t \<Rightarrow> u32 \<Rightarrow> nat \<Rightarrow> u8 list \<Rightarrow> u8 list \<Rightarrow> bool" where
  "access_post m m' access a n buf out \<longleftrightarrow>
     safe m' = safe m \<and>
     (\<forall>k \<in> access_kinds. \<forall>b. allowed m' k b = allowed m k b) \<and>
     (if is_store access
      then mem_byte m' = put_bytes (mem_byte m) a (take n buf) \<and> out = take n buf
      else mem_byte m' = mem_byte m \<and> out = get_bytes (mem_byte m) a n)"

lemma access_kinds_modif:
  "k \<in> access_kinds \<Longrightarrow> (p OR mem_access_modif) AND k = p AND k"
  by (auto simp: access_kinds_def mem_access_defs bit.conj_disj_distrib2)

lemma is_store_cases:
  "access \<in> access_kinds \<Longrightarrow> \<not> is_store access \<Longrightarrow> access = mem_access_read \<or> access = mem_access_exec"
  "mem_access_read \<noteq> mem_access_write" "mem_access_read \<noteq> mem_access_init"
  "mem_access_exec \<noteq> mem_access_write" "mem_access_exec \<noteq> mem_access_init"
  "mem_access_init \<noteq> mem_access_write"
  by (auto simp: access_kinds_def is_store_def mem_access_defs)

lemma allowed_kind:
  "k \<in> access_kinds \<Longrightarrow> allowed m k b =
     (case page_lookup m b of None \<Rightarrow> \<not> safe m | Some p \<Rightarrow> safe m \<longrightarrow> mp_perm p AND k = k)"
  by (auto simp: allowed_def access_kinds_modif split: option.split)

text \<open>Two memories with the same pages, up to the modified flag and the order of a chain.\<close>

lemma allowed_cong_update:
  assumes "k \<in> access_kinds"
    and "\<And>p. mp_tag (f p) = mp_tag p" "\<And>p. mp_perm (f p) AND k = mp_perm p AND k"
  shows "allowed (page_update m a f) k b = allowed m k b"
  using assms page_lookup_cong [of b a m]
  by (auto simp: allowed_kind page_lookup_update split: option.splits)

lemma allowed_get: "k \<in> access_kinds \<Longrightarrow> allowed (fst (mem_page_get m a)) k b = allowed m k b"
  by (simp add: allowed_kind split: option.split)

lemma mem_byte_get [simp]: "mem_byte (fst (mem_page_get m a)) = mem_byte m"
  by (simp add: mem_byte_def fun_eq_iff)

lemma mem_byte_update_perm [simp]:
  "mem_byte (page_update m a (\<lambda>p. p\<lparr>mp_perm := g p\<rparr>)) = mem_byte m"
proof
  fix b
  show "mem_byte (page_update m a (\<lambda>p. p\<lparr>mp_perm := g p\<rparr>)) b = mem_byte m b"
    using page_lookup_cong [of b a m]
    by (simp add: mem_byte_def page_lookup_update page_bytes_def split: option.split)
qed

lemma mem_byte_create:
  "page_lookup m a = None \<Longrightarrow> mem_byte (mem_page_create m a perm) = mem_byte m"
proof
  fix b assume "page_lookup m a = None"
  then show "mem_byte (mem_page_create m a perm) b = mem_byte m b"
    using page_lookup_cong [of b a m]
    by (simp add: mem_byte_def page_lookup_create page_bytes_def)
qed

lemma mem_byte_write_page:
  assumes "page_offset a + n \<le> 4096" "n \<le> length buf" "page_lookup m a \<noteq> None"
  shows "mem_byte (page_update m a (mem_write_page (page_offset a) n buf))
           = put_bytes (mem_byte m) a (take n buf)"
proof (rule put_bytes_page [OF assms(1,2)])
  fix b assume "page_tag b \<noteq> page_tag a"
  then show "mem_byte (page_update m a (mem_write_page (page_offset a) n buf)) b = mem_byte m b"
    by (simp add: mem_byte_def page_lookup_update)
next
  fix b assume b: "page_tag b = page_tag a"
  from assms(3) obtain p where "page_lookup m a = Some p" by blast
  with b page_lookup_cong [OF b, of m]
  show "mem_byte (page_update m a (mem_write_page (page_offset a) n buf)) b =
      (if page_offset a \<le> page_offset b \<and> page_offset b < page_offset a + n
       then buf ! (page_offset b - page_offset a) else mem_byte m b)"
    by (simp add: mem_byte_def page_lookup_update page_bytes_write_page)
qed

lemma boundary_no_page:
  assumes "page_lookup m a = None" "page_offset a + n \<le> 4096" "access \<in> access_kinds"
  shows "mem_access_page_boundary m a n buf access =
     (let m1 = fst (mem_page_get m a);
          m2 = mem_page_create m1 a (mem_access_read OR mem_access_write OR mem_access_exec OR mem_access_init);
          m3 = (if access = mem_access_write
                then page_update m2 a (\<lambda>p. p\<lparr>mp_perm := mp_perm p OR mem_access_modif\<rparr>) else m2)
      in if safe m then Inl (Fatal ''page not allocated'')
         else if is_store access
         then Inr (page_update m3 a (mem_write_page (page_offset a) n buf), take n buf)
         else Inr (m1, replicate n 0))"
  using assms is_store_cases
  unfolding mem_access_page_boundary_def
  by (subst mem_page_get_eq)
     (auto simp: Let_def is_store_def page_lookup_create page_lookup_update access_kinds_def)

lemma boundary_page:
  assumes "page_lookup m a = Some p" "page_offset a + n \<le> 4096" "access \<in> access_kinds"
  shows "mem_access_page_boundary m a n buf access =
     (let m1 = fst (mem_page_get m a);
          m2 = (if access = mem_access_write
                then page_update m1 a (\<lambda>p. p\<lparr>mp_perm := mp_perm p OR mem_access_modif\<rparr>) else m1)
      in if safe m \<and> mp_perm p AND access \<noteq> access then Inl (Fatal ''permission denied'')
         else if is_store access
         then Inr (page_update m2 a (mem_write_page (page_offset a) n buf), take n buf)
         else Inr (m1, mem_read_page p (page_offset a) n))"
  using assms is_store_cases access_kinds_modif [OF assms(3)]
  unfolding mem_access_page_boundary_def
  by (subst mem_page_get_eq)
     (auto simp: Let_def is_store_def page_lookup_update access_kinds_def)

lemma create_full_perm:
  "k \<in> access_kinds \<Longrightarrow>
   (mem_access_read OR mem_access_write OR mem_access_exec OR mem_access_init) AND k = k"
  by (auto simp: access_kinds_def mem_access_defs)

lemma allowed_write_page:
  "k \<in> access_kinds \<Longrightarrow> allowed (page_update m a (mem_write_page off n buf)) k b = allowed m k b"
  by (rule allowed_cong_update) (auto simp: mem_write_page_def Let_def)

lemma allowed_modif:
  "k \<in> access_kinds \<Longrightarrow>
   allowed (page_update m a (\<lambda>p. p\<lparr>mp_perm := mp_perm p OR mem_access_modif\<rparr>)) k b = allowed m k b"
  by (rule allowed_cong_update) (auto simp: access_kinds_modif)

lemma allowed_create:
  assumes "k \<in> access_kinds" "page_lookup m a = None" "\<not> safe m"
  shows "allowed (mem_page_create m a perm) k b = allowed m k b"
  using assms by (auto simp: allowed_kind page_lookup_create split: option.splits)

lemma boundary_ok:
  assumes "page_offset a + n \<le> 4096" "n \<le> length buf" "access \<in> access_kinds" "allowed m access a"
  shows "\<exists>m' out. mem_access_page_boundary m a n buf access = Inr (m', out) \<and>
           access_post m m' access a n buf out"
proof (cases "page_lookup m a")
  case None
  with assms have "\<not> safe m" by (simp add: allowed_kind)
  with assms None show ?thesis
    by (auto simp: boundary_no_page Let_def access_post_def mem_byte_write_page page_lookup_create
        page_lookup_update mem_byte_create get_bytes_page allowed_write_page allowed_modif
        allowed_create allowed_get)
next
  case (Some p)
  with assms have "\<not> (safe m \<and> mp_perm p AND access \<noteq> access)" by (simp add: allowed_kind)
  with assms Some show ?thesis
    by (auto simp: boundary_page Let_def access_post_def mem_byte_write_page
        page_lookup_update get_bytes_page allowed_write_page allowed_modif allowed_get)
qed

lemma boundary_err:
  assumes "page_offset a + n \<le> 4096" "access \<in> access_kinds" "\<not> allowed m access a"
  shows "\<exists>e. mem_access_page_boundary m a n buf access = Inl e"
proof (cases "page_lookup m a")
  case None
  with assms show ?thesis by (simp add: boundary_no_page Let_def allowed_kind)
next
  case (Some p)
  with assms show ?thesis by (simp add: boundary_page Let_def allowed_kind)
qed

lemma allowed_in_page:
  "page_offset a + i < 4096 \<Longrightarrow> allowed m k (a + of_nat i) = allowed m k a"
  unfolding allowed_def by (simp add: page_lookup_cong [OF same_page(1)])

lemma access_post_trans:
  assumes p1: "access_post m m1 access a c buf out1"
    and p2: "access_post m1 m2 access (a + of_nat c) d (drop c buf) out2"
    and "c \<le> length buf"
  shows "access_post m m2 access a (c + d) buf (out1 @ out2)"
  using assms
  by (auto simp: access_post_def take_add put_bytes_append get_bytes_add min_absorb2)

lemma access_loop_ok:
  "access \<in> access_kinds \<Longrightarrow> n \<le> length buf \<Longrightarrow> (\<And>i. i < n \<Longrightarrow> allowed m access (a + of_nat i)) \<Longrightarrow>
   \<exists>m' out. mem_access_loop m a n buf access = Inr (m', out) \<and> access_post m m' access a n buf out"
proof (induction n arbitrary: m a buf rule: less_induct)
  case (less n)
  show ?case
  proof (cases "n = 0")
    case True
    then show ?thesis by (simp add: mem_access_loop.simps access_post_def)
  next
    case False
    let ?c = "min n (4096 - page_offset a)"
    have c: "page_offset a + ?c \<le> 4096" "?c \<le> length buf" "?c \<le> n" "0 < ?c"
      using False less.prems(2) page_offset_less [of a] by linarith+
    have "allowed m access a" using less.prems(3) [of 0] False by simp
    from boundary_ok [OF c(1,2) less.prems(1) this] obtain m1 out1 where
      b: "mem_access_page_boundary m a ?c buf access = Inr (m1, out1)"
        "access_post m m1 access a ?c buf out1" by blast
    have al: "allowed m1 access (a + of_nat ?c + of_nat i)" if "i < n - ?c" for i
      using b(2) less.prems(1) less.prems(3) [of "?c + i"] that
      by (simp add: access_post_def add.assoc)
    have "n - ?c < n" "n - ?c \<le> length (drop ?c buf)" using c less.prems(2) by auto
    from less.IH [OF this(1) less.prems(1) this(2) al]
    obtain m2 out2 where l: "mem_access_loop m1 (a + of_nat ?c) (n - ?c) (drop ?c buf) access = Inr (m2, out2)"
        "access_post m1 m2 access (a + of_nat ?c) (n - ?c) (drop ?c buf) out2"
      by blast
    from access_post_trans [OF b(2) l(2) c(2)] c(3)
    have "access_post m m2 access a n buf (out1 @ out2)" by simp
    with False b(1) l(1) show ?thesis
      by (subst mem_access_loop.simps) (simp add: Let_def)
  qed
qed

lemma access_loop_err:
  "access \<in> access_kinds \<Longrightarrow> n \<le> length buf \<Longrightarrow> i < n \<Longrightarrow> \<not> allowed m access (a + of_nat i) \<Longrightarrow>
   \<exists>e. mem_access_loop m a n buf access = Inl e"
proof (induction n arbitrary: m a buf i rule: less_induct)
  case (less n)
  let ?c = "min n (4096 - page_offset a)"
  have n: "n \<noteq> 0" using less.prems by simp
  have c: "page_offset a + ?c \<le> 4096" "?c \<le> length buf" "?c \<le> n" "0 < ?c"
    using n less.prems(2) page_offset_less [of a] by linarith+
  show ?case
  proof (cases "allowed m access a")
    case False
    with boundary_err [OF c(1) less.prems(1) False, of buf] n show ?thesis
      by (subst mem_access_loop.simps) (auto simp: Let_def)
  next
    case True
    from boundary_ok [OF c(1,2) less.prems(1) this] obtain m1 out1 where
      b: "mem_access_page_boundary m a ?c buf access = Inr (m1, out1)"
        "access_post m m1 access a ?c buf out1" by blast
    have "?c \<le> i"
    proof (rule ccontr)
      assume "\<not> ?c \<le> i"
      then have "page_offset a + i < 4096" using c(1) by linarith
      from allowed_in_page [OF this, of m access] True less.prems(4) show False by simp
    qed
    then have "\<not> allowed m access (a + of_nat ?c + of_nat (i - ?c))"
      using less.prems(4) by (simp add: add.assoc flip: of_nat_add)
    then have "\<not> allowed m1 access (a + of_nat ?c + of_nat (i - ?c))"
      using b(2) less.prems(1) by (simp add: access_post_def)
    moreover have "n - ?c < n" "n - ?c \<le> length (drop ?c buf)" "i - ?c < n - ?c"
      using c less.prems(2,3) \<open>?c \<le> i\<close> by auto
    ultimately obtain e where "mem_access_loop m1 (a + of_nat ?c) (n - ?c) (drop ?c buf) access = Inl e"
      using less.IH less.prems(1) by blast
    with n b(1) show ?thesis by (subst mem_access_loop.simps) (auto simp: Let_def)
  qed
qed

section \<open>What an access does\<close>

text \<open>
  An access of any length succeeds exactly when every byte of its range is allowed (in
  unsafe mode: always), and then acts on the byte view as the abstract byte memory does.
\<close>

theorem mem_access_correct:
  assumes "access \<in> access_kinds" "n \<le> length buf"
  shows "(\<exists>m' out. mem_access m a n buf access = Inr (m', out) \<and> access_post m m' access a n buf out)
           \<longleftrightarrow> (\<forall>i < n. allowed m access (a + of_nat i))"
    and "(\<exists>r. mem_access m a n buf access = Inr r) \<longleftrightarrow> (\<forall>i < n. allowed m access (a + of_nat i))"
proof -
  let ?m = "m\<lparr>last_address := a\<rparr>"
  have al: "allowed ?m k b = allowed m k b" for k b by (simp add: allowed_def split: option.split)
  have mb: "mem_byte ?m = mem_byte m" by (simp add: mem_byte_def fun_eq_iff)
  have post: "access_post ?m m' access a n buf out = access_post m m' access a n buf out" for m' out
    by (simp add: access_post_def al mb)
  from access_loop_ok [OF assms, of ?m a] access_loop_err [OF assms, of _ ?m a]
  show "(\<exists>m' out. mem_access m a n buf access = Inr (m', out) \<and> access_post m m' access a n buf out)
           \<longleftrightarrow> (\<forall>i < n. allowed m access (a + of_nat i))"
    "(\<exists>r. mem_access m a n buf access = Inr r) \<longleftrightarrow> (\<forall>i < n. allowed m access (a + of_nat i))"
    unfolding mem_access_def al post by (metis (no_types) Inl_Inr_False)+
qed

end
