(* ===== verification/Memory_Map.thy ===== *)
theory Memory_Map
  imports Memory
begin

text \<open>
  Facts on the page table of \<open>Memory\<close>: its invariant (every page hangs in the chain its
  tag hashes to, once), the loops over the page tags of a range, clearing, searching free
  space, cloning and loading.
\<close>

section \<open>The page table invariant\<close>

definition mem_ok :: "mem_t \<Rightarrow> bool" where
  "mem_ok m \<longleftrightarrow>
     (\<forall>i. distinct (map mp_tag (pages m i)) \<and>
          (\<forall>p \<in> set (pages m i). page_tag (mp_tag p) = mp_tag p \<and> page_index (mp_tag p) = i))"

lemma mem_ok_last [simp]: "mem_ok (m\<lparr>last_address := a\<rparr>) = mem_ok m"
  by (simp add: mem_ok_def)

lemma mem_ok_safe [simp]: "mem_ok (m\<lparr>safe := a\<rparr>) = mem_ok m"
  by (simp add: mem_ok_def)

lemma mem_ok_create: "mem_ok (mem_create b)"
  by (simp add: mem_ok_def mem_create_def)

lemma mem_ok_get [simp]: "mem_ok (fst (mem_page_get m a)) = mem_ok m"
proof -
  have "distinct (map mp_tag (move_front P ps)) = distinct (map mp_tag ps)" for P ps
    by (metis mset_map mset_move_front mset_eq_imp_distinct_iff)
  then show ?thesis by (auto simp: mem_ok_def mem_page_get_def Let_def)
qed

lemma set_update_first: "x \<in> set (update_first P f ps) \<Longrightarrow> x \<in> set ps \<or> (\<exists>y \<in> set ps. x = f y)"
  by (induction ps) (auto split: if_splits)

lemma mem_ok_update [intro]:
  assumes "mem_ok m" "\<And>p. mp_tag (f p) = mp_tag p"
  shows "mem_ok (page_update m a f)"
  using assms by (auto simp: mem_ok_def page_update_def dest!: set_update_first)

lemma mem_ok_page_create [intro]:
  assumes "mem_ok m" "page_lookup m a = None"
  shows "mem_ok (mem_page_create m a perm)"
  using assms by (auto simp: mem_ok_def mem_page_create_def Let_def page_lookup_def find_key_None)

lemma mem_ok_free [intro]: "mem_ok m \<Longrightarrow> mem_ok (mem_page_free m a)"
  by (auto simp: mem_ok_def mem_page_free_def distinct_remove_first dest: set_remove_first [THEN subsetD])

lemma page_lookup_free:
  assumes "mem_ok m"
  shows "page_lookup (mem_page_free m a) b = (if page_tag b = page_tag a then None else page_lookup m b)"
  using assms by (auto simp: page_lookup_def mem_page_free_def find_remove_first mem_ok_def dest: page_index_cong)

lemma page_lookup_pages:
  assumes "mem_ok m" "p \<in> set (pages m i)"
  shows "page_lookup m (mp_tag p) = Some p"
proof -
  from assms have "page_tag (mp_tag p) = mp_tag p" "page_index (mp_tag p) = i"
      "distinct (map mp_tag (pages m i))"
    by (auto simp: mem_ok_def)
  with assms(2) show ?thesis by (simp add: page_lookup_def distinct_keys_find)
qed

lemma pages_empty_iff:
  "mem_ok m \<Longrightarrow> (\<forall>i. pages m i = []) \<longleftrightarrow> (\<forall>a. page_lookup m a = None)"
  by (metis find.simps(1) list.set_intros(1) neq_Nil_conv option.distinct(1) page_lookup_def page_lookup_pages)

section \<open>Loops over a range of pages\<close>

text \<open>
  The three operations that walk a range (\<open>mem_map\<close>, \<open>mem_unmap\<close>, \<open>mem_protect\<close>)
  apply a body to one page tag after the other. The interface says what a body does to
  the page table: it changes the page of its tag alone, and keeps an invariant.
\<close>

definition page_range :: "u32 \<Rightarrow> u32 \<Rightarrow> u32 list" where
  "page_range tag1 tag2 =
     map (\<lambda>k. tag1 + of_nat (4096 * k)) [0..<(unat tag2 + 4096 - unat tag1) div 4096]"

locale page_op =
  fixes body :: "u32 \<Rightarrow> mem_t \<Rightarrow> mem_t"
    and effect :: "u32 \<Rightarrow> mem_page_t option \<Rightarrow> mem_page_t option"
    and inv :: "mem_t \<Rightarrow> bool"
  assumes inv_body: "inv m \<Longrightarrow> page_tag t = t \<Longrightarrow> inv (body t m)"
    and lookup_body: "inv m \<Longrightarrow> page_tag t = t \<Longrightarrow>
      page_lookup (body t m) b = (if page_tag b = t then effect t (page_lookup m b) else page_lookup m b)"
    and safe_body: "safe (body t m) = safe m"
begin

lemma fold_body:
  "inv m \<Longrightarrow> distinct ts \<Longrightarrow> (\<And>t. t \<in> set ts \<Longrightarrow> page_tag t = t) \<Longrightarrow>
   inv (fold body ts m) \<and> safe (fold body ts m) = safe m \<and>
   (\<forall>b. page_lookup (fold body ts m) b =
      (if page_tag b \<in> set ts then effect (page_tag b) (page_lookup m b) else page_lookup m b))"
proof (induction ts arbitrary: m)
  case (Cons t ts)
  then have "inv (body t m)" by (simp add: inv_body)
  with Cons.IH [of "body t m"] Cons.prems show ?case
    by (auto simp: lookup_body safe_body)
qed simp

end

lemma aligned_iff: "page_tag t = t \<longleftrightarrow> unat t mod 4096 = 0"
proof -
  have "page_tag t = t \<longleftrightarrow> unat t div 4096 * 4096 = unat t"
    by (simp add: word_unat_eq_iff unat_page_tag)
  also have "\<dots> \<longleftrightarrow> unat t mod 4096 = 0"
    using div_mult_mod_eq [of "unat t" 4096] by (intro iffI) linarith+
  finally show ?thesis .
qed

lemma aligned_mask: "t AND (MEM_PAGE_SIZE - 1) = 0 \<longleftrightarrow> page_tag t = t"
proof -
  have "t AND (MEM_PAGE_SIZE - 1) = 0 \<longleftrightarrow> page_offset t = 0"
    by (simp only: page_offset_def unat_eq_0)
  then show ?thesis by (simp only: aligned_iff unat_page_offset)
qed

text \<open>An aligned address is 4096 times a page number below \<open>2 ^ 20\<close>.\<close>

lemma alignedE:
  assumes "page_tag t = t"
  obtains q where "unat t = 4096 * q" "q < 1048576" "t \<noteq> 0xfffff000 \<longleftrightarrow> q < 1048575"
proof -
  from assms have "4096 dvd unat t" unfolding aligned_iff by (rule mod_0_imp_dvd)
  then obtain q where q: "unat t = 4096 * q" by (rule dvdE)
  moreover have "unat t < 4294967296" using unsigned_less [of t] by simp
  ultimately have lt: "q < 1048576" by linarith
  have "t = 0xfffff000 \<longleftrightarrow> unat t = 4294963200" by (simp add: word_unat_eq_iff)
  with q have "t = 0xfffff000 \<longleftrightarrow> q = 1048575" by linarith
  with q lt show thesis by (intro that) auto
qed

lemma aligned_step:
  assumes "page_tag t = t" "t \<noteq> 0xfffff000"
  shows "unat (t + 4096) = unat t + 4096" "page_tag (t + 4096) = t + 4096"
proof -
  from alignedE [OF assms(1)] assms(2) obtain q where q: "unat t = 4096 * q" "q < 1048575" by metis
  then have "unat t + 4096 < 4294967296" by linarith
  then show *: "unat (t + 4096) = unat t + 4096" by (simp add: unat_word_ariths)
  show "page_tag (t + 4096) = t + 4096" using assms(1) unfolding aligned_iff * by simp
qed

lemma page_range_step:
  assumes "page_tag t1 = t1" "page_tag t2 = t2" "t2 \<noteq> 0xfffff000" "t1 \<le> t2"
  shows "unat (t1 + 4096) = unat t1 + 4096" "page_tag (t1 + 4096) = t1 + 4096"
    "page_range t1 t2 = t1 # page_range (t1 + 4096) t2"
proof -
  from alignedE [OF assms(1)] obtain p where p: "unat t1 = 4096 * p" "t1 \<noteq> 0xfffff000 \<longleftrightarrow> p < 1048575"
    by metis
  from alignedE [OF assms(2)] assms(3) obtain q where q: "unat t2 = 4096 * q" "q < 1048575" by metis
  have pq: "p \<le> q" using assms(4) p(1) q(1) by (simp add: word_le_nat_alt)
  with p q have "t1 \<noteq> 0xfffff000" by simp
  from aligned_step [OF assms(1) this]
  show st: "unat (t1 + 4096) = unat t1 + 4096" "page_tag (t1 + 4096) = t1 + 4096" by auto
  have "(unat t2 + 4096 - unat t1) div 4096 = Suc (q - p)"
  proof -
    have "unat t2 + 4096 - unat t1 = 4096 * Suc (q - p)" using pq p(1) q(1) by simp
    then show ?thesis by (simp del: mult_Suc_right)
  qed
  moreover have "(unat t2 + 4096 - unat (t1 + 4096)) div 4096 = q - p"
  proof -
    have "unat t2 + 4096 - unat (t1 + 4096) = 4096 * (q - p)" unfolding st using pq p(1) q(1) by simp
    then show ?thesis by simp
  qed
  ultimately show "page_range t1 t2 = t1 # page_range (t1 + 4096) t2"
    by (simp add: page_range_def upt_conv_Cons map_Suc_upt [symmetric] add.assoc comp_def
        del: upt_Suc of_nat_mult)
qed

lemma page_range_Nil: "page_tag t1 = t1 \<Longrightarrow> page_tag t2 = t2 \<Longrightarrow> t2 < t1 \<Longrightarrow> page_range t1 t2 = []"
proof -
  assume "page_tag t1 = t1" "page_tag t2 = t2" "t2 < t1"
  moreover obtain p where "unat t1 = 4096 * p" using alignedE [OF \<open>page_tag t1 = t1\<close>] by metis
  moreover obtain q where "unat t2 = 4096 * q" using alignedE [OF \<open>page_tag t2 = t2\<close>] by metis
  ultimately have "unat t2 + 4096 - unat t1 = 0" by (simp add: word_less_nat_alt)
  then show ?thesis by (simp add: page_range_def)
qed

text \<open>The loop ends and visits the range in order, unless its last page is the last page
  of the address space, where the increment of the tag wraps around to 0.\<close>

lemma tag_loop_fold:
  assumes "page_tag t1 = t1" "page_tag t2 = t2" "t2 \<noteq> 0xfffff000"
  shows "tag_loop t2 f t1 s = Some (fold f (page_range t1 t2) s)"
  using assms
proof (induction "unat t2 + 4096 - unat t1" arbitrary: t1 s rule: less_induct)
  case less
  show ?case
  proof (cases "t1 \<le> t2")
    case False
    with less.prems show ?thesis by (subst tag_loop.simps) (simp add: page_range_Nil)
  next
    case True
    note st = page_range_step [OF less.prems(1,2,3) True]
    have "unat t1 \<le> unat t2" using True by (simp add: word_le_nat_alt)
    then have "tag_loop t2 f (t1 + 4096) (f t1 s) = Some (fold f (page_range (t1 + 4096) t2) (f t1 s))"
      by (intro less.hyps) (use st less.prems in auto)
    with True st show ?thesis by (subst tag_loop.simps) simp
  qed
qed

lemma tag_loop_top:
  assumes "page_tag t1 = t1"
  shows "tag_loop 0xfffff000 f t1 s = None"
proof (rule ccontr)
  assume "tag_loop 0xfffff000 f t1 s \<noteq> None"
  then obtain r where r: "tag_loop 0xfffff000 f t1 s = Some r" by blast
  have "t2 = 0xfffff000 \<longrightarrow> page_tag t \<noteq> t" if "tag_loop t2 f' t s = Some r" for t2 f' t s r
  proof (rule tag_loop.raw_induct [where P = "\<lambda>t2 f t s r. t2 = 0xfffff000 \<longrightarrow> page_tag t \<noteq> t", OF _ that])
    fix loop t2 and f :: "u32 \<Rightarrow> 'b \<Rightarrow> 'b" and t s r
    assume IH: "\<And>t2 f t s r. loop t2 f t s = Some r \<Longrightarrow> t2 = 0xfffff000 \<longrightarrow> page_tag t \<noteq> t"
      and eq: "(if t \<le> t2 then loop t2 f (t + MEM_PAGE_SIZE) (f t s) else Some s) = Some r"
    show "t2 = 0xfffff000 \<longrightarrow> page_tag t \<noteq> t"
    proof (intro impI notI)
      assume t2: "t2 = 0xfffff000" and t: "page_tag t = t"
      obtain q where q: "unat t = 4096 * q" "q < 1048576" using alignedE [OF t] by metis
      then have "t \<le> t2" by (simp add: t2 word_le_nat_alt)
      moreover have "page_tag (t + 4096) = t + 4096"
      proof (cases "t = 0xfffff000")
        case True
        then show ?thesis by (simp add: page_tag_def)
      next
        case False
        then show ?thesis by (rule aligned_step(2) [OF t])
      qed
      ultimately show False using IH eq t2 by auto
    qed
  qed
  from this [OF r] assms show False by simp
qed

lemma set_page_range:
  assumes "page_tag t1 = t1" "page_tag t2 = t2" "t2 \<noteq> 0xfffff000"
  shows "t \<in> set (page_range t1 t2) \<longleftrightarrow> page_tag t = t \<and> t1 \<le> t \<and> t \<le> t2"
  using assms
proof (induction "unat t2 + 4096 - unat t1" arbitrary: t1 rule: less_induct)
  case less
  show ?case
  proof (cases "t1 \<le> t2")
    case False
    then have "\<not> (t1 \<le> t \<and> t \<le> t2)" by (meson order_trans)
    with False less.prems show ?thesis by (simp add: page_range_Nil)
  next
    case True
    note st = page_range_step [OF less.prems(1,2,3) True]
    have le: "unat t1 \<le> unat t2" using True by (simp add: word_le_nat_alt)
    then have IH: "t \<in> set (page_range (t1 + 4096) t2) \<longleftrightarrow> page_tag t = t \<and> t1 + 4096 \<le> t \<and> t \<le> t2"
      by (intro less.hyps) (use st less.prems in auto)
    have "page_tag t = t \<Longrightarrow> (t1 \<le> t \<longleftrightarrow> t = t1 \<or> t1 + 4096 \<le> t)"
    proof -
      assume t: "page_tag t = t"
      obtain p where p: "unat t = 4096 * p" using alignedE [OF t] by metis
      obtain q where q: "unat t1 = 4096 * q" using alignedE [OF less.prems(1)] by metis
      have "t1 + 4096 \<le> t \<longleftrightarrow> 4096 * q + 4096 \<le> 4096 * p"
        by (simp only: word_le_nat_alt st p q)
      moreover have "t1 \<le> t \<longleftrightarrow> 4096 * q \<le> 4096 * p" "t = t1 \<longleftrightarrow> 4096 * p = 4096 * q"
        by (simp_all only: word_le_nat_alt word_unat_eq_iff p q)
      ultimately show ?thesis by auto
    qed
    with IH st less.prems True show ?thesis by auto
  qed
qed

lemma distinct_page_range:
  assumes "page_tag t1 = t1" "page_tag t2 = t2" "t2 \<noteq> 0xfffff000"
  shows "distinct (page_range t1 t2)"
  using assms
proof (induction "unat t2 + 4096 - unat t1" arbitrary: t1 rule: less_induct)
  case less
  show ?case
  proof (cases "t1 \<le> t2")
    case False
    with less.prems show ?thesis by (simp add: page_range_Nil)
  next
    case True
    note st = page_range_step [OF less.prems(1,2,3) True]
    have le: "unat t1 \<le> unat t2" using True by (simp add: word_le_nat_alt)
    then have "distinct (page_range (t1 + 4096) t2)"
      by (intro less.hyps) (use st less.prems in auto)
    moreover have "t1 \<notin> set (page_range (t1 + 4096) t2)"
      by (subst set_page_range) (use st less.prems in \<open>auto simp: word_le_nat_alt\<close>)
    ultimately show ?thesis by (simp add: st)
  qed
qed

text \<open>What a whole range loop does, for any body that meets the interface.\<close>

context page_op
begin

lemma range_loop:
  assumes "inv m" "page_tag t1 = t1" "page_tag t2 = t2" "t2 \<noteq> 0xfffff000"
  shows "\<exists>m'. tag_loop t2 body t1 m = Some m' \<and> inv m' \<and> safe m' = safe m \<and>
    (\<forall>b. page_lookup m' b =
       (if t1 \<le> page_tag b \<and> page_tag b \<le> t2 then effect (page_tag b) (page_lookup m b)
        else page_lookup m b))"
  using fold_body [OF assms(1) distinct_page_range [OF assms(2-4)]] set_page_range [OF assms(2-4)]
  by (simp add: tag_loop_fold [OF assms(2-4)])

end

definition map_effect :: "mem_access_t \<Rightarrow> u32 \<Rightarrow> mem_page_t option \<Rightarrow> mem_page_t option" where
  "map_effect perm t page =
     Some (case page of
       None \<Rightarrow> \<lparr>mp_tag = t, mp_perm = perm, mp_data = None\<rparr>
     | Some p \<Rightarrow> p\<lparr>mp_perm := mp_perm p OR perm\<rparr>)"

definition protect_effect :: "mem_access_t \<Rightarrow> u32 \<Rightarrow> mem_page_t option \<Rightarrow> mem_page_t option" where
  "protect_effect perm t page = map_option (\<lambda>p. p\<lparr>mp_perm := perm\<rparr>) page"

lemma mem_map_page_eq:
  "mem_map_page perm t m =
     (let m1 = fst (mem_page_get m t);
          m2 = (if page_lookup m t = None then mem_page_create m1 t perm else m1)
      in page_update m2 t (\<lambda>p. p\<lparr>mp_perm := mp_perm p OR perm\<rparr>))"
  unfolding mem_map_page_def by (subst mem_page_get_eq) (simp add: Let_def)

lemma mem_protect_page_eq:
  "mem_protect_page perm t m =
     (let m1 = fst (mem_page_get m t)
      in if page_lookup m t = None then m1 else page_update m1 t (\<lambda>p. p\<lparr>mp_perm := perm\<rparr>))"
  unfolding mem_protect_page_def by (subst mem_page_get_eq) (simp add: Let_def)

lemma safe_free [simp]: "safe (mem_page_free m a) = safe m"
  by (simp add: mem_page_free_def)

interpretation map_op: page_op "mem_map_page perm" "map_effect perm" mem_ok for perm
proof
  fix m t assume "mem_ok m" "page_tag t = t"
  then show "mem_ok (mem_map_page perm t m)"
    by (auto simp: mem_map_page_eq Let_def intro!: mem_ok_update mem_ok_page_create)
next
  fix m t b assume "mem_ok m" "page_tag t = t"
  then show "page_lookup (mem_map_page perm t m) b =
      (if page_tag b = t then map_effect perm t (page_lookup m b) else page_lookup m b)"
    using page_lookup_cong [of b t m]
    by (auto simp: mem_map_page_eq Let_def map_effect_def page_lookup_update page_lookup_create
        split: option.split)
next
  fix m t show "safe (mem_map_page perm t m) = safe m"
    by (simp add: mem_map_page_eq Let_def)
qed

interpretation unmap_op: page_op "\<lambda>t m. mem_page_free m t" "\<lambda>_ _. None" mem_ok
  by unfold_locales (auto simp: page_lookup_free)

interpretation protect_op: page_op "mem_protect_page perm" "protect_effect perm" mem_ok for perm
proof
  fix m t assume "mem_ok m" "page_tag t = t"
  then show "mem_ok (mem_protect_page perm t m)"
    by (auto simp: mem_protect_page_eq Let_def)
next
  fix m t b assume "mem_ok m" "page_tag t = t"
  then show "page_lookup (mem_protect_page perm t m) b =
      (if page_tag b = t then protect_effect perm t (page_lookup m b) else page_lookup m b)"
    using page_lookup_cong [of b t m]
    by (auto simp: mem_protect_page_eq Let_def protect_effect_def page_lookup_update)
next
  fix m t show "safe (mem_protect_page perm t m) = safe m"
    by (simp add: mem_protect_page_eq Let_def)
qed

section \<open>Clearing\<close>

lemma clear_chain_ok:
  "mem_ok m \<Longrightarrow> \<exists>m'. mem_clear_chain i m = Some m' \<and> mem_ok m' \<and> m' = m\<lparr>pages := (pages m)(i := [])\<rparr>"
proof (induction "length (pages m i)" arbitrary: m)
  case 0
  then show ?case by (subst mem_clear_chain.simps) (simp add: mem_t.equality fun_eq_iff)
next
  case (Suc n)
  then obtain p ps where ps: "pages m i = p # ps" by (cases "pages m i") auto
  let ?m = "mem_page_free m (mp_tag p)"
  from Suc.prems ps have p: "page_tag (mp_tag p) = mp_tag p" "page_index (mp_tag p) = i"
    using list.set_intros(1) [of p ps] unfolding mem_ok_def by metis+
  with ps have m: "?m = m\<lparr>pages := (pages m)(i := ps)\<rparr>" by (simp add: mem_page_free_def)
  have "n = length (pages ?m i)" using Suc.hyps(2) ps m by simp
  from Suc.hyps(1) [OF this mem_ok_free [OF Suc.prems]]
  obtain m' where "mem_clear_chain i ?m = Some m'" "mem_ok m'" "m' = ?m\<lparr>pages := (pages ?m)(i := [])\<rparr>"
    by blast
  with ps m show ?case by (subst mem_clear_chain.simps) simp
qed

lemma mem_ok_index: "mem_ok m \<Longrightarrow> i \<ge> 1024 \<Longrightarrow> pages m i = []"
proof (rule ccontr)
  assume "mem_ok m" "i \<ge> 1024" "pages m i \<noteq> []"
  then obtain p where "p \<in> set (pages m i)" "page_index (mp_tag p) = i"
    by (metis hd_in_set mem_ok_def)
  moreover have "page_index (mp_tag p) < 1024" by (simp add: page_index_eq)
  ultimately show False using \<open>i \<ge> 1024\<close> by simp
qed

lemma mem_clear_ok:
  assumes "mem_ok m"
  shows "mem_clear m = Some (m\<lparr>pages := (\<lambda>_. [])\<rparr>)"
proof -
  have "\<exists>m'. fold (\<lambda>i m. Option.bind m (mem_clear_chain i)) [0..<n] (Some m) = Some m' \<and> mem_ok m' \<and>
          m' = m\<lparr>pages := (\<lambda>i. if i < n then [] else pages m i)\<rparr>" for n
  proof (induction n)
    case 0
    with assms show ?case by simp
  next
    case (Suc n)
    then obtain m' where m': "fold (\<lambda>i m. Option.bind m (mem_clear_chain i)) [0..<n] (Some m) = Some m'"
        "mem_ok m'" "m' = m\<lparr>pages := (\<lambda>i. if i < n then [] else pages m i)\<rparr>" by blast
    from clear_chain_ok [OF m'(2), of n] m' show ?case
      by (auto simp: fun_eq_iff less_Suc_eq)
  qed
  from this [of MEM_PAGE_COUNT] mem_ok_index [OF assms] show ?thesis
    unfolding mem_clear_def by (auto simp: fun_eq_iff)
qed

section \<open>Searching free space\<close>

definition free_run :: "mem_t \<Rightarrow> u32 \<Rightarrow> nat \<Rightarrow> bool" where
  "free_run m a n \<longleftrightarrow> (\<forall>i < n. page_lookup m (a + of_nat i) = None)"

lemma free_run_cong: "page_lookup m' = page_lookup m \<Longrightarrow> free_run m' = free_run m"
  by (simp add: free_run_def fun_eq_iff)

lemma free_run_page:
  assumes "page_tag t = t" "page_lookup m t = None"
  shows "free_run m t 4096"
  unfolding free_run_def
proof (intro allI impI)
  fix i :: nat assume "i < 4096"
  with page_offset_tag [of t] assms(1) have "page_offset t + i < 4096" by simp
  from page_lookup_cong [OF same_page(1) [OF this]] assms(2)
  show "page_lookup m (t + of_nat i) = None" by simp
qed

lemma free_run_append:
  assumes "free_run m a k" "free_run m (a + of_nat k) n"
  shows "free_run m a (k + n)"
  unfolding free_run_def
proof (intro allI impI)
  fix i assume "i < k + n"
  show "page_lookup m (a + of_nat i) = None"
  proof (cases "i < k")
    case True
    with assms(1) show ?thesis by (simp add: free_run_def)
  next
    case False
    with \<open>i < k + n\<close> have "i - k < n" and "a + of_nat i = a + of_nat k + of_nat (i - k)"
      by (simp_all add: of_nat_diff)
    with assms(2) show ?thesis by (simp only: free_run_def)
  qed
qed

text \<open>The outcome of a search: no space (\<open>-1\<close>), or an aligned free run inside the
  address space, with the page table unchanged up to the order of the chains.\<close>

definition space_found :: "mem_t \<Rightarrow> u32 \<Rightarrow> mem_t \<Rightarrow> u32 \<Rightarrow> bool" where
  "space_found m sz m' r \<longleftrightarrow>
     page_lookup m' = page_lookup m \<and> mem_ok m' = mem_ok m \<and>
     (r \<noteq> - 1 \<longrightarrow> page_tag r = r \<and> unat r + unat sz \<le> 2 ^ 32 \<and> free_run m r (unat sz))"

lemma page_lookup_get_fun [simp]: "page_lookup (fst (mem_page_get mem a)) = page_lookup mem"
  by (rule ext) simp

lemma space_found_get:
  "space_found (fst (mem_page_get m a)) sz m' r = space_found m sz m' r"
  by (simp add: space_found_def free_run_def)

lemma map_space_loop_unfold:
  "map_space_loop mem tag_start tag_end sz =
     (if tag_end = 0 then Some (Inr (mem, - 1))
      else let mem1 = fst (mem_page_get mem tag_end) in
        if page_lookup mem tag_end \<noteq> None
        then map_space_loop mem1 (tag_end + MEM_PAGE_SIZE) (tag_end + MEM_PAGE_SIZE) sz
        else if tag_end - tag_start + MEM_PAGE_SIZE = sz then Some (Inr (mem1, tag_start))
        else if \<not> tag_end - tag_start + MEM_PAGE_SIZE < sz then Some (Inl Assert_failed)
        else map_space_loop mem1 tag_start (tag_end + MEM_PAGE_SIZE) sz)"
  by (subst map_space_loop.simps, subst mem_page_get_eq) (simp add: Let_def)

lemma aligned_next:
  assumes "page_tag t = t"
  shows "page_tag (t + 4096) = t + 4096" "t + 4096 \<noteq> 0 \<longrightarrow> unat (t + 4096) = unat t + 4096"
  using assms aligned_step [OF assms] by (cases "t = 0xfffff000"; simp add: page_tag_def)+

lemma map_space_loop_ok:
  assumes "page_tag s = s" "page_tag e = e" "page_tag sz = sz" "sz \<noteq> 0"
    and "e \<noteq> 0 \<Longrightarrow> unat s \<le> unat e \<and> unat e - unat s < unat sz \<and> free_run m s (unat e - unat s)"
  shows "\<exists>m' r. map_space_loop m s e sz = Some (Inr (m', r)) \<and> space_found m sz m' r"
  using assms
proof (induction "if e = 0 then 0 else 4294967296 - unat e" arbitrary: m s e rule: less_induct)
  case less
  show ?case
  proof (cases "e = 0")
    case True
    then show ?thesis by (subst map_space_loop_unfold) (simp add: space_found_def)
  next
    case False
    have e: "unat e < 4294967296" using unsigned_less [of e] by simp
    note nx = aligned_next [OF less.prems(2)]
    let ?m = "fst (mem_page_get m e)"
    from False less.prems(5) have se: "unat s \<le> unat e" "unat e - unat s < unat sz"
        "free_run m s (unat e - unat s)" by auto
    have dec: "(if e + 4096 = 0 then 0 else 4294967296 - unat (e + 4096))
        < (if e = 0 then 0 else 4294967296 - unat e)"
      using False nx e by auto
    show ?thesis
    proof (cases "page_lookup m e")
      case (Some p)
      have "\<exists>m' r. map_space_loop ?m (e + 4096) (e + 4096) sz = Some (Inr (m', r)) \<and> space_found ?m sz m' r"
        by (rule less.hyps [OF dec]) (use nx less.prems in \<open>auto simp: free_run_def unat_gt_0 word_gt_0\<close>)
      with Some False show ?thesis by (subst map_space_loop_unfold) (simp add: space_found_get)
    next
      case None
      have de: "e - s + 4096 = of_nat (unat e - unat s + 4096)"
        using se(1) by (simp add: of_nat_diff)
      have es: "s + of_nat (unat e - unat s) = e" using se(1) by (simp add: of_nat_diff)
      have run: "free_run m s (unat e - unat s + 4096)"
        using free_run_append [OF se(3), of 4096] free_run_page [OF less.prems(2) None] by (simp only: es)
      from alignedE [OF less.prems(1)] obtain p where p: "unat s = 4096 * p" by metis
      from alignedE [OF less.prems(2)] obtain q where q: "unat e = 4096 * q" "q < 1048576" by metis
      from alignedE [OF less.prems(3)] obtain k where k: "unat sz = 4096 * k" "k < 1048576" by metis
      have "4096 * (q - p) < 4096 * k" using se(2) unfolding p q k by simp
      then have "Suc (q - p) \<le> k" by simp
      then have "4096 * Suc (q - p) \<le> 4096 * k" by (rule mult_le_mono2)
      then have le: "unat e - unat s + 4096 \<le> unat sz" unfolding p q k by simp
      have sz: "unat sz < 4294967296" using unsigned_less [of sz] by simp
      have ude: "unat (e - s + 4096) = unat e - unat s + 4096"
        unfolding de unat_of_nat using le sz by simp
      show ?thesis
      proof (cases "e - s + 4096 = sz")
        case True
        then have "unat sz = unat e - unat s + 4096" using ude by simp
        with run have "space_found m sz ?m s"
          using less.prems(1) se(1) e q by (auto simp: space_found_def)
        with None False True show ?thesis by (subst map_space_loop_unfold) simp
      next
        case neq: False
        then have lt: "e - s + 4096 < sz"
          using le ude by (metis le_neq_implies_less unsigned_word_eqI word_less_nat_alt)
        have "\<exists>m' r. map_space_loop ?m s (e + 4096) sz = Some (Inr (m', r)) \<and> space_found ?m sz m' r"
          by (rule less.hyps [OF dec])
            (use nx less.prems se run lt ude in \<open>auto simp: free_run_def word_less_nat_alt\<close>)
        with None False neq lt show ?thesis by (subst map_space_loop_unfold) (simp add: space_found_get)
      qed
    qed
  qed
qed

end
