(* ===== verification/Memory_Props.thy ===== *)
theory Memory_Props
  imports Memory_Map
begin

text \<open>
  What the memory image promises its callers: accesses refine the abstract byte memory,
  mapping, unmapping and protection change exactly the pages of their range, a free run
  found is free, a clone shows the bytes and permissions of its source, and a loaded file
  is dumped back.
\<close>

section \<open>Accesses\<close>

text \<open>C2: an access of any length, in any mode, fails exactly when some byte of its range is not
  allowed, and otherwise acts on the byte view as the abstract byte memory does: a store puts
  the buffer's bytes there and nothing else, a load returns the bytes and changes nothing,
  and permissions and mode stay.\<close>

lemma mem_access_refines:
  assumes "access \<in> access_kinds" "n \<le> length buf"
  shows "case mem_access m a n buf access of
           Inl e \<Rightarrow> \<not> (\<forall>i < n. allowed m access (a + of_nat i))
         | Inr (m', out) \<Rightarrow> (\<forall>i < n. allowed m access (a + of_nat i)) \<and>
                           access_post m m' access a n buf out"
  using mem_access_correct [OF assms, of m a]
  by (cases "mem_access m a n buf access") auto

lemma mem_access_refines_witness:
  "\<exists>m' out. mem_access (mem_create False) 0xffe 3 [1, 2, 3] mem_access_write = Inr (m', out) \<and>
     access_post (mem_create False) m' mem_access_write 0xffe 3 [1, 2, 3] out"
proof -
  have "\<forall>i < 3. allowed (mem_create False) mem_access_write (0xffe + of_nat i)"
    by (simp add: allowed_def page_lookup_def mem_create_def)
  then show ?thesis
    using mem_access_refines [of mem_access_write 3 "[1, 2, 3]" "mem_create False" "0xffe"]
    by (auto simp: access_kinds_def split: sum.splits prod.splits)
qed

text \<open>C30: what a successful write stored is what a later read of the same range returns, over page
  boundaries and around the end of the address space.\<close>

lemma mem_write_read:
  assumes "mem_write m a n buf = Inr m'" "n \<le> length buf" "n \<le> 2 ^ 32"
    and "\<forall>i < n. allowed m mem_access_read (a + of_nat i)"
  shows "\<exists>m''. mem_read m' a n = Inr (m'', take n buf) \<and> mem_byte m'' = mem_byte m'"
proof -
  have w: "mem_access_write \<in> access_kinds" and r: "mem_access_read \<in> access_kinds"
    and s: "is_store mem_access_write" "\<not> is_store mem_access_read"
    by (auto simp: access_kinds_def is_store_def mem_access_defs)
  from assms(1) obtain out where "mem_access m a n buf mem_access_write = Inr (m', out)"
    by (auto simp: mem_write_def)
  with mem_access_refines [OF w assms(2), of m a] have
    p: "access_post m m' mem_access_write a n buf out" by simp
  with r s assms(4) have al: "\<forall>i < n. allowed m' mem_access_read (a + of_nat i)"
    and b: "mem_byte m' = put_bytes (mem_byte m) a (take n buf)"
    by (simp_all add: access_post_def)
  have "n \<le> length (replicate n (0 :: u8))" by simp
  from mem_access_correct(1) [OF r this, of m' a] al obtain m'' out' where
    "mem_access m' a n (replicate n 0) mem_access_read = Inr (m'', out')"
    "access_post m' m'' mem_access_read a n (replicate n 0) out'" by metis
  moreover have "get_bytes (mem_byte m') a n = take n buf"
    using get_put_bytes [of "take n buf" "mem_byte m" a] assms(2,3) b by simp
  ultimately show ?thesis using s by (auto simp: mem_read_def access_post_def)
qed

lemma mem_write_read_witness:
  "\<exists>m' m''. mem_write (mem_create False) 0xfffffffe 4 [1, 2, 3, 4] = Inr m' \<and>
     mem_read m' 0xfffffffe 4 = Inr (m'', [1, 2, 3, 4])"
proof -
  have k: "mem_access_write \<in> access_kinds" by (simp add: access_kinds_def)
  have al: "allowed (mem_create False) a b" for a b
    by (simp add: allowed_def page_lookup_def mem_create_def)
  from mem_access_correct(1) [OF k, of 4 "[1, 2, 3, 4]" "mem_create False" "0xfffffffe"] al
  obtain m' where "mem_write (mem_create False) 0xfffffffe 4 [1, 2, 3, 4] = Inr m'"
    by (auto simp: mem_write_def)
  with mem_write_read [OF this] al show ?thesis by auto
qed

section \<open>Mapping\<close>

lemma aligned_mask_4095: "page_tag t = t \<Longrightarrow> t AND 4095 = 0"
  using aligned_mask [of t] by simp

text \<open>C26: \<open>mem_map\<close> returns for every range whose last page is not the last page of the address
  space: the pages of the range exist afterwards, new ones with the permissions asked for
  and no data, old ones with these permissions added, and every other page is as before.\<close>

lemma mem_map_correct:
  assumes "mem_ok m" "page_tag (addr + sz - 1) \<noteq> 0xfffff000"
  shows "\<exists>m'. mem_map m addr sz perm = Some m' \<and> mem_ok m' \<and> safe m' = safe m \<and>
    (\<forall>b. page_lookup m' b =
       (if page_tag addr \<le> page_tag b \<and> page_tag b \<le> page_tag (addr + sz - 1)
        then map_effect perm (page_tag b) (page_lookup m b) else page_lookup m b))"
  unfolding mem_map_def Let_def
  by (rule map_op.range_loop) (use assms in auto)

lemma mem_map_correct_witness:
  "\<exists>m'. mem_map (mem_create True) 0x1ffc 8 3 = Some m' \<and> mem_ok m' \<and>
     page_lookup m' 0x1000 \<noteq> None \<and> page_lookup m' 0x2000 \<noteq> None \<and> page_lookup m' 0x3000 = None"
proof -
  have t: "page_tag 0x1ffc = 0x1000" "page_tag (0x1ffc + 8 - 1) = 0x2000"
    "page_tag 0x1000 = 0x1000" "page_tag 0x2000 = 0x2000" "page_tag 0x3000 = 0x3000"
    by (simp_all add: page_tag_def)
  have "page_lookup (mem_create True) b = None" for b
    by (simp add: page_lookup_def mem_create_def)
  with mem_map_correct [OF mem_ok_create [of True], of "0x1ffc" 8 3] t show ?thesis
    by (auto simp: map_effect_def)
qed

lemma mem_unmap_correct:
  assumes "mem_ok m" "page_tag addr = addr" "page_tag sz = sz" "page_tag (addr + sz - 1) \<noteq> 0xfffff000"
  shows "\<exists>m'. mem_unmap m addr sz = Some (Inr m') \<and> mem_ok m' \<and> safe m' = safe m \<and>
    (\<forall>b. page_lookup m' b =
       (if addr \<le> page_tag b \<and> page_tag b \<le> page_tag (addr + sz - 1)
        then None else page_lookup m b))"
  using unmap_op.range_loop [of m "page_tag addr" "page_tag (addr + sz - 1)"] assms
  by (auto simp: mem_unmap_def Let_def aligned_mask_4095)

lemma mem_protect_correct:
  assumes "mem_ok m" "page_tag addr = addr" "page_tag sz = sz" "page_tag (addr + sz - 1) \<noteq> 0xfffff000"
  shows "\<exists>m'. mem_protect m addr sz perm = Some (Inr m') \<and> mem_ok m' \<and> safe m' = safe m \<and>
    (\<forall>b. page_lookup m' b =
       (if addr \<le> page_tag b \<and> page_tag b \<le> page_tag (addr + sz - 1)
        then protect_effect perm (page_tag b) (page_lookup m b) else page_lookup m b))"
  using protect_op.range_loop [of m "page_tag addr" "page_tag (addr + sz - 1)" perm] assms
  by (auto simp: mem_protect_def Let_def aligned_mask_4095)

text \<open>On a range that ends in the last page of the address space \<open>mem_map\<close> does not return:
  the loop's tag wraps around to 0 and stays below the last tag.\<close>

lemma mem_map_top_page:
  "page_tag (addr + sz - 1) = 0xfffff000 \<Longrightarrow> mem_map m addr sz perm = None"
  by (simp add: mem_map_def tag_loop_top)

lemma mem_map_top_page_witness: "mem_map (mem_create True) 0xfffff000 0x1000 7 = None"
  by (rule mem_map_top_page) (simp add: page_tag_def)

text \<open>C31: the search for free space always returns, and what it returns is either \<open>-1\<close> or an
  aligned run of the size asked for in which no page is mapped; the page table is the same.\<close>

lemma mem_map_space_correct:
  assumes "page_tag addr = addr" "page_tag sz = sz" "sz \<noteq> 0"
  shows "\<exists>m' r. mem_map_space m addr sz = Some (Inr (m', r)) \<and> space_found m sz m' r"
  using map_space_loop_ok [of addr addr sz m] assms
  by (auto simp: mem_map_space_def aligned_mask_4095 free_run_def word_gt_0 unat_gt_0)
lemma mem_map_space_correct_witness:
  "\<exists>m' r. mem_map_space (mem_create True) 0x1000 0x3000 = Some (Inr (m', r)) \<and>
     space_found (mem_create True) 0x3000 m' r"
  by (rule mem_map_space_correct) (simp_all add: page_tag_def)

section \<open>Cloning\<close>

definition page_view :: "mem_page_t \<Rightarrow> u32 \<times> mem_access_t \<times> (nat \<Rightarrow> u8)" where
  "page_view p = (mp_tag p, mp_perm p, \<lambda>i. if i < 4096 then page_bytes p i else 0)"

lemma clone_step:
  assumes "page_tag (mp_tag p) = mp_tag p" "\<not> safe d" "page_lookup d (mp_tag p) = None" "mem_ok d"
  shows "\<exists>d'. mem_clone_page p (Inr d) = Inr d' \<and> \<not> safe d' \<and> mem_ok d' \<and>
     (\<forall>b. map_option page_view (page_lookup d' b) =
        (if page_tag b = mp_tag p then Some (page_view p) else map_option page_view (page_lookup d b)))"
proof -
  let ?d = "mem_page_create d (mp_tag p) (mp_perm p)"
  have ok: "mem_ok ?d" using assms by auto
  have l: "page_lookup ?d b = (if page_tag b = mp_tag p
      then Some \<lparr>mp_tag = mp_tag p, mp_perm = mp_perm p, mp_data = None\<rparr> else page_lookup d b)" for b
    using assms(1) by (simp add: page_lookup_create)
  show ?thesis
  proof (cases "mp_data p")
    case None
    then show ?thesis using ok l assms(2)
      by (auto simp: mem_clone_page_def Let_def page_view_def page_bytes_def)
  next
    case (Some f)
    let ?e = "?d\<lparr>last_address := mp_tag p\<rparr>"
    let ?buf = "map f [0..<4096]"
    let ?d' = "page_update (fst (mem_page_get ?e (mp_tag p))) (mp_tag p) (mem_write_page 0 4096 ?buf)"
    have off: "page_offset (mp_tag p) = 0" using page_offset_tag [of "mp_tag p"] assms(1) by simp
    have i: "mem_access_init \<in> access_kinds" "is_store mem_access_init" "mem_access_init \<noteq> mem_access_write"
      by (auto simp: access_kinds_def is_store_def mem_access_defs)
    have "mem_access ?d (mp_tag p) 4096 ?buf mem_access_init = Inr (?d', ?buf)"
      unfolding mem_access_def
      by (subst mem_access_loop.simps)
        (simp add: off boundary_page [OF _ _ i(1)] l assms i mem_access_loop.simps)
    moreover have "mem_ok ?d'" using ok by auto
    ultimately show ?thesis using Some assms l
      by (auto simp: mem_clone_page_def Let_def page_lookup_update page_view_def page_bytes_write_page
          page_bytes_def fun_eq_iff mem_write_page_def)
  qed
qed

lemma fold_fold: "fold (\<lambda>i. fold f (g i)) is s = fold f (concat (map g is)) s"
  by (induction "is" arbitrary: s) auto

lemma clone_fold:
  "\<not> safe d \<Longrightarrow> mem_ok d \<Longrightarrow> distinct (map mp_tag ps) \<Longrightarrow>
   (\<And>p. p \<in> set ps \<Longrightarrow> page_tag (mp_tag p) = mp_tag p \<and> page_lookup d (mp_tag p) = None) \<Longrightarrow>
   \<exists>d'. fold mem_clone_page ps (Inr d) = Inr d' \<and> \<not> safe d' \<and> mem_ok d' \<and>
     (\<forall>b. map_option page_view (page_lookup d' b) =
        (case find (\<lambda>p. mp_tag p = page_tag b) ps of Some p \<Rightarrow> Some (page_view p)
         | None \<Rightarrow> map_option page_view (page_lookup d b)))"
proof (induction ps arbitrary: d)
  case (Cons p ps)
  from Cons.prems(4) [of p] have p: "page_tag (mp_tag p) = mp_tag p" "page_lookup d (mp_tag p) = None" by auto
  from clone_step [OF p(1) Cons.prems(1) p(2) Cons.prems(2)] obtain d1 where
    d1: "mem_clone_page p (Inr d) = Inr d1" "\<not> safe d1" "mem_ok d1" and
    v: "\<And>b. map_option page_view (page_lookup d1 b) =
        (if page_tag b = mp_tag p then Some (page_view p) else map_option page_view (page_lookup d b))"
    by blast
  have "page_tag (mp_tag q) = mp_tag q \<and> page_lookup d1 (mp_tag q) = None" if "q \<in> set ps" for q
  proof -
    from that have "mp_tag q \<in> mp_tag ` set ps" by simp
    with that Cons.prems(3,4) have "page_tag (mp_tag q) = mp_tag q" "page_lookup d (mp_tag q) = None"
        "mp_tag q \<noteq> mp_tag p" by (auto simp: rev_image_eqI)
    with v [of "mp_tag q"] show ?thesis by simp
  qed
  with Cons.IH [OF d1(2,3)] Cons.prems(3) obtain d' where
    d': "fold mem_clone_page ps (Inr d1) = Inr d'" "\<not> safe d'" "mem_ok d'" and
    v': "\<And>b. map_option page_view (page_lookup d' b) =
        (case find (\<lambda>p. mp_tag p = page_tag b) ps of Some p \<Rightarrow> Some (page_view p)
         | None \<Rightarrow> map_option page_view (page_lookup d1 b))"
    by auto
  have "find (\<lambda>q. mp_tag q = mp_tag p) ps = None"
    using Cons.prems(3) by (simp add: find_key_None)
  with v v' have "\<forall>b. map_option page_view (page_lookup d' b) =
        (case find (\<lambda>q. mp_tag q = page_tag b) (p # ps) of Some q \<Rightarrow> Some (page_view q)
         | None \<Rightarrow> map_option page_view (page_lookup d b))"
    by (auto split: option.split)
  with d1 d' show ?case by auto
qed simp

definition all_pages :: "mem_t \<Rightarrow> mem_page_t list" where
  "all_pages m = concat (map (pages m) [0..<MEM_PAGE_COUNT])"

lemma set_all_pages: "mem_ok m \<Longrightarrow> p \<in> set (all_pages m) \<longleftrightarrow> (\<exists>i. p \<in> set (pages m i))"
  using mem_ok_index [of m] by (fastforce simp: all_pages_def not_le [symmetric])

lemma distinct_all_pages:
  assumes "mem_ok m"
  shows "distinct (map mp_tag (all_pages m))"
proof -
  have "distinct (map mp_tag (concat (map (pages m) [0..<n])))" for n
  proof (induction n)
    case (Suc n)
    have "mp_tag p \<noteq> mp_tag q" if "i < n" "p \<in> set (pages m i)" "q \<in> set (pages m n)" for i p q
      using that assms unfolding mem_ok_def by (metis less_irrefl)
    moreover have "distinct (map mp_tag (pages m n))" using assms by (simp add: mem_ok_def)
    ultimately show ?case using Suc by auto
  qed simp
  then show ?thesis by (simp add: all_pages_def)
qed

lemma find_all_pages:
  assumes "mem_ok m"
  shows "find (\<lambda>p. mp_tag p = page_tag b) (all_pages m) = page_lookup m b"
proof (cases "page_lookup m b")
  case None
  have "mp_tag p \<noteq> page_tag b" if "p \<in> set (all_pages m)" for p
  proof
    assume t: "mp_tag p = page_tag b"
    from that assms obtain i where "p \<in> set (pages m i)" by (auto simp: set_all_pages)
    from page_lookup_pages [OF assms this] t page_lookup_cong [of "page_tag b" b m] None
    show False by simp
  qed
  with None show ?thesis by (simp add: find_None_set)
next
  case (Some p)
  then have "p \<in> set (pages m (page_index b))" "mp_tag p = page_tag b"
    unfolding page_lookup_def by (auto dest: find_SomeD)
  with assms distinct_keys_find [OF distinct_all_pages [OF assms], of p] Some show ?thesis
    by (auto simp: set_all_pages)
qed

lemma page_view_byte:
  assumes "\<And>b. map_option page_view (page_lookup m b) = map_option page_view (page_lookup m' b)"
  shows "mem_byte m = mem_byte m'"
proof
  fix b
  show "mem_byte m b = mem_byte m' b"
    using assms [of b]
    by (auto simp: mem_byte_def page_view_def split: option.splits dest!: fun_cong [of _ _ "page_offset b"])
qed

lemma page_view_allowed:
  assumes "\<And>b. map_option page_view (page_lookup m b) = map_option page_view (page_lookup m' b)"
    "safe m = safe m'"
  shows "allowed m k b = allowed m' k b"
  using assms(1) [of b] assms(2) by (auto simp: allowed_def page_view_def split: option.splits)

lemma page_lookup_empty [simp]: "page_lookup (m\<lparr>pages := \<lambda>_. []\<rparr>) b = None"
  by (simp add: page_lookup_def)

text \<open>Cloning into any memory returns, and the clone has its source's bytes, permissions and
  mode at every address, whatever the destination held.\<close>

lemma mem_clone_correct:
  assumes "mem_ok dst" "mem_ok src"
  shows "\<exists>d. mem_clone dst src = Some (Inr d) \<and> mem_ok d \<and> safe d = safe src \<and>
    heap_break d = heap_break src \<and> mem_byte d = mem_byte src \<and>
    (\<forall>k b. allowed d k b = allowed src k b)"
proof -
  let ?d = "dst\<lparr>pages := \<lambda>_. [], safe := False\<rparr>"
  have "\<not> safe ?d" "mem_ok ?d" by (simp_all add: mem_ok_def)
  moreover have "page_tag (mp_tag p) = mp_tag p \<and> page_lookup ?d (mp_tag p) = None"
    if "p \<in> set (all_pages src)" for p
    using that assms(2) by (auto simp: set_all_pages) (simp add: mem_ok_def)
  ultimately obtain d where d: "fold mem_clone_page (all_pages src) (Inr ?d) = Inr d" "mem_ok d"
    and c: "\<forall>b. map_option page_view (page_lookup d b) =
      (case page_lookup src b of Some p \<Rightarrow> Some (page_view p) | None \<Rightarrow> None)"
    using clone_fold [of ?d "all_pages src"] distinct_all_pages [OF assms(2)]
    by (auto simp: find_all_pages [OF assms(2)] cong: option.case_cong)
  have v: "map_option page_view (page_lookup d b) = map_option page_view (page_lookup src b)" for b
    using c by (simp split: option.split)
  let ?r = "d\<lparr>safe := safe src, heap_break := heap_break src\<rparr>"
  have r: "page_lookup ?r b = page_lookup d b" for b by (simp add: page_lookup_def)
  have "mem_clone dst src = Some (Inr ?r)"
    using d(1) by (simp add: mem_clone_def mem_clear_ok [OF assms(1)] fold_fold flip: all_pages_def)
  moreover have "mem_byte ?r = mem_byte src" "\<forall>k b. allowed ?r k b = allowed src k b"
    using v by (auto intro!: page_view_byte page_view_allowed simp: r)
  moreover have "mem_ok ?r" using d(2) by (simp add: mem_ok_def)
  ultimately show ?thesis by (intro exI [of _ ?r]) simp
qed
lemma mem_clone_correct_witness:
  "\<exists>d. mem_clone (mem_page_create (mem_create True) 0x5000 1) (mem_page_create (mem_create True) 0x1000 7) = Some (Inr d) \<and>
     page_lookup (mem_page_create (mem_create True) 0x1000 7) 0x1000 \<noteq> None \<and>
     mem_byte d = mem_byte (mem_page_create (mem_create True) 0x1000 7)"
proof -
  have "mem_ok (mem_page_create (mem_create True) a p)" for a p
    by (rule mem_ok_page_create [OF mem_ok_create]) (simp add: page_lookup_def mem_create_def)
  from mem_clone_correct [OF this this, of "0x5000" 1 "0x1000" 7] show ?thesis
    by (auto simp: page_lookup_create)
qed

section \<open>Loading, dumping, zeroing\<close>

lemma unsafe_access:
  assumes "\<not> safe m" "access \<in> access_kinds" "n \<le> length buf"
  shows "\<exists>m' out. mem_access m a n buf access = Inr (m', out) \<and> \<not> safe m' \<and>
    (if is_store access then mem_byte m' = put_bytes (mem_byte m) a (take n buf)
     else mem_byte m' = mem_byte m \<and> out = get_bytes (mem_byte m) a n)"
proof -
  have "\<forall>i < n. allowed m access (a + of_nat i)"
    using assms(1) by (simp add: allowed_def split: option.split)
  with mem_access_correct(1) [OF assms(2,3), of m a] obtain m' out where
    "mem_access m a n buf access = Inr (m', out)" "access_post m m' access a n buf out" by auto
  with assms(1) show ?thesis by (intro exI [of _ m'] exI [of _ out]) (auto simp: access_post_def)
qed

lemma kinds [simp]: "mem_access_read \<in> access_kinds" "mem_access_write \<in> access_kinds"
  "mem_access_init \<in> access_kinds" "\<not> is_store mem_access_read" "is_store mem_access_write"
  by (simp_all add: access_kinds_def is_store_def mem_access_defs)

lemma load_loop_ok:
  "\<not> safe m \<Longrightarrow> \<exists>m'. mem_load_loop m bs a = Inr m' \<and> mem_byte m' = put_bytes (mem_byte m) a bs"
proof (induction "length bs" arbitrary: m bs a rule: less_induct)
  case less
  show ?case
  proof (cases "bs = []")
    case True
    then show ?thesis by (simp add: mem_load_loop.simps)
  next
    case False
    let ?buf = "take 4096 bs"
    from unsafe_access [OF less.prems, of mem_access_write "length ?buf" ?buf a] obtain m1 out where
      m1: "mem_access m a (length ?buf) ?buf mem_access_write = Inr (m1, out)" "\<not> safe m1"
        "mem_byte m1 = put_bytes (mem_byte m) a ?buf" by (auto simp: min_def)
    have "length (drop (length ?buf) bs) < length bs" using False by simp
    moreover have d: "drop (length ?buf) bs = drop 4096 bs" by (simp add: min_def)
    ultimately obtain m2 where m2:
      "mem_load_loop m1 (drop 4096 bs) (a + of_nat (length ?buf)) = Inr m2"
      "mem_byte m2 = put_bytes (mem_byte m1) (a + of_nat (length ?buf)) (drop 4096 bs)"
      using less.hyps m1(2) by metis
    have "mem_load_loop m bs a = Inr m2"
      using m1(1) m2(1) False d by (subst mem_load_loop.simps) (simp add: Let_def)
    moreover have "mem_byte m2 = put_bytes (mem_byte m) a (?buf @ drop 4096 bs)"
      unfolding put_bytes_append m1(3) [symmetric] by (rule m2(2))
    ultimately show ?thesis by simp
  qed
qed

lemma dump_loop_ok:
  "\<not> safe m \<Longrightarrow> start \<le> stop \<Longrightarrow>
   \<exists>m'. mem_dump_loop m start stop = Inr (m', get_bytes (mem_byte m) start (unat (stop - start)))"
proof (induction "unat (stop - start)" arbitrary: m start rule: less_induct)
  case less
  show ?case
  proof (cases "start < stop")
    case False
    with less.prems have "stop = start" by simp
    then show ?thesis by (simp add: mem_dump_loop.simps)
  next
    case True
    let ?k = "min 4096 (stop - start)"
    have k: "?k \<le> stop - start" by simp
    from unsafe_access [OF less.prems(1), of mem_access_read "unat ?k" "replicate (unat ?k) 0" start] obtain m1 where
      m1: "mem_access m start (unat ?k) (replicate (unat ?k) 0) mem_access_read =
             Inr (m1, get_bytes (mem_byte m) start (unat ?k))" "\<not> safe m1"
        "mem_byte m1 = mem_byte m" by auto
    have "start + ?k \<le> stop"
      using k less.prems(2) by (metis word_le_plus_either word_plus_mono_right le_plus add_diff_cancel_left' diff_add_cancel add.commute)
    from less.hyps [OF dump_step [OF True] m1(2) this] obtain m2 where
      "mem_dump_loop m1 (start + ?k) stop = Inr (m2, get_bytes (mem_byte m) (start + ?k) (unat (stop - (start + ?k))))"
      using m1(3) by auto
    moreover have "unat (stop - start) = unat ?k + unat (stop - (start + ?k))"
    proof -
      have "stop - (start + ?k) = (stop - start) - ?k" by (simp add: algebra_simps)
      then have "unat (stop - (start + ?k)) = unat (stop - start) - unat ?k" using k by (simp only: unat_sub)
      with k show ?thesis by (simp only: word_le_nat_alt)
    qed
    ultimately show ?thesis using m1 True
      by (subst mem_dump_loop.simps) (simp add: Let_def get_bytes_add del: min_less_iff_conj)
  qed
qed

text \<open>A file loaded into memory is what a dump of the same range writes, in whatever mode
  the image is and whatever pages it had.\<close>

lemma mem_load_dump:
  assumes "unat start + length bs < 2 ^ 32"
  shows "\<exists>m' m''. mem_load sm m bs start = Inr m' \<and>
     mem_dump sm m' start (start + of_nat (length bs)) = Inr (m'', bs)"
proof -
  have ns: "\<not> safe (m\<lparr>safe := False\<rparr>)" by simp
  from load_loop_ok [OF ns] obtain m1 where
    m1: "mem_load_loop (m\<lparr>safe := False\<rparr>) bs start = Inr m1"
      "mem_byte m1 = put_bytes (mem_byte (m\<lparr>safe := False\<rparr>)) start bs" by blast
  let ?stop = "start + of_nat (length bs)"
  have u: "unat (?stop - start) = length bs" "start \<le> ?stop"
    using assms by (simp_all add: unat_of_nat word_le_nat_alt unat_word_ariths)
  let ?m = "m1\<lparr>safe := sm, safe := False\<rparr>"
  have "mem_byte ?m = mem_byte m1" by (simp add: mem_byte_def fun_eq_iff)
  then have "get_bytes (mem_byte ?m) start (length bs) = bs"
    using get_put_bytes [of bs _ start] m1(2) assms by simp
  moreover have "\<not> safe ?m" by simp
  ultimately show ?thesis
    using dump_loop_ok [of ?m start ?stop] u m1(1) by (auto simp: mem_load_def mem_dump_def)
qed
lemma mem_load_dump_witness:
  "\<exists>m' m''. mem_load True (mem_create True) [1, 2, 3] 0x1fff = Inr m' \<and>
     mem_dump True m' 0x1fff (0x1fff + of_nat (length [1, 2, 3 :: u8])) = Inr (m'', [1, 2, 3])"
  by (rule mem_load_dump) simp

text \<open>\<open>mem_zero\<close> writes nothing: whatever address and length it is called with, every page
  stays as it was (each of its accesses has size 0).\<close>

lemma mem_zero_noop: "\<exists>m'. mem_zero m a n = Inr m' \<and> pages m' = pages m"
proof (induction n arbitrary: m a)
  case (Suc n)
  from Suc.IH [of "m\<lparr>last_address := a\<rparr>" "a + 1"]
  show ?case by (simp add: mem_access_def mem_access_loop.simps)
qed simp


end
