(* ===== verification/Spec_Mem.thy ===== *)
theory Spec_Mem
  imports Memory_Props
begin

text \<open>
  Speculative memory (\<open>src/mem-system/spec-mem.c\<close>): what a context writes on a
  mispredicted path goes to 16-byte pages kept beside the memory image, and is dropped by
  \<open>spec_mem_clear\<close>. Reads without a speculative page go to the image, in unsafe mode. The
  global \<open>mem_safe_mode\<close> is an argument; a 16-byte array is a function of the index.
\<close>

section \<open>State and operations\<close>

abbreviation SPEC_MEM_LOG_PAGE_SIZE :: nat where "SPEC_MEM_LOG_PAGE_SIZE \<equiv> 4"
abbreviation SPEC_MEM_PAGE_SIZE :: u32 where "SPEC_MEM_PAGE_SIZE \<equiv> 16"
abbreviation SPEC_MEM_PAGE_TABLE_SIZE :: nat where "SPEC_MEM_PAGE_TABLE_SIZE \<equiv> 32"
abbreviation SPEC_MEM_MAX_PAGE_COUNT :: nat where "SPEC_MEM_MAX_PAGE_COUNT \<equiv> 100"

record spec_mem_page_t =
  sp_addr :: u32
  sp_data :: "nat \<Rightarrow> u8"

record spec_mem_t =
  sm_mem :: mem_t
  page_count :: nat
  sm_pages :: "nat \<Rightarrow> spec_mem_page_t list"

definition spec_addr :: "u32 \<Rightarrow> u32" where
  "spec_addr addr = addr AND NOT (SPEC_MEM_PAGE_SIZE - 1)"

definition spec_index :: "u32 \<Rightarrow> nat" where
  "spec_index addr = unat (drop_bit SPEC_MEM_LOG_PAGE_SIZE (spec_addr addr)) mod SPEC_MEM_PAGE_TABLE_SIZE"

definition spec_offset :: "u32 \<Rightarrow> nat" where
  "spec_offset addr = unat (addr AND (SPEC_MEM_PAGE_SIZE - 1))"

definition spec_mem_page_get :: "spec_mem_t \<Rightarrow> u32 \<Rightarrow> spec_mem_page_t option" where
  "spec_mem_page_get spec_mem addr =
     find (\<lambda>p. sp_addr p = spec_addr addr) (sm_pages spec_mem (spec_index addr))"

text \<open>\<open>mem->safe = 0; mem_read(...); mem->safe = mem_safe_mode\<close>\<close>

definition unsafe_read :: "bool \<Rightarrow> mem_t \<Rightarrow> u32 \<Rightarrow> nat \<Rightarrow> (mem_t \<times> u8 list) res" where
  "unsafe_read mem_safe_mode mem addr sz =
     res_bind (mem_read (mem\<lparr>safe := False\<rparr>) addr sz) (\<lambda>(mem, buf).
     Inr (mem\<lparr>safe := mem_safe_mode\<rparr>, buf))"

definition spec_mem_page_create :: "bool \<Rightarrow> spec_mem_t \<Rightarrow> u32 \<Rightarrow> spec_mem_t res" where
  "spec_mem_page_create mem_safe_mode spec_mem addr =
     (let index = spec_index addr in
      res_bind (unsafe_read mem_safe_mode (sm_mem spec_mem) (spec_addr addr) (unat SPEC_MEM_PAGE_SIZE))
        (\<lambda>(mem, buf).
      let page = \<lparr>sp_addr = spec_addr addr, sp_data = (\<lambda>i. buf ! i)\<rparr> in
      Inr (spec_mem\<lparr>sm_mem := mem,
             sm_pages := (sm_pages spec_mem)(index := page # sm_pages spec_mem index),
             page_count := page_count spec_mem + 1\<rparr>)))"

definition spec_page_write :: "nat \<Rightarrow> nat \<Rightarrow> u8 list \<Rightarrow> spec_mem_page_t \<Rightarrow> spec_mem_page_t" where
  "spec_page_write offset sz buf page =
     page\<lparr>sp_data := (\<lambda>i. if offset \<le> i \<and> i < offset + sz then buf ! (i - offset) else sp_data page i)\<rparr>"

text \<open>The second half of \<open>spec_mem_access_aligned\<close>, with a page.\<close>

definition spec_mem_access_page ::
  "spec_mem_t \<Rightarrow> u32 \<Rightarrow> nat \<Rightarrow> u8 list \<Rightarrow> mem_access_t \<Rightarrow> (spec_mem_t \<times> u8 list) res" where
  "spec_mem_access_page spec_mem addr sz buf access =
     (let offset = spec_offset addr in
      case spec_mem_page_get spec_mem addr of
        None \<Rightarrow> Inl Null_deref
      | Some page \<Rightarrow>
          if \<not> offset + sz \<le> unat SPEC_MEM_PAGE_SIZE then Inl Assert_failed
          else if access = mem_access_read
          then Inr (spec_mem, map (\<lambda>i. sp_data page (offset + i)) [0..<sz])
          else Inr (spec_mem\<lparr>sm_pages := (sm_pages spec_mem)(spec_index addr :=
                      update_first (\<lambda>p. sp_addr p = spec_addr addr) (spec_page_write offset sz buf)
                        (sm_pages spec_mem (spec_index addr)))\<rparr>, take sz buf))"

definition spec_mem_access_aligned ::
  "bool \<Rightarrow> spec_mem_t \<Rightarrow> u32 \<Rightarrow> nat \<Rightarrow> u8 list \<Rightarrow> mem_access_t \<Rightarrow> (spec_mem_t \<times> u8 list) res" where
  "spec_mem_access_aligned mem_safe_mode spec_mem addr sz buf access =
     (case spec_mem_page_get spec_mem addr of
        None \<Rightarrow>
          if access = mem_access_read
          then res_bind (unsafe_read mem_safe_mode (sm_mem spec_mem) addr sz) (\<lambda>(mem, out).
                 Inr (spec_mem\<lparr>sm_mem := mem\<rparr>, out))
          else if page_count spec_mem \<ge> SPEC_MEM_MAX_PAGE_COUNT then Inr (spec_mem, take sz buf)
          else res_bind (spec_mem_page_create mem_safe_mode spec_mem addr) (\<lambda>spec_mem.
                 spec_mem_access_page spec_mem addr sz buf access)
      | Some page \<Rightarrow> spec_mem_access_page spec_mem addr sz buf access)"

lemma spec_offset_eq: "spec_offset addr = unat addr mod 16"
  using unat_and_mask [of addr 4] by (simp add: spec_offset_def mask_eq_exp_minus_1)

lemma spec_offset_less [simp]: "spec_offset addr < 16"
  by (simp add: spec_offset_eq)

function spec_mem_access ::
  "bool \<Rightarrow> spec_mem_t \<Rightarrow> u32 \<Rightarrow> nat \<Rightarrow> u8 list \<Rightarrow> mem_access_t \<Rightarrow> (spec_mem_t \<times> u8 list) res" where
  "spec_mem_access mem_safe_mode spec_mem addr sz buf access =
     (if sz = 0 then Inr (spec_mem, [])
      else
        let offset = spec_offset addr;
            chunksize = min sz (unat SPEC_MEM_PAGE_SIZE - offset)
        in res_bind (spec_mem_access_aligned mem_safe_mode spec_mem addr chunksize buf access)
             (\<lambda>(spec_mem, out).
           res_bind (spec_mem_access mem_safe_mode spec_mem (addr + of_nat chunksize) (sz - chunksize)
                       (drop chunksize buf) access) (\<lambda>(spec_mem, out').
           Inr (spec_mem, out @ out'))))"
  by pat_completeness auto

termination spec_mem_access
proof (relation "measure (\<lambda>(ms, m, addr, sz, buf, access). sz)", goal_cases)
  case (2 ms m addr sz buf access)
  then show ?case using spec_offset_less [of addr] by (simp add: min_def)
qed simp

declare spec_mem_access.simps [simp del]

definition spec_mem_create :: "mem_t \<Rightarrow> spec_mem_t res" where
  "spec_mem_create mem =
     (if unat MEM_PAGE_SIZE mod unat SPEC_MEM_PAGE_SIZE \<noteq> 0 then Inl Assert_failed
      else Inr \<lparr>sm_mem = mem, page_count = 0, sm_pages = (\<lambda>_. [])\<rparr>)"

definition spec_mem_read :: "bool \<Rightarrow> spec_mem_t \<Rightarrow> u32 \<Rightarrow> nat \<Rightarrow> (spec_mem_t \<times> u8 list) res" where
  "spec_mem_read mem_safe_mode spec_mem addr sz =
     spec_mem_access mem_safe_mode spec_mem addr sz (replicate sz 0) mem_access_read"

definition spec_mem_write :: "bool \<Rightarrow> spec_mem_t \<Rightarrow> u32 \<Rightarrow> nat \<Rightarrow> u8 list \<Rightarrow> spec_mem_t res" where
  "spec_mem_write mem_safe_mode spec_mem addr sz buf =
     res_bind (spec_mem_access mem_safe_mode spec_mem addr sz buf mem_access_write)
       (\<lambda>(spec_mem, _). Inr spec_mem)"

definition spec_mem_clear :: "spec_mem_t \<Rightarrow> spec_mem_t" where
  "spec_mem_clear spec_mem =
     spec_mem\<lparr>sm_pages := fold (\<lambda>i ps. ps(i := [])) [0..<SPEC_MEM_PAGE_TABLE_SIZE] (sm_pages spec_mem),
              page_count := 0\<rparr>"

section \<open>The speculative view\<close>

text \<open>
  A byte is the speculative page's where there is one, the image's otherwise. The pages
  of the table hang in the chain of their address, and are as many as the counter says.
\<close>

definition spec_byte :: "spec_mem_t \<Rightarrow> u32 \<Rightarrow> u8" where
  "spec_byte s a =
     (case spec_mem_page_get s a of Some p \<Rightarrow> sp_data p (spec_offset a) | None \<Rightarrow> mem_byte (sm_mem s) a)"

definition spec_pages :: "spec_mem_t \<Rightarrow> u32 set" where
  "spec_pages s = {a. spec_mem_page_get s a \<noteq> None}"

text \<open>
  What a write means, byte by byte, on the view, the addresses with a page and the number of pages: a byte
  without a page gets one, as long as there are fewer than 100, and is dropped otherwise.
\<close>

fun spec_put :: "(u32 \<Rightarrow> u8) \<times> u32 set \<times> nat \<Rightarrow> u32 \<Rightarrow> u8 list \<Rightarrow> (u32 \<Rightarrow> u8) \<times> u32 set \<times> nat" where
  "spec_put st a [] = st"
| "spec_put (v, P, c) a (b # bs) =
     (if a \<in> P then spec_put (v(a := b), P, c) (a + 1) bs
      else if c < 100 then spec_put (v(a := b), P \<union> {x. unat x div 16 = unat a div 16}, c + 1) (a + 1) bs
      else spec_put (v, P, c) (a + 1) bs)"

abbreviation spec_view :: "spec_mem_t \<Rightarrow> (u32 \<Rightarrow> u8) \<times> u32 set \<times> nat" where
  "spec_view s \<equiv> (spec_byte s, spec_pages s, page_count s)"

lemma spec_put_append: "spec_put st a (xs @ ys) = spec_put (spec_put st a xs) (a + of_nat (length xs)) ys"
proof (induction xs arbitrary: st a)
  case (Cons x xs)
  obtain v P c where "st = (v, P, c)" by (cases st)
  with Cons show ?case by (simp add: algebra_simps)
qed simp

text \<open>Within a page, all bytes are written or all are dropped.\<close>

lemma spec_put_page:
  assumes "bs \<noteq> []" "unat a mod 16 + length bs \<le> 16" "\<And>x y. x \<in> P \<Longrightarrow> unat x div 16 = unat y div 16 \<Longrightarrow> y \<in> P"
  shows "spec_put (v, P, c) a bs =
    (if a \<in> P then (put_bytes v a bs, P, c)
     else if c < 100 then (put_bytes v a bs, P \<union> {x. unat x div 16 = unat a div 16}, c + 1)
     else (v, P, c))"
proof -
  have step: "unat (a + 1) div 16 = unat a div 16 \<and> unat (a + 1) mod 16 = unat a mod 16 + 1" if "unat a mod 16 + 1 < 16" for a :: u32
    using that block_add [of 16 a 1] by (simp add: word_unat_eq_iff)
  have inside: "unat (a + 1) mod 16 + length bs \<le> 16 \<and> (bs \<noteq> [] \<longrightarrow> unat (a + 1) div 16 = unat a div 16)"
    if "unat a mod 16 + length (b # bs) \<le> 16" for a :: u32 and b and bs :: "u8 list"
  proof (cases bs)
    case Nil
    then show ?thesis using mod_less_divisor [of 16 "unat (a + 1)"] by simp
  next
    case (Cons b' bs')
    with that have "unat a mod 16 + 1 < 16" by simp
    with step [OF this] that show ?thesis by simp
  qed
  have w: "spec_put (v, P, c) a bs = (put_bytes v a bs, P, c)"
    if "bs \<noteq> [] \<Longrightarrow> a \<in> P" "unat a mod 16 + length bs \<le> 16" "\<And>x y. x \<in> P \<Longrightarrow> unat x div 16 = unat y div 16 \<Longrightarrow> y \<in> P"
    for bs v a P c using that
  proof (induction bs arbitrary: v a)
    case (Cons b bs)
    have "spec_put (v(a := b), P, c) (a + 1) bs = (put_bytes (v(a := b)) (a + 1) bs, P, c)"
    proof (rule Cons.IH)
      show "bs \<noteq> [] \<Longrightarrow> a + 1 \<in> P" using Cons.prems(1) Cons.prems(3) [of a "a + 1"] inside [of a b bs] Cons.prems(2) by simp
      show "unat (a + 1) mod 16 + length bs \<le> 16" using inside [of a b bs] Cons.prems(2) by blast
    qed (rule Cons.prems(3))
    then show ?case using Cons.prems by simp
  qed simp
  have d: "spec_put (v, P, c) a bs = (v, P, c)"
    if "bs \<noteq> [] \<Longrightarrow> a \<notin> P" "unat a mod 16 + length bs \<le> 16" "\<not> c < 100" for bs a using that assms(3)
  proof (induction bs arbitrary: a)
    case (Cons b bs)
    have "spec_put (v, P, c) (a + 1) bs = (v, P, c)"
    proof (rule Cons.IH)
      show "bs \<noteq> [] \<Longrightarrow> a + 1 \<notin> P" using Cons.prems(1) Cons.prems(4) [of "a + 1" a] inside [of a b bs] Cons.prems(2) by auto
      show "unat (a + 1) mod 16 + length bs \<le> 16" using inside [of a b bs] Cons.prems(2) by blast
    qed (use Cons.prems in auto)
    then show ?case using Cons.prems by simp
  qed simp
  obtain b bs' where bs: "bs = b # bs'" using assms(1) by (cases bs) auto
  let ?P = "P \<union> {x. unat x div 16 = unat a div 16}"
  consider "a \<in> P" | "a \<notin> P" "c < 100" | "a \<notin> P" "\<not> c < 100" by blast
  then show ?thesis
  proof cases
    case 2
    have "spec_put (v(a := b), ?P, c + 1) (a + 1) bs' = (put_bytes (v(a := b)) (a + 1) bs', ?P, c + 1)"
      by (rule w) (use assms(2,3) inside [of a b bs'] bs in auto)
    then show ?thesis using 2 bs by simp
  qed (use w [OF _ assms(2,3)] d [OF _ assms(2)] in auto)
qed

definition spec_ok :: "spec_mem_t \<Rightarrow> bool" where
  "spec_ok s \<longleftrightarrow> page_count s \<le> SPEC_MEM_MAX_PAGE_COUNT \<and>
     page_count s = (\<Sum>i < SPEC_MEM_PAGE_TABLE_SIZE. length (sm_pages s i)) \<and>
     (\<forall>i. \<forall>p \<in> set (sm_pages s i). spec_addr (sp_addr p) = sp_addr p \<and> spec_index (sp_addr p) = i)"

lemma spec_addr_eq_iff: "spec_addr a = spec_addr b \<longleftrightarrow> unat a div 16 = unat b div 16"
  using unat_and_not_mask [of _ 4]
  by (simp add: word_unat_eq_iff spec_addr_def mask_eq_exp_minus_1 minus_mod_eq_div_mult)

lemma spec_addr_idem [simp]: "spec_addr (spec_addr a) = spec_addr a"
  by (simp add: spec_addr_def)

lemma spec_index_less [simp]: "spec_index a < 32"
  by (simp add: spec_index_def)

lemma spec_index_addr [simp]: "spec_index (spec_addr a) = spec_index a"
  by (simp add: spec_index_def)

lemma spec_index_cong: "spec_addr a = spec_addr b \<Longrightarrow> spec_index a = spec_index b"
  by (simp add: spec_index_def)

lemma spec_get_cong: "spec_addr a = spec_addr b \<Longrightarrow> spec_mem_page_get s a = spec_mem_page_get s b"
  by (simp add: spec_mem_page_get_def spec_index_cong [of a b])

lemma spec_offset_addr: "unat (spec_addr a) mod 16 = 0" "unat (spec_addr a) div 16 = unat a div 16"
  using spec_addr_eq_iff [of "spec_addr a" a] unat_and_not_mask [of a 4]
  by (simp_all add: spec_addr_def mask_eq_exp_minus_1 minus_mod_eq_div_mult)

lemma mem_byte_safe [simp]: "mem_byte (m\<lparr>safe := b\<rparr>) = mem_byte m"
  by (simp add: mem_byte_def fun_eq_iff)

lemma unsafe_read_ok:
  "\<exists>m'. unsafe_read ms m a n = Inr (m', get_bytes (mem_byte m) a n) \<and> mem_byte m' = mem_byte m"
  using unsafe_access [of "m\<lparr>safe := False\<rparr>" mem_access_read n "replicate n 0" a]
  by (auto simp: unsafe_read_def mem_read_def)

lemma spec_ok_replace:
  assumes "spec_ok s" "i < 32" "length ps = length (sm_pages s i)"
    and "\<forall>p \<in> set ps. spec_addr (sp_addr p) = sp_addr p \<and> spec_index (sp_addr p) = i"
  shows "spec_ok (s\<lparr>sm_pages := (sm_pages s)(i := ps)\<rparr>)"
proof -
  have "length (((sm_pages s)(i := ps)) j) = length (sm_pages s j)" for j using assms(3) by simp
  with assms(1,4) show ?thesis unfolding spec_ok_def by simp
qed

lemma spec_ok_insert:
  assumes "spec_ok s" "page_count s < 100" "spec_addr (sp_addr p) = sp_addr p"
  shows "spec_ok (s\<lparr>sm_mem := m, sm_pages := (sm_pages s)(spec_index (sp_addr p) := p # sm_pages s (spec_index (sp_addr p))),
           page_count := page_count s + 1\<rparr>)"
proof -
  have "(\<Sum>i < 32. length (((sm_pages s)(j := p # sm_pages s j)) i)) = Suc (\<Sum>i < 32. length (sm_pages s i))"
    if "j < 32" for j :: nat
  proof -
    have j: "{..<32::nat} = insert j ({..<32} - {j})" using that by auto
    show ?thesis by (subst (1 2) j, subst (1 2) sum.insert) auto
  qed
  with assms show ?thesis by (auto simp: spec_ok_def)
qed

lemma spec_ok_mem [simp]: "spec_ok (s\<lparr>sm_mem := m\<rparr>) = spec_ok s"
  by (simp add: spec_ok_def)

lemma set_update_firstD: "x \<in> set (update_first P f ps) \<Longrightarrow> x \<in> set ps \<or> (\<exists>y \<in> set ps. P y \<and> x = f y)"
  by (induction ps) (auto split: if_splits)

lemma sp_addr_write [simp]: "sp_addr (spec_page_write off n buf p) = sp_addr p"
  by (simp add: spec_page_write_def)

text \<open>One access inside a speculative page.\<close>

definition spec_keeps :: "spec_mem_t \<Rightarrow> spec_mem_t \<Rightarrow> bool" where
  "spec_keeps s s' \<longleftrightarrow> spec_ok s' \<and> mem_byte (sm_mem s') = mem_byte (sm_mem s)"

lemma page_read_ok:
  assumes "spec_mem_page_get s a = Some p" "spec_offset a + n \<le> 16"
  shows "spec_mem_access_page s a n buf mem_access_read = Inr (s, get_bytes (spec_byte s) a n)"
proof -
  have "spec_byte s b = sp_data p (unat b mod 16)" if "unat b div 16 = unat a div 16" for b
    using spec_get_cong [of b a s] that assms(1) by (simp add: spec_byte_def spec_offset_eq spec_addr_eq_iff)
  then have "get_bytes (spec_byte s) a n = map (\<lambda>i. sp_data p (unat a mod 16 + i)) [0..<n]"
    by (rule get_bytes_block [of 16, rotated 2]) (use assms(2) in \<open>simp_all add: spec_offset_eq\<close>)
  with assms show ?thesis by (simp add: spec_mem_access_page_def Let_def spec_offset_eq)
qed

lemma page_write_ok:
  assumes "spec_ok s" "spec_mem_page_get s a = Some p" "spec_offset a + n \<le> 16" "n \<le> length buf"
  shows "\<exists>s' out. spec_mem_access_page s a n buf mem_access_write = Inr (s', out) \<and> spec_keeps s s' \<and>
    spec_view s' = (put_bytes (spec_byte s) a (take n buf), spec_pages s, page_count s)"
proof -
  let ?ps = "update_first (\<lambda>p. sp_addr p = spec_addr a) (spec_page_write (spec_offset a) n buf)
      (sm_pages s (spec_index a))"
  let ?s = "s\<lparr>sm_pages := (sm_pages s)(spec_index a := ?ps)\<rparr>"
  have g: "spec_mem_page_get ?s b = (if spec_addr b = spec_addr a
        then Some (spec_page_write (spec_offset a) n buf p) else spec_mem_page_get s b)" for b
    using assms(2) by (auto simp: spec_mem_page_get_def find_update_first dest: spec_index_cong)
  have "spec_mem_access_page s a n buf mem_access_write = Inr (?s, take n buf)"
    using assms by (simp add: spec_mem_access_page_def Let_def mem_access_defs)
  moreover have "spec_ok ?s"
    by (rule spec_ok_replace [OF assms(1)])
      (use assms(1) in \<open>auto simp: spec_ok_def dest!: set_update_firstD\<close>)
  moreover have "spec_pages ?s = spec_pages s"
  proof -
    have "b \<in> spec_pages ?s \<longleftrightarrow> b \<in> spec_pages s" for b
      unfolding spec_pages_def mem_Collect_eq g using assms(2) spec_get_cong [of b a s] by simp
    then show ?thesis by blast
  qed
  moreover have "spec_byte ?s = put_bytes (spec_byte s) a (take n buf)"
  proof (rule put_bytes_block [of 16])
    show "spec_byte ?s b = spec_byte s b" if "unat b div 16 \<noteq> unat a div 16" for b
      using that by (simp add: spec_byte_def g spec_addr_eq_iff split: option.split)
    show "spec_byte ?s b = (if unat a mod 16 \<le> unat b mod 16 \<and> unat b mod 16 < unat a mod 16 + n
        then buf ! (unat b mod 16 - unat a mod 16) else spec_byte s b)" if "unat b div 16 = unat a div 16" for b
      unfolding spec_byte_def g using that assms(2) spec_get_cong [of b a s]
      by (simp add: spec_addr_eq_iff spec_page_write_def spec_offset_eq)
  qed (use assms in \<open>simp_all add: spec_offset_eq\<close>)
  ultimately show ?thesis by (auto simp: spec_keeps_def)
qed

lemma page_create_ok:
  assumes "spec_ok s" "spec_mem_page_get s a = None" "page_count s < 100"
  shows "\<exists>s' p. spec_mem_page_create ms s a = Inr s' \<and> spec_keeps s s' \<and>
    page_count s' = page_count s + 1 \<and> spec_mem_page_get s' a = Some p \<and> spec_byte s' = spec_byte s \<and>
    spec_pages s' = spec_pages s \<union> {x. unat x div 16 = unat a div 16}"
proof -
  from unsafe_read_ok [of ms "sm_mem s" "spec_addr a" 16] obtain m' where
    m': "unsafe_read ms (sm_mem s) (spec_addr a) 16 = Inr (m', get_bytes (mem_byte (sm_mem s)) (spec_addr a) 16)"
      "mem_byte m' = mem_byte (sm_mem s)" by blast
  let ?p = "\<lparr>sp_addr = spec_addr a, sp_data = (!) (get_bytes (mem_byte (sm_mem s)) (spec_addr a) 16)\<rparr>"
  let ?s = "s\<lparr>sm_mem := m', sm_pages := (sm_pages s)(spec_index a := ?p # sm_pages s (spec_index a)),
      page_count := page_count s + 1\<rparr>"
  have g: "spec_mem_page_get ?s b = (if spec_addr b = spec_addr a then Some ?p else spec_mem_page_get s b)" for b
    by (auto simp: spec_mem_page_get_def dest: spec_index_cong)
  have "spec_byte ?s b = spec_byte s b" for b
  proof (cases "spec_addr b = spec_addr a")
    case True
    then have "b = spec_addr a + of_nat (unat b mod 16)"
      using block_diff [of 16 b "spec_addr a"] spec_offset_addr [of a] by (simp add: spec_addr_eq_iff)
    then have "mem_byte (sm_mem s) (spec_addr a + of_nat (unat b mod 16)) = mem_byte (sm_mem s) b" by simp
    with True spec_get_cong [OF True, of s] assms(2) show ?thesis
      unfolding spec_byte_def g by (simp add: spec_offset_eq get_bytes_nth)
  qed (unfold spec_byte_def g, simp add: m'(2) split: option.split)
  then have "spec_byte ?s = spec_byte s" by (rule ext)
  moreover have "spec_ok ?s" using spec_ok_insert [OF assms(1,3), of ?p m'] by simp
  moreover have "spec_mem_page_create ms s a = Inr ?s"
    using m' by (simp add: spec_mem_page_create_def Let_def)
  moreover have "spec_pages ?s = spec_pages s \<union> {x. unat x div 16 = unat a div 16}"
  proof -
    have "b \<in> spec_pages ?s \<longleftrightarrow> b \<in> spec_pages s \<or> unat b div 16 = unat a div 16" for b
      unfolding spec_pages_def mem_Collect_eq g spec_addr_eq_iff by simp
    then show ?thesis by blast
  qed
  ultimately show ?thesis using m' g [of a] by (intro exI [of _ ?s] exI [of _ ?p]) (simp add: spec_keeps_def)
qed

lemma aligned_read_ok:
  assumes "spec_ok s" "spec_offset a + n \<le> 16"
  shows "\<exists>s'. spec_mem_access_aligned ms s a n buf mem_access_read = Inr (s', get_bytes (spec_byte s) a n) \<and>
    spec_keeps s s' \<and> spec_byte s' = spec_byte s"
proof (cases "spec_mem_page_get s a")
  case (Some p)
  with assms show ?thesis
    by (simp add: spec_mem_access_aligned_def page_read_ok spec_keeps_def)
next
  case None
  from unsafe_read_ok [of ms "sm_mem s" a n] obtain m' where
    m': "unsafe_read ms (sm_mem s) a n = Inr (m', get_bytes (mem_byte (sm_mem s)) a n)"
      "mem_byte m' = mem_byte (sm_mem s)" by blast
  have "get_bytes (spec_byte s) a n = get_bytes (mem_byte (sm_mem s)) a n"
  proof (rule get_bytes_cong)
    fix i assume "i < n"
    with assms(2) have "spec_addr (a + of_nat i) = spec_addr a"
      by (simp add: spec_addr_eq_iff block_add(2) spec_offset_eq)
    from spec_get_cong [OF this, of s] None
    show "spec_byte s (a + of_nat i) = mem_byte (sm_mem s) (a + of_nat i)"
      by (simp add: spec_byte_def)
  qed
  moreover have "spec_byte (s\<lparr>sm_mem := m'\<rparr>) = spec_byte s"
    by (rule ext) (simp add: spec_byte_def spec_mem_page_get_def m' split: option.split)
  ultimately show ?thesis using None m' assms
    by (simp add: spec_mem_access_aligned_def spec_keeps_def)
qed

lemma aligned_write_ok:
  assumes "spec_ok s" "spec_offset a + n \<le> 16" "n \<le> length buf" "n \<noteq> 0"
  shows "\<exists>s' out. spec_mem_access_aligned ms s a n buf mem_access_write = Inr (s', out) \<and>
    spec_keeps s s' \<and> spec_view s' = spec_put (spec_view s) a (take n buf)"
proof -
  have w: "mem_access_write \<noteq> mem_access_read" by (simp add: mem_access_defs)
  have "y \<in> spec_pages s" if "x \<in> spec_pages s" "unat x div 16 = unat y div 16" for x y
    using that spec_get_cong [of x y s] by (simp add: spec_pages_def spec_addr_eq_iff)
  then have p: "spec_put (spec_view s) a (take n buf) =
    (if a \<in> spec_pages s then (put_bytes (spec_byte s) a (take n buf), spec_pages s, page_count s)
     else if page_count s < 100 then (put_bytes (spec_byte s) a (take n buf),
       spec_pages s \<union> {x. unat x div 16 = unat a div 16}, page_count s + 1)
     else spec_view s)"
    by (intro spec_put_page) (use assms in \<open>auto simp: spec_offset_eq\<close>)
  show ?thesis
  proof (cases "spec_mem_page_get s a")
    case (Some q)
    then have "a \<in> spec_pages s" by (simp add: spec_pages_def)
    with page_write_ok [OF assms(1) Some assms(2,3)] Some p show ?thesis
      by (auto simp: spec_mem_access_aligned_def)
  next
    case None
    then have a: "a \<notin> spec_pages s" by (simp add: spec_pages_def)
    show ?thesis
    proof (cases "page_count s \<ge> 100")
      case True
      with None w assms(1) p a show ?thesis by (simp add: spec_mem_access_aligned_def spec_keeps_def)
    next
      case False
      then have "page_count s < 100" by simp
      from page_create_ok [OF assms(1) None this, of ms] obtain s1 q where
        s1: "spec_mem_page_create ms s a = Inr s1" "spec_keeps s s1" "page_count s1 = page_count s + 1"
          "spec_mem_page_get s1 a = Some q" "spec_byte s1 = spec_byte s"
          "spec_pages s1 = spec_pages s \<union> {x. unat x div 16 = unat a div 16}" by blast
      then have "spec_ok s1" by (simp add: spec_keeps_def)
      from page_write_ok [OF this s1(4) assms(2,3)] s1 None False w a p show ?thesis
        by (auto simp: spec_mem_access_aligned_def spec_keeps_def)
    qed
  qed
qed

lemma spec_keeps_trans: "spec_keeps s t \<Longrightarrow> spec_keeps t u \<Longrightarrow> spec_keeps s u"
  by (simp add: spec_keeps_def)

text \<open>The chunk loop: every chunk but the last ends at a page boundary.\<close>

lemma chunk_facts:
  fixes a :: u32
  assumes "n \<noteq> 0"
  defines "c \<equiv> min n (16 - spec_offset a)"
  shows "spec_offset a + c \<le> 16" "0 < c" "c \<le> n"
    "c < n \<Longrightarrow> (spec_offset (a + of_nat c) + (n - c) + 15) div 16 + 1 = (spec_offset a + n + 15) div 16"
proof -
  show b: "spec_offset a + c \<le> 16" "0 < c" "c \<le> n"
    unfolding c_def using assms(1) spec_offset_less [of a] by linarith+
  assume "c < n"
  then have c: "c = 16 - spec_offset a" by (auto simp: c_def)
  have "spec_offset (a + of_nat c) = 0"
  proof -
    have "unat (a + of_nat c) mod 16 = (unat a + c) mod 16"
      by (simp add: unat_word_ariths unat_of_nat mod_mod_cancel mod_simps)
    also have "\<dots> = 0" using c spec_offset_less [of a] unfolding spec_offset_eq by presburger
    finally show ?thesis by (simp add: spec_offset_eq)
  qed
  moreover have "spec_offset a + n + 15 = (n - c + 15) + 16"
    using c \<open>c < n\<close> spec_offset_less [of a] by linarith
  ultimately show "(spec_offset (a + of_nat c) + (n - c) + 15) div 16 + 1 = (spec_offset a + n + 15) div 16"
    by (simp only: add_0_left)
qed

lemma spec_read_loop:
  "spec_ok s \<Longrightarrow> \<exists>s'. spec_mem_access ms s a n buf mem_access_read = Inr (s', get_bytes (spec_byte s) a n) \<and>
     spec_keeps s s' \<and> spec_byte s' = spec_byte s"
proof (induction n arbitrary: s a buf rule: less_induct)
  case (less n)
  show ?case
  proof (cases "n = 0")
    case True
    with less.prems show ?thesis by (simp add: spec_mem_access.simps spec_keeps_def)
  next
    case False
    let ?c = "min n (16 - spec_offset a)"
    note c = chunk_facts(1-3) [OF False, of a]
    from aligned_read_ok [OF less.prems c(1)] obtain s1 where
      s1: "spec_mem_access_aligned ms s a ?c buf mem_access_read = Inr (s1, get_bytes (spec_byte s) a ?c)"
        "spec_keeps s s1" "spec_byte s1 = spec_byte s" by blast
    have "n - ?c < n" "spec_ok s1" using c s1 by (auto simp: spec_keeps_def)
    from less.IH [OF this] obtain s2 where
      s2: "spec_mem_access ms s1 (a + of_nat ?c) (n - ?c) (drop ?c buf) mem_access_read =
             Inr (s2, get_bytes (spec_byte s1) (a + of_nat ?c) (n - ?c))"
        "spec_keeps s1 s2" "spec_byte s2 = spec_byte s1" by blast
    have "get_bytes (spec_byte s) a n =
        get_bytes (spec_byte s) a ?c @ get_bytes (spec_byte s) (a + of_nat ?c) (n - ?c)"
      using get_bytes_add [of "spec_byte s" a ?c "n - ?c"] c(3) by simp
    with s1 s2 False show ?thesis
      by (subst spec_mem_access.simps) (auto simp: Let_def intro: spec_keeps_trans)
  qed
qed

lemma spec_write_loop:
  "spec_ok s \<Longrightarrow> n \<le> length buf \<Longrightarrow>
   \<exists>s' out. spec_mem_access ms s a n buf mem_access_write = Inr (s', out) \<and> spec_keeps s s' \<and>
     spec_view s' = spec_put (spec_view s) a (take n buf)"
proof (induction n arbitrary: s a buf rule: less_induct)
  case (less n)
  show ?case
  proof (cases "n = 0")
    case True
    with less.prems show ?thesis by (simp add: spec_mem_access.simps spec_keeps_def)
  next
    case False
    let ?c = "min n (16 - spec_offset a)"
    note c = chunk_facts [OF False, of a]
    have l: "?c \<le> length buf" and c0: "?c \<noteq> 0" using c(2,3) less.prems(2) by simp_all
    from aligned_write_ok [OF less.prems(1) c(1) l c0, of ms] obtain s1 out where
      s1: "spec_mem_access_aligned ms s a ?c buf mem_access_write = Inr (s1, out)"
        "spec_keeps s s1" "spec_view s1 = spec_put (spec_view s) a (take ?c buf)" by blast
    have "n - ?c < n" "spec_ok s1" "n - ?c \<le> length (drop ?c buf)"
      using c s1 less.prems by (auto simp: spec_keeps_def)
    from less.IH [OF this, of "a + of_nat ?c"] obtain s2 out2 where
      s2: "spec_mem_access ms s1 (a + of_nat ?c) (n - ?c) (drop ?c buf) mem_access_write = Inr (s2, out2)"
        "spec_keeps s1 s2" "spec_view s2 = spec_put (spec_view s1) (a + of_nat ?c) (take (n - ?c) (drop ?c buf))"
      by blast
    have t: "take n buf = take ?c buf @ take (n - ?c) (drop ?c buf)" using c(3) by (metis le_add_diff_inverse take_add)
    have "length (take ?c buf) = ?c" using l by simp
    then have "spec_view s2 = spec_put (spec_view s) a (take n buf)"
      unfolding t spec_put_append s2(3) s1(3) by simp
    with s1 s2 False show ?thesis
      by (subst spec_mem_access.simps) (auto simp: Let_def intro: spec_keeps_trans)
  qed
qed

text \<open>With room for every page that a write touches, nothing is dropped.\<close>

lemma spec_put_room:
  assumes "\<And>x y. x \<in> P \<Longrightarrow> unat x div 16 = unat y div 16 \<Longrightarrow> y \<in> P" "c + (unat a mod 16 + length bs + 15) div 16 \<le> 100"
  shows "fst (spec_put (v, P, c) a bs) = put_bytes v a bs"
  using assms
proof (induction "length bs" arbitrary: v P c a bs rule: less_induct)
  case less
  show ?case
  proof (cases "bs = []")
    case False
    define k where "k = min (length bs) (16 - spec_offset a)"
    note c = chunk_facts [of "length bs" a, unfolded length_0_conv, OF False, folded k_def]
    let ?xs = "take k bs" and ?ys = "drop k bs"
    have len: "length ?xs = k" "length ?ys = length bs - k" using c(3) by simp_all
    have xs: "?xs \<noteq> []" "unat a mod 16 + length ?xs \<le> 16" using c(1,2) False len by (auto simp: spec_offset_eq)
    have pos: "0 < (unat a mod 16 + length bs + 15) div 16" using False by (cases bs) simp_all
    then have "c < 100" using less.prems(2) by linarith
    with spec_put_page [OF xs less.prems(1)] obtain P' c' where
      st: "spec_put (v, P, c) a ?xs = (put_bytes v a ?xs, P', c')" "c' \<le> c + 1"
        "\<And>x y. x \<in> P' \<Longrightarrow> unat x div 16 = unat y div 16 \<Longrightarrow> y \<in> P'"
    proof -
      assume that: "\<And>P' c'. spec_put (v, P, c) a ?xs = (put_bytes v a ?xs, P', c') \<Longrightarrow> c' \<le> c + 1 \<Longrightarrow>
        (\<And>x y. x \<in> P' \<Longrightarrow> unat x div 16 = unat y div 16 \<Longrightarrow> y \<in> P') \<Longrightarrow> thesis"
      show thesis
      proof (cases "a \<in> P")
        case True
        then show thesis using spec_put_page [OF xs less.prems(1)] less.prems(1) by (intro that [of P c]) auto
      next
        case False
        then show thesis using spec_put_page [OF xs less.prems(1)] less.prems(1) \<open>c < 100\<close>
          by (intro that [of "P \<union> {x. unat x div 16 = unat a div 16}" "c + 1"]) auto
      qed
    qed
    have "fst (spec_put (put_bytes v a ?xs, P', c') (a + of_nat k) ?ys) = put_bytes (put_bytes v a ?xs) (a + of_nat k) ?ys"
    proof (cases "k < length bs")
      case True
      have "c' + (unat (a + of_nat k) mod 16 + length ?ys + 15) div 16 \<le> 100"
      proof -
        have t: "c' + x \<le> 100" if "x + 1 = y" "c + y \<le> 100" for x y using that st(2) by linarith
        show ?thesis unfolding len by (rule t [OF c(4) [OF True, unfolded spec_offset_eq] less.prems(2)])
      qed
      moreover have "length ?ys < length bs" using c(2) len True by simp
      ultimately show ?thesis using st(3) by (intro less.hyps) blast+
    qed simp
    then have "fst (spec_put (v, P, c) a (?xs @ ?ys)) = put_bytes v a (?xs @ ?ys)"
      unfolding spec_put_append put_bytes_append st(1) len by simp
    then show ?thesis by simp
  qed simp
qed

section \<open>Speculation is isolated\<close>

text \<open>C6: a speculative write always succeeds, leaves every byte of the non-speculative memory as it was, and
  does to the speculative view exactly what \<open>spec_put\<close> does byte by byte: a byte is written when its
  16-byte page exists or can be created, and dropped when the page is missing and there are 100 pages. If
  there is room for all pages that the write may need, every byte is written.\<close>

theorem spec_mem_write_correct:
  assumes "spec_ok s" "n \<le> length buf"
  shows "\<exists>s'. spec_mem_write ms s a n buf = Inr s' \<and> spec_ok s' \<and> mem_byte (sm_mem s') = mem_byte (sm_mem s) \<and>
    (spec_byte s', spec_pages s', page_count s') = spec_put (spec_byte s, spec_pages s, page_count s) a (take n buf) \<and>
    (page_count s + (spec_offset a + n + 15) div 16 \<le> 100 \<longrightarrow> spec_byte s' = put_bytes (spec_byte s) a (take n buf))"
proof -
  from spec_write_loop [OF assms, of ms a] obtain s' out where
    s': "spec_mem_access ms s a n buf mem_access_write = Inr (s', out)" "spec_keeps s s'"
      "spec_view s' = spec_put (spec_view s) a (take n buf)" by blast
  have "y \<in> spec_pages s" if "x \<in> spec_pages s" "unat x div 16 = unat y div 16" for x y
    using that spec_get_cong [of x y s] by (simp add: spec_pages_def spec_addr_eq_iff)
  note room = spec_put_room [of "spec_pages s" "page_count s" a "take n buf" "spec_byte s", OF this]
  have "page_count s + (spec_offset a + n + 15) div 16 \<le> 100 \<Longrightarrow> spec_byte s' = put_bytes (spec_byte s) a (take n buf)"
    using room assms(2) s'(3) [symmetric] by (simp add: spec_offset_eq min_def)
  then show ?thesis using s' by (auto simp: spec_mem_write_def spec_keeps_def)
qed

definition spec_mem_example :: spec_mem_t where
  "spec_mem_example = \<lparr>sm_mem = mem_create True, page_count = 0, sm_pages = (\<lambda>_. [])\<rparr>"

lemma spec_mem_write_correct_witness:
  "\<exists>s'. spec_mem_write True spec_mem_example 0xfffe 4 [1, 2, 3, 4] = Inr s' \<and> spec_ok s' \<and>
    mem_byte (sm_mem s') = mem_byte (sm_mem spec_mem_example) \<and>
    spec_byte s' = put_bytes (spec_byte spec_mem_example) 0xfffe [1, 2, 3, 4]"
proof -
  have "spec_ok spec_mem_example" "4 \<le> length [1, 2, 3, 4 :: u8]" by (simp_all add: spec_ok_def spec_mem_example_def)
  moreover have "page_count spec_mem_example + (spec_offset 0xfffe + 4 + 15) div 16 \<le> 100"
    by (simp add: spec_mem_example_def spec_offset_def)
  ultimately show ?thesis using spec_mem_write_correct [where s = spec_mem_example and n = 4 and buf = "[1, 2, 3, 4]" and ms = True and a = "0xfffe"]
    by auto
qed

text \<open>A speculative read returns the speculative view and changes neither it nor the
  non-speculative bytes.\<close>

theorem spec_mem_read_correct:
  assumes "spec_ok s"
  shows "\<exists>s'. spec_mem_read ms s a n = Inr (s', get_bytes (spec_byte s) a n) \<and> spec_ok s' \<and>
    mem_byte (sm_mem s') = mem_byte (sm_mem s) \<and> spec_byte s' = spec_byte s"
  using spec_read_loop [OF assms, of ms a n "replicate n 0"]
  by (auto simp: spec_mem_read_def spec_keeps_def)

lemma spec_mem_read_correct_witness:
  "\<exists>s'. spec_mem_read True spec_mem_example 0xfff0 20 = Inr (s', get_bytes (spec_byte spec_mem_example) 0xfff0 20) \<and>
    spec_ok s' \<and> mem_byte (sm_mem s') = mem_byte (sm_mem spec_mem_example) \<and>
    spec_byte s' = spec_byte spec_mem_example"
  by (rule spec_mem_read_correct) (simp add: spec_ok_def spec_mem_example_def)

text \<open>C32: a squash forgets every speculative write: after any sequence of speculative
  writes, accepted or ignored, \<open>spec_mem_clear\<close> shows the non-speculative memory as it was
  before them.\<close>

theorem spec_mem_clear_restores:
  assumes "spec_ok s"
    and "foldl (\<lambda>r (a, bs). res_bind r (\<lambda>s. spec_mem_write ms s a (length bs) bs)) (Inr s) ws = Inr s'"
  shows "spec_byte (spec_mem_clear s') = mem_byte (sm_mem s)"
  using assms
proof (induction ws arbitrary: s)
  case Nil
  have "sm_pages (spec_mem_clear s') i = []" if "i < 32" for i
  proof -
    have f: "fold (\<lambda>i ps. ps(i := [])) [0..<n] ps i = (if i < n then [] else ps i)" for n ps
      and i :: nat
      by (induction n) auto
    show ?thesis using that by (simp add: spec_mem_clear_def f)
  qed
  then have "spec_mem_page_get (spec_mem_clear s') b = None" for b
    by (simp add: spec_mem_page_get_def)
  moreover have "sm_mem (spec_mem_clear s') = sm_mem s" using Nil by (simp add: spec_mem_clear_def)
  ultimately show ?case by (simp add: spec_byte_def fun_eq_iff)
next
  case (Cons w ws)
  obtain a bs where w: "w = (a, bs)" by fastforce
  from spec_write_loop [OF Cons.prems(1), of "length bs" bs ms a] obtain s1 where
    s1: "spec_mem_write ms s a (length bs) bs = Inr s1" "spec_keeps s s1"
    by (auto simp: spec_mem_write_def)
  with Cons.IH [of s1] Cons.prems(2) w show ?case by (simp add: spec_keeps_def)
qed

lemma spec_mem_clear_restores_witness:
  "\<exists>s'. foldl (\<lambda>r (a, bs). res_bind r (\<lambda>s. spec_mem_write True s a (length bs) bs)) (Inr spec_mem_example)
          [(0x10, [7, 8])] = Inr s' \<and>
     spec_byte (spec_mem_clear s') = mem_byte (sm_mem spec_mem_example)"
proof -
  have ok: "spec_ok spec_mem_example" by (simp add: spec_ok_def spec_mem_example_def)
  from spec_write_loop [OF ok, of 2 "[7, 8]" True "0x10"] obtain s' where
    "foldl (\<lambda>r (a, bs). res_bind r (\<lambda>s. spec_mem_write True s a (length bs) bs)) (Inr spec_mem_example)
          [(0x10, [7, 8])] = Inr s'"
    by (auto simp: spec_mem_write_def numeral_2_eq_2)
  with spec_mem_clear_restores [OF ok this] show ?thesis by blast
qed

end
