(* ===== verification/Lru_Order.thy ===== *)
theory Lru_Order
  imports Prelude
begin

text \<open>
  Replacement order. Cache sets and prefetch streams keep their elements, which are owned
  by an array, on an intrusive doubly linked list from most to least recently used.
  \<open>dlseg\<close> says that two link fields (functions from the element's array index) encode a
  list of indices. The locale \<open>lru_order\<close> is the contract "an access moves the element to
  the front", with what follows from it for the choice of a victim.
\<close>

section \<open>Doubly linked segments\<close>

definition first_of :: "nat list \<Rightarrow> nat option \<Rightarrow> nat option" where
  "first_of xs q = (case xs of [] \<Rightarrow> q | x # _ \<Rightarrow> Some x)"

definition last_of :: "nat option \<Rightarrow> nat list \<Rightarrow> nat option" where
  "last_of p xs = (if xs = [] then p else Some (last xs))"

lemma first_of_simps [simp]:
  "first_of [] q = q" "first_of (x # xs) q = Some x"
  "first_of (xs @ ys) q = first_of xs (first_of ys q)"
  by (simp_all add: first_of_def split: list.split)

lemma last_of_simps [simp]:
  "last_of p [] = p" "last_of p (x # xs) = last_of (Some x) xs"
  "last_of p (xs @ ys) = last_of (last_of p xs) ys"
  by (simp_all add: last_of_def)

fun dlseg ::
  "(nat \<Rightarrow> nat option) \<Rightarrow> (nat \<Rightarrow> nat option) \<Rightarrow> nat option \<Rightarrow> nat list \<Rightarrow> nat option \<Rightarrow> bool" where
  "dlseg prv nxt p [] q = True"
| "dlseg prv nxt p (x # xs) q =
     (prv x = p \<and> nxt x = first_of xs q \<and> dlseg prv nxt (Some x) xs q)"

lemma dlseg_append:
  "dlseg prv nxt p (xs @ ys) q \<longleftrightarrow>
   dlseg prv nxt p xs (first_of ys q) \<and> dlseg prv nxt (last_of p xs) ys q"
  by (induction xs arbitrary: p) auto

lemma dlseg_upd_other [simp]:
  "x \<notin> set xs \<Longrightarrow> dlseg (prv(x := v)) nxt p xs q = dlseg prv nxt p xs q"
  "x \<notin> set xs \<Longrightarrow> dlseg prv (nxt(x := v)) p xs q = dlseg prv nxt p xs q"
  by (induction xs arbitrary: p) auto

lemma dlseg_set_prev:
  "dlseg prv nxt p (x # xs) q \<Longrightarrow> x \<notin> set xs \<Longrightarrow> dlseg (prv(x := p')) nxt p' (x # xs) q"
  by simp

lemma dlseg_set_next:
  assumes "dlseg prv nxt p (xs @ [x]) q" "x \<notin> set xs"
  shows "dlseg prv (nxt(x := q')) p (xs @ [x]) q'"
  using assms by (simp add: dlseg_append)

text \<open>The neighbours of an element, read off its position.\<close>

lemma dlseg_links:
  assumes "dlseg prv nxt None (xs @ x # ys) None"
  shows "prv x = last_of None xs" "nxt x = first_of ys None"
  using assms by (auto simp: dlseg_append)

lemma dlseg_push_front:
  assumes "dlseg prv nxt None (y # ys) None" "distinct (x # y # ys)"
  shows "dlseg (prv(x := None, y := Some x)) (nxt(x := Some y)) None (x # y # ys) None"
  using assms by (auto simp: fun_upd_twist)

lemma dlseg_push_back:
  assumes "dlseg prv nxt None (ys @ [y]) None" "distinct (x # ys @ [y])"
  shows "dlseg (prv(x := Some y)) (nxt(x := None, y := Some x)) None (ys @ [y, x]) None"
  using assms by (auto simp: dlseg_append)

lemma dlseg_unlink_head:
  assumes "dlseg prv nxt None (x # y # ys) None" "distinct (x # y # ys)"
  shows "dlseg (prv(y := None)) nxt None (y # ys) None"
  using assms by auto

lemma dlseg_unlink_tail:
  assumes "dlseg prv nxt None (ys @ [y, x]) None" "distinct (ys @ [y, x])"
  shows "dlseg prv (nxt(y := None)) None (ys @ [y]) None"
  using assms by (auto simp: dlseg_append)

lemma dlseg_unlink_mid:
  assumes "dlseg prv nxt None (ys @ [y, x, z] @ zs) None" "distinct (ys @ [y, x, z] @ zs)"
  shows "dlseg (prv(z := Some y)) (nxt(y := Some z)) None (ys @ [y, z] @ zs) None"
  using assms by (auto simp: dlseg_append)

section \<open>Most recently used first\<close>

definition touch_list :: "nat \<Rightarrow> nat list \<Rightarrow> nat list" where
  "touch_list x xs = x # remove1 x xs"

lemma set_touch_list [simp]: "x \<in> set xs \<Longrightarrow> set (touch_list x xs) = set xs"
  by (induction xs) (auto simp: touch_list_def)

lemma distinct_touch_list [simp]: "distinct xs \<Longrightarrow> distinct (touch_list x xs)"
  by (simp add: touch_list_def)

lemma touch_lists_shape:
  assumes "distinct xs" "set ts \<subseteq> set xs"
  shows "\<exists>as. fold touch_list ts xs = as @ filter (\<lambda>y. y \<notin> set ts) xs \<and> set as = set ts"
  using assms
proof (induction ts rule: rev_induct)
  case (snoc x ts)
  then obtain as where as: "fold touch_list ts xs = as @ filter (\<lambda>y. y \<notin> set ts) xs" "set as = set ts"
    by auto
  let ?F = "filter (\<lambda>y. y \<notin> set ts) xs"
  have F: "filter (\<lambda>y. y \<notin> set (ts @ [x])) xs = remove1 x ?F"
    using snoc.prems(1)
    by (auto simp: distinct_remove1_removeAll removeAll_filter_not_eq intro: filter_cong)
  have d: "distinct (as @ ?F)"
  proof -
    have "distinct (fold touch_list ts xs)" for ts
      by (induction ts rule: rev_induct) (use snoc.prems in simp_all)
    then show ?thesis using as by metis
  qed
  show ?case
  proof (cases "x \<in> set as")
    case True
    then have "x \<notin> set ?F" using d by auto
    then have "remove1 x ?F = ?F" by (rule remove1_idem)
    moreover have "set (x # remove1 x as) = set (ts @ [x])"
      using True as(2) d by (auto simp: set_remove1_eq)
    ultimately show ?thesis using True as F
      by (intro exI [of _ "x # remove1 x as"]) (simp add: touch_list_def [of x] remove1_append)
  next
    case False
    then show ?thesis using as F
      by (intro exI [of _ "x # as"]) (auto simp: touch_list_def [of x] remove1_append)
  qed
qed simp

locale lru_order =
  fixes rep :: "'s \<Rightarrow> nat list \<Rightarrow> bool"
    and touch :: "nat \<Rightarrow> 's \<Rightarrow> 's res"
    and victim :: "'s \<Rightarrow> nat"
  assumes rep_distinct: "rep s xs \<Longrightarrow> distinct xs"
    and touch_rep: "rep s xs \<Longrightarrow> x \<in> set xs \<Longrightarrow> \<exists>s'. touch x s = Inr s' \<and> rep s' (touch_list x xs)"
    and victim_rep: "rep s xs \<Longrightarrow> victim s = last xs"
begin

definition touches :: "nat list \<Rightarrow> 's res \<Rightarrow> 's res" where
  "touches ts s = fold (\<lambda>x s. res_bind s (touch x)) ts s"

lemma touches_rep:
  "rep s xs \<Longrightarrow> set ts \<subseteq> set xs \<Longrightarrow> \<exists>s'. touches ts (Inr s) = Inr s' \<and> rep s' (fold touch_list ts xs)"
proof (induction ts arbitrary: s xs)
  case (Cons x ts)
  then obtain s1 where s1: "touch x s = Inr s1" "rep s1 (touch_list x xs)"
    using touch_rep by (meson list.set_intros(1) subsetD)
  have "set ts \<subseteq> set (touch_list x xs)" using Cons.prems by simp
  from Cons.IH [OF s1(2) this] s1(1) show ?case by (auto simp: touches_def)
qed (simp add: touches_def)

text \<open>The victim after a sequence of accesses is, of the elements not accessed, the one that
  was last in the order before it: no element just used is replaced while another is left.\<close>

lemma victim_least_recent:
  assumes "rep s xs" "set ts \<subset> set xs" "touches ts (Inr s) = Inr s'"
  shows "victim s' = last (filter (\<lambda>y. y \<notin> set ts) xs)" "victim s' \<notin> set ts"
proof -
  from assms(2) have "filter (\<lambda>y. y \<notin> set ts) xs \<noteq> []" by (auto simp: filter_empty_conv)
  moreover from touches_rep [OF assms(1), of ts] psubset_imp_subset [OF assms(2)] assms(3)
  have "rep s' (fold touch_list ts xs)" by auto
  ultimately show *: "victim s' = last (filter (\<lambda>y. y \<notin> set ts) xs)"
    using touch_lists_shape [OF rep_distinct [OF assms(1)] psubset_imp_subset [OF assms(2)]]
    by (auto simp: victim_rep)
  show "victim s' \<notin> set ts"
    using last_in_set [OF \<open>filter _ _ \<noteq> []\<close>] unfolding * by auto
qed

end

end
