(* ===== verification/Linked_List.thy ===== *)
theory Linked_List
  imports Prelude
begin

text \<open>
  Doubly linked list with a cursor (\<open>src/lib/struct/linked-list.c\<close>). The elements are
  owned by the list and chained in order, so they are a list of data here, and a pointer to
  an element is its position: \<open>head\<close> is 0, \<open>tail\<close> the last position, \<open>current = NULL\<close> is
  \<open>None\<close>. \<open>current\<close> and \<open>current_index\<close> are kept apart as the code keeps them.
\<close>

section \<open>State and operations\<close>

datatype linked_list_err =
    LINKED_LIST_ERR_OK
  | LINKED_LIST_ERR_BOUNDS
  | LINKED_LIST_ERR_NOT_FOUND
  | LINKED_LIST_ERR_EMPTY

record 'a linked_list_t =
  ll_elems :: "'a list"
  ll_index :: nat
  ll_current :: "nat option"
  ll_error :: linked_list_err

definition linked_list_create :: "'a linked_list_t" where
  "linked_list_create = \<lparr>ll_elems = [], ll_index = 0, ll_current = None, ll_error = LINKED_LIST_ERR_OK\<rparr>"

definition ll_err :: "linked_list_err \<Rightarrow> 'a linked_list_t \<Rightarrow> 'a linked_list_t" where
  "ll_err e l = l\<lparr>ll_error := e\<rparr>"

text \<open>\<open>elem->next\<close>, \<open>elem->prev\<close>, \<open>list->head\<close> and \<open>list->tail\<close> as positions.\<close>

definition ll_next :: "'a linked_list_t \<Rightarrow> nat \<Rightarrow> nat option" where
  "ll_next l i = (if i + 1 < length (ll_elems l) then Some (i + 1) else None)"

definition ll_prev :: "nat \<Rightarrow> nat option" where
  "ll_prev i = (if i > 0 then Some (i - 1) else None)"

definition ll_head :: "'a linked_list_t \<Rightarrow> nat option" where
  "ll_head l = (if ll_elems l = [] then None else Some 0)"

definition ll_tail :: "'a linked_list_t \<Rightarrow> nat option" where
  "ll_tail l = (if ll_elems l = [] then None else Some (length (ll_elems l) - 1))"

definition linked_list_current :: "'a linked_list_t \<Rightarrow> 'a linked_list_t \<times> nat" where
  "linked_list_current l = (ll_err LINKED_LIST_ERR_OK l, ll_index l)"

definition linked_list_get :: "'a linked_list_t \<Rightarrow> ('a linked_list_t \<times> 'a option) res" where
  "linked_list_get l =
     (if ll_index l = length (ll_elems l) then Inr (ll_err LINKED_LIST_ERR_BOUNDS l, None)
      else case ll_current l of
        None \<Rightarrow> Inl Null_deref
      | Some i \<Rightarrow> Inr (ll_err LINKED_LIST_ERR_OK l, Some (ll_elems l ! i)))"

definition linked_list_next :: "'a linked_list_t \<Rightarrow> 'a linked_list_t res" where
  "linked_list_next l =
     (if ll_index l = length (ll_elems l) then Inr (ll_err LINKED_LIST_ERR_BOUNDS l)
      else case ll_current l of
        None \<Rightarrow> Inl Null_deref
      | Some i \<Rightarrow> Inr ((ll_err LINKED_LIST_ERR_OK l)\<lparr>ll_index := ll_index l + 1, ll_current := ll_next l i\<rparr>))"

text \<open>\<open>list->current = list->current ? list->current->prev : list->tail\<close>\<close>

definition ll_back :: "'a linked_list_t \<Rightarrow> nat option" where
  "ll_back l = (case ll_current l of Some i \<Rightarrow> ll_prev i | None \<Rightarrow> ll_tail l)"

definition linked_list_prev :: "'a linked_list_t \<Rightarrow> 'a linked_list_t" where
  "linked_list_prev l =
     (if ll_index l = 0 then ll_err LINKED_LIST_ERR_BOUNDS l
      else (ll_err LINKED_LIST_ERR_OK l)\<lparr>ll_index := ll_index l - 1, ll_current := ll_back l\<rparr>)"

definition linked_list_next_circular :: "'a linked_list_t \<Rightarrow> 'a linked_list_t res" where
  "linked_list_next_circular l =
     (if ll_elems l = [] then Inr (ll_err LINKED_LIST_ERR_EMPTY l)
      else if ll_index l \<ge> length (ll_elems l) - 1
      then Inr ((ll_err LINKED_LIST_ERR_OK l)\<lparr>ll_index := 0, ll_current := ll_head l\<rparr>)
      else case ll_current l of
        None \<Rightarrow> Inl Null_deref
      | Some i \<Rightarrow> Inr ((ll_err LINKED_LIST_ERR_OK l)\<lparr>ll_index := ll_index l + 1, ll_current := ll_next l i\<rparr>))"

definition linked_list_prev_circular :: "'a linked_list_t \<Rightarrow> 'a linked_list_t" where
  "linked_list_prev_circular l =
     (if ll_elems l = [] then ll_err LINKED_LIST_ERR_EMPTY l
      else if ll_index l = 0
      then (ll_err LINKED_LIST_ERR_OK l)\<lparr>ll_index := length (ll_elems l) - 1, ll_current := ll_tail l\<rparr>
      else (ll_err LINKED_LIST_ERR_OK l)\<lparr>ll_index := ll_index l - 1, ll_current := ll_back l\<rparr>)"

definition linked_list_head :: "'a linked_list_t \<Rightarrow> 'a linked_list_t" where
  "linked_list_head l =
     (if ll_elems l = [] then ll_err LINKED_LIST_ERR_EMPTY l
      else (ll_err LINKED_LIST_ERR_OK l)\<lparr>ll_index := 0, ll_current := ll_head l\<rparr>)"

definition linked_list_tail :: "'a linked_list_t \<Rightarrow> 'a linked_list_t" where
  "linked_list_tail l =
     (if ll_elems l = [] then ll_err LINKED_LIST_ERR_EMPTY l
      else (ll_err LINKED_LIST_ERR_OK l)\<lparr>ll_index := length (ll_elems l) - 1, ll_current := ll_tail l\<rparr>)"

definition linked_list_out :: "'a linked_list_t \<Rightarrow> 'a linked_list_t" where
  "linked_list_out l = (ll_err LINKED_LIST_ERR_OK l)\<lparr>ll_index := length (ll_elems l), ll_current := None\<rparr>"

text \<open>The two loops of \<open>linked_list_goto\<close>.\<close>

function ll_goto_up :: "nat \<Rightarrow> 'a linked_list_t \<Rightarrow> 'a linked_list_t res" where
  "ll_goto_up index l =
     (if ll_index l < index then
        case ll_current l of
          None \<Rightarrow> Inl Null_deref
        | Some i \<Rightarrow> ll_goto_up index (l\<lparr>ll_index := ll_index l + 1, ll_current := ll_next l i\<rparr>)
      else Inr l)"
  by pat_completeness auto
termination by (relation "measure (\<lambda>(index, l). index - ll_index l)") auto

function ll_goto_down :: "nat \<Rightarrow> 'a linked_list_t \<Rightarrow> 'a linked_list_t" where
  "ll_goto_down index l =
     (if ll_index l > index
      then ll_goto_down index (l\<lparr>ll_index := ll_index l - 1, ll_current := ll_back l\<rparr>)
      else l)"
  by pat_completeness auto
termination by (relation "measure (\<lambda>(index, l). ll_index l - index)") auto

declare ll_goto_up.simps [simp del] ll_goto_down.simps [simp del]

definition linked_list_goto :: "'a linked_list_t \<Rightarrow> int \<Rightarrow> 'a linked_list_t res" where
  "linked_list_goto l index =
     (if index < 0 \<or> index > int (length (ll_elems l)) then Inr (ll_err LINKED_LIST_ERR_BOUNDS l)
      else res_bind (ll_goto_up (nat index) (ll_err LINKED_LIST_ERR_OK l)) (\<lambda>l.
           Inr (ll_goto_down (nat index) l)))"

text \<open>The search of \<open>linked_list_find\<close>, from position \<open>i\<close>.\<close>

fun ll_find_loop :: "'a \<Rightarrow> 'a list \<Rightarrow> nat \<Rightarrow> nat \<times> nat option" where
  "ll_find_loop x [] i = (i, None)"
| "ll_find_loop x (y # ys) i = (if y = x then (i, Some i) else ll_find_loop x ys (i + 1))"

definition linked_list_find :: "'a linked_list_t \<Rightarrow> 'a \<Rightarrow> 'a linked_list_t" where
  "linked_list_find l data =
     (let (i, c) = ll_find_loop data (ll_elems l) 0
      in l\<lparr>ll_index := i, ll_current := c,
            ll_error := (if c = None then LINKED_LIST_ERR_NOT_FOUND else LINKED_LIST_ERR_OK)\<rparr>)"

definition linked_list_count :: "'a linked_list_t \<Rightarrow> nat" where
  "linked_list_count l = length (ll_elems l)"

definition linked_list_is_end :: "'a linked_list_t \<Rightarrow> bool" where
  "linked_list_is_end l \<longleftrightarrow> ll_index l = length (ll_elems l)"

definition linked_list_insert :: "'a linked_list_t \<Rightarrow> 'a \<Rightarrow> 'a linked_list_t" where
  "linked_list_insert l data =
     (ll_err LINKED_LIST_ERR_OK
       (if ll_elems l = [] then l\<lparr>ll_elems := [data], ll_current := Some 0\<rparr>
        else if ll_current l = ll_head l then l\<lparr>ll_elems := data # ll_elems l, ll_current := Some 0\<rparr>
        else case ll_current l of
          None \<Rightarrow> l\<lparr>ll_elems := ll_elems l @ [data], ll_current := Some (length (ll_elems l))\<rparr>
        | Some i \<Rightarrow> l\<lparr>ll_elems := take i (ll_elems l) @ data # drop i (ll_elems l), ll_current := Some i\<rparr>))"

definition linked_list_add :: "'a linked_list_t \<Rightarrow> 'a \<Rightarrow> 'a linked_list_t" where
  "linked_list_add l data = linked_list_out (linked_list_insert (linked_list_out l) data)"

text \<open>Unlinking position \<open>i\<close>; the cursor goes to the element that was \<open>elem->next\<close>, which has
  position \<open>i\<close> afterwards.\<close>

definition linked_list_remove :: "'a linked_list_t \<Rightarrow> 'a linked_list_t res" where
  "linked_list_remove l =
     (if ll_index l = length (ll_elems l) then Inr (ll_err LINKED_LIST_ERR_BOUNDS l)
      else case ll_current l of
        None \<Rightarrow> Inl Null_deref
      | Some i \<Rightarrow>
          Inr ((ll_err LINKED_LIST_ERR_OK l)
            \<lparr>ll_elems := take i (ll_elems l) @ drop (i + 1) (ll_elems l),
             ll_current := (if ll_next l i = None then None else Some i)\<rparr>))"

definition linked_list_clear :: "'a linked_list_t \<Rightarrow> 'a linked_list_t" where
  "linked_list_clear l =
     l\<lparr>ll_error := LINKED_LIST_ERR_OK, ll_index := 0, ll_elems := [], ll_current := None\<rparr>"

fun ll_sorted_loop :: "('a \<Rightarrow> 'a \<Rightarrow> int) \<Rightarrow> 'a \<Rightarrow> 'a list \<Rightarrow> bool" where
  "ll_sorted_loop cmp p [] = True"
| "ll_sorted_loop cmp p (e # es) = (if cmp p e > 0 then False else ll_sorted_loop cmp e es)"

definition linked_list_sorted :: "'a linked_list_t \<Rightarrow> ('a \<Rightarrow> 'a \<Rightarrow> int) \<Rightarrow> bool" where
  "linked_list_sorted l cmp = (case ll_elems l of [] \<Rightarrow> True | e # es \<Rightarrow> ll_sorted_loop cmp e es)"

section \<open>The cursor\<close>

text \<open>
  Abstractly the list is its elements with a cursor between 0 and their number; the pointer
  agrees with the index. Every operation keeps this, so none dereferences NULL.
\<close>

definition ll_ok :: "'a linked_list_t \<Rightarrow> bool" where
  "ll_ok l \<longleftrightarrow> ll_index l \<le> length (ll_elems l) \<and>
     ll_current l = (if ll_index l < length (ll_elems l) then Some (ll_index l) else None)"

lemmas ll_defs = ll_err_def ll_next_def ll_prev_def ll_head_def ll_tail_def ll_back_def

lemma ll_okD:
  "ll_ok l \<Longrightarrow> ll_index l \<noteq> length (ll_elems l) \<Longrightarrow>
   ll_index l < length (ll_elems l) \<and> ll_current l = Some (ll_index l)"
  by (auto simp: ll_ok_def split: if_splits)

lemma ll_create_ok: "ll_ok linked_list_create"
  by (simp add: ll_ok_def linked_list_create_def)

lemma ll_err_ok [simp]:
  "ll_ok (ll_err e l) = ll_ok l" "ll_elems (ll_err e l) = ll_elems l" "ll_index (ll_err e l) = ll_index l"
  "ll_current (ll_err e l) = ll_current l"
  by (simp_all add: ll_ok_def ll_err_def)

lemma ll_get_ok:
  "ll_ok l \<Longrightarrow> linked_list_get l =
     Inr (if ll_index l < length (ll_elems l) then (ll_err LINKED_LIST_ERR_OK l, Some (ll_elems l ! ll_index l))
          else (ll_err LINKED_LIST_ERR_BOUNDS l, None))"
  by (auto simp: linked_list_get_def dest: ll_okD)

lemma ll_next_ok:
  "ll_ok l \<Longrightarrow> \<exists>l'. linked_list_next l = Inr l' \<and> ll_ok l' \<and> ll_elems l' = ll_elems l \<and>
     ll_index l' = min (ll_index l + 1) (length (ll_elems l))"
  by (auto simp: linked_list_next_def ll_defs ll_ok_def)

lemma ll_prev_ok:
  "ll_ok l \<Longrightarrow> ll_ok (linked_list_prev l) \<and> ll_elems (linked_list_prev l) = ll_elems l \<and>
     ll_index (linked_list_prev l) = ll_index l - 1"
  by (auto simp: linked_list_prev_def ll_defs ll_ok_def split: if_splits)

lemma ll_next_circular_ok:
  assumes "ll_ok l" "ll_elems l \<noteq> []"
  shows "\<exists>l'. linked_list_next_circular l = Inr l' \<and> ll_ok l' \<and> ll_elems l' = ll_elems l \<and>
     ll_index l' = (if ll_index l \<ge> length (ll_elems l) - 1 then 0 else ll_index l + 1)"
  using assms by (auto simp: linked_list_next_circular_def ll_defs ll_ok_def)

lemma ll_prev_circular_ok:
  assumes "ll_ok l" "ll_elems l \<noteq> []"
  shows "ll_ok (linked_list_prev_circular l)"
    "ll_index (linked_list_prev_circular l) =
       (if ll_index l = 0 then length (ll_elems l) - 1 else ll_index l - 1)"
  using assms by (auto simp: linked_list_prev_circular_def ll_defs ll_ok_def split: if_splits)

lemma ll_head_ok:
  "ll_ok l \<Longrightarrow> ll_ok (linked_list_head l) \<and> ll_elems (linked_list_head l) = ll_elems l \<and>
     ll_index (linked_list_head l) = 0"
  by (auto simp: linked_list_head_def ll_defs ll_ok_def)

lemma ll_out_ok:
  "ll_ok (linked_list_out l) \<and> ll_elems (linked_list_out l) = ll_elems l \<and>
     ll_index (linked_list_out l) = length (ll_elems l)"
  by (auto simp: linked_list_out_def ll_defs ll_ok_def)

lemma ll_insert_ok:
  assumes "ll_ok l"
  shows "ll_ok (linked_list_insert l x) \<and> ll_index (linked_list_insert l x) = ll_index l \<and>
     ll_elems (linked_list_insert l x) = take (ll_index l) (ll_elems l) @ x # drop (ll_index l) (ll_elems l)"
  using assms by (auto simp: linked_list_insert_def ll_defs ll_ok_def)

lemma ll_add_ok:
  "ll_ok (linked_list_add l x) \<and> ll_elems (linked_list_add l x) = ll_elems l @ [x] \<and>
     linked_list_is_end (linked_list_add l x)"
  using ll_insert_ok [of "linked_list_out l" x] ll_out_ok [of l]
    ll_out_ok [of "linked_list_insert (linked_list_out l) x"]
  by (simp add: linked_list_add_def linked_list_is_end_def)

lemma ll_remove_ok:
  assumes "ll_ok l" "ll_index l < length (ll_elems l)"
  shows "\<exists>l'. linked_list_remove l = Inr l' \<and> ll_ok l' \<and> ll_index l' = ll_index l \<and>
     ll_elems l' = take (ll_index l) (ll_elems l) @ drop (ll_index l + 1) (ll_elems l)"
  using assms by (auto simp: linked_list_remove_def ll_defs ll_ok_def)

lemma ll_goto_up_ok:
  "ll_ok l \<Longrightarrow> k \<le> length (ll_elems l) \<Longrightarrow> \<exists>l'. ll_goto_up k l = Inr l' \<and> ll_ok l' \<and>
     ll_elems l' = ll_elems l \<and> ll_index l' = max k (ll_index l)"
proof (induction k l rule: ll_goto_up.induct)
  case (1 k l)
  show ?case
  proof (cases "ll_index l < k")
    case True
    then have c: "ll_current l = Some (ll_index l)" using "1.prems" by (simp add: ll_ok_def)
    let ?l = "l\<lparr>ll_index := ll_index l + 1, ll_current := ll_next l (ll_index l)\<rparr>"
    have "ll_ok ?l" using True "1.prems" by (simp add: ll_ok_def ll_next_def)
    with "1.IH" [OF True c] "1.prems"(2) True c show ?thesis
      by (subst ll_goto_up.simps) (auto simp: max_def)
  next
    case False
    then show ?thesis using "1.prems" by (subst ll_goto_up.simps) (auto simp: max_def)
  qed
qed

lemma ll_goto_down_ok:
  "ll_ok l \<Longrightarrow> ll_ok (ll_goto_down k l) \<and> ll_elems (ll_goto_down k l) = ll_elems l \<and>
     ll_index (ll_goto_down k l) = min k (ll_index l)"
proof (induction k l rule: ll_goto_down.induct)
  case (1 k l)
  show ?case
  proof (cases "ll_index l > k")
    case True
    let ?l = "l\<lparr>ll_index := ll_index l - 1, ll_current := ll_back l\<rparr>"
    have "ll_ok ?l" using True "1.prems" by (auto simp: ll_ok_def ll_defs split: if_splits)
    with "1.IH" [OF True] True show ?thesis by (subst (1 2 3) ll_goto_down.simps) (auto simp: min_def)
  next
    case False
    then show ?thesis using "1.prems" by (subst (1 2 3) ll_goto_down.simps) (auto simp: min_def)
  qed
qed

lemma ll_goto_ok:
  assumes "ll_ok l" "k \<le> length (ll_elems l)"
  shows "\<exists>l'. linked_list_goto l (int k) = Inr l' \<and> ll_ok l' \<and> ll_elems l' = ll_elems l \<and> ll_index l' = k"
proof -
  from assms ll_goto_up_ok [of "ll_err LINKED_LIST_ERR_OK l" k] obtain l1 where
    l1: "ll_goto_up k (ll_err LINKED_LIST_ERR_OK l) = Inr l1" "ll_ok l1" "ll_elems l1 = ll_elems l"
      "ll_index l1 = max k (ll_index l)" by auto
  with ll_goto_down_ok [OF l1(2), of k] assms(2) show ?thesis
    by (auto simp: linked_list_goto_def)
qed

lemma ll_find_loop_eq:
  "ll_find_loop x ys i = (if x \<in> set ys then (i + length (takeWhile (\<lambda>y. y \<noteq> x) ys),
                                          Some (i + length (takeWhile (\<lambda>y. y \<noteq> x) ys)))
                          else (i + length ys, None))"
  by (induction ys arbitrary: i) auto

lemma ll_find_ok:
  "ll_ok (linked_list_find l x) \<and> ll_elems (linked_list_find l x) = ll_elems l \<and>
     ll_index (linked_list_find l x) = length (takeWhile (\<lambda>y. y \<noteq> x) (ll_elems l)) \<and>
     (ll_error (linked_list_find l x) = LINKED_LIST_ERR_OK \<longleftrightarrow> x \<in> set (ll_elems l))"
proof (cases "x \<in> set (ll_elems l)")
  case True
  then have "length (takeWhile (\<lambda>y. y \<noteq> x) (ll_elems l)) < length (ll_elems l)"
    by (metis (mono_tags, lifting) length_takeWhile_le nat_less_le set_takeWhileD takeWhile_eq_take take_all_iff order_refl)
  with True show ?thesis by (simp add: linked_list_find_def ll_find_loop_eq ll_ok_def)
next
  case False
  then have "\<forall>y \<in> set (ll_elems l). y \<noteq> x" by auto
  then have "length (takeWhile (\<lambda>y. y \<noteq> x) (ll_elems l)) = length (ll_elems l)"
    by (subst takeWhile_eq_all_conv [THEN iffD2]) auto
  with False show ?thesis by (simp add: linked_list_find_def ll_find_loop_eq ll_ok_def)
qed

section \<open>No operation sequence fails\<close>

text \<open>Everything a caller can reach from a new list, failures included.\<close>

inductive ll_reach :: "'a linked_list_t res \<Rightarrow> bool" where
  create: "ll_reach (Inr linked_list_create)"
| get: "ll_reach (Inr l) \<Longrightarrow> ll_reach (res_bind (linked_list_get l) (\<lambda>(l, _). Inr l))"
| succ: "ll_reach (Inr l) \<Longrightarrow> ll_reach (linked_list_next l)"
| prev: "ll_reach (Inr l) \<Longrightarrow> ll_reach (Inr (linked_list_prev l))"
| next_circular: "ll_reach (Inr l) \<Longrightarrow> ll_reach (linked_list_next_circular l)"
| prev_circular: "ll_reach (Inr l) \<Longrightarrow> ll_reach (Inr (linked_list_prev_circular l))"
| head: "ll_reach (Inr l) \<Longrightarrow> ll_reach (Inr (linked_list_head l))"
| tail: "ll_reach (Inr l) \<Longrightarrow> ll_reach (Inr (linked_list_tail l))"
| out: "ll_reach (Inr l) \<Longrightarrow> ll_reach (Inr (linked_list_out l))"
| goto: "ll_reach (Inr l) \<Longrightarrow> ll_reach (linked_list_goto l k)"
| find: "ll_reach (Inr l) \<Longrightarrow> ll_reach (Inr (linked_list_find l x))"
| insert: "ll_reach (Inr l) \<Longrightarrow> ll_reach (Inr (linked_list_insert l x))"
| add: "ll_reach (Inr l) \<Longrightarrow> ll_reach (Inr (linked_list_add l x))"
| remove: "ll_reach (Inr l) \<Longrightarrow> ll_reach (linked_list_remove l)"
| clear: "ll_reach (Inr l) \<Longrightarrow> ll_reach (Inr (linked_list_clear l))"

lemma ll_empty_circular:
  "ll_elems l = [] \<Longrightarrow> linked_list_next_circular l = Inr (ll_err LINKED_LIST_ERR_EMPTY l)"
  "ll_elems l = [] \<Longrightarrow> linked_list_prev_circular l = ll_err LINKED_LIST_ERR_EMPTY l"
  by (simp_all add: linked_list_next_circular_def linked_list_prev_circular_def)



text \<open>An insertion puts the element at the cursor, and removing it again gives the list
  and the cursor back.\<close>

theorem ll_insert_remove:
  assumes "ll_ok l"
  shows "\<exists>l'. linked_list_remove (linked_list_insert l x) = Inr l' \<and> ll_ok l' \<and>
    ll_elems l' = ll_elems l \<and> ll_index l' = ll_index l"
proof -
  from ll_insert_ok [OF assms, of x] have i: "ll_ok (linked_list_insert l x)"
      "ll_index (linked_list_insert l x) = ll_index l"
      "ll_elems (linked_list_insert l x) = take (ll_index l) (ll_elems l) @ x # drop (ll_index l) (ll_elems l)"
    by auto
  have le: "ll_index l \<le> length (ll_elems l)" using assms by (simp add: ll_ok_def)
  then have "ll_index (linked_list_insert l x) < length (ll_elems (linked_list_insert l x))"
    unfolding i(2,3) by simp
  from ll_remove_ok [OF i(1) this] le show ?thesis unfolding i(2,3) by auto
qed

lemma ll_insert_remove_witness:
  "\<exists>l'. linked_list_remove (linked_list_insert (linked_list_add linked_list_create (7 :: nat)) 8) = Inr l' \<and>
     ll_elems l' = ll_elems (linked_list_add linked_list_create 7)"
  using ll_insert_remove [of "linked_list_add linked_list_create (7 :: nat)" 8]
    ll_add_ok [of linked_list_create "7 :: nat"] by blast

end
