(* ===== verification/Cache.thy ===== *)
theory Cache
  imports Lru_Order Linked_List
begin

text \<open>
  Cache array (\<open>src/mem-system/cache.c\<close>): sets of blocks with a replacement list, stream
  buffers for prefetching with a list of their own, and the stride detector's table.
  Pointers to blocks and streams are their array indices. A signed tag is kept as the 32
  bits it has. The value of \<open>random()\<close> is an argument.
\<close>

section \<open>State\<close>

datatype cache_policy_t =
  cache_policy_invalid | cache_policy_lru | cache_policy_fifo | cache_policy_random

datatype cache_block_state_t =
    cache_block_invalid
  | cache_block_noncoherent
  | cache_block_modified
  | cache_block_owned
  | cache_block_exclusive
  | cache_block_shared

record cache_block_t =
  way_next :: "nat option"
  way_prev :: "nat option"
  blk_tag :: u32
  blk_transient_tag :: u32
  blk_way :: nat
  blk_state :: cache_block_state_t
  blk_prefetched :: u32

record cache_set_t =
  way_head :: nat
  way_tail :: nat
  blocks :: "cache_block_t list"

record stream_block_t =
  slot :: nat
  sblk_tag :: u32
  sblk_transient_tag :: u32
  sblk_group :: int
  sblk_state :: cache_block_state_t

record stride_detector_camp_t =
  camp_tag :: u32
  camp_last_addr :: u32
  camp_stride :: u32

record stream_buffer_t =
  stream :: nat
  stream_tag :: u32
  stream_transcient_tag :: u32
  stream_next :: "nat option"
  stream_prev :: "nat option"
  stream_blocks :: "stream_block_t list"
  pending_prefetches :: int
  num_slots :: nat
  stream_count :: int
  slot_head :: int
  slot_tail :: int
  stream_stride :: u32
  next_address :: u32

record cache_t =
  num_sets :: u32
  block_size :: u32
  assoc :: u32
  cache_policy :: cache_policy_t
  num_streams :: nat
  aggressivity :: nat
  stream_mask :: u32
  streams :: "stream_buffer_t list"
  stream_head :: nat
  stream_tail :: nat
  stride_detector :: "stride_detector_camp_t linked_list_t"
  cache_sets :: "cache_set_t list"
  block_mask :: u32
  log_block_size :: nat

section \<open>The replacement list of a set\<close>

datatype cache_waylist_enum = cache_waylist_head | cache_waylist_tail

text \<open>Stores through a block pointer.\<close>

definition set_way_next :: "nat \<Rightarrow> nat option \<Rightarrow> cache_set_t \<Rightarrow> cache_set_t" where
  "set_way_next i v s = s\<lparr>blocks := (blocks s)[i := (blocks s ! i)\<lparr>way_next := v\<rparr>]\<rparr>"

definition set_way_prev :: "nat \<Rightarrow> nat option \<Rightarrow> cache_set_t \<Rightarrow> cache_set_t" where
  "set_way_prev i v s = s\<lparr>blocks := (blocks s)[i := (blocks s ! i)\<lparr>way_prev := v\<rparr>]\<rparr>"

definition waylist_link :: "cache_set_t \<Rightarrow> nat \<Rightarrow> cache_waylist_enum \<Rightarrow> cache_set_t" where
  "waylist_link s blk wher =
     (case wher of
        cache_waylist_head \<Rightarrow>
          (let s = set_way_next blk (Some (way_head s)) s;
               s = set_way_prev blk None s;
               s = set_way_prev (way_head s) (Some blk) s
           in s\<lparr>way_head := blk\<rparr>)
      | cache_waylist_tail \<Rightarrow>
          (let s = set_way_prev blk (Some (way_tail s)) s;
               s = set_way_next blk None s;
               s = set_way_next (way_tail s) (Some blk) s
           in s\<lparr>way_tail := blk\<rparr>))"

definition cache_update_waylist ::
  "cache_set_t \<Rightarrow> nat \<Rightarrow> cache_waylist_enum \<Rightarrow> cache_set_t res" where
  "cache_update_waylist s blk wher =
     (case (way_prev (blocks s ! blk), way_next (blocks s ! blk)) of
        (None, None) \<Rightarrow>
          if way_head s = blk \<and> way_tail s = blk then Inr s else Inl Assert_failed
      | (None, Some n) \<Rightarrow>
          if \<not> (way_head s = blk \<and> way_tail s \<noteq> blk) then Inl Assert_failed
          else if wher = cache_waylist_head then Inr s
          else Inr (waylist_link (set_way_prev n None (s\<lparr>way_head := n\<rparr>)) blk wher)
      | (Some p, None) \<Rightarrow>
          if \<not> (way_head s \<noteq> blk \<and> way_tail s = blk) then Inl Assert_failed
          else if wher = cache_waylist_tail then Inr s
          else Inr (waylist_link (set_way_next p None (s\<lparr>way_tail := p\<rparr>)) blk wher)
      | (Some p, Some n) \<Rightarrow>
          if \<not> (way_head s \<noteq> blk \<and> way_tail s \<noteq> blk) then Inl Assert_failed
          else Inr (waylist_link (set_way_prev n (Some p) (set_way_next p (Some n) s)) blk wher))"

section \<open>Creation\<close>

definition create_block :: "nat \<Rightarrow> nat \<Rightarrow> cache_block_t" where
  "create_block n way =
     \<lparr>way_next = (if way < n - 1 then Some (way + 1) else None),
      way_prev = (if way > 0 then Some (way - 1) else None),
      blk_tag = 0, blk_transient_tag = 0, blk_way = way,
      blk_state = cache_block_invalid, blk_prefetched = 0\<rparr>"

definition create_set :: "nat \<Rightarrow> cache_set_t" where
  "create_set n = \<lparr>way_head = 0, way_tail = n - 1, blocks = map (create_block n) [0..<n]\<rparr>"

definition create_stream :: "nat \<Rightarrow> nat \<Rightarrow> nat \<Rightarrow> stream_buffer_t" where
  "create_stream n aggr s =
     \<lparr>stream = s, stream_tag = - 1, stream_transcient_tag = - 1,
      stream_next = (if s < n - 1 then Some (s + 1) else None),
      stream_prev = (if s > 0 then Some (s - 1) else None),
      stream_blocks = map (\<lambda>i. \<lparr>slot = i, sblk_tag = 0, sblk_transient_tag = 0, sblk_group = 0,
                                  sblk_state = cache_block_invalid\<rparr>) [0..<aggr],
      pending_prefetches = 0, num_slots = aggr, stream_count = 0, slot_head = 0, slot_tail = 0,
      stream_stride = 0, next_address = 0\<rparr>"

definition cache_create ::
  "u32 \<Rightarrow> u32 \<Rightarrow> u32 \<Rightarrow> nat \<Rightarrow> nat \<Rightarrow> cache_policy_t \<Rightarrow> cache_t res" where
  "cache_create nsets bsize ways nstreams aggr policy =
     (if nsets AND (nsets - 1) \<noteq> 0 \<or> bsize AND (bsize - 1) \<noteq> 0 \<or> ways AND (ways - 1) \<noteq> 0
      then Inl Assert_failed
      else res_bind (log_base2 (sint bsize)) (\<lambda>log.
        Inr \<lparr>num_sets = nsets, block_size = bsize, assoc = ways, cache_policy = policy,
             num_streams = nstreams, aggressivity = aggr, stream_mask = 0x1FFF,
             streams = map (create_stream nstreams aggr) [0..<nstreams],
             stream_head = 0, stream_tail = nstreams - 1,
             stride_detector = linked_list_create,
             cache_sets = map (\<lambda>_. create_set (unat ways)) [0..<unat nsets],
             block_mask = bsize - 1, log_block_size = log\<rparr>))"

section \<open>Operations\<close>

text \<open>\<open>None\<close> is the result \<open>-1\<close>.\<close>

definition cache_find_stream :: "cache_t \<Rightarrow> u32 \<Rightarrow> nat option" where
  "cache_find_stream cache tag =
     find_index_from (\<lambda>s. stream_transcient_tag s = tag) 0 (streams cache)"

definition cache_decode_address :: "cache_t \<Rightarrow> u32 \<Rightarrow> nat \<times> u32 \<times> u32" where
  "cache_decode_address cache addr =
     (unat (drop_bit (log_block_size cache) addr mod num_sets cache),
      addr AND NOT (block_mask cache), addr AND block_mask cache)"

text \<open>The set, and the way and state of the block when it is found.\<close>

definition cache_find_block ::
  "cache_t \<Rightarrow> u32 \<Rightarrow> nat \<times> (nat \<times> cache_block_state_t) option" where
  "cache_find_block cache addr =
     (let tag = addr AND NOT (block_mask cache);
          si = unat (drop_bit (log_block_size cache) addr mod num_sets cache);
          bs = blocks (cache_sets cache ! si)
      in (si, map_option (\<lambda>way. (way, blk_state (bs ! way)))
            (find_index_from (\<lambda>b. blk_tag b = tag \<and> blk_state b \<noteq> cache_block_invalid) 0 bs)))"

definition in_set :: "cache_t \<Rightarrow> int \<Rightarrow> int \<Rightarrow> bool" where
  "in_set cache si way \<longleftrightarrow>
     0 \<le> si \<and> si < uint (num_sets cache) \<and> 0 \<le> way \<and> way < uint (assoc cache)"

definition update_set :: "cache_t \<Rightarrow> nat \<Rightarrow> cache_set_t \<Rightarrow> cache_t" where
  "update_set cache i s = cache\<lparr>cache_sets := (cache_sets cache)[i := s]\<rparr>"

definition cache_set_block ::
  "cache_t \<Rightarrow> int \<Rightarrow> int \<Rightarrow> u32 \<Rightarrow> cache_block_state_t \<Rightarrow> u32 \<Rightarrow> cache_t res" where
  "cache_set_block cache si way tag state prefetched =
     (if \<not> in_set cache si way then Inl Assert_failed
      else
        let s = cache_sets cache ! nat si in
        res_bind (if cache_policy cache = cache_policy_fifo \<and> blk_tag (blocks s ! nat way) \<noteq> tag
                  then cache_update_waylist s (nat way) cache_waylist_head else Inr s) (\<lambda>s.
        Inr (update_set cache (nat si)
          (s\<lparr>blocks := (blocks s)[nat way := (blocks s ! nat way)
              \<lparr>blk_tag := tag, blk_state := state, blk_prefetched := prefetched\<rparr>]\<rparr>))))"

definition in_stream :: "cache_t \<Rightarrow> int \<Rightarrow> int \<Rightarrow> bool" where
  "in_stream cache pref_stream pref_slot \<longleftrightarrow>
     0 \<le> pref_stream \<and> pref_stream < int (num_streams cache) \<and>
     0 \<le> pref_slot \<and> pref_slot < int (aggressivity cache)"

definition cache_get_pref_block :: "cache_t \<Rightarrow> int \<Rightarrow> int \<Rightarrow> stream_block_t res" where
  "cache_get_pref_block cache pref_stream pref_slot =
     (if \<not> in_stream cache pref_stream pref_slot then Inl Assert_failed
      else Inr (stream_blocks (streams cache ! nat pref_stream) ! nat pref_slot))"

definition cache_get_pref_block_data ::
  "cache_t \<Rightarrow> int \<Rightarrow> int \<Rightarrow> (u32 \<times> cache_block_state_t) res" where
  "cache_get_pref_block_data cache pref_stream pref_slot =
     (if \<not> in_stream cache pref_stream pref_slot then Inl Assert_failed
      else let b = stream_blocks (streams cache ! nat pref_stream) ! nat pref_slot
           in Inr (sblk_tag b, sblk_state b))"

definition cache_set_pref_block ::
  "cache_t \<Rightarrow> int \<Rightarrow> int \<Rightarrow> u32 \<Rightarrow> cache_block_state_t \<Rightarrow> cache_t res" where
  "cache_set_pref_block cache pref_stream pref_slot tag state =
     (if \<not> in_stream cache pref_stream pref_slot then Inl Assert_failed
      else
        let sb = streams cache ! nat pref_stream; b = stream_blocks sb ! nat pref_slot
        in Inr (cache\<lparr>streams := (streams cache)[nat pref_stream := sb
             \<lparr>stream_blocks := (stream_blocks sb)[nat pref_slot := b\<lparr>sblk_tag := tag, sblk_state := state\<rparr>]\<rparr>]\<rparr>))"

definition cache_get_block :: "cache_t \<Rightarrow> int \<Rightarrow> int \<Rightarrow> (u32 \<times> cache_block_state_t) res" where
  "cache_get_block cache si way =
     (if \<not> in_set cache si way then Inl Assert_failed
      else let b = blocks (cache_sets cache ! nat si) ! nat way in Inr (blk_tag b, blk_state b))"

definition cache_access_block :: "cache_t \<Rightarrow> int \<Rightarrow> int \<Rightarrow> cache_t res" where
  "cache_access_block cache si way =
     (if \<not> in_set cache si way then Inl Assert_failed
      else
        let s = cache_sets cache ! nat si; b = blocks s ! nat way;
            move_to_head = (cache_policy cache = cache_policy_lru \<or>
              cache_policy cache = cache_policy_fifo \<and> blk_state b = cache_block_invalid)
        in if move_to_head \<and> way_prev b \<noteq> None
           then res_bind (cache_update_waylist s (nat way) cache_waylist_head) (\<lambda>s.
                  Inr (update_set cache (nat si) s))
           else Inr cache)"

definition cache_replace_block :: "nat \<Rightarrow> cache_t \<Rightarrow> int \<Rightarrow> (cache_t \<times> nat) res" where
  "cache_replace_block rnd cache si =
     (if \<not> (0 \<le> si \<and> si < uint (num_sets cache)) then Inl Assert_failed
      else
        let s = cache_sets cache ! nat si in
        if cache_policy cache = cache_policy_lru \<or> cache_policy cache = cache_policy_fifo
        then res_bind (cache_update_waylist s (way_tail s) cache_waylist_head) (\<lambda>s'.
               Inr (update_set cache (nat si) s', blk_way (blocks s ! way_tail s)))
        else if cache_policy cache \<noteq> cache_policy_random then Inl Assert_failed
        else Inr (cache, rnd mod unat (assoc cache)))"

definition cache_set_transient_tag :: "cache_t \<Rightarrow> nat \<Rightarrow> nat \<Rightarrow> u32 \<Rightarrow> cache_t" where
  "cache_set_transient_tag cache si way tag =
     (let s = cache_sets cache ! si in
      update_set cache si
        (s\<lparr>blocks := (blocks s)[way := (blocks s ! way)\<lparr>blk_transient_tag := tag\<rparr>]\<rparr>))"

section \<open>Streams\<close>

definition set_stream_next :: "nat \<Rightarrow> nat option \<Rightarrow> cache_t \<Rightarrow> cache_t" where
  "set_stream_next i v c = c\<lparr>streams := (streams c)[i := (streams c ! i)\<lparr>stream_next := v\<rparr>]\<rparr>"

definition set_stream_prev :: "nat \<Rightarrow> nat option \<Rightarrow> cache_t \<Rightarrow> cache_t" where
  "set_stream_prev i v c = c\<lparr>streams := (streams c)[i := (streams c ! i)\<lparr>stream_prev := v\<rparr>]\<rparr>"

text \<open>The integrity tests walk the links to the end; \<open>None\<close> is a walk that never ends.\<close>

partial_function (option) stream_walk :: "(nat \<Rightarrow> nat option) \<Rightarrow> nat \<Rightarrow> nat option" where
  "stream_walk link i = (case link i of None \<Rightarrow> Some i | Some j \<Rightarrow> stream_walk link j)"

definition stream_put_first :: "cache_t \<Rightarrow> nat \<Rightarrow> cache_t" where
  "stream_put_first c a =
     (let c = set_stream_prev a None c;
          c = set_stream_next a (Some (stream_head c)) c;
          c = set_stream_prev (stream_head c) (Some a) c
      in c\<lparr>stream_head := a\<rparr>)"

definition cache_access_stream :: "cache_t \<Rightarrow> int \<Rightarrow> cache_t res option" where
  "cache_access_stream cache s =
     (if \<not> (0 \<le> s \<and> s < int (num_streams cache)) then Some (Inl Assert_failed)
      else Option.bind (stream_walk (\<lambda>i. stream_next (streams cache ! i)) (stream_head cache)) (\<lambda>last.
        if last \<noteq> stream_tail cache then Some (Inl Assert_failed)
        else Option.bind (stream_walk (\<lambda>i. stream_prev (streams cache ! i)) (stream_tail cache)) (\<lambda>first.
        if first \<noteq> stream_head cache then Some (Inl Assert_failed)
        else if num_streams cache < 2 then Some (Inr cache)
        else
          let a = nat s in
          Some (case (stream_next (streams cache ! a), stream_prev (streams cache ! a)) of
              (None, Some p) \<Rightarrow>
                Inr (stream_put_first ((set_stream_next p None cache)\<lparr>stream_tail := p\<rparr>) a)
            | (Some n, Some p) \<Rightarrow>
                Inr (stream_put_first (set_stream_prev n (Some p) (set_stream_next p (Some n) cache)) a)
            | _ \<Rightarrow> Inr cache))))"

definition cache_select_stream :: "cache_t \<Rightarrow> (cache_t \<times> nat) res option" where
  "cache_select_stream cache =
     (let s = stream (streams cache ! stream_tail cache)
      in map_option (\<lambda>r. res_bind r (\<lambda>cache. Inr (cache, s))) (cache_access_stream cache (int s)))"

section \<open>Stride detection\<close>

text \<open>
  The scan of the table from the cursor; the result is the table and the value returned
  from inside the loop, if any. A store through \<open>camp\<close> is a store to the element under
  the cursor.
\<close>

definition abs_word :: "u32 \<Rightarrow> u32" where
  "abs_word w = (if sint w < 0 then - w else w)"

partial_function (option) stride_scan ::
  "u32 \<Rightarrow> u32 \<Rightarrow> u32 \<Rightarrow> stride_detector_camp_t linked_list_t
     \<Rightarrow> (stride_detector_camp_t linked_list_t \<times> u32 option) res option" where
  "stride_scan bsize tag addr sd =
     (if linked_list_is_end sd then Some (Inr (sd, None))
      else case linked_list_get sd of
        Inl e \<Rightarrow> Some (Inl e)
      | Inr (sd, None) \<Rightarrow> Some (Inl Null_deref)
      | Inr (sd, Some camp) \<Rightarrow>
          if camp_tag camp = tag then
            let stride = addr - camp_last_addr camp in
            if stride = camp_stride camp
            then Some (res_bind (linked_list_remove sd) (\<lambda>sd. Inr (sd, Some stride)))
            else Some (Inr (if abs_word stride \<ge> bsize
                    then sd\<lparr>ll_elems := (ll_elems sd)[ll_index sd := camp\<lparr>camp_stride := stride, camp_last_addr := addr\<rparr>]\<rparr>
                    else sd, Some 0))
          else (case linked_list_next sd of
                  Inl e \<Rightarrow> Some (Inl e)
                | Inr sd \<Rightarrow> stride_scan bsize tag addr sd))"

definition cache_detect_stride :: "cache_t \<Rightarrow> u32 \<Rightarrow> (cache_t \<times> u32) res option" where
  "cache_detect_stride cache addr =
     (let tag = addr AND NOT (stream_mask cache) in
      Option.bind (stride_scan (block_size cache) tag addr (linked_list_head (stride_detector cache)))
       (\<lambda>r. Some (res_bind r (\<lambda>(sd, found).
        case found of
          Some stride \<Rightarrow> Inr (cache\<lparr>stride_detector := sd\<rparr>, stride)
        | None \<Rightarrow>
            res_bind (if linked_list_count sd \<ge> 128
                      then linked_list_remove (linked_list_head sd) else Inr sd) (\<lambda>sd.
            let camp = \<lparr>camp_tag = tag, camp_last_addr = addr, camp_stride = 0\<rparr>
            in Inr (cache\<lparr>stride_detector := linked_list_add sd camp\<rparr>, 0))))))"

section \<open>The replacement order\<close>

text \<open>A set's list holds every way once, and each block knows its way.\<close>

definition set_rep :: "cache_set_t \<Rightarrow> nat list \<Rightarrow> bool" where
  "set_rep s xs \<longleftrightarrow> xs \<noteq> [] \<and> distinct xs \<and> set xs = {..<length (blocks s)} \<and>
     way_head s = hd xs \<and> way_tail s = last xs \<and>
     dlseg (\<lambda>i. way_prev (blocks s ! i)) (\<lambda>i. way_next (blocks s ! i)) None xs None \<and>
     (\<forall>i < length (blocks s). blk_way (blocks s ! i) = i)"

definition wprev :: "cache_set_t \<Rightarrow> nat \<Rightarrow> nat option" where
  "wprev s i = way_prev (blocks s ! i)"
definition wnext :: "cache_set_t \<Rightarrow> nat \<Rightarrow> nat option" where
  "wnext s i = way_next (blocks s ! i)"

lemma way_upd [simp]:
  "i < length (blocks s) \<Longrightarrow> wprev (set_way_prev i v s) = (wprev s)(i := v)"
  "i < length (blocks s) \<Longrightarrow> wnext (set_way_next i v s) = (wnext s)(i := v)"
  "wprev (set_way_next i v s) = wprev s" "wnext (set_way_prev i v s) = wnext s"
  "length (blocks (set_way_prev i v s)) = length (blocks s)"
  "length (blocks (set_way_next i v s)) = length (blocks s)"
  "way_head (set_way_prev i v s) = way_head s" "way_head (set_way_next i v s) = way_head s"
  "way_tail (set_way_prev i v s) = way_tail s" "way_tail (set_way_next i v s) = way_tail s"
  "blk_way (blocks (set_way_prev i v s) ! j) = blk_way (blocks s ! j)"
  "blk_way (blocks (set_way_next i v s) ! j) = blk_way (blocks s ! j)"
  by (cases "i < length (blocks s)";
      auto simp: fun_eq_iff wprev_def wnext_def set_way_prev_def set_way_next_def nth_list_update;
      metis nth_list_update_eq nth_list_update_neq list_update_beyond not_le)+

lemma way_upd_head [simp]:
  "wprev (s\<lparr>way_head := x\<rparr>) = wprev s" "wnext (s\<lparr>way_head := x\<rparr>) = wnext s"
  "wprev (s\<lparr>way_tail := x\<rparr>) = wprev s" "wnext (s\<lparr>way_tail := x\<rparr>) = wnext s"
  by (simp_all add: fun_eq_iff wprev_def wnext_def)

lemma set_rep_eq:
  "set_rep s xs \<longleftrightarrow> xs \<noteq> [] \<and> distinct xs \<and> set xs = {..<length (blocks s)} \<and>
     way_head s = hd xs \<and> way_tail s = last xs \<and> dlseg (wprev s) (wnext s) None xs None \<and>
     (\<forall>i < length (blocks s). blk_way (blocks s ! i) = i)"
  by (simp add: set_rep_def wprev_def [abs_def] wnext_def [abs_def])

text \<open>What the waylist operations leave alone.\<close>

definition payload :: "cache_block_t \<Rightarrow> u32 \<times> u32 \<times> nat \<times> cache_block_state_t \<times> u32" where
  "payload b = (blk_tag b, blk_transient_tag b, blk_way b, blk_state b, blk_prefetched b)"

definition payloads :: "cache_set_t \<Rightarrow> (u32 \<times> u32 \<times> nat \<times> cache_block_state_t \<times> u32) list" where
  "payloads s = map payload (blocks s)"

lemma payloads_upd [simp]:
  "payloads (set_way_prev i v s) = payloads s" "payloads (set_way_next i v s) = payloads s"
  "payloads (s\<lparr>way_head := h\<rparr>) = payloads s" "payloads (s\<lparr>way_tail := h\<rparr>) = payloads s"
proof -
  have "map payload (bs[i := b]) = map payload bs" if "payload b = payload (bs ! i)" for bs b
    using that by (cases "i < length bs") (auto simp: map_update list_update_same_conv list_update_beyond)
  then show "payloads (set_way_prev i v s) = payloads s" "payloads (set_way_next i v s) = payloads s"
    by (simp_all add: payloads_def set_way_prev_def set_way_next_def payload_def)
qed (simp_all add: payloads_def)

text \<open>A set whose list lacks the block about to be linked in.\<close>

definition open_rep :: "cache_set_t \<Rightarrow> nat \<Rightarrow> nat list \<Rightarrow> bool" where
  "open_rep s x ys \<longleftrightarrow> ys \<noteq> [] \<and> distinct (x # ys) \<and> set (x # ys) = {..<length (blocks s)} \<and>
     way_head s = hd ys \<and> way_tail s = last ys \<and> dlseg (wprev s) (wnext s) None ys None \<and>
     (\<forall>i < length (blocks s). blk_way (blocks s ! i) = i)"

lemma link_head:
  assumes "open_rep s x ys"
  shows "set_rep (waylist_link s x cache_waylist_head) (x # ys)"
proof -
  from assms obtain h zs where ys: "ys = h # zs" by (cases ys) (auto simp: open_rep_def)
  with assms have lt: "x < length (blocks s)" "h < length (blocks s)" by (auto simp: open_rep_def)
  have "dlseg ((wprev s)(x := None, h := Some x)) ((wnext s)(x := Some h)) None (x # h # zs) None"
    by (rule dlseg_push_front) (use assms ys in \<open>auto simp: open_rep_def\<close>)
  with assms lt ys show ?thesis
    by (simp add: waylist_link_def Let_def set_rep_eq open_rep_def)
qed

lemma link_tail:
  assumes "open_rep s x ys"
  shows "set_rep (waylist_link s x cache_waylist_tail) (ys @ [x])"
proof -
  from assms obtain h zs where ys: "ys = zs @ [h]" by (cases ys rule: rev_cases) (auto simp: open_rep_def)
  with assms have lt: "x < length (blocks s)" "h < length (blocks s)" by (auto simp: open_rep_def)
  have "dlseg ((wprev s)(x := Some h)) ((wnext s)(x := None, h := Some x)) None (zs @ [h, x]) None"
    by (rule dlseg_push_back) (use assms ys in \<open>auto simp: open_rep_def\<close>)
  with assms lt ys show ?thesis
    by (auto simp: waylist_link_def Let_def set_rep_eq open_rep_def hd_append)
qed

lemma payloads_link [simp]: "payloads (waylist_link s x w) = payloads s"
  by (simp add: waylist_link_def Let_def split: cache_waylist_enum.split)

text \<open>The update of the list, from the position of the block in it.\<close>

lemma update_waylist_cases:
  assumes "set_rep s (as @ x # bs)"
  shows "cache_update_waylist s x w =
    (if as = [] \<and> (bs = [] \<or> w = cache_waylist_head) \<or> bs = [] \<and> w = cache_waylist_tail then Inr s
     else Inr (waylist_link
       (if as = [] then set_way_prev (hd bs) None (s\<lparr>way_head := hd bs\<rparr>)
        else if bs = [] then set_way_next (last as) None (s\<lparr>way_tail := last as\<rparr>)
        else set_way_prev (hd bs) (Some (last as)) (set_way_next (last as) (Some (hd bs)) s)) x w))"
proof -
  have d: "dlseg (wprev s) (wnext s) None (as @ x # bs) None" "distinct (as @ x # bs)"
      "way_head s = hd (as @ x # bs)" "way_tail s = last (as @ x # bs)"
    using assms by (simp_all only: set_rep_eq)
  from dlseg_links [OF d(1)] have l: "way_prev (blocks s ! x) = last_of None as"
      "way_next (blocks s ! x) = first_of bs None"
    by (simp_all add: wprev_def wnext_def)
  have h: "as \<noteq> [] \<Longrightarrow> way_head s \<noteq> x" using d(2,3) by (cases as) auto
  have t: "bs \<noteq> [] \<Longrightarrow> way_tail s \<noteq> x" using d(2,4) by (cases bs rule: rev_cases) auto
  show ?thesis
    using l d(3,4) h t unfolding cache_update_waylist_def
    by (cases as rule: rev_cases; cases bs; cases w) (simp_all add: hd_append)
qed

lemma open_rep_unlink:
  assumes "set_rep s (as @ x # bs)" "as \<noteq> [] \<or> bs \<noteq> []"
  shows "open_rep (if as = [] then set_way_prev (hd bs) None (s\<lparr>way_head := hd bs\<rparr>)
        else if bs = [] then set_way_next (last as) None (s\<lparr>way_tail := last as\<rparr>)
        else set_way_prev (hd bs) (Some (last as)) (set_way_next (last as) (Some (hd bs)) s)) x (as @ bs)"
proof -
  have d: "dlseg (wprev s) (wnext s) None (as @ x # bs) None" "distinct (as @ x # bs)"
    and r: "set (as @ x # bs) = {..<length (blocks s)}" "way_head s = hd (as @ x # bs)"
      "way_tail s = last (as @ x # bs)" "\<forall>i < length (blocks s). blk_way (blocks s ! i) = i"
    using assms(1) unfolding set_rep_eq by blast+
  have lt: "y \<in> set (as @ bs) \<Longrightarrow> y < length (blocks s)" for y using r(1) by auto
  have sx: "distinct (x # as @ bs)" "set (x # as @ bs) = {..<length (blocks s)}" using r(1) d(2) by auto
  have I: "open_rep t x (as @ bs)"
    if "dlseg (wprev t) (wnext t) None (as @ bs) None" "way_head t = hd (as @ bs)" "way_tail t = last (as @ bs)"
      "length (blocks t) = length (blocks s)" "\<forall>i. blk_way (blocks t ! i) = blk_way (blocks s ! i)" for t
    using that sx r(4) assms(2) unfolding open_rep_def by simp
  show ?thesis
  proof (cases "as = []")
    case True
    with assms(2) obtain b bs' where bs: "bs = b # bs'" by (cases bs) auto
    have "dlseg ((wprev s)(b := None)) (wnext s) None (b # bs') None"
      by (rule dlseg_unlink_head [of _ _ x]) (use d True bs in simp_all)
    then show ?thesis using lt [of b] r(2,3) True bs by (intro I) simp_all
  next
    case False
    then obtain as' a where as: "as = as' @ [a]" by (cases as rule: rev_cases) auto
    show ?thesis
    proof (cases bs)
      case Nil
      have "dlseg (wprev s) ((wnext s)(a := None)) None (as' @ [a]) None"
        by (rule dlseg_unlink_tail [of _ _ _ _ x]) (use d as Nil in simp_all)
      then show ?thesis using lt [of a] r(2,3) as Nil by (intro I) (simp_all add: hd_append)
    next
      case (Cons b bs')
      have "dlseg ((wprev s)(b := Some a)) ((wnext s)(a := Some b)) None (as' @ [a, b] @ bs') None"
        by (rule dlseg_unlink_mid [of _ _ _ _ x]) (use d as Cons in simp_all)
      then show ?thesis using lt [of a] lt [of b] r(2,3) as Cons by (intro I) (simp_all add: hd_append)
    qed
  qed
qed

lemma update_waylist_head:
  assumes "set_rep s xs" "x \<in> set xs"
  shows "\<exists>s'. cache_update_waylist s x cache_waylist_head = Inr s' \<and>
    set_rep s' (touch_list x xs) \<and> payloads s' = payloads s"
proof -
  from assms(2) obtain as bs where xs: "xs = as @ x # bs" "x \<notin> set as" by (metis split_list_first)
  then have t: "touch_list x xs = x # as @ bs" by (simp add: touch_list_def remove1_append)
  note u = update_waylist_cases [OF assms(1) [unfolded xs]]
  show ?thesis
  proof (cases "as = []")
    case True
    then show ?thesis using u [of cache_waylist_head] assms(1) t xs by auto
  next
    case False
    with link_head [OF open_rep_unlink [OF assms(1) [unfolded xs]]] u [of cache_waylist_head] t
    show ?thesis by simp
  qed
qed

lemma update_waylist_tail:
  assumes "set_rep s xs" "x \<in> set xs"
  shows "\<exists>s'. cache_update_waylist s x cache_waylist_tail = Inr s' \<and>
    set_rep s' (remove1 x xs @ [x]) \<and> payloads s' = payloads s"
proof -
  from assms(2) obtain as bs where xs: "xs = as @ x # bs" "x \<notin> set as" by (metis split_list_first)
  then have t: "remove1 x xs @ [x] = (as @ bs) @ [x]" by (simp add: remove1_append)
  note u = update_waylist_cases [OF assms(1) [unfolded xs]]
  show ?thesis
  proof (cases "bs = []")
    case True
    then show ?thesis using u [of cache_waylist_tail] assms(1) t xs by auto
  next
    case False
    with link_tail [OF open_rep_unlink [OF assms(1) [unfolded xs]]] u [of cache_waylist_tail] t
    show ?thesis by simp
  qed
qed

interpretation way_lru: lru_order set_rep "\<lambda>x s. cache_update_waylist s x cache_waylist_head" way_tail
proof
  fix s xs x assume "set_rep s xs" "x \<in> set xs"
  from update_waylist_head [OF this]
  show "\<exists>s'. cache_update_waylist s x cache_waylist_head = Inr s' \<and> set_rep s' (touch_list x xs)" by blast
qed (auto simp: set_rep_def)

lemma create_links:
  assumes "n > 0"
  shows "dlseg (\<lambda>i. if i > 0 then Some (i - 1) else None) (\<lambda>i. if i < n - 1 then Some (i + 1) else None)
           None [0..<n] None"
proof -
  have "dlseg (\<lambda>i. if i > 0 then Some (i - 1) else None) (\<lambda>i. if i < n - 1 then Some (i + 1) else None)
          (if m > 0 then Some (m - 1) else None) [m..<n] None" if "m \<le> n" for m
    using that
  proof (induction "n - m" arbitrary: m)
    case (Suc k)
    from Suc.hyps(2) have m: "m < n" by simp
    have "k = n - Suc m" using Suc.hyps(2) by simp
    from Suc.hyps(1) [OF this] m
    have IH: "dlseg (\<lambda>i. if i > 0 then Some (i - 1) else None) (\<lambda>i. if i < n - 1 then Some (i + 1) else None)
          (Some m) [Suc m..<n] None" by simp
    have "first_of [Suc m..<n] None = (if m < n - 1 then Some (m + 1) else None)"
      using m by (cases "Suc m < n") (auto simp: upt_conv_Cons)
    with IH m show ?case by (simp add: upt_conv_Cons)
  qed simp
  from this [of 0] show ?thesis by simp
qed

lemma dlseg_cong:
  "(\<And>x. x \<in> set xs \<Longrightarrow> prv x = prv' x \<and> nxt x = nxt' x) \<Longrightarrow>
   dlseg prv nxt p xs q = dlseg prv' nxt' p xs q"
  by (induction xs arbitrary: p) auto

lemma set_rep_create: "n > 0 \<Longrightarrow> set_rep (create_set n) [0..<n]"
proof -
  assume n: "n > 0"
  have "dlseg (\<lambda>i. way_prev (blocks (create_set n) ! i)) (\<lambda>i. way_next (blocks (create_set n) ! i)) None [0..<n] None =
      dlseg (\<lambda>i. if i > 0 then Some (i - 1) else None) (\<lambda>i. if i < n - 1 then Some (i + 1) else None) None [0..<n] None"
    by (rule dlseg_cong) (simp add: create_set_def create_block_def)
  with create_links [OF n] n show ?thesis
    by (auto simp: set_rep_def create_set_def create_block_def hd_upt last_upt)
qed

end
