(* ===== verification/Cache_Props.thy ===== *)
theory Cache_Props
  imports Cache
begin

text \<open>
  Facts on the cache array: the stream list keeps its order as the sets do, every operation
  keeps the cache well formed and succeeds on arguments in range, a block set is found, and
  the replacement victim is the least recently used block.
\<close>

section \<open>The stream list\<close>

definition sprev :: "cache_t \<Rightarrow> nat \<Rightarrow> nat option" where
  "sprev c i = stream_prev (streams c ! i)"
definition snext :: "cache_t \<Rightarrow> nat \<Rightarrow> nat option" where
  "snext c i = stream_next (streams c ! i)"

definition stream_fields :: "cache_t \<Rightarrow> (nat \<times> u32 \<times> u32 \<times> stream_block_t list \<times> nat) list" where
  "stream_fields c =
     map (\<lambda>s. (stream s, stream_tag s, stream_transcient_tag s, stream_blocks s, num_slots s)) (streams c)"

definition stream_rep :: "cache_t \<Rightarrow> nat list \<Rightarrow> bool" where
  "stream_rep c xs \<longleftrightarrow> xs \<noteq> [] \<and> distinct xs \<and> set xs = {..<num_streams c} \<and>
     length (streams c) = num_streams c \<and> stream_head c = hd xs \<and> stream_tail c = last xs \<and>
     dlseg (sprev c) (snext c) None xs None \<and> (\<forall>i < num_streams c. stream (streams c ! i) = i)"

lemma stream_upd [simp]:
  "i < length (streams c) \<Longrightarrow> sprev (set_stream_prev i v c) = (sprev c)(i := v)"
  "i < length (streams c) \<Longrightarrow> snext (set_stream_next i v c) = (snext c)(i := v)"
  "sprev (set_stream_next i v c) = sprev c" "snext (set_stream_prev i v c) = snext c"
  "length (streams (set_stream_prev i v c)) = length (streams c)"
  "length (streams (set_stream_next i v c)) = length (streams c)"
  "stream (streams (set_stream_prev i v c) ! j) = stream (streams c ! j)"
  "stream (streams (set_stream_next i v c) ! j) = stream (streams c ! j)"
  by (cases "i < length (streams c)";
      auto simp: fun_eq_iff sprev_def snext_def set_stream_prev_def set_stream_next_def nth_list_update;
      metis nth_list_update_eq nth_list_update_neq list_update_beyond not_le)+

lemma stream_upd_fields [simp]:
  "stream_head (set_stream_prev i v c) = stream_head c" "stream_head (set_stream_next i v c) = stream_head c"
  "stream_tail (set_stream_prev i v c) = stream_tail c" "stream_tail (set_stream_next i v c) = stream_tail c"
  "num_streams (set_stream_prev i v c) = num_streams c" "num_streams (set_stream_next i v c) = num_streams c"
  "sprev (c\<lparr>stream_tail := t\<rparr>) = sprev c" "snext (c\<lparr>stream_tail := t\<rparr>) = snext c"
  "sprev (c\<lparr>stream_head := t\<rparr>) = sprev c" "snext (c\<lparr>stream_head := t\<rparr>) = snext c"
  by (simp_all add: set_stream_prev_def set_stream_next_def fun_eq_iff sprev_def snext_def)

text \<open>The parts of the cache a stream access leaves alone.\<close>

definition stream_rest :: "cache_t \<Rightarrow> cache_t \<times> (nat \<times> u32 \<times> u32 \<times> stream_block_t list \<times> nat) list" where
  "stream_rest c = (c\<lparr>streams := [], stream_head := 0, stream_tail := 0\<rparr>, stream_fields c)"

lemma stream_fields_upd:
  "stream_fields (set_stream_prev i v c) = stream_fields c" "stream_fields (set_stream_next i v c) = stream_fields c"
proof -
  have "map f (bs[i := b]) = map f bs" if "f b = f (bs ! i)"
    for f :: "stream_buffer_t \<Rightarrow> nat \<times> u32 \<times> u32 \<times> stream_block_t list \<times> nat" and bs b
    using that by (cases "i < length bs") (auto simp: map_update list_update_same_conv list_update_beyond)
  then show "stream_fields (set_stream_prev i v c) = stream_fields c"
      "stream_fields (set_stream_next i v c) = stream_fields c"
    by (simp_all add: stream_fields_def set_stream_prev_def set_stream_next_def)
qed

lemma stream_rest_upd [simp]:
  "stream_rest (set_stream_prev i v c) = stream_rest c" "stream_rest (set_stream_next i v c) = stream_rest c"
  "stream_rest (c\<lparr>stream_tail := t\<rparr>) = stream_rest c" "stream_rest (c\<lparr>stream_head := t\<rparr>) = stream_rest c"
  using stream_fields_upd [of i v c]
  by (simp_all add: stream_rest_def set_stream_prev_def set_stream_next_def stream_fields_def)

lemma stream_walk_next:
  "dlseg prv nxt p xs None \<Longrightarrow> xs \<noteq> [] \<Longrightarrow> stream_walk nxt (hd xs) = Some (last xs)"
proof (induction xs arbitrary: p)
  case (Cons x xs)
  then show ?case by (cases xs) (subst stream_walk.simps; simp)+
qed simp

lemma stream_walk_prev:
  "dlseg prv nxt None xs q \<Longrightarrow> xs \<noteq> [] \<Longrightarrow> stream_walk prv (last xs) = Some (hd xs)"
proof (induction xs arbitrary: q rule: rev_induct)
  case (snoc x xs)
  then show ?case
    by (cases xs rule: rev_cases) (subst stream_walk.simps; simp add: dlseg_append hd_append)+
qed simp

definition stream_open :: "cache_t \<Rightarrow> nat \<Rightarrow> nat list \<Rightarrow> bool" where
  "stream_open c x ys \<longleftrightarrow> ys \<noteq> [] \<and> distinct (x # ys) \<and> set (x # ys) = {..<num_streams c} \<and>
     length (streams c) = num_streams c \<and> stream_head c = hd ys \<and> stream_tail c = last ys \<and>
     dlseg (sprev c) (snext c) None ys None \<and> (\<forall>i < num_streams c. stream (streams c ! i) = i)"

lemma put_first_rep:
  assumes "stream_open c x ys"
  shows "stream_rep (stream_put_first c x) (x # ys)"
proof -
  from assms obtain h zs where ys: "ys = h # zs" by (cases ys) (auto simp: stream_open_def)
  with assms have lt: "x < length (streams c)" "h < length (streams c)" by (auto simp: stream_open_def)
  have "dlseg ((sprev c)(x := None, h := Some x)) ((snext c)(x := Some h)) None (x # h # zs) None"
    by (rule dlseg_push_front) (use assms ys in \<open>auto simp: stream_open_def\<close>)
  with assms lt ys show ?thesis
    by (simp add: stream_put_first_def Let_def stream_rep_def stream_open_def)
qed

lemma put_first_rest [simp]: "stream_rest (stream_put_first c x) = stream_rest c"
  by (simp add: stream_put_first_def Let_def)

lemma access_stream_correct:
  assumes "stream_rep c xs" "x \<in> set xs"
  shows "\<exists>c'. cache_access_stream c (int x) = Some (Inr c') \<and> stream_rep c' (touch_list x xs) \<and>
    stream_rest c' = stream_rest c"
proof -
  from assms(2) obtain as bs where xs: "xs = as @ x # bs" "x \<notin> set as" by (metis split_list_first)
  then have t: "touch_list x xs = x # as @ bs" by (simp add: touch_list_def remove1_append)
  have d: "dlseg (sprev c) (snext c) None (as @ x # bs) None" "distinct (as @ x # bs)"
    and r: "set (as @ x # bs) = {..<num_streams c}" "length (streams c) = num_streams c"
      "stream_head c = hd (as @ x # bs)" "stream_tail c = last (as @ x # bs)"
      "\<forall>i < num_streams c. stream (streams c ! i) = i"
    using assms(1) xs(1) unfolding stream_rep_def by blast+
  have w: "stream_walk (\<lambda>i. stream_next (streams c ! i)) (stream_head c) = Some (stream_tail c)"
      "stream_walk (\<lambda>i. stream_prev (streams c ! i)) (stream_tail c) = Some (stream_head c)"
    using stream_walk_next [OF d(1)] stream_walk_prev [OF d(1)] r(3,4)
    by (simp_all add: sprev_def [abs_def] snext_def [abs_def])
  from dlseg_links [OF d(1)] have l: "stream_prev (streams c ! x) = last_of None as"
      "stream_next (streams c ! x) = first_of bs None"
    by (simp_all add: sprev_def snext_def)
  have x: "x < num_streams c" and lt: "y \<in> set (as @ bs) \<Longrightarrow> y < length (streams c)" for y
    using r(1,2) by auto
  have sx: "distinct (x # as @ bs)" "set (x # as @ bs) = {..<num_streams c}" using r(1) d(2) by auto
  have I: "stream_open t x (as @ bs)"
    if "dlseg (sprev t) (snext t) None (as @ bs) None" "stream_head t = hd (as @ bs)"
      "stream_tail t = last (as @ bs)" "num_streams t = num_streams c" "as @ bs \<noteq> []"
      "length (streams t) = length (streams c)" "\<forall>i. stream (streams t ! i) = stream (streams c ! i)" for t
    using that sx r(2,5) unfolding stream_open_def by simp
  show ?thesis
  proof (cases "as = []")
    case True
    then show ?thesis using w l x t xs assms(1)
      by (cases bs) (simp_all add: cache_access_stream_def)
  next
    case False
    then obtain as' a where as: "as = as' @ [a]" by (cases as rule: rev_cases) auto
    have n2: "\<not> num_streams c < 2"
    proof
      assume "num_streams c < 2"
      then have "{..<num_streams c} \<subseteq> {0}" by auto
      with r(1) as have "x = 0" "a = 0" by auto
      with d(2) as show False by simp
    qed
    show ?thesis
    proof (cases bs)
      case Nil
      let ?c = "(set_stream_next a None c)\<lparr>stream_tail := a\<rparr>"
      have "dlseg (sprev c) ((snext c)(a := None)) None (as' @ [a]) None"
        by (rule dlseg_unlink_tail [of _ _ _ _ x]) (use d as Nil in simp_all)
      then have "stream_open ?c x (as @ bs)"
        using lt [of a] r(3,4) as Nil by (intro I) (simp_all add: hd_append)
      from put_first_rep [OF this] n2 w l x t as Nil show ?thesis
        by (simp add: cache_access_stream_def)
    next
      case (Cons b bs')
      let ?c = "set_stream_prev b (Some a) (set_stream_next a (Some b) c)"
      have "dlseg ((sprev c)(b := Some a)) ((snext c)(a := Some b)) None (as' @ [a, b] @ bs') None"
        by (rule dlseg_unlink_mid [of _ _ _ _ x]) (use d as Cons in simp_all)
      then have "stream_open ?c x (as @ bs)"
        using lt [of a] lt [of b] r(3,4) as Cons by (intro I) (simp_all add: hd_append)
      from put_first_rep [OF this] n2 w l x t as Cons show ?thesis
        by (simp add: cache_access_stream_def)
    qed
  qed
qed

definition touch_stream :: "nat \<Rightarrow> cache_t \<Rightarrow> cache_t res" where
  "touch_stream x c = (case cache_access_stream c (int x) of Some r \<Rightarrow> r | None \<Rightarrow> Inl Aborted)"

interpretation stream_lru: lru_order stream_rep touch_stream stream_tail
proof
  fix c xs x assume "stream_rep c xs" "x \<in> set xs"
  from access_stream_correct [OF this]
  show "\<exists>c'. touch_stream x c = Inr c' \<and> stream_rep c' (touch_list x xs)"
    by (auto simp: touch_stream_def)
qed (auto simp: stream_rep_def)

lemma stream_rep_create:
  assumes "cache_create ns bs ways n aggr pol = Inr c" "n > 0"
  shows "stream_rep c [0..<n]"
proof -
  have s: "streams c = map (create_stream n aggr) [0..<n]" "num_streams c = n" "stream_head c = 0"
      "stream_tail c = n - 1"
    using assms(1) by (auto simp: cache_create_def split: if_splits)
  have "dlseg (sprev c) (snext c) None [0..<n] None =
      dlseg (\<lambda>i. if i > 0 then Some (i - 1) else None) (\<lambda>i. if i < n - 1 then Some (i + 1) else None) None [0..<n] None"
    by (rule dlseg_cong) (simp add: s sprev_def snext_def create_stream_def)
  with create_links [OF assms(2)] assms(2) show ?thesis
    by (auto simp: stream_rep_def s create_stream_def hd_upt last_upt)
qed

section \<open>Well-formed caches\<close>

definition set_ok :: "nat \<Rightarrow> cache_set_t \<Rightarrow> bool" where
  "set_ok n s \<longleftrightarrow> length (blocks s) = n \<and> (\<exists>xs. set_rep s xs)"

definition cache_ok :: "cache_t \<Rightarrow> bool" where
  "cache_ok c \<longleftrightarrow>
     0 < num_sets c \<and> 0 < assoc c \<and> cache_policy c \<noteq> cache_policy_invalid \<and>
     length (cache_sets c) = unat (num_sets c) \<and>
     (\<forall>s \<in> set (cache_sets c). set_ok (unat (assoc c)) s) \<and>
     length (streams c) = num_streams c \<and> (num_streams c > 0 \<longrightarrow> (\<exists>xs. stream_rep c xs)) \<and>
     ll_ok (stride_detector c) \<and> linked_list_count (stride_detector c) \<le> 128"

lemma in_setD:
  assumes "cache_ok c" "in_set c si way"
  shows "nat si < length (cache_sets c)" "nat way < unat (assoc c)"
    "set_ok (unat (assoc c)) (cache_sets c ! nat si)"
proof -
  have "int (nat si) < int (unat (num_sets c))" "int (nat way) < int (unat (assoc c))"
    using assms(2) unfolding in_set_def by simp_all
  then have "nat si < unat (num_sets c)" "nat way < unat (assoc c)" by (simp_all only: of_nat_less_iff)
  with assms(1) show "nat si < length (cache_sets c)" "nat way < unat (assoc c)"
    "set_ok (unat (assoc c)) (cache_sets c ! nat si)"
    by (auto simp: cache_ok_def)
qed

lemma set_rep_fields:
  assumes "set_rep s xs" "way_prev b = way_prev (blocks s ! i)" "way_next b = way_next (blocks s ! i)"
    "blk_way b = blk_way (blocks s ! i)"
  shows "set_rep (s\<lparr>blocks := (blocks s)[i := b]\<rparr>) xs"
proof -
  have "way_prev ((blocks s)[i := b] ! j) = way_prev (blocks s ! j) \<and>
      way_next ((blocks s)[i := b] ! j) = way_next (blocks s ! j) \<and>
      blk_way ((blocks s)[i := b] ! j) = blk_way (blocks s ! j)" for j
    using assms(2-4) by (cases "i < length (blocks s)") (auto simp: nth_list_update list_update_beyond)
  then show ?thesis using assms(1) by (simp add: set_rep_def)
qed

lemma payloads_length: "payloads s' = payloads s \<Longrightarrow> length (blocks s') = length (blocks s)"
  unfolding payloads_def by (metis length_map)

lemma set_ok_head:
  assumes "set_ok n s" "way < n"
  shows "\<exists>s'. cache_update_waylist s way cache_waylist_head = Inr s' \<and> set_ok n s' \<and> payloads s' = payloads s"
proof -
  from assms obtain xs where xs: "set_rep s xs" "way \<in> set xs" by (auto simp: set_ok_def set_rep_def)
  from update_waylist_head [OF xs] assms(1) show ?thesis
    by (auto simp: set_ok_def dest: payloads_length)
qed

lemma cache_ok_update_set:
  assumes "cache_ok c" "set_ok (unat (assoc c)) s"
  shows "cache_ok (update_set c i s)"
proof -
  have "stream_rep (update_set c i s) xs = stream_rep c xs" for xs
    by (simp add: stream_rep_def update_set_def sprev_def [abs_def] snext_def [abs_def])
  with assms show ?thesis
    by (auto simp: cache_ok_def update_set_def dest!: set_update_subset_insert [THEN subsetD])
qed

lemma set_block_ok:
  assumes "cache_ok c" "in_set c si way"
  shows "\<exists>c'. cache_set_block c si way tag st p = Inr c' \<and> cache_ok c'"
proof -
  note d = in_setD [OF assms]
  let ?s = "cache_sets c ! nat si"
  let ?r = "if cache_policy c = cache_policy_fifo \<and> blk_tag (blocks ?s ! nat way) \<noteq> tag
      then cache_update_waylist ?s (nat way) cache_waylist_head else Inr ?s"
  have "\<exists>s'. ?r = Inr s' \<and> set_ok (unat (assoc c)) s'"
    using set_ok_head [OF d(3,2)] d(3) by auto
  then obtain s' xs where s': "?r = Inr s'" "length (blocks s') = unat (assoc c)" "set_rep s' xs"
    by (auto simp: set_ok_def)
  let ?t = "s'\<lparr>blocks := (blocks s')[nat way := (blocks s' ! nat way)
              \<lparr>blk_tag := tag, blk_state := st, blk_prefetched := p\<rparr>]\<rparr>"
  have "set_rep ?t xs" by (rule set_rep_fields [OF s'(3)]) simp_all
  then have "set_ok (unat (assoc c)) ?t" using s'(2) by (auto simp: set_ok_def)
  from cache_ok_update_set [OF assms(1) this] s'(1) assms(2) show ?thesis
    by (auto simp: cache_set_block_def Let_def)
qed

lemma access_block_ok:
  assumes "cache_ok c" "in_set c si way"
  shows "\<exists>c'. cache_access_block c si way = Inr c' \<and> cache_ok c'"
  using set_ok_head [OF in_setD(3,2) [OF assms]] assms
  by (auto simp: cache_access_block_def Let_def intro: cache_ok_update_set)

lemma replace_block_ok:
  assumes "cache_ok c" "0 \<le> si" "si < uint (num_sets c)"
  shows "\<exists>c' w. cache_replace_block rnd c si = Inr (c', w) \<and> cache_ok c' \<and> w < unat (assoc c)"
proof -
  have "in_set c si 0" using assms by (auto simp: in_set_def cache_ok_def word_less_def)
  note d = in_setD [OF assms(1) this]
  from d(3) obtain xs where xs: "set_rep (cache_sets c ! nat si) xs"
      "length (blocks (cache_sets c ! nat si)) = unat (assoc c)"
    by (auto simp: set_ok_def)
  then have t: "way_tail (cache_sets c ! nat si) < unat (assoc c)"
      "blk_way (blocks (cache_sets c ! nat si) ! way_tail (cache_sets c ! nat si)) = way_tail (cache_sets c ! nat si)"
    using last_in_set [of xs] by (auto simp: set_rep_def)
  have "0 < unat (assoc c)" using assms(1) by (simp add: cache_ok_def unat_gt_0 word_gt_0)
  then have "rnd mod unat (assoc c) < unat (assoc c)" by simp
  moreover obtain s' where
    "cache_update_waylist (cache_sets c ! nat si) (way_tail (cache_sets c ! nat si)) cache_waylist_head = Inr s'"
    "set_ok (unat (assoc c)) s'" using set_ok_head [OF d(3) t(1)] by blast
  moreover have "cache_policy c \<noteq> cache_policy_invalid" using assms(1) by (simp add: cache_ok_def)
  ultimately show ?thesis
    using assms t cache_ok_update_set [OF assms(1), of s' "nat si"]
    by (cases "cache_policy c") (simp_all add: cache_replace_block_def Let_def)
qed

lemma transient_ok:
  assumes "cache_ok c" "si < length (cache_sets c)"
  shows "cache_ok (cache_set_transient_tag c si way tag)"
proof -
  have "set_ok (unat (assoc c)) (cache_sets c ! si)" using assms by (auto simp: cache_ok_def)
  then obtain xs where "set_rep (cache_sets c ! si) xs" "length (blocks (cache_sets c ! si)) = unat (assoc c)"
    by (auto simp: set_ok_def)
  then show ?thesis unfolding cache_set_transient_tag_def Let_def
    by (intro cache_ok_update_set [OF assms(1)]) (auto simp: set_ok_def intro!: set_rep_fields)
qed

lemma set_pref_block_ok:
  assumes "cache_ok c" "in_stream c ps sl"
  shows "\<exists>c'. cache_set_pref_block c ps sl tag st = Inr c' \<and> cache_ok c'"
proof -
  let ?ss = "\<lambda>b. (streams c)[nat ps := (streams c ! nat ps)\<lparr>stream_blocks := b\<rparr>]"
  have "stream_rep (c\<lparr>streams := ?ss b\<rparr>) = stream_rep c" for b
  proof (rule ext)
    fix xs
    have "stream_prev (?ss b ! j) = stream_prev (streams c ! j)" "stream_next (?ss b ! j) = stream_next (streams c ! j)"
      "stream (?ss b ! j) = stream (streams c ! j)" for j
      by (cases "nat ps < length (streams c)"; simp add: nth_list_update list_update_beyond)+
    then show "stream_rep (c\<lparr>streams := ?ss b\<rparr>) xs = stream_rep c xs"
      by (simp add: stream_rep_def sprev_def [abs_def] snext_def [abs_def])
  qed
  with assms show ?thesis by (simp add: cache_set_pref_block_def Let_def cache_ok_def)
qed

lemma stream_rest_ok:
  assumes "cache_ok c" "stream_rest c' = stream_rest c" "stream_rep c' xs"
  shows "cache_ok c'"
proof -
  have e: "c'\<lparr>streams := [], stream_head := 0, stream_tail := 0\<rparr> = c\<lparr>streams := [], stream_head := 0, stream_tail := 0\<rparr>"
    using assms(2) by (simp add: stream_rest_def)
  have "num_sets c' = num_sets c" "assoc c' = assoc c" "cache_policy c' = cache_policy c"
    "cache_sets c' = cache_sets c" "stride_detector c' = stride_detector c"
    using arg_cong [OF e, of num_sets] arg_cong [OF e, of assoc] arg_cong [OF e, of cache_policy]
      arg_cong [OF e, of cache_sets] arg_cong [OF e, of stride_detector] by simp_all
  with assms(1,3) show ?thesis by (auto simp: cache_ok_def stream_rep_def)
qed

lemma access_stream_ok:
  assumes "cache_ok c" "x < num_streams c"
  shows "\<exists>c'. cache_access_stream c (int x) = Some (Inr c') \<and> cache_ok c'"
proof -
  from assms obtain xs where xs: "stream_rep c xs" by (auto simp: cache_ok_def)
  with assms(2) have "x \<in> set xs" by (simp add: stream_rep_def)
  from access_stream_correct [OF xs this] stream_rest_ok [OF assms(1)] show ?thesis by blast
qed

lemma select_stream_ok:
  assumes "cache_ok c" "0 < num_streams c"
  shows "\<exists>c' s. cache_select_stream c = Some (Inr (c', s)) \<and> cache_ok c' \<and> s = stream_tail c"
proof -
  from assms obtain xs where "stream_rep c xs" by (auto simp: cache_ok_def)
  then have t: "stream_tail c < num_streams c" "stream (streams c ! stream_tail c) = stream_tail c"
    using last_in_set [of xs] by (auto simp: stream_rep_def)
  from access_stream_ok [OF assms(1) t(1)] t(2) show ?thesis
    by (auto simp: cache_select_stream_def)
qed

section \<open>The stride detector\<close>

text \<open>What the table is after a scan that finds no entry or the first one of the tag, and
  what is returned.\<close>

definition stride_result ::
  "u32 \<Rightarrow> u32 \<Rightarrow> stride_detector_camp_t list \<Rightarrow> nat \<Rightarrow> stride_detector_camp_t list \<times> u32" where
  "stride_result bsize addr es i =
     (let camp = es ! i; stride = addr - camp_last_addr camp in
      if stride = camp_stride camp then (take i es @ drop (i + 1) es, stride)
      else if abs_word stride \<ge> bsize
      then (es[i := camp\<lparr>camp_stride := stride, camp_last_addr := addr\<rparr>], 0)
      else (es, 0))"

lemma ll_next_inside:
  "ll_ok l \<Longrightarrow> ll_index l < length (ll_elems l) \<Longrightarrow>
   \<exists>l'. linked_list_next (ll_err e l) = Inr l' \<and> ll_ok l' \<and> ll_elems l' = ll_elems l \<and>
        ll_index l' = ll_index l + 1"
  using ll_next_ok [of "ll_err e l"] by auto

lemma stride_scan_ok:
  assumes "ll_ok sd" "\<And>j. j < ll_index sd \<Longrightarrow> camp_tag (ll_elems sd ! j) \<noteq> tag"
  shows "\<exists>sd' r. stride_scan bsize tag addr sd = Some (Inr (sd', r)) \<and> ll_ok sd' \<and>
    (case r of
       None \<Rightarrow> ll_elems sd' = ll_elems sd \<and> (\<forall>e \<in> set (ll_elems sd). camp_tag e \<noteq> tag)
     | Some v \<Rightarrow> \<exists>i < length (ll_elems sd). camp_tag (ll_elems sd ! i) = tag \<and>
         (\<forall>j < i. camp_tag (ll_elems sd ! j) \<noteq> tag) \<and>
         stride_result bsize addr (ll_elems sd) i = (ll_elems sd', v))"
  using assms
proof (induction "length (ll_elems sd) - ll_index sd" arbitrary: sd rule: less_induct)
  case less
  show ?case
  proof (cases "ll_index sd = length (ll_elems sd)")
    case True
    then have "\<forall>e \<in> set (ll_elems sd). camp_tag e \<noteq> tag"
      using less.prems(2) True by (metis in_set_conv_nth)
    then show ?thesis using True less.prems(1)
      by (subst stride_scan.simps) (auto simp: linked_list_is_end_def)
  next
    case False
    then have i: "ll_index sd < length (ll_elems sd)" using less.prems(1) by (auto simp: ll_ok_def)
    let ?i = "ll_index sd" and ?sd = "ll_err LINKED_LIST_ERR_OK sd"
    have g: "linked_list_get sd = Inr (?sd, Some (ll_elems sd ! ?i))"
      using ll_get_ok [OF less.prems(1)] i by simp
    show ?thesis
    proof (cases "camp_tag (ll_elems sd ! ?i) = tag")
      case True
      have ok: "ll_ok ?sd" using less.prems(1) by simp
      from ll_remove_ok [OF ok] i obtain sd2 where
        "linked_list_remove ?sd = Inr sd2" "ll_ok sd2"
        "ll_elems sd2 = take ?i (ll_elems sd) @ drop (?i + 1) (ll_elems sd)" by auto
      moreover have "ll_ok (?sd\<lparr>ll_elems := (ll_elems sd)[?i := x]\<rparr>)" for x
        using ok by (simp add: ll_ok_def)
      ultimately show ?thesis using True False less.prems(2) i ok g
        by (subst stride_scan.simps)
          (auto simp: linked_list_is_end_def Let_def stride_result_def intro!: exI [of _ ?i])
    next
      case tag: False
      from ll_next_inside [OF less.prems(1) i, of LINKED_LIST_ERR_OK] obtain sd1 where
        n: "linked_list_next ?sd = Inr sd1" "ll_ok sd1" "ll_elems sd1 = ll_elems sd" "ll_index sd1 = ?i + 1"
        by blast
      have "length (ll_elems sd1) - ll_index sd1 < length (ll_elems sd) - ?i"
        using n(3,4) i by simp
      moreover have "camp_tag (ll_elems sd1 ! j) \<noteq> tag" if "j < ll_index sd1" for j
        using that n(3,4) tag less.prems(2) by (auto simp: less_Suc_eq)
      ultimately obtain sd' r where "stride_scan bsize tag addr sd1 = Some (Inr (sd', r))" "ll_ok sd'"
        "case r of None \<Rightarrow> ll_elems sd' = ll_elems sd1 \<and> (\<forall>e \<in> set (ll_elems sd1). camp_tag e \<noteq> tag)
         | Some v \<Rightarrow> \<exists>i < length (ll_elems sd1). camp_tag (ll_elems sd1 ! i) = tag \<and>
           (\<forall>j < i. camp_tag (ll_elems sd1 ! j) \<noteq> tag) \<and>
           stride_result bsize addr (ll_elems sd1) i = (ll_elems sd', v)"
        using less.hyps [OF _ n(2)] by blast
      moreover have "stride_scan bsize tag addr sd = stride_scan bsize tag addr sd1"
        using False g n(1) tag by (subst stride_scan.simps) (simp add: linked_list_is_end_def)
      ultimately show ?thesis unfolding n(3) by (intro exI [of _ sd'] exI [of _ r]) simp
    qed
  qed
qed

text \<open>The table the detector leaves, as a function on the list of its entries.\<close>

definition stride_spec ::
  "u32 \<Rightarrow> u32 \<Rightarrow> u32 \<Rightarrow> stride_detector_camp_t list \<Rightarrow> stride_detector_camp_t list \<times> u32" where
  "stride_spec bsize tag addr es =
     (case find_index_from (\<lambda>e. camp_tag e = tag) 0 es of
        Some i \<Rightarrow> stride_result bsize addr es i
      | None \<Rightarrow> ((if length es \<ge> 128 then tl es else es) @
                 [\<lparr>camp_tag = tag, camp_last_addr = addr, camp_stride = 0\<rparr>], 0))"

lemma stride_result_length:
  "i < length es \<Longrightarrow> length (fst (stride_result bsize addr es i)) \<le> length es"
  by (simp add: stride_result_def Let_def)

lemma detect_stride_correct:
  assumes "ll_ok (stride_detector c)" "linked_list_count (stride_detector c) \<le> 128"
  defines "es \<equiv> ll_elems (stride_detector c)"
  shows "\<exists>sd v. cache_detect_stride c addr = Some (Inr (c\<lparr>stride_detector := sd\<rparr>, v)) \<and> ll_ok sd \<and>
    linked_list_count sd \<le> 128 \<and>
    stride_spec (block_size c) (addr AND NOT (stream_mask c)) addr es = (ll_elems sd, v)"
proof -
  let ?tag = "addr AND NOT (stream_mask c)" and ?h = "linked_list_head (stride_detector c)"
  have h: "ll_ok ?h" "ll_elems ?h = es" "ll_index ?h = 0"
    using ll_head_ok [OF assms(1)] by (simp_all add: es_def)
  from stride_scan_ok [OF h(1), of ?tag "block_size c" addr] h(3) obtain sd r where
    sc: "stride_scan (block_size c) ?tag addr ?h = Some (Inr (sd, r))" "ll_ok sd" and
    post: "case r of None \<Rightarrow> ll_elems sd = es \<and> (\<forall>e \<in> set es. camp_tag e \<noteq> ?tag)
       | Some v \<Rightarrow> \<exists>i < length es. camp_tag (es ! i) = ?tag \<and> (\<forall>j < i. camp_tag (es ! j) \<noteq> ?tag) \<and>
         stride_result (block_size c) addr es i = (ll_elems sd, v)"
    unfolding h(2) by auto
  have len: "length es \<le> 128" using assms(2) by (simp add: es_def linked_list_count_def)
  show ?thesis
  proof (cases r)
    case (Some v)
    with post obtain i where i: "i < length es" "stride_result (block_size c) addr es i = (ll_elems sd, v)"
        "camp_tag (es ! i) = ?tag" "\<forall>j < i. camp_tag (es ! j) \<noteq> ?tag"
      by auto
    from find_index_from_hit [of i es "\<lambda>e. camp_tag e = ?tag" 0] i(1,3,4)
    have "find_index_from (\<lambda>e. camp_tag e = ?tag) 0 es = Some i" by simp
    with i stride_result_length [OF i(1), of "block_size c" addr] len sc Some show ?thesis
      by (auto simp: cache_detect_stride_def Let_def stride_spec_def linked_list_count_def)
  next
    case None
    with post have e: "ll_elems sd = es" "find_index_from (\<lambda>e. camp_tag e = ?tag) 0 es = None"
      by (auto simp: find_index_from_None)
    let ?camp = "\<lparr>camp_tag = ?tag, camp_last_addr = addr, camp_stride = 0\<rparr>"
    have "\<exists>sd1. (if linked_list_count sd \<ge> 128 then linked_list_remove (linked_list_head sd) else Inr sd) = Inr sd1 \<and>
        ll_elems sd1 = (if length es \<ge> 128 then tl es else es)"
    proof (cases "length es \<ge> 128")
      case True
      have "ll_ok (linked_list_head sd)" "ll_index (linked_list_head sd) = 0" "ll_elems (linked_list_head sd) = es"
        using ll_head_ok [OF sc(2)] e(1) by auto
      moreover have "es \<noteq> []" using True by auto
      ultimately show ?thesis using ll_remove_ok [of "linked_list_head sd"] True e(1)
        by (auto simp: linked_list_count_def drop_Suc)
    next
      case False
      then show ?thesis using e(1) by (simp add: linked_list_count_def)
    qed
    then obtain sd1 where sd1:
      "(if linked_list_count sd \<ge> 128 then linked_list_remove (linked_list_head sd) else Inr sd) = Inr sd1"
      "ll_elems sd1 = (if length es \<ge> 128 then tl es else es)" by blast
    have "ll_ok (linked_list_add sd1 ?camp)" "ll_elems (linked_list_add sd1 ?camp) = ll_elems sd1 @ [?camp]"
      using ll_add_ok [of sd1 ?camp] by simp_all
    with sd1 sc None e len show ?thesis
      by (auto simp: cache_detect_stride_def Let_def stride_spec_def linked_list_count_def)
  qed
qed

section \<open>Operation sequences\<close>

datatype cache_op =
    Op_set_block int int u32 cache_block_state_t u32
  | Op_access_block int int
  | Op_replace_block nat int
  | Op_set_transient_tag nat nat u32
  | Op_set_pref_block int int u32 cache_block_state_t
  | Op_access_stream int
  | Op_select_stream
  | Op_detect_stride u32

fun cache_run :: "cache_op \<Rightarrow> cache_t \<Rightarrow> cache_t res option" where
  "cache_run (Op_set_block si way tag st p) c = Some (cache_set_block c si way tag st p)"
| "cache_run (Op_access_block si way) c = Some (cache_access_block c si way)"
| "cache_run (Op_replace_block rnd si) c = Some (res_bind (cache_replace_block rnd c si) (\<lambda>(c, _). Inr c))"
| "cache_run (Op_set_transient_tag si way tag) c = Some (Inr (cache_set_transient_tag c si way tag))"
| "cache_run (Op_set_pref_block ps sl tag st) c = Some (cache_set_pref_block c ps sl tag st)"
| "cache_run (Op_access_stream s) c = cache_access_stream c s"
| "cache_run Op_select_stream c = map_option (\<lambda>r. res_bind r (\<lambda>(c, _). Inr c)) (cache_select_stream c)"
| "cache_run (Op_detect_stride addr) c = map_option (\<lambda>r. res_bind r (\<lambda>(c, _). Inr c)) (cache_detect_stride c addr)"

fun op_in_range :: "cache_op \<Rightarrow> cache_t \<Rightarrow> bool" where
  "op_in_range (Op_set_block si way tag st p) c = in_set c si way"
| "op_in_range (Op_access_block si way) c = in_set c si way"
| "op_in_range (Op_replace_block rnd si) c = (0 \<le> si \<and> si < uint (num_sets c))"
| "op_in_range (Op_set_transient_tag si way tag) c = (si < unat (num_sets c) \<and> way < unat (assoc c))"
| "op_in_range (Op_set_pref_block ps sl tag st) c = in_stream c ps sl"
| "op_in_range (Op_access_stream s) c = (0 \<le> s \<and> s < int (num_streams c))"
| "op_in_range Op_select_stream c = (num_streams c > 0)"
| "op_in_range (Op_detect_stride addr) c = True"

lemma detect_stride_ok:
  assumes "cache_ok c"
  shows "\<exists>c' v. cache_detect_stride c addr = Some (Inr (c', v)) \<and> cache_ok c'"
proof -
  have "ll_ok (stride_detector c)" "linked_list_count (stride_detector c) \<le> 128"
    using assms by (simp_all add: cache_ok_def)
  from detect_stride_correct [OF this, of addr] obtain sd v where
    d: "cache_detect_stride c addr = Some (Inr (c\<lparr>stride_detector := sd\<rparr>, v))" "ll_ok sd"
      "linked_list_count sd \<le> 128" by blast
  have "stream_rep (c\<lparr>stride_detector := sd\<rparr>) = stream_rep c"
    by (simp add: fun_eq_iff stream_rep_def sprev_def [abs_def] snext_def [abs_def])
  with d assms show ?thesis by (simp add: cache_ok_def)
qed

lemma log_base2_example: "log_base2 64 = Inr 6"
  by (simp add: log_base2_def log_base2_loop.simps)

lemma cache_create_ok:
  assumes "cache_create ns bs ways n aggr pol = Inr c" "0 < ns" "0 < ways" "pol \<noteq> cache_policy_invalid"
  shows "cache_ok c"
proof -
  have f: "num_sets c = ns" "assoc c = ways" "cache_policy c = pol" "num_streams c = n"
    "cache_sets c = map (\<lambda>_. create_set (unat ways)) [0..<unat ns]" "length (streams c) = n"
    "stride_detector c = linked_list_create"
    using assms(1) by (auto simp: cache_create_def split: if_splits)
  have "0 < unat ways" using assms(3) by (simp add: unat_gt_0 word_gt_0)
  from set_rep_create [OF this] have "set_ok (unat ways) (create_set (unat ways))"
    by (auto simp: set_ok_def create_set_def)
  moreover have "ll_ok (stride_detector c)" "linked_list_count (stride_detector c) = 0"
    using f(7) ll_create_ok by (simp_all add: linked_list_count_def linked_list_create_def)
  ultimately show ?thesis using assms(2-4) f stream_rep_create [OF assms(1)]
    by (auto simp: cache_ok_def)
qed

text \<open>C12: every operation on a well-formed cache with arguments in range returns, fails no
  assertion, follows no broken link, and leaves a well-formed cache: in every set each way
  is on the replacement list once, the stream list likewise, and the stride table keeps at
  most 128 entries.\<close>

theorem cache_run_ok:
  assumes "cache_ok c" "op_in_range op c"
  shows "\<exists>c'. cache_run op c = Some (Inr c') \<and> cache_ok c'"
proof (cases op)
  case (Op_replace_block rnd si)
  with replace_block_ok [OF assms(1), of si rnd] assms(2) show ?thesis by auto
next
  case (Op_access_stream s)
  with assms(2) access_stream_ok [OF assms(1), of "nat s"] show ?thesis by auto
next
  case Op_select_stream
  with assms(2) select_stream_ok [OF assms(1)] show ?thesis by auto
next
  case (Op_detect_stride addr)
  with detect_stride_ok [OF assms(1), of addr] show ?thesis by auto
next
  case (Op_set_transient_tag si way tag)
  with assms transient_ok [OF assms(1)] show ?thesis by (simp add: cache_ok_def)
qed (use assms set_block_ok access_block_ok set_pref_block_ok in auto)

definition cache_example :: cache_t where
  "cache_example = (case cache_create 4 64 2 2 4 cache_policy_lru of Inr c \<Rightarrow> c)"

lemma cache_example_create: "cache_create 4 64 2 2 4 cache_policy_lru = Inr cache_example"
  using log_base2_example by (simp add: cache_example_def cache_create_def)

lemma cache_example_ok: "cache_ok cache_example"
  by (rule cache_create_ok [OF cache_example_create]) simp_all

lemma cache_example_fields: "num_sets cache_example = 4" "assoc cache_example = 2"
  "cache_policy cache_example = cache_policy_lru" "num_streams cache_example = 2"
  "block_size cache_example = 64" "stream_mask cache_example = 0x1FFF" "block_mask cache_example = 63"
  "log_block_size cache_example = 6" "ll_elems (stride_detector cache_example) = []"
  "cache_sets cache_example = map (\<lambda>_. create_set 2) [0..<4]"
  using log_base2_example by (simp_all add: cache_example_def cache_create_def linked_list_create_def)

lemma cache_run_ok_witness:
  "\<exists>c'. cache_run (Op_replace_block 0 3) cache_example = Some (Inr c') \<and> cache_ok c'"
  by (rule cache_run_ok) (simp_all add: cache_example_ok cache_example_fields)

section \<open>Replacement\<close>

definition access_ways :: "cache_t \<Rightarrow> int \<Rightarrow> nat list \<Rightarrow> cache_t res" where
  "access_ways c si ws = fold (\<lambda>w r. res_bind r (\<lambda>c. cache_access_block c si (int w))) ws (Inr c)"

lemma access_lru:
  assumes "set_rep (cache_sets c ! nat si) xs" "w \<in> set xs" "in_set c si (int w)"
    "cache_policy c = cache_policy_lru"
  shows "cache_access_block c si (int w) =
    res_bind (cache_update_waylist (cache_sets c ! nat si) w cache_waylist_head) (\<lambda>s. Inr (update_set c (nat si) s))"
proof (cases "way_prev (blocks (cache_sets c ! nat si) ! w)")
  case None
  from assms(2) obtain as bs where xs: "xs = as @ w # bs" by (metis split_list)
  with assms(1) have "dlseg (wprev (cache_sets c ! nat si)) (wnext (cache_sets c ! nat si)) None (as @ w # bs) None"
    by (simp add: set_rep_eq)
  from dlseg_links(1) [OF this] None have "as = []"
    by (auto simp: wprev_def last_of_def split: if_splits)
  with update_waylist_cases [of "cache_sets c ! nat si" as w bs cache_waylist_head] assms xs None show ?thesis
    by (simp add: cache_access_block_def Let_def update_set_def)
next
  case (Some p)
  with assms show ?thesis by (simp add: cache_access_block_def Let_def)
qed

lemma access_ways_touches:
  "set_rep (cache_sets c ! nat si) xs \<Longrightarrow> nat si < length (cache_sets c) \<Longrightarrow> set ws \<subseteq> set xs \<Longrightarrow>
   (\<And>w. w \<in> set xs \<Longrightarrow> in_set c si (int w)) \<Longrightarrow> cache_policy c = cache_policy_lru \<Longrightarrow>
   \<exists>s'. way_lru.touches ws (Inr (cache_sets c ! nat si)) = Inr s' \<and>
        access_ways c si ws = Inr (update_set c (nat si) s')"
proof (induction ws arbitrary: c xs)
  case Nil
  then show ?case by (simp add: way_lru.touches_def access_ways_def update_set_def)
next
  case (Cons w ws)
  let ?s = "cache_sets c ! nat si"
  from Cons.prems(3) have w: "w \<in> set xs" by simp
  from way_lru.touch_rep [OF Cons.prems(1) w] obtain s1 where
    s1: "cache_update_waylist ?s w cache_waylist_head = Inr s1" "set_rep s1 (touch_list w xs)" by blast
  from access_lru [OF Cons.prems(1) w Cons.prems(4) [OF w] Cons.prems(5)] s1(1)
  have a: "cache_access_block c si (int w) = Inr (update_set c (nat si) s1)" by simp
  let ?c = "update_set c (nat si) s1"
  have s: "cache_sets ?c ! nat si = s1" using Cons.prems(2) by (simp add: update_set_def)
  have "\<exists>s'. way_lru.touches ws (Inr (cache_sets ?c ! nat si)) = Inr s' \<and>
      access_ways ?c si ws = Inr (update_set ?c (nat si) s')"
  proof (rule Cons.IH)
    show "set_rep (cache_sets ?c ! nat si) (touch_list w xs)" using s s1(2) by simp
    show "set ws \<subseteq> set (touch_list w xs)" using Cons.prems(3) by simp
    show "in_set ?c si (int v)" if "v \<in> set (touch_list w xs)" for v
      using Cons.prems(4) [of v] that w by (simp add: in_set_def update_set_def)
  qed (use Cons.prems in \<open>simp_all add: update_set_def\<close>)
  then obtain s' where "way_lru.touches ws (Inr s1) = Inr s'"
    "access_ways ?c si ws = Inr (update_set ?c (nat si) s')" unfolding s by blast
  then show ?case using a s1(1)
    by (auto simp: way_lru.touches_def access_ways_def update_set_def)
qed

text \<open>C33: under LRU the block chosen for replacement is never one of the blocks accessed
  before, while another block of the set is left: whatever sequence of accesses to ways of a
  set leaves some way untouched, the victim is one of the untouched ways.\<close>

theorem lru_victim_untouched:
  assumes "cache_ok c" "cache_policy c = cache_policy_lru" "0 \<le> si" "si < uint (num_sets c)"
    and "set ws \<subset> {..<unat (assoc c)}"
  shows "\<exists>c' c'' w. access_ways c si ws = Inr c' \<and> cache_replace_block rnd c' si = Inr (c'', w) \<and>
    w \<notin> set ws \<and> w < unat (assoc c)"
proof -
  have ws: "in_set c si (int w)" if "w < unat (assoc c)" for w
    using assms(3,4) that by (simp add: in_set_def flip: of_nat_less_iff [where 'a = int])
  have "0 < unat (assoc c)" using assms(1) by (simp add: cache_ok_def unat_gt_0 word_gt_0)
  note d = in_setD [OF assms(1) ws [OF this]]
  let ?s = "cache_sets c ! nat si"
  from d(3) obtain xs where xs: "set_rep ?s xs" "length (blocks ?s) = unat (assoc c)"
    by (auto simp: set_ok_def)
  then have sx: "set xs = {..<unat (assoc c)}" by (simp add: set_rep_def)
  have "set ws \<subseteq> set xs" "set ws \<subset> set xs" using assms(5) sx by auto
  from access_ways_touches [OF xs(1) d(1) this(1) _ assms(2)] ws sx obtain s' where
    s': "way_lru.touches ws (Inr ?s) = Inr s'" "access_ways c si ws = Inr (update_set c (nat si) s')"
    by auto
  from way_lru.victim_least_recent(2) [OF xs(1) \<open>set ws \<subset> set xs\<close> s'(1)]
  have v: "way_tail s' \<notin> set ws" .
  from way_lru.touches_rep [OF xs(1) \<open>set ws \<subseteq> set xs\<close>] s'(1) have
    r: "set_rep s' (fold touch_list ws xs)" by simp
  have "set (fold touch_list us xs) = set xs" if "set us \<subseteq> set xs" for us
    using that by (induction us rule: rev_induct) auto
  then have "set (fold touch_list ws xs) = {..<unat (assoc c)}" using \<open>set ws \<subseteq> set xs\<close> sx by simp
  moreover have "way_tail s' = last (fold touch_list ws xs)" "fold touch_list ws xs \<noteq> []"
    using r by (auto simp: set_rep_def)
  ultimately have t: "way_tail s' \<in> set (fold touch_list ws xs)" "way_tail s' < unat (assoc c)"
    by (metis last_in_set, metis last_in_set lessThan_iff)
  then have "blk_way (blocks s' ! way_tail s') = way_tail s'"
    using r by (auto simp: set_rep_def)
  moreover obtain s2 where "cache_update_waylist s' (way_tail s') cache_waylist_head = Inr s2"
    using way_lru.touch_rep [OF r t(1)] by blast
  moreover have "cache_sets (update_set c (nat si) s') ! nat si = s'"
    using d(1) by (simp add: update_set_def)
  ultimately have "\<exists>c''. cache_replace_block rnd (update_set c (nat si) s') si = Inr (c'', way_tail s')"
    using assms(2-4) by (simp add: cache_replace_block_def Let_def update_set_def)
  with s'(2) v t(2) show ?thesis by blast
qed

lemma lru_victim_untouched_witness:
  "\<exists>c' c'' w. access_ways cache_example 1 [1, 1] = Inr c' \<and> cache_replace_block 0 c' 1 = Inr (c'', w) \<and>
     w \<notin> set [1, 1] \<and> w < unat (assoc cache_example)"
proof -
  have "set [1, 1] \<subset> {..<2 :: nat}" by (auto simp: numeral_2_eq_2 lessThan_Suc)
  then show ?thesis
    by (intro lru_victim_untouched) (simp_all only: cache_example_ok cache_example_fields, simp_all)
qed

section \<open>Lookup after insertion\<close>

text \<open>No two valid blocks of a set have the same tag.\<close>

definition block_hit :: "u32 \<Rightarrow> cache_block_t \<Rightarrow> bool" where
  "block_hit tag b \<longleftrightarrow> blk_tag b = tag \<and> blk_state b \<noteq> cache_block_invalid"

definition tags_unique :: "cache_set_t \<Rightarrow> bool" where
  "tags_unique s \<longleftrightarrow> (\<forall>tag. \<forall>i < length (blocks s). \<forall>j < length (blocks s).
     block_hit tag (blocks s ! i) \<longrightarrow> block_hit tag (blocks s ! j) \<longrightarrow> i = j)"

definition addr_set :: "cache_t \<Rightarrow> u32 \<Rightarrow> nat" where "addr_set c a = fst (cache_decode_address c a)"
definition addr_tag :: "cache_t \<Rightarrow> u32 \<Rightarrow> u32" where "addr_tag c a = fst (snd (cache_decode_address c a))"

lemma find_block_hit:
  assumes "tags_unique (cache_sets c ! addr_set c a)" "w < length (blocks (cache_sets c ! addr_set c a))"
    "block_hit (addr_tag c a) (blocks (cache_sets c ! addr_set c a) ! w)"
  shows "cache_find_block c a = (addr_set c a, Some (w, blk_state (blocks (cache_sets c ! addr_set c a) ! w)))"
proof -
  let ?bs = "blocks (cache_sets c ! addr_set c a)"
  have "\<not> block_hit (addr_tag c a) (?bs ! l)" if "l < w" for l
    using that assms unfolding tags_unique_def by (metis less_trans less_irrefl)
  from find_index_from_hit [of w ?bs "block_hit (addr_tag c a)" 0, OF assms(2,3) this]
  have "find_index_from (block_hit (addr_tag c a)) 0 ?bs = Some w" by simp
  then show ?thesis
    by (simp add: cache_find_block_def addr_set_def addr_tag_def cache_decode_address_def Let_def
        block_hit_def [abs_def])
qed

lemma payloads_nth:
  assumes "payloads s' = payloads s" "i < length (blocks s)"
  shows "blk_tag (blocks s' ! i) = blk_tag (blocks s ! i)" "blk_state (blocks s' ! i) = blk_state (blocks s ! i)"
proof -
  have "payload (blocks s' ! i) = payload (blocks s ! i)"
    using assms payloads_length [OF assms(1)] unfolding payloads_def by (metis nth_map)
  then show "blk_tag (blocks s' ! i) = blk_tag (blocks s ! i)" "blk_state (blocks s' ! i) = blk_state (blocks s ! i)"
    by (simp_all add: payload_def)
qed

text \<open>After a block is set with a valid state, the lookup of any address of that block
  finds exactly this way and state; provided tags are unique in the set and no other way
  held the new tag, they stay unique.\<close>

theorem set_then_find:
  assumes "cache_ok c" "in_set c si way" "addr_set c a = nat si" "st \<noteq> cache_block_invalid"
    and "tags_unique (cache_sets c ! nat si)"
    and "\<And>i. i < unat (assoc c) \<Longrightarrow> i \<noteq> nat way \<Longrightarrow> \<not> block_hit (addr_tag c a) (blocks (cache_sets c ! nat si) ! i)"
  shows "\<exists>c'. cache_set_block c si way (addr_tag c a) st p = Inr c' \<and>
    cache_find_block c' a = (nat si, Some (nat way, st)) \<and> tags_unique (cache_sets c' ! nat si)"
proof -
  note d = in_setD [OF assms(1,2)]
  let ?s = "cache_sets c ! nat si" and ?tag = "addr_tag c a"
  let ?r = "if cache_policy c = cache_policy_fifo \<and> blk_tag (blocks ?s ! nat way) \<noteq> ?tag
      then cache_update_waylist ?s (nat way) cache_waylist_head else Inr ?s"
  have "\<exists>s'. ?r = Inr s' \<and> payloads s' = payloads ?s"
    using set_ok_head [OF d(3,2)] by auto
  then obtain s' where s': "?r = Inr s'" "payloads s' = payloads ?s" by blast
  let ?b = "(blocks s' ! nat way)\<lparr>blk_tag := ?tag, blk_state := st, blk_prefetched := p\<rparr>"
  let ?t = "s'\<lparr>blocks := (blocks s')[nat way := ?b]\<rparr>"
  let ?c = "update_set c (nat si) ?t"
  have n: "length (blocks ?s) = unat (assoc c)" "length (blocks s') = unat (assoc c)"
    using d(3) payloads_length [OF s'(2)] by (auto simp: set_ok_def)
  have run: "cache_set_block c si way ?tag st p = Inr ?c"
    using assms(2) s'(1) by (simp add: cache_set_block_def Let_def)
  have hit: "block_hit t (blocks ?t ! i) \<longleftrightarrow>
      (if i = nat way then t = ?tag else block_hit t (blocks ?s ! i))" if "i < unat (assoc c)" for t i
    using that n d(2) payloads_nth [OF s'(2)] assms(4) by (auto simp: block_hit_def nth_list_update)
  have st: "cache_sets ?c ! nat si = ?t" using d(1) by (simp add: update_set_def)
  have dec: "addr_set ?c a = addr_set c a" "addr_tag ?c a = addr_tag c a"
    by (simp_all add: addr_set_def addr_tag_def cache_decode_address_def update_set_def)
  have uq: "tags_unique ?t"
    unfolding tags_unique_def
  proof (intro allI impI)
    fix t i j assume i: "i < length (blocks ?t)" and j: "j < length (blocks ?t)"
      and h: "block_hit t (blocks ?t ! i)" "block_hit t (blocks ?t ! j)"
    from i j n have ij: "i < unat (assoc c)" "j < unat (assoc c)" by simp_all
    from h hit [OF ij(1), of t] hit [OF ij(2), of t] assms(5,6) ij n(1) show "i = j"
      unfolding tags_unique_def by (cases "i = nat way"; cases "j = nat way") auto
  qed
  have "block_hit ?tag (blocks ?t ! nat way)" using hit [OF d(2)] by simp
  moreover have "blk_state (blocks ?t ! nat way) = st" "nat way < length (blocks ?t)"
    using n(2) d(2) by simp_all
  ultimately have "cache_find_block ?c a = (addr_set ?c a, Some (nat way, st))"
    using find_block_hit [of ?c a "nat way"] uq unfolding dec assms(3) st by simp
  with run uq st dec assms(3) show ?thesis by (intro exI [of _ ?c]) simp
qed

lemma set_then_find_witness:
  "\<exists>c'. cache_set_block cache_example 1 1 (addr_tag cache_example 0x1044) cache_block_shared 0 = Inr c' \<and>
     cache_find_block c' 0x1044 = (nat 1, Some (nat 1, cache_block_shared)) \<and>
     tags_unique (cache_sets c' ! nat 1)"
proof (rule set_then_find)
  have s: "cache_sets cache_example ! Suc 0 = create_set 2" by (simp add: cache_example_fields)
  have i: "blk_state (blocks (create_set 2) ! i) = cache_block_invalid" if "i < 2" for i
    using that by (simp add: create_set_def create_block_def)
  have l: "length (blocks (create_set 2)) = 2" by (simp add: create_set_def)
  show "tags_unique (cache_sets cache_example ! nat 1)"
    using i l by (auto simp: tags_unique_def block_hit_def s)
  show "\<not> block_hit (addr_tag cache_example 0x1044) (blocks (cache_sets cache_example ! nat 1) ! i)"
    if "i < unat (assoc cache_example)" for i
    using that i by (simp add: block_hit_def s cache_example_fields)
  show "addr_set cache_example 0x1044 = nat 1"
    by (simp add: addr_set_def cache_decode_address_def cache_example_fields)
qed (simp_all add: cache_example_ok in_set_def cache_example_fields)

section \<open>Three strided accesses\<close>

text \<open>An access stream that the detector has not seen is recognised at its third access:
  for any stride other than 0 of at least a block, if the three addresses are in the same
  8KB stream region, the first two calls return 0 and the third returns the stride, and the
  entry is gone from the table.\<close>

theorem detect_stride_third:
  assumes "cache_ok c" "s \<noteq> 0" "block_size c \<le> abs_word s"
    and "a AND NOT (stream_mask c) = tag" "(a + s) AND NOT (stream_mask c) = tag"
      "(a + s + s) AND NOT (stream_mask c) = tag"
    and "\<And>e. e \<in> set (ll_elems (stride_detector c)) \<Longrightarrow> camp_tag e \<noteq> tag"
  shows "\<exists>c1 c2 c3. cache_detect_stride c a = Some (Inr (c1, 0)) \<and>
    cache_detect_stride c1 (a + s) = Some (Inr (c2, 0)) \<and>
    cache_detect_stride c2 (a + s + s) = Some (Inr (c3, s)) \<and>
    (\<forall>e \<in> set (ll_elems (stride_detector c3)). camp_tag e \<noteq> tag)"
proof -
  let ?P = "\<lambda>e. camp_tag e = tag"
  define es where "es = (if length (ll_elems (stride_detector c)) \<ge> 128
      then tl (ll_elems (stride_detector c)) else ll_elems (stride_detector c))"
  have es: "\<And>e. e \<in> set es \<Longrightarrow> \<not> ?P e"
    using assms(7) by (auto simp: es_def dest: list.set_sel(2) [rotated] split: if_splits)
      (metis list.sel(2) list.set_sel(2))
  have none: "find_index_from ?P 0 (ll_elems (stride_detector c)) = None"
    using assms(7) by (simp add: find_index_from_None)
  have hit: "find_index_from ?P 0 (es @ [e]) = Some (length es)" if "?P e" for e
    using find_index_from_append [of es ?P e 0 "[]"] es that by simp
  have ok: "ll_ok (stride_detector c)" "linked_list_count (stride_detector c) \<le> 128"
    using assms(1) by (simp_all add: cache_ok_def)
  from detect_stride_correct [OF ok, of a] none obtain sd1 where
    c1: "cache_detect_stride c a = Some (Inr (c\<lparr>stride_detector := sd1\<rparr>, 0))" "ll_ok sd1"
      "linked_list_count sd1 \<le> 128"
      "ll_elems sd1 = es @ [\<lparr>camp_tag = tag, camp_last_addr = a, camp_stride = 0\<rparr>]"
    by (auto simp: assms(4) stride_spec_def es_def)
  let ?c1 = "c\<lparr>stride_detector := sd1\<rparr>"
  from c1(2,3) detect_stride_correct [of ?c1 "a + s"] obtain sd2 v where
    d2: "cache_detect_stride ?c1 (a + s) = Some (Inr (c\<lparr>stride_detector := sd2\<rparr>, v))" "ll_ok sd2"
      "linked_list_count sd2 \<le> 128" "stride_spec (block_size c) tag (a + s) (ll_elems sd1) = (ll_elems sd2, v)"
    by (auto simp: assms(5))
  have s2: "stride_spec (block_size c) tag (a + s) (ll_elems sd1) =
      (es @ [\<lparr>camp_tag = tag, camp_last_addr = a + s, camp_stride = s\<rparr>], 0)"
    using assms(2,3) by (simp add: c1(4) stride_spec_def hit stride_result_def)
  then have c2: "ll_elems sd2 = es @ [\<lparr>camp_tag = tag, camp_last_addr = a + s, camp_stride = s\<rparr>]" "v = 0"
    using d2(4) by simp_all
  let ?c2 = "c\<lparr>stride_detector := sd2\<rparr>"
  define a3 where "a3 = a + s + s"
  have t3: "a3 AND NOT (stream_mask c) = tag" "a3 - (a + s) = s" using assms(6) by (simp_all add: a3_def)
  from d2(2,3) detect_stride_correct [of ?c2 a3] obtain sd3 w where
    d3: "cache_detect_stride ?c2 a3 = Some (Inr (c\<lparr>stride_detector := sd3\<rparr>, w))"
      "stride_spec (block_size c) tag a3 (ll_elems sd2) = (ll_elems sd3, w)"
    by (auto simp: t3)
  have "stride_spec (block_size c) tag a3 (ll_elems sd2) = (es, s)"
    by (simp add: c2(1) stride_spec_def hit stride_result_def t3)
  with d3(2) have "ll_elems sd3 = es" "w = s" by simp_all
  with c1(1) d2(1) c2(2) d3(1) es show ?thesis unfolding a3_def [symmetric] by auto
qed

lemma detect_stride_third_witness:
  "\<exists>c1 c2 c3. cache_detect_stride cache_example 0x4000 = Some (Inr (c1, 0)) \<and>
    cache_detect_stride c1 (0x4000 + 0x100) = Some (Inr (c2, 0)) \<and>
    cache_detect_stride c2 (0x4000 + 0x100 + 0x100) = Some (Inr (c3, 0x100)) \<and>
    (\<forall>e \<in> set (ll_elems (stride_detector c3)). camp_tag e \<noteq> 0x4000)"
  by (rule detect_stride_third)
    (simp_all add: cache_example_ok cache_example_fields abs_word_def)

text \<open>An access that repeats the address of a fresh entry is taken for a detected stride:
  the entry is dropped, although the value returned (0) is that of no stride.\<close>

theorem detect_stride_repeat:
  assumes "cache_ok c" "\<And>e. e \<in> set (ll_elems (stride_detector c)) \<Longrightarrow> camp_tag e \<noteq> a AND NOT (stream_mask c)"
    and "length (ll_elems (stride_detector c)) < 128"
  shows "\<exists>c1 c2. cache_detect_stride c a = Some (Inr (c1, 0)) \<and>
    cache_detect_stride c1 a = Some (Inr (c2, 0)) \<and>
    ll_elems (stride_detector c2) = ll_elems (stride_detector c)"
proof -
  let ?tag = "a AND NOT (stream_mask c)" and ?es = "ll_elems (stride_detector c)"
  let ?P = "\<lambda>e. camp_tag e = ?tag"
  have none: "find_index_from ?P 0 ?es = None" using assms(2) by (simp add: find_index_from_None)
  have hit: "find_index_from ?P 0 (?es @ [e]) = Some (length ?es)" if "?P e" for e
    using find_index_from_append [of ?es ?P e 0 "[]"] assms(2) that by simp
  have ok: "ll_ok (stride_detector c)" "linked_list_count (stride_detector c) \<le> 128"
    using assms(1) by (simp_all add: cache_ok_def)
  from detect_stride_correct [OF ok, of a] none assms(3) obtain sd1 where
    c1: "cache_detect_stride c a = Some (Inr (c\<lparr>stride_detector := sd1\<rparr>, 0))" "ll_ok sd1"
      "linked_list_count sd1 \<le> 128"
      "ll_elems sd1 = ?es @ [\<lparr>camp_tag = ?tag, camp_last_addr = a, camp_stride = 0\<rparr>]"
    by (auto simp: stride_spec_def)
  let ?c1 = "c\<lparr>stride_detector := sd1\<rparr>"
  have s: "stride_spec (block_size c) ?tag a (ll_elems sd1) = (?es, 0)"
    by (simp add: c1(4) stride_spec_def hit stride_result_def)
  from c1(2,3) detect_stride_correct [of ?c1 a] obtain sd2 v where
    "cache_detect_stride ?c1 a = Some (Inr (c\<lparr>stride_detector := sd2\<rparr>, v))"
    "stride_spec (block_size c) ?tag a (ll_elems sd1) = (ll_elems sd2, v)" by auto
  with s c1(1) show ?thesis by auto
qed

lemma detect_stride_repeat_witness:
  "\<exists>c1 c2. cache_detect_stride cache_example 0x4000 = Some (Inr (c1, 0)) \<and>
    cache_detect_stride c1 0x4000 = Some (Inr (c2, 0)) \<and>
    ll_elems (stride_detector c2) = ll_elems (stride_detector cache_example)"
  by (rule detect_stride_repeat) (simp_all add: cache_example_ok cache_example_fields)

end
