(* ===== verification/Directory.thy ===== *)
theory Directory
  imports Prelude
begin

text \<open>
  Cache directory (\<open>src/mem-system/directory.c\<close>): owner and sharer bitmap of every
  sub-block, and the locks that serialise the accesses to a block. The entries lie in one
  array behind the structure, sub-blocks of cache blocks first and of prefetched blocks after
  them; the array is a list here, and \<open>DIR_ENTRY\<close> the index arithmetic the code has. A lock
  queue, chained through the waiting stacks, is the list of waiters.
\<close>

section \<open>State\<close>

abbreviation DIR_ENTRY_OWNER_NONE :: int where "DIR_ENTRY_OWNER_NONE \<equiv> - 1"

record dir_entry_t =
  owner :: int
  num_sharers :: int
  sharer :: "u8 list"

text \<open>What the locks use of a \<open>mod_stack_t\<close>, with the way of its return stack.\<close>

record dir_waiter =
  st_id :: int
  dir_lock_event :: int
  st_way :: int
  ret_way :: int

record dir_lock_t =
  lock :: bool
  lock_stack_id :: int
  lock_queue :: "dir_waiter list"

record dir_t =
  num_nodes :: int
  xsize :: int
  ysize :: int
  zsize :: int
  ssize :: int
  asize :: int
  dir_lock :: "dir_lock_t list"
  pref_dir_lock :: "dir_lock_t list"
  dir_data :: "dir_entry_t list"

definition in_range :: "int \<Rightarrow> int \<Rightarrow> bool" where
  "in_range x n \<longleftrightarrow> 0 \<le> x \<and> x \<le> n - 1"

definition empty_entry :: "int \<Rightarrow> dir_entry_t" where
  "empty_entry nodes = \<lparr>owner = DIR_ENTRY_OWNER_NONE, num_sharers = 0,
     sharer = replicate (nat ((nodes + 7) div 8)) 0\<rparr>"

definition free_lock :: dir_lock_t where
  "free_lock = \<lparr>lock = False, lock_stack_id = 0, lock_queue = []\<rparr>"

definition dir_create :: "int \<Rightarrow> int \<Rightarrow> int \<Rightarrow> int \<Rightarrow> int \<Rightarrow> int \<Rightarrow> dir_t res" where
  "dir_create xs ys zs streams aggr nodes =
     (if \<not> nodes > 0 then Inl Assert_failed
      else Inr \<lparr>num_nodes = nodes, xsize = xs, ysize = ys, zsize = zs, ssize = streams, asize = aggr,
                dir_lock = replicate (nat (xs * ys)) free_lock,
                pref_dir_lock = replicate (nat (streams * aggr)) free_lock,
                dir_data = replicate (nat (xs * ys * zs) + nat (streams * aggr * zs)) (empty_entry nodes)\<rparr>)"

section \<open>Entries\<close>

definition DIR_ENTRY :: "dir_t \<Rightarrow> int \<Rightarrow> int \<Rightarrow> int \<Rightarrow> nat" where
  "DIR_ENTRY dir x y z = nat (x * ysize dir * zsize dir + y * zsize dir + z)"

definition dir_entry_get :: "dir_t \<Rightarrow> int \<Rightarrow> int \<Rightarrow> int \<Rightarrow> nat res" where
  "dir_entry_get dir x y z =
     (if in_range x (xsize dir) \<and> in_range y (ysize dir) \<and> in_range z (zsize dir)
      then Inr (DIR_ENTRY dir x y z) else Inl Assert_failed)"

definition dir_pref_entry_get :: "dir_t \<Rightarrow> int \<Rightarrow> int \<Rightarrow> int \<Rightarrow> nat res" where
  "dir_pref_entry_get dir pref_stream pref_slot z =
     (if in_range pref_stream (ssize dir) \<and> in_range pref_slot (asize dir)
      then Inr (nat (xsize dir * ysize dir * zsize dir + ssize dir * asize dir * z +
                     asize dir * pref_stream + pref_slot))
      else Inl Assert_failed)"

definition update_entry :: "dir_t \<Rightarrow> nat \<Rightarrow> dir_entry_t \<Rightarrow> dir_t" where
  "update_entry dir i e = dir\<lparr>dir_data := (dir_data dir)[i := e]\<rparr>"

definition dir_entry_set_owner :: "dir_t \<Rightarrow> int \<Rightarrow> int \<Rightarrow> int \<Rightarrow> int \<Rightarrow> dir_t res" where
  "dir_entry_set_owner dir x y z node =
     (if \<not> (node = DIR_ENTRY_OWNER_NONE \<or> in_range node (num_nodes dir)) then Inl Assert_failed
      else res_bind (dir_entry_get dir x y z) (\<lambda>i.
        Inr (update_entry dir i ((dir_data dir ! i)\<lparr>owner := node\<rparr>))))"

definition node_bit :: "int \<Rightarrow> u8" where "node_bit node = push_bit (nat (node mod 8)) 1"
definition node_byte :: "int \<Rightarrow> nat" where "node_byte node = nat (node div 8)"

definition sharer_bit :: "dir_entry_t \<Rightarrow> int \<Rightarrow> bool" where
  "sharer_bit e node \<longleftrightarrow> sharer e ! node_byte node AND node_bit node \<noteq> 0"

definition dir_entry_set_sharer :: "dir_t \<Rightarrow> int \<Rightarrow> int \<Rightarrow> int \<Rightarrow> int \<Rightarrow> dir_t res" where
  "dir_entry_set_sharer dir x y z node =
     (if \<not> in_range node (num_nodes dir) then Inl Assert_failed
      else res_bind (dir_entry_get dir x y z) (\<lambda>i.
        let e = dir_data dir ! i in
        if sharer_bit e node then Inr dir
        else
          let e = e\<lparr>sharer := (sharer e)[node_byte node := sharer e ! node_byte node OR node_bit node],
                    num_sharers := num_sharers e + 1\<rparr>
          in if num_sharers e \<le> num_nodes dir then Inr (update_entry dir i e) else Inl Assert_failed))"

definition dir_entry_clear_sharer :: "dir_t \<Rightarrow> int \<Rightarrow> int \<Rightarrow> int \<Rightarrow> int \<Rightarrow> dir_t res" where
  "dir_entry_clear_sharer dir x y z node =
     res_bind (dir_entry_get dir x y z) (\<lambda>i.
       if \<not> in_range node (num_nodes dir) then Inl Assert_failed
       else
        let e = dir_data dir ! i in
        if \<not> sharer_bit e node then Inr dir
        else if \<not> num_sharers e > 0 then Inl Assert_failed
        else Inr (update_entry dir i
          (e\<lparr>sharer := (sharer e)[node_byte node := sharer e ! node_byte node AND NOT (node_bit node)],
             num_sharers := num_sharers e - 1\<rparr>)))"

definition dir_entry_clear_all_sharers :: "dir_t \<Rightarrow> int \<Rightarrow> int \<Rightarrow> int \<Rightarrow> dir_t res" where
  "dir_entry_clear_all_sharers dir x y z =
     res_bind (dir_entry_get dir x y z) (\<lambda>i.
       let e = dir_data dir ! i in
       Inr (update_entry dir i (e\<lparr>num_sharers := 0,
              sharer := fold (\<lambda>k bs. bs[k := 0]) [0..<nat ((num_nodes dir + 7) div 8)] (sharer e)\<rparr>)))"

definition dir_entry_is_sharer :: "dir_t \<Rightarrow> int \<Rightarrow> int \<Rightarrow> int \<Rightarrow> int \<Rightarrow> bool res" where
  "dir_entry_is_sharer dir x y z node =
     (if \<not> in_range node (num_nodes dir) then Inl Assert_failed
      else res_bind (dir_entry_get dir x y z) (\<lambda>i. Inr (sharer_bit (dir_data dir ! i) node)))"

definition dir_entry_group_shared_or_owned :: "dir_t \<Rightarrow> int \<Rightarrow> int \<Rightarrow> bool" where
  "dir_entry_group_shared_or_owned dir x y =
     list_ex (\<lambda>z. let e = dir_data dir ! DIR_ENTRY dir x y z in num_sharers e \<noteq> 0 \<or> owner e \<ge> 0)
       [0..zsize dir - 1]"

section \<open>Locks\<close>

text \<open>
  The walk over a non-empty queue: it stops at the first waiter that is not older than the
  new one, or at the last, and links the new waiter in behind it.
\<close>

fun lock_walk :: "dir_waiter \<Rightarrow> dir_waiter list \<Rightarrow> dir_waiter list" where
  "lock_walk s [] = []"
| "lock_walk s [i] = [i, s]"
| "lock_walk s (i # j # r) = (if st_id s > st_id i then i # lock_walk s (j # r) else i # s # j # r)"

definition lock_enqueue :: "dir_waiter \<Rightarrow> dir_waiter list \<Rightarrow> dir_waiter list" where
  "lock_enqueue s q = (if q = [] then [s] else lock_walk s q)"

definition lock_acquire :: "dir_lock_t \<Rightarrow> int \<Rightarrow> dir_waiter \<Rightarrow> dir_lock_t \<times> bool" where
  "lock_acquire l event stack =
     (if lock l
      then (l\<lparr>lock_queue := lock_enqueue (stack\<lparr>dir_lock_event := event, ret_way := st_way stack\<rparr>) (lock_queue l)\<rparr>,
            False)
      else (l\<lparr>lock := True, lock_stack_id := st_id stack\<rparr>, True))"

text \<open>The result of an unlock has the event scheduled for the next cycle, if any.\<close>

definition lock_release :: "dir_lock_t \<Rightarrow> dir_lock_t \<times> (int \<times> dir_waiter) option" where
  "lock_release l =
     (case lock_queue l of
        [] \<Rightarrow> (l\<lparr>lock := False\<rparr>, None)
      | w # ws \<Rightarrow> (l\<lparr>lock_queue := ws, lock := False\<rparr>, Some (dir_lock_event w, w)))"

definition lock_index :: "dir_t \<Rightarrow> nat \<Rightarrow> nat \<Rightarrow> nat" where
  "lock_index dir x y = x * nat (ysize dir) + y"

definition pref_lock_index :: "dir_t \<Rightarrow> int \<Rightarrow> int \<Rightarrow> nat" where
  "pref_lock_index dir pref_stream pref_slot = nat (pref_stream * asize dir + pref_slot)"

definition dir_lock_get :: "dir_t \<Rightarrow> nat \<Rightarrow> nat \<Rightarrow> dir_lock_t res" where
  "dir_lock_get dir x y =
     (if \<not> (int x < xsize dir \<and> int y < ysize dir) then Inl Assert_failed
      else Inr (dir_lock dir ! lock_index dir x y))"

definition dir_pref_lock_get :: "dir_t \<Rightarrow> int \<Rightarrow> int \<Rightarrow> dir_lock_t res" where
  "dir_pref_lock_get dir pref_stream pref_slot =
     (if \<not> (in_range pref_stream (ssize dir) \<and> in_range pref_slot (asize dir)) then Inl Assert_failed
      else Inr (pref_dir_lock dir ! pref_lock_index dir pref_stream pref_slot))"

definition dir_entry_lock :: "dir_t \<Rightarrow> nat \<Rightarrow> nat \<Rightarrow> int \<Rightarrow> dir_waiter \<Rightarrow> (dir_t \<times> bool) res" where
  "dir_entry_lock dir x y event stack =
     (if \<not> (int x < xsize dir \<and> int y < ysize dir) then Inl Assert_failed
      else let i = lock_index dir x y; (l, r) = lock_acquire (dir_lock dir ! i) event stack
           in Inr (dir\<lparr>dir_lock := (dir_lock dir)[i := l]\<rparr>, r))"

definition dir_pref_entry_lock ::
  "dir_t \<Rightarrow> int \<Rightarrow> int \<Rightarrow> int \<Rightarrow> dir_waiter \<Rightarrow> (dir_t \<times> bool) res" where
  "dir_pref_entry_lock dir pref_stream pref_slot event stack =
     (if \<not> (in_range pref_stream (ssize dir) \<and> in_range pref_slot (asize dir)) then Inl Assert_failed
      else let i = pref_lock_index dir pref_stream pref_slot;
               (l, r) = lock_acquire (pref_dir_lock dir ! i) event stack
           in Inr (dir\<lparr>pref_dir_lock := (pref_dir_lock dir)[i := l]\<rparr>, r))"

definition dir_entry_unlock :: "dir_t \<Rightarrow> nat \<Rightarrow> nat \<Rightarrow> (dir_t \<times> (int \<times> dir_waiter) option) res" where
  "dir_entry_unlock dir x y =
     (if \<not> (int x < xsize dir \<and> int y < ysize dir) then Inl Assert_failed
      else let i = lock_index dir x y; (l, ev) = lock_release (dir_lock dir ! i)
           in Inr (dir\<lparr>dir_lock := (dir_lock dir)[i := l]\<rparr>, ev))"

definition dir_pref_entry_unlock ::
  "dir_t \<Rightarrow> int \<Rightarrow> int \<Rightarrow> (dir_t \<times> (int \<times> dir_waiter) option) res" where
  "dir_pref_entry_unlock dir pref_stream pref_slot =
     (if \<not> (in_range pref_stream (ssize dir) \<and> in_range pref_slot (asize dir)) then Inl Assert_failed
      else let i = pref_lock_index dir pref_stream pref_slot;
               (l, ev) = lock_release (pref_dir_lock dir ! i)
           in Inr (dir\<lparr>pref_dir_lock := (pref_dir_lock dir)[i := l]\<rparr>, ev))"

section \<open>The layout of the entries\<close>

lemma mixed_radix:
  fixes a b c d m :: int
  assumes "a * m + b = c * m + d" "0 \<le> b" "b < m" "0 \<le> d" "d < m"
  shows "a = c \<and> b = d"
proof -
  have "(a * m + b) div m = a" "(c * m + d) div m = c" using assms(2-5) by simp_all
  then have "a = c" using assms(1) by metis
  with assms(1) show ?thesis by simp
qed

lemma mixed_radix_less:
  fixes a b m n :: int
  assumes "0 \<le> a" "a < n" "0 \<le> b" "b < m"
  shows "0 \<le> a * m + b" "a * m + b < n * m"
proof -
  have "0 \<le> a * m" using assms by simp
  then show "0 \<le> a * m + b" using assms by simp
  have "(a + 1) * m \<le> n * m" using assms by (intro mult_right_mono) auto
  then show "a * m + b < n * m" using assms(4) by (simp add: distrib_right)
qed

text \<open>The index arithmetic keeps all sub-blocks apart: two directory entries, of cache
  blocks or of prefetched blocks, have the same place only if they have the same
  coordinates, and every place is inside the array the directory was created with.\<close>

theorem dir_layout:
  assumes "dir_create xs ys zs streams aggr nodes = Inr dir"
    and "dir_entry_get dir x y z = Inr i" "dir_entry_get dir x' y' z' = Inr i'"
    and "in_range w zs" "in_range w' zs"
    and "dir_pref_entry_get dir s a w = Inr j" "dir_pref_entry_get dir s' a' w' = Inr j'"
  shows "(i = i' \<longrightarrow> (x, y, z) = (x', y', z')) \<and> (j = j' \<longrightarrow> (s, a, w) = (s', a', w')) \<and> i \<noteq> j \<and>
    i < length (dir_data dir) \<and> j < length (dir_data dir)"
proof -
  have d: "xsize dir = xs" "ysize dir = ys" "zsize dir = zs" "ssize dir = streams" "asize dir = aggr"
    "length (dir_data dir) = nat (xs * ys * zs) + nat (streams * aggr * zs)"
    using assms(1) by (auto simp: dir_create_def split: if_splits)
  have r: "0 \<le> x" "x < xs" "0 \<le> y" "y < ys" "0 \<le> z" "z < zs"
    and r': "0 \<le> x'" "x' < xs" "0 \<le> y'" "y' < ys" "0 \<le> z'" "z' < zs"
    and i: "i = nat ((x * ys + y) * zs + z)" and i': "i' = nat ((x' * ys + y') * zs + z')"
    using assms(2,3) by (auto simp: dir_entry_get_def in_range_def DIR_ENTRY_def d distrib_right
        split: if_splits)
  have q: "0 \<le> s" "s < streams" "0 \<le> a" "a < aggr" "0 \<le> w" "w < zs"
    and q': "0 \<le> s'" "s' < streams" "0 \<le> a'" "a' < aggr" "0 \<le> w'" "w' < zs"
    and j: "j = nat (xs * ys * zs + ((w * streams + s) * aggr + a))"
    and j': "j' = nat (xs * ys * zs + ((w' * streams + s') * aggr + a'))"
    using assms(4-7) by (auto simp: dir_pref_entry_get_def in_range_def d algebra_simps split: if_splits)
  note xy = mixed_radix_less [OF r(1,2,3,4)] and xy' = mixed_radix_less [OF r'(1,2,3,4)]
  note xyz = mixed_radix_less [OF xy r(5,6)] and xyz' = mixed_radix_less [OF xy' r'(5,6)]
  note ws = mixed_radix_less [OF q(5,6) q(1,2)] and ws' = mixed_radix_less [OF q'(5,6) q'(1,2)]
  note wsa = mixed_radix_less [OF ws q(3,4)] and wsa' = mixed_radix_less [OF ws' q'(3,4)]
  have N: "0 \<le> xs * ys * zs" using xyz by linarith
  have M: "zs * streams * aggr = streams * aggr * zs" by simp
  have "(x, y, z) = (x', y', z')" if "i = i'"
  proof -
    from that have "(x * ys + y) * zs + z = (x' * ys + y') * zs + z'"
      unfolding i i' using xyz(1) xyz'(1) by (simp add: nat_eq_iff)
    from mixed_radix [OF this r(5,6) r'(5,6)] mixed_radix [OF _ r(3,4) r'(3,4), of x x'] show ?thesis by simp
  qed
  moreover have "(s, a, w) = (s', a', w')" if "j = j'"
  proof -
    from that have "(w * streams + s) * aggr + a = (w' * streams + s') * aggr + a'"
      unfolding j j' using wsa(1) wsa'(1) N by (simp add: nat_eq_iff)
    from mixed_radix [OF this q(3,4) q'(3,4)] mixed_radix [OF _ q(1,2) q'(1,2), of w w'] show ?thesis by simp
  qed
  moreover have "i < nat (xs * ys * zs)" unfolding i using xyz by (simp add: nat_less_iff)
  moreover have "nat (xs * ys * zs) \<le> j" unfolding j using wsa(1) N by (simp add: nat_le_iff)
  moreover have "j < nat (xs * ys * zs) + nat (streams * aggr * zs)"
    unfolding j using wsa N M by (simp add: nat_add_distrib nat_less_iff)
  ultimately show ?thesis unfolding d by linarith
qed

lemma dir_layout_witness:
  "\<exists>dir i i' j j'. dir_create 4 2 2 1 2 4 = Inr dir \<and>
     dir_entry_get dir 3 1 1 = Inr i \<and> dir_entry_get dir 3 1 0 = Inr i' \<and>
     dir_pref_entry_get dir 0 1 1 = Inr j \<and> dir_pref_entry_get dir 0 0 0 = Inr j' \<and>
     i \<noteq> i' \<and> j \<noteq> j' \<and> i \<noteq> j"
proof -
  obtain dir where d: "dir_create 4 2 2 1 2 4 = Inr dir" by (simp add: dir_create_def)
  then have "dir_entry_get dir 3 1 1 = Inr 15" "dir_entry_get dir 3 1 0 = Inr 14"
    "dir_pref_entry_get dir 0 1 1 = Inr 19" "dir_pref_entry_get dir 0 0 0 = Inr 16"
    by (auto simp: dir_create_def dir_entry_get_def dir_pref_entry_get_def in_range_def DIR_ENTRY_def)
  with dir_layout [OF d this(1,2) _ _ this(3,4)] d show ?thesis by (auto simp: in_range_def)
qed

section \<open>Sharers\<close>

lemma node_bit_bit: "bit (node_bit n) k \<longleftrightarrow> k = nat (n mod 8)"
proof -
  have "nat (n mod 8) < 8" by simp
  then show ?thesis by (auto simp: node_bit_def bit_simps)
qed

lemma and_node_bit: "b AND node_bit n \<noteq> 0 \<longleftrightarrow> bit b (nat (n mod 8))"
proof -
  have "nat (n mod 8) < 8" by simp
  then show ?thesis by (auto simp: bit_eq_iff [of "b AND node_bit n"] bit_simps node_bit_bit)
qed

lemma sharer_bit_eq: "sharer_bit e n \<longleftrightarrow> bit (sharer e ! node_byte n) (nat (n mod 8))"
  by (simp add: sharer_bit_def and_node_bit)

lemma node_split: "0 \<le> n \<Longrightarrow> 0 \<le> k \<Longrightarrow> node_byte n = node_byte k \<Longrightarrow> nat (n mod 8) = nat (k mod 8) \<Longrightarrow> n = k"
proof -
  assume a: "0 \<le> n" "0 \<le> k" "node_byte n = node_byte k" "nat (n mod 8) = nat (k mod 8)"
  have "0 \<le> n div 8" "0 \<le> k div 8" using a(1,2) by (simp_all add: div_int_pos_iff)
  with a(3) have "n div 8 = k div 8" by (simp add: node_byte_def)
  moreover have "n mod 8 = k mod 8" using a(4) by simp
  ultimately show "n = k" by (metis mult_div_mod_eq)
qed

definition sharers_of :: "dir_t \<Rightarrow> dir_entry_t \<Rightarrow> int set" where
  "sharers_of dir e = {n. in_range n (num_nodes dir) \<and> sharer_bit e n}"

definition entry_ok :: "dir_t \<Rightarrow> dir_entry_t \<Rightarrow> bool" where
  "entry_ok dir e \<longleftrightarrow> length (sharer e) = nat ((num_nodes dir + 7) div 8) \<and>
     num_sharers e = int (card (sharers_of dir e)) \<and>
     (owner e = DIR_ENTRY_OWNER_NONE \<or> in_range (owner e) (num_nodes dir))"

definition dir_ok :: "dir_t \<Rightarrow> bool" where
  "dir_ok dir \<longleftrightarrow> num_nodes dir > 0 \<and>
     length (dir_data dir) = nat (xsize dir * ysize dir * zsize dir) + nat (ssize dir * asize dir * zsize dir) \<and>
     (\<forall>e \<in> set (dir_data dir). entry_ok dir e)"

lemma node_byte_less: "in_range n nodes \<Longrightarrow> node_byte n < nat ((nodes + 7) div 8)"
  by (auto simp: in_range_def node_byte_def nat_less_eq_zless)

lemma finite_sharers [simp]: "finite (sharers_of dir e)"
proof (rule finite_subset)
  show "sharers_of dir e \<subseteq> {0..<num_nodes dir}" by (auto simp: sharers_of_def in_range_def)
qed simp

lemma card_sharers_le: "num_nodes dir > 0 \<Longrightarrow> int (card (sharers_of dir e)) \<le> num_nodes dir"
proof -
  assume "num_nodes dir > 0"
  moreover have "card (sharers_of dir e) \<le> card {0..<num_nodes dir}"
    by (rule card_mono) (auto simp: sharers_of_def in_range_def)
  ultimately show ?thesis by simp
qed

lemma sharer_bit_set:
  assumes "0 \<le> n" "0 \<le> k" "node_byte n < length (sharer e)"
  shows "sharer_bit (e\<lparr>sharer := (sharer e)[node_byte n := sharer e ! node_byte n OR node_bit n]\<rparr>) k
    \<longleftrightarrow> k = n \<or> sharer_bit e k"
proof (cases "node_byte k = node_byte n")
  case True
  have "nat (k mod 8) = nat (n mod 8) \<longleftrightarrow> k = n" using node_split [OF assms(1,2)] True by metis
  with True assms(3) show ?thesis by (auto simp: sharer_bit_eq bit_simps node_bit_bit)
qed (use assms(3) in \<open>auto simp: sharer_bit_eq\<close>)

lemma sharer_bit_clear:
  assumes "0 \<le> n" "0 \<le> k" "node_byte n < length (sharer e)"
  shows "sharer_bit (e\<lparr>sharer := (sharer e)[node_byte n := sharer e ! node_byte n AND NOT (node_bit n)]\<rparr>) k
    \<longleftrightarrow> k \<noteq> n \<and> sharer_bit e k"
proof (cases "node_byte k = node_byte n")
  case True
  have "nat (k mod 8) = nat (n mod 8) \<longleftrightarrow> k = n" using node_split [OF assms(1,2)] True by metis
  moreover have "nat (k mod 8) < 8" by simp
  ultimately show ?thesis using True assms(3) by (auto simp: sharer_bit_eq bit_simps node_bit_bit)
qed (use assms(3) in \<open>auto simp: sharer_bit_eq\<close>)

lemma sharer_bit_num [simp]: "sharer_bit (e\<lparr>num_sharers := v\<rparr>) k = sharer_bit e k"
  "sharer_bit (e\<lparr>owner := w\<rparr>) k = sharer_bit e k"
  by (simp_all add: sharer_bit_def)

lemma sharers_of_dir: "num_nodes d' = num_nodes d \<Longrightarrow> sharers_of d' e = sharers_of d e"
  by (simp add: sharers_of_def)

text \<open>The abstract directory: owner and set of sharers of every entry.\<close>

definition dir_view :: "dir_t \<Rightarrow> nat \<Rightarrow> int \<times> int set" where
  "dir_view dir i = (owner (dir_data dir ! i), sharers_of dir (dir_data dir ! i))"

lemma entry_get_ok:
  assumes "dir_ok dir" "dir_entry_get dir x y z = Inr i"
  shows "i < length (dir_data dir)" "entry_ok dir (dir_data dir ! i)"
proof -
  from assms(2) have r: "0 \<le> x" "x < xsize dir" "0 \<le> y" "y < ysize dir" "0 \<le> z" "z < zsize dir"
    and i: "i = nat ((x * ysize dir + y) * zsize dir + z)"
    by (auto simp: dir_entry_get_def in_range_def DIR_ENTRY_def distrib_right split: if_splits)
  from mixed_radix_less [OF mixed_radix_less [OF r(1-4)] r(5,6)]
  have "i < nat (xsize dir * ysize dir * zsize dir)" unfolding i by (simp add: nat_less_iff)
  with assms(1) show "i < length (dir_data dir)" by (simp add: dir_ok_def)
  with assms(1) show "entry_ok dir (dir_data dir ! i)" by (auto simp: dir_ok_def)
qed

lemma update_entry_ok:
  assumes "dir_ok dir" "i < length (dir_data dir)" "entry_ok dir e"
  shows "dir_ok (update_entry dir i e)"
    "dir_view (update_entry dir i e) = (dir_view dir)(i := (owner e, sharers_of dir e))"
proof -
  have "entry_ok (update_entry dir i e) e' = entry_ok dir e'" for e'
    by (simp add: entry_ok_def update_entry_def sharers_of_def)
  with assms show "dir_ok (update_entry dir i e)"
    by (auto simp: dir_ok_def update_entry_def dest!: set_update_subset_insert [THEN subsetD])
  show "dir_view (update_entry dir i e) = (dir_view dir)(i := (owner e, sharers_of dir e))"
    using assms(2) by (auto simp: fun_eq_iff dir_view_def update_entry_def sharers_of_def)
qed

lemma set_sharer_ok:
  assumes "dir_ok dir" "dir_entry_get dir x y z = Inr i" "in_range n (num_nodes dir)"
  shows "\<exists>d. dir_entry_set_sharer dir x y z n = Inr d \<and> dir_ok d \<and>
    dir_view d = (dir_view dir)(i := (fst (dir_view dir i), insert n (snd (dir_view dir i))))"
proof -
  let ?e = "dir_data dir ! i"
  note e = entry_get_ok [OF assms(1,2)]
  show ?thesis
  proof (cases "sharer_bit ?e n")
    case True
    then have "insert n (sharers_of dir ?e) = sharers_of dir ?e"
      using assms(3) by (auto simp: sharers_of_def)
    with True assms show ?thesis by (auto simp: dir_entry_set_sharer_def dir_view_def fun_eq_iff)
  next
    case False
    let ?e' = "?e\<lparr>sharer := (sharer ?e)[node_byte n := sharer ?e ! node_byte n OR node_bit n],
                  num_sharers := num_sharers ?e + 1\<rparr>"
    have nb: "node_byte n < length (sharer ?e)" "0 \<le> n"
      using e(2) assms(3) node_byte_less by (auto simp: entry_ok_def in_range_def)
    have s: "sharers_of dir ?e' = insert n (sharers_of dir ?e)"
      using assms(3) sharer_bit_set [OF nb(2) _ nb(1)] by (auto simp: sharers_of_def in_range_def)
    have "n \<notin> sharers_of dir ?e" using False by (simp add: sharers_of_def)
    then have ok: "entry_ok dir ?e'" using e(2) unfolding entry_ok_def s by simp
    have "num_sharers ?e' \<le> num_nodes dir"
      using ok card_sharers_le [of dir ?e'] assms(1) by (simp add: entry_ok_def dir_ok_def)
    then have "dir_entry_set_sharer dir x y z n = Inr (update_entry dir i ?e')"
      using assms(2,3) False by (simp add: dir_entry_set_sharer_def Let_def)
    with update_entry_ok [OF assms(1) e(1) ok] s show ?thesis
      by (simp add: dir_view_def)
  qed
qed

lemma clear_sharer_ok:
  assumes "dir_ok dir" "dir_entry_get dir x y z = Inr i" "in_range n (num_nodes dir)"
  shows "\<exists>d. dir_entry_clear_sharer dir x y z n = Inr d \<and> dir_ok d \<and>
    dir_view d = (dir_view dir)(i := (fst (dir_view dir i), snd (dir_view dir i) - {n}))"
proof -
  let ?e = "dir_data dir ! i"
  note e = entry_get_ok [OF assms(1,2)]
  show ?thesis
  proof (cases "sharer_bit ?e n")
    case False
    then have "sharers_of dir ?e - {n} = sharers_of dir ?e" by (auto simp: sharers_of_def)
    with False assms show ?thesis by (auto simp: dir_entry_clear_sharer_def dir_view_def fun_eq_iff)
  next
    case True
    let ?e' = "?e\<lparr>sharer := (sharer ?e)[node_byte n := sharer ?e ! node_byte n AND NOT (node_bit n)],
                  num_sharers := num_sharers ?e - 1\<rparr>"
    have nb: "node_byte n < length (sharer ?e)" "0 \<le> n"
      using e(2) assms(3) node_byte_less by (auto simp: entry_ok_def in_range_def)
    have s: "sharers_of dir ?e' = sharers_of dir ?e - {n}"
      using assms(3) sharer_bit_clear [OF nb(2) _ nb(1)] by (auto simp: sharers_of_def in_range_def)
    have n: "n \<in> sharers_of dir ?e" using True assms(3) by (simp add: sharers_of_def)
    then have "0 < card (sharers_of dir ?e)" by (auto simp: card_gt_0_iff)
    with n have ok: "entry_ok dir ?e'" using e(2) unfolding entry_ok_def s by simp
    have "num_sharers ?e > 0" using e(2) \<open>0 < card _\<close> by (simp add: entry_ok_def)
    then have "dir_entry_clear_sharer dir x y z n = Inr (update_entry dir i ?e')"
      using assms(2,3) True by (simp add: dir_entry_clear_sharer_def Let_def)
    with update_entry_ok [OF assms(1) e(1) ok] s show ?thesis
      by (simp add: dir_view_def)
  qed
qed

lemma fold_clear_bytes:
  "fold (\<lambda>k bs. bs[k := 0]) [0..<n] bs = replicate (min n (length bs)) 0 @ drop n bs" for bs :: "u8 list"
proof (induction n)
  case (Suc n)
  show ?case
  proof (cases "n < length bs")
    case True
    with Suc show ?thesis
      by (simp add: list_update_append Cons_nth_drop_Suc [symmetric] replicate_append_same min_def
          flip: replicate_Suc)
  next
    case False
    with Suc show ?thesis by (simp add: list_update_beyond min_def)
  qed
qed simp

lemma sharers_of_zero:
  "sharer e = replicate (nat ((num_nodes dir + 7) div 8)) 0 \<Longrightarrow> sharers_of dir e = {}"
  using node_byte_less [of _ "num_nodes dir"] by (auto simp: sharers_of_def sharer_bit_def)

lemma clear_all_ok:
  assumes "dir_ok dir" "dir_entry_get dir x y z = Inr i"
  shows "\<exists>d. dir_entry_clear_all_sharers dir x y z = Inr d \<and> dir_ok d \<and>
    dir_view d = (dir_view dir)(i := (fst (dir_view dir i), {}))"
proof -
  let ?e = "dir_data dir ! i" and ?n = "nat ((num_nodes dir + 7) div 8)"
  note e = entry_get_ok [OF assms]
  let ?e' = "?e\<lparr>num_sharers := 0, sharer := fold (\<lambda>k bs. bs[k := 0]) [0..<?n] (sharer ?e)\<rparr>"
  have sh: "sharer ?e' = replicate ?n 0" using e(2) by (simp add: fold_clear_bytes entry_ok_def)
  then have s: "sharers_of dir ?e' = {}" by (rule sharers_of_zero)
  then have "entry_ok dir ?e'" using e(2) sh unfolding entry_ok_def s by simp
  from update_entry_ok [OF assms(1) e(1) this] s assms(2) show ?thesis
    by (simp add: dir_entry_clear_all_sharers_def Let_def dir_view_def)
qed

lemma set_owner_ok:
  assumes "dir_ok dir" "dir_entry_get dir x y z = Inr i"
    "n = DIR_ENTRY_OWNER_NONE \<or> in_range n (num_nodes dir)"
  shows "\<exists>d. dir_entry_set_owner dir x y z n = Inr d \<and> dir_ok d \<and>
    dir_view d = (dir_view dir)(i := (n, snd (dir_view dir i)))"
proof -
  let ?e = "dir_data dir ! i"
  note e = entry_get_ok [OF assms(1,2)]
  have s: "sharers_of dir (?e\<lparr>owner := n\<rparr>) = sharers_of dir ?e" by (simp add: sharers_of_def)
  then have "entry_ok dir (?e\<lparr>owner := n\<rparr>)" using e(2) assms(3) by (simp add: entry_ok_def)
  from update_entry_ok [OF assms(1) e(1) this] s assms(2,3) show ?thesis
    by (auto simp: dir_entry_set_owner_def dir_view_def)
qed

lemma dir_create_ok: "dir_create xs ys zs streams aggr nodes = Inr dir \<Longrightarrow> dir_ok dir"
proof -
  assume c: "dir_create xs ys zs streams aggr nodes = Inr dir"
  then have n: "num_nodes dir = nodes" "nodes > 0"
    and d: "dir_data dir = replicate (nat (xs * ys * zs) + nat (streams * aggr * zs)) (empty_entry nodes)"
      "xsize dir = xs" "ysize dir = ys" "zsize dir = zs" "ssize dir = streams" "asize dir = aggr"
    by (auto simp: dir_create_def split: if_splits)
  have "sharers_of dir (empty_entry nodes) = {}"
    by (rule sharers_of_zero) (simp add: n empty_entry_def)
  then have "entry_ok dir (empty_entry nodes)"
    unfolding entry_ok_def by (simp add: n) (simp add: empty_entry_def)
  then show ?thesis by (simp add: dir_ok_def n d)
qed

text \<open>The operations on entries, and the abstract directory they implement.\<close>

datatype dir_op =
    Set_owner int
  | Set_sharer int
  | Clear_sharer int
  | Clear_all_sharers

fun dir_run :: "dir_op \<Rightarrow> dir_t \<Rightarrow> int \<Rightarrow> int \<Rightarrow> int \<Rightarrow> dir_t res" where
  "dir_run (Set_owner n) dir x y z = dir_entry_set_owner dir x y z n"
| "dir_run (Set_sharer n) dir x y z = dir_entry_set_sharer dir x y z n"
| "dir_run (Clear_sharer n) dir x y z = dir_entry_clear_sharer dir x y z n"
| "dir_run Clear_all_sharers dir x y z = dir_entry_clear_all_sharers dir x y z"

fun dir_abs :: "dir_op \<Rightarrow> int \<times> int set \<Rightarrow> int \<times> int set" where
  "dir_abs (Set_owner n) (ow, S) = (n, S)"
| "dir_abs (Set_sharer n) (ow, S) = (ow, insert n S)"
| "dir_abs (Clear_sharer n) (ow, S) = (ow, S - {n})"
| "dir_abs Clear_all_sharers (ow, S) = (ow, {})"

fun dir_op_ok :: "dir_op \<Rightarrow> int \<Rightarrow> bool" where
  "dir_op_ok (Set_owner n) nodes = (n = DIR_ENTRY_OWNER_NONE \<or> in_range n nodes)"
| "dir_op_ok (Set_sharer n) nodes = in_range n nodes"
| "dir_op_ok (Clear_sharer n) nodes = in_range n nodes"
| "dir_op_ok Clear_all_sharers nodes = True"

text \<open>C10: the directory implements an owner and a set of sharers per entry: every operation
  with arguments in range returns (the assertions on the sharer counter never fail), acts on
  the set of its own entry as the abstract operation does, changes no other entry, and keeps
  the counter equal to the number of bits set.\<close>

theorem dir_refines_sets:
  assumes "dir_ok dir" "dir_entry_get dir x y z = Inr i" "dir_op_ok op (num_nodes dir)"
  shows "\<exists>d. dir_run op dir x y z = Inr d \<and> dir_ok d \<and>
    dir_view d = (dir_view dir)(i := dir_abs op (dir_view dir i))"
proof (cases op)
  case (Set_owner n)
  with set_owner_ok [OF assms(1,2), of n] assms(3) show ?thesis
    by (cases "dir_view dir i") simp
next
  case (Set_sharer n)
  with set_sharer_ok [OF assms(1,2), of n] assms(3) show ?thesis
    by (cases "dir_view dir i") simp
next
  case (Clear_sharer n)
  with clear_sharer_ok [OF assms(1,2), of n] assms(3) show ?thesis
    by (cases "dir_view dir i") simp
next
  case Clear_all_sharers
  with clear_all_ok [OF assms(1,2)] show ?thesis
    by (cases "dir_view dir i") simp
qed

lemma dir_refines_sets_witness:
  "\<exists>dir d. dir_create 4 2 1 0 0 12 = Inr dir \<and> dir_run (Set_sharer 9) dir 3 1 0 = Inr d \<and>
     dir_ok d \<and> snd (dir_view d 7) = insert 9 (snd (dir_view dir 7))"
proof -
  obtain dir where d: "dir_create 4 2 1 0 0 12 = Inr dir" by (simp add: dir_create_def)
  then have "dir_entry_get dir 3 1 0 = Inr 7" "dir_op_ok (Set_sharer 9) (num_nodes dir)"
    by (auto simp: dir_create_def dir_entry_get_def in_range_def DIR_ENTRY_def)
  from dir_refines_sets [OF dir_create_ok [OF d] this] obtain d' where
    "dir_run (Set_sharer 9) dir 3 1 0 = Inr d'" "dir_ok d'"
    "dir_view d' = (dir_view dir)(7 := dir_abs (Set_sharer 9) (dir_view dir 7))" by blast
  with d show ?thesis by (cases "dir_view dir 7") auto
qed

section \<open>Lock queues\<close>

lemma lock_walk_spec:
  "q \<noteq> [] \<Longrightarrow> lock_walk s q =
     takeWhile (\<lambda>i. st_id s > st_id i) q @ take 1 (dropWhile (\<lambda>i. st_id s > st_id i) q) @
     s # drop 1 (dropWhile (\<lambda>i. st_id s > st_id i) q)"
  by (induction s q rule: lock_walk.induct) auto

lemma mset_lock_enqueue: "mset (lock_enqueue s q) = add_mset s (mset q)"
proof -
  have "q \<noteq> [] \<Longrightarrow> mset (lock_walk s q) = add_mset s (mset q)"
    by (induction s q rule: lock_walk.induct) auto
  then show ?thesis by (auto simp: lock_enqueue_def)
qed

lemma lock_enqueue_Nil [simp]: "lock_enqueue s q \<noteq> []"
  using mset_lock_enqueue [of s q] by auto

text \<open>A waiter that does not get a lock is put behind the waiting accesses older than it
  and behind the first one that is not: in particular it never goes in front of the queue,
  even when its access is older than every one waiting.\<close>

theorem lock_enqueue_position:
  "lock_enqueue s q =
     takeWhile (\<lambda>i. st_id s > st_id i) q @ take 1 (dropWhile (\<lambda>i. st_id s > st_id i) q) @
     s # drop 1 (dropWhile (\<lambda>i. st_id s > st_id i) q)"
  using lock_walk_spec [of q s] by (simp add: lock_enqueue_def)

text \<open>A lock with its waiters, driven by requests (with the event to wake up on) and releases.\<close>

datatype lock_op = Req int dir_waiter | Rel

fun lock_run :: "lock_op list \<Rightarrow> dir_lock_t \<Rightarrow> dir_lock_t \<times> dir_waiter multiset \<times> dir_waiter multiset" where
  "lock_run [] l = (l, {#}, {#})"
| "lock_run (Req ev s # ops) l =
     (let (l1, got) = lock_acquire l ev s; (l2, waiting, woken) = lock_run ops l1
      in (l2, (if got then waiting else add_mset (s\<lparr>dir_lock_event := ev, ret_way := st_way s\<rparr>) waiting), woken))"
| "lock_run (Rel # ops) l =
     (let (l1, w) = lock_release l; (l2, waiting, woken) = lock_run ops l1
      in (l2, waiting, (case w of None \<Rightarrow> woken | Some (ev, s) \<Rightarrow> add_mset s woken)))"

text \<open>C27: no waiter is lost or woken twice: after any sequence of requests and releases of a
  lock, the accesses that were refused it are exactly those woken since plus those still in
  its queue (counted with what was in the queue before).\<close>

theorem lock_waiters_conserved:
  "case lock_run ops l of
     (l', waiting, woken) \<Rightarrow> mset (lock_queue l) + waiting = woken + mset (lock_queue l')"
proof (induction ops arbitrary: l)
  case (Cons op ops)
  show ?case
  proof (cases op)
    case (Req ev s)
    let ?s = "s\<lparr>dir_lock_event := ev, ret_way := st_way s\<rparr>"
    show ?thesis
      using Req Cons.IH [of "fst (lock_acquire l ev s)"] mset_lock_enqueue [of ?s "lock_queue l"]
      by (cases "lock l") (auto simp: lock_acquire_def split: prod.splits)
  next
    case Rel
    show ?thesis
      using Rel Cons.IH [of "fst (lock_release l)"]
      by (cases "lock_queue l") (auto simp: lock_release_def split: prod.splits)
  qed
qed simp

end
