(* ===== verification/Mmu.thy ===== *)
theory Mmu
  imports Prelude
begin

text \<open>
  Memory management unit (\<open>src/mem-system/mmu.c\<close>): physical pages are handed out in the
  order in which virtual pages are first touched. A page is on the list of all pages and in
  a hash chain; pointers to pages are positions in the list. The globals of the module and
  the counter of address spaces are fields of the state; writing the report is left out.
\<close>

section \<open>State and operations\<close>

abbreviation MMU_PAGE_HASH_SIZE :: u32 where "MMU_PAGE_HASH_SIZE \<equiv> 1024"

datatype mmu_access_t =
  mmu_access_invalid | mmu_access_read | mmu_access_write | mmu_access_execute

record mmu_page_t =
  address_space_index :: u32
  vtl_page :: u32
  phy_page :: u32
  num_read_accesses :: int
  num_write_accesses :: int
  num_execute_accesses :: int

record mmu_t =
  page_list :: "mmu_page_t list"
  page_hash_table :: "nat \<Rightarrow> nat list"
  mmu_page_size :: u32
  mmu_log_page_size :: nat
  mmu_page_mask :: u32
  mmu_space_index :: int

definition mmu_init :: "u32 \<Rightarrow> mmu_t res" where
  "mmu_init page_size =
     res_bind (log_base2 (sint page_size)) (\<lambda>log.
     Inr \<lparr>page_list = [], page_hash_table = (\<lambda>_. []), mmu_page_size = page_size,
          mmu_log_page_size = log, mmu_page_mask = page_size - 1, mmu_space_index = 0\<rparr>)"

definition mmu_index :: "mmu_t \<Rightarrow> u32 \<Rightarrow> u32 \<Rightarrow> nat" where
  "mmu_index mmu asi vtl =
     unat ((drop_bit (mmu_log_page_size mmu) vtl + asi * 23) mod MMU_PAGE_HASH_SIZE)"

definition mmu_tag :: "mmu_t \<Rightarrow> u32 \<Rightarrow> u32" where
  "mmu_tag mmu vtl = vtl AND NOT (mmu_page_mask mmu)"

definition page_matches :: "mmu_t \<Rightarrow> u32 \<Rightarrow> u32 \<Rightarrow> mmu_page_t \<Rightarrow> bool" where
  "page_matches mmu asi vtl page \<longleftrightarrow>
     vtl_page page = mmu_tag mmu vtl \<and> address_space_index page = asi"

text \<open>The result is the page's position in the list.\<close>

definition mmu_get_page :: "mmu_t \<Rightarrow> u32 \<Rightarrow> u32 \<Rightarrow> mmu_t \<times> nat" where
  "mmu_get_page mmu asi vtl =
     (let index = mmu_index mmu asi vtl;
          chain = page_hash_table mmu index;
          hit = (\<lambda>i. page_matches mmu asi vtl (page_list mmu ! i))
      in case find hit chain of
        None \<Rightarrow>
          (let page = \<lparr>address_space_index = asi, vtl_page = mmu_tag mmu vtl,
                 phy_page = push_bit (mmu_log_page_size mmu) (of_nat (length (page_list mmu))),
                 num_read_accesses = 0, num_write_accesses = 0, num_execute_accesses = 0\<rparr>
           in (mmu\<lparr>page_list := page_list mmu @ [page],
                   page_hash_table := (page_hash_table mmu)(index := length (page_list mmu) # chain)\<rparr>,
               length (page_list mmu)))
      | Some i \<Rightarrow>
          (mmu\<lparr>page_hash_table := (page_hash_table mmu)(index := move_front hit chain)\<rparr>, i))"

definition mmu_page_compare :: "mmu_page_t \<Rightarrow> mmu_page_t \<Rightarrow> int" where
  "mmu_page_compare page1 page2 =
     (let n1 = num_read_accesses page1 + num_write_accesses page1 + num_execute_accesses page1;
          n2 = num_read_accesses page2 + num_write_accesses page2 + num_execute_accesses page2
      in if n1 < n2 then 1 else if n1 = n2 then 0 else - 1)"

definition mmu_address_space_new :: "mmu_t \<Rightarrow> mmu_t \<times> int" where
  "mmu_address_space_new mmu = (mmu\<lparr>mmu_space_index := mmu_space_index mmu + 1\<rparr>, mmu_space_index mmu)"

definition mmu_translate :: "mmu_t \<Rightarrow> u32 \<Rightarrow> u32 \<Rightarrow> mmu_t \<times> u32" where
  "mmu_translate mmu asi vtl =
     (let offset = vtl AND mmu_page_mask mmu;
          (mmu, i) = mmu_get_page mmu asi vtl
      in (mmu, phy_page (page_list mmu ! i) OR offset))"

definition mmu_valid_phy_addr :: "mmu_t \<Rightarrow> u32 \<Rightarrow> bool" where
  "mmu_valid_phy_addr mmu phy \<longleftrightarrow>
     sint (drop_bit (mmu_log_page_size mmu) phy) < int (length (page_list mmu))"

definition mmu_access_page :: "mmu_t \<Rightarrow> u32 \<Rightarrow> mmu_access_t \<Rightarrow> mmu_t res" where
  "mmu_access_page mmu phy access =
     (let index = sint (drop_bit (mmu_log_page_size mmu) phy); i = nat index in
      if index < 0 \<or> index \<ge> int (length (page_list mmu)) then Inr mmu
      else
        let page = page_list mmu ! i;
            upd = (\<lambda>page. Inr (mmu\<lparr>page_list := (page_list mmu)[i := page]\<rparr>))
        in case access of
             mmu_access_read \<Rightarrow> upd (page\<lparr>num_read_accesses := num_read_accesses page + 1\<rparr>)
           | mmu_access_write \<Rightarrow> upd (page\<lparr>num_write_accesses := num_write_accesses page + 1\<rparr>)
           | mmu_access_execute \<Rightarrow> upd (page\<lparr>num_execute_accesses := num_execute_accesses page + 1\<rparr>)
           | mmu_access_invalid \<Rightarrow> Inl (Panic ''invalid access''))"

section \<open>The translation\<close>

text \<open>
  Abstractly the unit is a partial map from (address space, virtual address) to physical
  addresses. The invariant: physical pages are numbered by position, the pages have
  different keys, and a hash chain has exactly the pages of its index.
\<close>

definition page_key :: "mmu_page_t \<Rightarrow> u32 \<times> u32" where
  "page_key p = (address_space_index p, vtl_page p)"

definition mmu_lookup :: "mmu_t \<Rightarrow> u32 \<Rightarrow> u32 \<Rightarrow> u32 option" where
  "mmu_lookup mmu asi vtl =
     map_option (\<lambda>p. phy_page p OR (vtl AND mmu_page_mask mmu))
       (find (\<lambda>p. page_key p = (asi, mmu_tag mmu vtl)) (page_list mmu))"

definition mmu_ok :: "mmu_t \<Rightarrow> bool" where
  "mmu_ok m \<longleftrightarrow>
     mmu_log_page_size m < 32 \<and> mmu_page_mask m = mask (mmu_log_page_size m) \<and>
     distinct (map page_key (page_list m)) \<and>
     (\<forall>i < length (page_list m).
        phy_page (page_list m ! i) = push_bit (mmu_log_page_size m) (of_nat i) \<and>
        mmu_tag m (vtl_page (page_list m ! i)) = vtl_page (page_list m ! i)) \<and>
     (\<forall>h. set (page_hash_table m h) =
        {i. i < length (page_list m) \<and>
            mmu_index m (address_space_index (page_list m ! i)) (vtl_page (page_list m ! i)) = h})"

lemma mmu_tag_bits:
  "mmu_ok m \<Longrightarrow> bit (mmu_tag m v) n \<longleftrightarrow> bit v n \<and> n \<ge> mmu_log_page_size m"
  by (auto simp: mmu_ok_def mmu_tag_def bit_simps dest: bit_imp_le_length)

lemma mmu_index_tag:
  assumes "mmu_ok m"
  shows "mmu_index m a (mmu_tag m v) = mmu_index m a v"
proof -
  have "drop_bit (mmu_log_page_size m) (mmu_tag m v) = drop_bit (mmu_log_page_size m) v"
    by (rule bit_word_eqI) (simp add: bit_simps mmu_tag_bits [OF assms])
  then show ?thesis by (simp add: mmu_index_def)
qed

lemma mmu_tag_idem: "mmu_tag m (mmu_tag m v) = mmu_tag m v"
  by (simp add: mmu_tag_def)

text \<open>The lookup by key, and the search of a chain.\<close>

lemma page_at:
  assumes "mmu_ok m" "i < length (page_list m)" "page_key (page_list m ! i) = (a, mmu_tag m v)"
  shows "find (\<lambda>p. page_key p = (a, mmu_tag m v)) (page_list m) = Some (page_list m ! i)"
  using distinct_keys_find [of page_key "page_list m" "page_list m ! i"] assms
  by (simp add: mmu_ok_def)

lemma chain_hit:
  assumes "mmu_ok m"
  shows "find (\<lambda>i. page_matches m a v (page_list m ! i)) (page_hash_table m (mmu_index m a v)) = Some i
    \<longleftrightarrow> i < length (page_list m) \<and> page_key (page_list m ! i) = (a, mmu_tag m v)"
proof -
  let ?P = "\<lambda>i. page_matches m a v (page_list m ! i)" and ?c = "page_hash_table m (mmu_index m a v)"
  have c: "set ?c = {i. i < length (page_list m) \<and>
      mmu_index m (address_space_index (page_list m ! i)) (vtl_page (page_list m ! i)) = mmu_index m a v}"
    using assms by (simp add: mmu_ok_def)
  have k: "?P i \<longleftrightarrow> page_key (page_list m ! i) = (a, mmu_tag m v)" for i
    by (auto simp: page_matches_def page_key_def)
  have u: "i = j" if "i < length (page_list m)" "j < length (page_list m)"
      "page_key (page_list m ! i) = page_key (page_list m ! j)" for i j
    using assms that by (auto simp: mmu_ok_def distinct_conv_nth)
  show ?thesis
  proof
    assume "find ?P ?c = Some i"
    then have "i \<in> set ?c \<and> ?P i" by (rule find_SomeD)
    then show "i < length (page_list m) \<and> page_key (page_list m ! i) = (a, mmu_tag m v)"
      using c k by simp
  next
    assume i: "i < length (page_list m) \<and> page_key (page_list m ! i) = (a, mmu_tag m v)"
    then have "i \<in> set ?c"
      using c mmu_index_tag [OF assms, of a v] by (auto simp: page_key_def)
    with i k have "find ?P ?c \<noteq> None" by (auto simp: find_None_set)
    then obtain j where j: "find ?P ?c = Some j" by blast
    then have "j \<in> set ?c \<and> ?P j" by (rule find_SomeD)
    with c k i u [of i j] have "i = j" by simp
    with j show "find ?P ?c = Some i" by simp
  qed
qed

lemma chain_miss:
  assumes "mmu_ok m" "find (\<lambda>i. page_matches m a v (page_list m ! i)) (page_hash_table m (mmu_index m a v)) = None"
  shows "(a, mmu_tag m v) \<notin> page_key ` set (page_list m)"
proof
  assume "(a, mmu_tag m v) \<in> page_key ` set (page_list m)"
  then obtain i where "i < length (page_list m)" "page_key (page_list m ! i) = (a, mmu_tag m v)"
    by (auto simp: in_set_conv_nth)
  with chain_hit [OF assms(1), of a v i] assms(2) show False by simp
qed

lemma get_page_ok:
  assumes "mmu_ok m"
  shows "mmu_ok (fst (mmu_get_page m a v))"
    "snd (mmu_get_page m a v) < length (page_list (fst (mmu_get_page m a v)))"
    "page_key (page_list (fst (mmu_get_page m a v)) ! snd (mmu_get_page m a v)) = (a, mmu_tag m v)"
    "\<exists>ps. page_list (fst (mmu_get_page m a v)) = page_list m @ ps \<and> length ps \<le> 1"
    "mmu_page_mask (fst (mmu_get_page m a v)) = mmu_page_mask m"
    "mmu_log_page_size (fst (mmu_get_page m a v)) = mmu_log_page_size m"
proof -
  let ?hit = "\<lambda>i. page_matches m a v (page_list m ! i)" and ?h = "mmu_index m a v"
  have goal: "mmu_ok (fst (mmu_get_page m a v)) \<and>
    snd (mmu_get_page m a v) < length (page_list (fst (mmu_get_page m a v))) \<and>
    page_key (page_list (fst (mmu_get_page m a v)) ! snd (mmu_get_page m a v)) = (a, mmu_tag m v) \<and>
    (\<exists>ps. page_list (fst (mmu_get_page m a v)) = page_list m @ ps \<and> length ps \<le> 1) \<and>
    mmu_page_mask (fst (mmu_get_page m a v)) = mmu_page_mask m \<and>
    mmu_log_page_size (fst (mmu_get_page m a v)) = mmu_log_page_size m"
  proof (cases "find ?hit (page_hash_table m ?h)")
    case (Some i)
    let ?m = "m\<lparr>page_hash_table := (page_hash_table m)(?h := move_front ?hit (page_hash_table m ?h))\<rparr>"
    have g: "mmu_get_page m a v = (?m, i)" by (simp add: mmu_get_page_def Let_def Some)
    have ix: "mmu_index ?m = mmu_index m" "mmu_tag ?m = mmu_tag m"
      by (simp_all add: fun_eq_iff mmu_index_def mmu_tag_def)
    have "mmu_ok ?m" using assms by (simp add: mmu_ok_def ix)
    moreover have "i < length (page_list m) \<and> page_key (page_list m ! i) = (a, mmu_tag m v)"
      using Some chain_hit [OF assms] by simp
    ultimately show ?thesis by (simp add: g)
  next
    case None
    let ?n = "length (page_list m)"
    let ?p = "\<lparr>address_space_index = a, vtl_page = mmu_tag m v,
                 phy_page = push_bit (mmu_log_page_size m) (of_nat ?n),
                 num_read_accesses = 0, num_write_accesses = 0, num_execute_accesses = 0\<rparr>"
    let ?m = "m\<lparr>page_list := page_list m @ [?p],
         page_hash_table := (page_hash_table m)(?h := ?n # page_hash_table m ?h)\<rparr>"
    have g: "mmu_get_page m a v = (?m, ?n)" by (simp add: mmu_get_page_def Let_def None)
    have ix: "mmu_index ?m = mmu_index m" "mmu_tag ?m = mmu_tag m"
      by (simp_all add: fun_eq_iff mmu_index_def mmu_tag_def)
    have dist: "distinct (map page_key (page_list m @ [?p]))"
      using chain_miss [OF assms None] assms by (auto simp: mmu_ok_def page_key_def)
    have "mmu_index m a (mmu_tag m v) = ?h" by (rule mmu_index_tag [OF assms])
    then have chains: "set (((page_hash_table m)(?h := ?n # page_hash_table m ?h)) h) =
        {i. i < length (page_list m @ [?p]) \<and>
            mmu_index m (address_space_index ((page_list m @ [?p]) ! i)) (vtl_page ((page_list m @ [?p]) ! i)) = h}" for h
      using assms by (auto simp: mmu_ok_def nth_append less_Suc_eq split: if_splits)
    have "mmu_ok ?m"
      using assms dist chains unfolding mmu_ok_def ix
      by (auto simp: nth_append less_Suc_eq mmu_tag_idem)
    then show ?thesis by (simp add: g page_key_def)
  qed
  then show "mmu_ok (fst (mmu_get_page m a v))"
    "snd (mmu_get_page m a v) < length (page_list (fst (mmu_get_page m a v)))"
    "page_key (page_list (fst (mmu_get_page m a v)) ! snd (mmu_get_page m a v)) = (a, mmu_tag m v)"
    "\<exists>ps. page_list (fst (mmu_get_page m a v)) = page_list m @ ps \<and> length ps \<le> 1"
    "mmu_page_mask (fst (mmu_get_page m a v)) = mmu_page_mask m"
    "mmu_log_page_size (fst (mmu_get_page m a v)) = mmu_log_page_size m"
    by blast+
qed

text \<open>Physical addresses of different pages differ, while the page numbers fit.\<close>

lemma phy_drop:
  fixes v :: u32
  assumes "i < 2 ^ (32 - k)" "k < 32"
  shows "drop_bit k (push_bit k (of_nat i) OR (v AND mask k)) = (of_nat i :: u32)"
proof (rule bit_word_eqI)
  fix n assume "n < LENGTH(32)"
  have hi: "\<not> bit i m" if "32 - k \<le> m" for m
  proof -
    have "i < 2 ^ m" using assms(1) that by (meson less_le_trans one_le_numeral power_increasing)
    then show ?thesis by (simp add: bit_iff_odd div_less)
  qed
  show "bit (drop_bit k (push_bit k (of_nat i) OR (v AND mask k))) n = bit (of_nat i :: u32) n"
  proof (cases "bit i n")
    case True
    with hi [of n] have "n < 32 - k" by (meson not_le)
    then have "k + n < 32" by simp
    with True show ?thesis by (simp add: bit_simps)
  qed (auto simp: bit_simps)
qed

lemma phy_mask:
  fixes v :: u32
  shows "(push_bit k (of_nat i) OR (v AND mask k)) AND mask k = v AND mask k"
  by (rule bit_word_eqI) (auto simp: bit_simps)

lemma lookup_SomeD:
  assumes "mmu_ok m" "mmu_lookup m a v = Some p"
  shows "\<exists>i < length (page_list m). page_key (page_list m ! i) = (a, mmu_tag m v) \<and>
    p = push_bit (mmu_log_page_size m) (of_nat i) OR (v AND mask (mmu_log_page_size m))"
proof -
  from assms(2) obtain pg where f: "find (\<lambda>p. page_key p = (a, mmu_tag m v)) (page_list m) = Some pg"
      "p = phy_page pg OR (v AND mmu_page_mask m)"
    by (auto simp: mmu_lookup_def)
  from find_SomeD [OF f(1)] obtain i where "i < length (page_list m)" "page_list m ! i = pg"
      "page_key pg = (a, mmu_tag m v)"
    by (auto simp: in_set_conv_nth)
  with f(2) assms(1) show ?thesis by (auto simp: mmu_ok_def)
qed

lemma sint_of_small: "i < 2 ^ 31 \<Longrightarrow> sint (of_nat i :: u32) = int i"
  by (simp add: signed_of_nat signed_take_bit_int_eq_self)

text \<open>C22: a translation gives the physical address the unit keeps for that virtual address
  from then on: it is found by later lookups, every translation made before is unchanged,
  and the address is valid, as long as the page numbers fit in the positive integers.\<close>

theorem mmu_translate_correct:
  assumes "mmu_ok m" "length (page_list m) < 2 ^ (32 - mmu_log_page_size m)" "length (page_list m) < 2 ^ 31"
  shows "case mmu_translate m a v of (m', p) \<Rightarrow>
    mmu_ok m' \<and> mmu_lookup m' a v = Some p \<and> mmu_valid_phy_addr m' p \<and>
    (\<forall>b w q. mmu_lookup m b w = Some q \<longrightarrow> mmu_lookup m' b w = Some q)"
proof -
  obtain m' i where g: "mmu_get_page m a v = (m', i)" by (cases "mmu_get_page m a v")
  note ok = get_page_ok [OF assms(1), of a v, unfolded g, simplified]
  have tag: "mmu_tag m' = mmu_tag m" by (simp add: fun_eq_iff mmu_tag_def ok(5))
  have look: "mmu_lookup m' a v = Some (phy_page (page_list m' ! i) OR (v AND mmu_page_mask m))"
    using page_at [OF ok(1,2), of a v] ok(3) by (simp add: mmu_lookup_def tag ok(5))
  have old: "mmu_lookup m' b w = Some q" if "mmu_lookup m b w = Some q" for b w q
    using that ok(4) by (auto simp: mmu_lookup_def tag ok(5) find_append)
  have phy: "phy_page (page_list m' ! i) = push_bit (mmu_log_page_size m) (of_nat i)"
      "mmu_page_mask m = mask (mmu_log_page_size m)" "mmu_log_page_size m < 32"
    using ok(1,2,6) assms(1) by (simp_all add: mmu_ok_def)
  have i: "i \<le> length (page_list m)" using ok(2,4) by auto
  then have "i < 2 ^ (32 - mmu_log_page_size m)" "i < 2 ^ 31" using assms(2,3) by linarith+
  from phy_drop [OF this(1) phy(3), of v] sint_of_small [OF this(2)] ok(2)
  have "mmu_valid_phy_addr m' (phy_page (page_list m' ! i) OR (v AND mmu_page_mask m))"
    unfolding mmu_valid_phy_addr_def ok(6) phy(1,2) by (simp only:)
  with look old ok(1) g show ?thesis by (simp add: mmu_translate_def Let_def ok(5))
qed

text \<open>No two virtual addresses share a physical one: while the pages in use fit in the
  physical address space, addresses that translate to the same physical address are the same
  address of the same address space.\<close>

theorem mmu_translation_injective:
  assumes "mmu_ok m" "length (page_list m) \<le> 2 ^ (32 - mmu_log_page_size m)"
    and "mmu_lookup m a v = Some p" "mmu_lookup m b w = Some p"
  shows "(a, v) = (b, w)"
proof -
  let ?k = "mmu_log_page_size m"
  from lookup_SomeD [OF assms(1,3)] obtain i where i: "i < length (page_list m)"
      "page_key (page_list m ! i) = (a, mmu_tag m v)" "p = push_bit ?k (of_nat i) OR (v AND mask ?k)" by blast
  from lookup_SomeD [OF assms(1,4)] obtain j where j: "j < length (page_list m)"
      "page_key (page_list m ! j) = (b, mmu_tag m w)" "p = push_bit ?k (of_nat j) OR (w AND mask ?k)" by blast
  have k: "?k < 32" "mmu_page_mask m = mask ?k" using assms(1) by (simp_all add: mmu_ok_def)
  have lt: "i < 2 ^ (32 - ?k)" "j < 2 ^ (32 - ?k)" using i(1) j(1) assms(2) by linarith+
  have "(2 :: nat) ^ (32 - ?k) \<le> 2 ^ 32" by (rule power_increasing) simp_all
  moreover have "(of_nat i :: u32) = of_nat j"
    using phy_drop [OF lt(1) k(1), of v] phy_drop [OF lt(2) k(1), of w]
    unfolding i(3) [symmetric] j(3) [symmetric] by simp
  ultimately have "i = j" using of_nat_u32_eq_iff [of i j] lt by simp
  with i(2) j(2) have ab: "a = b" "mmu_tag m v = mmu_tag m w" by simp_all
  have "v AND mask ?k = w AND mask ?k"
    using phy_mask [of ?k i v] phy_mask [of ?k j w] i(3) j(3) by simp
  moreover have "x = (x AND NOT (mask ?k)) OR (x AND mask ?k)" for x :: u32
    by (rule bit_word_eqI) (auto simp: bit_simps)
  ultimately have "v = w" using ab(2) k(2) unfolding mmu_tag_def by metis
  with ab(1) show ?thesis by simp
qed

definition mmu_example :: mmu_t where
  "mmu_example = (case mmu_init 4096 of Inr m \<Rightarrow> m)"

lemma mmu_example_eq:
  "mmu_example = \<lparr>page_list = [], page_hash_table = (\<lambda>_. []), mmu_page_size = 4096,
     mmu_log_page_size = 12, mmu_page_mask = 4095, mmu_space_index = 0\<rparr>"
  by (simp add: mmu_example_def mmu_init_def log_base2_def log_base2_loop.simps)

lemma mmu_example_fields: "page_list mmu_example = []" "mmu_log_page_size mmu_example = 12"
  by (simp_all add: mmu_example_eq)

lemma mmu_example_ok: "mmu_ok mmu_example"
  by (simp add: mmu_ok_def mmu_example_eq mask_eq_exp_minus_1)

lemma mmu_translate_correct_witness:
  "case mmu_translate mmu_example 1 0x12345678 of (m', p) \<Rightarrow>
    mmu_ok m' \<and> mmu_lookup m' 1 0x12345678 = Some p \<and> mmu_valid_phy_addr m' p \<and>
    (\<forall>b w q. mmu_lookup mmu_example b w = Some q \<longrightarrow> mmu_lookup m' b w = Some q)"
  by (rule mmu_translate_correct) (simp_all add: mmu_example_ok mmu_example_fields)

lemma mmu_translation_injective_witness:
  "\<exists>m p. mmu_ok m \<and> mmu_lookup m 1 0x12345678 = Some p \<and>
    (\<forall>b w. mmu_lookup m b w = Some p \<longrightarrow> (1, 0x12345678) = (b, w))"
proof -
  define a v :: u32 where "a = 1" and "v = 0x12345678"
  obtain m p where t: "mmu_translate mmu_example a v = (m, p)" by fastforce
  note ok = get_page_ok [OF mmu_example_ok, of a v]
  have m: "m = fst (mmu_get_page mmu_example a v)"
    using t by (simp add: mmu_translate_def Let_def split: prod.splits)
  have "mmu_log_page_size m = 12" "length (page_list m) \<le> 1"
    using ok(4,6) by (auto simp: m mmu_example_fields)
  then have s: "length (page_list m) \<le> 2 ^ (32 - mmu_log_page_size m)" by simp
  have l: "mmu_ok m" "mmu_lookup m a v = Some p"
    using mmu_translate_correct [OF mmu_example_ok, of a v] t by (simp_all add: mmu_example_fields)
  from mmu_translation_injective [OF l(1) s l(2)] l show ?thesis unfolding a_def v_def by blast
qed

end
