(* ===== verification/Heap_Queue.thy ===== *)
theory Heap_Queue
  imports Prelude "HOL-Library.Product_Lexorder"
begin

text \<open>
  Binary heap of \<open>src/lib/struct/heap.c\<close>, keyed by a value and, for equal values, by the
  order of insertion. The cells below \<open>count\<close> are a list; \<open>size\<close> is the capacity of the
  array. Allocation does not fail. The locale \<open>priority_queue\<close> is what a client relies on.
\<close>

section \<open>State\<close>

datatype heap_error_t = HEAP_OK | HEAP_ENOMEM | HEAP_EEMPTY | HEAP_EELEM
datatype heap_time_policy_enum = heap_time_policy_fifo | heap_time_policy_lifo

record 'a heap_elem_t =
  he_time :: int
  he_value :: int
  he_data :: 'a

record 'a heap_t =
  hp_size :: nat
  hp_current :: int
  hp_error :: heap_error_t
  hp_time :: int
  hp_policy :: heap_time_policy_enum
  hp_elem :: "'a heap_elem_t list"

abbreviation hp_count :: "'a heap_t \<Rightarrow> nat" where "hp_count h \<equiv> length (hp_elem h)"

definition PARENT :: "nat \<Rightarrow> nat" where "PARENT x = (x - 1) div 2"
definition LEFT :: "nat \<Rightarrow> nat" where "LEFT x = x * 2 + 1"
definition RIGHT :: "nat \<Rightarrow> nat" where "RIGHT x = x * 2 + 2"

definition elem_less :: "heap_time_policy_enum \<Rightarrow> 'a heap_elem_t \<Rightarrow> 'a heap_elem_t \<Rightarrow> bool" where
  "elem_less policy x y =
     (if he_value x \<noteq> he_value y then he_value x < he_value y
      else if policy = heap_time_policy_fifo then he_time x < he_time y
      else he_time x > he_time y)"

text \<open>\<open>heap_less_than\<close> on the cells of an array.\<close>

definition heap_less_than :: "heap_time_policy_enum \<Rightarrow> 'a heap_elem_t list \<Rightarrow> nat \<Rightarrow> nat \<Rightarrow> bool" where
  "heap_less_than policy es x y = elem_less policy (es ! x) (es ! y)"

definition swap :: "'a list \<Rightarrow> nat \<Rightarrow> nat \<Rightarrow> 'a list" where
  "swap es i k = es[k := es ! i, i := es ! k]"

section \<open>Operations\<close>

definition heap_grow :: "'a heap_t \<Rightarrow> 'a heap_t" where
  "heap_grow h = h\<lparr>hp_size := hp_size h * 2\<rparr>"

definition smaller_child :: "heap_time_policy_enum \<Rightarrow> 'a heap_elem_t list \<Rightarrow> nat \<Rightarrow> nat" where
  "smaller_child p es i =
     (let l = LEFT i; r = RIGHT i; k = i;
          k = (if l < length es \<and> heap_less_than p es l k then l else k);
          k = (if r < length es \<and> heap_less_than p es r k then r else k)
      in k)"

lemma length_swap [simp]: "length (swap es i k) = length es"
  by (simp add: swap_def)

lemma smaller_child_gt:
  "smaller_child p es i \<noteq> i \<Longrightarrow> i < smaller_child p es i \<and> smaller_child p es i < length es"
  by (auto simp: smaller_child_def Let_def LEFT_def RIGHT_def split: if_splits)

function heapify :: "heap_time_policy_enum \<Rightarrow> 'a heap_elem_t list \<Rightarrow> nat \<Rightarrow> 'a heap_elem_t list" where
  "heapify p es i =
     (let k = smaller_child p es i in if k = i then es else heapify p (swap es i k) k)"
  by pat_completeness auto
termination
proof (relation "measure (\<lambda>(p, es, i). length es - i)", goal_cases)
  case (2 p es i k)
  then show ?case using smaller_child_gt [of p es i] by auto
qed simp

declare heapify.simps [simp del]

definition heap_create :: "nat \<Rightarrow> 'a heap_t" where
  "heap_create sz = \<lparr>hp_size = (if sz < 10 then 10 else sz), hp_current = 0, hp_error = HEAP_OK,
     hp_time = 0, hp_policy = heap_time_policy_fifo, hp_elem = []\<rparr>"

function sift_up :: "heap_time_policy_enum \<Rightarrow> 'a heap_elem_t list \<Rightarrow> nat \<Rightarrow> 'a heap_elem_t list" where
  "sift_up p es i =
     (if i > 0 \<and> heap_less_than p es i (PARENT i) then sift_up p (swap es i (PARENT i)) (PARENT i) else es)"
  by pat_completeness auto
termination by (relation "measure (\<lambda>(p, es, i). i)") (auto simp: PARENT_def)

declare sift_up.simps [simp del]

definition heap_insert :: "'a heap_t \<Rightarrow> int \<Rightarrow> 'a \<Rightarrow> 'a heap_t" where
  "heap_insert h v d =
     (let h = (if hp_count h = hp_size h then heap_grow h else h);
          i = hp_count h;
          es = hp_elem h @ [\<lparr>he_time = hp_time h, he_value = v, he_data = d\<rparr>]
      in h\<lparr>hp_time := hp_time h + 1, hp_elem := sift_up (hp_policy h) es i, hp_error := HEAP_OK\<rparr>)"

definition heap_peek :: "'a heap_t \<Rightarrow> 'a heap_t \<times> int \<times> 'a option" where
  "heap_peek h =
     (case hp_elem h of
        [] \<Rightarrow> (h\<lparr>hp_error := HEAP_EEMPTY\<rparr>, 0, None)
      | e # _ \<Rightarrow> (h\<lparr>hp_error := HEAP_OK\<rparr>, he_value e, Some (he_data e)))"

text \<open>The last cell goes to the root before the heap is repaired.\<close>

definition heap_extract :: "'a heap_t \<Rightarrow> 'a heap_t \<times> int \<times> 'a option" where
  "heap_extract h =
     (let (h, v, d) = heap_peek h in
      if hp_error h \<noteq> HEAP_OK then (h, 0, d)
      else
        let es = hp_elem h; es = butlast (es[0 := last es])
        in (h\<lparr>hp_elem := heapify (hp_policy h) es 0\<rparr>, v, d))"

definition heap_time_policy :: "'a heap_t \<Rightarrow> heap_time_policy_enum \<Rightarrow> 'a heap_t" where
  "heap_time_policy h p = h\<lparr>hp_policy := p, hp_error := HEAP_OK\<rparr>"

definition heap_first :: "'a heap_t \<Rightarrow> 'a heap_t \<times> int \<times> 'a option" where
  "heap_first h =
     (case hp_elem h of
        [] \<Rightarrow> (h\<lparr>hp_error := HEAP_EELEM\<rparr>, 0, None)
      | e # _ \<Rightarrow> (h\<lparr>hp_current := 0, hp_error := HEAP_OK\<rparr>, he_value e, Some (he_data e)))"

definition heap_next :: "'a heap_t \<Rightarrow> 'a heap_t \<times> int \<times> 'a option" where
  "heap_next h =
     (if hp_current h \<ge> int (hp_count h) - 1 then (h\<lparr>hp_error := HEAP_EELEM\<rparr>, 0, None)
      else
        let c = hp_current h + 1; e = hp_elem h ! nat c
        in (h\<lparr>hp_current := c, hp_error := HEAP_OK\<rparr>, he_value e, Some (he_data e)))"

section \<open>The heap order\<close>

definition hkey :: "heap_time_policy_enum \<Rightarrow> 'a heap_elem_t \<Rightarrow> int \<times> int" where
  "hkey p e = (he_value e, if p = heap_time_policy_fifo then he_time e else - he_time e)"

lemma elem_less_key: "elem_less p x y \<longleftrightarrow> hkey p x < hkey p y"
  by (auto simp: elem_less_def hkey_def less_prod_def)

lemma less_than_key: "heap_less_than p es x y \<longleftrightarrow> hkey p (es ! x) < hkey p (es ! y)"
  by (simp add: heap_less_than_def elem_less_key)

definition heap_ordered :: "heap_time_policy_enum \<Rightarrow> 'a heap_elem_t list \<Rightarrow> bool" where
  "heap_ordered p es \<longleftrightarrow>
     (\<forall>j. 0 < j \<longrightarrow> j < length es \<longrightarrow> hkey p (es ! PARENT j) \<le> hkey p (es ! j))"

text \<open>The order but for the children of \<open>i\<close> (sifting down), or for \<open>i\<close> itself (sifting up);
  the parent of \<open>i\<close> is below the children of \<open>i\<close> all the same.\<close>

definition bridge :: "heap_time_policy_enum \<Rightarrow> 'a heap_elem_t list \<Rightarrow> nat \<Rightarrow> bool" where
  "bridge p es i \<longleftrightarrow>
     (0 < i \<longrightarrow> (\<forall>c < length es. 0 < c \<longrightarrow> PARENT c = i \<longrightarrow> hkey p (es ! PARENT i) \<le> hkey p (es ! c)))"

definition down_ok :: "heap_time_policy_enum \<Rightarrow> 'a heap_elem_t list \<Rightarrow> nat \<Rightarrow> bool" where
  "down_ok p es i \<longleftrightarrow> bridge p es i \<and>
     (\<forall>j. 0 < j \<longrightarrow> j < length es \<longrightarrow> PARENT j \<noteq> i \<longrightarrow> hkey p (es ! PARENT j) \<le> hkey p (es ! j))"

definition up_ok :: "heap_time_policy_enum \<Rightarrow> 'a heap_elem_t list \<Rightarrow> nat \<Rightarrow> bool" where
  "up_ok p es i \<longleftrightarrow> bridge p es i \<and>
     (\<forall>j. 0 < j \<longrightarrow> j < length es \<longrightarrow> j \<noteq> i \<longrightarrow> hkey p (es ! PARENT j) \<le> hkey p (es ! j))"

lemma parent_less: "0 < j \<Longrightarrow> PARENT j < j"
  by (auto simp: PARENT_def)

lemma child_cases: "0 < j \<Longrightarrow> PARENT j = i \<longleftrightarrow> j = LEFT i \<or> j = RIGHT i"
  by (auto simp: PARENT_def LEFT_def RIGHT_def)

lemma parent_child [simp]: "PARENT (LEFT i) = i" "PARENT (RIGHT i) = i"
  by (auto simp: PARENT_def LEFT_def RIGHT_def)

lemma swap_nth:
  "i < length es \<Longrightarrow> k < length es \<Longrightarrow>
   swap es i k ! j = (if j = i then es ! k else if j = k then es ! i else es ! j)"
  by (auto simp: swap_def nth_list_update)

lemma mset_swap: "i < length es \<Longrightarrow> k < length es \<Longrightarrow> mset (swap es i k) = mset es"
  by (simp add: swap_def mset_swap)

lemma smaller_child_props:
  fixes p :: heap_time_policy_enum and es :: "'a heap_elem_t list" and i :: nat
  defines "k \<equiv> smaller_child p es i"
  shows "k = i \<Longrightarrow> 0 < j \<Longrightarrow> j < length es \<Longrightarrow> PARENT j = i \<Longrightarrow> hkey p (es ! i) \<le> hkey p (es ! j)"
    and "k \<noteq> i \<Longrightarrow> 0 < k \<and> k < length es \<and> PARENT k = i \<and> hkey p (es ! k) < hkey p (es ! i)"
    and "k \<noteq> i \<Longrightarrow> 0 < j \<Longrightarrow> j < length es \<Longrightarrow> PARENT j = i \<Longrightarrow> hkey p (es ! k) \<le> hkey p (es ! j)"
  unfolding k_def smaller_child_def Let_def less_than_key
  by (auto simp: child_cases LEFT_def RIGHT_def not_less split: if_splits)

lemma heapify_ok:
  "down_ok p es i \<Longrightarrow> i < length es \<or> es = [] \<Longrightarrow>
   heap_ordered p (heapify p es i) \<and> mset (heapify p es i) = mset es"
proof (induction p es i rule: heapify.induct)
  case (1 p es i)
  let ?k = "smaller_child p es i"
  show ?case
  proof (cases "?k = i")
    case True
    have "hkey p (es ! PARENT j) \<le> hkey p (es ! j)" if "0 < j" "j < length es" for j
      using "1.prems"(1) smaller_child_props(1) [OF True that] that
      by (cases "PARENT j = i") (auto simp: down_ok_def)
    then show ?thesis using True by (subst (1 2) heapify.simps) (simp add: heap_ordered_def)
  next
    case False
    note k = smaller_child_props(2) [OF False] and m = smaller_child_props(3) [OF False]
    then have i: "i < length es" using parent_less [of ?k] by auto
    let ?ys = "swap es i ?k"
    note nth = swap_nth [OF i conjunct1 [OF conjunct2 [OF k]]]
    have old: "hkey p (es ! PARENT j) \<le> hkey p (es ! j)" if "0 < j" "j < length es" "PARENT j \<noteq> i" for j
      using "1.prems"(1) that by (simp add: down_ok_def)
    have br: "hkey p (es ! PARENT i) \<le> hkey p (es ! c)" if "0 < i" "0 < c" "c < length es" "PARENT c = i" for c
      using "1.prems"(1) that by (auto simp: down_ok_def bridge_def)
    have "down_ok p ?ys ?k"
      unfolding down_ok_def bridge_def
    proof (intro conjI allI impI)
      fix c assume c: "0 < ?k" "c < length ?ys" "0 < c" "PARENT c = ?k"
      have "c \<noteq> i" using c parent_less [of c] k parent_less [of ?k] by auto
      moreover have "c \<noteq> ?k" using c(3,4) parent_less [of c] by auto
      moreover have "hkey p (es ! ?k) \<le> hkey p (es ! c)" using old [of c] c False by auto
      ultimately show "hkey p (?ys ! PARENT ?k) \<le> hkey p (?ys ! c)" using k by (simp add: nth)
    next
      fix j assume j: "0 < j" "j < length ?ys" "PARENT j \<noteq> ?k"
      show "hkey p (?ys ! PARENT j) \<le> hkey p (?ys ! j)"
      proof (cases "j = i")
        case True
        then show ?thesis using j br [of ?k] k parent_less [OF j(1)] by (auto simp: nth)
      next
        case ji: False
        show ?thesis
        proof (cases "PARENT j = i")
          case True
          then show ?thesis using j ji k m [of j] by (auto simp: nth)
        next
          case pj: False
          then have "j \<noteq> ?k" using k by auto
          then show ?thesis using pj ji j old [of j] by (simp add: nth)
        qed
      qed
    qed
    then have "heap_ordered p (heapify p ?ys ?k) \<and> mset (heapify p ?ys ?k) = mset ?ys"
      using "1.IH" [OF refl False] k by simp
    then show ?thesis using False mset_swap [OF i] k by (subst (1 2) heapify.simps) (simp add: Let_def)
  qed
qed

lemma sift_up_ok:
  "up_ok p es i \<Longrightarrow> i < length es \<Longrightarrow>
   heap_ordered p (sift_up p es i) \<and> mset (sift_up p es i) = mset es"
proof (induction p es i rule: sift_up.induct)
  case (1 p es i)
  show ?case
  proof (cases "i > 0 \<and> heap_less_than p es i (PARENT i)")
    case False
    have "hkey p (es ! PARENT j) \<le> hkey p (es ! j)" if "0 < j" "j < length es" for j
      using "1.prems"(1) False that by (cases "j = i") (auto simp: up_ok_def less_than_key)
    moreover have "sift_up p es i = es" by (subst sift_up.simps) (use False in auto)
    ultimately show ?thesis by (simp add: heap_ordered_def)
  next
    case True
    let ?q = "PARENT i"
    let ?ys = "swap es i ?q"
    have q: "?q < i" "?q < length es" using True "1.prems"(2) parent_less [of i] by auto
    have lt: "hkey p (es ! i) < hkey p (es ! ?q)" using True by (simp add: less_than_key)
    note nth = swap_nth [OF "1.prems"(2) q(2)]
    have old: "hkey p (es ! PARENT j) \<le> hkey p (es ! j)" if "0 < j" "j < length es" "j \<noteq> i" for j
      using "1.prems"(1) that by (simp add: up_ok_def)
    have br: "hkey p (es ! ?q) \<le> hkey p (es ! c)" if "0 < c" "c < length es" "PARENT c = i" for c
      using "1.prems"(1) that True by (auto simp: up_ok_def bridge_def)
    have "up_ok p ?ys ?q"
      unfolding up_ok_def bridge_def
    proof (intro conjI allI impI)
      fix c assume c: "0 < ?q" "c < length ?ys" "0 < c" "PARENT c = ?q"
      have pq: "PARENT ?q \<noteq> i" "PARENT ?q \<noteq> ?q" using parent_less [OF c(1)] q by auto
      have b: "hkey p (es ! PARENT ?q) \<le> hkey p (es ! ?q)" using old [of ?q] c(1) q by auto
      have "c \<noteq> ?q" using c(3,4) parent_less [of c] by auto
      then show "hkey p (?ys ! PARENT ?q) \<le> hkey p (?ys ! c)"
        using pq b old [of c] c by (cases "c = i") (auto simp: nth)
    next
      fix j assume j: "0 < j" "j < length ?ys" "j \<noteq> ?q"
      show "hkey p (?ys ! PARENT j) \<le> hkey p (?ys ! j)"
      proof (cases "j = i")
        case True
        then show ?thesis using lt j q by (auto simp: nth)
      next
        case ji: False
        show ?thesis
        proof (cases "PARENT j = i")
          case True
          then show ?thesis using br [of j] j ji q by (auto simp: nth)
        next
          case pj: False
          have "hkey p (es ! PARENT j) \<le> hkey p (es ! j)" using old j ji by simp
          then show ?thesis using pj ji j lt by (cases "PARENT j = ?q") (auto simp: nth)
        qed
      qed
    qed
    then have "heap_ordered p (sift_up p ?ys ?q) \<and> mset (sift_up p ?ys ?q) = mset ?ys"
      using "1.IH" [OF True] q by simp
    then show ?thesis using True mset_swap [OF "1.prems"(2) q(2)] by (subst (1 2) sift_up.simps) simp
  qed
qed

lemma root_minimal:
  "heap_ordered p es \<Longrightarrow> j < length es \<Longrightarrow> hkey p (es ! 0) \<le> hkey p (es ! j)"
proof (induction j rule: less_induct)
  case (less j)
  show ?case
  proof (cases "j = 0")
    case False
    then have "hkey p (es ! 0) \<le> hkey p (es ! PARENT j)"
      using less parent_less [of j] by auto
    also have "\<dots> \<le> hkey p (es ! j)" using less.prems False by (simp add: heap_ordered_def)
    finally show ?thesis .
  qed simp
qed

section \<open>The priority queue\<close>

text \<open>
  What a client relies on: a multiset of keyed elements, from which extraction takes a
  least one. Draining the queue gives its elements in order.
\<close>

locale priority_queue =
  fixes inv :: "'q \<Rightarrow> bool"
    and items :: "'q \<Rightarrow> 'e multiset"
    and key :: "'q \<Rightarrow> 'e \<Rightarrow> 'k :: linorder"
    and take_min :: "'q \<Rightarrow> ('e \<times> 'q) option"
  assumes take_None: "inv q \<Longrightarrow> take_min q = None \<longleftrightarrow> items q = {#}"
    and take_Some: "inv q \<Longrightarrow> take_min q = Some (e, q') \<Longrightarrow>
      inv q' \<and> key q' = key q \<and> items q = add_mset e (items q') \<and> (\<forall>x \<in># items q'. key q e \<le> key q x)"
begin

fun drain :: "nat \<Rightarrow> 'q \<Rightarrow> 'e list" where
  "drain 0 q = []"
| "drain (Suc n) q = (case take_min q of None \<Rightarrow> [] | Some (e, q) \<Rightarrow> e # drain n q)"

lemma drain_sorted:
  "inv q \<Longrightarrow> size (items q) \<le> n \<Longrightarrow> mset (drain n q) = items q \<and> sorted (map (key q) (drain n q))"
proof (induction n arbitrary: q)
  case (Suc n)
  show ?case
  proof (cases "take_min q")
    case None
    then have "items q = {#}" using take_None [OF Suc.prems(1)] by simp
    with None show ?thesis by simp
  next
    case (Some eq)
    then obtain e q' where q': "take_min q = Some (e, q')" by (cases eq) auto
    note t = take_Some [OF Suc.prems(1) q']
    then have IH: "mset (drain n q') = items q'" "sorted (map (key q) (drain n q'))"
      using Suc.IH [of q'] Suc.prems(2) by auto
    then have "set (drain n q') = set_mset (items q')" by (metis set_mset_mset)
    with t IH q' show ?thesis by simp
  qed
qed simp

text \<open>With different keys the order is the only possible one.\<close>

lemma drain_unique:
  assumes "inv q" "sorted (map (key q) es)" "mset es = items q" "distinct (map (key q) es)"
  shows "drain (length es) q = es"
proof -
  have "size (items q) = length es" using assms(3) by (metis size_mset)
  with drain_sorted [OF assms(1), of "length es"] have
    d: "mset (drain (length es) q) = mset es" "sorted (map (key q) (drain (length es) q))"
    using assms(3) by simp_all
  have "inj_on (key q) (set es)" using assms(4) by (simp add: distinct_map)
  moreover have "set (drain (length es) q) = set es" using d(1) by (metis set_mset_mset)
  moreover have "map (key q) (drain (length es) q) = map (key q) es"
    using d assms(2) by (metis mset_map properties_for_sort sorted_sort_id)
  ultimately show ?thesis by (metis map_inj_on sup.idem)
qed

end

definition heap_ok :: "'a heap_t \<Rightarrow> bool" where
  "heap_ok h \<longleftrightarrow> heap_ordered (hp_policy h) (hp_elem h) \<and> hp_count h \<le> hp_size h \<and> 0 < hp_size h \<and>
     (\<forall>e \<in> set (hp_elem h). he_time e < hp_time h) \<and> distinct (map he_time (hp_elem h))"

definition heap_take :: "'a heap_t \<Rightarrow> ('a heap_elem_t \<times> 'a heap_t) option" where
  "heap_take h =
     (case hp_elem h of [] \<Rightarrow> None | e # _ \<Rightarrow> Some (e, fst (heap_extract h)))"

definition heap_key :: "'a heap_t \<Rightarrow> 'a heap_elem_t \<Rightarrow> int \<times> int" where
  "heap_key h = hkey (hp_policy h)"

lemma heap_create_ok: "heap_ok (heap_create n)"
  by (simp add: heap_ok_def heap_create_def heap_ordered_def)

lemma insert_elems:
  assumes "heap_ok h"
  shows "heap_ok (heap_insert h v d) \<and>
    mset (hp_elem (heap_insert h v d)) =
      add_mset \<lparr>he_time = hp_time h, he_value = v, he_data = d\<rparr> (mset (hp_elem h))"
proof -
  let ?h = "if hp_count h = hp_size h then heap_grow h else h"
  let ?e = "\<lparr>he_time = hp_time h, he_value = v, he_data = d\<rparr>"
  let ?es = "hp_elem h @ [?e]" and ?n = "hp_count h"
  have h: "hp_elem ?h = hp_elem h" "hp_time ?h = hp_time h" "hp_policy ?h = hp_policy h"
      "Suc ?n \<le> hp_size ?h"
    using assms by (auto simp: heap_grow_def heap_ok_def)
  have nth: "?es ! j = hp_elem h ! j" if "j < ?n" for j using that by (simp add: nth_append)
  have "up_ok (hp_policy h) ?es ?n"
    unfolding up_ok_def bridge_def
  proof (intro conjI allI impI)
    fix c assume "0 < ?n" "c < length ?es" "0 < c" "PARENT c = ?n"
    then show "hkey (hp_policy h) (?es ! PARENT ?n) \<le> hkey (hp_policy h) (?es ! c)"
      using parent_less [of c] by auto
  next
    fix j assume j: "0 < j" "j < length ?es" "j \<noteq> ?n"
    then have "j < ?n" "PARENT j < ?n" using parent_less [of j] by auto
    with assms j(1) show "hkey (hp_policy h) (?es ! PARENT j) \<le> hkey (hp_policy h) (?es ! j)"
      by (simp add: nth heap_ok_def heap_ordered_def)
  qed
  from sift_up_ok [OF this] have s: "heap_ordered (hp_policy h) (sift_up (hp_policy h) ?es ?n)"
      "mset (sift_up (hp_policy h) ?es ?n) = add_mset ?e (mset (hp_elem h))" by auto
  have len: "length (sift_up (hp_policy h) ?es ?n) = Suc ?n"
    using s(2) by (metis size_add_mset size_mset)
  have st: "set (sift_up (hp_policy h) ?es ?n) = insert ?e (set (hp_elem h))"
    using s(2) by (metis set_mset_add_mset_insert set_mset_mset)
  have "mset (map he_time (sift_up (hp_policy h) ?es ?n)) = mset (hp_time h # map he_time (hp_elem h))"
    using s(2) by simp
  moreover have "distinct (hp_time h # map he_time (hp_elem h))"
    using assms by (auto simp: heap_ok_def)
  ultimately have "distinct (map he_time (sift_up (hp_policy h) ?es ?n))"
    by (metis mset_eq_imp_distinct_iff)
  with s len st h assms show ?thesis
    by (auto simp: heap_ok_def heap_insert_def Let_def)
qed

lemma extract_elems:
  assumes "heap_ok h" "hp_elem h = e # es"
  shows "heap_extract h = (fst (heap_extract h), he_value e, Some (he_data e))"
    "heap_ok (fst (heap_extract h))" "mset (hp_elem (fst (heap_extract h))) = mset es"
    "hp_policy (fst (heap_extract h)) = hp_policy h" "hp_error (fst (heap_extract h)) = HEAP_OK"
    "hp_time (fst (heap_extract h)) = hp_time h"
proof -
  let ?es = "butlast ((e # es)[0 := last (e # es)])" and ?p = "hp_policy h"
  have m: "mset ?es = mset es"
  proof (cases es rule: rev_cases)
    case (snoc ys y)
    then show ?thesis by (simp add: butlast_append)
  qed simp
  have ho: "heap_ordered ?p (e # es)" using assms by (simp add: heap_ok_def)
  have "down_ok ?p ?es 0"
    unfolding down_ok_def bridge_def
  proof (intro conjI allI impI)
    fix j assume j: "0 < j" "j < length ?es" "PARENT j \<noteq> 0"
    have nth: "?es ! k = (e # es) ! k" if "0 < k" "k < length ?es" for k
      using that by (cases es rule: rev_cases) (auto simp: butlast_append nth_append nth_Cons')
    have p: "0 < PARENT j" "PARENT j < length ?es" using j parent_less [of j] by auto
    have l: "j < length (e # es)" using j(2) by (cases "es = []") simp_all
    have "hkey ?p ((e # es) ! PARENT j) \<le> hkey ?p ((e # es) ! j)"
      using ho l j(1) unfolding heap_ordered_def by blast
    then show "hkey ?p (?es ! PARENT j) \<le> hkey ?p (?es ! j)"
      unfolding nth [OF j(1,2)] nth [OF p] .
  qed simp
  then have hy: "heap_ordered ?p (heapify ?p ?es 0)" "mset (heapify ?p ?es 0) = mset es"
    using heapify_ok [of ?p ?es 0] m by (cases "?es = []"; simp)+
  have x: "heap_extract h = (h\<lparr>hp_error := HEAP_OK, hp_elem := heapify ?p ?es 0\<rparr>, he_value e, Some (he_data e))"
    using assms(2) by (simp add: heap_extract_def heap_peek_def Let_def)
  show "heap_extract h = (fst (heap_extract h), he_value e, Some (he_data e))"
    "mset (hp_elem (fst (heap_extract h))) = mset es"
    "hp_policy (fst (heap_extract h)) = hp_policy h" "hp_error (fst (heap_extract h)) = HEAP_OK"
    "hp_time (fst (heap_extract h)) = hp_time h"
    using hy(2) by (simp_all add: x)
  have len: "length (heapify ?p ?es 0) = length es" using hy(2) by (metis size_mset)
  have st: "set (heapify ?p ?es 0) = set es" using hy(2) by (metis set_mset_mset)
  have "mset (map he_time (heapify ?p ?es 0)) = mset (map he_time es)" using hy(2) by simp
  moreover have "distinct (map he_time es)" using assms by (simp add: heap_ok_def)
  ultimately have "distinct (map he_time (heapify ?p ?es 0))"
    using mset_eq_imp_distinct_iff by blast
  with hy(1) len st assms show "heap_ok (fst (heap_extract h))"
    by (auto simp: x heap_ok_def)
qed

lemma take_elems:
  assumes "heap_ok h" "heap_take h = Some (e, h')"
  shows "heap_ok h' \<and> heap_key h' = heap_key h \<and> mset (hp_elem h) = add_mset e (mset (hp_elem h')) \<and>
    (\<forall>x \<in># mset (hp_elem h'). heap_key h e \<le> heap_key h x)"
proof -
  from assms(2) obtain es where es: "hp_elem h = e # es" "h' = fst (heap_extract h)"
    by (auto simp: heap_take_def split: list.splits)
  note x = extract_elems [OF assms(1) es(1)]
  have "heap_key h e \<le> heap_key h x" if "x \<in> set es" for x
  proof -
    from that obtain j where "j < length es" "es ! j = x" by (auto simp: in_set_conv_nth)
    with root_minimal [of "hp_policy h" "hp_elem h" "Suc j"] assms(1) es(1) show ?thesis
      by (simp add: heap_ok_def heap_key_def)
  qed
  moreover have "set (hp_elem h') = set es" using x(3) es(2) by (metis set_mset_mset)
  ultimately show ?thesis using x es by (simp add: heap_key_def)
qed

interpretation heap_pq: priority_queue heap_ok "\<lambda>h. mset (hp_elem h)" heap_key heap_take
proof
  fix q :: "'a heap_t"
  show "heap_take q = None \<longleftrightarrow> mset (hp_elem q) = {#}"
    by (auto simp: heap_take_def split: list.split)
qed (rule take_elems)

text \<open>An insertion adds exactly its element, stamped later than every element present, and
  keeps the heap order; growing the array loses nothing.\<close>

theorem heap_insert_correct:
  assumes "heap_ok h"
  shows "heap_ok (heap_insert h v d) \<and> hp_error (heap_insert h v d) = HEAP_OK \<and>
    mset (hp_elem (heap_insert h v d)) =
      add_mset \<lparr>he_time = hp_time h, he_value = v, he_data = d\<rparr> (mset (hp_elem h))"
  using insert_elems [OF assms, of v d] by (simp add: heap_insert_def Let_def)

lemma heap_insert_correct_witness:
  "heap_ok (heap_insert (heap_create 0) 5 ''x'') \<and> hp_error (heap_insert (heap_create 0) 5 ''x'') = HEAP_OK \<and>
    mset (hp_elem (heap_insert (heap_create 0) 5 ''x'')) =
      add_mset \<lparr>he_time = hp_time (heap_create 0 :: char list heap_t), he_value = 5, he_data = ''x''\<rparr>
        (mset (hp_elem (heap_create 0)))"
  by (rule heap_insert_correct [OF heap_create_ok])

text \<open>C28: an extraction from a non-empty heap returns the value and data of a least element in
  the order of values and, for equal values, of insertion (first in first out, or last in
  first out under the other policy), and leaves the other elements.\<close>

theorem heap_extract_min:
  assumes "heap_ok h" "hp_elem h \<noteq> []"
  shows "\<exists>e h'. heap_extract h = (h', he_value e, Some (he_data e)) \<and> heap_ok h' \<and>
    mset (hp_elem h) = add_mset e (mset (hp_elem h')) \<and>
    (\<forall>x \<in># mset (hp_elem h'). \<not> elem_less (hp_policy h) x e)"
proof -
  from assms(2) obtain e es where es: "hp_elem h = e # es" by (cases "hp_elem h") auto
  then have t: "heap_take h = Some (e, fst (heap_extract h))" by (simp add: heap_take_def)
  from take_elems [OF assms(1) t] extract_elems(1) [OF assms(1) es] show ?thesis
    by (intro exI [of _ e] exI [of _ "fst (heap_extract h)"]) (simp add: heap_key_def elem_less_key not_less)
qed

lemma heap_extract_min_witness:
  "\<exists>e h'. heap_extract (heap_insert (heap_create 0) 5 True) = (h', he_value e, Some (he_data e)) \<and> heap_ok h' \<and>
    mset (hp_elem (heap_insert (heap_create 0) 5 True)) = add_mset e (mset (hp_elem h')) \<and>
    (\<forall>x \<in># mset (hp_elem h'). \<not> elem_less (hp_policy (heap_insert (heap_create 0) 5 True)) x e)"
proof (rule heap_extract_min)
  have i: "mset (hp_elem (heap_insert (heap_create 0) 5 True)) \<noteq> {#}"
    using insert_elems [OF heap_create_ok, of 0 5 True] by simp
  then show "hp_elem (heap_insert (heap_create 0) 5 True) \<noteq> []" by auto
  show "heap_ok (heap_insert (heap_create 0) 5 True)"
    using insert_elems [OF heap_create_ok, of 0 5 True] by simp
qed

end
