(* ===== verification/Esim.thy ===== *)
theory Esim
  imports Heap_Queue Linked_List
begin

text \<open>
  Event-driven simulation engine (\<open>src/lib/esim/esim.c\<close>). The globals of the module are
  the fields of the state. The function pointers of the registered handlers are a parameter:
  \<open>h eid data (s, w)\<close> is the handler registered under \<open>eid\<close>, run on the engine's state and
  the rest of the program's state \<open>w\<close>; the event information says which events have one.
  Loops that go on for as long as handlers keep scheduling are \<open>None\<close> when they do not end.
  The global timer and all printing are left out.
\<close>

section \<open>State\<close>

abbreviation ESIM_OVERLOAD_EVENTS :: nat where "ESIM_OVERLOAD_EVENTS \<equiv> 10000"
abbreviation ESIM_MAX_FINALIZATION_EVENTS :: nat where "ESIM_MAX_FINALIZATION_EVENTS \<equiv> 10000000"

record esim_event_info_t =
  ei_id :: int
  ei_name :: string
  ei_has_handler :: bool

record 'd esim_event_t =
  ev_id :: int
  ev_data :: 'd

record 'd esim_t =
  esim_cycle :: int
  esim_lock_schedule :: bool
  esim_overload_shown :: bool
  esim_ev_invalid :: int
  esim_ev_none :: int
  esim_event_info_list :: "esim_event_info_t list"
  esim_event_heap :: "'d esim_event_t heap_t"
  esim_end_event_list :: "'d esim_event_t linked_list_t"

type_synonym ('d, 'w) handler = "int \<Rightarrow> 'd \<Rightarrow> 'd esim_t \<times> 'w \<Rightarrow> ('d esim_t \<times> 'w) res"

section \<open>Registration and scheduling\<close>

definition esim_register_event_with_name :: "'d esim_t \<Rightarrow> bool \<Rightarrow> string \<Rightarrow> 'd esim_t \<times> int" where
  "esim_register_event_with_name s has_handler name =
     (let eid = int (length (esim_event_info_list s))
      in (s\<lparr>esim_event_info_list := esim_event_info_list s @
              [\<lparr>ei_id = eid, ei_name = name, ei_has_handler = has_handler\<rparr>]\<rparr>, eid))"

definition esim_init :: "'d esim_t" where
  "esim_init =
     (let s = \<lparr>esim_cycle = 1, esim_lock_schedule = False, esim_overload_shown = False,
               esim_ev_invalid = 0, esim_ev_none = 0, esim_event_info_list = [],
               esim_event_heap = heap_create 20, esim_end_event_list = linked_list_create\<rparr>;
          (s, invalid) = esim_register_event_with_name s False ''esim_invalid'';
          s = s\<lparr>esim_ev_invalid := invalid\<rparr>;
          (s, none) = esim_register_event_with_name s False ''esim_none''
      in s\<lparr>esim_ev_none := none\<rparr>)"

definition unknown_event :: "'d esim_t \<Rightarrow> int \<Rightarrow> bool" where
  "unknown_event s eid \<longleftrightarrow> eid < 0 \<or> eid \<ge> int (length (esim_event_info_list s))"

definition esim_schedule_event :: "'d esim_t \<Rightarrow> int \<Rightarrow> 'd \<Rightarrow> int \<Rightarrow> 'd esim_t res" where
  "esim_schedule_event s eid data after =
     (let when = esim_cycle s + after in
      if esim_lock_schedule s then Inr s
      else if unknown_event s eid then Inl (Panic ''unknown event'')
      else if when < esim_cycle s then Inl (Panic ''event scheduled in the past'')
      else if eid = 0 then Inl (Panic ''invalid event'')
      else if eid = esim_ev_none s then Inr s
      else
        let heap = heap_insert (esim_event_heap s) when \<lparr>ev_id = eid, ev_data = data\<rparr>
        in Inr (s\<lparr>esim_event_heap := heap,
                  esim_overload_shown := (esim_overload_shown s \<or> hp_count heap \<ge> ESIM_OVERLOAD_EVENTS)\<rparr>))"

definition esim_schedule_end_event :: "'d esim_t \<Rightarrow> int \<Rightarrow> 'd \<Rightarrow> 'd esim_t res" where
  "esim_schedule_end_event s eid data =
     (if esim_lock_schedule s then Inr s
      else if unknown_event s eid then Inl (Panic ''unknown event'')
      else if eid = 0 then Inl (Panic ''invalid event'')
      else if eid = esim_ev_none s then Inr s
      else Inr (s\<lparr>esim_end_event_list :=
                    linked_list_add (esim_end_event_list s) \<lparr>ev_id = eid, ev_data = data\<rparr>\<rparr>))"

text \<open>\<open>event_info = list_get(...); assert(event_info && event_info->handler); handler(...)\<close>\<close>

definition call_handler :: "('d, 'w) handler \<Rightarrow> int \<Rightarrow> 'd \<Rightarrow> 'd esim_t \<times> 'w \<Rightarrow> ('d esim_t \<times> 'w) res" where
  "call_handler h eid data sw =
     (let infos = esim_event_info_list (fst sw) in
      if 0 \<le> eid \<and> eid < int (length infos) \<and> ei_has_handler (infos ! nat eid)
      then h eid data sw else Inl Assert_failed)"

definition esim_execute_event ::
  "('d, 'w) handler \<Rightarrow> int \<Rightarrow> 'd \<Rightarrow> 'd esim_t \<times> 'w \<Rightarrow> ('d esim_t \<times> 'w) res" where
  "esim_execute_event h eid data sw =
     (let s = fst sw in
      if esim_lock_schedule s then Inr sw
      else if unknown_event s eid then Inl (Panic ''unknown event'')
      else if eid = 0 then Inl (Panic ''invalid event'')
      else if eid = esim_ev_none s then Inr sw
      else call_handler h eid data sw)"

section \<open>Processing\<close>

partial_function (option) process_loop ::
  "('d, 'w) handler \<Rightarrow> 'd esim_t \<times> 'w \<Rightarrow> ('d esim_t \<times> 'w) res option" where
  "process_loop h sw =
     (let s = fst sw; (heap, when, event) = heap_peek (esim_event_heap s);
          s = s\<lparr>esim_event_heap := heap\<rparr>
      in case event of
        None \<Rightarrow> Some (Inr (s, snd sw))
      | Some ev \<Rightarrow>
          if \<not> when \<ge> esim_cycle s then Some (Inl Assert_failed)
          else if when \<noteq> esim_cycle s then Some (Inr (s, snd sw))
          else
            let s = s\<lparr>esim_event_heap := fst (heap_extract (esim_event_heap s))\<rparr>
            in case call_handler h (ev_id ev) (ev_data ev) (s, snd sw) of
                 Inl e \<Rightarrow> Some (Inl e)
               | Inr sw \<Rightarrow> process_loop h sw)"

definition esim_process_events ::
  "('d, 'w) handler \<Rightarrow> 'd esim_t \<times> 'w \<Rightarrow> ('d esim_t \<times> 'w) res option" where
  "esim_process_events h sw =
     map_option (\<lambda>r. res_bind r (\<lambda>(s, w). Inr (s\<lparr>esim_cycle := esim_cycle s + 1\<rparr>, w))) (process_loop h sw)"

text \<open>Draining stops with an error after \<open>ESIM_MAX_FINALIZATION_EVENTS\<close> events; the first
  argument is how many are left until then.\<close>

primrec drain_loop :: "nat \<Rightarrow> ('d, 'w) handler \<Rightarrow> 'd esim_t \<times> 'w \<Rightarrow> ('d esim_t \<times> 'w) res" where
  "drain_loop 0 h sw = Inl (Fatal ''number of finalization events exceeded'')"
| "drain_loop (Suc n) h sw =
     (let s = fst sw; (heap, cycle, event) = heap_extract (esim_event_heap s);
          s = s\<lparr>esim_event_heap := heap\<rparr>
      in case event of
        None \<Rightarrow> Inr (s, snd sw)
      | Some ev \<Rightarrow>
          res_bind (call_handler h (ev_id ev) (ev_data ev) (s\<lparr>esim_cycle := cycle\<rparr>, snd sw)) (\<lambda>sw.
          if n = 0 then Inl (Fatal ''number of finalization events exceeded'')
          else drain_loop n h sw))"

definition esim_drain_heap :: "('d, 'w) handler \<Rightarrow> 'd esim_t \<times> 'w \<Rightarrow> ('d esim_t \<times> 'w) res" where
  "esim_drain_heap h sw = drain_loop ESIM_MAX_FINALIZATION_EVENTS h sw"

partial_function (option) end_events_loop ::
  "('d, 'w) handler \<Rightarrow> 'd esim_t \<times> 'w \<Rightarrow> ('d esim_t \<times> 'w) res option" where
  "end_events_loop h sw =
     (let s = fst sw in
      if linked_list_count (esim_end_event_list s) = 0 then Some (Inr sw)
      else case linked_list_get (linked_list_head (esim_end_event_list s)) of
        Inl e \<Rightarrow> Some (Inl e)
      | Inr (l, event) \<Rightarrow>
          (case linked_list_remove l of
             Inl e \<Rightarrow> Some (Inl e)
           | Inr l \<Rightarrow>
               (case event of
                  None \<Rightarrow> Some (Inl Null_deref)
                | Some ev \<Rightarrow>
                    (case call_handler h (ev_id ev) (ev_data ev) (s\<lparr>esim_end_event_list := l\<rparr>, snd sw) of
                       Inl e \<Rightarrow> Some (Inl e)
                     | Inr sw \<Rightarrow> end_events_loop h sw))))"

definition esim_process_all_events ::
  "('d, 'w) handler \<Rightarrow> 'd esim_t \<times> 'w \<Rightarrow> ('d esim_t \<times> 'w) res option" where
  "esim_process_all_events h sw =
     (case esim_drain_heap h sw of
        Inl e \<Rightarrow> Some (Inl e)
      | Inr sw \<Rightarrow>
          map_option (\<lambda>r. res_bind r (esim_drain_heap h)) (end_events_loop h sw))"

partial_function (option) empty_loop ::
  "('d, 'w) handler \<Rightarrow> 'd esim_t \<times> 'w \<Rightarrow> ('d esim_t \<times> 'w) res option" where
  "empty_loop h sw =
     (let s = fst sw; (heap, cycle, event) = heap_extract (esim_event_heap s);
          s = s\<lparr>esim_event_heap := heap\<rparr>
      in case event of
        None \<Rightarrow> Some (Inr (s, snd sw))
      | Some ev \<Rightarrow>
          (case call_handler h (ev_id ev) (ev_data ev) (s, snd sw) of
             Inl e \<Rightarrow> Some (Inl e)
           | Inr sw \<Rightarrow> empty_loop h sw))"

definition esim_empty ::
  "('d, 'w) handler \<Rightarrow> 'd esim_t \<times> 'w \<Rightarrow> ('d esim_t \<times> 'w) res option" where
  "esim_empty h sw =
     map_option (\<lambda>r. res_bind r (\<lambda>(s, w). Inr (s\<lparr>esim_lock_schedule := False\<rparr>, w)))
       (empty_loop h ((fst sw)\<lparr>esim_lock_schedule := True\<rparr>, snd sw))"

definition esim_event_count :: "'d esim_t \<Rightarrow> nat" where
  "esim_event_count s = hp_count (esim_event_heap s)"

section \<open>Dumping\<close>

text \<open>What \<open>esim_dump\<close> does to the heap: it moves up to \<open>max\<close> events (all for 0) to another
  heap, in order, and inserts them again.\<close>

lemma length_heapify [simp]: "length (heapify p es i) = length es"
proof (induction p es i rule: heapify.induct)
  case (1 p es i)
  then show ?case by (subst heapify.simps) (simp add: Let_def)
qed

lemma count_extract: "hp_elem h \<noteq> [] \<Longrightarrow> hp_count (fst (heap_extract h)) < hp_count h"
  by (cases "hp_elem h") (auto simp: heap_extract_def heap_peek_def Let_def)

function dump_loop :: "nat \<Rightarrow> 'a heap_t \<Rightarrow> 'a heap_t \<Rightarrow> 'a heap_t \<times> 'a heap_t" where
  "dump_loop mx heap aux =
     (if mx \<noteq> 0 \<and> hp_count aux = mx \<or> hp_elem heap = [] then (heap, aux)
      else case heap_extract heap of
        (heap', cycle, Some ev) \<Rightarrow> dump_loop mx (fst (heap_extract heap)) (heap_insert aux cycle ev)
      | (heap', cycle, None) \<Rightarrow> (heap', aux))"
  by pat_completeness auto
termination
  by (relation "measure (\<lambda>(mx, heap, aux). hp_count heap)") (auto simp: count_extract)

function undump_loop :: "'a heap_t \<Rightarrow> 'a heap_t \<Rightarrow> 'a heap_t" where
  "undump_loop heap aux =
     (if hp_elem aux = [] then heap
      else case heap_extract aux of
        (aux', cycle, Some ev) \<Rightarrow> undump_loop (heap_insert heap cycle ev) (fst (heap_extract aux))
      | (aux', cycle, None) \<Rightarrow> heap)"
  by pat_completeness auto
termination
  by (relation "measure (\<lambda>(heap, aux). hp_count aux)") (auto simp: count_extract)

declare dump_loop.simps [simp del] undump_loop.simps [simp del]

definition esim_dump :: "'d esim_t \<Rightarrow> nat \<Rightarrow> 'd esim_t" where
  "esim_dump s mx =
     (let (heap, aux) = dump_loop mx (esim_event_heap s) (heap_create mx)
      in s\<lparr>esim_event_heap := undump_loop heap aux\<rparr>)"

section \<open>Order and progress\<close>

text \<open>
  A state between events: the heap is a first-in first-out queue, nothing in it is in the
  past, and every event but the two reserved ones has a handler.
\<close>

definition info_ok :: "'d esim_t \<Rightarrow> int \<Rightarrow> bool" where
  "info_ok s eid \<longleftrightarrow> 0 \<le> eid \<and> eid < int (length (esim_event_info_list s)) \<and>
     ei_has_handler (esim_event_info_list s ! nat eid)"

definition esim_ok :: "'d esim_t \<Rightarrow> bool" where
  "esim_ok s \<longleftrightarrow> heap_ok (esim_event_heap s) \<and> hp_policy (esim_event_heap s) = heap_time_policy_fifo \<and>
     (\<forall>e \<in> set (hp_elem (esim_event_heap s)).
        esim_cycle s \<le> he_value e \<and> info_ok s (ev_id (he_data e))) \<and>
     esim_ev_none s = 1 \<and> (\<forall>i. 1 < i \<longrightarrow> \<not> unknown_event s i \<longrightarrow> info_ok s i)"

definition due :: "'d esim_t \<Rightarrow> 'd esim_event_t heap_elem_t multiset" where
  "due s = {# e \<in># mset (hp_elem (esim_event_heap s)). he_value e = esim_cycle s #}"

text \<open>
  What the engine relies on from a handler: it returns, leaves the engine in order and in
  the same cycle, and schedules nothing for that cycle. \<open>J\<close> is what it does to the rest of
  the program's state, given the events handled before.
\<close>

definition handler_contract ::
  "('d, 'w) handler \<Rightarrow> ('w \<Rightarrow> 'd esim_event_t list \<Rightarrow> bool) \<Rightarrow> bool" where
  "handler_contract h J \<longleftrightarrow>
     (\<forall>ev s w done. esim_ok s \<longrightarrow> info_ok s (ev_id ev) \<longrightarrow> J w done \<longrightarrow>
        (\<exists>s' w'. h (ev_id ev) (ev_data ev) (s, w) = Inr (s', w') \<and> esim_ok s' \<and>
                 esim_cycle s' = esim_cycle s \<and> due s' = due s \<and> J w' (done @ [ev])))"

lemma schedule_ok:
  assumes "esim_ok s" "\<not> esim_lock_schedule s" "\<not> unknown_event s eid" "eid \<noteq> 0" "0 \<le> after"
  shows "\<exists>s'. esim_schedule_event s eid data after = Inr s' \<and> esim_ok s' \<and> esim_cycle s' = esim_cycle s \<and>
    (eid \<noteq> 1 \<longrightarrow> mset (hp_elem (esim_event_heap s')) =
       add_mset \<lparr>he_time = hp_time (esim_event_heap s), he_value = esim_cycle s + after,
                 he_data = \<lparr>ev_id = eid, ev_data = data\<rparr>\<rparr> (mset (hp_elem (esim_event_heap s)))) \<and>
    (eid = 1 \<longrightarrow> s' = s)"
proof (cases "eid = 1")
  case True
  with assms show ?thesis by (simp add: esim_schedule_event_def esim_ok_def)
next
  case False
  let ?h = "heap_insert (esim_event_heap s) (esim_cycle s + after) \<lparr>ev_id = eid, ev_data = data\<rparr>"
  let ?s = "s\<lparr>esim_event_heap := ?h,
      esim_overload_shown := (esim_overload_shown s \<or> hp_count ?h \<ge> ESIM_OVERLOAD_EVENTS)\<rparr>"
  have hk: "heap_ok (esim_event_heap s)" using assms(1) by (simp add: esim_ok_def)
  note ins = insert_elems [OF hk, of "esim_cycle s + after" "\<lparr>ev_id = eid, ev_data = data\<rparr>"]
  then have st: "set (hp_elem ?h) = insert \<lparr>he_time = hp_time (esim_event_heap s), he_value = esim_cycle s + after,
                 he_data = \<lparr>ev_id = eid, ev_data = data\<rparr>\<rparr> (set (hp_elem (esim_event_heap s)))"
    by (metis set_mset_add_mset_insert set_mset_mset)
  have "1 < eid" using assms(3,4) False by (auto simp: unknown_event_def)
  then have ev: "info_ok s eid" using assms(1,3) by (simp add: esim_ok_def)
  have inf: "info_ok ?s i = info_ok s i" "unknown_event ?s i = unknown_event s i" for i
    by (simp_all add: info_ok_def unknown_event_def)
  have pol: "hp_policy ?h = hp_policy (esim_event_heap s)" by (simp add: heap_insert_def Let_def heap_grow_def)
  have "esim_ok ?s"
    using assms(1,5) ins st ev pol unfolding esim_ok_def inf by simp
  moreover have "esim_schedule_event s eid data after = Inr ?s"
    using assms False by (simp add: esim_schedule_event_def esim_ok_def Let_def)
  ultimately show ?thesis using False ins by simp
qed

lemma esim_init_ok: "esim_ok esim_init"
  by (auto simp: esim_init_def esim_register_event_with_name_def esim_ok_def heap_create_ok unknown_event_def)
     (simp_all add: heap_create_def)

lemma register_ok:
  assumes "esim_ok s"
  shows "esim_ok (fst (esim_register_event_with_name s True name))"
proof -
  let ?s = "fst (esim_register_event_with_name s True name)"
  have "info_ok s i \<Longrightarrow> info_ok ?s i" for i
    by (auto simp: info_ok_def esim_register_event_with_name_def Let_def nth_append nat_less_iff)
  moreover have "info_ok ?s i" if "\<not> unknown_event ?s i" "unknown_event s i" for i
    using that by (auto simp: info_ok_def unknown_event_def esim_register_event_with_name_def Let_def nth_append
        nat_less_iff)
  moreover have "esim_event_heap ?s = esim_event_heap s" "esim_cycle ?s = esim_cycle s" "esim_ev_none ?s = esim_ev_none s"
    by (simp_all add: esim_register_event_with_name_def Let_def)
  ultimately show ?thesis using assms unfolding esim_ok_def by metis
qed

lemma esim_ok_error [simp]:
  "esim_ok (s\<lparr>esim_event_heap := (esim_event_heap s)\<lparr>hp_error := e\<rparr>\<rparr>) = esim_ok s"
  "due (s\<lparr>esim_event_heap := (esim_event_heap s)\<lparr>hp_error := e\<rparr>\<rparr>) = due s"
  by (simp_all add: esim_ok_def heap_ok_def info_ok_def unknown_event_def due_def)

lemma process_loop_ok:
  assumes "handler_contract h J"
  shows "esim_ok s \<Longrightarrow> J w before \<Longrightarrow> \<exists>s' w' es. process_loop h (s, w) = Some (Inr (s', w')) \<and> esim_ok s' \<and>
    esim_cycle s' = esim_cycle s \<and> due s' = {#} \<and>
    mset es = due s \<and> sorted (map he_time es) \<and> J w' (before @ map he_data es)"
proof (induction "size (due s)" arbitrary: s w before rule: less_induct)
  case less
  let ?heap = "esim_event_heap s"
  have hk: "heap_ok ?heap" and fifo: "hp_policy ?heap = heap_time_policy_fifo"
    using less.prems(1) by (simp_all add: esim_ok_def)
  show ?case
  proof (cases "hp_elem ?heap")
    case Nil
    then have "process_loop h (s, w) = Some (Inr (s\<lparr>esim_event_heap := ?heap\<lparr>hp_error := HEAP_EEMPTY\<rparr>\<rparr>, w))"
      by (subst process_loop.simps) (simp add: heap_peek_def Let_def)
    moreover have "due s = {#}" using Nil by (simp add: due_def)
    ultimately show ?thesis using less.prems by (auto intro!: exI [of _ "[]"])
  next
    case (Cons e es)
    let ?peek = "?heap\<lparr>hp_error := HEAP_OK\<rparr>"
    have peek: "heap_peek ?heap = (?peek, he_value e, Some (he_data e))"
      using Cons by (simp add: heap_peek_def)
    have ev: "esim_cycle s \<le> he_value e" "info_ok s (ev_id (he_data e))"
      using less.prems(1) Cons by (simp_all add: esim_ok_def)
    show ?thesis
    proof (cases "he_value e = esim_cycle s")
      case False
      have min: "hkey (hp_policy ?heap) e \<le> hkey (hp_policy ?heap) x" if "x \<in> set es" for x
      proof -
        from that obtain j where "j < length es" "es ! j = x" by (auto simp: in_set_conv_nth)
        with root_minimal [of "hp_policy ?heap" "hp_elem ?heap" "Suc j"] hk Cons show ?thesis
          by (simp add: heap_ok_def)
      qed
      have "esim_cycle s < he_value x" if "x \<in> set (hp_elem ?heap)" for x
      proof (cases "x = e")
        case True
        with False ev(1) show ?thesis by simp
      next
        case x: False
        then have "he_value e \<le> he_value x" using min [of x] that Cons by (auto simp: hkey_def less_eq_prod_def)
        with False ev(1) show ?thesis by simp
      qed
      then have "\<forall>x \<in> set (hp_elem ?heap). he_value x \<noteq> esim_cycle s" by fastforce
      then have "due s = {#}" by (simp add: due_def filter_mset_eq_mempty_iff)
      moreover have "process_loop h (s, w) = Some (Inr (s\<lparr>esim_event_heap := ?peek\<rparr>, w))"
        using False ev(1) by (subst process_loop.simps) (simp add: peek Let_def)
      ultimately show ?thesis using less.prems by (auto intro!: exI [of _ "[]"])
    next
      case now: True
      have pk: "heap_ok ?peek" "hp_elem ?peek = e # es" using hk Cons by (simp_all add: heap_ok_def)
      note x = extract_elems [OF pk]
      let ?h1 = "fst (heap_extract ?peek)"
      let ?s1 = "s\<lparr>esim_event_heap := ?h1\<rparr>"
      have st: "set (hp_elem ?h1) = set es" using x(3) by (metis set_mset_mset)
      have inf: "info_ok ?s1 i = info_ok s i" "unknown_event ?s1 i = unknown_event s i" for i
        by (simp_all add: info_ok_def unknown_event_def)
      have ok1: "esim_ok ?s1"
        using less.prems(1) x(2,4) st Cons unfolding esim_ok_def inf by simp
      have due1: "due s = add_mset e (due ?s1)" "esim_cycle ?s1 = esim_cycle s"
        using x(3) now Cons by (simp_all add: due_def)
      from assms ok1 ev(2) less.prems(2) obtain s2 w2 where
        hd: "h (ev_id (he_data e)) (ev_data (he_data e)) (?s1, w) = Inr (s2, w2)" "esim_ok s2"
          "esim_cycle s2 = esim_cycle ?s1" "due s2 = due ?s1" "J w2 (before @ [he_data e])"
        unfolding handler_contract_def inf [symmetric] by blast
      have "size (due s2) < size (due s)" using hd(4) due1(1) by simp
      from less.hyps [OF this hd(2,5)] obtain s3 w3 es3 where
        r: "process_loop h (s2, w2) = Some (Inr (s3, w3))" "esim_ok s3" "esim_cycle s3 = esim_cycle s2"
          "due s3 = {#}" "mset es3 = due s2" "sorted (map he_time es3)" "J w3 ((before @ [he_data e]) @ map he_data es3)"
        by blast
      have step: "process_loop h (s, w) = process_loop h (s2, w2)"
        using now hd(1) ev(2) by (subst process_loop.simps)
          (simp add: peek Let_def call_handler_def info_ok_def)
      have "he_time e \<le> he_time y" if "y \<in> set es3" for y
      proof -
        have "y \<in># due ?s1" using that r(5) hd(4) by (metis set_mset_mset)
        then have y: "y \<in> set es" "he_value y = he_value e" using st now by (auto simp: due_def)
        then obtain j where "j < length es" "es ! j = y" by (auto simp: in_set_conv_nth)
        with root_minimal [of "hp_policy ?heap" "hp_elem ?heap" "Suc j"] hk Cons y(2) fifo show ?thesis
          by (simp add: heap_ok_def hkey_def less_eq_prod_def)
      qed
      then have "sorted (map he_time (e # es3))" using r(6) by simp
      moreover have "mset (e # es3) = due s" using r(5) hd(4) due1(1) by simp
      ultimately show ?thesis using step r(1-4,7) hd(3) due1(2)
        by (intro exI [of _ s3] exI [of _ w3] exI [of _ "e # es3"]) simp
    qed
  qed
qed


text \<open>A handler that writes down its events and schedules one for the next cycle.\<close>

definition log_handler :: "(nat, (int \<times> nat) list) handler" where
  "log_handler eid d sw =
     res_bind (if esim_lock_schedule (fst sw) \<or> unknown_event (fst sw) 2 then Inr (fst sw)
               else esim_schedule_event (fst sw) 2 (d + 1) 1) (\<lambda>s. Inr (s, snd sw @ [(eid, d)]))"

definition logged :: "(int \<times> nat) list \<Rightarrow> nat esim_event_t list \<Rightarrow> bool" where
  "logged w evs \<longleftrightarrow> w = map (\<lambda>ev. (ev_id ev, ev_data ev)) evs"

lemma log_handler_contract: "handler_contract log_handler logged"
  unfolding handler_contract_def
proof (intro allI impI)
  fix ev :: "nat esim_event_t" and s :: "nat esim_t" and w "done"
  assume s: "esim_ok s" "logged w done"
  show "\<exists>s' w'. log_handler (ev_id ev) (ev_data ev) (s, w) = Inr (s', w') \<and> esim_ok s' \<and>
      esim_cycle s' = esim_cycle s \<and> due s' = due s \<and> logged w' (done @ [ev])"
  proof (cases "esim_lock_schedule s \<or> unknown_event s 2")
    case True
    with s show ?thesis by (simp add: log_handler_def logged_def)
  next
    case False
    with schedule_ok [OF s(1), of 2 1 "ev_data ev + 1"] obtain s' where
      "esim_schedule_event s 2 (ev_data ev + 1) 1 = Inr s'" "esim_ok s'" "esim_cycle s' = esim_cycle s"
      "mset (hp_elem (esim_event_heap s')) =
         add_mset \<lparr>he_time = hp_time (esim_event_heap s), he_value = esim_cycle s + 1,
                 he_data = \<lparr>ev_id = 2, ev_data = ev_data ev + 1\<rparr>\<rparr> (mset (hp_elem (esim_event_heap s)))"
      by auto
    with s False show ?thesis by (simp add: log_handler_def logged_def due_def)
  qed
qed

definition esim_example :: "nat esim_t" where
  "esim_example = fst (esim_register_event_with_name esim_init True ''ev'')"

lemma esim_example_ok: "esim_ok esim_example"
  unfolding esim_example_def by (rule register_ok [OF esim_init_ok])


section \<open>A dump and the order of events\<close>

text \<open>The events of the heap, in the order in which they would be handled.\<close>

primrec heap_order :: "nat \<Rightarrow> 'a heap_t \<Rightarrow> 'a list" where
  "heap_order 0 h = []"
| "heap_order (Suc n) h =
     (case heap_extract h of (h, v, None) \<Rightarrow> [] | (h, v, Some d) \<Rightarrow> d # heap_order n h)"

definition same_cycle :: "nat esim_t" where
  "same_cycle = esim_init\<lparr>esim_event_heap :=
     heap_insert (heap_insert (heap_insert (heap_create 20) 7 \<lparr>ev_id = 2, ev_data = 0\<rparr>)
       7 \<lparr>ev_id = 2, ev_data = 1\<rparr>) 7 \<lparr>ev_id = 2, ev_data = 2\<rparr>\<rparr>"

lemmas heap_eval = heap_insert_def heap_create_def sift_up.simps heap_less_than_def elem_less_def
  PARENT_def heap_extract_def heap_peek_def heapify.simps smaller_child_def LEFT_def RIGHT_def swap_def

text \<open>A dump that does not list the whole heap changes the order of the events of a
  cycle: of three events scheduled in turn for the same cycle, the one that was listed and
  put back is handled last.\<close>

theorem esim_dump_reorders:
  "map ev_data (heap_order 3 (esim_event_heap same_cycle)) = [0, 1, 2] \<and>
   map ev_data (heap_order 3 (esim_event_heap (esim_dump same_cycle 1))) = [1, 2, 0]"
  by (simp add: same_cycle_def heap_eval Let_def numeral_3_eq_3 esim_dump_def dump_loop.simps undump_loop.simps)

end
