(* ===== verification/Quick_Sort.thy ===== *)
theory Quick_Sort
  imports Prelude
begin

text \<open>
  The in-place quicksort that \<open>src/lib/struct/list.c\<close> and \<open>src/lib/struct/linked-list.c\<close>
  both contain. It is written over the array it sorts: \<open>rd s i\<close> reads cell \<open>i\<close> (\<open>None\<close> is an
  access outside of the array), \<open>wr s i x\<close> stores, \<open>pv lo hi\<close> is the position of the pivot, and
  \<open>cmp\<close> is the client's callback. A scan runs until the callback stops it, so the loops are
  partial: \<open>None\<close> is a run that never returns or leaves the array. The locale
  \<open>sort_array\<close> states what an array must promise, and proves that the sort then returns a
  sorted permutation.
\<close>

section \<open>The algorithm\<close>

text \<open>\<open>while (comp(a[i], ptr) < 0) i++\<close> and \<open>while (comp(a[j], ptr) > 0) j--\<close>.\<close>

partial_function (option) scan_up ::
    "('s \<Rightarrow> int \<Rightarrow> 'a option) \<Rightarrow> ('a \<Rightarrow> 'a \<Rightarrow> int) \<Rightarrow> 's \<Rightarrow> 'a \<Rightarrow> int \<Rightarrow> int option" where
  "scan_up rd cmp s p i =
     Option.bind (rd s i) (\<lambda>x. if cmp x p < 0 then scan_up rd cmp s p (i + 1) else Some i)"

partial_function (option) scan_down ::
    "('s \<Rightarrow> int \<Rightarrow> 'a option) \<Rightarrow> ('a \<Rightarrow> 'a \<Rightarrow> int) \<Rightarrow> 's \<Rightarrow> 'a \<Rightarrow> int \<Rightarrow> int option" where
  "scan_down rd cmp s p j =
     Option.bind (rd s j) (\<lambda>x. if cmp x p > 0 then scan_down rd cmp s p (j - 1) else Some j)"

definition exchange ::
    "('s \<Rightarrow> int \<Rightarrow> 'a option) \<Rightarrow> ('s \<Rightarrow> int \<Rightarrow> 'a \<Rightarrow> 's) \<Rightarrow> 's \<Rightarrow> int \<Rightarrow> int \<Rightarrow> 's option" where
  "exchange rd wr s i j =
     Option.bind (rd s i) (\<lambda>tmp. Option.bind (rd s j) (\<lambda>y. Some (wr (wr s i y) j tmp)))"

text \<open>The \<open>do ... while (i <= j)\<close> loop.\<close>

partial_function (option) partition_loop ::
    "('s \<Rightarrow> int \<Rightarrow> 'a option) \<Rightarrow> ('s \<Rightarrow> int \<Rightarrow> 'a \<Rightarrow> 's) \<Rightarrow> ('a \<Rightarrow> 'a \<Rightarrow> int) \<Rightarrow>
     's \<Rightarrow> 'a \<Rightarrow> int \<Rightarrow> int \<Rightarrow> ('s \<times> int \<times> int) option" where
  "partition_loop rd wr cmp s p i j =
     Option.bind (scan_up rd cmp s p i) (\<lambda>i.
     Option.bind (scan_down rd cmp s p j) (\<lambda>j.
       if i \<le> j
       then Option.bind (exchange rd wr s i j) (\<lambda>s.
              if i + 1 \<le> j - 1 then partition_loop rd wr cmp s p (i + 1) (j - 1)
              else Some (s, i + 1, j - 1))
       else Some (s, i, j)))"

partial_function (option) quick_sort ::
    "('s \<Rightarrow> int \<Rightarrow> 'a option) \<Rightarrow> ('s \<Rightarrow> int \<Rightarrow> 'a \<Rightarrow> 's) \<Rightarrow> (int \<Rightarrow> int \<Rightarrow> int) \<Rightarrow>
     ('a \<Rightarrow> 'a \<Rightarrow> int) \<Rightarrow> 's \<Rightarrow> int \<Rightarrow> int \<Rightarrow> 's option" where
  "quick_sort rd wr pv cmp s lo hi =
     Option.bind (rd s (pv lo hi)) (\<lambda>p.
     Option.bind (partition_loop rd wr cmp s p lo hi) (\<lambda>(s, i, j).
     Option.bind (if lo < j then quick_sort rd wr pv cmp s lo j else Some s) (\<lambda>s.
       if i < hi then quick_sort rd wr pv cmp s i hi else Some s)))"

section \<open>What a comparison callback promises\<close>

definition preorder_cmp :: "('a \<Rightarrow> 'a \<Rightarrow> int) \<Rightarrow> bool" where
  "preorder_cmp cmp \<longleftrightarrow>
     (\<forall>x y. cmp x y < 0 \<longleftrightarrow> cmp y x > 0) \<and>
     (\<forall>x y z. cmp x y \<le> 0 \<longrightarrow> cmp y z \<le> 0 \<longrightarrow> cmp x z \<le> 0)"

lemma cmp_swap: "preorder_cmp cmp \<Longrightarrow> cmp x y \<ge> 0 \<longleftrightarrow> cmp y x \<le> 0"
  by (simp add: preorder_cmp_def linorder_not_less [symmetric])

lemma cmp_trans: "preorder_cmp cmp \<Longrightarrow> cmp x y \<le> 0 \<Longrightarrow> cmp y z \<le> 0 \<Longrightarrow> cmp x z \<le> 0"
  unfolding preorder_cmp_def by blast

lemma cmp_refl: "preorder_cmp cmp \<Longrightarrow> cmp x x = 0"
  unfolding preorder_cmp_def by (metis linorder_neqE less_asym)

section \<open>Rearranging a slice\<close>

definition slice_perm :: "int \<Rightarrow> int \<Rightarrow> 'a list \<Rightarrow> 'a list \<Rightarrow> bool" where
  "slice_perm lo hi xs ys \<longleftrightarrow>
     length ys = length xs \<and> mset ys = mset xs \<and>
     (\<forall>m < length xs. int m < lo \<or> hi < int m \<longrightarrow> ys ! m = xs ! m)"

lemma slice_perm_refl [simp]: "slice_perm lo hi xs xs"
  by (simp add: slice_perm_def)

lemma slice_perm_trans: "slice_perm lo hi xs ys \<Longrightarrow> slice_perm lo hi ys zs \<Longrightarrow> slice_perm lo hi xs zs"
  by (auto simp: slice_perm_def)

lemma slice_perm_mono:
  "slice_perm lo hi xs ys \<Longrightarrow> lo' \<le> lo \<Longrightarrow> hi \<le> hi' \<Longrightarrow> slice_perm lo' hi' xs ys"
  by (auto simp: slice_perm_def)

lemma slice_perm_length: "slice_perm lo hi xs ys \<Longrightarrow> length ys = length xs"
  by (simp add: slice_perm_def)

lemma slice_perm_outside:
  "slice_perm lo hi xs ys \<Longrightarrow> m < length xs \<Longrightarrow> int m < lo \<or> hi < int m \<Longrightarrow> ys ! m = xs ! m"
  by (auto simp: slice_perm_def)

text \<open>A rearranged slice holds the elements it held.\<close>

lemma slice_perm_set:
  assumes p: "slice_perm lo hi xs ys" and lo: "0 \<le> lo" and hi: "hi < int (length xs)"
    and m: "lo \<le> int m" "int m \<le> hi"
  obtains k where "lo \<le> int k" "int k \<le> hi" "ys ! m = xs ! k"
proof -
  let ?a = "nat lo" and ?b = "nat (hi + 1)"
  have len: "length ys = length xs" using p by (rule slice_perm_length)
  have b: "?a \<le> ?b" "?b \<le> length xs" using lo hi m by linarith+
  have split: "zs = take ?a zs @ drop ?a (take ?b zs) @ drop ?b zs" for zs :: "'a list"
    using b by (metis append.assoc append_take_drop_id min_absorb1 take_take)
  have 1: "take ?a ys = take ?a xs"
    using len b lo by (intro nth_equalityI) (auto intro!: slice_perm_outside [OF p])
  have 2: "drop ?b ys = drop ?b xs"
    using len by (intro nth_equalityI) (auto intro!: slice_perm_outside [OF p])
  have "mset ys = mset xs" using p by (simp add: slice_perm_def)
  then have "mset (take ?a ys) + mset (drop ?a (take ?b ys)) + mset (drop ?b ys) =
      mset (take ?a xs) + mset (drop ?a (take ?b xs)) + mset (drop ?b xs)"
    by (metis split mset_append add.assoc)
  then have "set (drop ?a (take ?b ys)) = set (drop ?a (take ?b xs))"
    unfolding 1 2 by (metis add_left_cancel add_right_cancel mset_eq_setD)
  moreover have "ys ! m = drop ?a (take ?b ys) ! (m - ?a)"
    using m lo len b by (subst nth_drop) auto
  then have "ys ! m \<in> set (drop ?a (take ?b ys))"
    using m lo len b by (auto simp: in_set_conv_nth intro!: exI [of _ "m - ?a"])
  ultimately obtain q where "q < ?b - ?a" "ys ! m = xs ! (?a + q)"
    using b by (auto simp: in_set_conv_nth)
  with lo show thesis by (intro that [of "?a + q"]) linarith+
qed

text \<open>What the loop keeps: cells left of \<open>i\<close> are at most, cells right of \<open>j\<close> at least the pivot.\<close>

definition part_inv :: "('a \<Rightarrow> 'a \<Rightarrow> int) \<Rightarrow> 'a \<Rightarrow> int \<Rightarrow> int \<Rightarrow> 'a list \<Rightarrow> int \<Rightarrow> int \<Rightarrow> bool" where
  "part_inv cmp p lo hi xs i j \<longleftrightarrow>
     (\<forall>m. lo \<le> m \<and> m < i \<and> m \<le> hi \<longrightarrow> cmp (xs ! nat m) p \<le> 0) \<and>
     (\<forall>m. lo \<le> m \<and> j < m \<and> m \<le> hi \<longrightarrow> cmp (xs ! nat m) p \<ge> 0)"

lemma slice_perm_exchange:
  assumes "0 \<le> lo" "lo \<le> i" "i \<le> j" "j \<le> hi" "hi < int (length xs)"
  shows "slice_perm lo hi xs (xs[nat i := xs ! nat j, nat j := xs ! nat i])"
  using assms by (auto simp: slice_perm_def mset_swap nth_list_update)

lemma part_inv_exchange:
  assumes inv: "part_inv cmp p lo hi xs i j" and b: "0 \<le> lo" "i' \<le> j'" "hi < int (length xs)" "lo \<le> i'" "j' \<le> hi"
    and i: "\<forall>m. i \<le> m \<and> m < i' \<longrightarrow> cmp (xs ! nat m) p < 0" "cmp (xs ! nat i') p \<ge> 0"
    and j: "\<forall>m. j' < m \<and> m \<le> j \<longrightarrow> cmp (xs ! nat m) p > 0" "cmp (xs ! nat j') p \<le> 0"
  shows "part_inv cmp p lo hi (xs[nat i' := xs ! nat j', nat j' := xs ! nat i']) (i' + 1) (j' - 1)"
  unfolding part_inv_def
proof (intro conjI allI impI)
  let ?ys = "xs[nat i' := xs ! nat j', nat j' := xs ! nat i']"
  fix m
  {
    assume m: "lo \<le> m \<and> m < i' + 1 \<and> m \<le> hi"
    show "cmp (?ys ! nat m) p \<le> 0"
    proof (cases "m = i'")
      case True
      then show ?thesis using b j(2) by (auto simp: nth_list_update)
    next
      case False
      then have "?ys ! nat m = xs ! nat m" using m b by (auto simp: nth_list_update)
      moreover have "m < i \<or> i \<le> m \<and> m < i'" using m False by linarith
      ultimately show ?thesis using inv i(1) m by (auto simp: part_inv_def intro: less_imp_le)
    qed
  next
    assume m: "lo \<le> m \<and> j' - 1 < m \<and> m \<le> hi"
    show "cmp (?ys ! nat m) p \<ge> 0"
    proof (cases "m = j'")
      case True
      then show ?thesis using b i(2) by (auto simp: nth_list_update)
    next
      case False
      then have "?ys ! nat m = xs ! nat m" using m b by (auto simp: nth_list_update)
      moreover have "j < m \<or> j' < m \<and> m \<le> j" using m False by linarith
      ultimately show ?thesis using inv j(1) m by (auto simp: part_inv_def intro: less_imp_le)
    qed
  }
qed

lemma nat_diff_up: "Suc d = nat (k - i) \<Longrightarrow> d = nat (k - (i + 1))" for i k :: int
  by linarith

lemma nat_diff_down: "Suc d = nat (j - k) \<Longrightarrow> d = nat (j - 1 - k)" for j k :: int
  by linarith

definition sorted_slice :: "('a \<Rightarrow> 'a \<Rightarrow> int) \<Rightarrow> int \<Rightarrow> int \<Rightarrow> 'a list \<Rightarrow> bool" where
  "sorted_slice cmp lo hi xs \<longleftrightarrow>
     (\<forall>m n. lo \<le> int m \<and> m < n \<and> int n \<le> hi \<longrightarrow> cmp (xs ! m) (xs ! n) \<le> 0)"

text \<open>Sorting the two sides of a partition sorts the whole.\<close>

lemma sorted_slice_join:
  assumes c: "preorder_cmp cmp" and inv: "part_inv cmp p lo hi xs i j" and "0 \<le> lo"
    and l: "sorted_slice cmp lo j xs" and r: "sorted_slice cmp i hi xs"
  shows "sorted_slice cmp lo hi xs"
  unfolding sorted_slice_def
proof (intro allI impI)
  fix m n assume m: "lo \<le> int m \<and> m < n \<and> int n \<le> hi"
  consider "int n \<le> j" | "i \<le> int m" | "j < int n" "int m < i" by linarith
  then show "cmp (xs ! m) (xs ! n) \<le> 0"
  proof cases
    case 3
    then have "cmp (xs ! m) p \<le> 0" "cmp (xs ! n) p \<ge> 0"
      using inv m unfolding part_inv_def by (metis nat_int of_nat_mono order_less_imp_le order_trans)+
    then show ?thesis using c by (metis cmp_swap cmp_trans)
  qed (use l r m in \<open>auto simp: sorted_slice_def\<close>)
qed

lemma sorted_slice_outside:
  assumes s: "sorted_slice cmp lo j xs" and p: "slice_perm i hi xs ys" and "0 \<le> lo" "j < i" "j < int (length xs)"
  shows "sorted_slice cmp lo j ys"
proof -
  have "int m \<le> j \<Longrightarrow> ys ! m = xs ! m" for m
    using assms by (intro slice_perm_outside [OF p]) auto
  then show ?thesis using s unfolding sorted_slice_def by (metis of_nat_less_iff order_less_imp_le order_trans)
qed

lemma part_inv_left:
  assumes inv: "part_inv cmp p lo hi xs i j" and sp: "slice_perm lo j xs ys"
    and b: "0 \<le> lo" "j < i" "j \<le> hi" "hi < int (length xs)"
  shows "part_inv cmp p lo hi ys i j"
proof -
  have out: "j < m \<Longrightarrow> m \<le> hi \<Longrightarrow> lo \<le> m \<Longrightarrow> ys ! nat m = xs ! nat m" for m
    using b by (intro slice_perm_outside [OF sp]) auto
  have "cmp (ys ! nat m) p \<le> 0" if mb: "lo \<le> m" "m \<le> j" for m
  proof -
    obtain k where "lo \<le> int k" "int k \<le> j" "ys ! nat m = xs ! k"
      by (rule slice_perm_set [OF sp, of "nat m"]) (use mb b in auto)
    then show ?thesis using inv b unfolding part_inv_def by (metis nat_int order_le_less_trans order_trans)
  qed
  with out inv show ?thesis unfolding part_inv_def by (metis linorder_not_le)
qed

lemma part_inv_right:
  assumes inv: "part_inv cmp p lo hi xs i j" and sp: "slice_perm i hi xs ys"
    and b: "0 \<le> lo" "j < i" "lo \<le> i" "hi < int (length xs)"
  shows "part_inv cmp p lo hi ys i j"
proof -
  have out: "m < i \<Longrightarrow> m \<le> hi \<Longrightarrow> lo \<le> m \<Longrightarrow> ys ! nat m = xs ! nat m" for m
    using b by (intro slice_perm_outside [OF sp]) auto
  have "cmp (ys ! nat m) p \<ge> 0" if mb: "i \<le> m" "m \<le> hi" for m
  proof -
    obtain k where "i \<le> int k" "int k \<le> hi" "ys ! nat m = xs ! k"
      by (rule slice_perm_set [OF sp, of "nat m"]) (use mb b in auto)
    then show ?thesis using inv b unfolding part_inv_def by (metis nat_int order_less_le_trans order_trans)
  qed
  with out inv show ?thesis unfolding part_inv_def by (metis linorder_not_le)
qed

section \<open>Arrays that can be sorted\<close>

locale sort_array =
  fixes rd :: "'s \<Rightarrow> int \<Rightarrow> 'a option"
    and wr :: "'s \<Rightarrow> int \<Rightarrow> 'a \<Rightarrow> 's"
    and ok :: "'s \<Rightarrow> bool"
    and view :: "'s \<Rightarrow> 'a list"
    and pv :: "int \<Rightarrow> int \<Rightarrow> int"
  assumes rd_view: "ok s \<Longrightarrow> 0 \<le> i \<Longrightarrow> i < int (length (view s)) \<Longrightarrow> rd s i = Some (view s ! nat i)"
    and wr_view: "ok s \<Longrightarrow> 0 \<le> i \<Longrightarrow> i < int (length (view s)) \<Longrightarrow> view (wr s i x) = (view s)[nat i := x]"
    and wr_ok: "ok s \<Longrightarrow> 0 \<le> i \<Longrightarrow> i < int (length (view s)) \<Longrightarrow> ok (wr s i x)"
    and pivot: "lo \<le> hi \<Longrightarrow> lo \<le> pv lo hi" "lo \<le> hi \<Longrightarrow> pv lo hi \<le> hi"
begin

lemma scan_up_stops:
  assumes "ok s" "0 \<le> i" "i \<le> k" "k < int (length (view s))" "cmp (view s ! nat k) p \<ge> 0"
  shows "\<exists>i'. scan_up rd cmp s p i = Some i' \<and> i \<le> i' \<and> i' \<le> k \<and> cmp (view s ! nat i') p \<ge> 0 \<and>
           (\<forall>m. i \<le> m \<and> m < i' \<longrightarrow> cmp (view s ! nat m) p < 0)"
  using assms
proof (induction "nat (k - i)" arbitrary: i)
  case 0
  then show ?case by (subst scan_up.simps) (auto simp: rd_view)
next
  case (Suc d)
  show ?case
  proof (cases "cmp (view s ! nat i) p < 0")
    case True
    then have "i \<noteq> k" using Suc.prems by auto
    then obtain i' where "scan_up rd cmp s p (i + 1) = Some i'" "i + 1 \<le> i'" "i' \<le> k"
        "cmp (view s ! nat i') p \<ge> 0" "\<forall>m. i + 1 \<le> m \<and> m < i' \<longrightarrow> cmp (view s ! nat m) p < 0"
      using Suc.hyps(1) [of "i + 1", OF nat_diff_up [OF Suc.hyps(2)]] Suc.prems by auto
    moreover have "scan_up rd cmp s p i = scan_up rd cmp s p (i + 1)"
      using True Suc.prems by (subst scan_up.simps) (simp add: rd_view)
    ultimately show ?thesis
      using True by (intro exI [of _ i']) (auto, smt (verit))
  next
    case False
    then show ?thesis using Suc.prems by (subst scan_up.simps) (auto simp: rd_view)
  qed
qed

lemma scan_down_stops:
  assumes "ok s" "0 \<le> k" "k \<le> j" "j < int (length (view s))" "cmp (view s ! nat k) p \<le> 0"
  shows "\<exists>j'. scan_down rd cmp s p j = Some j' \<and> j' \<le> j \<and> k \<le> j' \<and> cmp (view s ! nat j') p \<le> 0 \<and>
           (\<forall>m. j' < m \<and> m \<le> j \<longrightarrow> cmp (view s ! nat m) p > 0)"
  using assms
proof (induction "nat (j - k)" arbitrary: j)
  case 0
  then show ?case by (subst scan_down.simps) (auto simp: rd_view)
next
  case (Suc d)
  show ?case
  proof (cases "cmp (view s ! nat j) p > 0")
    case True
    then have "j \<noteq> k" using Suc.prems by auto
    then obtain j' where "scan_down rd cmp s p (j - 1) = Some j'" "j' \<le> j - 1" "k \<le> j'"
        "cmp (view s ! nat j') p \<le> 0" "\<forall>m. j' < m \<and> m \<le> j - 1 \<longrightarrow> cmp (view s ! nat m) p > 0"
      using Suc.hyps(1) [of "j - 1", OF nat_diff_down [OF Suc.hyps(2)]] Suc.prems by auto
    moreover have "scan_down rd cmp s p j = scan_down rd cmp s p (j - 1)"
      using True Suc.prems by (subst scan_down.simps) (simp add: rd_view)
    ultimately show ?thesis
      using True by (intro exI [of _ j']) (auto, smt (verit))
  next
    case False
    then show ?thesis using Suc.prems by (subst scan_down.simps) (auto simp: rd_view)
  qed
qed

lemma exchange_ok:
  assumes "ok s" "0 \<le> i" "i \<le> j" "j < int (length (view s))"
  shows "\<exists>s'. exchange rd wr s i j = Some s' \<and> ok s' \<and>
           view s' = (view s)[nat i := view s ! nat j, nat j := view s ! nat i]"
  using assms by (auto simp: exchange_def rd_view wr_view wr_ok)

lemma partition_returns:
  assumes "ok s" "0 \<le> lo" "lo \<le> i" "i \<le> j" "j \<le> hi" "hi < int (length (view s))"
    "part_inv cmp p lo hi (view s) i j"
    "(\<exists>k. i \<le> k \<and> k \<le> j \<and> cmp (view s ! nat k) p = 0) \<or> lo < i \<and> j < hi"
  shows "\<exists>s' i' j'. partition_loop rd wr cmp s p i j = Some (s', i', j') \<and> ok s' \<and>
           slice_perm lo hi (view s) (view s') \<and> part_inv cmp p lo hi (view s') i' j' \<and>
           j' < i' \<and> lo < i' \<and> j' < hi"
  using assms
proof (induction "nat (j - i)" arbitrary: s i j rule: less_induct)
  case less
  note ok = less.prems(1) and b = less.prems(2-6) and inv = less.prems(7) and fresh = less.prems(8)
  have up: "\<exists>k. i \<le> k \<and> k \<le> hi \<and> cmp (view s ! nat k) p \<ge> 0"
    using fresh inv b unfolding part_inv_def by (smt (verit))
  have dn: "\<exists>k. lo \<le> k \<and> k \<le> j \<and> cmp (view s ! nat k) p \<le> 0"
    using fresh inv b unfolding part_inv_def by (smt (verit))
  obtain i1 where i1: "scan_up rd cmp s p i = Some i1" "i \<le> i1" "i1 \<le> hi" "cmp (view s ! nat i1) p \<ge> 0"
      "\<forall>m. i \<le> m \<and> m < i1 \<longrightarrow> cmp (view s ! nat m) p < 0"
    using up scan_up_stops [OF ok, of i _ cmp p] b by fastforce
  obtain j1 where j1: "scan_down rd cmp s p j = Some j1" "j1 \<le> j" "lo \<le> j1" "cmp (view s ! nat j1) p \<le> 0"
      "\<forall>m. j1 < m \<and> m \<le> j \<longrightarrow> cmp (view s ! nat m) p > 0"
  proof -
    obtain k where "lo \<le> k" "k \<le> j" "cmp (view s ! nat k) p \<le> 0" using dn by auto
    then have "\<exists>j'. scan_down rd cmp s p j = Some j' \<and> j' \<le> j \<and> k \<le> j' \<and> cmp (view s ! nat j') p \<le> 0 \<and>
        (\<forall>m. j' < m \<and> m \<le> j \<longrightarrow> cmp (view s ! nat m) p > 0)"
      using b by (intro scan_down_stops [OF ok]) auto
    with \<open>lo \<le> k\<close> show thesis using that by (meson order_trans)
  qed
  show ?case
  proof (cases "i1 \<le> j1")
    case True
    let ?ys = "(view s)[nat i1 := view s ! nat j1, nat j1 := view s ! nat i1]"
    obtain s1 where s1: "exchange rd wr s i1 j1 = Some s1" "ok s1" "view s1 = ?ys"
      using exchange_ok [OF ok, of i1 j1] True b i1 j1 by auto
    have sp: "slice_perm lo hi (view s) (view s1)"
      unfolding s1(3) using True b i1 j1 by (intro slice_perm_exchange) auto
    have inv1: "part_inv cmp p lo hi (view s1) (i1 + 1) (j1 - 1)"
      unfolding s1(3) using True b i1 j1 by (intro part_inv_exchange [OF inv]) auto
    show ?thesis
    proof (cases "i1 + 1 \<le> j1 - 1")
      case go: True
      have "\<exists>s' i' j'. partition_loop rd wr cmp s1 p (i1 + 1) (j1 - 1) = Some (s', i', j') \<and> ok s' \<and>
           slice_perm lo hi (view s1) (view s') \<and> part_inv cmp p lo hi (view s') i' j' \<and>
           j' < i' \<and> lo < i' \<and> j' < hi"
        using go True b i1 j1 s1(2) inv1 slice_perm_length [OF sp]
        by (intro less.hyps) auto
      then show ?thesis
        using i1(1) j1(1) True go s1(1) slice_perm_trans [OF sp]
        by (subst partition_loop.simps) auto
    next
      case False
      then show ?thesis
        using i1 j1 True s1 sp inv1 b by (subst partition_loop.simps) auto
    qed
  next
    case False
    then have "\<not> (\<exists>k. i \<le> k \<and> k \<le> j \<and> cmp (view s ! nat k) p = 0)"
      using i1(5) j1(5) by (smt (verit))
    then have "lo < i1" "j1 < hi" using fresh i1 j1 by auto
    moreover have "part_inv cmp p lo hi (view s) i1 j1"
      using inv i1(5) j1(5) unfolding part_inv_def by (smt (verit))
    ultimately show ?thesis
      using i1 j1 False ok by (subst partition_loop.simps) auto
  qed
qed

lemma quick_sort_sorts:
  assumes c: "preorder_cmp cmp"
    and "ok s" "0 \<le> lo" "lo \<le> hi" "hi < int (length (view s))"
  shows "\<exists>s'. quick_sort rd wr pv cmp s lo hi = Some s' \<and> ok s' \<and>
           slice_perm lo hi (view s) (view s') \<and> sorted_slice cmp lo hi (view s')"
  using assms(2-)
proof (induction "nat (hi - lo)" arbitrary: s lo hi rule: less_induct)
  case less
  let ?p = "view s ! nat (pv lo hi)"
  note b = less.prems
  have pv: "lo \<le> pv lo hi" "pv lo hi \<le> hi" using pivot b by auto
  have rd: "rd s (pv lo hi) = Some ?p" using pv b by (simp add: rd_view)
  obtain s1 i j where 1: "partition_loop rd wr cmp s ?p lo hi = Some (s1, i, j)" "ok s1"
      "slice_perm lo hi (view s) (view s1)" "part_inv cmp ?p lo hi (view s1) i j" "j < i" "lo < i" "j < hi"
    using partition_returns [of s lo lo hi hi cmp ?p] b pv cmp_refl [OF c] by (fastforce simp: part_inv_def)
  note len1 = slice_perm_length [OF 1(3)]
  have "\<exists>s2. (if lo < j then quick_sort rd wr pv cmp s1 lo j else Some s1) = Some s2 \<and> ok s2 \<and>
      slice_perm lo j (view s1) (view s2) \<and> sorted_slice cmp lo j (view s2)"
    using less.hyps [of j lo s1] 1 b len1 by (auto simp: sorted_slice_def)
  then obtain s2 where 2: "(if lo < j then quick_sort rd wr pv cmp s1 lo j else Some s1) = Some s2"
      "ok s2" "slice_perm lo j (view s1) (view s2)" "sorted_slice cmp lo j (view s2)" by blast
  note len2 = slice_perm_length [OF 2(3)]
  have "\<exists>s3. (if i < hi then quick_sort rd wr pv cmp s2 i hi else Some s2) = Some s3 \<and> ok s3 \<and>
      slice_perm i hi (view s2) (view s3) \<and> sorted_slice cmp i hi (view s3)"
    using less.hyps [of hi i s2] 1 2 b len1 len2 by (auto simp: sorted_slice_def)
  then obtain s3 where 3: "(if i < hi then quick_sort rd wr pv cmp s2 i hi else Some s2) = Some s3"
      "ok s3" "slice_perm i hi (view s2) (view s3)" "sorted_slice cmp i hi (view s3)" by blast
  have run: "quick_sort rd wr pv cmp s lo hi = Some s3"
    using rd 1(1) 2(1) 3(1) by (subst quick_sort.simps) simp
  have sp: "slice_perm lo hi (view s) (view s3)"
    using 1 2(3) 3(3) b by (metis slice_perm_trans slice_perm_mono less_imp_le order_refl)
  have "part_inv cmp ?p lo hi (view s2) i j"
    using part_inv_left [OF 1(4) 2(3)] 1 b len1 by auto
  then have "part_inv cmp ?p lo hi (view s3) i j"
    using part_inv_right [OF _ 3(3)] 1 b len1 len2 by auto
  moreover have "sorted_slice cmp lo j (view s3)"
    using sorted_slice_outside [OF 2(4) 3(3)] 1 b len1 len2 by auto
  ultimately have "sorted_slice cmp lo hi (view s3)"
    using sorted_slice_join [OF c] 3(4) 1 b by blast
  with run 3(2) sp show ?case by blast
qed

lemma quick_sort_all:
  assumes "preorder_cmp cmp" "ok s" "view s \<noteq> []"
  shows "\<exists>s'. quick_sort rd wr pv cmp s 0 (int (length (view s)) - 1) = Some s' \<and> ok s' \<and>
           mset (view s') = mset (view s) \<and> sorted_wrt (\<lambda>x y. cmp x y \<le> 0) (view s')"
proof -
  have "0 \<le> int (length (view s)) - 1" using assms(3) by (cases "view s") auto
  then obtain s' where 1: "quick_sort rd wr pv cmp s 0 (int (length (view s)) - 1) = Some s'" "ok s'"
      "slice_perm 0 (int (length (view s)) - 1) (view s) (view s')"
      "sorted_slice cmp 0 (int (length (view s)) - 1) (view s')"
    using quick_sort_sorts [OF assms(1,2), of 0 "int (length (view s)) - 1"] by auto
  have "sorted_wrt (\<lambda>x y. cmp x y \<le> 0) (view s')"
    using 1(4) slice_perm_length [OF 1(3)] by (auto simp: sorted_wrt_iff_nth_less sorted_slice_def)
  with 1 show ?thesis by (auto simp: slice_perm_def)
qed

end

end
