(* ===== verification/Linked_List_Sort.thy ===== *)
theory Linked_List_Sort
  imports Linked_List Quick_Sort
begin

text \<open>
  \<open>linked_list_sort\<close> of \<open>src/lib/struct/linked-list.c\<close>: the elements are copied into an array,
  the array is sorted around the middle element, and the chain is rebuilt from it.
\<close>

text \<open>The C array of element pointers; a position outside of it is not an access.\<close>

definition array_rd :: "'a list \<Rightarrow> int \<Rightarrow> 'a option" where
  "array_rd a i = (if 0 \<le> i \<and> i < int (length a) then Some (a ! nat i) else None)"

definition array_wr :: "'a list \<Rightarrow> int \<Rightarrow> 'a \<Rightarrow> 'a list" where
  "array_wr a i x = a[nat i := x]"

definition ll_pivot :: "int \<Rightarrow> int \<Rightarrow> int" where
  "ll_pivot lo hi = (lo + hi) div 2"

definition linked_list_sort :: "'a linked_list_t \<Rightarrow> ('a \<Rightarrow> 'a \<Rightarrow> int) \<Rightarrow> 'a linked_list_t option" where
  "linked_list_sort l cmp =
     (let l = ll_err LINKED_LIST_ERR_OK l in
      if ll_elems l = [] then Some l
      else Option.bind
        (quick_sort array_rd array_wr ll_pivot cmp (ll_elems l) 0 (int (length (ll_elems l)) - 1))
        (\<lambda>a. let l = l\<lparr>ll_elems := a\<rparr> in Some (l\<lparr>ll_index := 0, ll_current := ll_head l\<rparr>)))"

interpretation ptr_array: sort_array array_rd array_wr "\<lambda>_. True" "\<lambda>a. a" ll_pivot
  by unfold_locales (auto simp: array_rd_def array_wr_def ll_pivot_def)

lemma ll_sorted_loop_iff:
  assumes "preorder_cmp cmp"
  shows "ll_sorted_loop cmp p es \<longleftrightarrow> sorted_wrt (\<lambda>x y. cmp x y \<le> 0) (p # es)"
proof (induction es arbitrary: p)
  case (Cons e es)
  then show ?case using cmp_trans [OF assms] by (auto simp: not_less)
qed simp

lemma linked_list_sort_returns:
  assumes "preorder_cmp cmp" "ll_elems l \<noteq> []"
  shows "\<exists>l'. linked_list_sort l cmp = Some l' \<and> ll_ok l' \<and> mset (ll_elems l') = mset (ll_elems l) \<and>
           linked_list_sorted l' cmp \<and> ll_error l' = LINKED_LIST_ERR_OK \<and> ll_index l' = 0"
proof -
  obtain a where a: "quick_sort array_rd array_wr ll_pivot cmp (ll_elems l) 0 (int (length (ll_elems l)) - 1) = Some a"
      "mset a = mset (ll_elems l)" "sorted_wrt (\<lambda>x y. cmp x y \<le> 0) a"
    using ptr_array.quick_sort_all [of cmp "ll_elems l"] assms by auto
  then have "a \<noteq> []" using assms(2) by auto
  moreover from this have "linked_list_sorted (l\<lparr>ll_elems := a\<rparr>) cmp"
    using a(3) ll_sorted_loop_iff [OF assms(1)] by (auto simp: linked_list_sorted_def split: list.split)
  ultimately show ?thesis
    using a assms(2) by (auto simp: linked_list_sort_def ll_ok_def ll_head_def ll_err_def linked_list_sorted_def)
qed

text \<open>C23: with a callback that is a total preorder, sorting a list returns (the scans of the
  quicksort stop, inside the array), keeps exactly the elements, leaves a list that
  \<open>linked_list_sorted\<close> accepts, and leaves the cursor on the first element of a non-empty list.\<close>

theorem linked_list_sort_correct:
  assumes "preorder_cmp cmp" "ll_ok l"
  shows "\<exists>l'. linked_list_sort l cmp = Some l' \<and> ll_ok l' \<and> mset (ll_elems l') = mset (ll_elems l) \<and>
           linked_list_sorted l' cmp \<and> (ll_elems l \<noteq> [] \<longrightarrow> linked_list_current l' = (ll_err LINKED_LIST_ERR_OK l', 0))"
proof (cases "ll_elems l = []")
  case True
  then show ?thesis using assms(2) by (auto simp: linked_list_sort_def linked_list_sorted_def ll_err_def ll_ok_def)
next
  case False
  then show ?thesis using linked_list_sort_returns [OF assms(1) False] by (auto simp: linked_list_current_def)
qed

theorem linked_list_sort_correct_witness:
  "\<exists>l'. linked_list_sort (linked_list_add (linked_list_add linked_list_create 5) 3) (\<lambda>x y. x - y) = Some l' \<and>
     mset (ll_elems l') = {#3, 5#}"
proof -
  have "preorder_cmp (\<lambda>x y :: int. x - y)" by (auto simp: preorder_cmp_def)
  moreover have "ll_ok (linked_list_add (linked_list_add linked_list_create (5 :: int)) 3)"
    by (simp add: ll_add_ok ll_create_ok)
  ultimately show ?thesis
    using linked_list_sort_correct [of "\<lambda>x y :: int. x - y" "linked_list_add (linked_list_add linked_list_create 5) 3"]
    by (auto simp: ll_add_ok linked_list_create_def add_mset_commute)
qed

end
