(* ===== verification/Ring_Index.thy ===== *)
theory Ring_Index
  imports Prelude
begin

text \<open>
  Positions in a ring of cells: the list of \<open>src/lib/struct/list.c\<close> and the return address
  stack of the branch predictor both step around one.
\<close>

text \<open>\<open>INLIST(pos - 1)\<close> and the advance \<open>(pos + 1) % list->size\<close>.\<close>

definition ring_prev :: "nat \<Rightarrow> nat \<Rightarrow> nat" where "ring_prev sz pos = (pos + sz - 1) mod sz"
definition ring_next :: "nat \<Rightarrow> nat \<Rightarrow> nat" where "ring_next sz pos = (pos + 1) mod sz"

text \<open>Cell of the element with a given index.\<close>

definition ring_at :: "nat \<Rightarrow> nat \<Rightarrow> nat \<Rightarrow> nat" where
  "ring_at sz head i = (head + i) mod sz"

lemma ring_at_less: "0 < s \<Longrightarrow> ring_at s h i < s"
  by (simp add: ring_at_def)

lemma ring_at_inj:
  assumes "i < s" "j < s"
  shows "ring_at s h i = ring_at s h j \<longleftrightarrow> i = j"
proof -
  have "i = j" if "i \<le> j" "j < s" "ring_at s h i = ring_at s h j" for i j
  proof -
    have "s dvd (h + j) - (h + i)"
      using that mod_eq_dvd_iff_nat [of "h + i" "h + j" s] by (simp add: ring_at_def)
    then show "i = j" using that by (auto dest: dvd_imp_le)
  qed
  then show ?thesis using assms by (metis linorder_le_cases)
qed

lemma ring_steps:
  assumes "0 < s"
  shows ring_next_at: "ring_next s (ring_at s h i) = ring_at s h (i + 1)"
    and ring_prev_at: "ring_prev s (ring_at s h (i + 1)) = ring_at s h i"
    and at_ring_next: "ring_at s (ring_next s h) i = ring_at s h (i + 1)"
    and at_ring_prev: "ring_at s (ring_prev s h) (i + 1) = ring_at s h i"
proof -
  obtain t where t: "s = Suc t" using assms by (cases s) auto
  show "ring_next s (ring_at s h i) = ring_at s h (i + 1)"
    by (simp add: ring_next_def ring_at_def mod_simps)
  show "ring_prev s (ring_at s h (i + 1)) = ring_at s h i"
    unfolding ring_prev_def ring_at_def t
    by (metis add.assoc add.commute add_Suc_right diff_Suc_1 mod_add_left_eq mod_add_self2 plus_1_eq_Suc)
  show "ring_at s (ring_next s h) i = ring_at s h (i + 1)"
    by (simp add: ring_next_def ring_at_def mod_simps)
  show "ring_at s (ring_prev s h) (i + 1) = ring_at s h i"
    unfolding ring_prev_def ring_at_def t
    by (metis add.assoc add.commute add_Suc_right diff_Suc_1 mod_add_left_eq mod_add_self2 plus_1_eq_Suc)
qed

end
