(* ===== verification/List_Struct.thy ===== *)
theory List_Struct
  imports Quick_Sort Ring_Index
begin

text \<open>
  Ring-buffer list of \<open>src/lib/struct/list.c\<close>: \<open>count\<close> elements from cell \<open>head\<close> of a vector of
  \<open>sz\<close> cells, wrapping around. Elements are pointers, so a cell is an option and \<open>NULL\<close> is
  \<open>None\<close>. Allocation does not fail and the counters do not reach \<open>2^31\<close>. The abstract view is the
  plain list of the elements; every operation acts on it as its name says.
\<close>

section \<open>State\<close>

datatype list_err_t = LIST_ERR_OK | LIST_ERR_BOUNDS | LIST_ERR_NOT_FOUND | LIST_ERR_EMPTY

record 'a list_t =
  ls_count :: nat
  ls_error :: list_err_t
  ls_size :: nat
  ls_head :: nat
  ls_tail :: nat
  ls_elem :: "'a option list"

definition ls_err :: "list_err_t \<Rightarrow> 'a list_t \<Rightarrow> 'a list_t" where
  "ls_err e l = l\<lparr>ls_error := e\<rparr>"

section \<open>Operations\<close>

text \<open>The copy loop of \<open>list_grow\<close>, with the cells it has left to copy.\<close>

fun list_grow_loop :: "'a option list \<Rightarrow> nat \<Rightarrow> nat \<Rightarrow> nat \<Rightarrow> nat \<Rightarrow> 'a option list \<Rightarrow> 'a option list" where
  "list_grow_loop elem sz i index 0 nelem = nelem"
| "list_grow_loop elem sz i index (Suc n) nelem =
     list_grow_loop elem sz (ring_next sz i) (index + 1) n (nelem[index := elem ! i])"

definition list_grow :: "'a list_t \<Rightarrow> 'a list_t" where
  "list_grow l =
     (let nsize = ls_size l * 2;
          nelem = list_grow_loop (ls_elem l) (ls_size l) (ls_head l) 0 (ls_count l) (replicate nsize None)
      in l\<lparr>ls_elem := nelem, ls_size := nsize, ls_head := 0, ls_tail := ls_count l\<rparr>)"

text \<open>\<open>Grow list if necessary\<close>, in \<open>list_add\<close> and \<open>list_insert\<close>.\<close>

definition list_room :: "'a list_t \<Rightarrow> 'a list_t" where
  "list_room l = (if ls_count l = ls_size l then list_grow l else l)"

definition list_create_with_size :: "int \<Rightarrow> 'a list_t" where
  "list_create_with_size sz =
     (let sz = nat (if sz < 4 then 4 else sz)
      in \<lparr>ls_count = 0, ls_error = LIST_ERR_OK, ls_size = sz, ls_head = 0, ls_tail = 0,
          ls_elem = replicate sz None\<rparr>)"

definition list_create :: "'a list_t" where "list_create = list_create_with_size 8"

definition list_count :: "'a list_t \<Rightarrow> nat" where "list_count l = ls_count l"

definition list_add :: "'a list_t \<Rightarrow> 'a option \<Rightarrow> 'a list_t" where
  "list_add l elem =
     (let l = list_room l
      in l\<lparr>ls_elem := (ls_elem l)[ls_tail l := elem], ls_tail := ring_next (ls_size l) (ls_tail l),
           ls_count := ls_count l + 1, ls_error := LIST_ERR_OK\<rparr>)"

definition list_get :: "'a list_t \<Rightarrow> int \<Rightarrow> 'a list_t \<times> 'a option" where
  "list_get l index =
     (if index < 0 \<or> index \<ge> int (ls_count l) then (ls_err LIST_ERR_BOUNDS l, None)
      else (ls_err LIST_ERR_OK l, ls_elem l ! ((nat index + ls_head l) mod ls_size l)))"

definition list_set :: "'a list_t \<Rightarrow> int \<Rightarrow> 'a option \<Rightarrow> 'a list_t" where
  "list_set l index elem =
     (if index < 0 \<or> index \<ge> int (ls_count l) then ls_err LIST_ERR_BOUNDS l
      else l\<lparr>ls_elem := (ls_elem l)[(nat index + ls_head l) mod ls_size l := elem],
             ls_error := LIST_ERR_OK\<rparr>)"

text \<open>
  The shift loops of \<open>list_insert\<close> and \<open>list_remove_at\<close>, with the number of moves left:
  \<open>elem[pos] = elem[pos - 1]\<close> going down, \<open>elem[pos] = elem[pos + 1]\<close> and
  \<open>elem[pos - 1] = elem[pos]\<close> going up. The second returns the position it stops at.
\<close>

fun shift_down :: "nat \<Rightarrow> 'a option list \<Rightarrow> nat \<Rightarrow> nat \<Rightarrow> 'a option list" where
  "shift_down sz elem pos 0 = elem"
| "shift_down sz elem pos (Suc n) =
     shift_down sz (elem[pos := elem ! ring_prev sz pos]) (ring_prev sz pos) n"

fun shift_up :: "nat \<Rightarrow> 'a option list \<Rightarrow> nat \<Rightarrow> nat \<Rightarrow> 'a option list \<times> nat" where
  "shift_up sz elem pos 0 = (elem, pos)"
| "shift_up sz elem pos (Suc n) =
     shift_up sz (elem[pos := elem ! ring_next sz pos]) (ring_next sz pos) n"

fun shift_left :: "nat \<Rightarrow> 'a option list \<Rightarrow> nat \<Rightarrow> nat \<Rightarrow> 'a option list" where
  "shift_left sz elem pos 0 = elem"
| "shift_left sz elem pos (Suc n) =
     shift_left sz (elem[ring_prev sz pos := elem ! pos]) (ring_next sz pos) n"

definition list_insert :: "'a list_t \<Rightarrow> int \<Rightarrow> 'a option \<Rightarrow> 'a list_t" where
  "list_insert l index elem =
     (if index < 0 \<or> index > int (ls_count l) then ls_err LIST_ERR_BOUNDS l
      else
        let index = nat index;
            l = list_room l;
            l = (if index > ls_count l div 2
                 then l\<lparr>ls_elem := shift_down (ls_size l) (ls_elem l) (ls_tail l) (ls_count l - index),
                        ls_tail := ring_next (ls_size l) (ls_tail l)\<rparr>
                 else l\<lparr>ls_elem := shift_left (ls_size l) (ls_elem l) (ls_head l) index,
                        ls_head := ring_prev (ls_size l) (ls_head l)\<rparr>)
        in l\<lparr>ls_elem := (ls_elem l)[(ls_head l + index) mod ls_size l := elem],
             ls_count := ls_count l + 1, ls_error := LIST_ERR_OK\<rparr>)"

text \<open>The search loop of \<open>list_index_of\<close>, with the elements left.\<close>

fun list_index_loop :: "'a list_t \<Rightarrow> 'a option \<Rightarrow> nat \<Rightarrow> nat \<Rightarrow> nat \<Rightarrow> nat option" where
  "list_index_loop l elem i pos 0 = None"
| "list_index_loop l elem i pos (Suc n) =
     (if ls_elem l ! pos = elem then Some i
      else list_index_loop l elem (i + 1) (ring_next (ls_size l) pos) n)"

definition list_index_of :: "'a list_t \<Rightarrow> 'a option \<Rightarrow> 'a list_t \<times> int" where
  "list_index_of l elem =
     (case list_index_loop l elem 0 (ls_head l) (ls_count l) of
        Some i \<Rightarrow> (ls_err LIST_ERR_OK l, int i)
      | None \<Rightarrow> (ls_err LIST_ERR_NOT_FOUND l, - 1))"

definition list_remove_at :: "'a list_t \<Rightarrow> int \<Rightarrow> 'a list_t \<times> 'a option" where
  "list_remove_at l index =
     (if index < 0 \<or> index \<ge> int (ls_count l) then (ls_err LIST_ERR_BOUNDS l, None)
      else
        let index = nat index; sz = ls_size l; at = (ls_head l + index) mod sz;
            elem = ls_elem l ! at;
            l = (if index > ls_count l div 2
                 then let (es, pos) = shift_up sz (ls_elem l) at (ls_count l - index - 1)
                      in l\<lparr>ls_elem := es[pos := None], ls_tail := ring_prev sz (ls_tail l)\<rparr>
                 else let es = shift_down sz (ls_elem l) at index
                      in l\<lparr>ls_elem := es[ls_head l := None], ls_head := ring_next sz (ls_head l)\<rparr>)
        in (l\<lparr>ls_count := ls_count l - 1, ls_error := LIST_ERR_OK\<rparr>, elem))"

definition list_remove :: "'a list_t \<Rightarrow> 'a option \<Rightarrow> 'a list_t \<times> 'a option" where
  "list_remove l elem =
     (let (l, index) = list_index_of l elem
      in if ls_error l \<noteq> LIST_ERR_OK then (l, None) else list_remove_at l index)"

definition list_clear :: "'a list_t \<Rightarrow> 'a list_t" where
  "list_clear l = l\<lparr>ls_count := 0, ls_head := 0, ls_tail := 0, ls_error := LIST_ERR_OK\<rparr>"

definition list_push :: "'a list_t \<Rightarrow> 'a option \<Rightarrow> 'a list_t" where
  "list_push l elem = list_add l elem"

definition list_pop :: "'a list_t \<Rightarrow> 'a list_t \<times> 'a option" where
  "list_pop l =
     (if ls_count l = 0 then (ls_err LIST_ERR_EMPTY l, None) else list_remove_at l (int (ls_count l) - 1))"

definition list_top :: "'a list_t \<Rightarrow> 'a list_t \<times> 'a option" where
  "list_top l =
     (if ls_count l = 0 then (ls_err LIST_ERR_EMPTY l, None) else list_get l (int (ls_count l) - 1))"

definition list_bottom :: "'a list_t \<Rightarrow> 'a list_t \<times> 'a option" where
  "list_bottom l = (if ls_count l = 0 then (ls_err LIST_ERR_EMPTY l, None) else list_get l 0)"

definition list_enqueue :: "'a list_t \<Rightarrow> 'a option \<Rightarrow> 'a list_t" where
  "list_enqueue l elem = list_add l elem"

definition list_dequeue :: "'a list_t \<Rightarrow> 'a list_t \<times> 'a option" where
  "list_dequeue l =
     (if ls_count l = 0 then (ls_err LIST_ERR_EMPTY l, None) else list_remove_at l 0)"

definition list_head :: "'a list_t \<Rightarrow> 'a list_t \<times> 'a option" where
  "list_head l = (if ls_count l = 0 then (ls_err LIST_ERR_EMPTY l, None) else list_get l 0)"

definition list_tail :: "'a list_t \<Rightarrow> 'a list_t \<times> 'a option" where
  "list_tail l =
     (if ls_count l = 0 then (ls_err LIST_ERR_EMPTY l, None) else list_get l (int (ls_count l) - 1))"

text \<open>
  \<open>ELEM(X)\<close> of the sort: C's remainder truncates towards zero, so a negative \<open>X + head\<close> gives a
  negative cell, which is outside of the vector, unless it is a multiple of the size.
\<close>

definition ELEM :: "'a list_t \<Rightarrow> int \<Rightarrow> int" where
  "ELEM l X = (let k = X + int (ls_head l); s = int (ls_size l) in if k < 0 then - ((- k) mod s) else k mod s)"

definition elem_rd :: "'a list_t \<Rightarrow> int \<Rightarrow> 'a option option" where
  "elem_rd l X = (if ELEM l X < 0 then None else Some (ls_elem l ! nat (ELEM l X)))"

definition elem_wr :: "'a list_t \<Rightarrow> int \<Rightarrow> 'a option \<Rightarrow> 'a list_t" where
  "elem_wr l X x = l\<lparr>ls_elem := (ls_elem l)[nat (ELEM l X) := x]\<rparr>"

definition ls_pivot :: "int \<Rightarrow> int \<Rightarrow> int" where "ls_pivot lo hi = hi"

definition list_sort :: "'a list_t \<Rightarrow> ('a option \<Rightarrow> 'a option \<Rightarrow> int) \<Rightarrow> 'a list_t option" where
  "list_sort l cmp =
     (if ls_count l \<noteq> 0 then quick_sort elem_rd elem_wr ls_pivot cmp l 0 (int (ls_count l) - 1) else Some l)"

section \<open>The view\<close>

definition ls_ok :: "'a list_t \<Rightarrow> bool" where
  "ls_ok l \<longleftrightarrow> 4 \<le> ls_size l \<and> length (ls_elem l) = ls_size l \<and> ls_head l < ls_size l \<and>
     ls_count l \<le> ls_size l \<and> ls_tail l = (ls_head l + ls_count l) mod ls_size l"

definition list_view :: "'a list_t \<Rightarrow> 'a option list" where
  "list_view l = map (\<lambda>i. ls_elem l ! ring_at (ls_size l) (ls_head l) i) [0..<ls_count l]"

lemma length_list_view [simp]: "length (list_view l) = ls_count l"
  by (simp add: list_view_def)

lemma nth_list_view: "i < ls_count l \<Longrightarrow> list_view l ! i = ls_elem l ! ring_at (ls_size l) (ls_head l) i"
  by (simp add: list_view_def)

section \<open>The loops\<close>

lemma length_loops [simp]:
  "length (shift_down s es pos n) = length es"
  "length (fst (shift_up s es pos n)) = length es"
  "length (shift_left s es pos n) = length es"
  "length (list_grow_loop es s i k n ns) = length ns"
  by (induction n arbitrary: es pos i k ns) auto

lemma shift_down_nth:
  assumes "0 < s" "length es = s" "n \<le> b" "b < s" "i < s"
  shows "shift_down s es (ring_at s h b) n ! ring_at s h i =
           es ! ring_at s h (if b - n < i \<and> i \<le> b then i - 1 else i)"
  using assms
proof (induction n arbitrary: es b)
  case (Suc n)
  then obtain c where c: "b = c + 1" by (cases b) auto
  let ?es = "es[ring_at s h b := es ! ring_at s h c]"
  have "shift_down s es (ring_at s h b) (Suc n) ! ring_at s h i = shift_down s ?es (ring_at s h c) n ! ring_at s h i"
    using Suc.prems by (simp only: shift_down.simps c ring_prev_at)
  also have "\<dots> = ?es ! ring_at s h (if c - n < i \<and> i \<le> c then i - 1 else i)"
    using Suc.prems c by (intro Suc.IH) auto
  also have "\<dots> = es ! ring_at s h (if b - Suc n < i \<and> i \<le> b then i - 1 else i)"
    using Suc.prems c by (cases "i = b") (auto simp: nth_list_update ring_at_inj ring_at_less)
  finally show ?case .
qed auto

lemma shift_up_nth:
  assumes "0 < s" "length es = s" "b + n < s" "i < s"
  shows "fst (shift_up s es (ring_at s h b) n) ! ring_at s h i =
           es ! ring_at s h (if b \<le> i \<and> i < b + n then i + 1 else i)"
  using assms
proof (induction n arbitrary: es b)
  case (Suc n)
  let ?es = "es[ring_at s h b := es ! ring_at s h (b + 1)]"
  have "fst (shift_up s es (ring_at s h b) (Suc n)) ! ring_at s h i = fst (shift_up s ?es (ring_at s h (b + 1)) n) ! ring_at s h i"
    using Suc.prems by (simp only: shift_up.simps ring_next_at)
  also have "\<dots> = ?es ! ring_at s h (if b + 1 \<le> i \<and> i < b + 1 + n then i + 1 else i)"
    using Suc.prems by (intro Suc.IH) auto
  also have "\<dots> = es ! ring_at s h (if b \<le> i \<and> i < b + Suc n then i + 1 else i)"
    using Suc.prems by (cases "i = b") (auto simp: nth_list_update ring_at_inj ring_at_less)
  finally show ?case .
qed auto

lemma shift_up_stop:
  "0 < s \<Longrightarrow> snd (shift_up s es (ring_at s h b) n) = ring_at s h (b + n)"
  by (induction n arbitrary: es b) (auto simp: ring_next_at)

lemma shift_left_nth:
  assumes "0 < s" "length es = s" "b + n < s" "i < s"
  shows "shift_left s es (ring_at s h (b + 1)) n ! ring_at s h i =
           es ! ring_at s h (if b \<le> i \<and> i < b + n then i + 1 else i)"
  using assms
proof (induction n arbitrary: es b)
  case (Suc n)
  let ?es = "es[ring_at s h b := es ! ring_at s h (b + 1)]"
  have "shift_left s es (ring_at s h (b + 1)) (Suc n) ! ring_at s h i = shift_left s ?es (ring_at s h (b + 1 + 1)) n ! ring_at s h i"
    using Suc.prems by (simp only: shift_left.simps ring_next_at ring_prev_at)
  also have "\<dots> = ?es ! ring_at s h (if b + 1 \<le> i \<and> i < b + 1 + n then i + 1 else i)"
    using Suc.prems by (intro Suc.IH) auto
  also have "\<dots> = es ! ring_at s h (if b \<le> i \<and> i < b + Suc n then i + 1 else i)"
    using Suc.prems by (cases "i = b") (auto simp: nth_list_update ring_at_inj ring_at_less)
  finally show ?case .
qed auto

lemma grow_loop_nth:
  assumes "0 < s" "k + n \<le> length ns" "i < length ns"
  shows "list_grow_loop es s (ring_at s h k) k n ns ! i =
           (if k \<le> i \<and> i < k + n then es ! ring_at s h i else ns ! i)"
  using assms
proof (induction n arbitrary: k ns)
  case (Suc n)
  then show ?case by (auto simp: ring_next_at nth_list_update)
qed auto

section \<open>The operations on the view\<close>

lemma list_view_eqI:
  "ls_count l = length ys \<Longrightarrow>
   (\<And>i. i < length ys \<Longrightarrow> ls_elem l ! ring_at (ls_size l) (ls_head l) i = ys ! i) \<Longrightarrow> list_view l = ys"
  by (intro nth_equalityI) (auto simp: nth_list_view)

lemma ls_okD:
  assumes "ls_ok l"
  shows "0 < ls_size l" "length (ls_elem l) = ls_size l" "ls_count l \<le> ls_size l" "ls_head l < ls_size l"
    "ls_tail l = ring_at (ls_size l) (ls_head l) (ls_count l)" "ls_head l = ring_at (ls_size l) (ls_head l) 0"
  using assms by (auto simp: ls_ok_def ring_at_def)

lemma ls_err_simps [simp]:
  "ls_ok (ls_err e l) = ls_ok l" "list_view (ls_err e l) = list_view l" "ls_error (ls_err e l) = e"
  "ls_count (ls_err e l) = ls_count l"
  by (simp_all add: ls_err_def ls_ok_def list_view_def)

lemma list_create_ok: "ls_ok (list_create_with_size n)" "list_view (list_create_with_size n) = []"
  by (auto simp: ls_ok_def list_create_with_size_def list_view_def Let_def)

lemma list_grow_ok:
  assumes "ls_ok l"
  shows "ls_ok (list_grow l)" "list_view (list_grow l) = list_view l"
    "ls_count (list_grow l) = ls_count l" "ls_size (list_grow l) = ls_size l * 2"
proof -
  note ok = ls_okD [OF assms]
  let ?nelem = "list_grow_loop (ls_elem l) (ls_size l) (ls_head l) 0 (ls_count l) (replicate (ls_size l * 2) None)"
  have nth: "?nelem ! i = list_view l ! i" if "i < ls_count l" for i
    using ok that grow_loop_nth [of "ls_size l" 0 "ls_count l" "replicate (ls_size l * 2) None" i "ls_elem l" "ls_head l"]
    by (simp add: nth_list_view flip: ok(6))
  show "list_view (list_grow l) = list_view l"
    using nth ok by (intro list_view_eqI) (auto simp: list_grow_def ring_at_def Let_def)
  show "ls_ok (list_grow l)" "ls_count (list_grow l) = ls_count l" "ls_size (list_grow l) = ls_size l * 2"
    using assms by (auto simp: list_grow_def ls_ok_def Let_def)
qed

lemma list_room_ok:
  assumes "ls_ok l"
  shows "ls_ok (list_room l)" "list_view (list_room l) = list_view l"
    "ls_count (list_room l) = ls_count l" "ls_count (list_room l) < ls_size (list_room l)"
  using assms list_grow_ok [OF assms] ls_okD(1,3) [OF assms] by (auto simp: list_room_def)

lemma list_add_ok:
  assumes "ls_ok l"
  shows "ls_ok (list_add l x)" "list_view (list_add l x) = list_view l @ [x]"
proof -
  define m where "m = list_room l"
  note m = list_room_ok [OF assms, folded m_def]
  note ok = ls_okD [OF m(1)]
  have eq: "list_add l x = m\<lparr>ls_elem := (ls_elem m)[ls_tail m := x], ls_tail := ring_next (ls_size m) (ls_tail m),
      ls_count := ls_count m + 1, ls_error := LIST_ERR_OK\<rparr>"
    by (simp add: list_add_def m_def Let_def)
  show "ls_ok (list_add l x)"
    unfolding eq using m(1,4) ok by (auto simp: ls_ok_def ring_next_def ring_at_def mod_simps)
  show "list_view (list_add l x) = list_view l @ [x]"
    unfolding eq m(2) [symmetric] using m(4) ok(1-5)
    by (intro list_view_eqI) (auto simp: nth_append nth_list_view nth_list_update ring_at_inj ring_at_less less_Suc_eq)
qed

lemma list_get_ok:
  assumes "ls_ok l"
  shows "list_get l i =
    (if 0 \<le> i \<and> i < int (ls_count l) then (ls_err LIST_ERR_OK l, list_view l ! nat i)
     else (ls_err LIST_ERR_BOUNDS l, None))"
  by (auto simp: list_get_def nth_list_view ring_at_def add.commute)

lemma list_set_ok:
  assumes "ls_ok l" "j < ls_count l"
  shows "ls_ok (list_set l (int j) x)" "list_view (list_set l (int j) x) = (list_view l)[j := x]"
proof -
  note ok = ls_okD [OF assms(1)]
  have at: "(nat (int j) + ls_head l) mod ls_size l = ring_at (ls_size l) (ls_head l) j"
    by (simp only: ring_at_def nat_int add.commute)
  have "\<not> (int j < 0 \<or> int j \<ge> int (ls_count l))" using assms(2) by simp
  then have eq: "list_set l (int j) x = l\<lparr>ls_elem := (ls_elem l)[ring_at (ls_size l) (ls_head l) j := x], ls_error := LIST_ERR_OK\<rparr>"
    unfolding list_set_def at by (simp only: if_False)
  show "ls_ok (list_set l (int j) x)" unfolding eq using assms(1) by (simp add: ls_ok_def)
  show "list_view (list_set l (int j) x) = (list_view l)[j := x]"
    unfolding eq using assms(2) ok(1-3)
    by (intro list_view_eqI) (auto simp: nth_list_update nth_list_view ring_at_inj ring_at_less)
qed

lemma list_index_loop_eq:
  assumes "ls_ok l" "i + n = ls_count l"
  shows "list_index_loop l x i (ring_at (ls_size l) (ls_head l) i) n = find_index_from (\<lambda>y. y = x) i (drop i (list_view l))"
  using assms(2)
proof (induction n arbitrary: i)
  case (Suc n)
  then have "drop i (list_view l) = list_view l ! i # drop (i + 1) (list_view l)"
    using Cons_nth_drop_Suc [of i "list_view l"] by simp
  moreover have "ls_elem l ! ring_at (ls_size l) (ls_head l) i = list_view l ! i"
    using Suc.prems by (simp add: nth_list_view)
  moreover have "list_index_loop l x (i + 1) (ring_at (ls_size l) (ls_head l) (i + 1)) n =
      find_index_from (\<lambda>y. y = x) (i + 1) (drop (i + 1) (list_view l))"
    using Suc.prems by (intro Suc.IH) simp
  ultimately show ?case
    by (simp only: list_index_loop.simps ring_next_at [OF ls_okD(1) [OF assms(1)]] find_index_from.simps)
qed simp

lemma list_index_of_ok:
  assumes "ls_ok l"
  shows "list_index_of l x =
    (case find_index_from (\<lambda>y. y = x) 0 (list_view l) of
       Some i \<Rightarrow> (ls_err LIST_ERR_OK l, int i) | None \<Rightarrow> (ls_err LIST_ERR_NOT_FOUND l, - 1))"
  using list_index_loop_eq [OF assms, of 0] by (simp add: list_index_of_def flip: ls_okD(6) [OF assms])

lemma list_insert_ok:
  assumes "ls_ok l" "j \<le> ls_count l"
  shows "ls_ok (list_insert l (int j) x)"
    "list_view (list_insert l (int j) x) = take j (list_view l) @ x # drop j (list_view l)"
proof -
  define m where "m = list_room l"
  note m = list_room_ok [OF assms(1), folded m_def]
  note ok = ls_okD [OF m(1)]
  let ?s = "ls_size m" and ?h = "ls_head m" and ?c = "ls_count m"
  have j: "j \<le> ?c" using assms(2) m(3) by simp
  have "\<not> (int j < 0 \<or> int j > int (ls_count l))" using assms(2) by simp
  then have eq: "list_insert l (int j) x =
     (let m' = (if j > ?c div 2
                then m\<lparr>ls_elem := shift_down ?s (ls_elem m) (ls_tail m) (?c - j), ls_tail := ring_next ?s (ls_tail m)\<rparr>
                else m\<lparr>ls_elem := shift_left ?s (ls_elem m) ?h j, ls_head := ring_prev ?s ?h\<rparr>)
      in m'\<lparr>ls_elem := (ls_elem m')[(ls_head m' + j) mod ls_size m' := x], ls_count := ls_count m' + 1, ls_error := LIST_ERR_OK\<rparr>)"
    unfolding list_insert_def by (simp only: if_False m_def Let_def nat_int)
  have nth: "(take j (list_view l) @ x # drop j (list_view l)) ! i =
      (if i < j then list_view m ! i else if i = j then x else list_view m ! (i - 1))" if "i \<le> ?c" for i
    using that j m(2,3) by (auto simp: nth_append nth_Cons')
  have "ls_ok (list_insert l (int j) x) \<and>
    list_view (list_insert l (int j) x) = take j (list_view l) @ x # drop j (list_view l)"
  proof (cases "j > ?c div 2")
    case True
    let ?es = "shift_down ?s (ls_elem m) (ring_at ?s ?h ?c) (?c - j)"
    have eq1: "list_insert l (int j) x = m\<lparr>ls_elem := ?es[ring_at ?s ?h j := x], ls_tail := ring_next ?s (ring_at ?s ?h ?c),
        ls_count := ?c + 1, ls_error := LIST_ERR_OK\<rparr>"
      unfolding eq by (simp add: True ok(5) flip: ring_at_def)
    have "?es[ring_at ?s ?h j := x] ! ring_at ?s ?h i = (take j (list_view l) @ x # drop j (list_view l)) ! i"
      if "i \<le> ?c" for i
      using that m(4) ok(1-3) j nth [OF that] shift_down_nth [of ?s "ls_elem m" "?c - j" ?c i ?h]
      by (auto simp: nth_list_update ring_at_inj ring_at_less nth_list_view)
    then have "list_view (list_insert l (int j) x) = take j (list_view l) @ x # drop j (list_view l)"
      unfolding eq1 using assms(2) m(3) by (intro list_view_eqI) auto
    moreover have "ls_ok (list_insert l (int j) x)"
      unfolding eq1 using m(1,4) ok by (auto simp: ls_ok_def ring_next_def ring_at_def mod_simps)
    ultimately show ?thesis by blast
  next
    case False
    let ?g = "ring_prev ?s ?h"
    have h: "ring_at ?s ?g (0 + 1) = ?h" using ok(1,6) by (metis at_ring_prev)
    let ?es = "shift_left ?s (ls_elem m) (ring_at ?s ?g (0 + 1)) j"
    have eq1: "list_insert l (int j) x = m\<lparr>ls_elem := ?es[ring_at ?s ?g j := x], ls_head := ?g,
        ls_count := ?c + 1, ls_error := LIST_ERR_OK\<rparr>"
      unfolding eq h by (simp add: False flip: ring_at_def)
    have old: "list_view m ! k = ls_elem m ! ring_at ?s ?g (k + 1)" if "k < ?c" for k
      using that by (simp only: nth_list_view at_ring_prev [OF ok(1)])
    have "?es[ring_at ?s ?g j := x] ! ring_at ?s ?g i = (take j (list_view l) @ x # drop j (list_view l)) ! i"
      if "i \<le> ?c" for i
      using that m(4) ok(1-3) j False nth [OF that] shift_left_nth [of ?s "ls_elem m" 0 j i ?g]
      by (auto simp: nth_list_update ring_at_inj ring_at_less old)
    then have "list_view (list_insert l (int j) x) = take j (list_view l) @ x # drop j (list_view l)"
      unfolding eq1 using assms(2) m(3) by (intro list_view_eqI) auto
    moreover have "ls_ok (list_insert l (int j) x)"
      unfolding eq1 using m(1,4) ok at_ring_prev [OF ok(1), of ?h ?c]
      by (auto simp: ls_ok_def ring_prev_def ring_at_def)
    ultimately show ?thesis by blast
  qed
  then show "ls_ok (list_insert l (int j) x)"
    "list_view (list_insert l (int j) x) = take j (list_view l) @ x # drop j (list_view l)" by auto
qed

lemma list_remove_at_ok:
  assumes "ls_ok l" "j < ls_count l"
  shows "ls_ok (fst (list_remove_at l (int j)))" "snd (list_remove_at l (int j)) = list_view l ! j"
    "list_view (fst (list_remove_at l (int j))) = take j (list_view l) @ drop (j + 1) (list_view l)"
    "ls_error (fst (list_remove_at l (int j))) = LIST_ERR_OK"
proof -
  note ok = ls_okD [OF assms(1)]
  let ?s = "ls_size l" and ?h = "ls_head l" and ?c = "ls_count l"
  let ?new = "take j (list_view l) @ drop (j + 1) (list_view l)"
  have "\<not> (int j < 0 \<or> int j \<ge> int ?c)" using assms(2) by simp
  then have eq: "list_remove_at l (int j) =
     (let m = (if j > ?c div 2
                 then let (es, pos) = shift_up ?s (ls_elem l) (ring_at ?s ?h j) (?c - j - 1)
                      in l\<lparr>ls_elem := es[pos := None], ls_tail := ring_prev ?s (ls_tail l)\<rparr>
                 else let es = shift_down ?s (ls_elem l) (ring_at ?s ?h j) j
                      in l\<lparr>ls_elem := es[?h := None], ls_head := ring_next ?s ?h\<rparr>)
      in (m\<lparr>ls_count := ls_count m - 1, ls_error := LIST_ERR_OK\<rparr>, list_view l ! j))"
    unfolding list_remove_at_def nth_list_view [OF assms(2)] by (simp only: if_False Let_def nat_int ring_at_def [symmetric])
  have nth: "?new ! i = (if i < j then list_view l ! i else list_view l ! (i + 1))" if "i < ?c - 1" for i
    using that assms(2) by (auto simp: nth_append)
  have len: "?c - 1 = length ?new" using assms(2) by simp
  have "ls_ok (fst (list_remove_at l (int j))) \<and> snd (list_remove_at l (int j)) = list_view l ! j \<and>
    list_view (fst (list_remove_at l (int j))) = ?new \<and> ls_error (fst (list_remove_at l (int j))) = LIST_ERR_OK"
  proof (cases "j > ?c div 2")
    case True
    let ?es = "fst (shift_up ?s (ls_elem l) (ring_at ?s ?h j) (?c - j - 1))"
    have stop: "snd (shift_up ?s (ls_elem l) (ring_at ?s ?h j) (?c - j - 1)) = ring_at ?s ?h (?c - 1)"
      using shift_up_stop [OF ok(1), of "ls_elem l" ?h j "?c - j - 1"] assms(2) by simp
    have eq1: "list_remove_at l (int j) = (l\<lparr>ls_elem := ?es[ring_at ?s ?h (?c - 1) := None],
        ls_tail := ring_prev ?s (ls_tail l), ls_count := ?c - 1, ls_error := LIST_ERR_OK\<rparr>, list_view l ! j)"
      unfolding eq by (simp add: True Let_def split_beta stop [simplified])
    have "?es[ring_at ?s ?h (?c - 1) := None] ! ring_at ?s ?h i = ?new ! i" if "i < ?c - 1" for i
      using that ok(1-3) nth [OF that] assms(2) shift_up_nth [of ?s "ls_elem l" j "?c - j - 1" i ?h]
      by (auto simp: nth_list_update ring_at_inj ring_at_less nth_list_view)
    then have "list_view (fst (list_remove_at l (int j))) = ?new"
      unfolding eq1 len by (intro list_view_eqI) auto
    moreover have "ring_prev ?s (ls_tail l) = ring_at ?s ?h (?c - 1)"
      using ring_prev_at [OF ok(1), of ?h "?c - 1"] assms(2) ok(5) by simp
    then have "ls_ok (fst (list_remove_at l (int j)))"
      unfolding eq1 using assms ok(1-4) by (simp add: ls_ok_def ring_at_def)
    ultimately show ?thesis unfolding eq1 by simp
  next
    case False
    let ?es = "shift_down ?s (ls_elem l) (ring_at ?s ?h j) j"
    have eq1: "list_remove_at l (int j) = (l\<lparr>ls_elem := ?es[ring_at ?s ?h 0 := None],
        ls_head := ring_next ?s ?h, ls_count := ?c - 1, ls_error := LIST_ERR_OK\<rparr>, list_view l ! j)"
      unfolding eq by (simp add: False Let_def flip: ok(6))
    have "?es[ring_at ?s ?h 0 := None] ! ring_at ?s (ring_next ?s ?h) i = ?new ! i" if "i < ?c - 1" for i
      using that ok(1-3) nth [OF that] assms(2) shift_down_nth [of ?s "ls_elem l" j j "i + 1" ?h]
      unfolding at_ring_next [OF ok(1)]
      by (auto simp: nth_list_update ring_at_inj ring_at_less nth_list_view)
    then have "list_view (fst (list_remove_at l (int j))) = ?new"
      unfolding eq1 len by (intro list_view_eqI) auto
    moreover have "ls_tail l = ring_at ?s (ring_next ?s ?h) (?c - 1)"
      using assms(2) ok(1,5) by (simp add: at_ring_next)
    then have "ls_ok (fst (list_remove_at l (int j)))"
      unfolding eq1 using assms ok(1-4) by (simp add: ls_ok_def ring_at_def ring_next_def)
    ultimately show ?thesis unfolding eq1 by simp
  qed
  then show "ls_ok (fst (list_remove_at l (int j)))" "snd (list_remove_at l (int j)) = list_view l ! j"
    "list_view (fst (list_remove_at l (int j))) = ?new"
    "ls_error (fst (list_remove_at l (int j))) = LIST_ERR_OK" by auto
qed

section \<open>Refinement of plain lists\<close>

datatype 'a list_op =
    Op_add "'a option" | Op_push "'a option" | Op_enqueue "'a option"
  | Op_get int | Op_set int "'a option" | Op_insert int "'a option"
  | Op_index_of "'a option" | Op_remove_at int | Op_remove "'a option" | Op_clear | Op_count
  | Op_pop | Op_top | Op_bottom | Op_dequeue | Op_head | Op_tail

datatype 'a list_ret = Ret_void | Ret_ptr "'a option" | Ret_int int

fun list_step :: "'a list_op \<Rightarrow> 'a list_t \<Rightarrow> 'a list_t \<times> 'a list_ret" where
  "list_step (Op_add x) l = (list_add l x, Ret_void)"
| "list_step (Op_push x) l = (list_push l x, Ret_void)"
| "list_step (Op_enqueue x) l = (list_enqueue l x, Ret_void)"
| "list_step (Op_get i) l = map_prod id Ret_ptr (list_get l i)"
| "list_step (Op_set i x) l = (list_set l i x, Ret_void)"
| "list_step (Op_insert i x) l = (list_insert l i x, Ret_void)"
| "list_step (Op_index_of x) l = map_prod id Ret_int (list_index_of l x)"
| "list_step (Op_remove_at i) l = map_prod id Ret_ptr (list_remove_at l i)"
| "list_step (Op_remove x) l = map_prod id Ret_ptr (list_remove l x)"
| "list_step Op_clear l = (list_clear l, Ret_void)"
| "list_step Op_count l = (l, Ret_int (int (list_count l)))"
| "list_step Op_pop l = map_prod id Ret_ptr (list_pop l)"
| "list_step Op_top l = map_prod id Ret_ptr (list_top l)"
| "list_step Op_bottom l = map_prod id Ret_ptr (list_bottom l)"
| "list_step Op_dequeue l = map_prod id Ret_ptr (list_dequeue l)"
| "list_step Op_head l = map_prod id Ret_ptr (list_head l)"
| "list_step Op_tail l = map_prod id Ret_ptr (list_tail l)"

text \<open>The specification: a plain list and the error code of the last operation.\<close>

type_synonym 'a seq = "'a option list \<times> list_err_t"

definition seq_at :: "'a option list \<Rightarrow> int \<Rightarrow> bool" where
  "seq_at xs i \<longleftrightarrow> 0 \<le> i \<and> i < int (length xs)"

definition seq_peek :: "'a seq \<Rightarrow> ('a option list \<Rightarrow> 'a option) \<Rightarrow> 'a seq \<times> 'a list_ret" where
  "seq_peek s f =
     (if fst s = [] then ((fst s, LIST_ERR_EMPTY), Ret_ptr None) else ((fst s, LIST_ERR_OK), Ret_ptr (f (fst s))))"

definition seq_take :: "'a seq \<Rightarrow> ('a option list \<Rightarrow> 'a option) \<Rightarrow> ('a option list \<Rightarrow> 'a option list) \<Rightarrow>
    'a seq \<times> 'a list_ret" where
  "seq_take s f g =
     (if fst s = [] then ((fst s, LIST_ERR_EMPTY), Ret_ptr None)
      else ((g (fst s), LIST_ERR_OK), Ret_ptr (f (fst s))))"

fun seq_step :: "'a list_op \<Rightarrow> 'a seq \<Rightarrow> 'a seq \<times> 'a list_ret" where
  "seq_step (Op_add x) (xs, e) = ((xs @ [x], LIST_ERR_OK), Ret_void)"
| "seq_step (Op_push x) (xs, e) = ((xs @ [x], LIST_ERR_OK), Ret_void)"
| "seq_step (Op_enqueue x) (xs, e) = ((xs @ [x], LIST_ERR_OK), Ret_void)"
| "seq_step (Op_get i) (xs, e) =
     (if seq_at xs i then ((xs, LIST_ERR_OK), Ret_ptr (xs ! nat i)) else ((xs, LIST_ERR_BOUNDS), Ret_ptr None))"
| "seq_step (Op_set i x) (xs, e) =
     (if seq_at xs i then (xs[nat i := x], LIST_ERR_OK) else (xs, LIST_ERR_BOUNDS), Ret_void)"
| "seq_step (Op_insert i x) (xs, e) =
     (if 0 \<le> i \<and> i \<le> int (length xs) then (take (nat i) xs @ x # drop (nat i) xs, LIST_ERR_OK)
      else (xs, LIST_ERR_BOUNDS), Ret_void)"
| "seq_step (Op_index_of x) (xs, e) =
     (if x \<in> set xs then ((xs, LIST_ERR_OK), Ret_int (int (length (takeWhile (\<lambda>y. y \<noteq> x) xs))))
      else ((xs, LIST_ERR_NOT_FOUND), Ret_int (- 1)))"
| "seq_step (Op_remove_at i) (xs, e) =
     (if seq_at xs i then ((take (nat i) xs @ drop (nat i + 1) xs, LIST_ERR_OK), Ret_ptr (xs ! nat i))
      else ((xs, LIST_ERR_BOUNDS), Ret_ptr None))"
| "seq_step (Op_remove x) (xs, e) =
     (if x \<in> set xs then ((remove1 x xs, LIST_ERR_OK), Ret_ptr x) else ((xs, LIST_ERR_NOT_FOUND), Ret_ptr None))"
| "seq_step Op_clear (xs, e) = (([], LIST_ERR_OK), Ret_void)"
| "seq_step Op_count (xs, e) = ((xs, e), Ret_int (int (length xs)))"
| "seq_step Op_pop s = seq_take s last butlast"
| "seq_step Op_top s = seq_peek s last"
| "seq_step Op_bottom s = seq_peek s hd"
| "seq_step Op_dequeue s = seq_take s hd tl"
| "seq_step Op_head s = seq_peek s hd"
| "seq_step Op_tail s = seq_peek s last"

fun list_run :: "'a list_op list \<Rightarrow> 'a list_t \<Rightarrow> 'a list_t \<times> 'a list_ret list" where
  "list_run [] l = (l, [])"
| "list_run (a # as) l = (let (l, r) = list_step a l; (l, rs) = list_run as l in (l, r # rs))"

fun seq_run :: "'a list_op list \<Rightarrow> 'a seq \<Rightarrow> 'a seq \<times> 'a list_ret list" where
  "seq_run [] s = (s, [])"
| "seq_run (a # as) s = (let (s, r) = seq_step a s; (s, rs) = seq_run as s in (s, r # rs))"

definition seq_abs :: "'a list_t \<Rightarrow> 'a seq" where
  "seq_abs l = (list_view l, ls_error l)"

text \<open>One step of the ring buffer is one step of the list it shows.\<close>

definition list_sim :: "'a list_op \<Rightarrow> 'a list_t \<Rightarrow> bool" where
  "list_sim a l \<longleftrightarrow> (case list_step a l of (l', r) \<Rightarrow> ls_ok l' \<and> seq_step a (seq_abs l) = (seq_abs l', r))"

lemma index_takeWhile:
  "find_index_from (\<lambda>y. y = x) k xs =
     (if x \<in> set xs then Some (k + length (takeWhile (\<lambda>y. y \<noteq> x) xs)) else None)"
  by (induction xs arbitrary: k) auto

lemma remove1_takeWhile:
  "x \<in> set xs \<Longrightarrow> remove1 x xs = take (length (takeWhile (\<lambda>y. y \<noteq> x) xs)) xs @ drop (Suc (length (takeWhile (\<lambda>y. y \<noteq> x) xs))) xs"
  by (induction xs) auto

lemma nth_takeWhile_stop:
  "x \<in> set xs \<Longrightarrow> length (takeWhile (\<lambda>y. y \<noteq> x) xs) < length xs \<and> xs ! length (takeWhile (\<lambda>y. y \<noteq> x) xs) = x"
  by (induction xs) auto

lemma ls_count_0: "ls_count l = 0 \<longleftrightarrow> list_view l = []"
  by (metis length_list_view length_0_conv)

lemma sim_add:
  "ls_ok l \<Longrightarrow> list_sim (Op_add x) l"
  "ls_ok l \<Longrightarrow> list_sim (Op_push x) l"
  "ls_ok l \<Longrightarrow> list_sim (Op_enqueue x) l"
  using list_add_ok [of l x]
  by (auto simp: list_sim_def seq_abs_def list_push_def list_enqueue_def) (simp_all add: list_add_def Let_def)

lemma sim_get: "ls_ok l \<Longrightarrow> list_sim (Op_get i) l"
  by (simp add: list_sim_def seq_abs_def list_get_ok seq_at_def)

lemma sim_set: "ls_ok l \<Longrightarrow> list_sim (Op_set i x) l"
proof (cases "0 \<le> i \<and> i < int (ls_count l)")
  case True
  then obtain j where j: "i = int j" "j < ls_count l" by (metis nonneg_int_cases of_nat_less_iff)
  moreover assume "ls_ok l"
  ultimately show ?thesis
    using list_set_ok [of l j x] by (simp add: list_sim_def seq_abs_def seq_at_def) (simp add: list_set_def)
next
  case False
  moreover assume "ls_ok l"
  ultimately show ?thesis by (auto simp: list_sim_def seq_abs_def seq_at_def list_set_def)
qed

lemma sim_insert: "ls_ok l \<Longrightarrow> list_sim (Op_insert i x) l"
proof (cases "0 \<le> i \<and> i \<le> int (ls_count l)")
  case True
  then obtain j where j: "i = int j" "j \<le> ls_count l" by (metis nonneg_int_cases of_nat_le_iff)
  moreover assume "ls_ok l"
  ultimately show ?thesis
    using list_insert_ok [of l j x] by (simp add: list_sim_def seq_abs_def) (simp add: list_insert_def Let_def)
next
  case False
  moreover assume "ls_ok l"
  ultimately show ?thesis by (auto simp: list_sim_def seq_abs_def list_insert_def)
qed

lemma sim_remove_at: "ls_ok l \<Longrightarrow> list_sim (Op_remove_at i) l"
proof (cases "0 \<le> i \<and> i < int (ls_count l)")
  case True
  then obtain j where j: "i = int j" "j < ls_count l" by (metis nonneg_int_cases of_nat_less_iff)
  moreover assume "ls_ok l"
  ultimately show ?thesis
    using list_remove_at_ok [of l j]
    by (cases "list_remove_at l (int j)") (simp add: list_sim_def seq_abs_def seq_at_def)
next
  case False
  moreover assume "ls_ok l"
  ultimately show ?thesis by (auto simp: list_sim_def seq_abs_def seq_at_def list_remove_at_def)
qed

lemma sim_index_of: "ls_ok l \<Longrightarrow> list_sim (Op_index_of x) l"
  by (simp add: list_sim_def seq_abs_def list_index_of_ok index_takeWhile)

lemma sim_remove:
  assumes "ls_ok l"
  shows "list_sim (Op_remove x) l"
proof (cases "x \<in> set (list_view l)")
  case True
  let ?k = "length (takeWhile (\<lambda>y. y \<noteq> x) (list_view l))"
  let ?l = "ls_err LIST_ERR_OK l"
  have k: "?k < ls_count ?l" "list_view l ! ?k = x" using nth_takeWhile_stop [OF True] by simp_all
  have "list_remove l x = list_remove_at ?l (int ?k)"
    using True assms by (simp add: list_remove_def list_index_of_ok index_takeWhile)
  then show ?thesis
    using list_remove_at_ok [OF _ k(1)] assms True k(2)
    by (cases "list_remove_at ?l (int ?k)") (simp add: list_sim_def seq_abs_def remove1_takeWhile)
next
  case False
  then show ?thesis
    using assms by (simp add: list_sim_def seq_abs_def list_remove_def list_index_of_ok index_takeWhile)
qed

lemma last_index:
  assumes "xs \<noteq> []"
  shows "xs ! (length xs - 1) = last xs" "take (length xs - 1) xs @ drop (length xs) xs = butlast xs"
    "int (length xs) - 1 = int (length xs - 1)" "length xs - 1 < length xs"
  using assms by (simp_all add: last_conv_nth butlast_conv_take of_nat_diff Suc_leI)

lemma sim_ends_remove:
  assumes "ls_ok l"
  shows "list_sim Op_pop l" "list_sim Op_dequeue l"
proof -
  consider "list_view l = []" | "list_view l \<noteq> []" by blast
  then have "list_sim Op_pop l \<and> list_sim Op_dequeue l"
  proof cases
    case 1
    then show ?thesis
      using assms by (simp add: list_sim_def seq_abs_def list_pop_def list_dequeue_def seq_take_def ls_count_0)
  next
    case 2
    note last = last_index [OF 2, unfolded length_list_view]
    have pos: "0 < ls_count l" using 2 by (metis gr0I ls_count_0)
    have "list_pop l = list_remove_at l (int (ls_count l - 1))"
      using pos by (simp only: list_pop_def last(3) less_numeral_extra if_False neq0_conv [symmetric])
    then have "list_sim Op_pop l"
      using list_remove_at_ok [OF assms last(4)] last(1,2) 2 pos
      by (cases "list_remove_at l (int (ls_count l - 1))") (simp add: list_sim_def seq_abs_def seq_take_def)
    moreover have "list_sim Op_dequeue l"
      using list_remove_at_ok [OF assms pos] 2
      by (cases "list_remove_at l 0")
        (simp add: list_sim_def seq_abs_def list_dequeue_def seq_take_def ls_count_0 hd_conv_nth drop_Suc)
    ultimately show ?thesis by blast
  qed
  then show "list_sim Op_pop l" "list_sim Op_dequeue l" by auto
qed

lemma sim_ends_get:
  assumes "ls_ok l"
  shows "list_sim Op_top l" "list_sim Op_bottom l" "list_sim Op_head l" "list_sim Op_tail l"
proof -
  consider "list_view l = []" | "list_view l \<noteq> []" by blast
  then have "list_sim Op_top l \<and> list_sim Op_bottom l \<and> list_sim Op_head l \<and> list_sim Op_tail l"
  proof cases
    case 1
    then show ?thesis
      using assms by (simp add: list_sim_def seq_abs_def list_top_def list_bottom_def list_head_def list_tail_def
          seq_peek_def ls_count_0)
  next
    case 2
    note last = last_index [OF 2, unfolded length_list_view]
    have pos: "0 < ls_count l" using 2 by (metis gr0I ls_count_0)
    have "nat (int (ls_count l) - 1) = ls_count l - 1" using pos by simp
    then show ?thesis
      using last(1) 2 pos assms
      by (simp add: list_sim_def seq_abs_def list_top_def list_bottom_def list_head_def list_tail_def
          seq_peek_def ls_count_0 list_get_ok hd_conv_nth)
  qed
  then show "list_sim Op_top l" "list_sim Op_bottom l" "list_sim Op_head l" "list_sim Op_tail l" by auto
qed

lemma list_step_sim:
  assumes "ls_ok l"
  shows "list_sim a l"
proof (cases a)
  case Op_clear
  have "4 \<le> ls_size l" using assms by (simp add: ls_ok_def)
  then show ?thesis
    using assms Op_clear by (auto simp: list_sim_def seq_abs_def list_clear_def ls_ok_def list_view_def)
next
  case Op_count
  then show ?thesis using assms by (simp add: list_sim_def seq_abs_def list_count_def)
qed (simp_all add: assms sim_add sim_get sim_set sim_insert sim_remove_at sim_index_of sim_remove
    sim_ends_remove sim_ends_get)

lemma list_run_sim:
  "ls_ok l \<Longrightarrow> case list_run as l of (l', rs) \<Rightarrow> ls_ok l' \<and> seq_run as (seq_abs l) = (seq_abs l', rs)"
proof (induction as arbitrary: l)
  case (Cons a as)
  obtain l1 r where s: "list_step a l = (l1, r)" by (cases "list_step a l")
  then have "ls_ok l1" "seq_step a (seq_abs l) = (seq_abs l1, r)"
    using list_step_sim [OF Cons.prems, of a] by (simp_all add: list_sim_def)
  then show ?case using Cons.IH [of l1] s by (auto split: prod.splits)
qed simp

text \<open>C5: the ring buffer is a list. Any sequence of operations on a list created with any size,
  through growth and wrap-around, returns what a plain sequence returns, with the error codes of
  the code, and shows that sequence at the end.\<close>

theorem list_run_refines:
  "seq_run as ([], LIST_ERR_OK) =
     (seq_abs (fst (list_run as (list_create_with_size n))), snd (list_run as (list_create_with_size n)))"
proof -
  let ?l = "list_create_with_size n :: 'a list_t"
  have "seq_abs ?l = ([], LIST_ERR_OK)"
    by (simp add: seq_abs_def list_create_ok) (simp add: list_create_with_size_def Let_def)
  then show ?thesis using list_run_sim [of ?l as] by (simp add: split_beta list_create_ok)
qed

section \<open>Sorting\<close>

lemma ELEM_at:
  "ls_ok l \<Longrightarrow> 0 \<le> i \<Longrightarrow> ELEM l i = int (ring_at (ls_size l) (ls_head l) (nat i))"
  by (simp add: ELEM_def ring_at_def Let_def zmod_int add.commute)

interpretation ring: sort_array elem_rd elem_wr ls_ok list_view ls_pivot
proof
  fix s :: "'a list_t" and i :: int and x
  assume ok: "ls_ok s" and i: "0 \<le> i" "i < int (length (list_view s))"
  note at = ELEM_at [OF ok i(1)] and okD = ls_okD [OF ok]
  show "elem_rd s i = Some (list_view s ! nat i)"
    using i by (simp add: elem_rd_def at nth_list_view)
  show "ls_ok (elem_wr s i x)" using ok by (simp add: elem_wr_def ls_ok_def)
  show "list_view (elem_wr s i x) = (list_view s)[nat i := x]"
    using i okD(1-3)
    by (intro list_view_eqI)
      (auto simp: elem_wr_def at nth_list_update nth_list_view ring_at_inj ring_at_less)
qed (simp_all add: ls_pivot_def)

text \<open>C25: with a callback that is a total preorder, sorting returns and leaves the same elements
  in order, wherever the ring starts.\<close>

theorem list_sort_correct:
  assumes "preorder_cmp cmp" "ls_ok l"
  shows "\<exists>l'. list_sort l cmp = Some l' \<and> ls_ok l' \<and> mset (list_view l') = mset (list_view l) \<and>
           sorted_wrt (\<lambda>x y. cmp x y \<le> 0) (list_view l')"
proof (cases "list_view l = []")
  case True
  then show ?thesis using assms(2) by (simp add: list_sort_def ls_count_0)
next
  case False
  then show ?thesis using ring.quick_sort_all [OF assms False] by (simp add: list_sort_def ls_count_0)
qed

definition cmp_ptr :: "int option \<Rightarrow> int option \<Rightarrow> int" where
  "cmp_ptr x y = (case x of None \<Rightarrow> 0 | Some i \<Rightarrow> i) - (case y of None \<Rightarrow> 0 | Some i \<Rightarrow> i)"

theorem list_sort_correct_witness:
  "\<exists>l'. list_sort (list_add (list_add list_create (Some 5)) (Some 3)) cmp_ptr = Some l' \<and>
     mset (list_view l') = {#Some 3, Some 5#}"
proof -
  have "preorder_cmp cmp_ptr" by (auto simp: preorder_cmp_def cmp_ptr_def)
  moreover have "ls_ok (list_add (list_add list_create (Some (5 :: int))) (Some 3))"
    "list_view (list_add (list_add list_create (Some (5 :: int))) (Some 3)) = [Some 5, Some 3]"
    by (simp_all add: list_add_ok list_create_def list_create_ok)
  ultimately show ?thesis
    using list_sort_correct [of cmp_ptr "list_add (list_add list_create (Some 5)) (Some 3)"]
    by (auto simp: add_mset_commute)
qed

end
