(* ===== verification/Bpred.thy ===== *)
theory Bpred
  imports Ring_Index
begin

text \<open>
  Branch predictor of the x86 timing model (\<open>src/arch/x86/timing/bpred.c\<close>): direction predictors
  (bimodal, two-level adaptive, combined), the branch target buffer with its LRU counters, and
  the return address stack. The configuration variables of the file are a record that every
  operation takes; an array is a list; a counter is an \<open>int\<close>. Of a uop the record keeps the
  fields this file reads and writes. A boolean C \<open>int\<close> is 0 or 1.
\<close>

section \<open>State\<close>

datatype x86_bpred_kind_t =
    bpred_perfect | bpred_taken | bpred_nottaken | bpred_bimod | bpred_twolevel | bpred_comb

datatype uinst_opcode = uinst_call | uinst_ret | uinst_jump | uinst_branch | uinst_ibranch | uinst_other

definition X86_UINST_CTRL :: u32 where "X86_UINST_CTRL = 0x10"
definition X86_UINST_UNCOND :: u32 where "X86_UINST_UNCOND = 0x40"

record bpred_cfg =
  bc_kind :: x86_bpred_kind_t
  bc_btb_sets :: int
  bc_btb_assoc :: int
  bc_ras_size :: int
  bc_bimod_size :: int
  bc_choice_size :: int
  bc_l1size :: int
  bc_l2size :: int
  bc_hist_size :: int

record btb_entry_t =
  be_source :: u32
  be_target :: u32
  be_counter :: int

record x86_bpred_t =
  bp_ras :: "u32 list"
  bp_ras_index :: nat
  bp_btb :: "btb_entry_t list"
  bp_bimod :: "int list"
  bp_bht :: "u32 list"
  bp_pht :: "int list"
  bp_choice :: "int list"
  bp_accesses :: int
  bp_hits :: int

record bp_uop =
  bu_opcode :: uinst_opcode
  bu_flags :: u32
  bu_eip :: u32
  bu_neip :: u32
  bu_pred_neip :: u32
  bu_mop_size :: u32
  bu_specmode :: bool
  bu_pred :: int
  bu_bimod_index :: nat
  bu_bimod_pred :: int
  bu_bht_index :: nat
  bu_pht_row :: nat
  bu_pht_col :: nat
  bu_twolevel_pred :: int
  bu_choice_index :: nat
  bu_choice_pred :: int

text \<open>\<open>x86_bpred_twolevel_l2height\<close>, set by the initialisation.\<close>

definition l2height :: "bpred_cfg \<Rightarrow> nat" where "l2height c = 2 ^ nat (bc_hist_size c)"

text \<open>\<open>addr & (size - 1)\<close>\<close>

definition low_bits :: "u32 \<Rightarrow> int \<Rightarrow> nat" where
  "low_bits addr sz = unat (addr AND (of_int sz - 1))"

definition uses_bimod :: "bpred_cfg \<Rightarrow> bool" where
  "uses_bimod c \<longleftrightarrow> bc_kind c = bpred_bimod \<or> bc_kind c = bpred_comb"

definition uses_twolevel :: "bpred_cfg \<Rightarrow> bool" where
  "uses_twolevel c \<longleftrightarrow> bc_kind c = bpred_twolevel \<or> bc_kind c = bpred_comb"

definition btb_index :: "bpred_cfg \<Rightarrow> nat \<Rightarrow> nat \<Rightarrow> nat" where
  "btb_index c s w = s * nat (bc_btb_assoc c) + w"

definition BTB_ENTRY :: "bpred_cfg \<Rightarrow> btb_entry_t list \<Rightarrow> nat \<Rightarrow> nat \<Rightarrow> btb_entry_t" where
  "BTB_ENTRY c btb s w = btb ! btb_index c s w"

section \<open>Operations\<close>

text \<open>The arrays of a kind of predictor that is not used are not allocated.\<close>

definition x86_bpred_create :: "bpred_cfg \<Rightarrow> x86_bpred_t" where
  "x86_bpred_create c =
     \<lparr>bp_ras = replicate (nat (bc_ras_size c)) 0, bp_ras_index = 0,
      bp_btb = concat (map (\<lambda>i. map (\<lambda>j. \<lparr>be_source = 0, be_target = 0, be_counter = int j\<rparr>)
                                 [0..<nat (bc_btb_assoc c)]) [0..<nat (bc_btb_sets c)]),
      bp_bimod = (if uses_bimod c then replicate (nat (bc_bimod_size c)) 2 else []),
      bp_bht = (if uses_twolevel c then replicate (nat (bc_l1size c)) 0 else []),
      bp_pht = (if uses_twolevel c then replicate (nat (bc_l2size c) * l2height c) 2 else []),
      bp_choice = (if bc_kind c = bpred_comb then replicate (nat (bc_choice_size c)) 2 else []),
      bp_accesses = 0, bp_hits = 0\<rparr>"

text \<open>One predictor for each of the \<open>n\<close> hardware threads.\<close>

definition x86_bpred_init :: "bpred_cfg \<Rightarrow> nat \<Rightarrow> x86_bpred_t list res" where
  "x86_bpred_init c n =
     (if bc_bimod_size c AND (bc_bimod_size c - 1) \<noteq> 0
      then Inl (Fatal ''number of entries in bimodal precitor must be a power of 2'')
      else if bc_choice_size c AND (bc_choice_size c - 1) \<noteq> 0
      then Inl (Fatal ''number of entries in choice predictor must be power of 2'')
      else if bc_btb_sets c AND (bc_btb_sets c - 1) \<noteq> 0
      then Inl (Fatal ''number of BTB sets must be a power of 2'')
      else if bc_btb_assoc c AND (bc_btb_assoc c - 1) \<noteq> 0
      then Inl (Fatal ''BTB associativity must be a power of 2'')
      else if bc_hist_size c < 1 \<or> bc_hist_size c > 30
      then Inl (Fatal ''predictor history size must be >=1 and <=30'')
      else if bc_l1size c AND (bc_l1size c - 1) \<noteq> 0 \<or> bc_l2size c AND (bc_l2size c - 1) \<noteq> 0
      then Inl (Fatal ''two-level predictor sizes must be power of 2'')
      else Inr (replicate n (x86_bpred_create c)))"

text \<open>Index of a two-bit counter in the pattern history table.\<close>

definition pht_index :: "bpred_cfg \<Rightarrow> nat \<Rightarrow> nat \<Rightarrow> nat" where
  "pht_index c row col = row * nat (bc_l2size c) + col"

definition lookup_bimod :: "bpred_cfg \<Rightarrow> x86_bpred_t \<Rightarrow> bp_uop \<Rightarrow> bp_uop" where
  "lookup_bimod c b u =
     (let i = low_bits (bu_eip u) (bc_bimod_size c); p = of_bool (bp_bimod b ! i > 1)
      in u\<lparr>bu_bimod_index := i, bu_bimod_pred := p, bu_pred := p\<rparr>)"

definition lookup_twolevel :: "bpred_cfg \<Rightarrow> x86_bpred_t \<Rightarrow> bp_uop \<Rightarrow> bp_uop res" where
  "lookup_twolevel c b u =
     (let i = low_bits (bu_eip u) (bc_l1size c); row = unat (bp_bht b ! i);
          col = low_bits (bu_eip u) (bc_l2size c)
      in if \<not> row < l2height c then Inl Assert_failed
         else let p = of_bool (bp_pht b ! pht_index c row col > 1)
              in Inr (u\<lparr>bu_bht_index := i, bu_pht_row := row, bu_pht_col := col,
                        bu_twolevel_pred := p, bu_pred := p\<rparr>))"

definition lookup_choice :: "bpred_cfg \<Rightarrow> x86_bpred_t \<Rightarrow> bp_uop \<Rightarrow> bp_uop" where
  "lookup_choice c b u =
     (let i = low_bits (bu_eip u) (bc_choice_size c); p = of_bool (bp_choice b ! i > 1)
      in u\<lparr>bu_choice_index := i, bu_choice_pred := p,
           bu_pred := (if p \<noteq> 0 then bu_twolevel_pred u else bu_bimod_pred u)\<rparr>)"

definition x86_bpred_lookup :: "bpred_cfg \<Rightarrow> x86_bpred_t \<Rightarrow> bp_uop \<Rightarrow> (bp_uop \<times> int) res" where
  "x86_bpred_lookup c b u =
     (if bu_flags u AND X86_UINST_CTRL = 0 then Inl Assert_failed
      else if bu_flags u OR X86_UINST_UNCOND \<noteq> 0 then Inr (u\<lparr>bu_pred := 1\<rparr>, 1)
      else if bu_opcode u = uinst_ibranch then Inr (u\<lparr>bu_pred := 1\<rparr>, 1)
      else
        let u = (if bc_kind c = bpred_perfect
                 then u\<lparr>bu_pred := of_bool (bu_neip u \<noteq> bu_eip u + bu_mop_size u)\<rparr> else u);
            u = (if bc_kind c = bpred_taken then u\<lparr>bu_pred := 1\<rparr> else u);
            u = (if bc_kind c = bpred_nottaken then u\<lparr>bu_pred := 0\<rparr> else u);
            u = (if uses_bimod c then lookup_bimod c b u else u)
        in res_bind (if uses_twolevel c then lookup_twolevel c b u else Inr u) (\<lambda>u.
           let u = (if bc_kind c = bpred_comb then lookup_choice c b u else u)
           in if bu_pred u \<noteq> 0 \<and> bu_pred u \<noteq> 1 then Inl Assert_failed else Inr (u, bu_pred u)))"

text \<open>The loop of \<open>x86_bpred_lookup_multiple\<close> from branch \<open>i\<close> with \<open>n\<close> branches left.\<close>

fun lookup_multiple_loop :: "bpred_cfg \<Rightarrow> x86_bpred_t \<Rightarrow> nat \<Rightarrow> u32 \<Rightarrow> int \<Rightarrow> int \<Rightarrow> nat \<Rightarrow> nat \<Rightarrow> int" where
  "lookup_multiple_loop c b col bhr temp pred i 0 = pred"
| "lookup_multiple_loop c b col bhr temp pred i (Suc n) =
     (let bhr = (push_bit 1 bhr OR of_int temp) AND (of_nat (l2height c) - 1);
          temp = of_bool (bp_pht b ! pht_index c (unat bhr) col > 1)
      in lookup_multiple_loop c b col bhr temp (pred OR push_bit i temp) (i + 1) n)"

definition x86_bpred_lookup_multiple :: "bpred_cfg \<Rightarrow> x86_bpred_t \<Rightarrow> u32 \<Rightarrow> nat \<Rightarrow> int res" where
  "x86_bpred_lookup_multiple c b eip n =
     (if bc_kind c \<noteq> bpred_twolevel then Inl Assert_failed
      else
        let bhr = bp_bht b ! low_bits eip (bc_l1size c)
        in if \<not> unat bhr < l2height c then Inl Assert_failed
           else let col = low_bits eip (bc_l2size c);
                    temp = of_bool (bp_pht b ! pht_index c (unat bhr) col > 1)
                in Inr (lookup_multiple_loop c b col bhr temp temp 1 (n - 1)))"

text \<open>\<open>*pctr = taken ? MIN(*pctr + 1, 3) : MAX(*pctr - 1, 0)\<close>\<close>

definition sat :: "bool \<Rightarrow> int \<Rightarrow> int" where
  "sat up x = (if up then min (x + 1) 3 else max (x - 1) 0)"

definition update_bimod :: "x86_bpred_t \<Rightarrow> bp_uop \<Rightarrow> bool \<Rightarrow> x86_bpred_t" where
  "update_bimod b u taken =
     b\<lparr>bp_bimod := (bp_bimod b)[bu_bimod_index u := sat taken (bp_bimod b ! bu_bimod_index u)]\<rparr>"

definition update_twolevel :: "bpred_cfg \<Rightarrow> x86_bpred_t \<Rightarrow> bp_uop \<Rightarrow> bool \<Rightarrow> x86_bpred_t" where
  "update_twolevel c b u taken =
     (let bhr = (push_bit 1 (bp_bht b ! bu_bht_index u) OR of_bool taken) AND (of_nat (l2height c) - 1);
          k = pht_index c (bu_pht_row u) (bu_pht_col u)
      in b\<lparr>bp_bht := (bp_bht b)[bu_bht_index u := bhr],
           bp_pht := (bp_pht b)[k := sat taken (bp_pht b ! k)]\<rparr>)"

definition update_choice :: "x86_bpred_t \<Rightarrow> bp_uop \<Rightarrow> bool \<Rightarrow> x86_bpred_t" where
  "update_choice b u taken =
     b\<lparr>bp_choice := (bp_choice b)[bu_choice_index u :=
        sat (bu_bimod_pred u \<noteq> of_bool taken) (bp_choice b ! bu_choice_index u)]\<rparr>"

definition x86_bpred_update :: "bpred_cfg \<Rightarrow> x86_bpred_t \<Rightarrow> bp_uop \<Rightarrow> x86_bpred_t res" where
  "x86_bpred_update c b u =
     (if bu_specmode u \<or> bu_flags u AND X86_UINST_CTRL = 0 then Inl Assert_failed
      else
        let taken = (bu_neip u \<noteq> bu_eip u + bu_mop_size u);
            b = b\<lparr>bp_accesses := bp_accesses b + 1\<rparr>;
            b = (if bu_neip u = bu_pred_neip u then b\<lparr>bp_hits := bp_hits b + 1\<rparr> else b)
        in if bc_kind c = bpred_perfect then Inr b
           else if bu_flags u AND X86_UINST_UNCOND \<noteq> 0 then Inr b
           else
             let b = (if bc_kind c = bpred_bimod \<or> bc_kind c = bpred_comb \<and> bu_choice_pred u = 0
                      then update_bimod b u taken else b);
                 b = (if bc_kind c = bpred_twolevel \<or> bc_kind c = bpred_comb \<and> bu_choice_pred u \<noteq> 0
                      then update_twolevel c b u taken else b)
             in Inr (if bc_kind c = bpred_comb \<and> bu_bimod_pred u \<noteq> bu_twolevel_pred u
                     then update_choice b u taken else b))"

section \<open>Branch target buffer\<close>

text \<open>The search loops: the first way of the set whose source is the address.\<close>

definition btb_find :: "bpred_cfg \<Rightarrow> btb_entry_t list \<Rightarrow> nat \<Rightarrow> u32 \<Rightarrow> nat option" where
  "btb_find c btb s eip = find (\<lambda>w. be_source (BTB_ENTRY c btb s w) = eip) [0..<nat (bc_btb_assoc c)]"

definition x86_bpred_btb_lookup :: "bpred_cfg \<Rightarrow> x86_bpred_t \<Rightarrow> bp_uop \<Rightarrow> (x86_bpred_t \<times> u32) res" where
  "x86_bpred_btb_lookup c b u =
     (if bu_flags u AND X86_UINST_CTRL = 0 then Inl Assert_failed
      else if bc_kind c = bpred_perfect then Inr (b, bu_neip u)
      else if bu_opcode u = uinst_ibranch then Inr (b, bu_eip u)
      else
        let s = low_bits (bu_eip u) (bc_btb_sets c)
        in case btb_find c (bp_btb b) s (bu_eip u) of
             None \<Rightarrow> Inr (b, 0)
           | Some w \<Rightarrow>
               let target = be_target (BTB_ENTRY c (bp_btb b) s w);
                   n = nat (bc_ras_size c);
                   b = (if bu_opcode u = uinst_call \<and> \<not> bu_specmode u
                        then b\<lparr>bp_ras := (bp_ras b)[bp_ras_index b := bu_eip u + bu_mop_size u],
                               bp_ras_index := ring_next n (bp_ras_index b)\<rparr> else b)
               in if bu_opcode u = uinst_ret \<and> \<not> bu_specmode u
                  then let k = ring_prev n (bp_ras_index b)
                       in Inr (b\<lparr>bp_ras_index := k\<rparr>, bp_ras b ! k)
                  else Inr (b, target))"

text \<open>One iteration of the eviction loop, and of the loop that ages the more recent ways.\<close>

definition btb_evict :: "bpred_cfg \<Rightarrow> bp_uop \<Rightarrow> btb_entry_t \<Rightarrow> btb_entry_t" where
  "btb_evict c u e =
     (let e = e\<lparr>be_counter := be_counter e - 1\<rparr>
      in if be_counter e < 0
         then e\<lparr>be_counter := bc_btb_assoc c - 1, be_source := bu_eip u, be_target := bu_neip u\<rparr> else e)"

definition btb_age :: "int \<Rightarrow> btb_entry_t \<Rightarrow> btb_entry_t" where
  "btb_age fc e = (if be_counter e > fc then e\<lparr>be_counter := be_counter e - 1\<rparr> else e)"

definition x86_bpred_btb_update :: "bpred_cfg \<Rightarrow> x86_bpred_t \<Rightarrow> bp_uop \<Rightarrow> x86_bpred_t" where
  "x86_bpred_btb_update c b u =
     (if bc_kind c = bpred_perfect then b
      else
        let s = low_bits (bu_eip u) (bc_btb_sets c); ways = [0..<nat (bc_btb_assoc c)]
        in case btb_find c (bp_btb b) s (bu_eip u) of
             None \<Rightarrow>
               b\<lparr>bp_btb := foldl (\<lambda>btb w. btb[btb_index c s w := btb_evict c u (BTB_ENTRY c btb s w)])
                                 (bp_btb b) ways\<rparr>
           | Some f \<Rightarrow>
               let btb = foldl (\<lambda>btb w. btb[btb_index c s w :=
                            btb_age (be_counter (BTB_ENTRY c btb s f)) (BTB_ENTRY c btb s w)]) (bp_btb b) ways
               in b\<lparr>bp_btb := btb[btb_index c s f :=
                     (BTB_ENTRY c btb s f)\<lparr>be_counter := bc_btb_assoc c - 1, be_target := bu_neip u\<rparr>]\<rparr>)"

lemma unat_succ: "a < b \<Longrightarrow> unat (a + 1) = unat a + 1" for a b :: u32
proof -
  assume "a < b"
  moreover have "unat b < 2 ^ 32" using unsigned_less [where 'a = nat and w = b] by simp
  ultimately show ?thesis by (simp add: word_less_nat_alt unat_word_ariths)
qed

function next_branch_loop :: "bpred_cfg \<Rightarrow> x86_bpred_t \<Rightarrow> u32 \<Rightarrow> u32 \<Rightarrow> u32" where
  "next_branch_loop c b limit eip =
     (if eip < limit
      then if btb_find c (bp_btb b) (low_bits eip (bc_btb_sets c)) eip \<noteq> None then eip
           else next_branch_loop c b limit (eip + 1)
      else 0)"
  by pat_completeness auto
termination
proof (relation "measure (\<lambda>(c, b, limit, eip). unat limit - unat eip)", goal_cases)
  case (2 c b limit eip)
  then show ?case using unat_succ [of eip limit] by (simp add: word_less_nat_alt)
qed simp

declare next_branch_loop.simps [simp del]

definition x86_bpred_btb_next_branch :: "bpred_cfg \<Rightarrow> x86_bpred_t \<Rightarrow> u32 \<Rightarrow> u32 \<Rightarrow> u32 res" where
  "x86_bpred_btb_next_branch c b eip bsize =
     (if bsize AND (bsize - 1) \<noteq> 0 then Inl Assert_failed
      else Inr (next_branch_loop c b ((eip + bsize) AND NOT (bsize - 1)) eip))"

section \<open>The invariant\<close>

text \<open>A configuration with the sizes the initialisation checks, all of them at least one.\<close>

definition cfg_ok :: "bpred_cfg \<Rightarrow> bool" where
  "cfg_ok c \<longleftrightarrow> 1 \<le> bc_btb_sets c \<and> bc_btb_sets c < 2 ^ 31 \<and> 1 \<le> bc_btb_assoc c \<and> 1 \<le> bc_ras_size c \<and>
     1 \<le> bc_bimod_size c \<and> bc_bimod_size c < 2 ^ 31 \<and> 1 \<le> bc_choice_size c \<and> bc_choice_size c < 2 ^ 31 \<and>
     1 \<le> bc_l1size c \<and> bc_l1size c < 2 ^ 31 \<and> 1 \<le> bc_l2size c \<and> bc_l2size c < 2 ^ 31 \<and>
     1 \<le> bc_hist_size c \<and> bc_hist_size c \<le> 30"

definition two_bit :: "int list \<Rightarrow> bool" where
  "two_bit xs \<longleftrightarrow> (\<forall>x \<in> set xs. 0 \<le> x \<and> x \<le> 3)"

text \<open>The LRU counters of a set are a permutation of the ways.\<close>

definition set_counters :: "bpred_cfg \<Rightarrow> btb_entry_t list \<Rightarrow> nat \<Rightarrow> int list" where
  "set_counters c btb s = map (\<lambda>w. be_counter (BTB_ENTRY c btb s w)) [0..<nat (bc_btb_assoc c)]"

definition lru_perm :: "int \<Rightarrow> int list \<Rightarrow> bool" where
  "lru_perm n xs \<longleftrightarrow> distinct xs \<and> int (length xs) = n \<and> (\<forall>x \<in> set xs. 0 \<le> x \<and> x < n)"

definition btb_ok :: "bpred_cfg \<Rightarrow> btb_entry_t list \<Rightarrow> bool" where
  "btb_ok c btb \<longleftrightarrow> length btb = nat (bc_btb_sets c) * nat (bc_btb_assoc c) \<and>
     (\<forall>s < nat (bc_btb_sets c). lru_perm (bc_btb_assoc c) (set_counters c btb s))"

definition tables_ok :: "bpred_cfg \<Rightarrow> x86_bpred_t \<Rightarrow> bool" where
  "tables_ok c b \<longleftrightarrow>
     two_bit (bp_bimod b) \<and> two_bit (bp_pht b) \<and> two_bit (bp_choice b) \<and>
     (\<forall>h \<in> set (bp_bht b). unat h < l2height c) \<and>
     (uses_bimod c \<longrightarrow> length (bp_bimod b) = nat (bc_bimod_size c)) \<and>
     (uses_twolevel c \<longrightarrow> length (bp_bht b) = nat (bc_l1size c) \<and>
        length (bp_pht b) = nat (bc_l2size c) * l2height c) \<and>
     (bc_kind c = bpred_comb \<longrightarrow> length (bp_choice b) = nat (bc_choice_size c))"

definition bpred_ok :: "bpred_cfg \<Rightarrow> x86_bpred_t \<Rightarrow> bool" where
  "bpred_ok c b \<longleftrightarrow> tables_ok c b \<and> btb_ok c (bp_btb b) \<and>
     length (bp_ras b) = nat (bc_ras_size c) \<and> bp_ras_index b < nat (bc_ras_size c) \<and>
     0 \<le> bp_hits b \<and> bp_hits b \<le> bp_accesses b"

text \<open>Indices a lookup leaves in a uop, or zero in a new one.\<close>

definition uop_ok :: "bpred_cfg \<Rightarrow> bp_uop \<Rightarrow> bool" where
  "uop_ok c u \<longleftrightarrow> int (bu_bimod_index u) < bc_bimod_size c \<and> int (bu_bht_index u) < bc_l1size c \<and>
     bu_pht_row u < l2height c \<and> int (bu_pht_col u) < bc_l2size c \<and> int (bu_choice_index u) < bc_choice_size c"

lemma low_bits_less:
  assumes "1 \<le> n" "n < 2 ^ 31"
  shows "low_bits a n < nat n"
proof -
  obtain m where m: "n = int m + 1" "m < 2 ^ 31" using assms by (intro that [of "nat (n - 1)"]) auto
  have "unat (a AND of_nat m) \<le> unat (of_nat m :: u32)"
    by (simp add: word_and_le1 flip: word_le_nat_alt)
  also have "\<dots> = m" using m by (simp add: unat_of_nat)
  finally show ?thesis by (simp add: low_bits_def m nat_add_distrib)
qed

lemma btb_index_less:
  assumes "s < nat (bc_btb_sets c)" "w < nat (bc_btb_assoc c)"
  shows "btb_index c s w < nat (bc_btb_sets c) * nat (bc_btb_assoc c)"
proof -
  have "s * nat (bc_btb_assoc c) + w < (s + 1) * nat (bc_btb_assoc c)" using assms by simp
  also have "\<dots> \<le> nat (bc_btb_sets c) * nat (bc_btb_assoc c)" using assms by (intro mult_right_mono) auto
  finally show ?thesis by (simp add: btb_index_def)
qed

lemma btb_index_inj:
  assumes "w < nat (bc_btb_assoc c)" "w' < nat (bc_btb_assoc c)"
  shows "btb_index c s w = btb_index c s' w' \<longleftrightarrow> s = s' \<and> w = w'"
proof
  let ?n = "nat (bc_btb_assoc c)"
  assume eq: "btb_index c s w = btb_index c s' w'"
  have "(s * ?n + w) div ?n = s" "(s' * ?n + w') div ?n = s'" using assms by simp_all
  then show "s = s' \<and> w = w'" using eq by (metis add_left_cancel btb_index_def)
qed simp

lemma pht_index_less:
  assumes "row < l2height c" "int col < bc_l2size c"
  shows "pht_index c row col < nat (bc_l2size c) * l2height c"
proof -
  have "row * nat (bc_l2size c) + col < (row + 1) * nat (bc_l2size c)" using assms by simp
  also have "\<dots> \<le> l2height c * nat (bc_l2size c)" using assms by (intro mult_right_mono) auto
  finally show ?thesis by (simp add: pht_index_def mult.commute)
qed

lemma lru_perm_surj:
  assumes "lru_perm n xs" "0 \<le> k" "k < n"
  shows "k \<in> set xs"
proof -
  have "set xs \<subseteq> {0..<n}" "card (set xs) = card {0..<n}"
    using assms by (auto simp: lru_perm_def distinct_card)
  then show ?thesis using assms by (metis card_subset_eq finite_atLeastLessThan_int atLeastLessThan_iff)
qed

lemma lru_perm_map:
  assumes "lru_perm n xs" "inj_on f {0..<n}" "f ` {0..<n} \<subseteq> {0..<n}"
  shows "lru_perm n (map f xs)"
  using assms by (fastforce simp: lru_perm_def distinct_map intro: inj_on_subset)

section \<open>Updating a set of the BTB\<close>

lemma foldl_cells:
  fixes ix :: "nat \<Rightarrow> nat"
  assumes "distinct ws" "inj_on ix (set ws)" "\<forall>w \<in> set ws. ix w < length b"
  shows "length (foldl (\<lambda>b w. b[ix w := g (b ! ix w)]) b ws) = length b"
    and "foldl (\<lambda>b w. b[ix w := g (b ! ix w)]) b ws ! k = (if k \<in> ix ` set ws then g (b ! k) else b ! k)"
  using assms
proof (induction ws arbitrary: b)
  case (Cons w ws)
  {
    case 1
    then show ?case using Cons.IH(1) [of "b[ix w := g (b ! ix w)]"] by simp
  next
    case 2
    then show ?case using Cons.IH(2) [of "b[ix w := g (b ! ix w)]"] by (auto simp: nth_list_update inj_on_def)
  }
qed auto

lemma btb_age_same [simp]: "btb_age (be_counter e) e = e"
  by (simp add: btb_age_def)

lemma foldl_age:
  "f < length b \<Longrightarrow> be_counter (b ! f) = fc \<Longrightarrow>
   foldl (\<lambda>b w. b[ix w := btb_age (be_counter (b ! f)) (b ! ix w)]) b ws =
   foldl (\<lambda>b w. b[ix w := btb_age fc (b ! ix w)]) b ws"
proof (induction ws arbitrary: b)
  case (Cons w ws)
  have "be_counter (b[ix w := btb_age fc (b ! ix w)] ! f) = fc"
    using Cons.prems by (cases "ix w = f") (auto simp: btb_age_def nth_list_update)
  then show ?case using Cons.IH [of "b[ix w := btb_age fc (b ! ix w)]"] Cons.prems by simp
qed simp

definition btb_set_of :: "bpred_cfg \<Rightarrow> bp_uop \<Rightarrow> nat" where
  "btb_set_of c u = low_bits (bu_eip u) (bc_btb_sets c)"

lemma btb_set_less: "cfg_ok c \<Longrightarrow> btb_set_of c u < nat (bc_btb_sets c)"
  unfolding btb_set_of_def by (intro low_bits_less) (simp_all add: cfg_ok_def)

lemma btb_ways:
  assumes "s < nat (bc_btb_sets c)" "length btb = nat (bc_btb_sets c) * nat (bc_btb_assoc c)"
  shows "inj_on (btb_index c s) (set [0..<nat (bc_btb_assoc c)])"
    "\<forall>w \<in> set [0..<nat (bc_btb_assoc c)]. btb_index c s w < length btb"
  using assms by (auto simp: inj_on_def btb_index_inj btb_index_less)

lemma btb_update_miss:
  assumes c: "cfg_ok c" and ok: "btb_ok c (bp_btb b)" and k: "bc_kind c \<noteq> bpred_perfect"
    and miss: "btb_find c (bp_btb b) (btb_set_of c u) (bu_eip u) = None"
  defines "b' \<equiv> x86_bpred_btb_update c b u"
  shows "length (bp_btb b') = length (bp_btb b)"
    and "w < nat (bc_btb_assoc c) \<Longrightarrow> BTB_ENTRY c (bp_btb b') s w =
      (if s = btb_set_of c u then btb_evict c u (BTB_ENTRY c (bp_btb b) s w) else BTB_ENTRY c (bp_btb b) s w)"
    and "b' = b\<lparr>bp_btb := bp_btb b'\<rparr>"
proof -
  let ?s = "btb_set_of c u" and ?ws = "[0..<nat (bc_btb_assoc c)]"
  have len: "length (bp_btb b) = nat (bc_btb_sets c) * nat (bc_btb_assoc c)" using ok by (simp add: btb_ok_def)
  note ways = btb_ways [OF btb_set_less [OF c, of u] len]
  have eq: "b' = b\<lparr>bp_btb := foldl (\<lambda>btb w. btb[btb_index c ?s w := btb_evict c u (btb ! btb_index c ?s w)]) (bp_btb b) ?ws\<rparr>"
    using miss k by (simp add: b'_def x86_bpred_btb_update_def BTB_ENTRY_def btb_set_of_def Let_def)
  note cells = foldl_cells [OF distinct_upt ways, where g = "btb_evict c u"]
  show "length (bp_btb b') = length (bp_btb b)" by (simp add: eq cells)
  show "BTB_ENTRY c (bp_btb b') s w =
      (if s = ?s then btb_evict c u (BTB_ENTRY c (bp_btb b) s w) else BTB_ENTRY c (bp_btb b) s w)"
    if "w < nat (bc_btb_assoc c)"
    using that by (auto simp: eq cells BTB_ENTRY_def btb_index_inj image_iff)
  show "b' = b\<lparr>bp_btb := bp_btb b'\<rparr>" by (simp add: eq)
qed

lemma btb_find_Some:
  assumes "btb_find c btb s eip = Some f"
  shows "f < nat (bc_btb_assoc c)" "be_source (BTB_ENTRY c btb s f) = eip"
    "\<And>w. w < f \<Longrightarrow> be_source (BTB_ENTRY c btb s w) \<noteq> eip"
  using assms unfolding btb_find_def find_Some_iff by auto

lemma btb_find_None:
  "btb_find c btb s eip = None \<longleftrightarrow> (\<forall>w < nat (bc_btb_assoc c). be_source (BTB_ENTRY c btb s w) \<noteq> eip)"
  by (auto simp: btb_find_def find_None_iff)

lemma btb_find_eqI:
  assumes "f < nat (bc_btb_assoc c)" "be_source (BTB_ENTRY c btb s f) = eip"
    "\<And>w. w < f \<Longrightarrow> be_source (BTB_ENTRY c btb s w) \<noteq> eip"
  shows "btb_find c btb s eip = Some f"
  using assms unfolding btb_find_def find_Some_iff by (intro exI [of _ f]) auto

lemma btb_update_hit:
  assumes c: "cfg_ok c" and ok: "btb_ok c (bp_btb b)" and k: "bc_kind c \<noteq> bpred_perfect"
    and hit: "btb_find c (bp_btb b) (btb_set_of c u) (bu_eip u) = Some f"
  defines "b' \<equiv> x86_bpred_btb_update c b u"
  shows "length (bp_btb b') = length (bp_btb b)"
    and "w < nat (bc_btb_assoc c) \<Longrightarrow> BTB_ENTRY c (bp_btb b') s w =
      (if s = btb_set_of c u
       then if w = f then (BTB_ENTRY c (bp_btb b) s f)\<lparr>be_counter := bc_btb_assoc c - 1, be_target := bu_neip u\<rparr>
            else btb_age (be_counter (BTB_ENTRY c (bp_btb b) s f)) (BTB_ENTRY c (bp_btb b) s w)
       else BTB_ENTRY c (bp_btb b) s w)"
    and "b' = b\<lparr>bp_btb := bp_btb b'\<rparr>"
proof -
  let ?s = "btb_set_of c u" and ?ws = "[0..<nat (bc_btb_assoc c)]"
  let ?fc = "be_counter (BTB_ENTRY c (bp_btb b) ?s f)"
  let ?btb = "foldl (\<lambda>btb w. btb[btb_index c ?s w := btb_age ?fc (btb ! btb_index c ?s w)]) (bp_btb b) ?ws"
  have len: "length (bp_btb b) = nat (bc_btb_sets c) * nat (bc_btb_assoc c)" using ok by (simp add: btb_ok_def)
  note f = btb_find_Some [OF hit]
  note ways = btb_ways [OF btb_set_less [OF c, of u] len]
  note cells = foldl_cells [OF distinct_upt ways, where g = "btb_age ?fc", unfolded BTB_ENTRY_def]
  have "btb_index c ?s f < length (bp_btb b)" using f(1) ways(2) by simp
  then have eq: "b' = b\<lparr>bp_btb := ?btb[btb_index c ?s f := (?btb ! btb_index c ?s f)
      \<lparr>be_counter := bc_btb_assoc c - 1, be_target := bu_neip u\<rparr>]\<rparr>"
    using hit k
    by (simp add: b'_def x86_bpred_btb_update_def BTB_ENTRY_def btb_set_of_def Let_def foldl_age)
  show "length (bp_btb b') = length (bp_btb b)" by (simp add: eq BTB_ENTRY_def cells)
  show "BTB_ENTRY c (bp_btb b') s w =
      (if s = ?s
       then if w = f then (BTB_ENTRY c (bp_btb b) s f)\<lparr>be_counter := bc_btb_assoc c - 1, be_target := bu_neip u\<rparr>
            else btb_age (be_counter (BTB_ENTRY c (bp_btb b) s f)) (BTB_ENTRY c (bp_btb b) s w)
       else BTB_ENTRY c (bp_btb b) s w)"
    if "w < nat (bc_btb_assoc c)"
    using that f(1) ways(2)
    by (auto simp: eq cells BTB_ENTRY_def btb_index_inj image_iff nth_list_update)
  show "b' = b\<lparr>bp_btb := bp_btb b'\<rparr>" by (simp add: eq)
qed

text \<open>Hit or miss, one way of the set is replaced and the more recent ways age by one.\<close>

definition btb_touched :: "bpred_cfg \<Rightarrow> btb_entry_t list \<Rightarrow> bp_uop \<Rightarrow> nat \<Rightarrow> btb_entry_t list \<Rightarrow> bool" where
  "btb_touched c btb u f btb' \<longleftrightarrow> f < nat (bc_btb_assoc c) \<and> length btb' = length btb \<and>
     (\<forall>s w. w < nat (bc_btb_assoc c) \<longrightarrow> BTB_ENTRY c btb' s w =
        (if s = btb_set_of c u
         then if w = f then \<lparr>be_source = bu_eip u, be_target = bu_neip u, be_counter = bc_btb_assoc c - 1\<rparr>
              else btb_age (be_counter (BTB_ENTRY c btb s f)) (BTB_ENTRY c btb s w)
         else BTB_ENTRY c btb s w))"

definition btb_victim :: "bpred_cfg \<Rightarrow> btb_entry_t list \<Rightarrow> bp_uop \<Rightarrow> nat \<Rightarrow> bool" where
  "btb_victim c btb u f \<longleftrightarrow>
     (case btb_find c btb (btb_set_of c u) (bu_eip u) of
        Some w \<Rightarrow> f = w
      | None \<Rightarrow> f < nat (bc_btb_assoc c) \<and> be_counter (BTB_ENTRY c btb (btb_set_of c u) f) = 0)"

lemma btb_counters:
  assumes "btb_ok c btb" "s < nat (bc_btb_sets c)" "w < nat (bc_btb_assoc c)"
  shows "0 \<le> be_counter (BTB_ENTRY c btb s w)" "be_counter (BTB_ENTRY c btb s w) < bc_btb_assoc c"
    "w' < nat (bc_btb_assoc c) \<Longrightarrow>
       be_counter (BTB_ENTRY c btb s w) = be_counter (BTB_ENTRY c btb s w') \<longleftrightarrow> w = w'"
proof -
  have p: "lru_perm (bc_btb_assoc c) (set_counters c btb s)" using assms by (simp add: btb_ok_def)
  show "0 \<le> be_counter (BTB_ENTRY c btb s w)" "be_counter (BTB_ENTRY c btb s w) < bc_btb_assoc c"
    using p assms(3) by (auto simp: lru_perm_def set_counters_def)
  have "inj_on (\<lambda>w. be_counter (BTB_ENTRY c btb s w)) {0..<nat (bc_btb_assoc c)}"
    using p by (simp add: lru_perm_def set_counters_def distinct_map)
  then show "w' < nat (bc_btb_assoc c) \<Longrightarrow>
      be_counter (BTB_ENTRY c btb s w) = be_counter (BTB_ENTRY c btb s w') \<longleftrightarrow> w = w'"
    using assms(3) by (auto simp: inj_on_def)
qed

lemma btb_victim_exists:
  assumes "cfg_ok c" "btb_ok c btb"
  shows "\<exists>f. btb_victim c btb u f"
proof (cases "btb_find c btb (btb_set_of c u) (bu_eip u)")
  case None
  have "lru_perm (bc_btb_assoc c) (set_counters c btb (btb_set_of c u))" "0 < bc_btb_assoc c"
    using assms btb_set_less [OF assms(1), of u] by (auto simp: btb_ok_def cfg_ok_def)
  then have "0 \<in> set (set_counters c btb (btb_set_of c u))" by (intro lru_perm_surj) auto
  then show ?thesis using None by (auto simp: set_counters_def btb_victim_def)
qed (simp add: btb_victim_def)

lemma btb_update_touched:
  assumes c: "cfg_ok c" and ok: "btb_ok c (bp_btb b)" and k: "bc_kind c \<noteq> bpred_perfect"
    and v: "btb_victim c (bp_btb b) u f"
  shows "btb_touched c (bp_btb b) u f (bp_btb (x86_bpred_btb_update c b u))"
    and "x86_bpred_btb_update c b u = b\<lparr>bp_btb := bp_btb (x86_bpred_btb_update c b u)\<rparr>"
proof -
  note cnt = btb_counters [OF ok btb_set_less [OF c, of u]]
  have "btb_touched c (bp_btb b) u f (bp_btb (x86_bpred_btb_update c b u)) \<and>
    x86_bpred_btb_update c b u = b\<lparr>bp_btb := bp_btb (x86_bpred_btb_update c b u)\<rparr>"
  proof (cases "btb_find c (bp_btb b) (btb_set_of c u) (bu_eip u)")
    case None
    note upd = btb_update_miss [OF c ok k None]
    have f: "f < nat (bc_btb_assoc c)" "be_counter (BTB_ENTRY c (bp_btb b) (btb_set_of c u) f) = 0"
      using v None by (simp_all add: btb_victim_def)
    have "btb_evict c u (BTB_ENTRY c (bp_btb b) (btb_set_of c u) w) =
        (if w = f then \<lparr>be_source = bu_eip u, be_target = bu_neip u, be_counter = bc_btb_assoc c - 1\<rparr>
         else btb_age 0 (BTB_ENTRY c (bp_btb b) (btb_set_of c u) w))" if "w < nat (bc_btb_assoc c)" for w
      using cnt(1) [OF that] cnt(3) [OF that f(1)] f(2) by (auto simp: btb_evict_def btb_age_def Let_def)
    then show ?thesis using upd f by (simp add: btb_touched_def)
  next
    case (Some w)
    then have "f = w" using v by (simp add: btb_victim_def)
    then show ?thesis
      using btb_update_hit [OF c ok k Some] btb_find_Some [OF Some] by (auto simp: btb_touched_def)
  qed
  then show "btb_touched c (bp_btb b) u f (bp_btb (x86_bpred_btb_update c b u))"
    "x86_bpred_btb_update c b u = b\<lparr>bp_btb := bp_btb (x86_bpred_btb_update c b u)\<rparr>" by auto
qed

definition lru_touch :: "int \<Rightarrow> int \<Rightarrow> int \<Rightarrow> int" where
  "lru_touch n k x = (if x = k then n - 1 else if x > k then x - 1 else x)"

lemma lru_touch_perm:
  assumes "lru_perm n xs" "0 \<le> k" "k < n"
  shows "lru_perm n (map (lru_touch n k) xs)"
  using assms(1)
proof (rule lru_perm_map)
  show "inj_on (lru_touch n k) {0..<n}" using assms(2,3) by (auto simp: inj_on_def lru_touch_def split: if_splits)
  show "lru_touch n k ` {0..<n} \<subseteq> {0..<n}" using assms(2,3) by (auto simp: lru_touch_def)
qed

lemma btb_touched_ok:
  assumes c: "cfg_ok c" and ok: "btb_ok c btb" and t: "btb_touched c btb u f btb'"
  shows "btb_ok c btb'"
  unfolding btb_ok_def
proof (intro conjI allI impI)
  show "length btb' = nat (bc_btb_sets c) * nat (bc_btb_assoc c)"
    using t ok by (simp add: btb_touched_def btb_ok_def)
  fix s assume s: "s < nat (bc_btb_sets c)"
  have p: "lru_perm (bc_btb_assoc c) (set_counters c btb s)" using ok s by (simp add: btb_ok_def)
  have f: "f < nat (bc_btb_assoc c)" using t by (simp add: btb_touched_def)
  note cnt = btb_counters [OF ok s]
  show "lru_perm (bc_btb_assoc c) (set_counters c btb' s)"
  proof (cases "s = btb_set_of c u")
    case True
    have "set_counters c btb' s = map (lru_touch (bc_btb_assoc c) (be_counter (BTB_ENTRY c btb s f))) (set_counters c btb s)"
      using t True cnt(3) [OF _ f] by (auto simp: set_counters_def btb_touched_def lru_touch_def btb_age_def)
    then show ?thesis using lru_touch_perm [OF p cnt(1,2) [OF f]] by simp
  next
    case False
    then have "set_counters c btb' s = set_counters c btb s"
      using t by (auto simp: set_counters_def btb_touched_def)
    then show ?thesis using p by simp
  qed
qed

lemma btb_touched_find:
  assumes v: "btb_victim c btb u f" and t: "btb_touched c btb u f btb'"
  shows "btb_find c btb' (btb_set_of c u) (bu_eip u) = Some f"
proof (rule btb_find_eqI)
  show f: "f < nat (bc_btb_assoc c)" using t by (simp add: btb_touched_def)
  then show "be_source (BTB_ENTRY c btb' (btb_set_of c u) f) = bu_eip u" using t by (simp add: btb_touched_def)
  fix w assume w: "w < f"
  then have "be_source (BTB_ENTRY c btb' (btb_set_of c u) w) = be_source (BTB_ENTRY c btb (btb_set_of c u) w)"
    using t f by (simp add: btb_touched_def btb_age_def)
  also have "\<dots> \<noteq> bu_eip u"
    using v w f btb_find_Some(3) [of c btb "btb_set_of c u" "bu_eip u" f] btb_find_None [of c btb "btb_set_of c u" "bu_eip u"]
    by (auto simp: btb_victim_def split: option.splits)
  finally show "be_source (BTB_ENTRY c btb' (btb_set_of c u) w) \<noteq> bu_eip u" .
qed

section \<open>Every operation keeps the invariant\<close>

lemma two_bit_sat:
  "two_bit xs \<Longrightarrow> i < length xs \<Longrightarrow> two_bit (xs[i := sat t (xs ! i)])"
  by (auto simp: two_bit_def sat_def dest!: subsetD [OF set_update_subset_insert] nth_mem)

lemma two_bit_replicate [simp]: "two_bit (replicate n 2)" "two_bit []"
  by (auto simp: two_bit_def)

lemma nth_concat_blocks:
  "i < m \<Longrightarrow> j < n \<Longrightarrow> concat (map (\<lambda>i. map (f i) [0..<n]) [0..<m]) ! (i * n + j) = f i j"
proof (induction m)
  case (Suc m)
  have len: "length (concat (map (\<lambda>i. map (f i) [0..<n]) [0..<m])) = m * n"
    by (simp add: length_concat o_def sum_list_triv)
  show ?case
  proof (cases "i = m")
    case True
    then show ?thesis using len Suc.prems by (simp add: nth_append)
  next
    case False
    then have "i < m" using Suc.prems by simp
    then have "i * n + j < m * n"
      using Suc.prems(2) by (metis add.commute add_less_cancel_right less_le_trans mult_Suc mult_le_mono1 Suc_leI add_strict_left_mono)
    then show ?thesis using Suc.IH [OF \<open>i < m\<close> Suc.prems(2)] len by (simp add: nth_append)
  qed
qed simp

lemma bpred_create_ok:
  assumes "cfg_ok c"
  shows "bpred_ok c (x86_bpred_create c)"
proof -
  let ?btb = "bp_btb (x86_bpred_create c)"
  have "be_counter (BTB_ENTRY c ?btb s w) = int w"
    if "s < nat (bc_btb_sets c)" "w < nat (bc_btb_assoc c)" for s w
    using that by (simp add: x86_bpred_create_def BTB_ENTRY_def btb_index_def nth_concat_blocks)
  then have "set_counters c ?btb s = map int [0..<nat (bc_btb_assoc c)]" if "s < nat (bc_btb_sets c)" for s
    using that by (simp add: set_counters_def)
  moreover have "lru_perm (bc_btb_assoc c) (map int [0..<nat (bc_btb_assoc c)])"
    using assms by (auto simp: lru_perm_def distinct_map cfg_ok_def)
  moreover have "length ?btb = nat (bc_btb_sets c) * nat (bc_btb_assoc c)"
    by (simp add: x86_bpred_create_def length_concat o_def sum_list_triv)
  ultimately have "btb_ok c ?btb" by (simp add: btb_ok_def)
  then show ?thesis
    using assms by (auto simp: bpred_ok_def tables_ok_def x86_bpred_create_def l2height_def cfg_ok_def)
qed

lemma bhr_less:
  assumes "cfg_ok c"
  shows "unat (x AND (of_nat (l2height c) - 1) :: u32) < l2height c"
proof -
  let ?n = "2 ^ nat (bc_hist_size c) :: nat"
  have "bc_hist_size c \<le> 30" using assms by (simp add: cfg_ok_def)
  then have "nat (bc_hist_size c) \<le> 30" by (simp add: nat_le_iff)
  then have n: "1 \<le> ?n" "?n \<le> 2 ^ 30" by (simp, intro power_increasing) simp_all
  then have "(of_nat ?n - 1 :: u32) = of_nat (?n - 1)" by (metis of_nat_1 of_nat_diff)
  then have "unat (x AND (of_nat ?n - 1)) \<le> unat (of_nat (?n - 1) :: u32)"
    by (simp add: word_and_le1 flip: word_le_nat_alt)
  also have "unat (of_nat m :: u32) \<le> m" for m by (simp add: unat_of_nat)
  finally show ?thesis using n unfolding l2height_def by linarith
qed

lemma update_tables_ok:
  assumes c: "cfg_ok c" and ok: "tables_ok c b" and u: "uop_ok c u"
  shows "uses_bimod c \<Longrightarrow> tables_ok c (update_bimod b u t)"
    and "uses_twolevel c \<Longrightarrow> tables_ok c (update_twolevel c b u t)"
    and "bc_kind c = bpred_comb \<Longrightarrow> tables_ok c (update_choice b u t)"
  using ok u pht_index_less [of "bu_pht_row u" c "bu_pht_col u"] bhr_less [OF c]
  by (auto simp: tables_ok_def update_bimod_def update_twolevel_def update_choice_def uop_ok_def Let_def
      intro!: two_bit_sat dest!: subsetD [OF set_update_subset_insert])

lemma update_frame [simp]:
  "bp_btb (update_bimod b u t) = bp_btb b" "bp_ras (update_bimod b u t) = bp_ras b"
  "bp_ras_index (update_bimod b u t) = bp_ras_index b" "bp_hits (update_bimod b u t) = bp_hits b"
  "bp_accesses (update_bimod b u t) = bp_accesses b"
  "bp_btb (update_twolevel c b u t) = bp_btb b" "bp_ras (update_twolevel c b u t) = bp_ras b"
  "bp_ras_index (update_twolevel c b u t) = bp_ras_index b" "bp_hits (update_twolevel c b u t) = bp_hits b"
  "bp_accesses (update_twolevel c b u t) = bp_accesses b"
  "bp_btb (update_choice b u t) = bp_btb b" "bp_ras (update_choice b u t) = bp_ras b"
  "bp_ras_index (update_choice b u t) = bp_ras_index b" "bp_hits (update_choice b u t) = bp_hits b"
  "bp_accesses (update_choice b u t) = bp_accesses b"
  by (simp_all add: update_bimod_def update_twolevel_def update_choice_def Let_def)

lemma bpred_okI:
  assumes "bpred_ok c b" "tables_ok c b'" "bp_btb b' = bp_btb b" "bp_ras b' = bp_ras b"
    "bp_ras_index b' = bp_ras_index b" "bp_hits b' = bp_hits b" "bp_accesses b' = bp_accesses b"
  shows "bpred_ok c b'"
  using assms by (simp add: bpred_ok_def)

lemma bpred_update_ok:
  assumes c: "cfg_ok c" and ok: "bpred_ok c b" and u: "uop_ok c u"
    and pre: "\<not> bu_specmode u" "bu_flags u AND X86_UINST_CTRL \<noteq> 0"
  shows "\<exists>b'. x86_bpred_update c b u = Inr b' \<and> bpred_ok c b'"
proof -
  let ?t = "bu_neip u \<noteq> bu_eip u + bu_mop_size u"
  define b1 where "b1 = (let b = b\<lparr>bp_accesses := bp_accesses b + 1\<rparr>
     in if bu_neip u = bu_pred_neip u then b\<lparr>bp_hits := bp_hits b + 1\<rparr> else b)"
  define b2 where "b2 = (if bc_kind c = bpred_bimod \<or> bc_kind c = bpred_comb \<and> bu_choice_pred u = 0
     then update_bimod b1 u ?t else b1)"
  define b3 where "b3 = (if bc_kind c = bpred_twolevel \<or> bc_kind c = bpred_comb \<and> bu_choice_pred u \<noteq> 0
     then update_twolevel c b2 u ?t else b2)"
  define b4 where "b4 = (if bc_kind c = bpred_comb \<and> bu_bimod_pred u \<noteq> bu_twolevel_pred u
     then update_choice b3 u ?t else b3)"
  have 1: "bpred_ok c b1" using ok by (simp add: b1_def bpred_ok_def tables_ok_def Let_def)
  then have 2: "tables_ok c b2"
    using update_tables_ok(1) [OF c _ u] by (simp add: b2_def bpred_ok_def uses_bimod_def)
  then have 3: "tables_ok c b3"
    using update_tables_ok(2) [OF c _ u] by (simp add: b3_def uses_twolevel_def)
  then have 4: "tables_ok c b4"
    using update_tables_ok(3) [OF c _ u] by (simp add: b4_def)
  have "bpred_ok c b4"
    using 1 4 by (rule bpred_okI) (simp_all add: b4_def b3_def b2_def)
  moreover have "x86_bpred_update c b u =
      Inr (if bc_kind c = bpred_perfect \<or> bu_flags u AND X86_UINST_UNCOND \<noteq> 0 then b1 else b4)"
    using pre by (simp add: x86_bpred_update_def b1_def b2_def b3_def b4_def Let_def)
  ultimately show ?thesis using 1 by simp
qed

lemma bpred_btb_lookup_ok:
  assumes ok: "bpred_ok c b" and pre: "bu_flags u AND X86_UINST_CTRL \<noteq> 0"
  shows "\<exists>b' t. x86_bpred_btb_lookup c b u = Inr (b', t) \<and> bpred_ok c b' \<and> bp_btb b' = bp_btb b"
  using assms
  by (auto simp: x86_bpred_btb_lookup_def bpred_ok_def tables_ok_def Let_def ring_next_def ring_prev_def
      split: option.split)

lemma bpred_btb_update_ok:
  assumes c: "cfg_ok c" and ok: "bpred_ok c b"
  shows "bpred_ok c (x86_bpred_btb_update c b u)"
proof (cases "bc_kind c = bpred_perfect")
  case True
  then show ?thesis using ok by (simp add: x86_bpred_btb_update_def)
next
  case False
  have btb: "btb_ok c (bp_btb b)" using ok by (simp add: bpred_ok_def)
  obtain f where f: "btb_victim c (bp_btb b) u f" using btb_victim_exists [OF c btb] by blast
  note t = btb_update_touched [OF c btb False f]
  have "btb_ok c (bp_btb (x86_bpred_btb_update c b u))" by (rule btb_touched_ok [OF c btb t(1)])
  then show ?thesis using ok by (subst t(2)) (simp add: bpred_ok_def tables_ok_def)
qed

datatype bpred_op = Op_update bp_uop | Op_btb_lookup bp_uop | Op_btb_update bp_uop

fun bpred_step :: "bpred_cfg \<Rightarrow> bpred_op \<Rightarrow> x86_bpred_t \<Rightarrow> x86_bpred_t res" where
  "bpred_step c (Op_update u) b = x86_bpred_update c b u"
| "bpred_step c (Op_btb_lookup u) b = res_bind (x86_bpred_btb_lookup c b u) (\<lambda>(b, _). Inr b)"
| "bpred_step c (Op_btb_update u) b = Inr (x86_bpred_btb_update c b u)"

fun bpred_run :: "bpred_cfg \<Rightarrow> bpred_op list \<Rightarrow> x86_bpred_t \<Rightarrow> x86_bpred_t res" where
  "bpred_run c [] b = Inr b"
| "bpred_run c (a # as) b = res_bind (bpred_step c a b) (bpred_run c as)"

text \<open>What the pipeline passes: branches, and only committed ones to the update.\<close>

fun op_ok :: "bpred_cfg \<Rightarrow> bpred_op \<Rightarrow> bool" where
  "op_ok c (Op_update u) = (uop_ok c u \<and> \<not> bu_specmode u \<and> bu_flags u AND X86_UINST_CTRL \<noteq> 0)"
| "op_ok c (Op_btb_lookup u) = (bu_flags u AND X86_UINST_CTRL \<noteq> 0)"
| "op_ok c (Op_btb_update u) = True"

lemma bpred_step_ok:
  assumes "cfg_ok c" "bpred_ok c b" "op_ok c a"
  shows "\<exists>b'. bpred_step c a b = Inr b' \<and> bpred_ok c b'"
  using assms bpred_update_ok bpred_btb_lookup_ok bpred_btb_update_ok by (cases a) (fastforce)+

lemma bpred_run_ok:
  assumes "cfg_ok c" "bpred_ok c b" "list_all (op_ok c) as"
  shows "\<exists>b'. bpred_run c as b = Inr b' \<and> bpred_ok c b'"
  using assms(2,3)
proof (induction as arbitrary: b)
  case (Cons a as)
  then obtain b1 where "bpred_step c a b = Inr b1" "bpred_ok c b1"
    using bpred_step_ok [OF assms(1), of b a] by auto
  then show ?case using Cons by simp
qed simp

section \<open>Properties\<close>

text \<open>C13: whatever sequence of commits, target lookups and target updates a predictor goes through,
  no operation fails, the saturating counters stay two-bit values, the history registers index
  the pattern table, the replacement counters of every BTB set stay a permutation of its ways,
  the return address stack index stays in range and there are no more hits than accesses.\<close>

theorem bpred_reach_ok:
  assumes "cfg_ok c" "list_all (op_ok c) as"
  shows "\<exists>b. bpred_run c as (x86_bpred_create c) = Inr b \<and> bpred_ok c b"
  using assms by (intro bpred_run_ok bpred_create_ok)

definition small_cfg :: bpred_cfg where
  "small_cfg = \<lparr>bc_kind = bpred_comb, bc_btb_sets = 2, bc_btb_assoc = 2, bc_ras_size = 4, bc_bimod_size = 4,
     bc_choice_size = 4, bc_l1size = 1, bc_l2size = 4, bc_hist_size = 2\<rparr>"

definition call_uop :: "u32 \<Rightarrow> u32 \<Rightarrow> bp_uop" where
  "call_uop eip neip = \<lparr>bu_opcode = uinst_call, bu_flags = X86_UINST_CTRL, bu_eip = eip, bu_neip = neip,
     bu_pred_neip = 0, bu_mop_size = 5, bu_specmode = False, bu_pred = 0, bu_bimod_index = 0, bu_bimod_pred = 0,
     bu_bht_index = 0, bu_pht_row = 0, bu_pht_col = 0, bu_twolevel_pred = 0, bu_choice_index = 0,
     bu_choice_pred = 0\<rparr>"

definition ret_uop :: "u32 \<Rightarrow> u32 \<Rightarrow> bp_uop" where
  "ret_uop eip neip = (call_uop eip neip)\<lparr>bu_opcode := uinst_ret\<rparr>"

lemma small_cfg_ok: "cfg_ok small_cfg"
  by (simp add: cfg_ok_def small_cfg_def)

lemma call_ctrl [simp]:
  "bu_flags (call_uop a b) AND X86_UINST_CTRL \<noteq> 0" "bu_flags (ret_uop a b) AND X86_UINST_CTRL \<noteq> 0"
  by (simp_all add: call_uop_def ret_uop_def X86_UINST_CTRL_def)

theorem bpred_reach_ok_witness:
  "\<exists>b. bpred_run small_cfg [Op_btb_update (call_uop 8 64), Op_btb_lookup (call_uop 8 64), Op_update (call_uop 8 64)]
     (x86_bpred_create small_cfg) = Inr b \<and> bpred_ok small_cfg b"
proof -
  have "uop_ok small_cfg (call_uop 8 64)"
    by (simp add: uop_ok_def small_cfg_def call_uop_def l2height_def)
  then show ?thesis
    by (intro bpred_reach_ok small_cfg_ok) (simp add: call_uop_def [THEN arg_cong [of _ _ bu_specmode]])
qed

text \<open>The direction predictors are never consulted. For every uop that is a control instruction,
  and whatever the tables hold, the lookup answers taken and writes nothing but that prediction:
  the test for unconditional branches uses a bitwise or with a non-zero flag.\<close>

theorem bpred_lookup_always_taken:
  "x86_bpred_lookup c b u =
     (if bu_flags u AND X86_UINST_CTRL = 0 then Inl Assert_failed else Inr (u\<lparr>bu_pred := 1\<rparr>, 1))"
proof -
  have "bu_flags u OR X86_UINST_UNCOND \<noteq> 0"
    by (simp add: or_eq_0_iff X86_UINST_UNCOND_def)
  then show ?thesis by (simp add: x86_bpred_lookup_def)
qed

text \<open>C34: a target that was written is found. After a BTB update for an address, in a predictor
  that keeps the invariant, a lookup of that address returns the target of the update (the
  return address stack answers for returns instead).\<close>

theorem btb_update_lookup:
  assumes "cfg_ok c" "bpred_ok c b" "bc_kind c \<noteq> bpred_perfect"
    and "bu_eip v = bu_eip u" "bu_flags v AND X86_UINST_CTRL \<noteq> 0"
    and "bu_opcode v \<noteq> uinst_ibranch" "bu_opcode v = uinst_ret \<longrightarrow> bu_specmode v"
  shows "\<exists>b'. x86_bpred_btb_lookup c (x86_bpred_btb_update c b u) v = Inr (b', bu_neip u)"
proof -
  let ?b = "x86_bpred_btb_update c b u"
  have btb: "btb_ok c (bp_btb b)" using assms(2) by (simp add: bpred_ok_def)
  obtain f where f: "btb_victim c (bp_btb b) u f" using btb_victim_exists [OF assms(1) btb] by blast
  note t = btb_update_touched(1) [OF assms(1) btb assms(3) f]
  have "btb_find c (bp_btb ?b) (btb_set_of c u) (bu_eip u) = Some f" by (rule btb_touched_find [OF f t])
  moreover have "be_target (BTB_ENTRY c (bp_btb ?b) (btb_set_of c u) f) = bu_neip u"
    using t by (simp add: btb_touched_def)
  ultimately show ?thesis
    using assms(3-7) by (auto simp: x86_bpred_btb_lookup_def Let_def simp flip: btb_set_of_def [of c u])
qed

theorem btb_update_lookup_witness:
  "\<exists>b'. x86_bpred_btb_lookup small_cfg
     (x86_bpred_btb_update small_cfg (x86_bpred_create small_cfg) (call_uop 9 64)) (call_uop 9 0) = Inr (b', 64)"
  using btb_update_lookup [of small_cfg "x86_bpred_create small_cfg" "call_uop 9 0" "call_uop 9 64"]
  by (simp add: small_cfg_ok bpred_create_ok) (simp add: small_cfg_def call_uop_def)

text \<open>Replacement is least recently used. An update makes one way of the set the most recent,
  keeps the order of the others, and overwrites no other entry.\<close>

theorem btb_update_lru:
  assumes "cfg_ok c" "bpred_ok c b" "bc_kind c \<noteq> bpred_perfect"
  shows "\<exists>f. btb_victim c (bp_btb b) u f \<and>
     (let old = BTB_ENTRY c (bp_btb b) (btb_set_of c u);
          new = BTB_ENTRY c (bp_btb (x86_bpred_btb_update c b u)) (btb_set_of c u)
      in \<forall>w \<in> {0..<nat (bc_btb_assoc c)} - {f}.
           be_counter (new w) < be_counter (new f) \<and> be_source (new w) = be_source (old w) \<and>
           be_target (new w) = be_target (old w) \<and>
           (\<forall>v \<in> {0..<nat (bc_btb_assoc c)} - {f}.
              be_counter (new v) < be_counter (new w) \<longleftrightarrow> be_counter (old v) < be_counter (old w)))"
proof -
  have btb: "btb_ok c (bp_btb b)" using assms(2) by (simp add: bpred_ok_def)
  obtain f where f: "btb_victim c (bp_btb b) u f" using btb_victim_exists [OF assms(1) btb] by blast
  note t = btb_update_touched(1) [OF assms(1) btb assms(3) f]
  have F: "f < nat (bc_btb_assoc c)" using t by (simp add: btb_touched_def)
  note cnt = btb_counters [OF btb btb_set_less [OF assms(1), of u]]
  have ne: "be_counter (BTB_ENTRY c (bp_btb b) (btb_set_of c u) w) \<noteq> be_counter (BTB_ENTRY c (bp_btb b) (btb_set_of c u) f)"
    if "w < nat (bc_btb_assoc c)" "w \<noteq> f" for w
    using cnt(3) [OF that(1) F] that(2) by simp
  show ?thesis
    using t f cnt(2) ne by (intro exI [of _ f]) (fastforce simp: btb_touched_def btb_age_def Let_def)
qed

theorem btb_update_lru_witness:
  "\<exists>f. btb_victim small_cfg (bp_btb (x86_bpred_create small_cfg)) (call_uop 9 64) f"
proof -
  have "bc_kind small_cfg \<noteq> bpred_perfect" by (simp add: small_cfg_def)
  from btb_update_lru [OF small_cfg_ok bpred_create_ok [OF small_cfg_ok] this, of "call_uop 9 64"]
  show ?thesis by blast
qed

subsection \<open>The return address stack\<close>

text \<open>A sequence of target lookups, with the targets it returns.\<close>

fun btb_lookups :: "bpred_cfg \<Rightarrow> x86_bpred_t \<Rightarrow> bp_uop list \<Rightarrow> (x86_bpred_t \<times> u32 list) res" where
  "btb_lookups c b [] = Inr (b, [])"
| "btb_lookups c b (u # us) =
     res_bind (x86_bpred_btb_lookup c b u) (\<lambda>(b, t). res_bind (btb_lookups c b us) (\<lambda>(b, ts). Inr (b, t # ts)))"

definition branch_known :: "bpred_cfg \<Rightarrow> x86_bpred_t \<Rightarrow> uinst_opcode \<Rightarrow> bp_uop \<Rightarrow> bool" where
  "branch_known c b opcode u \<longleftrightarrow> bu_opcode u = opcode \<and> \<not> bu_specmode u \<and>
     bu_flags u AND X86_UINST_CTRL \<noteq> 0 \<and>
     btb_find c (bp_btb b) (low_bits (bu_eip u) (bc_btb_sets c)) (bu_eip u) \<noteq> None"

definition return_address :: "bp_uop \<Rightarrow> u32" where
  "return_address u = bu_eip u + bu_mop_size u"

text \<open>The stack holds \<open>xs\<close>, oldest first, from position \<open>base\<close>.\<close>

definition ras_holds :: "bpred_cfg \<Rightarrow> x86_bpred_t \<Rightarrow> nat \<Rightarrow> u32 list \<Rightarrow> bool" where
  "ras_holds c b base xs \<longleftrightarrow>
     (let n = nat (bc_ras_size c)
      in length (bp_ras b) = n \<and> length xs \<le> n \<and> bp_ras_index b = ring_at n base (length xs) \<and>
         (\<forall>i < length xs. bp_ras b ! ring_at n base i = xs ! i))"

lemma ras_push:
  assumes "0 < bc_ras_size c" "ras_holds c b base xs" "length xs < nat (bc_ras_size c)"
    and "bc_kind c \<noteq> bpred_perfect" "branch_known c b uinst_call u"
  shows "\<exists>b' t. x86_bpred_btb_lookup c b u = Inr (b', t) \<and> ras_holds c b' base (xs @ [return_address u]) \<and>
           bp_btb b' = bp_btb b"
proof -
  let ?n = "nat (bc_ras_size c)"
  have n: "0 < ?n" using assms(1) by simp
  obtain t where l: "x86_bpred_btb_lookup c b u = Inr (b\<lparr>bp_ras := (bp_ras b)[bp_ras_index b := return_address u],
      bp_ras_index := ring_next ?n (bp_ras_index b)\<rparr>, t)"
    using assms(4,5) by (auto simp: x86_bpred_btb_lookup_def branch_known_def return_address_def Let_def)
  have "ras_holds c (b\<lparr>bp_ras := (bp_ras b)[bp_ras_index b := return_address u],
      bp_ras_index := ring_next ?n (bp_ras_index b)\<rparr>) base (xs @ [return_address u])"
    using assms(2,3) n
    by (auto simp: ras_holds_def Let_def ring_next_at nth_append nth_list_update ring_at_inj ring_at_less less_Suc_eq)
  with l show ?thesis by auto
qed

lemma ras_pop:
  assumes "0 < bc_ras_size c" "ras_holds c b base (xs @ [a])"
    and "bc_kind c \<noteq> bpred_perfect" "branch_known c b uinst_ret u"
  shows "\<exists>b'. x86_bpred_btb_lookup c b u = Inr (b', a) \<and> ras_holds c b' base xs \<and> bp_btb b' = bp_btb b"
proof -
  let ?n = "nat (bc_ras_size c)"
  have n: "0 < ?n" using assms(1) by simp
  have k: "ring_prev ?n (bp_ras_index b) = ring_at ?n base (length xs)"
    using assms(2) ring_prev_at [OF n, of base "length xs"] by (simp add: ras_holds_def Let_def)
  have "bp_ras b ! ring_at ?n base (length xs) = a"
    using assms(2) by (auto simp: ras_holds_def Let_def dest!: spec [of _ "length xs"])
  then have "x86_bpred_btb_lookup c b u = Inr (b\<lparr>bp_ras_index := ring_at ?n base (length xs)\<rparr>, a)"
    using assms(3,4) k by (auto simp: x86_bpred_btb_lookup_def branch_known_def Let_def)
  moreover have "ras_holds c (b\<lparr>bp_ras_index := ring_at ?n base (length xs)\<rparr>) base xs"
    using assms(2) by (auto simp: ras_holds_def Let_def nth_append all_conj_distrib split: if_splits)
  ultimately show ?thesis by auto
qed

lemma ras_idle:
  assumes "bc_kind c \<noteq> bpred_perfect" "bu_flags u AND X86_UINST_CTRL \<noteq> 0"
    and "\<not> branch_known c b uinst_call u" "\<not> branch_known c b uinst_ret u"
  shows "\<exists>t. x86_bpred_btb_lookup c b u = Inr (b, t)"
  using assms by (auto simp: x86_bpred_btb_lookup_def branch_known_def Let_def split: option.split)

text \<open>
  An ideal stack of return addresses, top first: a call that is recognised pushes, a return that is
  recognised takes the top as its target, and any other branch leaves the stack alone. \<open>ras_ideal\<close> gives the
  targets of the returns (\<open>None\<close> for the other branches) and the stack at the end, and \<open>ras_nested_in n\<close>
  says that no return comes without a call and that at most \<open>n\<close> calls are open at a time.
\<close>

fun ras_ideal :: "bpred_cfg \<Rightarrow> x86_bpred_t \<Rightarrow> u32 list \<Rightarrow> bp_uop list \<Rightarrow> u32 option list \<times> u32 list" where
  "ras_ideal c b st [] = ([], st)"
| "ras_ideal c b st (u # us) =
     (if branch_known c b uinst_call u then map_prod (Cons None) id (ras_ideal c b (return_address u # st) us)
      else if branch_known c b uinst_ret u then map_prod (Cons (Some (hd st))) id (ras_ideal c b (tl st) us)
      else map_prod (Cons None) id (ras_ideal c b st us))"

fun ras_nested_in :: "bpred_cfg \<Rightarrow> x86_bpred_t \<Rightarrow> nat \<Rightarrow> nat \<Rightarrow> bp_uop list \<Rightarrow> bool" where
  "ras_nested_in c b n depth [] = True"
| "ras_nested_in c b n depth (u # us) =
     (if branch_known c b uinst_call u then depth < n \<and> ras_nested_in c b n (depth + 1) us
      else if branch_known c b uinst_ret u then 0 < depth \<and> ras_nested_in c b n (depth - 1) us
      else ras_nested_in c b n depth us)"

lemma branch_known_btb: "bp_btb b' = bp_btb b \<Longrightarrow> branch_known c b' = branch_known c b"
  by (simp add: branch_known_def fun_eq_iff)

lemma ras_ideal_btb: "bp_btb b' = bp_btb b \<Longrightarrow> ras_ideal c b' st us = ras_ideal c b st us"
  by (induction us arbitrary: st) (simp_all add: branch_known_btb [of b' b])

lemma ras_nested_btb: "bp_btb b' = bp_btb b \<Longrightarrow> ras_nested_in c b' n depth us = ras_nested_in c b n depth us"
  by (induction us arbitrary: depth) (simp_all add: branch_known_btb [of b' b])

lemma ras_run:
  assumes "0 < bc_ras_size c" "bc_kind c \<noteq> bpred_perfect" "\<forall>u \<in> set us. bu_flags u AND X86_UINST_CTRL \<noteq> 0"
    and "ras_holds c b base (rev st)" "ras_nested_in c b (nat (bc_ras_size c)) (length st) us"
  shows "\<exists>b' ts. btb_lookups c b us = Inr (b', ts) \<and> ras_holds c b' base (rev (snd (ras_ideal c b st us))) \<and>
    list_all2 (\<lambda>t i. i = None \<or> i = Some t) ts (fst (ras_ideal c b st us))"
  using assms(3-)
proof (induction us arbitrary: b st)
  case (Cons u us)
  have ctrl: "\<forall>u \<in> set us. bu_flags u AND X86_UINST_CTRL \<noteq> 0" using Cons.prems(1) by simp
  consider (call) "branch_known c b uinst_call u"
    | (ret) "\<not> branch_known c b uinst_call u" "branch_known c b uinst_ret u"
    | (idle) "\<not> branch_known c b uinst_call u" "\<not> branch_known c b uinst_ret u" by blast
  then show ?case
  proof cases
    case call
    from Cons.prems(3) call have d: "length st < nat (bc_ras_size c)"
      "ras_nested_in c b (nat (bc_ras_size c)) (length (return_address u # st)) us" by simp_all
    from ras_push [OF assms(1) Cons.prems(2) _ assms(2) call] d(1) obtain b1 t where
      1: "x86_bpred_btb_lookup c b u = Inr (b1, t)" "ras_holds c b1 base (rev (return_address u # st))"
        "bp_btb b1 = bp_btb b" by auto
    from Cons.IH [OF ctrl 1(2)] d(2) call 1 show ?thesis
      by (auto simp: ras_ideal_btb [OF 1(3)] ras_nested_btb [OF 1(3)])
  next
    case ret
    from Cons.prems(3) ret obtain a st' where st: "st = a # st'"
      "ras_nested_in c b (nat (bc_ras_size c)) (length st') us" by (cases st) simp_all
    with Cons.prems(2) have "ras_holds c b base (rev st' @ [a])" by simp
    from ras_pop [OF assms(1) this assms(2) ret(2)] obtain b1 where
      1: "x86_bpred_btb_lookup c b u = Inr (b1, a)" "ras_holds c b1 base (rev st')" "bp_btb b1 = bp_btb b" by auto
    from Cons.IH [OF ctrl 1(2)] st(2) ret 1 show ?thesis
      by (auto simp: st(1) ras_ideal_btb [OF 1(3)] ras_nested_btb [OF 1(3)])
  next
    case idle
    with ras_idle [OF assms(2) _ idle] Cons.prems obtain t where "x86_bpred_btb_lookup c b u = Inr (b, t)" by auto
    with Cons.IH [OF ctrl Cons.prems(2)] Cons.prems(3) idle show ?thesis by auto
  qed
qed simp

text \<open>C35: the return address stack. For any sequence of branches in which the calls and returns that the
  predictor recognises (not speculative, and known to the BTB) are properly nested, with at most as many calls
  open at a time as the stack has entries, every such return is predicted to the return address of the call it
  matches, whatever other branches are looked up in between; and when no call is left open the
  stack is where it was.\<close>

theorem ras_nested:
  assumes "cfg_ok c" "bpred_ok c b" "bc_kind c \<noteq> bpred_perfect"
    and "\<forall>u \<in> set us. bu_flags u AND X86_UINST_CTRL \<noteq> 0" "ras_nested_in c b (nat (bc_ras_size c)) 0 us"
  shows "\<exists>b' ts. btb_lookups c b us = Inr (b', ts) \<and>
    list_all2 (\<lambda>t i. i = None \<or> i = Some t) ts (fst (ras_ideal c b [] us)) \<and>
    (snd (ras_ideal c b [] us) = [] \<longrightarrow> bp_ras_index b' = bp_ras_index b)"
proof -
  have n: "0 < bc_ras_size c" using assms(1) by (simp add: cfg_ok_def)
  have idx: "bp_ras_index b < nat (bc_ras_size c)" using assms(2) by (simp add: bpred_ok_def)
  then have "ras_holds c b (bp_ras_index b) (rev [])" using assms(2) by (simp add: ras_holds_def bpred_ok_def ring_at_def Let_def)
  from ras_run [OF n assms(3,4) this] assms(5) obtain b1 ts where
    1: "btb_lookups c b us = Inr (b1, ts)" "ras_holds c b1 (bp_ras_index b) (rev (snd (ras_ideal c b [] us)))"
      "list_all2 (\<lambda>t i. i = None \<or> i = Some t) ts (fst (ras_ideal c b [] us))" by auto
  have "bp_ras_index b1 = bp_ras_index b" if "snd (ras_ideal c b [] us) = []"
    using 1(2) that idx by (simp add: ras_holds_def ring_at_def Let_def)
  with 1 show ?thesis by auto
qed

text \<open>Two calls, each followed by its return.\<close>

theorem ras_nested_witness:
  "\<exists>b' t t'. btb_lookups small_cfg (x86_bpred_create small_cfg) [call_uop 0 0, ret_uop 0 0, call_uop 0 0, ret_uop 0 0] =
     Inr (b', [t, 5, t', 5])"
proof -
  have "btb_find small_cfg (bp_btb (x86_bpred_create small_cfg)) 0 0 = Some 0"
    by (simp add: btb_find_def small_cfg_def x86_bpred_create_def BTB_ENTRY_def btb_index_def upt_rec)
  then have k: "branch_known small_cfg (x86_bpred_create small_cfg) uinst_call (call_uop 0 0)"
    "branch_known small_cfg (x86_bpred_create small_cfg) uinst_ret (ret_uop 0 0)"
    "\<not> branch_known small_cfg (x86_bpred_create small_cfg) uinst_call (ret_uop 0 0)"
    by (simp_all add: branch_known_def ret_uop_def call_uop_def X86_UINST_CTRL_def low_bits_def)
  let ?us = "[call_uop 0 0, ret_uop 0 0, call_uop 0 0, ret_uop 0 0]"
  let ?b = "x86_bpred_create small_cfg"
  have p: "bc_kind small_cfg \<noteq> bpred_perfect" "1 \<le> nat (bc_ras_size small_cfg)" by (simp_all add: small_cfg_def)
  have ctrl: "\<forall>u \<in> set ?us. bu_flags u AND X86_UINST_CTRL \<noteq> 0"
    by (simp add: ret_uop_def call_uop_def X86_UINST_CTRL_def)
  have nest: "ras_nested_in small_cfg ?b (nat (bc_ras_size small_cfg)) 0 ?us" using k p(2) by simp
  have ideal: "fst (ras_ideal small_cfg ?b [] ?us) = [None, Some 5, None, Some 5]"
    using k by (simp add: return_address_def call_uop_def)
  from ras_nested [OF small_cfg_ok bpred_create_ok [OF small_cfg_ok] p(1) ctrl nest] obtain b' ts where
    1: "btb_lookups small_cfg ?b ?us = Inr (b', ts)"
      "list_all2 (\<lambda>t i. i = None \<or> i = Some t) ts (fst (ras_ideal small_cfg ?b [] ?us))"
    by (elim exE conjE) (rule that)
  from 1(2) have "\<exists>t t'. ts = [t, 5, t', 5]" unfolding ideal by (auto simp: list_all2_Cons2)
  with 1(1) show ?thesis by blast
qed

subsection \<open>The next branch of a block\<close>

definition btb_has :: "bpred_cfg \<Rightarrow> x86_bpred_t \<Rightarrow> u32 \<Rightarrow> bool" where
  "btb_has c b eip \<longleftrightarrow> btb_find c (bp_btb b) (low_bits eip (bc_btb_sets c)) eip \<noteq> None"

lemma next_branch_loop_least:
  "(let r = next_branch_loop c b limit eip
    in if \<exists>e. eip \<le> e \<and> e < limit \<and> btb_has c b e
       then eip \<le> r \<and> r < limit \<and> btb_has c b r \<and> (\<forall>e. eip \<le> e \<and> e < r \<longrightarrow> \<not> btb_has c b e)
       else r = 0)"
proof (induction c b limit eip rule: next_branch_loop.induct)
  case (1 c b limit eip)
  show ?case
  proof (cases "eip < limit \<and> \<not> btb_has c b eip")
    case True
    have step: "next_branch_loop c b limit eip = next_branch_loop c b limit (eip + 1)"
      using True by (subst next_branch_loop.simps) (simp add: btb_has_def)
    have "eip \<le> e \<longleftrightarrow> e = eip \<or> eip + 1 \<le> e" for e
      using unat_succ [of eip limit] True by (auto simp: word_le_nat_alt word_less_nat_alt unat_arith_simps)
    with 1 True step show ?thesis by (auto simp: Let_def btb_has_def split: if_splits)
  next
    case False
    then show ?thesis
      by (subst next_branch_loop.simps) (auto simp: btb_has_def Let_def)
  qed
qed

text \<open>The search for the next branch of a block ends, and returns the least address of the block,
  from the given one on, that the BTB holds, or 0 when there is none.\<close>

theorem next_branch_least:
  assumes "bsize AND (bsize - 1) = 0"
  shows "\<exists>r. x86_bpred_btb_next_branch c b eip bsize = Inr r \<and>
     (let limit = (eip + bsize) AND NOT (bsize - 1)
      in if \<exists>e. eip \<le> e \<and> e < limit \<and> btb_has c b e
         then eip \<le> r \<and> r < limit \<and> btb_has c b r \<and> (\<forall>e. eip \<le> e \<and> e < r \<longrightarrow> \<not> btb_has c b e)
         else r = 0)"
  using assms next_branch_loop_least [of c b "(eip + bsize) AND NOT (bsize - 1)" eip]
  by (simp add: x86_bpred_btb_next_branch_def Let_def)

theorem next_branch_least_witness:
  "\<exists>r. x86_bpred_btb_next_branch small_cfg (x86_bpred_create small_cfg) 1 64 = Inr r"
  using next_branch_least [of 64 small_cfg "x86_bpred_create small_cfg" 1] by auto

end
