(* ===== verification/SI_Isa.thy ===== *)
theory SI_Isa
  imports Memory
begin

text \<open>
  Registers of the Southern Islands emulator (\<open>src/arch/southern-islands/emu/isa.c\<close>,
  \<open>southern-islands-emu.h\<close>). A register is a 32-bit word, read as signed with \<open>sint\<close>. An
  instruction runs in a context: the wavefront with its scalar registers, the work-item that
  executes it, their work-group, and global memory. The pointers between these objects are the
  fields of the context.
\<close>

section \<open>Linked lists\<close>

text \<open>
  \<open>DOUBLE_LINKED_LIST_INSERT_TAIL\<close> and \<open>DOUBLE_LINKED_LIST_REMOVE\<close> (\<open>src/lib/misc/misc.h\<close>): a
  list of an object is the list of the identifiers of its elements. An element that is already
  linked fails the assertion of the insertion.
\<close>

definition dl_insert_tail :: "nat \<Rightarrow> nat list \<Rightarrow> nat list res" where
  "dl_insert_tail x xs = (if x \<in> set xs then Inl Assert_failed else Inr (xs @ [x]))"

definition dl_remove :: "nat \<Rightarrow> nat list \<Rightarrow> nat list res" where
  "dl_remove x xs = (if x \<notin> set xs then Inl Assert_failed else Inr (remove1 x xs))"

section \<open>State\<close>

definition SI_VCC :: nat where "SI_VCC = 106"
definition SI_VCCZ :: nat where "SI_VCCZ = 251"
definition SI_EXEC :: nat where "SI_EXEC = 126"
definition SI_EXECZ :: nat where "SI_EXECZ = 252"
definition SI_SCC :: nat where "SI_SCC = 253"

lemmas si_regs = SI_VCC_def SI_VCCZ_def SI_EXEC_def SI_EXECZ_def SI_SCC_def

text \<open>A work-item points to its wavefront and work-group by their identifiers in the ND-Range.\<close>

record si_work_item_t =
  wi_id :: nat
  wi_id_in_wavefront :: nat
  wi_id_in_work_group :: nat
  wi_id_3d :: "nat \<times> nat \<times> nat"
  wi_id_in_work_group_3d :: "nat \<times> nat \<times> nat"
  wi_wavefront :: nat
  wi_work_group :: nat
  wi_vreg :: "nat \<Rightarrow> u32"

text \<open>\<open>wf_pc\<close> is the offset of \<open>inst_buf\<close> from \<open>inst_buf_start\<close>.\<close>

record si_wavefront_t =
  wf_id :: nat
  wf_id_in_work_group :: nat
  wf_work_group :: nat
  wf_work_item_id_first :: nat
  wf_work_item_id_last :: nat
  wf_work_item_count :: nat
  wf_sreg :: "nat \<Rightarrow> u32"
  wf_pc :: int
  wf_inst_size :: nat
  wf_finished :: bool
  wf_scalar :: si_work_item_t
  wf_inst_count :: nat
  wf_emu_inst_count :: nat
  wf_scalar_alu_inst_count :: nat
  wf_scalar_mem_inst_count :: nat
  wf_vector_alu_inst_count :: nat
  wf_vector_mem_inst_count :: nat

text \<open>The statuses of a work-group or an ND-Range are bits.\<close>

definition si_work_group_pending :: u32 where "si_work_group_pending = 0x0001"
definition si_work_group_running :: u32 where "si_work_group_running = 0x0002"
definition si_work_group_finished :: u32 where "si_work_group_finished = 0x0004"

record si_work_group_t =
  wg_id :: nat
  wg_id_3d :: "nat \<times> nat \<times> nat"
  wg_status :: u32
  wg_work_item_id_first :: nat
  wg_work_item_id_last :: nat
  wg_work_item_count :: nat
  wg_wavefront_id_first :: nat
  wg_wavefront_id_last :: nat
  wg_running :: "nat list"
  wg_barrier :: "nat list"
  wg_finished :: "nat list"
  wg_wavefront_count :: nat
  wg_local_mem :: mem_t

record si_ctx =
  cx_wave :: si_wavefront_t
  cx_item :: si_work_item_t
  cx_group :: si_work_group_t
  cx_global :: mem_t

section \<open>Register access\<close>

definition si_isa_read_sreg :: "si_ctx \<Rightarrow> nat \<Rightarrow> u32" where
  "si_isa_read_sreg c sreg = wf_sreg (cx_wave c) sreg"

text \<open>\<open>!lo & !hi\<close>\<close>

definition both_zero :: "u32 \<Rightarrow> u32 \<Rightarrow> u32" where
  "both_zero lo hi = of_bool (lo = 0) AND of_bool (hi = 0)"

definition sreg_write :: "nat \<Rightarrow> u32 \<Rightarrow> (nat \<Rightarrow> u32) \<Rightarrow> nat \<Rightarrow> u32" where
  "sreg_write sreg v s =
     (let s = s(sreg := v);
          s = (if sreg = SI_VCC \<or> sreg = SI_VCC + 1
               then s(SI_VCCZ := both_zero (s SI_VCC) (s (SI_VCC + 1))) else s)
      in if sreg = SI_EXEC \<or> sreg = SI_EXEC + 1
         then s(SI_EXECZ := both_zero (s SI_EXEC) (s (SI_EXEC + 1))) else s)"

definition si_isa_write_sreg :: "nat \<Rightarrow> u32 \<Rightarrow> si_ctx \<Rightarrow> si_ctx" where
  "si_isa_write_sreg sreg v c =
     c\<lparr>cx_wave := (cx_wave c)\<lparr>wf_sreg := sreg_write sreg v (wf_sreg (cx_wave c))\<rparr>\<rparr>"

definition si_isa_read_vreg :: "si_ctx \<Rightarrow> nat \<Rightarrow> u32" where
  "si_isa_read_vreg c vreg = wi_vreg (cx_item c) vreg"

definition si_isa_write_vreg :: "nat \<Rightarrow> u32 \<Rightarrow> si_ctx \<Rightarrow> si_ctx" where
  "si_isa_write_vreg vreg v c =
     c\<lparr>cx_item := (cx_item c)\<lparr>wi_vreg := (wi_vreg (cx_item c))(vreg := v)\<rparr>\<rparr>"

definition si_isa_read_reg :: "si_ctx \<Rightarrow> nat \<Rightarrow> u32" where
  "si_isa_read_reg c reg = (if reg < 256 then si_isa_read_sreg c reg else si_isa_read_vreg c (reg - 256))"

definition si_isa_bitmask_sreg :: "nat \<Rightarrow> u32 \<Rightarrow> si_ctx \<Rightarrow> si_ctx" where
  "si_isa_bitmask_sreg sreg v c =
     (let k = wi_id_in_wavefront (cx_item c) in
      if k < 32 then
        let mask = push_bit k 1; bitfield = si_isa_read_sreg c sreg
        in si_isa_write_sreg sreg (if v \<noteq> 0 then bitfield OR mask else bitfield AND NOT mask) c
      else
        let mask = push_bit (k - 32) 1; bitfield = si_isa_read_sreg c (sreg + 1)
        in si_isa_write_sreg (sreg + 1) (if v \<noteq> 0 then bitfield OR mask else bitfield AND NOT mask) c)"

definition si_isa_read_bitmask_sreg :: "si_ctx \<Rightarrow> nat \<Rightarrow> u32" where
  "si_isa_read_bitmask_sreg c sreg =
     (let k = wi_id_in_wavefront (cx_item c) in
      if k < 32 then drop_bit k (si_isa_read_sreg c sreg AND push_bit k 1)
      else drop_bit (k - 32) (si_isa_read_sreg c (sreg + 1) AND push_bit (k - 32) 1))"

text \<open>The 48-bit base address of a buffer descriptor, and of a memory pointer: the first two
  registers of the group. The other fields of the descriptors are not used.\<close>

definition si_isa_read_buf_res :: "si_ctx \<Rightarrow> nat \<Rightarrow> 64 word" where
  "si_isa_read_buf_res c sreg =
     take_bit 48 (ucast (si_isa_read_sreg c sreg) OR push_bit 32 (ucast (si_isa_read_sreg c (sreg + 1))))"

definition si_isa_read_mem_ptr :: "si_ctx \<Rightarrow> nat \<Rightarrow> 64 word" where
  "si_isa_read_mem_ptr c sreg =
     take_bit 48 (ucast (si_isa_read_sreg c sreg) OR push_bit 32 (ucast (si_isa_read_sreg c (sreg + 1))))"

definition si_isa_get_num_elems :: "nat \<Rightarrow> nat res" where
  "si_isa_get_num_elems data_format =
     (if data_format \<in> {1, 2, 4} then Inr 1
      else if data_format \<in> {3, 5, 11} then Inr 2
      else if data_format = 13 then Inr 3
      else if data_format \<in> {10, 12, 14} then Inr 4
      else Inl (Fatal ''Invalid or unsupported data format''))"

definition si_isa_get_elem_size :: "nat \<Rightarrow> nat res" where
  "si_isa_get_elem_size data_format =
     (if data_format \<in> {1, 3, 10} then Inr 1
      else if data_format \<in> {2, 5, 12} then Inr 2
      else if data_format \<in> {4, 11, 13, 14} then Inr 4
      else Inl (Fatal ''Invalid or unsupported data format''))"

section \<open>Constant memory\<close>

definition UAV_TABLE_START :: u32 where "UAV_TABLE_START = 0"
definition UAV_TABLE_SIZE :: u32 where "UAV_TABLE_SIZE = 1024"
definition CONSTANT_MEMORY_START :: u32 where "CONSTANT_MEMORY_START = UAV_TABLE_START + UAV_TABLE_SIZE"
definition CONSTANT_BUFFER_SIZE :: u32 where "CONSTANT_BUFFER_SIZE = 1024"
definition CONSTANT_BUFFERS :: nat where "CONSTANT_BUFFERS = 2"

text \<open>Little-endian bytes of a register, and a register from bytes: a value of fewer than four
  bytes leaves the upper bytes of the register as they were.\<close>

definition reg_bytes :: "u32 \<Rightarrow> nat \<Rightarrow> u8 list" where
  "reg_bytes v n = map (\<lambda>i. ucast (drop_bit (8 * i) v)) [0..<n]"

fun reg_of_bytes :: "u8 list \<Rightarrow> u32 \<Rightarrow> u32" where
  "reg_of_bytes [] v = v"
| "reg_of_bytes (b # bs) v = ucast b OR push_bit 8 (reg_of_bytes bs (drop_bit 8 v))"

definition si_isa_const_mem_write :: "mem_t \<Rightarrow> nat \<Rightarrow> u32 \<Rightarrow> u32 \<Rightarrow> mem_t res" where
  "si_isa_const_mem_write mem buffer offset v =
     (if \<not> buffer < CONSTANT_BUFFERS then Inl Assert_failed
      else mem_write mem (CONSTANT_MEMORY_START + of_nat buffer * CONSTANT_BUFFER_SIZE + offset) 4 (reg_bytes v 4))"

definition si_isa_const_mem_read :: "mem_t \<Rightarrow> nat \<Rightarrow> u32 \<Rightarrow> (mem_t \<times> u32) res" where
  "si_isa_const_mem_read mem buffer offset =
     (if \<not> buffer < CONSTANT_BUFFERS then Inl Assert_failed
      else res_bind (mem_read mem (CONSTANT_MEMORY_START + of_nat buffer * CONSTANT_BUFFER_SIZE + offset) 4)
        (\<lambda>(mem, bs). Inr (mem, reg_of_bytes bs 0)))"

end
