(* ===== verification/SI_Scalar.thy ===== *)
theory SI_Scalar
  imports SI_Isa
begin

text \<open>
  Scalar instructions of the Southern Islands emulator
  (\<open>src/arch/southern-islands/emu/machine.c\<close>, with the microcode formats of
  \<open>southern-islands-asm.h\<close>): one definition per \<open>si_isa_..._impl\<close>. The overflow of a signed
  C addition or multiplication wraps around, as on the hosts the simulator runs on; debug output
  is left out.
\<close>

section \<open>Microcode formats\<close>

text \<open>A bit field of the instruction word.\<close>

definition bits :: "64 word \<Rightarrow> nat \<Rightarrow> nat \<Rightarrow> nat" where
  "bits w lo n = unat (take_bit n (drop_bit lo w))"

definition lit_cnst :: "64 word \<Rightarrow> u32" where
  "lit_cnst w = ucast (drop_bit 32 w)"

record si_fmt_sop2_t =
  sop2_ssrc0 :: nat
  sop2_ssrc1 :: nat
  sop2_sdst :: nat
  sop2_lit_cnst :: u32

definition SI_INST_SOP2 :: "64 word \<Rightarrow> si_fmt_sop2_t" where
  "SI_INST_SOP2 w = \<lparr>sop2_ssrc0 = bits w 0 8, sop2_ssrc1 = bits w 8 8, sop2_sdst = bits w 16 7,
     sop2_lit_cnst = lit_cnst w\<rparr>"

record si_fmt_sopk_t =
  sopk_simm16 :: "16 word"
  sopk_sdst :: nat

definition SI_INST_SOPK :: "64 word \<Rightarrow> si_fmt_sopk_t" where
  "SI_INST_SOPK w = \<lparr>sopk_simm16 = ucast w, sopk_sdst = bits w 16 7\<rparr>"

record si_fmt_sop1_t =
  sop1_ssrc0 :: nat
  sop1_sdst :: nat
  sop1_lit_cnst :: u32

definition SI_INST_SOP1 :: "64 word \<Rightarrow> si_fmt_sop1_t" where
  "SI_INST_SOP1 w = \<lparr>sop1_ssrc0 = bits w 0 8, sop1_sdst = bits w 16 7, sop1_lit_cnst = lit_cnst w\<rparr>"

record si_fmt_sopc_t =
  sopc_ssrc0 :: nat
  sopc_ssrc1 :: nat
  sopc_lit_cnst :: u32

definition SI_INST_SOPC :: "64 word \<Rightarrow> si_fmt_sopc_t" where
  "SI_INST_SOPC w = \<lparr>sopc_ssrc0 = bits w 0 8, sopc_ssrc1 = bits w 8 8, sopc_lit_cnst = lit_cnst w\<rparr>"

record si_fmt_sopp_t =
  sopp_simm16 :: "16 word"

definition SI_INST_SOPP :: "64 word \<Rightarrow> si_fmt_sopp_t" where
  "SI_INST_SOPP w = \<lparr>sopp_simm16 = ucast w\<rparr>"

record si_fmt_smrd_t =
  smrd_offset :: nat
  smrd_imm :: bool
  smrd_sbase :: nat
  smrd_sdst :: nat

definition SI_INST_SMRD :: "64 word \<Rightarrow> si_fmt_smrd_t" where
  "SI_INST_SMRD w = \<lparr>smrd_offset = bits w 0 8, smrd_imm = (bits w 8 1 = 1), smrd_sbase = bits w 9 6,
     smrd_sdst = bits w 15 7\<rparr>"

section \<open>Operands\<close>

text \<open>\<open>ssrc == 0xFF\<close> selects the literal constant; both operands cannot be literal.\<close>

definition scalar_src :: "si_ctx \<Rightarrow> nat \<Rightarrow> u32 \<Rightarrow> u32" where
  "scalar_src c ssrc lit = (if ssrc = 0xFF then lit else si_isa_read_sreg c ssrc)"

definition sop2_srcs :: "si_fmt_sop2_t \<Rightarrow> si_ctx \<Rightarrow> (u32 \<times> u32) res" where
  "sop2_srcs i c =
     (if sop2_ssrc0 i = 0xFF \<and> sop2_ssrc1 i = 0xFF then Inl Assert_failed
      else Inr (scalar_src c (sop2_ssrc0 i) (sop2_lit_cnst i), scalar_src c (sop2_ssrc1 i) (sop2_lit_cnst i)))"

definition sopc_srcs :: "si_fmt_sopc_t \<Rightarrow> si_ctx \<Rightarrow> (u32 \<times> u32) res" where
  "sopc_srcs i c =
     (if sopc_ssrc0 i = 0xFF \<and> sopc_ssrc1 i = 0xFF then Inl Assert_failed
      else Inr (scalar_src c (sopc_ssrc0 i) (sopc_lit_cnst i), scalar_src c (sopc_ssrc1 i) (sopc_lit_cnst i)))"

text \<open>The operand pairs of a 64-bit instruction, low register first.\<close>

definition sop2_srcs64 :: "si_fmt_sop2_t \<Rightarrow> si_ctx \<Rightarrow> (u32 \<times> u32 \<times> u32 \<times> u32) res" where
  "sop2_srcs64 i c =
     (if sop2_ssrc0 i = 0xFF \<or> sop2_ssrc1 i = 0xFF then Inl Assert_failed
      else Inr (si_isa_read_sreg c (sop2_ssrc0 i), si_isa_read_sreg c (sop2_ssrc0 i + 1),
                si_isa_read_sreg c (sop2_ssrc1 i), si_isa_read_sreg c (sop2_ssrc1 i + 1)))"

section \<open>SMRD\<close>

text \<open>The loop that loads \<open>n\<close> registers from consecutive words, from index \<open>i\<close>.\<close>

fun smrd_load :: "u32 \<Rightarrow> nat \<Rightarrow> nat \<Rightarrow> nat \<Rightarrow> si_ctx \<Rightarrow> si_ctx res" where
  "smrd_load addr sdst i 0 c = Inr c"
| "smrd_load addr sdst i (Suc n) c =
     res_bind (mem_read (cx_global c) (addr + of_nat i * 4) 4) (\<lambda>(mem, bs).
       smrd_load addr sdst (i + 1) n
         (si_isa_write_sreg (sdst + i) (reg_of_bytes bs 0) (c\<lparr>cx_global := mem\<rparr>)))"

definition S_BUFFER_LOAD_DWORD_impl :: "si_fmt_smrd_t \<Rightarrow> si_ctx \<Rightarrow> si_ctx res" where
  "S_BUFFER_LOAD_DWORD_impl i c =
     (if \<not> smrd_imm i then Inl Assert_failed
      else
        let m_base = ucast (si_isa_read_buf_res c (smrd_sbase i * 2)); m_offset = of_nat (smrd_offset i * 4)
        in res_bind (mem_read (cx_global c) (m_base + m_offset) 4) (\<lambda>(mem, bs).
             Inr (si_isa_write_sreg (smrd_sdst i) (reg_of_bytes bs 0) (c\<lparr>cx_global := mem\<rparr>))))"

definition smrd_loadx :: "nat \<Rightarrow> si_fmt_smrd_t \<Rightarrow> si_ctx \<Rightarrow> si_ctx res" where
  "smrd_loadx n i c =
     (if \<not> smrd_imm i then Inl Assert_failed
      else
        let m_base = ucast (si_isa_read_mem_ptr c (smrd_sbase i * 2)); m_offset = of_nat (smrd_offset i * 4);
            m_addr = m_base + m_offset
        in if m_addr AND 3 \<noteq> 0 then Inl Assert_failed else smrd_load m_addr (smrd_sdst i) 0 n c)"

definition S_LOAD_DWORDX4_impl :: "si_fmt_smrd_t \<Rightarrow> si_ctx \<Rightarrow> si_ctx res" where
  "S_LOAD_DWORDX4_impl = smrd_loadx 4"

definition S_BUFFER_LOAD_DWORDX2_impl :: "si_fmt_smrd_t \<Rightarrow> si_ctx \<Rightarrow> si_ctx res" where
  "S_BUFFER_LOAD_DWORDX2_impl = smrd_loadx 2"

section \<open>SOP2\<close>

text \<open>
  \<open>s0 >> 31 != s1 >> 31 ? 0 : (s0 > 0 && sum < 0) || (s0 < 0 && sum > 0)\<close>
\<close>

definition add_ovf :: "u32 \<Rightarrow> u32 \<Rightarrow> u32 \<Rightarrow> u32" where
  "add_ovf s0 s1 r =
     (if drop_bit 31 (sint s0) \<noteq> drop_bit 31 (sint s1) then 0
      else of_bool (sint s0 > 0 \<and> sint r < 0 \<or> sint s0 < 0 \<and> sint r > 0))"

definition S_ADD_I32_impl :: "si_fmt_sop2_t \<Rightarrow> si_ctx \<Rightarrow> si_ctx res" where
  "S_ADD_I32_impl i c =
     res_bind (sop2_srcs i c) (\<lambda>(s0, s1).
       let sum = s0 + s1
       in Inr (si_isa_write_sreg SI_SCC (add_ovf s0 s1 sum) (si_isa_write_sreg (sop2_sdst i) sum c)))"

text \<open>The comparison is between the numbers of the operand registers.\<close>

definition S_MIN_U32_impl :: "si_fmt_sop2_t \<Rightarrow> si_ctx \<Rightarrow> si_ctx res" where
  "S_MIN_U32_impl i c =
     res_bind (sop2_srcs i c) (\<lambda>(s0, s1).
       let (min, s0_min) = (if sop2_ssrc0 i < sop2_ssrc1 i then (s0, 1) else (s1, 0))
       in Inr (si_isa_write_sreg SI_SCC s0_min (si_isa_write_sreg (sop2_sdst i) min c)))"

text \<open>A result and \<open>nonzero\<close> in the condition code.\<close>

definition write_nonzero :: "nat \<Rightarrow> u32 \<Rightarrow> si_ctx \<Rightarrow> si_ctx" where
  "write_nonzero sdst r c = si_isa_write_sreg SI_SCC (of_bool (r \<noteq> 0)) (si_isa_write_sreg sdst r c)"

definition S_AND_B32_impl :: "si_fmt_sop2_t \<Rightarrow> si_ctx \<Rightarrow> si_ctx res" where
  "S_AND_B32_impl i c = res_bind (sop2_srcs i c) (\<lambda>(s0, s1). Inr (write_nonzero (sop2_sdst i) (s0 AND s1) c))"

text \<open>The 64-bit results set the condition code when both halves are non-zero.\<close>

definition write_both_nonzero :: "nat \<Rightarrow> u32 \<Rightarrow> u32 \<Rightarrow> si_ctx \<Rightarrow> si_ctx" where
  "write_both_nonzero sdst lo hi c =
     si_isa_write_sreg SI_SCC (of_bool (lo \<noteq> 0 \<and> hi \<noteq> 0))
       (si_isa_write_sreg (sdst + 1) hi (si_isa_write_sreg sdst lo c))"

definition S_AND_B64_impl :: "si_fmt_sop2_t \<Rightarrow> si_ctx \<Rightarrow> si_ctx res" where
  "S_AND_B64_impl i c =
     res_bind (sop2_srcs64 i c) (\<lambda>(s0_lo, s0_hi, s1_lo, s1_hi).
       Inr (write_both_nonzero (sop2_sdst i) (s0_lo AND s1_lo) (s0_hi AND s1_hi) c))"

definition S_ANDN2_B64_impl :: "si_fmt_sop2_t \<Rightarrow> si_ctx \<Rightarrow> si_ctx res" where
  "S_ANDN2_B64_impl i c =
     res_bind (sop2_srcs64 i c) (\<lambda>(s0_lo, s0_hi, s1_lo, s1_hi).
       Inr (write_both_nonzero (sop2_sdst i) (s0_lo AND NOT s1_lo) (s0_hi AND NOT s1_hi) c))"

definition S_LSHL_B32_impl :: "si_fmt_sop2_t \<Rightarrow> si_ctx \<Rightarrow> si_ctx res" where
  "S_LSHL_B32_impl i c =
     res_bind (sop2_srcs i c) (\<lambda>(s0, s1).
       Inr (write_nonzero (sop2_sdst i) (push_bit (unat (s1 AND 0x1F)) s0) c))"

definition S_LSHR_B32_impl :: "si_fmt_sop2_t \<Rightarrow> si_ctx \<Rightarrow> si_ctx res" where
  "S_LSHR_B32_impl i c =
     res_bind (sop2_srcs i c) (\<lambda>(s0, s1).
       Inr (write_nonzero (sop2_sdst i) (drop_bit (unat (s1 AND 0x1F)) s0) c))"

definition S_ASHR_I32_impl :: "si_fmt_sop2_t \<Rightarrow> si_ctx \<Rightarrow> si_ctx res" where
  "S_ASHR_I32_impl i c =
     res_bind (sop2_srcs i c) (\<lambda>(s0, s1).
       Inr (write_nonzero (sop2_sdst i) (of_int (drop_bit (unat (s1 AND 0x1F)) (sint s0))) c))"

definition S_MUL_I32_impl :: "si_fmt_sop2_t \<Rightarrow> si_ctx \<Rightarrow> si_ctx res" where
  "S_MUL_I32_impl i c = res_bind (sop2_srcs i c) (\<lambda>(s0, s1). Inr (si_isa_write_sreg (sop2_sdst i) (s0 * s1) c))"

section \<open>SOPK\<close>

definition S_MOVK_I32_impl :: "si_fmt_sopk_t \<Rightarrow> si_ctx \<Rightarrow> si_ctx res" where
  "S_MOVK_I32_impl i c = Inr (si_isa_write_sreg (sopk_sdst i) (scast (sopk_simm16 i)) c)"

definition S_ADDK_I32_impl :: "si_fmt_sopk_t \<Rightarrow> si_ctx \<Rightarrow> si_ctx res" where
  "S_ADDK_I32_impl i c =
     (let se_simm16 = scast (sopk_simm16 i); dest = si_isa_read_sreg c (sopk_sdst i); sum = dest + se_simm16
      in Inr (si_isa_write_sreg SI_SCC (add_ovf dest se_simm16 sum) (si_isa_write_sreg (sopk_sdst i) sum c)))"

text \<open>\<open>((long)dest * (long)se_simm16) > (long)product.as_uint\<close>\<close>

definition mul_ovf :: "u32 \<Rightarrow> u32 \<Rightarrow> u32" where
  "mul_ovf x y = of_bool (sint x * sint y > uint (x * y))"

definition S_MULK_I32_impl :: "si_fmt_sopk_t \<Rightarrow> si_ctx \<Rightarrow> si_ctx res" where
  "S_MULK_I32_impl i c =
     (let se_simm16 = scast (sopk_simm16 i); dest = si_isa_read_sreg c (sopk_sdst i); product = dest * se_simm16
      in Inr (si_isa_write_sreg SI_SCC (mul_ovf dest se_simm16) (si_isa_write_sreg (sopk_sdst i) product c)))"

section \<open>SOP1\<close>

definition S_MOV_B64_impl :: "si_fmt_sop1_t \<Rightarrow> si_ctx \<Rightarrow> si_ctx res" where
  "S_MOV_B64_impl i c =
     (if sop1_ssrc0 i = 0xFF then Inl Assert_failed
      else
        let s0_lo = si_isa_read_sreg c (sop1_ssrc0 i); s0_hi = si_isa_read_sreg c (sop1_ssrc0 i + 1)
        in Inr (si_isa_write_sreg (sop1_sdst i + 1) s0_hi (si_isa_write_sreg (sop1_sdst i) s0_lo c)))"

definition S_MOV_B32_impl :: "si_fmt_sop1_t \<Rightarrow> si_ctx \<Rightarrow> si_ctx res" where
  "S_MOV_B32_impl i c =
     Inr (si_isa_write_sreg (sop1_sdst i) (scalar_src c (sop1_ssrc0 i) (sop1_lit_cnst i)) c)"

definition S_AND_SAVEEXEC_B64_impl :: "si_fmt_sop1_t \<Rightarrow> si_ctx \<Rightarrow> si_ctx res" where
  "S_AND_SAVEEXEC_B64_impl i c =
     (if sop1_ssrc0 i = 0xFF then Inl Assert_failed
      else
        let exec_lo = si_isa_read_sreg c SI_EXEC; exec_hi = si_isa_read_sreg c (SI_EXEC + 1);
            exec_new_lo = si_isa_read_sreg c (sop1_ssrc0 i) AND exec_lo;
            exec_new_hi = si_isa_read_sreg c (sop1_ssrc0 i + 1) AND exec_hi;
            c = si_isa_write_sreg (sop1_sdst i) exec_lo c;
            c = si_isa_write_sreg (sop1_sdst i + 1) exec_hi c;
            c = si_isa_write_sreg SI_EXEC exec_new_lo c;
            c = si_isa_write_sreg (SI_EXEC + 1) exec_new_hi c
        in Inr (si_isa_write_sreg SI_SCC (of_bool (exec_new_lo \<noteq> 0 \<and> exec_new_hi \<noteq> 0)) c))"

section \<open>SOPC\<close>

definition S_CMP_EQ_I32_impl :: "si_fmt_sopc_t \<Rightarrow> si_ctx \<Rightarrow> si_ctx res" where
  "S_CMP_EQ_I32_impl i c = res_bind (sopc_srcs i c) (\<lambda>(s0, s1). Inr (si_isa_write_sreg SI_SCC (of_bool (s0 = s1)) c))"

definition S_CMP_LE_U32_impl :: "si_fmt_sopc_t \<Rightarrow> si_ctx \<Rightarrow> si_ctx res" where
  "S_CMP_LE_U32_impl i c = res_bind (sopc_srcs i c) (\<lambda>(s0, s1). Inr (si_isa_write_sreg SI_SCC (of_bool (s0 \<le> s1)) c))"

section \<open>SOPP\<close>

definition S_ENDPGM_impl :: "si_ctx \<Rightarrow> si_ctx res" where
  "S_ENDPGM_impl c = Inr (c\<lparr>cx_wave := (cx_wave c)\<lparr>wf_finished := True\<rparr>\<rparr>)"

text \<open>The program counter is an unsigned 32-bit offset from \<open>inst_buf_start\<close>.\<close>

definition S_BRANCH_impl :: "si_fmt_sopp_t \<Rightarrow> si_ctx \<Rightarrow> si_ctx res" where
  "S_BRANCH_impl i c =
     (let pc = of_int (wf_pc (cx_wave c)) :: u32; se_simm16 = scast (sopp_simm16 i); pc = pc + se_simm16 * 4 + 4
      in Inr (c\<lparr>cx_wave := (cx_wave c)\<lparr>wf_pc := uint pc\<rparr>\<rparr>))"

definition S_CBRANCH_SCC0_impl :: "si_fmt_sopp_t \<Rightarrow> si_ctx \<Rightarrow> si_ctx res" where
  "S_CBRANCH_SCC0_impl i c = (if si_isa_read_sreg c SI_SCC = 0 then S_BRANCH_impl i c else Inr c)"

definition S_CBRANCH_SCC1_impl :: "si_fmt_sopp_t \<Rightarrow> si_ctx \<Rightarrow> si_ctx res" where
  "S_CBRANCH_SCC1_impl i c = (if si_isa_read_sreg c SI_SCC \<noteq> 0 then S_BRANCH_impl i c else Inr c)"

definition S_CBRANCH_VCCZ_impl :: "si_fmt_sopp_t \<Rightarrow> si_ctx \<Rightarrow> si_ctx res" where
  "S_CBRANCH_VCCZ_impl i c = (if si_isa_read_sreg c SI_VCCZ \<noteq> 0 then S_BRANCH_impl i c else Inr c)"

definition S_CBRANCH_EXECZ_impl :: "si_fmt_sopp_t \<Rightarrow> si_ctx \<Rightarrow> si_ctx res" where
  "S_CBRANCH_EXECZ_impl i c = (if si_isa_read_sreg c SI_EXECZ \<noteq> 0 then S_BRANCH_impl i c else Inr c)"

text \<open>
  A barrier moves the wavefront from the running list to the barrier list, and when all the
  wavefronts of the work-group are there, the loop moves them back one by one.
\<close>

fun barrier_wakeup :: "nat list \<Rightarrow> nat list \<Rightarrow> nat list res" where
  "barrier_wakeup [] running = Inr running"
| "barrier_wakeup (w # ws) running = res_bind (dl_insert_tail w running) (barrier_wakeup ws)"

definition barrier_reach :: "nat \<Rightarrow> si_work_group_t \<Rightarrow> si_work_group_t res" where
  "barrier_reach w g =
     res_bind (dl_remove w (wg_running g)) (\<lambda>running.
     res_bind (dl_insert_tail w (wg_barrier g)) (\<lambda>barrier.
       let g = g\<lparr>wg_running := running, wg_barrier := barrier\<rparr>
       in if length (wg_barrier g) = wg_wavefront_count g
          then res_bind (barrier_wakeup (wg_barrier g) (wg_running g)) (\<lambda>running.
                 let g = g\<lparr>wg_running := running, wg_barrier := []\<rparr>
                 in if length (wg_running g) \<noteq> wg_wavefront_count g then Inl Assert_failed else Inr g)
          else Inr g))"

definition S_BARRIER_impl :: "si_ctx \<Rightarrow> si_ctx res" where
  "S_BARRIER_impl c = res_bind (barrier_reach (wf_id (cx_wave c)) (cx_group c)) (\<lambda>g. Inr (c\<lparr>cx_group := g\<rparr>))"

definition S_WAITCNT_impl :: "si_ctx \<Rightarrow> si_ctx res" where
  "S_WAITCNT_impl c = Inr c"

end
