(* ===== verification/SI_Vector.thy ===== *)
theory SI_Vector
  imports SI_Scalar
begin

text \<open>
  Vector instructions of the Southern Islands emulator
  (\<open>src/arch/southern-islands/emu/machine.c\<close>), executed by one work-item. Floating point is a
  parameter: the operations of the host on the bit patterns of single-precision numbers
  (\<open>fp_ops\<close>); negation, which only flips the sign bit, is written out. A load of fewer than four
  bytes goes into an uninitialised local variable, whose value is the parameter \<open>junk\<close>.
\<close>

section \<open>Microcode formats\<close>

record si_fmt_vop2_t =
  vop2_src0 :: nat
  vop2_vsrc1 :: nat
  vop2_vdst :: nat
  vop2_lit_cnst :: u32

definition SI_INST_VOP2 :: "64 word \<Rightarrow> si_fmt_vop2_t" where
  "SI_INST_VOP2 w = \<lparr>vop2_src0 = bits w 0 9, vop2_vsrc1 = bits w 9 8, vop2_vdst = bits w 17 8,
     vop2_lit_cnst = lit_cnst w\<rparr>"

record si_fmt_vop1_t =
  vop1_src0 :: nat
  vop1_vdst :: nat
  vop1_lit_cnst :: u32

definition SI_INST_VOP1 :: "64 word \<Rightarrow> si_fmt_vop1_t" where
  "SI_INST_VOP1 w = \<lparr>vop1_src0 = bits w 0 9, vop1_vdst = bits w 17 8, vop1_lit_cnst = lit_cnst w\<rparr>"

record si_fmt_vopc_t =
  vopc_src0 :: nat
  vopc_vsrc1 :: nat
  vopc_lit_cnst :: u32

definition SI_INST_VOPC :: "64 word \<Rightarrow> si_fmt_vopc_t" where
  "SI_INST_VOPC w = \<lparr>vopc_src0 = bits w 0 9, vopc_vsrc1 = bits w 9 8, vopc_lit_cnst = lit_cnst w\<rparr>"

record si_fmt_vop3a_t =
  vop3a_vdst :: nat
  vop3a_src0 :: nat
  vop3a_src1 :: nat
  vop3a_src2 :: nat
  vop3a_neg :: nat

definition SI_INST_VOP3a :: "64 word \<Rightarrow> si_fmt_vop3a_t" where
  "SI_INST_VOP3a w = \<lparr>vop3a_vdst = bits w 0 8, vop3a_src0 = bits w 32 9, vop3a_src1 = bits w 41 9,
     vop3a_src2 = bits w 50 9, vop3a_neg = bits w 61 3\<rparr>"

record si_fmt_vop3b_t =
  vop3b_vdst :: nat
  vop3b_sdst :: nat
  vop3b_src0 :: nat
  vop3b_src1 :: nat
  vop3b_src2 :: nat
  vop3b_neg :: nat

definition SI_INST_VOP3b :: "64 word \<Rightarrow> si_fmt_vop3b_t" where
  "SI_INST_VOP3b w = \<lparr>vop3b_vdst = bits w 0 8, vop3b_sdst = bits w 8 7, vop3b_src0 = bits w 32 9,
     vop3b_src1 = bits w 41 9, vop3b_src2 = bits w 50 9, vop3b_neg = bits w 61 3\<rparr>"

record si_fmt_ds_t =
  ds_gds :: bool
  ds_addr :: nat
  ds_data0 :: nat
  ds_vdst :: nat

definition SI_INST_DS :: "64 word \<Rightarrow> si_fmt_ds_t" where
  "SI_INST_DS w = \<lparr>ds_gds = (bits w 17 1 = 1), ds_addr = bits w 32 8, ds_data0 = bits w 40 8,
     ds_vdst = bits w 56 8\<rparr>"

record si_fmt_mtbuf_t =
  mtbuf_offset :: nat
  mtbuf_offen :: bool
  mtbuf_index :: bool
  mtbuf_addr64 :: bool
  mtbuf_dfmt :: nat
  mtbuf_vaddr :: nat
  mtbuf_vdata :: nat
  mtbuf_srsrc :: nat

definition SI_INST_MTBUF :: "64 word \<Rightarrow> si_fmt_mtbuf_t" where
  "SI_INST_MTBUF w = \<lparr>mtbuf_offset = bits w 0 12, mtbuf_offen = (bits w 12 1 = 1),
     mtbuf_index = (bits w 13 1 = 1), mtbuf_addr64 = (bits w 15 1 = 1), mtbuf_dfmt = bits w 19 4,
     mtbuf_vaddr = bits w 32 8, mtbuf_vdata = bits w 40 8, mtbuf_srsrc = bits w 48 5\<rparr>"

section \<open>Floating point\<close>

record fp_ops =
  fp_add :: "u32 \<Rightarrow> u32 \<Rightarrow> u32"
  fp_mul :: "u32 \<Rightarrow> u32 \<Rightarrow> u32"
  fp_rcp :: "u32 \<Rightarrow> u32"
  fp_of_int :: "u32 \<Rightarrow> u32"
  fp_of_uint :: "u32 \<Rightarrow> u32"
  fp_to_int :: "u32 \<Rightarrow> u32"
  fp_to_uint :: "u32 \<Rightarrow> u32"

definition fp_neg :: "u32 \<Rightarrow> u32" where
  "fp_neg x = x XOR 0x80000000"

section \<open>Operands\<close>

text \<open>An operand that is the literal constant when its field is \<open>0xFF\<close>, and the register otherwise.\<close>

definition vector_src :: "si_ctx \<Rightarrow> nat \<Rightarrow> u32 \<Rightarrow> u32" where
  "vector_src c src lit = (if src = 0xFF then lit else si_isa_read_reg c src)"

definition vector_vsrc :: "si_ctx \<Rightarrow> nat \<Rightarrow> u32 \<Rightarrow> u32" where
  "vector_vsrc c vsrc lit = (if vsrc = 0xFF then lit else si_isa_read_vreg c vsrc)"

definition vop2_srcs :: "si_fmt_vop2_t \<Rightarrow> si_ctx \<Rightarrow> (u32 \<times> u32) res" where
  "vop2_srcs i c =
     (if vop2_src0 i = 0xFF \<and> vop2_vsrc1 i = 0xFF then Inl Assert_failed
      else Inr (vector_src c (vop2_src0 i) (vop2_lit_cnst i), vector_vsrc c (vop2_vsrc1 i) (vop2_lit_cnst i)))"

text \<open>In a floating-point instruction the literal is converted from an unsigned integer.\<close>

definition vop2_fsrcs :: "fp_ops \<Rightarrow> si_fmt_vop2_t \<Rightarrow> si_ctx \<Rightarrow> (u32 \<times> u32) res" where
  "vop2_fsrcs fp i c =
     (if vop2_src0 i = 0xFF \<and> vop2_vsrc1 i = 0xFF then Inl Assert_failed
      else Inr (vector_src c (vop2_src0 i) (fp_of_uint fp (vop2_lit_cnst i)),
                vector_vsrc c (vop2_vsrc1 i) (fp_of_uint fp (vop2_lit_cnst i))))"

definition vopc_srcs :: "si_fmt_vopc_t \<Rightarrow> si_ctx \<Rightarrow> (u32 \<times> u32) res" where
  "vopc_srcs i c =
     (if vopc_src0 i = 0xFF \<and> vopc_vsrc1 i = 0xFF then Inl Assert_failed
      else Inr (vector_src c (vopc_src0 i) (vopc_lit_cnst i), vector_vsrc c (vopc_vsrc1 i) (vopc_lit_cnst i)))"

text \<open>The integer negation modifiers.\<close>

definition neg_mod :: "nat \<Rightarrow> nat \<Rightarrow> u32 \<Rightarrow> u32" where
  "neg_mod neg k s = (if bit neg k then - s else s)"

definition vop3a_srcs :: "si_fmt_vop3a_t \<Rightarrow> si_ctx \<Rightarrow> u32 \<times> u32" where
  "vop3a_srcs i c = (neg_mod (vop3a_neg i) 0 (si_isa_read_reg c (vop3a_src0 i)),
                     neg_mod (vop3a_neg i) 1 (si_isa_read_reg c (vop3a_src1 i)))"

definition vop3b_srcs :: "si_fmt_vop3b_t \<Rightarrow> si_ctx \<Rightarrow> u32 \<times> u32" where
  "vop3b_srcs i c = (neg_mod (vop3b_neg i) 0 (si_isa_read_reg c (vop3b_src0 i)),
                     neg_mod (vop3b_neg i) 1 (si_isa_read_reg c (vop3b_src1 i)))"

section \<open>VOP1\<close>

definition V_MOV_B32_VOP1_impl :: "si_fmt_vop1_t \<Rightarrow> si_ctx \<Rightarrow> si_ctx res" where
  "V_MOV_B32_VOP1_impl i c =
     Inr (si_isa_write_vreg (vop1_vdst i) (vector_src c (vop1_src0 i) (vop1_lit_cnst i)) c)"

definition V_CVT_F32_I32_impl :: "fp_ops \<Rightarrow> si_fmt_vop1_t \<Rightarrow> si_ctx \<Rightarrow> si_ctx res" where
  "V_CVT_F32_I32_impl fp i c =
     (let v = (if vop1_src0 i = 0xFF then fp_of_uint fp (vop1_lit_cnst i)
               else fp_of_int fp (si_isa_read_reg c (vop1_src0 i)))
      in Inr (si_isa_write_vreg (vop1_vdst i) v c))"

definition V_CVT_F32_U32_impl :: "fp_ops \<Rightarrow> si_fmt_vop1_t \<Rightarrow> si_ctx \<Rightarrow> si_ctx res" where
  "V_CVT_F32_U32_impl fp i c =
     (let v = (if vop1_src0 i = 0xFF then fp_of_uint fp (vop1_lit_cnst i)
               else fp_of_uint fp (si_isa_read_reg c (vop1_src0 i)))
      in Inr (si_isa_write_vreg (vop1_vdst i) v c))"

definition V_CVT_U32_F32_impl :: "fp_ops \<Rightarrow> si_fmt_vop1_t \<Rightarrow> si_ctx \<Rightarrow> si_ctx res" where
  "V_CVT_U32_F32_impl fp i c =
     (let v = (if vop1_src0 i = 0xFF then vop1_lit_cnst i
               else fp_to_uint fp (si_isa_read_reg c (vop1_src0 i)))
      in Inr (si_isa_write_vreg (vop1_vdst i) v c))"

definition V_CVT_I32_F32_impl :: "fp_ops \<Rightarrow> si_fmt_vop1_t \<Rightarrow> si_ctx \<Rightarrow> si_ctx res" where
  "V_CVT_I32_F32_impl fp i c =
     (let v = (if vop1_src0 i = 0xFF then vop1_lit_cnst i
               else fp_to_int fp (si_isa_read_reg c (vop1_src0 i)))
      in Inr (si_isa_write_vreg (vop1_vdst i) v c))"

definition V_RCP_F32_impl :: "fp_ops \<Rightarrow> si_fmt_vop1_t \<Rightarrow> si_ctx \<Rightarrow> si_ctx res" where
  "V_RCP_F32_impl fp i c =
     (let v = (if vop1_src0 i = 0xFF then fp_rcp fp (fp_of_uint fp (vop1_lit_cnst i))
               else fp_rcp fp (si_isa_read_reg c (vop1_src0 i)))
      in Inr (si_isa_write_vreg (vop1_vdst i) v c))"

section \<open>VOP2\<close>

definition V_ADD_F32_impl :: "fp_ops \<Rightarrow> si_fmt_vop2_t \<Rightarrow> si_ctx \<Rightarrow> si_ctx res" where
  "V_ADD_F32_impl fp i c =
     res_bind (vop2_fsrcs fp i c) (\<lambda>(s0, s1). Inr (si_isa_write_vreg (vop2_vdst i) (fp_add fp s0 s1) c))"

definition V_MUL_F32_impl :: "fp_ops \<Rightarrow> si_fmt_vop2_t \<Rightarrow> si_ctx \<Rightarrow> si_ctx res" where
  "V_MUL_F32_impl fp i c =
     res_bind (vop2_fsrcs fp i c) (\<lambda>(s0, s1). Inr (si_isa_write_vreg (vop2_vdst i) (fp_mul fp s0 s1) c))"

definition V_MUL_I32_I24_impl :: "si_fmt_vop2_t \<Rightarrow> si_ctx \<Rightarrow> si_ctx res" where
  "V_MUL_I32_I24_impl i c =
     res_bind (vop2_srcs i c) (\<lambda>(s0, s1).
       Inr (si_isa_write_vreg (vop2_vdst i) ((s0 AND 0xFFFFFF) * (s1 AND 0xFFFFFF)) c))"

definition V_LSHLREV_B32_impl :: "si_fmt_vop2_t \<Rightarrow> si_ctx \<Rightarrow> si_ctx res" where
  "V_LSHLREV_B32_impl i c =
     res_bind (vop2_srcs i c) (\<lambda>(s0, s1).
       Inr (si_isa_write_vreg (vop2_vdst i) (push_bit (unat (s0 AND 0x1F)) s1) c))"

definition V_OR_B32_impl :: "si_fmt_vop2_t \<Rightarrow> si_ctx \<Rightarrow> si_ctx res" where
  "V_OR_B32_impl i c =
     res_bind (vop2_srcs i c) (\<lambda>(s0, s1). Inr (si_isa_write_vreg (vop2_vdst i) (s0 OR s1) c))"

definition V_MAC_F32_impl :: "fp_ops \<Rightarrow> si_fmt_vop2_t \<Rightarrow> si_ctx \<Rightarrow> si_ctx res" where
  "V_MAC_F32_impl fp i c =
     res_bind (vop2_fsrcs fp i c) (\<lambda>(s0, s1).
       let d = si_isa_read_vreg c (vop2_vdst i)
       in Inr (si_isa_write_vreg (vop2_vdst i) (fp_add fp (fp_mul fp s0 s1) d) c))"

text \<open>The carry of a sum is computed in 64 bits.\<close>

definition carry_out3 :: "u32 \<Rightarrow> u32 \<Rightarrow> u32 \<Rightarrow> u32" where
  "carry_out3 s0 s1 cin = of_bool (drop_bit 32 (ucast s0 + ucast s1 + ucast cin :: 64 word) \<noteq> 0)"

definition V_ADD_I32_impl :: "si_fmt_vop2_t \<Rightarrow> si_ctx \<Rightarrow> si_ctx res" where
  "V_ADD_I32_impl i c =
     res_bind (vop2_srcs i c) (\<lambda>(s0, s1).
       let carry = of_bool (drop_bit 32 (ucast s0 + ucast s1 :: 64 word) \<noteq> 0)
       in Inr (si_isa_bitmask_sreg SI_VCC carry (si_isa_write_vreg (vop2_vdst i) (s0 + s1) c)))"

definition V_SUB_I32_impl :: "si_fmt_vop2_t \<Rightarrow> si_ctx \<Rightarrow> si_ctx res" where
  "V_SUB_I32_impl i c =
     res_bind (vop2_srcs i c) (\<lambda>(s0, s1).
       Inr (si_isa_bitmask_sreg SI_VCC (of_bool (s1 > s0)) (si_isa_write_vreg (vop2_vdst i) (s0 - s1) c)))"

section \<open>VOP3a\<close>

definition V_CNDMASK_B32_VOP3a_impl :: "si_fmt_vop3a_t \<Rightarrow> si_ctx \<Rightarrow> si_ctx res" where
  "V_CNDMASK_B32_VOP3a_impl i c =
     (let s0 = si_isa_read_reg c (vop3a_src0 i); s1 = si_isa_read_reg c (vop3a_src1 i);
          vcci = si_isa_read_bitmask_sreg c (vop3a_src2 i)
      in if vop3a_neg i \<noteq> 0 then Inl Assert_failed
         else Inr (si_isa_write_vreg (vop3a_vdst i) (if vcci \<noteq> 0 then s1 else s0) c))"

definition V_MAD_F32_impl :: "fp_ops \<Rightarrow> si_fmt_vop3a_t \<Rightarrow> si_ctx \<Rightarrow> si_ctx res" where
  "V_MAD_F32_impl fp i c =
     (let s0 = si_isa_read_reg c (vop3a_src0 i); s1 = si_isa_read_reg c (vop3a_src1 i);
          s2 = si_isa_read_reg c (vop3a_src2 i);
          s0 = (if bit (vop3a_neg i) 0 then fp_neg s0 else s0);
          s1 = (if bit (vop3a_neg i) 1 then fp_neg s1 else s1);
          s2 = (if bit (vop3a_neg i) 2 then fp_neg s2 else s2)
      in Inr (si_isa_write_vreg (vop3a_vdst i) (fp_add fp (fp_mul fp s0 s1) s2) c))"

definition V_MUL_LO_U32_impl :: "si_fmt_vop3a_t \<Rightarrow> si_ctx \<Rightarrow> si_ctx res" where
  "V_MUL_LO_U32_impl i c =
     (let (s0, s1) = vop3a_srcs i c in Inr (si_isa_write_vreg (vop3a_vdst i) (s0 * s1) c))"

definition V_MUL_HI_U32_impl :: "si_fmt_vop3a_t \<Rightarrow> si_ctx \<Rightarrow> si_ctx res" where
  "V_MUL_HI_U32_impl i c =
     (let (s0, s1) = vop3a_srcs i c
      in Inr (si_isa_write_vreg (vop3a_vdst i) (ucast (drop_bit 32 (ucast s0 * ucast s1 :: 64 word))) c))"

definition V_MUL_LO_I32_impl :: "si_fmt_vop3a_t \<Rightarrow> si_ctx \<Rightarrow> si_ctx res" where
  "V_MUL_LO_I32_impl i c =
     (let (s0, s1) = vop3a_srcs i c
      in Inr (si_isa_write_vreg (vop3a_vdst i) (of_int (sint s0 * sint s1)) c))"

section \<open>VOPC\<close>

definition V_CMP_LT_I32_impl :: "si_fmt_vopc_t \<Rightarrow> si_ctx \<Rightarrow> si_ctx res" where
  "V_CMP_LT_I32_impl i c =
     res_bind (vopc_srcs i c) (\<lambda>(s0, s1). Inr (si_isa_bitmask_sreg SI_VCC (of_bool (sint s0 < sint s1)) c))"

definition V_CMP_GT_I32_impl :: "si_fmt_vopc_t \<Rightarrow> si_ctx \<Rightarrow> si_ctx res" where
  "V_CMP_GT_I32_impl i c =
     res_bind (vopc_srcs i c) (\<lambda>(s0, s1). Inr (si_isa_bitmask_sreg SI_VCC (of_bool (sint s0 > sint s1)) c))"

definition V_CMP_NE_I32_impl :: "si_fmt_vopc_t \<Rightarrow> si_ctx \<Rightarrow> si_ctx res" where
  "V_CMP_NE_I32_impl i c =
     res_bind (vopc_srcs i c) (\<lambda>(s0, s1). Inr (si_isa_bitmask_sreg SI_VCC (of_bool (sint s0 \<noteq> sint s1)) c))"

definition V_CMP_LE_U32_impl :: "si_fmt_vopc_t \<Rightarrow> si_ctx \<Rightarrow> si_ctx res" where
  "V_CMP_LE_U32_impl i c =
     res_bind (vopc_srcs i c) (\<lambda>(s0, s1). Inr (si_isa_bitmask_sreg SI_VCC (of_bool (s0 \<le> s1)) c))"

section \<open>VOP3b\<close>

definition V_CMP_GT_I32_VOP3b_impl :: "si_fmt_vop3b_t \<Rightarrow> si_ctx \<Rightarrow> si_ctx res" where
  "V_CMP_GT_I32_VOP3b_impl i c =
     (let (s0, s1) = vop3b_srcs i c in Inr (si_isa_bitmask_sreg (vop3b_vdst i) (of_bool (sint s0 > sint s1)) c))"

definition V_CMP_NE_I32_VOP3b_impl :: "si_fmt_vop3b_t \<Rightarrow> si_ctx \<Rightarrow> si_ctx res" where
  "V_CMP_NE_I32_VOP3b_impl i c =
     (let (s0, s1) = vop3b_srcs i c in Inr (si_isa_bitmask_sreg (vop3b_vdst i) (of_bool (sint s0 \<noteq> sint s1)) c))"

definition V_CMP_GE_U32_VOP3b_impl :: "si_fmt_vop3b_t \<Rightarrow> si_ctx \<Rightarrow> si_ctx res" where
  "V_CMP_GE_U32_VOP3b_impl i c =
     (let (s0, s1) = vop3b_srcs i c in Inr (si_isa_bitmask_sreg (vop3b_vdst i) (of_bool (s0 \<ge> s1)) c))"

definition V_ADDC_U32_VOP3b_impl :: "si_fmt_vop3b_t \<Rightarrow> si_ctx \<Rightarrow> si_ctx res" where
  "V_ADDC_U32_VOP3b_impl i c =
     (let (s0, s1) = vop3b_srcs i c; carry_in = si_isa_read_bitmask_sreg c (vop3b_src2 i)
      in if bit (vop3b_neg i) 2 then Inl Assert_failed
         else Inr (si_isa_bitmask_sreg (vop3b_sdst i) (carry_out3 s0 s1 carry_in)
                (si_isa_write_vreg (vop3b_vdst i) (s0 + s1 + carry_in) c)))"

section \<open>DS\<close>

definition DS_WRITE_B32_impl :: "si_fmt_ds_t \<Rightarrow> si_ctx \<Rightarrow> si_ctx res" where
  "DS_WRITE_B32_impl i c =
     (let addr = si_isa_read_vreg c (ds_addr i); data0 = si_isa_read_vreg c (ds_data0 i)
      in if ds_gds i
         then res_bind (mem_write (cx_global c) addr 4 (reg_bytes data0 4)) (\<lambda>mem. Inr (c\<lparr>cx_global := mem\<rparr>))
         else res_bind (mem_write (wg_local_mem (cx_group c)) addr 4 (reg_bytes data0 4)) (\<lambda>mem.
           Inr (c\<lparr>cx_group := (cx_group c)\<lparr>wg_local_mem := mem\<rparr>\<rparr>)))"

definition DS_READ_B32_impl :: "si_fmt_ds_t \<Rightarrow> si_ctx \<Rightarrow> si_ctx res" where
  "DS_READ_B32_impl i c =
     (let addr = si_isa_read_vreg c (ds_addr i)
      in if ds_gds i
         then res_bind (mem_read (cx_global c) addr 4) (\<lambda>(mem, bs).
           Inr (si_isa_write_vreg (ds_vdst i) (reg_of_bytes bs 0) (c\<lparr>cx_global := mem\<rparr>)))
         else res_bind (mem_read (wg_local_mem (cx_group c)) addr 4) (\<lambda>(mem, bs).
           Inr (si_isa_write_vreg (ds_vdst i) (reg_of_bytes bs 0)
                  (c\<lparr>cx_group := (cx_group c)\<lparr>wg_local_mem := mem\<rparr>\<rparr>))))"

section \<open>MTBUF\<close>

text \<open>The checks on the mode bits, the offset, and the sizes of the format, in the order of the
  code; the descriptor of the buffer that is read next is not used.\<close>

definition mtbuf_setup :: "si_fmt_mtbuf_t \<Rightarrow> si_ctx \<Rightarrow> (u32 \<times> nat \<times> nat) res" where
  "mtbuf_setup i c =
     (if mtbuf_addr64 i \<or> mtbuf_index i then Inl Assert_failed
      else
        let offset = (if mtbuf_offen i then si_isa_read_vreg c (mtbuf_vaddr i) else of_nat (mtbuf_offset i))
        in res_bind (si_isa_get_elem_size (mtbuf_dfmt i)) (\<lambda>elem_size.
             res_bind (si_isa_get_num_elems (mtbuf_dfmt i)) (\<lambda>num_elems.
               Inr (offset, elem_size, num_elems))))"

definition T_BUFFER_LOAD_FORMAT_X_impl :: "u32 \<Rightarrow> si_fmt_mtbuf_t \<Rightarrow> si_ctx \<Rightarrow> si_ctx res" where
  "T_BUFFER_LOAD_FORMAT_X_impl junk i c =
     res_bind (mtbuf_setup i c) (\<lambda>(offset, elem_size, num_elems).
       if num_elems \<noteq> 1 then Inl Assert_failed
       else res_bind (mem_read (cx_global c) offset (elem_size * num_elems)) (\<lambda>(mem, bs).
         Inr (si_isa_write_vreg (mtbuf_vdata i) (reg_of_bytes bs junk) (c\<lparr>cx_global := mem\<rparr>))))"

text \<open>The loops that load and store \<open>n\<close> registers, from index \<open>k\<close>.\<close>

fun mtbuf_load :: "u32 \<Rightarrow> nat \<Rightarrow> nat \<Rightarrow> nat \<Rightarrow> si_ctx \<Rightarrow> si_ctx res" where
  "mtbuf_load offset vdata k 0 c = Inr c"
| "mtbuf_load offset vdata k (Suc n) c =
     res_bind (mem_read (cx_global c) (offset + 4 * of_nat k) 4) (\<lambda>(mem, bs).
       mtbuf_load offset vdata (k + 1) n
         (si_isa_write_vreg (vdata + k) (reg_of_bytes bs 0) (c\<lparr>cx_global := mem\<rparr>)))"

fun mtbuf_store :: "u32 \<Rightarrow> nat \<Rightarrow> nat \<Rightarrow> nat \<Rightarrow> si_ctx \<Rightarrow> si_ctx res" where
  "mtbuf_store offset vdata k 0 c = Inr c"
| "mtbuf_store offset vdata k (Suc n) c =
     res_bind (mem_write (cx_global c) (offset + 4 * of_nat k) 4 (reg_bytes (si_isa_read_vreg c (vdata + k)) 4))
       (\<lambda>mem. mtbuf_store offset vdata (k + 1) n (c\<lparr>cx_global := mem\<rparr>))"

definition T_BUFFER_LOAD_FORMAT_XYZW_impl :: "si_fmt_mtbuf_t \<Rightarrow> si_ctx \<Rightarrow> si_ctx res" where
  "T_BUFFER_LOAD_FORMAT_XYZW_impl i c =
     res_bind (mtbuf_setup i c) (\<lambda>(offset, elem_size, num_elems).
       if num_elems \<noteq> 4 \<or> elem_size \<noteq> 4 then Inl Assert_failed
       else mtbuf_load offset (mtbuf_vdata i) 0 4 c)"

definition T_BUFFER_STORE_FORMAT_X_impl :: "si_fmt_mtbuf_t \<Rightarrow> si_ctx \<Rightarrow> si_ctx res" where
  "T_BUFFER_STORE_FORMAT_X_impl i c =
     res_bind (mtbuf_setup i c) (\<lambda>(offset, elem_size, num_elems).
       if num_elems \<noteq> 1 then Inl Assert_failed
       else
         let n = elem_size * num_elems
         in res_bind (mem_write (cx_global c) offset n (reg_bytes (si_isa_read_vreg c (mtbuf_vdata i)) n))
              (\<lambda>mem. Inr (c\<lparr>cx_global := mem\<rparr>)))"

definition T_BUFFER_STORE_FORMAT_XYZW_impl :: "si_fmt_mtbuf_t \<Rightarrow> si_ctx \<Rightarrow> si_ctx res" where
  "T_BUFFER_STORE_FORMAT_XYZW_impl i c =
     res_bind (mtbuf_setup i c) (\<lambda>(offset, elem_size, num_elems).
       if num_elems \<noteq> 4 \<or> elem_size \<noteq> 4 then Inl Assert_failed
       else mtbuf_store offset (mtbuf_vdata i) 0 4 c)"

end
