(* ===== verification/SI_Decode.thy ===== *)
theory SI_Decode
  imports SI_Vector
begin

text \<open>
  The instruction decoder of Southern Islands (\<open>src/arch/southern-islands/asm/asm.c\<close>) with the
  instruction table of \<open>southern-islands-asm.dat\<close>. The table is writable: the decoder stores the
  size of an instruction with a literal constant in the entry of its opcode. The sizes are
  therefore a state that the decoder takes and returns.
\<close>

section \<open>Instruction table\<close>

datatype si_fmt_enum =
    SI_FMT_SOP2 | SI_FMT_SOPK | SI_FMT_SOP1 | SI_FMT_SOPC | SI_FMT_SOPP | SI_FMT_SMRD
  | SI_FMT_VOP2 | SI_FMT_VOP1 | SI_FMT_VOPC | SI_FMT_VOP3a | SI_FMT_VOP3b
  | SI_FMT_VINTRP | SI_FMT_DS | SI_FMT_MUBUF | SI_FMT_MTBUF | SI_FMT_MIMG

datatype si_inst_enum =
    SI_INST_S_ADD_I32 | SI_INST_S_MIN_U32 | SI_INST_S_AND_B32 | SI_INST_S_AND_B64
  | SI_INST_S_ANDN2_B64 | SI_INST_S_LSHL_B32 | SI_INST_S_LSHR_B32 | SI_INST_S_ASHR_I32
  | SI_INST_S_MUL_I32 | SI_INST_S_MOVK_I32 | SI_INST_S_ADDK_I32 | SI_INST_S_MULK_I32
  | SI_INST_S_MOV_B32 | SI_INST_S_MOV_B64 | SI_INST_S_AND_SAVEEXEC_B64 | SI_INST_S_CMP_EQ_I32
  | SI_INST_S_CMP_LE_U32 | SI_INST_S_ENDPGM | SI_INST_S_BRANCH | SI_INST_S_CBRANCH_SCC0
  | SI_INST_S_CBRANCH_SCC1 | SI_INST_S_CBRANCH_VCCZ | SI_INST_S_CBRANCH_EXECZ | SI_INST_S_BARRIER
  | SI_INST_S_WAITCNT | SI_INST_S_LOAD_DWORDX4 | SI_INST_S_BUFFER_LOAD_DWORD
  | SI_INST_S_BUFFER_LOAD_DWORDX2 | SI_INST_V_CNDMASK_B32_VOP3a | SI_INST_V_MAD_F32
  | SI_INST_V_MUL_LO_U32 | SI_INST_V_MUL_HI_U32 | SI_INST_V_MUL_LO_I32
  | SI_INST_V_CMP_GT_I32_VOP3b | SI_INST_V_CMP_NE_I32_VOP3b | SI_INST_V_CMP_GE_U32_VOP3b
  | SI_INST_V_ADDC_U32_VOP3b | SI_INST_V_CMP_LT_I32 | SI_INST_V_CMP_GT_I32 | SI_INST_V_CMP_NE_I32
  | SI_INST_V_CMP_LE_U32 | SI_INST_V_MOV_B32_VOP1 | SI_INST_V_CVT_F32_I32 | SI_INST_V_CVT_F32_U32
  | SI_INST_V_CVT_U32_F32 | SI_INST_V_CVT_I32_F32 | SI_INST_V_RCP_F32 | SI_INST_V_ADD_F32
  | SI_INST_V_MUL_F32 | SI_INST_V_MUL_I32_I24 | SI_INST_V_LSHLREV_B32 | SI_INST_V_OR_B32
  | SI_INST_V_MAC_F32 | SI_INST_V_ADD_I32 | SI_INST_V_SUB_I32 | SI_INST_DS_WRITE_B32
  | SI_INST_DS_READ_B32 | SI_INST_T_BUFFER_LOAD_FORMAT_X | SI_INST_T_BUFFER_LOAD_FORMAT_XYZW
  | SI_INST_T_BUFFER_STORE_FORMAT_X | SI_INST_T_BUFFER_STORE_FORMAT_XYZW

text \<open>Format, opcode and initial size of every instruction.\<close>

definition si_inst_info :: "(si_inst_enum \<times> si_fmt_enum \<times> nat \<times> nat) list" where
  "si_inst_info =
    [(SI_INST_S_ADD_I32, SI_FMT_SOP2, 2, 4),
     (SI_INST_S_MIN_U32, SI_FMT_SOP2, 7, 4),
     (SI_INST_S_AND_B32, SI_FMT_SOP2, 14, 4),
     (SI_INST_S_AND_B64, SI_FMT_SOP2, 15, 4),
     (SI_INST_S_ANDN2_B64, SI_FMT_SOP2, 21, 4),
     (SI_INST_S_LSHL_B32, SI_FMT_SOP2, 30, 4),
     (SI_INST_S_LSHR_B32, SI_FMT_SOP2, 32, 4),
     (SI_INST_S_ASHR_I32, SI_FMT_SOP2, 34, 4),
     (SI_INST_S_MUL_I32, SI_FMT_SOP2, 38, 4),
     (SI_INST_S_MOVK_I32, SI_FMT_SOPK, 0, 4),
     (SI_INST_S_ADDK_I32, SI_FMT_SOPK, 15, 4),
     (SI_INST_S_MULK_I32, SI_FMT_SOPK, 16, 4),
     (SI_INST_S_MOV_B32, SI_FMT_SOP1, 3, 4),
     (SI_INST_S_MOV_B64, SI_FMT_SOP1, 4, 4),
     (SI_INST_S_AND_SAVEEXEC_B64, SI_FMT_SOP1, 36, 4),
     (SI_INST_S_CMP_EQ_I32, SI_FMT_SOPC, 0, 4),
     (SI_INST_S_CMP_LE_U32, SI_FMT_SOPC, 11, 4),
     (SI_INST_S_ENDPGM, SI_FMT_SOPP, 1, 4),
     (SI_INST_S_BRANCH, SI_FMT_SOPP, 2, 4),
     (SI_INST_S_CBRANCH_SCC0, SI_FMT_SOPP, 4, 4),
     (SI_INST_S_CBRANCH_SCC1, SI_FMT_SOPP, 5, 4),
     (SI_INST_S_CBRANCH_VCCZ, SI_FMT_SOPP, 6, 4),
     (SI_INST_S_CBRANCH_EXECZ, SI_FMT_SOPP, 8, 4),
     (SI_INST_S_BARRIER, SI_FMT_SOPP, 10, 4),
     (SI_INST_S_WAITCNT, SI_FMT_SOPP, 12, 4),
     (SI_INST_S_LOAD_DWORDX4, SI_FMT_SMRD, 2, 4),
     (SI_INST_S_BUFFER_LOAD_DWORD, SI_FMT_SMRD, 8, 4),
     (SI_INST_S_BUFFER_LOAD_DWORDX2, SI_FMT_SMRD, 9, 4),
     (SI_INST_V_CNDMASK_B32_VOP3a, SI_FMT_VOP3a, 256, 8),
     (SI_INST_V_MAD_F32, SI_FMT_VOP3a, 321, 8),
     (SI_INST_V_MUL_LO_U32, SI_FMT_VOP3a, 361, 8),
     (SI_INST_V_MUL_HI_U32, SI_FMT_VOP3a, 362, 8),
     (SI_INST_V_MUL_LO_I32, SI_FMT_VOP3a, 363, 8),
     (SI_INST_V_CMP_GT_I32_VOP3b, SI_FMT_VOP3b, 132, 8),
     (SI_INST_V_CMP_NE_I32_VOP3b, SI_FMT_VOP3b, 133, 8),
     (SI_INST_V_CMP_GE_U32_VOP3b, SI_FMT_VOP3b, 198, 8),
     (SI_INST_V_ADDC_U32_VOP3b, SI_FMT_VOP3b, 296, 8),
     (SI_INST_V_CMP_LT_I32, SI_FMT_VOPC, 129, 4),
     (SI_INST_V_CMP_GT_I32, SI_FMT_VOPC, 132, 4),
     (SI_INST_V_CMP_NE_I32, SI_FMT_VOPC, 133, 4),
     (SI_INST_V_CMP_LE_U32, SI_FMT_VOPC, 195, 4),
     (SI_INST_V_MOV_B32_VOP1, SI_FMT_VOP1, 1, 4),
     (SI_INST_V_CVT_F32_I32, SI_FMT_VOP1, 5, 4),
     (SI_INST_V_CVT_F32_U32, SI_FMT_VOP1, 6, 4),
     (SI_INST_V_CVT_U32_F32, SI_FMT_VOP1, 7, 4),
     (SI_INST_V_CVT_I32_F32, SI_FMT_VOP1, 8, 4),
     (SI_INST_V_RCP_F32, SI_FMT_VOP1, 42, 4),
     (SI_INST_V_ADD_F32, SI_FMT_VOP2, 3, 4),
     (SI_INST_V_MUL_F32, SI_FMT_VOP2, 8, 4),
     (SI_INST_V_MUL_I32_I24, SI_FMT_VOP2, 9, 4),
     (SI_INST_V_LSHLREV_B32, SI_FMT_VOP2, 26, 4),
     (SI_INST_V_OR_B32, SI_FMT_VOP2, 28, 4),
     (SI_INST_V_MAC_F32, SI_FMT_VOP2, 31, 4),
     (SI_INST_V_ADD_I32, SI_FMT_VOP2, 37, 4),
     (SI_INST_V_SUB_I32, SI_FMT_VOP2, 38, 4),
     (SI_INST_DS_WRITE_B32, SI_FMT_DS, 13, 8),
     (SI_INST_DS_READ_B32, SI_FMT_DS, 54, 8),
     (SI_INST_T_BUFFER_LOAD_FORMAT_X, SI_FMT_MTBUF, 0, 8),
     (SI_INST_T_BUFFER_LOAD_FORMAT_XYZW, SI_FMT_MTBUF, 3, 8),
     (SI_INST_T_BUFFER_STORE_FORMAT_X, SI_FMT_MTBUF, 4, 8),
     (SI_INST_T_BUFFER_STORE_FORMAT_XYZW, SI_FMT_MTBUF, 7, 8)]"

definition info_of :: "si_inst_enum \<Rightarrow> si_fmt_enum \<times> nat \<times> nat" where
  "info_of i = the (map_of si_inst_info i)"

definition inst_fmt :: "si_inst_enum \<Rightarrow> si_fmt_enum" where
  "inst_fmt i = fst (info_of i)"

definition inst_sizes :: "si_inst_enum \<Rightarrow> nat" where
  "inst_sizes i = snd (snd (info_of i))"

text \<open>
  The table of the opcodes of a format, as \<open>si_disasm_init\<close> fills it: a later entry overwrites an
  earlier one.
\<close>

fun opcode_table :: "(si_inst_enum \<times> si_fmt_enum \<times> nat \<times> nat) list \<Rightarrow> (si_fmt_enum \<Rightarrow> bool) \<Rightarrow>
    (nat \<Rightarrow> si_inst_enum option) \<Rightarrow> nat \<Rightarrow> si_inst_enum option" where
  "opcode_table [] p t = t"
| "opcode_table ((i, f, op, sz) # es) p t = opcode_table es p (if p f then t(op := Some i) else t)"

definition si_inst_info_tbl :: "(si_fmt_enum \<Rightarrow> bool) \<Rightarrow> nat \<Rightarrow> si_inst_enum option" where
  "si_inst_info_tbl p = opcode_table si_inst_info p (\<lambda>_. None)"

definition is_vop3 :: "si_fmt_enum \<Rightarrow> bool" where
  "is_vop3 f \<longleftrightarrow> f = SI_FMT_VOP3a \<or> f = SI_FMT_VOP3b"

lemma inst_fmt_simps [simp]:
  "inst_fmt SI_INST_S_ADD_I32 = SI_FMT_SOP2"
  "inst_fmt SI_INST_S_MIN_U32 = SI_FMT_SOP2"
  "inst_fmt SI_INST_S_AND_B32 = SI_FMT_SOP2"
  "inst_fmt SI_INST_S_AND_B64 = SI_FMT_SOP2"
  "inst_fmt SI_INST_S_ANDN2_B64 = SI_FMT_SOP2"
  "inst_fmt SI_INST_S_LSHL_B32 = SI_FMT_SOP2"
  "inst_fmt SI_INST_S_LSHR_B32 = SI_FMT_SOP2"
  "inst_fmt SI_INST_S_ASHR_I32 = SI_FMT_SOP2"
  "inst_fmt SI_INST_S_MUL_I32 = SI_FMT_SOP2"
  "inst_fmt SI_INST_S_MOVK_I32 = SI_FMT_SOPK"
  "inst_fmt SI_INST_S_ADDK_I32 = SI_FMT_SOPK"
  "inst_fmt SI_INST_S_MULK_I32 = SI_FMT_SOPK"
  "inst_fmt SI_INST_S_MOV_B32 = SI_FMT_SOP1"
  "inst_fmt SI_INST_S_MOV_B64 = SI_FMT_SOP1"
  "inst_fmt SI_INST_S_AND_SAVEEXEC_B64 = SI_FMT_SOP1"
  "inst_fmt SI_INST_S_CMP_EQ_I32 = SI_FMT_SOPC"
  "inst_fmt SI_INST_S_CMP_LE_U32 = SI_FMT_SOPC"
  "inst_fmt SI_INST_S_ENDPGM = SI_FMT_SOPP"
  "inst_fmt SI_INST_S_BRANCH = SI_FMT_SOPP"
  "inst_fmt SI_INST_S_CBRANCH_SCC0 = SI_FMT_SOPP"
  "inst_fmt SI_INST_S_CBRANCH_SCC1 = SI_FMT_SOPP"
  "inst_fmt SI_INST_S_CBRANCH_VCCZ = SI_FMT_SOPP"
  "inst_fmt SI_INST_S_CBRANCH_EXECZ = SI_FMT_SOPP"
  "inst_fmt SI_INST_S_BARRIER = SI_FMT_SOPP"
  "inst_fmt SI_INST_S_WAITCNT = SI_FMT_SOPP"
  "inst_fmt SI_INST_S_LOAD_DWORDX4 = SI_FMT_SMRD"
  "inst_fmt SI_INST_S_BUFFER_LOAD_DWORD = SI_FMT_SMRD"
  "inst_fmt SI_INST_S_BUFFER_LOAD_DWORDX2 = SI_FMT_SMRD"
  "inst_fmt SI_INST_V_CNDMASK_B32_VOP3a = SI_FMT_VOP3a"
  "inst_fmt SI_INST_V_MAD_F32 = SI_FMT_VOP3a"
  "inst_fmt SI_INST_V_MUL_LO_U32 = SI_FMT_VOP3a"
  "inst_fmt SI_INST_V_MUL_HI_U32 = SI_FMT_VOP3a"
  "inst_fmt SI_INST_V_MUL_LO_I32 = SI_FMT_VOP3a"
  "inst_fmt SI_INST_V_CMP_GT_I32_VOP3b = SI_FMT_VOP3b"
  "inst_fmt SI_INST_V_CMP_NE_I32_VOP3b = SI_FMT_VOP3b"
  "inst_fmt SI_INST_V_CMP_GE_U32_VOP3b = SI_FMT_VOP3b"
  "inst_fmt SI_INST_V_ADDC_U32_VOP3b = SI_FMT_VOP3b"
  "inst_fmt SI_INST_V_CMP_LT_I32 = SI_FMT_VOPC"
  "inst_fmt SI_INST_V_CMP_GT_I32 = SI_FMT_VOPC"
  "inst_fmt SI_INST_V_CMP_NE_I32 = SI_FMT_VOPC"
  "inst_fmt SI_INST_V_CMP_LE_U32 = SI_FMT_VOPC"
  "inst_fmt SI_INST_V_MOV_B32_VOP1 = SI_FMT_VOP1"
  "inst_fmt SI_INST_V_CVT_F32_I32 = SI_FMT_VOP1"
  "inst_fmt SI_INST_V_CVT_F32_U32 = SI_FMT_VOP1"
  "inst_fmt SI_INST_V_CVT_U32_F32 = SI_FMT_VOP1"
  "inst_fmt SI_INST_V_CVT_I32_F32 = SI_FMT_VOP1"
  "inst_fmt SI_INST_V_RCP_F32 = SI_FMT_VOP1"
  "inst_fmt SI_INST_V_ADD_F32 = SI_FMT_VOP2"
  "inst_fmt SI_INST_V_MUL_F32 = SI_FMT_VOP2"
  "inst_fmt SI_INST_V_MUL_I32_I24 = SI_FMT_VOP2"
  "inst_fmt SI_INST_V_LSHLREV_B32 = SI_FMT_VOP2"
  "inst_fmt SI_INST_V_OR_B32 = SI_FMT_VOP2"
  "inst_fmt SI_INST_V_MAC_F32 = SI_FMT_VOP2"
  "inst_fmt SI_INST_V_ADD_I32 = SI_FMT_VOP2"
  "inst_fmt SI_INST_V_SUB_I32 = SI_FMT_VOP2"
  "inst_fmt SI_INST_DS_WRITE_B32 = SI_FMT_DS"
  "inst_fmt SI_INST_DS_READ_B32 = SI_FMT_DS"
  "inst_fmt SI_INST_T_BUFFER_LOAD_FORMAT_X = SI_FMT_MTBUF"
  "inst_fmt SI_INST_T_BUFFER_LOAD_FORMAT_XYZW = SI_FMT_MTBUF"
  "inst_fmt SI_INST_T_BUFFER_STORE_FORMAT_X = SI_FMT_MTBUF"
  "inst_fmt SI_INST_T_BUFFER_STORE_FORMAT_XYZW = SI_FMT_MTBUF"
  by (simp_all add: inst_fmt_def info_of_def si_inst_info_def)

section \<open>Decoding\<close>

record si_inst_t =
  inst_info :: si_inst_enum
  micro_inst :: "64 word"

text \<open>
  \<open>decode_op\<close> is the end of every case: the entry of the opcode must exist (an opcode past the
  end of its table is an entry that does not exist), the micro-instruction takes four or eight
  bytes, and \<open>lit\<close> tells whether the size in the table becomes eight.
\<close>

definition decode_op :: "(si_inst_enum \<Rightarrow> nat) \<Rightarrow> si_inst_enum option \<Rightarrow> bool \<Rightarrow> bool \<Rightarrow> 64 word \<Rightarrow>
    ((si_inst_enum \<Rightarrow> nat) \<times> si_inst_t \<times> nat) res" where
  "decode_op sizes info lit long w =
     (case info of
        None \<Rightarrow> Inl Assert_failed
      | Some i \<Rightarrow>
          let sizes = (if lit then sizes(i := 8) else sizes);
              inst = \<lparr>inst_info = i, micro_inst = (if lit \<or> long then w else take_bit 32 w)\<rparr>
          in Inr (sizes, inst, sizes i))"

text \<open>The argument \<open>w\<close> is the eight bytes at \<open>buf\<close>.\<close>

definition si_inst_decode :: "(si_inst_enum \<Rightarrow> nat) \<Rightarrow> 64 word \<Rightarrow>
    ((si_inst_enum \<Rightarrow> nat) \<times> si_inst_t \<times> nat) res" where
  "si_inst_decode sizes w =
     (let tbl = si_inst_info_tbl in
      if bits w 23 9 = 0x17F then
        decode_op sizes (tbl (\<lambda>f. f = SI_FMT_SOPP) (bits w 16 7)) False False w
      else if bits w 23 9 = 0x17E then
        (if tbl (\<lambda>f. f = SI_FMT_SOPC) (bits w 16 7) \<noteq> None \<and> bits w 0 8 = 0xFF \<and> bits w 8 8 = 0xFF
         then Inl Assert_failed
         else decode_op sizes (tbl (\<lambda>f. f = SI_FMT_SOPC) (bits w 16 7))
                (bits w 0 8 = 0xFF \<or> bits w 8 8 = 0xFF) False w)
      else if bits w 23 9 = 0x17D then
        decode_op sizes (tbl (\<lambda>f. f = SI_FMT_SOP1) (bits w 8 8)) (bits w 0 8 = 0xFF) False w
      else if bits w 28 4 = 0xB then
        decode_op sizes (tbl (\<lambda>f. f = SI_FMT_SOPK) (bits w 23 5)) False False w
      else if bits w 30 2 = 0x2 then
        (if tbl (\<lambda>f. f = SI_FMT_SOP2) (bits w 23 7) \<noteq> None \<and> bits w 0 8 = 0xFF \<and> bits w 8 8 = 0xFF
         then Inl Assert_failed
         else decode_op sizes (tbl (\<lambda>f. f = SI_FMT_SOP2) (bits w 23 7))
                (bits w 0 8 = 0xFF \<or> bits w 8 8 = 0xFF) False w)
      else if bits w 27 5 = 0x18 then
        decode_op sizes (tbl (\<lambda>f. f = SI_FMT_SMRD) (bits w 22 5)) False False w
      else if bits w 26 6 = 0x34 then
        decode_op sizes (tbl is_vop3 (bits w 17 9)) False True w
      else if bits w 25 7 = 0x3E then
        decode_op sizes (tbl (\<lambda>f. f = SI_FMT_VOPC) (bits w 17 8)) (bits w 0 9 = 0xFF) False w
      else if bits w 25 7 = 0x3F then
        decode_op sizes (tbl (\<lambda>f. f = SI_FMT_VOP1) (bits w 9 8)) (bits w 0 9 = 0xFF) False w
      else if bits w 31 1 = 0x0 then
        decode_op sizes (tbl (\<lambda>f. f = SI_FMT_VOP2) (bits w 25 6)) (bits w 0 9 = 0xFF) False w
      else if bits w 26 6 = 0x36 then
        decode_op sizes (tbl (\<lambda>f. f = SI_FMT_DS) (bits w 18 8)) False True w
      else if bits w 26 6 = 0x3A then
        decode_op sizes (tbl (\<lambda>f. f = SI_FMT_MTBUF) (bits w 16 3)) False True w
      else Inl (Fatal ''Unimplemented format''))"

end
