(* ===== verification/SI_Wavefront.thy ===== *)
theory SI_Wavefront
  imports SI_Decode
begin

text \<open>
  Execution of Southern Islands wavefronts: \<open>wavefront.c\<close>, \<open>work-group.c\<close>, \<open>work-item.c\<close>, the
  status of \<open>ndrange.c\<close> and the emulation loop of \<open>emu.c\<close>, all under
  \<open>src/arch/southern-islands/emu\<close>. The emulator owns the ND-Ranges, an ND-Range its work-groups,
  wavefronts and work-items; they refer to each other by index. The OpenCL command queue of an
  ND-Range, the timer and the reports are left out.
\<close>

section \<open>State\<close>

record si_ndrange_t =
  nd_id :: nat
  nd_status :: u32
  nd_text :: "u8 list"
  nd_work_groups :: "si_work_group_t list"
  nd_wavefronts :: "si_wavefront_t list"
  nd_work_items :: "si_work_item_t list"
  nd_work_group_count :: nat
  nd_wavefront_count :: nat
  nd_work_item_count :: nat
  nd_wavefronts_per_work_group :: nat
  nd_pending :: "nat list"
  nd_running :: "nat list"
  nd_finished :: "nat list"
  nd_local_mem_top :: u32

record si_emu_t =
  em_sizes :: "si_inst_enum \<Rightarrow> nat"
  em_global_mem :: mem_t
  em_ndranges :: "nat \<Rightarrow> si_ndrange_t option"
  em_ndrange_list :: "nat list"
  em_pending :: "nat list"
  em_running :: "nat list"
  em_finished :: "nat list"
  em_ndrange_count :: nat
  em_max_kernels :: nat
  em_x86_finish :: bool
  em_inst_count :: nat
  em_scalar_alu_inst_count :: nat
  em_scalar_mem_inst_count :: nat
  em_vector_alu_inst_count :: nat
  em_vector_mem_inst_count :: nat

section \<open>Dispatch\<close>

text \<open>The table of instruction functions that \<open>si_isa_init\<close> fills.\<close>

fun si_isa_inst_func :: "fp_ops \<Rightarrow> u32 \<Rightarrow> si_inst_enum \<Rightarrow> 64 word \<Rightarrow> si_ctx \<Rightarrow> si_ctx res" where
  "si_isa_inst_func fp junk SI_INST_S_ADD_I32 w c = S_ADD_I32_impl (SI_INST_SOP2 w) c"
| "si_isa_inst_func fp junk SI_INST_S_MIN_U32 w c = S_MIN_U32_impl (SI_INST_SOP2 w) c"
| "si_isa_inst_func fp junk SI_INST_S_AND_B32 w c = S_AND_B32_impl (SI_INST_SOP2 w) c"
| "si_isa_inst_func fp junk SI_INST_S_AND_B64 w c = S_AND_B64_impl (SI_INST_SOP2 w) c"
| "si_isa_inst_func fp junk SI_INST_S_ANDN2_B64 w c = S_ANDN2_B64_impl (SI_INST_SOP2 w) c"
| "si_isa_inst_func fp junk SI_INST_S_LSHL_B32 w c = S_LSHL_B32_impl (SI_INST_SOP2 w) c"
| "si_isa_inst_func fp junk SI_INST_S_LSHR_B32 w c = S_LSHR_B32_impl (SI_INST_SOP2 w) c"
| "si_isa_inst_func fp junk SI_INST_S_ASHR_I32 w c = S_ASHR_I32_impl (SI_INST_SOP2 w) c"
| "si_isa_inst_func fp junk SI_INST_S_MUL_I32 w c = S_MUL_I32_impl (SI_INST_SOP2 w) c"
| "si_isa_inst_func fp junk SI_INST_S_MOVK_I32 w c = S_MOVK_I32_impl (SI_INST_SOPK w) c"
| "si_isa_inst_func fp junk SI_INST_S_ADDK_I32 w c = S_ADDK_I32_impl (SI_INST_SOPK w) c"
| "si_isa_inst_func fp junk SI_INST_S_MULK_I32 w c = S_MULK_I32_impl (SI_INST_SOPK w) c"
| "si_isa_inst_func fp junk SI_INST_S_MOV_B32 w c = S_MOV_B32_impl (SI_INST_SOP1 w) c"
| "si_isa_inst_func fp junk SI_INST_S_MOV_B64 w c = S_MOV_B64_impl (SI_INST_SOP1 w) c"
| "si_isa_inst_func fp junk SI_INST_S_AND_SAVEEXEC_B64 w c = S_AND_SAVEEXEC_B64_impl (SI_INST_SOP1 w) c"
| "si_isa_inst_func fp junk SI_INST_S_CMP_EQ_I32 w c = S_CMP_EQ_I32_impl (SI_INST_SOPC w) c"
| "si_isa_inst_func fp junk SI_INST_S_CMP_LE_U32 w c = S_CMP_LE_U32_impl (SI_INST_SOPC w) c"
| "si_isa_inst_func fp junk SI_INST_S_ENDPGM w c = S_ENDPGM_impl c"
| "si_isa_inst_func fp junk SI_INST_S_BRANCH w c = S_BRANCH_impl (SI_INST_SOPP w) c"
| "si_isa_inst_func fp junk SI_INST_S_CBRANCH_SCC0 w c = S_CBRANCH_SCC0_impl (SI_INST_SOPP w) c"
| "si_isa_inst_func fp junk SI_INST_S_CBRANCH_SCC1 w c = S_CBRANCH_SCC1_impl (SI_INST_SOPP w) c"
| "si_isa_inst_func fp junk SI_INST_S_CBRANCH_VCCZ w c = S_CBRANCH_VCCZ_impl (SI_INST_SOPP w) c"
| "si_isa_inst_func fp junk SI_INST_S_CBRANCH_EXECZ w c = S_CBRANCH_EXECZ_impl (SI_INST_SOPP w) c"
| "si_isa_inst_func fp junk SI_INST_S_BARRIER w c = S_BARRIER_impl c"
| "si_isa_inst_func fp junk SI_INST_S_WAITCNT w c = S_WAITCNT_impl c"
| "si_isa_inst_func fp junk SI_INST_S_LOAD_DWORDX4 w c = S_LOAD_DWORDX4_impl (SI_INST_SMRD w) c"
| "si_isa_inst_func fp junk SI_INST_S_BUFFER_LOAD_DWORD w c = S_BUFFER_LOAD_DWORD_impl (SI_INST_SMRD w) c"
| "si_isa_inst_func fp junk SI_INST_S_BUFFER_LOAD_DWORDX2 w c = S_BUFFER_LOAD_DWORDX2_impl (SI_INST_SMRD w) c"
| "si_isa_inst_func fp junk SI_INST_V_CNDMASK_B32_VOP3a w c = V_CNDMASK_B32_VOP3a_impl (SI_INST_VOP3a w) c"
| "si_isa_inst_func fp junk SI_INST_V_MAD_F32 w c = V_MAD_F32_impl fp (SI_INST_VOP3a w) c"
| "si_isa_inst_func fp junk SI_INST_V_MUL_LO_U32 w c = V_MUL_LO_U32_impl (SI_INST_VOP3a w) c"
| "si_isa_inst_func fp junk SI_INST_V_MUL_HI_U32 w c = V_MUL_HI_U32_impl (SI_INST_VOP3a w) c"
| "si_isa_inst_func fp junk SI_INST_V_MUL_LO_I32 w c = V_MUL_LO_I32_impl (SI_INST_VOP3a w) c"
| "si_isa_inst_func fp junk SI_INST_V_CMP_GT_I32_VOP3b w c = V_CMP_GT_I32_VOP3b_impl (SI_INST_VOP3b w) c"
| "si_isa_inst_func fp junk SI_INST_V_CMP_NE_I32_VOP3b w c = V_CMP_NE_I32_VOP3b_impl (SI_INST_VOP3b w) c"
| "si_isa_inst_func fp junk SI_INST_V_CMP_GE_U32_VOP3b w c = V_CMP_GE_U32_VOP3b_impl (SI_INST_VOP3b w) c"
| "si_isa_inst_func fp junk SI_INST_V_ADDC_U32_VOP3b w c = V_ADDC_U32_VOP3b_impl (SI_INST_VOP3b w) c"
| "si_isa_inst_func fp junk SI_INST_V_CMP_LT_I32 w c = V_CMP_LT_I32_impl (SI_INST_VOPC w) c"
| "si_isa_inst_func fp junk SI_INST_V_CMP_GT_I32 w c = V_CMP_GT_I32_impl (SI_INST_VOPC w) c"
| "si_isa_inst_func fp junk SI_INST_V_CMP_NE_I32 w c = V_CMP_NE_I32_impl (SI_INST_VOPC w) c"
| "si_isa_inst_func fp junk SI_INST_V_CMP_LE_U32 w c = V_CMP_LE_U32_impl (SI_INST_VOPC w) c"
| "si_isa_inst_func fp junk SI_INST_V_MOV_B32_VOP1 w c = V_MOV_B32_VOP1_impl (SI_INST_VOP1 w) c"
| "si_isa_inst_func fp junk SI_INST_V_CVT_F32_I32 w c = V_CVT_F32_I32_impl fp (SI_INST_VOP1 w) c"
| "si_isa_inst_func fp junk SI_INST_V_CVT_F32_U32 w c = V_CVT_F32_U32_impl fp (SI_INST_VOP1 w) c"
| "si_isa_inst_func fp junk SI_INST_V_CVT_U32_F32 w c = V_CVT_U32_F32_impl fp (SI_INST_VOP1 w) c"
| "si_isa_inst_func fp junk SI_INST_V_CVT_I32_F32 w c = V_CVT_I32_F32_impl fp (SI_INST_VOP1 w) c"
| "si_isa_inst_func fp junk SI_INST_V_RCP_F32 w c = V_RCP_F32_impl fp (SI_INST_VOP1 w) c"
| "si_isa_inst_func fp junk SI_INST_V_ADD_F32 w c = V_ADD_F32_impl fp (SI_INST_VOP2 w) c"
| "si_isa_inst_func fp junk SI_INST_V_MUL_F32 w c = V_MUL_F32_impl fp (SI_INST_VOP2 w) c"
| "si_isa_inst_func fp junk SI_INST_V_MUL_I32_I24 w c = V_MUL_I32_I24_impl (SI_INST_VOP2 w) c"
| "si_isa_inst_func fp junk SI_INST_V_LSHLREV_B32 w c = V_LSHLREV_B32_impl (SI_INST_VOP2 w) c"
| "si_isa_inst_func fp junk SI_INST_V_OR_B32 w c = V_OR_B32_impl (SI_INST_VOP2 w) c"
| "si_isa_inst_func fp junk SI_INST_V_MAC_F32 w c = V_MAC_F32_impl fp (SI_INST_VOP2 w) c"
| "si_isa_inst_func fp junk SI_INST_V_ADD_I32 w c = V_ADD_I32_impl (SI_INST_VOP2 w) c"
| "si_isa_inst_func fp junk SI_INST_V_SUB_I32 w c = V_SUB_I32_impl (SI_INST_VOP2 w) c"
| "si_isa_inst_func fp junk SI_INST_DS_WRITE_B32 w c = DS_WRITE_B32_impl (SI_INST_DS w) c"
| "si_isa_inst_func fp junk SI_INST_DS_READ_B32 w c = DS_READ_B32_impl (SI_INST_DS w) c"
| "si_isa_inst_func fp junk SI_INST_T_BUFFER_LOAD_FORMAT_X w c = T_BUFFER_LOAD_FORMAT_X_impl junk (SI_INST_MTBUF w) c"
| "si_isa_inst_func fp junk SI_INST_T_BUFFER_LOAD_FORMAT_XYZW w c = T_BUFFER_LOAD_FORMAT_XYZW_impl (SI_INST_MTBUF w) c"
| "si_isa_inst_func fp junk SI_INST_T_BUFFER_STORE_FORMAT_X w c = T_BUFFER_STORE_FORMAT_X_impl (SI_INST_MTBUF w) c"
| "si_isa_inst_func fp junk SI_INST_T_BUFFER_STORE_FORMAT_XYZW w c = T_BUFFER_STORE_FORMAT_XYZW_impl (SI_INST_MTBUF w) c"

section \<open>Work-group status\<close>

definition si_work_group_get_status :: "nat \<Rightarrow> u32 \<Rightarrow> si_ndrange_t \<Rightarrow> bool" where
  "si_work_group_get_status gid status nd \<longleftrightarrow> wg_status (nd_work_groups nd ! gid) AND status \<noteq> 0"

definition put_group :: "nat \<Rightarrow> si_work_group_t \<Rightarrow> si_ndrange_t \<Rightarrow> si_ndrange_t" where
  "put_group gid g nd = nd\<lparr>nd_work_groups := (nd_work_groups nd)[gid := g]\<rparr>"

text \<open>An insertion or a removal that is made when a bit of the status is set.\<close>

definition on_bit :: "u32 \<Rightarrow> u32 \<Rightarrow> (nat list \<Rightarrow> nat list res) \<Rightarrow> nat list \<Rightarrow> nat list res" where
  "on_bit status b f xs = (if status AND b \<noteq> 0 then f xs else Inr xs)"

definition si_work_group_set_status :: "nat \<Rightarrow> u32 \<Rightarrow> si_ndrange_t \<Rightarrow> si_ndrange_t res" where
  "si_work_group_set_status gid status nd =
     (let g = nd_work_groups nd ! gid; status = status AND NOT (wg_status g) in
      res_bind (on_bit status si_work_group_pending (dl_insert_tail gid) (nd_pending nd)) (\<lambda>pending.
      res_bind (on_bit status si_work_group_running (dl_insert_tail gid) (nd_running nd)) (\<lambda>running.
      res_bind (on_bit status si_work_group_finished (dl_insert_tail gid) (nd_finished nd)) (\<lambda>finished.
        Inr (put_group gid (g\<lparr>wg_status := wg_status g OR status\<rparr>)
          (nd\<lparr>nd_pending := pending, nd_running := running, nd_finished := finished\<rparr>))))))"

definition si_work_group_clear_status :: "nat \<Rightarrow> u32 \<Rightarrow> si_ndrange_t \<Rightarrow> si_ndrange_t res" where
  "si_work_group_clear_status gid status nd =
     (let g = nd_work_groups nd ! gid; status = status AND wg_status g in
      res_bind (on_bit status si_work_group_pending (dl_remove gid) (nd_pending nd)) (\<lambda>pending.
      res_bind (on_bit status si_work_group_running (dl_remove gid) (nd_running nd)) (\<lambda>running.
      res_bind (on_bit status si_work_group_finished (dl_remove gid) (nd_finished nd)) (\<lambda>finished.
        Inr (put_group gid (g\<lparr>wg_status := wg_status g AND NOT status\<rparr>)
          (nd\<lparr>nd_pending := pending, nd_running := running, nd_finished := finished\<rparr>))))))"

section \<open>ND-Range status\<close>

definition si_ndrange_pending :: u32 where "si_ndrange_pending = 0x0001"
definition si_ndrange_running :: u32 where "si_ndrange_running = 0x0002"
definition si_ndrange_finished :: u32 where "si_ndrange_finished = 0x0004"

definition si_ndrange_get_status :: "nat \<Rightarrow> u32 \<Rightarrow> si_emu_t \<Rightarrow> bool" where
  "si_ndrange_get_status n status em \<longleftrightarrow> nd_status (the (em_ndranges em n)) AND status \<noteq> 0"

definition put_ndrange :: "nat \<Rightarrow> si_ndrange_t \<Rightarrow> si_emu_t \<Rightarrow> si_emu_t" where
  "put_ndrange n nd em = em\<lparr>em_ndranges := (em_ndranges em)(n \<mapsto> nd)\<rparr>"

definition si_ndrange_set_status :: "nat \<Rightarrow> u32 \<Rightarrow> si_emu_t \<Rightarrow> si_emu_t res" where
  "si_ndrange_set_status n status em =
     (let nd = the (em_ndranges em n); status = status AND NOT (nd_status nd) in
      res_bind (on_bit status si_ndrange_pending (dl_insert_tail n) (em_pending em)) (\<lambda>pending.
      res_bind (on_bit status si_ndrange_running (dl_insert_tail n) (em_running em)) (\<lambda>running.
      res_bind (on_bit status si_ndrange_finished (dl_insert_tail n) (em_finished em)) (\<lambda>finished.
        Inr (put_ndrange n (nd\<lparr>nd_status := nd_status nd OR status\<rparr>)
          (em\<lparr>em_pending := pending, em_running := running, em_finished := finished\<rparr>))))))"

definition si_ndrange_clear_status :: "nat \<Rightarrow> u32 \<Rightarrow> si_emu_t \<Rightarrow> si_emu_t res" where
  "si_ndrange_clear_status n status em =
     (let nd = the (em_ndranges em n); status = status AND nd_status nd in
      res_bind (on_bit status si_ndrange_pending (dl_remove n) (em_pending em)) (\<lambda>pending.
      res_bind (on_bit status si_ndrange_running (dl_remove n) (em_running em)) (\<lambda>running.
      res_bind (on_bit status si_ndrange_finished (dl_remove n) (em_finished em)) (\<lambda>finished.
        Inr (put_ndrange n (nd\<lparr>nd_status := nd_status nd AND NOT status\<rparr>)
          (em\<lparr>em_pending := pending, em_running := running, em_finished := finished\<rparr>))))))"

section \<open>Wavefronts\<close>

definition si_wavefront_work_item_active :: "si_wavefront_t \<Rightarrow> nat \<Rightarrow> bool" where
  "si_wavefront_work_item_active w k =
     (if k < 32 then drop_bit k (wf_sreg w SI_EXEC AND push_bit k 1) \<noteq> 0
      else drop_bit (k - 32) (wf_sreg w (SI_EXEC + 1) AND push_bit (k - 32) 1) \<noteq> 0)"

text \<open>The eight bytes at a program counter; there is nothing to read past the end of the code.\<close>

definition fetch :: "u8 list \<Rightarrow> int \<Rightarrow> 64 word" where
  "fetch code pc = horner_sum ucast (2 ^ 8) (map (\<lambda>k. if nat pc + k < length code then code ! (nat pc + k) else 0) [0..<8])"

definition is_scalar_fmt :: "si_fmt_enum \<Rightarrow> bool" where
  "is_scalar_fmt f \<longleftrightarrow>
     f \<in> {SI_FMT_SOP1, SI_FMT_SOP2, SI_FMT_SOPP, SI_FMT_SOPC, SI_FMT_SOPK, SI_FMT_SMRD}"

definition is_vector_fmt :: "si_fmt_enum \<Rightarrow> bool" where
  "is_vector_fmt f \<longleftrightarrow>
     f \<in> {SI_FMT_VOP2, SI_FMT_VOP1, SI_FMT_VOPC, SI_FMT_VOP3a, SI_FMT_VOP3b, SI_FMT_DS, SI_FMT_MTBUF}"

text \<open>The statistics of a format: in the wavefront and in the emulator.\<close>

definition wf_stats :: "si_fmt_enum \<Rightarrow> si_wavefront_t \<Rightarrow> si_wavefront_t" where
  "wf_stats f w =
     (if f = SI_FMT_SMRD then w\<lparr>wf_scalar_mem_inst_count := wf_scalar_mem_inst_count w + 1\<rparr>
      else if is_scalar_fmt f then w\<lparr>wf_scalar_alu_inst_count := wf_scalar_alu_inst_count w + 1\<rparr>
      else if f = SI_FMT_MTBUF then w\<lparr>wf_vector_mem_inst_count := wf_vector_mem_inst_count w + 1\<rparr>
      else w\<lparr>wf_vector_alu_inst_count := wf_vector_alu_inst_count w + 1\<rparr>)"

definition em_stats :: "si_fmt_enum \<Rightarrow> si_emu_t \<Rightarrow> si_emu_t" where
  "em_stats f em =
     (if f = SI_FMT_SMRD then em\<lparr>em_scalar_mem_inst_count := em_scalar_mem_inst_count em + 1\<rparr>
      else if is_scalar_fmt f then em\<lparr>em_scalar_alu_inst_count := em_scalar_alu_inst_count em + 1\<rparr>
      else if f = SI_FMT_MTBUF then em\<lparr>em_vector_mem_inst_count := em_vector_mem_inst_count em + 1\<rparr>
      else em\<lparr>em_vector_alu_inst_count := em_vector_alu_inst_count em + 1\<rparr>)"

text \<open>The loop over the work-items of the wavefront: the active ones execute the instruction.\<close>

fun exec_items :: "(si_ctx \<Rightarrow> si_ctx res) \<Rightarrow> nat list \<Rightarrow> si_ctx \<Rightarrow> si_work_item_t list \<Rightarrow>
    (si_ctx \<times> si_work_item_t list) res" where
  "exec_items f [] c items = Inr (c, items)"
| "exec_items f (k # ks) c items =
     (if si_wavefront_work_item_active (cx_wave c) (wi_id_in_wavefront (items ! k))
      then res_bind (f (c\<lparr>cx_item := items ! k\<rparr>)) (\<lambda>c. exec_items f ks c (items[k := cx_item c]))
      else exec_items f ks c items)"

definition exec_inst :: "fp_ops \<Rightarrow> u32 \<Rightarrow> si_inst_t \<Rightarrow> si_ctx \<Rightarrow> si_work_item_t list \<Rightarrow>
    (si_ctx \<times> si_work_item_t list) res" where
  "exec_inst fp junk inst c items =
     (let f = inst_fmt (inst_info inst); run = si_isa_inst_func fp junk (inst_info inst) (micro_inst inst) in
      if is_scalar_fmt f then
        res_bind (run (c\<lparr>cx_item := wf_scalar (cx_wave c)\<rparr>)) (\<lambda>c.
          Inr (c\<lparr>cx_wave := (cx_wave c)\<lparr>wf_scalar := cx_item c\<rparr>\<rparr>, items))
      else if is_vector_fmt f then
        exec_items run [wf_work_item_id_first (cx_wave c)..<wf_work_item_id_last (cx_wave c) + 1] c items
      else Inl (Fatal ''instruction type not implemented''))"

text \<open>The end of a wavefront, of its work-group when all the wavefronts of the group have
  finished, and of the ND-Range when all its work-groups have.\<close>

definition wavefront_finish :: "nat \<Rightarrow> nat \<Rightarrow> nat \<Rightarrow> si_emu_t \<Rightarrow> si_emu_t res" where
  "wavefront_finish n gid wid em =
     (let nd = the (em_ndranges em n); g = nd_work_groups nd ! gid in
      res_bind (dl_remove wid (wg_running g)) (\<lambda>running.
      res_bind (dl_insert_tail wid (wg_finished g)) (\<lambda>finished.
        let g = g\<lparr>wg_running := running, wg_finished := finished\<rparr>; nd = put_group gid g nd in
        if length (wg_finished g) \<noteq> wg_wavefront_count g then Inr (put_ndrange n nd em)
        else if gid \<notin> set (nd_running nd) \<or> gid \<in> set (nd_finished nd) then Inl Assert_failed
        else
          res_bind (si_work_group_clear_status gid si_work_group_running nd) (\<lambda>nd.
          res_bind (si_work_group_set_status gid si_work_group_finished nd) (\<lambda>nd.
            let em = put_ndrange n nd em in
            if length (nd_finished nd) \<noteq> nd_work_group_count nd then Inr em
            else if n \<notin> set (em_running em) \<or> n \<in> set (em_finished em) then Inl Assert_failed
            else res_bind (si_ndrange_clear_status n si_ndrange_running em)
                   (si_ndrange_set_status n si_ndrange_finished))))))"

definition put_wavefront :: "nat \<Rightarrow> si_wavefront_t \<Rightarrow> si_ndrange_t \<Rightarrow> si_ndrange_t" where
  "put_wavefront wid w nd = nd\<lparr>nd_wavefronts := (nd_wavefronts nd)[wid := w]\<rparr>"

text \<open>The increment of the instruction pointer at the end of \<open>si_wavefront_execute\<close>.\<close>

definition inst_buf_advance :: "nat \<Rightarrow> nat \<Rightarrow> si_emu_t \<Rightarrow> si_emu_t" where
  "inst_buf_advance n wid em =
     (let nd = the (em_ndranges em n); w = nd_wavefronts nd ! wid
      in put_ndrange n (put_wavefront wid (w\<lparr>wf_pc := wf_pc w + int (wf_inst_size w)\<rparr>) nd) em)"

text \<open>The effects of the instruction are stored and the end of the wavefront is handled.\<close>

definition exec_commit :: "nat \<Rightarrow> nat \<Rightarrow> nat \<Rightarrow> si_ctx \<Rightarrow> si_work_item_t list \<Rightarrow> si_emu_t \<Rightarrow> si_emu_t res" where
  "exec_commit n gid wid c items em =
     (let nd = (the (em_ndranges em n))\<lparr>nd_work_items := items\<rparr>;
          nd = put_wavefront wid (cx_wave c) (put_group gid (cx_group c) nd);
          em = put_ndrange n nd (em\<lparr>em_global_mem := cx_global c\<rparr>)
      in res_bind (if wf_finished (cx_wave c) then wavefront_finish n gid wid em else Inr em)
           (\<lambda>em. Inr (inst_buf_advance n wid em)))"

definition exec_ctx :: "si_wavefront_t \<Rightarrow> si_work_group_t \<Rightarrow> si_emu_t \<Rightarrow> si_ctx" where
  "exec_ctx w g em = \<lparr>cx_wave = w, cx_item = wf_scalar w, cx_group = g, cx_global = em_global_mem em\<rparr>"

definition si_wavefront_execute :: "fp_ops \<Rightarrow> u32 \<Rightarrow> nat \<Rightarrow> nat \<Rightarrow> si_emu_t \<Rightarrow> si_emu_t res" where
  "si_wavefront_execute fp junk n wid em =
     (let nd = the (em_ndranges em n); w = nd_wavefronts nd ! wid; gid = wf_work_group w;
          g = nd_work_groups nd ! gid in
      if wid \<in> set (wg_finished g) then Inl Assert_failed
      else res_bind (si_inst_decode (em_sizes em) (fetch (nd_text nd) (wf_pc w))) (\<lambda>(sizes, inst, sz).
        let f = inst_fmt (inst_info inst);
            em = em_stats f (em\<lparr>em_sizes := sizes, em_inst_count := em_inst_count em + 1\<rparr>);
            w = wf_stats f (w\<lparr>wf_inst_size := sz, wf_emu_inst_count := wf_emu_inst_count w + 1,
                  wf_inst_count := wf_inst_count w + 1\<rparr>)
        in res_bind (exec_inst fp junk inst (exec_ctx w g em) (nd_work_items nd)) (\<lambda>(c, items).
             exec_commit n gid wid c items em)))"

end
