(* ===== verification/SI_Ndrange.thy ===== *)
theory SI_Ndrange
  imports SI_Wavefront
begin

text \<open>
  The ND-Ranges of Southern Islands (\<open>src/arch/southern-islands/emu/ndrange.c\<close>,
  \<open>wavefront.c\<close>): creation, the grid of work-items, constant memory and kernel arguments, and
  release. An ND-Range is identified by the counter that numbers it. Sizes and identifiers are
  natural numbers: their \<open>int\<close> never overflows here. The parameters \<open>junk\<close> are uninitialised
  bits that the code copies into registers.
\<close>

section \<open>Kernels\<close>

datatype si_user_class = IMM_CONST_BUFFER | PTR_UAV_TABLE | Other_user_class nat

record si_bin_enc_user_element_t =
  ue_dataClass :: si_user_class
  ue_apiSlot :: nat
  ue_startUserReg :: nat
  ue_userRegCount :: nat

datatype si_arg_kind = SI_ARG_VALUE | SI_ARG_POINTER | SI_ARG_OTHER
datatype si_mem_scope = SI_MEM_CONSTANT | SI_MEM_GLOBAL | SI_MEM_LOCAL | SI_MEM_OTHER

record si_opencl_kernel_arg_t =
  ar_set :: bool
  ar_kind :: si_arg_kind
  ar_mem_scope :: si_mem_scope
  ar_value :: u32
  ar_size :: u32

record si_opencl_kernel_t =
  kn_args :: "si_opencl_kernel_arg_t list"
  kn_user_elements :: "si_bin_enc_user_element_t list"
  kn_text :: "u8 list"
  kn_func_mem_local :: u32
  kn_work_dim :: nat
  kn_global_size3 :: "nat \<times> nat \<times> nat"
  kn_local_size3 :: "nat \<times> nat \<times> nat"
  kn_group_count3 :: "nat \<times> nat \<times> nat"
  kn_global_size :: nat
  kn_local_size :: nat
  kn_group_count :: nat

section \<open>Creation of the objects\<close>

definition si_work_item_create :: si_work_item_t where
  "si_work_item_create = \<lparr>wi_id = 0, wi_id_in_wavefront = 0, wi_id_in_work_group = 0,
     wi_id_3d = (0, 0, 0), wi_id_in_work_group_3d = (0, 0, 0), wi_wavefront = 0, wi_work_group = 0,
     wi_vreg = (\<lambda>_. 0)\<rparr>"

definition si_wavefront_sreg_init :: "(nat \<Rightarrow> u32) \<Rightarrow> nat \<Rightarrow> u32" where
  "si_wavefront_sreg_init sreg i =
     (if 128 \<le> i \<and> i < 193 then of_nat (i - 128)
      else if 193 \<le> i \<and> i < 209 then - of_nat (i - 192)
      else if i = 240 then 0x3F000000
      else if i = 241 then 0xBF000000
      else if i = 242 then 0x3F800000
      else if i = 243 then 0xBF800000
      else if i = 244 then 0x40000000
      else if i = 245 then 0xC0000000
      else if i = 246 then 0x40800000
      else if i = 247 then 0xC0800000
      else sreg i)"

definition si_wavefront_create :: si_wavefront_t where
  "si_wavefront_create = \<lparr>wf_id = 0, wf_id_in_work_group = 0, wf_work_group = 0,
     wf_work_item_id_first = 0, wf_work_item_id_last = 0, wf_work_item_count = 0,
     wf_sreg = si_wavefront_sreg_init (\<lambda>_. 0), wf_pc = 0, wf_inst_size = 0, wf_finished = False,
     wf_scalar = si_work_item_create, wf_inst_count = 0, wf_emu_inst_count = 0,
     wf_scalar_alu_inst_count = 0, wf_scalar_mem_inst_count = 0, wf_vector_alu_inst_count = 0,
     wf_vector_mem_inst_count = 0\<rparr>"

definition si_work_group_create :: si_work_group_t where
  "si_work_group_create = \<lparr>wg_id = 0, wg_id_3d = (0, 0, 0), wg_status = 0,
     wg_work_item_id_first = 0, wg_work_item_id_last = 0, wg_work_item_count = 0,
     wg_wavefront_id_first = 0, wg_wavefront_id_last = 0, wg_running = [], wg_barrier = [],
     wg_finished = [], wg_wavefront_count = 0, wg_local_mem = mem_create False\<rparr>"

definition si_ndrange_create :: "si_opencl_kernel_t \<Rightarrow> si_emu_t \<Rightarrow> (si_emu_t \<times> nat) res" where
  "si_ndrange_create kn em =
     (let n = em_ndrange_count em in
      res_bind (dl_insert_tail n (em_ndrange_list em)) (\<lambda>ndrange_list.
        Inr (put_ndrange n \<lparr>nd_id = n, nd_status = 0, nd_text = kn_text kn, nd_work_groups = [],
               nd_wavefronts = [], nd_work_items = [], nd_work_group_count = 0, nd_wavefront_count = 0,
               nd_work_item_count = 0, nd_wavefronts_per_work_group = 0, nd_pending = [],
               nd_running = [], nd_finished = [], nd_local_mem_top = kn_func_mem_local kn\<rparr>
             (em\<lparr>em_ndrange_list := ndrange_list, em_ndrange_count := n + 1\<rparr>), n)))"

definition si_ndrange_free :: "nat \<Rightarrow> si_emu_t \<Rightarrow> si_emu_t res" where
  "si_ndrange_free n em =
     res_bind (si_ndrange_clear_status n si_ndrange_pending em) (\<lambda>em.
     res_bind (si_ndrange_clear_status n si_ndrange_running em) (\<lambda>em.
     res_bind (si_ndrange_clear_status n si_ndrange_finished em) (\<lambda>em.
     res_bind (dl_remove n (em_ndrange_list em)) (\<lambda>ndrange_list.
       Inr (em\<lparr>em_ndrange_list := ndrange_list, em_ndranges := (em_ndranges em)(n := None)\<rparr>)))))"

section \<open>Initial registers\<close>

definition si_wavefront_init_sreg_with_value :: "nat \<Rightarrow> u32 \<Rightarrow> si_wavefront_t \<Rightarrow> si_wavefront_t" where
  "si_wavefront_init_sreg_with_value sreg v w = w\<lparr>wf_sreg := (wf_sreg w)(sreg := v)\<rparr>"

text \<open>The descriptor of a constant buffer: the 48 bits of its address, and 80 bits of junk.\<close>

definition si_wavefront_init_sreg_with_cb ::
  "u32 \<times> u32 \<times> u32 \<Rightarrow> nat \<Rightarrow> nat \<Rightarrow> nat \<Rightarrow> si_wavefront_t \<Rightarrow> si_wavefront_t res" where
  "si_wavefront_init_sreg_with_cb junk first_reg num_regs cb w =
     (let (j1, j2, j3) = junk;
          base_addr = scast (CONSTANT_MEMORY_START + of_nat cb * CONSTANT_BUFFER_SIZE) :: 48 word
      in if num_regs \<noteq> 4 then Inl Assert_failed
         else Inr (w\<lparr>wf_sreg := (wf_sreg w)(first_reg := ucast base_addr,
                first_reg + 1 := (ucast (drop_bit 32 base_addr)) OR (j1 AND 0xFFFF0000),
                first_reg + 2 := j2, first_reg + 3 := j3)\<rparr>))"

definition si_wavefront_init_sreg_with_uav_table :: "nat \<Rightarrow> nat \<Rightarrow> si_wavefront_t \<Rightarrow> si_wavefront_t res" where
  "si_wavefront_init_sreg_with_uav_table first_reg num_regs w =
     (if num_regs \<noteq> 2 then Inl Assert_failed
      else Inr (w\<lparr>wf_sreg := (wf_sreg w)(first_reg := UAV_TABLE_START, first_reg + 1 := 0)\<rparr>))"

definition init_user_element ::
  "u32 \<times> u32 \<times> u32 \<Rightarrow> si_bin_enc_user_element_t \<Rightarrow> si_wavefront_t \<Rightarrow> si_wavefront_t res" where
  "init_user_element junk ue w =
     (case ue_dataClass ue of
        IMM_CONST_BUFFER \<Rightarrow>
          si_wavefront_init_sreg_with_cb junk (ue_startUserReg ue) (ue_userRegCount ue) (ue_apiSlot ue) w
      | PTR_UAV_TABLE \<Rightarrow> si_wavefront_init_sreg_with_uav_table (ue_startUserReg ue) (ue_userRegCount ue) w
      | Other_user_class _ \<Rightarrow> Inl (Fatal ''Unimplemented User Element''))"

section \<open>The grid\<close>

text \<open>Three nested loops over the ranges of a triple, the last component outermost.\<close>

definition loop3 :: "nat \<times> nat \<times> nat \<Rightarrow> (nat \<times> nat \<times> nat) list" where
  "loop3 n = (case n of (nx, ny, nz) \<Rightarrow>
     concat (map (\<lambda>z. concat (map (\<lambda>y. map (\<lambda>x. (x, y, z)) [0..<nx]) [0..<ny])) [0..<nz]))"

definition si_emu_wavefront_size :: nat where "si_emu_wavefront_size = 64"

text \<open>The wavefront \<open>wid\<close>, inserted in the list of its work-group.\<close>

definition setup_wavefront :: "nat \<Rightarrow> si_ndrange_t \<Rightarrow> si_ndrange_t res" where
  "setup_wavefront wid nd =
     (let per = nd_wavefronts_per_work_group nd; gid = wid div per; g = nd_work_groups nd ! gid;
          w = si_wavefront_create\<lparr>wf_id := wid, wf_id_in_work_group := wid mod per, wf_work_group := gid,
                wf_scalar := si_work_item_create\<lparr>wi_wavefront := wid, wi_work_group := gid\<rparr>\<rparr>
      in res_bind (dl_insert_tail wid (wg_running g)) (\<lambda>running.
           Inr (put_wavefront wid w (put_group gid (g\<lparr>wg_running := running\<rparr>) nd))))"

text \<open>The body of the innermost loop: the work-item \<open>tid\<close> with local identifier \<open>lid\<close>. The
  wavefront's execution mask covers all its lanes.\<close>

definition setup_item :: "u32 \<times> u32 \<times> u32 \<Rightarrow> si_opencl_kernel_t \<Rightarrow> nat \<Rightarrow> nat \<times> nat \<times> nat \<Rightarrow>
    nat \<times> nat \<times> nat \<Rightarrow> si_ndrange_t \<times> nat \<times> nat \<Rightarrow> (si_ndrange_t \<times> nat \<times> nat) res" where
  "setup_item junk kn gid gidx3 lidx3 s =
     (let (nd, tid, lid) = s; (gidx, gidy, gidz) = gidx3; (lidx, lidy, lidz) = lidx3;
          (lx, ly, lz) = kn_local_size3 kn;
          wid = gid * nd_wavefronts_per_work_group nd + lid div si_emu_wavefront_size
      in if \<not> wid < nd_wavefront_count nd then Inl Assert_failed
         else
           let item = si_work_item_create\<lparr>
                 wi_id := tid, wi_id_3d := (gidx * lx + lidx, gidy * ly + lidy, gidz * lz + lidz),
                 wi_id_in_work_group_3d := (lidx, lidy, lidz), wi_id_in_work_group := lid,
                 wi_id_in_wavefront := lid mod si_emu_wavefront_size, wi_work_group := gid,
                 wi_wavefront := wid, wi_vreg := (\<lambda>_. 0)(0 := of_nat lidx, 1 := of_nat lidy, 2 := of_nat lidz)\<rparr>;
               w = nd_wavefronts nd ! wid;
               w = (if wf_work_item_count w = 0 then w\<lparr>wf_work_item_id_first := tid\<rparr> else w);
               w = w\<lparr>wf_work_item_count := wf_work_item_count w + 1, wf_work_item_id_last := tid,
                     wf_sreg := (wf_sreg w)(12 := of_nat gidx, 13 := of_nat gidy, 14 := of_nat gidz)\<rparr>
           in res_bind (res_fold (init_user_element junk) (kn_user_elements kn) w) (\<lambda>w.
                let w = w\<lparr>wf_sreg := (wf_sreg w)(SI_EXEC := 0xFFFFFFFF, SI_EXEC + 1 := 0xFFFFFFFF, SI_EXECZ := 0)\<rparr>
                in Inr (put_wavefront wid w (nd\<lparr>nd_work_items := (nd_work_items nd)[tid := item]\<rparr>),
                        tid + 1, lid + 1)))"

definition setup_group :: "u32 \<times> u32 \<times> u32 \<Rightarrow> si_opencl_kernel_t \<Rightarrow> nat \<times> nat \<times> nat \<Rightarrow>
    si_ndrange_t \<times> nat \<times> nat \<Rightarrow> (si_ndrange_t \<times> nat \<times> nat) res" where
  "setup_group junk kn gidx3 s =
     (let (nd, tid, gid) = s; g = nd_work_groups nd ! gid;
          nd = put_group gid (g\<lparr>wg_id_3d := gidx3, wg_id := gid\<rparr>) nd
      in res_bind (si_work_group_set_status gid si_work_group_pending nd) (\<lambda>nd.
           let g = nd_work_groups nd ! gid; per = nd_wavefronts_per_work_group nd;
               nd = put_group gid (g\<lparr>wg_work_item_id_first := tid,
                      wg_work_item_id_last := tid + kn_local_size kn, wg_work_item_count := kn_local_size kn,
                      wg_wavefront_id_first := gid * per, wg_wavefront_id_last := gid * per + per - 1,
                      wg_wavefront_count := per\<rparr>) nd
           in res_bind (res_fold (setup_item junk kn gid gidx3) (loop3 (kn_local_size3 kn)) (nd, tid, 0))
                (\<lambda>(nd, tid, lid). Inr (nd, tid, gid + 1))))"

text \<open>
  Every wavefront starts at the beginning of the code. The arrays are allocated with \<open>calloc\<close>: an
  element that is not assigned is a null pointer in the code and a blank object here, and an
  assignment past the end, which is outside the array in the code, has no effect here.
\<close>

definition si_ndrange_setup_work_items ::
  "u32 \<times> u32 \<times> u32 \<Rightarrow> si_opencl_kernel_t \<Rightarrow> si_ndrange_t \<Rightarrow> si_ndrange_t res" where
  "si_ndrange_setup_work_items junk kn nd =
     (let per = (kn_local_size kn + si_emu_wavefront_size - 1) div si_emu_wavefront_size;
          groups = kn_group_count kn; waves = per * groups
      in if \<not> (per > 0 \<and> waves > 0) then Inl Assert_failed
         else res_bind (res_fold setup_wavefront [0..<waves]
           (nd\<lparr>nd_work_group_count := groups, nd_work_groups := replicate groups si_work_group_create,
               nd_wavefronts_per_work_group := per, nd_wavefront_count := waves,
               nd_wavefronts := replicate waves si_wavefront_create\<rparr>)) (\<lambda>nd.
         res_bind (res_fold (setup_group junk kn) (loop3 (kn_group_count3 kn))
           (nd\<lparr>nd_work_item_count := kn_global_size kn,
               nd_work_items := replicate (kn_global_size kn) si_work_item_create\<rparr>, 0, 0)) (\<lambda>(nd, tid, gid).
         if kn_text kn = [] then Inl (Fatal ''cannot load kernel code'')
         else Inr (nd\<lparr>nd_text := kn_text kn,
                nd_wavefronts := map (\<lambda>w. w\<lparr>wf_pc := 0\<rparr>) (nd_wavefronts nd)\<rparr>))))"

section \<open>Constant memory and arguments\<close>

text \<open>The writes of \<open>si_ndrange_setup_const_mem\<close> to constant buffer 0, in order.\<close>

definition const_mem_words :: "si_opencl_kernel_t \<Rightarrow> (u32 \<times> u32) list" where
  "const_mem_words kn =
     (let (gx, gy, gz) = kn_global_size3 kn; (lx, ly, lz) = kn_local_size3 kn;
          (cx, cy, cz) = kn_group_count3 kn in
      [(0, of_nat gx), (4, of_nat gy), (8, of_nat gz), (12, of_nat (kn_work_dim kn)),
       (16, of_nat lx), (20, of_nat ly), (24, of_nat lz), (28, 0),
       (32, of_nat cx), (36, of_nat cy), (40, of_nat cz), (44, 0),
       (56, 0), (60, 0), (72, 0),
       (80, 0), (84, 0x3F000000), (88, 0x3F800000), (92, 0x40000000),
       (96, 0), (100, 0), (104, 0), (108, 0), (112, 0), (116, 0), (120, 0), (124, 0)])"

definition si_ndrange_setup_const_mem :: "si_opencl_kernel_t \<Rightarrow> si_emu_t \<Rightarrow> si_emu_t res" where
  "si_ndrange_setup_const_mem kn em =
     res_bind (res_fold (\<lambda>(offset, v) mem. si_isa_const_mem_write mem 0 offset v) (const_mem_words kn)
       (em_global_mem em)) (\<lambda>mem. Inr (em\<lparr>em_global_mem := mem\<rparr>))"

text \<open>
  One argument, with the index of the next word of constant buffer 1. A memory object is translated
  to its device address by the repository of OpenCL objects, the parameter \<open>device_ptr\<close>.
\<close>

definition setup_arg :: "(u32 \<Rightarrow> u32 res) \<Rightarrow> si_opencl_kernel_arg_t \<Rightarrow> mem_t \<times> u32 \<times> nat \<Rightarrow>
    (mem_t \<times> u32 \<times> nat) res" where
  "setup_arg device_ptr arg s =
     (let (mem, local_mem_top, cb_index) = s; offset = of_nat (cb_index * 4 * 4) in
      if \<not> ar_set arg then Inl (Fatal ''argument has not been assigned'')
      else case ar_kind arg of
        SI_ARG_VALUE \<Rightarrow>
          res_bind (si_isa_const_mem_write mem 1 offset (ar_value arg)) (\<lambda>mem. Inr (mem, local_mem_top, cb_index + 1))
      | SI_ARG_POINTER \<Rightarrow>
          (case ar_mem_scope arg of
             SI_MEM_LOCAL \<Rightarrow>
               res_bind (si_isa_const_mem_write mem 1 offset local_mem_top) (\<lambda>mem.
                 Inr (mem, local_mem_top + ar_size arg, cb_index + 1))
           | SI_MEM_OTHER \<Rightarrow> Inl (Fatal ''argument in memory scope not supported'')
           | _ \<Rightarrow>
               res_bind (device_ptr (ar_value arg)) (\<lambda>ptr.
               res_bind (si_isa_const_mem_write mem 1 offset ptr) (\<lambda>mem. Inr (mem, local_mem_top, cb_index + 1))))
      | SI_ARG_OTHER \<Rightarrow> Inl (Fatal ''argument type not reconized''))"

definition si_ndrange_setup_args :: "(u32 \<Rightarrow> u32 res) \<Rightarrow> si_opencl_kernel_t \<Rightarrow> nat \<Rightarrow> si_emu_t \<Rightarrow> si_emu_t res" where
  "si_ndrange_setup_args device_ptr kn n em =
     (let nd = the (em_ndranges em n) in
      res_bind (res_fold (setup_arg device_ptr) (kn_args kn) (em_global_mem em, nd_local_mem_top nd, 0))
        (\<lambda>(mem, top, _). Inr (put_ndrange n (nd\<lparr>nd_local_mem_top := top\<rparr>) (em\<lparr>em_global_mem := mem\<rparr>))))"

end
