(* ===== verification/SI_Emu.thy ===== *)
theory SI_Emu
  imports SI_Ndrange
begin

text \<open>
  The emulation loop of Southern Islands (\<open>si_emu_run\<close>, \<open>src/arch/southern-islands/emu/emu.c\<close>).
  Its loops follow linked lists that their bodies change, so they are partial functions:
  \<open>None\<close> is a loop that does not end, \<open>Some (Inl e)\<close> an abort.
\<close>

section \<open>Loops\<close>

fun list_next :: "nat \<Rightarrow> nat list \<Rightarrow> nat option" where
  "list_next x [] = None"
| "list_next x (y # ys) = (if x = y then (case ys of [] \<Rightarrow> None | z # _ \<Rightarrow> Some z) else list_next x ys)"

definition list_head :: "nat list \<Rightarrow> nat option" where
  "list_head xs = (case xs of [] \<Rightarrow> None | x # _ \<Rightarrow> Some x)"

text \<open>A sequential composition of steps that may abort or not end.\<close>

definition run_bind :: "'a res option \<Rightarrow> ('a \<Rightarrow> 'b res option) \<Rightarrow> 'b res option" where
  "run_bind m f = Option.bind m (\<lambda>r. case r of Inl e \<Rightarrow> Some (Inl e) | Inr x \<Rightarrow> f x)"

lemma run_bind_simps [simp]:
  "run_bind None f = None" "run_bind (Some (Inl e)) f = Some (Inl e)" "run_bind (Some (Inr x)) f = f x"
  by (simp_all add: run_bind_def)

lemma run_bind_mono [partial_function_mono]:
  assumes "mono_option B" "\<And>y. mono_option (C y)"
  shows "mono_option (\<lambda>f. run_bind (B f) (\<lambda>y. C y f))"
  unfolding run_bind_def using assms
  by (intro bind_mono) (auto simp: monotone_def flat_ord_def fun_ord_def split: sum.splits)

text \<open>
  \<open>for (x = head; x; x = next) { next = x->list_next; body; }\<close>: the successor is read before
  the body runs.
\<close>

partial_function (option) for_each ::
  "('s \<Rightarrow> nat list) \<Rightarrow> (nat \<Rightarrow> 's \<Rightarrow> 's res option) \<Rightarrow> nat option \<Rightarrow> 's \<Rightarrow> 's res option" where
  "for_each the_list body cur s =
     (case cur of
        None \<Rightarrow> Some (Inr s)
      | Some x \<Rightarrow> (let nxt = list_next x (the_list s) in
                  run_bind (body x s) (\<lambda>s. for_each the_list body nxt s)))"

text \<open>\<open>while ((x = head)) body;\<close>\<close>

partial_function (option) while_head ::
  "('s \<Rightarrow> nat list) \<Rightarrow> (nat \<Rightarrow> 's \<Rightarrow> 's res option) \<Rightarrow> 's \<Rightarrow> 's res option" where
  "while_head the_list body s =
     (case the_list s of
        [] \<Rightarrow> Some (Inr s)
      | x # _ \<Rightarrow> run_bind (body x s) (\<lambda>s. while_head the_list body s))"

section \<open>The emulation loop\<close>

text \<open>Pending ND-Ranges start: their pending work-groups start first.\<close>

definition start_group :: "nat \<Rightarrow> si_ndrange_t \<Rightarrow> si_ndrange_t res" where
  "start_group gid nd =
     res_bind (si_work_group_clear_status gid si_work_group_pending nd)
       (si_work_group_set_status gid si_work_group_running)"

definition start_ndrange :: "nat \<Rightarrow> si_emu_t \<Rightarrow> si_emu_t res option" where
  "start_ndrange n em =
     run_bind (while_head nd_pending (\<lambda>gid nd. Some (start_group gid nd)) (the (em_ndranges em n))) (\<lambda>nd.
       Some (res_bind (si_ndrange_clear_status n si_ndrange_pending (put_ndrange n nd em))
               (si_ndrange_set_status n si_ndrange_running)))"

definition wg_running_of :: "nat \<Rightarrow> nat \<Rightarrow> si_emu_t \<Rightarrow> nat list" where
  "wg_running_of n gid em = wg_running (nd_work_groups (the (em_ndranges em n)) ! gid)"

definition nd_running_of :: "nat \<Rightarrow> si_emu_t \<Rightarrow> nat list" where
  "nd_running_of n em = nd_running (the (em_ndranges em n))"

text \<open>One instruction of every running wavefront of a work-group, of an ND-Range, of all.\<close>

definition run_group :: "fp_ops \<Rightarrow> u32 \<Rightarrow> nat \<Rightarrow> nat \<Rightarrow> si_emu_t \<Rightarrow> si_emu_t res option" where
  "run_group fp junk n gid em =
     for_each (wg_running_of n gid) (\<lambda>wid em. Some (si_wavefront_execute fp junk n wid em))
       (list_head (wg_running_of n gid em)) em"

definition run_ndrange :: "fp_ops \<Rightarrow> u32 \<Rightarrow> nat \<Rightarrow> si_emu_t \<Rightarrow> si_emu_t res option" where
  "run_ndrange fp junk n em =
     for_each (nd_running_of n) (\<lambda>gid em. run_group fp junk n gid em) (list_head (nd_running_of n em)) em"

definition run_ndranges :: "fp_ops \<Rightarrow> u32 \<Rightarrow> si_emu_t \<Rightarrow> si_emu_t res option" where
  "run_ndranges fp junk em =
     for_each em_running (\<lambda>n em. run_ndrange fp junk n em) (list_head (em_running em)) em"

text \<open>A finished ND-Range is released; the limit on the number of kernels stops the simulation.\<close>

definition free_finished :: "nat \<Rightarrow> si_emu_t \<Rightarrow> si_emu_t res option" where
  "free_finished n em =
     Some (si_ndrange_free n
       (if em_max_kernels em \<noteq> 0 \<and> em_ndrange_count em \<ge> em_max_kernels em
        then em\<lparr>em_x86_finish := True\<rparr> else em))"

definition si_emu_run :: "fp_ops \<Rightarrow> u32 \<Rightarrow> si_emu_t \<Rightarrow> si_emu_t res option" where
  "si_emu_run fp junk em =
     (if em_ndrange_list em = [] then Some (Inr em)
      else
        run_bind (while_head em_pending start_ndrange em) (\<lambda>em.
        run_bind (run_ndranges fp junk em) (\<lambda>em.
          while_head em_finished free_finished em)))"

end
