(* ===== verification/SI_Props.thy ===== *)
theory SI_Props
  imports SI_Emu
begin

text \<open>
  Properties of the Southern Islands instructions: lane masks and carries, the zero flags and the
  inline constants, branches, the decoder, barriers.
\<close>

section \<open>Scalar registers\<close>

lemma sreg_write_same [simp]: "sreg_write r v s r = v"
  by (simp add: sreg_write_def si_regs Let_def)

lemma sreg_write_other: "q \<noteq> r \<Longrightarrow> q \<noteq> SI_VCCZ \<Longrightarrow> q \<noteq> SI_EXECZ \<Longrightarrow> sreg_write r v s q = s q"
  by (simp add: sreg_write_def Let_def)

lemma ctx_item_wave [simp]:
  "cx_item (si_isa_write_sreg r v c) = cx_item c" "cx_group (si_isa_write_sreg r v c) = cx_group c"
  "cx_global (si_isa_write_sreg r v c) = cx_global c"
  "wf_sreg (cx_wave (si_isa_write_sreg r v c)) = sreg_write r v (wf_sreg (cx_wave c))"
  "cx_wave (si_isa_write_vreg r v c) = cx_wave c" "cx_group (si_isa_write_vreg r v c) = cx_group c"
  "cx_global (si_isa_write_vreg r v c) = cx_global c"
  "wi_id_in_wavefront (cx_item (si_isa_write_vreg r v c)) = wi_id_in_wavefront (cx_item c)"
  "wi_vreg (cx_item (si_isa_write_vreg r v c)) = (wi_vreg (cx_item c))(r := v)"
  by (simp_all add: si_isa_write_sreg_def si_isa_write_vreg_def)

section \<open>Lane masks\<close>

text \<open>The register and the bit of a lane.\<close>

definition lane_reg :: "nat \<Rightarrow> nat \<Rightarrow> nat" where
  "lane_reg sreg k = (if k < 32 then sreg else sreg + 1)"

definition lane_bit :: "nat \<Rightarrow> nat" where
  "lane_bit k = (if k < 32 then k else k - 32)"

lemma lane_bit_less: "k < 64 \<Longrightarrow> lane_bit k < 32"
  unfolding lane_bit_def by auto

lemma lane_eq: "k < 64 \<Longrightarrow> j < 64 \<Longrightarrow> lane_reg s k = lane_reg s j \<Longrightarrow> lane_bit k = lane_bit j \<Longrightarrow> k = j"
  by (auto simp: lane_reg_def lane_bit_def split: if_splits)

lemma and_bit_shift: "n < 32 \<Longrightarrow> drop_bit n (x AND push_bit n 1) = (of_bool (bit x n) :: u32)"
  by (rule bit_word_eqI) (auto simp: bit_simps)

lemma read_bitmask_eq:
  "wi_id_in_wavefront (cx_item c) < 64 \<Longrightarrow> si_isa_read_bitmask_sreg c s =
     of_bool (bit (wf_sreg (cx_wave c) (lane_reg s (wi_id_in_wavefront (cx_item c))))
                  (lane_bit (wi_id_in_wavefront (cx_item c))))"
  by (cases "wi_id_in_wavefront (cx_item c) < 32")
    (simp_all add: si_isa_read_bitmask_sreg_def si_isa_read_sreg_def and_bit_shift Let_def lane_reg_def
      lane_bit_def less_diff_conv2 del: push_bit_of_1 drop_bit_and)

lemma bitmask_sreg_eq:
  "si_isa_bitmask_sreg s v c =
     (let k = wi_id_in_wavefront (cx_item c); r = lane_reg s k; x = wf_sreg (cx_wave c) r
      in si_isa_write_sreg r (if v \<noteq> 0 then set_bit (lane_bit k) x else unset_bit (lane_bit k) x) c)"
  by (simp add: si_isa_bitmask_sreg_def si_isa_read_sreg_def Let_def lane_reg_def
      lane_bit_def set_bit_eq_or unset_bit_eq_and_not)

lemma lane_reg_not_flag: "lane_reg s k \<noteq> lane_reg s j \<Longrightarrow>
  sreg_write (lane_reg s k) v f (lane_reg s j) = f (lane_reg s j)"
  by (auto simp: sreg_write_def Let_def lane_reg_def si_regs split: if_splits)

lemma bitmask_bit:
  assumes "wi_id_in_wavefront (cx_item c) < 64" "j < 64"
  shows "bit (wf_sreg (cx_wave (si_isa_bitmask_sreg s v c)) (lane_reg s j)) (lane_bit j) =
     (if j = wi_id_in_wavefront (cx_item c) then v \<noteq> 0
      else bit (wf_sreg (cx_wave c) (lane_reg s j)) (lane_bit j))"
proof -
  let ?k = "wi_id_in_wavefront (cx_item c)"
  show ?thesis
  proof (cases "lane_reg s j = lane_reg s ?k")
    case True
    then show ?thesis using assms lane_bit_less [of j] lane_bit_less [of ?k] lane_eq [of j ?k s]
      by (auto simp: bitmask_sreg_eq Let_def bit_simps)
  next
    case False
    then have "j \<noteq> ?k" by auto
    with False show ?thesis by (auto simp: bitmask_sreg_eq Let_def lane_reg_not_flag)
  qed
qed

lemma bitmask_item [simp]: "cx_item (si_isa_bitmask_sreg s v c) = cx_item c"
  "cx_group (si_isa_bitmask_sreg s v c) = cx_group c" "cx_global (si_isa_bitmask_sreg s v c) = cx_global c"
  by (simp_all add: bitmask_sreg_eq Let_def)

text \<open>Lane masks. What a lane writes into its bit of a 64-bit scalar mask is what this lane
  reads back, and the bits of all the other lanes are kept, whatever the register.\<close>

theorem lane_mask_roundtrip:
  assumes "wi_id_in_wavefront (cx_item c) < 64" "wi_id_in_wavefront it < 64"
  shows "si_isa_read_bitmask_sreg ((si_isa_bitmask_sreg s v c)\<lparr>cx_item := it\<rparr>) s =
     (if wi_id_in_wavefront it = wi_id_in_wavefront (cx_item c) then of_bool (v \<noteq> 0)
      else si_isa_read_bitmask_sreg (c\<lparr>cx_item := it\<rparr>) s)"
  using assms by (simp add: read_bitmask_eq bitmask_bit)

definition demo_item :: "nat \<Rightarrow> si_work_item_t" where
  "demo_item k = si_work_item_create\<lparr>wi_id_in_wavefront := k\<rparr>"

definition demo_ctx :: si_ctx where
  "demo_ctx = \<lparr>cx_wave = si_wavefront_create, cx_item = demo_item 40, cx_group = si_work_group_create,
     cx_global = mem_create False\<rparr>"

lemma demo_item_lane [simp]: "wi_id_in_wavefront (demo_item k) = k"
  by (simp add: demo_item_def)

lemma demo_ctx_item [simp]: "cx_item demo_ctx = demo_item 40"
  by (simp add: demo_ctx_def)

lemma lane_mask_roundtrip_witness:
  "si_isa_read_bitmask_sreg ((si_isa_bitmask_sreg SI_VCC 1 demo_ctx)\<lparr>cx_item := demo_item 40\<rparr>) SI_VCC = 1"
  using lane_mask_roundtrip [of demo_ctx "demo_item 40" SI_VCC 1] by simp

section \<open>Carries\<close>

lemma unat_u32_less: "unat (x :: u32) < 2 ^ 32"
  using unsigned_less [where 'a = nat and w = x] by simp

lemma unat_sum3_64:
  fixes x y z :: u32
  shows "unat (ucast x + ucast y + ucast z :: 64 word) = unat x + unat y + unat z"
  using unat_u32_less [of x] unat_u32_less [of y] unat_u32_less [of z]
  by (simp add: unat_word_ariths unsigned_ucast_eq take_bit_nat_eq_self)

lemma carry_out3_eq: "carry_out3 x y z = of_bool (2 ^ 32 \<le> unat x + unat y + unat z)"
proof -
  have "unat (drop_bit 32 (ucast x + ucast y + ucast z :: 64 word)) = (unat x + unat y + unat z) div 2 ^ 32"
    by (simp only: unat_drop_bit_eq unat_sum3_64) (simp add: drop_bit_eq_div)
  then have "drop_bit 32 (ucast x + ucast y + ucast z :: 64 word) = 0 \<longleftrightarrow> (unat x + unat y + unat z) div 2 ^ 32 = 0"
    by (metis unat_eq_zero)
  then show ?thesis by (simp add: carry_out3_def div_eq_0_iff not_less)
qed

lemma sum3_carry:
  assumes "unat z \<le> 1"
  shows "unat (x + y + z) + 2 ^ 32 * unat (carry_out3 x y z) = unat x + unat y + unat z"
proof -
  note b = unat_u32_less [of x] unat_u32_less [of y]
  have "unat (x + y + z) = (unat x + unat y + unat z) mod 2 ^ 32"
    by (simp add: unat_word_ariths mod_simps)
  moreover have "(unat x + unat y + unat z) mod 2 ^ 32 =
      (if 2 ^ 32 \<le> unat x + unat y + unat z then unat x + unat y + unat z - 2 ^ 32 else unat x + unat y + unat z)"
    using b assms by (simp add: mod_if)
  ultimately show ?thesis by (simp add: carry_out3_eq)
qed

lemma add_carry_eq: "of_bool (drop_bit 32 (ucast x + ucast y :: 64 word) \<noteq> 0) = carry_out3 x y 0"
  by (simp add: carry_out3_def)

text \<open>C21: a 64-bit addition in two instructions. \<open>V_ADD_I32\<close> on the low halves followed by
  \<open>V_ADDC_U32\<close> with \<open>VCC\<close> as carry-in on the high halves computes the exact 65-bit sum: the halves
  of the result in the destinations and the carry in the lane's bit of the scalar destination.\<close>

theorem add64_exact:
  assumes lane: "wi_id_in_wavefront (cx_item c) < 64"
    and regs: "b0 \<noteq> 255" "d0 \<noteq> a1" "d0 \<noteq> b1" "d0 \<noteq> d1"
  shows "\<exists>c1 c2.
     V_ADD_I32_impl \<lparr>vop2_src0 = 256 + a0, vop2_vsrc1 = b0, vop2_vdst = d0, vop2_lit_cnst = l\<rparr> c = Inr c1 \<and>
     V_ADDC_U32_VOP3b_impl \<lparr>vop3b_vdst = d1, vop3b_sdst = sd, vop3b_src0 = 256 + a1, vop3b_src1 = 256 + b1,
       vop3b_src2 = SI_VCC, vop3b_neg = 0\<rparr> c1 = Inr c2 \<and>
     unat (si_isa_read_vreg c2 d0) + 2 ^ 32 * unat (si_isa_read_vreg c2 d1) +
       2 ^ 64 * unat (si_isa_read_bitmask_sreg c2 sd) =
     unat (si_isa_read_vreg c a0) + 2 ^ 32 * unat (si_isa_read_vreg c a1) +
       (unat (si_isa_read_vreg c b0) + 2 ^ 32 * unat (si_isa_read_vreg c b1))"
proof -
  let ?v = "wi_vreg (cx_item c)" and ?k = "wi_id_in_wavefront (cx_item c)"
  let ?c1 = "si_isa_bitmask_sreg SI_VCC (carry_out3 (?v a0) (?v b0) 0) (si_isa_write_vreg d0 (?v a0 + ?v b0) c)"
  let ?ci = "carry_out3 (?v a0) (?v b0) 0"
  let ?c2 = "si_isa_bitmask_sreg sd (carry_out3 (?v a1) (?v b1) ?ci) (si_isa_write_vreg d1 (?v a1 + ?v b1 + ?ci) ?c1)"
  have one: "V_ADD_I32_impl \<lparr>vop2_src0 = 256 + a0, vop2_vsrc1 = b0, vop2_vdst = d0, vop2_lit_cnst = l\<rparr> c = Inr ?c1"
    using regs by (simp add: V_ADD_I32_impl_def vop2_srcs_def vector_src_def vector_vsrc_def si_isa_read_reg_def
        si_isa_read_vreg_def add_carry_eq)
  have ci: "si_isa_read_bitmask_sreg ?c1 SI_VCC = ?ci"
    using lane by (simp add: read_bitmask_eq bitmask_bit carry_out3_eq)
  have two: "V_ADDC_U32_VOP3b_impl \<lparr>vop3b_vdst = d1, vop3b_sdst = sd, vop3b_src0 = 256 + a1, vop3b_src1 = 256 + b1,
       vop3b_src2 = SI_VCC, vop3b_neg = 0\<rparr> ?c1 = Inr ?c2"
    using regs ci by (simp add: V_ADDC_U32_VOP3b_impl_def vop3b_srcs_def neg_mod_def si_isa_read_reg_def
        si_isa_read_vreg_def Let_def)
  have vals: "si_isa_read_vreg ?c2 d0 = ?v a0 + ?v b0" "si_isa_read_vreg ?c2 d1 = ?v a1 + ?v b1 + ?ci"
    "si_isa_read_bitmask_sreg ?c2 sd = carry_out3 (?v a1) (?v b1) ?ci"
    using regs lane by (simp_all add: si_isa_read_vreg_def read_bitmask_eq bitmask_bit carry_out3_eq)
  have "unat (?v a0 + ?v b0) + 2 ^ 32 * unat ?ci = unat (?v a0) + unat (?v b0)"
    using sum3_carry [of 0 "?v a0" "?v b0"] by simp
  moreover have "unat (?v a1 + ?v b1 + ?ci) + 2 ^ 32 * unat (carry_out3 (?v a1) (?v b1) ?ci) =
      unat (?v a1) + unat (?v b1) + unat ?ci"
    by (rule sum3_carry) (simp add: carry_out3_eq)
  ultimately have "unat (si_isa_read_vreg ?c2 d0) + 2 ^ 32 * unat (si_isa_read_vreg ?c2 d1) +
       2 ^ 64 * unat (si_isa_read_bitmask_sreg ?c2 sd) =
     unat (si_isa_read_vreg c a0) + 2 ^ 32 * unat (si_isa_read_vreg c a1) +
       (unat (si_isa_read_vreg c b0) + 2 ^ 32 * unat (si_isa_read_vreg c b1))"
    unfolding vals by (simp add: si_isa_read_vreg_def algebra_simps)
  with one two show ?thesis by blast
qed

lemma add64_exact_witness:
  "\<exists>c1 c2.
     V_ADD_I32_impl \<lparr>vop2_src0 = 256 + 0, vop2_vsrc1 = 2, vop2_vdst = 4, vop2_lit_cnst = 0\<rparr> demo_ctx = Inr c1 \<and>
     V_ADDC_U32_VOP3b_impl \<lparr>vop3b_vdst = 5, vop3b_sdst = SI_VCC, vop3b_src0 = 256 + 1, vop3b_src1 = 256 + 3,
       vop3b_src2 = SI_VCC, vop3b_neg = 0\<rparr> c1 = Inr c2 \<and>
     unat (si_isa_read_vreg c2 4) + 2 ^ 32 * unat (si_isa_read_vreg c2 5) +
       2 ^ 64 * unat (si_isa_read_bitmask_sreg c2 SI_VCC) =
     unat (si_isa_read_vreg demo_ctx 0) + 2 ^ 32 * unat (si_isa_read_vreg demo_ctx 1) +
       (unat (si_isa_read_vreg demo_ctx 2) + 2 ^ 32 * unat (si_isa_read_vreg demo_ctx 3))"
  using add64_exact [of demo_ctx 2 4 1 3 5 0 0 SI_VCC] by simp

section \<open>Zero flags and inline constants\<close>

lemma bits_less: "bits w lo n < 2 ^ n"
proof -
  have "unat (take_bit n (drop_bit lo w)) = take_bit n (unat (drop_bit lo w))"
    by (simp add: unsigned_take_bit_eq)
  then show ?thesis by (simp add: bits_def)
qed

inductive sreg_writes :: "nat set \<Rightarrow> (nat \<Rightarrow> u32) \<Rightarrow> (nat \<Rightarrow> u32) \<Rightarrow> bool" for A s where
  sw_refl: "sreg_writes A s s"
| sw_step: "sreg_writes A s t \<Longrightarrow> r \<in> A \<Longrightarrow> sreg_writes A s (sreg_write r v t)"

lemma sw_trans: "sreg_writes A t u \<Longrightarrow> sreg_writes A s t \<Longrightarrow> sreg_writes A s u"
  by (induction rule: sreg_writes.induct) (auto intro: sreg_writes.intros)

lemma sw_mono: "sreg_writes A s t \<Longrightarrow> A \<subseteq> B \<Longrightarrow> sreg_writes B s t"
  by (induction rule: sreg_writes.induct) (auto intro: sreg_writes.intros)

text \<open>
  The registers below \<open>n\<close> and the condition code; \<open>n\<close> is at least 128, which covers the masks \<open>VCC\<close> and
  \<open>EXEC\<close>.
\<close>

definition scalar_dsts :: "nat \<Rightarrow> nat set" where
  "scalar_dsts n = {r. r < n \<or> r < 128} \<union> {SI_SCC}"

definition ctx_writes :: "nat \<Rightarrow> si_ctx \<Rightarrow> si_ctx \<Rightarrow> bool" where
  "ctx_writes n c d \<longleftrightarrow> sreg_writes (scalar_dsts n) (wf_sreg (cx_wave c)) (wf_sreg (cx_wave d))"

lemma ctx_writes_sreg: "ctx_writes n c d \<Longrightarrow> r \<in> scalar_dsts n \<Longrightarrow> ctx_writes n c (si_isa_write_sreg r v d)"
  by (auto simp: ctx_writes_def intro: sw_step)

lemma ctx_writes_refl: "ctx_writes n c c"
  by (simp add: ctx_writes_def sw_refl)

lemma ctx_writes_vreg: "ctx_writes n c d \<Longrightarrow> ctx_writes n c (si_isa_write_vreg r v d)"
  by (simp add: ctx_writes_def)

lemma ctx_writes_upd:
  "ctx_writes n c d \<Longrightarrow> ctx_writes n c (d\<lparr>cx_global := m\<rparr>)" "ctx_writes n c d \<Longrightarrow> ctx_writes n c (d\<lparr>cx_group := g\<rparr>)"
  "ctx_writes n c d \<Longrightarrow> ctx_writes n c (d\<lparr>cx_wave := (cx_wave d)\<lparr>wf_pc := p\<rparr>\<rparr>)"
  "ctx_writes n c d \<Longrightarrow> ctx_writes n c (d\<lparr>cx_wave := (cx_wave d)\<lparr>wf_finished := b\<rparr>\<rparr>)"
  by (simp_all add: ctx_writes_def)

lemma ctx_writes_bitmask:
  "ctx_writes n c d \<Longrightarrow> r \<in> scalar_dsts n \<Longrightarrow> r + 1 \<in> scalar_dsts n \<Longrightarrow> ctx_writes n c (si_isa_bitmask_sreg r v d)"
  by (simp add: bitmask_sreg_eq Let_def ctx_writes_sreg lane_reg_def)

lemma ctx_writes_mono: "ctx_writes m c d \<Longrightarrow> m \<le> n \<Longrightarrow> ctx_writes n c d"
  by (auto simp: ctx_writes_def scalar_dsts_def intro: sw_mono)

lemma scc_dst: "SI_SCC \<in> scalar_dsts n"
  by (simp add: scalar_dsts_def)

lemma ctx_writes_nonzero: "ctx_writes n c d \<Longrightarrow> r \<in> scalar_dsts n \<Longrightarrow> ctx_writes n c (write_nonzero r v d)"
  by (simp add: write_nonzero_def ctx_writes_sreg scc_dst)

lemma ctx_writes_both:
  "ctx_writes n c d \<Longrightarrow> r \<in> scalar_dsts n \<Longrightarrow> r + 1 \<in> scalar_dsts n \<Longrightarrow> ctx_writes n c (write_both_nonzero r v x d)"
  by (simp add: write_both_nonzero_def ctx_writes_sreg scc_dst)

lemma ctx_writes_smrd:
  "smrd_load a r k m d = Inr e \<Longrightarrow> ctx_writes n c d \<Longrightarrow> r + k + m \<le> n \<Longrightarrow> ctx_writes n c e"
  by (induction a r k m d arbitrary: rule: smrd_load.induct)
    (fastforce simp: scalar_dsts_def intro: ctx_writes_sreg ctx_writes_upd)+

lemma ctx_writes_mtbuf:
  "mtbuf_load a r k m d = Inr e \<Longrightarrow> ctx_writes n c d \<Longrightarrow> ctx_writes n c e"
  "mtbuf_store a r k m d = Inr e \<Longrightarrow> ctx_writes n c d \<Longrightarrow> ctx_writes n c e"
  by (induction m arbitrary: k d) (fastforce intro: ctx_writes_vreg ctx_writes_upd)+

lemmas ctx_writes_intros = ctx_writes_refl ctx_writes_sreg ctx_writes_vreg ctx_writes_upd
  ctx_writes_bitmask ctx_writes_nonzero ctx_writes_both

lemma sdst_scalar:
  "r + 1 \<le> n \<Longrightarrow> r \<in> scalar_dsts n" "r + 2 \<le> n \<Longrightarrow> r + 1 \<in> scalar_dsts n" "r + 2 \<le> n \<Longrightarrow> Suc r \<in> scalar_dsts n"
  "SI_SCC \<in> scalar_dsts n" "SI_VCC \<in> scalar_dsts n" "SI_VCC + 1 \<in> scalar_dsts n" "SI_EXEC \<in> scalar_dsts n"
  "SI_EXEC + 1 \<in> scalar_dsts n" "Suc SI_VCC \<in> scalar_dsts n" "Suc SI_EXEC \<in> scalar_dsts n"
  by (auto simp: scalar_dsts_def si_regs)

lemmas S_impl_defs = S_ADD_I32_impl_def S_MIN_U32_impl_def S_AND_B32_impl_def S_AND_B64_impl_def
  S_ANDN2_B64_impl_def S_LSHL_B32_impl_def S_LSHR_B32_impl_def S_ASHR_I32_impl_def S_MUL_I32_impl_def
  S_MOVK_I32_impl_def S_ADDK_I32_impl_def S_MULK_I32_impl_def S_MOV_B32_impl_def S_MOV_B64_impl_def
  S_AND_SAVEEXEC_B64_impl_def S_CMP_EQ_I32_impl_def S_CMP_LE_U32_impl_def S_ENDPGM_impl_def
  S_BRANCH_impl_def S_CBRANCH_SCC0_impl_def S_CBRANCH_SCC1_impl_def S_CBRANCH_VCCZ_impl_def
  S_CBRANCH_EXECZ_impl_def S_BARRIER_impl_def S_WAITCNT_impl_def S_BUFFER_LOAD_DWORD_impl_def
  S_LOAD_DWORDX4_impl_def S_BUFFER_LOAD_DWORDX2_impl_def smrd_loadx_def

lemmas V_impl_defs = V_MOV_B32_VOP1_impl_def V_CVT_F32_I32_impl_def V_CVT_F32_U32_impl_def
  V_CVT_U32_F32_impl_def V_CVT_I32_F32_impl_def V_RCP_F32_impl_def V_ADD_F32_impl_def
  V_MUL_F32_impl_def V_MUL_I32_I24_impl_def V_LSHLREV_B32_impl_def V_OR_B32_impl_def
  V_MAC_F32_impl_def V_ADD_I32_impl_def V_SUB_I32_impl_def V_CNDMASK_B32_VOP3a_impl_def
  V_MAD_F32_impl_def V_MUL_LO_U32_impl_def V_MUL_HI_U32_impl_def V_MUL_LO_I32_impl_def
  V_CMP_LT_I32_impl_def V_CMP_GT_I32_impl_def V_CMP_NE_I32_impl_def V_CMP_LE_U32_impl_def
  V_CMP_GT_I32_VOP3b_impl_def V_CMP_NE_I32_VOP3b_impl_def V_CMP_GE_U32_VOP3b_impl_def
  V_ADDC_U32_VOP3b_impl_def DS_WRITE_B32_impl_def DS_READ_B32_impl_def
  T_BUFFER_LOAD_FORMAT_X_impl_def T_BUFFER_LOAD_FORMAT_XYZW_impl_def
  T_BUFFER_STORE_FORMAT_X_impl_def T_BUFFER_STORE_FORMAT_XYZW_impl_def

lemmas SI_fmt_defs = SI_INST_SOP2_def SI_INST_SOPK_def SI_INST_SOP1_def SI_INST_SMRD_def SI_INST_VOP3b_def

lemma bits7: "bits w lo 7 < 128"
  using bits_less [of w lo 7] by simp

lemma si_regs_less [simp]: "SI_EXEC < 128" "SI_VCC < 128"
  by (simp_all add: si_regs)

text \<open>
  The register after the last one that an instruction names as a scalar destination: the
  64-bit operations, the comparisons and the carries write a pair, the loads one, two or four
  registers. Instructions that write \<open>VCC\<close>, \<open>EXEC\<close> or \<open>SCC\<close> only name none.
\<close>

definition sdst_end :: "si_inst_enum \<Rightarrow> 64 word \<Rightarrow> nat" where
  "sdst_end i w =
     (case inst_fmt i of
        SI_FMT_SOP2 \<Rightarrow> sop2_sdst (SI_INST_SOP2 w) + (if i \<in> {SI_INST_S_AND_B64, SI_INST_S_ANDN2_B64} then 2 else 1)
      | SI_FMT_SOPK \<Rightarrow> sopk_sdst (SI_INST_SOPK w) + 1
      | SI_FMT_SOP1 \<Rightarrow> sop1_sdst (SI_INST_SOP1 w) + (if i \<in> {SI_INST_S_MOV_B64, SI_INST_S_AND_SAVEEXEC_B64} then 2 else 1)
      | SI_FMT_SMRD \<Rightarrow> smrd_sdst (SI_INST_SMRD w) +
          (if i = SI_INST_S_LOAD_DWORDX4 then 4 else if i = SI_INST_S_BUFFER_LOAD_DWORDX2 then 2 else 1)
      | SI_FMT_VOP3b \<Rightarrow>
          (if i = SI_INST_V_ADDC_U32_VOP3b then vop3b_sdst (SI_INST_VOP3b w) else vop3b_vdst (SI_INST_VOP3b w)) + 2
      | _ \<Rightarrow> 0)"

lemma inst_writes:
  assumes "si_isa_inst_func fp junk i w c = Inr d" "sdst_end i w \<le> n"
  shows "ctx_writes n c d"
proof (cases "is_scalar_fmt (inst_fmt i)")
  case True
  then show ?thesis
    using assms
    by (cases i) (auto simp: S_impl_defs SI_fmt_defs sdst_end_def Let_def is_scalar_fmt_def split: if_splits prod.splits
        intro!: ctx_writes_intros sdst_scalar dest!: ctx_writes_smrd, (erule ctx_writes_mono, simp)+)
next
  case False
  then show ?thesis
    using assms
    by (cases i) (auto simp: V_impl_defs SI_fmt_defs sdst_end_def Let_def is_scalar_fmt_def split: if_splits prod.splits
        intro!: ctx_writes_intros sdst_scalar dest!: ctx_writes_mtbuf)
qed

text \<open>
  \<open>si_sregs_ok n\<close>: the zero flags say whether their masks are zero, and the inline constants from
  register \<open>n\<close> on are there. The constants are the registers 128 to 247: the integers 0 to 64 and
  -1 to -16, and the floating-point ones.
\<close>

definition si_sregs_ok :: "nat \<Rightarrow> (nat \<Rightarrow> u32) \<Rightarrow> bool" where
  "si_sregs_ok n s \<longleftrightarrow>
     s SI_VCCZ = of_bool (s SI_VCC = 0 \<and> s (SI_VCC + 1) = 0) \<and>
     s SI_EXECZ = of_bool (s SI_EXEC = 0 \<and> s (SI_EXEC + 1) = 0) \<and>
     (\<forall>r. n \<le> r \<and> 128 \<le> r \<and> r < 248 \<longrightarrow> s r = si_wavefront_sreg_init (\<lambda>_. 0) r)"

lemma si_sregs_ok_write:
  assumes "si_sregs_ok n s" "r \<in> scalar_dsts n" "n \<le> 248"
  shows "si_sregs_ok n (sreg_write r v s)"
  using assms by (auto simp: si_sregs_ok_def scalar_dsts_def sreg_write_def both_zero_def Let_def si_regs)

lemma si_sregs_ok_writes: "sreg_writes (scalar_dsts n) s t \<Longrightarrow> si_sregs_ok n s \<Longrightarrow> n \<le> 248 \<Longrightarrow> si_sregs_ok n t"
  by (induction rule: sreg_writes.induct) (auto intro: si_sregs_ok_write)

lemma exec_items_sregs_ok:
  assumes "\<And>c d. f c = Inr d \<Longrightarrow> ctx_writes n c d" "n \<le> 248"
  shows "exec_items f ks c items = Inr (d, items') \<Longrightarrow> si_sregs_ok n (wf_sreg (cx_wave c)) \<Longrightarrow>
    si_sregs_ok n (wf_sreg (cx_wave d))"
proof (induction ks arbitrary: c items)
  case (Cons k ks)
  show ?case
  proof (cases "si_wavefront_work_item_active (cx_wave c) (wi_id_in_wavefront (items ! k))")
    case True
    with Cons.prems obtain e where e: "f (c\<lparr>cx_item := items ! k\<rparr>) = Inr e"
      "exec_items f ks e (items[k := cx_item e]) = Inr (d, items')" by auto
    have "si_sregs_ok n (wf_sreg (cx_wave e))"
      using assms(1) [OF e(1)] assms(2) Cons.prems(2) by (auto simp: ctx_writes_def intro: si_sregs_ok_writes)
    from Cons.IH [OF e(2) this] show ?thesis .
  next
    case False
    with Cons.prems Cons.IH show ?thesis by auto
  qed
qed auto

text \<open>
  The restriction of the following property to the registers from \<open>n\<close> on is needed: nothing
  stops a 64-bit destination that starts at \<open>EXEC_HI\<close> from overwriting the constant 0.
\<close>

lemma constant_overwritten:
  "si_isa_inst_func fp junk SI_INST_S_MOV_B64 0xBEFF0400 c =
     Inr (si_isa_write_sreg 128 (si_isa_read_sreg c 1) (si_isa_write_sreg 127 (si_isa_read_sreg c 0) c))"
  by (simp add: S_MOV_B64_impl_def SI_INST_SOP1_def bits_def take_bit_eq_mod drop_bit_eq_div)


definition demo_fp :: fp_ops where
  "demo_fp = \<lparr>fp_add = (\<lambda>x y. x), fp_mul = (\<lambda>x y. x), fp_rcp = id, fp_of_int = id, fp_of_uint = id,
     fp_to_int = id, fp_to_uint = id\<rparr>"

definition demo_flags :: si_ctx where
  "demo_flags = demo_ctx\<lparr>cx_wave := si_wavefront_create\<lparr>wf_sreg := (wf_sreg si_wavefront_create)(SI_VCCZ := 1, SI_EXECZ := 1)\<rparr>\<rparr>"

lemma demo_flags_ok: "si_sregs_ok 128 (wf_sreg (cx_wave demo_flags))"
  by (simp add: demo_flags_def si_wavefront_create_def si_wavefront_sreg_init_def si_sregs_ok_def si_regs)


section \<open>The decoder\<close>

lemma opcode_table_Some:
  "opcode_table es p t op = Some i \<Longrightarrow> (\<exists>f sz. (i, f, op, sz) \<in> set es \<and> p f) \<or> t op = Some i"
  by (induction es p t rule: opcode_table.induct) (fastforce split: if_splits)+

lemma si_inst_info_distinct: "distinct (map fst si_inst_info)"
  by (simp add: si_inst_info_def)

definition inst_opcode :: "si_inst_enum \<Rightarrow> nat" where
  "inst_opcode i = fst (snd (info_of i))"

lemma si_inst_info_tbl_Some:
  assumes "si_inst_info_tbl p op = Some i"
  shows "p (inst_fmt i) \<and> inst_opcode i = op"
proof -
  from assms obtain f sz where "(i, f, op, sz) \<in> set si_inst_info" "p f"
    using opcode_table_Some [of si_inst_info p "\<lambda>_. None" op i] by (auto simp: si_inst_info_tbl_def)
  then have "info_of i = (f, op, sz)"
    using si_inst_info_distinct by (simp add: info_of_def)
  with \<open>p f\<close> show ?thesis by (simp add: inst_fmt_def inst_opcode_def)
qed

text \<open>What the format says of an instruction word: its encoding field, its opcode field, whether it
  takes eight bytes, and whether it uses a literal constant.\<close>

definition fmt_encoding :: "si_fmt_enum \<Rightarrow> 64 word \<Rightarrow> bool" where
  "fmt_encoding f w \<longleftrightarrow>
     (f = SI_FMT_SOPP \<and> bits w 23 9 = 0x17F) \<or> (f = SI_FMT_SOPC \<and> bits w 23 9 = 0x17E) \<or>
     (f = SI_FMT_SOP1 \<and> bits w 23 9 = 0x17D) \<or> (f = SI_FMT_SOPK \<and> bits w 28 4 = 0xB) \<or>
     (f = SI_FMT_SOP2 \<and> bits w 30 2 = 0x2) \<or> (f = SI_FMT_SMRD \<and> bits w 27 5 = 0x18) \<or>
     (is_vop3 f \<and> bits w 26 6 = 0x34) \<or> (f = SI_FMT_VOPC \<and> bits w 25 7 = 0x3E) \<or>
     (f = SI_FMT_VOP1 \<and> bits w 25 7 = 0x3F) \<or> (f = SI_FMT_VOP2 \<and> bits w 31 1 = 0) \<or>
     (f = SI_FMT_DS \<and> bits w 26 6 = 0x36) \<or> (f = SI_FMT_MTBUF \<and> bits w 26 6 = 0x3A)"

definition fmt_opcode :: "si_fmt_enum \<Rightarrow> 64 word \<Rightarrow> nat" where
  "fmt_opcode f w =
     (if f = SI_FMT_SOPP \<or> f = SI_FMT_SOPC then bits w 16 7
      else if f = SI_FMT_SOP1 then bits w 8 8
      else if f = SI_FMT_SOPK then bits w 23 5
      else if f = SI_FMT_SOP2 then bits w 23 7
      else if f = SI_FMT_SMRD then bits w 22 5
      else if is_vop3 f then bits w 17 9
      else if f = SI_FMT_VOPC then bits w 17 8
      else if f = SI_FMT_VOP1 then bits w 9 8
      else if f = SI_FMT_VOP2 then bits w 25 6
      else if f = SI_FMT_DS then bits w 18 8
      else bits w 16 3)"

definition fmt_long :: "si_fmt_enum \<Rightarrow> bool" where
  "fmt_long f \<longleftrightarrow> is_vop3 f \<or> f = SI_FMT_DS \<or> f = SI_FMT_MTBUF"

definition fmt_literal :: "si_fmt_enum \<Rightarrow> 64 word \<Rightarrow> bool" where
  "fmt_literal f w \<longleftrightarrow>
     (f = SI_FMT_SOPC \<or> f = SI_FMT_SOP2) \<and> (bits w 0 8 = 0xFF \<or> bits w 8 8 = 0xFF) \<or>
     f = SI_FMT_SOP1 \<and> bits w 0 8 = 0xFF \<or>
     (f = SI_FMT_VOPC \<or> f = SI_FMT_VOP1 \<or> f = SI_FMT_VOP2) \<and> bits w 0 9 = 0xFF"

definition decoded :: "(si_inst_enum \<Rightarrow> nat) \<Rightarrow> 64 word \<Rightarrow> (si_inst_enum \<Rightarrow> nat) \<Rightarrow> si_inst_t \<Rightarrow> nat \<Rightarrow> bool" where
  "decoded sizes w sizes' inst n \<longleftrightarrow>
     (let i = inst_info inst; f = inst_fmt i; lit = fmt_literal f w in
        fmt_encoding f w \<and> inst_opcode i = fmt_opcode f w \<and>
        micro_inst inst = (if lit \<or> fmt_long f then w else take_bit 32 w) \<and>
        sizes' = (if lit then sizes(i := 8) else sizes) \<and> n = sizes' i)"

lemma decode_op_decoded:
  assumes "decode_op sizes (si_inst_info_tbl p op) lit long w = Inr (sizes', inst, n)"
    and "\<And>f. p f \<Longrightarrow> fmt_encoding f w \<and> fmt_opcode f w = op \<and> fmt_literal f w = lit \<and> fmt_long f = long"
  shows "decoded sizes w sizes' inst n"
proof -
  from assms(1) obtain i where i: "si_inst_info_tbl p op = Some i" "inst_info inst = i"
    "micro_inst inst = (if lit \<or> long then w else take_bit 32 w)"
    "sizes' = (if lit then sizes(i := 8) else sizes)" "n = sizes' i"
    by (auto simp: decode_op_def Let_def split: option.splits)
  from si_inst_info_tbl_Some [OF i(1)] assms(2) have
    "fmt_encoding (inst_fmt i) w" "fmt_opcode (inst_fmt i) w = op" "fmt_literal (inst_fmt i) w = lit"
    "fmt_long (inst_fmt i) = long" "inst_opcode i = op" by auto
  with i show ?thesis by (simp add: decoded_def Let_def)
qed

lemma decode_op_None: "decode_op sizes None lit long w = Inl Assert_failed"
  by (simp add: decode_op_def)

lemmas fmt_defs = fmt_encoding_def fmt_opcode_def fmt_literal_def fmt_long_def is_vop3_def

lemma si_inst_decode_decoded:
  assumes "si_inst_decode sizes w = Inr (sizes', inst, n)"
  shows "decoded sizes w sizes' inst n"
  using assms unfolding si_inst_decode_def Let_def
  by (auto simp: decode_op_None split: if_split_asm) (erule decode_op_decoded, auto simp: fmt_defs)+


text \<open>C37: decoding. An instruction that decodes has the encoding and the opcode of its table entry;
  it takes the whole eight bytes exactly when its format is long or it uses a literal constant; the
  size returned is the one in the table, where a literal constant has stored eight.\<close>

theorem si_inst_decode_correct:
  assumes "si_inst_decode sizes w = Inr (sizes', inst, n)"
  shows "let i = inst_info inst; f = inst_fmt i; lit = fmt_literal f w in
     fmt_encoding f w \<and> inst_opcode i = fmt_opcode f w \<and>
     micro_inst inst = (if lit \<or> fmt_long f then w else take_bit 32 w) \<and>
     sizes' = (if lit then sizes(i := 8) else sizes) \<and> n = sizes' i"
  using si_inst_decode_decoded [OF assms] by (simp only: decoded_def)

lemma demo_decode_literal:
  "si_inst_decode inst_sizes 0x5810001FF =
     Inr (inst_sizes(SI_INST_S_ADD_I32 := 8), \<lparr>inst_info = SI_INST_S_ADD_I32, micro_inst = 0x5810001FF\<rparr>, 8)"
proof -
  have "si_inst_info_tbl (\<lambda>f. f = SI_FMT_SOP2) 2 = Some SI_INST_S_ADD_I32" by code_simp
  then show ?thesis by (simp add: si_inst_decode_def decode_op_def bits_def Let_def take_bit_eq_mod drop_bit_eq_div)
qed

lemma demo_decode_short:
  "si_inst_decode sizes 0x81000100 =
     Inr (sizes, \<lparr>inst_info = SI_INST_S_ADD_I32, micro_inst = 0x81000100\<rparr>, sizes SI_INST_S_ADD_I32)"
proof -
  have "si_inst_info_tbl (\<lambda>f. f = SI_FMT_SOP2) 2 = Some SI_INST_S_ADD_I32" by code_simp
  then show ?thesis by (simp add: si_inst_decode_def decode_op_def bits_def Let_def take_bit_eq_mod drop_bit_eq_div)
qed

lemma si_inst_decode_correct_witness:
  "fmt_encoding SI_FMT_SOP2 0x81000100 \<and> inst_opcode SI_INST_S_ADD_I32 = fmt_opcode SI_FMT_SOP2 0x81000100"
  using si_inst_decode_correct [OF demo_decode_short [of inst_sizes]] by (simp add: Let_def)

text \<open>A sequence of decodes, each with the table that the ones before it left.\<close>

fun si_inst_decodes :: "(si_inst_enum \<Rightarrow> nat) \<Rightarrow> 64 word list \<Rightarrow>
    ((si_inst_enum \<Rightarrow> nat) \<times> (si_inst_t \<times> nat) list) res" where
  "si_inst_decodes sizes [] = Inr (sizes, [])"
| "si_inst_decodes sizes (w # ws) =
     res_bind (si_inst_decode sizes w) (\<lambda>(sizes, inst, n).
     res_bind (si_inst_decodes sizes ws) (\<lambda>(sizes, rs). Inr (sizes, (inst, n) # rs)))"

lemma decodes_size:
  "si_inst_decodes sizes ws = Inr (sizes', rs) \<Longrightarrow> sizes i = 8 \<Longrightarrow>
   length rs = length ws \<and> (\<forall>(w, inst, n) \<in> set (zip ws rs). inst_info inst = i \<longrightarrow> n = 8 \<and>
     (\<not> fmt_literal (inst_fmt i) w \<and> \<not> fmt_long (inst_fmt i) \<longrightarrow> micro_inst inst = take_bit 32 w))"
proof (induction ws arbitrary: sizes rs)
  case (Cons w ws)
  from Cons.prems(1) obtain sizes1 inst n rs' where
    1: "si_inst_decode sizes w = Inr (sizes1, inst, n)" "si_inst_decodes sizes1 ws = Inr (sizes', rs')"
      "rs = (inst, n) # rs'" by auto
  note d = si_inst_decode_decoded [OF 1(1)]
  have "sizes1 i = 8" using d Cons.prems(2) by (auto simp: decoded_def Let_def)
  from Cons.IH [OF 1(2) this] d this show ?case by (auto simp: 1(3) decoded_def Let_def)
qed simp

text \<open>C38: the size of an instruction with a literal constant sticks. Once an instance of an opcode
  with a literal has been decoded, then in whatever sequence of instructions is decoded after it, every
  instance of that opcode is reported to be eight bytes long, also those without a literal,
  of which only the four bytes they have are kept.\<close>

theorem decode_size_sticks:
  assumes "si_inst_decode sizes w = Inr (sizes1, inst, n)" "fmt_literal (inst_fmt (inst_info inst)) w"
    and "si_inst_decodes sizes1 ws = Inr (sizes2, rs)"
  shows "length rs = length ws \<and> (\<forall>(w', inst', n') \<in> set (zip ws rs). inst_info inst' = inst_info inst \<longrightarrow> n' = 8 \<and>
    (\<not> fmt_literal (inst_fmt (inst_info inst)) w' \<and> \<not> fmt_long (inst_fmt (inst_info inst)) \<longrightarrow>
       micro_inst inst' = take_bit 32 w'))"
proof (rule decodes_size [OF assms(3)])
  show "sizes1 (inst_info inst) = 8"
    using si_inst_decode_decoded [OF assms(1)] assms(2) by (simp add: decoded_def Let_def)
qed

lemma demo_decode_movk:
  "si_inst_decode sizes 0xB06A0007 =
     Inr (sizes, \<lparr>inst_info = SI_INST_S_MOVK_I32, micro_inst = 0xB06A0007\<rparr>, sizes SI_INST_S_MOVK_I32)"
proof -
  have "si_inst_info_tbl (\<lambda>f. f = SI_FMT_SOPK) 0 = Some SI_INST_S_MOVK_I32" by code_simp
  then show ?thesis by (simp add: si_inst_decode_def decode_op_def bits_def Let_def take_bit_eq_mod drop_bit_eq_div)
qed

text \<open>\<open>s_add_i32\<close> with a literal, then \<open>s_movk_i32\<close>, then \<open>s_add_i32\<close> without one.\<close>

lemma decode_size_sticks_witness:
  "\<exists>s1 s2 i1 i2 i3 n2 n3. si_inst_decode inst_sizes 0x5810001FF = Inr (s1, i1, 8) \<and>
     si_inst_decodes s1 [0xB06A0007, 0x81000100] = Inr (s2, [(i2, n2), (i3, n3)]) \<and> n3 = 8 \<and> inst_sizes (inst_info i3) = 4"
proof -
  let ?s = "inst_sizes(SI_INST_S_ADD_I32 := 8)"
  have "fmt_literal SI_FMT_SOP2 0x5810001FF"
    by (simp add: fmt_defs bits_def take_bit_eq_mod drop_bit_eq_div)
  moreover have d: "si_inst_decodes ?s [0xB06A0007, 0x81000100] =
      Inr (?s, [(\<lparr>inst_info = SI_INST_S_MOVK_I32, micro_inst = 0xB06A0007\<rparr>, ?s SI_INST_S_MOVK_I32),
        (\<lparr>inst_info = SI_INST_S_ADD_I32, micro_inst = 0x81000100\<rparr>, ?s SI_INST_S_ADD_I32)])"
    by (simp only: si_inst_decodes.simps demo_decode_movk demo_decode_short res_bind_simps prod.case)
  ultimately have 8: "?s SI_INST_S_ADD_I32 = 8"
    using decode_size_sticks [OF demo_decode_literal _ d] by simp
  have 4: "inst_sizes SI_INST_S_ADD_I32 = 4" by (simp add: inst_sizes_def info_of_def si_inst_info_def)
  show ?thesis
    by (intro exI conjI, rule demo_decode_literal, rule d, rule 8) (simp add: 4)
qed

section \<open>Branches\<close>

lemma simm16_take: "(ucast (take_bit 32 i :: 64 word) :: 16 word) = ucast i"
  by (rule bit_word_eqI) (auto simp: bit_simps)

text \<open>The target of a branch. \<open>S_BRANCH\<close> at address \<open>pc\<close> continues at
  \<open>pc + 4 * simm16 + 4\<close> plus the four bytes of the branch itself: the handler moves the instruction
  pointer to the target and the wavefront advances it once more.\<close>

theorem branch_target:
  assumes "em_ndranges em n = Some nd" "wid < length (nd_wavefronts nd)" "w = nd_wavefronts nd ! wid"
    and "wid \<notin> set (wg_finished (nd_work_groups nd ! wf_work_group w))" "\<not> wf_finished w"
    and "i = fetch (nd_text nd) (wf_pc w)" "bits i 23 9 = 0x17F" "bits i 16 7 = 2"
    and "em_sizes em SI_INST_S_BRANCH = 4"
  shows "\<exists>em'. si_wavefront_execute fp junk n wid em = Inr em' \<and>
     wf_pc (nd_wavefronts (the (em_ndranges em' n)) ! wid) =
       uint (of_int (wf_pc w) + scast (ucast i :: 16 word) * 4 + 4 :: u32) + 4"
proof -
  have tbl: "si_inst_info_tbl (\<lambda>f. f = SI_FMT_SOPP) 2 = Some SI_INST_S_BRANCH" by code_simp
  have dec: "si_inst_decode (em_sizes em) i =
      Inr (em_sizes em, \<lparr>inst_info = SI_INST_S_BRANCH, micro_inst = take_bit 32 i\<rparr>, 4)"
    using assms(7-9) tbl by (simp add: si_inst_decode_def decode_op_def Let_def)
  show ?thesis
    using assms(1-6) dec
    by (simp add: si_wavefront_execute_def exec_commit_def exec_ctx_def Let_def exec_inst_def is_scalar_fmt_def S_BRANCH_impl_def
        SI_INST_SOPP_def simm16_take wf_stats_def em_stats_def inst_buf_advance_def put_ndrange_def put_wavefront_def
        put_group_def)
qed

definition demo_nd :: "u8 list \<Rightarrow> si_ndrange_t" where
  "demo_nd code = \<lparr>nd_id = 0, nd_status = 2, nd_text = code,
     nd_work_groups = [si_work_group_create\<lparr>wg_status := 2, wg_running := [0], wg_wavefront_count := 1\<rparr>],
     nd_wavefronts = [si_wavefront_create], nd_work_items = [si_work_item_create], nd_work_group_count = 1,
     nd_wavefront_count = 1, nd_work_item_count = 1, nd_wavefronts_per_work_group = 1, nd_pending = [],
     nd_running = [0], nd_finished = [], nd_local_mem_top = 0\<rparr>"

definition demo_emu :: "u8 list \<Rightarrow> si_emu_t" where
  "demo_emu code = \<lparr>em_sizes = inst_sizes, em_global_mem = mem_create False,
     em_ndranges = (\<lambda>n. if n = 0 then Some (demo_nd code) else None), em_ndrange_list = [0], em_pending = [],
     em_running = [0], em_finished = [], em_ndrange_count = 1, em_max_kernels = 0, em_x86_finish = False,
     em_inst_count = 0, em_scalar_alu_inst_count = 0, em_scalar_mem_inst_count = 0,
     em_vector_alu_inst_count = 0, em_vector_mem_inst_count = 0\<rparr>"

text \<open>The code \<open>s_branch 1\<close>: the target is the third word, and the fourth is executed.\<close>

lemma branch_target_witness:
  "\<exists>em'. si_wavefront_execute demo_fp 0 0 0 (demo_emu [1, 0, 0x82, 0xBF]) = Inr em' \<and>
     wf_pc (nd_wavefronts (the (em_ndranges em' 0)) ! 0) = 12"
proof -
  have f: "fetch [1, 0, 0x82, 0xBF] 0 = 0xBF820001" by (simp add: fetch_def upt_rec horner_sum_simps)
  have s: "inst_sizes SI_INST_S_BRANCH = 4" by (simp add: inst_sizes_def info_of_def si_inst_info_def)
  show ?thesis
    using branch_target [where em = "demo_emu [1, 0, 0x82, 0xBF]" and n = 0 and nd = "demo_nd [1, 0, 0x82, 0xBF]"
        and wid = 0 and w = si_wavefront_create and i = "0xBF820001" and fp = demo_fp and junk = 0] f s
    by (simp add: demo_emu_def demo_nd_def si_wavefront_create_def si_work_group_create_def bits_def
        take_bit_eq_mod drop_bit_eq_div)
qed

end
