(* ===== verification/SI_Run.thy ===== *)
theory SI_Run
  imports SI_Props
begin

text \<open>
  The emulation loop of Southern Islands executes one instruction of every running wavefront: the
  invariant of the lists of wavefronts and work-groups, its preservation by the execution of an
  instruction (barriers and the end of wavefronts included), and the equivalence of the loops over
  changing linked lists with an iteration over the lists as they were.
\<close>

section \<open>Effect of an instruction on the lists of its work-group\<close>

definition wg_lists :: "si_work_group_t \<Rightarrow> nat list \<times> nat list \<times> nat list \<times> nat" where
  "wg_lists g = (wg_running g, wg_barrier g, wg_finished g, wg_wavefront_count g)"

definition wf_ident :: "si_wavefront_t \<Rightarrow> nat \<times> nat \<times> nat \<times> nat \<times> nat \<times> nat" where
  "wf_ident w = (wf_id w, wf_work_group w, wf_work_item_id_first w, wf_work_item_id_last w,
     wf_inst_size w, wf_inst_count w)"

definition ctx_same :: "si_ctx \<Rightarrow> si_ctx \<Rightarrow> bool" where
  "ctx_same c d \<longleftrightarrow> wg_lists (cx_group d) = wg_lists (cx_group c) \<and> wf_ident (cx_wave d) = wf_ident (cx_wave c)"

lemma ctx_same_refl: "ctx_same c c"
  by (simp add: ctx_same_def)

lemma ctx_same_trans: "ctx_same c d \<Longrightarrow> ctx_same d e \<Longrightarrow> ctx_same c e"
  by (simp add: ctx_same_def)

lemma ctx_same_intros:
  "ctx_same c d \<Longrightarrow> ctx_same c (si_isa_write_sreg r v d)"
  "ctx_same c d \<Longrightarrow> ctx_same c (si_isa_write_vreg r v d)"
  "ctx_same c d \<Longrightarrow> ctx_same c (d\<lparr>cx_global := m\<rparr>)" "ctx_same c d \<Longrightarrow> ctx_same c (d\<lparr>cx_item := it\<rparr>)"
  "ctx_same c d \<Longrightarrow> ctx_same c (d\<lparr>cx_group := (cx_group d)\<lparr>wg_local_mem := m\<rparr>\<rparr>)"
  "ctx_same c d \<Longrightarrow> ctx_same c (d\<lparr>cx_wave := (cx_wave d)\<lparr>wf_pc := p\<rparr>\<rparr>)"
  "ctx_same c d \<Longrightarrow> ctx_same c (d\<lparr>cx_wave := (cx_wave d)\<lparr>wf_finished := b\<rparr>\<rparr>)"
  by (simp_all add: ctx_same_def si_isa_write_sreg_def si_isa_write_vreg_def wf_ident_def wg_lists_def)

lemma ctx_same_derived:
  "ctx_same c d \<Longrightarrow> ctx_same c (si_isa_bitmask_sreg r v d)"
  "ctx_same c d \<Longrightarrow> ctx_same c (write_nonzero r v d)"
  "ctx_same c d \<Longrightarrow> ctx_same c (write_both_nonzero r v x d)"
  by (simp_all add: bitmask_sreg_eq Let_def write_nonzero_def write_both_nonzero_def ctx_same_intros)

lemma ctx_same_loops:
  "smrd_load a r k n d = Inr e \<Longrightarrow> ctx_same c d \<Longrightarrow> ctx_same c e"
  "mtbuf_load a r k n d = Inr e \<Longrightarrow> ctx_same c d \<Longrightarrow> ctx_same c e"
  "mtbuf_store a r k n d = Inr e \<Longrightarrow> ctx_same c d \<Longrightarrow> ctx_same c e"
  by (induction n arbitrary: k d) (fastforce intro: ctx_same_intros)+

lemma inst_same:
  assumes "si_isa_inst_func fp junk i w c = Inr d" "i \<noteq> SI_INST_S_BARRIER"
  shows "ctx_same c d"
proof (cases "is_scalar_fmt (inst_fmt i)")
  case True
  with assms show ?thesis
    by (cases i) (auto simp: S_impl_defs Let_def is_scalar_fmt_def split: if_splits prod.splits
        intro!: ctx_same_refl ctx_same_intros ctx_same_derived dest!: ctx_same_loops)
next
  case False
  with assms show ?thesis
    by (cases i) (auto simp: V_impl_defs Let_def is_scalar_fmt_def split: if_splits prod.splits
        intro!: ctx_same_refl ctx_same_intros ctx_same_derived dest!: ctx_same_loops)
qed

section \<open>Barriers\<close>

text \<open>All the wavefronts of a work-group are in exactly one of its lists.\<close>

definition wg_all :: "si_work_group_t \<Rightarrow> nat list" where
  "wg_all g = wg_running g @ wg_barrier g @ wg_finished g"

definition wg_ok :: "si_work_group_t \<Rightarrow> bool" where
  "wg_ok g \<longleftrightarrow> distinct (wg_all g) \<and> length (wg_all g) = wg_wavefront_count g"

lemma length_remove1_mem: "x \<in> set xs \<Longrightarrow> Suc (length (remove1 x xs)) = length xs"
  using length_pos_if_in_set [of x xs] by (simp add: length_remove1)

lemma barrier_wakeup_ok: "distinct (running @ ws) \<Longrightarrow> barrier_wakeup ws running = Inr (running @ ws)"
  by (induction ws arbitrary: running) (auto simp: dl_insert_tail_def)

text \<open>A barrier in a consistent work-group: the wavefront waits, unless all the others wait, and
  then they all run again in the order in which they arrived.\<close>

lemma barrier_reach_eq:
  assumes "wg_ok g" "w \<in> set (wg_running g)"
  shows "barrier_reach w g = Inr
    (if wg_running g = [w] \<and> wg_finished g = []
     then g\<lparr>wg_running := wg_barrier g @ [w], wg_barrier := []\<rparr>
     else g\<lparr>wg_running := remove1 w (wg_running g), wg_barrier := wg_barrier g @ [w]\<rparr>)"
proof -
  have d: "distinct (wg_running g)" "distinct (wg_barrier g)" "w \<notin> set (wg_barrier g)"
    and l: "length (wg_running g) + length (wg_barrier g) + length (wg_finished g) = wg_wavefront_count g"
    using assms by (auto simp: wg_ok_def wg_all_def)
  have all: "length (wg_barrier g) + 1 = wg_wavefront_count g \<longleftrightarrow> wg_running g = [w] \<and> wg_finished g = []"
  proof -
    have "0 < length (wg_running g)" by (rule length_pos_if_in_set [OF assms(2)])
    then have "length (wg_barrier g) + 1 = wg_wavefront_count g \<longleftrightarrow>
        length (wg_running g) = 1 \<and> length (wg_finished g) = 0" using l by linarith
    moreover have "length (wg_running g) = 1 \<longleftrightarrow> wg_running g = [w]"
      using assms(2) by (auto simp: length_Suc_conv)
    ultimately show ?thesis by simp
  qed
  show ?thesis
  proof (cases "wg_running g = [w] \<and> wg_finished g = []")
    case True
    then have "barrier_wakeup (wg_barrier g @ [w]) [] = Inr (wg_barrier g @ [w])"
      using barrier_wakeup_ok [of "[]" "wg_barrier g @ [w]"] d by simp
    with True all d l show ?thesis by (simp add: barrier_reach_def dl_remove_def dl_insert_tail_def Let_def)
  next
    case False
    with all d assms(2) show ?thesis by (auto simp: barrier_reach_def dl_remove_def dl_insert_tail_def Let_def)
  qed
qed


text \<open>C36: barriers. When the wavefronts of a work-group are distributed over its lists, a running
  wavefront that reaches a barrier never fails: it waits, and the lists stay consistent with the
  same wavefronts; if it was the last one, and none has finished, all of them run again in the order
  of arrival.\<close>

theorem barrier_reach_correct:
  assumes "wg_ok g" "w \<in> set (wg_running g)"
  shows "\<exists>g'. barrier_reach w g = Inr g' \<and> wg_ok g' \<and> set (wg_all g') = set (wg_all g) \<and>
     (if wg_running g = [w] \<and> wg_finished g = [] then wg_running g' = wg_barrier g @ [w] \<and> wg_barrier g' = []
      else wg_running g' = remove1 w (wg_running g) \<and> wg_barrier g' = wg_barrier g @ [w])"
proof (cases "wg_running g = [w] \<and> wg_finished g = []")
  case True
  with assms show ?thesis by (auto simp: barrier_reach_eq [OF assms] wg_ok_def wg_all_def)
next
  case False
  with False assms length_remove1_mem [OF assms(2)] show ?thesis
    by (simp add: barrier_reach_eq [OF assms] wg_ok_def wg_all_def set_remove1_eq) auto
qed

lemma barrier_reach_correct_witness:
  "\<exists>g'. barrier_reach 1 (si_work_group_create\<lparr>wg_running := [1], wg_barrier := [2, 0], wg_wavefront_count := 3\<rparr>) = Inr g' \<and>
     wg_running g' = [2, 0, 1]"
  using barrier_reach_correct [of "si_work_group_create\<lparr>wg_running := [1], wg_barrier := [2, 0], wg_wavefront_count := 3\<rparr>" 1]
  by (auto simp: wg_ok_def wg_all_def si_work_group_create_def)


section \<open>Effect of an execution\<close>

lemma exec_items_same:
  assumes "\<And>c d. f c = Inr d \<Longrightarrow> ctx_same c d"
  shows "exec_items f ks c items = Inr (d, items') \<Longrightarrow> ctx_same c d"
proof (induction ks arbitrary: c items)
  case (Cons k ks)
  show ?case
  proof (cases "si_wavefront_work_item_active (cx_wave c) (wi_id_in_wavefront (items ! k))")
    case True
    with Cons.prems obtain e where e: "f (c\<lparr>cx_item := items ! k\<rparr>) = Inr e"
      "exec_items f ks e (items[k := cx_item e]) = Inr (d, items')" by auto
    have "ctx_same c e" using assms [OF e(1)] by (simp add: ctx_same_def)
    with Cons.IH [OF e(2)] show ?thesis by (rule ctx_same_trans [rotated])
  next
    case False
    with Cons.prems Cons.IH show ?thesis by auto
  qed
qed (simp add: ctx_same_refl)

lemma exec_inst_group:
  assumes "exec_inst fp junk inst c items = Inr (d, items')"
  shows "wf_ident (cx_wave d) = wf_ident (cx_wave c) \<and>
    (wg_lists (cx_group d) = wg_lists (cx_group c) \<or>
     barrier_reach (wf_id (cx_wave c)) (cx_group c) = Inr (cx_group d))"
proof (cases "inst_info inst = SI_INST_S_BARRIER")
  case True
  with assms show ?thesis
    by (auto simp: exec_inst_def Let_def is_scalar_fmt_def S_BARRIER_impl_def wf_ident_def)
next
  case False
  let ?f = "si_isa_inst_func fp junk (inst_info inst) (micro_inst inst)"
  have s: "\<And>c d. ?f c = Inr d \<Longrightarrow> ctx_same c d" using inst_same False by blast
  have "ctx_same c d"
  proof (cases "is_scalar_fmt (inst_fmt (inst_info inst))")
    case True
    with assms obtain e where e: "?f (c\<lparr>cx_item := wf_scalar (cx_wave c)\<rparr>) = Inr e"
      "d = e\<lparr>cx_wave := (cx_wave e)\<lparr>wf_scalar := cx_item e\<rparr>\<rparr>" by (auto simp: exec_inst_def Let_def)
    from s [OF e(1)] show ?thesis by (simp add: e(2) ctx_same_def wf_ident_def)
  next
    case False
    with assms have "exec_items ?f [wf_work_item_id_first (cx_wave c)..<wf_work_item_id_last (cx_wave c) + 1] c items
        = Inr (d, items')" by (auto simp: exec_inst_def Let_def split: if_splits)
    with exec_items_same [OF s] show ?thesis by blast
  qed
  then show ?thesis by (simp add: ctx_same_def)
qed

text \<open>What a step leaves of the other parts of an ND-Range.\<close>

definition nd_frame :: "nat \<Rightarrow> si_ndrange_t \<Rightarrow> si_ndrange_t \<Rightarrow> bool" where
  "nd_frame gid nd nd' \<longleftrightarrow>
     length (nd_work_groups nd') = length (nd_work_groups nd) \<and>
     (\<forall>k. k \<noteq> gid \<longrightarrow> nd_work_groups nd' ! k = nd_work_groups nd ! k) \<and>
     nd_wavefronts nd' = nd_wavefronts nd \<and>
     (nd_running nd' = nd_running nd \<or> nd_running nd' = remove1 gid (nd_running nd))"

lemma on_bit_zero: "status AND b = 0 \<Longrightarrow> on_bit status b f xs = Inr xs"
  by (simp add: on_bit_def)

lemma on_bit_remove: "on_bit status b (dl_remove x) xs = Inr ys \<Longrightarrow> ys = xs \<or> ys = remove1 x xs"
  by (auto simp: on_bit_def dl_remove_def split: if_splits)

lemma status_bits: "(x AND 4) AND 2 = (0 :: u32)" "(4 AND x) AND 2 = (0 :: u32)"
proof -
  show "(x AND 4) AND 2 = (0 :: u32)" by (simp add: and.assoc)
  then show "(4 AND x) AND 2 = (0 :: u32)" by (simp add: and.commute)
qed

lemma wg_lists_status: "wg_lists (gs[k := (gs ! k)\<lparr>wg_status := s\<rparr>] ! k) = wg_lists (gs ! k)"
  by (cases "k < length gs") (simp_all add: wg_lists_def list_update_beyond)

lemma clear_running_frame:
  assumes "si_work_group_clear_status gid si_work_group_running nd = Inr nd'"
  shows "nd_frame gid nd nd' \<and> wg_lists (nd_work_groups nd' ! gid) = wg_lists (nd_work_groups nd ! gid)"
  using assms
  by (auto simp: si_work_group_clear_status_def Let_def nd_frame_def put_group_def wg_lists_status
      dest: on_bit_remove)

lemma set_finished_frame:
  assumes "si_work_group_set_status gid si_work_group_finished nd = Inr nd'"
  shows "nd_frame gid nd nd' \<and> wg_lists (nd_work_groups nd' ! gid) = wg_lists (nd_work_groups nd ! gid) \<and>
    nd_running nd' = nd_running nd"
  using assms
  by (auto simp: si_work_group_set_status_def Let_def nd_frame_def put_group_def wg_lists_status
      on_bit_zero status_bits si_work_group_finished_def si_work_group_running_def)

definition em_frame :: "nat \<Rightarrow> si_emu_t \<Rightarrow> si_emu_t \<Rightarrow> bool" where
  "em_frame n em em' \<longleftrightarrow>
     em_ndranges em' n \<noteq> None \<and> (\<forall>k. k \<noteq> n \<longrightarrow> em_ndranges em' k = em_ndranges em k) \<and>
     em_inst_count em' = em_inst_count em \<and>
     (em_running em' = em_running em \<or> em_running em' = remove1 n (em_running em))"

abbreviation nd_of :: "nat \<Rightarrow> si_emu_t \<Rightarrow> si_ndrange_t" where
  "nd_of n em \<equiv> the (em_ndranges em n)"

lemma nd_clear_running:
  assumes "si_ndrange_clear_status n si_ndrange_running em = Inr em'"
  shows "em_frame n em em' \<and> nd_work_groups (nd_of n em') = nd_work_groups (nd_of n em) \<and>
    nd_wavefronts (nd_of n em') = nd_wavefronts (nd_of n em) \<and> nd_running (nd_of n em') = nd_running (nd_of n em)"
  using assms
  by (auto simp: si_ndrange_clear_status_def Let_def put_ndrange_def em_frame_def dest: on_bit_remove)

lemma nd_set_finished:
  assumes "si_ndrange_set_status n si_ndrange_finished em = Inr em'"
  shows "em_frame n em em' \<and> nd_work_groups (nd_of n em') = nd_work_groups (nd_of n em) \<and>
    nd_wavefronts (nd_of n em') = nd_wavefronts (nd_of n em) \<and> nd_running (nd_of n em') = nd_running (nd_of n em) \<and>
    em_running em' = em_running em"
  using assms
  by (auto simp: si_ndrange_set_status_def Let_def put_ndrange_def on_bit_zero status_bits si_ndrange_finished_def
      si_ndrange_running_def em_frame_def)

lemma finish_effect:
  assumes "wavefront_finish n gid wid em = Inr em'" "gid < length (nd_work_groups (nd_of n em))"
  shows "em_frame n em em' \<and> nd_frame gid (nd_of n em) (nd_of n em') \<and>
    (let g = nd_work_groups (nd_of n em) ! gid; g' = nd_work_groups (nd_of n em') ! gid in
     wid \<in> set (wg_running g) \<and> wid \<notin> set (wg_finished g) \<and>
     wg_lists g' = (remove1 wid (wg_running g), wg_barrier g, wg_finished g @ [wid], wg_wavefront_count g))"
proof -
  let ?nd = "nd_of n em" and ?g = "nd_work_groups (nd_of n em) ! gid"
  let ?g1 = "?g\<lparr>wg_running := remove1 wid (wg_running ?g), wg_finished := wg_finished ?g @ [wid]\<rparr>"
  let ?nd1 = "put_group gid ?g1 ?nd"
  have w: "wid \<in> set (wg_running ?g)" "wid \<notin> set (wg_finished ?g)"
    using assms by (auto simp: wavefront_finish_def Let_def dl_remove_def dl_insert_tail_def split: if_splits)
  have f1: "nd_frame gid ?nd ?nd1" "wg_lists (nd_work_groups ?nd1 ! gid) =
      (remove1 wid (wg_running ?g), wg_barrier ?g, wg_finished ?g @ [wid], wg_wavefront_count ?g)"
    using assms(2) by (simp_all add: nd_frame_def put_group_def wg_lists_def)
  consider (one) "em' = put_ndrange n ?nd1 em"
    | (two) nd2 nd3 em3 em4 where "si_work_group_clear_status gid si_work_group_running ?nd1 = Inr nd2"
      "si_work_group_set_status gid si_work_group_finished nd2 = Inr nd3" "em3 = put_ndrange n nd3 em"
      "em' = em3 \<or> si_ndrange_clear_status n si_ndrange_running em3 = Inr em4 \<and>
         si_ndrange_set_status n si_ndrange_finished em4 = Inr em'"
    using assms(1) w by (auto simp: wavefront_finish_def Let_def dl_remove_def dl_insert_tail_def split: if_splits)
  then show ?thesis
  proof cases
    case one
    then show ?thesis using f1 w by (simp add: em_frame_def put_ndrange_def Let_def)
  next
    case two
    have f3: "nd_frame gid ?nd nd3" "wg_lists (nd_work_groups nd3 ! gid) =
      (remove1 wid (wg_running ?g), wg_barrier ?g, wg_finished ?g @ [wid], wg_wavefront_count ?g)"
      using f1 clear_running_frame [OF two(1)] set_finished_frame [OF two(2)]
      by (auto simp: nd_frame_def put_group_def)
    have f4: "em_frame n em em3" "nd_of n em3 = nd3" "em_running em3 = em_running em"
      by (simp_all add: two(3) em_frame_def put_ndrange_def)
    have "em_frame n em em' \<and> nd_work_groups (nd_of n em') = nd_work_groups nd3 \<and>
        nd_wavefronts (nd_of n em') = nd_wavefronts nd3 \<and> nd_running (nd_of n em') = nd_running nd3"
      using two(4)
    proof
      assume "em' = em3"
      with f4 show ?thesis by simp
    next
      assume *: "si_ndrange_clear_status n si_ndrange_running em3 = Inr em4 \<and>
        si_ndrange_set_status n si_ndrange_finished em4 = Inr em'"
      from nd_clear_running [of n em3 em4] nd_set_finished [of n em4 em'] * f4 show ?thesis
        by (auto simp: em_frame_def)
    qed
    with f3 w show ?thesis by (simp add: nd_frame_def Let_def)
  qed
qed


section \<open>The invariant\<close>

definition nd_ok :: "si_ndrange_t \<Rightarrow> bool" where
  "nd_ok nd \<longleftrightarrow> distinct (nd_running nd) \<and>
     (\<forall>gid \<in> set (nd_running nd). gid < length (nd_work_groups nd)) \<and>
     (\<forall>gid < length (nd_work_groups nd). wg_ok (nd_work_groups nd ! gid) \<and>
        (\<forall>wid \<in> set (wg_all (nd_work_groups nd ! gid)). wid < length (nd_wavefronts nd) \<and>
           wf_id (nd_wavefronts nd ! wid) = wid \<and> wf_work_group (nd_wavefronts nd ! wid) = gid))"

lemma wg_lists_eq:
  assumes "wg_lists g' = wg_lists g"
  shows "wg_running g' = wg_running g" "wg_barrier g' = wg_barrier g" "wg_finished g' = wg_finished g"
    "wg_wavefront_count g' = wg_wavefront_count g" "wg_all g' = wg_all g" "wg_ok g' = wg_ok g"
  using assms by (simp_all add: wg_lists_def wg_all_def wg_ok_def)

lemma nd_ok_step:
  assumes "nd_ok nd" "length (nd_work_groups nd') = length (nd_work_groups nd)"
    and "\<forall>k. k \<noteq> gid \<longrightarrow> wg_lists (nd_work_groups nd' ! k) = wg_lists (nd_work_groups nd ! k)"
    and "wg_ok (nd_work_groups nd' ! gid)" "set (wg_all (nd_work_groups nd' ! gid)) = set (wg_all (nd_work_groups nd ! gid))"
    and "length (nd_wavefronts nd') = length (nd_wavefronts nd)"
    and "\<forall>k. wf_id (nd_wavefronts nd' ! k) = wf_id (nd_wavefronts nd ! k) \<and>
      wf_work_group (nd_wavefronts nd' ! k) = wf_work_group (nd_wavefronts nd ! k)"
    and "nd_running nd' = nd_running nd \<or> nd_running nd' = remove1 gid (nd_running nd)"
  shows "nd_ok nd'"
proof -
  have g: "wg_ok (nd_work_groups nd' ! k) \<and> set (wg_all (nd_work_groups nd' ! k)) = set (wg_all (nd_work_groups nd ! k))"
    if "k < length (nd_work_groups nd)" for k
  proof (cases "k = gid")
    case True
    with assms(4,5) show ?thesis by simp
  next
    case False
    with assms(3) have "wg_lists (nd_work_groups nd' ! k) = wg_lists (nd_work_groups nd ! k)" by blast
    from wg_lists_eq(5,6) [OF this] assms(1) that show ?thesis by (simp add: nd_ok_def)
  qed
  have "distinct (nd_running nd')" "set (nd_running nd') \<subseteq> set (nd_running nd)"
    using assms(1,8) by (auto simp: nd_ok_def dest: notin_set_remove1)
  then show ?thesis using assms(1,2,6,7) g unfolding nd_ok_def by auto
qed

text \<open>The effect of one instruction of wavefront \<open>wid\<close>, in work-group \<open>gid\<close> of ND-Range \<open>n\<close>.\<close>

definition exec_step :: "nat \<Rightarrow> nat \<Rightarrow> nat \<Rightarrow> si_emu_t \<Rightarrow> si_emu_t \<Rightarrow> bool" where
  "exec_step n gid wid em em' \<longleftrightarrow>
     (let nd = nd_of n em; nd' = nd_of n em'; g = nd_work_groups nd ! gid; g' = nd_work_groups nd' ! gid in
      em_ndranges em' n \<noteq> None \<and> (\<forall>k. k \<noteq> n \<longrightarrow> em_ndranges em' k = em_ndranges em k) \<and>
      em_inst_count em' = em_inst_count em + 1 \<and>
      (em_running em' = em_running em \<or> em_running em' = remove1 n (em_running em)) \<and>
      (nd_running nd' = nd_running nd \<or> nd_running nd' = remove1 gid (nd_running nd)) \<and>
      length (nd_work_groups nd') = length (nd_work_groups nd) \<and>
      (\<forall>k. k \<noteq> gid \<longrightarrow> wg_lists (nd_work_groups nd' ! k) = wg_lists (nd_work_groups nd ! k)) \<and>
      wg_ok g' \<and> set (wg_all g') = set (wg_all g) \<and>
      (wg_running g' = wg_running g \<or> wg_running g' = remove1 wid (wg_running g) \<or> wg_running g = [wid]) \<and>
      length (nd_wavefronts nd') = length (nd_wavefronts nd) \<and>
      (\<forall>k. k \<noteq> wid \<longrightarrow> nd_wavefronts nd' ! k = nd_wavefronts nd ! k) \<and>
      wf_id (nd_wavefronts nd' ! wid) = wf_id (nd_wavefronts nd ! wid) \<and>
      wf_work_group (nd_wavefronts nd' ! wid) = wf_work_group (nd_wavefronts nd ! wid) \<and>
      wf_inst_count (nd_wavefronts nd' ! wid) = wf_inst_count (nd_wavefronts nd ! wid) + 1)"

lemma exec_step_nd_ok:
  assumes "exec_step n gid wid em em'" "nd_ok (nd_of n em)"
  shows "nd_ok (nd_of n em')"
proof (rule nd_ok_step [OF assms(2), where gid = gid])
  show "\<forall>k. wf_id (nd_wavefronts (nd_of n em') ! k) = wf_id (nd_wavefronts (nd_of n em) ! k) \<and>
      wf_work_group (nd_wavefronts (nd_of n em') ! k) = wf_work_group (nd_wavefronts (nd_of n em) ! k)"
    using assms(1) unfolding exec_step_def Let_def by metis
qed (use assms(1) in \<open>simp_all add: exec_step_def Let_def\<close>)

lemma wf_stats_ident: "wf_ident (wf_stats f w) = wf_ident w"
  by (simp add: wf_stats_def wf_ident_def)

lemma em_stats_frame: "em_ndranges (em_stats f em) = em_ndranges em" "em_running (em_stats f em) = em_running em"
  "em_inst_count (em_stats f em) = em_inst_count em"
  by (simp_all add: em_stats_def)

lemma em_stats_nd: "nd_of n (em_stats f em) = nd_of n em"
  by (simp add: em_stats_frame)

lemma execute_commit:
  assumes "si_wavefront_execute fp junk n wid em = Inr em'"
    and "w = nd_wavefronts (nd_of n em) ! wid" "g = nd_work_groups (nd_of n em) ! wf_work_group w"
  obtains c items em1 where "exec_commit n (wf_work_group w) wid c items em1 = Inr em'"
    "wf_id (cx_wave c) = wf_id w" "wf_work_group (cx_wave c) = wf_work_group w"
    "wf_inst_count (cx_wave c) = wf_inst_count w + 1"
    "wg_lists (cx_group c) = wg_lists g \<or> barrier_reach (wf_id w) g = Inr (cx_group c)"
    "em_ndranges em1 = em_ndranges em" "em_running em1 = em_running em" "em_inst_count em1 = em_inst_count em + 1"
proof -
  from assms obtain sizes inst sz em1 w1 c items where
    em1: "em1 = em_stats (inst_fmt (inst_info inst)) (em\<lparr>em_sizes := sizes, em_inst_count := em_inst_count em + 1\<rparr>)"
    and w1: "w1 = wf_stats (inst_fmt (inst_info inst)) (w\<lparr>wf_inst_size := sz,
        wf_emu_inst_count := wf_emu_inst_count w + 1, wf_inst_count := wf_inst_count w + 1\<rparr>)"
    and ex: "exec_inst fp junk inst (exec_ctx w1 g em1) (nd_work_items (nd_of n em)) = Inr (c, items)"
    and cm: "exec_commit n (wf_work_group w) wid c items em1 = Inr em'"
    unfolding si_wavefront_execute_def Let_def by (auto split: if_split_asm)
  from exec_inst_group [OF ex] have "wf_ident (cx_wave c) = wf_ident w1"
    "wg_lists (cx_group c) = wg_lists g \<or> barrier_reach (wf_id w1) g = Inr (cx_group c)"
    by (auto simp: exec_ctx_def)
  moreover have "wf_ident w1 = wf_ident (w\<lparr>wf_inst_size := sz,
        wf_emu_inst_count := wf_emu_inst_count w + 1, wf_inst_count := wf_inst_count w + 1\<rparr>)"
    by (simp add: w1 wf_stats_ident)
  ultimately show thesis
    by (intro that [OF cm]) (auto simp: wf_ident_def em1 em_stats_frame)
qed


lemma reach_group:
  assumes "wg_ok g" "wid \<in> set (wg_running g)"
    and "wg_lists g2 = wg_lists g \<or> barrier_reach wid g = Inr g2"
  shows "wg_ok g2 \<and> set (wg_all g2) = set (wg_all g) \<and>
    (wg_running g2 = wg_running g \<or> wg_running g2 = remove1 wid (wg_running g) \<and> wid \<notin> set (wg_running g2) \<or>
     wg_running g = [wid])"
  using assms(3)
proof
  assume "wg_lists g2 = wg_lists g"
  from wg_lists_eq [OF this] assms show ?thesis by simp
next
  assume "barrier_reach wid g = Inr g2"
  moreover have "distinct (wg_running g)" using assms(1) by (simp add: wg_ok_def wg_all_def)
  ultimately show ?thesis using barrier_reach_eq [OF assms(1,2)] assms
      length_remove1_mem [OF assms(2)] by (auto simp: wg_ok_def wg_all_def split: if_splits)
qed


lemma finish_group:
  assumes "wg_ok g" "wid \<in> set (wg_running g)"
    and "wg_lists g' = (remove1 wid (wg_running g), wg_barrier g, wg_finished g @ [wid], wg_wavefront_count g)"
  shows "wg_ok g' \<and> set (wg_all g') = set (wg_all g) \<and> wg_running g' = remove1 wid (wg_running g)"
proof -
  have "distinct (wg_running g)" using assms(1) by (simp add: wg_ok_def wg_all_def)
  with assms length_remove1_mem [OF assms(2)] show ?thesis
    by (auto simp: wg_ok_def wg_all_def wg_lists_def)
qed

lemma commit_effect:
  assumes "exec_commit n gid wid c items em1 = Inr em'"
    and len: "gid < length (nd_work_groups (nd_of n em1))" "wid < length (nd_wavefronts (nd_of n em1))"
    and g: "g = nd_work_groups (nd_of n em1) ! gid" "wg_ok g" "wid \<in> set (wg_running g)"
    and w: "w = nd_wavefronts (nd_of n em1) ! wid" "wf_id w = wid" "wf_id (cx_wave c) = wf_id w"
      "wf_work_group (cx_wave c) = wf_work_group w" "wf_inst_count (cx_wave c) = wf_inst_count w + 1"
    and c: "wg_lists (cx_group c) = wg_lists g \<or> barrier_reach (wf_id w) g = Inr (cx_group c)"
    and em: "em_ndranges em1 = em_ndranges em" "em_running em1 = em_running em" "em_inst_count em1 = em_inst_count em + 1"
  shows "exec_step n gid wid em em'"
proof -
  let ?nd = "nd_of n em1"
  let ?nd2 = "put_wavefront wid (cx_wave c) (put_group gid (cx_group c) (?nd\<lparr>nd_work_items := items\<rparr>))"
  let ?em2 = "put_ndrange n ?nd2 (em1\<lparr>em_global_mem := cx_global c\<rparr>)"
  obtain em3 where em3: "(if wf_finished (cx_wave c) then wavefront_finish n gid wid ?em2 else Inr ?em2) = Inr em3"
    and em': "em' = inst_buf_advance n wid em3"
    using assms(1) by (auto simp: exec_commit_def Let_def)
  have nd2: "nd_of n ?em2 = ?nd2" by (simp add: put_ndrange_def)
  have g2: "nd_work_groups ?nd2 ! gid = cx_group c" "gid < length (nd_work_groups ?nd2)"
    using len by (simp_all add: put_wavefront_def put_group_def)
  note r = reach_group [OF g(2,3), of "cx_group c"]
  have fin: "em_ndranges em3 n \<noteq> None \<and> (\<forall>k. k \<noteq> n \<longrightarrow> em_ndranges em3 k = em_ndranges em1 k) \<and>
      em_inst_count em3 = em_inst_count em1 \<and>
      (em_running em3 = em_running em1 \<or> em_running em3 = remove1 n (em_running em1)) \<and>
      nd_frame gid ?nd2 (nd_of n em3) \<and> wg_ok (nd_work_groups (nd_of n em3) ! gid) \<and>
      set (wg_all (nd_work_groups (nd_of n em3) ! gid)) = set (wg_all g) \<and>
      (let g' = nd_work_groups (nd_of n em3) ! gid in
       wg_running g' = wg_running g \<or> wg_running g' = remove1 wid (wg_running g) \<or> wg_running g = [wid])"
  proof (cases "wf_finished (cx_wave c)")
    case True
    with em3 have "wavefront_finish n gid wid ?em2 = Inr em3" by simp
    from finish_effect [OF this] nd2 g2 have f: "em_frame n ?em2 em3" "nd_frame gid ?nd2 (nd_of n em3)"
      "wid \<in> set (wg_running (cx_group c))"
      "wg_lists (nd_work_groups (nd_of n em3) ! gid) = (remove1 wid (wg_running (cx_group c)), wg_barrier (cx_group c),
         wg_finished (cx_group c) @ [wid], wg_wavefront_count (cx_group c))"
      by (simp_all add: Let_def)
    from r c w(2) have ok: "wg_ok (cx_group c)" by simp
    from finish_group [OF ok f(3,4)] r c w(2) f show ?thesis
      by (auto simp: em_frame_def put_ndrange_def Let_def)
  next
    case False
    with em3 have "em3 = ?em2" by simp
    with r c w(2) nd2 g2 show ?thesis by (auto simp: put_ndrange_def nd_frame_def Let_def)
  qed
  have adv: "nd_of n em' = put_wavefront wid ((nd_wavefronts (nd_of n em3) ! wid)\<lparr>wf_pc :=
      wf_pc (nd_wavefronts (nd_of n em3) ! wid) + int (wf_inst_size (nd_wavefronts (nd_of n em3) ! wid))\<rparr>) (nd_of n em3)"
    "em_ndranges em' n \<noteq> None" "\<And>k. k \<noteq> n \<Longrightarrow> em_ndranges em' k = em_ndranges em3 k"
    "em_inst_count em' = em_inst_count em3" "em_running em' = em_running em3"
    by (simp_all add: em' inst_buf_advance_def Let_def put_ndrange_def)
  have "nd_wavefronts (nd_of n em3) = (nd_wavefronts ?nd)[wid := cx_wave c]"
    using fin by (simp add: nd_frame_def put_wavefront_def put_group_def)
  then have waves: "nd_wavefronts (nd_of n em') = (nd_wavefronts ?nd)[wid := (cx_wave c)\<lparr>wf_pc :=
      wf_pc (cx_wave c) + int (wf_inst_size (cx_wave c))\<rparr>]"
    using len by (simp add: adv(1) put_wavefront_def)
  have gr: "nd_work_groups (nd_of n em') = nd_work_groups (nd_of n em3)" "nd_running (nd_of n em') = nd_running (nd_of n em3)"
    by (simp_all add: adv(1) put_wavefront_def)
  have fr: "length (nd_work_groups (nd_of n em3)) = length (nd_work_groups ?nd)"
    "\<And>k. k \<noteq> gid \<Longrightarrow> nd_work_groups (nd_of n em3) ! k = nd_work_groups ?nd ! k"
    "nd_running (nd_of n em3) = nd_running ?nd \<or> nd_running (nd_of n em3) = remove1 gid (nd_running ?nd)"
    using fin by (auto simp: nd_frame_def put_wavefront_def put_group_def)
  show ?thesis
    unfolding exec_step_def Let_def
    using fin fr adv(2-5) len g w em by (simp add: waves gr Let_def)
qed

lemma execute_effect:
  assumes "si_wavefront_execute fp junk n wid em = Inr em'" "nd_ok (nd_of n em)"
    and "gid < length (nd_work_groups (nd_of n em))" "wid \<in> set (wg_running (nd_work_groups (nd_of n em) ! gid))"
  shows "exec_step n gid wid em em'"
proof -
  let ?w = "nd_wavefronts (nd_of n em) ! wid" and ?g = "nd_work_groups (nd_of n em) ! gid"
  have "wid \<in> set (wg_all ?g)" using assms(4) by (simp add: wg_all_def)
  with assms(2,3) have w: "wid < length (nd_wavefronts (nd_of n em))" "wf_id ?w = wid" "wf_work_group ?w = gid" "wg_ok ?g"
    by (auto simp: nd_ok_def)
  obtain c items em1 where c: "exec_commit n (wf_work_group ?w) wid c items em1 = Inr em'"
    "wf_id (cx_wave c) = wf_id ?w" "wf_work_group (cx_wave c) = wf_work_group ?w"
    "wf_inst_count (cx_wave c) = wf_inst_count ?w + 1"
    "wg_lists (cx_group c) = wg_lists ?g \<or> barrier_reach (wf_id ?w) ?g = Inr (cx_group c)"
    "em_ndranges em1 = em_ndranges em" "em_running em1 = em_running em" "em_inst_count em1 = em_inst_count em + 1"
    using execute_commit [OF assms(1) refl refl] w(3) by metis
  show ?thesis
    by (rule commit_effect [OF c(1) [unfolded w(3)], where g = ?g and w = ?w]) (use c w assms(3,4) in simp_all)
qed

text \<open>C14: wavefronts and work-groups. Whatever instruction a running wavefront executes, a barrier
  or the last one included, every work-group keeps each of its wavefronts in exactly one of the
  running, waiting and finished lists, the lists of the other work-groups and the other wavefronts do
  not change, and one instruction has been counted.\<close>

theorem execute_keeps_lists:
  assumes "si_wavefront_execute fp junk n wid em = Inr em'" "nd_ok (the (em_ndranges em n))"
    and "gid < length (nd_work_groups (the (em_ndranges em n)))"
    and "wid \<in> set (wg_running (nd_work_groups (the (em_ndranges em n)) ! gid))"
  shows "nd_ok (the (em_ndranges em' n)) \<and> exec_step n gid wid em em'"
  using exec_step_nd_ok [OF execute_effect [OF assms] assms(2)] execute_effect [OF assms] by simp


text \<open>The code \<open>s_waitcnt\<close>.\<close>

lemma demo_wait_runs: "\<exists>em'. si_wavefront_execute demo_fp 0 0 0 (demo_emu [0, 0, 0x8C, 0xBF]) = Inr em'"
proof -
  have f: "fetch [0, 0, 0x8C, 0xBF] 0 = 0xBF8C0000" by (simp add: fetch_def upt_rec horner_sum_simps)
  have "si_inst_info_tbl (\<lambda>f. f = SI_FMT_SOPP) 12 = Some SI_INST_S_WAITCNT" by code_simp
  then have d: "si_inst_decode inst_sizes 0xBF8C0000 =
      Inr (inst_sizes, \<lparr>inst_info = SI_INST_S_WAITCNT, micro_inst = 0xBF8C0000\<rparr>, inst_sizes SI_INST_S_WAITCNT)"
    by (simp add: si_inst_decode_def decode_op_def bits_def Let_def take_bit_eq_mod drop_bit_eq_div)
  show ?thesis
    by (simp add: si_wavefront_execute_def exec_commit_def exec_ctx_def Let_def exec_inst_def is_scalar_fmt_def
        S_WAITCNT_impl_def demo_emu_def demo_nd_def f d wf_stats_def si_wavefront_create_def
        si_work_group_create_def)
qed

lemma demo_nd_ok: "nd_ok (demo_nd code)"
  by (simp add: nd_ok_def demo_nd_def wg_ok_def wg_all_def si_work_group_create_def si_wavefront_create_def)

lemma execute_keeps_lists_witness:
  "\<exists>em'. si_wavefront_execute demo_fp 0 0 0 (demo_emu [0, 0, 0x8C, 0xBF]) = Inr em' \<and>
     nd_ok (the (em_ndranges em' 0)) \<and> exec_step 0 0 0 (demo_emu [0, 0, 0x8C, 0xBF]) em'"
proof -
  obtain em' where em: "si_wavefront_execute demo_fp 0 0 0 (demo_emu [0, 0, 0x8C, 0xBF]) = Inr em'"
    using demo_wait_runs by blast
  have n: "the (em_ndranges (demo_emu [0, 0, 0x8C, 0xBF]) 0) = demo_nd [0, 0, 0x8C, 0xBF]" by (simp add: demo_emu_def)
  from execute_keeps_lists [OF em, of 0] demo_nd_ok em show ?thesis
    unfolding n by (auto simp: demo_nd_def)
qed

section \<open>The loops over the running lists\<close>

text \<open>An iteration over a fixed list.\<close>

fun run_list :: "(nat \<Rightarrow> 's \<Rightarrow> 's res option) \<Rightarrow> nat list \<Rightarrow> 's \<Rightarrow> 's res option" where
  "run_list body [] s = Some (Inr s)"
| "run_list body (x # xs) s = run_bind (body x s) (run_list body xs)"

lemma list_next_split: "x \<notin> set pre \<Longrightarrow> list_next x (pre @ x # rest) = list_head rest"
  by (induction pre) (auto simp: list_head_def)

lemma for_each_None [simp]: "for_each f body None s = Some (Inr s)"
  by (subst for_each.simps) simp

lemma for_each_Some: "for_each f body (Some x) s =
    run_bind (body x s) (\<lambda>t. for_each f body (list_next x (f s)) t)"
  by (subst for_each.simps) (simp add: Let_def)

text \<open>If the body keeps the part of the list behind the current element in place, the loop visits the
  elements the list had at the beginning, in this order.\<close>

lemma for_each_run_list:
  assumes step: "\<And>pre x rest s s'. P (x # rest) s \<Longrightarrow> the_list s = pre @ x # rest \<Longrightarrow> distinct (pre @ x # rest) \<Longrightarrow>
      body x s = Some (Inr s') \<Longrightarrow>
      P rest s' \<and> (rest = [] \<or> (\<exists>pre'. the_list s' = pre' @ rest \<and> distinct (pre' @ rest)))"
    and "P xs s" "the_list s = pre @ xs" "distinct (pre @ xs)"
  shows "for_each the_list body (list_head xs) s = run_list body xs s \<and>
    (\<forall>s'. run_list body xs s = Some (Inr s') \<longrightarrow> P [] s')"
  using assms(2-4)
proof (induction xs arbitrary: pre s)
  case Nil
  then show ?case by (simp add: list_head_def)
next
  case (Cons x rest)
  have h: "list_head (x # rest) = Some x" by (simp add: list_head_def)
  have nx: "list_next x (the_list s) = list_head rest"
    using Cons.prems list_next_split [of x pre rest] by simp
  show ?case
  proof (cases "body x s")
    case None
    then show ?thesis by (simp add: h for_each_Some)
  next
    case (Some r)
    show ?thesis
    proof (cases r)
      case (Inl e)
      with Some show ?thesis by (simp add: h for_each_Some)
    next
      case (Inr s')
      with Some have b: "body x s = Some (Inr s')" by simp
      from step [OF Cons.prems b] have p: "P rest s'" "rest = [] \<or> (\<exists>pre'. the_list s' = pre' @ rest \<and> distinct (pre' @ rest))"
        by simp_all
      show ?thesis
      proof (cases "rest = []")
        case True
        with b nx p show ?thesis by (simp add: h for_each_Some list_head_def)
      next
        case False
        with p obtain pre' where "the_list s' = pre' @ rest" "distinct (pre' @ rest)" by auto
        from Cons.IH [OF p(1) this] b nx show ?thesis by (simp add: h for_each_Some)
      qed
    qed
  qed
qed


lemma remove1_twice: "distinct xs \<Longrightarrow> remove1 x (remove1 x xs) = remove1 x xs"
  by (simp add: remove1_idem)

lemma remove1_rest: "distinct (pre @ x # rest) \<Longrightarrow> remove1 x (pre @ x # rest) = pre @ rest"
  by (simp add: remove1_append)

definition one_removed :: "nat \<Rightarrow> nat list \<Rightarrow> nat list \<Rightarrow> bool" where
  "one_removed x xs ys \<longleftrightarrow> ys = xs \<or> ys = remove1 x xs"

lemma one_removed_trans: "distinct xs \<Longrightarrow> one_removed x xs ys \<Longrightarrow> one_removed x ys zs \<Longrightarrow> one_removed x xs zs"
  by (auto simp: one_removed_def remove1_twice)

lemma one_removed_rest:
  assumes "one_removed x (pre @ x # rest) ys" "distinct (pre @ x # rest)"
  shows "\<exists>pre'. ys = pre' @ rest \<and> distinct (pre' @ rest)"
proof -
  from assms have "ys = (pre @ [x]) @ rest \<or> ys = pre @ rest"
    by (auto simp: one_removed_def remove1_rest)
  then show ?thesis
  proof
    assume "ys = (pre @ [x]) @ rest"
    with assms(2) show ?thesis by (intro exI [of _ "pre @ [x]"]) auto
  next
    assume "ys = pre @ rest"
    with assms(2) show ?thesis by (intro exI [of _ pre]) auto
  qed
qed

text \<open>What the instructions of one work-group may change.\<close>

definition group_frame :: "nat \<Rightarrow> nat \<Rightarrow> si_emu_t \<Rightarrow> si_emu_t \<Rightarrow> bool" where
  "group_frame n gid em em' \<longleftrightarrow>
     (let nd = nd_of n em; nd' = nd_of n em' in
      nd_ok nd' \<and> em_ndranges em' n \<noteq> None \<and> (\<forall>k. k \<noteq> n \<longrightarrow> em_ndranges em' k = em_ndranges em k) \<and>
      one_removed n (em_running em) (em_running em') \<and> one_removed gid (nd_running nd) (nd_running nd') \<and>
      length (nd_work_groups nd') = length (nd_work_groups nd) \<and>
      (\<forall>k. k \<noteq> gid \<longrightarrow> wg_lists (nd_work_groups nd' ! k) = wg_lists (nd_work_groups nd ! k)))"

lemma group_frame_refl: "nd_ok (nd_of n em) \<Longrightarrow> em_ndranges em n \<noteq> None \<Longrightarrow> group_frame n gid em em"
  by (simp add: group_frame_def Let_def one_removed_def)

lemma group_frame_step:
  assumes "group_frame n gid em s" "exec_step n gid wid s s'" "distinct (em_running em)" "nd_ok (nd_of n em)"
  shows "group_frame n gid em s'"
proof -
  have ok: "nd_ok (nd_of n s)" using assms(1) by (simp add: group_frame_def Let_def)
  have d: "distinct (nd_running (nd_of n em))" using assms(4) by (simp add: nd_ok_def)
  have "one_removed n (em_running s) (em_running s')" "one_removed gid (nd_running (nd_of n s)) (nd_running (nd_of n s'))"
    using assms(2) by (simp_all add: exec_step_def Let_def one_removed_def)
  then have "one_removed n (em_running em) (em_running s')"
    "one_removed gid (nd_running (nd_of n em)) (nd_running (nd_of n s'))"
    using assms(1,3) d by (auto simp: group_frame_def Let_def intro: one_removed_trans)
  with assms(1,2) exec_step_nd_ok [OF assms(2) ok] show ?thesis
    by (simp add: group_frame_def exec_step_def Let_def)
qed

abbreviation exec_body :: "fp_ops \<Rightarrow> u32 \<Rightarrow> nat \<Rightarrow> nat \<Rightarrow> si_emu_t \<Rightarrow> si_emu_t res option" where
  "exec_body fp junk n wid em \<equiv> Some (si_wavefront_execute fp junk n wid em)"

lemma run_group_eq:
  assumes "nd_ok (nd_of n em)" "em_ndranges em n \<noteq> None" "distinct (em_running em)"
    and "gid < length (nd_work_groups (nd_of n em))"
  shows "run_group fp junk n gid em = run_list (exec_body fp junk n) (wg_running_of n gid em) em \<and>
    (\<forall>em'. run_group fp junk n gid em = Some (Inr em') \<longrightarrow> group_frame n gid em em' \<and>
       em_inst_count em' = em_inst_count em + length (wg_running_of n gid em))"
proof -
  let ?P = "\<lambda>(xs :: nat list) s. group_frame n gid em s \<and>
    em_inst_count s + length xs = em_inst_count em + length (wg_running_of n gid em)"
  have step: "?P rest s' \<and> (rest = [] \<or> (\<exists>pre'. wg_running_of n gid s' = pre' @ rest \<and> distinct (pre' @ rest)))"
    if p: "?P (x # rest) s" and l: "wg_running_of n gid s = pre @ x # rest" "distinct (pre @ x # rest)"
      and b: "exec_body fp junk n x s = Some (Inr s')" for pre x rest s s'
  proof -
    from p have ok: "nd_ok (nd_of n s)" "gid < length (nd_work_groups (nd_of n s))"
      using assms(4) by (simp_all add: group_frame_def Let_def)
    have "x \<in> set (wg_running (nd_work_groups (nd_of n s) ! gid))" using l(1) by (simp add: wg_running_of_def)
    with b ok have st: "exec_step n gid x s s'" by (intro execute_effect) auto
    from group_frame_step [OF _ st assms(3,1)] p have "group_frame n gid em s'" by simp
    moreover have "em_inst_count s' = em_inst_count s + 1" using st by (simp add: exec_step_def Let_def)
    moreover have "rest = [] \<or> (\<exists>pre'. wg_running_of n gid s' = pre' @ rest \<and> distinct (pre' @ rest))"
    proof (cases "wg_running_of n gid s = [x]")
      case True
      with l show ?thesis by (cases pre) auto
    next
      case False
      with st have "one_removed x (wg_running_of n gid s) (wg_running_of n gid s')"
        by (auto simp: exec_step_def Let_def one_removed_def wg_running_of_def)
      with one_removed_rest l show ?thesis by auto
    qed
    ultimately show ?thesis using p by simp
  qed
  have d: "distinct (wg_running_of n gid em)"
    using assms(1,4) by (simp add: nd_ok_def wg_ok_def wg_all_def wg_running_of_def)
  have "for_each (wg_running_of n gid) (exec_body fp junk n) (list_head (wg_running_of n gid em)) em =
      run_list (exec_body fp junk n) (wg_running_of n gid em) em \<and>
      (\<forall>s'. run_list (exec_body fp junk n) (wg_running_of n gid em) em = Some (Inr s') \<longrightarrow> ?P [] s')"
    by (rule for_each_run_list [where P = ?P and pre = "[]"])
      (erule (3) step, simp_all add: d group_frame_refl [OF assms(1,2)])
  then show ?thesis unfolding run_group_def by simp
qed


text \<open>The running wavefronts of an ND-Range.\<close>

definition nd_total :: "nat \<Rightarrow> si_emu_t \<Rightarrow> nat" where
  "nd_total n em = sum_list (map (\<lambda>gid. length (wg_running_of n gid em)) (nd_running_of n em))"

definition ndrange_frame :: "nat \<Rightarrow> si_emu_t \<Rightarrow> si_emu_t \<Rightarrow> bool" where
  "ndrange_frame n em em' \<longleftrightarrow>
     nd_ok (nd_of n em') \<and> em_ndranges em' n \<noteq> None \<and> (\<forall>k. k \<noteq> n \<longrightarrow> em_ndranges em' k = em_ndranges em k) \<and>
     one_removed n (em_running em) (em_running em')"

lemma one_removed_distinct: "one_removed x xs ys \<Longrightarrow> distinct xs \<Longrightarrow> distinct ys"
  by (auto simp: one_removed_def)

lemma ndrange_frame_step:
  assumes "ndrange_frame n em s" "group_frame n gid s s'" "distinct (em_running em)"
  shows "ndrange_frame n em s'"
  using assms one_removed_trans [of "em_running em" n "em_running s" "em_running s'"]
  by (auto simp: ndrange_frame_def group_frame_def Let_def)

abbreviation group_body :: "fp_ops \<Rightarrow> u32 \<Rightarrow> nat \<Rightarrow> nat \<Rightarrow> si_emu_t \<Rightarrow> si_emu_t res option" where
  "group_body fp junk n gid em \<equiv> run_list (exec_body fp junk n) (wg_running_of n gid em) em"

lemma run_list_cong:
  assumes "\<And>x rest s. P (x # rest) s \<Longrightarrow> f x s = g x s \<and> (\<forall>s'. f x s = Some (Inr s') \<longrightarrow> P rest s')"
  shows "P xs s \<Longrightarrow> run_list f xs s = run_list g xs s"
proof (induction xs arbitrary: s)
  case (Cons x rest)
  from assms [OF Cons.prems] have eq: "f x s = g x s" and p: "\<And>s'. f x s = Some (Inr s') \<Longrightarrow> P rest s'" by auto
  show ?case
  proof (cases "f x s")
    case (Some r)
    with eq have g: "g x s = Some r" by simp
    with Some p Cons.IH show ?thesis by (cases r) simp_all
  next
    case None
    with eq have "g x s = None" by simp
    with None show ?thesis by simp
  qed
qed simp

lemma run_ndrange_eq:
  assumes "nd_ok (nd_of n em)" "em_ndranges em n \<noteq> None" "distinct (em_running em)"
  shows "run_ndrange fp junk n em = run_list (group_body fp junk n) (nd_running_of n em) em \<and>
    (\<forall>em'. run_ndrange fp junk n em = Some (Inr em') \<longrightarrow> ndrange_frame n em em' \<and>
       em_inst_count em' = em_inst_count em + nd_total n em)"
proof -
  let ?P = "\<lambda>(xs :: nat list) s. ndrange_frame n em s \<and>
    length (nd_work_groups (nd_of n s)) = length (nd_work_groups (nd_of n em)) \<and> set xs \<subseteq> set (nd_running_of n em) \<and>
    distinct xs \<and> (\<forall>gid \<in> set xs. wg_running_of n gid s = wg_running_of n gid em) \<and>
    em_inst_count s + sum_list (map (\<lambda>gid. length (wg_running_of n gid em)) xs) = em_inst_count em + nd_total n em"
  have gs: "run_group fp junk n x s = group_body fp junk n x s \<and>
      (\<forall>s'. run_group fp junk n x s = Some (Inr s') \<longrightarrow> ?P rest s' \<and> group_frame n x s s')"
    if p: "?P (x # rest) s" for x rest s
  proof -
    have lt: "x < length (nd_work_groups (nd_of n s))" using p assms(1) by (auto simp: nd_ok_def nd_running_of_def)
    have d: "distinct (em_running s)" using p assms(3) one_removed_distinct by (auto simp: ndrange_frame_def)
    have ok: "nd_ok (nd_of n s)" "em_ndranges s n \<noteq> None" using p by (simp_all add: ndrange_frame_def)
    note r = run_group_eq [OF ok d lt, of fp junk]
    have "?P rest s' \<and> group_frame n x s s'" if "run_group fp junk n x s = Some (Inr s')" for s'
    proof -
      from r that have f: "group_frame n x s s'" "em_inst_count s' = em_inst_count s + length (wg_running_of n x s)" by auto
      have "\<forall>k. k \<noteq> x \<longrightarrow> wg_running_of n k s' = wg_running_of n k s"
        using f(1) by (auto simp: group_frame_def Let_def wg_running_of_def dest: wg_lists_eq)
      with p f ndrange_frame_step [OF _ f(1) assms(3)] show ?thesis
        by (auto simp: group_frame_def Let_def)
    qed
    with r show ?thesis by simp
  qed
  have init: "?P (nd_running_of n em) em"
    using assms by (simp add: ndrange_frame_def one_removed_def nd_total_def nd_ok_def nd_running_of_def)
  have step: "?P rest s' \<and> (rest = [] \<or> (\<exists>pre'. nd_running_of n s' = pre' @ rest \<and> distinct (pre' @ rest)))"
    if p: "?P (x # rest) s" and l: "nd_running_of n s = pre @ x # rest" "distinct (pre @ x # rest)"
      and b: "run_group fp junk n x s = Some (Inr s')" for pre x rest s s'
  proof -
    from gs [OF p] b have g: "?P rest s'" "group_frame n x s s'" by auto
    then have "one_removed x (nd_running_of n s) (nd_running_of n s')"
      by (simp add: group_frame_def Let_def nd_running_of_def)
    with one_removed_rest l have "\<exists>pre'. nd_running_of n s' = pre' @ rest \<and> distinct (pre' @ rest)" by auto
    with g(1) show ?thesis by simp
  qed
  have "for_each (nd_running_of n) (run_group fp junk n) (list_head (nd_running_of n em)) em =
      run_list (run_group fp junk n) (nd_running_of n em) em \<and>
      (\<forall>s'. run_list (run_group fp junk n) (nd_running_of n em) em = Some (Inr s') \<longrightarrow> ?P [] s')"
    using init by (intro for_each_run_list [where P = ?P and pre = "[]"]) (erule (3) step, simp_all)
  moreover have "run_list (run_group fp junk n) (nd_running_of n em) em = run_list (group_body fp junk n) (nd_running_of n em) em"
    using init by (rule run_list_cong [where P = ?P, rotated]) (use gs in blast)
  ultimately show ?thesis unfolding run_ndrange_def by simp
qed


section \<open>The emulation loop\<close>

definition emu_ok :: "si_emu_t \<Rightarrow> bool" where
  "emu_ok em \<longleftrightarrow> distinct (em_running em) \<and> (\<forall>n \<in> set (em_running em). em_ndranges em n \<noteq> None) \<and>
     (\<forall>n nd. em_ndranges em n = Some nd \<longrightarrow> nd_ok nd)"

definition running_total :: "si_emu_t \<Rightarrow> nat" where
  "running_total em = sum_list (map (\<lambda>n. nd_total n em) (em_running em))"

abbreviation ndrange_body :: "fp_ops \<Rightarrow> u32 \<Rightarrow> nat \<Rightarrow> si_emu_t \<Rightarrow> si_emu_t res option" where
  "ndrange_body fp junk n em \<equiv> run_list (group_body fp junk n) (nd_running_of n em) em"

lemma run_ndranges_eq:
  assumes "emu_ok em"
  shows "run_ndranges fp junk em = run_list (ndrange_body fp junk) (em_running em) em \<and>
    (\<forall>em'. run_ndranges fp junk em = Some (Inr em') \<longrightarrow> emu_ok em' \<and>
       em_inst_count em' = em_inst_count em + running_total em)"
proof -
  let ?P = "\<lambda>(xs :: nat list) s. emu_ok s \<and> distinct xs \<and>
    (\<forall>n \<in> set xs. em_ndranges s n = em_ndranges em n \<and> em_ndranges em n \<noteq> None) \<and>
    em_inst_count s + sum_list (map (\<lambda>n. nd_total n em) xs) = em_inst_count em + running_total em"
  have gs: "run_ndrange fp junk x s = ndrange_body fp junk x s \<and>
      (\<forall>s'. run_ndrange fp junk x s = Some (Inr s') \<longrightarrow> ?P rest s' \<and> ndrange_frame x s s')"
    if p: "?P (x # rest) s" for x rest s
  proof -
    have ok: "nd_ok (nd_of x s)" "em_ndranges s x \<noteq> None" "distinct (em_running s)"
      using p by (auto simp: emu_ok_def)
    note r = run_ndrange_eq [OF ok, of fp junk]
    have "nd_total x s = nd_total x em" using p by (simp add: nd_total_def wg_running_of_def nd_running_of_def)
    moreover have "emu_ok s'" if "ndrange_frame x s s'" for s'
      using that p unfolding emu_ok_def ndrange_frame_def one_removed_def
      by (metis distinct_remove1 notin_set_remove1 option.sel)
    moreover have "\<forall>n \<in> set rest. em_ndranges s' n = em_ndranges s n" if "ndrange_frame x s s'" for s'
      using that p by (auto simp: ndrange_frame_def)
    ultimately have "?P rest s' \<and> ndrange_frame x s s'" if "run_ndrange fp junk x s = Some (Inr s')" for s'
      using r that p by simp
    with r show ?thesis by simp
  qed
  have init: "?P (em_running em) em"
    using assms by (simp add: emu_ok_def running_total_def)
  have step: "?P rest s' \<and> (rest = [] \<or> (\<exists>pre'. em_running s' = pre' @ rest \<and> distinct (pre' @ rest)))"
    if p: "?P (x # rest) s" and l: "em_running s = pre @ x # rest" "distinct (pre @ x # rest)"
      and b: "run_ndrange fp junk x s = Some (Inr s')" for pre x rest s s'
  proof -
    from gs [OF p] b have g: "?P rest s'" "ndrange_frame x s s'" by auto
    then have "one_removed x (em_running s) (em_running s')" by (simp add: ndrange_frame_def)
    with one_removed_rest l have "\<exists>pre'. em_running s' = pre' @ rest \<and> distinct (pre' @ rest)" by auto
    with g(1) show ?thesis by simp
  qed
  have "for_each em_running (run_ndrange fp junk) (list_head (em_running em)) em =
      run_list (run_ndrange fp junk) (em_running em) em \<and>
      (\<forall>s'. run_list (run_ndrange fp junk) (em_running em) em = Some (Inr s') \<longrightarrow> ?P [] s')"
    using init by (intro for_each_run_list [where P = ?P and pre = "[]"]) (erule (3) step, simp_all)
  moreover have "run_list (run_ndrange fp junk) (em_running em) em = run_list (ndrange_body fp junk) (em_running em) em"
    using init by (rule run_list_cong [where P = ?P, rotated]) (use gs in blast)
  ultimately show ?thesis unfolding run_ndranges_def by simp
qed

lemma run_list_returns: "(\<And>x s. f x s \<noteq> None) \<Longrightarrow> run_list f xs s \<noteq> None"
proof (induction xs arbitrary: s)
  case (Cons x xs)
  obtain r where "f x s = Some r" using Cons.prems [of x s] by auto
  with Cons show ?case by (cases r) simp_all
qed simp

text \<open>C4: the loops of an iteration of the emulator. They read the successor of a wavefront, of a
  work-group or of an ND-Range before they run it, and running it may take it off its list or put a
  whole work-group back on: in a consistent state they still do what an iteration over the lists as
  they were does, an instruction of every running wavefront in order.\<close>

theorem run_ndranges_snapshot:
  assumes "emu_ok em"
  shows "run_ndranges fp junk em =
    run_list (\<lambda>n em. run_list (\<lambda>gid em.
        run_list (\<lambda>wid em. Some (si_wavefront_execute fp junk n wid em)) (wg_running_of n gid em) em)
      (nd_running_of n em) em) (em_running em) em"
  using run_ndranges_eq [OF assms] by blast

text \<open>C16: an iteration of the emulator returns, and when no instruction aborts, it has executed exactly
  one instruction for every wavefront that was running, and left a consistent state.\<close>

theorem run_ndranges_counts:
  assumes "emu_ok em"
  shows "\<exists>r. run_ndranges fp junk em = Some r \<and>
    (\<forall>em'. r = Inr em' \<longrightarrow> emu_ok em' \<and> em_inst_count em' = em_inst_count em + running_total em)"
proof -
  have "run_list (ndrange_body fp junk) (em_running em) em \<noteq> None"
    by (intro run_list_returns) simp
  then obtain r where "run_ndranges fp junk em = Some r" using run_ndranges_eq [OF assms, of fp junk] by auto
  then show ?thesis using run_ndranges_eq [OF assms, of fp junk] by auto
qed

lemma demo_emu_ok: "emu_ok (demo_emu code)"
  by (simp add: emu_ok_def demo_emu_def demo_nd_ok)

lemma run_ndranges_snapshot_witness:
  "\<exists>em'. run_ndranges demo_fp 0 (demo_emu [0, 0, 0x8C, 0xBF]) = Some (Inr em')"
proof -
  obtain em' where "si_wavefront_execute demo_fp 0 0 0 (demo_emu [0, 0, 0x8C, 0xBF]) = Inr em'"
    using demo_wait_runs by blast
  then show ?thesis
    by (subst run_ndranges_snapshot [OF demo_emu_ok])
      (simp add: demo_emu_def [of "[0, 0, 0x8C, 0xBF]"] demo_nd_def wg_running_of_def nd_running_of_def si_work_group_create_def)
qed

lemma run_ndranges_counts_witness:
  "\<exists>r. run_ndranges demo_fp 0 (demo_emu [0, 0, 0x8C, 0xBF]) = Some r \<and>
    (\<forall>em'. r = Inr em' \<longrightarrow> emu_ok em' \<and> em_inst_count em' = 1)"
  using run_ndranges_counts [OF demo_emu_ok, of demo_fp 0 "[0, 0, 0x8C, 0xBF]"]
  by (simp add: demo_emu_def running_total_def nd_total_def nd_running_of_def wg_running_of_def demo_nd_def
      si_work_group_create_def)

end
