(* ===== verification/SI_Grid.thy ===== *)
theory SI_Grid
  imports SI_Run
begin

text \<open>
  The grid of an ND-Range: \<open>si_ndrange_setup_work_items\<close> distributes the work-items over
  work-groups and wavefronts, and its result satisfies the invariant that the emulation loop keeps.
\<close>

section \<open>Positions in nested loops\<close>

text \<open>The position of a triple in its three nested loops.\<close>

definition linear3 :: "nat \<times> nat \<times> nat \<Rightarrow> nat \<times> nat \<times> nat \<Rightarrow> nat" where
  "linear3 n i = (case n of (nx, ny, nz) \<Rightarrow> case i of (x, y, z) \<Rightarrow> x + nx * (y + ny * z))"

lemma concat_nth:
  assumes "\<And>i. i < n \<Longrightarrow> length (f i) = m" "i < n" "j < m"
  shows "concat (map f [0..<n]) ! (j + m * i) = f i ! j"
  using assms
proof (induction n)
  case (Suc n)
  have len: "length (concat (map f [0..<n])) = m * n"
    using Suc.prems(1) by (induction n) auto
  show ?case
  proof (cases "i = n")
    case True
    with len Suc.prems show ?thesis by (simp add: nth_append)
  next
    case False
    with Suc.prems have "i < n" by simp
    then have "m * Suc i \<le> m * n" by (intro mult_le_mono) auto
    with Suc.prems(3) have "j + m * i < m * n" by simp
    with len Suc \<open>i < n\<close> show ?thesis by (simp add: nth_append)
  qed
qed simp

lemma length_concat_const: "(\<And>i. i < n \<Longrightarrow> length (f i) = m) \<Longrightarrow> length (concat (map f [0..<n])) = m * n"
  by (induction n) auto

lemma loop3_length: "length (loop3 (nx, ny, nz)) = nx * ny * nz"
  by (simp add: loop3_def length_concat_const [where m = "nx * ny"] length_concat_const [where m = nx])

lemma loop3_nth:
  assumes "k < nx * ny * nz"
  shows "linear3 (nx, ny, nz) (loop3 (nx, ny, nz) ! k) = k \<and>
    (case loop3 (nx, ny, nz) ! k of (x, y, z) \<Rightarrow> x < nx \<and> y < ny \<and> z < nz)"
proof -
  let ?x = "k mod nx" and ?y = "k div nx mod ny" and ?z = "k div nx div ny"
  have pos: "0 < nx" "0 < ny" using assms by (auto intro: Nat.gr0I)
  have z: "?z < nz" using assms pos by (simp add: div_mult2_eq [symmetric] less_mult_imp_div_less mult.commute)
  have xy: "?x < nx" "?y < ny" using pos by simp_all
  have k: "k = (?x + nx * ?y) + nx * ny * ?z"
    by (metis add.commute div_mult2_eq div_mult_mod_eq mult.commute mult.left_commute distrib_left add.assoc)
  have i: "?x + nx * ?y < nx * ny"
  proof -
    have "nx * Suc ?y \<le> nx * ny" using xy by (intro mult_le_mono) auto
    with xy(1) show ?thesis by simp
  qed
  have "loop3 (nx, ny, nz) ! k = concat (map (\<lambda>y. map (\<lambda>x. (x, y, ?z)) [0..<nx]) [0..<ny]) ! (?x + nx * ?y)"
    unfolding loop3_def by (subst k, simp only: prod.case, rule concat_nth)
      (use z i in \<open>simp_all add: length_concat_const [where m = nx]\<close>)
  also have "\<dots> = map (\<lambda>x. (x, ?y, ?z)) [0..<nx] ! ?x"
    by (rule concat_nth) (use xy in simp_all)
  finally have n: "loop3 (nx, ny, nz) ! k = (?x, ?y, ?z)" using xy by simp
  have "linear3 (nx, ny, nz) (?x, ?y, ?z) = k"
    using k by (simp add: linear3_def distrib_left mult.assoc add.assoc)
  with n xy z show ?thesis by simp
qed


section \<open>Wavefronts\<close>

definition per_group :: "si_opencl_kernel_t \<Rightarrow> nat" where
  "per_group kn = (kn_local_size kn + si_emu_wavefront_size - 1) div si_emu_wavefront_size"

definition wave_of :: "si_opencl_kernel_t \<Rightarrow> nat \<Rightarrow> nat" where
  "wave_of kn t = t div kn_local_size kn * per_group kn + t mod kn_local_size kn div si_emu_wavefront_size"

lemma lid_div_less: "l < kn_local_size kn \<Longrightarrow> l div si_emu_wavefront_size < per_group kn"
  unfolding per_group_def si_emu_wavefront_size_def by simp

lemma wave_of_mono:
  assumes "s \<le> t" "0 < kn_local_size kn"
  shows "wave_of kn s \<le> wave_of kn t"
proof (cases "s div kn_local_size kn = t div kn_local_size kn")
  case True
  then have "s mod kn_local_size kn \<le> t mod kn_local_size kn"
    using assms by (metis add_le_cancel_left div_mult_mod_eq)
  with True show ?thesis by (simp add: wave_of_def div_le_mono)
next
  case False
  with assms(1) have lt: "s div kn_local_size kn < t div kn_local_size kn" by (simp add: div_le_mono le_neq_implies_less)
  have "wave_of kn s < s div kn_local_size kn * per_group kn + per_group kn"
    using lid_div_less [of "s mod kn_local_size kn" kn] assms(2) by (simp add: wave_of_def)
  also have "\<dots> = Suc (s div kn_local_size kn) * per_group kn" by simp
  also have "\<dots> \<le> t div kn_local_size kn * per_group kn" using lt by (intro mult_le_mono) auto
  finally show ?thesis by (simp add: wave_of_def)
qed

text \<open>The work-items of a wavefront among the first \<open>T\<close>, and what the wavefront records of them.\<close>

definition wave_items :: "si_opencl_kernel_t \<Rightarrow> nat \<Rightarrow> nat \<Rightarrow> nat set" where
  "wave_items kn T w = {t. t < T \<and> wave_of kn t = w}"

definition wave_ok :: "si_opencl_kernel_t \<Rightarrow> nat \<Rightarrow> nat \<Rightarrow> si_wavefront_t \<Rightarrow> bool" where
  "wave_ok kn T wid w \<longleftrightarrow> wf_id w = wid \<and> wf_work_group w = wid div per_group kn \<and> \<not> wf_finished w \<and>
     wf_work_item_count w = card (wave_items kn T wid) \<and>
     (wave_items kn T wid \<noteq> {} \<longrightarrow> wf_work_item_id_first w = Min (wave_items kn T wid) \<and>
        wf_work_item_id_last w = Max (wave_items kn T wid))"

lemma finite_wave_items [simp]: "finite (wave_items kn T w)"
  by (simp add: wave_items_def)

lemma wave_items_Suc:
  "wave_items kn (Suc T) w = (if wave_of kn T = w then insert T (wave_items kn T w) else wave_items kn T w)"
  by (auto simp: wave_items_def less_Suc_eq)

lemma wave_items_less: "t \<in> wave_items kn T w \<Longrightarrow> t < T"
  by (simp add: wave_items_def)

lemma wave_ok_item:
  assumes "wave_ok kn T (wave_of kn T) w"
    and "wf_id w' = wf_id w" "wf_work_group w' = wf_work_group w" "wf_finished w' = wf_finished w"
    and "wf_work_item_count w' = wf_work_item_count w + 1" "wf_work_item_id_last w' = T"
    and "wf_work_item_id_first w' = (if wf_work_item_count w = 0 then T else wf_work_item_id_first w)"
  shows "wave_ok kn (Suc T) (wave_of kn T) w'"
proof -
  let ?S = "wave_items kn T (wave_of kn T)"
  have s: "wave_items kn (Suc T) (wave_of kn T) = insert T ?S" by (simp add: wave_items_Suc)
  have n: "T \<notin> ?S" using wave_items_less by blast
  have "Max (insert T ?S) = T"
    by (rule Max_eqI) (auto dest: wave_items_less)
  moreover have "Min (insert T ?S) = (if ?S = {} then T else Min ?S)"
  proof (cases "?S = {}")
    case False
    then have "Min ?S \<in> ?S" by (intro Min_in) simp_all
    then have "Min ?S < T" by (rule wave_items_less)
    with False show ?thesis by simp
  qed simp
  ultimately show ?thesis using assms n unfolding wave_ok_def s by auto
qed

lemma wave_ok_other: "wave_ok kn T wid w \<Longrightarrow> wave_of kn T \<noteq> wid \<Longrightarrow> wave_ok kn (Suc T) wid w"
  by (simp add: wave_ok_def wave_items_Suc)

text \<open>The identifiers that belong to a wavefront are the interval from its first to its last.\<close>

lemma wave_items_interval:
  assumes "wave_ok kn T wid w" "wave_items kn T wid \<noteq> {}" "0 < kn_local_size kn"
  shows "wave_items kn T wid = {wf_work_item_id_first w..wf_work_item_id_last w}"
proof -
  let ?S = "wave_items kn T wid"
  have fl: "wf_work_item_id_first w = Min ?S" "wf_work_item_id_last w = Max ?S"
    using assms(1,2) by (simp_all add: wave_ok_def)
  have "Min ?S \<in> ?S" "Max ?S \<in> ?S" using assms(2) by simp_all
  then have m: "wave_of kn (Min ?S) = wid" "wave_of kn (Max ?S) = wid" "Max ?S < T" by (auto simp: wave_items_def)
  have "t \<in> ?S" if "Min ?S \<le> t" "t \<le> Max ?S" for t
    using wave_of_mono [OF that(1) assms(3)] wave_of_mono [OF that(2) assms(3)] m that
    by (simp add: wave_items_def)
  moreover have "Min ?S \<le> t \<and> t \<le> Max ?S" if "t \<in> ?S" for t using that by simp
  ultimately have "t \<in> ?S \<longleftrightarrow> Min ?S \<le> t \<and> t \<le> Max ?S" for t by blast
  then show ?thesis unfolding fl by (intro set_eqI) (simp only: atLeastAtMost_iff)
qed

section \<open>Creation of the wavefronts\<close>

definition group_waves :: "nat \<Rightarrow> nat \<Rightarrow> nat \<Rightarrow> nat list" where
  "group_waves per W gid = filter (\<lambda>w. w div per = gid) [0..<W]"

lemma upt_split: "a \<le> b \<Longrightarrow> b \<le> c \<Longrightarrow> [a..<c] = [a..<b] @ [b..<c]"
  using upt_add_eq_append [of a b "c - b"] by simp

lemma group_waves_all:
  assumes "0 < per" "gid < groups"
  shows "group_waves per (per * groups) gid = [gid * per..<gid * per + per]"
proof -
  have "[0..<per * groups] = [0..<gid * per] @ [gid * per..<gid * per + per] @ [gid * per + per..<per * groups]"
  proof -
    have "per * Suc gid \<le> per * groups" using assms(2) by (intro mult_le_mono) auto
    then have le: "gid * per + per \<le> per * groups" by (simp add: mult.commute)
    then have "gid * per \<le> per * groups" by linarith
    from upt_split [OF _ this, of 0] upt_split [OF _ le, of "gid * per"] show ?thesis by simp
  qed
  moreover have "w div per = gid \<longleftrightarrow> gid * per \<le> w \<and> w < gid * per + per" for w
  proof
    assume "w div per = gid"
    then have "w = gid * per + w mod per" using div_mult_mod_eq [of w per] by simp
    with assms(1) show "gid * per \<le> w \<and> w < gid * per + per" by (metis le_add1 mod_less_divisor nat_add_left_cancel_less)
  next
    assume "gid * per \<le> w \<and> w < gid * per + per"
    then show "w div per = gid" by (intro div_nat_eqI) (simp_all add: mult.commute)
  qed
  ultimately show ?thesis unfolding group_waves_def by (auto simp: filter_empty_conv filter_id_conv)
qed


text \<open>The work-groups before their setup: fresh, with the wavefronts below \<open>W\<close> running.\<close>

definition fresh_group :: "nat list \<Rightarrow> si_work_group_t \<Rightarrow> bool" where
  "fresh_group ws g \<longleftrightarrow> wg_running g = ws \<and> wg_barrier g = [] \<and> wg_finished g = [] \<and> wg_status g = 0"

definition waves_created :: "si_opencl_kernel_t \<Rightarrow> nat \<Rightarrow> nat \<Rightarrow> si_ndrange_t \<Rightarrow> bool" where
  "waves_created kn groups W nd \<longleftrightarrow>
     nd_wavefronts_per_work_group nd = per_group kn \<and> nd_wavefront_count nd = per_group kn * groups \<and>
     nd_work_group_count nd = groups \<and> length (nd_work_groups nd) = groups \<and>
     length (nd_wavefronts nd) = per_group kn * groups \<and>
     nd_pending nd = [] \<and> nd_running nd = [] \<and> nd_finished nd = [] \<and>
     (\<forall>w < W. wave_ok kn 0 w (nd_wavefronts nd ! w)) \<and>
     (\<forall>gid < groups. fresh_group (group_waves (per_group kn) W gid) (nd_work_groups nd ! gid))"

lemma wave_items_0 [simp]: "wave_items kn 0 w = {}"
  by (simp add: wave_items_def)

lemma setup_wavefront_step:
  assumes "waves_created kn groups W nd" "W < per_group kn * groups"
  shows "\<exists>nd'. setup_wavefront W nd = Inr nd' \<and> waves_created kn groups (Suc W) nd'"
proof -
  let ?per = "per_group kn"
  let ?gid = "W div ?per"
  have lt: "?gid < groups" using assms(2) by (simp add: less_mult_imp_div_less mult.commute)
  have g: "fresh_group (group_waves ?per W ?gid) (nd_work_groups nd ! ?gid)"
    using assms(1) lt by (simp add: waves_created_def)
  have n: "W \<notin> set (group_waves ?per W ?gid)" by (simp add: group_waves_def)
  have s: "group_waves ?per (Suc W) k = (if k = ?gid then group_waves ?per W k @ [W] else group_waves ?per W k)" for k
    by (simp add: group_waves_def)
  let ?g = "(nd_work_groups nd ! ?gid)\<lparr>wg_running := group_waves ?per W ?gid @ [W]\<rparr>"
  let ?w = "si_wavefront_create\<lparr>wf_id := W, wf_id_in_work_group := W mod ?per, wf_work_group := ?gid,
     wf_scalar := si_work_item_create\<lparr>wi_wavefront := W, wi_work_group := ?gid\<rparr>\<rparr>"
  have e: "setup_wavefront W nd = Inr (put_wavefront W ?w (put_group ?gid ?g nd))"
    using assms(1) g n by (simp add: setup_wavefront_def dl_insert_tail_def Let_def fresh_group_def waves_created_def)
  have w: "wave_ok kn 0 W ?w" by (simp add: wave_ok_def si_wavefront_create_def)
  have fg: "fresh_group (group_waves ?per W ?gid @ [W]) ?g" using g by (simp add: fresh_group_def)
  have "waves_created kn groups (Suc W) (put_wavefront W ?w (put_group ?gid ?g nd))"
    using assms lt w fg
    by (auto simp: waves_created_def put_wavefront_def put_group_def s nth_list_update less_Suc_eq)
  with e show ?thesis by blast
qed


section \<open>Work-items\<close>

definition user_element_ok :: "si_bin_enc_user_element_t \<Rightarrow> bool" where
  "user_element_ok ue \<longleftrightarrow> ue_dataClass ue = IMM_CONST_BUFFER \<and> ue_userRegCount ue = 4 \<or>
     ue_dataClass ue = PTR_UAV_TABLE \<and> ue_userRegCount ue = 2"

lemma init_user_elements:
  "\<forall>ue \<in> set ues. user_element_ok ue \<Longrightarrow> \<exists>s. res_fold (init_user_element junk) ues w = Inr (w\<lparr>wf_sreg := s\<rparr>)"
proof (induction ues arbitrary: w)
  case Nil
  show ?case by (auto intro: exI [of _ "wf_sreg w"])
next
  case (Cons ue ues)
  then have "\<exists>s. init_user_element junk ue w = Inr (w\<lparr>wf_sreg := s\<rparr>)"
    by (cases "ue_dataClass ue") (auto simp: user_element_ok_def init_user_element_def
        si_wavefront_init_sreg_with_cb_def si_wavefront_init_sreg_with_uav_table_def Let_def split: prod.splits)
  then obtain s where "init_user_element junk ue w = Inr (w\<lparr>wf_sreg := s\<rparr>)" ..
  with Cons.IH [of "w\<lparr>wf_sreg := s\<rparr>"] Cons.prems show ?case by auto
qed

text \<open>Work-item \<open>t\<close>: its identifiers, its three-dimensional identifiers, and the local ones in its
  first three registers.\<close>

definition item_ok :: "si_opencl_kernel_t \<Rightarrow> nat \<Rightarrow> si_work_item_t \<Rightarrow> bool" where
  "item_ok kn t it \<longleftrightarrow>
     (let size = kn_local_size kn; (gx, gy, gz) = loop3 (kn_group_count3 kn) ! (t div size);
          (x, y, z) = loop3 (kn_local_size3 kn) ! (t mod size); (lx, ly, lz) = kn_local_size3 kn in
      wi_id it = t \<and> wi_work_group it = t div size \<and> wi_id_in_work_group it = t mod size \<and>
      wi_wavefront it = wave_of kn t \<and> wi_id_in_wavefront it = t mod size mod si_emu_wavefront_size \<and>
      wi_id_in_work_group_3d it = (x, y, z) \<and> wi_id_3d it = (gx * lx + x, gy * ly + y, gz * lz + z) \<and>
      wi_vreg it 0 = of_nat x \<and> wi_vreg it 1 = of_nat y \<and> wi_vreg it 2 = of_nat z)"

definition grid_ok :: "si_opencl_kernel_t \<Rightarrow> nat \<Rightarrow> nat \<Rightarrow> si_ndrange_t \<Rightarrow> bool" where
  "grid_ok kn groups T nd \<longleftrightarrow>
     nd_wavefronts_per_work_group nd = per_group kn \<and> nd_wavefront_count nd = per_group kn * groups \<and>
     length (nd_wavefronts nd) = per_group kn * groups \<and> length (nd_work_items nd) = kn_local_size kn * groups \<and>
     (\<forall>w < per_group kn * groups. wave_ok kn T w (nd_wavefronts nd ! w)) \<and>
     (\<forall>t < T. item_ok kn t (nd_work_items nd ! t))"

lemma setup_item_step:
  assumes "grid_ok kn groups (gid * kn_local_size kn + l) nd" "l < kn_local_size kn" "gid < groups"
    and "\<forall>ue \<in> set (kn_user_elements kn). user_element_ok ue"
  shows "\<exists>nd'. setup_item junk kn gid (loop3 (kn_group_count3 kn) ! gid) (loop3 (kn_local_size3 kn) ! l)
       (nd, gid * kn_local_size kn + l, l) = Inr (nd', gid * kn_local_size kn + Suc l, Suc l) \<and>
     grid_ok kn groups (gid * kn_local_size kn + Suc l) nd' \<and> nd_work_groups nd' = nd_work_groups nd \<and>
     nd_work_group_count nd' = nd_work_group_count nd \<and> nd_pending nd' = nd_pending nd \<and>
     nd_running nd' = nd_running nd \<and> nd_finished nd' = nd_finished nd"
proof -
  let ?size = "kn_local_size kn" and ?per = "per_group kn"
  let ?t = "gid * ?size + l"
  obtain gx gy gz where g3: "loop3 (kn_group_count3 kn) ! gid = (gx, gy, gz)" by (metis prod_cases3)
  obtain x y z where l3: "loop3 (kn_local_size3 kn) ! l = (x, y, z)" by (metis prod_cases3)
  obtain lx ly lz where ls: "kn_local_size3 kn = (lx, ly, lz)" by (metis prod_cases3)
  have dm: "?t div ?size = gid" "?t mod ?size = l" using assms(2) by simp_all
  let ?wid = "gid * ?per + l div si_emu_wavefront_size"
  have wid: "wave_of kn ?t = ?wid" using assms(2) by (simp add: wave_of_def)
  have "gid * ?per + ?per \<le> ?per * groups"
    using mult_le_mono2 [of "Suc gid" groups ?per] assms(3) by (simp add: mult.commute)
  then have wlt: "?wid < ?per * groups" using lid_div_less [OF assms(2)] by linarith
  have "Suc gid * ?size \<le> groups * ?size" using assms(3) by (intro mult_le_mono) auto
  then have tlt: "?t < ?size * groups" using assms(2) by (simp add: mult.commute)
  define item where "item = si_work_item_create\<lparr>
     wi_id := ?t, wi_id_3d := (gx * lx + x, gy * ly + y, gz * lz + z),
     wi_id_in_work_group_3d := (x, y, z), wi_id_in_work_group := l,
     wi_id_in_wavefront := l mod si_emu_wavefront_size, wi_work_group := gid,
     wi_wavefront := ?wid, wi_vreg := (\<lambda>_. 0)(0 := of_nat x, 1 := of_nat y, 2 := of_nat z)\<rparr>"
  define w where "w = nd_wavefronts nd ! ?wid"
  define w1 where "w1 = (if wf_work_item_count w = 0 then w\<lparr>wf_work_item_id_first := ?t\<rparr> else w)"
  define w2 where "w2 = w1\<lparr>wf_work_item_count := wf_work_item_count w1 + 1, wf_work_item_id_last := ?t,
     wf_sreg := (wf_sreg w1)(12 := of_nat gx, 13 := of_nat gy, 14 := of_nat gz)\<rparr>"
  obtain s where s: "res_fold (init_user_element junk) (kn_user_elements kn) w2 = Inr (w2\<lparr>wf_sreg := s\<rparr>)"
    using init_user_elements [OF assms(4)] by blast
  define w3 where "w3 = w2\<lparr>wf_sreg := s(SI_EXEC := 0xFFFFFFFF, SI_EXEC + 1 := 0xFFFFFFFF, SI_EXECZ := 0)\<rparr>"
  define nd' where "nd' = put_wavefront ?wid w3 (nd\<lparr>nd_work_items := (nd_work_items nd)[?t := item]\<rparr>)"
  have wok: "wave_ok kn ?t ?wid w" using assms(1) wlt by (simp add: grid_ok_def w_def)
  have wok3: "wave_ok kn (Suc ?t) ?wid w3"
    by (rule wave_ok_item [of kn ?t w w3, unfolded wid, OF wok]) (simp_all add: w3_def w2_def w1_def)
  have it: "item_ok kn ?t item"
    using g3 l3 ls assms(2) by (simp add: item_ok_def Let_def item_def wid)
  have eq: "setup_item junk kn gid (loop3 (kn_group_count3 kn) ! gid) (loop3 (kn_local_size3 kn) ! l)
       (nd, ?t, l) = Inr (nd', gid * ?size + Suc l, Suc l)"
  proof (cases "wf_work_item_count w = 0")
    case True
    with s wlt assms(1) g3 l3 ls show ?thesis
      by (simp add: setup_item_def Let_def grid_ok_def nd'_def w3_def w2_def w1_def item_def w_def)
  next
    case False
    with s wlt assms(1) g3 l3 ls show ?thesis
      by (simp add: setup_item_def Let_def grid_ok_def nd'_def w3_def w2_def w1_def item_def w_def)
  qed
  have "grid_ok kn groups (Suc ?t) nd'"
    using assms(1) wok3 it wlt tlt
    by (auto simp: grid_ok_def nd'_def put_wavefront_def nth_list_update less_Suc_eq wid intro: wave_ok_other)
  with eq show ?thesis by (intro exI [of _ nd']) (simp add: nd'_def put_wavefront_def)
qed


section \<open>Work-groups\<close>

definition groups_setup :: "si_opencl_kernel_t \<Rightarrow> nat \<Rightarrow> nat \<Rightarrow> si_ndrange_t \<Rightarrow> bool" where
  "groups_setup kn groups G nd \<longleftrightarrow>
     nd_work_group_count nd = groups \<and> length (nd_work_groups nd) = groups \<and>
     nd_pending nd = [0..<G] \<and> nd_running nd = [] \<and> nd_finished nd = [] \<and>
     (\<forall>k < groups. let g = nd_work_groups nd ! k in
        wg_running g = [k * per_group kn..<k * per_group kn + per_group kn] \<and> wg_barrier g = [] \<and> wg_finished g = [] \<and>
        (if k < G then wg_wavefront_count g = per_group kn \<and> wg_status g = si_work_group_pending else wg_status g = 0))"

lemma set_pending:
  assumes "groups_setup kn groups G nd" "G < groups"
    and "nd1 = put_group G ((nd_work_groups nd ! G)\<lparr>wg_id_3d := i3, wg_id := G\<rparr>) nd"
  shows "si_work_group_set_status G si_work_group_pending nd1 =
     Inr (put_group G ((nd_work_groups nd ! G)\<lparr>wg_id_3d := i3, wg_id := G, wg_status := si_work_group_pending\<rparr>)
       (nd\<lparr>nd_pending := [0..<Suc G]\<rparr>))"
  using assms
  by (simp add: groups_setup_def Let_def si_work_group_set_status_def put_group_def on_bit_def dl_insert_tail_def
      si_work_group_pending_def si_work_group_running_def si_work_group_finished_def)

lemma setup_items:
  assumes "grid_ok kn groups (gid * kn_local_size kn) nd" "gid < groups"
    and "\<forall>ue \<in> set (kn_user_elements kn). user_element_ok ue" "length (loop3 (kn_local_size3 kn)) = kn_local_size kn"
  shows "\<exists>nd'. res_fold (setup_item junk kn gid (loop3 (kn_group_count3 kn) ! gid)) (loop3 (kn_local_size3 kn))
       (nd, gid * kn_local_size kn, 0) = Inr (nd', Suc gid * kn_local_size kn, kn_local_size kn) \<and>
     grid_ok kn groups (Suc gid * kn_local_size kn) nd' \<and> nd_work_groups nd' = nd_work_groups nd \<and>
     nd_work_group_count nd' = nd_work_group_count nd \<and> nd_pending nd' = nd_pending nd \<and>
     nd_running nd' = nd_running nd \<and> nd_finished nd' = nd_finished nd"
proof -
  let ?Q = "\<lambda>l (nd', tid, lid). lid = l \<and> tid = gid * kn_local_size kn + l \<and>
     grid_ok kn groups (gid * kn_local_size kn + l) nd' \<and> nd_work_groups nd' = nd_work_groups nd \<and>
     nd_work_group_count nd' = nd_work_group_count nd \<and> nd_pending nd' = nd_pending nd \<and>
     nd_running nd' = nd_running nd \<and> nd_finished nd' = nd_finished nd"
  have "\<exists>s'. res_fold (setup_item junk kn gid (loop3 (kn_group_count3 kn) ! gid)) (loop3 (kn_local_size3 kn))
       (nd, gid * kn_local_size kn, 0) = Inr s' \<and> ?Q (length (loop3 (kn_local_size3 kn))) s'"
  proof (rule res_fold_inv [where Q = ?Q])
    fix l s
    assume l: "l < length (loop3 (kn_local_size3 kn))" and q: "?Q l s"
    then obtain nd1 where s: "s = (nd1, gid * kn_local_size kn + l, l)" by (cases s) auto
    with q have g: "grid_ok kn groups (gid * kn_local_size kn + l) nd1" by simp
    from setup_item_step [OF g _ assms(2,3), of junk] l assms(4) q
    show "\<exists>s'. setup_item junk kn gid (loop3 (kn_group_count3 kn) ! gid) (loop3 (kn_local_size3 kn) ! l) s = Inr s' \<and>
        ?Q (Suc l) s'" unfolding s by auto
  qed (use assms(1) in simp)
  then show ?thesis using assms(4) by (auto simp: add.commute)
qed

lemma setup_group_step:
  assumes "groups_setup kn groups G nd" "grid_ok kn groups (G * kn_local_size kn) nd" "G < groups"
    and "\<forall>ue \<in> set (kn_user_elements kn). user_element_ok ue" "length (loop3 (kn_local_size3 kn)) = kn_local_size kn"
  shows "\<exists>nd'. setup_group junk kn (loop3 (kn_group_count3 kn) ! G) (nd, G * kn_local_size kn, G) =
       Inr (nd', Suc G * kn_local_size kn, Suc G) \<and>
     groups_setup kn groups (Suc G) nd' \<and> grid_ok kn groups (Suc G * kn_local_size kn) nd'"
proof -
  let ?i3 = "loop3 (kn_group_count3 kn) ! G" and ?per = "per_group kn" and ?tid = "G * kn_local_size kn"
  define g where "g = (nd_work_groups nd ! G)\<lparr>wg_id_3d := ?i3, wg_id := G, wg_status := si_work_group_pending,
     wg_work_item_id_first := ?tid, wg_work_item_id_last := ?tid + kn_local_size kn,
     wg_work_item_count := kn_local_size kn, wg_wavefront_id_first := G * ?per,
     wg_wavefront_id_last := G * ?per + ?per - 1, wg_wavefront_count := ?per\<rparr>"
  define nd2 where "nd2 = nd\<lparr>nd_pending := [0..<Suc G], nd_work_groups := (nd_work_groups nd)[G := g]\<rparr>"
  have len: "G < length (nd_work_groups nd)" "nd_wavefronts_per_work_group nd = ?per"
    using assms(1-3) by (simp_all add: groups_setup_def grid_ok_def)
  have "grid_ok kn groups ?tid nd2" using assms(2) by (simp add: nd2_def grid_ok_def)
  from setup_items [OF this assms(3-5), of junk] obtain nd' where
    f: "res_fold (setup_item junk kn G ?i3) (loop3 (kn_local_size3 kn)) (nd2, ?tid, 0) =
        Inr (nd', Suc G * kn_local_size kn, kn_local_size kn)"
    and ok: "grid_ok kn groups (Suc G * kn_local_size kn) nd'" and same: "nd_work_groups nd' = nd_work_groups nd2"
      "nd_work_group_count nd' = nd_work_group_count nd2" "nd_pending nd' = nd_pending nd2"
      "nd_running nd' = nd_running nd2" "nd_finished nd' = nd_finished nd2" by auto
  have e: "setup_group junk kn ?i3 (nd, ?tid, G) = Inr (nd', Suc G * kn_local_size kn, Suc G)"
    using len f by (simp add: setup_group_def Let_def set_pending [OF assms(1,3) refl, unfolded put_group_def] put_group_def g_def nd2_def)
  have "groups_setup kn groups (Suc G) nd'"
    using assms(1,3) by (auto simp: groups_setup_def same nd2_def Let_def nth_list_update g_def less_Suc_eq)
  with e ok show ?thesis by blast
qed


section \<open>The grid\<close>

text \<open>A launch that the OpenCL layer builds: the sizes are the products of their components.\<close>

definition kernel_ok :: "si_opencl_kernel_t \<Rightarrow> bool" where
  "kernel_ok kn \<longleftrightarrow>
     (case kn_local_size3 kn of (x, y, z) \<Rightarrow> kn_local_size kn = x * y * z) \<and>
     (case kn_group_count3 kn of (x, y, z) \<Rightarrow> kn_group_count kn = x * y * z) \<and>
     kn_global_size kn = kn_local_size kn * kn_group_count kn \<and> 0 < kn_global_size kn \<and> kn_text kn \<noteq> [] \<and>
     (\<forall>ue \<in> set (kn_user_elements kn). user_element_ok ue)"

lemma setup_waves:
  assumes "nd_pending nd = []" "nd_running nd = []" "nd_finished nd = []" "0 < per_group kn"
  shows "\<exists>nd'. res_fold setup_wavefront [0..<per_group kn * groups]
           (nd\<lparr>nd_work_group_count := groups, nd_work_groups := replicate groups si_work_group_create,
               nd_wavefronts_per_work_group := per_group kn, nd_wavefront_count := per_group kn * groups,
               nd_wavefronts := replicate (per_group kn * groups) si_wavefront_create\<rparr>) = Inr nd' \<and>
    waves_created kn groups (per_group kn * groups) nd'"
proof -
  let ?n = "per_group kn * groups"
  let ?nd0 = "nd\<lparr>nd_work_group_count := groups, nd_work_groups := replicate groups si_work_group_create,
      nd_wavefronts_per_work_group := per_group kn, nd_wavefront_count := ?n,
      nd_wavefronts := replicate ?n si_wavefront_create\<rparr>"
  have "\<exists>nd'. res_fold setup_wavefront [0..<?n] ?nd0 = Inr nd' \<and> waves_created kn groups (length [0..<?n]) nd'"
  proof (rule res_fold_inv [where Q = "waves_created kn groups"])
    show "waves_created kn groups 0 ?nd0"
      using assms by (simp add: waves_created_def fresh_group_def group_waves_def si_work_group_create_def)
  next
    fix k s assume "k < length [0..<?n]" "waves_created kn groups k s"
    then show "\<exists>s'. setup_wavefront ([0..<?n] ! k) s = Inr s' \<and> waves_created kn groups (Suc k) s'"
      using setup_wavefront_step by simp
  qed
  then show ?thesis by simp
qed

lemma grid_nd_ok:
  assumes "groups_setup kn groups groups nd" "grid_ok kn groups T nd" "0 < per_group kn"
  shows "nd_ok nd"
proof -
  let ?per = "per_group kn"
  have le: "gid * ?per + ?per \<le> ?per * groups" if "gid < groups" for gid
    using mult_le_mono2 [of "Suc gid" groups ?per] that by (simp add: mult.commute)
  have dv: "w div ?per = gid" if "gid * ?per \<le> w" "w < gid * ?per + ?per" for w gid
    by (rule div_nat_eqI) (use that in \<open>simp_all add: mult.commute\<close>)
  have "wg_ok (nd_work_groups nd ! gid) \<and>
      (\<forall>wid \<in> set (wg_all (nd_work_groups nd ! gid)). wid < length (nd_wavefronts nd) \<and>
         wf_id (nd_wavefronts nd ! wid) = wid \<and> wf_work_group (nd_wavefronts nd ! wid) = gid)"
    if gid: "gid < groups" for gid
  proof -
    have a: "wg_all (nd_work_groups nd ! gid) = [gid * ?per..<gid * ?per + ?per]"
      "wg_wavefront_count (nd_work_groups nd ! gid) = ?per"
      using assms(1) gid by (simp_all add: groups_setup_def Let_def wg_all_def)
    have "wid < length (nd_wavefronts nd) \<and> wf_id (nd_wavefronts nd ! wid) = wid \<and>
        wf_work_group (nd_wavefronts nd ! wid) = gid" if "gid * ?per \<le> wid" "wid < gid * ?per + ?per" for wid
    proof -
      have "wid < ?per * groups" using that le [OF gid] by linarith
      with assms(2) dv [OF that] show ?thesis by (simp add: grid_ok_def wave_ok_def)
    qed
    then show ?thesis by (simp add: a wg_ok_def)
  qed
  then show ?thesis using assms(1) by (simp add: nd_ok_def groups_setup_def)
qed

lemma setup_grid:
  assumes "kernel_ok kn" "nd_pending nd = []" "nd_running nd = []" "nd_finished nd = []"
  shows "\<exists>nd'. si_ndrange_setup_work_items junk kn nd = Inr nd' \<and> nd_ok nd' \<and>
     groups_setup kn (kn_group_count kn) (kn_group_count kn) nd' \<and>
     grid_ok kn (kn_group_count kn) (kn_global_size kn) nd' \<and> nd_text nd' = kn_text kn \<and>
     (\<forall>w \<in> set (nd_wavefronts nd'). wf_pc w = 0)"
proof -
  let ?per = "per_group kn" and ?groups = "kn_group_count kn" and ?size = "kn_local_size kn"
  have pos: "0 < ?size" "0 < ?groups" using assms(1) by (auto simp: kernel_ok_def)
  then have per: "0 < ?per" using lid_div_less [of 0 kn] by linarith
  have len: "length (loop3 (kn_local_size3 kn)) = ?size" "length (loop3 (kn_group_count3 kn)) = ?groups"
    using assms(1) by (auto simp: kernel_ok_def loop3_length split: prod.splits)
  obtain nd1 where w: "res_fold setup_wavefront [0..<?per * ?groups]
           (nd\<lparr>nd_work_group_count := ?groups, nd_work_groups := replicate ?groups si_work_group_create,
               nd_wavefronts_per_work_group := ?per, nd_wavefront_count := ?per * ?groups,
               nd_wavefronts := replicate (?per * ?groups) si_wavefront_create\<rparr>) = Inr nd1"
    "waves_created kn ?groups (?per * ?groups) nd1"
    using setup_waves [OF assms(2-4) per] by blast
  let ?nd2 = "nd1\<lparr>nd_work_item_count := kn_global_size kn,
               nd_work_items := replicate (kn_global_size kn) si_work_item_create\<rparr>"
  let ?Q = "\<lambda>G (nd', tid, gid). gid = G \<and> tid = G * ?size \<and> groups_setup kn ?groups G nd' \<and> grid_ok kn ?groups (G * ?size) nd'"
  have "\<exists>s'. res_fold (setup_group junk kn) (loop3 (kn_group_count3 kn)) (?nd2, 0, 0) = Inr s' \<and>
      ?Q (length (loop3 (kn_group_count3 kn))) s'"
  proof (rule res_fold_inv [where Q = ?Q])
    have "groups_setup kn ?groups 0 ?nd2"
      using w(2) group_waves_all [OF per] by (simp add: waves_created_def groups_setup_def fresh_group_def Let_def)
    moreover have "grid_ok kn ?groups 0 ?nd2"
      using w(2) assms(1) by (simp add: waves_created_def grid_ok_def kernel_ok_def)
    ultimately show "?Q 0 (?nd2, 0, 0)" by simp
  next
    fix G s assume G: "G < length (loop3 (kn_group_count3 kn))" and q: "?Q G s"
    then obtain nd' where s: "s = (nd', G * ?size, G)" by (cases s) auto
    with q have q': "groups_setup kn ?groups G nd'" "grid_ok kn ?groups (G * ?size) nd'" by simp_all
    have lt: "G < ?groups" using G len by simp
    have ue: "\<forall>ue \<in> set (kn_user_elements kn). user_element_ok ue" using assms(1) by (simp add: kernel_ok_def)
    from setup_group_step [OF q' lt ue len(1), of junk]
    show "\<exists>s'. setup_group junk kn (loop3 (kn_group_count3 kn) ! G) s = Inr s' \<and> ?Q (Suc G) s'" unfolding s by auto
  qed
  then obtain nd3 where g: "res_fold (setup_group junk kn) (loop3 (kn_group_count3 kn)) (?nd2, 0, 0) =
      Inr (nd3, ?groups * ?size, ?groups)" "groups_setup kn ?groups ?groups nd3" "grid_ok kn ?groups (?groups * ?size) nd3"
    unfolding len by auto
  define nd4 where "nd4 = nd3\<lparr>nd_text := kn_text kn, nd_wavefronts := map (\<lambda>w. w\<lparr>wf_pc := 0\<rparr>) (nd_wavefronts nd3)\<rparr>"
  have e: "si_ndrange_setup_work_items junk kn nd = Inr nd4"
    using w(1) g(1) assms(1) pos per unfolding si_ndrange_setup_work_items_def Let_def per_group_def [symmetric]
    by (simp add: nd4_def kernel_ok_def)
  have gs: "groups_setup kn ?groups ?groups nd4" using g(2) by (simp add: groups_setup_def nd4_def)
  have go: "grid_ok kn ?groups (?groups * ?size) nd4" using g(3) by (simp add: grid_ok_def nd4_def wave_ok_def)
  have gl: "?groups * ?size = kn_global_size kn" using assms(1) by (simp add: kernel_ok_def mult.commute)
  show ?thesis
    using e gs go grid_nd_ok [OF gs go per] unfolding gl by (intro exI [of _ nd4]) (simp add: nd4_def)
qed


text \<open>C17: the grid of an ND-Range. For a kernel whose sizes are consistent, the setup succeeds and
  leaves a consistent state in which every work-item has the identifiers, the local coordinates and
  the lane that its number says, and every wavefront ranges over exactly the work-items that belong
  to it, from its first to its last identifier.\<close>

theorem setup_work_items_correct:
  assumes "kernel_ok kn" "nd_pending nd = []" "nd_running nd = []" "nd_finished nd = []"
  shows "\<exists>nd'. si_ndrange_setup_work_items junk kn nd = Inr nd' \<and> nd_ok nd' \<and>
    (\<forall>t < kn_global_size kn. let it = nd_work_items nd' ! t; w = nd_wavefronts nd' ! wi_wavefront it in
       wi_id it = t \<and> wi_work_group it = t div kn_local_size kn \<and> wi_id_in_work_group it = t mod kn_local_size kn \<and>
       linear3 (kn_local_size3 kn) (wi_id_in_work_group_3d it) = t mod kn_local_size kn \<and>
       wi_id_in_wavefront it = t mod kn_local_size kn mod 64 \<and> wf_work_group w = wi_work_group it \<and>
       {s. s < kn_global_size kn \<and> wi_wavefront (nd_work_items nd' ! s) = wi_wavefront it} =
         {wf_work_item_id_first w..wf_work_item_id_last w})"
proof -
  let ?size = "kn_local_size kn" and ?n = "kn_global_size kn"
  have pos: "0 < ?size" "?n = ?size * kn_group_count kn" using assms(1) by (auto simp: kernel_ok_def)
  obtain nd' where nd': "si_ndrange_setup_work_items junk kn nd = Inr nd'" "nd_ok nd'"
    "grid_ok kn (kn_group_count kn) ?n nd'" using setup_grid [OF assms, of junk] by auto
  have items: "item_ok kn t (nd_work_items nd' ! t)" if "t < ?n" for t
    using nd'(3) that by (simp add: grid_ok_def)
  have wave: "wi_wavefront (nd_work_items nd' ! t) = wave_of kn t" if "t < ?n" for t
    using items [OF that] by (simp add: item_ok_def Let_def split: prod.splits)
  have main: "let it = nd_work_items nd' ! t; w = nd_wavefronts nd' ! wi_wavefront it in
       wi_id it = t \<and> wi_work_group it = t div ?size \<and> wi_id_in_work_group it = t mod ?size \<and>
       linear3 (kn_local_size3 kn) (wi_id_in_work_group_3d it) = t mod ?size \<and>
       wi_id_in_wavefront it = t mod ?size mod 64 \<and> wf_work_group w = wi_work_group it \<and>
       {s. s < ?n \<and> wi_wavefront (nd_work_items nd' ! s) = wi_wavefront it} =
         {wf_work_item_id_first w..wf_work_item_id_last w}" if t: "t < ?n" for t
  proof -
    let ?it = "nd_work_items nd' ! t" and ?w = "nd_wavefronts nd' ! wave_of kn t"
    have gid: "t div ?size < kn_group_count kn"
      using t pos(2) by (simp add: less_mult_imp_div_less mult.commute)
    have l: "t mod ?size div si_emu_wavefront_size < per_group kn" using lid_div_less pos(1) by simp
    have "t div ?size * per_group kn + per_group kn \<le> per_group kn * kn_group_count kn"
      using mult_le_mono2 [of "Suc (t div ?size)" "kn_group_count kn" "per_group kn"] gid by (simp add: mult.commute)
    then have lt: "wave_of kn t < per_group kn * kn_group_count kn" using l unfolding wave_of_def by linarith
    then have wok: "wave_ok kn ?n (wave_of kn t) ?w" using nd'(3) by (simp add: grid_ok_def)
    have mem: "t \<in> wave_items kn ?n (wave_of kn t)" using t by (simp add: wave_items_def)
    have iv: "wave_items kn ?n (wave_of kn t) = {wf_work_item_id_first ?w..wf_work_item_id_last ?w}"
      using wave_items_interval [OF wok _ pos(1)] mem by blast
    have "{s. s < ?n \<and> wi_wavefront (nd_work_items nd' ! s) = wave_of kn t} = wave_items kn ?n (wave_of kn t)"
      using wave by (auto simp: wave_items_def)
    moreover have "wave_of kn t div per_group kn = t div ?size"
      using l by (simp add: wave_of_def)
    moreover have "linear3 (kn_local_size3 kn) (loop3 (kn_local_size3 kn) ! (t mod ?size)) = t mod ?size"
    proof -
      obtain x y z where xyz: "kn_local_size3 kn = (x, y, z)" by (metis prod_cases3)
      with assms(1) have "?size = x * y * z" by (simp add: kernel_ok_def)
      with loop3_nth [of "t mod ?size" x y z] pos(1) show ?thesis by (simp add: xyz)
    qed
    ultimately show ?thesis
      using items [OF t] wok iv wave [OF t]
      by (auto simp: item_ok_def wave_ok_def Let_def si_emu_wavefront_size_def split: prod.splits)
  qed
  show ?thesis using nd' main by blast
qed

definition demo_kernel :: si_opencl_kernel_t where
  "demo_kernel = \<lparr>kn_args = [], kn_user_elements = [], kn_text = [0], kn_func_mem_local = 0, kn_work_dim = 2,
     kn_global_size3 = (20, 10, 1), kn_local_size3 = (10, 10, 1), kn_group_count3 = (2, 1, 1),
     kn_global_size = 200, kn_local_size = 100, kn_group_count = 2\<rparr>"

lemma setup_work_items_correct_witness:
  "\<exists>nd'. si_ndrange_setup_work_items (0, 0, 0) demo_kernel (demo_nd [0]\<lparr>nd_running := []\<rparr>) = Inr nd' \<and> nd_ok nd' \<and>
     wi_id_in_wavefront (nd_work_items nd' ! 170) = 6"
proof -
  have "kernel_ok demo_kernel" by (simp add: demo_kernel_def kernel_ok_def)
  from setup_work_items_correct [OF this, of "demo_nd [0]\<lparr>nd_running := []\<rparr>" "(0, 0, 0)"] obtain nd' where
    "si_ndrange_setup_work_items (0, 0, 0) demo_kernel (demo_nd [0]\<lparr>nd_running := []\<rparr>) = Inr nd'" "nd_ok nd'"
    "\<forall>t < 200. wi_id_in_wavefront (nd_work_items nd' ! t) = t mod 100 mod 64"
    by (auto simp: demo_nd_def demo_kernel_def Let_def)
  then show ?thesis by auto
qed

end
