(* ===== verification/Network.thy ===== *)
theory Network
  imports Esim
begin

text \<open>
  Interconnection networks (\<open>src/network\<close>): the objects of a network and its construction
  (\<open>node.c\<close>, \<open>link.c\<close>, \<open>network.c\<close>), message buffers (\<open>buffer.c\<close>) and the table of messages
  in flight (\<open>network.c\<close>). The state is that of one network: its nodes, links and buffers are
  lists in creation order, and a pointer to one of them is its position; a message is
  known by its identifier, which the counter of the network makes unique. The lists of the code
  (\<open>struct list_t\<close>, \<open>struct linked_list_t\<close>) are plain sequences here, which is what they
  behave as. Sizes, cycles and costs are unbounded integers. Names of buffers and links, the
  dumps and the reports are left out.
\<close>

section \<open>Objects\<close>

text \<open>What the simulator passes with an event: the stack of a message, or a pointer of the user.\<close>

datatype 'u net_data =
    Null
  | User 'u
  | Net_stack (st_msg: int) (st_ret_event: int) (st_ret_stack: "'u net_data")

record net_msg_t =
  nm_size :: int
  nm_send_cycle :: int
  nm_busy :: int
  nm_src_node :: nat
  nm_dst_node :: nat
  nm_node :: "nat option"
  nm_buffer :: "nat option"

record net_link_t =
  lk_src_node :: nat
  lk_src_buffer :: nat
  lk_dst_node :: nat
  lk_dst_buffer :: nat
  lk_bandwidth :: int
  lk_busy :: int
  lk_busy_cycles :: int
  lk_transferred_bytes :: int
  lk_transferred_msgs :: int

record 'd net_buffer_t =
  nb_node :: nat
  nb_index :: nat
  nb_size :: int
  nb_count :: int
  nb_read_busy :: int
  nb_write_busy :: int
  nb_link :: "nat option"
  nb_msg_list :: "int list"
  nb_sched_when :: int
  nb_sched_buffer :: "nat option"
  nb_wakeup_list :: "(int \<times> 'd) list"
  nb_occupancy_bytes_value :: int
  nb_occupancy_msgs_value :: int
  nb_occupancy_measured_cycle :: int
  nb_occupancy_bytes_acc :: int
  nb_occupancy_msgs_acc :: int

datatype net_node_kind_t = net_node_invalid | net_node_end | net_node_switch | net_node_bus

record 'd net_node_t =
  nn_kind :: net_node_kind_t
  nn_index :: nat
  nn_name :: string
  nn_user_data :: 'd
  nn_bandwidth :: int
  nn_input_buffer_size :: int
  nn_output_buffer_size :: int
  nn_input_buffer_list :: "nat list"
  nn_output_buffer_list :: "nat list"
  nn_bytes_received :: int
  nn_msgs_received :: int
  nn_bytes_sent :: int
  nn_msgs_sent :: int

record net_routing_table_entry_t =
  re_cost :: int
  re_next_node :: "nat option"
  re_output_buffer :: "nat option"

record net_routing_table_t =
  rt_dim :: nat
  rt_entries :: "net_routing_table_entry_t list option"
  rt_has_cycle :: bool

abbreviation NET_MSG_TABLE_SIZE :: nat where "NET_MSG_TABLE_SIZE \<equiv> 32"

record 'd net_t =
  net_msg_id_counter :: int
  net_node_list :: "'d net_node_t list"
  net_end_node_count :: nat
  net_link_list :: "net_link_t list"
  net_buffers :: "'d net_buffer_t list"
  net_routing_table :: net_routing_table_t
  net_msgs :: "int \<rightharpoonup> net_msg_t"
  net_msg_table :: "int list list"
  net_transfers :: int
  net_lat_acc :: int
  net_msg_size_acc :: int

definition net_node_count :: "'d net_t \<Rightarrow> nat" where
  "net_node_count nt = length (net_node_list nt)"

abbreviation node_at :: "'d net_t \<Rightarrow> nat \<Rightarrow> 'd net_node_t" where
  "node_at nt n \<equiv> net_node_list nt ! n"

abbreviation buffer_at :: "'d net_t \<Rightarrow> nat \<Rightarrow> 'd net_buffer_t" where
  "buffer_at nt b \<equiv> net_buffers nt ! b"

abbreviation link_at :: "'d net_t \<Rightarrow> nat \<Rightarrow> net_link_t" where
  "link_at nt l \<equiv> net_link_list nt ! l"

definition put_node :: "nat \<Rightarrow> 'd net_node_t \<Rightarrow> 'd net_t \<Rightarrow> 'd net_t" where
  "put_node n x nt = nt\<lparr>net_node_list := (net_node_list nt)[n := x]\<rparr>"

definition put_buffer :: "nat \<Rightarrow> 'd net_buffer_t \<Rightarrow> 'd net_t \<Rightarrow> 'd net_t" where
  "put_buffer b x nt = nt\<lparr>net_buffers := (net_buffers nt)[b := x]\<rparr>"

definition put_link :: "nat \<Rightarrow> net_link_t \<Rightarrow> 'd net_t \<Rightarrow> 'd net_t" where
  "put_link l x nt = nt\<lparr>net_link_list := (net_link_list nt)[l := x]\<rparr>"

definition put_msg :: "int \<Rightarrow> net_msg_t \<Rightarrow> 'd net_t \<Rightarrow> 'd net_t" where
  "put_msg m x nt = nt\<lparr>net_msgs := (net_msgs nt)(m \<mapsto> x)\<rparr>"

text \<open>Following the pointer to a message: none once the message has been freed.\<close>

definition msg_at :: "'d net_t \<Rightarrow> int \<Rightarrow> net_msg_t res" where
  "msg_at nt m = (case net_msgs nt m of None \<Rightarrow> Inl Null_deref | Some x \<Rightarrow> Inr x)"

section \<open>Buffers\<close>

definition net_buffer_create :: "nat \<Rightarrow> int \<Rightarrow> 'd net_buffer_t res" where
  "net_buffer_create node sz =
     (if sz < 1 then Inl (Panic ''invalid size'')
      else Inr \<lparr>nb_node = node, nb_index = 0, nb_size = sz, nb_count = 0, nb_read_busy = 0,
        nb_write_busy = 0, nb_link = None, nb_msg_list = [], nb_sched_when = 0, nb_sched_buffer = None,
        nb_wakeup_list = [], nb_occupancy_bytes_value = 0, nb_occupancy_msgs_value = 0,
        nb_occupancy_measured_cycle = 0, nb_occupancy_bytes_acc = 0, nb_occupancy_msgs_acc = 0\<rparr>)"

definition net_buffer_update_occupancy :: "int \<Rightarrow> 'd net_buffer_t \<Rightarrow> 'd net_buffer_t" where
  "net_buffer_update_occupancy cyc b =
     (let cycles = cyc - nb_occupancy_measured_cycle b in
      b\<lparr>nb_occupancy_bytes_acc := nb_occupancy_bytes_acc b + nb_occupancy_bytes_value b * cycles,
        nb_occupancy_msgs_acc := nb_occupancy_msgs_acc b + nb_occupancy_msgs_value b * cycles,
        nb_occupancy_bytes_value := nb_count b,
        nb_occupancy_msgs_value := int (length (nb_msg_list b)),
        nb_occupancy_measured_cycle := cyc\<rparr>)"

definition net_buffer_insert :: "int \<Rightarrow> nat \<Rightarrow> int \<Rightarrow> 'd net_t \<Rightarrow> 'd net_t res" where
  "net_buffer_insert cyc b m nt =
     res_bind (msg_at nt m) (\<lambda>msg.
       let buffer = buffer_at nt b in
       if nb_count buffer + nm_size msg > nb_size buffer then Inl (Panic ''not enough space in buffer'')
       else Inr (put_buffer b (net_buffer_update_occupancy cyc
              (buffer\<lparr>nb_count := nb_count buffer + nm_size msg, nb_msg_list := nb_msg_list buffer @ [m]\<rparr>)) nt))"

text \<open>Schedule the events that wait for space, from the head of the list until it is empty.\<close>

fun wakeup_loop :: "(int \<times> 'd) list \<Rightarrow> 'd esim_t \<Rightarrow> 'd esim_t res" where
  "wakeup_loop [] s = Inr s"
| "wakeup_loop ((event, stack) # ws) s = res_bind (esim_schedule_event s event stack 0) (wakeup_loop ws)"

definition net_buffer_wakeup :: "nat \<Rightarrow> 'd esim_t \<times> 'd net_t \<Rightarrow> ('d esim_t \<times> 'd net_t) res" where
  "net_buffer_wakeup b sw =
     (let (s, nt) = sw; buffer = buffer_at nt b in
      res_bind (wakeup_loop (nb_wakeup_list buffer) s) (\<lambda>s.
        Inr (s, put_buffer b (buffer\<lparr>nb_wakeup_list := []\<rparr>) nt)))"

definition net_buffer_extract :: "nat \<Rightarrow> int \<Rightarrow> 'd esim_t \<times> 'd net_t \<Rightarrow> ('d esim_t \<times> 'd net_t) res" where
  "net_buffer_extract b m sw =
     (let (s, nt) = sw; buffer = buffer_at nt b in
      res_bind (msg_at nt m) (\<lambda>msg.
        if \<not> nb_count buffer \<ge> nm_size msg then Inl Assert_failed
        else case nb_msg_list buffer of
          [] \<Rightarrow> Inl (Panic ''empty message list'')
        | x # xs \<Rightarrow>
            if x \<noteq> m then Inl (Panic ''message is not at buffer head'')
            else net_buffer_wakeup b (s, put_buffer b (net_buffer_update_occupancy (esim_cycle s)
                   (buffer\<lparr>nb_count := nb_count buffer - nm_size msg, nb_msg_list := xs\<rparr>)) nt)))"

definition net_buffer_wait :: "'d esim_t \<Rightarrow> nat \<Rightarrow> int \<Rightarrow> 'd \<Rightarrow> 'd net_t \<Rightarrow> 'd net_t res" where
  "net_buffer_wait s b event stack nt =
     (let buffer = buffer_at nt b in
      if event = esim_ev_none s then Inr nt
      else if \<not> nb_count buffer > 0 then Inl Assert_failed
      else Inr (put_buffer b (buffer\<lparr>nb_wakeup_list := nb_wakeup_list buffer @ [(event, stack)]\<rparr>) nt))"

section \<open>Construction\<close>

definition net_routing_table_create :: net_routing_table_t where
  "net_routing_table_create = \<lparr>rt_dim = 0, rt_entries = None, rt_has_cycle = False\<rparr>"

definition net_create :: "'d net_t" where
  "net_create = \<lparr>net_msg_id_counter = 0, net_node_list = [], net_end_node_count = 0, net_link_list = [],
     net_buffers = [], net_routing_table = net_routing_table_create, net_msgs = Map.empty,
     net_msg_table = replicate NET_MSG_TABLE_SIZE [], net_transfers = 0, net_lat_acc = 0,
     net_msg_size_acc = 0\<rparr>"

definition net_get_node_by_name :: "'d net_t \<Rightarrow> string \<Rightarrow> nat option" where
  "net_get_node_by_name nt name = find_index_from (\<lambda>node. strcaseeq (nn_name node) name) 0 (net_node_list nt)"

definition net_get_node_by_user_data :: "'d net_t \<Rightarrow> 'd \<Rightarrow> nat option" where
  "net_get_node_by_user_data nt user_data =
     find_index_from (\<lambda>node. nn_user_data node = user_data) 0 (net_node_list nt)"

definition net_node_create :: "'d net_t \<Rightarrow> net_node_kind_t \<Rightarrow> nat \<Rightarrow> int \<Rightarrow> int \<Rightarrow> int \<Rightarrow> string \<Rightarrow> 'd \<Rightarrow>
    'd net_node_t res" where
  "net_node_create nt kind index in_size out_size bandwidth name user_data =
     (if kind \<noteq> net_node_end \<and> bandwidth < 1 then Inl (Panic ''invalid bandwidth'')
      else if net_get_node_by_name nt name \<noteq> None then Inl (Fatal ''duplicated node name'')
      else Inr \<lparr>nn_kind = kind, nn_index = index, nn_name = name, nn_user_data = user_data,
        nn_bandwidth = bandwidth, nn_input_buffer_size = in_size, nn_output_buffer_size = out_size,
        nn_input_buffer_list = [], nn_output_buffer_list = [], nn_bytes_received = 0,
        nn_msgs_received = 0, nn_bytes_sent = 0, nn_msgs_sent = 0\<rparr>)"

definition net_add_end_node :: "int \<Rightarrow> int \<Rightarrow> string \<Rightarrow> 'd \<Rightarrow> 'd net_t \<Rightarrow> ('d net_t \<times> nat) res" where
  "net_add_end_node in_size out_size name user_data nt =
     res_bind (net_node_create nt net_node_end (net_node_count nt) in_size out_size 0 name user_data) (\<lambda>node.
       Inr (nt\<lparr>net_end_node_count := net_end_node_count nt + 1, net_node_list := net_node_list nt @ [node]\<rparr>,
            net_node_count nt))"

definition net_add_switch :: "int \<Rightarrow> int \<Rightarrow> int \<Rightarrow> string \<Rightarrow> 'd \<Rightarrow> 'd net_t \<Rightarrow> ('d net_t \<times> nat) res" where
  "net_add_switch in_size out_size bandwidth name null nt =
     res_bind (net_node_create nt net_node_switch (net_node_count nt) in_size out_size bandwidth name null) (\<lambda>node.
       Inr (nt\<lparr>net_node_list := net_node_list nt @ [node]\<rparr>, net_node_count nt))"

definition net_add_bus :: "int \<Rightarrow> string \<Rightarrow> 'd net_t \<Rightarrow> ('d net_t \<times> nat) res" where
  "net_add_bus bandwidth name nt = Inl (Panic ''buses not supported'')"

definition net_node_add_input_buffer :: "nat \<Rightarrow> 'd net_t \<Rightarrow> ('d net_t \<times> nat) res" where
  "net_node_add_input_buffer n nt =
     (let node = node_at nt n; b = length (net_buffers nt) in
      res_bind (net_buffer_create n (nn_input_buffer_size node)) (\<lambda>buffer.
        Inr (put_node n (node\<lparr>nn_input_buffer_list := nn_input_buffer_list node @ [b]\<rparr>)
               (nt\<lparr>net_buffers := net_buffers nt @ [buffer\<lparr>nb_index := length (nn_input_buffer_list node)\<rparr>]\<rparr>), b)))"

definition net_node_add_output_buffer :: "nat \<Rightarrow> 'd net_t \<Rightarrow> ('d net_t \<times> nat) res" where
  "net_node_add_output_buffer n nt =
     (let node = node_at nt n; b = length (net_buffers nt) in
      res_bind (net_buffer_create n (nn_output_buffer_size node)) (\<lambda>buffer.
        Inr (put_node n (node\<lparr>nn_output_buffer_list := nn_output_buffer_list node @ [b]\<rparr>)
               (nt\<lparr>net_buffers := net_buffers nt @ [buffer\<lparr>nb_index := length (nn_output_buffer_list node)\<rparr>]\<rparr>), b)))"

definition net_link_create :: "nat \<Rightarrow> nat \<Rightarrow> nat \<Rightarrow> nat \<Rightarrow> nat \<Rightarrow> int \<Rightarrow> 'd net_t \<Rightarrow> ('d net_t \<times> net_link_t) res" where
  "net_link_create l src src_buffer dst dst_buffer bandwidth nt =
     (let sb = buffer_at nt src_buffer; db = buffer_at nt dst_buffer in
      if \<not> (nb_node sb = src \<and> nb_node db = dst) then Inl Assert_failed
      else if bandwidth < 1 then Inl (Panic ''invalid bandwidth'')
      else if nb_link sb \<noteq> None \<or> nb_link db \<noteq> None then Inl Assert_failed
      else
        let nt = put_buffer src_buffer (sb\<lparr>nb_link := Some l\<rparr>) nt;
            nt = put_buffer dst_buffer ((buffer_at nt dst_buffer)\<lparr>nb_link := Some l\<rparr>) nt
        in Inr (nt, \<lparr>lk_src_node = src, lk_src_buffer = src_buffer, lk_dst_node = dst,
             lk_dst_buffer = dst_buffer, lk_bandwidth = bandwidth, lk_busy = 0, lk_busy_cycles = 0,
             lk_transferred_bytes = 0, lk_transferred_msgs = 0\<rparr>))"

definition net_add_link :: "nat \<Rightarrow> nat \<Rightarrow> int \<Rightarrow> 'd net_t \<Rightarrow> ('d net_t \<times> nat) res" where
  "net_add_link src dst bandwidth nt =
     (if nn_kind (node_at nt src) = net_node_end \<and> nn_kind (node_at nt dst) = net_node_end
      then Inl (Fatal ''link cannot connect two end nodes'')
      else
        let l = length (net_link_list nt) in
        res_bind (net_node_add_output_buffer src nt) (\<lambda>(nt, src_buffer).
        res_bind (net_node_add_input_buffer dst nt) (\<lambda>(nt, dst_buffer).
        res_bind (net_link_create l src src_buffer dst dst_buffer bandwidth nt) (\<lambda>(nt, link).
        Inr (nt\<lparr>net_link_list := net_link_list nt @ [link]\<rparr>, l)))))"

definition net_add_bidirectional_link :: "nat \<Rightarrow> nat \<Rightarrow> int \<Rightarrow> 'd net_t \<Rightarrow> 'd net_t res" where
  "net_add_bidirectional_link src dst bandwidth nt =
     res_bind (net_add_link src dst bandwidth nt) (\<lambda>(nt, _).
     res_bind (net_add_link dst src bandwidth nt) (\<lambda>(nt, _). Inr nt))"

section \<open>Messages in flight\<close>

text \<open>Every bucket of the table is a chain through \<open>bucket_next\<close>.\<close>

definition msg_bucket :: "int \<Rightarrow> nat" where "msg_bucket m = nat (m mod int NET_MSG_TABLE_SIZE)"

fun chain_next :: "int \<Rightarrow> int list \<Rightarrow> int option" where
  "chain_next m (x # y # xs) = (if x = m then Some y else chain_next m (y # xs))"
| "chain_next m xs = None"

definition net_msg_create :: "int \<Rightarrow> nat \<Rightarrow> nat \<Rightarrow> int \<Rightarrow> 'd net_t \<Rightarrow> ('d net_t \<times> int) res" where
  "net_msg_create cyc src dst sz nt =
     (let m = net_msg_id_counter nt + 1 in
      if sz < 1 then Inl (Panic ''bad size'')
      else Inr (put_msg m \<lparr>nm_size = sz, nm_send_cycle = cyc, nm_busy = 0, nm_src_node = src,
              nm_dst_node = dst, nm_node = None, nm_buffer = None\<rparr> (nt\<lparr>net_msg_id_counter := m\<rparr>), m))"

definition net_msg_free :: "int \<Rightarrow> 'd net_t \<Rightarrow> 'd net_t" where
  "net_msg_free m nt = nt\<lparr>net_msgs := (net_msgs nt)(m := None)\<rparr>"

definition net_msg_table_insert :: "int \<Rightarrow> 'd net_t \<Rightarrow> 'd net_t res" where
  "net_msg_table_insert m nt =
     (let i = msg_bucket m; bucket = net_msg_table nt ! i in
      if chain_next m bucket \<noteq> None then Inl Assert_failed
      else Inr (nt\<lparr>net_msg_table := (net_msg_table nt)[i := m # bucket]\<rparr>))"

definition net_msg_table_get :: "'d net_t \<Rightarrow> int \<Rightarrow> int option" where
  "net_msg_table_get nt m = find (\<lambda>x. x = m) (net_msg_table nt ! msg_bucket m)"

definition net_msg_table_extract :: "int \<Rightarrow> 'd net_t \<Rightarrow> ('d net_t \<times> int) res" where
  "net_msg_table_extract m nt =
     (let i = msg_bucket m; bucket = net_msg_table nt ! i in
      case find (\<lambda>x. x = m) bucket of
        None \<Rightarrow> Inl (Panic ''message not in hash table'')
      | Some x \<Rightarrow> Inr (nt\<lparr>net_msg_table := (net_msg_table nt)[i := remove_first (\<lambda>x. x = m) bucket]\<rparr>, x))"

section \<open>Well-formed topologies\<close>

text \<open>
  What the construction establishes: every buffer sits at its index in one list of its node,
  and at its end of one link; links connect an output buffer with an input buffer.
\<close>

definition out_ok :: "'d net_t \<Rightarrow> nat \<Rightarrow> nat \<Rightarrow> bool" where
  "out_ok nt n i \<longleftrightarrow>
     (let b = nn_output_buffer_list (node_at nt n) ! i in
      b < length (net_buffers nt) \<and> nb_node (buffer_at nt b) = n \<and> nb_index (buffer_at nt b) = i \<and>
      (\<exists>l < length (net_link_list nt). nb_link (buffer_at nt b) = Some l \<and> lk_src_buffer (link_at nt l) = b))"

definition in_ok :: "'d net_t \<Rightarrow> nat \<Rightarrow> nat \<Rightarrow> bool" where
  "in_ok nt n i \<longleftrightarrow>
     (let b = nn_input_buffer_list (node_at nt n) ! i in
      b < length (net_buffers nt) \<and> nb_node (buffer_at nt b) = n \<and> nb_index (buffer_at nt b) = i \<and>
      (\<exists>l < length (net_link_list nt). nb_link (buffer_at nt b) = Some l \<and> lk_dst_buffer (link_at nt l) = b))"

definition link_ok :: "'d net_t \<Rightarrow> nat \<Rightarrow> bool" where
  "link_ok nt l \<longleftrightarrow>
     (let k = link_at nt l in
      lk_src_node k < net_node_count nt \<and> lk_dst_node k < net_node_count nt \<and> lk_bandwidth k \<ge> 1 \<and>
      lk_src_buffer k \<in> set (nn_output_buffer_list (node_at nt (lk_src_node k))) \<and>
      lk_dst_buffer k \<in> set (nn_input_buffer_list (node_at nt (lk_dst_node k))) \<and>
      lk_src_buffer k \<noteq> lk_dst_buffer k \<and>
      nb_link (buffer_at nt (lk_src_buffer k)) = Some l \<and> nb_link (buffer_at nt (lk_dst_buffer k)) = Some l)"

definition node_ok :: "'d net_t \<Rightarrow> nat \<Rightarrow> bool" where
  "node_ok nt n \<longleftrightarrow>
     nn_index (node_at nt n) = n \<and>
     (nn_kind (node_at nt n) = net_node_end \<or> nn_kind (node_at nt n) = net_node_switch \<and> nn_bandwidth (node_at nt n) \<ge> 1) \<and>
     (\<forall>i < length (nn_output_buffer_list (node_at nt n)). out_ok nt n i) \<and>
     (\<forall>i < length (nn_input_buffer_list (node_at nt n)). in_ok nt n i)"

definition topo_ok :: "'d net_t \<Rightarrow> bool" where
  "topo_ok nt \<longleftrightarrow>
     (\<forall>n < net_node_count nt. node_ok nt n) \<and> (\<forall>l < length (net_link_list nt). link_ok nt l) \<and>
     (\<forall>b < length (net_buffers nt). nb_size (buffer_at nt b) \<ge> 1 \<and> nb_node (buffer_at nt b) < net_node_count nt \<and>
        b \<in> set (nn_output_buffer_list (node_at nt (nb_node (buffer_at nt b)))) \<union>
            set (nn_input_buffer_list (node_at nt (nb_node (buffer_at nt b)))))"

lemmas topo_defs = topo_ok_def node_ok_def link_ok_def in_ok_def out_ok_def

lemma net_create_topo: "topo_ok net_create"
  by (simp add: topo_ok_def net_create_def net_node_count_def)

lemma node_create_new:
  assumes "net_node_create nt kind n isz osz bw name ud = Inr node" "kind = net_node_end \<or> kind = net_node_switch"
  shows "nn_index node = n" "nn_kind node = kind" "kind = net_node_switch \<longrightarrow> nn_bandwidth node \<ge> 1"
    "nn_input_buffer_list node = []" "nn_output_buffer_list node = []"
  using assms by (auto simp: net_node_create_def split: if_splits)

lemma add_node_topo:
  assumes "topo_ok nt" "nn_index node = net_node_count nt"
    "nn_kind node = net_node_end \<or> nn_kind node = net_node_switch \<and> nn_bandwidth node \<ge> 1"
    "nn_input_buffer_list node = []" "nn_output_buffer_list node = []"
  shows "topo_ok (nt\<lparr>net_end_node_count := c, net_node_list := net_node_list nt @ [node]\<rparr>)" (is "topo_ok ?nt")
proof -
  have old: "(net_node_list nt @ [node]) ! n = node_at nt n" if "n < net_node_count nt" for n
    using that by (simp add: nth_append net_node_count_def)
  have new: "(net_node_list nt @ [node]) ! net_node_count nt = node" by (simp add: nth_append net_node_count_def)
  have cnt: "net_node_count ?nt = Suc (net_node_count nt)" by (simp add: net_node_count_def)
  have "node_ok ?nt n" if "n < net_node_count ?nt" for n
  proof (cases "n = net_node_count nt")
    case True
    with assms(2-5) show ?thesis by (simp add: node_ok_def new)
  next
    case False
    with that cnt have n: "n < net_node_count nt" by simp
    with assms(1) have "node_ok nt n" by (simp add: topo_ok_def)
    then show ?thesis by (simp add: node_ok_def out_ok_def in_ok_def old [OF n])
  qed
  moreover have "link_ok ?nt l" if "l < length (net_link_list ?nt)" for l
  proof -
    have "link_ok nt l" using assms(1) that by (simp add: topo_ok_def)
    then show ?thesis using old by (simp add: link_ok_def Let_def cnt)
  qed
  moreover have "nb_size (buffer_at ?nt b) \<ge> 1 \<and> nb_node (buffer_at ?nt b) < net_node_count ?nt \<and>
        b \<in> set (nn_output_buffer_list (node_at ?nt (nb_node (buffer_at ?nt b)))) \<union>
            set (nn_input_buffer_list (node_at ?nt (nb_node (buffer_at ?nt b))))"
    if "b < length (net_buffers ?nt)" for b
    using assms(1) that old by (auto simp: topo_ok_def cnt less_Suc_eq)
  ultimately show ?thesis by (simp add: topo_ok_def)
qed

lemma add_end_node_topo:
  assumes "topo_ok nt" "net_add_end_node isz osz name ud nt = Inr (nt', n)"
  shows "topo_ok nt' \<and> n = net_node_count nt \<and> net_node_count nt' = Suc n"
proof -
  from assms(2) obtain node where nd: "net_node_create nt net_node_end (net_node_count nt) isz osz 0 name ud = Inr node"
    and nt': "nt' = nt\<lparr>net_end_node_count := net_end_node_count nt + 1, net_node_list := net_node_list nt @ [node]\<rparr>"
      "n = net_node_count nt"
    by (auto simp: net_add_end_node_def)
  from node_create_new [OF nd] have "topo_ok nt'"
    unfolding nt'(1) by (intro add_node_topo [OF assms(1)]) simp_all
  then show ?thesis by (simp add: nt' net_node_count_def)
qed

lemma add_switch_topo:
  assumes "topo_ok nt" "net_add_switch isz osz bw name ud nt = Inr (nt', n)"
  shows "topo_ok nt' \<and> n = net_node_count nt \<and> net_node_count nt' = Suc n"
proof -
  from assms(2) obtain node where nd: "net_node_create nt net_node_switch (net_node_count nt) isz osz bw name ud = Inr node"
    and nt': "nt' = nt\<lparr>net_end_node_count := net_end_node_count nt, net_node_list := net_node_list nt @ [node]\<rparr>"
      "n = net_node_count nt"
    by (auto simp: net_add_switch_def)
  from node_create_new [OF nd] have "topo_ok nt'"
    unfolding nt'(1) by (intro add_node_topo [OF assms(1)]) simp_all
  then show ?thesis by (simp add: nt' net_node_count_def)
qed

lemma topo_outD:
  assumes "topo_ok nt" "n < net_node_count nt" "b \<in> set (nn_output_buffer_list (node_at nt n))"
  shows "b < length (net_buffers nt)" "nb_node (buffer_at nt b) = n"
    "\<exists>l < length (net_link_list nt). nb_link (buffer_at nt b) = Some l \<and> lk_src_buffer (link_at nt l) = b"
    "nn_output_buffer_list (node_at nt n) ! nb_index (buffer_at nt b) = b"
    "nb_index (buffer_at nt b) < length (nn_output_buffer_list (node_at nt n))"
proof -
  from assms(3) obtain i where i: "i < length (nn_output_buffer_list (node_at nt n))"
    "b = nn_output_buffer_list (node_at nt n) ! i" by (auto simp: in_set_conv_nth)
  with assms(1,2) have "out_ok nt n i" by (simp add: topo_ok_def node_ok_def)
  then show "b < length (net_buffers nt)" "nb_node (buffer_at nt b) = n"
    "\<exists>l < length (net_link_list nt). nb_link (buffer_at nt b) = Some l \<and> lk_src_buffer (link_at nt l) = b"
    "nn_output_buffer_list (node_at nt n) ! nb_index (buffer_at nt b) = b"
    "nb_index (buffer_at nt b) < length (nn_output_buffer_list (node_at nt n))"
    using i by (simp_all add: out_ok_def Let_def)
qed

lemma topo_inD:
  assumes "topo_ok nt" "n < net_node_count nt" "b \<in> set (nn_input_buffer_list (node_at nt n))"
  shows "b < length (net_buffers nt)" "nb_node (buffer_at nt b) = n"
    "\<exists>l < length (net_link_list nt). nb_link (buffer_at nt b) = Some l \<and> lk_dst_buffer (link_at nt l) = b"
    "nn_input_buffer_list (node_at nt n) ! nb_index (buffer_at nt b) = b"
    "nb_index (buffer_at nt b) < length (nn_input_buffer_list (node_at nt n))"
proof -
  from assms(3) obtain i where i: "i < length (nn_input_buffer_list (node_at nt n))"
    "b = nn_input_buffer_list (node_at nt n) ! i" by (auto simp: in_set_conv_nth)
  with assms(1,2) have "in_ok nt n i" by (simp add: topo_ok_def node_ok_def)
  then show "b < length (net_buffers nt)" "nb_node (buffer_at nt b) = n"
    "\<exists>l < length (net_link_list nt). nb_link (buffer_at nt b) = Some l \<and> lk_dst_buffer (link_at nt l) = b"
    "nn_input_buffer_list (node_at nt n) ! nb_index (buffer_at nt b) = b"
    "nb_index (buffer_at nt b) < length (nn_input_buffer_list (node_at nt n))"
    using i by (simp_all add: in_ok_def Let_def)
qed

lemma topo_linkD:
  assumes "topo_ok nt" "l < length (net_link_list nt)"
  shows "lk_src_node (link_at nt l) < net_node_count nt" "lk_dst_node (link_at nt l) < net_node_count nt"
    "lk_bandwidth (link_at nt l) \<ge> 1"
    "lk_src_buffer (link_at nt l) \<in> set (nn_output_buffer_list (node_at nt (lk_src_node (link_at nt l))))"
    "lk_dst_buffer (link_at nt l) \<in> set (nn_input_buffer_list (node_at nt (lk_dst_node (link_at nt l))))"
    "lk_src_buffer (link_at nt l) \<noteq> lk_dst_buffer (link_at nt l)"
    "nb_link (buffer_at nt (lk_src_buffer (link_at nt l))) = Some l"
    "nb_link (buffer_at nt (lk_dst_buffer (link_at nt l))) = Some l"
  using assms by (simp_all add: topo_ok_def link_ok_def Let_def)

definition fresh_buffer :: "nat \<Rightarrow> nat \<Rightarrow> int \<Rightarrow> 'd net_buffer_t" where
  "fresh_buffer n i sz = \<lparr>nb_node = n, nb_index = i, nb_size = sz, nb_count = 0, nb_read_busy = 0,
        nb_write_busy = 0, nb_link = None, nb_msg_list = [], nb_sched_when = 0, nb_sched_buffer = None,
        nb_wakeup_list = [], nb_occupancy_bytes_value = 0, nb_occupancy_msgs_value = 0,
        nb_occupancy_measured_cycle = 0, nb_occupancy_bytes_acc = 0, nb_occupancy_msgs_acc = 0\<rparr>"

lemma add_output_buffer_eq:
  assumes "net_node_add_output_buffer n nt = Inr (nt', b)"
  shows "b = length (net_buffers nt)" "nn_output_buffer_size (node_at nt n) \<ge> 1"
    "nt' = nt\<lparr>net_node_list := (net_node_list nt)[n := (node_at nt n)\<lparr>nn_output_buffer_list :=
             nn_output_buffer_list (node_at nt n) @ [b]\<rparr>],
           net_buffers := net_buffers nt @ [fresh_buffer n (length (nn_output_buffer_list (node_at nt n)))
             (nn_output_buffer_size (node_at nt n))]\<rparr>"
  using assms by (auto simp: net_node_add_output_buffer_def net_buffer_create_def fresh_buffer_def put_node_def
      Let_def split: if_splits)

lemma add_input_buffer_eq:
  assumes "net_node_add_input_buffer n nt = Inr (nt', b)"
  shows "b = length (net_buffers nt)" "nn_input_buffer_size (node_at nt n) \<ge> 1"
    "nt' = nt\<lparr>net_node_list := (net_node_list nt)[n := (node_at nt n)\<lparr>nn_input_buffer_list :=
             nn_input_buffer_list (node_at nt n) @ [b]\<rparr>],
           net_buffers := net_buffers nt @ [fresh_buffer n (length (nn_input_buffer_list (node_at nt n)))
             (nn_input_buffer_size (node_at nt n))]\<rparr>"
  using assms by (auto simp: net_node_add_input_buffer_def net_buffer_create_def fresh_buffer_def put_node_def
      Let_def split: if_splits)

lemma add_link_eq:
  assumes "src < net_node_count nt" "dst < net_node_count nt" "net_add_link src dst bw nt = Inr (nt', l)"
  obtains sb db where
    "l = length (net_link_list nt)" "bw \<ge> 1" "nb_size sb \<ge> 1" "nb_size db \<ge> 1"
    "nb_node sb = src" "nb_node db = dst" "nb_link sb = Some l" "nb_link db = Some l"
    "nb_index sb = length (nn_output_buffer_list (node_at nt src))"
    "nb_index db = length (nn_input_buffer_list (node_at nt dst))"
    "nb_count sb = 0" "nb_count db = 0" "nb_msg_list sb = []" "nb_msg_list db = []"
    "nb_wakeup_list sb = []" "nb_wakeup_list db = []"
    "net_buffers nt' = net_buffers nt @ [sb, db]"
    "net_link_list nt' = net_link_list nt @ [\<lparr>lk_src_node = src, lk_src_buffer = length (net_buffers nt),
       lk_dst_node = dst, lk_dst_buffer = Suc (length (net_buffers nt)), lk_bandwidth = bw, lk_busy = 0,
       lk_busy_cycles = 0, lk_transferred_bytes = 0, lk_transferred_msgs = 0\<rparr>]"
    "net_node_count nt' = net_node_count nt"
    "\<And>n. n < net_node_count nt \<Longrightarrow>
       nn_output_buffer_list (node_at nt' n) = nn_output_buffer_list (node_at nt n) @
         (if n = src then [length (net_buffers nt)] else []) \<and>
       nn_input_buffer_list (node_at nt' n) = nn_input_buffer_list (node_at nt n) @
         (if n = dst then [Suc (length (net_buffers nt))] else []) \<and>
       nn_kind (node_at nt' n) = nn_kind (node_at nt n) \<and> nn_index (node_at nt' n) = nn_index (node_at nt n) \<and>
       nn_bandwidth (node_at nt' n) = nn_bandwidth (node_at nt n)"
    "net_msgs nt' = net_msgs nt" "net_msg_table nt' = net_msg_table nt"
    "net_msg_id_counter nt' = net_msg_id_counter nt" "net_routing_table nt' = net_routing_table nt"
proof -
  from assms(3) obtain nt1 b1 nt2 b2 nt3 k where
    a: "net_node_add_output_buffer src nt = Inr (nt1, b1)" "net_node_add_input_buffer dst nt1 = Inr (nt2, b2)"
      "net_link_create (length (net_link_list nt)) src b1 dst b2 bw nt2 = Inr (nt3, k)"
      "nt' = nt3\<lparr>net_link_list := net_link_list nt3 @ [k]\<rparr>" "l = length (net_link_list nt)"
    by (auto simp: net_add_link_def Let_def split: if_splits)
  note o = add_output_buffer_eq [OF a(1)]
  note i = add_input_buffer_eq [OF a(2)]
  let ?sb = "(fresh_buffer src (length (nn_output_buffer_list (node_at nt src)))
      (nn_output_buffer_size (node_at nt src)))\<lparr>nb_link := Some l\<rparr> :: 'a net_buffer_t"
  let ?db = "(fresh_buffer dst (length (nn_input_buffer_list (node_at nt dst)))
      (nn_input_buffer_size (node_at nt dst)))\<lparr>nb_link := Some l\<rparr> :: 'a net_buffer_t"
  have nd: "src < length (net_node_list nt)" "dst < length (net_node_list nt)"
    using assms(1,2) by (simp_all add: net_node_count_def)
  have keep: "nn_input_buffer_list (node_at nt1 n) = nn_input_buffer_list (node_at nt n)"
      "nn_input_buffer_size (node_at nt1 n) = nn_input_buffer_size (node_at nt n)" for n
    using nd by (simp_all add: o nth_list_update)
  have b2: "net_buffers nt2 = net_buffers nt @ [?sb\<lparr>nb_link := None\<rparr>, ?db\<lparr>nb_link := None\<rparr>]"
    "b1 = length (net_buffers nt)" "b2 = Suc (length (net_buffers nt))"
    using keep by (simp_all add: o i fresh_buffer_def)
  have bw: "bw \<ge> 1" using a(3) by (auto simp: net_link_create_def Let_def split: if_splits)
  have k: "nt3 = nt2\<lparr>net_buffers := net_buffers nt @ [?sb, ?db]\<rparr>"
    "k = \<lparr>lk_src_node = src, lk_src_buffer = length (net_buffers nt),
       lk_dst_node = dst, lk_dst_buffer = Suc (length (net_buffers nt)), lk_bandwidth = bw, lk_busy = 0,
       lk_busy_cycles = 0, lk_transferred_bytes = 0, lk_transferred_msgs = 0\<rparr>"
    using a(3) b2 a(5) by (auto simp: net_link_create_def Let_def put_buffer_def nth_append list_update_append
        fresh_buffer_def split: if_splits)
  show thesis
  proof (rule that [of ?sb ?db])
    show "nb_size ?sb \<ge> 1" "nb_size ?db \<ge> 1" using o(2) i(2) keep by (simp_all add: fresh_buffer_def)
    show "nn_output_buffer_list (node_at nt' n) = nn_output_buffer_list (node_at nt n) @
         (if n = src then [length (net_buffers nt)] else []) \<and>
       nn_input_buffer_list (node_at nt' n) = nn_input_buffer_list (node_at nt n) @
         (if n = dst then [Suc (length (net_buffers nt))] else []) \<and>
       nn_kind (node_at nt' n) = nn_kind (node_at nt n) \<and> nn_index (node_at nt' n) = nn_index (node_at nt n) \<and>
       nn_bandwidth (node_at nt' n) = nn_bandwidth (node_at nt n)" for n
      using nd by (auto simp: a(4) k i o(3) b2 nth_list_update)
  qed (use a(4,5) bw in \<open>simp_all add: k i o(3) b2(2,3) fresh_buffer_def net_node_count_def\<close>)
qed

lemma nth_snoc2: "i < length xs \<Longrightarrow> (xs @ ys) ! i = xs ! i"
  by (simp add: nth_append)

lemma add_link_topo:
  assumes "topo_ok nt" "src < net_node_count nt" "dst < net_node_count nt" "net_add_link src dst bw nt = Inr (nt', l)"
  shows "topo_ok nt' \<and> net_node_count nt' = net_node_count nt"
proof -
  from add_link_eq [OF assms(2-4)] obtain sb db where
    l: "l = length (net_link_list nt)" "bw \<ge> 1" "nb_size sb \<ge> 1" "nb_size db \<ge> 1"
    "nb_node sb = src" "nb_node db = dst" "nb_link sb = Some l" "nb_link db = Some l"
    "nb_index sb = length (nn_output_buffer_list (node_at nt src))"
    "nb_index db = length (nn_input_buffer_list (node_at nt dst))" and
    b: "net_buffers nt' = net_buffers nt @ [sb, db]" and
    k: "net_link_list nt' = net_link_list nt @ [\<lparr>lk_src_node = src, lk_src_buffer = length (net_buffers nt),
       lk_dst_node = dst, lk_dst_buffer = Suc (length (net_buffers nt)), lk_bandwidth = bw, lk_busy = 0,
       lk_busy_cycles = 0, lk_transferred_bytes = 0, lk_transferred_msgs = 0\<rparr>]" and
    c: "net_node_count nt' = net_node_count nt" and
    n: "\<And>n. n < net_node_count nt \<Longrightarrow>
       nn_output_buffer_list (node_at nt' n) = nn_output_buffer_list (node_at nt n) @
         (if n = src then [length (net_buffers nt)] else []) \<and>
       nn_input_buffer_list (node_at nt' n) = nn_input_buffer_list (node_at nt n) @
         (if n = dst then [Suc (length (net_buffers nt))] else []) \<and>
       nn_kind (node_at nt' n) = nn_kind (node_at nt n) \<and> nn_index (node_at nt' n) = nn_index (node_at nt n) \<and>
       nn_bandwidth (node_at nt' n) = nn_bandwidth (node_at nt n)"
    by blast
  have bo: "buffer_at nt' x = buffer_at nt x" if "x < length (net_buffers nt)" for x
    using that by (simp add: b nth_append)
  have bn: "buffer_at nt' (length (net_buffers nt)) = sb" "buffer_at nt' (Suc (length (net_buffers nt))) = db"
    by (simp_all add: b nth_append)
  have lo: "link_at nt' x = link_at nt x" if "x < length (net_link_list nt)" for x
    using that by (simp add: k nth_append)
  have out: "out_ok nt' m i" if "m < net_node_count nt" "i < length (nn_output_buffer_list (node_at nt' m))" for m i
  proof (cases "i < length (nn_output_buffer_list (node_at nt m))")
    case True
    with assms(1) that have "out_ok nt m i" by (simp add: topo_ok_def node_ok_def)
    then show ?thesis using True n [OF that(1)] by (auto simp: out_ok_def Let_def bo lo nth_append b k)
  next
    case False
    with that n [OF that(1)] have "m = src" "i = length (nn_output_buffer_list (node_at nt m))" by (auto split: if_splits)
    then show ?thesis using n [OF that(1)] l by (simp add: out_ok_def bn b k nth_append)
  qed
  have inp: "in_ok nt' m i" if "m < net_node_count nt" "i < length (nn_input_buffer_list (node_at nt' m))" for m i
  proof (cases "i < length (nn_input_buffer_list (node_at nt m))")
    case True
    with assms(1) that have "in_ok nt m i" by (simp add: topo_ok_def node_ok_def)
    then show ?thesis using True n [OF that(1)] by (auto simp: in_ok_def Let_def bo lo nth_append b k)
  next
    case False
    with that n [OF that(1)] have "m = dst" "i = length (nn_input_buffer_list (node_at nt m))" by (auto split: if_splits)
    then show ?thesis using n [OF that(1)] l by (simp add: in_ok_def bn b k nth_append)
  qed
  have "node_ok nt' m" if "m < net_node_count nt'" for m
    using assms(1) that c n out inp by (auto simp: topo_ok_def node_ok_def)
  moreover have "link_ok nt' x" if x: "x < length (net_link_list nt')" for x
  proof (cases "x < length (net_link_list nt)")
    case True
    with assms(1) have ok: "link_ok nt x" by (simp add: topo_ok_def)
    have "lk_src_buffer (link_at nt x) < length (net_buffers nt)" "lk_dst_buffer (link_at nt x) < length (net_buffers nt)"
      using topo_linkD [OF assms(1) True] topo_outD(1) [OF assms(1)] topo_inD(1) [OF assms(1)] by auto
    with ok n show ?thesis by (auto simp: link_ok_def Let_def lo [OF True] bo c)
  next
    case False
    with x have "x = l" by (simp add: k l)
    then show ?thesis using l assms(2,3) n bn c by (simp add: link_ok_def k)
  qed
  moreover have "nb_size (buffer_at nt' x) \<ge> 1 \<and> nb_node (buffer_at nt' x) < net_node_count nt' \<and>
        x \<in> set (nn_output_buffer_list (node_at nt' (nb_node (buffer_at nt' x)))) \<union>
            set (nn_input_buffer_list (node_at nt' (nb_node (buffer_at nt' x))))"
    if x: "x < length (net_buffers nt')" for x
  proof -
    consider "x < length (net_buffers nt)" | "x = length (net_buffers nt)" | "x = Suc (length (net_buffers nt))"
      using x by (fastforce simp: b)
    then show ?thesis
      using assms n l by cases (auto simp: topo_ok_def bo bn c)
  qed
  ultimately show ?thesis using c by (simp add: topo_ok_def)
qed

end
