(* ===== verification/Net_Routing.thy ===== *)
theory Net_Routing
  imports Network
begin

text \<open>
  The routing table of a network (\<open>src/network/routing-table.c\<close>). The table is an array of
  \<open>dim * dim\<close> entries; a pointer to an entry is its index. The search along a path and the
  depth-first search are not bounded by anything the code checks, so they are \<open>None\<close> when
  they do not return. The dump of the table is left out but for its walk along a route.
\<close>

section \<open>Loops that may not return\<close>

definition ropt_bind :: "'a res option \<Rightarrow> ('a \<Rightarrow> 'b res option) \<Rightarrow> 'b res option" where
  "ropt_bind m f = Option.bind m (\<lambda>r. case r of Inl e \<Rightarrow> Some (Inl e) | Inr x \<Rightarrow> f x)"

fun ropt_fold :: "('a \<Rightarrow> 's \<Rightarrow> 's res option) \<Rightarrow> 'a list \<Rightarrow> 's \<Rightarrow> 's res option" where
  "ropt_fold f [] s = Some (Inr s)"
| "ropt_fold f (x # xs) s = ropt_bind (f x s) (ropt_fold f xs)"

lemma ropt_bind_simps [simp]:
  "ropt_bind None f = None" "ropt_bind (Some (Inl e)) f = Some (Inl e)" "ropt_bind (Some (Inr x)) f = f x"
  by (simp_all add: ropt_bind_def)

lemma ropt_bind_mono [partial_function_mono]:
  assumes "mono_option B" "\<And>y. mono_option (\<lambda>f. C y f)"
  shows "mono_option (\<lambda>f. ropt_bind (B f) (\<lambda>y. C y f))"
  unfolding ropt_bind_def
proof (rule bind_mono [OF assms(1)])
  fix r show "mono_option (\<lambda>f. case r of Inl e \<Rightarrow> Some (Inl e) | Inr x \<Rightarrow> C x f)"
    by (cases r) (simp_all add: assms(2) option.const_mono)
qed

lemma ropt_fold_mono [partial_function_mono]:
  assumes "\<And>x s. mono_option (\<lambda>f. F f x s)"
  shows "mono_option (\<lambda>f. ropt_fold (\<lambda>x s. F f x s) xs s)"
proof (induction xs arbitrary: s)
  case (Cons x xs)
  then show ?case using assms by (simp add: ropt_bind_mono)
qed (simp add: option.const_mono)

section \<open>Entries\<close>

definition net_routing_table_lookup :: "net_routing_table_t \<Rightarrow> nat \<Rightarrow> nat \<Rightarrow> nat res" where
  "net_routing_table_lookup rt src dst =
     (if \<not> (src < rt_dim rt \<and> dst < rt_dim rt \<and> rt_dim rt > 0) then Inl Assert_failed
      else if rt_entries rt = None then Inl Null_deref
      else Inr (src * rt_dim rt + dst))"

definition entry_at :: "net_routing_table_t \<Rightarrow> nat \<Rightarrow> net_routing_table_entry_t" where
  "entry_at rt k = the (rt_entries rt) ! k"

definition put_entry :: "nat \<Rightarrow> net_routing_table_entry_t \<Rightarrow> net_routing_table_t \<Rightarrow> net_routing_table_t" where
  "put_entry k e rt = rt\<lparr>rt_entries := Some ((the (rt_entries rt))[k := e])\<rparr>"

text \<open>\<open>buffer->link\<close>, under the assertion that there is one.\<close>

definition buffer_link :: "'d net_t \<Rightarrow> nat \<Rightarrow> net_link_t res" where
  "buffer_link nt b = (case nb_link (buffer_at nt b) of None \<Rightarrow> Inl Assert_failed | Some l \<Rightarrow> Inr (link_at nt l))"

section \<open>Initial contents\<close>

definition init_entry :: "nat \<Rightarrow> nat \<Rightarrow> net_routing_table_t \<Rightarrow> net_routing_table_t res" where
  "init_entry i j rt =
     res_bind (net_routing_table_lookup rt i j) (\<lambda>k.
       Inr (put_entry k \<lparr>re_cost = (if i = j then 0 else int (rt_dim rt)), re_next_node = None,
              re_output_buffer = None\<rparr> rt))"

definition one_hop :: "'d net_t \<Rightarrow> nat \<Rightarrow> nat \<Rightarrow> net_routing_table_t \<Rightarrow> net_routing_table_t res" where
  "one_hop nt i buffer rt =
     res_bind (buffer_link nt buffer) (\<lambda>link.
     res_bind (net_routing_table_lookup rt i (lk_dst_node link)) (\<lambda>k.
       Inr (put_entry k \<lparr>re_cost = 1, re_next_node = Some (lk_dst_node link),
              re_output_buffer = Some buffer\<rparr> rt)))"

definition net_routing_table_initiate :: "'d net_t \<Rightarrow> 'd net_t res" where
  "net_routing_table_initiate nt =
     (let rt = net_routing_table nt; n = net_node_count nt in
      if rt_entries rt \<noteq> None then Inl (Panic ''routing table already allocated'')
      else
        let rt = rt\<lparr>rt_dim := n, rt_entries := Some (replicate (n * n)
               \<lparr>re_cost = 0, re_next_node = None, re_output_buffer = None\<rparr>)\<rparr>
        in res_bind (res_fold (\<lambda>i. res_fold (init_entry i) [0..<n]) [0..<n] rt) (\<lambda>rt.
           res_bind (res_fold (\<lambda>i. res_fold (one_hop nt i) (nn_output_buffer_list (node_at nt i))) [0..<n] rt) (\<lambda>rt.
             Inr (nt\<lparr>net_routing_table := rt\<rparr>))))"

section \<open>Shortest paths\<close>

definition fw_step :: "nat \<Rightarrow> nat \<Rightarrow> nat \<Rightarrow> net_routing_table_t \<Rightarrow> net_routing_table_t res" where
  "fw_step k i j rt =
     res_bind (net_routing_table_lookup rt i k) (\<lambda>ik.
     res_bind (net_routing_table_lookup rt k j) (\<lambda>kj.
     res_bind (net_routing_table_lookup rt i j) (\<lambda>ij.
       let through = re_cost (entry_at rt ik) + re_cost (entry_at rt kj) in
       Inr (if through < re_cost (entry_at rt ij)
            then put_entry ij ((entry_at rt ij)\<lparr>re_cost := through, re_next_node := Some k\<rparr>) rt
            else rt))))"

text \<open>The loop that follows the path from a node to the first hop.\<close>

partial_function (option) follow_path :: "net_routing_table_t \<Rightarrow> nat \<Rightarrow> nat \<Rightarrow> nat res option" where
  "follow_path rt i hop =
     (case net_routing_table_lookup rt i hop of
        Inl e \<Rightarrow> Some (Inl e)
      | Inr k \<Rightarrow>
          if re_cost (entry_at rt k) \<le> 1 then Some (Inr hop)
          else (case re_next_node (entry_at rt k) of
                  None \<Rightarrow> Some (Inl Null_deref)
                | Some hop \<Rightarrow> follow_path rt i hop))"

text \<open>The first output buffer of a node whose link leads to a given one.\<close>

fun find_output :: "'d net_t \<Rightarrow> nat \<Rightarrow> nat list \<Rightarrow> nat res" where
  "find_output nt hop [] = Inl Assert_failed"
| "find_output nt hop (b # bs) =
     res_bind (buffer_link nt b) (\<lambda>link. if lk_dst_node link = hop then Inr b else find_output nt hop bs)"

definition set_output :: "'d net_t \<Rightarrow> nat \<Rightarrow> nat \<Rightarrow> net_routing_table_t \<Rightarrow> net_routing_table_t res option" where
  "set_output nt i j rt =
     ropt_bind (Some (net_routing_table_lookup rt i j)) (\<lambda>k.
       let e = entry_at rt k in
       case re_next_node e of
         None \<Rightarrow> Some (Inr (put_entry k (e\<lparr>re_output_buffer := None\<rparr>) rt))
       | Some hop \<Rightarrow>
           ropt_bind (follow_path rt i hop) (\<lambda>hop.
           ropt_bind (Some (find_output nt hop (nn_output_buffer_list (node_at nt i)))) (\<lambda>b.
             Some (Inr (put_entry k (e\<lparr>re_output_buffer := Some b\<rparr>) rt)))))"

definition set_next :: "'d net_t \<Rightarrow> nat \<Rightarrow> nat \<Rightarrow> net_routing_table_t \<Rightarrow> net_routing_table_t res" where
  "set_next nt i j rt =
     res_bind (net_routing_table_lookup rt i j) (\<lambda>k.
       let e = entry_at rt k in
       case re_output_buffer e of
         None \<Rightarrow> Inr rt
       | Some b \<Rightarrow> res_bind (buffer_link nt b) (\<lambda>link.
           Inr (put_entry k (e\<lparr>re_next_node := Some (lk_dst_node link)\<rparr>) rt)))"

section \<open>Detection of cycles\<close>

datatype net_node_color = NET_NODE_COLOR_WHITE | NET_NODE_COLOR_GRAY | NET_NODE_COLOR_BLACK

record dfs_t =
  dfs_color :: "net_node_color list"
  dfs_parent :: "nat list"
  dfs_has_cycle :: bool

text \<open>\<open>dfs_adj visit be i\<close> treats the buffer at position \<open>i\<close> as a successor of the buffer \<open>be\<close>.\<close>

definition dfs_adj :: "(nat \<Rightarrow> dfs_t \<Rightarrow> dfs_t res option) \<Rightarrow> nat \<Rightarrow> nat \<Rightarrow> dfs_t \<Rightarrow> dfs_t res option" where
  "dfs_adj visit be i s =
     ropt_bind (if dfs_color s ! i = NET_NODE_COLOR_WHITE
                then visit i (s\<lparr>dfs_parent := (dfs_parent s)[i := be]\<rparr>) else Some (Inr s)) (\<lambda>s.
       Some (Inr (if dfs_color s ! i = NET_NODE_COLOR_GRAY \<and> dfs_parent s ! i \<noteq> be
                  then s\<lparr>dfs_has_cycle := True\<rparr> else s)))"

definition dfs_dst :: "(nat \<Rightarrow> dfs_t \<Rightarrow> dfs_t res option) \<Rightarrow> net_routing_table_t \<Rightarrow> nat list \<Rightarrow> nat \<Rightarrow> nat \<Rightarrow>
    nat \<Rightarrow> dfs_t \<Rightarrow> dfs_t res option" where
  "dfs_dst visit rt buffers be node j s =
     (if dfs_has_cycle s then Some (Inr s)
      else ropt_bind (Some (net_routing_table_lookup rt node j)) (\<lambda>k.
        if re_output_buffer (entry_at rt k) \<noteq> Some be then Some (Inr s)
        else case re_next_node (entry_at rt k) of
          None \<Rightarrow> Some (Inl Null_deref)
        | Some hop \<Rightarrow> ropt_bind (Some (net_routing_table_lookup rt hop j)) (\<lambda>k.
            ropt_fold (\<lambda>i s. if Some (buffers ! i) = re_output_buffer (entry_at rt k)
                              then dfs_adj visit be i s else Some (Inr s)) [0..<length buffers] s)))"

lemma case_option_mono:
  assumes "mono_option F" "\<And>x. mono_option (G x)"
  shows "mono_option (\<lambda>f. case o1 of None \<Rightarrow> F f | Some x \<Rightarrow> G x f)"
  using assms by (cases o1) simp_all

lemmas ropt_mono = ropt_bind_mono ropt_fold_mono case_option_mono if_mono option.const_mono

lemma dfs_adj_mono [partial_function_mono]:
  assumes "\<And>i s. mono_option (\<lambda>f. V f i s)"
  shows "mono_option (\<lambda>f. dfs_adj (V f) be i s)"
  unfolding dfs_adj_def by (intro ropt_mono assms)

lemma dfs_dst_mono [partial_function_mono]:
  assumes "\<And>i s. mono_option (\<lambda>f. V f i s)"
  shows "mono_option (\<lambda>f. dfs_dst (V f) rt buffers be node j s)"
  unfolding dfs_dst_def by (intro ropt_mono dfs_adj_mono assms)

partial_function (option) routing_table_cycle_detection_dfs_visit ::
  "'d net_t \<Rightarrow> net_routing_table_t \<Rightarrow> nat list \<Rightarrow> nat \<Rightarrow> dfs_t \<Rightarrow> dfs_t res option" where
  "routing_table_cycle_detection_dfs_visit nt rt buffers e s =
     ropt_bind
       (ropt_fold (dfs_dst (\<lambda>i s. routing_table_cycle_detection_dfs_visit nt rt buffers i s) rt buffers (buffers ! e)
          (nb_node (buffer_at nt (buffers ! e)))) [0..<rt_dim rt]
          (s\<lparr>dfs_color := (dfs_color s)[e := NET_NODE_COLOR_GRAY]\<rparr>))
       (\<lambda>s. Some (Inr (s\<lparr>dfs_color := (dfs_color s)[e := NET_NODE_COLOR_BLACK]\<rparr>)))"

definition output_buffers :: "'d net_t \<Rightarrow> nat \<Rightarrow> nat list" where
  "output_buffers nt dim = concat (map (\<lambda>i. nn_output_buffer_list (node_at nt i)) [0..<dim])"

definition net_routing_table_cycle_detection :: "'d net_t \<Rightarrow> net_routing_table_t \<Rightarrow> net_routing_table_t res option" where
  "net_routing_table_cycle_detection nt rt =
     (let buffers = output_buffers nt (rt_dim rt); count = length buffers in
      ropt_bind
        (ropt_fold (\<lambda>i s. if \<not> dfs_has_cycle s \<and> dfs_color s ! i = NET_NODE_COLOR_WHITE
                           then routing_table_cycle_detection_dfs_visit nt rt buffers i s else Some (Inr s))
           [0..<count]
           \<lparr>dfs_color = replicate count NET_NODE_COLOR_WHITE, dfs_parent = buffers,
            dfs_has_cycle = rt_has_cycle rt\<rparr>)
        (\<lambda>s. Some (Inr (rt\<lparr>rt_has_cycle := dfs_has_cycle s\<rparr>))))"

section \<open>Complete operations\<close>

definition net_routing_table_floyd_warshall :: "'d net_t \<Rightarrow> 'd net_t res option" where
  "net_routing_table_floyd_warshall nt =
     (let n = net_node_count nt in
      ropt_bind (Some (res_fold (\<lambda>k. res_fold (\<lambda>i. res_fold (fw_step k i) [0..<n]) [0..<n]) [0..<n]
                  (net_routing_table nt))) (\<lambda>rt.
      ropt_bind (ropt_fold (\<lambda>i. ropt_fold (set_output nt i) [0..<n]) [0..<n] rt) (\<lambda>rt.
      ropt_bind (Some (res_fold (\<lambda>i. res_fold (set_next nt i) [0..<n]) [0..<n] rt)) (\<lambda>rt.
      ropt_bind (net_routing_table_cycle_detection nt rt) (\<lambda>rt.
        Some (Inr (nt\<lparr>net_routing_table := rt\<rparr>)))))))"

text \<open>The last output buffer whose link leads to the given node, if any.\<close>

fun last_output :: "'d net_t \<Rightarrow> nat \<Rightarrow> nat list \<Rightarrow> nat option \<Rightarrow> nat option res" where
  "last_output nt hop [] found = Inr found"
| "last_output nt hop (b # bs) found =
     res_bind (buffer_link nt b) (\<lambda>link.
       last_output nt hop bs (if lk_dst_node link = hop then Some b else found))"

definition net_routing_table_route_update :: "'d net_t \<Rightarrow> nat \<Rightarrow> nat \<Rightarrow> nat \<Rightarrow> 'd net_t res option" where
  "net_routing_table_route_update nt src dst hop =
     (let rt = net_routing_table nt; outs = nn_output_buffer_list (node_at nt src) in
      ropt_bind (Some (net_routing_table_lookup rt src dst)) (\<lambda>k.
        if outs = [] then Some (Inl Assert_failed)
        else ropt_bind (Some (last_output nt hop outs None)) (\<lambda>found.
          let rt = put_entry k ((entry_at rt k)\<lparr>re_next_node := Some hop, re_output_buffer := found\<rparr>) rt in
          if found = None then Some (Inl (Fatal ''missing link''))
          else ropt_bind (net_routing_table_cycle_detection nt rt) (\<lambda>rt.
            Some (Inr (nt\<lparr>net_routing_table := rt\<rparr>))))))"

text \<open>The loop of \<open>net_routing_table_dump\<close> that prints the route from a node to another: the nodes
  it names, and whether it got there.\<close>

partial_function (option) dump_route :: "net_routing_table_t \<Rightarrow> nat \<Rightarrow> nat \<Rightarrow> (nat list \<times> bool) res option" where
  "dump_route rt k j =
     (if k = j then Some (Inr ([], True))
      else case net_routing_table_lookup rt k j of
        Inl e \<Rightarrow> Some (Inl e)
      | Inr p \<Rightarrow>
          (case re_next_node (entry_at rt p) of
             None \<Rightarrow> Some (Inr ([], False))
           | Some hop \<Rightarrow> ropt_bind (dump_route rt hop j) (\<lambda>(ns, ok). Some (Inr (hop # ns, ok)))))"

end
