(* ===== verification/Net_Paths.thy ===== *)
theory Net_Paths
  imports Net_Routing
begin

text \<open>
  Correctness of the routing table (\<open>src/network/routing-table.c\<close>): the all-pairs shortest path
  loops, the first hops and the output buffers computed from them, and the routes they form.
\<close>

section \<open>Links as a graph\<close>

definition edges :: "'d net_t \<Rightarrow> (nat \<times> nat) set" where
  "edges nt = {(n, lk_dst_node (link_at nt l)) | n b l. n < net_node_count nt \<and>
     b \<in> set (nn_output_buffer_list (node_at nt n)) \<and> nb_link (buffer_at nt b) = Some l}"

text \<open>Walks through intermediate nodes below a bound, by their number of links.\<close>

inductive walk :: "(nat \<times> nat) set \<Rightarrow> nat \<Rightarrow> nat \<Rightarrow> nat \<Rightarrow> nat \<Rightarrow> bool" for E k where
  walk1: "(i, j) \<in> E \<Longrightarrow> walk E k i j (Suc 0)"
| walkS: "(i, m) \<in> E \<Longrightarrow> m < k \<Longrightarrow> walk E k m j p \<Longrightarrow> walk E k i j (Suc p)"

lemma walk_relpow: "walk E k i j p \<Longrightarrow> (i, j) \<in> E ^^ p"
proof (induction rule: walk.induct)
  case (walkS i m j p)
  from relpow_Suc_I2 [OF walkS.hyps(1) walkS.IH] show ?case .
qed auto

lemma relpow_walk: "(i, j) \<in> E ^^ Suc p \<Longrightarrow> E \<subseteq> {..<n} \<times> {..<n} \<Longrightarrow> walk E n i j (Suc p)"
proof (induction p arbitrary: i)
  case 0
  then show ?case using walk1 [of i j E] by simp
next
  case (Suc p)
  then obtain m where m: "(i, m) \<in> E" "(m, j) \<in> E ^^ Suc p" by (blast dest: relpow_Suc_D2)
  show ?case
  proof (rule walkS [OF m(1)])
    show "m < n" using m(1) Suc.prems(2) by auto
    show "walk E n m j (Suc p)" using m(2) Suc.prems(2) by (rule Suc.IH)
  qed
qed

text \<open>A walk through nodes up to \<open>k\<close> avoids \<open>k\<close> or splits at its first visit.\<close>

lemma walk_split:
  "walk E (Suc k) i j p \<Longrightarrow> walk E k i j p \<or> (\<exists>a b. walk E k i k a \<and> walk E (Suc k) k j b \<and> p = a + b)"
proof (induction rule: walk.induct)
  case (walkS i m j p)
  show ?case
  proof (cases "m = k")
    case True
    have "walk E k i k (Suc 0)" using walkS.hyps(1) True by (auto intro: walk1)
    with walkS.hyps(3) True show ?thesis by (intro disjI2 exI [of _ "Suc 0"] exI [of _ p]) simp
  next
    case False
    then have m: "m < k" using walkS.hyps(2) by simp
    from walkS.IH show ?thesis
    proof (elim disjE exE conjE)
      assume "walk E k m j p"
      with walkS.hyps(1) m show ?thesis by (blast intro: walk.walkS)
    next
      fix a b assume ab: "walk E k m k a" "walk E (Suc k) k j b" "p = a + b"
      have "walk E k i k (Suc a)" using walkS.hyps(1) m ab(1) by (rule walk.walkS)
      with ab(2,3) show ?thesis by (intro disjI2 exI [of _ "Suc a"] exI [of _ b]) simp
    qed
  qed
qed (auto intro: walk1)

lemma walk_pos: "walk E k i j p \<Longrightarrow> 0 < p"
  by (induction rule: walk.induct) auto

section \<open>The table as a matrix\<close>

definition rt_ok :: "net_routing_table_t \<Rightarrow> bool" where
  "rt_ok rt \<longleftrightarrow> (\<exists>es. rt_entries rt = Some es \<and> length es = rt_dim rt * rt_dim rt)"

definition ent :: "net_routing_table_t \<Rightarrow> nat \<Rightarrow> nat \<Rightarrow> net_routing_table_entry_t" where
  "ent rt i j = entry_at rt (i * rt_dim rt + j)"

lemma index_less:
  assumes "i < n" "j < n" shows "i * n + j < n * (n :: nat)"
proof -
  have "i * n + j < Suc i * n" using assms(2) by simp
  also have "\<dots> \<le> n * n" using assms(1) by (intro mult_le_mono1) simp
  finally show ?thesis .
qed

lemma index_inj:
  assumes "j < n" "j' < (n :: nat)" shows "i * n + j = i' * n + j' \<longleftrightarrow> i = i' \<and> j = j'"
proof
  assume *: "i * n + j = i' * n + j'"
  have "(i * n + j) div n = i" "(i' * n + j') div n = i'" using assms by simp_all
  with * have "i = i'" by simp
  with * show "i = i' \<and> j = j'" by simp
qed simp

lemma lookup_ok:
  "rt_ok rt \<Longrightarrow> i < rt_dim rt \<Longrightarrow> j < rt_dim rt \<Longrightarrow> net_routing_table_lookup rt i j = Inr (i * rt_dim rt + j)"
  by (auto simp: net_routing_table_lookup_def rt_ok_def)

lemma put_entry_simps [simp]:
  "rt_dim (put_entry k e rt) = rt_dim rt" "rt_has_cycle (put_entry k e rt) = rt_has_cycle rt"
  "rt_ok rt \<Longrightarrow> rt_ok (put_entry k e rt)"
  by (auto simp: put_entry_def rt_ok_def)

lemma ent_put:
  assumes "rt_ok rt" "i < rt_dim rt" "j < rt_dim rt" "i' < rt_dim rt" "j' < rt_dim rt"
  shows "ent (put_entry (i * rt_dim rt + j) e rt) i' j' = (if i' = i \<and> j' = j then e else ent rt i' j')"
proof -
  from assms(1) obtain es where es: "rt_entries rt = Some es" "length es = rt_dim rt * rt_dim rt"
    by (auto simp: rt_ok_def)
  have "i * rt_dim rt + j < length es" using index_less assms es(2) by simp
  moreover have "i' * rt_dim rt + j' = i * rt_dim rt + j \<longleftrightarrow> i' = i \<and> j' = j"
    using assms by (intro index_inj)
  ultimately show ?thesis
    by (auto simp: ent_def put_entry_def entry_at_def es(1) nth_list_update)
qed

lemma put_entry_same: "rt_ok rt \<Longrightarrow> put_entry k (entry_at rt k) rt = rt"
  by (auto simp: put_entry_def entry_at_def rt_ok_def)

lemma entry_ent [simp]: "entry_at rt (i * rt_dim rt + j) = ent rt i j"
  by (simp add: ent_def)

text \<open>A loop over all pairs of which each step changes at most its own entry.\<close>

lemma ropt_fold_inv:
  assumes "Q 0 s" "\<And>k s. k < length xs \<Longrightarrow> Q k s \<Longrightarrow> \<exists>s'. f (xs ! k) s = Some (Inr s') \<and> Q (Suc k) s'"
  shows "\<exists>s'. ropt_fold f xs s = Some (Inr s') \<and> Q (length xs) s'"
  using assms
proof (induction xs arbitrary: s Q)
  case (Cons x xs)
  from Cons.prems(2) [of 0 s] Cons.prems(1) obtain t where t: "f x s = Some (Inr t)" "Q (Suc 0) t" by auto
  have "\<exists>s'. ropt_fold f xs t = Some (Inr s') \<and> Q (Suc (length xs)) s'"
    by (rule Cons.IH [of "\<lambda>k. Q (Suc k)"]) (use t Cons.prems(2) in force)+
  with t show ?case by simp
qed simp

lemma ropt_fold_res: "ropt_fold (\<lambda>x s. Some (f x s)) xs s = Some (res_fold f xs s)"
proof (induction xs arbitrary: s)
  case (Cons x xs)
  then show ?case by (cases "f x s") simp_all
qed simp

lemma pair_loop_opt:
  assumes step: "\<And>i j r. i < n \<Longrightarrow> j < n \<Longrightarrow> rt_ok r \<Longrightarrow> rt_dim r = n \<Longrightarrow> P i j r \<Longrightarrow>
      \<exists>e. f i j r = Some (Inr (put_entry (i * n + j) e r)) \<and> G i j e"
    and ok: "rt_ok rt" "rt_dim rt = n"
    and P: "\<And>i j r. i < n \<Longrightarrow> j < n \<Longrightarrow> rt_ok r \<Longrightarrow> rt_dim r = n \<Longrightarrow>
      (\<And>a b. a < n \<Longrightarrow> b < n \<Longrightarrow>
         if a < i \<or> a = i \<and> b < j then G a b (ent r a b) else ent r a b = ent rt a b) \<Longrightarrow> P i j r"
  shows "\<exists>rt'. ropt_fold (\<lambda>i. ropt_fold (f i) [0..<n]) [0..<n] rt = Some (Inr rt') \<and> rt_ok rt' \<and> rt_dim rt' = n \<and>
     rt_has_cycle rt' = rt_has_cycle rt \<and> (\<forall>i < n. \<forall>j < n. G i j (ent rt' i j))"
proof -
  let ?R = "\<lambda>i j r. rt_ok r \<and> rt_dim r = n \<and> rt_has_cycle r = rt_has_cycle rt \<and>
     (\<forall>a < n. \<forall>b < n. if a < i \<or> a = i \<and> b < j then G a b (ent r a b) else ent r a b = ent rt a b)"
  have inner: "\<exists>r'. ropt_fold (f i) [0..<n] r = Some (Inr r') \<and> ?R (Suc i) 0 r'" if i: "i < n" "?R i 0 r" for i r
  proof -
    have "\<exists>r'. ropt_fold (f i) [0..<n] r = Some (Inr r') \<and> ?R i (length [0..<n]) r'"
    proof (rule ropt_fold_inv [where Q = "?R i"])
      fix j r assume j: "j < length [0..<n]" and r: "?R i j r"
      then have jn: "j < n" by simp
      have "P i j r" using P [OF i(1) jn] r by blast
      with step [OF i(1) jn] r obtain e where e: "f i j r = Some (Inr (put_entry (i * n + j) e r))" "G i j e" by blast
      moreover have "?R i (Suc j) (put_entry (i * n + j) e r)"
        using r i(1) jn e(2) ent_put [of r i j] by (auto simp: less_Suc_eq)
      ultimately show "\<exists>r'. f i ([0..<n] ! j) r = Some (Inr r') \<and> ?R i (Suc j) r'" using jn by simp
    qed (use i in auto)
    moreover have "?R i (length [0..<n]) r' \<Longrightarrow> ?R (Suc i) 0 r'" for r' by (auto simp: less_Suc_eq)
    ultimately show ?thesis by blast
  qed
  have "\<exists>r'. ropt_fold (\<lambda>i. ropt_fold (f i) [0..<n]) [0..<n] rt = Some (Inr r') \<and> ?R (length [0..<n]) 0 r'"
    by (rule ropt_fold_inv [where Q = "\<lambda>i. ?R i 0"]) (use ok inner in auto)
  then show ?thesis by auto
qed

lemma pair_loop:
  assumes "\<And>i j r. i < n \<Longrightarrow> j < n \<Longrightarrow> rt_ok r \<Longrightarrow> rt_dim r = n \<Longrightarrow> P i j r \<Longrightarrow>
      \<exists>e. f i j r = Inr (put_entry (i * n + j) e r) \<and> G i j e"
    and "rt_ok rt" "rt_dim rt = n"
    and "\<And>i j r. i < n \<Longrightarrow> j < n \<Longrightarrow> rt_ok r \<Longrightarrow> rt_dim r = n \<Longrightarrow>
      (\<And>a b. a < n \<Longrightarrow> b < n \<Longrightarrow>
         if a < i \<or> a = i \<and> b < j then G a b (ent r a b) else ent r a b = ent rt a b) \<Longrightarrow> P i j r"
  shows "\<exists>rt'. res_fold (\<lambda>i. res_fold (f i) [0..<n]) [0..<n] rt = Inr rt' \<and> rt_ok rt' \<and> rt_dim rt' = n \<and>
     rt_has_cycle rt' = rt_has_cycle rt \<and> (\<forall>i < n. \<forall>j < n. G i j (ent rt' i j))"
  using pair_loop_opt [of n P "\<lambda>i j rt. Some (f i j rt)" G rt, unfolded ropt_fold_res] assms by simp

section \<open>The table after initialisation\<close>

definition dst_of :: "'d net_t \<Rightarrow> nat \<Rightarrow> nat" where
  "dst_of nt b = lk_dst_node (link_at nt (the (nb_link (buffer_at nt b))))"

lemma buffer_link_out:
  assumes "topo_ok nt" "n < net_node_count nt" "b \<in> set (nn_output_buffer_list (node_at nt n))"
  shows "buffer_link nt b = Inr (link_at nt (the (nb_link (buffer_at nt b))))" "dst_of nt b < net_node_count nt"
    "(n, dst_of nt b) \<in> edges nt"
proof -
  from topo_outD [OF assms] obtain l where l: "l < length (net_link_list nt)" "nb_link (buffer_at nt b) = Some l" by auto
  then show "buffer_link nt b = Inr (link_at nt (the (nb_link (buffer_at nt b))))" by (simp add: buffer_link_def)
  from l topo_linkD(2) [OF assms(1) l(1)] show "dst_of nt b < net_node_count nt" by (simp add: dst_of_def)
  show "(n, dst_of nt b) \<in> edges nt" using assms l by (auto simp: edges_def dst_of_def)
qed

lemma edges_out:
  assumes "topo_ok nt" "(i, j) \<in> edges nt"
  shows "i < net_node_count nt" "j < net_node_count nt"
    "\<exists>b \<in> set (nn_output_buffer_list (node_at nt i)). dst_of nt b = j"
proof -
  from assms(2) obtain b l where b: "i < net_node_count nt" "b \<in> set (nn_output_buffer_list (node_at nt i))"
    "nb_link (buffer_at nt b) = Some l" "j = lk_dst_node (link_at nt l)" by (auto simp: edges_def)
  show "i < net_node_count nt" by fact
  from b show "\<exists>b \<in> set (nn_output_buffer_list (node_at nt i)). dst_of nt b = j"
    by (intro bexI [of _ b]) (simp_all add: dst_of_def)
  with buffer_link_out(2) [OF assms(1)] b(1) show "j < net_node_count nt" by blast
qed

text \<open>An entry as the loops of \<open>initiate\<close> leave it.\<close>

definition hop_entry :: "'d net_t \<Rightarrow> nat \<Rightarrow> nat \<Rightarrow> net_routing_table_entry_t \<Rightarrow> bool" where
  "hop_entry nt i j e \<longleftrightarrow>
     (if (i, j) \<in> edges nt
      then re_cost e = 1 \<and> re_next_node e = Some j \<and>
        (\<exists>b \<in> set (nn_output_buffer_list (node_at nt i)). re_output_buffer e = Some b \<and> dst_of nt b = j)
      else e = \<lparr>re_cost = (if i = j then 0 else int (net_node_count nt)), re_next_node = None, re_output_buffer = None\<rparr>)"

lemma initiate_ok:
  assumes "topo_ok nt" "rt_entries (net_routing_table nt) = None"
  shows "\<exists>rt. net_routing_table_initiate nt = Inr (nt\<lparr>net_routing_table := rt\<rparr>) \<and> rt_ok rt \<and>
    rt_dim rt = net_node_count nt \<and> rt_has_cycle rt = rt_has_cycle (net_routing_table nt) \<and>
    (\<forall>i < net_node_count nt. \<forall>j < net_node_count nt. hop_entry nt i j (ent rt i j))"
proof -
  let ?n = "net_node_count nt" and ?rt = "net_routing_table nt"
  let ?rt0 = "?rt\<lparr>rt_dim := ?n, rt_entries := Some (replicate (?n * ?n)
               \<lparr>re_cost = 0, re_next_node = None, re_output_buffer = None\<rparr>)\<rparr>"
  let ?e0 = "\<lambda>i j. \<lparr>re_cost = (if i = j then 0 else int ?n), re_next_node = None, re_output_buffer = None\<rparr>"
  have "\<exists>rt1. res_fold (\<lambda>i. res_fold (init_entry i) [0..<?n]) [0..<?n] ?rt0 = Inr rt1 \<and> rt_ok rt1 \<and>
     rt_dim rt1 = ?n \<and> rt_has_cycle rt1 = rt_has_cycle ?rt0 \<and> (\<forall>i < ?n. \<forall>j < ?n. ent rt1 i j = ?e0 i j)"
    by (rule pair_loop [where P = "\<lambda>_ _ _. True" and G = "\<lambda>i j e. e = ?e0 i j"])
       (auto simp: init_entry_def lookup_ok, auto simp: rt_ok_def)
  then obtain rt1 where rt1: "res_fold (\<lambda>i. res_fold (init_entry i) [0..<?n]) [0..<?n] ?rt0 = Inr rt1" "rt_ok rt1"
     "rt_dim rt1 = ?n" "rt_has_cycle rt1 = rt_has_cycle ?rt" "\<And>i j. i < ?n \<Longrightarrow> j < ?n \<Longrightarrow> ent rt1 i j = ?e0 i j"
    by auto
  let ?out = "\<lambda>i. nn_output_buffer_list (node_at nt i)"
  let ?H = "\<lambda>i j B e. if \<exists>b \<in> B. dst_of nt b = j
      then re_cost e = 1 \<and> re_next_node e = Some j \<and>
        (\<exists>b \<in> set (?out i). re_output_buffer e = Some b \<and> dst_of nt b = j)
      else e = ?e0 i j"
  let ?R = "\<lambda>i (k :: nat) r. rt_ok r \<and> rt_dim r = ?n \<and> rt_has_cycle r = rt_has_cycle ?rt \<and>
     (\<forall>a < ?n. \<forall>b < ?n. ?H a b (if a < i then set (?out a) else if a = i then set (take k (?out a)) else {}) (ent r a b))"
  have inner: "\<exists>r'. res_fold (one_hop nt i) (?out i) r = Inr r' \<and> ?R (Suc i) 0 r'" if i: "i < ?n" "?R i 0 r" for i r
  proof -
    have "\<exists>r'. res_fold (one_hop nt i) (?out i) r = Inr r' \<and> ?R i (length (?out i)) r'"
    proof (rule res_fold_inv [where Q = "?R i"])
      fix k r assume k: "k < length (?out i)" and r: "?R i k r"
      let ?b = "?out i ! k"
      note bl = buffer_link_out [OF assms(1) i(1) nth_mem [OF k]]
      have d: "lk_dst_node (link_at nt (the (nb_link (buffer_at nt ?b)))) = dst_of nt ?b" by (simp add: dst_of_def)
      let ?e = "\<lparr>re_cost = 1, re_next_node = Some (dst_of nt ?b), re_output_buffer = Some ?b\<rparr>"
      let ?r = "put_entry (i * ?n + dst_of nt ?b) ?e r"
      have "one_hop nt i ?b r = Inr ?r"
        using bl r i(1) by (simp add: one_hop_def lookup_ok d)
      moreover have "ent ?r a b = (if a = i \<and> b = dst_of nt ?b then ?e else ent r a b)" if "a < ?n" "b < ?n" for a b
        using ent_put [of r i "dst_of nt ?b" a b ?e] r i(1) bl(2) that by simp
      then have "?R i (Suc k) ?r"
        using r k by (auto simp: take_Suc_conv_app_nth)
      ultimately show "\<exists>r'. one_hop nt i (?out i ! k) r = Inr r' \<and> ?R i (Suc k) r'" by blast
    qed (use i in auto)
    moreover have "?R i (length (?out i)) r' \<Longrightarrow> ?R (Suc i) 0 r'" for r'
      by (auto simp: less_Suc_eq)
    ultimately show ?thesis by blast
  qed
  have "\<exists>r'. res_fold (\<lambda>i. res_fold (one_hop nt i) (?out i)) [0..<?n] rt1 = Inr r' \<and> ?R (length [0..<?n]) 0 r'"
    by (rule res_fold_inv [where Q = "\<lambda>i. ?R i 0"]) (use rt1 inner in auto)
  then obtain rt2 where rt2: "res_fold (\<lambda>i. res_fold (one_hop nt i) (?out i)) [0..<?n] rt1 = Inr rt2" "?R ?n 0 rt2"
    by auto
  have "net_routing_table_initiate nt = Inr (nt\<lparr>net_routing_table := rt2\<rparr>)"
    using assms(2) rt1(1) rt2(1) by (simp add: net_routing_table_initiate_def Let_def)
  moreover have "hop_entry nt i j (ent rt2 i j)" if "i < ?n" "j < ?n" for i j
  proof -
    have "(i, j) \<in> edges nt \<longleftrightarrow> (\<exists>b \<in> set (?out i). dst_of nt b = j)"
      using edges_out(3) [OF assms(1)] buffer_link_out(3) [OF assms(1) that(1)] by blast
    moreover have "?H i j (set (?out i)) (ent rt2 i j)" using rt2(2) that by simp
    ultimately show ?thesis by (simp add: hop_entry_def)
  qed
  ultimately show ?thesis using rt2(2) by (intro exI [of _ rt2] conjI allI impI) simp_all
qed

section \<open>The shortest path loops\<close>

definition fw_entry :: "nat \<Rightarrow> (nat \<Rightarrow> nat \<Rightarrow> net_routing_table_entry_t) \<Rightarrow> nat \<Rightarrow> nat \<Rightarrow>
    net_routing_table_entry_t \<Rightarrow> net_routing_table_entry_t" where
  "fw_entry k M i j e =
     (let t = re_cost (M i k) + re_cost (M k j) in
      if t < re_cost e then e\<lparr>re_cost := t, re_next_node := Some k\<rparr> else e)"

lemma fw_stage:
  assumes "rt_ok rt" "rt_dim rt = n" "k < n" "\<And>i j. i < n \<Longrightarrow> j < n \<Longrightarrow> 0 \<le> re_cost (ent rt i j)"
  shows "\<exists>rt'. res_fold (\<lambda>i. res_fold (fw_step k i) [0..<n]) [0..<n] rt = Inr rt' \<and> rt_ok rt' \<and> rt_dim rt' = n \<and>
     rt_has_cycle rt' = rt_has_cycle rt \<and> (\<forall>i < n. \<forall>j < n. ent rt' i j = fw_entry k (ent rt) i j (ent rt i j))"
proof (rule pair_loop [where P = "\<lambda>i j r. ent r i j = ent rt i j \<and> re_cost (ent r i k) = re_cost (ent rt i k) \<and>
    re_cost (ent r k j) = re_cost (ent rt k j)" and G = "\<lambda>i j e. e = fw_entry k (ent rt) i j (ent rt i j)"])
  fix i j r
  assume *: "i < n" "j < n" "rt_ok r" "rt_dim r = n"
    "ent r i j = ent rt i j \<and> re_cost (ent r i k) = re_cost (ent rt i k) \<and> re_cost (ent r k j) = re_cost (ent rt k j)"
  have "put_entry (i * n + j) (ent r i j) r = r"
    using put_entry_same [OF *(3), of "i * n + j"] by (simp add: ent_def *(4))
  then have "fw_step k i j r = Inr (put_entry (i * n + j) (fw_entry k (ent rt) i j (ent rt i j)) r)"
    using * assms(3) entry_ent [of r] by (simp add: fw_step_def lookup_ok fw_entry_def Let_def)
  then show "\<exists>e. fw_step k i j r = Inr (put_entry (i * n + j) e r) \<and> e = fw_entry k (ent rt) i j (ent rt i j)" by blast
next
  fix i j r
  assume *: "i < n" "j < n" "\<And>a b. a < n \<Longrightarrow> b < n \<Longrightarrow>
     if a < i \<or> a = i \<and> b < j then ent r a b = fw_entry k (ent rt) a b (ent rt a b) else ent r a b = ent rt a b"
  have "0 \<le> re_cost (ent rt k k)" by (rule assms(4)) (use assms(3) in simp_all)
  then have "re_cost (fw_entry k (ent rt) i k (ent rt i k)) = re_cost (ent rt i k)"
    "re_cost (fw_entry k (ent rt) k j (ent rt k j)) = re_cost (ent rt k j)"
    by (simp_all add: fw_entry_def Let_def)
  then show "ent r i j = ent rt i j \<and> re_cost (ent r i k) = re_cost (ent rt i k) \<and> re_cost (ent r k j) = re_cost (ent rt k j)"
    using *(3) [OF *(1,2)] *(3) [OF *(1) assms(3)] *(3) [OF assms(3) *(2)] by (auto split: if_splits)
qed (use assms in simp_all)

definition fw_inv :: "(nat \<times> nat) set \<Rightarrow> nat \<Rightarrow> nat \<Rightarrow> (nat \<Rightarrow> nat \<Rightarrow> net_routing_table_entry_t) \<Rightarrow> bool" where
  "fw_inv E n k M \<longleftrightarrow> (\<forall>i < n. \<forall>j < n.
     0 \<le> re_cost (M i j) \<and> re_cost (M i j) \<le> int n \<and>
     (re_next_node (M i j) = None \<longrightarrow> re_cost (M i j) = (if i = j then 0 else int n)) \<and>
     (\<forall>m. re_next_node (M i j) = Some m \<longrightarrow> m < n \<and> 1 \<le> re_cost (M i j) \<and> (i, j) \<in> E ^^ nat (re_cost (M i j)) \<and>
        (re_cost (M i j) = 1 \<longrightarrow> m = j) \<and>
        (re_cost (M i j) > 1 \<longrightarrow> re_next_node (M i m) \<noteq> None \<and> re_next_node (M m j) \<noteq> None \<and>
           re_cost (M i m) + re_cost (M m j) \<le> re_cost (M i j))) \<and>
     (\<forall>p. walk E k i j p \<longrightarrow> re_cost (M i j) \<le> int p))"

lemma fw_invD:
  assumes "fw_inv E n k M" "i < n" "j < n"
  shows "0 \<le> re_cost (M i j)" "re_cost (M i j) \<le> int n"
    "re_next_node (M i j) = None \<Longrightarrow> re_cost (M i j) = (if i = j then 0 else int n)"
    "re_next_node (M i j) = Some m \<Longrightarrow> m < n"
    "re_next_node (M i j) \<noteq> None \<Longrightarrow> 1 \<le> re_cost (M i j)"
    "re_next_node (M i j) \<noteq> None \<Longrightarrow> (i, j) \<in> E ^^ nat (re_cost (M i j))"
    "re_next_node (M i j) = Some m \<Longrightarrow> re_cost (M i j) = 1 \<Longrightarrow> m = j"
    "re_next_node (M i j) = Some m \<Longrightarrow> re_cost (M i j) > 1 \<Longrightarrow>
       re_next_node (M i m) \<noteq> None \<and> re_next_node (M m j) \<noteq> None \<and>
       re_cost (M i m) + re_cost (M m j) \<le> re_cost (M i j)"
    "walk E k i j p \<Longrightarrow> re_cost (M i j) \<le> int p"
  using assms unfolding fw_inv_def by blast+

lemma walk_edge: "walk E 0 i j p \<Longrightarrow> (i, j) \<in> E \<and> p = 1"
  by (erule walk.cases) auto

lemma fw_inv_start:
  assumes "topo_ok nt" "\<forall>i < net_node_count nt. \<forall>j < net_node_count nt. hop_entry nt i j (M i j)"
  shows "fw_inv (edges nt) (net_node_count nt) 0 M"
  unfolding fw_inv_def
proof (intro allI impI)
  fix i j assume ij: "i < net_node_count nt" "j < net_node_count nt"
  with assms(2) have "hop_entry nt i j (M i j)" by blast
  then show "0 \<le> re_cost (M i j) \<and> re_cost (M i j) \<le> int (net_node_count nt) \<and>
     (re_next_node (M i j) = None \<longrightarrow> re_cost (M i j) = (if i = j then 0 else int (net_node_count nt))) \<and>
     (\<forall>m. re_next_node (M i j) = Some m \<longrightarrow> m < net_node_count nt \<and> 1 \<le> re_cost (M i j) \<and> (i, j) \<in> edges nt ^^ nat (re_cost (M i j)) \<and>
        (re_cost (M i j) = 1 \<longrightarrow> m = j) \<and>
        (re_cost (M i j) > 1 \<longrightarrow> re_next_node (M i m) \<noteq> None \<and> re_next_node (M m j) \<noteq> None \<and>
           re_cost (M i m) + re_cost (M m j) \<le> re_cost (M i j))) \<and>
     (\<forall>p. walk (edges nt) 0 i j p \<longrightarrow> re_cost (M i j) \<le> int p)"
    using ij by (auto simp: hop_entry_def split: if_splits dest!: walk_edge)
qed

lemma fw_entry_cost: "re_cost (fw_entry k M i j e) = min (re_cost e) (re_cost (M i k) + re_cost (M k j))"
  by (simp add: fw_entry_def Let_def)

lemma fw_inv_step:
  assumes inv: "fw_inv E n k M" and k: "k < n" and E: "E \<subseteq> {..<n} \<times> {..<n}"
    and M': "\<And>i j. i < n \<Longrightarrow> j < n \<Longrightarrow> M' i j = fw_entry k M i j (M i j)"
  shows "fw_inv E n (Suc k) M'"
proof -
  note D = fw_invD [OF inv]
  have cost: "re_cost (M' i j) = min (re_cost (M i j)) (re_cost (M i k) + re_cost (M k j))" if "i < n" "j < n" for i j
    by (simp add: M' [OF that] fw_entry_cost)
  have row: "re_cost (M' k j) = re_cost (M k j)" if "j < n" for j
    using cost [OF k that] D(1) [OF k k] by simp
  have keep: "re_next_node (M' i j) \<noteq> None" if "i < n" "j < n" "re_next_node (M i j) \<noteq> None" for i j
    using that by (simp add: M' fw_entry_def Let_def)
  have walks: "re_cost (M' i j) \<le> int p" if "walk E (Suc k) i j p" "i < n" "j < n" for i j p
    using that
  proof (induction p arbitrary: i rule: less_induct)
    case (less p)
    from walk_split [OF less.prems(1)] show ?case
    proof (elim disjE exE conjE)
      assume "walk E k i j p"
      then have "re_cost (M i j) \<le> int p" by (rule D(9) [OF less.prems(2,3)])
      then show ?thesis by (simp add: cost [OF less.prems(2,3)])
    next
      fix a b assume ab: "walk E k i k a" "walk E (Suc k) k j b" "p = a + b"
      have "b < p" using walk_pos [OF ab(1)] ab(3) by simp
      from less.IH [OF this ab(2) k less.prems(3)] have "re_cost (M k j) \<le> int b" by (simp add: row less.prems(3))
      moreover have "re_cost (M i k) \<le> int a" using ab(1) by (rule D(9) [OF less.prems(2) k])
      ultimately show ?thesis using ab(3) by (simp add: cost [OF less.prems(2,3)])
    qed
  qed
  have nxt: "m < n \<and> 1 \<le> re_cost (M' i j) \<and> (i, j) \<in> E ^^ nat (re_cost (M' i j)) \<and>
        (re_cost (M' i j) = 1 \<longrightarrow> m = j) \<and>
        (re_cost (M' i j) > 1 \<longrightarrow> re_next_node (M' i m) \<noteq> None \<and> re_next_node (M' m j) \<noteq> None \<and>
           re_cost (M' i m) + re_cost (M' m j) \<le> re_cost (M' i j))"
    if ij: "i < n" "j < n" and m: "re_next_node (M' i j) = Some m" for i j m
  proof (cases "re_cost (M i k) + re_cost (M k j) < re_cost (M i j)")
    case True
    then have "m = k" and c: "re_cost (M' i j) = re_cost (M i k) + re_cost (M k j)"
      using m M' [OF ij] by (simp_all add: fw_entry_def Let_def)
    have s: "re_next_node (M i k) \<noteq> None" "re_next_node (M k j) \<noteq> None"
      using True D(1,2,3) [OF ij(1) k] D(1,2,3) [OF k ij(2)] D(2) [OF ij] by (cases "i = k"; cases "k = j"; force)+
    then have p: "1 \<le> re_cost (M i k)" "1 \<le> re_cost (M k j)" "(i, k) \<in> E ^^ nat (re_cost (M i k))"
        "(k, j) \<in> E ^^ nat (re_cost (M k j))"
      using D(5,6) [OF ij(1) k] D(5,6) [OF k ij(2)] by simp_all
    have "(i, j) \<in> E ^^ (nat (re_cost (M i k)) + nat (re_cost (M k j)))"
      using p(3,4) by (auto simp: relpow_add)
    then have "(i, j) \<in> E ^^ nat (re_cost (M' i j))" using p(1,2) c by (simp add: nat_add_distrib)
    moreover have "re_cost (M' i k) = re_cost (M i k)" using cost [OF ij(1) k] D(1) [OF k k] by simp
    ultimately show ?thesis
      using \<open>m = k\<close> k c p row [OF ij(2)] keep [OF ij(1) k s(1)] keep [OF k ij(2) s(2)] by simp
  next
    case False
    then have e: "M' i j = M i j" using M' [OF ij] by (simp add: fw_entry_def Let_def)
    with m have m': "re_next_node (M i j) = Some m" by simp
    then have mn: "m < n" by (rule D(4) [OF ij])
    have "re_cost (M' i m) \<le> re_cost (M i m)" "re_cost (M' m j) \<le> re_cost (M m j)"
      using cost [OF ij(1) mn] cost [OF mn ij(2)] by simp_all
    then show ?thesis
      unfolding e using D(5,6) [OF ij] D(7,8) [OF ij m'] m' mn keep [OF ij(1) mn] keep [OF mn ij(2)] by auto
  qed
  show ?thesis
    unfolding fw_inv_def
  proof (intro allI impI conjI)
    fix i j assume ij: "i < n" "j < n"
    show "0 \<le> re_cost (M' i j)" "re_cost (M' i j) \<le> int n"
      using cost [OF ij] D(1,2) [OF ij] D(1) [OF ij(1) k] D(1) [OF k ij(2)] by simp_all
    assume "re_next_node (M' i j) = None"
    then show "re_cost (M' i j) = (if i = j then 0 else int n)"
      using M' [OF ij] D(3) [OF ij] by (simp add: fw_entry_def Let_def split: if_splits)
  next
    fix i j m assume "i < n" "j < n" "re_next_node (M' i j) = Some m"
    note nxt [OF this]
    then show "m < n" "1 \<le> re_cost (M' i j)" "(i, j) \<in> E ^^ nat (re_cost (M' i j))"
      "re_cost (M' i j) = 1 \<Longrightarrow> m = j" "1 < re_cost (M' i j) \<Longrightarrow> re_next_node (M' i m) \<noteq> None"
      "1 < re_cost (M' i j) \<Longrightarrow> re_next_node (M' m j) \<noteq> None"
      "1 < re_cost (M' i j) \<Longrightarrow> re_cost (M' i m) + re_cost (M' m j) \<le> re_cost (M' i j)" by simp_all
  next
    fix i j p assume "i < n" "j < n" "walk E (Suc k) i j p"
    then show "re_cost (M' i j) \<le> int p" by (intro walks)
  qed
qed

lemma fw_loops:
  assumes "rt_ok rt" "rt_dim rt = n" "fw_inv E n 0 (ent rt)" "E \<subseteq> {..<n} \<times> {..<n}"
  shows "\<exists>rt'. res_fold (\<lambda>k. res_fold (\<lambda>i. res_fold (fw_step k i) [0..<n]) [0..<n]) [0..<n] rt = Inr rt' \<and>
     rt_ok rt' \<and> rt_dim rt' = n \<and> rt_has_cycle rt' = rt_has_cycle rt \<and> fw_inv E n n (ent rt')"
proof -
  let ?Q = "\<lambda>k r. rt_ok r \<and> rt_dim r = n \<and> rt_has_cycle r = rt_has_cycle rt \<and> fw_inv E n k (ent r)"
  have "\<exists>r'. res_fold (\<lambda>k. res_fold (\<lambda>i. res_fold (fw_step k i) [0..<n]) [0..<n]) [0..<n] rt = Inr r' \<and>
    ?Q (length [0..<n]) r'"
  proof (rule res_fold_inv [where Q = ?Q])
    fix k r assume k: "k < length [0..<n]" and r: "?Q k r"
    then have kn: "k < n" by simp
    have rr: "rt_ok r" "rt_dim r = n" using r by simp_all
    have "0 \<le> re_cost (ent r i j)" if "i < n" "j < n" for i j using r that by (blast intro: fw_invD(1))
    from fw_stage [OF rr kn this] obtain r' where
      r': "res_fold (\<lambda>i. res_fold (fw_step k i) [0..<n]) [0..<n] r = Inr r'" "rt_ok r'" "rt_dim r' = n"
        "rt_has_cycle r' = rt_has_cycle r" "\<forall>i < n. \<forall>j < n. ent r' i j = fw_entry k (ent r) i j (ent r i j)" by auto
    have "fw_inv E n (Suc k) (ent r')" by (rule fw_inv_step [of E n k "ent r"]) (use r r' kn assms(4) in auto)
    with r r' kn show "\<exists>r'. res_fold (\<lambda>i. res_fold (fw_step ([0..<n] ! k) i) [0..<n]) [0..<n] r = Inr r' \<and> ?Q (Suc k) r'"
      by (intro exI [of _ r']) simp
  qed (use assms in simp)
  then show ?thesis by simp
qed

section \<open>First hops and output buffers\<close>

lemma fw_dist:
  assumes "fw_inv E n n M" "E \<subseteq> {..<n} \<times> {..<n}" "i < n" "j < n" "(i, j) \<in> E ^^ p" "0 < p"
  shows "re_cost (M i j) \<le> int p"
  using assms(5,6) relpow_walk [of i j "p - 1" E n] fw_invD(9) [OF assms(1,3,4), of p] assms(2) by simp

lemma fw_triangle:
  assumes "fw_inv E n n M" "E \<subseteq> {..<n} \<times> {..<n}" "i < n" "m < n" "j < n"
    "re_next_node (M i m) \<noteq> None" "re_next_node (M m j) \<noteq> None"
  shows "re_cost (M i j) \<le> re_cost (M i m) + re_cost (M m j)"
proof -
  note a = fw_invD(5,6) [OF assms(1,3,4) assms(6)] and b = fw_invD(5,6) [OF assms(1,4,5) assms(7)]
  have "(i, j) \<in> E ^^ (nat (re_cost (M i m)) + nat (re_cost (M m j)))"
    using a(2) b(2) by (auto simp: relpow_add)
  from fw_dist [OF assms(1,2,3,5) this] a(1) b(1) show ?thesis by simp
qed

text \<open>The first hop towards a node: a neighbour, from which one hop less remains.\<close>

definition first_hop :: "(nat \<Rightarrow> nat \<Rightarrow> net_routing_table_entry_t) \<Rightarrow> nat \<Rightarrow> nat \<Rightarrow> nat \<Rightarrow> bool" where
  "first_hop M i j h \<longleftrightarrow> re_next_node (M i h) \<noteq> None \<and> re_cost (M i h) = 1 \<and>
     (h = j \<or> re_next_node (M h j) \<noteq> None \<and> 1 + re_cost (M h j) \<le> re_cost (M i j))"

lemma follow_path_ok:
  assumes inv: "fw_inv E n n (ent rt)" and E: "E \<subseteq> {..<n} \<times> {..<n}" and rt: "rt_ok rt" "rt_dim rt = n" and i: "i < n"
  shows "m < n \<Longrightarrow> re_next_node (ent rt i m) \<noteq> None \<Longrightarrow>
    \<exists>h < n. follow_path rt i m = Some (Inr h) \<and> first_hop (ent rt) i m h"
proof (induction "nat (re_cost (ent rt i m))" arbitrary: m rule: less_induct)
  case less
  let ?c = "\<lambda>a b. re_cost (ent rt a b)" and ?s = "\<lambda>a b. re_next_node (ent rt a b) \<noteq> None"
  note D = fw_invD [OF inv]
  have lk: "net_routing_table_lookup rt i m = Inr (i * rt_dim rt + m)" using rt i less.prems(1) by (simp add: lookup_ok)
  have one: "1 \<le> ?c i m" by (rule D(5) [OF i less.prems])
  show ?case
  proof (cases "?c i m \<le> 1")
    case True
    then have "follow_path rt i m = Some (Inr m)" using lk by (simp add: follow_path.simps)
    with True one less.prems show ?thesis by (auto simp: first_hop_def)
  next
    case False
    from less.prems(2) obtain x where x: "re_next_node (ent rt i m) = Some x" by blast
    have xn: "x < n" by (rule D(4) [OF i less.prems(1) x])
    have s: "?s i x" "?s x m" "?c i x + ?c x m \<le> ?c i m" using D(8) [OF i less.prems(1) x] False by simp_all
    have "1 \<le> ?c x m" by (rule D(5) [OF xn less.prems(1) s(2)])
    then have "nat (?c i x) < nat (?c i m)" using s(3) one by simp
    from less.hyps [OF this xn s(1)] obtain h where h: "h < n" "follow_path rt i x = Some (Inr h)"
      "first_hop (ent rt) i x h" by blast
    have "follow_path rt i m = Some (Inr h)" using False lk x h(2) by (simp add: follow_path.simps)
    moreover have "h = m \<or> ?s h m \<and> 1 + ?c h m \<le> ?c i m"
    proof (cases "h = x")
      case True
      with s h(3) show ?thesis by (auto simp: first_hop_def)
    next
      case False
      then have hx: "?s h x" "1 + ?c h x \<le> ?c i x" using h(3) by (auto simp: first_hop_def)
      have c: "1 + ?c h m \<le> ?c i m"
        using fw_triangle [OF inv E h(1) xn less.prems(1) hx(1) s(2)] hx(2) s(3) by simp
      have "?s h m \<or> h = m" using D(3) [OF h(1) less.prems(1)] D(2) [OF i less.prems(1)] c by fastforce
      with c show ?thesis by blast
    qed
    ultimately show ?thesis using h by (auto simp: first_hop_def)
  qed
qed

lemma follow_first:
  assumes "fw_inv E n n (ent rt)" "E \<subseteq> {..<n} \<times> {..<n}" "rt_ok rt" "rt_dim rt = n" "i < n" "j < n"
    "re_next_node (ent rt i j) = Some m"
  shows "\<exists>h < n. follow_path rt i m = Some (Inr h) \<and> first_hop (ent rt) i j h"
proof -
  have s: "re_next_node (ent rt i j) \<noteq> None" using assms(7) by simp
  from follow_path_ok [OF assms(1-6) s] obtain h where
    h: "h < n" "follow_path rt i j = Some (Inr h)" "first_hop (ent rt) i j h" by blast
  have "follow_path rt i m = follow_path rt i j"
  proof (cases "re_cost (ent rt i j) = 1")
    case True
    with fw_invD(7) [OF assms(1,5,6,7)] show ?thesis by simp
  next
    case False
    with fw_invD(5) [OF assms(1,5,6) s] have "\<not> re_cost (ent rt i j) \<le> 1" by simp
    moreover have "net_routing_table_lookup rt i j = Inr (i * n + j)" "entry_at rt (i * n + j) = ent rt i j"
      using assms by (simp_all add: lookup_ok ent_def)
    ultimately show ?thesis using assms(7) by (subst (2) follow_path.simps) simp
  qed
  with h show ?thesis by auto
qed

lemma find_output_ok:
  assumes "topo_ok nt" "i < net_node_count nt"
  shows "set bs \<subseteq> set (nn_output_buffer_list (node_at nt i)) \<Longrightarrow> \<exists>b \<in> set bs. dst_of nt b = h \<Longrightarrow>
    \<exists>b \<in> set bs. find_output nt h bs = Inr b \<and> dst_of nt b = h"
proof (induction bs)
  case (Cons b bs)
  have "buffer_link nt b = Inr (link_at nt (the (nb_link (buffer_at nt b))))"
    by (rule buffer_link_out [OF assms]) (use Cons.prems in simp)
  with Cons show ?case by (auto simp: dst_of_def)
qed simp

text \<open>The entries with their output buffers, before and after the next nodes are set to them.\<close>

definition with_output :: "'d net_t \<Rightarrow> (nat \<Rightarrow> nat \<Rightarrow> net_routing_table_entry_t) \<Rightarrow> nat \<Rightarrow> nat \<Rightarrow>
    net_routing_table_entry_t \<Rightarrow> bool" where
  "with_output nt M i j e \<longleftrightarrow> re_cost e = re_cost (M i j) \<and> re_next_node e = re_next_node (M i j) \<and>
     (case re_next_node (M i j) of
        None \<Rightarrow> re_output_buffer e = None
      | Some m \<Rightarrow> \<exists>b \<in> set (nn_output_buffer_list (node_at nt i)).
          re_output_buffer e = Some b \<and> first_hop M i j (dst_of nt b))"

lemma set_output_ok:
  assumes topo: "topo_ok nt" and n: "n = net_node_count nt" and inv: "fw_inv (edges nt) n n (ent rt)"
    and rt: "rt_ok rt" "rt_dim rt = n" and ij: "i < n" "j < n"
  shows "\<exists>e. set_output nt i j rt = Some (Inr (put_entry (i * n + j) e rt)) \<and> with_output nt (ent rt) i j e"
proof -
  have E: "edges nt \<subseteq> {..<n} \<times> {..<n}" using edges_out [OF topo] n by auto
  have lk: "net_routing_table_lookup rt i j = Inr (i * n + j)" using rt ij by (simp add: lookup_ok)
  have e: "entry_at rt (i * n + j) = ent rt i j" by (simp add: ent_def rt(2))
  show ?thesis
  proof (cases "re_next_node (ent rt i j)")
    case None
    then show ?thesis
      by (intro exI [of _ "(ent rt i j)\<lparr>re_output_buffer := None\<rparr>"]) (simp add: set_output_def lk e with_output_def)
  next
    case (Some m)
    from follow_first [OF inv E rt ij Some] obtain h where
      h: "h < n" "follow_path rt i m = Some (Inr h)" "first_hop (ent rt) i j h" by blast
    then have "(i, h) \<in> edges nt"
      using fw_invD(6) [OF inv ij(1) h(1)] by (auto simp: first_hop_def)
    from edges_out(3) [OF topo this] obtain b where
      "b \<in> set (nn_output_buffer_list (node_at nt i))" "dst_of nt b = h" by blast
    then obtain b where b: "b \<in> set (nn_output_buffer_list (node_at nt i))" "dst_of nt b = h"
        "find_output nt h (nn_output_buffer_list (node_at nt i)) = Inr b"
      using find_output_ok [OF topo, of i "nn_output_buffer_list (node_at nt i)" h] ij(1) n by blast
    then show ?thesis using h Some by (auto simp: set_output_def lk e with_output_def Let_def)
  qed
qed

lemma fw_inv_cong:
  assumes inv: "fw_inv E n k M"
    and eq: "\<And>i j. i < n \<Longrightarrow> j < n \<Longrightarrow> re_cost (M' i j) = re_cost (M i j) \<and> re_next_node (M' i j) = re_next_node (M i j)"
  shows "fw_inv E n k M'"
  unfolding fw_inv_def
proof (intro allI impI conjI)
  fix i j assume ij: "i < n" "j < n"
  note D = fw_invD [OF inv ij] and e = eq [OF ij]
  show "0 \<le> re_cost (M' i j)" "re_cost (M' i j) \<le> int n"
    "re_next_node (M' i j) = None \<Longrightarrow> re_cost (M' i j) = (if i = j then 0 else int n)"
    using D(1,2,3) e by simp_all
  show "re_cost (M' i j) \<le> int p" if "walk E k i j p" for p using D(9) [OF that] e by simp
  fix m assume m: "re_next_node (M' i j) = Some m"
  then have m': "re_next_node (M i j) = Some m" using e by simp
  then have s: "re_next_node (M i j) \<noteq> None" by simp
  show mn: "m < n" using m' by (rule D(4))
  show "1 \<le> re_cost (M' i j)" "(i, j) \<in> E ^^ nat (re_cost (M' i j))" "re_cost (M' i j) = 1 \<Longrightarrow> m = j"
    using D(5,6) [OF s] D(7) [OF m'] e m by simp_all
  assume "1 < re_cost (M' i j)"
  then show "re_next_node (M' i m) \<noteq> None" "re_next_node (M' m j) \<noteq> None"
    "re_cost (M' i m) + re_cost (M' m j) \<le> re_cost (M' i j)"
    using D(8) [OF m'] e eq [OF ij(1) mn] eq [OF mn ij(2)] by simp_all
qed

definition route_entry :: "'d net_t \<Rightarrow> (nat \<Rightarrow> nat \<Rightarrow> net_routing_table_entry_t) \<Rightarrow> nat \<Rightarrow> nat \<Rightarrow>
    net_routing_table_entry_t \<Rightarrow> bool" where
  "route_entry nt M i j e \<longleftrightarrow> re_cost e = re_cost (M i j) \<and>
     (if re_next_node (M i j) = None then re_next_node e = None \<and> re_output_buffer e = None
      else \<exists>b \<in> set (nn_output_buffer_list (node_at nt i)).
          re_output_buffer e = Some b \<and> re_next_node e = Some (dst_of nt b) \<and> first_hop M i j (dst_of nt b))"

lemma output_loops:
  assumes topo: "topo_ok nt" and n: "n = net_node_count nt" and inv: "fw_inv (edges nt) n n (ent rt)"
    and rt: "rt_ok rt" "rt_dim rt = n"
  shows "\<exists>r1 r2. ropt_fold (\<lambda>i. ropt_fold (set_output nt i) [0..<n]) [0..<n] rt = Some (Inr r1) \<and>
    res_fold (\<lambda>i. res_fold (set_next nt i) [0..<n]) [0..<n] r1 = Inr r2 \<and> rt_ok r2 \<and> rt_dim r2 = n \<and>
    rt_has_cycle r2 = rt_has_cycle rt \<and> (\<forall>i < n. \<forall>j < n. route_entry nt (ent rt) i j (ent r2 i j))"
proof -
  let ?eq = "\<lambda>r. \<forall>a < n. \<forall>b < n. re_cost (ent r a b) = re_cost (ent rt a b) \<and> re_next_node (ent r a b) = re_next_node (ent rt a b)"
  have "\<exists>r1. ropt_fold (\<lambda>i. ropt_fold (set_output nt i) [0..<n]) [0..<n] rt = Some (Inr r1) \<and> rt_ok r1 \<and> rt_dim r1 = n \<and>
     rt_has_cycle r1 = rt_has_cycle rt \<and> (\<forall>i < n. \<forall>j < n. with_output nt (ent rt) i j (ent r1 i j))"
  proof (rule pair_loop_opt [where P = "\<lambda>i j r. ?eq r"])
    fix i j r assume *: "i < n" "j < n" "rt_ok r" "rt_dim r = n" "?eq r"
    have "fw_inv (edges nt) n n (ent r)" by (rule fw_inv_cong [OF inv]) (use *(5) in blast)
    from set_output_ok [OF topo n this *(3,4,1,2)] obtain e where
      e: "set_output nt i j r = Some (Inr (put_entry (i * n + j) e r))" "with_output nt (ent r) i j e" by blast
    have "first_hop (ent r) i j (dst_of nt b) = first_hop (ent rt) i j (dst_of nt b)"
      if "b \<in> set (nn_output_buffer_list (node_at nt i))" for b
      using *(1,2,5) n buffer_link_out(2) [OF topo _ that] by (simp add: first_hop_def)
    with e(2) *(1,2,5) have "with_output nt (ent rt) i j e"
      by (auto simp: with_output_def split: option.splits)
    with e(1) show "\<exists>e. set_output nt i j r = Some (Inr (put_entry (i * n + j) e r)) \<and> with_output nt (ent rt) i j e" by blast
  next
    fix i j r
    assume *: "\<And>a b. a < n \<Longrightarrow> b < n \<Longrightarrow>
      if a < i \<or> a = i \<and> b < j then with_output nt (ent rt) a b (ent r a b) else ent r a b = ent rt a b"
    show "?eq r"
    proof (intro allI impI)
      fix a b assume "a < n" "b < n"
      from * [OF this] show "re_cost (ent r a b) = re_cost (ent rt a b) \<and> re_next_node (ent r a b) = re_next_node (ent rt a b)"
        by (auto simp: with_output_def split: if_splits)
    qed
  qed (use rt in simp_all)
  then obtain r1 where r1: "ropt_fold (\<lambda>i. ropt_fold (set_output nt i) [0..<n]) [0..<n] rt = Some (Inr r1)" "rt_ok r1"
     "rt_dim r1 = n" "rt_has_cycle r1 = rt_has_cycle rt"
     "\<And>i j. i < n \<Longrightarrow> j < n \<Longrightarrow> with_output nt (ent rt) i j (ent r1 i j)" by blast
  have "\<exists>r2. res_fold (\<lambda>i. res_fold (set_next nt i) [0..<n]) [0..<n] r1 = Inr r2 \<and> rt_ok r2 \<and> rt_dim r2 = n \<and>
     rt_has_cycle r2 = rt_has_cycle r1 \<and> (\<forall>i < n. \<forall>j < n. route_entry nt (ent rt) i j (ent r2 i j))"
  proof (rule pair_loop [where P = "\<lambda>i j r. ent r i j = ent r1 i j"])
    fix i j r assume *: "i < n" "j < n" "rt_ok r" "rt_dim r = n" "ent r i j = ent r1 i j"
    note w = r1(5) [OF *(1,2)]
    have "entry_at r (i * n + j) = ent r i j" by (simp add: ent_def *(4))
    then have lk: "net_routing_table_lookup r i j = Inr (i * n + j)" "entry_at r (i * n + j) = ent r1 i j"
      using *(1-4) by (simp_all only: *(5)) (simp add: lookup_ok)
    have same: "put_entry (i * n + j) (ent r1 i j) r = r"
      using put_entry_same [OF *(3), of "i * n + j"] by (simp add: lk(2))
    show "\<exists>e. set_next nt i j r = Inr (put_entry (i * n + j) e r) \<and> route_entry nt (ent rt) i j e"
    proof (cases "re_next_node (ent rt i j)")
      case None
      with w lk same show ?thesis
        by (intro exI [of _ "ent r1 i j"]) (simp add: set_next_def with_output_def route_entry_def)
    next
      case (Some m)
      with w obtain b where b: "b \<in> set (nn_output_buffer_list (node_at nt i))"
          "re_output_buffer (ent r1 i j) = Some b" "first_hop (ent rt) i j (dst_of nt b)"
        by (auto simp: with_output_def)
      have "buffer_link nt b = Inr (link_at nt (the (nb_link (buffer_at nt b))))"
        using buffer_link_out(1) [OF topo _ b(1)] *(1) n by simp
      then have "set_next nt i j r =
          Inr (put_entry (i * n + j) ((ent r1 i j)\<lparr>re_next_node := Some (dst_of nt b)\<rparr>) r)"
        using lk b(2) by (simp add: set_next_def dst_of_def)
      moreover have "route_entry nt (ent rt) i j ((ent r1 i j)\<lparr>re_next_node := Some (dst_of nt b)\<rparr>)"
        using w Some b unfolding route_entry_def with_output_def by (simp; blast)
      ultimately show ?thesis by blast
    qed
  next
    fix i j r
    assume *: "i < n" "j < n" "\<And>a b. a < n \<Longrightarrow> b < n \<Longrightarrow>
      if a < i \<or> a = i \<and> b < j then route_entry nt (ent rt) a b (ent r a b) else ent r a b = ent r1 a b"
    from *(3) [OF *(1,2)] show "ent r i j = ent r1 i j" by simp
  qed (use r1 in simp_all)
  with r1 show ?thesis by auto
qed

section \<open>Shortest routes\<close>

definition dist_is :: "(nat \<times> nat) set \<Rightarrow> nat \<Rightarrow> nat \<Rightarrow> nat \<Rightarrow> bool" where
  "dist_is E i j d \<longleftrightarrow> (i, j) \<in> E ^^ d \<and> (\<forall>p < d. (i, j) \<notin> E ^^ p)"

lemma relpow_cut:
  assumes "(\<forall>i < p. (f i, f (Suc i)) \<in> E)" "a \<le> b" "b \<le> p"
  shows "(f a, f b) \<in> E ^^ (b - a)"
proof -
  have "\<exists>g. g 0 = f a \<and> g (b - a) = f b \<and> (\<forall>i < b - a. (g i, g (Suc i)) \<in> E)"
    using assms by (intro exI [of _ "\<lambda>i. f (a + i)"]) auto
  then show ?thesis by (simp add: relpow_fun_conv)
qed

lemma short_path:
  assumes "(i, j) \<in> E\<^sup>*" "i \<noteq> j" "E \<subseteq> {..<n} \<times> {..<n}"
  shows "\<exists>p. 0 < p \<and> p < n \<and> dist_is E i j p"
proof -
  from assms(1) have "\<exists>p. (i, j) \<in> E ^^ p" by (simp add: rtrancl_power)
  then have "\<exists>p. (i, j) \<in> E ^^ p \<and> (\<forall>q < p. (i, j) \<notin> E ^^ q)" by (subst (asm) exists_least_iff)
  then obtain p where p: "(i, j) \<in> E ^^ p" "\<And>q. q < p \<Longrightarrow> (i, j) \<notin> E ^^ q" by blast
  have "0 < p" using p(1) assms(2) by (cases p) auto
  moreover have "p < n"
  proof (rule ccontr)
    assume "\<not> p < n"
    from p(1) obtain f where f: "f 0 = i" "f p = j" "\<forall>k < p. (f k, f (Suc k)) \<in> E" by (auto simp: relpow_fun_conv)
    have "f k < n" if "k \<le> p" for k
    proof (cases "k < p")
      case True
      with f(3) assms(3) show ?thesis by blast
    next
      case False
      with that \<open>0 < p\<close> have "Suc (p - 1) = k" "p - 1 < p" by simp_all
      with f(3) have "(f (p - 1), f k) \<in> E" by metis
      with assms(3) show ?thesis by blast
    qed
    then have "f ` {0..p} \<subseteq> {..<n}" by auto
    then have "card (f ` {0..p}) \<le> n" using card_mono [of "{..<n}"] by fastforce
    with \<open>\<not> p < n\<close> have "\<not> inj_on f {0..p}" by (intro pigeonhole) simp
    then obtain x y where "x \<le> p" "y \<le> p" "x \<noteq> y" "f x = f y" by (auto simp: inj_on_def)
    then obtain a b where ab: "a < b" "b \<le> p" "f a = f b"
      using linorder_neqE_nat [of x y] by metis
    have "(i, f a) \<in> E ^^ (a - 0)" "(f b, j) \<in> E ^^ (p - b)"
      using relpow_cut [OF f(3), of 0 a] relpow_cut [OF f(3), of b p] ab f(1,2) by simp_all
    then have "(i, j) \<in> E ^^ (a + (p - b))" using ab(3) by (auto simp: relpow_add)
    moreover have "a + (p - b) < p" using ab by simp
    ultimately show False using p(2) by blast
  qed
  ultimately show ?thesis using p by (auto simp: dist_is_def)
qed

text \<open>What the table says of the way from a node to another one.\<close>

definition route_ok :: "'d net_t \<Rightarrow> net_routing_table_t \<Rightarrow> nat \<Rightarrow> nat \<Rightarrow> bool" where
  "route_ok nt rt i j \<longleftrightarrow>
     (if (i, j) \<in> (edges nt)\<^sup>* then \<exists>d b. b \<in> set (nn_output_buffer_list (node_at nt i)) \<and>
        ent rt i j = \<lparr>re_cost = int (Suc d), re_next_node = Some (dst_of nt b), re_output_buffer = Some b\<rparr> \<and>
        dist_is (edges nt) i j (Suc d) \<and> dist_is (edges nt) (dst_of nt b) j d
      else ent rt i j = \<lparr>re_cost = int (net_node_count nt), re_next_node = None, re_output_buffer = None\<rparr>)"

lemma route_entry_ok:
  assumes topo: "topo_ok nt" and n: "n = net_node_count nt" and inv: "fw_inv (edges nt) n n M"
    and ij: "i < n" "j < n" "i \<noteq> j" and re: "route_entry nt M i j (ent rt i j)"
  shows "route_ok nt rt i j"
proof -
  have E: "edges nt \<subseteq> {..<n} \<times> {..<n}" using edges_out [OF topo] n by auto
  note D = fw_invD [OF inv ij(1,2)]
  show ?thesis
  proof (cases "(i, j) \<in> (edges nt)\<^sup>*")
    case True
    from short_path [OF True ij(3) E] obtain p where p: "0 < p" "p < n" "dist_is (edges nt) i j p" by blast
    have le: "re_cost (M i j) \<le> int p"
      by (rule fw_dist [OF inv E ij(1,2) _ p(1)]) (use p(3) in \<open>simp add: dist_is_def\<close>)
    have s: "re_next_node (M i j) \<noteq> None" using D(3) ij(3) le p(2) by auto
    have "\<not> nat (re_cost (M i j)) < p" using D(6) [OF s] p(3) by (auto simp: dist_is_def)
    with le D(1) have c: "re_cost (M i j) = int p" by linarith
    from re s obtain b where b: "b \<in> set (nn_output_buffer_list (node_at nt i))" "re_output_buffer (ent rt i j) = Some b"
        "re_next_node (ent rt i j) = Some (dst_of nt b)" "first_hop M i j (dst_of nt b)" "re_cost (ent rt i j) = int p"
      by (auto simp: route_entry_def c)
    let ?h = "dst_of nt b"
    have h: "?h < n" "(i, ?h) \<in> edges nt" using buffer_link_out(2,3) [OF topo _ b(1)] ij(1) n by simp_all
    obtain d where d: "p = Suc d" using p(1) by (cases p) auto
    have far: "(?h, j) \<notin> edges nt ^^ q" if "q < d" for q
    proof
      assume "(?h, j) \<in> edges nt ^^ q"
      with h(2) have "(i, j) \<in> edges nt ^^ Suc q" by (rule relpow_Suc_I2)
      with that p(3) d show False by (auto simp: dist_is_def simp del: relpow.simps)
    qed
    have "(?h, j) \<in> edges nt ^^ d"
    proof (cases "?h = j")
      case True
      with b(4) c d show ?thesis by (simp add: first_hop_def)
    next
      case False
      with b(4) have x: "re_next_node (M ?h j) \<noteq> None" "1 + re_cost (M ?h j) \<le> int p" by (auto simp: first_hop_def c)
      note y = fw_invD(5,6) [OF inv h(1) ij(2) x(1)]
      from far y(2) have "\<not> nat (re_cost (M ?h j)) < d" by blast
      then have "nat (re_cost (M ?h j)) = d" using x(2) d y(1) by simp
      with y(2) show ?thesis by simp
    qed
    then have "dist_is (edges nt) ?h j d" using far by (simp add: dist_is_def)
    moreover have "ent rt i j = \<lparr>re_cost = int (Suc d), re_next_node = Some ?h, re_output_buffer = Some b\<rparr>"
      using b d by (intro net_routing_table_entry_t.equality) simp_all
    ultimately have "\<exists>d b. b \<in> set (nn_output_buffer_list (node_at nt i)) \<and>
        ent rt i j = \<lparr>re_cost = int (Suc d), re_next_node = Some (dst_of nt b), re_output_buffer = Some b\<rparr> \<and>
        dist_is (edges nt) i j (Suc d) \<and> dist_is (edges nt) (dst_of nt b) j d"
      using b(1) p(3) unfolding d by blast
    with True show ?thesis by (simp add: route_ok_def)
  next
    case False
    have "re_next_node (M i j) = None"
    proof (rule ccontr)
      assume "re_next_node (M i j) \<noteq> None"
      from D(6) [OF this] have "(i, j) \<in> (edges nt)\<^sup>*" by (rule relpow_imp_rtrancl)
      with False show False ..
    qed
    with re D(3) ij(3) n show ?thesis using False by (simp add: route_entry_def route_ok_def)
  qed
qed

text \<open>
  A table in use: entries name output buffers of their own node, and the next node is where the
  buffer leads. Both the shortest path loops and explicit routes leave such a table.
\<close>

definition table_ok :: "'d net_t \<Rightarrow> net_routing_table_t \<Rightarrow> bool" where
  "table_ok nt rt \<longleftrightarrow> rt_ok rt \<and> rt_dim rt = net_node_count nt \<and>
     (\<forall>i < net_node_count nt. \<forall>j < net_node_count nt. \<forall>b. re_output_buffer (ent rt i j) = Some b \<longrightarrow>
        b \<in> set (nn_output_buffer_list (node_at nt i)) \<and> re_next_node (ent rt i j) = Some (dst_of nt b))"

lemma routes_computed:
  assumes topo: "topo_ok nt" and rt: "rt_ok rt" "rt_dim rt = net_node_count nt"
    and hop: "\<forall>i < net_node_count nt. \<forall>j < net_node_count nt. hop_entry nt i j (ent rt i j)"
  shows "\<exists>r0 r1 r2. let n = net_node_count nt in
    res_fold (\<lambda>k. res_fold (\<lambda>i. res_fold (fw_step k i) [0..<n]) [0..<n]) [0..<n] rt = Inr r0 \<and>
    ropt_fold (\<lambda>i. ropt_fold (set_output nt i) [0..<n]) [0..<n] r0 = Some (Inr r1) \<and>
    res_fold (\<lambda>i. res_fold (set_next nt i) [0..<n]) [0..<n] r1 = Inr r2 \<and>
    table_ok nt r2 \<and> rt_has_cycle r2 = rt_has_cycle rt \<and>
    (\<forall>i < n. \<forall>j < n. i \<noteq> j \<longrightarrow> route_ok nt r2 i j)"
proof -
  let ?n = "net_node_count nt"
  have E: "edges nt \<subseteq> {..<?n} \<times> {..<?n}" using edges_out [OF topo] by auto
  from fw_loops [OF rt fw_inv_start [OF topo hop] E] obtain r0 where
    r0: "res_fold (\<lambda>k. res_fold (\<lambda>i. res_fold (fw_step k i) [0..<?n]) [0..<?n]) [0..<?n] rt = Inr r0"
      "rt_ok r0" "rt_dim r0 = ?n" "rt_has_cycle r0 = rt_has_cycle rt" "fw_inv (edges nt) ?n ?n (ent r0)" by blast
  from output_loops [OF topo refl r0(5,2,3)] obtain r1 r2 where
    r2: "ropt_fold (\<lambda>i. ropt_fold (set_output nt i) [0..<?n]) [0..<?n] r0 = Some (Inr r1)"
      "res_fold (\<lambda>i. res_fold (set_next nt i) [0..<?n]) [0..<?n] r1 = Inr r2" "rt_ok r2" "rt_dim r2 = ?n"
      "rt_has_cycle r2 = rt_has_cycle r0" "\<And>i j. i < ?n \<Longrightarrow> j < ?n \<Longrightarrow> route_entry nt (ent r0) i j (ent r2 i j)" by blast
  have "table_ok nt r2"
    unfolding table_ok_def
  proof (intro conjI allI impI)
    fix i j b assume *: "i < ?n" "j < ?n" "re_output_buffer (ent r2 i j) = Some b"
    from r2(6) [OF *(1,2)] *(3) show "b \<in> set (nn_output_buffer_list (node_at nt i))"
      "re_next_node (ent r2 i j) = Some (dst_of nt b)"
      by (auto simp: route_entry_def split: if_splits)
  qed (use r2 in simp_all)
  moreover have "route_ok nt r2 i j" if "i < ?n" "j < ?n" "i \<noteq> j" for i j
    by (rule route_entry_ok [OF topo refl r0(5) that r2(6) [OF that(1,2)]])
  ultimately show ?thesis using r0 r2 by (auto simp: Let_def)
qed

text \<open>Following the next nodes reaches the destination along a shortest path.\<close>

lemma follow_routes:
  assumes topo: "topo_ok nt" and tab: "table_ok nt rt"
    and route: "\<And>i j. i < net_node_count nt \<Longrightarrow> j < net_node_count nt \<Longrightarrow> i \<noteq> j \<Longrightarrow> route_ok nt rt i j"
    and j: "j < net_node_count nt"
  shows "i < net_node_count nt \<Longrightarrow> dist_is (edges nt) i j d \<Longrightarrow>
    \<exists>ns. dump_route rt i j = Some (Inr (ns, True)) \<and> length ns = d"
proof (induction d arbitrary: i)
  case 0
  then show ?case by (simp add: dist_is_def dump_route.simps)
next
  case (Suc d)
  have ne: "i \<noteq> j" using Suc.prems(2) by (auto simp: dist_is_def)
  have "(i, j) \<in> (edges nt)\<^sup>*" using Suc.prems(2) unfolding dist_is_def by (blast intro: relpow_imp_rtrancl)
  with route [OF Suc.prems(1) j ne] obtain d' b where
    r: "b \<in> set (nn_output_buffer_list (node_at nt i))" "re_next_node (ent rt i j) = Some (dst_of nt b)"
       "dist_is (edges nt) i j (Suc d')" "dist_is (edges nt) (dst_of nt b) j d'" by (auto simp: route_ok_def)
  have "d' = d"
    using r(3) Suc.prems(2) unfolding dist_is_def by (metis Suc_less_eq linorder_neqE_nat)
  with Suc.IH [of "dst_of nt b"] r buffer_link_out(2) [OF topo Suc.prems(1) r(1)] obtain ns where
    ns: "dump_route rt (dst_of nt b) j = Some (Inr (ns, True))" "length ns = d" by blast
  have "net_routing_table_lookup rt i j = Inr (i * rt_dim rt + j)"
    using tab Suc.prems(1) j by (simp add: lookup_ok table_ok_def)
  with ne r(2) ns show ?case by (simp add: dump_route.simps [of rt i])
qed

end
