(* ===== verification/Net_Cycles.thy ===== *)
theory Net_Cycles
  imports Net_Paths
begin

text \<open>
  Cycles in the routing table (\<open>src/network/routing-table.c\<close>): the depth-first search over the
  output buffers returns, and finds a cycle exactly if the routes make buffers wait for each
  other in a circle. With it the complete operations on the table are characterised.
\<close>

section \<open>Dependences between buffers\<close>

text \<open>A message in buffer \<open>b\<close> on its way to \<open>j\<close> needs buffer \<open>b'\<close> next.\<close>

definition dep :: "'d net_t \<Rightarrow> net_routing_table_t \<Rightarrow> (nat \<times> nat) set" where
  "dep nt rt = {(b, b') | b b' j. nb_node (buffer_at nt b) < net_node_count nt \<and> j < net_node_count nt \<and>
     re_output_buffer (ent rt (nb_node (buffer_at nt b)) j) = Some b \<and>
     re_output_buffer (ent rt (dst_of nt b) j) = Some b'}"

definition all_outputs :: "'d net_t \<Rightarrow> nat list" where
  "all_outputs nt = output_buffers nt (net_node_count nt)"

lemma set_outputs: "set (all_outputs nt) = {b. \<exists>n < net_node_count nt. b \<in> set (nn_output_buffer_list (node_at nt n))}"
  by (auto simp: all_outputs_def output_buffers_def)

lemma distinct_node_outputs:
  assumes "topo_ok nt" "n < net_node_count nt"
  shows "distinct (nn_output_buffer_list (node_at nt n))"
proof -
  have "nb_index (buffer_at nt (nn_output_buffer_list (node_at nt n) ! i)) = i"
    if "i < length (nn_output_buffer_list (node_at nt n))" for i
    using assms that by (simp add: topo_ok_def node_ok_def out_ok_def Let_def)
  then show ?thesis unfolding distinct_conv_nth by metis
qed

lemma distinct_outputs:
  assumes "topo_ok nt"
  shows "distinct (all_outputs nt)"
proof -
  have "m \<le> net_node_count nt \<Longrightarrow> distinct (output_buffers nt m) \<and>
      set (output_buffers nt m) = {b. \<exists>n < m. b \<in> set (nn_output_buffer_list (node_at nt n))}" for m
  proof (induction m)
    case (Suc m)
    have "b \<notin> set (nn_output_buffer_list (node_at nt n))"
      if "n < m" "b \<in> set (nn_output_buffer_list (node_at nt m))" for n b
      using topo_outD(2) [OF assms _ that(2)] topo_outD(2) [OF assms, of n b] that(1) Suc.prems by auto
    with Suc distinct_node_outputs [OF assms, of m] show ?case
      by (auto simp: output_buffers_def less_Suc_eq)
  qed (simp add: output_buffers_def)
  then show ?thesis by (simp add: all_outputs_def)
qed

lemma dep_outputs:
  assumes topo: "topo_ok nt" and tab: "table_ok nt rt" and "(b, b') \<in> dep nt rt"
  shows "b \<in> set (all_outputs nt)" "b' \<in> set (all_outputs nt)" "nb_node (buffer_at nt b') = dst_of nt b"
proof -
  from assms(3) obtain j where j: "nb_node (buffer_at nt b) < net_node_count nt" "j < net_node_count nt"
     "re_output_buffer (ent rt (nb_node (buffer_at nt b)) j) = Some b"
     "re_output_buffer (ent rt (dst_of nt b) j) = Some b'" by (auto simp: dep_def)
  have b: "b \<in> set (nn_output_buffer_list (node_at nt (nb_node (buffer_at nt b))))"
    using tab j(1-3) by (simp add: table_ok_def)
  note d = buffer_link_out(2) [OF topo j(1) b]
  have b': "b' \<in> set (nn_output_buffer_list (node_at nt (dst_of nt b)))"
    using tab d j(2,4) by (simp add: table_ok_def)
  show "nb_node (buffer_at nt b') = dst_of nt b" by (rule topo_outD(2) [OF topo d b'])
  show "b \<in> set (all_outputs nt)" "b' \<in> set (all_outputs nt)" using b b' j(1) d by (auto simp: set_outputs)
qed

lemma dep_irrefl:
  assumes topo: "topo_ok nt" and tab: "table_ok nt rt" and no_self: "\<And>n. (n, n) \<notin> edges nt"
  shows "(b, b) \<notin> dep nt rt"
proof
  assume d: "(b, b) \<in> dep nt rt"
  note o = dep_outputs [OF topo tab d]
  from o(1) obtain n where n: "n < net_node_count nt" "b \<in> set (nn_output_buffer_list (node_at nt n))"
    by (auto simp: set_outputs)
  from buffer_link_out(3) [OF topo n] topo_outD(2) [OF topo n] o(3) no_self show False by simp
qed

section \<open>The search\<close>

text \<open>The dependences between positions in the list of buffers.\<close>

definition adj :: "'d net_t \<Rightarrow> net_routing_table_t \<Rightarrow> (nat \<times> nat) set" where
  "adj nt rt = {(x, y). x < length (all_outputs nt) \<and> y < length (all_outputs nt) \<and>
     (all_outputs nt ! x, all_outputs nt ! y) \<in> dep nt rt}"

definition with_color :: "net_node_color \<Rightarrow> dfs_t \<Rightarrow> nat set" where
  "with_color c s = {x. x < length (dfs_color s) \<and> dfs_color s ! x = c}"

definition closed :: "(nat \<times> nat) set \<Rightarrow> dfs_t \<Rightarrow> bool" where
  "closed A s \<longleftrightarrow> (\<forall>x \<in> with_color NET_NODE_COLOR_BLACK s.
     (x, x) \<notin> A\<^sup>+ \<and> (\<forall>y. (x, y) \<in> A \<longrightarrow> y \<in> with_color NET_NODE_COLOR_BLACK s))"

definition dfs_ok :: "(nat \<times> nat) set \<Rightarrow> nat list \<Rightarrow> dfs_t \<Rightarrow> bool" where
  "dfs_ok A bs s \<longleftrightarrow> length (dfs_color s) = length bs \<and> length (dfs_parent s) = length bs \<and>
     (if dfs_has_cycle s then \<exists>x. (x, x) \<in> A\<^sup>+ else closed A s)"

definition grow :: "dfs_t \<Rightarrow> dfs_t \<Rightarrow> bool" where
  "grow s s' \<longleftrightarrow> with_color NET_NODE_COLOR_WHITE s' \<subseteq> with_color NET_NODE_COLOR_WHITE s \<and>
     with_color NET_NODE_COLOR_GRAY s' = with_color NET_NODE_COLOR_GRAY s \<and>
     length (dfs_color s') = length (dfs_color s) \<and>
     (\<forall>x < length (dfs_color s). x \<notin> with_color NET_NODE_COLOR_WHITE s \<or> x \<in> with_color NET_NODE_COLOR_WHITE s' \<longrightarrow>
        dfs_parent s' ! x = dfs_parent s ! x) \<and>
     (dfs_has_cycle s \<longrightarrow> dfs_has_cycle s')"

lemma grow_refl [simp]: "grow s s"
  by (simp add: grow_def)

lemma grow_trans: "grow s t \<Longrightarrow> grow t u \<Longrightarrow> grow s u"
proof -
  assume g: "grow s t" "grow t u"
  then have "with_color NET_NODE_COLOR_WHITE t \<subseteq> with_color NET_NODE_COLOR_WHITE s"
    "with_color NET_NODE_COLOR_WHITE u \<subseteq> with_color NET_NODE_COLOR_WHITE t" by (simp_all add: grow_def)
  with g show "grow s u" unfolding grow_def by auto
qed

lemma grow_black: "grow s t \<Longrightarrow> with_color NET_NODE_COLOR_BLACK s \<subseteq> with_color NET_NODE_COLOR_BLACK t"
proof
  fix x assume g: "grow s t" and x: "x \<in> with_color NET_NODE_COLOR_BLACK s"
  then have "x < length (dfs_color t)" "x \<notin> with_color NET_NODE_COLOR_WHITE s" "x \<notin> with_color NET_NODE_COLOR_GRAY s"
    by (auto simp: with_color_def grow_def)
  with g have "x < length (dfs_color t)" "x \<notin> with_color NET_NODE_COLOR_WHITE t" "x \<notin> with_color NET_NODE_COLOR_GRAY t"
    by (auto simp: grow_def)
  then show "x \<in> with_color NET_NODE_COLOR_BLACK t" by (cases "dfs_color t ! x") (auto simp: with_color_def)
qed

text \<open>What a call on a white buffer finds: the gray ones are those on the way to it.\<close>

definition visit_pre :: "(nat \<times> nat) set \<Rightarrow> nat list \<Rightarrow> nat \<Rightarrow> dfs_t \<Rightarrow> bool" where
  "visit_pre A bs e s \<longleftrightarrow> dfs_ok A bs s \<and> e \<in> with_color NET_NODE_COLOR_WHITE s \<and>
     (\<forall>g \<in> with_color NET_NODE_COLOR_GRAY s. (g, e) \<in> A\<^sup>+ \<and>
        dfs_parent s ! g \<in> (!) bs ` with_color NET_NODE_COLOR_GRAY s) \<and>
     dfs_parent s ! e \<in> (!) bs ` insert e (with_color NET_NODE_COLOR_GRAY s)"

lemma with_color_set:
  assumes "e < length (dfs_color s)"
  shows "with_color c (s\<lparr>dfs_color := (dfs_color s)[e := c']\<rparr>) =
    (if c = c' then insert e (with_color c s) else with_color c s - {e})"
  using assms by (auto simp: with_color_def nth_list_update)

lemma dfs_adj_ok:
  assumes visit: "\<And>s. visit_pre A bs i s \<Longrightarrow> with_color NET_NODE_COLOR_WHITE s \<subseteq> W \<Longrightarrow>
      \<exists>s'. visit i s = Some (Inr s') \<and> dfs_ok A bs s' \<and> grow s s' \<and> i \<in> with_color NET_NODE_COLOR_BLACK s'"
    and s: "dfs_ok A bs s" "with_color NET_NODE_COLOR_WHITE s \<subseteq> W" "e \<in> with_color NET_NODE_COLOR_GRAY s"
    and way: "\<And>g. g \<in> with_color NET_NODE_COLOR_GRAY s \<Longrightarrow> g \<noteq> e \<Longrightarrow> (g, e) \<in> A\<^sup>+ \<and>
        dfs_parent s ! g \<in> (!) bs ` (with_color NET_NODE_COLOR_GRAY s - {e})"
    and par: "dfs_parent s ! e \<in> (!) bs ` with_color NET_NODE_COLOR_GRAY s"
    and i: "(e, i) \<in> A" "e \<noteq> i" "i < length bs" and bs: "distinct bs"
  shows "\<exists>s'. dfs_adj visit (bs ! e) i s = Some (Inr s') \<and> dfs_ok A bs s' \<and> grow s s' \<and>
    (dfs_has_cycle s' \<or> i \<in> with_color NET_NODE_COLOR_BLACK s')"
proof (cases "dfs_color s ! i")
  case NET_NODE_COLOR_WHITE
  let ?t = "s\<lparr>dfs_parent := (dfs_parent s)[i := bs ! e]\<rparr>"
  have len: "length (dfs_color s) = length bs" "length (dfs_parent s) = length bs" using s(1) by (simp_all add: dfs_ok_def)
  have wc: "with_color c ?t = with_color c s" for c by (simp add: with_color_def)
  have iw: "i \<in> with_color NET_NODE_COLOR_WHITE s" using NET_NODE_COLOR_WHITE i(3) len by (simp add: with_color_def)
  have e: "e < length bs" using s(3) len by (simp add: with_color_def)
  have gi: "g \<in> with_color NET_NODE_COLOR_GRAY s \<Longrightarrow> g \<noteq> i" for g using iw by (auto simp: with_color_def)
  have "visit_pre A bs i ?t"
    unfolding visit_pre_def wc
  proof (intro conjI ballI)
    show "dfs_ok A bs ?t" using s(1) by (auto simp: dfs_ok_def closed_def wc split: if_splits)
    show "dfs_parent ?t ! i \<in> (!) bs ` insert i (with_color NET_NODE_COLOR_GRAY s)"
      using s(3) len i(3) by auto
    fix g assume g: "g \<in> with_color NET_NODE_COLOR_GRAY s"
    show "(g, i) \<in> A\<^sup>+" using way [OF g] i(1) by (cases "g = e") (blast intro: trancl_into_trancl)+
    show "dfs_parent ?t ! g \<in> (!) bs ` with_color NET_NODE_COLOR_GRAY s"
      using way [OF g] par gi [OF g] by (cases "g = e") auto
  qed (rule iw)
  from visit [OF this] s(2) wc obtain s' where
    s': "visit i ?t = Some (Inr s')" "dfs_ok A bs s'" "grow ?t s'" "i \<in> with_color NET_NODE_COLOR_BLACK s'" by auto
  have "i \<notin> with_color NET_NODE_COLOR_WHITE s'" using s'(4) by (auto simp: with_color_def)
  then have "(dfs_parent s)[i := bs ! e] ! x = dfs_parent s ! x"
    if "x \<notin> with_color NET_NODE_COLOR_WHITE s \<or> x \<in> with_color NET_NODE_COLOR_WHITE s'" for x
    using that iw by (cases "x = i") auto
  then have "grow s s'"
    using s'(3) unfolding grow_def wc by simp
  moreover have "dfs_adj visit (bs ! e) i s = Some (Inr s')"
    using NET_NODE_COLOR_WHITE s'(1,4) by (simp add: dfs_adj_def with_color_def)
  ultimately show ?thesis using s' by auto
next
  case NET_NODE_COLOR_GRAY
  then have ig: "i \<in> with_color NET_NODE_COLOR_GRAY s" using i(3) s(1) by (simp add: with_color_def dfs_ok_def)
  note w = way [OF ig i(2) [symmetric]]
  have "dfs_parent s ! i \<noteq> bs ! e"
    using w s(1,3) bs by (auto simp: with_color_def dfs_ok_def nth_eq_iff_index_eq)
  then have "dfs_adj visit (bs ! e) i s = Some (Inr (s\<lparr>dfs_has_cycle := True\<rparr>))"
    using NET_NODE_COLOR_GRAY by (simp add: dfs_adj_def)
  moreover have "(i, i) \<in> A\<^sup>+" using w i(1) by (metis trancl.trancl_into_trancl)
  then have "dfs_ok A bs (s\<lparr>dfs_has_cycle := True\<rparr>)" using s(1) by (auto simp: dfs_ok_def)
  moreover have "grow s (s\<lparr>dfs_has_cycle := True\<rparr>)" by (simp add: grow_def with_color_def)
  ultimately show ?thesis by auto
next
  case NET_NODE_COLOR_BLACK
  with i(3) s(1) show ?thesis by (auto simp: dfs_adj_def with_color_def dfs_ok_def)
qed


lemma dfs_dst_ok:
  assumes topo: "topo_ok nt" and tab: "table_ok nt rt" and bs: "bs = all_outputs nt"
    and A: "A = adj nt rt" and irr: "\<And>x. (x, x) \<notin> A"
    and visit: "\<And>i s. visit_pre A bs i s \<Longrightarrow> with_color NET_NODE_COLOR_WHITE s \<subseteq> W \<Longrightarrow>
      \<exists>s'. visit i s = Some (Inr s') \<and> dfs_ok A bs s' \<and> grow s s' \<and> i \<in> with_color NET_NODE_COLOR_BLACK s'"
    and s: "dfs_ok A bs s" "with_color NET_NODE_COLOR_WHITE s \<subseteq> W" "e \<in> with_color NET_NODE_COLOR_GRAY s"
    and way: "\<And>g. g \<in> with_color NET_NODE_COLOR_GRAY s \<Longrightarrow> g \<noteq> e \<Longrightarrow> (g, e) \<in> A\<^sup>+ \<and>
        dfs_parent s ! g \<in> (!) bs ` (with_color NET_NODE_COLOR_GRAY s - {e})"
    and par: "dfs_parent s ! e \<in> (!) bs ` with_color NET_NODE_COLOR_GRAY s"
    and j: "j < net_node_count nt"
  shows "\<exists>s'. dfs_dst visit rt bs (bs ! e) (nb_node (buffer_at nt (bs ! e))) j s = Some (Inr s') \<and>
    dfs_ok A bs s' \<and> grow s s' \<and> (dfs_has_cycle s' \<or>
      (\<forall>y < length bs. re_output_buffer (ent rt (nb_node (buffer_at nt (bs ! e))) j) = Some (bs ! e) \<longrightarrow>
        re_output_buffer (ent rt (dst_of nt (bs ! e)) j) = Some (bs ! y) \<longrightarrow> y \<in> with_color NET_NODE_COLOR_BLACK s'))"
proof (cases "dfs_has_cycle s \<or> re_output_buffer (ent rt (nb_node (buffer_at nt (bs ! e))) j) \<noteq> Some (bs ! e)")
  case True
  have e: "e < length bs" using s(1,3) by (simp add: with_color_def dfs_ok_def)
  then obtain n where n: "n < net_node_count nt" "bs ! e \<in> set (nn_output_buffer_list (node_at nt n))"
    using nth_mem [OF e] unfolding bs by (auto simp: set_outputs)
  have "net_routing_table_lookup rt (nb_node (buffer_at nt (bs ! e))) j = Inr (n * rt_dim rt + j)"
    using topo_outD(2) [OF topo n] n(1) j tab by (simp add: table_ok_def lookup_ok)
  with True topo_outD(2) [OF topo n] s(1) show ?thesis by (auto simp: dfs_dst_def)
next
  case False
  have e: "e < length bs" using s(1,3) by (simp add: with_color_def dfs_ok_def)
  then obtain n where n: "n < net_node_count nt" "bs ! e \<in> set (nn_output_buffer_list (node_at nt n))"
    using nth_mem [OF e] unfolding bs by (auto simp: set_outputs)
  have nb: "nb_node (buffer_at nt (bs ! e)) = n" by (rule topo_outD(2) [OF topo n])
  let ?h = "dst_of nt (bs ! e)"
  have h: "?h < net_node_count nt" by (rule buffer_link_out(2) [OF topo n])
  have out: "re_output_buffer (ent rt n j) = Some (bs ! e)" using False nb by simp
  then have nxt: "re_next_node (ent rt n j) = Some ?h" using tab n(1) j by (simp add: table_ok_def)
  have lk: "net_routing_table_lookup rt n j = Inr (n * rt_dim rt + j)"
    "net_routing_table_lookup rt ?h j = Inr (?h * rt_dim rt + j)"
    using n(1) j h tab by (simp_all add: table_ok_def lookup_ok)
  let ?o = "re_output_buffer (ent rt ?h j)"
  let ?f = "\<lambda>i s. if Some (bs ! i) = ?o then dfs_adj visit (bs ! e) i s else Some (Inr s)"
  have edge: "(e, i) \<in> A" if "i < length bs" "Some (bs ! i) = ?o" for i
    using that e n(1) nb out j unfolding A adj_def dep_def by (auto simp: bs)
  let ?Q = "\<lambda>k t. dfs_ok A bs t \<and> grow s t \<and>
     (dfs_has_cycle t \<or> (\<forall>i < k. Some (bs ! i) = ?o \<longrightarrow> i \<in> with_color NET_NODE_COLOR_BLACK t))"
  have "\<exists>s'. ropt_fold ?f [0..<length bs] s = Some (Inr s') \<and> ?Q (length [0..<length bs]) s'"
  proof (rule ropt_fold_inv [where Q = ?Q])
    fix i t assume "i < length [0..<length bs]" and t: "?Q i t"
    then have i: "i < length bs" by simp
    have g: "with_color NET_NODE_COLOR_GRAY t = with_color NET_NODE_COLOR_GRAY s"
      "with_color NET_NODE_COLOR_WHITE t \<subseteq> with_color NET_NODE_COLOR_WHITE s" using t by (simp_all add: grow_def)
    have p: "dfs_parent t ! x = dfs_parent s ! x" if "x \<in> with_color NET_NODE_COLOR_GRAY s" for x
      using t that by (auto simp: grow_def with_color_def)
    show "\<exists>s'. ?f ([0..<length bs] ! i) t = Some (Inr s') \<and> ?Q (Suc i) s'"
    proof (cases "Some (bs ! i) = ?o")
      case False
      with t i show ?thesis by (auto simp: less_Suc_eq)
    next
      case True
      have "\<exists>s'. dfs_adj visit (bs ! e) i t = Some (Inr s') \<and> dfs_ok A bs s' \<and> grow t s' \<and>
        (dfs_has_cycle s' \<or> i \<in> with_color NET_NODE_COLOR_BLACK s')"
      proof (rule dfs_adj_ok [where W = W])
        show "with_color NET_NODE_COLOR_WHITE t \<subseteq> W" using g(2) s(2) by blast
        show "distinct bs" using distinct_outputs [OF topo] bs by simp
        show "(e, i) \<in> A" "e \<noteq> i" using edge [OF i True] irr by auto
      qed (use t g p s way par i visit in auto)
      then obtain s' where s': "dfs_adj visit (bs ! e) i t = Some (Inr s')" "dfs_ok A bs s'" "grow t s'"
        "dfs_has_cycle s' \<or> i \<in> with_color NET_NODE_COLOR_BLACK s'" by blast
      have "grow s s'" using t s'(3) grow_trans by blast
      moreover have "dfs_has_cycle s' \<or> (\<forall>k < Suc i. Some (bs ! k) = ?o \<longrightarrow> k \<in> with_color NET_NODE_COLOR_BLACK s')"
        using t s'(3,4) grow_black [OF s'(3)] by (auto simp: less_Suc_eq grow_def)
      ultimately show ?thesis using s' i True by auto
    qed
  qed (use s in simp)
  then show ?thesis
    using False lk nxt out nb by (auto simp: dfs_dst_def)
qed


lemma closed_star:
  assumes "closed A s" "x \<in> with_color NET_NODE_COLOR_BLACK s" "(x, y) \<in> A\<^sup>*"
  shows "y \<in> with_color NET_NODE_COLOR_BLACK s"
  using assms(3,2) assms(1) by (induction rule: rtrancl_induct) (auto simp: closed_def)

lemma visit_ok:
  assumes topo: "topo_ok nt" and tab: "table_ok nt rt" and bs: "bs = all_outputs nt"
    and A: "A = adj nt rt" and irr: "\<And>x. (x, x) \<notin> A"
  shows "visit_pre A bs e s \<Longrightarrow>
    \<exists>s'. routing_table_cycle_detection_dfs_visit nt rt bs e s = Some (Inr s') \<and> dfs_ok A bs s' \<and> grow s s' \<and>
      e \<in> with_color NET_NODE_COLOR_BLACK s'"
proof (induction "card (with_color NET_NODE_COLOR_WHITE s)" arbitrary: e s rule: less_induct)
  case less
  let ?W = "with_color NET_NODE_COLOR_WHITE" and ?G = "with_color NET_NODE_COLOR_GRAY"
    and ?B = "with_color NET_NODE_COLOR_BLACK" and ?v = "routing_table_cycle_detection_dfs_visit nt rt bs"
  let ?s0 = "s\<lparr>dfs_color := (dfs_color s)[e := NET_NODE_COLOR_GRAY]\<rparr>"
  have pre: "dfs_ok A bs s" "e \<in> ?W s" using less.prems by (simp_all add: visit_pre_def)
  then have len: "e < length (dfs_color s)" "length (dfs_color s) = length bs" by (simp_all add: with_color_def dfs_ok_def)
  have eg: "e \<notin> ?G s" "e \<notin> ?B s" using pre(2) by (auto simp: with_color_def)
  have c0: "?W ?s0 = ?W s - {e}" "?G ?s0 = insert e (?G s)" "?B ?s0 = ?B s"
    using eg by (simp_all add: with_color_set [OF len(1)])
  have ok0: "dfs_ok A bs ?s0" using pre(1) c0(3) by (auto simp: dfs_ok_def closed_def split: if_splits)
  have "finite (?W s)" by (simp add: with_color_def)
  then have small: "card (?W t) < card (?W s)" if "?W t \<subseteq> ?W ?s0" for t
    using that pre(2) c0(1) by (intro psubset_card_mono) auto
  let ?d = "dfs_dst ?v rt bs (bs ! e) (nb_node (buffer_at nt (bs ! e)))"
  let ?done = "\<lambda>j t. \<forall>y < length bs. re_output_buffer (ent rt (nb_node (buffer_at nt (bs ! e))) j) = Some (bs ! e) \<longrightarrow>
        re_output_buffer (ent rt (dst_of nt (bs ! e)) j) = Some (bs ! y) \<longrightarrow> y \<in> ?B t"
  let ?Q = "\<lambda>k t. dfs_ok A bs t \<and> grow ?s0 t \<and> (dfs_has_cycle t \<or> (\<forall>j < k. ?done j t))"
  have "\<exists>t. ropt_fold ?d [0..<rt_dim rt] ?s0 = Some (Inr t) \<and> ?Q (length [0..<rt_dim rt]) t"
  proof (rule ropt_fold_inv [where Q = ?Q])
    fix j t assume j: "j < length [0..<rt_dim rt]" and t: "?Q j t"
    then have jn: "j < net_node_count nt" using tab by (simp add: table_ok_def)
    have g: "?G t = insert e (?G s)" "?W t \<subseteq> ?W ?s0" using t c0(2) by (simp_all add: grow_def)
    have p: "dfs_parent t ! x = dfs_parent s ! x" if "x \<in> insert e (?G s)" for x
    proof -
      have "x < length (dfs_color ?s0)" "x \<notin> ?W ?s0"
        using that len(1) by (auto simp: c0(1)) (auto simp: with_color_def)
      with t show ?thesis by (auto simp: grow_def)
    qed
    have "\<exists>t'. ?d j t = Some (Inr t') \<and> dfs_ok A bs t' \<and> grow t t' \<and> (dfs_has_cycle t' \<or> ?done j t')"
    proof (rule dfs_dst_ok [OF topo tab bs A irr, where W = "?W ?s0"])
      fix i u assume "visit_pre A bs i u" "?W u \<subseteq> ?W ?s0"
      from less.hyps [OF small [OF this(2)] this(1)]
      show "\<exists>u'. ?v i u = Some (Inr u') \<and> dfs_ok A bs u' \<and> grow u u' \<and> i \<in> ?B u'" .
    next
      fix x assume "x \<in> ?G t" "x \<noteq> e"
      then have x: "x \<in> ?G s" using g by simp
      with less.prems have "(x, e) \<in> A\<^sup>+" "dfs_parent s ! x \<in> (!) bs ` ?G s" by (simp_all add: visit_pre_def)
      moreover have "?G t - {e} = ?G s" using g(1) eg(1) by simp
      ultimately show "(x, e) \<in> A\<^sup>+ \<and> dfs_parent t ! x \<in> (!) bs ` (?G t - {e})" using p [of x] x by simp
    next
      show "dfs_parent t ! e \<in> (!) bs ` ?G t"
        using less.prems p [of e] unfolding g(1) by (simp add: visit_pre_def)
    qed (use t g jn in auto)
    then obtain t' where t': "?d j t = Some (Inr t')" "dfs_ok A bs t'" "grow t t'" "dfs_has_cycle t' \<or> ?done j t'" by blast
    have "grow ?s0 t'" using t t'(3) grow_trans by blast
    moreover have "dfs_has_cycle t' \<or> (\<forall>k < Suc j. ?done k t')"
    proof (cases "dfs_has_cycle t'")
      case False
      then have "\<not> dfs_has_cycle t" using t'(3) by (auto simp: grow_def)
      then have "\<forall>k < j. ?done k t'" using t grow_black [OF t'(3)] by blast
      with False t'(4) show ?thesis by (auto simp: less_Suc_eq)
    qed simp
    ultimately show "\<exists>t'. ?d ([0..<rt_dim rt] ! j) t = Some (Inr t') \<and> ?Q (Suc j) t'" using t' j by auto
  qed (use ok0 in simp)
  then obtain t where t: "ropt_fold ?d [0..<rt_dim rt] ?s0 = Some (Inr t)" "dfs_ok A bs t" "grow ?s0 t"
      "dfs_has_cycle t \<or> (\<forall>j < rt_dim rt. ?done j t)" by auto
  let ?s' = "t\<lparr>dfs_color := (dfs_color t)[e := NET_NODE_COLOR_BLACK]\<rparr>"
  have lt: "e < length (dfs_color t)" using t(3) len by (simp add: grow_def)
  have gt: "?G t = insert e (?G s)" "?W t \<subseteq> ?W s - {e}" using t(3) c0 by (simp_all add: grow_def)
  have c': "?W ?s' = ?W t - {e}" "?G ?s' = ?G s" "?B ?s' = insert e (?B t)"
    using gt eg by (auto simp: with_color_set [OF lt])
  have "grow s ?s'"
    using t(3) c' gt c0 len unfolding grow_def by auto
  moreover have "dfs_ok A bs ?s'"
  proof (cases "dfs_has_cycle t")
    case True
    with t(2) show ?thesis by (simp add: dfs_ok_def)
  next
    case False
    have cl: "closed A t" using False t(2) by (simp add: dfs_ok_def)
    have succ: "y \<in> ?B t" if "(e, y) \<in> A" for y
      using that False t(4) tab by (auto simp: A adj_def dep_def bs table_ok_def)
    have "(e, e) \<notin> A\<^sup>+"
    proof
      assume "(e, e) \<in> A\<^sup>+"
      then obtain y where "(e, y) \<in> A" "(y, e) \<in> A\<^sup>*" by (blast dest: tranclD)
      with closed_star [OF cl succ] have "e \<in> ?B t" by blast
      moreover have "e \<in> ?G t" using gt by simp
      ultimately show False by (simp add: with_color_def)
    qed
    with cl succ have "closed A ?s'" unfolding closed_def c' by blast
    with False t(2) show ?thesis by (simp add: dfs_ok_def)
  qed
  ultimately show ?case
    using t(1) c'(3) by (subst routing_table_cycle_detection_dfs_visit.simps) simp
qed


lemma detection_ok:
  assumes topo: "topo_ok nt" and tab: "table_ok nt rt" and no_self: "\<And>n. (n, n) \<notin> edges nt"
  shows "\<exists>c. net_routing_table_cycle_detection nt rt = Some (Inr (rt\<lparr>rt_has_cycle := c\<rparr>)) \<and>
    (c \<longleftrightarrow> rt_has_cycle rt \<or> (\<exists>b. (b, b) \<in> (dep nt rt)\<^sup>+))"
proof -
  let ?bs = "all_outputs nt" and ?A = "adj nt rt"
  let ?W = "with_color NET_NODE_COLOR_WHITE" and ?G = "with_color NET_NODE_COLOR_GRAY"
    and ?B = "with_color NET_NODE_COLOR_BLACK"
  let ?s0 = "\<lparr>dfs_color = replicate (length ?bs) NET_NODE_COLOR_WHITE, dfs_parent = ?bs, dfs_has_cycle = rt_has_cycle rt\<rparr>"
  let ?f = "\<lambda>i s. if \<not> dfs_has_cycle s \<and> dfs_color s ! i = NET_NODE_COLOR_WHITE
      then routing_table_cycle_detection_dfs_visit nt rt ?bs i s else Some (Inr s)"
  have bs: "output_buffers nt (rt_dim rt) = ?bs" using tab by (simp add: table_ok_def all_outputs_def)
  have irr: "(x, x) \<notin> ?A" for x using dep_irrefl [OF topo tab no_self] by (simp add: adj_def)
  have to_dep: "(?bs ! x, ?bs ! y) \<in> (dep nt rt)\<^sup>+" if "(x, y) \<in> ?A\<^sup>+" for x y
    using that by (induction rule: trancl_induct) (auto simp: adj_def intro: trancl_into_trancl)
  have from_dep: "\<exists>y < length ?bs. b' = ?bs ! y \<and> (x, y) \<in> ?A\<^sup>+"
    if "(b, b') \<in> (dep nt rt)\<^sup>+" "b = ?bs ! x" "x < length ?bs" for b b' x
    using that(1)
  proof (induction rule: trancl_induct)
    case (base c)
    with dep_outputs(2) [OF topo tab base] that(2,3) show ?case by (auto simp: adj_def in_set_conv_nth)
  next
    case (step c d)
    then obtain y where y: "y < length ?bs" "c = ?bs ! y" "(x, y) \<in> ?A\<^sup>+" by blast
    from dep_outputs(2) [OF topo tab step.hyps(2)] obtain z where z: "z < length ?bs" "d = ?bs ! z"
      by (auto simp: in_set_conv_nth)
    with y step.hyps(2) have "(y, z) \<in> ?A" by (simp add: adj_def)
    with y z show ?case by (blast intro: trancl_into_trancl)
  qed
  have cyc: "(\<exists>x. (x, x) \<in> ?A\<^sup>+) \<longleftrightarrow> (\<exists>b. (b, b) \<in> (dep nt rt)\<^sup>+)"
  proof
    assume "\<exists>b. (b, b) \<in> (dep nt rt)\<^sup>+"
    then obtain b where b: "(b, b) \<in> (dep nt rt)\<^sup>+" by blast
    then obtain c where "(b, c) \<in> dep nt rt" by (blast dest: tranclD)
    from dep_outputs(1) [OF topo tab this] obtain x where x: "x < length ?bs" "b = ?bs ! x" by (auto simp: in_set_conv_nth)
    from from_dep [OF b x(2,1)] obtain y where "y < length ?bs" "b = ?bs ! y" "(x, y) \<in> ?A\<^sup>+" by blast
    with x distinct_outputs [OF topo] show "\<exists>x. (x, x) \<in> ?A\<^sup>+" by (auto simp: nth_eq_iff_index_eq)
  qed (use to_dep in blast)
  show ?thesis
  proof (cases "rt_has_cycle rt")
    case True
    have "ropt_fold ?f [0..<m] ?s0 = Some (Inr ?s0)" for m
    proof -
      have "\<exists>s. ropt_fold ?f [0..<m] ?s0 = Some (Inr s) \<and> s = ?s0"
        by (rule ropt_fold_inv [where Q = "\<lambda>_ s. s = ?s0"]) (use True in auto)
      then show ?thesis by blast
    qed
    with True show ?thesis
      by (intro exI [of _ True]) (simp add: net_routing_table_cycle_detection_def bs Let_def)
  next
    case False
    let ?Q = "\<lambda>k s. dfs_ok ?A ?bs s \<and> ?G s = {} \<and> (\<forall>x \<in> ?W s. dfs_parent s ! x = ?bs ! x) \<and>
      (dfs_has_cycle s \<or> (\<forall>i < k. i \<in> ?B s))"
    have "\<exists>s. ropt_fold ?f [0..<length ?bs] ?s0 = Some (Inr s) \<and> ?Q (length [0..<length ?bs]) s"
    proof (rule ropt_fold_inv [where Q = ?Q])
      show "?Q 0 ?s0" using False by (auto simp: dfs_ok_def closed_def with_color_def)
    next
      fix i s assume i: "i < length [0..<length ?bs]" and s: "?Q i s"
      have ib: "i < length (dfs_color s)" using i s by (simp add: dfs_ok_def)
      show "\<exists>s'. ?f ([0..<length ?bs] ! i) s = Some (Inr s') \<and> ?Q (Suc i) s'"
      proof (cases "\<not> dfs_has_cycle s \<and> dfs_color s ! i = NET_NODE_COLOR_WHITE")
        case True
        then have "visit_pre ?A ?bs i s" using s ib by (auto simp: visit_pre_def with_color_def)
        from visit_ok [OF topo tab refl refl irr this] obtain s' where
          s': "routing_table_cycle_detection_dfs_visit nt rt ?bs i s = Some (Inr s')" "dfs_ok ?A ?bs s'" "grow s s'"
            "i \<in> ?B s'" by blast
        have "dfs_parent s' ! x = ?bs ! x" if "x \<in> ?W s'" for x
        proof -
          have "x \<in> ?W s" "x < length (dfs_color s)" using that s'(3) by (auto simp: grow_def with_color_def)
          with that s s'(3) show ?thesis by (simp add: grow_def)
        qed
        moreover have "?G s' = {}" using s s'(3) by (simp add: grow_def)
        moreover have "dfs_has_cycle s' \<or> (\<forall>k < Suc i. k \<in> ?B s')"
          using s s'(3,4) grow_black [OF s'(3)] by (auto simp: less_Suc_eq grow_def)
        ultimately show ?thesis using True s' i by auto
      next
        case False
        then have "dfs_has_cycle s \<or> i \<in> ?B s" using s ib by (cases "dfs_color s ! i") (auto simp: with_color_def)
        with False s i show ?thesis by (auto simp: less_Suc_eq)
      qed
    qed
    then obtain s where s: "ropt_fold ?f [0..<length ?bs] ?s0 = Some (Inr s)" "?Q (length ?bs) s" by auto
    have "dfs_has_cycle s \<longleftrightarrow> (\<exists>x. (x, x) \<in> ?A\<^sup>+)"
    proof
      assume "\<exists>x. (x, x) \<in> ?A\<^sup>+"
      then obtain x where x: "(x, x) \<in> ?A\<^sup>+" by blast
      then have "x < length ?bs" by (induction rule: trancl_induct) (auto simp: adj_def)
      with s(2) x show "dfs_has_cycle s" by (auto simp: dfs_ok_def closed_def split: if_splits)
    qed (use s(2) in \<open>auto simp: dfs_ok_def split: if_splits\<close>)
    with s(1) False cyc show ?thesis
      by (intro exI [of _ "dfs_has_cycle s"]) (simp add: net_routing_table_cycle_detection_def bs Let_def)
  qed
qed


section \<open>Complete operations\<close>

definition no_self_links :: "'d net_t \<Rightarrow> bool" where
  "no_self_links nt \<longleftrightarrow> (\<forall>n. (n, n) \<notin> edges nt)"

lemma topo_rt [simp]:
  "topo_ok (nt\<lparr>net_routing_table := rt\<rparr>) = topo_ok nt"
  "edges (nt\<lparr>net_routing_table := rt\<rparr>) = edges nt"
  "dst_of (nt\<lparr>net_routing_table := rt\<rparr>) b = dst_of nt b"
  "net_node_count (nt\<lparr>net_routing_table := rt\<rparr>) = net_node_count nt"
  by (simp_all add: topo_ok_def node_ok_def link_ok_def in_ok_def out_ok_def net_node_count_def edges_def dst_of_def)

lemma table_rt [simp]:
  "dep (nt\<lparr>net_routing_table := rt\<rparr>) r = dep nt r"
  "table_ok (nt\<lparr>net_routing_table := rt\<rparr>) r = table_ok nt r"
  "route_ok (nt\<lparr>net_routing_table := rt\<rparr>) r i j = route_ok nt r i j"
  "hop_entry (nt\<lparr>net_routing_table := rt\<rparr>) i j e = hop_entry nt i j e"
  by (simp_all add: dep_def table_ok_def route_ok_def hop_entry_def)

lemma has_cycle_same [simp]:
  "ent (rt\<lparr>rt_has_cycle := c\<rparr>) = ent rt" "table_ok nt (rt\<lparr>rt_has_cycle := c\<rparr>) = table_ok nt rt"
  "dep nt (rt\<lparr>rt_has_cycle := c\<rparr>) = dep nt rt" "route_ok nt (rt\<lparr>rt_has_cycle := c\<rparr>) i j = route_ok nt rt i j"
proof -
  show *: "ent (rt\<lparr>rt_has_cycle := c\<rparr>) = ent rt" by (simp add: ent_def entry_at_def fun_eq_iff)
  show "table_ok nt (rt\<lparr>rt_has_cycle := c\<rparr>) = table_ok nt rt" by (simp add: table_ok_def * rt_ok_def)
  show "dep nt (rt\<lparr>rt_has_cycle := c\<rparr>) = dep nt rt" by (simp add: dep_def *)
  show "route_ok nt (rt\<lparr>rt_has_cycle := c\<rparr>) i j = route_ok nt rt i j" by (simp add: route_ok_def *)
qed

lemma routing_computed:
  assumes "topo_ok nt" "no_self_links nt" "rt_entries (net_routing_table nt) = None"
    "\<not> rt_has_cycle (net_routing_table nt)"
  obtains nt1 rt where "net_routing_table_initiate nt = Inr nt1"
    "net_routing_table_floyd_warshall nt1 = Some (Inr (nt\<lparr>net_routing_table := rt\<rparr>))" "table_ok nt rt"
    "rt_has_cycle rt \<longleftrightarrow> (\<exists>b. (b, b) \<in> (dep nt rt)\<^sup>+)"
    "\<forall>i < net_node_count nt. \<forall>j < net_node_count nt. i \<noteq> j \<longrightarrow> route_ok nt rt i j"
proof -
  from initiate_ok [OF assms(1,3)] obtain r where
    r: "net_routing_table_initiate nt = Inr (nt\<lparr>net_routing_table := r\<rparr>)" "rt_ok r" "rt_dim r = net_node_count nt"
      "\<not> rt_has_cycle r" "\<forall>i < net_node_count nt. \<forall>j < net_node_count nt. hop_entry nt i j (ent r i j)"
    using assms(4) by auto
  let ?nt = "nt\<lparr>net_routing_table := r\<rparr>"
  have "topo_ok ?nt" "rt_dim r = net_node_count ?nt"
    "\<forall>i < net_node_count ?nt. \<forall>j < net_node_count ?nt. hop_entry ?nt i j (ent r i j)" using assms(1) r by simp_all
  from routes_computed [OF this(1) r(2) this(2,3)] obtain r0 r1 r2 where
    w: "res_fold (\<lambda>k. res_fold (\<lambda>i. res_fold (fw_step k i) [0..<net_node_count nt]) [0..<net_node_count nt])
          [0..<net_node_count nt] r = Inr r0"
      "ropt_fold (\<lambda>i. ropt_fold (set_output ?nt i) [0..<net_node_count nt]) [0..<net_node_count nt] r0 = Some (Inr r1)"
      "res_fold (\<lambda>i. res_fold (set_next ?nt i) [0..<net_node_count nt]) [0..<net_node_count nt] r1 = Inr r2"
      "table_ok nt r2" "\<not> rt_has_cycle r2"
      "\<And>i j. i < net_node_count nt \<Longrightarrow> j < net_node_count nt \<Longrightarrow> i \<noteq> j \<Longrightarrow> route_ok nt r2 i j"
    using r(4) by (auto simp: Let_def)
  from detection_ok [of ?nt r2] assms(1,2) w(4,5) obtain c where
    c: "net_routing_table_cycle_detection ?nt r2 = Some (Inr (r2\<lparr>rt_has_cycle := c\<rparr>))"
      "c \<longleftrightarrow> (\<exists>b. (b, b) \<in> (dep nt r2)\<^sup>+)" by (auto simp: no_self_links_def)
  let ?rt = "r2\<lparr>rt_has_cycle := c\<rparr>"
  have tab: "table_ok nt ?rt" using w(4) by simp
  have fw: "net_routing_table_floyd_warshall ?nt = Some (Inr (nt\<lparr>net_routing_table := ?rt\<rparr>))"
    using w(1-3) c(1) by (simp add: net_routing_table_floyd_warshall_def)
  show thesis by (rule that [OF r(1) fw tab]) (use c(2) w(6) in simp_all)
qed

text \<open>C3: on a well-formed network without links from a node to itself, the routing table is computed
  without giving up and the computation returns. For any two different nodes it then holds the
  length of a shortest path, an output buffer of the source whose link leads to the next node, and
  that node is one hop closer to the destination; there is no entry exactly if there is no path.
  The walk along the next nodes always ends, at the destination, after the number of hops of a
  shortest path. The cycle flag is set exactly if buffers depend on each other in a circle.\<close>

theorem routing_shortest_paths:
  assumes "topo_ok nt" "no_self_links nt" "rt_entries (net_routing_table nt) = None"
    "\<not> rt_has_cycle (net_routing_table nt)"
  shows "\<exists>nt1 rt. net_routing_table_initiate nt = Inr nt1 \<and>
    net_routing_table_floyd_warshall nt1 = Some (Inr (nt\<lparr>net_routing_table := rt\<rparr>)) \<and> table_ok nt rt \<and>
    (rt_has_cycle rt \<longleftrightarrow> (\<exists>b. (b, b) \<in> (dep nt rt)\<^sup>+)) \<and>
    (\<forall>i < net_node_count nt. \<forall>j < net_node_count nt. i \<noteq> j \<longrightarrow> route_ok nt rt i j \<and>
       ((i, j) \<in> (edges nt)\<^sup>* \<longrightarrow> (\<exists>ns. dump_route rt i j = Some (Inr (ns, True)) \<and> dist_is (edges nt) i j (length ns))))"
proof -
  obtain nt1 rt where
    r: "net_routing_table_initiate nt = Inr nt1"
      "net_routing_table_floyd_warshall nt1 = Some (Inr (nt\<lparr>net_routing_table := rt\<rparr>))" "table_ok nt rt"
      "rt_has_cycle rt \<longleftrightarrow> (\<exists>b. (b, b) \<in> (dep nt rt)\<^sup>+)"
      and q: "\<forall>i < net_node_count nt. \<forall>j < net_node_count nt. i \<noteq> j \<longrightarrow> route_ok nt rt i j"
    by (rule routing_computed [OF assms])
  have walk: "\<exists>ns. dump_route rt i j = Some (Inr (ns, True)) \<and> dist_is (edges nt) i j (length ns)"
    if ij: "i < net_node_count nt" "j < net_node_count nt" "i \<noteq> j" "(i, j) \<in> (edges nt)\<^sup>*" for i j
  proof -
    have "route_ok nt rt i j" using q ij by blast
    then obtain d where d: "dist_is (edges nt) i j (Suc d)" using ij(4) by (auto simp: route_ok_def)
    from follow_routes [OF assms(1) r(3) _ ij(2,1) d] q d show ?thesis by auto
  qed
  from r q walk show ?thesis
    by (intro exI [of _ nt1] exI [of _ rt]) simp
qed

lemma last_output_ok:
  assumes "topo_ok nt" "i < net_node_count nt"
  shows "set bs \<subseteq> set (nn_output_buffer_list (node_at nt i)) \<Longrightarrow>
    last_output nt h bs found = Inr (case filter (\<lambda>b. dst_of nt b = h) bs of [] \<Rightarrow> found | x # xs \<Rightarrow> Some (last (x # xs)))"
proof (induction bs arbitrary: found)
  case (Cons b bs)
  have "buffer_link nt b = Inr (link_at nt (the (nb_link (buffer_at nt b))))"
    by (rule buffer_link_out [OF assms]) (use Cons.prems in simp)
  with Cons show ?case by (simp add: dst_of_def split: list.split)
qed simp

text \<open>C20: an explicit route replaces exactly its entry of a table in use, by the last output buffer that
  leads to the given next node, and leaves a table in use; the cycle flag is then set exactly if it was
  set before or the new dependences have a circle. A node without output buffers fails the
  assertion, and a next node without a link ends the simulation.\<close>

theorem route_update_correct:
  assumes topo: "topo_ok nt" and no_self: "no_self_links nt" and tab: "table_ok nt (net_routing_table nt)"
    and n: "i < net_node_count nt" "j < net_node_count nt"
  shows "if nn_output_buffer_list (node_at nt i) = [] then net_routing_table_route_update nt i j h = Some (Inl Assert_failed)
    else if (i, h) \<notin> edges nt then net_routing_table_route_update nt i j h = Some (Inl (Fatal ''missing link''))
    else \<exists>rt. let b = last (filter (\<lambda>b. dst_of nt b = h) (nn_output_buffer_list (node_at nt i))) in
      net_routing_table_route_update nt i j h = Some (Inr (nt\<lparr>net_routing_table := rt\<rparr>)) \<and> table_ok nt rt \<and>
      dst_of nt b = h \<and>
      (\<forall>x < net_node_count nt. \<forall>y < net_node_count nt. ent rt x y =
         (if x = i \<and> y = j then (ent (net_routing_table nt) i j)\<lparr>re_next_node := Some h, re_output_buffer := Some b\<rparr>
          else ent (net_routing_table nt) x y)) \<and>
      (rt_has_cycle rt \<longleftrightarrow> rt_has_cycle (net_routing_table nt) \<or> (\<exists>b. (b, b) \<in> (dep nt rt)\<^sup>+))"
proof -
  let ?rt = "net_routing_table nt" and ?out = "nn_output_buffer_list (node_at nt i)"
  let ?bs = "filter (\<lambda>b. dst_of nt b = h) ?out"
  have ok: "rt_ok ?rt" "rt_dim ?rt = net_node_count nt" using tab by (simp_all add: table_ok_def)
  have lk: "net_routing_table_lookup ?rt i j = Inr (i * rt_dim ?rt + j)" using ok n by (simp add: lookup_ok)
  have lo: "last_output nt h ?out None = Inr (if ?bs = [] then None else Some (last ?bs))"
    using last_output_ok [OF topo n(1) subset_refl, of h None] by (auto split: list.splits)
  have ed: "?bs = [] \<longleftrightarrow> (i, h) \<notin> edges nt"
    using edges_out(3) [OF topo, of i h] buffer_link_out(3) [OF topo n(1)] by (auto simp: filter_empty_conv)
  show ?thesis
  proof (cases "?out = [] \<or> ?bs = []")
    case True
    then show ?thesis using ed lk lo by (auto simp: net_routing_table_route_update_def Let_def)
  next
    case False
    let ?b = "last ?bs"
    have b: "?b \<in> set ?out" "dst_of nt ?b = h" using last_in_set [of ?bs] False by auto
    let ?e = "(ent ?rt i j)\<lparr>re_next_node := Some h, re_output_buffer := Some ?b\<rparr>"
    let ?r = "put_entry (i * rt_dim ?rt + j) ?e ?rt"
    have e: "ent ?r x y = (if x = i \<and> y = j then ?e else ent ?rt x y)"
      if "x < net_node_count nt" "y < net_node_count nt" for x y
      using ent_put [OF ok(1), of i j x y] n that ok(2) by simp
    have tab': "table_ok nt ?r" using tab b e ok by (auto simp: table_ok_def)
    from detection_ok [OF topo tab'] no_self obtain c where
      c: "net_routing_table_cycle_detection nt ?r = Some (Inr (?r\<lparr>rt_has_cycle := c\<rparr>))"
        "c \<longleftrightarrow> rt_has_cycle ?rt \<or> (\<exists>b. (b, b) \<in> (dep nt ?r)\<^sup>+)" by (auto simp: no_self_links_def)
    have u: "net_routing_table_route_update nt i j h = Some (Inr (nt\<lparr>net_routing_table := ?r\<lparr>rt_has_cycle := c\<rparr>\<rparr>))"
      using False lk lo c(1) by (simp add: net_routing_table_route_update_def Let_def)
    have "\<exists>rt. net_routing_table_route_update nt i j h = Some (Inr (nt\<lparr>net_routing_table := rt\<rparr>)) \<and> table_ok nt rt \<and>
      dst_of nt ?b = h \<and> (\<forall>x < net_node_count nt. \<forall>y < net_node_count nt. ent rt x y = (if x = i \<and> y = j then ?e else ent ?rt x y)) \<and>
      (rt_has_cycle rt \<longleftrightarrow> rt_has_cycle ?rt \<or> (\<exists>b. (b, b) \<in> (dep nt rt)\<^sup>+))"
    proof (intro exI [of _ "?r\<lparr>rt_has_cycle := c\<rparr>"] conjI allI impI)
      show "rt_has_cycle (?r\<lparr>rt_has_cycle := c\<rparr>) \<longleftrightarrow>
          rt_has_cycle ?rt \<or> (\<exists>b. (b, b) \<in> (dep nt (?r\<lparr>rt_has_cycle := c\<rparr>))\<^sup>+)"
        using c(2) by simp
    qed (use u tab' b(2) e in simp_all)
    moreover have "(i, h) \<in> edges nt" "?out \<noteq> []" using ed False by simp_all
    ultimately show ?thesis by (simp only: Let_def if_False simp_thms)
  qed
qed

section \<open>A small network\<close>

text \<open>Two end nodes, a switch, and links in both directions between the switch and each of them.\<close>

definition build_example :: "nat net_data net_t res" where
  "build_example =
     res_bind (net_add_end_node 8 8 ''a'' Null net_create) (\<lambda>(nt, a).
     res_bind (net_add_end_node 8 8 ''b'' Null nt) (\<lambda>(nt, b).
     res_bind (net_add_switch 8 8 2 ''s'' Null nt) (\<lambda>(nt, s).
     res_bind (net_add_bidirectional_link a s 2 nt) (\<lambda>nt.
     net_add_bidirectional_link b s 2 nt))))"

definition net_example :: "nat net_data net_t" where
  "net_example = (case build_example of Inr nt \<Rightarrow> nt | Inl _ \<Rightarrow> net_create)"

lemmas build_eval = net_add_end_node_def net_add_switch_def net_add_bidirectional_link_def net_add_link_def
  net_node_create_def net_get_node_by_name_def strcaseeq_def to_lower_def net_node_add_output_buffer_def
  net_node_add_input_buffer_def net_buffer_create_def net_link_create_def net_node_count_def put_node_def
  put_buffer_def net_create_def net_routing_table_create_def Let_def

lemma build_example_ok: "build_example = Inr net_example"
proof -
  have "\<exists>nt. build_example = Inr nt" by (simp add: build_example_def build_eval)
  then obtain nt where *: "build_example = Inr nt" by blast
  show ?thesis unfolding net_example_def * sum.case ..
qed

lemma example_shape:
  "net_node_count net_example = 3"
  "map nn_output_buffer_list (net_node_list net_example) = [[0], [4], [2, 6]]"
  "map (\<lambda>b. (nb_node b, nb_link b)) (net_buffers net_example) =
     [(0, Some 0), (2, Some 0), (2, Some 1), (0, Some 1), (1, Some 2), (2, Some 2), (2, Some 3), (1, Some 3)]"
  "map lk_dst_node (net_link_list net_example) = [2, 0, 2, 1]"
  "net_routing_table net_example = net_routing_table_create"
  by (simp_all add: net_example_def build_example_def build_eval)

lemma example_topo: "topo_ok net_example"
proof -
  from build_example_ok obtain n1 a n2 b n3 s n4 l4 n5 l5 n6 l6 l7 where
    e: "net_add_end_node 8 8 ''a'' Null net_create = Inr (n1, a)" "net_add_end_node 8 8 ''b'' Null n1 = Inr (n2, b)"
      "net_add_switch 8 8 2 ''s'' Null n2 = Inr (n3, s)" "net_add_link a s 2 n3 = Inr (n4, l4)"
      "net_add_link s a 2 n4 = Inr (n5, l5)" "net_add_link b s 2 n5 = Inr (n6, l6)"
      "net_add_link s b 2 n6 = Inr (net_example, l7)"
    by (auto simp: build_example_def net_add_bidirectional_link_def)
  note t1 = add_end_node_topo [OF net_create_topo e(1)]
  note t2 = add_end_node_topo [OF conjunct1 [OF t1] e(2)]
  note t3 = add_switch_topo [OF conjunct1 [OF t2] e(3)]
  have lt: "a < net_node_count n3" "b < net_node_count n3" "s < net_node_count n3" using t1 t2 t3 by simp_all
  note t4 = add_link_topo [OF conjunct1 [OF t3] lt(1,3) e(4)]
  have "topo_ok n5 \<and> net_node_count n5 = net_node_count n3"
    using add_link_topo [OF conjunct1 [OF t4] _ _ e(5)] lt t4 by simp
  moreover have "topo_ok n6 \<and> net_node_count n6 = net_node_count n3"
    using add_link_topo [OF _ _ _ e(6)] lt calculation by simp
  ultimately show ?thesis using add_link_topo [OF _ _ _ e(7)] lt by simp
qed

lemma less_3: "n < 3 \<longleftrightarrow> n = 0 \<or> n = 1 \<or> n = (2 :: nat)" by auto

lemma edges_dst: "topo_ok nt \<Longrightarrow>
    edges nt = {(n, dst_of nt b) | n b. n < net_node_count nt \<and> b \<in> set (nn_output_buffer_list (node_at nt n))}"
proof (intro equalityI subsetI)
  fix e assume t: "topo_ok nt" and e: "e \<in> edges nt"
  obtain i j where ij: "e = (i, j)" by (cases e)
  from edges_out [OF t e [unfolded ij]]
  show "e \<in> {(n, dst_of nt b) | n b. n < net_node_count nt \<and> b \<in> set (nn_output_buffer_list (node_at nt n))}"
    unfolding ij by blast
qed (use buffer_link_out(3) in blast)

lemma example_edges: "edges net_example = {(0, 2), (1, 2), (2, 0), (2, 1)}"
proof -
  have "nn_output_buffer_list (node_at net_example 0) = [0]" "nn_output_buffer_list (node_at net_example 1) = [4]"
    "nn_output_buffer_list (node_at net_example 2) = [2, 6]"
    "dst_of net_example 0 = 2" "dst_of net_example 4 = 2" "dst_of net_example 2 = 0" "dst_of net_example 6 = 1"
    by (simp_all add: dst_of_def net_example_def build_example_def build_eval)
  then show ?thesis
    unfolding edges_dst [OF example_topo] example_shape(1) less_3
    by (auto simp: conj_disj_distribL conj_disj_distribR ex_disj_distrib Collect_disj_eq insert_commute)
qed

lemma routing_shortest_paths_witness:
  "\<exists>nt1 rt ns. net_routing_table_initiate net_example = Inr nt1 \<and>
     net_routing_table_floyd_warshall nt1 = Some (Inr (net_example\<lparr>net_routing_table := rt\<rparr>)) \<and>
     dump_route rt 0 1 = Some (Inr (ns, True)) \<and> dist_is (edges net_example) 0 1 (length ns)"
proof -
  have "no_self_links net_example" by (auto simp: no_self_links_def example_edges)
  moreover have "rt_entries (net_routing_table net_example) = None" "\<not> rt_has_cycle (net_routing_table net_example)"
    by (simp_all add: example_shape(5) net_routing_table_create_def)
  moreover have "(0, 1) \<in> (edges net_example)\<^sup>*"
    unfolding example_edges by (rule rtrancl_trans [of _ 2]) auto
  ultimately show ?thesis
    using routing_shortest_paths [OF example_topo] example_shape(1) by fastforce
qed


lemma hop_table_ok:
  assumes "topo_ok nt" "rt_ok rt" "rt_dim rt = net_node_count nt"
    "\<forall>i < net_node_count nt. \<forall>j < net_node_count nt. hop_entry nt i j (ent rt i j)"
  shows "table_ok nt rt"
  unfolding table_ok_def
proof (intro conjI allI impI)
  fix i j b assume *: "i < net_node_count nt" "j < net_node_count nt" "re_output_buffer (ent rt i j) = Some b"
  with assms(4) have "hop_entry nt i j (ent rt i j)" by blast
  with *(3) show "b \<in> set (nn_output_buffer_list (node_at nt i))" "re_next_node (ent rt i j) = Some (dst_of nt b)"
    by (auto simp: hop_entry_def split: if_splits)
qed (use assms in simp_all)

lemma route_update_correct_witness:
  "\<exists>nt1 nt2. net_routing_table_initiate net_example = Inr nt1 \<and>
     net_routing_table_route_update nt1 0 1 2 = Some (Inr nt2) \<and>
     re_output_buffer (ent (net_routing_table nt2) 0 1) = Some 0 \<and>
     net_routing_table_route_update nt1 0 2 1 = Some (Inl (Fatal ''missing link''))"
proof -
  have "rt_entries (net_routing_table net_example) = None"
    by (simp add: example_shape(5) net_routing_table_create_def)
  from initiate_ok [OF example_topo this] obtain r where
    r: "net_routing_table_initiate net_example = Inr (net_example\<lparr>net_routing_table := r\<rparr>)"
      "rt_ok r" "rt_dim r = net_node_count net_example"
      "\<forall>i < net_node_count net_example. \<forall>j < net_node_count net_example. hop_entry net_example i j (ent r i j)"
    by blast
  let ?nt = "net_example\<lparr>net_routing_table := r\<rparr>"
  have t: "topo_ok ?nt" "no_self_links ?nt" "table_ok ?nt (net_routing_table ?nt)"
    using hop_table_ok [OF example_topo r(2-4)] example_topo by (auto simp: no_self_links_def example_edges)
  have n: "0 < net_node_count ?nt" "1 < net_node_count ?nt" "2 < net_node_count ?nt" by (simp_all add: example_shape(1))
  have o: "nn_output_buffer_list (node_at ?nt 0) = [0]" "dst_of ?nt 0 = 2"
    by (simp_all add: dst_of_def net_example_def build_example_def build_eval)
  have e: "(0, 2) \<in> edges ?nt" "(0, 1) \<notin> edges ?nt" by (simp_all add: example_edges)
  from route_update_correct [OF t n(1,2), of 2] o e n obtain nt2 where
    "net_routing_table_route_update ?nt 0 1 2 = Some (Inr nt2)" "re_output_buffer (ent (net_routing_table nt2) 0 1) = Some 0"
    by (auto simp: Let_def)
  moreover have "net_routing_table_route_update ?nt 0 2 1 = Some (Inl (Fatal ''missing link''))"
    using route_update_correct [OF t n(1,3), of 1] o e by simp
  ultimately show ?thesis using r(1) by blast
qed

end
