(* ===== verification/Net_Msg.thy ===== *)
theory Net_Msg
  imports Net_Routing
begin

text \<open>
  The life of a message (\<open>src/network/message.c\<close>, \<open>node.c\<close>, \<open>network.c\<close>): injection, the events that
  move it from buffer to buffer, the round-robin scheduler of the nodes, and reception. The state is
  that of the event engine and of the network; a node is its position, which is also its index in the
  routing table. Debug output is left out.
\<close>

section \<open>Updates\<close>

definition upd_buffer :: "nat \<Rightarrow> ('d net_buffer_t \<Rightarrow> 'd net_buffer_t) \<Rightarrow> 'd net_t \<Rightarrow> 'd net_t" where
  "upd_buffer b f nt = put_buffer b (f (buffer_at nt b)) nt"

definition upd_link :: "nat \<Rightarrow> (net_link_t \<Rightarrow> net_link_t) \<Rightarrow> 'd net_t \<Rightarrow> 'd net_t" where
  "upd_link l f nt = put_link l (f (link_at nt l)) nt"

definition upd_node :: "nat \<Rightarrow> ('d net_node_t \<Rightarrow> 'd net_node_t) \<Rightarrow> 'd net_t \<Rightarrow> 'd net_t" where
  "upd_node n f nt = put_node n (f (node_at nt n)) nt"

definition upd_msg :: "int \<Rightarrow> (net_msg_t \<Rightarrow> net_msg_t) \<Rightarrow> 'd net_t \<Rightarrow> 'd net_t" where
  "upd_msg m f nt = put_msg m (f (the (net_msgs nt m))) nt"

section \<open>Scheduling of a node\<close>

text \<open>The candidates in the order in which they are tried.\<close>

fun sched_loop :: "int \<Rightarrow> 'd net_t \<Rightarrow> nat \<Rightarrow> nat \<Rightarrow> nat list \<Rightarrow> nat option res" where
  "sched_loop cyc nt node output_buffer [] = Inr None"
| "sched_loop cyc nt node output_buffer (b # bs) =
     (case nb_msg_list (buffer_at nt b) of
        [] \<Rightarrow> sched_loop cyc nt node output_buffer bs
      | m # _ \<Rightarrow> res_bind (msg_at nt m) (\<lambda>msg.
          if nm_busy msg \<ge> cyc then sched_loop cyc nt node output_buffer bs
          else if nb_read_busy (buffer_at nt b) \<ge> cyc then sched_loop cyc nt node output_buffer bs
          else res_bind (net_routing_table_lookup (net_routing_table nt) node (nm_dst_node msg)) (\<lambda>k.
            case re_output_buffer (entry_at (net_routing_table nt) k) of
              None \<Rightarrow> Inl Assert_failed
            | Some target \<Rightarrow>
                if target \<noteq> output_buffer then sched_loop cyc nt node output_buffer bs
                else if nb_count (buffer_at nt output_buffer) + nm_size msg > nb_size (buffer_at nt output_buffer)
                then sched_loop cyc nt node output_buffer bs
                else Inr (Some b))))"

definition net_node_schedule :: "int \<Rightarrow> nat \<Rightarrow> nat \<Rightarrow> 'd net_t \<Rightarrow> ('d net_t \<times> nat option) res" where
  "net_node_schedule cyc n output_buffer nt =
     (let buf = buffer_at nt output_buffer; node = node_at nt n; ins = nn_input_buffer_list node in
      if nb_node buf \<noteq> n then Inl Assert_failed
      else if \<not> (nb_index buf < length (nn_output_buffer_list node) \<and>
                nn_output_buffer_list node ! nb_index buf = output_buffer) then Inl Assert_failed
      else if nb_sched_when buf = cyc then Inr (nt, nb_sched_buffer buf)
      else
        let nt = upd_buffer output_buffer (\<lambda>b. b\<lparr>nb_sched_when := cyc\<rparr>) nt;
            lst = (case nb_sched_buffer buf of Some b \<Rightarrow> nb_index (buffer_at nt b) | None \<Rightarrow> 0)
        in res_bind (if nb_write_busy buf \<ge> cyc then Inr None
                     else sched_loop cyc nt n output_buffer
                            (map (\<lambda>i. ins ! ((lst + i + 1) mod length ins)) [0..<length ins])) (\<lambda>r.
             Inr (upd_buffer output_buffer (\<lambda>b. b\<lparr>nb_sched_buffer := r\<rparr>) nt, r)))"

section \<open>Events\<close>

record net_events =
  EV_NET_SEND :: int
  EV_NET_OUTPUT_BUFFER :: int
  EV_NET_INPUT_BUFFER :: int
  EV_NET_RECEIVE :: int

text \<open>The registration of the events in \<open>net_init\<close>.\<close>

definition net_init :: "'d esim_t \<Rightarrow> 'd esim_t \<times> net_events" where
  "net_init s =
     (let (s, send) = esim_register_event_with_name s True ''net_send'';
          (s, out) = esim_register_event_with_name s True ''net_output_buffer'';
          (s, inp) = esim_register_event_with_name s True ''net_input_buffer'';
          (s, rcv) = esim_register_event_with_name s True ''net_receive''
      in (s, \<lparr>EV_NET_SEND = send, EV_NET_OUTPUT_BUFFER = out, EV_NET_INPUT_BUFFER = inp, EV_NET_RECEIVE = rcv\<rparr>))"

type_synonym 'u net_state = "'u net_data esim_t \<times> 'u net_data net_t"

text \<open>Schedule an event, leaving the network as it is.\<close>

definition schedule :: "int \<Rightarrow> 'u net_data \<Rightarrow> int \<Rightarrow> 'u net_state \<Rightarrow> 'u net_state res" where
  "schedule event d after sw = res_bind (esim_schedule_event (fst sw) event d after) (\<lambda>s. Inr (s, snd sw))"

definition net_wait :: "nat \<Rightarrow> int \<Rightarrow> 'u net_data \<Rightarrow> 'u net_state \<Rightarrow> 'u net_state res" where
  "net_wait b event d sw = res_bind (net_buffer_wait (fst sw) b event d (snd sw)) (\<lambda>nt. Inr (fst sw, nt))"

definition net_stack_create :: "int \<Rightarrow> 'u net_data \<Rightarrow> 'u net_data" where
  "net_stack_create ret_event ret_stack = Net_stack 0 ret_event ret_stack"

definition net_stack_return :: "'u net_data \<Rightarrow> 'u net_state \<Rightarrow> 'u net_state res" where
  "net_stack_return d sw = schedule (st_ret_event d) (st_ret_stack d) 0 sw"

text \<open>The transfer of a message between buffers: extraction, insertion, and the new position.\<close>

definition transfer :: "int \<Rightarrow> nat \<Rightarrow> nat \<Rightarrow> nat option \<Rightarrow> int \<Rightarrow> 'u net_state \<Rightarrow> 'u net_state res" where
  "transfer m from_buffer to_buffer node busy sw =
     res_bind (net_buffer_extract from_buffer m sw) (\<lambda>(s, nt).
     res_bind (net_buffer_insert (esim_cycle s) to_buffer m nt) (\<lambda>nt.
       Inr (s, upd_msg m (\<lambda>x. x\<lparr>nm_node := node, nm_buffer := Some to_buffer, nm_busy := busy\<rparr>) nt)))"

definition net_ev_send :: "net_events \<Rightarrow> int \<Rightarrow> 'u net_data \<Rightarrow> 'u net_state \<Rightarrow> 'u net_state res" where
  "net_ev_send E m d sw =
     (let (s, nt) = sw; cyc = esim_cycle s in
      res_bind (msg_at nt m) (\<lambda>msg.
      res_bind (net_routing_table_lookup (net_routing_table nt) (nm_src_node msg) (nm_dst_node msg)) (\<lambda>k.
        case re_output_buffer (entry_at (net_routing_table nt) k) of
          None \<Rightarrow> Inl (Fatal ''no route'')
        | Some b \<Rightarrow>
            let buf = buffer_at nt b in
            if nb_write_busy buf \<ge> cyc then Inl (Panic ''output buffer busy'')
            else if nm_size msg > nb_size buf then Inl (Panic ''message does not fit in buffer'')
            else if nb_count buf + nm_size msg > nb_size buf then Inl (Panic ''output buffer full'')
            else res_bind (net_buffer_insert cyc b m nt) (\<lambda>nt.
              let nt = upd_buffer b (\<lambda>x. x\<lparr>nb_write_busy := cyc\<rparr>) nt;
                  nt = upd_msg m (\<lambda>x. x\<lparr>nm_node := Some (nm_src_node msg), nm_buffer := Some b, nm_busy := cyc\<rparr>) nt
              in schedule (EV_NET_OUTPUT_BUFFER E) d 1 (s, nt)))))"

definition net_ev_output_buffer :: "net_events \<Rightarrow> int \<Rightarrow> 'u net_data \<Rightarrow> 'u net_state \<Rightarrow> 'u net_state res" where
  "net_ev_output_buffer E m d sw =
     (let (s, nt) = sw; cyc = esim_cycle s; event = EV_NET_OUTPUT_BUFFER E in
      res_bind (msg_at nt m) (\<lambda>msg.
        case (nm_node msg, nm_buffer msg) of
          (Some node, Some b) \<Rightarrow>
            let buf = buffer_at nt b in
            if nb_msg_list buf = [] then Inl Assert_failed
            else if hd (nb_msg_list buf) \<noteq> m then net_wait b event d sw
            else if nb_read_busy buf \<ge> cyc then schedule event d (nb_read_busy buf - cyc + 1) sw
            else (case nb_link buf of
              None \<Rightarrow> Inl Null_deref
            | Some l \<Rightarrow>
                let link = link_at nt l; ib = lk_dst_buffer link; ibuf = buffer_at nt ib in
                if lk_busy link \<ge> cyc then schedule event d (lk_busy link - cyc + 1) sw
                else if lk_src_buffer link \<noteq> b then Inl Assert_failed
                else if nb_write_busy ibuf \<ge> cyc then schedule event d (nb_write_busy ibuf - cyc + 1) sw
                else if nm_size msg > nb_size ibuf then Inl (Fatal ''message does not fit in buffer'')
                else if nb_count ibuf + nm_size msg > nb_size ibuf then net_wait ib event d sw
                else
                  let lat = (nm_size msg - 1) div lk_bandwidth link + 1; until = cyc + lat - 1 in
                  if \<not> lat > 0 then Inl Assert_failed
                  else if \<not> nm_busy msg < cyc then Inl Assert_failed
                  else
                    let nt = upd_buffer b (\<lambda>x. x\<lparr>nb_read_busy := until\<rparr>) nt;
                        nt = upd_link l (\<lambda>x. x\<lparr>lk_busy := until\<rparr>) nt;
                        nt = upd_buffer ib (\<lambda>x. x\<lparr>nb_write_busy := until\<rparr>) nt
                    in res_bind (transfer m b ib (Some (nb_node ibuf)) until (s, nt)) (\<lambda>(s, nt).
                      let nt = upd_link l (\<lambda>x. x\<lparr>lk_busy_cycles := lk_busy_cycles x + lat,
                                 lk_transferred_bytes := lk_transferred_bytes x + nm_size msg,
                                 lk_transferred_msgs := lk_transferred_msgs x + 1\<rparr>) nt;
                          nt = upd_node node (\<lambda>x. x\<lparr>nn_bytes_sent := nn_bytes_sent x + nm_size msg,
                                 nn_msgs_sent := nn_msgs_sent x + 1\<rparr>) nt;
                          nt = upd_node (nb_node ibuf) (\<lambda>x. x\<lparr>nn_bytes_received := nn_bytes_received x + nm_size msg,
                                 nn_msgs_received := nn_msgs_received x + 1\<rparr>) nt
                      in schedule (EV_NET_INPUT_BUFFER E) d lat (s, nt)))
        | _ \<Rightarrow> Inl Null_deref))"

definition net_ev_input_buffer :: "net_events \<Rightarrow> int \<Rightarrow> 'u net_data \<Rightarrow> 'u net_state \<Rightarrow> 'u net_state res" where
  "net_ev_input_buffer E m d sw =
     (let (s, nt) = sw; cyc = esim_cycle s; event = EV_NET_INPUT_BUFFER E in
      res_bind (msg_at nt m) (\<lambda>msg.
        case (nm_node msg, nm_buffer msg) of
          (Some node, Some b) \<Rightarrow>
            let buf = buffer_at nt b in
            if nb_msg_list buf = [] then Inl Assert_failed
            else if hd (nb_msg_list buf) \<noteq> m then net_wait b event d sw
            else if node = nm_dst_node msg then schedule (EV_NET_RECEIVE E) d 0 sw
            else if nb_read_busy buf \<ge> cyc then schedule event d (nb_read_busy buf - cyc + 1) sw
            else res_bind (net_routing_table_lookup (net_routing_table nt) node (nm_dst_node msg)) (\<lambda>k.
              case re_output_buffer (entry_at (net_routing_table nt) k) of
                None \<Rightarrow> Inl (Fatal ''no route'')
              | Some ob \<Rightarrow>
                  let obuf = buffer_at nt ob in
                  if nb_write_busy obuf \<ge> cyc then schedule event d (nb_write_busy obuf - cyc + 1) sw
                  else if nm_size msg > nb_size obuf then Inl (Fatal ''message does not fit in buffer'')
                  else if nb_count obuf + nm_size msg > nb_size obuf then net_wait ob event d sw
                  else res_bind (net_node_schedule cyc node ob nt) (\<lambda>(nt, turn).
                    if turn \<noteq> Some b then schedule event d 1 (s, nt)
                    else if nn_kind (node_at nt node) = net_node_end then Inl Assert_failed
                    else if \<not> nn_bandwidth (node_at nt node) > 0 then Inl Assert_failed
                    else
                      let lat = (nm_size msg - 1) div nn_bandwidth (node_at nt node) + 1; until = cyc + lat - 1 in
                      if \<not> lat > 0 then Inl Assert_failed
                      else if \<not> nm_busy msg < cyc then Inl Assert_failed
                      else
                        let nt = upd_buffer b (\<lambda>x. x\<lparr>nb_read_busy := until\<rparr>) nt;
                            nt = upd_buffer ob (\<lambda>x. x\<lparr>nb_write_busy := until\<rparr>) nt
                        in res_bind (transfer m b ob (Some node) until (s, nt)) (\<lambda>sw.
                          schedule (EV_NET_OUTPUT_BUFFER E) d lat sw)))
        | _ \<Rightarrow> Inl Null_deref))"

section \<open>Reception\<close>

definition net_receive :: "nat \<Rightarrow> int \<Rightarrow> 'u net_state \<Rightarrow> 'u net_state res" where
  "net_receive node m sw =
     res_bind (msg_at (snd sw) m) (\<lambda>msg.
       if nm_node msg \<noteq> Some node then Inl (Panic ''message not at end node'')
       else case nm_buffer msg of
         None \<Rightarrow> Inl Null_deref
       | Some b \<Rightarrow>
           let buf = buffer_at (snd sw) b in
           if nb_node buf \<noteq> node then Inl Assert_failed
           else if nb_msg_list buf = [] then Inl (Panic ''empty buffer'')
           else if hd (nb_msg_list buf) \<noteq> m then Inl (Panic ''message not at input buffer head'')
           else res_bind (net_buffer_extract b m sw) (\<lambda>(s, nt).
                res_bind (net_msg_table_extract m nt) (\<lambda>(nt, _). Inr (s, net_msg_free m nt))))"

definition net_ev_receive :: "int \<Rightarrow> 'u net_data \<Rightarrow> 'u net_state \<Rightarrow> 'u net_state res" where
  "net_ev_receive m d sw =
     (let (s, nt) = sw in
      res_bind (msg_at nt m) (\<lambda>msg.
        let nt = nt\<lparr>net_transfers := net_transfers nt + 1,
              net_lat_acc := net_lat_acc nt + (esim_cycle s - nm_send_cycle msg),
              net_msg_size_acc := net_msg_size_acc nt + nm_size msg\<rparr>
        in res_bind (if st_ret_event d = esim_ev_none s
                     then (case nm_node msg of None \<Rightarrow> Inl Null_deref | Some node \<Rightarrow> net_receive node m (s, nt))
                     else Inr (s, nt)) (\<lambda>sw.
           net_stack_return d sw)))"

definition net_event_handler :: "net_events \<Rightarrow> ('u net_data, 'u net_data net_t) handler" where
  "net_event_handler E event d sw =
     (case d of
        Net_stack m ret_event ret_stack \<Rightarrow>
          if event = EV_NET_SEND E then net_ev_send E m d sw
          else if event = EV_NET_OUTPUT_BUFFER E then net_ev_output_buffer E m d sw
          else if event = EV_NET_INPUT_BUFFER E then net_ev_input_buffer E m d sw
          else if event = EV_NET_RECEIVE E then net_ev_receive m d sw
          else Inl (Panic ''unknown event'')
      | _ \<Rightarrow> Inl Null_deref)"

section \<open>Injection\<close>

definition net_can_send :: "int \<Rightarrow> 'd net_t \<Rightarrow> nat \<Rightarrow> nat \<Rightarrow> int \<Rightarrow> bool res" where
  "net_can_send cyc nt src dst sz =
     res_bind (net_routing_table_lookup (net_routing_table nt) src dst) (\<lambda>k.
       case re_output_buffer (entry_at (net_routing_table nt) k) of
         None \<Rightarrow> Inr False
       | Some b \<Rightarrow>
           let buf = buffer_at nt b in
           Inr (\<not> nb_write_busy buf \<ge> cyc \<and> \<not> nb_count buf + sz > nb_size buf))"

definition net_can_send_ev :: "nat \<Rightarrow> nat \<Rightarrow> int \<Rightarrow> int \<Rightarrow> 'u net_data \<Rightarrow> 'u net_state \<Rightarrow> ('u net_state \<times> bool) res" where
  "net_can_send_ev src dst sz retry_event retry_stack sw =
     (let (s, nt) = sw; cyc = esim_cycle s in
      res_bind (net_routing_table_lookup (net_routing_table nt) src dst) (\<lambda>k.
        case re_output_buffer (entry_at (net_routing_table nt) k) of
          None \<Rightarrow> Inl (Fatal ''no route'')
        | Some b \<Rightarrow>
            let buf = buffer_at nt b in
            if sz > nb_size buf then Inl (Fatal ''message too long'')
            else if nb_write_busy buf \<ge> cyc
            then res_bind (schedule retry_event retry_stack (nb_write_busy buf - cyc + 1) sw) (\<lambda>sw. Inr (sw, False))
            else if nb_count buf + sz > nb_size buf
            then res_bind (net_wait b retry_event retry_stack sw) (\<lambda>sw. Inr (sw, False))
            else Inr (sw, True)))"

definition net_send_ev :: "net_events \<Rightarrow> nat \<Rightarrow> nat \<Rightarrow> int \<Rightarrow> int \<Rightarrow> 'u net_data \<Rightarrow> 'u net_state \<Rightarrow>
    ('u net_state \<times> int) res" where
  "net_send_ev E src dst sz receive_event receive_stack sw =
     (let (s, nt) = sw in
      if nn_kind (node_at nt src) \<noteq> net_node_end \<or> nn_kind (node_at nt dst) \<noteq> net_node_end
      then Inl (Fatal ''not end nodes'')
      else res_bind (net_msg_create (esim_cycle s) src dst sz nt) (\<lambda>(nt, m).
           res_bind (net_msg_table_insert m nt) (\<lambda>nt.
             let stack = (case net_stack_create (esim_ev_none s) Null of
                   Net_stack _ _ _ \<Rightarrow> Net_stack m receive_event receive_stack | d \<Rightarrow> d)
             in res_bind (esim_execute_event (net_event_handler E) (EV_NET_SEND E) stack (s, nt)) (\<lambda>sw.
                  Inr (sw, m)))))"

definition net_send :: "net_events \<Rightarrow> nat \<Rightarrow> nat \<Rightarrow> int \<Rightarrow> 'u net_state \<Rightarrow> ('u net_state \<times> int) res" where
  "net_send E src dst sz sw = net_send_ev E src dst sz (esim_ev_none (fst sw)) Null sw"

definition net_try_send_ev :: "net_events \<Rightarrow> nat \<Rightarrow> nat \<Rightarrow> int \<Rightarrow> int \<Rightarrow> 'u net_data \<Rightarrow> int \<Rightarrow> 'u net_data \<Rightarrow>
    'u net_state \<Rightarrow> ('u net_state \<times> int option) res" where
  "net_try_send_ev E src dst sz receive_event receive_stack retry_event retry_stack sw =
     res_bind (net_can_send_ev src dst sz retry_event retry_stack sw) (\<lambda>(sw, ok).
       if \<not> ok then Inr (sw, None)
       else res_bind (net_send_ev E src dst sz receive_event receive_stack sw) (\<lambda>(sw, m). Inr (sw, Some m)))"

definition net_try_send :: "net_events \<Rightarrow> nat \<Rightarrow> nat \<Rightarrow> int \<Rightarrow> int \<Rightarrow> 'u net_data \<Rightarrow> 'u net_state \<Rightarrow>
    ('u net_state \<times> int option) res" where
  "net_try_send E src dst sz retry_event retry_stack sw =
     res_bind (net_can_send_ev src dst sz retry_event retry_stack sw) (\<lambda>(sw, ok).
       if \<not> ok then Inr (sw, None)
       else res_bind (net_send E src dst sz sw) (\<lambda>(sw, m). Inr (sw, Some m)))"

end
