(* ===== verification/Net_Flow.thy ===== *)
theory Net_Flow
  imports Net_Cycles Net_Msg
begin

text \<open>
  Flow control in a network (\<open>src/network/message.c\<close>, \<open>buffer.c\<close>): the invariant that ties the
  messages, the buffers that hold them and the pending events together, and its preservation by
  every event of the network, by injection and by reception. No event then fails an assertion
  or panics, no buffer overflows and no message is lost or duplicated.
\<close>

section \<open>What the operations leave alone\<close>

text \<open>The topology and the table of a network, without its statistics and contents.\<close>

definition node_shape :: "'d net_node_t \<Rightarrow> net_node_kind_t \<times> nat \<times> int \<times> nat list \<times> nat list" where
  "node_shape x = (nn_kind x, nn_index x, nn_bandwidth x, nn_input_buffer_list x, nn_output_buffer_list x)"

definition buffer_shape :: "'d net_buffer_t \<Rightarrow> nat \<times> nat \<times> int \<times> nat option" where
  "buffer_shape x = (nb_node x, nb_index x, nb_size x, nb_link x)"

definition link_shape :: "net_link_t \<Rightarrow> nat \<times> nat \<times> nat \<times> nat \<times> int" where
  "link_shape x = (lk_src_node x, lk_src_buffer x, lk_dst_node x, lk_dst_buffer x, lk_bandwidth x)"

definition same_shape :: "'d net_t \<Rightarrow> 'd net_t \<Rightarrow> bool" where
  "same_shape nt nt' \<longleftrightarrow>
     map node_shape (net_node_list nt') = map node_shape (net_node_list nt) \<and>
     map buffer_shape (net_buffers nt') = map buffer_shape (net_buffers nt) \<and>
     map link_shape (net_link_list nt') = map link_shape (net_link_list nt) \<and>
     net_routing_table nt' = net_routing_table nt"

lemma same_shape_refl [simp]: "same_shape nt nt"
  by (simp add: same_shape_def)

lemma same_shape_trans: "same_shape a b \<Longrightarrow> same_shape b c \<Longrightarrow> same_shape a c"
  by (simp add: same_shape_def)

lemma map_shape_nth:
  assumes "map f ys = map f xs"
  shows "length ys = length xs" "i < length xs \<Longrightarrow> f (ys ! i) = f (xs ! i)"
  using assms map_eq_imp_length_eq [OF assms] by (simp, metis nth_map)

lemma shapeD:
  assumes "same_shape nt nt'"
  shows "net_node_count nt' = net_node_count nt" "length (net_buffers nt') = length (net_buffers nt)"
    "length (net_link_list nt') = length (net_link_list nt)" "net_routing_table nt' = net_routing_table nt"
    "n < net_node_count nt \<Longrightarrow> nn_kind (node_at nt' n) = nn_kind (node_at nt n) \<and>
       nn_index (node_at nt' n) = nn_index (node_at nt n) \<and> nn_bandwidth (node_at nt' n) = nn_bandwidth (node_at nt n) \<and>
       nn_input_buffer_list (node_at nt' n) = nn_input_buffer_list (node_at nt n) \<and>
       nn_output_buffer_list (node_at nt' n) = nn_output_buffer_list (node_at nt n)"
    "b < length (net_buffers nt) \<Longrightarrow> nb_node (buffer_at nt' b) = nb_node (buffer_at nt b) \<and>
       nb_index (buffer_at nt' b) = nb_index (buffer_at nt b) \<and> nb_size (buffer_at nt' b) = nb_size (buffer_at nt b) \<and>
       nb_link (buffer_at nt' b) = nb_link (buffer_at nt b)"
    "l < length (net_link_list nt) \<Longrightarrow> lk_src_node (link_at nt' l) = lk_src_node (link_at nt l) \<and>
       lk_src_buffer (link_at nt' l) = lk_src_buffer (link_at nt l) \<and> lk_dst_node (link_at nt' l) = lk_dst_node (link_at nt l) \<and>
       lk_dst_buffer (link_at nt' l) = lk_dst_buffer (link_at nt l) \<and> lk_bandwidth (link_at nt' l) = lk_bandwidth (link_at nt l)"
  using assms map_shape_nth [of node_shape "net_node_list nt'" "net_node_list nt"]
    map_shape_nth [of buffer_shape "net_buffers nt'" "net_buffers nt"]
    map_shape_nth [of link_shape "net_link_list nt'" "net_link_list nt"]
  by (simp_all add: same_shape_def net_node_count_def node_shape_def buffer_shape_def link_shape_def)

lemma map_shape_update:
  "(i < length xs \<Longrightarrow> f y = f (xs ! i)) \<Longrightarrow> map f (xs[i := y]) = map f xs"
  by (cases "i < length xs") (simp_all add: map_update list_update_same_conv list_update_beyond)

lemma shape_upd [simp]:
  "(\<And>x. buffer_shape (f x) = buffer_shape x) \<Longrightarrow> same_shape nt (upd_buffer b f nt)"
  "(\<And>x. link_shape (g x) = link_shape x) \<Longrightarrow> same_shape nt (upd_link l g nt)"
  "(\<And>x. node_shape (h x) = node_shape x) \<Longrightarrow> same_shape nt (upd_node n h nt)"
  "same_shape nt (upd_msg m k nt)"
  by (simp_all add: same_shape_def upd_buffer_def put_buffer_def upd_link_def put_link_def upd_node_def put_node_def
      upd_msg_def put_msg_def map_shape_update)

lemma topo_shape:
  assumes s: "same_shape nt nt'" and t: "topo_ok nt"
  shows "topo_ok nt'"
proof -
  note D = shapeD [OF s]
  have out: "out_ok nt' n i" if "n < net_node_count nt" "i < length (nn_output_buffer_list (node_at nt n))" for n i
  proof -
    have "out_ok nt n i" using t that by (simp add: topo_ok_def node_ok_def)
    with D that show ?thesis by (auto simp: out_ok_def Let_def)
  qed
  have inp: "in_ok nt' n i" if "n < net_node_count nt" "i < length (nn_input_buffer_list (node_at nt n))" for n i
  proof -
    have "in_ok nt n i" using t that by (simp add: topo_ok_def node_ok_def)
    with D that show ?thesis by (auto simp: in_ok_def Let_def)
  qed
  have "node_ok nt' n" if "n < net_node_count nt" for n
    using t that out inp D(5) [OF that] by (simp add: topo_ok_def node_ok_def)
  moreover have "link_ok nt' l" if l: "l < length (net_link_list nt)" for l
  proof -
    note L = topo_linkD [OF t l]
    have "lk_src_buffer (link_at nt l) < length (net_buffers nt)" "lk_dst_buffer (link_at nt l) < length (net_buffers nt)"
      using topo_outD(1) [OF t L(1,4)] topo_inD(1) [OF t L(2,5)] by simp_all
    with L D(1) D(7) [OF l] D(5) [OF L(1)] D(5) [OF L(2)] D(6) show ?thesis by (simp add: link_ok_def Let_def)
  qed
  moreover have "nb_size (buffer_at nt' b) \<ge> 1 \<and> nb_node (buffer_at nt' b) < net_node_count nt \<and>
        b \<in> set (nn_output_buffer_list (node_at nt' (nb_node (buffer_at nt' b)))) \<union>
            set (nn_input_buffer_list (node_at nt' (nb_node (buffer_at nt' b))))" if "b < length (net_buffers nt)" for b
    using t that D(1) D(5) D(6) [OF that] by (simp add: topo_ok_def)
  ultimately show ?thesis unfolding topo_ok_def D(1,2,3) by blast
qed


lemma shape_same:
  assumes "same_shape nt nt'" "topo_ok nt"
  shows "b < length (net_buffers nt) \<Longrightarrow> dst_of nt' b = dst_of nt b" "table_ok nt' rt = table_ok nt rt"
proof -
  note D = shapeD [OF assms(1)]
  show d: "dst_of nt' b = dst_of nt b" if b: "b < length (net_buffers nt)" for b
  proof -
    have "b \<in> set (nn_output_buffer_list (node_at nt (nb_node (buffer_at nt b)))) \<union>
        set (nn_input_buffer_list (node_at nt (nb_node (buffer_at nt b))))" "nb_node (buffer_at nt b) < net_node_count nt"
      using assms(2) b by (simp_all add: topo_ok_def)
    then obtain l where "l < length (net_link_list nt)" "nb_link (buffer_at nt b) = Some l"
      using topo_outD(3) [OF assms(2)] topo_inD(3) [OF assms(2)] by blast
    with D(6) [OF b] D(7) show ?thesis by (simp add: dst_of_def)
  qed
  show "table_ok nt' rt = table_ok nt rt"
  proof -
    have "b \<in> set (nn_output_buffer_list (node_at nt i)) \<Longrightarrow> dst_of nt' b = dst_of nt b"
      if "i < net_node_count nt" for i b using topo_outD(1) [OF assms(2) that] d by blast
    then show ?thesis unfolding table_ok_def D(1) using D(5) by (metis (no_types, lifting))
  qed
qed

section \<open>Contents\<close>

definition is_out :: "'d net_t \<Rightarrow> nat \<Rightarrow> bool" where
  "is_out nt b \<longleftrightarrow> b < length (net_buffers nt) \<and> b \<in> set (nn_output_buffer_list (node_at nt (nb_node (buffer_at nt b))))"

definition is_in :: "'d net_t \<Rightarrow> nat \<Rightarrow> bool" where
  "is_in nt b \<longleftrightarrow> b < length (net_buffers nt) \<and> b \<in> set (nn_input_buffer_list (node_at nt (nb_node (buffer_at nt b))))"

definition msg_size :: "'d net_t \<Rightarrow> int \<Rightarrow> int" where
  "msg_size nt m = (case net_msgs nt m of Some y \<Rightarrow> nm_size y | None \<Rightarrow> 0)"

text \<open>A buffer: what it counts is what it holds, it holds no more than it can, its messages know
  where they are, and nobody waits for space in an empty buffer.\<close>

definition buf_ok :: "'d net_t \<Rightarrow> nat \<Rightarrow> bool" where
  "buf_ok nt b \<longleftrightarrow>
     (let x = buffer_at nt b in
      distinct (nb_msg_list x) \<and> nb_count x = (\<Sum>m\<leftarrow>nb_msg_list x. msg_size nt m) \<and> nb_count x \<le> nb_size x \<and>
      (\<forall>m \<in> set (nb_msg_list x). \<exists>y. net_msgs nt m = Some y \<and> nm_buffer y = Some b) \<and>
      (nb_wakeup_list x \<noteq> [] \<longrightarrow> nb_msg_list x \<noteq> []))"

text \<open>A node from which a destination can be reached, or the destination itself.\<close>

definition routed :: "'d net_t \<Rightarrow> nat \<Rightarrow> nat \<Rightarrow> bool" where
  "routed nt n j \<longleftrightarrow> n = j \<or>
     re_output_buffer (ent (net_routing_table nt) n j) \<noteq> None \<and> nn_kind (node_at nt n) \<noteq> net_node_end"

definition msg_ok :: "'d net_t \<Rightarrow> int \<Rightarrow> bool" where
  "msg_ok nt m \<longleftrightarrow> (\<forall>y. net_msgs nt m = Some y \<longrightarrow>
     0 < m \<and> m \<le> net_msg_id_counter nt \<and> nm_size y \<ge> 1 \<and> nm_dst_node y < net_node_count nt \<and>
     nn_kind (node_at nt (nm_dst_node y)) = net_node_end \<and>
     (\<exists>b. nm_buffer y = Some b \<and> (is_out nt b \<or> is_in nt b) \<and> m \<in> set (nb_msg_list (buffer_at nt b)) \<and>
        nm_node y = Some (nb_node (buffer_at nt b)) \<and>
        routed nt (if is_out nt b then dst_of nt b else nb_node (buffer_at nt b)) (nm_dst_node y)))"

text \<open>The table of messages holds each message in flight once, in its bucket.\<close>

definition msg_table_ok :: "'d net_t \<Rightarrow> bool" where
  "msg_table_ok nt \<longleftrightarrow> length (net_msg_table nt) = NET_MSG_TABLE_SIZE \<and>
     (\<forall>m. count_list (net_msg_table nt ! msg_bucket m) m = (if net_msgs nt m = None then 0 else 1))"

text \<open>Routes go through switches only, and continue where they lead.\<close>

definition transit_ok :: "'d net_t \<Rightarrow> bool" where
  "transit_ok nt \<longleftrightarrow> (\<forall>i < net_node_count nt. \<forall>j < net_node_count nt. \<forall>b. i \<noteq> j \<longrightarrow>
     re_output_buffer (ent (net_routing_table nt) i j) = Some b \<longrightarrow> routed nt (dst_of nt b) j)"

definition contents_ok :: "'d net_t \<Rightarrow> bool" where
  "contents_ok nt \<longleftrightarrow> topo_ok nt \<and> table_ok nt (net_routing_table nt) \<and> transit_ok nt \<and> no_self_links nt \<and>
     net_msg_id_counter nt \<ge> 0 \<and> (\<forall>b < length (net_buffers nt). buf_ok nt b) \<and> (\<forall>m. msg_ok nt m)"

lemma out_not_in: "topo_ok nt \<Longrightarrow> is_out nt b \<Longrightarrow> is_in nt b \<Longrightarrow> False"
proof -
  assume t: "topo_ok nt" and o: "is_out nt b" and i: "is_in nt b"
  have n: "nb_node (buffer_at nt b) < net_node_count nt" using t o by (simp add: topo_ok_def is_out_def)
  have "b \<in> set (nn_output_buffer_list (node_at nt (nb_node (buffer_at nt b))))"
    "b \<in> set (nn_input_buffer_list (node_at nt (nb_node (buffer_at nt b))))"
    using o i by (simp_all add: is_out_def is_in_def)
  from topo_outD(3) [OF t n this(1)] topo_inD(3) [OF t n this(2)] obtain l where
    l: "l < length (net_link_list nt)" "lk_src_buffer (link_at nt l) = b" "lk_dst_buffer (link_at nt l) = b" by force
  from topo_linkD(6) [OF t l(1)] l(2,3) show False by simp
qed

lemma out_or_in: "topo_ok nt \<Longrightarrow> b < length (net_buffers nt) \<Longrightarrow> is_out nt b \<or> is_in nt b"
  by (auto simp: topo_ok_def is_out_def is_in_def)

lemma is_outD:
  assumes "topo_ok nt" "is_out nt b"
  obtains l where "l < length (net_link_list nt)" "nb_link (buffer_at nt b) = Some l" "lk_src_buffer (link_at nt l) = b"
    "lk_dst_buffer (link_at nt l) \<noteq> b" "is_in nt (lk_dst_buffer (link_at nt l))" "dst_of nt b = lk_dst_node (link_at nt l)"
    "nb_node (buffer_at nt (lk_dst_buffer (link_at nt l))) = dst_of nt b" "lk_bandwidth (link_at nt l) \<ge> 1"
proof -
  have n: "nb_node (buffer_at nt b) < net_node_count nt" using assms by (simp add: topo_ok_def is_out_def)
  from topo_outD(3) [OF assms(1) n, of b] assms(2) obtain l where
    l: "l < length (net_link_list nt)" "nb_link (buffer_at nt b) = Some l" "lk_src_buffer (link_at nt l) = b"
    by (auto simp: is_out_def)
  note L = topo_linkD [OF assms(1) l(1)]
  have "nb_node (buffer_at nt (lk_dst_buffer (link_at nt l))) = lk_dst_node (link_at nt l)"
    "lk_dst_buffer (link_at nt l) < length (net_buffers nt)"
    using topo_inD(1,2) [OF assms(1) L(2,5)] by simp_all
  with l L that show thesis by (auto simp: dst_of_def is_in_def)
qed

lemma is_out_shape:
  assumes "same_shape nt nt'" "topo_ok nt"
  shows "is_out nt' b = is_out nt b" "is_in nt' b = is_in nt b"
proof -
  note D = shapeD [OF assms(1)]
  have "b < length (net_buffers nt) \<Longrightarrow> nb_node (buffer_at nt b) < net_node_count nt"
    using assms(2) by (simp add: topo_ok_def)
  with D show "is_out nt' b = is_out nt b" "is_in nt' b = is_in nt b" unfolding is_out_def is_in_def by metis+
qed

lemma routed_shape:
  assumes "same_shape nt nt'" "n < net_node_count nt"
  shows "routed nt' n j = routed nt n j"
  using shapeD(4,5) [OF assms(1)] assms(2) by (simp add: routed_def)

lemma dst_node_less:
  assumes "topo_ok nt" "is_out nt b"
  shows "dst_of nt b < net_node_count nt"
  by (rule is_outD [OF assms]) (simp add: topo_linkD(2) [OF assms(1)])

definition contents :: "'d net_t \<Rightarrow> nat \<Rightarrow> int \<times> int list \<times> (int \<times> 'd) list" where
  "contents nt b = (nb_count (buffer_at nt b), nb_msg_list (buffer_at nt b), nb_wakeup_list (buffer_at nt b))"

text \<open>The contents of one buffer and the messages change.\<close>

definition changed :: "'d net_t \<Rightarrow> 'd net_t \<Rightarrow> nat \<Rightarrow> (int \<times> int list \<times> (int \<times> 'd) list) \<Rightarrow> (int \<rightharpoonup> net_msg_t) \<Rightarrow> bool" where
  "changed nt nt' b c M \<longleftrightarrow> same_shape nt nt' \<and> net_msgs nt' = M \<and> net_msg_id_counter nt' = net_msg_id_counter nt \<and>
     contents nt' b = c \<and> (\<forall>b' < length (net_buffers nt). b' \<noteq> b \<longrightarrow> contents nt' b' = contents nt b')"

lemma static_shape:
  assumes s: "same_shape nt nt'" and ok: "contents_ok nt"
  shows "topo_ok nt'" "table_ok nt' (net_routing_table nt')" "transit_ok nt'" "no_self_links nt'"
proof -
  have t: "topo_ok nt" using ok by (simp add: contents_ok_def)
  show t': "topo_ok nt'" by (rule topo_shape [OF s t])
  note D = shapeD [OF s]
  show "table_ok nt' (net_routing_table nt')"
    using ok shape_same(2) [OF s t] by (simp add: contents_ok_def D(4))
  show "transit_ok nt'"
    unfolding transit_ok_def D(1) D(4)
  proof (intro allI impI)
    fix i j b assume ij: "i < net_node_count nt" "j < net_node_count nt" "i \<noteq> j"
      and b: "re_output_buffer (ent (net_routing_table nt) i j) = Some b"
    from ok ij b have o: "b \<in> set (nn_output_buffer_list (node_at nt i))" by (simp add: contents_ok_def table_ok_def)
    note bl = buffer_link_out(2) [OF t ij(1) o] and bb = topo_outD(1) [OF t ij(1) o]
    from ok ij b have "routed nt (dst_of nt b) j" by (simp add: contents_ok_def transit_ok_def)
    then show "routed nt' (dst_of nt' b) j" using routed_shape [OF s bl] shape_same(1) [OF s t bb] by simp
  qed
  have "edges nt' = edges nt"
  proof -
    have "b \<in> set (nn_output_buffer_list (node_at nt n)) \<Longrightarrow> dst_of nt' b = dst_of nt b"
      if "n < net_node_count nt" for n b using topo_outD(1) [OF t that] shape_same(1) [OF s t] by blast
    with D(1,5) show ?thesis unfolding edges_dst [OF t] edges_dst [OF t'] by (auto; metis)
  qed
  with ok show "no_self_links nt'" by (simp add: contents_ok_def no_self_links_def)
qed

lemma msg_size_other: "net_msgs nt' m = net_msgs nt m \<Longrightarrow> msg_size nt' m = msg_size nt m"
  by (simp add: msg_size_def)

lemma buf_okD:
  assumes "contents_ok nt" "b < length (net_buffers nt)"
  shows "distinct (nb_msg_list (buffer_at nt b))"
    "nb_count (buffer_at nt b) = (\<Sum>m\<leftarrow>nb_msg_list (buffer_at nt b). msg_size nt m)"
    "nb_count (buffer_at nt b) \<le> nb_size (buffer_at nt b)"
    "m \<in> set (nb_msg_list (buffer_at nt b)) \<Longrightarrow> \<exists>y. net_msgs nt m = Some y \<and> nm_buffer y = Some b"
    "nb_wakeup_list (buffer_at nt b) \<noteq> [] \<Longrightarrow> nb_msg_list (buffer_at nt b) \<noteq> []"
  using assms by (auto simp: contents_ok_def buf_ok_def Let_def)

lemma msg_okD:
  assumes "contents_ok nt" "net_msgs nt m = Some y"
  shows "0 < m" "m \<le> net_msg_id_counter nt" "nm_size y \<ge> 1" "nm_dst_node y < net_node_count nt"
    "nn_kind (node_at nt (nm_dst_node y)) = net_node_end"
    "\<exists>b. nm_buffer y = Some b \<and> (is_out nt b \<or> is_in nt b) \<and> m \<in> set (nb_msg_list (buffer_at nt b)) \<and>
        nm_node y = Some (nb_node (buffer_at nt b)) \<and>
        routed nt (if is_out nt b then dst_of nt b else nb_node (buffer_at nt b)) (nm_dst_node y)"
  using assms unfolding contents_ok_def msg_ok_def by blast+

lemma contentsD:
  assumes "contents nt' b = contents nt b"
  shows "nb_count (buffer_at nt' b) = nb_count (buffer_at nt b)" "nb_msg_list (buffer_at nt' b) = nb_msg_list (buffer_at nt b)"
    "nb_wakeup_list (buffer_at nt' b) = nb_wakeup_list (buffer_at nt b)"
  using assms by (simp_all add: contents_def)

text \<open>A message elsewhere keeps its place.\<close>

lemma msg_ok_keep:
  assumes s: "same_shape nt nt'" and ok: "contents_ok nt" and c: "net_msg_id_counter nt' \<ge> net_msg_id_counter nt"
    and m: "net_msgs nt' m = net_msgs nt m"
    and keep: "\<And>b. b < length (net_buffers nt) \<Longrightarrow> m \<in> set (nb_msg_list (buffer_at nt b)) \<Longrightarrow> m \<in> set (nb_msg_list (buffer_at nt' b))"
  shows "msg_ok nt' m"
  unfolding msg_ok_def m
proof (intro allI impI)
  fix y assume y: "net_msgs nt m = Some y"
  have t: "topo_ok nt" using ok by (simp add: contents_ok_def)
  note M = msg_okD [OF ok y] and D = shapeD [OF s]
  from M(6) obtain b where b: "nm_buffer y = Some b" "is_out nt b \<or> is_in nt b" "m \<in> set (nb_msg_list (buffer_at nt b))"
    "nm_node y = Some (nb_node (buffer_at nt b))"
    "routed nt (if is_out nt b then dst_of nt b else nb_node (buffer_at nt b)) (nm_dst_node y)" by blast
  then have bl: "b < length (net_buffers nt)" by (auto simp: is_out_def is_in_def)
  have nl: "nb_node (buffer_at nt b) < net_node_count nt" using t bl by (simp add: topo_ok_def)
  let ?n = "if is_out nt b then dst_of nt b else nb_node (buffer_at nt b)"
  have "?n < net_node_count nt" using nl dst_node_less [OF t] by simp
  with b(5) routed_shape [OF s] have "routed nt' ?n (nm_dst_node y)" by blast
  moreover have "m \<in> set (nb_msg_list (buffer_at nt' b))" by (rule keep [OF bl b(3)])
  moreover have "nb_node (buffer_at nt' b) = nb_node (buffer_at nt b)" "dst_of nt' b = dst_of nt b"
    using D(6) [OF bl] shape_same(1) [OF s t bl] by simp_all
  ultimately have "\<exists>b. nm_buffer y = Some b \<and> (is_out nt' b \<or> is_in nt' b) \<and> m \<in> set (nb_msg_list (buffer_at nt' b)) \<and>
        nm_node y = Some (nb_node (buffer_at nt' b)) \<and>
        routed nt' (if is_out nt' b then dst_of nt' b else nb_node (buffer_at nt' b)) (nm_dst_node y)"
    using b by (intro exI [of _ b]) (auto simp: is_out_shape [OF s t] split: if_splits)
  then show "0 < m \<and> m \<le> net_msg_id_counter nt' \<and> nm_size y \<ge> 1 \<and> nm_dst_node y < net_node_count nt' \<and>
     nn_kind (node_at nt' (nm_dst_node y)) = net_node_end \<and>
     (\<exists>b. nm_buffer y = Some b \<and> (is_out nt' b \<or> is_in nt' b) \<and> m \<in> set (nb_msg_list (buffer_at nt' b)) \<and>
        nm_node y = Some (nb_node (buffer_at nt' b)) \<and>
        routed nt' (if is_out nt' b then dst_of nt' b else nb_node (buffer_at nt' b)) (nm_dst_node y))"
    using M(1-5) D(1) D(5) [OF M(4)] c by simp
qed

lemma remove_ok:
  assumes ok: "contents_ok nt" and b: "b < length (net_buffers nt)" "nb_msg_list (buffer_at nt b) = m # xs"
    and ch: "changed nt nt' b (nb_count (buffer_at nt b) - msg_size nt m, xs, []) ((net_msgs nt)(m := None))"
  shows "contents_ok nt'"
proof -
  have s: "same_shape nt nt'" and M: "net_msgs nt' = (net_msgs nt)(m := None)"
    and cnt: "net_msg_id_counter nt' = net_msg_id_counter nt"
    and cb: "contents nt' b = (nb_count (buffer_at nt b) - msg_size nt m, xs, [])"
    and co: "\<And>b'. b' < length (net_buffers nt) \<Longrightarrow> b' \<noteq> b \<Longrightarrow> contents nt' b' = contents nt b'"
    using ch by (simp_all add: changed_def)
  note D = shapeD [OF s]
  have size: "msg_size nt' x = msg_size nt x" if "x \<noteq> m" for x using that M by (intro msg_size_other) simp
  have buf: "buf_ok nt' b'" if b': "b' < length (net_buffers nt)" for b'
  proof (cases "b' = b")
    case True
    note B = buf_okD [OF ok b(1)]
    have "m \<notin> set xs" using B(1) b(2) by simp
    then have "sum_list (map (msg_size nt') xs) = sum_list (map (msg_size nt) xs)"
      by (intro arg_cong [where f = sum_list] map_cong [OF refl] size) blast
    moreover have "nb_count (buffer_at nt' b) = nb_count (buffer_at nt b) - msg_size nt m" "nb_msg_list (buffer_at nt' b) = xs"
      "nb_wakeup_list (buffer_at nt' b) = []" using cb by (simp_all add: contents_def)
    moreover have "0 \<le> msg_size nt m"
      using B(4) [of m] b(2) msg_okD(3) [OF ok, of m] by (fastforce simp: msg_size_def)
    ultimately show ?thesis
      using B b(2) \<open>m \<notin> set xs\<close> D(6) [OF b(1)] True by (auto simp: buf_ok_def M)
  next
    case False
    note B = buf_okD [OF ok b'] and C = contentsD [OF co [OF b' False]]
    have "m \<notin> set (nb_msg_list (buffer_at nt b'))"
      using B(4) [of m] buf_okD(4) [OF ok b(1), of m] b(2) False by auto
    then have "sum_list (map (msg_size nt') (nb_msg_list (buffer_at nt b'))) =
        sum_list (map (msg_size nt) (nb_msg_list (buffer_at nt b')))"
      by (intro arg_cong [where f = sum_list] map_cong [OF refl] size) blast
    with B C D(6) [OF b'] \<open>m \<notin> _\<close> show ?thesis by (auto simp: buf_ok_def M Let_def)
  qed
  have msg: "msg_ok nt' x" for x
  proof (cases "x = m")
    case True
    then show ?thesis by (simp add: msg_ok_def M)
  next
    case False
    show ?thesis
    proof (rule msg_ok_keep [OF s ok])
      fix b' assume b': "b' < length (net_buffers nt)" "x \<in> set (nb_msg_list (buffer_at nt b'))"
      show "x \<in> set (nb_msg_list (buffer_at nt' b'))"
        using b' False b(2) cb contentsD(2) [OF co [OF b'(1)]] by (cases "b' = b") (auto simp: contents_def)
    qed (use False M cnt in simp_all)
  qed
  show ?thesis
    using static_shape [OF s ok] buf msg ok cnt D(2) by (simp add: contents_ok_def)
qed


lemma insert_ok:
  assumes ok: "contents_ok nt" and b: "b < length (net_buffers nt)"
    and m: "net_msgs nt m = None" "0 < m" "m \<le> net_msg_id_counter nt'"
    and y: "nm_size y \<ge> 1" "nm_dst_node y < net_node_count nt" "nn_kind (node_at nt (nm_dst_node y)) = net_node_end"
      "nm_buffer y = Some b" "nm_node y = Some (nb_node (buffer_at nt b))"
      "routed nt (if is_out nt b then dst_of nt b else nb_node (buffer_at nt b)) (nm_dst_node y)"
    and fits: "nb_count (buffer_at nt b) + nm_size y \<le> nb_size (buffer_at nt b)"
    and s: "same_shape nt nt'" and M: "net_msgs nt' = (net_msgs nt)(m \<mapsto> y)"
    and cnt: "net_msg_id_counter nt \<le> net_msg_id_counter nt'"
    and cb: "contents nt' b = (nb_count (buffer_at nt b) + nm_size y, nb_msg_list (buffer_at nt b) @ [m], nb_wakeup_list (buffer_at nt b))"
    and co: "\<And>b'. b' < length (net_buffers nt) \<Longrightarrow> b' \<noteq> b \<Longrightarrow> contents nt' b' = contents nt b'"
  shows "contents_ok nt'"
proof -
  have t: "topo_ok nt" using ok by (simp add: contents_ok_def)
  note D = shapeD [OF s]
  have size: "msg_size nt' x = msg_size nt x" if "x \<noteq> m" for x using that M by (intro msg_size_other) simp
  have fresh: "m \<notin> set (nb_msg_list (buffer_at nt b'))" if "b' < length (net_buffers nt)" for b'
    using buf_okD(4) [OF ok that, of m] m(1) by auto
  have sums: "sum_list (map (msg_size nt') (nb_msg_list (buffer_at nt b'))) = sum_list (map (msg_size nt) (nb_msg_list (buffer_at nt b')))"
    if "b' < length (net_buffers nt)" for b'
    using fresh [OF that] by (intro arg_cong [where f = sum_list] map_cong [OF refl] size) blast
  have buf: "buf_ok nt' b'" if b': "b' < length (net_buffers nt)" for b'
  proof (cases "b' = b")
    case True
    note B = buf_okD [OF ok b]
    have c: "nb_count (buffer_at nt' b) = nb_count (buffer_at nt b) + nm_size y"
      "nb_msg_list (buffer_at nt' b) = nb_msg_list (buffer_at nt b) @ [m]" using cb by (simp_all add: contents_def)
    have "msg_size nt' m = nm_size y" by (simp add: msg_size_def M)
    with c B(2) sums [OF b] have "nb_count (buffer_at nt' b) = (\<Sum>m\<leftarrow>nb_msg_list (buffer_at nt' b). msg_size nt' m)" by simp
    moreover have "\<exists>z. net_msgs nt' x = Some z \<and> nm_buffer z = Some b" if "x \<in> set (nb_msg_list (buffer_at nt' b))" for x
      using that B(4) [of x] y(4) c(2) by (auto simp: M)
    ultimately show ?thesis
      using B(1) fresh [OF b] c fits D(6) [OF b] True by (simp add: buf_ok_def Let_def)
  next
    case False
    note B = buf_okD [OF ok b'] and C = contentsD [OF co [OF b' False]]
    from B C D(6) [OF b'] fresh [OF b'] sums [OF b'] show ?thesis by (auto simp: buf_ok_def M Let_def)
  qed
  have msg: "msg_ok nt' x" for x
  proof (cases "x = m")
    case True
    have nl: "nb_node (buffer_at nt b) < net_node_count nt" using t b by (simp add: topo_ok_def)
    let ?n = "if is_out nt b then dst_of nt b else nb_node (buffer_at nt b)"
    have "?n < net_node_count nt" using nl dst_node_less [OF t] by simp
    with y(6) routed_shape [OF s] have r: "routed nt' ?n (nm_dst_node y)" by blast
    have "\<exists>b. nm_buffer y = Some b \<and> (is_out nt' b \<or> is_in nt' b) \<and> m \<in> set (nb_msg_list (buffer_at nt' b)) \<and>
        nm_node y = Some (nb_node (buffer_at nt' b)) \<and>
        routed nt' (if is_out nt' b then dst_of nt' b else nb_node (buffer_at nt' b)) (nm_dst_node y)"
      using y(4,5) r out_or_in [OF t b] D(6) [OF b] shape_same(1) [OF s t b] cb
      by (intro exI [of _ b]) (auto simp: is_out_shape [OF s t] contents_def split: if_splits)
    then show ?thesis
      using True m(2,3) y(1-3) D(1) D(5) [OF y(2)] by (simp add: msg_ok_def M)
  next
    case False
    show ?thesis
    proof (rule msg_ok_keep [OF s ok cnt])
      fix b' assume b': "b' < length (net_buffers nt)" "x \<in> set (nb_msg_list (buffer_at nt b'))"
      show "x \<in> set (nb_msg_list (buffer_at nt' b'))"
        using b' cb contentsD(2) [OF co [OF b'(1)]] by (cases "b' = b") (auto simp: contents_def)
    qed (use False M in simp)
  qed
  show ?thesis
    using static_shape [OF s ok] buf msg ok cnt D(2) by (simp add: contents_ok_def)
qed

text \<open>Waiting for space in a buffer that holds something, and changes of no consequence.\<close>

lemma keep_ok:
  assumes ok: "contents_ok nt" and s: "same_shape nt nt'" and M: "net_msgs nt' = net_msgs nt"
    and cnt: "net_msg_id_counter nt' = net_msg_id_counter nt"
    and co: "\<And>b. b < length (net_buffers nt) \<Longrightarrow> nb_count (buffer_at nt' b) = nb_count (buffer_at nt b) \<and>
      nb_msg_list (buffer_at nt' b) = nb_msg_list (buffer_at nt b) \<and>
      (nb_wakeup_list (buffer_at nt' b) = nb_wakeup_list (buffer_at nt b) \<or> nb_msg_list (buffer_at nt b) \<noteq> [])"
  shows "contents_ok nt'"
proof -
  note D = shapeD [OF s]
  have size: "msg_size nt' = msg_size nt" using M by (simp add: msg_size_def fun_eq_iff)
  have "buf_ok nt' b" if b: "b < length (net_buffers nt)" for b
    using buf_okD [OF ok b] co [OF b] D(6) [OF b] by (auto simp: buf_ok_def M size Let_def)
  moreover have "msg_ok nt' m" for m
    by (rule msg_ok_keep [OF s ok]) (use M cnt co in auto)
  ultimately show ?thesis
    using static_shape [OF s ok] ok cnt D(2) by (simp add: contents_ok_def)
qed

end
