(* ===== verification/Net_Safe.thy ===== *)
theory Net_Safe
  imports Net_Flow
begin

text \<open>
  Safety of the network events (\<open>src/network/message.c\<close>): pending events and waiting events are
  the tokens of the messages in flight. Every message that has not been delivered has exactly one
  token, which fits the place of the message; each event, injection and reception keeps this.
\<close>

section \<open>Tokens\<close>

definition pend :: "'d esim_t \<Rightarrow> (int \<times> 'd esim_event_t) multiset" where
  "pend s = image_mset (\<lambda>e. (he_value e, he_data e)) (mset (hp_elem (esim_event_heap s)))"

definition wakes :: "'d net_t \<Rightarrow> (int \<times> 'd) multiset" where
  "wakes nt = mset (concat (map nb_wakeup_list (net_buffers nt)))"

definition event_at :: "int \<Rightarrow> int \<times> 'd \<Rightarrow> int \<times> 'd esim_event_t" where
  "event_at w p = (w, \<lparr>ev_id = fst p, ev_data = snd p\<rparr>)"

text \<open>A waiting event counts as one for the current cycle, in which a wake-up would schedule it.\<close>

definition toks :: "'u net_state \<Rightarrow> (int \<times> 'u net_data esim_event_t) multiset" where
  "toks sw = pend (fst sw) + image_mset (event_at (esim_cycle (fst sw))) (wakes (snd sw))"

definition same_engine :: "'d esim_t \<Rightarrow> 'd esim_t \<Rightarrow> bool" where
  "same_engine s s' \<longleftrightarrow> esim_cycle s' = esim_cycle s \<and> esim_lock_schedule s' = esim_lock_schedule s \<and>
     esim_event_info_list s' = esim_event_info_list s \<and> esim_ev_none s' = esim_ev_none s"

definition known :: "'d esim_t \<Rightarrow> int \<Rightarrow> bool" where
  "known s e \<longleftrightarrow> \<not> unknown_event s e \<and> e \<noteq> 0"

lemma same_engine_refl [simp]: "same_engine s s"
  by (simp add: same_engine_def)

lemma same_engine_trans: "same_engine a b \<Longrightarrow> same_engine b c \<Longrightarrow> same_engine a c"
  by (simp add: same_engine_def)

lemma same_engineD:
  assumes "same_engine s s'"
  shows "esim_cycle s' = esim_cycle s" "esim_lock_schedule s' = esim_lock_schedule s" "known s' e = known s e"
  using assms by (simp_all add: same_engine_def known_def unknown_event_def)

lemma schedule_pend:
  assumes "esim_ok s" "\<not> esim_lock_schedule s" "known s e" "0 \<le> after"
  shows "\<exists>s'. esim_schedule_event s e d after = Inr s' \<and> esim_ok s' \<and> same_engine s s' \<and>
    pend s' = pend s + (if e = 1 then {#} else {#event_at (esim_cycle s + after) (e, d)#})"
proof -
  from schedule_ok [OF assms(1,2), of e after d] assms(3,4) obtain s' where
    s': "esim_schedule_event s e d after = Inr s'" "esim_ok s'" "esim_cycle s' = esim_cycle s"
      "e \<noteq> 1 \<longrightarrow> mset (hp_elem (esim_event_heap s')) =
         add_mset \<lparr>he_time = hp_time (esim_event_heap s), he_value = esim_cycle s + after,
                   he_data = \<lparr>ev_id = e, ev_data = d\<rparr>\<rparr> (mset (hp_elem (esim_event_heap s)))"
      "e = 1 \<longrightarrow> s' = s" by (auto simp: known_def)
  have "same_engine s s'"
    using s'(1) by (auto simp: esim_schedule_event_def same_engine_def Let_def split: if_splits)
  with s' show ?thesis by (auto simp: pend_def event_at_def)
qed

lemma wakeup_loop_pend:
  assumes "esim_ok s" "\<not> esim_lock_schedule s" "\<forall>p \<in> set ws. known s (fst p) \<and> fst p \<noteq> 1"
  shows "\<exists>s'. wakeup_loop ws s = Inr s' \<and> esim_ok s' \<and> same_engine s s' \<and>
    pend s' = pend s + image_mset (event_at (esim_cycle s)) (mset ws)"
  using assms
proof (induction ws arbitrary: s)
  case (Cons p ws)
  obtain e d where p: "p = (e, d)" by (cases p)
  have k: "known s e" "e \<noteq> 1" using Cons.prems(3) p by simp_all
  from schedule_pend [OF Cons.prems(1,2) k(1), of 0 d] k(2) obtain t where
    t: "esim_schedule_event s e d 0 = Inr t" "esim_ok t" "same_engine s t"
      "pend t = pend s + {#event_at (esim_cycle s) (e, d)#}" by auto
  have "\<not> esim_lock_schedule t" "\<forall>p \<in> set ws. known t (fst p) \<and> fst p \<noteq> 1"
    using same_engineD [OF t(3)] Cons.prems by auto
  from Cons.IH [OF t(2) this] obtain s' where
    "wakeup_loop ws t = Inr s'" "esim_ok s'" "same_engine t s'"
    "pend s' = pend t + image_mset (event_at (esim_cycle t)) (mset ws)" by blast
  with t p same_engineD(1) [OF t(3)] same_engine_trans [OF t(3)] show ?case
    by (intro exI [of _ s']) (simp add: ac_simps)
qed simp

lemma mset_concat_update:
  "b < length xs \<Longrightarrow> mset (concat (map f (xs[b := x]))) + mset (f (xs ! b)) = mset (concat (map f xs)) + mset (f x)"
proof (induction xs arbitrary: b)
  case (Cons y ys)
  show ?case
  proof (cases b)
    case (Suc k)
    with Cons.IH [of k] Cons.prems show ?thesis by (simp add: ac_simps)
  qed simp
qed simp

lemma wakes_put:
  "b < length (net_buffers nt) \<Longrightarrow>
   wakes (put_buffer b x nt) + mset (nb_wakeup_list (buffer_at nt b)) = wakes nt + mset (nb_wakeup_list x)"
  by (simp add: wakes_def put_buffer_def mset_concat_update)

lemma wakes_same:
  assumes "length (net_buffers nt') = length (net_buffers nt)"
    "\<And>b. b < length (net_buffers nt) \<Longrightarrow> nb_wakeup_list (buffer_at nt' b) = nb_wakeup_list (buffer_at nt b)"
  shows "wakes nt' = wakes nt"
proof -
  have "map nb_wakeup_list (net_buffers nt') = map nb_wakeup_list (net_buffers nt)"
    by (rule nth_equalityI) (use assms in simp_all)
  then show ?thesis by (simp add: wakes_def)
qed

lemma wake_in: "b < length (net_buffers nt) \<Longrightarrow> p \<in> set (nb_wakeup_list (buffer_at nt b)) \<Longrightarrow> p \<in># wakes nt"
  by (force simp: wakes_def)


section \<open>The invariant\<close>

definition delivered :: "'d net_t \<Rightarrow> int \<Rightarrow> bool" where
  "delivered nt m \<longleftrightarrow> (\<exists>y b. net_msgs nt m = Some y \<and> nm_buffer y = Some b \<and> is_in nt b \<and>
     nb_node (buffer_at nt b) = nm_dst_node y \<and> hd (nb_msg_list (buffer_at nt b)) = m)"

text \<open>The event of a message fits its place, and comes after the message is ready.\<close>

definition tok_ok :: "net_events \<Rightarrow> 'u net_data net_t \<Rightarrow> int \<Rightarrow> int \<Rightarrow> int \<Rightarrow> bool" where
  "tok_ok E nt w e m \<longleftrightarrow> (\<exists>y b. net_msgs nt m = Some y \<and> nm_buffer y = Some b \<and>
     (e = EV_NET_OUTPUT_BUFFER E \<and> is_out nt b \<and> nm_busy y < w \<or>
      e = EV_NET_INPUT_BUFFER E \<and> is_in nt b \<and> nm_busy y < w \<or>
      e = EV_NET_RECEIVE E \<and> delivered nt m))"

definition events_ok :: "net_events \<Rightarrow> 'd esim_t \<Rightarrow> bool" where
  "events_ok E s \<longleftrightarrow> distinct [EV_NET_SEND E, EV_NET_OUTPUT_BUFFER E, EV_NET_INPUT_BUFFER E, EV_NET_RECEIVE E, 1] \<and>
     (\<forall>e \<in> {EV_NET_SEND E, EV_NET_OUTPUT_BUFFER E, EV_NET_INPUT_BUFFER E, EV_NET_RECEIVE E}. known s e)"

definition is_stack :: "int \<Rightarrow> int \<times> 'u net_data esim_event_t \<Rightarrow> bool" where
  "is_stack m t \<longleftrightarrow> (case ev_data (snd t) of Net_stack x _ _ \<Rightarrow> x = m | _ \<Rightarrow> False)"

definition tokens :: "int \<Rightarrow> (int \<times> 'u net_data esim_event_t) multiset \<Rightarrow> nat" where
  "tokens m T = size (filter_mset (is_stack m) T)"

text \<open>What the user has a message return: a known event, with data of its own.\<close>

definition ret_ok :: "'d esim_t \<Rightarrow> int \<Rightarrow> 'u net_data \<Rightarrow> bool" where
  "ret_ok s e d \<longleftrightarrow> known s e \<and> (\<forall>m re rs. d \<noteq> Net_stack m re rs)"

definition good_tok :: "net_events \<Rightarrow> 'd esim_t \<Rightarrow> 'u net_data net_t \<Rightarrow> int \<times> 'u net_data esim_event_t \<Rightarrow> bool" where
  "good_tok E s nt t \<longleftrightarrow> (\<forall>m re rs. ev_data (snd t) = Net_stack m re rs \<longrightarrow>
     ret_ok s re rs \<and> tok_ok E nt (fst t) (ev_id (snd t)) m)"

text \<open>\<open>X\<close> are the events that have been taken from the heap and not handled yet.\<close>

definition net_inv :: "net_events \<Rightarrow> 'u net_state \<Rightarrow> (int \<times> 'u net_data esim_event_t) multiset \<Rightarrow> bool" where
  "net_inv E sw X \<longleftrightarrow> (case sw of (s, nt) \<Rightarrow>
     esim_ok s \<and> \<not> esim_lock_schedule s \<and> events_ok E s \<and> contents_ok nt \<and> msg_table_ok nt \<and>
     (\<forall>p \<in># wakes nt. known s (fst p) \<and> fst p \<noteq> 1) \<and>
     (\<forall>t \<in># toks sw + X. good_tok E s nt t) \<and>
     (\<forall>m. tokens m (toks sw + X) \<le> 1 \<and> (net_msgs nt m \<noteq> None \<longrightarrow> tokens m (toks sw + X) = 0 \<longrightarrow> delivered nt m)))"

lemma tokens_simps [simp]:
  "tokens m {#} = 0" "tokens m (A + B) = tokens m A + tokens m B"
  "tokens m (add_mset t A) = (if is_stack m t then 1 else 0) + tokens m A"
  by (simp_all add: tokens_def)

lemma tokens_zero: "tokens m T = 0 \<Longrightarrow> t \<in># T \<Longrightarrow> ev_data (snd t) \<noteq> Net_stack m re rs"
  by (cases t) (fastforce simp: tokens_def is_stack_def filter_mset_eq_mempty_iff split: net_data.splits)

lemma tokens_pos: "t \<in># T \<Longrightarrow> ev_data (snd t) = Net_stack m re rs \<Longrightarrow> 0 < tokens m T"
  using tokens_zero [of m T t re rs] by (cases "tokens m T") auto

text \<open>The places of all messages but one stay as they are.\<close>

definition others_stay :: "int \<Rightarrow> 'd net_t \<Rightarrow> 'd net_t \<Rightarrow> bool" where
  "others_stay m nt nt' \<longleftrightarrow> same_shape nt nt' \<and> (\<forall>x. x \<noteq> m \<longrightarrow> net_msgs nt' x = net_msgs nt x) \<and>
     (\<forall>b < length (net_buffers nt). \<forall>x. x \<noteq> m \<longrightarrow> x \<in> set (nb_msg_list (buffer_at nt b)) \<longrightarrow>
        hd (nb_msg_list (buffer_at nt b)) = x \<longrightarrow> hd (nb_msg_list (buffer_at nt' b)) = x)"

lemma delivered_stay:
  assumes st: "others_stay m nt nt'" and ok: "contents_ok nt" and d: "delivered nt x" and x: "x \<noteq> m"
  shows "delivered nt' x"
proof -
  have t: "topo_ok nt" using ok by (simp add: contents_ok_def)
  have s: "same_shape nt nt'" using st by (simp add: others_stay_def)
  from d obtain y b where y: "net_msgs nt x = Some y" "nm_buffer y = Some b" "is_in nt b"
     "nb_node (buffer_at nt b) = nm_dst_node y" "hd (nb_msg_list (buffer_at nt b)) = x" by (auto simp: delivered_def)
  have b: "b < length (net_buffers nt)" using y(3) by (simp add: is_in_def)
  have "x \<in> set (nb_msg_list (buffer_at nt b))" using msg_okD(6) [OF ok y(1)] y(2) by auto
  then have "hd (nb_msg_list (buffer_at nt' b)) = x" using st b x y(5) by (simp add: others_stay_def)
  moreover have "net_msgs nt' x = Some y" using st x y(1) by (simp add: others_stay_def)
  ultimately show ?thesis
    unfolding delivered_def
    by (intro exI [of _ y] exI [of _ b]) (use y(2-4) shapeD(6) [OF s b] is_out_shape(2) [OF s t] in simp)
qed

lemma tok_ok_stay:
  assumes st: "others_stay m nt nt'" and ok: "contents_ok nt" and k: "tok_ok E nt w e x" and x: "x \<noteq> m"
  shows "tok_ok E nt' w e x"
proof -
  have t: "topo_ok nt" using ok by (simp add: contents_ok_def)
  have s: "same_shape nt nt'" and y: "net_msgs nt' x = net_msgs nt x" using st x by (simp_all add: others_stay_def)
  show ?thesis
    using k delivered_stay [OF st ok _ x] unfolding tok_ok_def y is_out_shape [OF s t] by blast
qed


lemma net_invD:
  assumes "net_inv E (s, nt) X"
  shows "esim_ok s" "\<not> esim_lock_schedule s" "events_ok E s" "contents_ok nt" "msg_table_ok nt"
    "p \<in># wakes nt \<Longrightarrow> known s (fst p) \<and> fst p \<noteq> 1" "t \<in># toks (s, nt) + X \<Longrightarrow> good_tok E s nt t"
    "tokens m (toks (s, nt) + X) \<le> 1"
    "net_msgs nt m \<noteq> None \<Longrightarrow> tokens m (toks (s, nt) + X) = 0 \<Longrightarrow> delivered nt m"
  using assms unfolding net_inv_def prod.case by blast+

lemma net_invI:
  assumes "esim_ok s" "\<not> esim_lock_schedule s" "events_ok E s" "contents_ok nt" "msg_table_ok nt"
    "\<And>p. p \<in># wakes nt \<Longrightarrow> known s (fst p) \<and> fst p \<noteq> 1" "\<And>t. t \<in># toks (s, nt) + X \<Longrightarrow> good_tok E s nt t"
    "\<And>m. tokens m (toks (s, nt) + X) \<le> 1"
    "\<And>m. net_msgs nt m \<noteq> None \<Longrightarrow> tokens m (toks (s, nt) + X) = 0 \<Longrightarrow> delivered nt m"
  shows "net_inv E (s, nt) X"
  using assms unfolding net_inv_def prod.case by blast

lemma good_tok_engine:
  "same_engine s s' \<Longrightarrow> good_tok E s' nt t = good_tok E s nt t" "same_engine s s' \<Longrightarrow> events_ok E s' = events_ok E s"
  by (simp_all add: good_tok_def ret_ok_def events_ok_def same_engineD(3))

text \<open>An event in hand is scheduled, or waits.\<close>

lemma schedule_inv:
  assumes "net_inv E (s, nt) (add_mset (event_at (esim_cycle s + after) (e, d)) X)" "known s e" "e \<noteq> 1" "0 \<le> after"
  shows "\<exists>s'. schedule e d after (s, nt) = Inr (s', nt) \<and> same_engine s s' \<and> net_inv E (s', nt) X"
proof -
  note I = net_invD [OF assms(1)]
  from schedule_pend [OF I(1,2) assms(2,4), of d] assms(3) obtain s' where
    s': "esim_schedule_event s e d after = Inr s'" "esim_ok s'" "same_engine s s'"
      "pend s' = pend s + {#event_at (esim_cycle s + after) (e, d)#}" by auto
  have eq: "toks (s', nt) + X = toks (s, nt) + add_mset (event_at (esim_cycle s + after) (e, d)) X"
    using s'(4) same_engineD(1) [OF s'(3)] by (simp add: toks_def)
  have gd: "t \<in># toks (s', nt) + X \<Longrightarrow> good_tok E s' nt t" for t
    unfolding eq good_tok_engine(1) [OF s'(3)] by (rule I(7))
  have "events_ok E s'" "\<not> esim_lock_schedule s'" using I(2,3) good_tok_engine(2) [OF s'(3)] same_engineD [OF s'(3)] by simp_all
  then have "net_inv E (s', nt) X"
    by (intro net_invI) (use I(4-6,8,9) s'(2) gd same_engineD(3) [OF s'(3)] eq in metis)+
  with s' show ?thesis by (auto simp: schedule_def)
qed

lemma rehand:
  assumes "net_inv E (s, nt) (add_mset t X)" "is_stack m t" "is_stack m t'" "good_tok E s nt t'"
  shows "net_inv E (s, nt) (add_mset t' X)"
proof -
  have "is_stack x t' = is_stack x t" for x
    using assms(2,3) by (auto simp: is_stack_def split: net_data.splits)
  then have tk: "tokens x (toks (s, nt) + add_mset t' X) = tokens x (toks (s, nt) + add_mset t X)" for x by simp
  show ?thesis
    by (rule net_invI) (use net_invD [OF assms(1)] assms(4) tk in auto)
qed

text \<open>Changes that touch neither messages nor the contents of buffers.\<close>

definition same_contents :: "'d net_t \<Rightarrow> 'd net_t \<Rightarrow> bool" where
  "same_contents nt nt' \<longleftrightarrow> same_shape nt nt' \<and> net_msgs nt' = net_msgs nt \<and> net_msg_table nt' = net_msg_table nt \<and>
     net_msg_id_counter nt' = net_msg_id_counter nt \<and> (\<forall>b < length (net_buffers nt). contents nt' b = contents nt b)"

lemma same_contents_inv:
  assumes sc: "same_contents nt nt'" and inv: "net_inv E (s, nt) X"
  shows "net_inv E (s, nt') X"
proof -
  note I = net_invD [OF inv]
  have s: "same_shape nt nt'" and M: "net_msgs nt' = net_msgs nt"
    and c: "\<And>b. b < length (net_buffers nt) \<Longrightarrow> contents nt' b = contents nt b"
    using sc by (simp_all add: same_contents_def)
  have w: "wakes nt' = wakes nt"
    by (rule wakes_same) (use shapeD(2) [OF s] contentsD(3) [OF c] in auto)
  have eq: "toks (s, nt') = toks (s, nt)" by (simp add: toks_def w)
  have ok: "contents_ok nt'"
    by (rule keep_ok [OF I(4) s M]) (use sc contentsD [OF c] in \<open>auto simp: same_contents_def\<close>)
  have st: "others_stay m nt nt'" for m
    using s M contentsD(2) [OF c] by (simp add: others_stay_def)
  have dl: "delivered nt m \<Longrightarrow> delivered nt' m" for m
    using delivered_stay [OF st [of "m + 1"] I(4)] by simp
  have tk: "tok_ok E nt u e m \<Longrightarrow> tok_ok E nt' u e m" for u e m
    using tok_ok_stay [OF st [of "m + 1"] I(4)] by simp
  have mt: "msg_table_ok nt'" using I(5) sc by (simp add: msg_table_ok_def same_contents_def)
  have gd: "good_tok E s nt t \<Longrightarrow> good_tok E s nt' t" for t using tk unfolding good_tok_def by blast
  show ?thesis
    by (rule net_invI) (use I ok mt gd dl in \<open>unfold eq w M, blast+\<close>)
qed

lemma wait_inv:
  assumes inv: "net_inv E (s, nt) (add_mset (event_at (esim_cycle s) (e, d)) X)"
    and e: "known s e" "e \<noteq> 1" and b: "b < length (net_buffers nt)" "nb_count (buffer_at nt b) > 0"
  shows "\<exists>nt'. net_wait b e d (s, nt) = Inr (s, nt') \<and> same_shape nt nt' \<and> net_inv E (s, nt') X"
proof -
  note I = net_invD [OF inv]
  let ?x = "(buffer_at nt b)\<lparr>nb_wakeup_list := nb_wakeup_list (buffer_at nt b) @ [(e, d)]\<rparr>"
  let ?nt = "put_buffer b ?x nt"
  have none: "esim_ev_none s = 1" using I(1) by (simp add: esim_ok_def)
  have r: "net_wait b e d (s, nt) = Inr (s, ?nt)"
    using e(2) b(2) none by (simp add: net_wait_def net_buffer_wait_def Let_def)
  have s: "same_shape nt ?nt" by (simp add: same_shape_def put_buffer_def map_shape_update buffer_shape_def)
  have ne: "nb_msg_list (buffer_at nt b) \<noteq> []" using buf_okD(2) [OF I(4) b(1)] b(2) by auto
  have cnt: "nb_count (buffer_at ?nt x) = nb_count (buffer_at nt x)"
    "nb_msg_list (buffer_at ?nt x) = nb_msg_list (buffer_at nt x)" for x
    using b(1) by (cases "x = b"; simp add: put_buffer_def)+
  have M: "net_msgs ?nt = net_msgs nt" by (simp add: put_buffer_def)
  have wk: "nb_wakeup_list (buffer_at ?nt x) = nb_wakeup_list (buffer_at nt x)" if "x \<noteq> b" for x
    using that by (simp add: put_buffer_def)
  have ok: "contents_ok ?nt"
  proof (rule keep_ok [OF I(4) s M])
    fix x assume "x < length (net_buffers nt)"
    show "nb_count (buffer_at ?nt x) = nb_count (buffer_at nt x) \<and> nb_msg_list (buffer_at ?nt x) = nb_msg_list (buffer_at nt x) \<and>
      (nb_wakeup_list (buffer_at ?nt x) = nb_wakeup_list (buffer_at nt x) \<or> nb_msg_list (buffer_at nt x) \<noteq> [])"
      using ne wk [of x] cnt [of x] by (cases "x = b") simp_all
  qed (simp add: put_buffer_def)
  have w: "wakes ?nt = wakes nt + {#(e, d)#}"
    using wakes_put [OF b(1), of ?x] by simp
  have eq: "toks (s, ?nt) + X = toks (s, nt) + add_mset (event_at (esim_cycle s) (e, d)) X"
    by (simp add: toks_def w)
  have st: "others_stay m nt ?nt" for m using s M cnt by (simp add: others_stay_def)
  have dl: "delivered nt m \<Longrightarrow> delivered ?nt m" for m
    using delivered_stay [OF st [of "m + 1"] I(4)] by simp
  have tk: "tok_ok E nt u f m \<Longrightarrow> tok_ok E ?nt u f m" for u f m
    using tok_ok_stay [OF st [of "m + 1"] I(4)] by simp
  have mt: "msg_table_ok ?nt" using I(5) by (simp add: msg_table_ok_def put_buffer_def)
  have gd: "good_tok E s nt t \<Longrightarrow> good_tok E s ?nt t" for t using tk unfolding good_tok_def by blast
  have wk': "known s (fst p) \<and> fst p \<noteq> 1" if "p \<in># wakes ?nt" for p using that I(6) [of p] e unfolding w by auto
  have "net_inv E (s, ?nt) X"
    by (rule net_invI) (use I ok mt gd dl wk' in \<open>unfold eq M, blast+\<close>)
  with r s show ?thesis by blast
qed

section \<open>Transfers\<close>

lemma msg_size_nonneg: "contents_ok nt \<Longrightarrow> 0 \<le> msg_size nt m"
  using msg_okD(3) by (fastforce simp: msg_size_def split: option.splits)

text \<open>All fields that the invariant does not mention may change.\<close>

definition with_buffer :: "nat \<Rightarrow> (int \<times> int list \<times> (int \<times> 'd) list) \<Rightarrow> 'd net_t \<Rightarrow> 'd net_t \<Rightarrow> bool" where
  "with_buffer b c nt nt' \<longleftrightarrow> same_shape nt nt' \<and> net_msgs nt' = net_msgs nt \<and> net_msg_table nt' = net_msg_table nt \<and>
     net_msg_id_counter nt' = net_msg_id_counter nt \<and> contents nt' b = c \<and>
     (\<forall>b' < length (net_buffers nt). b' \<noteq> b \<longrightarrow> contents nt' b' = contents nt b')"

lemma put_with_buffer:
  "b < length (net_buffers nt) \<Longrightarrow> buffer_shape x = buffer_shape (buffer_at nt b) \<Longrightarrow>
   with_buffer b (nb_count x, nb_msg_list x, nb_wakeup_list x) nt (put_buffer b x nt)"
  by (simp add: with_buffer_def same_shape_def put_buffer_def map_shape_update contents_def)

lemma extract_eq:
  assumes e: "esim_ok s" "\<not> esim_lock_schedule s" and ok: "contents_ok nt" and b: "b < length (net_buffers nt)"
    and xs: "nb_msg_list (buffer_at nt b) = m # xs"
    and wk: "\<And>p. p \<in># wakes nt \<Longrightarrow> known s (fst p) \<and> fst p \<noteq> 1"
  shows "\<exists>s' nt'. net_buffer_extract b m (s, nt) = Inr (s', nt') \<and> esim_ok s' \<and> same_engine s s' \<and>
    with_buffer b (nb_count (buffer_at nt b) - msg_size nt m, xs, []) nt nt' \<and>
    toks (s', nt') = toks (s, nt) \<and> wakes nt' \<subseteq># wakes nt"
proof -
  note B = buf_okD [OF ok b]
  from B(4) [of m] xs obtain y where y: "net_msgs nt m = Some y" by auto
  let ?buf = "buffer_at nt b" and ?cyc = "esim_cycle s"
  let ?x = "net_buffer_update_occupancy ?cyc (?buf\<lparr>nb_count := nb_count ?buf - nm_size y, nb_msg_list := xs\<rparr>)"
  let ?nt1 = "put_buffer b ?x nt" and ?z = "?x\<lparr>nb_wakeup_list := []\<rparr>"
  have "0 \<le> (\<Sum>m\<leftarrow>xs. msg_size nt m)" by (rule sum_list_nonneg) (auto simp: msg_size_nonneg [OF ok])
  then have fit: "nm_size y \<le> nb_count ?buf" using B(2) xs y by (simp add: msg_size_def)
  have w1: "nb_wakeup_list (buffer_at ?nt1 b) = nb_wakeup_list ?buf"
    using b by (simp add: put_buffer_def net_buffer_update_occupancy_def Let_def)
  have "\<forall>p \<in> set (nb_wakeup_list ?buf). known s (fst p) \<and> fst p \<noteq> 1" using wk wake_in [OF b] by blast
  from wakeup_loop_pend [OF e this] obtain s' where
    s': "wakeup_loop (nb_wakeup_list ?buf) s = Inr s'" "esim_ok s'" "same_engine s s'"
      "pend s' = pend s + image_mset (event_at ?cyc) (mset (nb_wakeup_list ?buf))" by blast
  have pp: "put_buffer b ((buffer_at ?nt1 b)\<lparr>nb_wakeup_list := []\<rparr>) ?nt1 = put_buffer b ?z nt"
    using b by (simp add: put_buffer_def)
  have "net_buffer_extract b m (s, nt) = Inr (s', put_buffer b ?z nt)"
    using fit xs y s'(1) pp w1 by (simp add: net_buffer_extract_def msg_at_def net_buffer_wakeup_def Let_def)
  moreover have "with_buffer b (nb_count ?buf - msg_size nt m, xs, []) nt (put_buffer b ?z nt)"
    using put_with_buffer [OF b, of ?z] y
    by (simp add: net_buffer_update_occupancy_def Let_def buffer_shape_def msg_size_def)
  moreover have w: "wakes (put_buffer b ?z nt) + mset (nb_wakeup_list ?buf) = wakes nt"
    using wakes_put [OF b, of ?z] by simp
  then have "wakes (put_buffer b ?z nt) \<subseteq># wakes nt" by (metis mset_subset_eq_add_left)
  moreover have "toks (s', put_buffer b ?z nt) = toks (s, nt)"
    using s'(4) same_engineD(1) [OF s'(3)] by (simp add: toks_def flip: w)
  ultimately show ?thesis using s'(2,3) by blast
qed

lemma insert_eq:
  assumes b: "b < length (net_buffers nt)" and y: "net_msgs nt m = Some y"
    and fit: "nb_count (buffer_at nt b) + nm_size y \<le> nb_size (buffer_at nt b)"
  shows "\<exists>nt'. net_buffer_insert cyc b m nt = Inr nt' \<and> wakes nt' = wakes nt \<and>
    with_buffer b (nb_count (buffer_at nt b) + nm_size y, nb_msg_list (buffer_at nt b) @ [m],
      nb_wakeup_list (buffer_at nt b)) nt nt'"
proof -
  let ?buf = "buffer_at nt b"
  let ?x = "net_buffer_update_occupancy cyc
     (?buf\<lparr>nb_count := nb_count ?buf + nm_size y, nb_msg_list := nb_msg_list ?buf @ [m]\<rparr>)"
  have "net_buffer_insert cyc b m nt = Inr (put_buffer b ?x nt)"
    using fit y by (simp add: net_buffer_insert_def msg_at_def Let_def)
  moreover have "wakes (put_buffer b ?x nt) = wakes nt"
    using wakes_put [OF b, of ?x] by (simp add: net_buffer_update_occupancy_def Let_def)
  moreover have "with_buffer b (nb_count ?buf + nm_size y, nb_msg_list ?buf @ [m], nb_wakeup_list ?buf) nt (put_buffer b ?x nt)"
    using put_with_buffer [OF b, of ?x] by (simp add: net_buffer_update_occupancy_def Let_def buffer_shape_def)
  ultimately show ?thesis by blast
qed

lemma only_token:
  assumes "net_inv E (s, nt) (add_mset t X)" "is_stack m t" "u \<in># toks (s, nt) + X" "ev_data (snd u) = Net_stack x re rs"
  shows "x \<noteq> m"
proof
  assume "x = m"
  with assms(3,4) have "0 < tokens m (toks (s, nt) + X)" by (blast intro: tokens_pos)
  with net_invD(8) [OF assms(1), of m] assms(2) show False by simp
qed

lemma moved_inv:
  assumes inv: "net_inv E (s, nt) (add_mset t X)" and t: "is_stack m t" "is_stack m t'"
    and s': "esim_ok s'" "same_engine s s'" and ok: "contents_ok nt'" "msg_table_ok nt'"
    and st: "others_stay m nt nt'" and wk: "\<And>p. p \<in># wakes nt' \<Longrightarrow> known s (fst p) \<and> fst p \<noteq> 1"
    and tk: "toks (s', nt') = toks (s, nt)" and good: "good_tok E s nt' t'"
  shows "net_inv E (s', nt') (add_mset t' X)"
proof -
  note I = net_invD [OF inv]
  have iss: "is_stack x t' = is_stack x t" for x using t by (auto simp: is_stack_def split: net_data.splits)
  have cnt: "tokens x (toks (s', nt') + add_mset t' X) = tokens x (toks (s, nt) + add_mset t X)" for x
    using iss by (simp add: tk)
  show ?thesis
  proof (rule net_invI)
    fix u assume u: "u \<in># toks (s', nt') + add_mset t' X"
    have "good_tok E s nt' u"
    proof (cases "u = t'")
      case False
      with u tk have u': "u \<in># toks (s, nt) + X" by auto
      with I(7) [of u] have "good_tok E s nt u" by auto
      then show ?thesis
        using only_token [OF inv t(1) u'] tok_ok_stay [OF st I(4)] unfolding good_tok_def by blast
    qed (simp add: good)
    then show "good_tok E s' nt' u" unfolding good_tok_engine(1) [OF s'(2)] .
  next
    fix x
    show "tokens x (toks (s', nt') + add_mset t' X) \<le> 1" unfolding cnt by (rule I(8))
    assume x: "net_msgs nt' x \<noteq> None" "tokens x (toks (s', nt') + add_mset t' X) = 0"
    then have "x \<noteq> m" using t(2) by auto
    moreover then have "net_msgs nt x \<noteq> None" using x(1) st by (simp add: others_stay_def)
    then have "delivered nt x" using x(2) unfolding cnt by (rule I(9))
    ultimately show "delivered nt' x" using delivered_stay [OF st I(4)] by blast
  next
    fix p assume "p \<in># wakes nt'"
    with wk same_engineD(3) [OF s'(2)] show "known s' (fst p) \<and> fst p \<noteq> 1" by simp
  qed (use I s' ok same_engineD [OF s'(2)] good_tok_engine(2) [OF s'(2)] in simp_all)
qed

lemma table_keep:
  "msg_table_ok nt \<Longrightarrow> net_msg_table nt' = net_msg_table nt \<Longrightarrow> (\<And>m. net_msgs nt' m = None \<longleftrightarrow> net_msgs nt m = None) \<Longrightarrow>
   msg_table_ok nt'"
  by (simp add: msg_table_ok_def)

lemma transfer_inv:
  assumes inv: "net_inv E (s, nt) (add_mset t X)" and t: "is_stack m t"
    and y: "net_msgs nt m = Some y" and b: "nm_buffer y = Some b" "hd (nb_msg_list (buffer_at nt b)) = m"
    and b2: "b2 < length (net_buffers nt)" "b2 \<noteq> b"
    and fit: "nb_count (buffer_at nt b2) + nm_size y \<le> nb_size (buffer_at nt b2)"
    and route: "routed nt (if is_out nt b2 then dst_of nt b2 else nb_node (buffer_at nt b2)) (nm_dst_node y)"
    and node: "node = Some (nb_node (buffer_at nt b2))"
    and e: "e = EV_NET_OUTPUT_BUFFER E \<and> is_out nt b2 \<or> e = EV_NET_INPUT_BUFFER E \<and> is_in nt b2"
    and w: "until < w" and ret: "ret_ok s re rs"
  shows "\<exists>s' nt'. transfer m b b2 node until (s, nt) = Inr (s', nt') \<and> same_engine s s' \<and> same_shape nt nt' \<and>
    net_inv E (s', nt') (add_mset (event_at w (e, Net_stack m re rs)) X)"
proof -
  note I = net_invD [OF inv]
  have topo: "topo_ok nt" using I(4) by (simp add: contents_ok_def)
  note M = msg_okD [OF I(4) y]
  have bl: "b < length (net_buffers nt)" and mem: "m \<in> set (nb_msg_list (buffer_at nt b))"
    using M(6) b(1) by (auto simp: is_out_def is_in_def)
  then obtain xs where xs: "nb_msg_list (buffer_at nt b) = m # xs"
    using b(2) by (cases "nb_msg_list (buffer_at nt b)") auto
  from extract_eq [OF I(1,2,4) bl xs I(6)] obtain s' n1 where
    n1: "net_buffer_extract b m (s, nt) = Inr (s', n1)" "esim_ok s'" "same_engine s s'"
      "with_buffer b (nb_count (buffer_at nt b) - msg_size nt m, xs, []) nt n1"
      "toks (s', n1) = toks (s, nt)" "wakes n1 \<subseteq># wakes nt" by blast
  have s1: "same_shape nt n1" and m1: "net_msgs n1 = net_msgs nt"
    and c1: "contents n1 b2 = contents nt b2" using n1(4) b2 by (simp_all add: with_buffer_def)
  note D1 = shapeD [OF s1] and C1 = contentsD [OF c1]
  have "b2 < length (net_buffers n1)" using D1(2) b2(1) by simp
  moreover have "net_msgs n1 m = Some y" using m1 y by simp
  moreover have "nb_count (buffer_at n1 b2) + nm_size y \<le> nb_size (buffer_at n1 b2)"
    using C1(1) D1(6) [OF b2(1)] fit by simp
  ultimately obtain n2 where
    n2: "net_buffer_insert (esim_cycle s') b2 m n1 = Inr n2" "wakes n2 = wakes n1"
      "with_buffer b2 (nb_count (buffer_at n1 b2) + nm_size y, nb_msg_list (buffer_at n1 b2) @ [m],
         nb_wakeup_list (buffer_at n1 b2)) n1 n2" by (rule insert_eq [THEN exE]) blast
  let ?y = "y\<lparr>nm_node := node, nm_buffer := Some b2, nm_busy := until\<rparr>"
  let ?n3 = "upd_msg m (\<lambda>x. x\<lparr>nm_node := node, nm_buffer := Some b2, nm_busy := until\<rparr>) n2"
  let ?mid = "n1\<lparr>net_msgs := (net_msgs nt)(m := None)\<rparr>"
  have m2: "net_msgs n2 = net_msgs nt" and s2: "same_shape n1 n2" using n2(3) m1 by (simp_all add: with_buffer_def)
  have m3: "net_msgs ?n3 = (net_msgs nt)(m \<mapsto> ?y)" using m2 y by (simp add: upd_msg_def put_msg_def)
  have bf3: "net_buffers ?n3 = net_buffers n2" by (simp add: upd_msg_def put_msg_def)
  have s3: "same_shape nt ?n3" using s1 s2 by (simp add: same_shape_def upd_msg_def put_msg_def)
  have con: "contents ?n3 x = (if x = b2 then (nb_count (buffer_at nt b2) + nm_size y, nb_msg_list (buffer_at nt b2) @ [m],
      nb_wakeup_list (buffer_at nt b2)) else if x = b then (nb_count (buffer_at nt b) - msg_size nt m, xs, []) else contents nt x)"
    if x: "x < length (net_buffers nt)" for x
  proof -
    have "contents ?n3 x = contents n2 x" by (simp add: contents_def bf3)
    also have "\<dots> = (if x = b2 then (nb_count (buffer_at nt b2) + nm_size y, nb_msg_list (buffer_at nt b2) @ [m],
      nb_wakeup_list (buffer_at nt b2)) else contents n1 x)"
      using n2(3) C1 x D1(2) by (simp add: with_buffer_def)
    finally show ?thesis using n1(4) x by (simp add: with_buffer_def)
  qed
  have smid: "same_shape nt ?mid" using s1 by (simp add: same_shape_def)
  have mid: "contents_ok ?mid"
  proof (rule remove_ok [OF I(4) bl xs])
    show "changed nt ?mid b (nb_count (buffer_at nt b) - msg_size nt m, xs, []) ((net_msgs nt)(m := None))"
      using n1(4) s1 by (simp add: changed_def with_buffer_def same_shape_def contents_def)
  qed
  note Dm = shapeD [OF smid]
  have cm: "contents ?mid x = contents n1 x" for x by (simp add: contents_def)
  have ok3: "contents_ok ?n3"
  proof (rule insert_ok [OF mid, where m = m and y = ?y and b = b2])
    show "b2 < length (net_buffers ?mid)" using Dm(2) b2(1) by simp
    show "routed ?mid (if is_out ?mid b2 then dst_of ?mid b2 else nb_node (buffer_at ?mid b2)) (nm_dst_node ?y)"
    proof -
      let ?n = "if is_out nt b2 then dst_of nt b2 else nb_node (buffer_at nt b2)"
      have "?n < net_node_count nt" using topo b2(1) dst_node_less [OF topo] by (simp add: topo_ok_def)
      then have "routed ?mid ?n (nm_dst_node y)" using routed_shape [OF smid] route by blast
      then show ?thesis
        using is_out_shape(1) [OF smid topo] shape_same(1) [OF smid topo b2(1)] Dm(6) [OF b2(1)] by (auto split: if_splits)
    qed
    show "nb_count (buffer_at ?mid b2) + nm_size ?y \<le> nb_size (buffer_at ?mid b2)"
      using C1(1) D1(6) [OF b2(1)] fit by simp
    show "same_shape ?mid ?n3" using s2 by (simp add: same_shape_def upd_msg_def put_msg_def)
    show "contents ?n3 b2 = (nb_count (buffer_at ?mid b2) + nm_size ?y, nb_msg_list (buffer_at ?mid b2) @ [m],
        nb_wakeup_list (buffer_at ?mid b2))" using con [OF b2(1)] C1 by simp
    show "nm_node ?y = Some (nb_node (buffer_at ?mid b2))" using node D1(6) [OF b2(1)] by simp
    show "nn_kind (node_at ?mid (nm_dst_node ?y)) = net_node_end" using M(5) D1(5) [OF M(4)] by simp
    have "net_msg_id_counter ?n3 = net_msg_id_counter nt"
      using n1(4) n2(3) by (simp add: with_buffer_def upd_msg_def put_msg_def)
    then show "m \<le> net_msg_id_counter ?n3" "net_msg_id_counter ?mid \<le> net_msg_id_counter ?n3"
      using M(2) n1(4) by (simp_all add: with_buffer_def)
    fix x assume "x < length (net_buffers ?mid)" "x \<noteq> b2"
    then show "contents ?n3 x = contents ?mid x"
      using con [of x] Dm(2) n1(4) unfolding cm by (simp add: with_buffer_def)
  qed (use M m3 Dm(1) in simp_all)
  have mt: "msg_table_ok ?n3"
    by (rule table_keep [OF I(5)]) (use n1(4) n2(3) y m3 in \<open>simp_all add: with_buffer_def upd_msg_def put_msg_def\<close>)
  have st: "others_stay m nt ?n3"
    unfolding others_stay_def
  proof (intro conjI allI impI)
    fix x z assume x: "x < length (net_buffers nt)" "z \<noteq> m" "z \<in> set (nb_msg_list (buffer_at nt x))"
       "hd (nb_msg_list (buffer_at nt x)) = z"
    then have "x \<noteq> b" using b(2) by auto
    then have "nb_msg_list (buffer_at ?n3 x) = nb_msg_list (buffer_at nt x) @ (if x = b2 then [m] else [])"
      using con [OF x(1)] by (auto simp: contents_def split: if_splits)
    with x(3,4) show "hd (nb_msg_list (buffer_at ?n3 x)) = z" by (cases "nb_msg_list (buffer_at nt x)") auto
  qed (use s3 m3 in simp_all)
  have "wakes ?n3 = wakes n1" using n2(2) by (simp add: wakes_def bf3)
  then have wk: "known s (fst p) \<and> fst p \<noteq> 1" if "p \<in># wakes ?n3" for p
    using that n1(6) I(6) mset_subset_eqD by metis
  have tk: "toks (s', ?n3) = toks (s, nt)" using n1(5) n2(2) by (simp add: toks_def wakes_def bf3)
  let ?t' = "event_at w (e, Net_stack m re rs)"
  have "tok_ok E ?n3 w e m"
    using e w is_out_shape [OF s3 topo] by (auto simp: tok_ok_def m3)
  then have good: "good_tok E s ?n3 ?t'" using ret by (simp add: good_tok_def event_at_def)
  have "net_inv E (s', ?n3) (add_mset ?t' X)"
    by (rule moved_inv [OF inv t _ n1(2,3) ok3 mt st wk tk good]) (simp add: is_stack_def event_at_def)
  moreover have "transfer m b b2 node until (s, nt) = Inr (s', ?n3)"
    using n1(1) n2(1) by (simp add: transfer_def)
  ultimately show ?thesis using n1(3) s3 by blast
qed

section \<open>The events\<close>

text \<open>What an event leaves: a good state, or the report of a message that no buffer on its way can hold.\<close>

definition too_big :: "'d net_t \<Rightarrow> bool" where
  "too_big nt \<longleftrightarrow> (\<exists>m y b. net_msgs nt m = Some y \<and> b < length (net_buffers nt) \<and> nm_size y > nb_size (buffer_at nt b))"

definition event_done :: "net_events \<Rightarrow> 'u net_state \<Rightarrow> 'u net_state res \<Rightarrow> bool" where
  "event_done E sw r \<longleftrightarrow> r = Inl (Fatal ''message does not fit in buffer'') \<and> too_big (snd sw) \<or>
     (\<exists>s' nt'. r = Inr (s', nt') \<and> same_engine (fst sw) s' \<and> same_shape (snd sw) nt' \<and> net_inv E (s', nt') {#})"

lemma events_okD:
  assumes "events_ok E s"
  shows "known s (EV_NET_OUTPUT_BUFFER E)" "known s (EV_NET_INPUT_BUFFER E)" "known s (EV_NET_RECEIVE E)" "known s (EV_NET_SEND E)"
    "EV_NET_OUTPUT_BUFFER E \<noteq> 1" "EV_NET_INPUT_BUFFER E \<noteq> 1" "EV_NET_RECEIVE E \<noteq> 1" "EV_NET_SEND E \<noteq> 1"
    "EV_NET_OUTPUT_BUFFER E \<noteq> EV_NET_INPUT_BUFFER E" "EV_NET_OUTPUT_BUFFER E \<noteq> EV_NET_RECEIVE E"
    "EV_NET_INPUT_BUFFER E \<noteq> EV_NET_RECEIVE E" "EV_NET_SEND E \<noteq> EV_NET_OUTPUT_BUFFER E"
    "EV_NET_SEND E \<noteq> EV_NET_INPUT_BUFFER E" "EV_NET_SEND E \<noteq> EV_NET_RECEIVE E"
  using assms by (auto simp: events_ok_def)

lemma hand_good:
  assumes "net_inv E (s, nt) {#event_at w (e, Net_stack m re rs)#}"
  shows "ret_ok s re rs" "tok_ok E nt w e m"
  using net_invD(7) [OF assms, of "event_at w (e, Net_stack m re rs)"] by (simp_all add: good_tok_def event_at_def)

lemma stack_event [simp]: "is_stack m (event_at w (e, Net_stack m re rs))"
  by (simp add: is_stack_def event_at_def)

text \<open>The same message in hand, for a later event at the same place.\<close>

lemma later_inv:
  assumes inv: "net_inv E (s, nt) {#event_at w (e, Net_stack m re rs)#}" and w: "w \<le> w'"
  shows "net_inv E (s, nt) {#event_at w' (e, Net_stack m re rs)#}"
proof (rule rehand [OF inv, of m])
  show "good_tok E s nt (event_at w' (e, Net_stack m re rs))"
    using hand_good [OF inv] w by (auto simp: good_tok_def event_at_def tok_ok_def)
qed simp_all

lemma again_done:
  assumes inv: "net_inv E (s, nt) {#event_at (esim_cycle s) (e, Net_stack m re rs)#}" and e: "known s e" "e \<noteq> 1" and a: "0 \<le> after"
  shows "event_done E (s, nt) (schedule e (Net_stack m re rs) after (s, nt))"
proof -
  have "net_inv E (s, nt) {#event_at (esim_cycle s + after) (e, Net_stack m re rs)#}"
    by (rule later_inv [OF inv]) (use a in simp)
  from schedule_inv [OF this e a] show ?thesis by (auto simp: event_done_def)
qed

lemma wait_done:
  assumes "net_inv E (s, nt) {#event_at (esim_cycle s) (e, Net_stack m re rs)#}" "known s e" "e \<noteq> 1"
    "b < length (net_buffers nt)" "nb_count (buffer_at nt b) > 0"
  shows "event_done E (s, nt) (net_wait b e (Net_stack m re rs) (s, nt))"
  using wait_inv [OF assms] by (auto simp: event_done_def)

lemma holds_count:
  assumes "contents_ok nt" "b < length (net_buffers nt)" "nb_msg_list (buffer_at nt b) \<noteq> []"
  shows "nb_count (buffer_at nt b) > 0"
proof -
  obtain m xs where xs: "nb_msg_list (buffer_at nt b) = m # xs" using assms(3) by (cases "nb_msg_list (buffer_at nt b)") auto
  with buf_okD(4) [OF assms(1,2), of m] obtain y where y: "net_msgs nt m = Some y" by auto
  have "0 \<le> (\<Sum>m\<leftarrow>xs. msg_size nt m)" by (rule sum_list_nonneg) (auto simp: msg_size_nonneg [OF assms(1)])
  with buf_okD(2) [OF assms(1,2)] xs y msg_okD(3) [OF assms(1) y] show ?thesis by (simp add: msg_size_def)
qed

lemma full_count:
  assumes "contents_ok nt" "net_msgs nt m = Some y" "nm_size y \<le> nb_size (buffer_at nt b)"
    "nb_count (buffer_at nt b) + nm_size y > nb_size (buffer_at nt b)"
  shows "nb_count (buffer_at nt b) > 0"
  using assms(3,4) by linarith

lemma sc_upd:
  "(\<And>x. buffer_shape (f x) = buffer_shape x \<and> nb_count (f x) = nb_count x \<and> nb_msg_list (f x) = nb_msg_list x \<and>
     nb_wakeup_list (f x) = nb_wakeup_list x) \<Longrightarrow> same_contents nt (upd_buffer b f nt)"
  "(\<And>x. link_shape (g x) = link_shape x) \<Longrightarrow> same_contents nt (upd_link l g nt)"
  "(\<And>x. node_shape (h x) = node_shape x) \<Longrightarrow> same_contents nt (upd_node n h nt)"
proof -
  assume f: "\<And>x. buffer_shape (f x) = buffer_shape x \<and> nb_count (f x) = nb_count x \<and> nb_msg_list (f x) = nb_msg_list x \<and>
     nb_wakeup_list (f x) = nb_wakeup_list x"
  have "contents (upd_buffer b f nt) x = contents nt x" if "x < length (net_buffers nt)" for x
    using that f by (cases "x = b") (simp_all add: contents_def upd_buffer_def put_buffer_def)
  with f show "same_contents nt (upd_buffer b f nt)"
    using shape_upd(1) [of f nt b] by (simp add: same_contents_def) (simp add: upd_buffer_def put_buffer_def)
next
  assume "\<And>x. link_shape (g x) = link_shape x"
  then show "same_contents nt (upd_link l g nt)"
    using shape_upd(2) [of g nt l] by (simp add: same_contents_def) (simp add: upd_link_def put_link_def contents_def)
next
  assume "\<And>x. node_shape (h x) = node_shape x"
  then show "same_contents nt (upd_node n h nt)"
    using shape_upd(3) [of h nt n] by (simp add: same_contents_def) (simp add: upd_node_def put_node_def contents_def)
qed

lemma sc_trans: "same_contents a b \<Longrightarrow> same_contents b c \<Longrightarrow> same_contents a c"
  using shapeD(2) [of a b] by (auto simp: same_contents_def intro: same_shape_trans)

lemma sc_refl [simp]: "same_contents nt nt"
  by (simp add: same_contents_def)

lemma same_contentsD:
  assumes "same_contents nt nt'"
  shows "same_shape nt nt'" "net_msgs nt' = net_msgs nt"
    "b < length (net_buffers nt) \<Longrightarrow> nb_count (buffer_at nt' b) = nb_count (buffer_at nt b)"
    "b < length (net_buffers nt) \<Longrightarrow> nb_msg_list (buffer_at nt' b) = nb_msg_list (buffer_at nt b)"
  using assms by (simp_all add: same_contents_def contents_def)

lemma div_lat: "1 \<le> (x :: int) \<Longrightarrow> 1 \<le> k \<Longrightarrow> 0 < (x - 1) div k + 1"
  by (simp add: pos_imp_zdiv_nonneg_iff add_nonneg_pos)

text \<open>A transfer after changes of busy times and before changes of statistics.\<close>

lemma transfer_done:
  assumes inv: "net_inv E (s, nt) {#event_at (esim_cycle s) (e0, Net_stack m re rs)#}"
    and y: "net_msgs nt m = Some y" and b: "nm_buffer y = Some b" "hd (nb_msg_list (buffer_at nt b)) = m"
    and b2: "b2 < length (net_buffers nt)" "b2 \<noteq> b"
    and fit: "nb_count (buffer_at nt b2) + nm_size y \<le> nb_size (buffer_at nt b2)"
    and route: "routed nt (if is_out nt b2 then dst_of nt b2 else nb_node (buffer_at nt b2)) (nm_dst_node y)"
    and e: "e = EV_NET_OUTPUT_BUFFER E \<and> is_out nt b2 \<or> e = EV_NET_INPUT_BUFFER E \<and> is_in nt b2"
    and sc: "same_contents nt nt1" and lat: "0 < lat"
    and stats: "\<And>nt. same_contents nt (stats nt)"
  shows "event_done E (s, nt) (res_bind (transfer m b b2 (Some (nb_node (buffer_at nt b2))) (esim_cycle s + lat - 1) (s, nt1))
           (\<lambda>(s, nt). schedule e (Net_stack m re rs) lat (s, stats nt)))"
proof -
  have topo: "topo_ok nt" using net_invD(4) [OF inv] by (simp add: contents_ok_def)
  note C = same_contentsD [OF sc] and D = shapeD [OF same_contentsD(1) [OF sc]]
  have inv1: "net_inv E (s, nt1) {#event_at (esim_cycle s) (e0, Net_stack m re rs)#}"
    by (rule same_contents_inv [OF sc inv])
  have bl: "b < length (net_buffers nt)"
    using msg_okD(6) [OF net_invD(4) [OF inv] y] b(1) by (auto simp: is_out_def is_in_def)
  let ?n = "if is_out nt b2 then dst_of nt b2 else nb_node (buffer_at nt b2)"
  have "?n < net_node_count nt" using topo b2(1) dst_node_less [OF topo] by (simp add: topo_ok_def)
  then have "routed nt1 ?n (nm_dst_node y)" using routed_shape [OF C(1)] route by blast
  then have r1: "routed nt1 (if is_out nt1 b2 then dst_of nt1 b2 else nb_node (buffer_at nt1 b2)) (nm_dst_node y)"
    using is_out_shape(1) [OF C(1) topo] shape_same(1) [OF C(1) topo b2(1)] D(6) [OF b2(1)] by (auto split: if_splits)
  have "\<exists>s' nt'. transfer m b b2 (Some (nb_node (buffer_at nt b2))) (esim_cycle s + lat - 1) (s, nt1) = Inr (s', nt') \<and>
    same_engine s s' \<and> same_shape nt1 nt' \<and> net_inv E (s', nt') {#event_at (esim_cycle s + lat) (e, Net_stack m re rs)#}"
  proof (rule transfer_inv [OF inv1 _ _ b(1) _ _ b2(2) _ r1])
    show "nb_count (buffer_at nt1 b2) + nm_size y \<le> nb_size (buffer_at nt1 b2)" using C(3) D(6) b2(1) fit by simp
    show "e = EV_NET_OUTPUT_BUFFER E \<and> is_out nt1 b2 \<or> e = EV_NET_INPUT_BUFFER E \<and> is_in nt1 b2"
      using e is_out_shape [OF C(1) topo] by simp
    show "ret_ok s re rs" by (rule hand_good [OF inv])
  qed (use C(2) C(4) [OF bl] y b(2) D(2) D(6) [OF b2(1)] b2(1) lat in simp_all)
  then obtain s' nt' where
    n: "transfer m b b2 (Some (nb_node (buffer_at nt b2))) (esim_cycle s + lat - 1) (s, nt1) = Inr (s', nt')"
      "same_engine s s'" "same_shape nt1 nt'" "net_inv E (s', nt') {#event_at (esim_cycle s + lat) (e, Net_stack m re rs)#}"
    by blast
  have i2: "net_inv E (s', stats nt') {#event_at (esim_cycle s' + lat) (e, Net_stack m re rs)#}"
    using same_contents_inv [OF stats n(4)] same_engineD(1) [OF n(2)] by simp
  have k: "known s' e" "e \<noteq> 1" using events_okD [OF net_invD(3) [OF n(4)]] e by auto
  from schedule_inv [OF i2 k] lat obtain s2 where
    "schedule e (Net_stack m re rs) lat (s', stats nt') = Inr (s2, stats nt')" "same_engine s' s2"
      "net_inv E (s2, stats nt') {#}" by auto
  moreover have "same_shape nt (stats nt')"
    using C(1) n(3) same_contentsD(1) [OF stats [of nt']] by (blast intro: same_shape_trans)
  ultimately show ?thesis using n(1,2) same_engine_trans by (auto simp: event_done_def)
qed


lemma output_buffer_done:
  assumes inv: "net_inv E (s, nt) {#event_at (esim_cycle s) (EV_NET_OUTPUT_BUFFER E, Net_stack m re rs)#}"
  shows "event_done E (s, nt) (net_ev_output_buffer E m (Net_stack m re rs) (s, nt))"
proof -
  note I = net_invD [OF inv] and H = hand_good [OF inv]
  note K = events_okD [OF I(3)]
  let ?d = "Net_stack m re rs" and ?cyc = "esim_cycle s"
  have topo: "topo_ok nt" using I(4) by (simp add: contents_ok_def)
  from H(2) K obtain y b where y: "net_msgs nt m = Some y" "nm_buffer y = Some b" "is_out nt b" "nm_busy y < ?cyc"
    by (auto simp: tok_ok_def)
  note M = msg_okD [OF I(4) y(1)]
  have bl: "b < length (net_buffers nt)" using y(3) by (simp add: is_out_def)
  have mem: "m \<in> set (nb_msg_list (buffer_at nt b))" "nm_node y = Some (nb_node (buffer_at nt b))"
    and rt: "routed nt (dst_of nt b) (nm_dst_node y)" using M(6) y(2,3) by auto
  then have ne: "nb_msg_list (buffer_at nt b) \<noteq> []" by auto
  obtain l where l: "nb_link (buffer_at nt b) = Some l" "lk_src_buffer (link_at nt l) = b"
    "lk_dst_buffer (link_at nt l) \<noteq> b" "is_in nt (lk_dst_buffer (link_at nt l))"
    "nb_node (buffer_at nt (lk_dst_buffer (link_at nt l))) = dst_of nt b" "lk_bandwidth (link_at nt l) \<ge> 1"
    by (rule is_outD [OF topo y(3)])
  let ?link = "link_at nt l" and ?ib = "lk_dst_buffer (link_at nt l)" and ?buf = "buffer_at nt b"
  let ?ibuf = "buffer_at nt ?ib"
  have ibl: "?ib < length (net_buffers nt)" using l(4) by (simp add: is_in_def)
  let ?lat = "(nm_size y - 1) div lk_bandwidth ?link + 1"
  have lat: "0 < ?lat" by (rule div_lat [OF M(3) l(6)])
  let ?nt1 = "upd_buffer ?ib (\<lambda>x. x\<lparr>nb_write_busy := ?cyc + ?lat - 1\<rparr>)
    (upd_link l (\<lambda>x. x\<lparr>lk_busy := ?cyc + ?lat - 1\<rparr>) (upd_buffer b (\<lambda>x. x\<lparr>nb_read_busy := ?cyc + ?lat - 1\<rparr>) nt))"
  have sc: "same_contents nt ?nt1"
    by (rule sc_trans [OF sc_trans [OF sc_upd(1) sc_upd(2)] sc_upd(1)]) (simp_all add: buffer_shape_def link_shape_def)
  let ?stats = "\<lambda>nt. upd_node (nb_node ?ibuf) (\<lambda>x. x\<lparr>nn_bytes_received := nn_bytes_received x + nm_size y,
       nn_msgs_received := nn_msgs_received x + 1\<rparr>) (upd_node (nb_node ?buf) (\<lambda>x. x\<lparr>nn_bytes_sent := nn_bytes_sent x + nm_size y,
       nn_msgs_sent := nn_msgs_sent x + 1\<rparr>) (upd_link l (\<lambda>x. x\<lparr>lk_busy_cycles := lk_busy_cycles x + ?lat,
       lk_transferred_bytes := lk_transferred_bytes x + nm_size y, lk_transferred_msgs := lk_transferred_msgs x + 1\<rparr>) nt))"
  have stats: "same_contents n (?stats n)" for n
    by (rule sc_trans [OF sc_trans [OF sc_upd(2) sc_upd(3)] sc_upd(3)]) (simp_all add: node_shape_def link_shape_def)
  consider "hd (nb_msg_list ?buf) \<noteq> m" | "hd (nb_msg_list ?buf) = m" "nb_read_busy ?buf \<ge> ?cyc"
    | "hd (nb_msg_list ?buf) = m" "\<not> nb_read_busy ?buf \<ge> ?cyc" "lk_busy ?link \<ge> ?cyc"
    | "hd (nb_msg_list ?buf) = m" "\<not> nb_read_busy ?buf \<ge> ?cyc" "\<not> lk_busy ?link \<ge> ?cyc" "nb_write_busy ?ibuf \<ge> ?cyc"
    | "hd (nb_msg_list ?buf) = m" "\<not> nb_read_busy ?buf \<ge> ?cyc" "\<not> lk_busy ?link \<ge> ?cyc" "\<not> nb_write_busy ?ibuf \<ge> ?cyc"
      by blast
  then show ?thesis
  proof cases
    case 1
    then have "net_ev_output_buffer E m ?d (s, nt) = net_wait b (EV_NET_OUTPUT_BUFFER E) ?d (s, nt)"
      using y ne mem by (simp add: net_ev_output_buffer_def msg_at_def Let_def)
    with wait_done [OF inv K(1,5) bl holds_count [OF I(4) bl ne]] show ?thesis by simp
  next
    case 2
    then have "net_ev_output_buffer E m ?d (s, nt) = schedule (EV_NET_OUTPUT_BUFFER E) ?d (nb_read_busy ?buf - ?cyc + 1) (s, nt)"
      using y ne mem by (simp add: net_ev_output_buffer_def msg_at_def Let_def)
    with again_done [OF inv K(1,5)] 2 show ?thesis by simp
  next
    case 3
    then have "net_ev_output_buffer E m ?d (s, nt) = schedule (EV_NET_OUTPUT_BUFFER E) ?d (lk_busy ?link - ?cyc + 1) (s, nt)"
      using y ne mem l by (simp add: net_ev_output_buffer_def msg_at_def Let_def)
    with again_done [OF inv K(1,5)] 3 show ?thesis by simp
  next
    case 4
    then have "net_ev_output_buffer E m ?d (s, nt) = schedule (EV_NET_OUTPUT_BUFFER E) ?d (nb_write_busy ?ibuf - ?cyc + 1) (s, nt)"
      using y ne mem l by (simp add: net_ev_output_buffer_def msg_at_def Let_def)
    with again_done [OF inv K(1,5)] 4 show ?thesis by simp
  next
    case 5
    show ?thesis
    proof (cases "nm_size y > nb_size ?ibuf")
      case True
      then have "net_ev_output_buffer E m ?d (s, nt) = Inl (Fatal ''message does not fit in buffer'')"
        using 5 y ne mem l by (simp add: net_ev_output_buffer_def msg_at_def Let_def)
      with True y ibl show ?thesis by (auto simp: event_done_def too_big_def)
    next
      case False
      show ?thesis
      proof (cases "nb_count ?ibuf + nm_size y > nb_size ?ibuf")
        case True
        then have "net_ev_output_buffer E m ?d (s, nt) = net_wait ?ib (EV_NET_OUTPUT_BUFFER E) ?d (s, nt)"
          using 5 False y ne mem l by (simp add: net_ev_output_buffer_def msg_at_def Let_def)
        moreover have "nb_count ?ibuf > 0" using True False by linarith
        ultimately show ?thesis using wait_done [OF inv K(1,5) ibl] by simp
      next
        case fits: False
        have "net_ev_output_buffer E m ?d (s, nt) =
           res_bind (transfer m b ?ib (Some (nb_node ?ibuf)) (?cyc + ?lat - 1) (s, ?nt1))
             (\<lambda>(s, nt). schedule (EV_NET_INPUT_BUFFER E) ?d ?lat (s, ?stats nt))"
          using 5 False fits y ne mem l lat by (simp add: net_ev_output_buffer_def msg_at_def Let_def)
        moreover have "routed nt (if is_out nt ?ib then dst_of nt ?ib else nb_node ?ibuf) (nm_dst_node y)"
          using rt l(4,5) out_not_in [OF topo] by auto
        ultimately show ?thesis
          using transfer_done [OF inv y(1,2) 5(1) ibl l(3) _ _ _ sc lat stats, of "EV_NET_INPUT_BUFFER E"] fits l(4) by simp
      qed
    qed
  qed
qed

section \<open>The scheduler of a node\<close>

lemma lookup_table:
  assumes "contents_ok nt" "i < net_node_count nt" "j < net_node_count nt"
  shows "net_routing_table_lookup (net_routing_table nt) i j = Inr (i * rt_dim (net_routing_table nt) + j)"
    "entry_at (net_routing_table nt) (i * rt_dim (net_routing_table nt) + j) = ent (net_routing_table nt) i j"
proof -
  have "rt_ok (net_routing_table nt)" "rt_dim (net_routing_table nt) = net_node_count nt"
    using assms(1) by (elim contents_ok_def [THEN iffD1, elim_format] conjE; simp only: table_ok_def)+
  with assms(2,3) show "net_routing_table_lookup (net_routing_table nt) i j = Inr (i * rt_dim (net_routing_table nt) + j)"
    by (simp only: lookup_ok)
  show "entry_at (net_routing_table nt) (i * rt_dim (net_routing_table nt) + j) = ent (net_routing_table nt) i j"
    unfolding ent_def ..
qed

text \<open>The message at the head of an input buffer of a switch has a next hop.\<close>

lemma head_routed:
  assumes ok: "contents_ok nt" and b: "is_in nt b" "nb_node (buffer_at nt b) = node" and k: "nn_kind (node_at nt node) \<noteq> net_node_end"
    and m: "m \<in> set (nb_msg_list (buffer_at nt b))"
  shows "\<exists>y ob. net_msgs nt m = Some y \<and> nm_dst_node y < net_node_count nt \<and>
    re_output_buffer (ent (net_routing_table nt) node (nm_dst_node y)) = Some ob"
proof -
  have t: "topo_ok nt" using ok by (simp add: contents_ok_def)
  have bl: "b < length (net_buffers nt)" using b(1) by (simp add: is_in_def)
  from buf_okD(4) [OF ok bl m] obtain y where y: "net_msgs nt m = Some y" "nm_buffer y = Some b" by blast
  note M = msg_okD [OF ok y(1)]
  have "routed nt node (nm_dst_node y)" using M(6) y(2) b out_not_in [OF t _ b(1)] by (auto split: if_splits)
  then have "re_output_buffer (ent (net_routing_table nt) node (nm_dst_node y)) \<noteq> None"
    using M(5) k by (auto simp: routed_def)
  with y M(4) show ?thesis by blast
qed

lemma sched_loop_total:
  assumes ok: "contents_ok nt" and n: "node < net_node_count nt" and k: "nn_kind (node_at nt node) \<noteq> net_node_end"
    and bs: "\<forall>b \<in> set bs. is_in nt b \<and> nb_node (buffer_at nt b) = node"
  shows "\<exists>r. sched_loop cyc nt node ob bs = Inr r"
  using bs
proof (induction bs)
  case (Cons b bs)
  then obtain r where r: "sched_loop cyc nt node ob bs = Inr r" by auto
  show ?case
  proof (cases "nb_msg_list (buffer_at nt b)")
    case (Cons m xs)
    with Cons.prems head_routed [OF ok _ _ k, of b m] obtain y o2 where
      "net_msgs nt m = Some y" "nm_dst_node y < net_node_count nt"
      "re_output_buffer (ent (net_routing_table nt) node (nm_dst_node y)) = Some o2" by auto
    with Cons r lookup_table [OF ok n] show ?thesis by (simp add: msg_at_def)
  qed (simp add: r)
qed simp

lemma node_schedule_total:
  assumes ok: "contents_ok nt" and n: "node < net_node_count nt" and k: "nn_kind (node_at nt node) \<noteq> net_node_end"
    and o: "is_out nt ob" "nb_node (buffer_at nt ob) = node"
  shows "\<exists>nt' r. net_node_schedule cyc node ob nt = Inr (nt', r) \<and> same_contents nt nt'"
proof -
  have t: "topo_ok nt" using ok by (simp add: contents_ok_def)
  let ?buf = "buffer_at nt ob" and ?ins = "nn_input_buffer_list (node_at nt node)"
  have ol: "ob < length (net_buffers nt)" "ob \<in> set (nn_output_buffer_list (node_at nt node))"
    using o by (auto simp: is_out_def)
  note O = topo_outD [OF t n ol(2)]
  let ?nt1 = "upd_buffer ob (\<lambda>b. b\<lparr>nb_sched_when := cyc\<rparr>) nt"
  have sc1: "same_contents nt ?nt1" by (rule sc_upd(1)) (simp add: buffer_shape_def)
  note S = same_contentsD(1) [OF sc1]
  have ok1: "contents_ok ?nt1"
    by (rule keep_ok [OF ok S]) (use sc1 in \<open>auto simp: same_contents_def contents_def\<close>)
  have bs: "is_in ?nt1 b \<and> nb_node (buffer_at ?nt1 b) = node" if b: "b \<in> set ?ins" for b
  proof -
    have "is_in nt b" using topo_inD(1,2) [OF t n b] b by (simp add: is_in_def)
    then show ?thesis using topo_inD(1,2) [OF t n b] is_out_shape(2) [OF S t] shapeD(6) [OF S, of b] by metis
  qed
  define lst where "lst = (case nb_sched_buffer ?buf of Some b \<Rightarrow> nb_index (buffer_at ?nt1 b) | None \<Rightarrow> 0)"
  let ?bs = "map (\<lambda>i. ?ins ! ((lst + i + 1) mod length ?ins)) [0..<length ?ins]"
  have "\<forall>b \<in> set ?bs. is_in ?nt1 b \<and> nb_node (buffer_at ?nt1 b) = node"
  proof
    fix b assume "b \<in> set ?bs"
    then obtain i where "?ins \<noteq> []" "b = ?ins ! ((lst + i + 1) mod length ?ins)" by (cases "?ins = []") auto
    then have "b \<in> set ?ins" by (simp del: add_Suc add_Suc_right)
    then show "is_in ?nt1 b \<and> nb_node (buffer_at ?nt1 b) = node" by (rule bs)
  qed
  then have "\<exists>r. sched_loop cyc ?nt1 node ob ?bs = Inr r"
    using k n shapeD(1,5) [OF S] by (intro sched_loop_total [OF ok1]) simp_all
  then obtain r where "sched_loop cyc ?nt1 node ob ?bs = Inr r" by blast
  moreover have "same_contents nt (upd_buffer ob (\<lambda>b. b\<lparr>nb_sched_buffer := q\<rparr>) ?nt1)" for q
    by (rule sc_trans [OF sc1 sc_upd(1)]) (simp add: buffer_shape_def)
  ultimately show ?thesis
    using O(2,4,5) by (simp add: net_node_schedule_def Let_def lst_def)
qed

text \<open>A message that may cross a switch: the scheduler decides, and the message moves or asks again.\<close>

lemma crossbar_done:
  assumes inv: "net_inv E (s, nt) {#event_at (esim_cycle s) (EV_NET_INPUT_BUFFER E, Net_stack m re rs)#}"
    and y: "net_msgs nt m = Some y" "nm_buffer y = Some b" "is_in nt b" "nm_busy y < esim_cycle s"
    and hd: "hd (nb_msg_list (buffer_at nt b)) = m" and nd: "node = nb_node (buffer_at nt b)"
    and k: "nn_kind (node_at nt node) \<noteq> net_node_end"
    and ob: "re_output_buffer (ent (net_routing_table nt) node (nm_dst_node y)) = Some ob"
    and fit: "\<not> nb_count (buffer_at nt ob) + nm_size y > nb_size (buffer_at nt ob)"
  shows "event_done E (s, nt) (res_bind (net_node_schedule (esim_cycle s) node ob nt) (\<lambda>(nt, turn).
      if turn \<noteq> Some b then schedule (EV_NET_INPUT_BUFFER E) (Net_stack m re rs) 1 (s, nt)
      else if nn_kind (node_at nt node) = net_node_end then Inl Assert_failed
      else if \<not> nn_bandwidth (node_at nt node) > 0 then Inl Assert_failed
      else
        let lat = (nm_size y - 1) div nn_bandwidth (node_at nt node) + 1; until = esim_cycle s + lat - 1 in
        if \<not> lat > 0 then Inl Assert_failed
        else if \<not> nm_busy y < esim_cycle s then Inl Assert_failed
        else
          let nt = upd_buffer b (\<lambda>x. x\<lparr>nb_read_busy := until\<rparr>) nt;
              nt = upd_buffer ob (\<lambda>x. x\<lparr>nb_write_busy := until\<rparr>) nt
          in res_bind (transfer m b ob (Some node) until (s, nt)) (\<lambda>sw.
            schedule (EV_NET_OUTPUT_BUFFER E) (Net_stack m re rs) lat sw)))"
proof -
  note I = net_invD [OF inv]
  note K = events_okD [OF I(3)]
  let ?d = "Net_stack m re rs" and ?cyc = "esim_cycle s"
  have topo: "topo_ok nt" and tab: "table_ok nt (net_routing_table nt)" and tr: "transit_ok nt"
    using I(4) by (simp_all add: contents_ok_def)
  note M = msg_okD [OF I(4) y(1)]
  have n: "node < net_node_count nt" using topo y(3) nd by (simp add: topo_ok_def is_in_def)
  have om: "ob \<in> set (nn_output_buffer_list (node_at nt node))" using tab ob n M(4) by (simp add: table_ok_def)
  note O = topo_outD [OF topo n om]
  have out: "is_out nt ob" using O(1,2) om by (simp add: is_out_def)
  have ne: "ob \<noteq> b" using out y(3) out_not_in [OF topo] by blast
  obtain nt1 r where r: "net_node_schedule ?cyc node ob nt = Inr (nt1, r)" and sc: "same_contents nt nt1"
    using node_schedule_total [OF I(4) n k out O(2)] by blast
  note S = same_contentsD(1) [OF sc]
  have inv1: "net_inv E (s, nt1) {#event_at ?cyc (EV_NET_INPUT_BUFFER E, ?d)#}" by (rule same_contents_inv [OF sc inv])
  show ?thesis
  proof (cases "r = Some b")
    case False
    have "net_inv E (s, nt1) {#event_at (?cyc + 1) (EV_NET_INPUT_BUFFER E, ?d)#}" by (rule later_inv [OF inv1]) simp
    from schedule_inv [OF this K(2,6)] obtain s' where
      "schedule (EV_NET_INPUT_BUFFER E) ?d 1 (s, nt1) = Inr (s', nt1)" "same_engine s s'" "net_inv E (s', nt1) {#}" by auto
    with False r S show ?thesis by (auto simp: event_done_def)
  next
    case True
    let ?bw = "nn_bandwidth (node_at nt node)"
    let ?lat = "(nm_size y - 1) div ?bw + 1"
    have bw: "1 \<le> ?bw" using topo n k by (auto simp: topo_ok_def node_ok_def)
    have lat: "0 < ?lat" by (rule div_lat [OF M(3) bw])
    let ?nt2 = "upd_buffer ob (\<lambda>x. x\<lparr>nb_write_busy := ?cyc + ?lat - 1\<rparr>)
       (upd_buffer b (\<lambda>x. x\<lparr>nb_read_busy := ?cyc + ?lat - 1\<rparr>) nt1)"
    have sc2: "same_contents nt ?nt2"
      by (rule sc_trans [OF sc_trans [OF sc sc_upd(1)] sc_upd(1)]) (simp_all add: buffer_shape_def)
    have "routed nt (dst_of nt ob) (nm_dst_node y)" using tr n M(4,5) k ob by (auto simp: transit_ok_def)
    then have "event_done E (s, nt) (res_bind (transfer m b ob (Some (nb_node (buffer_at nt ob))) (?cyc + ?lat - 1) (s, ?nt2))
           (\<lambda>(s, nt). schedule (EV_NET_OUTPUT_BUFFER E) ?d ?lat (s, nt)))"
      using fit out by (intro transfer_done [OF inv y(1,2) hd O(1) ne _ _ _ sc2 lat, where stats = "\<lambda>nt. nt"]) simp_all
    then show ?thesis using r True k bw lat y(4) O(2) shapeD(5) [OF S n] by (simp add: Let_def)
  qed
qed

text \<open>An input buffer's event: reception, or the crossbar of the switch.\<close>

lemma input_buffer_done:
  assumes inv: "net_inv E (s, nt) {#event_at (esim_cycle s) (EV_NET_INPUT_BUFFER E, Net_stack m re rs)#}"
  shows "event_done E (s, nt) (net_ev_input_buffer E m (Net_stack m re rs) (s, nt))"
proof -
  note I = net_invD [OF inv] and H = hand_good [OF inv]
  note K = events_okD [OF I(3)]
  let ?d = "Net_stack m re rs" and ?cyc = "esim_cycle s" and ?I = "EV_NET_INPUT_BUFFER E"
  have topo: "topo_ok nt" using I(4) by (simp add: contents_ok_def)
  from H(2) K obtain y b where y: "net_msgs nt m = Some y" "nm_buffer y = Some b" "is_in nt b" "nm_busy y < ?cyc"
    by (auto simp: tok_ok_def)
  note M = msg_okD [OF I(4) y(1)]
  let ?buf = "buffer_at nt b"
  let ?node = "nb_node ?buf"
  have bl: "b < length (net_buffers nt)" using y(3) by (simp add: is_in_def)
  have n: "?node < net_node_count nt" using topo bl by (simp add: topo_ok_def)
  have mem: "m \<in> set (nb_msg_list ?buf)" "nm_node y = Some ?node" and rt: "routed nt ?node (nm_dst_node y)"
    using M(6) y(2,3) out_not_in [OF topo _ y(3)] by (auto split: if_splits)
  then have ne: "nb_msg_list ?buf \<noteq> []" by auto
  note start = y mem ne
  show ?thesis
  proof (cases "hd (nb_msg_list ?buf) = m")
    case False
    then have "net_ev_input_buffer E m ?d (s, nt) = net_wait b ?I ?d (s, nt)"
      using start by (simp add: net_ev_input_buffer_def msg_at_def Let_def)
    with wait_done [OF inv K(2,6) bl holds_count [OF I(4) bl ne]] show ?thesis by simp
  next
    case hd: True
    show ?thesis
    proof (cases "?node = nm_dst_node y")
      case True
      then have "net_ev_input_buffer E m ?d (s, nt) = schedule (EV_NET_RECEIVE E) ?d 0 (s, nt)"
        using start hd by (simp add: net_ev_input_buffer_def msg_at_def Let_def)
      moreover have "delivered nt m" using y(1-3) True hd by (auto simp: delivered_def)
      then have "good_tok E s nt (event_at ?cyc (EV_NET_RECEIVE E, ?d))"
        using H(1) y by (auto simp: good_tok_def event_at_def tok_ok_def)
      then have i: "net_inv E (s, nt) {#event_at (?cyc + 0) (EV_NET_RECEIVE E, ?d)#}"
        using rehand [OF inv, of m] by simp
      from schedule_inv [OF i K(3,7)] obtain s' where
        "schedule (EV_NET_RECEIVE E) ?d 0 (s, nt) = Inr (s', nt)" "same_engine s s'" "net_inv E (s', nt) {#}" by auto
      ultimately show ?thesis by (auto simp: event_done_def)
    next
      case transit: False
      then obtain ob where ob: "re_output_buffer (ent (net_routing_table nt) ?node (nm_dst_node y)) = Some ob"
        and k: "nn_kind (node_at nt ?node) \<noteq> net_node_end" using rt by (auto simp: routed_def)
      show ?thesis
      proof (cases "nb_read_busy ?buf \<ge> ?cyc")
        case True
        then have "net_ev_input_buffer E m ?d (s, nt) = schedule ?I ?d (nb_read_busy ?buf - ?cyc + 1) (s, nt)"
          using start hd transit by (simp add: net_ev_input_buffer_def msg_at_def Let_def)
        with again_done [OF inv K(2,6)] True show ?thesis by simp
      next
        case False
        note go = start hd transit ob False lookup_table [OF I(4) n M(4)]
        let ?obuf = "buffer_at nt ob"
        have ol: "ob < length (net_buffers nt)"
          using I(4) ob n M(4) topo_outD(1) [OF topo n, of ob] by (simp add: contents_ok_def table_ok_def)
        consider "nb_write_busy ?obuf \<ge> ?cyc" | "\<not> nb_write_busy ?obuf \<ge> ?cyc" "nm_size y > nb_size ?obuf"
          | "\<not> nb_write_busy ?obuf \<ge> ?cyc" "\<not> nm_size y > nb_size ?obuf" "nb_count ?obuf + nm_size y > nb_size ?obuf"
          | "\<not> nb_write_busy ?obuf \<ge> ?cyc" "\<not> nm_size y > nb_size ?obuf" "\<not> nb_count ?obuf + nm_size y > nb_size ?obuf"
          by blast
        then show ?thesis
        proof cases
          case 1
          then have "net_ev_input_buffer E m ?d (s, nt) = schedule ?I ?d (nb_write_busy ?obuf - ?cyc + 1) (s, nt)"
            using go by (simp add: net_ev_input_buffer_def msg_at_def Let_def)
          with again_done [OF inv K(2,6)] 1 show ?thesis by simp
        next
          case 2
          then have "net_ev_input_buffer E m ?d (s, nt) = Inl (Fatal ''message does not fit in buffer'')"
            using go by (simp add: net_ev_input_buffer_def msg_at_def Let_def)
          with 2 y(1) ol show ?thesis by (auto simp: event_done_def too_big_def)
        next
          case 3
          then have "net_ev_input_buffer E m ?d (s, nt) = net_wait ob ?I ?d (s, nt)"
            using go by (simp add: net_ev_input_buffer_def msg_at_def Let_def)
          moreover have "nb_count ?obuf > 0" using 3 by linarith
          ultimately show ?thesis using wait_done [OF inv K(2,6) ol] by simp
        next
          case 4
          with crossbar_done [OF inv y hd refl k ob 4(3)] go show ?thesis
            by (simp add: net_ev_input_buffer_def msg_at_def Let_def)
        qed
      qed
    qed
  qed
qed

section \<open>The table of messages\<close>

lemma bucket_less: "msg_bucket m < NET_MSG_TABLE_SIZE"
  unfolding msg_bucket_def by simp

lemma chain_next_mem: "chain_next m xs \<noteq> None \<Longrightarrow> m \<in> set xs"
  by (induction m xs rule: chain_next.induct) (auto split: if_splits)

lemma count_remove_first:
  "count_list (remove_first (\<lambda>x. x = m) xs) x = count_list xs x - (if x = m then 1 else 0)"
  by (induction xs) auto

lemma find_mem: "m \<in> set xs \<Longrightarrow> find (\<lambda>x. x = m) xs = Some m"
  by (induction xs) auto

lemma msg_table_okI:
  "length (net_msg_table nt) = NET_MSG_TABLE_SIZE \<Longrightarrow>
   (\<And>m. count_list (net_msg_table nt ! msg_bucket m) m = (if net_msgs nt m = None then 0 else 1)) \<Longrightarrow> msg_table_ok nt"
  unfolding msg_table_ok_def by blast

lemma table_insert_ok:
  assumes "msg_table_ok (nt :: 'd net_t)" "net_msgs nt m = None" "net_msg_table nt1 = net_msg_table nt"
  shows "\<exists>T. net_msg_table_insert m nt1 = Inr (nt1\<lparr>net_msg_table := T\<rparr>) \<and>
    (\<forall>nt' :: 'd net_t. net_msg_table nt' = T \<longrightarrow> (\<forall>x. net_msgs nt' x = None \<longleftrightarrow> net_msgs nt x = None \<and> x \<noteq> m) \<longrightarrow> msg_table_ok nt')"
proof -
  let ?b = "net_msg_table nt ! msg_bucket m" and ?T = "(net_msg_table nt)[msg_bucket m := m # net_msg_table nt ! msg_bucket m]"
  have l: "length (net_msg_table nt) = NET_MSG_TABLE_SIZE"
    and c: "count_list (net_msg_table nt ! msg_bucket x) x = (if net_msgs nt x = None then 0 else 1)" for x
    using assms(1) unfolding msg_table_ok_def by blast+
  have "m \<notin> set ?b" using c [of m] assms(2) by (simp add: count_list_0_iff)
  then have "chain_next m ?b = None" using chain_next_mem by blast
  then have "net_msg_table_insert m nt1 = Inr (nt1\<lparr>net_msg_table := ?T\<rparr>)"
    by (simp add: net_msg_table_insert_def assms(3) Let_def)
  moreover have "count_list (?T ! msg_bucket x) x = (if net_msgs nt x = None \<and> x \<noteq> m then 0 else 1)" for x
  proof (cases "msg_bucket x = msg_bucket m")
    case True
    have "msg_bucket m < length (net_msg_table nt)" unfolding l by (rule bucket_less)
    then have "?T ! msg_bucket x = m # ?b" unfolding True by (rule nth_list_update_eq)
    with True c [of x] assms(2) show ?thesis by (simp only: count_list.simps) auto
  next
    case False
    then have "?T ! msg_bucket x = net_msg_table nt ! msg_bucket x" "x \<noteq> m" by auto
    with c [of x] show ?thesis by simp
  qed
  moreover have "length ?T = NET_MSG_TABLE_SIZE" using l by simp
  ultimately show ?thesis
    by (intro exI [of _ ?T] conjI allI impI msg_table_okI) simp_all
qed

lemma table_extract_ok:
  assumes "msg_table_ok (nt :: 'd net_t)" "net_msgs nt m = Some y" "net_msg_table nt1 = net_msg_table nt"
  shows "\<exists>T. net_msg_table_extract m nt1 = Inr (nt1\<lparr>net_msg_table := T\<rparr>, m) \<and>
    (\<forall>nt' :: 'd net_t. net_msg_table nt' = T \<longrightarrow> net_msgs nt' = (net_msgs nt)(m := None) \<longrightarrow> msg_table_ok nt')"
proof -
  let ?b = "net_msg_table nt ! msg_bucket m"
  let ?T = "(net_msg_table nt)[msg_bucket m := remove_first (\<lambda>x. x = m) ?b]"
  have l: "length (net_msg_table nt) = NET_MSG_TABLE_SIZE"
    and c: "count_list (net_msg_table nt ! msg_bucket x) x = (if net_msgs nt x = None then 0 else 1)" for x
    using assms(1) unfolding msg_table_ok_def by blast+
  have "m \<in> set ?b" using c [of m] assms(2) by (metis count_notin option.distinct(1) zero_neq_one)
  then have "find (\<lambda>x. x = m) ?b = Some m" by (rule find_mem)
  then have "net_msg_table_extract m nt1 = Inr (nt1\<lparr>net_msg_table := ?T\<rparr>, m)"
    by (simp add: net_msg_table_extract_def assms(3) Let_def)
  moreover have "count_list (?T ! msg_bucket x) x = (if ((net_msgs nt)(m := None)) x = None then 0 else 1)" for x
  proof (cases "msg_bucket x = msg_bucket m")
    case True
    have "msg_bucket m < length (net_msg_table nt)" unfolding l by (rule bucket_less)
    then have "?T ! msg_bucket x = remove_first (\<lambda>x. x = m) ?b" unfolding True by (rule nth_list_update_eq)
    with True c [of x] show ?thesis by (simp only: count_remove_first) auto
  next
    case False
    then have "?T ! msg_bucket x = net_msg_table nt ! msg_bucket x" "x \<noteq> m" by auto
    with c [of x] show ?thesis by simp
  qed
  moreover have "length ?T = NET_MSG_TABLE_SIZE" using l by simp
  ultimately show ?thesis
    by (intro exI [of _ ?T] conjI allI impI msg_table_okI) simp_all
qed

section \<open>Reception\<close>

text \<open>A delivered message needs no event.\<close>

lemma drop_inv:
  assumes inv: "net_inv E (s, nt) (add_mset t X)" and t: "is_stack m t" and d: "delivered nt m"
  shows "net_inv E (s, nt) X \<and> tokens m (toks (s, nt) + X) = 0"
proof -
  note I = net_invD [OF inv]
  have z: "tokens m (toks (s, nt) + X) = 0" using I(8) [of m] t by simp
  have o: "tokens x (toks (s, nt) + add_mset t X) = tokens x (toks (s, nt) + X)" if "x \<noteq> m" for x
    using that t by (auto simp: is_stack_def split: net_data.splits)
  have "net_inv E (s, nt) X"
  proof (rule net_invI)
    fix x assume "net_msgs nt x \<noteq> None" "tokens x (toks (s, nt) + X) = 0"
    then show "delivered nt x" using d o I(9) by (cases "x = m") auto
  next
    fix x show "tokens x (toks (s, nt) + X) \<le> 1" using I(8) [of x] z by (cases "x = m") auto
  qed (use I in auto)
  with z show ?thesis by blast
qed

lemma receive_inv:
  assumes inv: "net_inv E (s, nt) X" and z: "tokens m (toks (s, nt) + X) = 0"
    and y: "net_msgs nt m = Some y" and d: "delivered nt m"
  shows "\<exists>s' nt'. net_receive (nm_dst_node y) m (s, nt) = Inr (s', nt') \<and> same_engine s s' \<and> same_shape nt nt' \<and>
    net_msgs nt' = (net_msgs nt)(m := None) \<and> net_inv E (s', nt') X"
proof -
  note I = net_invD [OF inv]
  have topo: "topo_ok nt" using I(4) by (simp add: contents_ok_def)
  from d y obtain b where b: "nm_buffer y = Some b" "is_in nt b" "nb_node (buffer_at nt b) = nm_dst_node y"
    "hd (nb_msg_list (buffer_at nt b)) = m" by (auto simp: delivered_def)
  note M = msg_okD [OF I(4) y]
  have bl: "b < length (net_buffers nt)" using b(2) by (simp add: is_in_def)
  have mem: "m \<in> set (nb_msg_list (buffer_at nt b))" "nm_node y = Some (nm_dst_node y)" using M(6) b by auto
  then obtain xs where xs: "nb_msg_list (buffer_at nt b) = m # xs" using b(4) by (cases "nb_msg_list (buffer_at nt b)") auto
  from extract_eq [OF I(1,2,4) bl xs I(6)] obtain s' n1 where
    n1: "net_buffer_extract b m (s, nt) = Inr (s', n1)" "esim_ok s'" "same_engine s s'"
      "with_buffer b (nb_count (buffer_at nt b) - msg_size nt m, xs, []) nt n1"
      "toks (s', n1) = toks (s, nt)" "wakes n1 \<subseteq># wakes nt" by blast
  have "net_msg_table n1 = net_msg_table nt" using n1(4) by (simp add: with_buffer_def)
  from table_extract_ok [OF I(5) y this] obtain T where
    T: "net_msg_table_extract m n1 = Inr (n1\<lparr>net_msg_table := T\<rparr>, m)"
      "\<And>nt' :: 'a net_data net_t. net_msg_table nt' = T \<Longrightarrow> net_msgs nt' = (net_msgs nt)(m := None) \<Longrightarrow> msg_table_ok nt'" by blast
  let ?n = "net_msg_free m (n1\<lparr>net_msg_table := T\<rparr>)"
  have ms: "net_msgs ?n = (net_msgs nt)(m := None)" using n1(4) by (simp add: net_msg_free_def with_buffer_def)
  have bf: "net_buffers ?n = net_buffers n1" by (simp add: net_msg_free_def)
  have s: "same_shape nt ?n" using n1(4) by (simp add: with_buffer_def same_shape_def net_msg_free_def)
  have con: "contents ?n x = contents n1 x" for x by (simp add: contents_def bf)
  have ok: "contents_ok ?n"
    by (rule remove_ok [OF I(4) bl xs]) (use n1(4) s ms con in \<open>simp add: changed_def with_buffer_def net_msg_free_def\<close>)
  have mt: "msg_table_ok ?n" by (rule T(2)) (use ms in \<open>simp_all add: net_msg_free_def\<close>)
  have st: "others_stay m nt ?n"
    unfolding others_stay_def
  proof (intro conjI allI impI)
    fix x z assume x: "x < length (net_buffers nt)" "z \<noteq> m" "hd (nb_msg_list (buffer_at nt x)) = z"
    then have "x \<noteq> b" using b(4) by auto
    then have "contents ?n x = contents nt x" using n1(4) x(1) con by (simp add: with_buffer_def)
    with x(3) show "hd (nb_msg_list (buffer_at ?n x)) = z" by (simp add: contents_def)
  qed (use s ms in simp_all)
  have tk: "toks (s', ?n) = toks (s, nt)" using n1(5) by (simp add: toks_def wakes_def bf)
  have wk: "p \<in># wakes ?n \<Longrightarrow> known s (fst p) \<and> fst p \<noteq> 1" for p
    using n1(6) I(6) mset_subset_eqD unfolding wakes_def bf by metis
  have "net_inv E (s', ?n) X"
  proof (rule net_invI)
    fix t assume t: "t \<in># toks (s', ?n) + X"
    then have "good_tok E s nt t" using I(7) tk by simp
    moreover have "ev_data (snd t) = Net_stack x re rs \<Longrightarrow> x \<noteq> m" for x re rs
      using tokens_zero [OF z] t unfolding tk by blast
    ultimately have "good_tok E s ?n t" using tok_ok_stay [OF st I(4)] unfolding good_tok_def by blast
    then show "good_tok E s' ?n t" using good_tok_engine(1) [OF n1(3)] by blast
  next
    fix x assume x: "net_msgs ?n x \<noteq> None" "tokens x (toks (s', ?n) + X) = 0"
    then have "x \<noteq> m" "net_msgs nt x \<noteq> None" using ms by (auto split: if_splits)
    then show "delivered ?n x" using x(2) delivered_stay [OF st I(4)] I(9) unfolding tk by blast
  next
    fix x show "tokens x (toks (s', ?n) + X) \<le> 1" unfolding tk by (rule I(8))
  next
    fix p assume "p \<in># wakes ?n"
    with wk same_engineD(3) [OF n1(3)] show "known s' (fst p) \<and> fst p \<noteq> 1" by simp
  qed (use I n1(2) ok mt same_engineD [OF n1(3)] good_tok_engine(2) [OF n1(3)] in simp_all)
  moreover have "net_receive (nm_dst_node y) m (s, nt) = Inr (s', ?n)"
    using y b xs mem(2) n1(1) T(1) by (simp add: net_receive_def msg_at_def Let_def)
  ultimately show ?thesis using n1(3) s ms by blast
qed

end
