(* ===== verification/Net_Sim.thy ===== *)
theory Net_Sim
  imports Net_Safe
begin

text \<open>
  A simulation of a network (\<open>src/network/\<close> over \<open>src/lib/esim/\<close>): events handled in the order of the
  heap, messages sent and received by the user, and the passing of cycles, in any interleaving. All
  states that can be reached keep the invariant of the messages in flight.
\<close>

section \<open>Handling of events\<close>

lemma ret_schedule:
  assumes inv: "net_inv E (s, nt) X" and re: "ret_ok s re rs"
  shows "\<exists>s'. schedule re rs 0 (s, nt) = Inr (s', nt) \<and> same_engine s s' \<and> net_inv E (s', nt) X"
proof (cases "re = 1")
  case True
  note I = net_invD [OF inv]
  from schedule_pend [OF I(1,2), of re 0 rs] re True obtain s' where
    s': "esim_schedule_event s re rs 0 = Inr s'" "esim_ok s'" "same_engine s s'" "pend s' = pend s"
    by (auto simp: ret_ok_def)
  have "s' = s" using s'(1) True re I(1,2) by (auto simp: esim_schedule_event_def ret_ok_def known_def esim_ok_def Let_def split: if_splits)
  with inv s' show ?thesis by (simp add: schedule_def)
next
  case False
  note I = net_invD [OF inv]
  let ?t = "event_at (esim_cycle s + 0) (re, rs)"
  have nt: "\<not> is_stack m ?t" for m using re by (auto simp: is_stack_def event_at_def ret_ok_def split: net_data.splits)
  have "net_inv E (s, nt) (add_mset ?t X)"
  proof (rule net_invI)
    fix u assume "u \<in># toks (s, nt) + add_mset ?t X"
    then consider "u \<in># toks (s, nt) + X" | "u = ?t" by auto
    then show "good_tok E s nt u"
      by cases (use I(7) re in \<open>auto simp: good_tok_def event_at_def ret_ok_def\<close>)
  qed (use I nt in auto)
  from schedule_inv [OF this] re False show ?thesis by (auto simp: ret_ok_def)
qed

lemma receive_done:
  assumes inv: "net_inv E (s, nt) {#event_at (esim_cycle s) (EV_NET_RECEIVE E, Net_stack m re rs)#}"
  shows "event_done E (s, nt) (net_ev_receive m (Net_stack m re rs) (s, nt))"
proof -
  note I = net_invD [OF inv] and H = hand_good [OF inv]
  note K = events_okD [OF I(3)]
  have none: "esim_ev_none s = 1" using I(1) by (simp add: esim_ok_def)
  from H(2) K have d: "delivered nt m" by (auto simp: tok_ok_def)
  then obtain y where y: "net_msgs nt m = Some y" by (auto simp: delivered_def)
  have "nm_node y = Some (nm_dst_node y)"
    using d y msg_okD(6) [OF I(4) y] by (auto simp: delivered_def)
  note y = y this
  let ?n = "nt\<lparr>net_transfers := net_transfers nt + 1, net_lat_acc := net_lat_acc nt + (esim_cycle s - nm_send_cycle y),
              net_msg_size_acc := net_msg_size_acc nt + nm_size y\<rparr>"
  have sc: "same_contents nt ?n" by (simp add: same_contents_def same_shape_def contents_def)
  have "net_inv E (s, ?n) {#event_at (esim_cycle s) (EV_NET_RECEIVE E, Net_stack m re rs)#}"
    by (rule same_contents_inv [OF sc inv])
  moreover have dn: "delivered ?n m"
    using d by (simp add: delivered_def is_in_def)
  ultimately have "net_inv E (s, ?n) {#} \<and> tokens m (toks (s, ?n) + {#}) = 0"
    using drop_inv [of E s ?n _ "{#}" m] stack_event by blast
  then have i: "net_inv E (s, ?n) {#}" "tokens m (toks (s, ?n) + {#}) = 0" by blast+
  note S = same_contentsD(1) [OF sc]
  show ?thesis
  proof (cases "re = 1")
    case True
    from receive_inv [OF i(1,2) _ dn, of y] y obtain s1 n1 where
      r: "net_receive (nm_dst_node y) m (s, ?n) = Inr (s1, n1)" "same_engine s s1" "same_shape ?n n1" "net_inv E (s1, n1) {#}"
      by auto
    have "ret_ok s1 re rs" using H(1) same_engineD(3) [OF r(2)] by (simp add: ret_ok_def)
    from ret_schedule [OF r(4) this] obtain s2 where
      "schedule re rs 0 (s1, n1) = Inr (s2, n1)" "same_engine s1 s2" "net_inv E (s2, n1) {#}" by blast
    moreover have "same_shape nt n1" by (rule same_shape_trans [OF S r(3)])
    ultimately show ?thesis
      using y True r none same_engine_trans [OF r(2)]
      by (auto simp: net_ev_receive_def event_done_def msg_at_def net_stack_return_def)
  next
    case False
    from ret_schedule [OF i(1) H(1)] obtain s2 where
      "schedule re rs 0 (s, ?n) = Inr (s2, ?n)" "same_engine s s2" "net_inv E (s2, ?n) {#}" by blast
    then show ?thesis
      using y False none S by (auto simp: net_ev_receive_def event_done_def msg_at_def net_stack_return_def)
  qed
qed

lemma handler_done:
  assumes inv: "net_inv E (s, nt) {#event_at (esim_cycle s) (e, d)#}"
    and e: "e \<in> {EV_NET_OUTPUT_BUFFER E, EV_NET_INPUT_BUFFER E, EV_NET_RECEIVE E}" and d: "d = Net_stack m re rs"
  shows "event_done E (s, nt) (net_event_handler E e d (s, nt))"
proof -
  note K = events_okD [OF net_invD(3) [OF inv]]
  from e consider "e = EV_NET_OUTPUT_BUFFER E" | "e = EV_NET_INPUT_BUFFER E" | "e = EV_NET_RECEIVE E" by blast
  then show ?thesis
  proof cases
    case 1
    with output_buffer_done inv K d show ?thesis by (simp add: net_event_handler_def)
  next
    case 2
    with input_buffer_done inv K d show ?thesis by (simp add: net_event_handler_def)
  next
    case 3
    with receive_done inv K d show ?thesis by (simp add: net_event_handler_def)
  qed
qed

section \<open>Injection\<close>

text \<open>A new message comes with its event.\<close>

lemma fresh_inv:
  assumes inv: "net_inv E (s, nt) X" and m: "net_msgs nt m = None"
    and ok: "contents_ok nt'" "msg_table_ok nt'" and st: "others_stay m nt nt'" and w: "wakes nt' = wakes nt"
    and t: "is_stack m t" "good_tok E s nt' t"
  shows "net_inv E (s, nt') (add_mset t X)"
proof -
  note I = net_invD [OF inv]
  have tk: "toks (s, nt') = toks (s, nt)" by (simp add: toks_def w)
  have old: "x \<noteq> m" if u: "u \<in># toks (s, nt) + X" "ev_data (snd u) = Net_stack x re rs" for u x re rs
    using I(7) [OF u(1)] u(2) m by (auto simp: good_tok_def tok_ok_def)
  have z: "tokens m (toks (s, nt) + X) = 0"
  proof (rule ccontr)
    assume "tokens m (toks (s, nt) + X) \<noteq> 0"
    then obtain u where "u \<in># toks (s, nt) + X" "is_stack m u"
      by (auto simp: tokens_def filter_mset_eq_mempty_iff size_eq_0_iff_empty)
    moreover from this(2) obtain re rs where "ev_data (snd u) = Net_stack m re rs"
      by (auto simp: is_stack_def split: net_data.splits)
    ultimately show False using old by blast
  qed
  have o: "is_stack x t = (x = m)" for x using t(1) by (auto simp: is_stack_def split: net_data.splits)
  show ?thesis
  proof (rule net_invI)
    fix u assume "u \<in># toks (s, nt') + add_mset t X"
    then consider "u = t" | "u \<in># toks (s, nt) + X" using tk by auto
    then show "good_tok E s nt' u"
    proof cases
      case 2
      with I(7) [OF 2] old [OF 2] tok_ok_stay [OF st I(4)] show ?thesis unfolding good_tok_def by blast
    qed (simp add: t)
  next
    fix x
    show "tokens x (toks (s, nt') + add_mset t X) \<le> 1" using I(8) [of x] z o by (cases "x = m") (simp_all add: tk)
    assume x: "net_msgs nt' x \<noteq> None" "tokens x (toks (s, nt') + add_mset t X) = 0"
    then have "x \<noteq> m" using o by auto
    with x st have "net_msgs nt x \<noteq> None" "tokens x (toks (s, nt) + X) = 0" by (simp_all add: others_stay_def tk)
    from I(9) [OF this] show "delivered nt' x" by (rule delivered_stay [OF st I(4)]) fact
  qed (use I ok w in simp_all)
qed

lemma send_inv:
  assumes inv: "net_inv E (s, nt) X"
    and n: "src < net_node_count nt" "dst < net_node_count nt" "src \<noteq> dst" "nn_kind (node_at nt src) = net_node_end"
      "nn_kind (node_at nt dst) = net_node_end" "1 \<le> sz"
    and ret: "ret_ok s re rs" and can: "net_can_send (esim_cycle s) nt src dst sz = Inr True"
  shows "\<exists>s' nt' y. net_send_ev E src dst sz re rs (s, nt) = Inr ((s', nt'), net_msg_id_counter nt + 1) \<and>
    same_engine s s' \<and> same_shape nt nt' \<and> net_msgs nt' = (net_msgs nt)(net_msg_id_counter nt + 1 \<mapsto> y) \<and>
    nm_size y = sz \<and> nm_src_node y = src \<and> nm_dst_node y = dst \<and> net_inv E (s', nt') X \<and>
    pend s' = add_mset (event_at (esim_cycle s + 1) (EV_NET_OUTPUT_BUFFER E, Net_stack (net_msg_id_counter nt + 1) re rs)) (pend s)"
proof -
  note I = net_invD [OF inv]
  note K = events_okD [OF I(3)]
  let ?m = "net_msg_id_counter nt + 1" and ?cyc = "esim_cycle s"
  have topo: "topo_ok nt" and tab: "table_ok nt (net_routing_table nt)" and tr: "transit_ok nt" and c0: "0 \<le> net_msg_id_counter nt"
    using I(4) by (simp_all add: contents_ok_def)
  have fresh: "net_msgs nt ?m = None" using msg_okD(2) [OF I(4), of ?m] by (cases "net_msgs nt ?m") auto
  from can lookup_table [OF I(4) n(1,2)] obtain b where
    b: "re_output_buffer (ent (net_routing_table nt) src dst) = Some b" "\<not> nb_write_busy (buffer_at nt b) \<ge> ?cyc"
      "\<not> nb_count (buffer_at nt b) + sz > nb_size (buffer_at nt b)"
    by (auto simp: net_can_send_def Let_def split: option.splits)
  have bm: "b \<in> set (nn_output_buffer_list (node_at nt src))" using tab b(1) n by (simp add: table_ok_def)
  note O = topo_outD [OF topo n(1) bm]
  have out: "is_out nt b" using O(1,2) bm by (simp add: is_out_def)
  have rt: "routed nt (dst_of nt b) dst" using tr n b(1) by (auto simp: transit_ok_def)
  let ?y0 = "\<lparr>nm_size = sz, nm_send_cycle = ?cyc, nm_busy = 0, nm_src_node = src,
              nm_dst_node = dst, nm_node = None, nm_buffer = None\<rparr>"
  let ?n0 = "put_msg ?m ?y0 (nt\<lparr>net_msg_id_counter := ?m\<rparr>)"
  have "net_msg_table ?n0 = net_msg_table nt" by (simp add: put_msg_def)
  from table_insert_ok [OF I(5) fresh this] obtain T where
    T: "net_msg_table_insert ?m ?n0 = Inr (?n0\<lparr>net_msg_table := T\<rparr>)"
      "\<And>nt' :: 'a net_data net_t. net_msg_table nt' = T \<Longrightarrow>
        (\<And>x. net_msgs nt' x = None \<longleftrightarrow> net_msgs nt x = None \<and> x \<noteq> ?m) \<Longrightarrow> msg_table_ok nt'" by blast
  let ?n1 = "?n0\<lparr>net_msg_table := T\<rparr>"
  have e1: "net_buffers ?n1 = net_buffers nt" "net_msgs ?n1 = (net_msgs nt)(?m \<mapsto> ?y0)" "net_routing_table ?n1 = net_routing_table nt"
    "net_node_list ?n1 = net_node_list nt" "net_link_list ?n1 = net_link_list nt" "net_msg_id_counter ?n1 = ?m"
    by (simp_all add: put_msg_def)
  from insert_eq [of b ?n1 ?m ?y0 ?cyc] O(1) e1 b(3) obtain n2 where
    n2: "net_buffer_insert ?cyc b ?m ?n1 = Inr n2" "wakes n2 = wakes ?n1"
      "with_buffer b (nb_count (buffer_at nt b) + sz, nb_msg_list (buffer_at nt b) @ [?m], nb_wakeup_list (buffer_at nt b)) ?n1 n2"
    by auto
  let ?n3 = "upd_buffer b (\<lambda>x. x\<lparr>nb_write_busy := ?cyc\<rparr>) n2"
  let ?y = "?y0\<lparr>nm_node := Some src, nm_buffer := Some b, nm_busy := ?cyc\<rparr>"
  let ?n4 = "upd_msg ?m (\<lambda>x. x\<lparr>nm_node := Some src, nm_buffer := Some b, nm_busy := ?cyc\<rparr>) ?n3"
  have s01: "same_shape nt ?n1" by (simp add: same_shape_def put_msg_def)
  have s4: "same_shape nt ?n4"
  proof (rule same_shape_trans [OF s01 same_shape_trans])
    show "same_shape ?n1 n2" using n2(3) by (simp add: with_buffer_def)
    show "same_shape n2 ?n4"
      using sc_upd(1) [of "\<lambda>x. x\<lparr>nb_write_busy := ?cyc\<rparr>" n2 b]
      by (simp add: same_contents_def same_shape_def upd_msg_def put_msg_def buffer_shape_def)
  qed
  have l2: "length (net_buffers n2) = length (net_buffers nt)"
    using n2(3) shapeD(2) [of ?n1 n2] by (simp add: with_buffer_def e1)
  have bf4: "net_buffers ?n4 = net_buffers ?n3" by (simp add: upd_msg_def put_msg_def)
  have c3: "contents ?n4 x = contents n2 x" for x
    unfolding contents_def bf4 using O(1) l2 by (cases "x = b") (simp_all add: upd_buffer_def put_buffer_def)
  have con: "contents ?n4 b = (nb_count (buffer_at nt b) + nm_size ?y, nb_msg_list (buffer_at nt b) @ [?m], nb_wakeup_list (buffer_at nt b))"
    using n2(3) c3 by (simp add: with_buffer_def)
  have oth: "contents ?n4 x = contents nt x" if "x < length (net_buffers nt)" "x \<noteq> b" for x
    using that n2(3) c3 by (simp add: with_buffer_def contents_def e1)
  have m4: "net_msgs ?n4 = (net_msgs nt)(?m \<mapsto> ?y)"
    using n2(3) e1(2) by (simp add: with_buffer_def upd_msg_def put_msg_def upd_buffer_def put_buffer_def)
  have t4: "net_msg_table ?n4 = T" "net_msg_id_counter ?n4 = ?m"
    using n2(3) by (simp_all add: with_buffer_def upd_msg_def put_msg_def upd_buffer_def put_buffer_def)
  have ok: "contents_ok ?n4"
  proof (rule insert_ok [OF I(4) O(1) fresh _ _ _ _ _ _ _ _ _ s4 m4 _ con oth])
    show "routed nt (if is_out nt b then dst_of nt b else nb_node (buffer_at nt b)) (nm_dst_node ?y)" using out rt by simp
  qed (use c0 n b(3) O(2) t4 in simp_all)
  have mt: "msg_table_ok ?n4" by (rule T(2)) (use t4 m4 in simp_all)
  have st: "others_stay ?m nt ?n4"
    unfolding others_stay_def
  proof (intro conjI allI impI)
    fix x z assume x: "x < length (net_buffers nt)" "z \<in> set (nb_msg_list (buffer_at nt x))"
       "hd (nb_msg_list (buffer_at nt x)) = z"
    then have "nb_msg_list (buffer_at ?n4 x) = nb_msg_list (buffer_at nt x) @ (if x = b then [?m] else [])"
      using con oth [of x] by (cases "x = b") (simp_all add: contents_def)
    with x(2,3) show "hd (nb_msg_list (buffer_at ?n4 x)) = z" by (cases "nb_msg_list (buffer_at nt x)") auto
  qed (use s4 m4 in simp_all)
  have w: "wakes ?n4 = wakes nt"
  proof (rule wakes_same)
    show "length (net_buffers ?n4) = length (net_buffers nt)" using shapeD(2) [OF s4] .
    show "nb_wakeup_list (buffer_at ?n4 x) = nb_wakeup_list (buffer_at nt x)" if "x < length (net_buffers nt)" for x
      using con oth [OF that] by (cases "x = b") (simp_all add: contents_def)
  qed
  let ?t = "event_at (?cyc + 1) (EV_NET_OUTPUT_BUFFER E, Net_stack ?m re rs)"
  have "tok_ok E ?n4 (?cyc + 1) (EV_NET_OUTPUT_BUFFER E) ?m"
    using out is_out_shape [OF s4 topo] by (simp add: tok_ok_def m4)
  then have "good_tok E s ?n4 ?t" using ret by (simp add: good_tok_def event_at_def)
  then have "net_inv E (s, ?n4) (add_mset ?t X)"
    using fresh_inv [OF inv fresh ok mt st w] by (simp add: is_stack_def event_at_def)
  from schedule_inv [OF this K(1,5)] obtain s' where
    s': "schedule (EV_NET_OUTPUT_BUFFER E) (Net_stack ?m re rs) 1 (s, ?n4) = Inr (s', ?n4)" "same_engine s s'" "net_inv E (s', ?n4) X"
    by auto
  have "0 \<le> nb_count (buffer_at nt b)"
    unfolding buf_okD(2) [OF I(4) O(1)] by (rule sum_list_nonneg) (auto simp: msg_size_nonneg [OF I(4)])
  with b(3) have "\<not> sz > nb_size (buffer_at nt b)" by linarith
  then have "net_ev_send E ?m (Net_stack ?m re rs) (s, ?n1) = Inr (s', ?n4)"
    using lookup_table [OF I(4) n(1,2)] b n2(1) s'(1) e1
    by (simp add: net_ev_send_def msg_at_def Let_def)
  moreover have none: "esim_ev_none s = 1" and "info_ok s (EV_NET_SEND E)"
    using I(1) K(4,8) by (auto simp: esim_ok_def known_def unknown_event_def)
  then have sendable: "0 \<le> EV_NET_SEND E" "EV_NET_SEND E < int (length (esim_event_info_list s))"
    "ei_has_handler (esim_event_info_list s ! nat (EV_NET_SEND E))" by (simp_all add: info_ok_def)
  ultimately have "net_send_ev E src dst sz re rs (s, nt) = Inr ((s', ?n4), ?m)"
    using n T(1) sendable K I(2) none by (simp add: net_send_ev_def net_msg_create_def Let_def net_stack_create_def
      esim_execute_event_def call_handler_def net_event_handler_def known_def)
  moreover have "pend s' = add_mset ?t (pend s)"
    using schedule_pend [OF I(1,2) K(1), of 1 "Net_stack ?m re rs"] s'(1) K(5) by (auto simp: schedule_def)
  ultimately show ?thesis using s'(2,3) s4 m4 by (intro exI [of _ s'] exI [of _ ?n4] exI [of _ ?y]) simp
qed

section \<open>Steps of a simulation\<close>

text \<open>The next event of the current cycle, as \<open>esim_process_events\<close> takes it from the heap.\<close>

definition next_event :: "'d esim_t \<Rightarrow> ('d esim_event_t \<times> 'd esim_t) option" where
  "next_event s = (case heap_peek (esim_event_heap s) of (heap, when, event) \<Rightarrow>
     (case event of None \<Rightarrow> None
      | Some ev \<Rightarrow> if when \<noteq> esim_cycle s then None
          else Some (ev, s\<lparr>esim_event_heap := fst (heap_extract heap)\<rparr>)))"

definition next_cycle :: "'d esim_t \<Rightarrow> 'd esim_t" where
  "next_cycle s = s\<lparr>esim_event_heap := fst (heap_peek (esim_event_heap s)), esim_cycle := esim_cycle s + 1\<rparr>"

lemma process_loop_next:
  "process_loop h (s, w) = (case next_event s of
     None \<Rightarrow> (case heap_peek (esim_event_heap s) of (heap, when, event) \<Rightarrow>
        if event \<noteq> None \<and> \<not> when \<ge> esim_cycle s then Some (Inl Assert_failed) else Some (Inr (s\<lparr>esim_event_heap := heap\<rparr>, w)))
   | Some (ev, s) \<Rightarrow> (case call_handler h (ev_id ev) (ev_data ev) (s, w) of
        Inl e \<Rightarrow> Some (Inl e) | Inr sw \<Rightarrow> process_loop h sw))"
  by (subst process_loop.simps) (auto simp: next_event_def Let_def split: option.splits prod.splits)

lemma root_first:
  assumes "esim_ok s" "hp_elem (esim_event_heap s) = e # es" "x \<in> set es"
  shows "he_value e \<le> he_value x"
proof -
  from assms(3) obtain j where "j < length es" "es ! j = x" by (auto simp: in_set_conv_nth)
  moreover have "heap_ordered (hp_policy (esim_event_heap s)) (hp_elem (esim_event_heap s))"
    using assms(1) unfolding esim_ok_def heap_ok_def by blast
  ultimately have "hkey (hp_policy (esim_event_heap s)) e \<le> hkey (hp_policy (esim_event_heap s)) x"
    using root_minimal [of "hp_policy (esim_event_heap s)" "hp_elem (esim_event_heap s)" "Suc j"] assms(2) by simp
  then show ?thesis by (auto simp: hkey_def less_eq_prod_def)
qed

lemma heap_error_ok [simp]: "heap_ok (h\<lparr>hp_error := r\<rparr>) = heap_ok h"
  by (simp add: heap_ok_def)

lemma next_event_some:
  assumes ok: "esim_ok s" and n: "next_event s = Some (ev, s')"
  shows "esim_ok s'" "same_engine s s'" "pend s = add_mset (esim_cycle s, ev) (pend s')"
proof -
  let ?heap = "esim_event_heap s"
  obtain e es where es: "hp_elem ?heap = e # es"
    using n by (cases "hp_elem ?heap") (simp_all add: next_event_def heap_peek_def)
  let ?peek = "?heap\<lparr>hp_error := HEAP_OK\<rparr>"
  have n': "he_value e = esim_cycle s" "ev = he_data e" "s' = s\<lparr>esim_event_heap := fst (heap_extract ?peek)\<rparr>"
    using n es by (auto simp: next_event_def heap_peek_def split: if_splits)
  have "heap_ok ?peek" "hp_elem ?peek = e # es" using ok es by (simp_all add: esim_ok_def)
  note x = extract_elems [OF this]
  have st: "set (hp_elem (fst (heap_extract ?peek))) = set es" using x(3) by (metis set_mset_mset)
  show "esim_ok s'"
    using ok x(2,4) st es unfolding n'(3) esim_ok_def info_ok_def unknown_event_def by simp
  show "same_engine s s'" by (simp add: n'(3) same_engine_def)
  show "pend s = add_mset (esim_cycle s, ev) (pend s')" using x(3) es n' by (simp add: pend_def)
qed

lemma next_cycle_ok:
  assumes ok: "esim_ok s" and n: "next_event s = None"
  shows "esim_ok (next_cycle s)" "pend (next_cycle s) = pend s"
proof -
  let ?heap = "esim_event_heap s"
  have later: "esim_cycle s + 1 \<le> he_value x" if x: "x \<in> set (hp_elem ?heap)" for x
  proof -
    from x obtain e es where es: "hp_elem ?heap = e # es" by (cases "hp_elem ?heap") auto
    then have "he_value e \<noteq> esim_cycle s" using n by (simp add: next_event_def heap_peek_def split: if_splits)
    moreover have "esim_cycle s \<le> he_value e" using ok es by (simp add: esim_ok_def)
    moreover have "he_value e \<le> he_value x" using x es root_first [OF ok es] by auto
    ultimately show ?thesis by linarith
  qed
  have p: "\<exists>r. fst (heap_peek ?heap) = ?heap\<lparr>hp_error := r\<rparr>"
    by (cases "hp_elem ?heap") (auto simp: heap_peek_def)
  then obtain r where r: "fst (heap_peek ?heap) = ?heap\<lparr>hp_error := r\<rparr>" by blast
  show "esim_ok (next_cycle s)"
    using ok later unfolding next_cycle_def r by (simp add: esim_ok_def info_ok_def unknown_event_def)
  show "pend (next_cycle s) = pend s" by (simp add: next_cycle_def r pend_def)
qed

definition net_ids :: "net_events \<Rightarrow> int list" where
  "net_ids E = [EV_NET_SEND E, EV_NET_OUTPUT_BUFFER E, EV_NET_INPUT_BUFFER E, EV_NET_RECEIVE E]"

text \<open>What a client of the network may have scheduled or returned: an event of its own.\<close>

definition user_event :: "net_events \<Rightarrow> 'u net_data esim_t \<Rightarrow> int \<Rightarrow> 'u net_data \<Rightarrow> bool" where
  "user_event E s e d \<longleftrightarrow> \<not> unknown_event s e \<and> e \<noteq> 0 \<and> e \<notin> set (net_ids E) \<and> (\<forall>m re rs. d \<noteq> Net_stack m re rs)"

text \<open>
  The events of the network are handled by the network; the client's own events are taken from the
  heap, and what their handlers do are the steps of the client: sending, retrying, receiving what has
  been reported to it, scheduling.
\<close>

inductive net_step :: "net_events \<Rightarrow> 'u net_state \<Rightarrow> 'u net_state \<Rightarrow> bool" for E :: net_events where
  Event: "next_event s = Some (ev, s1) \<Longrightarrow> ev_data ev = Net_stack m re rs \<Longrightarrow>
    net_event_handler E (ev_id ev) (ev_data ev) (s1, nt) = Inr sw \<Longrightarrow> net_step E (s, nt) sw"
| Client: "next_event s = Some (ev, s1) \<Longrightarrow> \<forall>m re rs. ev_data ev \<noteq> Net_stack m re rs \<Longrightarrow> net_step E (s, nt) (s1, nt)"
| Tick: "next_event s = None \<Longrightarrow> net_step E (s, nt) (next_cycle s, nt)"
| Schedule: "user_event E s e d \<Longrightarrow> 0 \<le> after \<Longrightarrow> schedule e d after (s, nt) = Inr sw \<Longrightarrow> net_step E (s, nt) sw"
| Send: "user_event E s re rs \<Longrightarrow> src < net_node_count nt \<Longrightarrow> dst < net_node_count nt \<Longrightarrow> src \<noteq> dst \<Longrightarrow>
    net_can_send (esim_cycle s) nt src dst sz = Inr True \<Longrightarrow>
    net_send_ev E src dst sz re rs (s, nt) = Inr (sw, m) \<Longrightarrow> net_step E (s, nt) sw"
| Retry: "user_event E s e d \<Longrightarrow> e \<noteq> 1 \<Longrightarrow> src < net_node_count nt \<Longrightarrow> dst < net_node_count nt \<Longrightarrow>
    net_can_send_ev src dst sz e d (s, nt) = Inr (sw, ok) \<Longrightarrow> net_step E (s, nt) sw"
| Receive: "tokens m (toks (s, nt)) = 0 \<Longrightarrow> net_msgs nt m = Some y \<Longrightarrow>
    net_receive (nm_dst_node y) m (s, nt) = Inr sw \<Longrightarrow> net_step E (s, nt) sw"

inductive_cases net_stepE: "net_step E (s, nt) sw"

section \<open>Preservation\<close>

lemma event_at_eta: "event_at w (ev_id ev, ev_data ev) = (w, ev)"
  by (simp add: event_at_def)

lemma user_hand:
  assumes inv: "net_inv E (s, nt) X" and re: "ret_ok s e d"
  shows "net_inv E (s, nt) (add_mset (event_at w (e, d)) X)"
proof -
  note I = net_invD [OF inv]
  have nt: "\<not> is_stack m (event_at w (e, d))" for m
    using re by (auto simp: is_stack_def event_at_def ret_ok_def split: net_data.splits)
  show ?thesis
  proof (rule net_invI)
    fix u assume "u \<in># toks (s, nt) + add_mset (event_at w (e, d)) X"
    then consider "u \<in># toks (s, nt) + X" | "u = event_at w (e, d)" by auto
    then show "good_tok E s nt u"
      by cases (use I(7) re in \<open>auto simp: good_tok_def event_at_def ret_ok_def\<close>)
  qed (use I nt in auto)
qed

lemma pop_inv:
  assumes inv: "net_inv E (s, nt) {#}" and n: "next_event s = Some (ev, s')"
  shows "net_inv E (s', nt) {#event_at (esim_cycle s') (ev_id ev, ev_data ev)#}" "same_engine s s'"
proof -
  note I = net_invD [OF inv] and N = next_event_some [OF I(1) n]
  show "same_engine s s'" by (rule N(2))
  note S = same_engineD [OF N(2)]
  have eq: "toks (s', nt) + {#event_at (esim_cycle s') (ev_id ev, ev_data ev)#} = toks (s, nt) + {#}"
    using N(3) S(1) by (simp add: toks_def event_at_eta)
  have gd: "t \<in># toks (s, nt) + {#} \<Longrightarrow> good_tok E s' nt t" for t
    using I(7) good_tok_engine(1) [OF N(2)] by blast
  show "net_inv E (s', nt) {#event_at (esim_cycle s') (ev_id ev, ev_data ev)#}"
    by (rule net_invI; (unfold eq)?)
      (use I N(1) S good_tok_engine(2) [OF N(2)] gd in \<open>simp_all only: not_False_eq_True simp_thms\<close>)
qed

lemma drop_user:
  assumes inv: "net_inv E (s, nt) (add_mset t X)" and t: "\<forall>m re rs. ev_data (snd t) \<noteq> Net_stack m re rs"
  shows "net_inv E (s, nt) X"
proof -
  note I = net_invD [OF inv]
  have "\<not> is_stack m t" for m using t by (auto simp: is_stack_def split: net_data.splits)
  then have "tokens m (toks (s, nt) + add_mset t X) = tokens m (toks (s, nt) + X)" for m by simp
  with I show ?thesis by (intro net_invI) auto
qed

lemma tokens_wakes: "tokens m (image_mset (event_at w) W) = tokens m (image_mset (event_at w') W)"
  by (induction W) (simp_all add: is_stack_def event_at_def)

lemma tick_inv:
  assumes inv: "net_inv E (s, nt) {#}" and n: "next_event s = None"
  shows "net_inv E (next_cycle s, nt) {#}"
proof -
  note I = net_invD [OF inv] and N = next_cycle_ok [OF I(1) n]
  let ?s = "next_cycle s"
  have c: "esim_cycle ?s = esim_cycle s + 1" "esim_lock_schedule ?s = esim_lock_schedule s"
    "known ?s e = known s e" for e
    by (simp_all add: next_cycle_def known_def unknown_event_def)
  have tk: "tokens m (toks (?s, nt) + {#}) = tokens m (toks (s, nt) + {#})" for m
    using N(2) tokens_wakes [of m "esim_cycle ?s" "wakes nt" "esim_cycle s"] by (simp add: toks_def)
  have gs: "good_tok E ?s nt t = good_tok E s nt t" for t by (simp add: good_tok_def ret_ok_def c)
  show ?thesis
  proof (rule net_invI)
    fix t assume "t \<in># toks (?s, nt) + {#}"
    then consider "t \<in># pend s" | p where "p \<in># wakes nt" "t = event_at (esim_cycle s + 1) p"
      using N(2) c(1) by (auto simp: toks_def)
    then have "good_tok E s nt t"
    proof cases
      case 1
      then show ?thesis by (intro I(7)) (simp add: toks_def)
    next
      case 2
      have "good_tok E s nt (event_at (esim_cycle s) p)" using 2(1) by (intro I(7)) (simp add: toks_def)
      then show ?thesis unfolding 2(2) by (fastforce simp: good_tok_def event_at_def tok_ok_def)
    qed
    then show "good_tok E ?s nt t" using gs by simp
  next
    show "events_ok E ?s" using I(3) by (simp add: events_ok_def c)
  next
    fix p assume "p \<in># wakes nt"
    then show "known ?s (fst p) \<and> fst p \<noteq> 1" using I(6) c by simp
  next
    fix m show "tokens m (toks (?s, nt) + {#}) \<le> 1" unfolding tk by (rule I(8))
    show "net_msgs nt m \<noteq> None \<Longrightarrow> tokens m (toks (?s, nt) + {#}) = 0 \<Longrightarrow> delivered nt m" unfolding tk by (rule I(9))
  qed (use I N(1) c in simp_all)
qed

lemma table_get_ok:
  assumes "msg_table_ok nt"
  shows "net_msg_table_get nt m = (if net_msgs nt m = None then None else Some m)"
proof -
  have "count_list (net_msg_table nt ! msg_bucket m) m = (if net_msgs nt m = None then 0 else 1)"
    using assms unfolding msg_table_ok_def by blast
  then have "m \<in> set (net_msg_table nt ! msg_bucket m) \<longleftrightarrow> net_msgs nt m \<noteq> None"
    by (metis count_list_0_iff zero_neq_one)
  then show ?thesis by (cases "net_msgs nt m") (auto simp: net_msg_table_get_def find_None_iff intro: find_mem)
qed

lemma user_ret: "user_event E s e d \<Longrightarrow> ret_ok s e d"
  by (simp add: user_event_def ret_ok_def known_def)

lemma schedule_user:
  assumes "net_inv E (s, nt) X" "ret_ok s e d" "e \<noteq> 1" "0 \<le> after"
  shows "\<exists>s'. schedule e d after (s, nt) = Inr (s', nt) \<and> same_engine s s' \<and> net_inv E (s', nt) X"
  using schedule_inv [OF user_hand [OF assms(1,2)] _ assms(3,4)] assms(2) by (simp add: ret_ok_def)

lemma schedule_none: "esim_ok s \<Longrightarrow> known s 1 \<Longrightarrow> \<not> esim_lock_schedule s \<Longrightarrow> 0 \<le> after \<Longrightarrow> schedule 1 d after (s, nt) = Inr (s, nt)"
  by (simp add: schedule_def esim_schedule_event_def esim_ok_def known_def Let_def)

lemma retry_inv:
  assumes inv: "net_inv E (s, nt) X" and e: "ret_ok s e d" "e \<noteq> 1" and n: "src < net_node_count nt" "dst < net_node_count nt"
    and r: "net_can_send_ev src dst sz e d (s, nt) = Inr (sw, ok)"
  shows "net_inv E sw X"
proof -
  note I = net_invD [OF inv] and L = lookup_table [OF net_invD(4) [OF inv] n]
  have topo: "topo_ok nt" and tab: "table_ok nt (net_routing_table nt)" using I(4) by (simp_all add: contents_ok_def)
  from r L obtain b where b: "re_output_buffer (ent (net_routing_table nt) src dst) = Some b"
    by (auto simp: net_can_send_ev_def Let_def split: option.splits)
  have "b \<in> set (nn_output_buffer_list (node_at nt src))" using tab b n by (simp add: table_ok_def)
  then have bl: "b < length (net_buffers nt)" by (rule topo_outD(1) [OF topo n(1)])
  let ?buf = "buffer_at nt b" and ?cyc = "esim_cycle s"
  have fits: "\<not> sz > nb_size ?buf" using r L b by (auto simp: net_can_send_ev_def Let_def split: if_splits)
  consider "nb_write_busy ?buf \<ge> ?cyc" | "\<not> nb_write_busy ?buf \<ge> ?cyc" "nb_count ?buf + sz > nb_size ?buf"
    | "\<not> nb_write_busy ?buf \<ge> ?cyc" "\<not> nb_count ?buf + sz > nb_size ?buf" by blast
  then show ?thesis
  proof cases
    case 1
    from schedule_user [OF inv e, of "nb_write_busy ?buf - ?cyc + 1"] 1 obtain s' where
      "schedule e d (nb_write_busy ?buf - ?cyc + 1) (s, nt) = Inr (s', nt)" "net_inv E (s', nt) X" by auto
    with r L b fits 1 show ?thesis by (simp add: net_can_send_ev_def Let_def)
  next
    case 2
    have "nb_count ?buf > 0" using 2 fits by linarith
    from wait_inv [OF user_hand [OF inv e(1)] _ e(2) bl this] e(1) obtain nt' where
      "net_wait b e d (s, nt) = Inr (s, nt')" "net_inv E (s, nt') X" by (auto simp: ret_ok_def)
    with r L b fits 2 show ?thesis by (simp add: net_can_send_ev_def Let_def)
  next
    case 3
    with r L b fits inv show ?thesis by (simp add: net_can_send_ev_def Let_def)
  qed
qed

lemma event_result:
  assumes "event_done E sw r" "r = Inr sw'"
  shows "same_shape (snd sw) (snd sw')" "net_inv E sw' {#}"
  using assms by (auto simp: event_done_def)

text \<open>A due event of the network is handled.\<close>

lemma due_event_done:
  assumes inv: "net_inv E (s, nt) {#}" and n: "next_event s = Some (ev, s')" and d: "ev_data ev = Net_stack m re rs"
  shows "event_done E (s', nt) (net_event_handler E (ev_id ev) (ev_data ev) (s', nt))"
proof -
  note P = pop_inv(1) [OF inv n]
  have "tok_ok E nt (esim_cycle s') (ev_id ev) m" by (rule hand_good(2)) (use P d in simp)
  then have "ev_id ev \<in> {EV_NET_OUTPUT_BUFFER E, EV_NET_INPUT_BUFFER E, EV_NET_RECEIVE E}" by (auto simp: tok_ok_def)
  from handler_done [OF P this d] show ?thesis .
qed

lemma net_step_inv:
  assumes "net_step E sw sw'" "net_inv E sw {#}"
  shows "net_inv E sw' {#}"
  using assms
proof (induction rule: net_step.cases)
  case (Event s ev s1 m re rs nt sw)
  then have inv: "net_inv E (s, nt) {#}" by simp
  from event_result(2) [OF due_event_done [OF inv Event(3,4)] Event(5)] Event show ?case by simp
next
  case (Client s ev s1 nt)
  then have inv: "net_inv E (s, nt) {#}" by simp
  from drop_user [OF pop_inv(1) [OF inv Client(3)]] Client(4) have "net_inv E (s1, nt) {#}" by (simp add: event_at_eta)
  with Client show ?case by simp
next
  case (Tick s nt)
  with tick_inv show ?case by blast
next
  case (Schedule s e d after nt sw)
  then have inv: "net_inv E (s, nt) {#}" and re: "ret_ok s e d" by (simp_all add: user_ret)
  note I = net_invD [OF inv]
  show ?case
  proof (cases "e = 1")
    case True
    with schedule_none [OF I(1) _ I(2) Schedule(4)] re Schedule inv show ?thesis by (simp add: ret_ok_def)
  next
    case False
    from schedule_user [OF inv re this Schedule(4)] Schedule show ?thesis by auto
  qed
next
  case (Send s re rs src nt dst sz sw m)
  then have inv: "net_inv E (s, nt) {#}" by simp
  have kinds: "nn_kind (node_at nt src) = net_node_end" "nn_kind (node_at nt dst) = net_node_end" "1 \<le> sz"
    using Send(8) by (auto simp: net_send_ev_def net_msg_create_def Let_def split: if_splits)
  from send_inv [OF inv Send(4-6) kinds user_ret [OF Send(3)] Send(7)] Send(2,8) show ?case by auto
next
  case (Retry s e d src nt dst sz sw ok)
  then show ?case using retry_inv [OF _ user_ret] by blast
next
  case (Receive m s nt y sw)
  then have inv: "net_inv E (s, nt) {#}" by simp
  have z: "tokens m (toks (s, nt) + {#}) = 0" using Receive(3) by simp
  have "delivered nt m" using net_invD(9) [OF inv _ z] Receive(4) by simp
  from receive_inv [OF inv z Receive(4) this] Receive show ?case by auto
qed

lemma net_run_inv: "(net_step E)\<^sup>*\<^sup>* sw sw' \<Longrightarrow> net_inv E sw {#} \<Longrightarrow> net_inv E sw' {#}"
  by (induction rule: rtranclp_induct) (blast intro: net_step_inv)+

section \<open>Initial states\<close>

text \<open>A network that has been built and not been used yet.\<close>

definition unused :: "'d net_t \<Rightarrow> bool" where
  "unused nt \<longleftrightarrow> net_msgs nt = Map.empty \<and> net_msg_id_counter nt = 0 \<and>
     net_msg_table nt = replicate NET_MSG_TABLE_SIZE [] \<and>
     (\<forall>x \<in> set (net_buffers nt). nb_count x = 0 \<and> nb_msg_list x = [] \<and> nb_wakeup_list x = [])"

text \<open>Every end node hangs at one switch.\<close>

definition leaf_ends :: "'d net_t \<Rightarrow> bool" where
  "leaf_ends nt \<longleftrightarrow> (\<forall>e < net_node_count nt. nn_kind (node_at nt e) = net_node_end \<longrightarrow>
     (\<exists>x. \<forall>y. (e, y) \<in> edges nt \<or> (y, e) \<in> edges nt \<longrightarrow> y = x))"

lemma leaf_transit:
  assumes topo: "topo_ok nt" and leaf: "leaf_ends nt"
    and route: "\<And>i j. i < net_node_count nt \<Longrightarrow> j < net_node_count nt \<Longrightarrow> i \<noteq> j \<Longrightarrow> route_ok nt (net_routing_table nt) i j"
  shows "transit_ok nt"
  unfolding transit_ok_def
proof (intro allI impI)
  fix i j b assume ij: "i < net_node_count nt" "j < net_node_count nt" "i \<noteq> j"
    and b: "re_output_buffer (ent (net_routing_table nt) i j) = Some b"
  let ?n = "dst_of nt b"
  from route [OF ij] b obtain d where bm: "b \<in> set (nn_output_buffer_list (node_at nt i))"
    and d: "dist_is (edges nt) i j (Suc d)" "dist_is (edges nt) ?n j d"
    by (auto simp: route_ok_def split: if_splits)
  have n: "?n < net_node_count nt" by (rule buffer_link_out(2) [OF topo ij(1) bm])
  show "routed nt ?n j"
  proof (cases "?n = j")
    case False
    have r: "(?n, j) \<in> (edges nt)\<^sup>*" using d(2) unfolding dist_is_def by (blast intro: relpow_imp_rtrancl)
    with route [OF n ij(2) False] have o: "re_output_buffer (ent (net_routing_table nt) ?n j) \<noteq> None"
      by (auto simp: route_ok_def)
    have "nn_kind (node_at nt ?n) \<noteq> net_node_end"
    proof
      assume k: "nn_kind (node_at nt ?n) = net_node_end"
      have "d \<noteq> 0" using d(2) False by (cases d) (auto simp: dist_is_def)
      then obtain p where p: "d = Suc p" by (cases d) auto
      from d(2) p obtain x where x: "(?n, x) \<in> edges nt" "(x, j) \<in> edges nt ^^ p"
        unfolding dist_is_def using relpow_Suc_D2 [of ?n j p "edges nt"] by auto
      have "(i, ?n) \<in> edges nt" using ij(1) bm by (auto simp: edges_dst [OF topo])
      with leaf n k x(1) have "x = i" unfolding leaf_ends_def by metis
      with d(1) x(2) p show False by (auto simp: dist_is_def)
    qed
    with o show ?thesis by (simp add: routed_def)
  qed (simp add: routed_def)
qed

lemma unused_inv:
  assumes "topo_ok nt" "no_self_links nt" "table_ok nt (net_routing_table nt)" "transit_ok nt" "unused nt"
    and s: "esim_ok s" "\<not> esim_lock_schedule s" "events_ok E s" "hp_elem (esim_event_heap s) = []"
  shows "net_inv E (s, nt) {#}"
proof -
  have u: "net_msgs nt = Map.empty" "net_msg_id_counter nt = 0" "net_msg_table nt = replicate NET_MSG_TABLE_SIZE []"
    using assms(5) by (simp_all add: unused_def)
  have b: "nb_count (buffer_at nt b) = 0 \<and> nb_msg_list (buffer_at nt b) = [] \<and> nb_wakeup_list (buffer_at nt b) = []"
    if "b < length (net_buffers nt)" for b using assms(5) that by (simp add: unused_def)
  have "buf_ok nt b" if "b < length (net_buffers nt)" for b
    using b [OF that] assms(1) that by (fastforce simp: buf_ok_def topo_ok_def Let_def)
  then have ok: "contents_ok nt" using assms(1-4) u by (simp add: contents_ok_def msg_ok_def)
  have "net_msg_table nt ! msg_bucket m = []" for m unfolding u(3) by (rule nth_replicate [OF bucket_less])
  then have mt: "msg_table_ok nt" by (intro msg_table_okI) (simp_all add: u)
  have "wakes nt = {#}" using assms(5) by (auto simp: wakes_def unused_def)
  then have "toks (s, nt) = {#}" using s(4) by (simp add: toks_def pend_def)
  then show ?thesis
    by (intro net_invI) (use s ok mt u \<open>wakes nt = {#}\<close> in simp_all)
qed

lemma net_init_ok:
  assumes "net_init (esim_init :: 'd esim_t) = (s, E)"
  shows "esim_ok s" "\<not> esim_lock_schedule s" "events_ok E s" "hp_elem (esim_event_heap s) = []"
proof -
  have s: "s = fst (net_init (esim_init :: 'd esim_t))" "E = snd (net_init (esim_init :: 'd esim_t))" using assms by simp_all
  have "fst (net_init t) = fst (esim_register_event_with_name (fst (esim_register_event_with_name
      (fst (esim_register_event_with_name (fst (esim_register_event_with_name t True ''net_send''))
        True ''net_output_buffer'')) True ''net_input_buffer'')) True ''net_receive'')" for t :: "'d esim_t"
    by (simp add: net_init_def esim_register_event_with_name_def Let_def)
  then show "esim_ok s" unfolding s by (simp add: register_ok esim_init_ok)
  show "\<not> esim_lock_schedule s" "hp_elem (esim_event_heap s) = []" "events_ok E s"
    unfolding s by (simp_all add: net_init_def esim_init_def esim_register_event_with_name_def Let_def events_ok_def
      known_def unknown_event_def heap_create_def)
qed

section \<open>Safety of a simulation\<close>

definition net_built :: "'d net_t \<Rightarrow> bool" where
  "net_built nt \<longleftrightarrow> topo_ok nt \<and> no_self_links nt \<and> leaf_ends nt \<and> unused nt \<and>
     rt_entries (net_routing_table nt) = None \<and> \<not> rt_has_cycle (net_routing_table nt)"

text \<open>The engine and the network are initialised, and the routing table is computed.\<close>

definition net_started :: "'u net_data net_t \<Rightarrow> net_events \<Rightarrow> 'u net_state \<Rightarrow> bool" where
  "net_started nt E sw \<longleftrightarrow> (\<exists>nt1. net_init esim_init = (fst sw, E) \<and> net_routing_table_initiate nt = Inr nt1 \<and>
     net_routing_table_floyd_warshall nt1 = Some (Inr (snd sw)))"

lemma started_inv:
  assumes "net_built nt" "net_started nt E sw"
  shows "net_inv E sw {#}" "\<exists>rt. snd sw = nt\<lparr>net_routing_table := rt\<rparr> \<and> table_ok nt rt \<and>
    (\<forall>i < net_node_count nt. \<forall>j < net_node_count nt. i \<noteq> j \<longrightarrow> route_ok nt rt i j)"
proof -
  obtain s nt2 where sw: "sw = (s, nt2)" by (cases sw)
  from assms(1) have b: "topo_ok nt" "no_self_links nt" "rt_entries (net_routing_table nt) = None"
    "\<not> rt_has_cycle (net_routing_table nt)" "leaf_ends nt" "unused nt" by (simp_all add: net_built_def)
  obtain nt1 rt where
    r: "net_routing_table_initiate nt = Inr nt1"
      "net_routing_table_floyd_warshall nt1 = Some (Inr (nt\<lparr>net_routing_table := rt\<rparr>))" "table_ok nt rt"
      "rt_has_cycle rt \<longleftrightarrow> (\<exists>b. (b, b) \<in> (dep nt rt)\<^sup>+)"
      "\<forall>i < net_node_count nt. \<forall>j < net_node_count nt. i \<noteq> j \<longrightarrow> route_ok nt rt i j"
    by (rule routing_computed [OF b(1-4)])
  from assms(2) obtain nt1' where i: "net_init esim_init = (fst sw, E)" and
    w: "net_routing_table_initiate nt = Inr nt1'" "net_routing_table_floyd_warshall nt1' = Some (Inr (snd sw))"
    unfolding net_started_def by blast
  have "nt1' = nt1" using r(1) w(1) by (simp only: sum.inject)
  then have n2: "nt2 = nt\<lparr>net_routing_table := rt\<rparr>"
    using r(2) w(2) unfolding sw by (simp only: option.inject sum.inject snd_conv)
  have i: "net_init esim_init = (s, E)" using i unfolding sw by simp
  have "topo_ok nt2" using b(1) unfolding n2 by simp
  moreover have "no_self_links nt2" using b(2) unfolding n2 no_self_links_def topo_rt(2) .
  moreover have "leaf_ends nt2" using b(5) unfolding n2 leaf_ends_def topo_rt(2) net_node_count_def by simp
  moreover have "unused nt2" using b(6) unfolding n2 unused_def by simp
  moreover have "table_ok nt2 (net_routing_table nt2)" using r(3) unfolding n2 by simp
  moreover have "transit_ok nt2" by (rule leaf_transit [OF calculation(1,3)]) (use r(5) in \<open>simp add: n2\<close>)
  ultimately show "net_inv E sw {#}" unfolding sw using net_init_ok [OF i] by (intro unused_inv) simp_all
  from sw n2 r(3,5) show "\<exists>rt. snd sw = nt\<lparr>net_routing_table := rt\<rparr> \<and> table_ok nt rt \<and>
    (\<forall>i < net_node_count nt. \<forall>j < net_node_count nt. i \<noteq> j \<longrightarrow> route_ok nt rt i j)" by auto
qed

text \<open>C1: in every state that a simulation of a network can reach, whose end nodes hang at one switch each, a
  buffer's count is the size of the messages it holds and does not exceed its size. No message is lost
  or duplicated: each message in flight is in exactly one buffer, once, and in the table of messages, and
  it either has exactly one event, pending in the heap or waiting for space in a buffer, or has arrived
  at the head of an input buffer of its destination.\<close>

theorem network_run_safe:
  assumes built: "net_built nt" and start: "net_started nt E sw" and run: "(net_step E)\<^sup>*\<^sup>* sw (s', nt')"
  shows "(\<forall>b < length (net_buffers nt'). let x = buffer_at nt' b in
      nb_count x = (\<Sum>m\<leftarrow>nb_msg_list x. msg_size nt' m) \<and> nb_count x \<le> nb_size x \<and> distinct (nb_msg_list x)) \<and>
    (\<forall>m y. net_msgs nt' m = Some y \<longrightarrow>
      (\<exists>!b. b < length (net_buffers nt') \<and> m \<in> set (nb_msg_list (buffer_at nt' b))) \<and>
      net_msg_table_get nt' m = Some m \<and>
      (tokens m (toks (s', nt')) = 1 \<or> tokens m (toks (s', nt')) = 0 \<and> delivered nt' m))"
proof (intro conjI)
  have "net_inv E (s', nt') {#}" by (rule net_run_inv [OF run started_inv(1) [OF built start]])
  note I = net_invD [OF this]
  show "\<forall>b < length (net_buffers nt'). let x = buffer_at nt' b in
      nb_count x = (\<Sum>m\<leftarrow>nb_msg_list x. msg_size nt' m) \<and> nb_count x \<le> nb_size x \<and> distinct (nb_msg_list x)"
    using buf_okD(1-3) [OF I(4)] by (simp add: Let_def)
  show "\<forall>m y. net_msgs nt' m = Some y \<longrightarrow>
      (\<exists>!b. b < length (net_buffers nt') \<and> m \<in> set (nb_msg_list (buffer_at nt' b))) \<and>
      net_msg_table_get nt' m = Some m \<and>
      (tokens m (toks (s', nt')) = 1 \<or> tokens m (toks (s', nt')) = 0 \<and> delivered nt' m)"
  proof (intro allI impI conjI)
    fix m y assume y: "net_msgs nt' m = Some y"
    show "\<exists>!b. b < length (net_buffers nt') \<and> m \<in> set (nb_msg_list (buffer_at nt' b))"
    proof -
      obtain b where b: "b < length (net_buffers nt')" "m \<in> set (nb_msg_list (buffer_at nt' b))" "nm_buffer y = Some b"
        using msg_okD(6) [OF I(4) y] unfolding is_out_def is_in_def by blast
      moreover have "c = b" if "c < length (net_buffers nt') \<and> m \<in> set (nb_msg_list (buffer_at nt' c))" for c
        using buf_okD(4) [OF I(4) conjunct1 [OF that] conjunct2 [OF that]] y b(3) by auto
      ultimately show ?thesis by (intro ex1I [of _ b] conjI)
    qed
    show "net_msg_table_get nt' m = Some m" unfolding table_get_ok [OF I(5)] y by simp
    show "tokens m (toks (s', nt')) = 1 \<or> tokens m (toks (s', nt')) = 0 \<and> delivered nt' m"
      using I(8) [of m] I(9) [of m] y by (cases "tokens m (toks (s', nt')) = 0") auto
  qed
qed

text \<open>C11: no event of the network fails in a state that a simulation can reach: no assertion, no panic,
  no missing route; the handler returns, unless a message in flight is larger than some buffer, and
  then it may end the simulation with the report of that.\<close>

theorem network_event_handled:
  assumes built: "net_built nt" and start: "net_started nt E sw" and run: "(net_step E)\<^sup>*\<^sup>* sw (s', nt')"
    and ev: "next_event s' = Some (ev, s1)" "ev_data ev = Net_stack m re rs"
  shows "(\<exists>sw'. net_event_handler E (ev_id ev) (ev_data ev) (s1, nt') = Inr sw') \<or>
    net_event_handler E (ev_id ev) (ev_data ev) (s1, nt') = Inl (Fatal ''message does not fit in buffer'') \<and>
    (\<exists>m y b. net_msgs nt' m = Some y \<and> b < length (net_buffers nt') \<and> nm_size y > nb_size (buffer_at nt' b))"
proof -
  have "net_inv E (s', nt') {#}" by (rule net_run_inv [OF run started_inv(1) [OF built start]])
  from due_event_done [OF this ev] show ?thesis by (auto simp: event_done_def too_big_def)
qed

text \<open>C18: in a reachable state, a message that \<open>net_can_send\<close> accepts is sent: the call returns, the message
  gets the next identifier, which no message in flight has, with the size, source and destination of
  the call; the other messages are untouched, and the state is again one the simulation can reach.\<close>

theorem network_send_accepted:
  assumes built: "net_built nt" and start: "net_started nt E sw" and run: "(net_step E)\<^sup>*\<^sup>* sw (s', nt')"
    and n: "src < net_node_count nt'" "dst < net_node_count nt'" "src \<noteq> dst" "nn_kind (node_at nt' src) = net_node_end"
      "nn_kind (node_at nt' dst) = net_node_end" "1 \<le> sz"
    and ev: "user_event E s' re rs" and can: "net_can_send (esim_cycle s') nt' src dst sz = Inr True"
  shows "\<exists>s2 nt2 y. net_send_ev E src dst sz re rs (s', nt') = Inr ((s2, nt2), net_msg_id_counter nt' + 1) \<and>
    net_msgs nt' (net_msg_id_counter nt' + 1) = None \<and>
    net_msgs nt2 = (net_msgs nt')(net_msg_id_counter nt' + 1 \<mapsto> y) \<and>
    nm_size y = sz \<and> nm_src_node y = src \<and> nm_dst_node y = dst \<and> (net_step E)\<^sup>*\<^sup>* sw (s2, nt2)"
proof -
  have inv: "net_inv E (s', nt') {#}" by (rule net_run_inv [OF run started_inv(1) [OF built start]])
  let ?m = "net_msg_id_counter nt' + 1"
  have fresh: "net_msgs nt' ?m = None"
    using msg_okD(2) [OF net_invD(4) [OF inv], of ?m] by (cases "net_msgs nt' ?m") auto
  from send_inv [OF inv n user_ret [OF ev] can] obtain s2 nt2 y where
    r: "net_send_ev E src dst sz re rs (s', nt') = Inr ((s2, nt2), ?m)" "net_msgs nt2 = (net_msgs nt')(?m \<mapsto> y)"
      "nm_size y = sz" "nm_src_node y = src" "nm_dst_node y = dst" by blast
  have "net_step E (s', nt') (s2, nt2)" by (rule net_step.Send [OF ev n(1-3) can r(1)])
  with run have "(net_step E)\<^sup>*\<^sup>* sw (s2, nt2)" by simp
  with r fresh show ?thesis by blast
qed

text \<open>The small network, started, sends a message.\<close>

lemma example_built: "net_built net_example"
proof -
  have "nn_kind (node_at net_example 2) \<noteq> net_node_end" by (simp add: net_example_def build_example_def build_eval)
  moreover have "e = 0 \<or> e = 1 \<or> e = 2" if "e < (3::nat)" for e using that by linarith
  ultimately have "leaf_ends net_example"
    unfolding leaf_ends_def example_edges example_shape(1) by fastforce
  moreover have "unused net_example" by (simp add: unused_def net_example_def build_example_def build_eval)
  moreover have "no_self_links net_example" by (auto simp: no_self_links_def example_edges)
  ultimately show ?thesis
    using example_topo by (simp add: net_built_def example_shape(5) net_routing_table_create_def)
qed

lemma example_started:
  obtains s E nt where "net_started net_example E (s, nt)" "net_can_send (esim_cycle s) nt 0 1 4 = Inr True"
    "net_node_count nt = 3" "nn_kind (node_at nt 0) = net_node_end" "nn_kind (node_at nt 1) = net_node_end"
    "user_event E s 1 Null"
proof -
  obtain s :: "nat net_data esim_t" and E where i: "net_init esim_init = (s, E)" by (cases "net_init (esim_init :: nat net_data esim_t)")
  have "topo_ok net_example" "no_self_links net_example" "rt_entries (net_routing_table net_example) = None"
    "\<not> rt_has_cycle (net_routing_table net_example)" using example_built by (simp_all add: net_built_def)
  from this obtain nt1 rt where
    r: "net_routing_table_initiate net_example = Inr nt1"
      "net_routing_table_floyd_warshall nt1 = Some (Inr (net_example\<lparr>net_routing_table := rt\<rparr>))" "table_ok net_example rt"
      and "rt_has_cycle rt \<longleftrightarrow> (\<exists>b. (b, b) \<in> (dep net_example rt)\<^sup>+)"
      and q: "\<forall>i < net_node_count net_example. \<forall>j < net_node_count net_example. i \<noteq> j \<longrightarrow> route_ok net_example rt i j"
    by (rule routing_computed)
  let ?nt = "net_example\<lparr>net_routing_table := rt\<rparr>"
  have st: "net_started net_example E (s, ?nt)" using i r(1,2) by (auto simp: net_started_def)
  have inv: "net_inv E (s, ?nt) {#}" by (rule started_inv(1) [OF example_built st])
  note I = net_invD [OF inv]
  have ne: "(0, 1) \<in> (edges net_example)\<^sup>*" unfolding example_edges by (rule rtrancl_trans [of _ 2]) auto
  have n: "net_node_count ?nt = 3" using example_shape(1) by (simp add: net_node_count_def)
  have "route_ok net_example rt 0 1" using q example_shape(1) by simp
  with ne obtain b where b: "b \<in> set (nn_output_buffer_list (node_at net_example 0))" "re_output_buffer (ent rt 0 1) = Some b"
    unfolding route_ok_def by auto
  moreover have "nn_output_buffer_list (node_at net_example 0) = [0]"
    "nb_write_busy (buffer_at net_example 0) = 0" "nb_count (buffer_at net_example 0) = 0" "nb_size (buffer_at net_example 0) = 8"
    by (simp_all add: net_example_def build_example_def build_eval)
  moreover have c: "esim_cycle s = 1" and u: "user_event E s 1 Null"
    using i by (auto simp: net_init_def esim_init_def esim_register_event_with_name_def Let_def user_event_def
      unknown_event_def net_ids_def)
  ultimately have "net_can_send (esim_cycle s) ?nt 0 1 4 = Inr True"
    using lookup_table [OF I(4), of 0 1] n by (simp add: net_can_send_def Let_def)
  moreover have "nn_kind (node_at ?nt 0) = net_node_end" "nn_kind (node_at ?nt 1) = net_node_end"
    by (simp_all add: net_example_def build_example_def build_eval)
  ultimately show thesis using that st n u by blast
qed

lemma single_event:
  assumes "pend s = {#(w, ev)#}"
  shows "next_event s = None \<longleftrightarrow> w \<noteq> esim_cycle s" "w = esim_cycle s \<Longrightarrow> \<exists>s'. next_event s = Some (ev, s')"
proof -
  let ?es = "hp_elem (esim_event_heap s)"
  have l: "length ?es = 1" using arg_cong [OF assms, of size] by (simp add: pend_def)
  then obtain e where e: "?es = [e]" by (cases ?es) auto
  with assms have "he_value e = w" "he_data e = ev" by (simp_all add: pend_def)
  with e show "next_event s = None \<longleftrightarrow> w \<noteq> esim_cycle s" "w = esim_cycle s \<Longrightarrow> \<exists>s'. next_event s = Some (ev, s')"
    by (simp_all add: next_event_def heap_peek_def)
qed

lemma example_sent:
  obtains s E nt s2 nt2 y ev s3 where "net_started net_example E (s, nt)" "(net_step E)\<^sup>*\<^sup>* (s, nt) (s2, nt2)"
    "net_msgs nt2 = [1 \<mapsto> y]" "nm_size y = 4" "next_event s2 = Some (ev, s3)" "ev_data ev = Net_stack 1 1 Null"
    "\<forall>b < length (net_buffers nt2). nb_size (buffer_at nt2 b) = 8"
proof -
  obtain s E nt where st: "net_started net_example E (s, nt)" and can: "net_can_send (esim_cycle s) nt 0 1 4 = Inr True"
    and n: "net_node_count nt = 3" "nn_kind (node_at nt 0) = net_node_end" "nn_kind (node_at nt 1) = net_node_end"
    and u: "user_event E s 1 Null" by (rule example_started)
  have inv: "net_inv E (s, nt) {#}" by (rule started_inv(1) [OF example_built st])
  from started_inv(2) [OF example_built st] obtain rt where nt: "nt = net_example\<lparr>net_routing_table := rt\<rparr>" by auto
  have i: "net_init esim_init = (s, E)" using st by (simp add: net_started_def)
  have p0: "pend s = {#}" using net_init_ok(4) [OF i] by (simp add: pend_def)
  have c0: "net_msg_id_counter nt = 0" "net_msgs nt = Map.empty"
    using example_built unfolding nt net_built_def unused_def by simp_all
  from send_inv [OF inv, of 0 1 4, OF _ _ _ n(2,3) _ user_ret [OF u] can] n(1) c0 obtain s1 nt1 y where
    r: "net_send_ev E 0 1 4 1 Null (s, nt) = Inr ((s1, nt1), 1)" "same_engine s s1" "same_shape nt nt1"
      "net_msgs nt1 = [1 \<mapsto> y]" "nm_size y = 4" "net_inv E (s1, nt1) {#}"
      "pend s1 = add_mset (event_at (esim_cycle s + 1) (EV_NET_OUTPUT_BUFFER E, Net_stack 1 1 Null)) (pend s)" by auto
  let ?ev = "\<lparr>ev_id = EV_NET_OUTPUT_BUFFER E, ev_data = Net_stack 1 1 Null\<rparr>"
  have p1: "pend s1 = {#(esim_cycle s1 + 1, ?ev)#}"
    using r(7) p0 same_engineD(1) [OF r(2)] by (simp add: event_at_def)
  have none: "next_event s1 = None" using single_event(1) [OF p1] by simp
  note N = next_cycle_ok [OF net_invD(1) [OF r(6)] none]
  have "pend (next_cycle s1) = {#(esim_cycle (next_cycle s1), ?ev)#}"
    using N(2) p1 by (simp add: next_cycle_def)
  from single_event(2) [OF this refl] obtain s3 where e: "next_event (next_cycle s1) = Some (?ev, s3)" by blast
  have "net_step E (s, nt) (s1, nt1)" by (rule net_step.Send [OF u _ _ _ can r(1)]) (use n(1) in simp_all)
  moreover have "net_step E (s1, nt1) (next_cycle s1, nt1)" by (rule net_step.Tick [OF none])
  ultimately have run: "(net_step E)\<^sup>*\<^sup>* (s, nt) (next_cycle s1, nt1)" by simp
  have "\<forall>x \<in> set (net_buffers net_example). nb_size x = 8" by (simp add: net_example_def build_example_def build_eval)
  then have sz: "\<forall>b < length (net_buffers nt1). nb_size (buffer_at nt1 b) = 8"
    using shapeD(2,6) [OF r(3)] by (simp add: nt)
  show thesis by (rule that [OF st run r(4,5) e _ sz]) simp_all
qed

lemma network_run_safe_witness:
  "\<exists>E (sw :: nat net_state) s nt y. net_started net_example E sw \<and> (net_step E)\<^sup>*\<^sup>* sw (s, nt) \<and>
     net_msgs nt 1 = Some y \<and> nm_size y = 4 \<and> net_msg_table_get nt 1 = Some 1 \<and>
     (\<exists>!b. b < length (net_buffers nt) \<and> 1 \<in> set (nb_msg_list (buffer_at nt b)))"
proof -
  obtain s E nt s2 nt2 y ev s3 where e: "net_started net_example E (s, nt)" "(net_step E)\<^sup>*\<^sup>* (s, nt) (s2, nt2)"
    "net_msgs nt2 = [1 \<mapsto> y]" "nm_size y = 4" by (rule example_sent)
  from network_run_safe [OF example_built e(1,2)] e(3)
  have "net_msg_table_get nt2 1 = Some 1" "\<exists>!b. b < length (net_buffers nt2) \<and> 1 \<in> set (nb_msg_list (buffer_at nt2 b))"
    by fastforce+
  with e show ?thesis
    by (intro exI [of _ E] exI [of _ "(s, nt)"] exI [of _ s2] exI [of _ nt2] exI [of _ y]) simp
qed

lemma network_event_handled_witness:
  "\<exists>E (sw :: nat net_state) s nt ev s1 sw'. net_started net_example E sw \<and> (net_step E)\<^sup>*\<^sup>* sw (s, nt) \<and>
     next_event s = Some (ev, s1) \<and> net_event_handler E (ev_id ev) (ev_data ev) (s1, nt) = Inr sw'"
proof -
  obtain s E nt s2 nt2 y ev s3 where e: "net_started net_example E (s, nt)" "(net_step E)\<^sup>*\<^sup>* (s, nt) (s2, nt2)"
    "net_msgs nt2 = [1 \<mapsto> y]" "nm_size y = 4" "next_event s2 = Some (ev, s3)" "ev_data ev = Net_stack 1 1 Null"
    and sz: "\<forall>b < length (net_buffers nt2). nb_size (buffer_at nt2 b) = 8" by (rule example_sent)
  have "\<not> (\<exists>m y b. net_msgs nt2 m = Some y \<and> b < length (net_buffers nt2) \<and> nm_size y > nb_size (buffer_at nt2 b))"
    using e(3,4) sz by (auto split: if_splits)
  with network_event_handled [OF example_built e(1,2,5,6)] obtain sw' where
    "net_event_handler E (ev_id ev) (ev_data ev) (s3, nt2) = Inr sw'" by blast
  with e show ?thesis by blast
qed

lemma network_send_accepted_witness:
  "\<exists>E (sw :: nat net_state) s2 nt2 y. net_started net_example E sw \<and>
     net_send_ev E 0 1 4 1 Null sw = Inr ((s2, nt2), net_msg_id_counter (snd sw) + 1) \<and>
     net_msgs nt2 = (net_msgs (snd sw))(net_msg_id_counter (snd sw) + 1 \<mapsto> y) \<and> nm_size y = 4"
proof -
  obtain s E nt where st: "net_started net_example E (s, nt)" and can: "net_can_send (esim_cycle s) nt 0 1 4 = Inr True"
    and n: "net_node_count nt = 3" "nn_kind (node_at nt 0) = net_node_end" "nn_kind (node_at nt 1) = net_node_end"
    and u: "user_event E s 1 Null" by (rule example_started)
  have "0 < net_node_count nt" "1 < net_node_count nt" "0 \<noteq> (1::nat)" "1 \<le> (4::int)" using n(1) by simp_all
  from network_send_accepted [OF example_built st rtranclp.rtrancl_refl this(1-3) n(2,3) this(4) u can] obtain s2 nt2 y where
    "net_send_ev E 0 1 4 1 Null (s, nt) = Inr ((s2, nt2), net_msg_id_counter nt + 1)"
    "net_msgs nt2 = (net_msgs nt)(net_msg_id_counter nt + 1 \<mapsto> y)" "nm_size y = 4" by blast
  with st show ?thesis
    by (intro exI [of _ E] exI [of _ "(s, nt)"] exI [of _ s2] exI [of _ nt2] exI [of _ y]) simp
qed

end
