(* ===== verification/Net_Sched.thy ===== *)
theory Net_Sched
  imports Net_Sim
begin

text \<open>
  The scheduler of a switch (\<open>src/network/node.c\<close>): its loop over the input buffers is a search in cyclic
  order from the buffer served last.
\<close>

section \<open>Round-robin scheduling\<close>

text \<open>An input buffer that may use an output buffer now: its first message is ready, leads there and fits.\<close>

definition ready :: "int \<Rightarrow> 'd net_t \<Rightarrow> nat \<Rightarrow> nat \<Rightarrow> nat \<Rightarrow> bool" where
  "ready cyc nt node ob b \<longleftrightarrow> (case nb_msg_list (buffer_at nt b) of [] \<Rightarrow> False
     | m # _ \<Rightarrow> (case net_msgs nt m of None \<Rightarrow> False
        | Some y \<Rightarrow> nm_busy y < cyc \<and> nb_read_busy (buffer_at nt b) < cyc \<and>
            re_output_buffer (ent (net_routing_table nt) node (nm_dst_node y)) = Some ob \<and>
            nb_count (buffer_at nt ob) + nm_size y \<le> nb_size (buffer_at nt ob)))"

lemma sched_loop_find:
  assumes ok: "contents_ok nt" and n: "node < net_node_count nt" and k: "nn_kind (node_at nt node) \<noteq> net_node_end"
    and bs: "\<forall>b \<in> set bs. is_in nt b \<and> nb_node (buffer_at nt b) = node"
  shows "sched_loop cyc nt node ob bs = Inr (find (ready cyc nt node ob) bs)"
  using bs
proof (induction bs)
  case (Cons b bs)
  then have IH: "sched_loop cyc nt node ob bs = Inr (find (ready cyc nt node ob) bs)" by auto
  show ?case
  proof (cases "nb_msg_list (buffer_at nt b)")
    case Nil
    then have "\<not> ready cyc nt node ob b" by (simp add: ready_def)
    with Nil IH show ?thesis by simp
  next
    case msg: (Cons m xs)
    with Cons.prems head_routed [OF ok _ _ k, of b m] obtain y o2 where
      y: "net_msgs nt m = Some y" "nm_dst_node y < net_node_count nt"
      "re_output_buffer (ent (net_routing_table nt) node (nm_dst_node y)) = Some o2" by auto
    note L = lookup_table [OF ok n y(2)]
    have "ready cyc nt node ob b \<longleftrightarrow> nm_busy y < cyc \<and> nb_read_busy (buffer_at nt b) < cyc \<and> o2 = ob \<and>
        nb_count (buffer_at nt ob) + nm_size y \<le> nb_size (buffer_at nt ob)" using msg y by (simp add: ready_def)
    then show ?thesis using msg y L IH by (auto simp: msg_at_def)
  qed
qed simp

lemma sched_when_same:
  assumes "ob < length (net_buffers nt)"
  shows "sched_loop cyc (upd_buffer ob (\<lambda>b. b\<lparr>nb_sched_when := c\<rparr>) nt) node ob bs = sched_loop cyc nt node ob bs"
proof -
  let ?nt = "upd_buffer ob (\<lambda>b. b\<lparr>nb_sched_when := c\<rparr>) nt"
  have s: "net_routing_table ?nt = net_routing_table nt" "net_msgs ?nt = net_msgs nt"
    by (simp_all add: upd_buffer_def put_buffer_def)
  have b: "nb_msg_list (buffer_at ?nt b) = nb_msg_list (buffer_at nt b)" "nb_read_busy (buffer_at ?nt b) = nb_read_busy (buffer_at nt b)"
    "nb_count (buffer_at ?nt b) = nb_count (buffer_at nt b)" "nb_size (buffer_at ?nt b) = nb_size (buffer_at nt b)" for b
    using assms by (cases "b = ob"; simp add: upd_buffer_def put_buffer_def)+
  have m: "msg_at ?nt m = msg_at nt m" for m by (simp add: msg_at_def s)
  show ?thesis by (induction bs) (simp_all only: sched_loop.simps b s m)
qed

lemma round_robin_order:
  "map (\<lambda>i. xs ! ((k + i + 1) mod length xs)) [0..<length xs] = rotate (Suc k) xs"
  by (rule nth_equalityI) (simp_all add: nth_rotate del: rotate_Suc)

text \<open>C19: in a reachable state, the scheduler of a switch gives an output buffer that is free, at its first call in
  a cycle, to the first input buffer in cyclic order after the one it served last whose first message is
  ready, leads to that output buffer and fits into it, or to none if there is none such; further calls
  in the same cycle return the same choice and change nothing. A busy output buffer goes to nobody.\<close>

theorem node_schedule_round_robin:
  assumes built: "net_built nt0" and start: "net_started nt0 E sw" and run: "(net_step E)\<^sup>*\<^sup>* sw (s, nt)"
    and n: "node < net_node_count nt" "nn_kind (node_at nt node) \<noteq> net_node_end"
    and ob: "ob \<in> set (nn_output_buffer_list (node_at nt node))" "nb_sched_when (buffer_at nt ob) \<noteq> cyc"
  shows "\<exists>nt'. let last = (case nb_sched_buffer (buffer_at nt ob) of Some b \<Rightarrow> nb_index (buffer_at nt b) | None \<Rightarrow> 0);
      r = (if nb_write_busy (buffer_at nt ob) \<ge> cyc then None
           else find (ready cyc nt node ob) (rotate (Suc last) (nn_input_buffer_list (node_at nt node))))
    in net_node_schedule cyc node ob nt = Inr (nt', r) \<and> net_node_schedule cyc node ob nt' = Inr (nt', r)"
proof -
  have "net_inv E (s, nt) {#}" by (rule net_run_inv [OF run started_inv(1) [OF built start]])
  then have ok: "contents_ok nt" by (rule net_invD(4))
  have topo: "topo_ok nt" using ok by (simp add: contents_ok_def)
  note O = topo_outD [OF topo n(1) ob(1)]
  let ?buf = "buffer_at nt ob" and ?ins = "nn_input_buffer_list (node_at nt node)"
  let ?nt1 = "upd_buffer ob (\<lambda>b. b\<lparr>nb_sched_when := cyc\<rparr>) nt"
  have idx: "nb_index (buffer_at ?nt1 b) = nb_index (buffer_at nt b)" for b
    using O(1) by (cases "b = ob") (simp_all add: upd_buffer_def put_buffer_def)
  define lst where "lst = (case nb_sched_buffer ?buf of Some b \<Rightarrow> nb_index (buffer_at nt b) | None \<Rightarrow> 0)"
  define r where "r = (if nb_write_busy ?buf \<ge> cyc then None else find (ready cyc nt node ob) (rotate (Suc lst) ?ins))"
  have "is_in nt b \<and> nb_node (buffer_at nt b) = node" if "b \<in> set ?ins" for b
    using topo_inD(1,2) [OF topo n(1) that] that by (simp add: is_in_def)
  then have "sched_loop cyc nt node ob (rotate (Suc lst) ?ins) = Inr (find (ready cyc nt node ob) (rotate (Suc lst) ?ins))"
    by (intro sched_loop_find [OF ok n]) (simp del: rotate_Suc)
  then have lp: "(if nb_write_busy ?buf \<ge> cyc then Inr None else sched_loop cyc ?nt1 node ob
      (map (\<lambda>i. ?ins ! ((lst + i + 1) mod length ?ins)) [0..<length ?ins])) = Inr r"
    unfolding round_robin_order sched_when_same [OF O(1)] by (simp add: r_def)
  let ?nt' = "upd_buffer ob (\<lambda>b. b\<lparr>nb_sched_buffer := r\<rparr>) ?nt1"
  have l1: "(case nb_sched_buffer ?buf of None \<Rightarrow> 0 | Some b \<Rightarrow> nb_index (buffer_at ?nt1 b)) = lst"
    unfolding lst_def by (cases "nb_sched_buffer ?buf") (simp_all only: option.case idx)
  have first: "net_node_schedule cyc node ob nt = Inr (?nt', r)"
    using O ob(2) unfolding net_node_schedule_def Let_def l1 lp by simp
  have b': "nb_node (buffer_at ?nt' ob) = node" "nb_index (buffer_at ?nt' ob) = nb_index ?buf"
    "nb_sched_when (buffer_at ?nt' ob) = cyc" "nb_sched_buffer (buffer_at ?nt' ob) = r"
    using O(1,2) by (simp_all add: upd_buffer_def put_buffer_def)
  have "nn_output_buffer_list (node_at ?nt' node) = nn_output_buffer_list (node_at nt node)"
    by (simp add: upd_buffer_def put_buffer_def)
  with b' O(4,5) have "net_node_schedule cyc node ob ?nt' = Inr (?nt', r)"
    unfolding net_node_schedule_def Let_def by simp
  with first show ?thesis by (intro exI [of _ ?nt']) (simp only: Let_def r_def lst_def)
qed

lemma node_schedule_round_robin_witness:
  "\<exists>E (sw :: nat net_state) nt'. net_started net_example E sw \<and>
     net_node_schedule 1 2 2 (snd sw) = Inr (nt', None) \<and> net_node_schedule 1 2 2 nt' = Inr (nt', None)"
proof -
  obtain s E nt where st: "net_started net_example E (s, nt)" by (rule example_started)
  from started_inv(2) [OF example_built st] obtain rt where nt: "nt = net_example\<lparr>net_routing_table := rt\<rparr>" by auto
  have n: "2 < net_node_count nt" "nn_kind (node_at nt 2) \<noteq> net_node_end" "2 \<in> set (nn_output_buffer_list (node_at nt 2))"
    "nb_sched_when (buffer_at nt 2) \<noteq> 1"
    by (simp_all add: nt net_example_def build_example_def build_eval)
  have i: "nn_input_buffer_list (node_at nt 2) = [1, 5]" "nb_sched_buffer (buffer_at nt 2) = None"
    "nb_msg_list (buffer_at nt 1) = []" "nb_msg_list (buffer_at nt 5) = []" "\<not> nb_write_busy (buffer_at nt 2) \<ge> 1"
    by (simp_all add: nt net_example_def build_example_def build_eval)
  have "find (ready 1 nt 2 2) (rotate (Suc 0) [1, 5]) = None" using i by (simp add: ready_def)
  with node_schedule_round_robin [OF example_built st rtranclp.rtrancl_refl n] i obtain nt' where
    "net_node_schedule 1 2 2 nt = Inr (nt', None)" "net_node_schedule 1 2 2 nt' = Inr (nt', None)" by (auto simp: Let_def)
  with st show ?thesis by (intro exI [of _ E] exI [of _ "(s, nt)"] exI [of _ nt']) simp
qed

end
