(* ===== verification/Hash_Table.thy ===== *)
theory Hash_Table
  imports Prelude "HOL-Library.Signed_Division"
begin

text \<open>
  Hash table keyed by strings (\<open>src/lib/struct/hash-table.c\<close>): an array of collision chains, owned by
  the table, that doubles when it is half full. A chain is a list, a pointer to an element its position
  in a chain. \<open>NULL\<close> data is \<open>None\<close>. Allocation does not fail. The promise of the table is that of a
  finite map from keys, up to case when the table is not case-sensitive.
\<close>

section \<open>The structure\<close>

record 'd hash_table_elem_t =
  hte_key :: string
  hte_data :: 'd

record 'd hash_table_t =
  ht_count :: nat
  ht_size :: nat
  ht_case_sensitive :: bool
  ht_find_op :: bool
  ht_find_index :: nat
  ht_find_elem :: "(nat \<times> nat) option"
  ht_elem_vector :: "'d hash_table_elem_t list list"

abbreviation HASH_TABLE_MIN_INITIAL_SIZE :: nat where "HASH_TABLE_MIN_INITIAL_SIZE \<equiv> 5"

text \<open>
  \<open>char\<close> is signed: a byte from 128 on is negative. \<open>%\<close> rounds towards zero, and the product is that of
  32-bit integers.
\<close>

definition char_value :: "char \<Rightarrow> int" where
  "char_value c = (let n = of_char c :: int in if n < 128 then n else n - 256)"

definition hash_table_get_index :: "'d hash_table_t \<Rightarrow> string \<Rightarrow> int" where
  "hash_table_get_index t key =
     foldl (\<lambda>index c.
       signed_take_bit 31 (index * 37 + (if ht_case_sensitive t then char_value c else char_value (to_lower c)))
         smod int (ht_size t)) 0 key"

text \<open>\<open>str_compare_func\<close>, as a test of equality.\<close>

definition key_eq :: "'d hash_table_t \<Rightarrow> string \<Rightarrow> string \<Rightarrow> bool" where
  "key_eq t a b \<longleftrightarrow> (if ht_case_sensitive t then a = b else strcaseeq a b)"

text \<open>An index below zero lies outside of the vector.\<close>

definition chain_at :: "'d hash_table_t \<Rightarrow> int \<Rightarrow> 'd hash_table_elem_t list res" where
  "chain_at t i = (if 0 \<le> i \<and> i < int (ht_size t) then Inr (ht_elem_vector t ! nat i) else Inl Null_deref)"

definition put_chain :: "int \<Rightarrow> 'd hash_table_elem_t list \<Rightarrow> 'd hash_table_t \<Rightarrow> 'd hash_table_t" where
  "put_chain i c t = t\<lparr>ht_elem_vector := (ht_elem_vector t)[nat i := c]\<rparr>"

definition push_elem :: "'d hash_table_elem_t \<Rightarrow> 'd hash_table_t \<Rightarrow> 'd hash_table_t res" where
  "push_elem e t =
     (let index = hash_table_get_index t (hte_key e) in
      res_bind (chain_at t index) (\<lambda>c. Inr (put_chain index (e # c) t)))"

text \<open>A size that does not fit is negative, and no vector of that size can be allocated.\<close>

definition hash_table_grow :: "'d hash_table_t \<Rightarrow> 'd hash_table_t res" where
  "hash_table_grow t =
     (if ht_size t * 2 \<ge> 2 ^ 31 then Inl (Fatal ''out of memory'')
      else res_fold push_elem (concat (ht_elem_vector t))
             (t\<lparr>ht_size := ht_size t * 2, ht_elem_vector := replicate (ht_size t * 2) []\<rparr>))"

definition hash_table_find :: "'d hash_table_t \<Rightarrow> string \<Rightarrow> (int \<times> 'd hash_table_elem_t option) res" where
  "hash_table_find t key =
     (let index = hash_table_get_index t key in
      res_bind (chain_at t index) (\<lambda>c. Inr (index, find (\<lambda>e. key_eq t key (hte_key e)) c)))"

section \<open>Operations\<close>

definition hash_table_create :: "int \<Rightarrow> bool \<Rightarrow> 'd hash_table_t" where
  "hash_table_create sz case_sensitive =
     (let n = (if sz < int HASH_TABLE_MIN_INITIAL_SIZE then HASH_TABLE_MIN_INITIAL_SIZE else nat sz) in
      \<lparr>ht_count = 0, ht_size = n, ht_case_sensitive = case_sensitive, ht_find_op = False, ht_find_index = 0,
       ht_find_elem = None, ht_elem_vector = replicate n []\<rparr>)"

definition hash_table_clear :: "'d hash_table_t \<Rightarrow> 'd hash_table_t" where
  "hash_table_clear t =
     t\<lparr>ht_find_op := False, ht_elem_vector := map (\<lambda>_. []) (ht_elem_vector t), ht_count := 0\<rparr>"

definition hash_table_insert :: "'d hash_table_t \<Rightarrow> string \<Rightarrow> 'd option \<Rightarrow> ('d hash_table_t \<times> int) res" where
  "hash_table_insert t key data =
     (let t = t\<lparr>ht_find_op := False\<rparr> in
      case data of
        None \<Rightarrow> Inr (t, 0)
      | Some d \<Rightarrow>
          res_bind (if ht_count t \<ge> ht_size t div 2 then hash_table_grow t else Inr t) (\<lambda>t.
          res_bind (hash_table_find t key) (\<lambda>(index, elem).
            case elem of
              Some _ \<Rightarrow> Inr (t, 0)
            | None \<Rightarrow>
                res_bind (chain_at t index) (\<lambda>c.
                  let t = put_chain index (\<lparr>hte_key = key, hte_data = d\<rparr> # c) t; t = t\<lparr>ht_count := ht_count t + 1\<rparr> in
                  if \<not> ht_count t < ht_size t then Inl Assert_failed else Inr (t, 1)))))"

definition hash_table_set :: "'d hash_table_t \<Rightarrow> string \<Rightarrow> 'd option \<Rightarrow> ('d hash_table_t \<times> int) res" where
  "hash_table_set t key data =
     (case data of
        None \<Rightarrow> Inr (t, 0)
      | Some d \<Rightarrow>
          res_bind (hash_table_find t key) (\<lambda>(index, elem).
            case elem of
              None \<Rightarrow> Inr (t, 0)
            | Some _ \<Rightarrow>
                res_bind (chain_at t index) (\<lambda>c.
                  Inr (put_chain index (update_first (\<lambda>e. key_eq t key (hte_key e)) (\<lambda>e. e\<lparr>hte_data := d\<rparr>) c) t, 1))))"

definition hash_table_count :: "'d hash_table_t \<Rightarrow> int" where
  "hash_table_count t = int (ht_count t)"

definition hash_table_get :: "'d hash_table_t \<Rightarrow> string \<Rightarrow> 'd option res" where
  "hash_table_get t key = res_bind (hash_table_find t key) (\<lambda>(index, elem). Inr (map_option hte_data elem))"

definition hash_table_remove :: "'d hash_table_t \<Rightarrow> string \<Rightarrow> ('d hash_table_t \<times> 'd option) res" where
  "hash_table_remove t key =
     (let t = t\<lparr>ht_find_op := False\<rparr>; index = hash_table_get_index t key in
      res_bind (chain_at t index) (\<lambda>c.
        case find (\<lambda>e. key_eq t (hte_key e) key) c of
          None \<Rightarrow> Inr (t, None)
        | Some elem \<Rightarrow>
            let t = put_chain index (remove_first (\<lambda>e. key_eq t (hte_key e) key) c) t in
            if \<not> ht_count t > 0 then Inl Assert_failed
            else Inr (t\<lparr>ht_count := ht_count t - 1\<rparr>, Some (hte_data elem))))"

section \<open>Enumeration\<close>

text \<open>The first non-empty chain from an index on.\<close>

definition next_chain :: "'d hash_table_t \<Rightarrow> nat \<Rightarrow> nat option" where
  "next_chain t i = find (\<lambda>k. ht_elem_vector t ! k \<noteq> []) [i..<ht_size t]"

definition elem_at :: "'d hash_table_t \<Rightarrow> nat \<Rightarrow> nat \<Rightarrow> string \<times> 'd" where
  "elem_at t i k = (let e = ht_elem_vector t ! i ! k in (hte_key e, hte_data e))"

definition hash_table_find_first :: "'d hash_table_t \<Rightarrow> ('d hash_table_t \<times> (string \<times> 'd) option) res" where
  "hash_table_find_first t =
     (let t = t\<lparr>ht_find_op := True, ht_find_index := 0, ht_find_elem := None\<rparr> in
      if ht_count t = 0 then Inr (t, None)
      else case next_chain t 0 of
        None \<Rightarrow> Inl (Panic ''inconsistent hash table'')
      | Some i \<Rightarrow> Inr (t\<lparr>ht_find_index := i, ht_find_elem := Some (i, 0)\<rparr>, Some (elem_at t i 0)))"

definition hash_table_find_next :: "'d hash_table_t \<Rightarrow> ('d hash_table_t \<times> (string \<times> 'd) option) res" where
  "hash_table_find_next t =
     (if \<not> ht_find_op t then Inl (Panic ''hash table enumeration interrupted'')
      else case ht_find_elem t of
        None \<Rightarrow> Inr (t, None)
      | Some (c, k) \<Rightarrow>
          if Suc k < length (ht_elem_vector t ! c)
          then Inr (t\<lparr>ht_find_elem := Some (c, Suc k)\<rparr>, Some (elem_at t c (Suc k)))
          else
            let t = t\<lparr>ht_find_index := ht_find_index t + 1\<rparr> in
            (case next_chain t (ht_find_index t) of
               Some i \<Rightarrow> Inr (t\<lparr>ht_find_index := i, ht_find_elem := Some (i, 0)\<rparr>, Some (elem_at t i 0))
             | None \<Rightarrow> Inr (t\<lparr>ht_find_index := 0, ht_find_elem := None\<rparr>, None)))"

text \<open>The loop of \<open>HASH_TABLE_FOR_EACH\<close>, collecting what it visits.\<close>

partial_function (option) for_each_next ::
  "'d hash_table_t \<times> (string \<times> 'd) option \<Rightarrow> ('d hash_table_t \<times> (string \<times> 'd) list) res option" where
  "for_each_next r =
     (case snd r of
        None \<Rightarrow> Some (Inr (fst r, []))
      | Some x \<Rightarrow>
          (case hash_table_find_next (fst r) of
             Inl e \<Rightarrow> Some (Inl e)
           | Inr r' \<Rightarrow> Option.bind (for_each_next r') (\<lambda>q. Some (res_bind q (\<lambda>(t, xs). Inr (t, x # xs))))))"

definition HASH_TABLE_FOR_EACH :: "'d hash_table_t \<Rightarrow> ('d hash_table_t \<times> (string \<times> 'd) list) res option" where
  "HASH_TABLE_FOR_EACH t =
     (case hash_table_find_first t of Inl e \<Rightarrow> Some (Inl e) | Inr r \<Rightarrow> for_each_next r)"


section \<open>Keys\<close>

definition ascii :: "string \<Rightarrow> bool" where
  "ascii key \<longleftrightarrow> (\<forall>c \<in> set key. (of_char c :: nat) < 128)"

text \<open>Keys are compared after folding their case, unless the table is case-sensitive.\<close>

definition fold_key :: "bool \<Rightarrow> string \<Rightarrow> string" where
  "fold_key case_sensitive key = (if case_sensitive then key else map to_lower key)"

abbreviation norm :: "'d hash_table_t \<Rightarrow> string \<Rightarrow> string" where
  "norm t \<equiv> fold_key (ht_case_sensitive t)"

abbreviation elem_key :: "'d hash_table_t \<Rightarrow> 'd hash_table_elem_t \<Rightarrow> string" where
  "elem_key t e \<equiv> norm t (hte_key e)"

lemma key_eq_norm: "key_eq t a b \<longleftrightarrow> norm t b = norm t a"
  by (auto simp: key_eq_def fold_key_def strcaseeq_def)

lemma char_value_ascii: "(of_char c :: nat) < 128 \<Longrightarrow> 0 \<le> char_value c \<and> char_value c < 128"
proof -
  assume "(of_char c :: nat) < 128"
  then have "int (of_char c) < int 128" unfolding of_nat_less_iff .
  then have "(of_char c :: int) < 128" unfolding of_nat_of_char by simp
  moreover have "0 \<le> int (of_char c)" by (rule of_nat_0_le_iff)
  then have "0 \<le> (of_char c :: int)" unfolding of_nat_of_char .
  ultimately show ?thesis by (simp add: char_value_def Let_def)
qed

lemma to_lower_ascii: "(of_char c :: nat) < 128 \<Longrightarrow> (of_char (to_lower c) :: nat) < 128"
  by (auto simp: to_lower_def)

lemma index_fold: "hash_table_get_index t key =
    foldl (\<lambda>index c. signed_take_bit 31 (index * 37 + char_value c) smod int (ht_size t)) 0 (norm t key)"
  by (simp add: hash_table_get_index_def fold_key_def foldl_map)

lemma index_norm: "norm t a = norm t b \<Longrightarrow> hash_table_get_index t a = hash_table_get_index t b"
  by (simp add: index_fold)

lemma fold_range:
  assumes "0 < n" "n \<le> 2 ^ 25" "\<forall>c \<in> set key. (of_char c :: nat) < 128" "0 \<le> i" "i < int n"
  shows "0 \<le> foldl (\<lambda>index c. signed_take_bit 31 (index * 37 + char_value c) smod int n) i key \<and>
    foldl (\<lambda>index c. signed_take_bit 31 (index * 37 + char_value c) smod int n) i key < int n"
  using assms(3-)
proof (induction key arbitrary: i)
  case (Cons c key)
  have c: "0 \<le> char_value c" "char_value c < 128" using Cons.prems(1) char_value_ascii [of c] by simp_all
  then have "0 \<le> i * 37 + char_value c" using Cons.prems(2) by simp
  moreover have "i * 37 + char_value c < 2 ^ 31" using Cons.prems(3) assms(2) c(2) by simp
  ultimately have "signed_take_bit 31 (i * 37 + char_value c) = i * 37 + char_value c"
    by (intro signed_take_bit_int_eq_self) simp_all
  with \<open>0 \<le> i * 37 + char_value c\<close>
  have "signed_take_bit 31 (i * 37 + char_value c) smod int n = (i * 37 + char_value c) mod int n"
    using assms(1) by (auto simp: signed_modulo_int_def sgn_if)
  with Cons.IH [of "(i * 37 + char_value c) mod int n"] Cons.prems assms(1) show ?case by simp
qed simp

text \<open>Up to this size no product overflows.\<close>

abbreviation size_ok :: "'d hash_table_t \<Rightarrow> bool" where
  "size_ok t \<equiv> 0 < ht_size t \<and> ht_size t \<le> 2 ^ 25"

lemma index_range:
  assumes "ascii key" "size_ok t"
  shows "0 \<le> hash_table_get_index t key" "hash_table_get_index t key < int (ht_size t)"
proof -
  have "\<forall>c \<in> set (norm t key). (of_char c :: nat) < 128"
    using assms(1) to_lower_ascii by (auto simp: ascii_def fold_key_def)
  from fold_range [OF _ _ this, of "ht_size t" 0] assms(2)
  show "0 \<le> hash_table_get_index t key" "hash_table_get_index t key < int (ht_size t)" by (simp_all add: index_fold)
qed

section \<open>The invariant\<close>

abbreviation elems :: "'d hash_table_t \<Rightarrow> 'd hash_table_elem_t set" where
  "elems t \<equiv> set (concat (ht_elem_vector t))"

definition chain_ok :: "'d hash_table_t \<Rightarrow> nat \<Rightarrow> 'd hash_table_elem_t list \<Rightarrow> bool" where
  "chain_ok t i c \<longleftrightarrow> distinct (map (elem_key t) c) \<and>
     (\<forall>e \<in> set c. ascii (hte_key e) \<and> hash_table_get_index t (hte_key e) = int i)"

definition table_inv :: "'d hash_table_t \<Rightarrow> bool" where
  "table_inv t \<longleftrightarrow> size_ok t \<and> length (ht_elem_vector t) = ht_size t \<and>
     (\<forall>i < ht_size t. chain_ok t i (ht_elem_vector t ! i))"

text \<open>The map that a set of elements stands for.\<close>

definition maps :: "('d hash_table_elem_t \<Rightarrow> string) \<Rightarrow> 'd hash_table_elem_t set \<Rightarrow> (string \<rightharpoonup> 'd) \<Rightarrow> bool" where
  "maps key E M \<longleftrightarrow> (\<forall>k d. M k = Some d \<longleftrightarrow> (\<exists>e \<in> E. key e = k \<and> hte_data e = d))"

definition represents :: "'d hash_table_t \<Rightarrow> (string \<rightharpoonup> 'd) \<Rightarrow> bool" where
  "represents t M \<longleftrightarrow> table_inv t \<and> maps (elem_key t) (elems t) M \<and> finite (dom M) \<and>
     ht_count t = card (dom M) \<and> ht_count t < ht_size t"

text \<open>Everything that chains depend on but the vector.\<close>

definition same_table :: "'d hash_table_t \<Rightarrow> 'd hash_table_t \<Rightarrow> bool" where
  "same_table t t' \<longleftrightarrow> ht_size t' = ht_size t \<and> ht_case_sensitive t' = ht_case_sensitive t"

lemma same_index: "same_table t t' \<Longrightarrow> hash_table_get_index t' = hash_table_get_index t"
  by (simp add: same_table_def hash_table_get_index_def fun_eq_iff)

lemma same_chain: "same_table t t' \<Longrightarrow> chain_ok t' i c = chain_ok t i c"
  by (simp add: chain_ok_def same_index) (simp add: same_table_def)

lemma mem_elems: "table_inv t \<Longrightarrow> e \<in> elems t \<longleftrightarrow> (\<exists>i < ht_size t. e \<in> set (ht_elem_vector t ! i))"
  by (simp add: table_inv_def) (metis in_set_conv_nth nth_mem)

lemma chain_elems:
  assumes "table_inv t" "i < ht_size t"
  shows "set (ht_elem_vector t ! i) = {e \<in> elems t. hash_table_get_index t (hte_key e) = int i}"
  using assms mem_elems [OF assms(1)] by (auto simp: table_inv_def chain_ok_def simp del: set_concat)

lemma put_chain_inv:
  assumes inv: "table_inv t" and i: "0 \<le> i" "i < int (ht_size t)" and c: "chain_ok t (nat i) c"
  shows "table_inv (put_chain i c t)"
    "elems (put_chain i c t) = {e \<in> elems t. hash_table_get_index t (hte_key e) \<noteq> i} \<union> set c"
proof -
  let ?t = "put_chain i c t"
  have n: "nat i < ht_size t" using i by linarith
  have s: "same_table t ?t" by (simp add: same_table_def put_chain_def)
  have v: "ht_elem_vector ?t = (ht_elem_vector t)[nat i := c]" "ht_size ?t = ht_size t" by (simp_all add: put_chain_def)
  have l: "length (ht_elem_vector t) = ht_size t" using inv by (simp add: table_inv_def)
  have "chain_ok ?t j (ht_elem_vector ?t ! j)" if "j < ht_size t" for j
    using inv c that l unfolding same_chain [OF s] v(1) by (cases "j = nat i") (simp_all add: table_inv_def)
  then show inv': "table_inv ?t" using inv l v by (simp add: table_inv_def)
  have idx: "hash_table_get_index t (hte_key e) = int j" if "j < ht_size t" "e \<in> set (ht_elem_vector t ! j)" for e j
    using inv that by (simp add: table_inv_def chain_ok_def)
  show "elems ?t = {e \<in> elems t. hash_table_get_index t (hte_key e) \<noteq> i} \<union> set c"
  proof (intro set_eqI)
    fix e
    have "e \<in> elems ?t \<longleftrightarrow> (\<exists>j < ht_size t. e \<in> set ((ht_elem_vector t)[nat i := c] ! j))"
      using mem_elems [OF inv', of e] unfolding v .
    also have "\<dots> \<longleftrightarrow> e \<in> set c \<or> (\<exists>j < ht_size t. j \<noteq> nat i \<and> e \<in> set (ht_elem_vector t ! j))"
      using n l by (metis nth_list_update)
    also have "\<dots> \<longleftrightarrow> e \<in> set c \<or> e \<in> elems t \<and> hash_table_get_index t (hte_key e) \<noteq> i"
      using idx mem_elems [OF inv, of e] i(1) by (metis int_nat_eq nat_int)
    finally show "e \<in> elems ?t \<longleftrightarrow> e \<in> {e \<in> elems t. hash_table_get_index t (hte_key e) \<noteq> i} \<union> set c" by blast
  qed
qed

lemma chain_at_ok:
  assumes "table_inv t" "ascii key"
  shows "chain_at t (hash_table_get_index t key) = Inr (ht_elem_vector t ! nat (hash_table_get_index t key))"
    "chain_ok t (nat (hash_table_get_index t key)) (ht_elem_vector t ! nat (hash_table_get_index t key))"
    "set (ht_elem_vector t ! nat (hash_table_get_index t key)) =
       {e \<in> elems t. hash_table_get_index t (hte_key e) = hash_table_get_index t key}"
proof -
  have s: "size_ok t" using assms(1) by (simp add: table_inv_def)
  note r = index_range [OF assms(2) s]
  then have n: "nat (hash_table_get_index t key) < ht_size t" by linarith
  show "chain_at t (hash_table_get_index t key) = Inr (ht_elem_vector t ! nat (hash_table_get_index t key))"
    using r by (simp add: chain_at_def)
  show "chain_ok t (nat (hash_table_get_index t key)) (ht_elem_vector t ! nat (hash_table_get_index t key))"
    using assms(1) n by (simp add: table_inv_def)
  show "set (ht_elem_vector t ! nat (hash_table_get_index t key)) =
       {e \<in> elems t. hash_table_get_index t (hte_key e) = hash_table_get_index t key}"
    using chain_elems [OF assms(1) n] r(1) by simp
qed

lemma hash_find_ok:
  assumes rep: "represents t M" and key: "ascii key"
  shows "\<exists>r. hash_table_find t key = Inr (hash_table_get_index t key, r) \<and> map_option hte_data r = M (norm t key)"
proof -
  have inv: "table_inv t" and m: "maps (elem_key t) (elems t) M" using rep by (simp_all add: represents_def)
  note C = chain_at_ok [OF inv key]
  let ?c = "ht_elem_vector t ! nat (hash_table_get_index t key)"
  let ?r = "find (\<lambda>e. elem_key t e = norm t key) ?c"
  have "map_option hte_data ?r = M (norm t key)"
  proof (cases ?r)
    case None
    have "M (norm t key) = None"
    proof (rule ccontr)
      assume "M (norm t key) \<noteq> None"
      then obtain e where e: "e \<in> elems t" "elem_key t e = norm t key" using m by (auto simp: maps_def)
      then have "e \<in> set ?c" unfolding C(3) using index_norm [OF e(2)] by simp
      with None e(2) show False by (simp add: find_None_set)
    qed
    with None show ?thesis by simp
  next
    case (Some e)
    from find_SomeD [OF Some] have "e \<in> elems t" "elem_key t e = norm t key" unfolding C(3) by simp_all
    with m have "M (norm t key) = Some (hte_data e)" unfolding maps_def by blast
    with Some show ?thesis by simp
  qed
  then show ?thesis by (simp add: hash_table_find_def C(1) key_eq_norm Let_def)
qed

section \<open>Chains as sets\<close>

lemma set_update_first_found:
  "distinct (map key c) \<Longrightarrow> find (\<lambda>x. key x = k) c = Some e \<Longrightarrow>
   set (update_first (\<lambda>x. key x = k) f c) = insert (f e) (set c - {e})"
proof (induction c)
  case (Cons x c)
  show ?case
  proof (cases "key x = k")
    case True
    with Cons.prems show ?thesis by auto
  next
    case False
    with Cons.prems find_SomeD [of "\<lambda>x. key x = k" c e] have "x \<noteq> e" by auto
    with False Cons show ?thesis by auto
  qed
qed simp

lemma set_remove_first_eq:
  "distinct (map key c) \<Longrightarrow> find (\<lambda>x. key x = k) c = Some e \<Longrightarrow>
   set (remove_first (\<lambda>x. key x = k) c) = set c - {e}"
proof (induction c)
  case (Cons x c)
  show ?case
  proof (cases "key x = k")
    case True
    with Cons.prems show ?thesis by auto
  next
    case False
    with Cons.prems find_SomeD [of "\<lambda>x. key x = k" c e] have "x \<noteq> e" by auto
    with False Cons show ?thesis by auto
  qed
qed simp

lemma distinct_map_remove_first:
  "distinct (map key c) \<Longrightarrow> distinct (map key (remove_first P c))"
  by (induction c) (use set_remove_first in \<open>fastforce+\<close>)

lemma distinct_concat_nth:
  assumes "\<forall>i < length xss. distinct (xss ! i)"
    "\<forall>i j x. i < length xss \<longrightarrow> j < length xss \<longrightarrow> x \<in> set (xss ! i) \<longrightarrow> x \<in> set (xss ! j) \<longrightarrow> i = j"
  shows "distinct (concat xss)"
  using assms
proof (induction xss)
  case (Cons xs xss)
  have "distinct (concat xss)"
  proof (rule Cons.IH)
    show "\<forall>i < length xss. distinct (xss ! i)" using Cons.prems(1) by fastforce
    show "\<forall>i j x. i < length xss \<longrightarrow> j < length xss \<longrightarrow> x \<in> set (xss ! i) \<longrightarrow> x \<in> set (xss ! j) \<longrightarrow> i = j"
      using Cons.prems(2) by (metis length_Cons Suc_less_eq nth_Cons_Suc old.nat.inject)
  qed
  moreover have "x \<notin> set (concat xss)" if "x \<in> set xs" for x
  proof
    assume "x \<in> set (concat xss)"
    then obtain ys where "ys \<in> set xss" "x \<in> set ys" by auto
    then obtain j where "j < length xss" "x \<in> set (xss ! j)" by (metis in_set_conv_nth)
    with Cons.prems(2) [rule_format, of 0 "Suc j" x] that show False by simp
  qed
  moreover have "distinct xs" using Cons.prems(1) by fastforce
  ultimately show ?case by auto
qed simp

text \<open>Keys differ across the whole table.\<close>

lemma distinct_keys:
  assumes "table_inv t"
  shows "distinct (map (elem_key t) (concat (ht_elem_vector t)))"
proof -
  let ?v = "map (map (elem_key t)) (ht_elem_vector t)"
  have l: "length (ht_elem_vector t) = ht_size t" using assms by (simp add: table_inv_def)
  have c: "chain_ok t i (ht_elem_vector t ! i)" if "i < ht_size t" for i using assms that by (simp add: table_inv_def)
  have "distinct (concat ?v)"
  proof (rule distinct_concat_nth)
    show "\<forall>i < length ?v. distinct (?v ! i)" using c l by (simp add: chain_ok_def)
    show "\<forall>i j x. i < length ?v \<longrightarrow> j < length ?v \<longrightarrow> x \<in> set (?v ! i) \<longrightarrow> x \<in> set (?v ! j) \<longrightarrow> i = j"
    proof (intro allI impI)
      fix i j x
      assume "i < length ?v" "j < length ?v" "x \<in> set (?v ! i)" "x \<in> set (?v ! j)"
      then obtain e e' where "i < ht_size t" "j < ht_size t" "e \<in> set (ht_elem_vector t ! i)"
        "e' \<in> set (ht_elem_vector t ! j)" "elem_key t e = elem_key t e'" using l by auto
      with c [of i] c [of j] index_norm [of t "hte_key e" "hte_key e'"] show "i = j" by (simp add: chain_ok_def)
    qed
  qed
  then show ?thesis by (simp add: map_concat)
qed

section \<open>Growing\<close>

lemma push_elem_ok:
  assumes inv: "table_inv t" and key: "ascii (hte_key e)" and new: "elem_key t e \<notin> elem_key t ` elems t"
  shows "\<exists>v. push_elem e t = Inr (t\<lparr>ht_elem_vector := v\<rparr>) \<and> table_inv (t\<lparr>ht_elem_vector := v\<rparr>) \<and>
    set (concat v) = insert e (elems t)"
proof -
  let ?i = "hash_table_get_index t (hte_key e)"
  note C = chain_at_ok [OF inv key]
  let ?c = "ht_elem_vector t ! nat ?i"
  have s: "size_ok t" using inv by (simp add: table_inv_def)
  note r = index_range [OF key s]
  have c: "chain_ok t (nat ?i) (e # ?c)"
    using C(2,3) new key r(1) by (auto simp: chain_ok_def simp del: set_concat)
  have e: "elems (put_chain ?i (e # ?c) t) = insert e (elems t)"
    using put_chain_inv(2) [OF inv r c] C(3) by (auto simp del: set_concat)
  have "push_elem e t = Inr (put_chain ?i (e # ?c) t)" by (simp add: push_elem_def C(1) Let_def)
  moreover have "put_chain ?i (e # ?c) t = t\<lparr>ht_elem_vector := (ht_elem_vector t)[nat ?i := e # ?c]\<rparr>"
    by (simp add: put_chain_def)
  ultimately show ?thesis using put_chain_inv(1) [OF inv r c] e
    by (intro exI [of _ "(ht_elem_vector t)[nat ?i := e # ?c]"]) (simp del: set_concat)
qed

lemma push_elems_ok:
  assumes "table_inv t" "\<forall>e \<in> set xs. ascii (hte_key e)" "distinct (map (elem_key t) xs)"
    "elem_key t ` set xs \<inter> elem_key t ` elems t = {}"
  shows "\<exists>v. res_fold push_elem xs t = Inr (t\<lparr>ht_elem_vector := v\<rparr>) \<and> table_inv (t\<lparr>ht_elem_vector := v\<rparr>) \<and>
    set (concat v) = set xs \<union> elems t"
  using assms
proof (induction xs arbitrary: t)
  case Nil
  then show ?case by (intro exI [of _ "ht_elem_vector t"]) simp
next
  case (Cons e xs)
  from Cons.prems push_elem_ok [of t e] obtain v where v: "push_elem e t = Inr (t\<lparr>ht_elem_vector := v\<rparr>)"
    "table_inv (t\<lparr>ht_elem_vector := v\<rparr>)" "set (concat v) = insert e (elems t)" by (auto simp del: set_concat)
  let ?t = "t\<lparr>ht_elem_vector := v\<rparr>"
  have "\<exists>w. res_fold push_elem xs ?t = Inr (?t\<lparr>ht_elem_vector := w\<rparr>) \<and> table_inv (?t\<lparr>ht_elem_vector := w\<rparr>) \<and>
    set (concat w) = set xs \<union> elems ?t"
    using Cons.prems(2-4) v(2,3) by (intro Cons.IH) (auto simp del: set_concat)
  then obtain w where "res_fold push_elem xs ?t = Inr (?t\<lparr>ht_elem_vector := w\<rparr>)"
    "table_inv (?t\<lparr>ht_elem_vector := w\<rparr>)" "set (concat w) = set xs \<union> elems ?t" by blast
  with v show ?case by (intro exI [of _ w]) (simp del: set_concat)
qed

lemma empty_inv:
  "0 < n \<Longrightarrow> n \<le> 2 ^ 25 \<Longrightarrow> table_inv (t\<lparr>ht_size := n, ht_elem_vector := replicate n []\<rparr>)"
  by (simp add: table_inv_def chain_ok_def)

lemma elems_ascii: "table_inv t \<Longrightarrow> e \<in> elems t \<Longrightarrow> ascii (hte_key e)"
  by (auto simp: mem_elems table_inv_def chain_ok_def simp del: set_concat)

lemma hash_grow_ok:
  assumes inv: "table_inv t" and sz: "ht_size t * 2 \<le> 2 ^ 25"
  shows "\<exists>t'. hash_table_grow t = Inr t' \<and> table_inv t' \<and> elems t' = elems t \<and> ht_size t' = 2 * ht_size t \<and>
    ht_case_sensitive t' = ht_case_sensitive t \<and> ht_count t' = ht_count t"
proof -
  let ?n = "ht_size t * 2"
  let ?t = "t\<lparr>ht_size := ?n, ht_elem_vector := replicate ?n []\<rparr>"
  have "0 < ?n" using inv by (simp add: table_inv_def)
  note e = empty_inv [OF this sz, of t]
  have "\<exists>v. res_fold push_elem (concat (ht_elem_vector t)) ?t = Inr (?t\<lparr>ht_elem_vector := v\<rparr>) \<and>
     table_inv (?t\<lparr>ht_elem_vector := v\<rparr>) \<and> set (concat v) = elems t \<union> elems ?t"
    using elems_ascii [OF inv] distinct_keys [OF inv] by (intro push_elems_ok e) (auto simp del: set_concat simp: set_concat [of "replicate m x" for m x])
  then obtain v where "hash_table_grow t = Inr (?t\<lparr>ht_elem_vector := v\<rparr>)" "table_inv (?t\<lparr>ht_elem_vector := v\<rparr>)"
    "set (concat v) = elems t" using sz by (auto simp: hash_table_grow_def simp del: set_concat simp: set_concat [of "replicate m x" for m x])
  then show ?thesis by (intro exI [of _ "?t\<lparr>ht_elem_vector := v\<rparr>"]) (simp del: set_concat)
qed

section \<open>Each operation on the map\<close>

text \<open>What an operation must give of the map \<open>M'\<close> after it, all fields but the vector kept.\<close>

lemma maps_insert:
  assumes m: "maps key E M" and new: "M (key e) = None"
  shows "maps key (insert e E) (M(key e \<mapsto> hte_data e))"
proof -
  have "key x \<noteq> key e" if "x \<in> E" for x
  proof
    assume "key x = key e"
    with m that have "M (key e) = Some (hte_data x)" unfolding maps_def by blast
    with new show False by simp
  qed
  with m show ?thesis by (auto simp: maps_def)
qed

lemma maps_replace:
  "maps key E M \<Longrightarrow> e \<in> E \<Longrightarrow> \<forall>x \<in> E. key x = key e \<longrightarrow> x = e \<Longrightarrow> key e' = key e \<Longrightarrow>
   maps key (insert e' (E - {e})) (M(key e \<mapsto> hte_data e'))"
  unfolding maps_def by (auto 4 4)

lemma maps_delete:
  "maps key E M \<Longrightarrow> e \<in> E \<Longrightarrow> \<forall>x \<in> E. key x = key e \<longrightarrow> x = e \<Longrightarrow> maps key (E - {e}) (M(key e := None))"
  unfolding maps_def by (auto 4 4)

lemma unique_key:
  assumes "table_inv t" "e \<in> elems t" "x \<in> elems t" "elem_key t x = elem_key t e"
  shows "x = e"
  using distinct_keys [OF assms(1)] assms(2-) by (auto simp: distinct_map inj_on_def simp del: set_concat)

lemma represents_fields [simp]:
  "represents (t\<lparr>ht_find_op := b\<rparr>) M = represents t M"
  "represents (t\<lparr>ht_find_index := i\<rparr>) M = represents t M"
  "represents (t\<lparr>ht_find_elem := p\<rparr>) M = represents t M"
proof -
  have "hash_table_get_index (t\<lparr>ht_find_op := b\<rparr>) = hash_table_get_index t"
    "hash_table_get_index (t\<lparr>ht_find_index := i\<rparr>) = hash_table_get_index t"
    "hash_table_get_index (t\<lparr>ht_find_elem := p\<rparr>) = hash_table_get_index t"
    by (simp_all add: fun_eq_iff hash_table_get_index_def)
  then show "represents (t\<lparr>ht_find_op := b\<rparr>) M = represents t M"
    "represents (t\<lparr>ht_find_index := i\<rparr>) M = represents t M"
    "represents (t\<lparr>ht_find_elem := p\<rparr>) M = represents t M"
    by (simp_all add: represents_def table_inv_def chain_ok_def)
qed

lemma represents_create: "n \<le> 2 ^ 25 \<Longrightarrow> represents (hash_table_create n b) Map.empty"
  by (auto simp: represents_def hash_table_create_def Let_def table_inv_def chain_ok_def maps_def nat_le_iff)

lemma represents_clear: "represents t M \<Longrightarrow> represents (hash_table_clear t) Map.empty"
  by (auto simp: represents_def hash_table_clear_def table_inv_def chain_ok_def maps_def)

lemma hash_get_ok: "represents t M \<Longrightarrow> ascii key \<Longrightarrow> hash_table_get t key = Inr (M (norm t key))"
  using hash_find_ok [of t M key] by (auto simp: hash_table_get_def)

text \<open>A chain found again through the index of a key.\<close>

lemma bucket_hit:
  assumes rep: "represents t M" and key: "ascii key"
    and P: "find (\<lambda>e. elem_key t e = norm t key) (ht_elem_vector t ! nat (hash_table_get_index t key)) = Some e"
  shows "e \<in> elems t" "elem_key t e = norm t key" "M (norm t key) = Some (hte_data e)"
    "\<forall>x \<in> elems t. elem_key t x = elem_key t e \<longrightarrow> x = e"
proof -
  have inv: "table_inv t" and m: "maps (elem_key t) (elems t) M" using rep by (simp_all add: represents_def)
  from find_SomeD [OF P] show e: "e \<in> elems t" "elem_key t e = norm t key"
    unfolding chain_at_ok(3) [OF inv key] by simp_all
  with m show "M (norm t key) = Some (hte_data e)" unfolding maps_def by blast
  show "\<forall>x \<in> elems t. elem_key t x = elem_key t e \<longrightarrow> x = e" using unique_key [OF inv e(1)] by blast
qed

lemma represents_count:
  "table_inv t \<Longrightarrow> maps (elem_key t) (elems t) M \<Longrightarrow> finite (dom M) \<Longrightarrow> n = card (dom M) \<Longrightarrow> n < ht_size t \<Longrightarrow>
   represents (t\<lparr>ht_count := n\<rparr>) M"
proof -
  assume *: "table_inv t" "maps (elem_key t) (elems t) M" "finite (dom M)" "n = card (dom M)" "n < ht_size t"
  have "same_table t (t\<lparr>ht_count := n\<rparr>)" by (simp add: same_table_def)
  with * show ?thesis by (simp add: represents_def table_inv_def same_chain)
qed

lemma insert_new_ok:
  fixes d :: 'd
  assumes rep: "table_inv t" "maps (elem_key t) (elems t) M" "finite (dom M)" "ht_count t = card (dom M)"
    and count: "Suc (ht_count t) < ht_size t" and key: "ascii key" and new: "M (norm t key) = None"
  defines "c \<equiv> \<lparr>hte_key = key, hte_data = d\<rparr> # ht_elem_vector t ! nat (hash_table_get_index t key)"
  shows "represents (put_chain (hash_table_get_index t key) c t\<lparr>ht_count := ht_count t + 1\<rparr>) (M(norm t key \<mapsto> d))"
proof (rule represents_count)
  let ?e = "\<lparr>hte_key = key, hte_data = d\<rparr>"
  let ?t = "put_chain (hash_table_get_index t key) c t"
  have "elem_key t x \<noteq> norm t key" if "x \<in> elems t" for x
  proof
    assume "elem_key t x = norm t key"
    with rep(2) that have "M (norm t key) = Some (hte_data x)" unfolding maps_def by blast
    with new show False by simp
  qed
  then have k: "elem_key t ?e \<notin> elem_key t ` elems t" by (metis hash_table_elem_t.select_convs(1) imageE)
  have "push_elem ?e t = Inr ?t" by (simp add: push_elem_def Let_def c_def chain_at_ok(1) [OF rep(1) key])
  moreover have "ascii (hte_key ?e)" using key by simp
  note push_elem_ok [OF rep(1) this k]
  ultimately obtain v where v: "?t = t\<lparr>ht_elem_vector := v\<rparr>" "table_inv (t\<lparr>ht_elem_vector := v\<rparr>)"
    "set (concat v) = insert ?e (elems t)" by (metis sum.inject(2))
  then have t: "table_inv ?t" "elems ?t = insert ?e (elems t)" unfolding v(1) using v(2,3) by (simp_all del: set_concat)
  have f: "ht_size ?t = ht_size t" "ht_case_sensitive ?t = ht_case_sensitive t" by (simp_all add: put_chain_def)
  show "table_inv ?t" by (rule t(1))
  show "maps (elem_key ?t) (elems ?t) (M(norm t key \<mapsto> d))"
    using maps_insert [OF rep(2), of ?e] new unfolding t(2) f by simp
  show "finite (dom (M(norm t key \<mapsto> d)))" using rep(3) by simp
  have "norm t key \<notin> dom M" using new by auto
  then show "ht_count t + 1 = card (dom (M(norm t key \<mapsto> d)))" using rep(3,4) by simp
  show "ht_count t + 1 < ht_size ?t" using count f by simp
qed

lemma hash_insert_ok:
  assumes rep: "represents t M" and key: "ascii key" and room: "card (dom M) < 2 ^ 23"
  shows "\<exists>t'. ht_case_sensitive t' = ht_case_sensitive t \<and>
    hash_table_insert t key data = Inr (t', if data \<noteq> None \<and> M (norm t key) = None then 1 else 0) \<and>
    represents t' (if data \<noteq> None \<and> M (norm t key) = None then M(norm t key := data) else M)"
proof (cases data)
  case None
  then show ?thesis using rep by (intro exI [of _ "t\<lparr>ht_find_op := False\<rparr>"]) (simp add: hash_table_insert_def)
next
  case (Some d)
  let ?t = "t\<lparr>ht_find_op := False\<rparr>"
  have rep': "represents ?t M" using rep by simp
  then have inv: "table_inv ?t" by (simp add: represents_def)
  have "\<exists>u. (if ht_count ?t \<ge> ht_size ?t div 2 then hash_table_grow ?t else Inr ?t) = Inr u \<and> table_inv u \<and>
    maps (elem_key u) (elems u) M \<and> finite (dom M) \<and> ht_count u = card (dom M) \<and> Suc (ht_count u) < ht_size u \<and>
    ht_case_sensitive u = ht_case_sensitive t"
  proof (cases "ht_count ?t \<ge> ht_size ?t div 2")
    case True
    have "ht_size ?t \<le> 2 * (ht_size ?t div 2) + 1" by simp
    also have "\<dots> \<le> 2 * ht_count ?t + 1" using True by simp
    finally have "ht_size ?t * 2 \<le> 2 ^ 25" using rep' room by (simp add: represents_def)
    from hash_grow_ok [OF inv this] obtain u where "hash_table_grow ?t = Inr u" "table_inv u" "elems u = elems ?t"
      "ht_size u = 2 * ht_size ?t" "ht_case_sensitive u = ht_case_sensitive ?t" "ht_count u = ht_count ?t" by blast
    with True rep' show ?thesis by (simp add: represents_def del: set_concat)
  next
    case False
    with rep' show ?thesis by (auto simp: represents_def simp del: set_concat)
  qed
  then obtain u where u: "(if ht_count ?t \<ge> ht_size ?t div 2 then hash_table_grow ?t else Inr ?t) = Inr u"
    "table_inv u" "maps (elem_key u) (elems u) M" "finite (dom M)" "ht_count u = card (dom M)"
    "Suc (ht_count u) < ht_size u" and b: "ht_case_sensitive u = ht_case_sensitive t" by blast
  then have ru: "represents u M" by (simp add: represents_def)
  from hash_find_ok [OF ru key] obtain r where
    r: "hash_table_find u key = Inr (hash_table_get_index u key, r)" "map_option hte_data r = M (norm u key)" by blast
  show ?thesis
  proof (cases "M (norm u key)")
    case None
    with r have "hash_table_find u key = Inr (hash_table_get_index u key, None)" by simp
    with None u insert_new_ok [OF u(2-6) key None, of d] chain_at_ok(1) [OF u(2) key] b show ?thesis
      by (simp add: hash_table_insert_def Some put_chain_def)
  next
    case S: (Some d')
    with r obtain e where "hash_table_find u key = Inr (hash_table_get_index u key, Some e)" by auto
    with S u ru b show ?thesis by (simp add: hash_table_insert_def Some)
  qed
qed

text \<open>Storing a chain \<open>c'\<close> that differs in the element found only.\<close>

lemma put_found:
  assumes rep: "represents t M" and key: "ascii key"
    and found: "find (\<lambda>e. elem_key t e = norm t key) (ht_elem_vector t ! nat (hash_table_get_index t key)) = Some e"
    and c': "distinct (map (elem_key t) c')" "set c' = X \<union> (set (ht_elem_vector t ! nat (hash_table_get_index t key)) - {e})"
    and X: "\<forall>x \<in> X. hte_key x = hte_key e"
  defines "u \<equiv> put_chain (hash_table_get_index t key) c' t"
  shows "table_inv u" "elems u = X \<union> (elems t - {e})"
    "ht_count u = ht_count t" "ht_size u = ht_size t" "ht_case_sensitive u = ht_case_sensitive t"
proof -
  have inv: "table_inv t" using rep by (simp add: represents_def)
  have s: "size_ok t" using inv by (simp add: table_inv_def)
  note r = index_range [OF key s] and C = chain_at_ok [OF inv key] and H = bucket_hit [OF rep key found]
  have i: "hash_table_get_index t (hte_key e) = hash_table_get_index t key" by (rule index_norm [OF H(2)])
  have c: "chain_ok t (nat (hash_table_get_index t key)) c'"
    using C(2,3) c' X H(1) i r(1) elems_ascii [OF inv H(1)] by (auto simp: chain_ok_def simp del: set_concat)
  show "table_inv u" unfolding u_def by (rule put_chain_inv(1) [OF inv r c])
  show "elems u = X \<union> (elems t - {e})"
    unfolding u_def put_chain_inv(2) [OF inv r c] c'(2) C(3) using i by (auto simp del: set_concat)
qed (simp_all add: u_def put_chain_def)

lemma key_eq_sym: "key_eq t a b = (norm t a = norm t b)"
  by (auto simp: key_eq_norm)

lemma hash_set_ok:
  assumes rep: "represents t M" and key: "ascii key"
  shows "\<exists>t'. ht_case_sensitive t' = ht_case_sensitive t \<and>
    hash_table_set t key data = Inr (t', if data \<noteq> None \<and> M (norm t key) \<noteq> None then 1 else 0) \<and>
    represents t' (if data \<noteq> None \<and> M (norm t key) \<noteq> None then M(norm t key := data) else M)"
proof (cases data)
  case None
  then show ?thesis using rep by (intro exI [of _ t]) (simp add: hash_table_set_def)
next
  case (Some d)
  have inv: "table_inv t" and m: "maps (elem_key t) (elems t) M" using rep by (simp_all add: represents_def)
  let ?c = "ht_elem_vector t ! nat (hash_table_get_index t key)" and ?P = "\<lambda>e. elem_key t e = norm t key"
  note C = chain_at_ok [OF inv key]
  have f: "hash_table_find t key = Inr (hash_table_get_index t key, find ?P ?c)"
    by (simp add: hash_table_find_def Let_def C(1) key_eq_norm)
  show ?thesis
  proof (cases "find ?P ?c")
    case None
    then have "M (norm t key) = None" using hash_find_ok [OF rep key] f by auto
    with None f rep show ?thesis by (simp add: hash_table_set_def Some)
  next
    case S: (Some e)
    note H = bucket_hit [OF rep key S]
    let ?f = "\<lambda>e. e\<lparr>hte_data := d\<rparr>"
    let ?t = "put_chain (hash_table_get_index t key) (update_first ?P ?f ?c) t"
    have dist: "distinct (map (elem_key t) ?c)" using C(2) by (simp add: chain_ok_def)
    have *: "distinct (map (elem_key t) (update_first ?P ?f ?c))" "set (update_first ?P ?f ?c) = {?f e} \<union> (set ?c - {e})"
      using dist set_update_first_found [OF dist S, of ?f] by simp_all
    have X: "\<forall>x \<in> {?f e}. hte_key x = hte_key e" by simp
    note P = put_found [OF rep key S * X]
    have "maps (elem_key t) (insert (?f e) (elems t - {e})) (M(elem_key t e \<mapsto> hte_data (?f e)))"
      by (rule maps_replace [OF m H(1,4)]) simp
    then have "represents ?t (M(norm t key \<mapsto> d))"
      using rep P H(2,3) by (simp add: represents_def insert_absorb domI del: set_concat)
    with S f H(3) C(1) P(5) show ?thesis by (simp add: hash_table_set_def Some key_eq_norm)
  qed
qed

lemma hash_remove_ok:
  assumes rep: "represents t M" and key: "ascii key"
  shows "\<exists>t'. ht_case_sensitive t' = ht_case_sensitive t \<and>
    hash_table_remove t key = Inr (t', M (norm t key)) \<and> represents t' (M(norm t key := None))"
proof -
  let ?u = "t\<lparr>ht_find_op := False\<rparr>"
  have rep': "represents ?u M" using rep by simp
  have inv: "table_inv ?u" and m: "maps (elem_key ?u) (elems ?u) M" and fin: "finite (dom M)"
    and cnt: "ht_count ?u = card (dom M)" "ht_count ?u < ht_size ?u"
    using rep' by (auto simp: represents_def simp del: set_concat)
  let ?i = "hash_table_get_index ?u key"
  let ?c = "ht_elem_vector ?u ! nat ?i" and ?P = "\<lambda>e. elem_key ?u e = norm ?u key"
  note C = chain_at_ok [OF inv key]
  have k: "key_eq ?u (hte_key e) key \<longleftrightarrow> ?P e" for e by (rule key_eq_sym)
  show ?thesis
  proof (cases "find ?P ?c")
    case None
    then have "M (norm t key) = None" using hash_find_ok [OF rep' key] by (auto simp: hash_table_find_def Let_def C(1) key_eq_norm)
    moreover then have "M(norm t key := None) = M" by auto
    moreover have "hash_table_remove t key = Inr (?u, None)"
      unfolding hash_table_remove_def Let_def C(1) k res_bind_simps None by simp
    ultimately show ?thesis using rep' by (intro exI [of _ ?u]) simp
  next
    case S: (Some e)
    note H = bucket_hit [OF rep' key S]
    let ?t = "put_chain ?i (remove_first ?P ?c) ?u"
    have dist: "distinct (map (elem_key ?u) ?c)" using C(2) by (simp add: chain_ok_def)
    have *: "distinct (map (elem_key ?u) (remove_first ?P ?c))" "set (remove_first ?P ?c) = {} \<union> (set ?c - {e})"
      using distinct_map_remove_first [OF dist] set_remove_first_eq [OF dist S] by simp_all
    have X: "\<forall>x \<in> {}. hte_key x = hte_key e" by simp
    note P = put_found [OF rep' key S * X]
    have d: "norm ?u key \<in> dom M" using H(3) by auto
    then have pos: "0 < card (dom M)" using fin card_gt_0_iff by blast
    have mm: "maps (elem_key ?t) (elems ?t) (M(norm ?u key := None))"
      using maps_delete [OF m H(1,4)] unfolding P(2,5) H(2) by simp
    have "represents (?t\<lparr>ht_count := ht_count ?u - 1\<rparr>) (M(norm ?u key := None))"
      by (rule represents_count [OF P(1) mm]) (use fin cnt P d in simp_all)
    moreover have "hash_table_remove t key = Inr (?t\<lparr>ht_count := ht_count ?u - 1\<rparr>, Some (hte_data e))"
      unfolding hash_table_remove_def Let_def C(1) k res_bind_simps S using P(3) pos cnt by simp
    ultimately show ?thesis using H(3) P(5) by (intro exI [of _ "?t\<lparr>ht_count := ht_count ?u - 1\<rparr>"]) simp
  qed
qed

section \<open>Refinement of a map\<close>

text \<open>
  Calls to the table and what they answer, and the same calls on a map of folded keys. The status
  that \<open>hash_table_insert\<close> and \<open>hash_table_set\<close> return is not part of the refinement: the header and
  the code disagree on it (\<open>status_is_inverted\<close> below), so what is compared is the effect
  of the two calls, which every later answer shows.
\<close>

datatype 'd ht_call =
    HT_insert string "'d option" | HT_set string "'d option" | HT_get string | HT_remove string
  | HT_clear | HT_count

datatype 'd ht_ret = HT_int int | HT_data "'d option" | HT_void

fun call_table :: "'d ht_call \<Rightarrow> 'd hash_table_t \<Rightarrow> ('d hash_table_t \<times> 'd ht_ret) res" where
  "call_table (HT_insert key data) t = res_bind (hash_table_insert t key data) (\<lambda>(t, r). Inr (t, HT_void))"
| "call_table (HT_set key data) t = res_bind (hash_table_set t key data) (\<lambda>(t, r). Inr (t, HT_void))"
| "call_table (HT_get key) t = res_bind (hash_table_get t key) (\<lambda>d. Inr (t, HT_data d))"
| "call_table (HT_remove key) t = res_bind (hash_table_remove t key) (\<lambda>(t, d). Inr (t, HT_data d))"
| "call_table HT_clear t = Inr (hash_table_clear t, HT_void)"
| "call_table HT_count t = Inr (t, HT_int (hash_table_count t))"

fun calls_table :: "'d ht_call list \<Rightarrow> 'd hash_table_t \<Rightarrow> ('d hash_table_t \<times> 'd ht_ret list) res" where
  "calls_table [] t = Inr (t, [])"
| "calls_table (c # cs) t =
     res_bind (call_table c t) (\<lambda>(t, r). res_bind (calls_table cs t) (\<lambda>(t, rs). Inr (t, r # rs)))"

fun call_map :: "bool \<Rightarrow> 'd ht_call \<Rightarrow> (string \<rightharpoonup> 'd) \<Rightarrow> (string \<rightharpoonup> 'd) \<times> 'd ht_ret" where
  "call_map b (HT_insert key data) M =
     (if data \<noteq> None \<and> M (fold_key b key) = None then M(fold_key b key := data) else M, HT_void)"
| "call_map b (HT_set key data) M =
     (if data \<noteq> None \<and> M (fold_key b key) \<noteq> None then M(fold_key b key := data) else M, HT_void)"
| "call_map b (HT_get key) M = (M, HT_data (M (fold_key b key)))"
| "call_map b (HT_remove key) M = (M(fold_key b key := None), HT_data (M (fold_key b key)))"
| "call_map b HT_clear M = (Map.empty, HT_void)"
| "call_map b HT_count M = (M, HT_int (int (card (dom M))))"

fun calls_map :: "bool \<Rightarrow> 'd ht_call list \<Rightarrow> (string \<rightharpoonup> 'd) \<Rightarrow> (string \<rightharpoonup> 'd) \<times> 'd ht_ret list" where
  "calls_map b [] M = (M, [])"
| "calls_map b (c # cs) M =
     (let (M, r) = call_map b c M; (M, rs) = calls_map b cs M in (M, r # rs))"

fun call_keys :: "'d ht_call \<Rightarrow> string list" where
  "call_keys (HT_insert key data) = [key]"
| "call_keys (HT_set key data) = [key]"
| "call_keys (HT_get key) = [key]"
| "call_keys (HT_remove key) = [key]"
| "call_keys HT_clear = []"
| "call_keys HT_count = []"

lemma clear_case [simp]: "ht_case_sensitive (hash_table_clear t) = ht_case_sensitive t"
  by (simp add: hash_table_clear_def)

lemma call_ok:
  assumes "represents t M" "list_all ascii (call_keys c)" "card (dom M) < 2 ^ 23"
  shows "\<exists>t'. call_table c t = Inr (t', snd (call_map (ht_case_sensitive t) c M)) \<and>
    represents t' (fst (call_map (ht_case_sensitive t) c M)) \<and> ht_case_sensitive t' = ht_case_sensitive t"
proof (cases c)
  case (HT_insert key data)
  with hash_insert_ok [OF assms(1), of key data] assms(2,3) show ?thesis by auto
next
  case (HT_set key data)
  with hash_set_ok [OF assms(1), of key data] assms(2) show ?thesis by auto
next
  case (HT_get key)
  with hash_get_ok [OF assms(1), of key] assms show ?thesis by simp
next
  case (HT_remove key)
  with hash_remove_ok [OF assms(1), of key] assms(2) show ?thesis by auto
next
  case HT_clear
  with represents_clear [OF assms(1)] show ?thesis by simp
next
  case HT_count
  with assms(1) show ?thesis by (simp add: represents_def hash_table_count_def)
qed

lemma push_case: "push_elem e t = Inr t' \<Longrightarrow> ht_case_sensitive t' = ht_case_sensitive t"
  by (auto simp: push_elem_def put_chain_def Let_def res_bind_eq_Inr)

lemma push_elems_case: "res_fold push_elem xs t = Inr t' \<Longrightarrow> ht_case_sensitive t' = ht_case_sensitive t"
  by (induction xs arbitrary: t) (auto simp: res_bind_eq_Inr dest: push_case)

lemma grow_case: "hash_table_grow t = Inr t' \<Longrightarrow> ht_case_sensitive t' = ht_case_sensitive t"
  by (auto simp: hash_table_grow_def split: if_splits dest: push_elems_case)

lemma insert_case: "hash_table_insert t key data = Inr (t', r) \<Longrightarrow> ht_case_sensitive t' = ht_case_sensitive t"
  by (auto simp: hash_table_insert_def put_chain_def Let_def res_bind_eq_Inr split: option.splits if_splits
      dest!: grow_case)

lemma set_case: "hash_table_set t key data = Inr (t', r) \<Longrightarrow> ht_case_sensitive t' = ht_case_sensitive t"
  by (auto simp: hash_table_set_def put_chain_def Let_def res_bind_eq_Inr split: option.splits if_splits)

lemma remove_case: "hash_table_remove t key = Inr (t', r) \<Longrightarrow> ht_case_sensitive t' = ht_case_sensitive t"
  by (auto simp: hash_table_remove_def put_chain_def Let_def res_bind_eq_Inr split: option.splits if_splits)

lemma calls_case: "calls_table cs t = Inr (t', rs) \<Longrightarrow> ht_case_sensitive t' = ht_case_sensitive t"
proof (induction cs arbitrary: t rs)
  case (Cons c cs)
  then show ?case
    by (cases c) (fastforce simp: res_bind_eq_Inr dest: insert_case set_case remove_case)+
qed simp

lemma dom_call: "finite (dom M) \<Longrightarrow> card (dom (fst (call_map b c M))) \<le> Suc (card (dom M))"
  by (cases c) (auto simp: card_insert_if card_Diff_singleton_if dom_def [symmetric] dom_fun_upd)

lemma calls_ok:
  "represents t M \<Longrightarrow> list_all (\<lambda>c. list_all ascii (call_keys c)) cs \<Longrightarrow> card (dom M) + length cs \<le> 2 ^ 23 \<Longrightarrow>
   \<exists>t'. calls_table cs t = Inr (t', snd (calls_map (ht_case_sensitive t) cs M)) \<and>
     represents t' (fst (calls_map (ht_case_sensitive t) cs M))"
proof (induction cs arbitrary: t M)
  case (Cons c cs)
  let ?M = "fst (call_map (ht_case_sensitive t) c M)"
  from call_ok [OF Cons.prems(1), of c] Cons.prems(2,3) obtain t' where
    t: "call_table c t = Inr (t', snd (call_map (ht_case_sensitive t) c M))"
    "represents t' (fst (call_map (ht_case_sensitive t) c M))" "ht_case_sensitive t' = ht_case_sensitive t" by auto
  have "card (dom ?M) \<le> Suc (card (dom M))" using Cons.prems(1) by (intro dom_call) (simp add: represents_def)
  with Cons.prems(3) have "card (dom ?M) + length cs \<le> 2 ^ 23" by simp
  with Cons.IH [OF t(2)] Cons.prems(2) t(3) show ?case by (auto simp: t(1) Let_def split: prod.splits)
qed simp

section \<open>Enumeration\<close>

text \<open>What is left to visit after position \<open>k\<close> of chain \<open>c\<close>.\<close>

definition pairs :: "'d hash_table_elem_t list \<Rightarrow> (string \<times> 'd) list" where
  "pairs c = map (\<lambda>e. (hte_key e, hte_data e)) c"

definition rest :: "'d hash_table_t \<Rightarrow> nat \<Rightarrow> nat \<Rightarrow> (string \<times> 'd) list" where
  "rest t c k = pairs (drop (Suc k) (ht_elem_vector t ! c)) @ pairs (concat (drop (Suc c) (ht_elem_vector t)))"

lemma next_chain_cases:
  assumes "length (ht_elem_vector t) = ht_size t"
  obtains (none) "next_chain t i = None" "pairs (concat (drop i (ht_elem_vector t))) = []"
  | (some) j where "next_chain t i = Some j" "j < ht_size t" "ht_elem_vector t ! j \<noteq> []"
      "pairs (concat (drop i (ht_elem_vector t))) = elem_at t j 0 # rest t j 0"
proof (cases "next_chain t i")
  case None
  then have "\<forall>c \<in> set (drop i (ht_elem_vector t)). c = []"
    unfolding next_chain_def find_None_set using assms by (auto simp: in_set_conv_nth)
  with None show thesis by (intro none) (simp_all add: pairs_def concat_eq_Nil_conv)
next
  case (Some j)
  then obtain m where m: "m < length [i..<ht_size t]" "j = [i..<ht_size t] ! m" "ht_elem_vector t ! j \<noteq> []"
    "\<forall>l < m. ht_elem_vector t ! ([i..<ht_size t] ! l) = []"
    by (auto simp: next_chain_def find_Some_iff)
  then have j: "j = i + m" "j < ht_size t" by simp_all
  have "drop i (ht_elem_vector t) = take m (drop i (ht_elem_vector t)) @ drop j (ht_elem_vector t)"
    using j(1) by (metis append_take_drop_id drop_drop add.commute)
  moreover have "\<forall>c \<in> set (take m (drop i (ht_elem_vector t))). c = []"
    using m(1,4) assms by (auto simp: in_set_conv_nth)
  then have "concat (take m (drop i (ht_elem_vector t))) = []" by (simp only: concat_eq_Nil_conv)
  moreover have "drop j (ht_elem_vector t) = ht_elem_vector t ! j # drop (Suc j) (ht_elem_vector t)"
    using j(2) assms by (simp add: Cons_nth_drop_Suc)
  ultimately have "concat (drop i (ht_elem_vector t)) = ht_elem_vector t ! j @ concat (drop (Suc j) (ht_elem_vector t))"
    by (metis append_Nil concat.simps(2) concat_append)
  moreover have "ht_elem_vector t ! j = ht_elem_vector t ! j ! 0 # drop (Suc 0) (ht_elem_vector t ! j)"
    using m(3) by (cases "ht_elem_vector t ! j") simp_all
  then have "pairs (ht_elem_vector t ! j) = elem_at t j 0 # pairs (drop (Suc 0) (ht_elem_vector t ! j))"
    by (metis (no_types, lifting) elem_at_def list.simps(9) pairs_def)
  ultimately have "pairs (concat (drop i (ht_elem_vector t))) = elem_at t j 0 # rest t j 0"
    by (simp add: rest_def pairs_def)
  with Some j(2) m(3) show thesis by (rule some)
qed

lemma find_fields [simp]:
  "next_chain (t\<lparr>ht_find_op := b\<rparr>) = next_chain t" "next_chain (t\<lparr>ht_find_index := i\<rparr>) = next_chain t"
  "next_chain (t\<lparr>ht_find_elem := p\<rparr>) = next_chain t" "elem_at (t\<lparr>ht_find_op := b\<rparr>) = elem_at t"
  "elem_at (t\<lparr>ht_find_index := i\<rparr>) = elem_at t" "elem_at (t\<lparr>ht_find_elem := p\<rparr>) = elem_at t"
  by (simp_all add: next_chain_def elem_at_def fun_eq_iff)

lemma find_next_ok:
  assumes l: "length (ht_elem_vector t) = ht_size t" and c: "c < ht_size t"
  shows "case rest t c k of
      [] \<Rightarrow> hash_table_find_next (t\<lparr>ht_find_op := True, ht_find_index := c, ht_find_elem := Some (c, k)\<rparr>) =
              Inr (t\<lparr>ht_find_op := True, ht_find_index := 0, ht_find_elem := None\<rparr>, None)
    | y # ys \<Rightarrow> \<exists>c' k'. c' < ht_size t \<and> rest t c' k' = ys \<and>
        hash_table_find_next (t\<lparr>ht_find_op := True, ht_find_index := c, ht_find_elem := Some (c, k)\<rparr>) =
          Inr (t\<lparr>ht_find_op := True, ht_find_index := c', ht_find_elem := Some (c', k')\<rparr>, Some y)"
proof (cases "Suc k < length (ht_elem_vector t ! c)")
  case True
  then have "rest t c k = elem_at t c (Suc k) # rest t c (Suc k)"
    by (simp add: rest_def pairs_def elem_at_def Let_def Cons_nth_drop_Suc [symmetric])
  moreover have "hash_table_find_next (t\<lparr>ht_find_op := True, ht_find_index := c, ht_find_elem := Some (c, k)\<rparr>) =
      Inr (t\<lparr>ht_find_op := True, ht_find_index := c, ht_find_elem := Some (c, Suc k)\<rparr>, Some (elem_at t c (Suc k)))"
    using True by (simp add: hash_table_find_next_def elem_at_def)
  ultimately show ?thesis using c by auto
next
  case False
  then have r: "rest t c k = pairs (concat (drop (Suc c) (ht_elem_vector t)))"
    by (simp add: rest_def pairs_def)
  show ?thesis
    by (rule next_chain_cases [OF l, of "Suc c"]) (use False in \<open>auto simp: r hash_table_find_next_def Let_def\<close>)
qed

lemma for_each_ok:
  assumes "length (ht_elem_vector t) = ht_size t" "c < ht_size t"
  shows "for_each_next (t\<lparr>ht_find_op := True, ht_find_index := c, ht_find_elem := Some (c, k)\<rparr>, Some x) =
    Some (Inr (t\<lparr>ht_find_op := True, ht_find_index := 0, ht_find_elem := None\<rparr>, x # rest t c k))"
  using assms(2)
proof (induction "rest t c k" arbitrary: c k x)
  case Nil
  with find_next_ok [OF assms(1) Nil.prems, of k] show ?case
    by (simp add: for_each_next.simps [of "(s, Some x)" for s] for_each_next.simps [of "(s, None)" for s])
next
  case (Cons y ys)
  from Cons.hyps(2) [symmetric] find_next_ok [OF assms(1) Cons.prems, of k] obtain c' k' where
    n: "c' < ht_size t" "rest t c' k' = ys"
    "hash_table_find_next (t\<lparr>ht_find_op := True, ht_find_index := c, ht_find_elem := Some (c, k)\<rparr>) =
       Inr (t\<lparr>ht_find_op := True, ht_find_index := c', ht_find_elem := Some (c', k')\<rparr>, Some y)" by auto
  from Cons.hyps(1) [OF n(2) [symmetric] n(1), of y] n(2,3) Cons.hyps(2) show ?case
    by (subst for_each_next.simps) simp
qed

lemma maps_empty: "maps key E Map.empty \<Longrightarrow> E = {}" "maps key {} M \<Longrightarrow> M = Map.empty"
proof -
  show "E = {}" if "maps key E Map.empty"
  proof (rule ccontr)
    assume "E \<noteq> {}"
    then obtain e where "e \<in> E" by blast
    with that show False by (auto simp: maps_def)
  qed
  show "M = Map.empty" if "maps key {} M"
  proof
    fix k
    show "M k = None" using that by (cases "M k") (simp_all add: maps_def)
  qed
qed

lemma FOR_EACH_ok:
  assumes rep: "represents t M"
  shows "\<exists>t'. HASH_TABLE_FOR_EACH t = Some (Inr (t', pairs (concat (ht_elem_vector t))))"
proof -
  have inv: "table_inv t" and l: "length (ht_elem_vector t) = ht_size t" using rep by (simp_all add: represents_def table_inv_def)
  let ?t = "t\<lparr>ht_find_op := True, ht_find_index := 0, ht_find_elem := None\<rparr>"
  have n: "next_chain ?t 0 = next_chain t 0" by (simp add: next_chain_def)
  show ?thesis
  proof (cases "ht_count t = 0")
    case True
    then have "dom M = {}" using rep by (metis card_0_eq represents_def)
    then have "elems t = {}" using rep maps_empty(1) [of "elem_key t" "elems t"] by (simp only: represents_def dom_eq_empty_conv)
    then have "concat (ht_elem_vector t) = []" by (simp only: set_empty)
    with True show ?thesis
      by (simp add: HASH_TABLE_FOR_EACH_def hash_table_find_first_def for_each_next.simps pairs_def)
  next
    case False
    show ?thesis
    proof (rule next_chain_cases [OF l, of 0])
      assume "next_chain t 0 = None" "pairs (concat (drop 0 (ht_elem_vector t))) = []"
      then have "concat (ht_elem_vector t) = []" by (simp only: pairs_def drop_0 map_is_Nil_conv)
      then have "elems t = {}" by (simp only: list.set)
      then have "M = Map.empty" using rep maps_empty(2) [of "elem_key t" M] by (simp only: represents_def)
      with False rep show ?thesis by (simp add: represents_def)
    next
      fix j
      assume j: "next_chain t 0 = Some j" "j < ht_size t"
        "pairs (concat (drop 0 (ht_elem_vector t))) = elem_at t j 0 # rest t j 0"
      have "hash_table_find_first t =
          Inr (t\<lparr>ht_find_op := True, ht_find_index := j, ht_find_elem := Some (j, 0)\<rparr>, Some (elem_at t j 0))"
        using False j(1) n by (simp add: hash_table_find_first_def elem_at_def)
      then show ?thesis using for_each_ok [OF l j(2)] j(3) by (simp add: HASH_TABLE_FOR_EACH_def)
    qed
  qed
qed

lemma enumeration_map:
  assumes rep: "represents t M"
  defines "xs \<equiv> map (map_prod (norm t) (\<lambda>d. d)) (pairs (concat (ht_elem_vector t)))"
  shows "distinct (map fst xs)" "map_of xs = M"
proof -
  have inv: "table_inv t" and m: "maps (elem_key t) (elems t) M" using rep by (simp_all add: represents_def)
  have xs: "xs = map (\<lambda>e. (elem_key t e, hte_data e)) (concat (ht_elem_vector t))" by (simp add: xs_def pairs_def)
  show d: "distinct (map fst xs)" using distinct_keys [OF inv] by (simp add: xs comp_def del: map_concat)
  have "map_of xs k = Some d \<longleftrightarrow> M k = Some d" for k d
  proof -
    have "map_of xs k = Some d \<longleftrightarrow> (k, d) \<in> set xs" using d by (rule map_of_eq_Some_iff)
    also have "\<dots> \<longleftrightarrow> (\<exists>e \<in> elems t. elem_key t e = k \<and> hte_data e = d)" unfolding xs set_map by blast
    also have "\<dots> \<longleftrightarrow> M k = Some d" using m by (simp only: maps_def)
    finally show ?thesis .
  qed
  then show "map_of xs = M" by (metis (no_types) not_None_eq ext)
qed

text \<open>
  \<open>hash-table.h\<close> documents 0 as the status of a success and non-0 as that of a failure; the code
  returns 1 when it inserts and 0 when it does not.
\<close>

lemma status_is_inverted:
  assumes "represents t M" "ascii key" "card (dom M) < 2 ^ 23"
  shows "M (norm t key) = None \<Longrightarrow> \<exists>t'. hash_table_insert t key (Some d) = Inr (t', 1)"
    "M (norm t key) \<noteq> None \<Longrightarrow> \<exists>t'. hash_table_insert t key (Some d) = Inr (t', 0)"
    "\<exists>t'. hash_table_insert t key None = Inr (t', 0)"
  using hash_insert_ok [OF assms, of "Some d"] hash_insert_ok [OF assms, of None] by auto

section \<open>The properties of the table\<close>

lemma create_case: "ht_case_sensitive (hash_table_create n b) = b"
  by (simp add: hash_table_create_def Let_def)

text \<open>C9: Refinement. A table just created, whatever its initial size up to 2^25, answers any sequence of up to
  2^23 insertions, updates, lookups, removals, clears and counts, with keys of 7-bit characters, as a finite
  map from keys does, folding the case of keys when the table is not case-sensitive. An insertion binds the
  key when it is absent and the data is not \<open>NULL\<close>, an update when it is present, and otherwise they change
  nothing; lookups and removals answer the data bound to the key, counts the number of keys bound. No assertion
  fails and no access is out of bounds, however often the table grows. The status that insertions and updates
  return is left out of the comparison.\<close>

theorem hash_table_refines_map:
  assumes "sz \<le> 2 ^ 25" "length cs \<le> 2 ^ 23" "list_all (\<lambda>c. list_all ascii (call_keys c)) cs"
  shows "\<exists>t. calls_table cs (hash_table_create sz case_sensitive) =
    Inr (t, snd (calls_map case_sensitive cs Map.empty))"
  using calls_ok [OF represents_create [OF assms(1)] assms(3), of case_sensitive] assms(2)
  by (auto simp: create_case)

lemma hash_table_refines_map_witness:
  "\<exists>t. calls_table [HT_insert ''Core'' (Some 1), HT_insert ''L1'' (Some 2), HT_insert ''L2'' (Some 3),
      HT_insert ''l2'' (Some 4), HT_get ''CORE'', HT_set ''l1'' (Some 5), HT_get ''L1'', HT_remove ''core'',
      HT_get ''Core'', HT_insert ''mem'' None, HT_count] (hash_table_create 0 False) =
    Inr (t, [HT_void, HT_void, HT_void, HT_void, HT_data (Some (1 :: nat)), HT_void, HT_data (Some 5),
      HT_data (Some 1), HT_data None, HT_void, HT_int 2])"
proof -
  let ?cs = "[HT_insert ''Core'' (Some 1), HT_insert ''L1'' (Some 2), HT_insert ''L2'' (Some 3),
      HT_insert ''l2'' (Some 4), HT_get ''CORE'', HT_set ''l1'' (Some 5), HT_get ''L1'', HT_remove ''core'',
      HT_get ''Core'', HT_insert ''mem'' None, HT_count] :: nat ht_call list"
  have keys: "fold_key False ''Core'' = ''core''" "fold_key False ''CORE'' = ''core''" "fold_key False ''core'' = ''core''"
    "fold_key False ''L1'' = ''l1''" "fold_key False ''l1'' = ''l1''" "fold_key False ''L2'' = ''l2''"
    "fold_key False ''l2'' = ''l2''" "fold_key False ''mem'' = ''mem''" by code_simp+
  have "snd (calls_map False ?cs Map.empty) = [HT_void, HT_void, HT_void, HT_void, HT_data (Some 1), HT_void,
      HT_data (Some 5), HT_data (Some 1), HT_data None, HT_void, HT_int 2]" by (simp add: keys)
  moreover have "list_all (\<lambda>c. list_all ascii (call_keys c)) ?cs" by (simp add: ascii_def)
  then have "\<exists>t. calls_table ?cs (hash_table_create 0 False) = Inr (t, snd (calls_map False ?cs Map.empty))"
    by (intro hash_table_refines_map) simp_all
  ultimately show ?thesis by (simp only:)
qed

text \<open>C39: \<open>HASH_TABLE_FOR_EACH\<close> over a table that such a sequence of calls gives returns, and visits every
  association of the map exactly once: the keys it visits are distinct (up to case when the table is not
  case-sensitive), and they and their data are the map.\<close>

theorem hash_table_enumerates:
  assumes "sz \<le> 2 ^ 25" "length cs \<le> 2 ^ 23" "list_all (\<lambda>c. list_all ascii (call_keys c)) cs"
  shows "\<exists>t rs t' xs. calls_table cs (hash_table_create sz case_sensitive) = Inr (t, rs) \<and>
    HASH_TABLE_FOR_EACH t = Some (Inr (t', xs)) \<and>
    distinct (map (\<lambda>x. fold_key case_sensitive (fst x)) xs) \<and>
    map_of (map (map_prod (fold_key case_sensitive) (\<lambda>d. d)) xs) = fst (calls_map case_sensitive cs Map.empty)"
proof -
  have "card (dom (Map.empty :: string \<rightharpoonup> 'a)) + length cs \<le> 2 ^ 23" using assms(2) by simp
  from calls_ok [OF represents_create [OF assms(1)] assms(3) this, of case_sensitive] obtain t where
    t: "calls_table cs (hash_table_create sz case_sensitive) = Inr (t, snd (calls_map case_sensitive cs Map.empty))"
    "represents t (fst (calls_map case_sensitive cs Map.empty))" by (auto simp: create_case)
  have b: "ht_case_sensitive t = case_sensitive" using calls_case [OF t(1)] by (simp add: create_case)
  from FOR_EACH_ok [OF t(2)] enumeration_map [OF t(2)] t(1) show ?thesis unfolding b
    by (fastforce simp: comp_def)
qed

lemma hash_table_enumerates_witness:
  "\<exists>t rs t' xs. calls_table [HT_insert ''a'' (Some 1), HT_insert ''b'' (Some 2), HT_insert ''A'' (Some 3), HT_remove ''a'']
      (hash_table_create 1 True) = Inr (t, rs) \<and>
    HASH_TABLE_FOR_EACH t = Some (Inr (t', xs)) \<and> distinct (map fst xs) \<and>
    map_of xs = [''b'' \<mapsto> 2 :: nat, ''A'' \<mapsto> 3]"
  using hash_table_enumerates [of 1 "[HT_insert ''a'' (Some (1 :: nat)), HT_insert ''b'' (Some 2),
    HT_insert ''A'' (Some 3), HT_remove ''a'']" True]
  by (simp add: ascii_def fold_key_def map_prod_def case_prod_beta fun_upd_twist)

end
