(* ===== verification/Reg_File.thy ===== *)
theory Reg_File
  imports Prelude
begin

text \<open>
  Physical register files with renaming (\<open>src/arch/x86/timing/reg-file.c\<close>). The state is that of one core: per
  thread a register file of an integer and a floating-point half, which the code writes as two copies of
  the same fields and statements. A half has the register aliasing table (RAT), the physical
  registers and the free list, an array used as a stack. An in-flight instruction keeps the physical
  registers it writes and those they replace. The micro-instruction comes from the emulator, of which only
  the dependences and the operations on the stack of the FPU matter here. Cores do not share registers.
\<close>

section \<open>Dependences\<close>

text \<open>The constants of \<open>enum x86_dep_t\<close> and its ranges; \<open>X86_UINST_MAX_IDEPS\<close> and \<open>X86_UINST_MAX_ODEPS\<close>.\<close>

abbreviation x86_dep_int_first :: nat where "x86_dep_int_first \<equiv> 1"
abbreviation x86_dep_int_last :: nat where "x86_dep_int_last \<equiv> 22"
abbreviation x86_dep_int_count :: nat where "x86_dep_int_count \<equiv> 22"
abbreviation x86_dep_flag_first :: nat where "x86_dep_flag_first \<equiv> 15"
abbreviation x86_dep_flag_last :: nat where "x86_dep_flag_last \<equiv> 18"
abbreviation x86_dep_fp_first :: nat where "x86_dep_fp_first \<equiv> 23"
abbreviation x86_dep_fp_last :: nat where "x86_dep_fp_last \<equiv> 33"
abbreviation x86_dep_fp_count :: nat where "x86_dep_fp_count \<equiv> 11"
abbreviation X86_UINST_MAX_IDEPS :: nat where "X86_UINST_MAX_IDEPS \<equiv> 3"
abbreviation X86_UINST_MAX_ODEPS :: nat where "X86_UINST_MAX_ODEPS \<equiv> 4"

definition X86_DEP_IS_INT_REG :: "nat \<Rightarrow> bool" where
  "X86_DEP_IS_INT_REG dep \<longleftrightarrow> x86_dep_int_first \<le> dep \<and> dep \<le> x86_dep_int_last"

definition X86_DEP_IS_FP_REG :: "nat \<Rightarrow> bool" where
  "X86_DEP_IS_FP_REG dep \<longleftrightarrow> x86_dep_fp_first \<le> dep \<and> dep \<le> x86_dep_fp_last"

definition X86_DEP_IS_FLAG :: "nat \<Rightarrow> bool" where
  "X86_DEP_IS_FLAG dep \<longleftrightarrow> x86_dep_flag_first \<le> dep \<and> dep \<le> x86_dep_flag_last"

text \<open>Renaming distinguishes pushes and pops of the FPU stack; commit and recovery distinguish memory accesses.\<close>

datatype x86_uinst_opcode_t = x86_uinst_fp_push | x86_uinst_fp_pop | x86_uinst_load | x86_uinst_store | x86_uinst_other

record x86_uinst_t =
  ui_opcode :: x86_uinst_opcode_t
  ui_idep :: "nat list"
  ui_odep :: "nat list"

text \<open>The fields of \<open>x86_uop_t\<close> that renaming uses; -1 stands for no register.\<close>

record rf_uop =
  ru_uinst :: x86_uinst_t
  ru_thread :: nat
  ru_specmode :: bool
  ru_completed :: bool
  ru_idep_count :: nat
  ru_odep_count :: nat
  ru_ph_int_idep_count :: nat
  ru_ph_fp_idep_count :: nat
  ru_ph_int_odep_count :: nat
  ru_ph_fp_odep_count :: nat
  ru_ph_idep :: "int list"
  ru_ph_odep :: "int list"
  ru_ph_oodep :: "int list"

abbreviation idep :: "rf_uop \<Rightarrow> nat \<Rightarrow> nat" where "idep u d \<equiv> ui_idep (ru_uinst u) ! d"
abbreviation odep :: "rf_uop \<Rightarrow> nat \<Rightarrow> nat" where "odep u d \<equiv> ui_odep (ru_uinst u) ! d"

section \<open>The state of a core\<close>

record x86_phreg_t =
  pr_pending :: bool
  pr_busy :: nat

record x86_reg_half =
  rat :: "nat list"
  phreg :: "x86_phreg_t list"
  free_phreg :: "nat list"
  free_phreg_count :: nat

record x86_reg_file_t =
  rf_int :: x86_reg_half
  rf_fp :: x86_reg_half
  rf_fp_top_of_stack :: nat

record rf_thread =
  th_reg_file :: x86_reg_file_t
  th_reg_file_int_count :: nat
  th_reg_file_fp_count :: nat
  th_rat_int_reads :: nat
  th_rat_int_writes :: nat
  th_rat_fp_reads :: nat
  th_rat_fp_writes :: nat

record rf_core =
  co_reg_file_int_count :: nat
  co_reg_file_fp_count :: nat
  co_threads :: "rf_thread list"

datatype x86_reg_file_kind_t = x86_reg_file_kind_shared | x86_reg_file_kind_private

record rf_cfg =
  rc_kind :: x86_reg_file_kind_t
  rc_int_local_size :: nat
  rc_fp_local_size :: nat

text \<open>A half together with the counters that go with it.\<close>

datatype reg_class = Int_class | Fp_class

record half =
  hf_regs :: x86_reg_half
  hf_core_count :: nat
  hf_thread_count :: nat

abbreviation thread_of :: "rf_core \<Rightarrow> nat \<Rightarrow> rf_thread" where "thread_of s t \<equiv> co_threads s ! t"

definition upd_thread :: "nat \<Rightarrow> (rf_thread \<Rightarrow> rf_thread) \<Rightarrow> rf_core \<Rightarrow> rf_core" where
  "upd_thread t f s = s\<lparr>co_threads := (co_threads s)[t := f (thread_of s t)]\<rparr>"

fun half_of :: "reg_class \<Rightarrow> nat \<Rightarrow> rf_core \<Rightarrow> half" where
  "half_of Int_class t s =
     \<lparr>hf_regs = rf_int (th_reg_file (thread_of s t)), hf_core_count = co_reg_file_int_count s,
      hf_thread_count = th_reg_file_int_count (thread_of s t)\<rparr>"
| "half_of Fp_class t s =
     \<lparr>hf_regs = rf_fp (th_reg_file (thread_of s t)), hf_core_count = co_reg_file_fp_count s,
      hf_thread_count = th_reg_file_fp_count (thread_of s t)\<rparr>"

fun put_half :: "reg_class \<Rightarrow> nat \<Rightarrow> half \<Rightarrow> rf_core \<Rightarrow> rf_core" where
  "put_half Int_class t h s =
     upd_thread t (\<lambda>th. th\<lparr>th_reg_file := (th_reg_file th)\<lparr>rf_int := hf_regs h\<rparr>, th_reg_file_int_count := hf_thread_count h\<rparr>)
       (s\<lparr>co_reg_file_int_count := hf_core_count h\<rparr>)"
| "put_half Fp_class t h s =
     upd_thread t (\<lambda>th. th\<lparr>th_reg_file := (th_reg_file th)\<lparr>rf_fp := hf_regs h\<rparr>, th_reg_file_fp_count := hf_thread_count h\<rparr>)
       (s\<lparr>co_reg_file_fp_count := hf_core_count h\<rparr>)"

definition on_half :: "reg_class \<Rightarrow> nat \<Rightarrow> (half \<Rightarrow> half res) \<Rightarrow> rf_core \<Rightarrow> rf_core res" where
  "on_half c t f s = res_bind (f (half_of c t s)) (\<lambda>h. Inr (put_half c t h s))"

fun local_size :: "reg_class \<Rightarrow> rf_cfg \<Rightarrow> nat" where
  "local_size Int_class cfg = rc_int_local_size cfg"
| "local_size Fp_class cfg = rc_fp_local_size cfg"

section \<open>Operations on a half\<close>

abbreviation regs_upd :: "(x86_reg_half \<Rightarrow> x86_reg_half) \<Rightarrow> half \<Rightarrow> half" where
  "regs_upd f h \<equiv> h\<lparr>hf_regs := f (hf_regs h)\<rparr>"

abbreviation busy :: "half \<Rightarrow> nat \<Rightarrow> nat" where "busy h p \<equiv> pr_busy (phreg (hf_regs h) ! p)"
abbreviation pending :: "half \<Rightarrow> nat \<Rightarrow> bool" where "pending h p \<equiv> pr_pending (phreg (hf_regs h) ! p)"
abbreviation free_count :: "half \<Rightarrow> nat" where "free_count h \<equiv> free_phreg_count (hf_regs h)"

definition set_phreg :: "nat \<Rightarrow> (x86_phreg_t \<Rightarrow> x86_phreg_t) \<Rightarrow> half \<Rightarrow> half" where
  "set_phreg p f = regs_upd (\<lambda>r. r\<lparr>phreg := (phreg r)[p := f (phreg r ! p)]\<rparr>)"

text \<open>\<open>x86_reg_file_int_reclaim\<close> and \<open>x86_reg_file_fp_reclaim\<close>.\<close>

definition reg_file_reclaim :: "half \<Rightarrow> (half \<times> nat) res" where
  "reg_file_reclaim h =
     (if \<not> free_count h > 0 then Inl Assert_failed
      else
        let p = free_phreg (hf_regs h) ! (free_count h - 1);
            h = (regs_upd (\<lambda>r. r\<lparr>free_phreg_count := free_phreg_count r - 1\<rparr>) h)
                  \<lparr>hf_core_count := hf_core_count h + 1, hf_thread_count := hf_thread_count h + 1\<rparr> in
        if busy h p \<noteq> 0 then Inl Assert_failed
        else if pending h p then Inl Assert_failed
        else Inr (h, p))"

text \<open>Mapping a logical register to a physical one; the previous mapping is the second result.\<close>

definition reg_file_map :: "nat \<Rightarrow> nat \<Rightarrow> half \<Rightarrow> half \<times> nat" where
  "reg_file_map l p h =
     (let h = set_phreg p (\<lambda>r. r\<lparr>pr_busy := pr_busy r + 1\<rparr>) h;
          h = set_phreg p (\<lambda>r. r\<lparr>pr_pending := True\<rparr>) h;
          ophreg = rat (hf_regs h) ! l in
      (regs_upd (\<lambda>r. r\<lparr>rat := (rat r)[l := p]\<rparr>) h, ophreg))"

definition reg_file_put_free :: "nat \<Rightarrow> nat \<Rightarrow> half \<Rightarrow> half res" where
  "reg_file_put_free n p h =
     (if \<not> free_count h < n then Inl Assert_failed
      else if \<not> (hf_core_count h > 0 \<and> hf_thread_count h > 0) then Inl Assert_failed
      else Inr ((regs_upd (\<lambda>r. r\<lparr>free_phreg := (free_phreg r)[free_phreg_count r := p],
                                  free_phreg_count := free_phreg_count r + 1\<rparr>) h)
                  \<lparr>hf_core_count := hf_core_count h - 1, hf_thread_count := hf_thread_count h - 1\<rparr>))"

text \<open>The physical registers of an instruction are indices of the file.\<close>

definition in_file :: "int \<Rightarrow> half \<Rightarrow> bool" where
  "in_file p h \<longleftrightarrow> 0 \<le> p \<and> nat p < length (phreg (hf_regs h))"

definition reg_file_unmap :: "nat \<Rightarrow> nat \<Rightarrow> int \<Rightarrow> int \<Rightarrow> half \<Rightarrow> half res" where
  "reg_file_unmap n l p ophreg h =
     (if \<not> in_file p h \<or> \<not> in_file ophreg h then Inl Null_deref
      else if \<not> busy h (nat p) > 0 then Inl Assert_failed
      else if pending h (nat p) then Inl Assert_failed
      else
        let h = set_phreg (nat p) (\<lambda>r. r\<lparr>pr_busy := pr_busy r - 1\<rparr>) h in
        res_bind (if busy h (nat p) = 0 then reg_file_put_free n (nat p) h else Inr h) (\<lambda>h.
        let h = regs_upd (\<lambda>r. r\<lparr>rat := (rat r)[l := nat ophreg]\<rparr>) h in
        if busy h (nat ophreg) = 0 then Inl Assert_failed else Inr h))"

definition reg_file_release :: "nat \<Rightarrow> int \<Rightarrow> half \<Rightarrow> half res" where
  "reg_file_release n ophreg h =
     (if \<not> in_file ophreg h then Inl Null_deref
      else if \<not> busy h (nat ophreg) > 0 then Inl Assert_failed
      else
        let h = set_phreg (nat ophreg) (\<lambda>r. r\<lparr>pr_busy := pr_busy r - 1\<rparr>) h in
        if busy h (nat ophreg) = 0 then
          if pending h (nat ophreg) then Inl Assert_failed else reg_file_put_free n (nat ophreg) h
        else Inr h)"

section \<open>Initialisation\<close>

definition half_create :: "nat \<Rightarrow> nat \<Rightarrow> x86_reg_half" where
  "half_create logical n =
     \<lparr>rat = replicate logical 0, phreg = replicate n \<lparr>pr_pending = False, pr_busy = 0\<rparr>,
      free_phreg = [0..<n], free_phreg_count = n\<rparr>"

definition x86_reg_file_create :: "nat \<Rightarrow> nat \<Rightarrow> x86_reg_file_t" where
  "x86_reg_file_create int_size fp_size =
     \<lparr>rf_int = half_create x86_dep_int_count int_size, rf_fp = half_create x86_dep_fp_count fp_size,
      rf_fp_top_of_stack = 0\<rparr>"

text \<open>The initial mapping of one logical register; the flags share the last integer register reclaimed.\<close>

definition init_map :: "nat \<Rightarrow> nat \<Rightarrow> half \<Rightarrow> half" where
  "init_map l p h =
     (let h = set_phreg p (\<lambda>r. r\<lparr>pr_busy := pr_busy r + 1\<rparr>) h in regs_upd (\<lambda>r. r\<lparr>rat := (rat r)[l := p]\<rparr>) h)"

definition init_int :: "nat \<Rightarrow> half \<times> int \<Rightarrow> (half \<times> int) res" where
  "init_int dep = (\<lambda>(h, fphreg).
     if X86_DEP_IS_FLAG (dep + x86_dep_int_first) then
       if \<not> fphreg \<ge> 0 then Inl Assert_failed else Inr (init_map dep (nat fphreg) h, fphreg)
     else res_bind (reg_file_reclaim h) (\<lambda>(h, p). Inr (init_map dep p h, int p)))"

definition init_fp :: "nat \<Rightarrow> half \<Rightarrow> half res" where
  "init_fp dep h = res_bind (reg_file_reclaim h) (\<lambda>(h, p). Inr (init_map dep p h))"

definition x86_reg_file_init_thread :: "nat \<Rightarrow> rf_core \<Rightarrow> rf_core res" where
  "x86_reg_file_init_thread t s =
     res_bind (on_half Int_class t (\<lambda>h.
       res_bind (res_fold init_int [0..<x86_dep_int_count] (h, -1)) (\<lambda>(h, _). Inr h)) s) (\<lambda>s.
     on_half Fp_class t (res_fold init_fp [0..<x86_dep_fp_count]) s)"

definition x86_reg_file_init :: "x86_reg_file_kind_t \<Rightarrow> int \<Rightarrow> int \<Rightarrow> nat \<Rightarrow> (rf_cfg \<times> rf_core) res" where
  "x86_reg_file_init kind int_size fp_size num_threads =
     (if int_size < int (x86_dep_int_count + X86_UINST_MAX_ODEPS) then Inl (Fatal ''rf_int_size too small'')
      else if fp_size < int (x86_dep_fp_count + X86_UINST_MAX_ODEPS) then Inl (Fatal ''rf_fp_size too small'')
      else
        let m = (if kind = x86_reg_file_kind_private then 1 else num_threads);
            cfg = \<lparr>rc_kind = kind, rc_int_local_size = nat int_size * m, rc_fp_local_size = nat fp_size * m\<rparr>;
            th = \<lparr>th_reg_file = x86_reg_file_create (rc_int_local_size cfg) (rc_fp_local_size cfg),
                  th_reg_file_int_count = 0, th_reg_file_fp_count = 0, th_rat_int_reads = 0, th_rat_int_writes = 0,
                  th_rat_fp_reads = 0, th_rat_fp_writes = 0\<rparr> in
        res_bind (res_fold x86_reg_file_init_thread [0..<num_threads]
                    \<lparr>co_reg_file_int_count = 0, co_reg_file_fp_count = 0, co_threads = replicate num_threads th\<rparr>)
          (\<lambda>s. Inr (cfg, s)))"

section \<open>Counting and renaming\<close>

definition x86_reg_file_count_deps :: "rf_uop \<Rightarrow> rf_uop" where
  "x86_reg_file_count_deps u =
     (let number = (\<lambda>is_reg ds. length (filter is_reg ds));
          is_int = (\<lambda>d. \<not> X86_DEP_IS_FLAG d \<and> X86_DEP_IS_INT_REG d);
          is_fp = (\<lambda>d. \<not> X86_DEP_IS_FLAG d \<and> \<not> X86_DEP_IS_INT_REG d \<and> X86_DEP_IS_FP_REG d);
          os = map (odep u) [0..<X86_UINST_MAX_ODEPS]; is' = map (idep u) [0..<X86_UINST_MAX_IDEPS];
          oflag = number X86_DEP_IS_FLAG os; oint = number is_int os; ofp = number is_fp os;
          iflag = number X86_DEP_IS_FLAG is'; iint = number is_int is'; ifp = number is_fp is' in
      u\<lparr>ru_odep_count := oflag + oint + ofp,
        ru_ph_int_odep_count := (if oflag \<noteq> 0 \<and> oint = 0 then 1 else oint), ru_ph_fp_odep_count := ofp,
        ru_idep_count := iflag + iint + ifp, ru_ph_int_idep_count := iflag + iint, ru_ph_fp_idep_count := ifp\<rparr>)"

definition x86_reg_file_can_rename :: "rf_cfg \<Rightarrow> rf_core \<Rightarrow> rf_uop \<Rightarrow> bool" where
  "x86_reg_file_can_rename cfg s u =
     (let t = ru_thread u in
      if rc_kind cfg = x86_reg_file_kind_private then
        if th_reg_file_int_count (thread_of s t) + ru_ph_int_odep_count u > rc_int_local_size cfg then False
        else if th_reg_file_fp_count (thread_of s t) + ru_ph_fp_odep_count u > rc_fp_local_size cfg then False
        else True
      else
        if co_reg_file_int_count s + ru_ph_int_odep_count u > rc_int_local_size cfg then False
        else if co_reg_file_fp_count s + ru_ph_fp_odep_count u > rc_fp_local_size cfg then False
        else True)"

abbreviation top_of_stack :: "nat \<Rightarrow> rf_core \<Rightarrow> nat" where
  "top_of_stack t s \<equiv> rf_fp_top_of_stack (th_reg_file (thread_of s t))"

definition set_top :: "nat \<Rightarrow> nat \<Rightarrow> rf_core \<Rightarrow> rf_core" where
  "set_top t tos = upd_thread t (\<lambda>th. th\<lparr>th_reg_file := (th_reg_file th)\<lparr>rf_fp_top_of_stack := tos\<rparr>\<rparr>)"

text \<open>The floating-point register at a distance from the top of the stack.\<close>

definition streg_of :: "nat \<Rightarrow> nat \<Rightarrow> nat" where
  "streg_of tos loreg = (loreg - x86_dep_fp_first + tos) mod 8 + x86_dep_fp_first"

definition rename_idep :: "nat \<Rightarrow> rf_core \<times> rf_uop \<Rightarrow> (rf_core \<times> rf_uop) res" where
  "rename_idep dep = (\<lambda>(s, u).
     let t = ru_thread u; loreg = idep u dep in
     if X86_DEP_IS_INT_REG loreg then
       let p = rat (rf_int (th_reg_file (thread_of s t))) ! (loreg - x86_dep_int_first) in
       Inr (upd_thread t (\<lambda>th. th\<lparr>th_rat_int_reads := th_rat_int_reads th + 1\<rparr>) s,
            u\<lparr>ru_ph_idep := (ru_ph_idep u)[dep := int p]\<rparr>)
     else if X86_DEP_IS_FP_REG loreg then
       let streg = streg_of (top_of_stack t s) loreg in
       if \<not> X86_DEP_IS_FP_REG streg then Inl Assert_failed
       else
         let p = rat (rf_fp (th_reg_file (thread_of s t))) ! (streg - x86_dep_fp_first) in
         Inr (upd_thread t (\<lambda>th. th\<lparr>th_rat_fp_reads := th_rat_fp_reads th + 1\<rparr>) s,
              u\<lparr>ru_ph_idep := (ru_ph_idep u)[dep := int p]\<rparr>)
     else Inr (s, u\<lparr>ru_ph_idep := (ru_ph_idep u)[dep := -1]\<rparr>))"

definition set_outputs :: "nat \<Rightarrow> int \<Rightarrow> int \<Rightarrow> rf_uop \<Rightarrow> rf_uop" where
  "set_outputs dep p ophreg u =
     u\<lparr>ru_ph_odep := (ru_ph_odep u)[dep := p], ru_ph_oodep := (ru_ph_oodep u)[dep := ophreg]\<rparr>"

text \<open>The loop over outputs carries \<open>flag_phreg\<close> and \<open>flag_count\<close>.\<close>

definition rename_odep :: "nat \<Rightarrow> rf_core \<times> rf_uop \<times> int \<times> nat \<Rightarrow> (rf_core \<times> rf_uop \<times> int \<times> nat) res" where
  "rename_odep dep = (\<lambda>(s, u, flag_phreg, flag_count).
     let t = ru_thread u; loreg = odep u dep in
     if X86_DEP_IS_FLAG loreg then Inr (s, u, flag_phreg, flag_count + 1)
     else if X86_DEP_IS_INT_REG loreg then
       res_bind (reg_file_reclaim (half_of Int_class t s)) (\<lambda>(h, p).
         let (h, ophreg) = reg_file_map (loreg - x86_dep_int_first) p h;
             s = upd_thread t (\<lambda>th. th\<lparr>th_rat_int_writes := th_rat_int_writes th + 1\<rparr>) (put_half Int_class t h s) in
         Inr (s, set_outputs dep (int p) (int ophreg) u, if flag_phreg < 0 then int p else flag_phreg, flag_count))
     else if X86_DEP_IS_FP_REG loreg then
       let streg = streg_of (top_of_stack t s) loreg in
       if \<not> X86_DEP_IS_FP_REG streg then Inl Assert_failed
       else res_bind (reg_file_reclaim (half_of Fp_class t s)) (\<lambda>(h, p).
         let (h, ophreg) = reg_file_map (streg - x86_dep_fp_first) p h;
             s = upd_thread t (\<lambda>th. th\<lparr>th_rat_fp_writes := th_rat_fp_writes th + 1\<rparr>) (put_half Fp_class t h s) in
         Inr (s, set_outputs dep (int p) (int ophreg) u, flag_phreg, flag_count))
     else Inr (s, set_outputs dep (-1) (-1) u, flag_phreg, flag_count))"

definition rename_flag :: "nat \<Rightarrow> nat \<Rightarrow> rf_core \<times> rf_uop \<Rightarrow> rf_core \<times> rf_uop" where
  "rename_flag flag_phreg dep = (\<lambda>(s, u).
     let t = ru_thread u; loreg = odep u dep in
     if \<not> X86_DEP_IS_FLAG loreg then (s, u)
     else
       let (h, ophreg) = reg_file_map (loreg - x86_dep_int_first) flag_phreg (half_of Int_class t s) in
       (put_half Int_class t h s, set_outputs dep (int flag_phreg) (int ophreg) u))"

definition rename_flags :: "rf_core \<times> rf_uop \<times> int \<times> nat \<Rightarrow> (rf_core \<times> rf_uop) res" where
  "rename_flags = (\<lambda>(s, u, flag_phreg, flag_count).
     if flag_count > 0 then
       res_bind (if flag_phreg < 0
                 then res_bind (reg_file_reclaim (half_of Int_class (ru_thread u) s)) (\<lambda>(h, p).
                        Inr (put_half Int_class (ru_thread u) h s, p))
                 else Inr (s, nat flag_phreg))
         (\<lambda>(s, p). Inr (fold (rename_flag p) [0..<X86_UINST_MAX_ODEPS] (s, u)))
     else Inr (s, u))"

definition new_top :: "x86_uinst_opcode_t \<Rightarrow> nat \<Rightarrow> nat" where
  "new_top opcode tos =
     (if opcode = x86_uinst_fp_pop then (tos + 1) mod 8
      else if opcode = x86_uinst_fp_push then (tos + 7) mod 8
      else tos)"

definition x86_reg_file_rename :: "rf_core \<Rightarrow> rf_uop \<Rightarrow> (rf_core \<times> rf_uop) res" where
  "x86_reg_file_rename s u =
     (let t = ru_thread u; s = set_top t (new_top (ui_opcode (ru_uinst u)) (top_of_stack t s)) s in
      res_bind (res_fold rename_idep [0..<X86_UINST_MAX_IDEPS] (s, u)) (\<lambda>(s, u).
      res_bind (res_fold rename_odep [0..<X86_UINST_MAX_ODEPS] (s, u, -1, 0)) rename_flags))"

section \<open>After renaming\<close>

text \<open>A test of a physical register outside of the file is not in the code: it reads out of bounds.\<close>

definition pending_in :: "reg_class \<Rightarrow> nat \<Rightarrow> rf_core \<Rightarrow> int \<Rightarrow> bool res" where
  "pending_in c t s p = (if in_file p (half_of c t s) then Inr (pending (half_of c t s) (nat p)) else Inl Null_deref)"

fun ready_loop :: "rf_core \<Rightarrow> rf_uop \<Rightarrow> nat list \<Rightarrow> bool res" where
  "ready_loop s u [] = Inr True"
| "ready_loop s u (dep # deps) =
     res_bind (if X86_DEP_IS_INT_REG (idep u dep) then pending_in Int_class (ru_thread u) s (ru_ph_idep u ! dep) else Inr False) (\<lambda>b.
     if b then Inr False
     else res_bind (if X86_DEP_IS_FP_REG (idep u dep) then pending_in Fp_class (ru_thread u) s (ru_ph_idep u ! dep) else Inr False) (\<lambda>b.
     if b then Inr False else ready_loop s u deps))"

definition x86_reg_file_ready :: "rf_core \<Rightarrow> rf_uop \<Rightarrow> bool res" where
  "x86_reg_file_ready s u = ready_loop s u [0..<X86_UINST_MAX_IDEPS]"

definition clear_pending :: "int \<Rightarrow> half \<Rightarrow> half res" where
  "clear_pending p h =
     (if \<not> in_file p h then Inl Null_deref else Inr (set_phreg (nat p) (\<lambda>r. r\<lparr>pr_pending := False\<rparr>) h))"

definition write_odep :: "rf_uop \<Rightarrow> nat \<Rightarrow> rf_core \<Rightarrow> rf_core res" where
  "write_odep u dep s =
     (if X86_DEP_IS_INT_REG (odep u dep) then on_half Int_class (ru_thread u) (clear_pending (ru_ph_odep u ! dep)) s
      else if X86_DEP_IS_FP_REG (odep u dep) then on_half Fp_class (ru_thread u) (clear_pending (ru_ph_odep u ! dep)) s
      else Inr s)"

definition x86_reg_file_write :: "rf_core \<Rightarrow> rf_uop \<Rightarrow> rf_core res" where
  "x86_reg_file_write s u = res_fold (write_odep u) [0..<X86_UINST_MAX_ODEPS] s"

definition undo_odep :: "rf_cfg \<Rightarrow> rf_uop \<Rightarrow> nat \<Rightarrow> rf_core \<Rightarrow> rf_core res" where
  "undo_odep cfg u dep s =
     (let t = ru_thread u; loreg = odep u dep; p = ru_ph_odep u ! dep; ophreg = ru_ph_oodep u ! dep in
      if X86_DEP_IS_INT_REG loreg then
        on_half Int_class t (reg_file_unmap (rc_int_local_size cfg) (loreg - x86_dep_int_first) p ophreg) s
      else if X86_DEP_IS_FP_REG loreg then
        let streg = streg_of (top_of_stack t s) loreg in
        if \<not> X86_DEP_IS_FP_REG streg then Inl Assert_failed
        else on_half Fp_class t (reg_file_unmap (rc_fp_local_size cfg) (streg - x86_dep_fp_first) p ophreg) s
      else if p \<noteq> -1 \<or> ophreg \<noteq> -1 then Inl Assert_failed
      else Inr s)"

definition old_top :: "x86_uinst_opcode_t \<Rightarrow> nat \<Rightarrow> nat" where
  "old_top opcode tos =
     (if opcode = x86_uinst_fp_pop then (tos + 7) mod 8
      else if opcode = x86_uinst_fp_push then (tos + 1) mod 8
      else tos)"

definition x86_reg_file_undo :: "rf_cfg \<Rightarrow> rf_core \<Rightarrow> rf_uop \<Rightarrow> rf_core res" where
  "x86_reg_file_undo cfg s u =
     (let t = ru_thread u in
      if \<not> ru_specmode u then Inl Assert_failed
      else res_bind (res_fold (undo_odep cfg u) (rev [0..<X86_UINST_MAX_ODEPS]) s) (\<lambda>s.
        Inr (set_top t (old_top (ui_opcode (ru_uinst u)) (top_of_stack t s)) s)))"

definition commit_odep :: "rf_cfg \<Rightarrow> rf_uop \<Rightarrow> nat \<Rightarrow> rf_core \<Rightarrow> rf_core res" where
  "commit_odep cfg u dep s =
     (let t = ru_thread u; loreg = odep u dep; p = ru_ph_odep u ! dep; ophreg = ru_ph_oodep u ! dep in
      if X86_DEP_IS_INT_REG loreg then on_half Int_class t (reg_file_release (rc_int_local_size cfg) ophreg) s
      else if X86_DEP_IS_FP_REG loreg then on_half Fp_class t (reg_file_release (rc_fp_local_size cfg) ophreg) s
      else if p \<noteq> -1 \<or> ophreg \<noteq> -1 then Inl Assert_failed
      else Inr s)"

definition x86_reg_file_commit :: "rf_cfg \<Rightarrow> rf_core \<Rightarrow> rf_uop \<Rightarrow> rf_core res" where
  "x86_reg_file_commit cfg s u =
     (if ru_specmode u then Inl Assert_failed
      else res_fold (commit_odep cfg u) [0..<X86_UINST_MAX_ODEPS] s)"

text \<open>The assertions of \<open>x86_reg_file_check_integrity\<close>, given the instructions in the reorder buffer.\<close>

definition check_half :: "nat \<Rightarrow> half \<Rightarrow> bool" where
  "check_half logical h \<longleftrightarrow>
     (\<forall>i \<in> set [0..<free_count h]. let p = free_phreg (hf_regs h) ! i in busy h p = 0 \<and> \<not> pending h p) \<and>
     (\<forall>l \<in> set [0..<logical]. busy h (rat (hf_regs h) ! l) \<noteq> 0)"

definition check_uop :: "nat \<Rightarrow> rf_core \<Rightarrow> rf_uop \<Rightarrow> nat \<Rightarrow> bool" where
  "check_uop t s u dep \<longleftrightarrow>
     (let loreg = odep u dep; p = ru_ph_odep u ! dep; ophreg = ru_ph_oodep u ! dep in
      if X86_DEP_IS_INT_REG loreg then
        in_file p (half_of Int_class t s) \<and> in_file ophreg (half_of Int_class t s) \<and>
        busy (half_of Int_class t s) (nat p) \<noteq> 0 \<and> busy (half_of Int_class t s) (nat ophreg) \<noteq> 0
      else if X86_DEP_IS_FP_REG loreg then
        in_file p (half_of Fp_class t s) \<and> in_file ophreg (half_of Fp_class t s) \<and>
        busy (half_of Fp_class t s) (nat p) \<noteq> 0 \<and> busy (half_of Fp_class t s) (nat ophreg) \<noteq> 0
      else p = -1 \<and> ophreg = -1)"

definition x86_reg_file_check_integrity :: "nat \<Rightarrow> rf_core \<Rightarrow> rf_uop list \<Rightarrow> unit res" where
  "x86_reg_file_check_integrity t s rob =
     (if \<not> check_half x86_dep_int_count (half_of Int_class t s) \<or> \<not> check_half x86_dep_fp_count (half_of Fp_class t s)
      then Inl Assert_failed
      else if \<not> (\<forall>u \<in> set rob. \<forall>dep \<in> set [0..<X86_UINST_MAX_ODEPS]. check_uop t s u dep) then Inl Assert_failed
      else Inr ())"

end
