(* ===== verification/Reg_Half.thy ===== *)
theory Reg_Half
  imports Reg_File
begin

text \<open>
  The invariant of one half of a register file and the operations that keep it. It counts, for each physical
  register, the logical registers whose committed mapping it is and the mappings of in-flight instructions
  that allocated it.
\<close>

section \<open>Mappings in flight\<close>

text \<open>A mapping: logical register, physical register, the physical register it replaces.\<close>

type_synonym mapping = "nat \<times> nat \<times> nat"

abbreviation map_of_l :: "nat \<Rightarrow> mapping list \<Rightarrow> mapping list" where
  "map_of_l l ms \<equiv> filter (\<lambda>m. fst m = l) ms"

abbreviation chain :: "nat \<Rightarrow> mapping list \<Rightarrow> (nat \<times> nat) list" where
  "chain l ms \<equiv> map snd (map_of_l l ms)"

abbreviation allocated :: "mapping list \<Rightarrow> nat set" where
  "allocated ms \<equiv> (\<lambda>m. fst (snd m)) ` set ms"

text \<open>Each mapping of a logical register replaces the one before it, the first the committed one.\<close>

fun linked :: "nat \<Rightarrow> (nat \<times> nat) list \<Rightarrow> bool" where
  "linked c [] \<longleftrightarrow> True"
| "linked c ((p, ophreg) # xs) \<longleftrightarrow> ophreg = c \<and> linked p xs"

definition final :: "nat \<Rightarrow> (nat \<times> nat) list \<Rightarrow> nat" where
  "final c xs = (if xs = [] then c else fst (last xs))"

lemma final_simps [simp]: "final c [] = c" "final c (x # xs) = final (fst x) xs" "final c (xs @ [x]) = fst x"
  by (simp_all add: final_def)

lemma linked_append [simp]: "linked c (xs @ ys) \<longleftrightarrow> linked c xs \<and> linked (final c xs) ys"
  by (induction c xs rule: linked.induct) simp_all

lemma final_append [simp]: "final c (xs @ ys) = final (final c xs) ys"
  by (induction xs arbitrary: c) auto

lemma linked_old: "linked c xs \<Longrightarrow> (p, ophreg) \<in> set xs \<Longrightarrow> ophreg = c \<or> ophreg \<in> fst ` set xs"
proof (induction xs arbitrary: c)
  case (Cons x xs)
  show ?case
  proof (cases "(p, ophreg) \<in> set xs")
    case True
    with Cons.IH [of "fst x"] Cons.prems(1) show ?thesis by (cases x) auto
  next
    case False
    with Cons.prems show ?thesis by (cases x) auto
  qed
qed simp

lemma chain_allocated: "fst ` set (chain l ms) \<subseteq> allocated ms"
  unfolding set_map image_image by (rule image_mono) (rule filter_is_subset)

lemma final_in: "final c xs = c \<or> final c xs \<in> fst ` set xs"
  by (simp add: final_def)

section \<open>The invariant\<close>

definition uses :: "nat \<Rightarrow> (nat \<Rightarrow> nat) \<Rightarrow> mapping list \<Rightarrow> nat \<Rightarrow> nat" where
  "uses n C ms p = card {l. l < n \<and> C l = p} + length (filter (\<lambda>m. fst (snd m) = p) ms)"

text \<open>
  \<open>n\<close> logical and \<open>k\<close> physical registers, committed mapping \<open>C\<close>, mappings in flight \<open>ms\<close>, pending registers \<open>W\<close>,
  registers \<open>R\<close> taken from the free list and not mapped yet.
\<close>

definition free_ok :: "nat \<Rightarrow> nat set \<Rightarrow> half \<Rightarrow> bool" where
  "free_ok k R h \<longleftrightarrow> length (phreg (hf_regs h)) = k \<and> length (free_phreg (hf_regs h)) = k \<and> free_count h \<le> k \<and>
     distinct (take (free_count h) (free_phreg (hf_regs h))) \<and>
     set (take (free_count h) (free_phreg (hf_regs h))) = {p. p < k \<and> busy h p = 0 \<and> p \<notin> R} \<and>
     hf_thread_count h + free_count h = k \<and> hf_thread_count h \<le> hf_core_count h \<and>
     (\<forall>p \<in> R. p < k \<and> busy h p = 0)"

definition mapping_ok :: "nat \<Rightarrow> nat \<Rightarrow> (nat \<Rightarrow> nat) \<Rightarrow> mapping list \<Rightarrow> half \<Rightarrow> bool" where
  "mapping_ok n k C ms h \<longleftrightarrow> length (rat (hf_regs h)) = n \<and>
     (\<forall>l < n. C l < k \<and> linked (C l) (chain l ms) \<and> rat (hf_regs h) ! l = final (C l) (chain l ms)) \<and>
     (\<forall>m \<in> set ms. fst m < n \<and> fst (snd m) < k)"

definition regs_ok :: "nat \<Rightarrow> nat \<Rightarrow> (nat \<Rightarrow> nat) \<Rightarrow> mapping list \<Rightarrow> nat set \<Rightarrow> nat set \<Rightarrow> half \<Rightarrow> bool" where
  "regs_ok n k C ms W R h \<longleftrightarrow> free_ok k R h \<and> mapping_ok n k C ms h \<and> W \<subseteq> allocated ms \<and>
     (\<forall>p < k. busy h p = uses n C ms p \<and> (pending h p \<longleftrightarrow> p \<in> W))"

text \<open>What an operation keeps of the counters.\<close>

definition same_counts :: "half \<Rightarrow> half \<Rightarrow> bool" where
  "same_counts h h' \<longleftrightarrow> hf_core_count h' + hf_thread_count h = hf_core_count h + hf_thread_count h'"

lemma uses_append [simp]: "uses n C (ms @ [(l, p, ophreg)]) q = uses n C ms q + (if p = q then 1 else 0)"
  by (simp add: uses_def)

lemma uses_allocated: "p \<in> allocated ms \<Longrightarrow> 0 < uses n C ms p"
  by (force simp: uses_def filter_empty_conv)

lemma uses_committed: "l < n \<Longrightarrow> 0 < uses n C ms (C l)"
proof -
  assume "l < n"
  then have "{i. i < n \<and> C i = C l} \<noteq> {}" by blast
  then have "0 < card {i. i < n \<and> C i = C l}" by (simp add: card_gt_0_iff)
  then show ?thesis by (simp add: uses_def)
qed

lemma uses_commit:
  assumes "l < n" "C l = ophreg"
  shows "uses n C ((l, p, ophreg) # ms) q = uses n (C(l := p)) ms q + (if ophreg = q then 1 else 0)"
proof -
  let ?A = "{i. i < n \<and> i \<noteq> l \<and> C i = q}"
  have f: "finite ?A" "l \<notin> ?A" by simp_all
  have "{i. i < n \<and> C i = q} = (if ophreg = q then insert l ?A else ?A)"
    "{i. i < n \<and> (C(l := p)) i = q} = (if p = q then insert l ?A else ?A)" using assms by auto
  then have "card {i. i < n \<and> C i = q} = card ?A + (if ophreg = q then 1 else 0)"
    "card {i. i < n \<and> (C(l := p)) i = q} = card ?A + (if p = q then 1 else 0)" using f by simp_all
  then show ?thesis by (simp add: uses_def)
qed

lemma old_used:
  assumes "mapping_ok n k C ms h" "(l, p, ophreg) \<in> set ms"
  shows "ophreg < k" "0 < uses n C ms ophreg"
proof -
  have l: "l < n" "linked (C l) (chain l ms)" "C l < k" using assms by (auto simp: mapping_ok_def)
  have "(p, ophreg) \<in> set (chain l ms)" using assms(2) by force
  from linked_old [OF l(2) this] chain_allocated consider "ophreg = C l" | "ophreg \<in> allocated ms" by blast
  then show "ophreg < k" "0 < uses n C ms ophreg"
    using l uses_committed [of l n C ms] uses_allocated [of ophreg ms n C] assms(1)
    by (cases; force simp: mapping_ok_def)+
qed

lemma rat_used:
  assumes "mapping_ok n k C ms h" "l < n"
  shows "rat (hf_regs h) ! l < k" "0 < uses n C ms (rat (hf_regs h) ! l)"
proof -
  have l: "rat (hf_regs h) ! l = final (C l) (chain l ms)" "C l < k" using assms by (auto simp: mapping_ok_def)
  from final_in [of "C l" "chain l ms"] consider "rat (hf_regs h) ! l = C l" | "rat (hf_regs h) ! l \<in> allocated ms"
    unfolding l(1) using chain_allocated by blast
  then show "rat (hf_regs h) ! l < k" "0 < uses n C ms (rat (hf_regs h) ! l)"
    using l(2) assms(2) uses_committed [of l n C ms] uses_allocated [of "rat (hf_regs h) ! l" ms n C] assms(1)
    by (cases; force simp: mapping_ok_def)+
qed

section \<open>Taking and returning registers\<close>

lemma nth_set_phreg [simp]:
  "q < length (phreg (hf_regs h)) \<Longrightarrow> phreg (hf_regs (set_phreg p f h)) ! q =
     (if q = p then f (phreg (hf_regs h) ! p) else phreg (hf_regs h) ! q)"
  by (simp add: set_phreg_def nth_list_update)

lemma set_phreg_fields [simp]:
  "rat (hf_regs (set_phreg p f h)) = rat (hf_regs h)" "free_phreg (hf_regs (set_phreg p f h)) = free_phreg (hf_regs h)"
  "free_phreg_count (hf_regs (set_phreg p f h)) = free_phreg_count (hf_regs h)"
  "length (phreg (hf_regs (set_phreg p f h))) = length (phreg (hf_regs h))"
  "hf_core_count (set_phreg p f h) = hf_core_count h" "hf_thread_count (set_phreg p f h) = hf_thread_count h"
  by (simp_all add: set_phreg_def)

lemma reclaim_free:
  assumes F: "free_ok k {} h" and some: "0 < free_count h" and idle: "\<forall>p < k. busy h p = 0 \<longrightarrow> \<not> pending h p"
  shows "\<exists>h' p. reg_file_reclaim h = Inr (h', p) \<and> free_ok k {p} h' \<and> p < k \<and> busy h' p = 0 \<and>
    free_count h' = free_count h - 1 \<and> rat (hf_regs h') = rat (hf_regs h) \<and> phreg (hf_regs h') = phreg (hf_regs h) \<and>
    hf_core_count h' = hf_core_count h + 1 \<and> same_counts h h'"
proof -
  let ?c = "free_count h" and ?fl = "free_phreg (hf_regs h)"
  have t: "take ?c ?fl = take (?c - 1) ?fl @ [?fl ! (?c - 1)]"
  proof -
    from some obtain c where c: "?c = Suc c" by (cases ?c) simp_all
    have "c < length ?fl" using F c by (simp add: free_ok_def)
    then show ?thesis unfolding c by (simp add: take_Suc_conv_app_nth)
  qed
  let ?p = "?fl ! (?c - 1)" and ?xs = "take (?c - 1) ?fl"
  have "distinct (take ?c ?fl)" "set (take ?c ?fl) = {q. q < k \<and> busy h q = 0}" using F by (simp_all add: free_ok_def)
  then have d: "distinct (?xs @ [?p])" and s: "set (?xs @ [?p]) = {q. q < k \<and> busy h q = 0}" by (simp_all only: t)
  have "?p \<in> set (?xs @ [?p])" by simp
  then have p: "?p < k" "busy h ?p = 0" unfolding s by simp_all
  have "set ?xs = set (?xs @ [?p]) - {?p}" using d by simp
  then have S: "set ?xs = {q. q < k \<and> busy h q = 0 \<and> q \<noteq> ?p}" unfolding s by auto
  have "\<not> pending h ?p" using idle p by simp
  let ?h = "(regs_upd (\<lambda>r. r\<lparr>free_phreg_count := free_phreg_count r - 1\<rparr>) h)
    \<lparr>hf_core_count := hf_core_count h + 1, hf_thread_count := hf_thread_count h + 1\<rparr>"
  from \<open>\<not> pending h ?p\<close> have "reg_file_reclaim h = Inr (?h, ?p)" using some p by (simp add: reg_file_reclaim_def Let_def)
  moreover have "free_ok k {?p} ?h"
  proof -
    have "?c \<le> k" using F by (simp add: free_ok_def)
    then have "?c - 1 \<le> k" by linarith
    with F some p S d show ?thesis by (simp add: free_ok_def)
  qed
  ultimately show ?thesis using p by (intro exI [of _ ?h] exI [of _ ?p]) (simp add: same_counts_def)
qed

lemma reclaim_ok:
  assumes ok: "regs_ok n k C ms W {} h" and some: "0 < free_count h"
  shows "\<exists>h' p. reg_file_reclaim h = Inr (h', p) \<and> regs_ok n k C ms W {p} h' \<and> p < k \<and> busy h' p = 0 \<and>
    free_count h' = free_count h - 1 \<and> rat (hf_regs h') = rat (hf_regs h) \<and> phreg (hf_regs h') = phreg (hf_regs h) \<and>
    hf_core_count h' = hf_core_count h + 1 \<and> same_counts h h'"
proof -
  have F: "free_ok k {} h" using ok by (simp add: regs_ok_def)
  have "\<not> pending h p" if "p < k" "busy h p = 0" for p
    using ok that uses_allocated [of p ms n C] by (auto simp: regs_ok_def)
  then have idle: "\<forall>p < k. busy h p = 0 \<longrightarrow> \<not> pending h p" by blast
  from reclaim_free [OF F some idle] obtain h' p where h: "reg_file_reclaim h = Inr (h', p)" "free_ok k {p} h'" "p < k"
    "busy h' p = 0" "free_count h' = free_count h - 1" "rat (hf_regs h') = rat (hf_regs h)"
    "phreg (hf_regs h') = phreg (hf_regs h)" "hf_core_count h' = hf_core_count h + 1" "same_counts h h'" by blast
  have "regs_ok n k C ms W {p} h'" using ok h(2,6,7) by (simp add: regs_ok_def mapping_ok_def)
  with h show ?thesis by blast
qed

lemma map_ok:
  assumes ok: "regs_ok n k C ms W R h" and l: "l < n" and p: "p < k" "p \<in> R \<or> 0 < busy h p"
  shows "\<exists>h'. reg_file_map l p h = (h', rat (hf_regs h) ! l) \<and>
    regs_ok n k C (ms @ [(l, p, rat (hf_regs h) ! l)]) (insert p W) (R - {p}) h' \<and> 0 < busy h' p \<and>
    free_count h' = free_count h \<and> hf_core_count h' = hf_core_count h \<and> same_counts h h' \<and>
    rat (hf_regs h') = (rat (hf_regs h))[l := p]"
proof -
  have F: "free_ok k R h" and M: "mapping_ok n k C ms h" using ok by (simp_all add: regs_ok_def)
  have len: "length (phreg (hf_regs h)) = k" using F by (simp add: free_ok_def)
  let ?h = "fst (reg_file_map l p h)"
  have h: "reg_file_map l p h = (?h, rat (hf_regs h) ! l)" by (simp add: reg_file_map_def Let_def)
  have ph: "phreg (hf_regs ?h) ! q = (if q = p then \<lparr>pr_pending = True, pr_busy = busy h p + 1\<rparr> else phreg (hf_regs h) ! q)"
    if "q < k" for q using that len p(1) by (simp add: reg_file_map_def Let_def)
  have fields: "rat (hf_regs ?h) = (rat (hf_regs h))[l := p]" "free_phreg (hf_regs ?h) = free_phreg (hf_regs h)"
    "free_count ?h = free_count h" "length (phreg (hf_regs ?h)) = k" "hf_core_count ?h = hf_core_count h"
    "hf_thread_count ?h = hf_thread_count h" using len by (simp_all add: reg_file_map_def Let_def)
  have "{q. q < k \<and> busy h q = 0 \<and> q \<notin> R} = {q. q < k \<and> busy ?h q = 0 \<and> q \<notin> R - {p}}"
    using p ph by (auto split: if_splits)
  then have "free_ok k (R - {p}) ?h" using F ph by (auto simp: free_ok_def fields)
  moreover have "mapping_ok n k C (ms @ [(l, p, rat (hf_regs h) ! l)]) ?h"
    using M l p(1) by (auto simp: mapping_ok_def fields nth_list_update)
  moreover have "\<forall>q < k. busy ?h q = uses n C (ms @ [(l, p, rat (hf_regs h) ! l)]) q \<and> (pending ?h q \<longleftrightarrow> q \<in> insert p W)"
    using ok ph by (auto simp: regs_ok_def)
  ultimately have "regs_ok n k C (ms @ [(l, p, rat (hf_regs h) ! l)]) (insert p W) (R - {p}) ?h"
    using ok by (auto simp: regs_ok_def)
  then show ?thesis using h ph [OF p(1)] by (intro exI [of _ ?h]) (simp add: fields same_counts_def)
qed

lemma put_free_ok:
  assumes F: "free_ok k {p} h" and p: "p < k"
  shows "\<exists>h'. reg_file_put_free k p h = Inr h' \<and> free_ok k {} h' \<and> rat (hf_regs h') = rat (hf_regs h) \<and>
    phreg (hf_regs h') = phreg (hf_regs h) \<and> same_counts h h'"
proof -
  let ?c = "free_count h" and ?fl = "free_phreg (hf_regs h)"
  have s: "set (take ?c ?fl) = {q. q < k \<and> busy h q = 0 \<and> q \<noteq> p}" and d: "distinct (take ?c ?fl)" and z: "busy h p = 0"
    and l: "?c \<le> k" "length ?fl = k" using F by (auto simp: free_ok_def)
  have "?c = card {q. q < k \<and> busy h q = 0 \<and> q \<noteq> p}" using distinct_card [OF d] s l by simp
  also have "\<dots> \<le> card ({..<k} - {p})" by (rule card_mono) auto
  also have "\<dots> < k" using p by simp
  finally have c: "?c < k" .
  then have t: "0 < hf_thread_count h" "0 < hf_core_count h" using F by (auto simp: free_ok_def)
  have "take (?c + 1) (?fl[?c := p]) = take ?c ?fl @ [p]"
    using c l by (simp add: take_Suc_conv_app_nth)
  then have "set (take (?c + 1) (?fl[?c := p])) = {q. q < k \<and> busy h q = 0}" "distinct (take (?c + 1) (?fl[?c := p]))"
    using s d z p by auto
  note T = this
  let ?h = "(regs_upd (\<lambda>r. r\<lparr>free_phreg := (free_phreg r)[free_phreg_count r := p],
      free_phreg_count := free_phreg_count r + 1\<rparr>) h)
    \<lparr>hf_core_count := hf_core_count h - 1, hf_thread_count := hf_thread_count h - 1\<rparr>"
  have "reg_file_put_free k p h = Inr ?h" using c t by (simp add: reg_file_put_free_def)
  moreover have "free_ok k {} ?h" using F c t T by (simp add: free_ok_def diff_le_mono)
  moreover have "same_counts h ?h" using t by (simp add: same_counts_def)
  ultimately show ?thesis by (intro exI [of _ ?h]) simp
qed

lemma unmap_ok:
  assumes ok: "regs_ok n k C (ms @ [(l, p, ophreg)]) W {} h" and p: "p \<notin> W"
  shows "\<exists>h'. reg_file_unmap k l (int p) (int ophreg) h = Inr h' \<and> regs_ok n k C ms W {} h' \<and> same_counts h h' \<and>
    rat (hf_regs h') = (rat (hf_regs h))[l := ophreg]"
proof -
  let ?ms = "ms @ [(l, p, ophreg)]"
  have F: "free_ok k {} h" and M: "mapping_ok n k C ?ms h" and W: "W \<subseteq> allocated ?ms"
    and B: "\<And>q. q < k \<Longrightarrow> busy h q = uses n C ?ms q \<and> (pending h q \<longleftrightarrow> q \<in> W)" using ok by (simp_all add: regs_ok_def)
  have len: "length (phreg (hf_regs h)) = k" using F by (simp add: free_ok_def)
  have l: "l < n" "p < k" using M by (simp_all add: mapping_ok_def)
  have o: "ophreg < k" using old_used [OF M, of l p ophreg] by simp
  have M': "mapping_ok n k C ms g" if "rat (hf_regs g) = (rat (hf_regs h))[l := ophreg]" for g
    using M l(1) that by (auto simp: mapping_ok_def nth_list_update)
  let ?h = "set_phreg p (\<lambda>r. r\<lparr>pr_busy := pr_busy r - 1\<rparr>) h"
  have b: "busy ?h q = uses n C ms q" "pending ?h q \<longleftrightarrow> q \<in> W" if "q < k" for q
    using B [OF that] that len by auto
  have "\<exists>g. (if busy ?h p = 0 then reg_file_put_free k p ?h else Inr ?h) = Inr g \<and> free_ok k {} g \<and>
    rat (hf_regs g) = rat (hf_regs h) \<and> phreg (hf_regs g) = phreg (hf_regs ?h) \<and> same_counts h g"
  proof (cases "busy ?h p = 0")
    case True
    have "{q. q < k \<and> busy h q = 0} = {q. q < k \<and> busy ?h q = 0 \<and> q \<noteq> p}"
      using B b by (auto split: if_splits)
    with F True l(2) have "free_ok k {p} ?h" by (simp add: free_ok_def)
    from put_free_ok [OF this l(2)] True show ?thesis by (simp add: same_counts_def)
  next
    case False
    have "{q. q < k \<and> busy h q = 0} = {q. q < k \<and> busy ?h q = 0}"
      using B b False l(2) by (auto split: if_splits)
    with F False show ?thesis by (simp add: free_ok_def same_counts_def)
  qed
  then obtain g where g: "(if busy ?h p = 0 then reg_file_put_free k p ?h else Inr ?h) = Inr g" "free_ok k {} g"
    "rat (hf_regs g) = rat (hf_regs h)" "phreg (hf_regs g) = phreg (hf_regs ?h)" "same_counts h g" by blast
  let ?g = "regs_upd (\<lambda>r. r\<lparr>rat := (rat r)[l := ophreg]\<rparr>) g"
  have r: "rat (hf_regs ?g) = (rat (hf_regs h))[l := ophreg]" using g(3) by simp
  have "W \<subseteq> allocated ms" using W p by auto
  then have ok': "regs_ok n k C ms W {} ?g"
    using M' [OF r] g(2) b by (simp add: regs_ok_def free_ok_def g(4))
  have "0 < uses n C ms ophreg" using rat_used(2) [OF M' [OF r] l(1)] M l(1) r by (simp add: mapping_ok_def)
  then have "busy ?g ophreg \<noteq> 0" using b(1) [OF o] g(4) by simp
  moreover have "busy h p > 0" "\<not> pending h p" using B [OF l(2)] p by simp_all
  ultimately have "reg_file_unmap k l (int p) (int ophreg) h = Inr ?g"
    unfolding reg_file_unmap_def Let_def nat_int g(1) res_bind_simps using l(2) o len by (simp add: in_file_def)
  with ok' r g(5) show ?thesis by (intro exI [of _ ?g]) (simp add: same_counts_def)
qed

lemma release_ok:
  assumes ok: "regs_ok n k C ((l, p, ophreg) # ms) W {} h" and p: "p \<notin> W"
  shows "\<exists>h'. reg_file_release k (int ophreg) h = Inr h' \<and> regs_ok n k (C(l := p)) ms W {} h' \<and> same_counts h h' \<and>
    rat (hf_regs h') = rat (hf_regs h)"
proof -
  let ?ms = "(l, p, ophreg) # ms" and ?C = "C(l := p)"
  have F: "free_ok k {} h" and M: "mapping_ok n k C ?ms h" and W: "W \<subseteq> allocated ?ms"
    and B: "\<And>q. q < k \<Longrightarrow> busy h q = uses n C ?ms q \<and> (pending h q \<longleftrightarrow> q \<in> W)" using ok by (simp_all add: regs_ok_def)
  have len: "length (phreg (hf_regs h)) = k" using F by (simp add: free_ok_def)
  have l: "l < n" "p < k" "C l = ophreg" "ophreg < k" using M by (auto simp: mapping_ok_def)
  have M': "mapping_ok n k ?C ms g" if "rat (hf_regs g) = rat (hf_regs h)" for g
    using M l that by (auto simp: mapping_ok_def)
  let ?h = "set_phreg ophreg (\<lambda>r. r\<lparr>pr_busy := pr_busy r - 1\<rparr>) h"
  have U: "uses n C ((l, p, ophreg) # ms) q = uses n ?C ms q + (if ophreg = q then 1 else 0)" for q
    by (rule uses_commit) (use l in auto)
  have b: "busy ?h q = uses n ?C ms q" "pending ?h q \<longleftrightarrow> q \<in> W" if "q < k" for q
    using B [OF that] that len U [of q] by auto
  have W': "W \<subseteq> allocated ms" using W p by auto
  have "\<exists>g. (if busy ?h ophreg = 0 then if pending ?h ophreg then Inl Assert_failed else reg_file_put_free k ophreg ?h
      else Inr ?h) = Inr g \<and> free_ok k {} g \<and>
    rat (hf_regs g) = rat (hf_regs h) \<and> phreg (hf_regs g) = phreg (hf_regs ?h) \<and> same_counts h g"
  proof (cases "busy ?h ophreg = 0")
    case True
    have "{q. q < k \<and> busy h q = 0} = {q. q < k \<and> busy ?h q = 0 \<and> q \<noteq> ophreg}"
      using B b U by (auto split: if_splits)
    with F True l(4) have "free_ok k {ophreg} ?h" by (simp add: free_ok_def)
    moreover have "\<not> pending ?h ophreg" using b [OF l(4)] True W' uses_allocated [of ophreg ms n ?C] by auto
    ultimately show ?thesis using put_free_ok [of k ophreg ?h, OF _ l(4)] True by (simp add: same_counts_def)
  next
    case False
    have "{q. q < k \<and> busy h q = 0} = {q. q < k \<and> busy ?h q = 0}"
      using B b U False l(4) by (auto split: if_splits)
    with F False show ?thesis by (simp add: free_ok_def same_counts_def)
  qed
  then obtain g where g: "(if busy ?h ophreg = 0 then if pending ?h ophreg then Inl Assert_failed
      else reg_file_put_free k ophreg ?h else Inr ?h) = Inr g" "free_ok k {} g"
    "rat (hf_regs g) = rat (hf_regs h)" "phreg (hf_regs g) = phreg (hf_regs ?h)" "same_counts h g" by blast
  have "regs_ok n k ?C ms W {} g" using M' [OF g(3)] W' g(2) b by (simp add: regs_ok_def g(4))
  moreover have "busy h ophreg > 0" using B [OF l(4)] U [of ophreg] by simp
  then have "reg_file_release k (int ophreg) h = Inr g"
    unfolding reg_file_release_def Let_def nat_int g(1) using l(4) len by (simp add: in_file_def)
  ultimately show ?thesis using g(3,5) by blast
qed

lemma clear_ok:
  assumes ok: "regs_ok n k C ms W R h" and p: "p < k"
  shows "\<exists>h'. clear_pending (int p) h = Inr h' \<and> regs_ok n k C ms (W - {p}) R h' \<and> same_counts h h' \<and>
    rat (hf_regs h') = rat (hf_regs h)"
proof -
  let ?h = "set_phreg p (\<lambda>r. r\<lparr>pr_pending := False\<rparr>) h"
  have len: "length (phreg (hf_regs h)) = k" using ok by (simp add: regs_ok_def free_ok_def)
  have b: "busy ?h q = busy h q" "pending ?h q \<longleftrightarrow> pending h q \<and> q \<noteq> p" if "q < k" for q using that len by auto
  then have "{q. q < k \<and> busy h q = 0 \<and> q \<notin> R} = {q. q < k \<and> busy ?h q = 0 \<and> q \<notin> R}" by auto
  note same = this
  have "free_ok k R h" using ok by (simp add: regs_ok_def)
  then have "free_ok k R ?h" unfolding free_ok_def same using b(1) by auto
  then have "regs_ok n k C ms (W - {p}) R ?h" using ok b by (auto simp: regs_ok_def mapping_ok_def)
  then show ?thesis using p len by (simp add: clear_pending_def in_file_def same_counts_def)
qed

text \<open>The order of mappings of different logical registers does not matter.\<close>

lemma regs_ok_reorder:
  assumes ok: "regs_ok n k C ms W R h" and same: "\<And>l. map_of_l l ms' = map_of_l l ms"
  shows "regs_ok n k C ms' W R h"
proof -
  have "count (mset ms') m = count (mset ms) m" for m
  proof -
    have "count (mset xs) m = count (mset (map_of_l (fst m) xs)) m" for xs :: "mapping list" by (simp add: count_filter_mset)
    then show ?thesis using same by metis
  qed
  then have m: "mset ms' = mset ms" by (rule multiset_eqI)
  have s: "set ms' = set ms" using m by (rule mset_eq_setD)
  have u: "uses n C ms' q = uses n C ms q" for q
  proof -
    have "size (filter_mset (\<lambda>m. fst (snd m) = q) (mset ms')) = size (filter_mset (\<lambda>m. fst (snd m) = q) (mset ms))"
      by (simp only: m)
    then have "length (filter (\<lambda>m. fst (snd m) = q) ms') = length (filter (\<lambda>m. fst (snd m) = q) ms)"
      by (simp only: mset_filter [symmetric] size_mset)
    then show ?thesis by (simp add: uses_def)
  qed
  show ?thesis using ok by (simp add: regs_ok_def mapping_ok_def same s u)
qed

end
