(* ===== verification/Reg_Rename.thy ===== *)
theory Reg_Rename
  imports Reg_Half
begin

text \<open>
  Renaming, write-back, undo and commit of one instruction on the register file of its thread. The
  mappings of an instruction are read off its fields; each operation is a loop over its dependences
  that changes one half at a time.
\<close>

section \<open>Frames\<close>

fun class_count :: "reg_class \<Rightarrow> rf_core \<Rightarrow> nat" where
  "class_count Int_class s = co_reg_file_int_count s"
| "class_count Fp_class s = co_reg_file_fp_count s"

abbreviation num_threads :: "rf_core \<Rightarrow> nat" where "num_threads s \<equiv> length (co_threads s)"

definition sum_ok :: "reg_class \<Rightarrow> rf_core \<Rightarrow> bool" where
  "sum_ok c s \<longleftrightarrow> class_count c s = (\<Sum>t < num_threads s. hf_thread_count (half_of c t s))"

text \<open>An operation on thread \<open>t\<close> changes the counter of the core for the others, and nothing else.\<close>

definition frame :: "nat \<Rightarrow> rf_core \<Rightarrow> rf_core \<Rightarrow> bool" where
  "frame t s s' \<longleftrightarrow> num_threads s' = num_threads s \<and> top_of_stack t s' = top_of_stack t s \<and>
     (\<forall>c. sum_ok c s \<longrightarrow> sum_ok c s') \<and>
     (\<forall>t'. t' \<noteq> t \<longrightarrow> top_of_stack t' s' = top_of_stack t' s \<and>
        (\<forall>c. half_of c t' s' = (half_of c t' s)\<lparr>hf_core_count := class_count c s'\<rparr>))"

lemma core_count [simp]: "hf_core_count (half_of c t s) = class_count c s"
  by (cases c) simp_all

lemma half_self [simp]: "half_of c t s\<lparr>hf_core_count := class_count c s\<rparr> = half_of c t s"
  by (cases c) simp_all

lemma frame_refl: "frame t s s"
  by (simp add: frame_def)

lemma frame_trans: "frame t s s' \<Longrightarrow> frame t s' s'' \<Longrightarrow> frame t s s''"
  by (simp add: frame_def)

lemma put_half_get:
  assumes "t < num_threads s"
  shows "half_of c t (put_half c t h s) = h"
    "c' \<noteq> c \<Longrightarrow> half_of c' t (put_half c t h s) = half_of c' t s"
    "t' \<noteq> t \<Longrightarrow> half_of c' t' (put_half c t h s) = (half_of c' t' s)\<lparr>hf_core_count := class_count c' (put_half c t h s)\<rparr>"
    "num_threads (put_half c t h s) = num_threads s" "top_of_stack t' (put_half c t h s) = top_of_stack t' s"
    "class_count c (put_half c t h s) = hf_core_count h"
    "c' \<noteq> c \<Longrightarrow> class_count c' (put_half c t h s) = class_count c' s"
  using assms by (cases c; cases c'; cases "t' = t"; simp add: upd_thread_def)+

lemma put_half_frame:
  assumes t: "t < num_threads s" and h: "same_counts (half_of c t s) h"
  shows "frame t s (put_half c t h s)"
proof -
  let ?s = "put_half c t h s"
  note P = put_half_get [OF t]
  have "sum_ok c' ?s" if ok: "sum_ok c' s" for c'
  proof (cases "c' = c")
    case True
    have split: "(\<Sum>i < num_threads s. f i) = f t + (\<Sum>i \<in> {..<num_threads s} - {t}. f i)" for f :: "nat \<Rightarrow> nat"
      using t by (intro sum.remove) simp_all
    have "(\<Sum>i \<in> {..<num_threads s} - {t}. hf_thread_count (half_of c i ?s)) =
        (\<Sum>i \<in> {..<num_threads s} - {t}. hf_thread_count (half_of c i s))" by (rule sum.cong) (auto simp: P(3))
    then show ?thesis using ok h split [of "\<lambda>i. hf_thread_count (half_of c i s)"]
        split [of "\<lambda>i. hf_thread_count (half_of c i ?s)"]
      by (simp add: sum_ok_def True P(1,4,6) same_counts_def)
  next
    case False
    have "(\<Sum>i < num_threads s. hf_thread_count (half_of c' i ?s)) = (\<Sum>i < num_threads s. hf_thread_count (half_of c' i s))"
    proof (rule sum.cong)
      fix i show "hf_thread_count (half_of c' i ?s) = hf_thread_count (half_of c' i s)"
        using P(2) [OF False, of h] P(3) [where t' = i and c' = c' and c = c and h = h] by (cases "i = t") simp_all
    qed simp
    then show ?thesis using ok False by (simp add: sum_ok_def P(4,7))
  qed
  then show ?thesis by (simp add: frame_def P)
qed

lemma on_half_step:
  assumes t: "t < num_threads s" and f: "f (half_of c t s) = Inr h'" "same_counts (half_of c t s) h'"
  shows "\<exists>s'. on_half c t f s = Inr s' \<and> half_of c t s' = h' \<and>
    (\<forall>c'. c' \<noteq> c \<longrightarrow> half_of c' t s' = half_of c' t s) \<and> frame t s s'"
  using f put_half_get(1,2) [OF t] put_half_frame [OF t f(2)] by (simp add: on_half_def)

text \<open>Statistics of the RAT.\<close>

definition same_regs :: "(rf_thread \<Rightarrow> rf_thread) \<Rightarrow> bool" where
  "same_regs f \<longleftrightarrow> (\<forall>th. th_reg_file (f th) = th_reg_file th \<and> th_reg_file_int_count (f th) = th_reg_file_int_count th \<and>
     th_reg_file_fp_count (f th) = th_reg_file_fp_count th)"

lemma upd_same:
  assumes f: "same_regs f"
  shows "half_of c t' (upd_thread t f s) = half_of c t' s" "top_of_stack t' (upd_thread t f s) = top_of_stack t' s"
    "num_threads (upd_thread t f s) = num_threads s" "class_count c (upd_thread t f s) = class_count c s"
proof -
  have "th_reg_file (thread_of (upd_thread t f s) t') = th_reg_file (thread_of s t') \<and>
    th_reg_file_int_count (thread_of (upd_thread t f s) t') = th_reg_file_int_count (thread_of s t') \<and>
    th_reg_file_fp_count (thread_of (upd_thread t f s) t') = th_reg_file_fp_count (thread_of s t')"
    using f by (cases "t < num_threads s"; cases "t' = t") (simp_all add: upd_thread_def same_regs_def list_update_beyond)
  then show "half_of c t' (upd_thread t f s) = half_of c t' s" "top_of_stack t' (upd_thread t f s) = top_of_stack t' s"
    by (cases c; simp add: upd_thread_def)+
  show "num_threads (upd_thread t f s) = num_threads s" "class_count c (upd_thread t f s) = class_count c s"
    by (cases c; simp add: upd_thread_def)+
qed

lemma upd_frame: "same_regs f \<Longrightarrow> frame t s (upd_thread t f s)"
  by (simp add: frame_def sum_ok_def upd_same)

lemma same_regs_stats [simp]:
  "same_regs (\<lambda>th. th\<lparr>th_rat_int_reads := Suc (th_rat_int_reads th)\<rparr>)"
  "same_regs (\<lambda>th. th\<lparr>th_rat_int_writes := Suc (th_rat_int_writes th)\<rparr>)"
  "same_regs (\<lambda>th. th\<lparr>th_rat_fp_reads := Suc (th_rat_fp_reads th)\<rparr>)"
  "same_regs (\<lambda>th. th\<lparr>th_rat_fp_writes := Suc (th_rat_fp_writes th)\<rparr>)"
  by (simp_all add: same_regs_def)

lemma regs_ok_core:
  "regs_ok n k C ms W R h \<Longrightarrow> hf_thread_count h \<le> x \<Longrightarrow> regs_ok n k C ms W R (h\<lparr>hf_core_count := x\<rparr>)"
  by (simp add: regs_ok_def free_ok_def mapping_ok_def)

lemma sum_ok_le: "sum_ok c s \<Longrightarrow> t < num_threads s \<Longrightarrow> hf_thread_count (half_of c t s) \<le> class_count c s"
  unfolding sum_ok_def
  using member_le_sum [of t "{..<num_threads s}" "\<lambda>t. hf_thread_count (half_of c t s)"] by simp

text \<open>The other threads keep their invariant.\<close>

lemma frame_regs_ok:
  assumes f: "frame t s s'" and sum: "sum_ok c s" and t': "t' \<noteq> t" "t' < num_threads s"
    and ok: "regs_ok n k C ms W R (half_of c t' s)"
  shows "regs_ok n k C ms W R (half_of c t' s')"
proof -
  have e: "half_of c t' s' = (half_of c t' s)\<lparr>hf_core_count := class_count c s'\<rparr>" using f t'(1) by (simp add: frame_def)
  have "hf_thread_count (half_of c t' s') \<le> class_count c s'"
    using sum_ok_le [of c s' t'] f sum t'(2) by (simp add: frame_def)
  then show ?thesis using regs_ok_core [OF ok, of "class_count c s'"] by (simp add: e)
qed

section \<open>The mappings of an instruction\<close>

fun logical :: "reg_class \<Rightarrow> nat" where
  "logical Int_class = x86_dep_int_count"
| "logical Fp_class = x86_dep_fp_count"

definition class_of :: "nat \<Rightarrow> reg_class option" where
  "class_of loreg = (if X86_DEP_IS_INT_REG loreg then Some Int_class
     else if X86_DEP_IS_FP_REG loreg then Some Fp_class else None)"

fun lreg :: "reg_class \<Rightarrow> nat \<Rightarrow> nat \<Rightarrow> nat" where
  "lreg Int_class tos loreg = loreg - x86_dep_int_first"
| "lreg Fp_class tos loreg = streg_of tos loreg - x86_dep_fp_first"

lemma streg_fp [simp]: "X86_DEP_IS_FP_REG (streg_of tos loreg)"
proof -
  have "(loreg - x86_dep_fp_first + tos) mod 8 < 8" by simp
  then show ?thesis unfolding X86_DEP_IS_FP_REG_def streg_of_def by linarith
qed

lemma lreg_less: "class_of loreg = Some c \<Longrightarrow> lreg c tos loreg < logical c"
proof (cases c)
  case Fp_class
  have "(loreg - x86_dep_fp_first + tos) mod 8 < 8" by simp
  then show "lreg c tos loreg < logical c" using Fp_class by (simp add: streg_of_def)
qed (auto simp: class_of_def X86_DEP_IS_INT_REG_def split: if_splits)

lemma int_not_fp [simp]: "X86_DEP_IS_FP_REG d \<Longrightarrow> \<not> X86_DEP_IS_INT_REG d"
  by (simp add: X86_DEP_IS_FP_REG_def X86_DEP_IS_INT_REG_def)

lemma flag_int [simp]: "X86_DEP_IS_FLAG d \<Longrightarrow> X86_DEP_IS_INT_REG d"
  by (simp add: X86_DEP_IS_FLAG_def X86_DEP_IS_INT_REG_def)

lemma class_of_simps:
  "class_of d = Some Int_class \<longleftrightarrow> X86_DEP_IS_INT_REG d"
  "class_of d = Some Fp_class \<longleftrightarrow> X86_DEP_IS_FP_REG d"
  "class_of d = None \<longleftrightarrow> \<not> X86_DEP_IS_INT_REG d \<and> \<not> X86_DEP_IS_FP_REG d"
  by (auto simp: class_of_def)

definition dep_map :: "reg_class \<Rightarrow> nat \<Rightarrow> rf_uop \<Rightarrow> nat \<Rightarrow> mapping list" where
  "dep_map c tos u d =
     (if class_of (odep u d) = Some c
      then [(lreg c tos (odep u d), nat (ru_ph_odep u ! d), nat (ru_ph_oodep u ! d))] else [])"

definition umaps :: "reg_class \<Rightarrow> nat \<Rightarrow> rf_uop \<Rightarrow> nat list \<Rightarrow> mapping list" where
  "umaps c tos u ds = concat (map (dep_map c tos u) ds)"

lemma umaps_simps [simp]:
  "umaps c tos u [] = []" "umaps c tos u (d # ds) = dep_map c tos u d @ umaps c tos u ds"
  "umaps c tos u (ds @ ds') = umaps c tos u ds @ umaps c tos u ds'"
  by (simp_all add: umaps_def)

text \<open>What renaming leaves in an instruction.\<close>

definition renamed :: "rf_uop \<Rightarrow> bool" where
  "renamed u \<longleftrightarrow> length (ui_odep (ru_uinst u)) = 4 \<and> length (ui_idep (ru_uinst u)) = 3 \<and>
     length (ru_ph_odep u) = 4 \<and> length (ru_ph_oodep u) = 4 \<and> length (ru_ph_idep u) = 3 \<and>
     (\<forall>d < 4. if class_of (odep u d) = None then ru_ph_odep u ! d = -1 \<and> ru_ph_oodep u ! d = -1
              else 0 \<le> ru_ph_odep u ! d \<and> 0 \<le> ru_ph_oodep u ! d) \<and>
     (\<forall>d < 3. class_of (idep u d) \<noteq> None \<longrightarrow> 0 \<le> ru_ph_idep u ! d)"

text \<open>Both halves of thread \<open>t\<close> satisfy the invariant of halves.\<close>

definition halves_ok ::
  "(reg_class \<Rightarrow> nat) \<Rightarrow> nat \<Rightarrow> (reg_class \<Rightarrow> nat \<Rightarrow> nat) \<Rightarrow> (reg_class \<Rightarrow> mapping list) \<Rightarrow> (reg_class \<Rightarrow> nat set) \<Rightarrow> rf_core \<Rightarrow> bool" where
  "halves_ok k t C ms W s \<longleftrightarrow> t < num_threads s \<and>
     (\<forall>c. regs_ok (logical c) (k c) (C c) (ms c) (W c) {} (half_of c t s))"

lemma halves_step:
  assumes ok: "halves_ok k t C ms W s"
    and f: "\<exists>h'. f (half_of c t s) = Inr h' \<and> regs_ok (logical c) (k c) (C' c) (ms' c) (W' c) {} h' \<and> same_counts (half_of c t s) h'"
    and other: "\<And>c'. c' \<noteq> c \<Longrightarrow> C' c' = C c' \<and> ms' c' = ms c' \<and> W' c' = W c'"
  shows "\<exists>s'. on_half c t f s = Inr s' \<and> halves_ok k t C' ms' W' s' \<and> frame t s s'"
proof -
  from f obtain h' where h: "f (half_of c t s) = Inr h'" "regs_ok (logical c) (k c) (C' c) (ms' c) (W' c) {} h'"
    "same_counts (half_of c t s) h'" by blast
  have t: "t < num_threads s" using ok by (simp add: halves_ok_def)
  from on_half_step [OF t, of f c, OF h(1,3)] obtain s' where s': "on_half c t f s = Inr s'" "half_of c t s' = h'"
    "\<forall>c'. c' \<noteq> c \<longrightarrow> half_of c' t s' = half_of c' t s" "frame t s s'" by blast
  have "regs_ok (logical c') (k c') (C' c') (ms' c') (W' c') {} (half_of c' t s')" for c'
    using h(2) s'(2,3) other ok by (cases "c' = c") (simp_all add: halves_ok_def)
  then show ?thesis using s'(1,4) t by (auto simp: halves_ok_def frame_def)
qed

section \<open>Loops over the outputs\<close>

abbreviation size_of :: "rf_cfg \<Rightarrow> reg_class \<Rightarrow> nat" where "size_of cfg \<equiv> \<lambda>c. local_size c cfg"

lemma halves_top: "halves_ok k t C ms W s \<Longrightarrow> t < num_threads s"
  by (simp add: halves_ok_def)

lemma halves_cong: "halves_ok k t C ms W s \<Longrightarrow> ms' = ms \<Longrightarrow> W' = W \<Longrightarrow> C' = C \<Longrightarrow> halves_ok k t C' ms' W' s"
  by simp

lemma dep_map_class: "class_of (odep u d) \<noteq> Some c \<Longrightarrow> dep_map c tos u d = []"
  by (simp add: dep_map_def)

lemma dep_map_None: "class_of (odep u d) = None \<Longrightarrow> dep_map c tos u d = []"
  by (rule dep_map_class) simp

lemma undo_odep_class:
  "undo_odep cfg u d s = (case class_of (odep u d) of
     None \<Rightarrow> if ru_ph_odep u ! d \<noteq> -1 \<or> ru_ph_oodep u ! d \<noteq> -1 then Inl Assert_failed else Inr s
   | Some c \<Rightarrow> on_half c (ru_thread u) (reg_file_unmap (local_size c cfg)
       (lreg c (top_of_stack (ru_thread u) s) (odep u d)) (ru_ph_odep u ! d) (ru_ph_oodep u ! d)) s)"
  by (simp add: undo_odep_def Let_def class_of_def)

lemma undo_loop:
  assumes u: "renamed u" "d \<le> 4" and t: "ru_thread u = t"
    and ok: "halves_ok (size_of cfg) t C (\<lambda>c. base c @ umaps c tos u [0..<d]) W s" and top: "top_of_stack t s = tos"
    and W: "\<forall>c. W c \<inter> allocated (umaps c tos u [0..<d]) = {}"
  shows "\<exists>s'. res_fold (undo_odep cfg u) (rev [0..<d]) s = Inr s' \<and> halves_ok (size_of cfg) t C base W s' \<and> frame t s s'"
  using u(2) ok top W
proof (induction d arbitrary: s)
  case 0
  then show ?case by (simp add: frame_refl)
next
  case (Suc d)
  let ?ms = "\<lambda>c. base c @ umaps c tos u [0..<d]"
  have up: "\<exists>s'. undo_odep cfg u d s = Inr s' \<and> halves_ok (size_of cfg) t C ?ms W s' \<and> frame t s s'"
  proof (cases "class_of (odep u d)")
    case None
    note e = dep_map_None [OF None]
    have "halves_ok (size_of cfg) t C ?ms W s" using Suc.prems(2) by (simp add: e)
    with None u(1) Suc.prems(1) show ?thesis by (auto simp: undo_odep_class renamed_def frame_refl)
  next
    case (Some c)
    let ?p = "nat (ru_ph_odep u ! d)" and ?o = "nat (ru_ph_oodep u ! d)" and ?l = "lreg c tos (odep u d)"
    have i: "int ?p = ru_ph_odep u ! d" "int ?o = ru_ph_oodep u ! d"
      using u(1) Some Suc.prems(1) by (auto simp: renamed_def split: if_splits)
    have m: "dep_map c tos u d = [(?l, ?p, ?o)]" using Some by (simp add: dep_map_def)
    have "regs_ok (logical c) (local_size c cfg) (C c) (?ms c @ [(?l, ?p, ?o)]) (W c) {} (half_of c t s)"
      unfolding m [symmetric] using Suc.prems(2) by (simp add: halves_ok_def)
    moreover have "W c \<inter> allocated (dep_map c tos u d) = {}" using Suc.prems(4) by auto
    then have "?p \<notin> W c" by (simp add: m)
    ultimately have "\<exists>h'. reg_file_unmap (local_size c cfg) ?l (int ?p) (int ?o) (half_of c t s) = Inr h' \<and>
      regs_ok (logical c) (local_size c cfg) (C c) (?ms c) (W c) {} h' \<and> same_counts (half_of c t s) h'"
      using unmap_ok by blast
    note f = this [unfolded i]
    have "\<exists>s'. on_half c t (reg_file_unmap (local_size c cfg) ?l (ru_ph_odep u ! d) (ru_ph_oodep u ! d)) s = Inr s' \<and>
      halves_ok (size_of cfg) t C ?ms W s' \<and> frame t s s'"
      using f Some by (intro halves_step [OF Suc.prems(2)]) (simp_all add: dep_map_class)
    then show ?thesis using Some t Suc.prems(3) by (simp add: undo_odep_class)
  qed
  then obtain s1 where s1: "undo_odep cfg u d s = Inr s1" "halves_ok (size_of cfg) t C ?ms W s1" "frame t s s1" by blast
  have "top_of_stack t s1 = tos" using s1(3) Suc.prems(3) by (simp add: frame_def)
  moreover have "\<forall>c. W c \<inter> allocated (umaps c tos u [0..<d]) = {}" using Suc.prems(4) by auto
  ultimately obtain s2 where "res_fold (undo_odep cfg u) (rev [0..<d]) s1 = Inr s2" "halves_ok (size_of cfg) t C base W s2"
    "frame t s1 s2" using Suc.IH [OF _ s1(2)] Suc.prems(1) by auto
  then show ?case using s1 frame_trans by (auto simp del: upt_Suc simp: upt_Suc_append)
qed

definition commit_map :: "(nat \<Rightarrow> nat) \<Rightarrow> mapping list \<Rightarrow> nat \<Rightarrow> nat" where
  "commit_map = foldl (\<lambda>C m. C(fst m := fst (snd m)))"

lemma commit_map_simps [simp]:
  "commit_map C [] = C" "commit_map C (m # ms) = commit_map (C(fst m := fst (snd m))) ms"
  "commit_map C (ms @ ms') = commit_map (commit_map C ms) ms'"
  by (simp_all add: commit_map_def)

lemma commit_odep_class:
  "commit_odep cfg u d s = (case class_of (odep u d) of
     None \<Rightarrow> if ru_ph_odep u ! d \<noteq> -1 \<or> ru_ph_oodep u ! d \<noteq> -1 then Inl Assert_failed else Inr s
   | Some c \<Rightarrow> on_half c (ru_thread u) (reg_file_release (local_size c cfg) (ru_ph_oodep u ! d)) s)"
  by (simp add: commit_odep_def Let_def class_of_def)

lemma commit_loop:
  assumes u: "renamed u" and t: "ru_thread u = t"
  shows "\<forall>d \<in> set ds. d < 4 \<Longrightarrow> halves_ok (size_of cfg) t C (\<lambda>c. umaps c tos u ds @ others c) W s \<Longrightarrow>
    \<forall>c. W c \<inter> allocated (umaps c tos u ds) = {} \<Longrightarrow>
    \<exists>s'. res_fold (commit_odep cfg u) ds s = Inr s' \<and>
      halves_ok (size_of cfg) t (\<lambda>c. commit_map (C c) (umaps c tos u ds)) others W s' \<and> frame t s s'"
proof (induction ds arbitrary: s C)
  case Nil
  then show ?case by (simp add: frame_refl)
next
  case (Cons d ds)
  let ?C = "\<lambda>c. commit_map (C c) (dep_map c tos u d)" and ?ms = "\<lambda>c. umaps c tos u ds @ others c"
  have "\<exists>s'. commit_odep cfg u d s = Inr s' \<and> halves_ok (size_of cfg) t ?C ?ms W s' \<and> frame t s s'"
  proof (cases "class_of (odep u d)")
    case None
    note e = dep_map_None [OF None]
    have "halves_ok (size_of cfg) t ?C ?ms W s" using Cons.prems(2) by (simp add: e)
    with None u Cons.prems(1) show ?thesis by (auto simp: commit_odep_class renamed_def frame_refl)
  next
    case (Some c)
    let ?p = "nat (ru_ph_odep u ! d)" and ?o = "nat (ru_ph_oodep u ! d)" and ?l = "lreg c tos (odep u d)"
    have i: "int ?o = ru_ph_oodep u ! d" using u Some Cons.prems(1) by (auto simp: renamed_def split: if_splits)
    have m: "dep_map c tos u d = [(?l, ?p, ?o)]" using Some by (simp add: dep_map_def)
    have "regs_ok (logical c) (local_size c cfg) (C c) (dep_map c tos u d @ ?ms c) (W c) {} (half_of c t s)"
      using Cons.prems(2) by (simp add: halves_ok_def)
    then have "regs_ok (logical c) (local_size c cfg) (C c) ((?l, ?p, ?o) # ?ms c) (W c) {} (half_of c t s)"
      by (simp only: m append.simps)
    moreover have "W c \<inter> allocated (dep_map c tos u d) = {}" using Cons.prems(3) by auto
    then have "?p \<notin> W c" by (simp add: m)
    ultimately have "\<exists>h'. reg_file_release (local_size c cfg) (int ?o) (half_of c t s) = Inr h' \<and>
      regs_ok (logical c) (local_size c cfg) ((C c)(?l := ?p)) (?ms c) (W c) {} h' \<and> same_counts (half_of c t s) h'"
      using release_ok by blast
    note f = this [unfolded i]
    have "\<exists>s'. on_half c t (reg_file_release (local_size c cfg) (ru_ph_oodep u ! d)) s = Inr s' \<and>
      halves_ok (size_of cfg) t ?C ?ms W s' \<and> frame t s s'"
      using f Some m by (intro halves_step [OF Cons.prems(2)]) (simp_all add: dep_map_class)
    then show ?thesis using Some t by (simp add: commit_odep_class)
  qed
  then obtain s1 where s1: "commit_odep cfg u d s = Inr s1" "halves_ok (size_of cfg) t ?C ?ms W s1" "frame t s s1" by blast
  from Cons.IH [OF _ s1(2)] Cons.prems(1,3) obtain s2 where "res_fold (commit_odep cfg u) ds s1 = Inr s2"
    "halves_ok (size_of cfg) t (\<lambda>c. commit_map (?C c) (umaps c tos u ds)) others W s2" "frame t s1 s2" by auto
  then show ?case using s1 frame_trans by auto
qed

lemma write_odep_class:
  "write_odep u d s = (case class_of (odep u d) of
     None \<Rightarrow> Inr s | Some c \<Rightarrow> on_half c (ru_thread u) (clear_pending (ru_ph_odep u ! d)) s)"
  by (simp add: write_odep_def class_of_def)

lemma write_loop:
  assumes u: "renamed u" and t: "ru_thread u = t"
  shows "\<forall>d \<in> set ds. d < 4 \<Longrightarrow> halves_ok k t C ms W s \<Longrightarrow> \<forall>c. allocated (umaps c tos u ds) \<subseteq> {..<k c} \<Longrightarrow>
    \<exists>s'. res_fold (write_odep u) ds s = Inr s' \<and>
      halves_ok k t C ms (\<lambda>c. W c - allocated (umaps c tos u ds)) s' \<and> frame t s s'"
proof (induction ds arbitrary: s W)
  case Nil
  then show ?case by (simp add: frame_refl)
next
  case (Cons d ds)
  let ?W = "\<lambda>c. W c - allocated (dep_map c tos u d)"
  have "\<exists>s'. write_odep u d s = Inr s' \<and> halves_ok k t C ms ?W s' \<and> frame t s s'"
  proof (cases "class_of (odep u d)")
    case None
    note e = dep_map_None [OF None]
    have "halves_ok k t C ms ?W s" using Cons.prems(2) by (simp add: e)
    with None show ?thesis by (auto simp: write_odep_class frame_refl)
  next
    case (Some c)
    let ?p = "nat (ru_ph_odep u ! d)" and ?o = "nat (ru_ph_oodep u ! d)" and ?l = "lreg c tos (odep u d)"
    have i: "int ?p = ru_ph_odep u ! d" using u Some Cons.prems(1) by (auto simp: renamed_def split: if_splits)
    have m: "dep_map c tos u d = [(?l, ?p, ?o)]" using Some by (simp add: dep_map_def)
    have r: "regs_ok (logical c) (k c) (C c) (ms c) (W c) {} (half_of c t s)" using Cons.prems(2) by (simp add: halves_ok_def)
    have "allocated (dep_map c tos u d) \<subseteq> {..<k c}" using Cons.prems(3) by (auto simp: image_Un)
    then have "?p < k c" by (simp add: m)
    from clear_ok [OF r this] have f: "\<exists>h'. clear_pending (ru_ph_odep u ! d) (half_of c t s) = Inr h' \<and>
      regs_ok (logical c) (k c) (C c) (ms c) (W c - {?p}) {} h' \<and> same_counts (half_of c t s) h'" unfolding i by blast
    have "\<exists>s'. on_half c t (clear_pending (ru_ph_odep u ! d)) s = Inr s' \<and> halves_ok k t C ms ?W s' \<and> frame t s s'"
      using f Some m by (intro halves_step [OF Cons.prems(2)]) (simp_all add: dep_map_class)
    then show ?thesis using Some t by (simp add: write_odep_class)
  qed
  then obtain s1 where s1: "write_odep u d s = Inr s1" "halves_ok k t C ms ?W s1" "frame t s s1" by blast
  from Cons.IH [OF _ s1(2)] Cons.prems(1,3) obtain s2 where s2: "res_fold (write_odep u) ds s1 = Inr s2"
    "halves_ok k t C ms (\<lambda>c. ?W c - allocated (umaps c tos u ds)) s2" "frame t s1 s2" by auto
  have "(\<lambda>c. ?W c - allocated (umaps c tos u ds)) = (\<lambda>c. W c - allocated (umaps c tos u (d # ds)))" by (rule ext) auto
  then show ?case using s1 s2 frame_trans by auto
qed

section \<open>Renaming inputs\<close>

abbreviation same_view :: "nat \<Rightarrow> rf_core \<Rightarrow> rf_core \<Rightarrow> bool" where
  "same_view t s s' \<equiv> frame t s s' \<and> (\<forall>c. half_of c t s' = half_of c t s)"

definition idep_val :: "nat \<Rightarrow> rf_core \<Rightarrow> rf_uop \<Rightarrow> nat \<Rightarrow> int" where
  "idep_val t s u d = (case class_of (idep u d) of None \<Rightarrow> -1
     | Some c \<Rightarrow> int (rat (hf_regs (half_of c t s)) ! lreg c (top_of_stack t s) (idep u d)))"

lemma rename_idep_step:
  assumes "ru_thread u = t"
  shows "\<exists>s'. rename_idep d (s, u) = Inr (s', u\<lparr>ru_ph_idep := (ru_ph_idep u)[d := idep_val t s u d]\<rparr>) \<and> same_view t s s'"
  using assms by (auto simp: rename_idep_def Let_def idep_val_def class_of_def upd_same upd_frame frame_refl)

lemma idep_val_view: "same_view t s s' \<Longrightarrow> idep_val t s' u d = idep_val t s u d"
  by (auto simp: idep_val_def frame_def split: option.split)

lemma rename_ideps:
  assumes t: "ru_thread u = t"
  shows "\<exists>s'. res_fold rename_idep [0..<X86_UINST_MAX_IDEPS] (s, u) =
      Inr (s', u\<lparr>ru_ph_idep := (ru_ph_idep u)[0 := idep_val t s u 0, 1 := idep_val t s u 1, 2 := idep_val t s u 2]\<rparr>) \<and>
    same_view t s s'"
proof -
  let ?u1 = "u\<lparr>ru_ph_idep := (ru_ph_idep u)[0 := idep_val t s u 0]\<rparr>"
  let ?u2 = "?u1\<lparr>ru_ph_idep := (ru_ph_idep ?u1)[1 := idep_val t s u 1]\<rparr>"
  have v: "idep_val t x (u\<lparr>ru_ph_idep := y\<rparr>) d = idep_val t x u d" for x y d by (simp add: idep_val_def split: option.split)
  from rename_idep_step [OF t, of 0 s] obtain s1 where s1: "rename_idep 0 (s, u) = Inr (s1, ?u1)" "same_view t s s1" by blast
  from rename_idep_step [of ?u1 t 1 s1] t obtain s2 where
    s2: "rename_idep 1 (s1, ?u1) = Inr (s2, ?u2)" "same_view t s1 s2" by (auto simp: v idep_val_view [OF s1(2)])
  have s02: "same_view t s s2" using s1(2) s2(2) frame_trans by auto
  from rename_idep_step [of ?u2 t 2 s2] t obtain s3 where
    s3: "rename_idep 2 (s2, ?u2) = Inr (s3, ?u2\<lparr>ru_ph_idep := (ru_ph_idep ?u2)[2 := idep_val t s u 2]\<rparr>)" "same_view t s2 s3"
    by (auto simp: v idep_val_view [OF s02])
  have "[0..<X86_UINST_MAX_IDEPS] = [0, 1, 2]" by (simp add: upt_rec)
  then show ?thesis using s1(1) s2(1) s3 s02 frame_trans by (auto simp: numeral_2_eq_2)
qed

section \<open>Renaming outputs\<close>

lemma uses_app: "uses n C (ms @ ms') q = uses n C ms q + length (filter (\<lambda>m. fst (snd m) = q) ms')"
  by (simp add: uses_def)

lemma alloc_ok:
  assumes ok: "regs_ok n k C ms W {} h" and some: "0 < free_count h" and l: "l < n"
  shows "\<exists>h1 p h2. reg_file_reclaim h = Inr (h1, p) \<and> reg_file_map l p h1 = (h2, rat (hf_regs h) ! l) \<and>
    regs_ok n k C (ms @ [(l, p, rat (hf_regs h) ! l)]) (insert p W) {} h2 \<and> uses n C ms p = 0 \<and>
    free_count h2 + 1 = free_count h \<and> same_counts h h2"
proof -
  from reclaim_ok [OF ok some] obtain h1 p where h1: "reg_file_reclaim h = Inr (h1, p)" "regs_ok n k C ms W {p} h1" "p < k"
    "busy h1 p = 0" "free_count h1 = free_count h - 1" "rat (hf_regs h1) = rat (hf_regs h)" "same_counts h h1" by blast
  from map_ok [OF h1(2) l h1(3)] h1(6) obtain h2 where h2: "reg_file_map l p h1 = (h2, rat (hf_regs h) ! l)"
    "regs_ok n k C (ms @ [(l, p, rat (hf_regs h) ! l)]) (insert p W) {} h2" "free_count h2 = free_count h1" "same_counts h1 h2"
    by auto
  have "uses n C ms p = 0" using h1(2,3,4) by (simp add: regs_ok_def)
  then show ?thesis using h1 h2 some by (auto simp: same_counts_def)
qed

fun write_stat :: "reg_class \<Rightarrow> rf_thread \<Rightarrow> rf_thread" where
  "write_stat Int_class = (\<lambda>th. th\<lparr>th_rat_int_writes := th_rat_int_writes th + 1\<rparr>)"
| "write_stat Fp_class = (\<lambda>th. th\<lparr>th_rat_fp_writes := th_rat_fp_writes th + 1\<rparr>)"

lemma same_write_stat: "same_regs (write_stat c)"
  by (cases c) simp_all

lemma rename_odep_class:
  "rename_odep d (s, u, flag_phreg, flag_count) =
    (if X86_DEP_IS_FLAG (odep u d) then Inr (s, u, flag_phreg, flag_count + 1)
     else case class_of (odep u d) of
       None \<Rightarrow> Inr (s, set_outputs d (-1) (-1) u, flag_phreg, flag_count)
     | Some c \<Rightarrow> res_bind (reg_file_reclaim (half_of c (ru_thread u) s)) (\<lambda>(h, p).
         let (h, ophreg) = reg_file_map (lreg c (top_of_stack (ru_thread u) s) (odep u d)) p h in
         Inr (upd_thread (ru_thread u) (write_stat c) (put_half c (ru_thread u) h s), set_outputs d (int p) (int ophreg) u,
              if c = Int_class \<and> flag_phreg < 0 then int p else flag_phreg, flag_count)))"
  by (auto simp: rename_odep_def Let_def class_of_def split: prod.splits intro!: arg_cong2 [where f = res_bind])

abbreviation plain :: "rf_uop \<Rightarrow> nat list \<Rightarrow> nat list" where
  "plain u ds \<equiv> filter (\<lambda>d. \<not> X86_DEP_IS_FLAG (odep u d)) ds"

abbreviation flags :: "rf_uop \<Rightarrow> nat list \<Rightarrow> nat list" where
  "flags u ds \<equiv> filter (\<lambda>d. X86_DEP_IS_FLAG (odep u d)) ds"

lemma set_outputs_fields [simp]:
  "ru_thread (set_outputs d p q u) = ru_thread u" "ru_uinst (set_outputs d p q u) = ru_uinst u"
  "ru_ph_idep (set_outputs d p q u) = ru_ph_idep u"
  "ru_ph_odep (set_outputs d p q u) = (ru_ph_odep u)[d := p]" "ru_ph_oodep (set_outputs d p q u) = (ru_ph_oodep u)[d := q]"
  by (simp_all add: set_outputs_def)

lemma umaps_outputs: "d \<notin> set ds \<Longrightarrow> umaps c tos (set_outputs d p q u) ds = umaps c tos u ds"
  by (induction ds) (simp_all add: dep_map_def)

text \<open>What the loops over outputs leave of the fields of an instruction.\<close>

definition only_outputs :: "rf_uop \<Rightarrow> rf_uop \<Rightarrow> bool" where
  "only_outputs u v \<longleftrightarrow> (\<exists>a b. length a = length (ru_ph_odep u) \<and> length b = length (ru_ph_oodep u) \<and>
     v = u\<lparr>ru_ph_odep := a, ru_ph_oodep := b\<rparr>)"

lemma only_outputs_set: "only_outputs u v \<Longrightarrow> only_outputs u (set_outputs d p q v)"
proof -
  assume "only_outputs u v"
  then obtain a b where "length a = length (ru_ph_odep u)" "length b = length (ru_ph_oodep u)"
    "v = u\<lparr>ru_ph_odep := a, ru_ph_oodep := b\<rparr>" by (auto simp: only_outputs_def)
  then show ?thesis unfolding only_outputs_def set_outputs_def
    by (intro exI [of _ "a[d := p]"] exI [of _ "b[d := q]"]) simp
qed

lemma only_outputs_refl: "only_outputs u u"
  unfolding only_outputs_def by (intro exI [of _ "ru_ph_odep u"] exI [of _ "ru_ph_oodep u"]) simp

definition output_ok :: "rf_uop \<Rightarrow> nat \<Rightarrow> bool" where
  "output_ok u d \<longleftrightarrow> (if class_of (odep u d) = None then ru_ph_odep u ! d = -1 \<and> ru_ph_oodep u ! d = -1
     else 0 \<le> ru_ph_odep u ! d \<and> 0 \<le> ru_ph_oodep u ! d)"

end
