(* ===== verification/Reg_Output.thy ===== *)
theory Reg_Output
  imports Reg_Rename
begin

text \<open>
  Renaming of the outputs of an instruction: first the registers that are not flags, one physical register
  each, then the flags, which share one of these or a register of their own.
\<close>

declare half_of.simps [simp del] put_half.simps [simp del]

section \<open>Registers that are not flags\<close>

definition outputs_inv ::
  "(reg_class \<Rightarrow> nat) \<Rightarrow> nat \<Rightarrow> nat \<Rightarrow> (reg_class \<Rightarrow> nat \<Rightarrow> nat) \<Rightarrow> (reg_class \<Rightarrow> mapping list) \<Rightarrow> (reg_class \<Rightarrow> nat set) \<Rightarrow>
   rf_core \<Rightarrow> rf_uop \<Rightarrow> nat \<Rightarrow> rf_core \<times> rf_uop \<times> int \<times> nat \<Rightarrow> bool" where
  "outputs_inv k t tos C base W s0 u0 d = (\<lambda>(s, u, flag_phreg, flag_count).
     let ms = \<lambda>c. umaps c tos u (plain u0 [0..<d]) in
     only_outputs u0 u \<and> frame t s0 s \<and>
     halves_ok k t C (\<lambda>c. base c @ ms c) (\<lambda>c. W c \<union> allocated (ms c)) s \<and>
     (\<forall>c. \<forall>p \<in> allocated (ms c). uses (logical c) (C c) (base c) p = 0) \<and>
     (\<forall>c. free_count (half_of c t s) + length (ms c) = free_count (half_of c t s0)) \<and>
     (if ms Int_class = [] then flag_phreg = -1 else \<exists>p. flag_phreg = int p \<and> p \<in> allocated (ms Int_class)) \<and>
     flag_count = length (flags u0 [0..<d]) \<and> (\<forall>i \<in> set (plain u0 [0..<d]). output_ok u i))"

definition need :: "reg_class \<Rightarrow> rf_uop \<Rightarrow> nat" where
  "need c u = length (filter (\<lambda>d. class_of (odep u d) = Some c) (plain u [0..<4]))"

lemma length_umaps: "length (umaps c tos u ds) = length (filter (\<lambda>d. class_of (odep u d) = Some c) ds)"
  by (induction ds) (simp_all add: dep_map_def)

lemma outputs_only: "only_outputs u0 u \<Longrightarrow> ru_thread u = ru_thread u0 \<and> ru_uinst u = ru_uinst u0 \<and>
    length (ru_ph_odep u) = length (ru_ph_odep u0) \<and> length (ru_ph_oodep u) = length (ru_ph_oodep u0)"
  by (auto simp: only_outputs_def)

lemma need_more:
  assumes "d < 4" "class_of (odep u d) = Some c" "\<not> X86_DEP_IS_FLAG (odep u d)"
  shows "length (filter (\<lambda>d. class_of (odep u d) = Some c) (plain u [0..<d])) < need c u"
proof -
  have "[0..<4] = [0..<d] @ d # [Suc d..<4]" using upt_add_eq_append [of 0 d "4 - d"] assms(1) by (simp add: upt_conv_Cons)
  then show ?thesis using assms(2,3) by (simp add: need_def)
qed

lemma outputs_step:
  assumes inv: "outputs_inv k t tos C base W s0 u0 d (s, u, flag_phreg, flag_count)"
    and t: "ru_thread u0 = t" and tos: "top_of_stack t s0 = tos" and d: "d < 4"
    and len: "length (ru_ph_odep u0) = 4" "length (ru_ph_oodep u0) = 4"
    and room: "\<forall>c. need c u0 \<le> free_count (half_of c t s0)"
  shows "\<exists>r. rename_odep d (s, u, flag_phreg, flag_count) = Inr r \<and> outputs_inv k t tos C base W s0 u0 (Suc d) r"
proof -
  let ?ms = "\<lambda>c. umaps c tos u (plain u0 [0..<d])"
  have o: "only_outputs u0 u" and fr: "frame t s0 s"
    and H: "halves_ok k t C (\<lambda>c. base c @ ?ms c) (\<lambda>c. W c \<union> allocated (?ms c)) s"
    and fresh: "\<forall>c. \<forall>p \<in> allocated (?ms c). uses (logical c) (C c) (base c) p = 0"
    and cnt: "\<forall>c. free_count (half_of c t s) + length (?ms c) = free_count (half_of c t s0)"
    and fp: "if ?ms Int_class = [] then flag_phreg = -1 else \<exists>p. flag_phreg = int p \<and> p \<in> allocated (?ms Int_class)"
    and fc: "flag_count = length (flags u0 [0..<d])" and out: "\<forall>i \<in> set (plain u0 [0..<d]). output_ok u i"
    using inv by (simp_all add: outputs_inv_def)
  note O = outputs_only [OF o]
  have tos': "top_of_stack t s = tos" using fr tos by (simp add: frame_def)
  have d': "d \<notin> set (plain u0 [0..<d])" by simp
  show ?thesis
  proof (cases "X86_DEP_IS_FLAG (odep u d)")
    case True
    then have "plain u0 [0..<Suc d] = plain u0 [0..<d]" "flags u0 [0..<Suc d] = flags u0 [0..<d] @ [d]" using O by simp_all
    moreover have "rename_odep d (s, u, flag_phreg, flag_count) = Inr (s, u, flag_phreg, flag_count + 1)"
      using True by (simp add: rename_odep_class)
    ultimately show ?thesis using inv by (simp add: outputs_inv_def del: upt_Suc)
  next
    case False
    then have pl: "plain u0 [0..<Suc d] = plain u0 [0..<d] @ [d]" "flags u0 [0..<Suc d] = flags u0 [0..<d]" using O by simp_all
    have keep: "umaps c tos (set_outputs d p q u) (plain u0 [0..<Suc d]) = ?ms c @ dep_map c tos (set_outputs d p q u) d"
      "\<forall>i \<in> set (plain u0 [0..<d]). output_ok (set_outputs d p q u) i" for c p q
      using out by (auto simp: pl umaps_outputs output_ok_def simp del: upt_Suc)
    show ?thesis
    proof (cases "class_of (odep u d)")
      case None
      let ?u = "set_outputs d (-1) (-1) u"
      have e: "dep_map c tos ?u d = []" for c using None by (simp add: dep_map_def)
      have "output_ok ?u d" using None d len O by (simp add: output_ok_def)
      then have out': "\<forall>i \<in> set (plain u0 [0..<Suc d]). output_ok ?u i" using keep(2) by (simp add: pl(1) del: upt_Suc)
      have k1: "umaps c tos ?u (plain u0 [0..<Suc d]) = ?ms c" for c using keep(1) e by (simp del: upt_Suc)
      have "outputs_inv k t tos C base W s0 u0 (Suc d) (s, ?u, flag_phreg, flag_count)"
        unfolding outputs_inv_def prod.case Let_def k1
        using only_outputs_set [OF o] fr H fresh cnt fp fc out' pl(2) by (intro conjI) simp_all
      then show ?thesis using False None by (simp add: rename_odep_class)
    next
      case (Some c)
      have l: "lreg c tos (odep u d) < logical c" by (rule lreg_less [OF Some])
      have ok: "regs_ok (logical c) (k c) (C c) (base c @ ?ms c) (W c \<union> allocated (?ms c)) {} (half_of c t s)"
        using H by (simp add: halves_ok_def)
      have "length (?ms c) < need c u0" unfolding length_umaps
        using need_more [OF d, of u0 c] Some False O by simp
      then have some: "0 < free_count (half_of c t s)" using cnt room [rule_format, of c] by (metis add_cancel_left_left leD not_gr_zero)
      from alloc_ok [OF ok some l] obtain h1 p h2 where
        a: "reg_file_reclaim (half_of c t s) = Inr (h1, p)"
        "reg_file_map (lreg c tos (odep u d)) p h1 = (h2, rat (hf_regs (half_of c t s)) ! lreg c tos (odep u d))"
        "regs_ok (logical c) (k c) (C c) ((base c @ ?ms c) @ [(lreg c tos (odep u d), p, rat (hf_regs (half_of c t s)) ! lreg c tos (odep u d))])
           (insert p (W c \<union> allocated (?ms c))) {} h2"
        "uses (logical c) (C c) (base c @ ?ms c) p = 0" "free_count h2 + 1 = free_count (half_of c t s)"
        "same_counts (half_of c t s) h2" by blast
      let ?q = "rat (hf_regs (half_of c t s)) ! lreg c tos (odep u d)"
      let ?u = "set_outputs d (int p) (int ?q) u"
      let ?s = "upd_thread t (write_stat c) (put_half c t h2 s)"
      let ?fp = "if c = Int_class \<and> flag_phreg < 0 then int p else flag_phreg"
      have step: "rename_odep d (s, u, flag_phreg, flag_count) = Inr (?s, ?u, ?fp, flag_count)"
        using False Some a(1,2) t O tos' by (simp add: rename_odep_class)
      have dm: "dep_map c' tos ?u d = (if c' = c then [(lreg c tos (odep u d), p, ?q)] else [])" for c'
        using Some d len O by (simp add: dep_map_def)
      have T: "t < num_threads s" using H by (simp add: halves_ok_def)
      have f1: "frame t s (put_half c t h2 s)" by (rule put_half_frame [OF T a(6)])
      have f2: "frame t s ?s" using frame_trans [OF f1 upd_frame [OF same_write_stat]] .
      have hv: "half_of c' t ?s = (if c' = c then h2 else half_of c' t s)" for c'
        using put_half_get(1,2) [OF T] by (simp add: upd_same [OF same_write_stat])
      have H': "halves_ok k t C (\<lambda>c. base c @ umaps c tos ?u (plain u0 [0..<Suc d]))
          (\<lambda>c. W c \<union> allocated (umaps c tos ?u (plain u0 [0..<Suc d]))) ?s"
        unfolding halves_ok_def keep dm
      proof (intro conjI allI)
        show "t < num_threads ?s" using T f2 by (simp add: frame_def)
        fix c'
        show "regs_ok (logical c') (k c') (C c') (base c' @ ?ms c' @ (if c' = c then [(lreg c tos (odep u d), p, ?q)] else []))
            (W c' \<union> allocated (?ms c' @ (if c' = c then [(lreg c tos (odep u d), p, ?q)] else []))) {} (half_of c' t ?s)"
          using a(3) H by (cases "c' = c") (simp_all add: hv halves_ok_def insert_commute)
      qed
      have "uses (logical c) (C c) (base c) p = 0" using a(4) by (simp add: uses_app)
      then have fresh': "\<forall>c. \<forall>p \<in> allocated (umaps c tos ?u (plain u0 [0..<Suc d])). uses (logical c) (C c) (base c) p = 0"
        using fresh unfolding keep dm by auto
      have cnt': "\<forall>c. free_count (half_of c t ?s) + length (umaps c tos ?u (plain u0 [0..<Suc d])) = free_count (half_of c t s0)"
        using cnt a(5) unfolding keep dm hv by (auto split: if_splits) (metis add.commute add.left_commute plus_1_eq_Suc)
      have fp': "if umaps Int_class tos ?u (plain u0 [0..<Suc d]) = [] then ?fp = -1
          else \<exists>p. ?fp = int p \<and> p \<in> allocated (umaps Int_class tos ?u (plain u0 [0..<Suc d]))"
        using fp unfolding keep dm by (auto split: if_splits)
      have "output_ok ?u d" using Some d len O by (simp add: output_ok_def)
      then have out': "\<forall>i \<in> set (plain u0 [0..<Suc d]). output_ok ?u i" using keep(2) by (simp add: pl(1) del: upt_Suc)
      have "outputs_inv k t tos C base W s0 u0 (Suc d) (?s, ?u, ?fp, flag_count)"
        unfolding outputs_inv_def Let_def prod.case
        using only_outputs_set [OF o] frame_trans [OF fr f2] H' fresh' cnt' fp' fc out' pl(2) by (intro conjI) simp_all
      then show ?thesis using step by blast
    qed
  qed
qed

section \<open>Flags\<close>

definition flags_inv ::
  "(reg_class \<Rightarrow> nat) \<Rightarrow> nat \<Rightarrow> nat \<Rightarrow> (reg_class \<Rightarrow> nat \<Rightarrow> nat) \<Rightarrow> (reg_class \<Rightarrow> mapping list) \<Rightarrow> (reg_class \<Rightarrow> nat set) \<Rightarrow>
   rf_core \<Rightarrow> rf_uop \<Rightarrow> nat \<Rightarrow> nat \<Rightarrow> rf_core \<times> rf_uop \<Rightarrow> bool" where
  "flags_inv k t tos C base W s0 u0 p d = (\<lambda>(s, u).
     let ms = \<lambda>c. umaps c tos u (plain u0 [0..<4]) @ umaps c tos u (flags u0 [0..<d]) in
     only_outputs u0 u \<and> frame t s0 s \<and> t < num_threads s \<and>
     (\<forall>c. regs_ok (logical c) (k c) (C c) (base c @ ms c) (W c \<union> allocated (ms c))
        (if c = Int_class \<and> p \<notin> allocated (ms c) then {p} else {}) (half_of c t s)) \<and>
     p < k Int_class \<and> uses 22 (C Int_class) (base Int_class) p = 0 \<and>
     (flags u0 [0..<d] \<noteq> [] \<longrightarrow> p \<in> allocated (ms Int_class)) \<and>
     (\<forall>c. \<forall>p \<in> allocated (ms c). uses (logical c) (C c) (base c) p = 0) \<and>
     (\<forall>i \<in> set (plain u0 [0..<4] @ flags u0 [0..<d]). output_ok u i))"

lemma flags_step:
  assumes inv: "flags_inv k t tos C base W s0 u0 p d (s, u)" and t: "ru_thread u0 = t" and d: "d < 4"
    and len: "length (ru_ph_odep u0) = 4" "length (ru_ph_oodep u0) = 4"
  shows "flags_inv k t tos C base W s0 u0 p (Suc d) (rename_flag p d (s, u))"
proof -
  let ?N = "\<lambda>u c. umaps c tos u (plain u0 [0..<4])" and ?F = "\<lambda>u d c. umaps c tos u (flags u0 [0..<d])"
  have o: "only_outputs u0 u" and fr: "frame t s0 s" and T: "t < num_threads s"
    and H: "\<And>c. regs_ok (logical c) (k c) (C c) (base c @ ?N u c @ ?F u d c) (W c \<union> allocated (?N u c @ ?F u d c))
        (if c = Int_class \<and> p \<notin> allocated (?N u c @ ?F u d c) then {p} else {}) (half_of c t s)"
    and p: "p < k Int_class" "uses 22 (C Int_class) (base Int_class) p = 0"
    and fresh: "\<forall>c. \<forall>p \<in> allocated (?N u c @ ?F u d c). uses (logical c) (C c) (base c) p = 0"
    and out: "\<forall>i \<in> set (plain u0 [0..<4] @ flags u0 [0..<d]). output_ok u i"
    using inv by (simp_all add: flags_inv_def)
  note O = outputs_only [OF o]
  show ?thesis
  proof (cases "X86_DEP_IS_FLAG (odep u d)")
    case False
    then have "flags u0 [0..<Suc d] = flags u0 [0..<d]" using O by simp
    then show ?thesis using inv False by (simp add: rename_flag_def flags_inv_def del: upt_Suc)
  next
    case True
    then have fl: "flags u0 [0..<Suc d] = flags u0 [0..<d] @ [d]" and dp: "d \<notin> set (plain u0 [0..<4])" using O by simp_all
    let ?l = "odep u d - x86_dep_int_first"
    have l: "?l < 22" using True by (auto simp: X86_DEP_IS_FLAG_def)
    let ?h = "half_of Int_class t s"
    let ?q = "rat (hf_regs ?h) ! ?l"
    have HI: "regs_ok 22 (k Int_class) (C Int_class) (base Int_class @ ?N u Int_class @ ?F u d Int_class)
        (W Int_class \<union> allocated (?N u Int_class @ ?F u d Int_class))
        (if p \<notin> allocated (?N u Int_class @ ?F u d Int_class) then {p} else {}) ?h"
      using H [of Int_class] by simp
    have "p \<in> (if p \<notin> allocated (?N u Int_class @ ?F u d Int_class) then {p} else {}) \<or> 0 < busy ?h p"
    proof (cases "p \<in> allocated (?N u Int_class @ ?F u d Int_class)")
      case True
      then have "p \<in> allocated (base Int_class @ ?N u Int_class @ ?F u d Int_class)" by auto
      from uses_allocated [OF this] HI p(1) show ?thesis by (simp add: regs_ok_def)
    qed simp
    from map_ok [OF HI l p(1) this] obtain h2 where
      m: "reg_file_map ?l p ?h = (h2, ?q)" "same_counts ?h h2"
      "regs_ok 22 (k Int_class) (C Int_class) ((base Int_class @ ?N u Int_class @ ?F u d Int_class) @ [(?l, p, ?q)])
        (insert p (W Int_class \<union> allocated (?N u Int_class @ ?F u d Int_class)))
        ((if p \<notin> allocated (?N u Int_class @ ?F u d Int_class) then {p} else {}) - {p}) h2" by blast
    let ?u = "set_outputs d (int p) (int ?q) u" and ?s = "put_half Int_class t h2 s"
    have step: "rename_flag p d (s, u) = (?s, ?u)" using True m(1) t O by (simp add: rename_flag_def)
    have dm: "dep_map c tos ?u d = (if c = Int_class then [(?l, p, ?q)] else [])" for c
      using True d len O by (cases c) (simp_all add: dep_map_def class_of_def)
    have ms: "?N ?u c @ ?F ?u (Suc d) c = (?N u c @ ?F u d c) @ (if c = Int_class then [(?l, p, ?q)] else [])" for c
    proof -
      have nd: "?N ?u c = ?N u c" by (rule umaps_outputs [OF dp])
      have fd: "?F ?u d c = ?F u d c" by (rule umaps_outputs) simp
      show ?thesis by (simp only: fl umaps_simps nd fd dm append_assoc append_Nil2)
    qed
    have hv: "half_of c t ?s = (if c = Int_class then h2 else half_of c t s)" for c
      using put_half_get(1,2) [OF T] by simp
    have f: "frame t s ?s" by (rule put_half_frame [OF T m(2)])
    have e: "((if p \<notin> allocated (?N u Int_class @ ?F u d Int_class) then {p} else {}) - {p}) = {}" by simp
    have "regs_ok (logical c) (k c) (C c) (base c @ ?N ?u c @ ?F ?u (Suc d) c) (W c \<union> allocated (?N ?u c @ ?F ?u (Suc d) c))
        (if c = Int_class \<and> p \<notin> allocated (?N ?u c @ ?F ?u (Suc d) c) then {p} else {}) (half_of c t ?s)" for c
      using m(3) H [of c] unfolding ms hv e by (cases "c = Int_class") (simp_all add: insert_commute)
    moreover have "\<forall>c. \<forall>p \<in> allocated (?N ?u c @ ?F ?u (Suc d) c). uses (logical c) (C c) (base c) p = 0"
      using fresh p(2) unfolding ms by auto
    moreover have "output_ok ?u d" using True d len O by (simp add: output_ok_def class_of_def)
    then have "\<forall>i \<in> set (plain u0 [0..<4] @ flags u0 [0..<Suc d]). output_ok ?u i"
    proof -
      have "output_ok ?u i" if "i \<in> set (plain u0 [0..<4] @ flags u0 [0..<d])" for i
      proof -
        have "i \<noteq> d" using that dp by auto
        then show ?thesis using out that by (simp add: output_ok_def)
      qed
      with \<open>output_ok ?u d\<close> show ?thesis unfolding fl by auto
    qed
    moreover have "t < num_threads ?s" using T f by (simp add: frame_def)
    moreover have "p \<in> allocated (?N ?u Int_class @ ?F ?u (Suc d) Int_class)" unfolding ms by simp
    ultimately show ?thesis
      unfolding step flags_inv_def Let_def prod.case using only_outputs_set [OF o] frame_trans [OF fr f] p by blast
  qed
qed

lemma flags_fold:
  assumes "flags_inv k t tos C base W s0 u0 p 0 r" "ru_thread u0 = t" "length (ru_ph_odep u0) = 4" "length (ru_ph_oodep u0) = 4"
  shows "n \<le> 4 \<Longrightarrow> flags_inv k t tos C base W s0 u0 p n (fold (rename_flag p) [0..<n] r)"
proof (induction n)
  case (Suc n)
  then show ?case using flags_step [OF _ assms(2) _ assms(3,4)] by (cases "fold (rename_flag p) [0..<n] r") simp
qed (use assms(1) in simp)

text \<open>Flags and other registers are different logical registers: the order of the two loops does not matter.\<close>

lemma map_of_umaps:
  "map_of_l l (umaps c tos u ds) =
   umaps c tos u (filter (\<lambda>d. class_of (odep u d) = Some c \<and> lreg c tos (odep u d) = l) ds)"
  by (induction ds) (simp_all add: dep_map_def)

lemma flag_lreg:
  assumes "class_of x = Some c" "class_of y = Some c" "lreg c tos x = lreg c tos y" "X86_DEP_IS_FLAG x"
  shows "X86_DEP_IS_FLAG y"
proof (cases c)
  case Int_class
  then have "x86_dep_int_first \<le> x" "x86_dep_int_first \<le> y" "x - x86_dep_int_first = y - x86_dep_int_first"
    using assms(1-3) by (simp_all add: class_of_simps X86_DEP_IS_INT_REG_def)
  then have "x = y" by linarith
  with assms(4) show ?thesis by simp
next
  case Fp_class
  with assms(1,4) show ?thesis using int_not_fp [of x] flag_int [of x] by (simp add: class_of_simps)
qed

lemma reorder_umaps: "map_of_l l (umaps c tos u (plain u ds) @ umaps c tos u (flags u ds)) = map_of_l l (umaps c tos u ds)"
proof -
  let ?Q = "\<lambda>d. class_of (odep u d) = Some c \<and> lreg c tos (odep u d) = l"
  have "filter ?Q (plain u ds) @ filter ?Q (flags u ds) = filter ?Q ds"
  proof (cases "\<exists>d \<in> set ds. ?Q d \<and> X86_DEP_IS_FLAG (odep u d)")
    case True
    then have all: "?Q d \<Longrightarrow> X86_DEP_IS_FLAG (odep u d)" for d using flag_lreg by metis
    then have "filter ?Q (plain u ds) = []" by (simp add: filter_empty_conv) blast
    moreover have "filter ?Q (flags u ds) = filter ?Q ds" unfolding filter_filter
      by (rule filter_cong [OF refl]) (use all in blast)
    ultimately show ?thesis by simp
  next
    case False
    then have "filter ?Q (flags u ds) = []" by (auto simp: filter_empty_conv)
    moreover have "filter ?Q (plain u ds) = filter ?Q ds" using False by (auto intro!: filter_cong simp: filter_filter)
    ultimately show ?thesis by simp
  qed
  then show ?thesis unfolding filter_append map_of_umaps umaps_simps(3) [symmetric] by simp
qed

lemma allocated_umaps: "allocated (umaps c tos u (plain u ds) @ umaps c tos u (flags u ds)) = allocated (umaps c tos u ds)"
proof -
  have "set (umaps c tos u (plain u ds) @ umaps c tos u (flags u ds)) = set (umaps c tos u ds)"
    by (induction ds) (auto simp: dep_map_def)
  then show ?thesis by simp
qed

section \<open>Renaming an instruction\<close>

definition fresh_uop :: "rf_uop \<Rightarrow> bool" where
  "fresh_uop u \<longleftrightarrow> length (ui_odep (ru_uinst u)) = 4 \<and> length (ui_idep (ru_uinst u)) = 3 \<and>
     length (ru_ph_odep u) = 4 \<and> length (ru_ph_oodep u) = 4 \<and> length (ru_ph_idep u) = 3"

definition need_flag :: "rf_uop \<Rightarrow> nat" where
  "need_flag u = (if flags u [0..<4] \<noteq> [] \<and> need Int_class u = 0 then 1 else 0)"

text \<open>All mappings of an instruction.\<close>

abbreviation all_maps :: "reg_class \<Rightarrow> nat \<Rightarrow> rf_uop \<Rightarrow> mapping list" where
  "all_maps c tos u \<equiv> umaps c tos u [0..<4]"

definition rename_post ::
  "(reg_class \<Rightarrow> nat) \<Rightarrow> nat \<Rightarrow> nat \<Rightarrow> (reg_class \<Rightarrow> nat \<Rightarrow> nat) \<Rightarrow> (reg_class \<Rightarrow> mapping list) \<Rightarrow> (reg_class \<Rightarrow> nat set) \<Rightarrow>
   rf_core \<Rightarrow> rf_uop \<Rightarrow> rf_core \<times> rf_uop \<Rightarrow> bool" where
  "rename_post k t tos C base W s0 u0 = (\<lambda>(s, u).
     only_outputs u0 u \<and> frame t s0 s \<and>
     halves_ok k t C (\<lambda>c. base c @ all_maps c tos u) (\<lambda>c. W c \<union> allocated (all_maps c tos u)) s \<and>
     (\<forall>c. \<forall>p \<in> allocated (all_maps c tos u). uses (logical c) (C c) (base c) p = 0) \<and>
     (\<forall>i < 4. output_ok u i))"

lemma rename_flags_ok:
  assumes inv: "outputs_inv k t tos C base W s0 u0 4 (s, u, flag_phreg, flag_count)" and t: "ru_thread u0 = t"
    and len: "length (ru_ph_odep u0) = 4" "length (ru_ph_oodep u0) = 4"
    and room: "need Int_class u0 + need_flag u0 \<le> free_count (half_of Int_class t s0)"
  shows "\<exists>r. rename_flags (s, u, flag_phreg, flag_count) = Inr r \<and> rename_post k t tos C base W s0 u0 r"
proof -
  let ?ms = "\<lambda>u c. umaps c tos u (plain u0 [0..<4])"
  have o: "only_outputs u0 u" and fr: "frame t s0 s"
    and H: "halves_ok k t C (\<lambda>c. base c @ ?ms u c) (\<lambda>c. W c \<union> allocated (?ms u c)) s"
    and fresh: "\<forall>c. \<forall>p \<in> allocated (?ms u c). uses (logical c) (C c) (base c) p = 0"
    and cnt: "\<forall>c. free_count (half_of c t s) + length (?ms u c) = free_count (half_of c t s0)"
    and fp: "if ?ms u Int_class = [] then flag_phreg = -1 else \<exists>p. flag_phreg = int p \<and> p \<in> allocated (?ms u Int_class)"
    and fc: "flag_count = length (flags u0 [0..<4])" and out: "\<forall>i \<in> set (plain u0 [0..<4]). output_ok u i"
    using inv by (simp_all add: outputs_inv_def)
  have O: "ru_thread u = t" "ru_uinst u = ru_uinst u0" using outputs_only [OF o] t by simp_all
  have T: "t < num_threads s" using H by (simp add: halves_ok_def)
  show ?thesis
  proof (cases "flags u0 [0..<4] = []")
    case True
    then have pl: "plain u0 [0..<4] = [0..<4]" by (simp add: filter_empty_conv filter_id_conv)
    have "rename_post k t tos C base W s0 u0 (s, u)" using o fr H fresh out by (simp add: rename_post_def pl)
    then show ?thesis using True fc by (simp add: rename_flags_def)
  next
    case False
    have start: "\<exists>s1 p. (if flag_phreg < 0
           then res_bind (reg_file_reclaim (half_of Int_class (ru_thread u) s)) (\<lambda>(h, p). Inr (put_half Int_class (ru_thread u) h s, p))
           else Inr (s, nat flag_phreg)) = Inr (s1, p) \<and> flags_inv k t tos C base W s0 u0 p 0 (s1, u)"
    proof (cases "?ms u Int_class = []")
      case True
      then have "need Int_class u0 = 0" using O(2) length_umaps [of Int_class tos u "plain u0 [0..<4]"] by (simp add: need_def)
      then have "1 \<le> free_count (half_of Int_class t s)" using room False cnt [rule_format, of Int_class] True by (simp add: need_flag_def)
      then have some: "0 < free_count (half_of Int_class t s)" by linarith
      have ok: "regs_ok 22 (k Int_class) (C Int_class) (base Int_class) (W Int_class) {} (half_of Int_class t s)"
        using H [unfolded halves_ok_def, THEN conjunct2, rule_format, of Int_class] True by simp
      from reclaim_ok [OF ok some] obtain h p where
        h: "reg_file_reclaim (half_of Int_class t s) = Inr (h, p)"
        "regs_ok 22 (k Int_class) (C Int_class) (base Int_class) (W Int_class) {p} h"
        "p < k Int_class" "busy h p = 0" "same_counts (half_of Int_class t s) h" by blast
      let ?s = "put_half Int_class t h s"
      have f: "frame t s ?s" by (rule put_half_frame [OF T h(5)])
      have hv: "half_of c t ?s = (if c = Int_class then h else half_of c t s)" for c
        using put_half_get(1,2) [OF T] by simp
      have "regs_ok (logical c) (k c) (C c) (base c @ ?ms u c) (W c \<union> allocated (?ms u c))
          (if c = Int_class \<and> p \<notin> allocated (?ms u c) then {p} else {}) (half_of c t ?s)" for c
        using h(2) H True by (cases "c = Int_class") (simp_all add: hv halves_ok_def)
      moreover have "uses 22 (C Int_class) (base Int_class) p = 0" using h(2-4) by (simp add: regs_ok_def)
      moreover have "t < num_threads ?s" using T f by (simp add: frame_def)
      ultimately have "flags_inv k t tos C base W s0 u0 p 0 (?s, u)"
        unfolding flags_inv_def Let_def prod.case using o frame_trans [OF fr f] h(3) fresh out by simp
      then show ?thesis using True fp h(1) O(1) by simp
    next
      case F: False
      then obtain p where p: "flag_phreg = int p" "p \<in> allocated (?ms u Int_class)" using fp by auto
      have "p < k Int_class" using p(2) H [unfolded halves_ok_def, THEN conjunct2, rule_format, of Int_class]
        by (auto simp: regs_ok_def mapping_ok_def)
      moreover have "uses 22 (C Int_class) (base Int_class) p = 0" using fresh p(2) by fastforce
      ultimately have "flags_inv k t tos C base W s0 u0 p 0 (s, u)"
        unfolding flags_inv_def Let_def prod.case using o fr T fresh out H p(2) by (simp add: halves_ok_def)
      then show ?thesis using p(1) by simp
    qed
    then obtain s1 p where s1: "(if flag_phreg < 0
           then res_bind (reg_file_reclaim (half_of Int_class (ru_thread u) s)) (\<lambda>(h, p). Inr (put_half Int_class (ru_thread u) h s, p))
           else Inr (s, nat flag_phreg)) = Inr (s1, p)" "flags_inv k t tos C base W s0 u0 p 0 (s1, u)" by blast
    obtain s2 v where r: "fold (rename_flag p) [0..<4] (s1, u) = (s2, v)" by fastforce
    have I: "flags_inv k t tos C base W s0 u0 p 4 (s2, v)"
      using flags_fold [OF s1(2) t len, of 4] by (simp only: r order_refl)
    let ?n = "\<lambda>c. umaps c tos v (plain u0 [0..<4]) @ umaps c tos v (flags u0 [0..<4])"
    have V: "only_outputs u0 v" "frame t s0 s2" "t < num_threads s2"
      "\<And>c. regs_ok (logical c) (k c) (C c) (base c @ ?n c) (W c \<union> allocated (?n c))
        (if c = Int_class \<and> p \<notin> allocated (?n c) then {p} else {}) (half_of c t s2)"
      "\<forall>c. \<forall>p \<in> allocated (?n c). uses (logical c) (C c) (base c) p = 0"
      "\<forall>i \<in> set (plain u0 [0..<4] @ flags u0 [0..<4]). output_ok v i" using I by (simp_all add: flags_inv_def)
    have U: "ru_uinst v = ru_uinst u0" using outputs_only [OF V(1)] by simp
    have all: "allocated (?n c) = allocated (all_maps c tos v)" for c
      using allocated_umaps [of c tos v "[0..<4]"] by (simp only: U)
    have "p \<in> allocated (?n Int_class)" using I False by (simp add: flags_inv_def)
    then have V4: "regs_ok (logical c) (k c) (C c) (base c @ ?n c) (W c \<union> allocated (all_maps c tos v)) {} (half_of c t s2)" for c
      using V(4) [of c] by (cases "c = Int_class") (simp_all only: all simp_thms if_True if_False)
    have "regs_ok (logical c) (k c) (C c) (base c @ all_maps c tos v) (W c \<union> allocated (all_maps c tos v)) {} (half_of c t s2)" for c
      by (rule regs_ok_reorder [OF V4]) (use reorder_umaps [of _ c tos v "[0..<4]"] U in \<open>simp only: filter_append\<close>)
    then have "halves_ok k t C (\<lambda>c. base c @ all_maps c tos v) (\<lambda>c. W c \<union> allocated (all_maps c tos v)) s2"
      using V(3) by (simp add: halves_ok_def)
    moreover have "\<forall>c. \<forall>p \<in> allocated (all_maps c tos v). uses (logical c) (C c) (base c) p = 0"
      using V(5) unfolding all .
    moreover have "\<forall>i < 4. output_ok v i" using V(6) by auto
    ultimately have "rename_post k t tos C base W s0 u0 (s2, v)" using V(1,2) by (simp add: rename_post_def)
    moreover have "rename_flags (s, u, flag_phreg, flag_count) = Inr (s2, v)"
      unfolding rename_flags_def prod.case s1(1) res_bind_simps r using False fc by simp
    ultimately show ?thesis by blast
  qed
qed

lemma set_top_view:
  assumes "t < num_threads s"
  shows "half_of c t' (set_top t tos s) = half_of c t' s" "top_of_stack t (set_top t tos s) = tos"
    "t' \<noteq> t \<Longrightarrow> top_of_stack t' (set_top t tos s) = top_of_stack t' s" "num_threads (set_top t tos s) = num_threads s"
    "sum_ok c (set_top t tos s) = sum_ok c s"
proof -
  show h: "half_of c t' (set_top t tos s) = half_of c t' s" for c t'
    using assms by (cases c; cases "t' = t") (simp_all add: set_top_def upd_thread_def half_of.simps)
  show "top_of_stack t (set_top t tos s) = tos" "t' \<noteq> t \<Longrightarrow> top_of_stack t' (set_top t tos s) = top_of_stack t' s"
    using assms by (simp_all add: set_top_def upd_thread_def)
  show n: "num_threads (set_top t tos s) = num_threads s" by (simp add: set_top_def upd_thread_def)
  have "class_count c (set_top t tos s) = class_count c s" by (cases c) (simp_all add: set_top_def upd_thread_def)
  then show "sum_ok c (set_top t tos s) = sum_ok c s" by (simp add: sum_ok_def n h)
qed

lemma rename_ok:
  assumes u: "fresh_uop u" "ru_thread u = t" and H: "halves_ok k t C base W s"
    and room: "\<forall>c. need c u + (if c = Int_class then need_flag u else 0) \<le> free_count (half_of c t s)"
  defines "tos \<equiv> new_top (ui_opcode (ru_uinst u)) (top_of_stack t s)"
  shows "\<exists>s' v a b i. x86_reg_file_rename s u = Inr (s', v) \<and> renamed v \<and>
    v = u\<lparr>ru_ph_idep := i, ru_ph_odep := a, ru_ph_oodep := b\<rparr> \<and>
    halves_ok k t C (\<lambda>c. base c @ all_maps c tos v) (\<lambda>c. W c \<union> allocated (all_maps c tos v)) s' \<and>
    (\<forall>c. \<forall>p \<in> allocated (all_maps c tos v). uses (logical c) (C c) (base c) p = 0) \<and>
    (\<forall>d < 3. \<forall>c. class_of (idep u d) = Some c \<longrightarrow>
       i ! d = int (rat (hf_regs (half_of c t s)) ! lreg c tos (idep u d))) \<and>
    frame t (set_top t tos s) s'"
proof -
  have T: "t < num_threads s" using H by (simp add: halves_ok_def)
  let ?s0 = "set_top t tos s"
  note V = set_top_view [OF T, where tos = tos]
  obtain s1 where s1: "res_fold rename_idep [0..<X86_UINST_MAX_IDEPS] (?s0, u) =
      Inr (s1, u\<lparr>ru_ph_idep := (ru_ph_idep u)[0 := idep_val t ?s0 u 0, 1 := idep_val t ?s0 u 1, 2 := idep_val t ?s0 u 2]\<rparr>)"
    "same_view t ?s0 s1" using rename_ideps [OF u(2), of ?s0] by blast
  let ?i = "(ru_ph_idep u)[0 := idep_val t ?s0 u 0, 1 := idep_val t ?s0 u 1, 2 := idep_val t ?s0 u 2]"
  let ?u = "u\<lparr>ru_ph_idep := ?i\<rparr>"
  have hv: "half_of c t s1 = half_of c t s" for c using s1(2) V(1) by simp
  have T1: "t < num_threads s1" and top1: "top_of_stack t s1 = tos" using s1(2) T V(2,4) by (simp_all add: frame_def)
  have need: "need c ?u = need c u" "need_flag ?u = need_flag u" for c by (simp_all add: need_def need_flag_def)
  have len: "length (ru_ph_odep ?u) = 4" "length (ru_ph_oodep ?u) = 4" and t: "ru_thread ?u = t"
    using u by (simp_all add: fresh_uop_def)
  have "outputs_inv k t tos C base W s1 ?u 0 (s1, ?u, -1, 0)"
    using H T1 by (simp add: outputs_inv_def only_outputs_refl frame_refl halves_ok_def hv)
  moreover have r1: "\<forall>c. need c ?u \<le> free_count (half_of c t s1)" using room need hv by (metis add_leD1)
  ultimately have "\<exists>r. res_fold rename_odep [0..<4] (s1, ?u, -1, 0) = Inr r \<and>
      outputs_inv k t tos C base W s1 ?u (length [0..<4]) r"
  proof (intro res_fold_inv [where Q = "outputs_inv k t tos C base W s1 ?u"])
    fix d and r :: "rf_core \<times> rf_uop \<times> int \<times> nat"
    assume "d < length [0..<4]" "outputs_inv k t tos C base W s1 ?u d r"
    then show "\<exists>r'. rename_odep ([0..<4] ! d) r = Inr r' \<and> outputs_inv k t tos C base W s1 ?u (Suc d) r'"
      using outputs_step [OF _ t top1 _ len r1] by (cases r) simp
  qed
  then obtain s2 v fp fc where r: "res_fold rename_odep [0..<4] (s1, ?u, -1, 0) = Inr (s2, v, fp, fc)"
    "outputs_inv k t tos C base W s1 ?u 4 (s2, v, fp, fc)" by auto
  have "need Int_class ?u + need_flag ?u \<le> free_count (half_of Int_class t s1)"
    unfolding need hv using room [rule_format, of Int_class] by simp
  from rename_flags_ok [OF r(2) t len this] obtain s3 w where
    w: "rename_flags (s2, v, fp, fc) = Inr (s3, w)" "rename_post k t tos C base W s1 ?u (s3, w)" by auto
  have P: "only_outputs ?u w" "frame t s1 s3"
    "halves_ok k t C (\<lambda>c. base c @ all_maps c tos w) (\<lambda>c. W c \<union> allocated (all_maps c tos w)) s3"
    "\<forall>c. \<forall>p \<in> allocated (all_maps c tos w). uses (logical c) (C c) (base c) p = 0" "\<forall>i < 4. output_ok w i"
    using w(2) by (simp_all add: rename_post_def)
  obtain a b where ab: "length a = 4" "length b = 4" "w = u\<lparr>ru_ph_idep := ?i, ru_ph_odep := a, ru_ph_oodep := b\<rparr>"
    using P(1) len by (auto simp: only_outputs_def)
  have idv: "idep_val t ?s0 u d = int (rat (hf_regs (half_of c t s)) ! lreg c tos (idep u d))"
    if "class_of (idep u d) = Some c" for d c using that V(1,2) by (simp add: idep_val_def)
  have i: "?i ! d = idep_val t ?s0 u d" if "d < 3" for d
  proof -
    have "d = 0 \<or> d = 1 \<or> d = 2" using that by linarith
    then show ?thesis using u(1) by (auto simp: fresh_uop_def)
  qed
  have "renamed w" using P(5) u(1) i idv ab(1,2)
    unfolding renamed_def ab(3) by (auto simp: fresh_uop_def output_ok_def ab(3))
  moreover have "x86_reg_file_rename s u = Inr (s3, w)"
    unfolding x86_reg_file_rename_def Let_def u(2) tos_def [symmetric] s1(1) res_bind_simps prod.case r(1) w(1) ..
  moreover have "frame t ?s0 s3" using s1(2) P(2) frame_trans by blast
  moreover have "\<forall>d < 3. \<forall>c. class_of (idep u d) = Some c \<longrightarrow> ?i ! d = int (rat (hf_regs (half_of c t s)) ! lreg c tos (idep u d))"
    using i idv by simp
  ultimately show ?thesis using P(3,4) ab(3)
    by (intro exI [of _ s3] exI [of _ w] exI [of _ a] exI [of _ b] exI [of _ ?i]) blast
qed

section \<open>The test for free registers\<close>

lemma count_deps_need:
  "ru_ph_int_odep_count (x86_reg_file_count_deps u) = need Int_class u + need_flag u"
  "ru_ph_fp_odep_count (x86_reg_file_count_deps u) = need Fp_class u"
proof -
  let ?int = "\<lambda>d. \<not> X86_DEP_IS_FLAG (odep u d) \<and> X86_DEP_IS_INT_REG (odep u d)"
  have i: "need Int_class u = length (filter ?int [0..<4])"
    by (simp add: need_def filter_filter class_of_simps conj_commute)
  have "need Fp_class u = length (filter (\<lambda>d. \<not> X86_DEP_IS_FLAG (odep u d) \<and> X86_DEP_IS_FP_REG (odep u d)) [0..<4])"
    by (simp add: need_def filter_filter class_of_simps conj_commute)
  moreover have "(\<lambda>d. \<not> X86_DEP_IS_FLAG (odep u d) \<and> X86_DEP_IS_FP_REG (odep u d)) =
      (\<lambda>d. \<not> X86_DEP_IS_FLAG (odep u d) \<and> \<not> X86_DEP_IS_INT_REG (odep u d) \<and> X86_DEP_IS_FP_REG (odep u d))"
    by (rule ext) (use int_not_fp in blast)
  ultimately show "ru_ph_fp_odep_count (x86_reg_file_count_deps u) = need Fp_class u"
    by (simp add: x86_reg_file_count_deps_def Let_def filter_map o_def)
  have "filter X86_DEP_IS_FLAG (map (odep u) [0..<4]) = map (odep u) (flags u [0..<4])" by (simp add: filter_map o_def)
  then show "ru_ph_int_odep_count (x86_reg_file_count_deps u) = need Int_class u + need_flag u"
    unfolding need_flag_def i by (simp add: x86_reg_file_count_deps_def Let_def filter_map o_def)
qed

lemma can_rename_room:
  assumes can: "x86_reg_file_can_rename cfg s u" and u: "u = x86_reg_file_count_deps v" "ru_thread u = t"
    and H: "halves_ok (size_of cfg) t C base W s" and sum: "\<forall>c. sum_ok c s"
  shows "\<forall>c. need c u + (if c = Int_class then need_flag u else 0) \<le> free_count (half_of c t s)"
proof
  fix c
  have T: "t < num_threads s" using H by (simp add: halves_ok_def)
  have F: "hf_thread_count (half_of c t s) + free_count (half_of c t s) = local_size c cfg" for c
    using H by (simp add: halves_ok_def regs_ok_def free_ok_def)
  have le: "hf_thread_count (half_of c t s) \<le> class_count c s" for c using sum sum_ok_le [OF _ T] by blast
  have N: "need c u = need c v" "need_flag u = need_flag v" for c
    by (simp_all add: u(1) need_def need_flag_def x86_reg_file_count_deps_def Let_def)
  have "hf_thread_count (half_of Int_class t s) + (need Int_class u + need_flag u) \<le> local_size Int_class cfg"
    "hf_thread_count (half_of Fp_class t s) + need Fp_class u \<le> local_size Fp_class cfg"
    using can le [of Int_class] le [of Fp_class] count_deps_need [of v] N u
    by (auto simp: x86_reg_file_can_rename_def Let_def half_of.simps split: if_splits)
  then show "need c u + (if c = Int_class then need_flag u else 0) \<le> free_count (half_of c t s)"
    using F [of c] by (cases c) simp_all
qed

end
