(* ===== verification/Reg_Sim.thy ===== *)
theory Reg_Sim
  imports Reg_Output
begin

text \<open>
  The register files of a core under any interleaving of dispatch, write-back, commit and recovery of its
  threads. A reorder buffer is the list of the instructions of a thread in flight, oldest first.
\<close>

section \<open>The uses of a register file\<close>

text \<open>An instruction as it comes from fetch (\<open>stg-fetch.c\<close>): its dependences are counted.\<close>

definition fetch_uop :: "nat \<Rightarrow> x86_uinst_t \<Rightarrow> bool \<Rightarrow> rf_uop" where
  "fetch_uop t ui spec = x86_reg_file_count_deps
     \<lparr>ru_uinst = ui, ru_thread = t, ru_specmode = spec, ru_completed = False, ru_idep_count = 0, ru_odep_count = 0,
      ru_ph_int_idep_count = 0, ru_ph_fp_idep_count = 0, ru_ph_int_odep_count = 0, ru_ph_fp_odep_count = 0,
      ru_ph_idep = replicate 3 0, ru_ph_odep = replicate 4 0, ru_ph_oodep = replicate 4 0\<rparr>"

datatype rf_event =
    Rf_dispatch nat x86_uinst_t bool
  | Rf_writeback nat nat
  | Rf_commit nat
  | Rf_squash nat
  | Rf_store nat
  | Rf_late nat

text \<open>
  The state: register files, reorder buffers, committed stores that are not written back yet, and squashed
  loads whose access may be under way.
\<close>

type_synonym rf_state = "rf_core \<times> rf_uop list list \<times> rf_uop list \<times> rf_uop list"

text \<open>
  Dispatch renames when \<open>x86_reg_file_can_rename\<close> allows it (\<open>stg-dispatch.c\<close>); write-back completes an
  instruction of the reorder buffer (\<open>stg-writeback.c\<close>), which is never a store, since a store issues only
  after it was committed (\<open>stg-issue.c\<close>); commit retires the head when it is completed, or ready when it is a
  store (\<open>stg-commit.c\<close>); recovery squashes the tail while it is speculative, after writing it if it was not
  completed (\<open>recover.c\<close>). An access to memory ends by itself, so that a committed store and a squashed load
  reach write-back outside of the reorder buffer. When its condition does not hold, an event does nothing.
\<close>

fun rf_dispatch :: "rf_cfg \<Rightarrow> nat \<Rightarrow> x86_uinst_t \<Rightarrow> bool \<Rightarrow> rf_state \<Rightarrow> rf_state res" where
  "rf_dispatch cfg t ui spec (s, robs, stores, loads) =
     (let u = fetch_uop t ui spec in
      if t < length robs \<and> x86_reg_file_can_rename cfg s u
      then res_bind (x86_reg_file_rename s u) (\<lambda>(s, u). Inr (s, robs[t := robs ! t @ [u]], stores, loads))
      else Inr (s, robs, stores, loads))"

fun rf_writeback :: "nat \<Rightarrow> nat \<Rightarrow> rf_state \<Rightarrow> rf_state res" where
  "rf_writeback t k (s, robs, stores, loads) =
     (if t < length robs \<and> k < length (robs ! t) \<and> \<not> ru_completed (robs ! t ! k) \<and>
         ui_opcode (ru_uinst (robs ! t ! k)) \<noteq> x86_uinst_store
      then res_bind (x86_reg_file_write s (robs ! t ! k)) (\<lambda>s.
             Inr (s, robs[t := (robs ! t)[k := (robs ! t ! k)\<lparr>ru_completed := True\<rparr>]], stores, loads))
      else Inr (s, robs, stores, loads))"

text \<open>The flag \<open>ready\<close> of a store caches a positive answer of \<open>x86_reg_file_ready\<close>.\<close>

definition can_retire :: "rf_core \<Rightarrow> rf_uop \<Rightarrow> bool res" where
  "can_retire s u = (if ui_opcode (ru_uinst u) = x86_uinst_store then x86_reg_file_ready s u else Inr (ru_completed u))"

fun rf_commit :: "rf_cfg \<Rightarrow> nat \<Rightarrow> rf_state \<Rightarrow> rf_state res" where
  "rf_commit cfg t (s, robs, stores, loads) =
     (if t < length robs \<and> robs ! t \<noteq> [] \<and> \<not> ru_specmode (hd (robs ! t))
      then res_bind (can_retire s (hd (robs ! t))) (\<lambda>b.
             if b then res_bind (x86_reg_file_commit cfg s (hd (robs ! t))) (\<lambda>s.
               Inr (s, robs[t := tl (robs ! t)],
                    if ru_completed (hd (robs ! t)) then stores else stores @ [hd (robs ! t)], loads))
             else Inr (s, robs, stores, loads))
      else Inr (s, robs, stores, loads))"

fun rf_squash :: "rf_cfg \<Rightarrow> nat \<Rightarrow> rf_state \<Rightarrow> rf_state res" where
  "rf_squash cfg t (s, robs, stores, loads) =
     (if t < length robs \<and> robs ! t \<noteq> [] \<and> ru_specmode (last (robs ! t))
      then res_bind (if ru_completed (last (robs ! t)) then Inr s else x86_reg_file_write s (last (robs ! t))) (\<lambda>s.
           res_bind (x86_reg_file_undo cfg s (last (robs ! t))) (\<lambda>s.
             Inr (s, robs[t := butlast (robs ! t)], stores,
                  if \<not> ru_completed (last (robs ! t)) \<and> ui_opcode (ru_uinst (last (robs ! t))) = x86_uinst_load
                  then loads @ [last (robs ! t)] else loads)))
      else Inr (s, robs, stores, loads))"

text \<open>The end of the access of a committed store and of a squashed load.\<close>

definition write_out :: "nat \<Rightarrow> rf_core \<Rightarrow> rf_uop list \<Rightarrow> (rf_core \<times> rf_uop list) res" where
  "write_out k s us =
     (if k < length us then res_bind (x86_reg_file_write s (us ! k)) (\<lambda>s. Inr (s, take k us @ drop (Suc k) us))
      else Inr (s, us))"

fun rf_store :: "nat \<Rightarrow> rf_state \<Rightarrow> rf_state res" where
  "rf_store k (s, robs, stores, loads) =
     res_bind (write_out k s stores) (\<lambda>(s, stores). Inr (s, robs, stores, loads))"

fun rf_late :: "nat \<Rightarrow> rf_state \<Rightarrow> rf_state res" where
  "rf_late k (s, robs, stores, loads) =
     res_bind (write_out k s loads) (\<lambda>(s, loads). Inr (s, robs, stores, loads))"

fun rf_do :: "rf_cfg \<Rightarrow> rf_event \<Rightarrow> rf_state \<Rightarrow> rf_state res" where
  "rf_do cfg (Rf_dispatch t ui spec) = rf_dispatch cfg t ui spec"
| "rf_do cfg (Rf_writeback t k) = rf_writeback t k"
| "rf_do cfg (Rf_commit t) = rf_commit cfg t"
| "rf_do cfg (Rf_squash t) = rf_squash cfg t"
| "rf_do cfg (Rf_store k) = rf_store k"
| "rf_do cfg (Rf_late k) = rf_late k"

definition rf_run :: "rf_cfg \<Rightarrow> rf_event list \<Rightarrow> rf_state \<Rightarrow> rf_state res" where
  "rf_run cfg = res_fold (rf_do cfg)"

abbreviation rf_start :: "rf_core \<Rightarrow> nat \<Rightarrow> rf_state" where
  "rf_start s n \<equiv> (s, replicate n [], [], [])"

fun event_ok :: "rf_event \<Rightarrow> bool" where
  "event_ok (Rf_dispatch t ui spec) \<longleftrightarrow> length (ui_odep ui) = 4 \<and> length (ui_idep ui) = 3"
| "event_ok _ \<longleftrightarrow> True"

text \<open>
  Not all stores of the emulator write no register: that of CMPXCHG8B (\<open>machine.c\<close>) gets the output
  \<open>x86_dep_data\<close>, since \<open>x86_uinst_parse_odep\<close> takes its memory operand for that of a computation.
\<close>

definition plain_store :: "x86_uinst_t \<Rightarrow> bool" where
  "plain_store ui \<longleftrightarrow> (ui_opcode ui = x86_uinst_store \<longrightarrow>
     list_all (\<lambda>d. \<not> X86_DEP_IS_INT_REG (ui_odep ui ! d) \<and> \<not> X86_DEP_IS_FP_REG (ui_odep ui ! d)) [0..<4])"

fun no_store_output :: "rf_event \<Rightarrow> bool" where
  "no_store_output (Rf_dispatch t ui spec) \<longleftrightarrow> plain_store ui"
| "no_store_output _ \<longleftrightarrow> True"

fun not_late :: "rf_event \<Rightarrow> bool" where
  "not_late (Rf_late k) \<longleftrightarrow> False"
| "not_late _ \<longleftrightarrow> True"

section \<open>The invariant of a thread\<close>

abbreviation utos :: "nat \<Rightarrow> rf_uop \<Rightarrow> nat" where "utos tos u \<equiv> new_top (ui_opcode (ru_uinst u)) tos"

fun thread_maps :: "reg_class \<Rightarrow> nat \<Rightarrow> rf_uop list \<Rightarrow> mapping list" where
  "thread_maps c tos [] = []"
| "thread_maps c tos (u # us) = all_maps c (utos tos u) u @ thread_maps c (utos tos u) us"

fun last_tos :: "nat \<Rightarrow> rf_uop list \<Rightarrow> nat" where
  "last_tos tos [] = tos"
| "last_tos tos (u # us) = last_tos (utos tos u) us"

definition outs :: "reg_class \<Rightarrow> rf_uop \<Rightarrow> nat set" where
  "outs c u = allocated (all_maps c 0 u)"

definition pend_regs :: "reg_class \<Rightarrow> rf_uop list \<Rightarrow> nat set" where
  "pend_regs c us = (\<Union>u \<in> {u \<in> set us. \<not> ru_completed u}. outs c u)"

text \<open>The committed state after an instruction.\<close>

abbreviation after :: "(reg_class \<Rightarrow> nat \<Rightarrow> nat) \<Rightarrow> nat \<Rightarrow> rf_uop \<Rightarrow> reg_class \<Rightarrow> nat \<Rightarrow> nat" where
  "after C tos u \<equiv> \<lambda>c. commit_map (C c) (all_maps c (utos tos u) u)"

definition input_ok :: "(reg_class \<Rightarrow> nat \<Rightarrow> nat) \<Rightarrow> nat \<Rightarrow> rf_uop \<Rightarrow> bool" where
  "input_ok C tos u \<longleftrightarrow> (\<forall>d < 3. \<forall>c. class_of (idep u d) = Some c \<longrightarrow>
     ru_ph_idep u ! d = int (C c (lreg c (utos tos u) (idep u d))))"

fun inputs_ok :: "(reg_class \<Rightarrow> nat \<Rightarrow> nat) \<Rightarrow> nat \<Rightarrow> rf_uop list \<Rightarrow> bool" where
  "inputs_ok C tos [] \<longleftrightarrow> True"
| "inputs_ok C tos (u # us) \<longleftrightarrow> input_ok C tos u \<and> inputs_ok (after C tos u) (utos tos u) us"

text \<open>
  The pending registers \<open>W\<close> are registers of instructions not completed; they are all of these as long as no
  squashed load was written back.
\<close>

definition thread_ok ::
  "rf_cfg \<Rightarrow> (reg_class \<Rightarrow> nat set) \<Rightarrow> nat \<Rightarrow> rf_core \<Rightarrow> rf_uop list \<Rightarrow> (reg_class \<Rightarrow> nat \<Rightarrow> nat) \<Rightarrow> nat \<Rightarrow> bool" where
  "thread_ok cfg W t s us C tos \<longleftrightarrow>
     halves_ok (size_of cfg) t C (\<lambda>c. thread_maps c tos us) W s \<and> (\<forall>c. W c \<subseteq> pend_regs c us) \<and>
     top_of_stack t s = last_tos tos us \<and> tos < 8 \<and> (\<forall>u \<in> set us. renamed u \<and> ru_thread u = t) \<and>
     sorted_wrt (\<lambda>u v. \<forall>c. outs c u \<inter> outs c v = {}) us \<and>
     (\<forall>u \<in> set us. \<forall>c. outs c u \<inter> C c ` {..<logical c} = {}) \<and> inputs_ok C tos us"

lemma allocated_outs: "allocated (umaps c tos u [0..<4]) = outs c u"
proof -
  have "allocated (umaps c tos u ds) = allocated (umaps c 0 u ds)" for ds by (induction ds) (auto simp: dep_map_def)
  then show ?thesis by (simp add: outs_def)
qed

lemma thread_maps_append [simp]:
  "thread_maps c tos (us @ vs) = thread_maps c tos us @ thread_maps c (last_tos tos us) vs"
  by (induction us arbitrary: tos) simp_all

lemma last_tos_append [simp]: "last_tos tos (us @ vs) = last_tos (last_tos tos us) vs"
  by (induction us arbitrary: tos) simp_all

lemma allocated_thread: "allocated (thread_maps c tos us) = (\<Union>u \<in> set us. outs c u)"
  by (induction us arbitrary: tos) (simp_all add: image_Un allocated_outs)

lemma pend_simps [simp]:
  "pend_regs c [] = {}" "pend_regs c (u # us) = (if ru_completed u then {} else outs c u) \<union> pend_regs c us"
  "pend_regs c (us @ vs) = pend_regs c us \<union> pend_regs c vs"
  by (auto simp: pend_regs_def)

lemma inputs_append [simp]:
  "inputs_ok C tos (us @ vs) \<longleftrightarrow> inputs_ok C tos us \<and>
     inputs_ok (\<lambda>c. commit_map (C c) (thread_maps c tos us)) (last_tos tos us) vs"
  by (induction us arbitrary: C tos) simp_all

lemma new_top_less: "tos < 8 \<Longrightarrow> new_top opcode tos < 8"
  by (simp add: new_top_def)

lemma last_tos_less: "tos < 8 \<Longrightarrow> last_tos tos us < 8"
  by (induction us arbitrary: tos) (simp_all add: new_top_less)

lemma old_new_top: "tos < 8 \<Longrightarrow> old_top opcode (new_top opcode tos) = tos"
proof -
  assume "tos < 8"
  then have "tos \<in> {0, 1, 2, 3, 4, 5, 6, 7}" by auto
  then show ?thesis by (auto simp: old_top_def new_top_def)
qed

text \<open>A RAT holds the mapping after all instructions in flight.\<close>

lemma final_commit: "final (C l) (chain l ms) = commit_map C ms l"
proof (induction ms arbitrary: C)
  case (Cons m ms)
  show ?case using Cons.IH [of "C(fst m := fst (snd m))"] by (cases "fst m = l") (simp_all add: fun_upd_def)
qed simp

lemma rat_commit:
  assumes "halves_ok k t C ms W s" "l < logical c"
  shows "rat (hf_regs (half_of c t s)) ! l = commit_map (C c) (ms c) l"
  using assms by (simp add: halves_ok_def regs_ok_def mapping_ok_def final_commit)

section \<open>The operations on a thread\<close>

text \<open>A frame that leaves the top of the stack of the thread open.\<close>

definition others :: "nat \<Rightarrow> rf_core \<Rightarrow> rf_core \<Rightarrow> bool" where
  "others t s s' \<longleftrightarrow> num_threads s' = num_threads s \<and> (\<forall>c. sum_ok c s \<longrightarrow> sum_ok c s') \<and>
     (\<forall>t'. t' \<noteq> t \<longrightarrow> top_of_stack t' s' = top_of_stack t' s \<and>
        (\<forall>c. half_of c t' s' = (half_of c t' s)\<lparr>hf_core_count := class_count c s'\<rparr>))"

lemma frame_others: "frame t s s' \<Longrightarrow> others t s s'"
  by (simp add: others_def frame_def)

lemma set_top_count [simp]: "class_count c (set_top t tos s) = class_count c s"
  by (cases c) (simp_all add: set_top_def upd_thread_def)

lemma others_set_top: "t < num_threads s \<Longrightarrow> frame t (set_top t tos s) s' \<Longrightarrow> others t s s'"
  by (simp add: others_def frame_def set_top_view)

lemma others_then_top: "t < num_threads s \<Longrightarrow> frame t s s' \<Longrightarrow> others t s (set_top t tos s')"
  by (simp add: others_def frame_def set_top_view)

lemma uses_zero:
  assumes "uses n C ms p = 0"
  shows "p \<notin> C ` {..<n}" "p \<notin> allocated ms"
  using assms uses_committed [of _ n C ms] uses_allocated [of p ms n C] by fastforce+

lemma outs_update [simp]: "outs c (u\<lparr>ru_completed := b\<rparr>) = outs c u"
  "all_maps c tos (u\<lparr>ru_completed := b\<rparr>) = all_maps c tos u"
proof -
  have "umaps c tos (u\<lparr>ru_completed := b\<rparr>) ds = umaps c tos u ds" for tos ds
    by (induction ds) (simp_all add: dep_map_def)
  then show "outs c (u\<lparr>ru_completed := b\<rparr>) = outs c u" "all_maps c tos (u\<lparr>ru_completed := b\<rparr>) = all_maps c tos u"
    by (simp_all add: outs_def)
qed

definition pend_add :: "(reg_class \<Rightarrow> nat set) \<Rightarrow> rf_uop \<Rightarrow> reg_class \<Rightarrow> nat set" where
  "pend_add W u = (\<lambda>c. W c \<union> outs c u)"

definition pend_del :: "(reg_class \<Rightarrow> nat set) \<Rightarrow> rf_uop \<Rightarrow> reg_class \<Rightarrow> nat set" where
  "pend_del W u = (\<lambda>c. W c - outs c u)"

lemma thread_dispatch:
  assumes T: "thread_ok cfg W t s us C tos" and sum: "\<forall>c. sum_ok c s"
    and u: "u = fetch_uop t ui spec" and ui: "length (ui_odep ui) = 4" "length (ui_idep ui) = 3"
    and can: "x86_reg_file_can_rename cfg s u"
  shows "\<exists>s' v. x86_reg_file_rename s u = Inr (s', v) \<and> thread_ok cfg (pend_add W v) t s' (us @ [v]) C tos \<and>
    others t s s' \<and> ru_uinst v = ui \<and> ru_specmode v = spec \<and> \<not> ru_completed v"
proof -
  have H: "halves_ok (size_of cfg) t C (\<lambda>c. thread_maps c tos us) W s" and P: "\<forall>c. W c \<subseteq> pend_regs c us"
    and top: "top_of_stack t s = last_tos tos us" and tos: "tos < 8" and R: "\<forall>u \<in> set us. renamed u \<and> ru_thread u = t"
    and D: "sorted_wrt (\<lambda>u v. \<forall>c. outs c u \<inter> outs c v = {}) us"
    and E: "\<forall>u \<in> set us. \<forall>c. outs c u \<inter> C c ` {..<logical c} = {}" and I: "inputs_ok C tos us"
    using T by (simp_all add: thread_ok_def)
  have U: "fresh_uop u" "ru_thread u = t" "ru_uinst u = ui" "ru_specmode u = spec" "\<not> ru_completed u"
    using ui by (simp_all add: u fetch_uop_def fresh_uop_def x86_reg_file_count_deps_def Let_def)
  note room = can_rename_room [OF can u [unfolded fetch_uop_def] U(2) H sum]
  let ?tos = "new_top (ui_opcode (ru_uinst u)) (top_of_stack t s)"
  from rename_ok [OF U(1,2) H room] obtain s' v a b i where
    v: "x86_reg_file_rename s u = Inr (s', v)" "renamed v" "v = u\<lparr>ru_ph_idep := i, ru_ph_odep := a, ru_ph_oodep := b\<rparr>"
    "halves_ok (size_of cfg) t C (\<lambda>c. thread_maps c tos us @ all_maps c ?tos v) (\<lambda>c. W c \<union> allocated (all_maps c ?tos v)) s'"
    "\<forall>c. \<forall>p \<in> allocated (all_maps c ?tos v). uses (logical c) (C c) (thread_maps c tos us) p = 0"
    "\<forall>d < 3. \<forall>c. class_of (idep u d) = Some c \<longrightarrow>
       i ! d = int (rat (hf_regs (half_of c t s)) ! lreg c ?tos (idep u d))"
    "frame t (set_top t ?tos s) s'" by blast
  have N: "t < num_threads s" using H by (simp add: halves_ok_def)
  have uv: "ru_uinst v = ru_uinst u" "ru_thread v = t" "\<not> ru_completed v" "ru_specmode v = spec" "ru_ph_idep v = i"
    using U by (simp_all add: v(3))
  have t': "utos (last_tos tos us) v = ?tos" by (simp add: uv top)
  have H': "halves_ok (size_of cfg) t C (\<lambda>c. thread_maps c tos (us @ [v])) (\<lambda>c. W c \<union> outs c v) s'"
    using v(4) uv by (simp add: top allocated_outs)
  have P': "\<forall>c. W c \<union> outs c v \<subseteq> pend_regs c (us @ [v])" using P uv by auto
  have fresh: "p \<notin> C c ` {..<logical c} \<and> (\<forall>u \<in> set us. p \<notin> outs c u)" if "p \<in> outs c v" for c p
    using uses_zero [OF v(5) [unfolded allocated_outs, rule_format, OF that]] by (simp add: allocated_thread)
  have "input_ok (\<lambda>c. commit_map (C c) (thread_maps c tos us)) (last_tos tos us) v"
    unfolding input_ok_def t' using v(6) rat_commit [OF H] lreg_less uv by simp
  then have "inputs_ok C tos (us @ [v])" using I by simp
  moreover have "top_of_stack t s' = last_tos tos (us @ [v])"
    using v(7) set_top_view(2) [OF N] by (simp add: frame_def t')
  moreover have "sorted_wrt (\<lambda>u v. \<forall>c. outs c u \<inter> outs c v = {}) (us @ [v])"
    using D fresh by (auto simp: sorted_wrt_append)
  moreover have "outs c v \<inter> C c ` {..<logical c} = {}" for c using fresh by blast
  then have "\<forall>u \<in> set (us @ [v]). \<forall>c. outs c u \<inter> C c ` {..<logical c} = {}" using E by simp
  moreover have "\<forall>u \<in> set (us @ [v]). renamed u \<and> ru_thread u = t" using R v(2) uv(2) by simp
  ultimately have "thread_ok cfg (\<lambda>c. W c \<union> outs c v) t s' (us @ [v]) C tos" using H' P' tos unfolding thread_ok_def by blast
  then show ?thesis unfolding pend_add_def using v(1) others_set_top [OF N v(7)] uv U by auto
qed

lemma outs_range:
  assumes "thread_ok cfg W t s us C tos" "u \<in> set us"
  shows "outs c u \<subseteq> {..<local_size c cfg}"
proof -
  have "\<forall>m \<in> set (thread_maps c tos us). fst (snd m) < local_size c cfg"
    using assms(1) by (auto simp: thread_ok_def halves_ok_def regs_ok_def mapping_ok_def)
  moreover have "outs c u \<subseteq> allocated (thread_maps c tos us)" using assms(2) by (auto simp: allocated_thread)
  ultimately show ?thesis by auto
qed

lemma member_maps: "u \<in> set us \<Longrightarrow> \<exists>tos'. \<forall>c. set (all_maps c tos' u) \<subseteq> set (thread_maps c tos us)"
proof (induction us arbitrary: tos)
  case (Cons v us)
  show ?case
  proof (cases "u = v")
    case True
    then show ?thesis by (intro exI [of _ "utos tos v"]) auto
  next
    case False
    with Cons.IH [of "utos tos v"] Cons.prems show ?thesis by auto
  qed
qed simp

lemma completed_update:
  fixes us :: "rf_uop list" and k :: nat
  defines "us' \<equiv> us[k := (us ! k)\<lparr>ru_completed := True\<rparr>]"
  shows "thread_maps c tos us' = thread_maps c tos us" "last_tos tos us' = last_tos tos us"
    "inputs_ok C tos us' = inputs_ok C tos us" "outs c (us' ! i) = outs c (us ! i)" "length us' = length us"
proof -
  have i: "input_ok C tos (u\<lparr>ru_completed := b\<rparr>) = input_ok C tos u" for C tos u b by (simp add: input_ok_def)
  show "thread_maps c tos us' = thread_maps c tos us" unfolding us'_def
    by (induction us arbitrary: k tos) (simp_all split: nat.split)
  show "last_tos tos us' = last_tos tos us" unfolding us'_def
    by (induction us arbitrary: k tos) (simp_all split: nat.split)
  show "inputs_ok C tos us' = inputs_ok C tos us" unfolding us'_def
    by (induction us arbitrary: k tos C) (simp_all add: i split: nat.split)
  show "outs c (us' ! i) = outs c (us ! i)" unfolding us'_def
    by (cases "k < length us"; cases "i = k") (simp_all add: list_update_beyond)
qed (simp add: us'_def)

lemma pend_update:
  assumes "sorted_wrt (\<lambda>u v. \<forall>c. outs c u \<inter> outs c v = {}) us" "k < length us" "\<not> ru_completed (us ! k)"
  shows "pend_regs c (us[k := (us ! k)\<lparr>ru_completed := True\<rparr>]) = pend_regs c us - outs c (us ! k)"
proof -
  have s: "us = take k us @ us ! k # drop (Suc k) us" using assms(2) by (rule id_take_nth_drop)
  have p: "pend_regs c us = pend_regs c (take k us) \<union> outs c (us ! k) \<union> pend_regs c (drop (Suc k) us)"
    using assms(3) by (subst s) (simp add: Un_assoc)
  have "sorted_wrt (\<lambda>u v. \<forall>c. outs c u \<inter> outs c v = {}) (take k us @ us ! k # drop (Suc k) us)"
    using assms(1) s by simp
  then have "pend_regs c (take k us) \<inter> outs c (us ! k) = {}" "pend_regs c (drop (Suc k) us) \<inter> outs c (us ! k) = {}"
    by (auto simp: sorted_wrt_append pend_regs_def)
  then show ?thesis using assms(2) p by (auto simp: upd_conv_take_nth_drop)
qed

lemma thread_write:
  assumes T: "thread_ok cfg W t s us C tos" and k: "k < length us" "\<not> ru_completed (us ! k)"
  shows "\<exists>s'. x86_reg_file_write s (us ! k) = Inr s' \<and>
    thread_ok cfg (pend_del W (us ! k)) t s' (us[k := (us ! k)\<lparr>ru_completed := True\<rparr>]) C tos \<and> frame t s s'"
proof -
  let ?u = "us ! k" and ?us = "us[k := (us ! k)\<lparr>ru_completed := True\<rparr>]"
  have H: "halves_ok (size_of cfg) t C (\<lambda>c. thread_maps c tos us) W s" and P: "\<forall>c. W c \<subseteq> pend_regs c us"
    and top: "top_of_stack t s = last_tos tos us" and tos: "tos < 8" and R: "\<forall>u \<in> set us. renamed u \<and> ru_thread u = t"
    and D: "sorted_wrt (\<lambda>u v. \<forall>c. outs c u \<inter> outs c v = {}) us"
    and E: "\<forall>u \<in> set us. \<forall>c. outs c u \<inter> C c ` {..<logical c} = {}" and I: "inputs_ok C tos us"
    using T by (simp_all add: thread_ok_def)
  have m: "?u \<in> set us" using k(1) by simp
  then have r: "renamed ?u" "ru_thread ?u = t" using R by simp_all
  have o: "\<forall>c. allocated (all_maps c 0 ?u) \<subseteq> {..<size_of cfg c}" using outs_range [OF T m] by (simp add: allocated_outs)
  have "\<forall>d \<in> set [0..<4]. d < (4 :: nat)" by simp
  from write_loop [OF r this H o] obtain s' where s': "res_fold (write_odep ?u) [0..<4] s = Inr s'"
    "halves_ok (size_of cfg) t C (\<lambda>c. thread_maps c tos us) (\<lambda>c. W c - outs c ?u) s'" "frame t s s'"
    unfolding allocated_outs by blast
  have "halves_ok (size_of cfg) t C (\<lambda>c. thread_maps c tos ?us) (\<lambda>c. W c - outs c ?u) s'"
    using s'(2) unfolding completed_update(1) .
  moreover have "\<forall>c. W c - outs c ?u \<subseteq> pend_regs c ?us" using P unfolding pend_update [OF D k] by blast
  moreover have rc: "renamed (u\<lparr>ru_completed := b\<rparr>) = renamed u" for u b by (simp add: renamed_def)
  have "renamed u \<and> ru_thread u = t \<and> (\<forall>c. outs c u \<inter> C c ` {..<logical c} = {})" if "u \<in> set ?us" for u
  proof -
    from that set_update_subset_insert have "u = ?u\<lparr>ru_completed := True\<rparr> \<or> u \<in> set us" by fastforce
    then show ?thesis
    proof
      assume "u = ?u\<lparr>ru_completed := True\<rparr>"
      moreover have "\<forall>c. outs c ?u \<inter> C c ` {..<logical c} = {}" using E m by blast
      ultimately show ?thesis using rc r by simp
    next
      assume "u \<in> set us"
      then show ?thesis using R E by blast
    qed
  qed
  moreover have "sorted_wrt (\<lambda>u v. \<forall>c. outs c u \<inter> outs c v = {}) ?us"
    using D unfolding sorted_wrt_iff_nth_less completed_update(4,5) .
  moreover have "top_of_stack t s' = last_tos tos ?us"
    using s'(3) top completed_update(2) [of tos us k] by (simp add: frame_def)
  ultimately have "thread_ok cfg (\<lambda>c. W c - outs c ?u) t s' ?us C tos" using tos I unfolding thread_ok_def completed_update(3) by blast
  then show ?thesis using s'(1,3) by (simp add: x86_reg_file_write_def pend_del_def)
qed

lemma commit_map_range: "commit_map C ms l = C l \<or> commit_map C ms l \<in> allocated ms"
proof (induction ms arbitrary: C)
  case (Cons m ms)
  from Cons.IH [of "C(fst m := fst (snd m))"] show ?case by (auto simp: fun_upd_def split: if_splits)
qed simp

lemma thread_commit:
  assumes T: "thread_ok cfg W t s (u # us) C tos" and u: "ru_completed u \<or> (\<forall>c. outs c u = {})" "\<not> ru_specmode u"
  shows "\<exists>s'. x86_reg_file_commit cfg s u = Inr s' \<and> thread_ok cfg W t s' us (after C tos u) (utos tos u) \<and> frame t s s'"
proof -
  have p: "pend_regs c (u # us) = pend_regs c us" for c using u(1) by auto
  have H: "halves_ok (size_of cfg) t C (\<lambda>c. all_maps c (utos tos u) u @ thread_maps c (utos tos u) us) W s"
    and P: "\<forall>c. W c \<subseteq> pend_regs c us" using T p by (simp_all add: thread_ok_def del: pend_simps(2))
  have top: "top_of_stack t s = last_tos (utos tos u) us" and tos: "tos < 8"
    and R: "renamed u" "ru_thread u = t" "\<forall>u \<in> set us. renamed u \<and> ru_thread u = t"
    and D: "\<forall>v \<in> set us. \<forall>c. outs c u \<inter> outs c v = {}" "sorted_wrt (\<lambda>u v. \<forall>c. outs c u \<inter> outs c v = {}) us"
    and E: "\<forall>u \<in> set us. \<forall>c. outs c u \<inter> C c ` {..<logical c} = {}" and I: "inputs_ok (after C tos u) (utos tos u) us"
    using T by (simp_all add: thread_ok_def)
  have "pend_regs c us \<inter> allocated (all_maps c (utos tos u) u) = {}" for c using D(1) by (auto simp: allocated_outs pend_regs_def)
  then have "\<forall>c. W c \<inter> allocated (all_maps c (utos tos u) u) = {}" using P by blast
  from commit_loop [OF R(1,2) _ H this] obtain s' where s': "res_fold (commit_odep cfg u) [0..<4] s = Inr s'"
    "halves_ok (size_of cfg) t (after C tos u) (\<lambda>c. thread_maps c (utos tos u) us) W s'" "frame t s s'" by auto
  have "outs c v \<inter> after C tos u c ` {..<logical c} = {}" if "v \<in> set us" for c v
  proof -
    have "after C tos u c ` {..<logical c} \<subseteq> C c ` {..<logical c} \<union> outs c u"
      using commit_map_range [of "C c" "all_maps c (utos tos u) u"] by (fastforce simp: allocated_outs)
    then show ?thesis using D(1) E that by blast
  qed
  moreover have "top_of_stack t s' = last_tos (utos tos u) us" using top s'(3) by (simp add: frame_def)
  ultimately have "thread_ok cfg W t s' us (after C tos u) (utos tos u)"
    using s'(2) P R(3) D(2) I new_top_less [OF tos] unfolding thread_ok_def by blast
  then show ?thesis using s'(1,3) u by (simp add: x86_reg_file_commit_def)
qed

lemma store_outs:
  assumes "plain_store (ru_uinst u)" "ui_opcode (ru_uinst u) = x86_uinst_store"
  shows "outs c u = {}"
proof -
  have "class_of (odep u d) = None" if "d < 4" for d
    using assms that by (simp add: plain_store_def list_all_iff class_of_simps)
  moreover have "\<forall>d \<in> set ds. class_of (odep u d) = None \<Longrightarrow> umaps c tos u ds = []" for tos ds
    by (induction ds) (simp_all add: dep_map_def)
  ultimately show ?thesis by (simp add: outs_def)
qed

lemma thread_undo:
  assumes T: "thread_ok cfg W t s (us @ [u]) C tos" and u: "ru_completed u" "ru_specmode u"
  shows "\<exists>s'. x86_reg_file_undo cfg s u = Inr s' \<and> thread_ok cfg W t s' us C tos \<and> others t s s'"
proof -
  let ?tos = "utos (last_tos tos us) u"
  have H: "halves_ok (size_of cfg) t C (\<lambda>c. thread_maps c tos us @ all_maps c ?tos u) W s"
    and P: "\<forall>c. W c \<subseteq> pend_regs c us" using T u by (simp_all add: thread_ok_def)
  have top: "top_of_stack t s = ?tos" and tos: "tos < 8"
    and R: "renamed u" "ru_thread u = t" "\<forall>u \<in> set us. renamed u \<and> ru_thread u = t"
    and D: "\<forall>v \<in> set us. \<forall>c. outs c v \<inter> outs c u = {}" "sorted_wrt (\<lambda>u v. \<forall>c. outs c u \<inter> outs c v = {}) us"
    and E: "\<forall>u \<in> set us. \<forall>c. outs c u \<inter> C c ` {..<logical c} = {}" and I: "inputs_ok C tos us"
    using T u by (simp_all add: thread_ok_def sorted_wrt_append)
  have "pend_regs c us \<inter> allocated (all_maps c ?tos u) = {}" for c using D(1) by (auto simp: allocated_outs pend_regs_def)
  then have "\<forall>c. W c \<inter> allocated (all_maps c ?tos u) = {}" using P by blast
  from undo_loop [OF R(1) _ R(2) H top this] obtain s' where s': "res_fold (undo_odep cfg u) (rev [0..<4]) s = Inr s'"
    "halves_ok (size_of cfg) t C (\<lambda>c. thread_maps c tos us) W s'" "frame t s s'" by auto
  let ?s = "set_top t (old_top (ui_opcode (ru_uinst u)) (top_of_stack t s')) s'"
  have n: "t < num_threads s'" "t < num_threads s" using s'(2) H by (simp_all add: halves_ok_def)
  have "top_of_stack t s' = ?tos" using s'(3) top by (simp add: frame_def)
  then have t: "top_of_stack t ?s = last_tos tos us"
    using set_top_view(2) [OF n(1)] old_new_top [OF last_tos_less [OF tos]] by simp
  have "halves_ok (size_of cfg) t C (\<lambda>c. thread_maps c tos us) W ?s"
    using s'(2) set_top_view(1,4) [OF n(1)] by (simp add: halves_ok_def)
  then have "thread_ok cfg W t ?s us C tos" using P t tos R(3) D(2) E I unfolding thread_ok_def by blast
  moreover have "x86_reg_file_undo cfg s u = Inr ?s" using u(2) s'(1) R(2) by (simp add: x86_reg_file_undo_def)
  ultimately show ?thesis using others_then_top [OF n(2) s'(3)] by blast
qed

text \<open>The pending registers are exact.\<close>

definition exact :: "bool \<Rightarrow> (reg_class \<Rightarrow> nat set) \<Rightarrow> rf_uop list \<Rightarrow> bool" where
  "exact x W us \<longleftrightarrow> (x \<longrightarrow> (\<forall>c. W c = pend_regs c us))"

text \<open>The write-back of an instruction that left the reorder buffer.\<close>

definition gone_ok :: "rf_cfg \<Rightarrow> rf_core \<Rightarrow> rf_uop \<Rightarrow> bool" where
  "gone_ok cfg s u \<longleftrightarrow> renamed u \<and> ru_thread u < num_threads s \<and> (\<forall>c. outs c u \<subseteq> {..<local_size c cfg})"

lemma thread_late:
  assumes T: "thread_ok cfg W t s us C tos" and u: "gone_ok cfg s u" "ru_thread u = t"
  shows "\<exists>s'. x86_reg_file_write s u = Inr s' \<and> thread_ok cfg (pend_del W u) t s' us C tos \<and> frame t s s'"
proof -
  have H: "halves_ok (size_of cfg) t C (\<lambda>c. thread_maps c tos us) W s" using T by (simp add: thread_ok_def)
  have o: "\<forall>c. allocated (all_maps c 0 u) \<subseteq> {..<size_of cfg c}" and r: "renamed u"
    using u(1) by (simp_all add: gone_ok_def allocated_outs)
  have "\<forall>d \<in> set [0..<4]. d < (4 :: nat)" by simp
  from write_loop [OF r u(2) this H o] obtain s' where s': "res_fold (write_odep u) [0..<4] s = Inr s'"
    "halves_ok (size_of cfg) t C (\<lambda>c. thread_maps c tos us) (\<lambda>c. W c - outs c u) s'" "frame t s s'"
    unfolding allocated_outs by blast
  have "\<forall>c. W c - outs c u \<subseteq> pend_regs c us" using T by (auto simp: thread_ok_def)
  moreover have "top_of_stack t s' = top_of_stack t s" using s'(3) by (simp add: frame_def)
  ultimately have "thread_ok cfg (\<lambda>c. W c - outs c u) t s' us C tos" using T s'(2) unfolding thread_ok_def by auto
  then show ?thesis using s'(1,3) by (simp add: x86_reg_file_write_def pend_del_def)
qed

end
