(* ===== verification/Reg_Props.thy ===== *)
theory Reg_Props
  imports Reg_Sim
begin

text \<open>
  Initialisation establishes the invariant, every event keeps it, and it gives the properties of register
  renaming.
\<close>

section \<open>Initialisation\<close>

definition init_inv :: "nat \<Rightarrow> nat \<Rightarrow> nat \<Rightarrow> half \<Rightarrow> bool" where
  "init_inv n k d h \<longleftrightarrow> length (rat (hf_regs h)) = n \<and> free_ok k {} h \<and> (\<forall>l < d. rat (hf_regs h) ! l < k) \<and>
     (\<forall>p < k. busy h p = card {l. l < d \<and> rat (hf_regs h) ! l = p} \<and> \<not> pending h p) \<and> k \<le> free_count h + d"

lemma init_map_ok:
  assumes F: "free_ok k R h" and R: "R \<subseteq> {p}" and p: "p < k" "p \<in> R \<or> 0 < busy h p" and d: "d < n"
    and len: "length (rat (hf_regs h)) = n" and rat: "\<forall>l < d. rat (hf_regs h) ! l < k"
    and B: "\<forall>p < k. busy h p = card {l. l < d \<and> rat (hf_regs h) ! l = p} \<and> \<not> pending h p" and c: "k \<le> free_count h + Suc d"
  shows "init_inv n k (Suc d) (init_map d p h)" "same_counts h (init_map d p h)"
    "free_count (init_map d p h) = free_count h" "rat (hf_regs (init_map d p h)) ! d = p"
proof -
  let ?h = "init_map d p h"
  have lp: "length (phreg (hf_regs h)) = k" using F by (simp add: free_ok_def)
  have f: "rat (hf_regs ?h) = (rat (hf_regs h))[d := p]" "free_phreg (hf_regs ?h) = free_phreg (hf_regs h)"
    "free_count ?h = free_count h" "length (phreg (hf_regs ?h)) = k" "hf_core_count ?h = hf_core_count h"
    "hf_thread_count ?h = hf_thread_count h" using lp by (simp_all add: init_map_def Let_def)
  have ph: "busy ?h q = busy h q + (if q = p then 1 else 0)" "pending ?h q = pending h q" if "q < k" for q
    using that lp p(1) by (simp_all add: init_map_def Let_def)
  have "{q. q < k \<and> busy h q = 0 \<and> q \<notin> R} = {q. q < k \<and> busy ?h q = 0 \<and> q \<notin> {}}"
    using ph p R by (auto split: if_splits)
  then have "free_ok k {} ?h" using F by (simp add: free_ok_def f)
  moreover have "card {l. l < Suc d \<and> rat (hf_regs ?h) ! l = q} =
      card {l. l < d \<and> rat (hf_regs h) ! l = q} + (if q = p then 1 else 0)" for q
  proof -
    have "{l. l < Suc d \<and> rat (hf_regs ?h) ! l = q} =
        (if q = p then insert d {l. l < d \<and> rat (hf_regs h) ! l = q} else {l. l < d \<and> rat (hf_regs h) ! l = q})"
      using d len by (auto simp: f(1) less_Suc_eq nth_list_update)
    then show ?thesis by simp
  qed
  ultimately show "init_inv n k (Suc d) ?h"
    using len rat B p(1) c d ph f by (simp add: init_inv_def less_Suc_eq nth_list_update)
  show "same_counts h ?h" "free_count ?h = free_count h" "rat (hf_regs ?h) ! d = p"
    using f d len by (simp_all add: same_counts_def)
qed

lemma init_reclaim:
  assumes I: "init_inv n k d h" and d: "d < n" "d < k"
  shows "\<exists>h1 p. reg_file_reclaim h = Inr (h1, p) \<and> p < k \<and> init_inv n k (Suc d) (init_map d p h1) \<and>
    same_counts h (init_map d p h1) \<and> rat (hf_regs (init_map d p h1)) ! d = p"
proof -
  have F: "free_ok k {} h" and some: "0 < free_count h" and idle: "\<forall>p < k. busy h p = 0 \<longrightarrow> \<not> pending h p"
    using I d by (auto simp: init_inv_def)
  from reclaim_free [OF F some idle] obtain h1 p where h: "reg_file_reclaim h = Inr (h1, p)" "free_ok k {p} h1" "p < k"
    "busy h1 p = 0" "free_count h1 = free_count h - 1" "rat (hf_regs h1) = rat (hf_regs h)"
    "phreg (hf_regs h1) = phreg (hf_regs h)" "same_counts h h1" by blast
  have len: "length (rat (hf_regs h1)) = n" and rat: "\<forall>l < d. rat (hf_regs h1) ! l < k"
    and B: "\<forall>p < k. busy h1 p = card {l. l < d \<and> rat (hf_regs h1) ! l = p} \<and> \<not> pending h1 p"
    and c0: "k \<le> free_count h + d" using I h(6,7) by (simp_all add: init_inv_def)
  have "k \<le> free_count h1 + Suc d" using c0 some h(5) by linarith
  note M = init_map_ok [OF h(2) subset_refl h(3) disjI1 [OF singletonI] d(1) len rat B this]
  show ?thesis using h(1,3,8) M by (auto simp: same_counts_def)
qed

lemma init_int_fold:
  assumes I: "init_inv 22 k 0 h" and k: "26 \<le> k"
  shows "\<exists>h' p. res_fold init_int [0..<x86_dep_int_count] (h, -1) = Inr (h', p) \<and> init_inv 22 k 22 h' \<and> same_counts h h'"
proof -
  define Q where "Q d r \<longleftrightarrow> (case r of (g, p) \<Rightarrow> init_inv 22 k d g \<and> same_counts h g \<and>
    (0 < d \<longrightarrow> 0 \<le> p \<and> nat p < k \<and> 0 < busy g (nat p)))" for d and r :: "half \<times> int"
  have "\<exists>r. res_fold init_int [0..<x86_dep_int_count] (h, -1) = Inr r \<and> Q (length [0..<x86_dep_int_count]) r"
  proof (rule res_fold_inv)
    show "Q 0 (h, -1)" using I by (simp add: Q_def same_counts_def)
    fix d and r :: "half \<times> int"
    assume d: "d < length [0..<x86_dep_int_count]" and q: "Q d r"
    obtain g p where r: "r = (g, p)" by fastforce
    have G: "init_inv 22 k d g" "same_counts h g" "0 < d \<Longrightarrow> 0 \<le> p \<and> nat p < k \<and> 0 < busy g (nat p)"
      using q r by (auto simp: Q_def)
    have n: "[0..<x86_dep_int_count] ! d = d" using d by simp
    have busy: "0 < busy (init_map d q g') q" if "init_inv 22 k (Suc d) (init_map d q g')" "q < k"
        "rat (hf_regs (init_map d q g')) ! d = q" for q g'
    proof -
      have "d \<in> {l. l < Suc d \<and> rat (hf_regs (init_map d q g')) ! l = q}" using that(3) by simp
      then have "0 < card {l. l < Suc d \<and> rat (hf_regs (init_map d q g')) ! l = q}" by (subst card_gt_0_iff) auto
      then show ?thesis using that(1,2) by (simp add: init_inv_def)
    qed
    show "\<exists>r'. init_int ([0..<x86_dep_int_count] ! d) r = Inr r' \<and> Q (Suc d) r'"
    proof (cases "X86_DEP_IS_FLAG (d + x86_dep_int_first)")
      case True
      then have "0 < d" by (simp add: X86_DEP_IS_FLAG_def)
      note P = G(3) [OF this]
      have len: "length (rat (hf_regs g)) = 22" and F: "free_ok k {} g" and rat: "\<forall>l < d. rat (hf_regs g) ! l < k"
        and B: "\<forall>p < k. busy g p = card {l. l < d \<and> rat (hf_regs g) ! l = p} \<and> \<not> pending g p"
        and c: "k \<le> free_count g + Suc d" using G(1) by (simp_all add: init_inv_def)
      have "d < 22" "nat p < k" "0 < busy g (nat p)" using d P by simp_all
      note * = init_map_ok [OF F empty_subsetI this(2) disjI2 [OF this(3)] this(1) len rat B c]
      have "init_int d (g, p) = Inr (init_map d (nat p) g, p)" using True P by (simp add: init_int_def)
      then show ?thesis using *(1,2) G(2) P busy [OF *(1) _ *(4)] by (simp add: n r Q_def same_counts_def)
    next
      case False
      from init_reclaim [OF G(1)] d k obtain g1 q where q: "reg_file_reclaim g = Inr (g1, q)" "q < k"
        "init_inv 22 k (Suc d) (init_map d q g1)" "same_counts g (init_map d q g1)" "rat (hf_regs (init_map d q g1)) ! d = q"
        by auto
      have "init_int d (g, p) = Inr (init_map d q g1, int q)" using False q(1) by (simp add: init_int_def)
      then show ?thesis using q G(2) busy [OF q(3,2,5)] by (simp add: n r Q_def same_counts_def)
    qed
  qed
  then show ?thesis by (auto simp: Q_def)
qed

lemma init_fp_fold:
  assumes I: "init_inv 11 k 0 h" and k: "15 \<le> k"
  shows "\<exists>h'. res_fold init_fp [0..<x86_dep_fp_count] h = Inr h' \<and> init_inv 11 k 11 h' \<and> same_counts h h'"
proof -
  have "\<exists>g. res_fold init_fp [0..<x86_dep_fp_count] h = Inr g \<and>
    (init_inv 11 k (length [0..<x86_dep_fp_count]) g \<and> same_counts h g)"
  proof (rule res_fold_inv [where Q = "\<lambda>d g. init_inv 11 k d g \<and> same_counts h g"])
    show "init_inv 11 k 0 h \<and> same_counts h h" using I by (simp add: same_counts_def)
    fix d g
    assume d: "d < length [0..<x86_dep_fp_count]" and q: "init_inv 11 k d g \<and> same_counts h g"
    from init_reclaim [of 11 k d g] d k q obtain g1 p where "reg_file_reclaim g = Inr (g1, p)"
      "init_inv 11 k (Suc d) (init_map d p g1)" "same_counts g (init_map d p g1)" by auto
    then show "\<exists>g'. init_fp ([0..<x86_dep_fp_count] ! d) g = Inr g' \<and> (init_inv 11 k (Suc d) g' \<and> same_counts h g')"
      using d q by (simp add: init_fp_def same_counts_def)
  qed
  then show ?thesis by simp
qed

lemma init_inv_regs_ok:
  assumes I: "init_inv n k n h"
  shows "regs_ok n k (\<lambda>l. rat (hf_regs h) ! l) [] {} {} h"
proof -
  have "busy h p = uses n (\<lambda>l. rat (hf_regs h) ! l) [] p" if "p < k" for p using I that by (simp add: init_inv_def uses_def)
  then show ?thesis using I by (simp add: regs_ok_def mapping_ok_def init_inv_def)
qed

lemma create_init_inv:
  "init_inv n k 0 \<lparr>hf_regs = half_create n k, hf_core_count = x, hf_thread_count = 0\<rparr>"
  by (auto simp: init_inv_def half_create_def free_ok_def)

section \<open>Readiness\<close>

text \<open>The top of the stack after renaming the instruction at a position, from the current one.\<close>

definition top_after :: "nat \<Rightarrow> rf_core \<Rightarrow> rf_uop list \<Rightarrow> nat \<Rightarrow> nat" where
  "top_after t s us k = foldr (\<lambda>u. old_top (ui_opcode (ru_uinst u))) (drop (Suc k) us) (top_of_stack t s)"

definition regs_of :: "nat \<Rightarrow> nat list \<Rightarrow> (reg_class \<times> nat) list" where
  "regs_of tos deps = concat (map (\<lambda>d. case class_of d of None \<Rightarrow> [] | Some c \<Rightarrow> [(c, lreg c tos d)]) deps)"

text \<open>The youngest older instruction in flight that writes a register.\<close>

definition producer :: "nat \<Rightarrow> rf_core \<Rightarrow> rf_uop list \<Rightarrow> nat \<Rightarrow> reg_class \<times> nat \<Rightarrow> nat option" where
  "producer t s us k r = find (\<lambda>j. r \<in> set (regs_of (top_after t s us j) (map (odep (us ! j)) [0..<4]))) (rev [0..<k])"

definition producers_done :: "nat \<Rightarrow> rf_core \<Rightarrow> rf_uop list \<Rightarrow> nat \<Rightarrow> bool" where
  "producers_done t s us k = list_all (\<lambda>r. case producer t s us k r of None \<Rightarrow> True | Some j \<Rightarrow> ru_completed (us ! j))
     (regs_of (top_after t s us k) (map (idep (us ! k)) [0..<3]))"

lemma top_after_eq:
  assumes "thread_ok cfg W t s us C tos"
  shows "top_after t s us k = last_tos tos (take (Suc k) us)"
proof -
  have undone: "x < 8 \<Longrightarrow> foldr (\<lambda>u. old_top (ui_opcode (ru_uinst u))) vs (last_tos x vs) = x" for x vs
    by (induction vs arbitrary: x) (simp_all add: new_top_less old_new_top)
  have "last_tos tos us = last_tos (last_tos tos (take (Suc k) us)) (drop (Suc k) us)"
    by (metis append_take_drop_id last_tos_append)
  then show ?thesis using undone last_tos_less assms by (simp add: top_after_def thread_ok_def)
qed

lemma regs_of_maps: "(c, l) \<in> set (regs_of tos (map (odep u) ds)) \<longleftrightarrow> l \<in> fst ` set (umaps c tos u ds)"
  by (induction ds) (auto simp: regs_of_def dep_map_def split: option.split)

lemma commit_map_written: "l \<in> fst ` set ms \<Longrightarrow> commit_map C ms l \<in> allocated ms"
proof (induction ms arbitrary: C)
  case (Cons m ms)
  show ?case
  proof (cases "l \<in> fst ` set ms")
    case True
    with Cons.IH show ?thesis by simp
  next
    case False
    then have "commit_map (C(fst m := fst (snd m))) ms l = (C(fst m := fst (snd m))) l"
    proof -
      have "l \<notin> fst ` set ms \<Longrightarrow> commit_map D ms l = D l" for D
        by (induction ms arbitrary: D) auto
      then show ?thesis using False by blast
    qed
    then show ?thesis using Cons.prems False by simp
  qed
qed simp

lemma commit_map_unwritten: "l \<notin> fst ` set ms \<Longrightarrow> commit_map C ms l = C l"
  by (induction ms arbitrary: C) auto

lemma producer_value:
  assumes T: "thread_ok cfg W t s us C tos" and k: "k \<le> length us"
  shows "case producer t s us k (c, l) of
      None \<Rightarrow> commit_map (C c) (thread_maps c tos (take k us)) l = C c l
    | Some j \<Rightarrow> j < k \<and> commit_map (C c) (thread_maps c tos (take k us)) l \<in> outs c (us ! j)"
  using k
proof (induction k)
  case (Suc k)
  let ?tos = "last_tos tos (take (Suc k) us)"
  have s: "take (Suc k) us = take k us @ [us ! k]" using Suc.prems by (simp add: take_Suc_conv_app_nth)
  have m: "thread_maps c tos (take (Suc k) us) = thread_maps c tos (take k us) @ all_maps c ?tos (us ! k)"
    by (simp add: s)
  have w: "(c, l) \<in> set (regs_of (top_after t s us k) (map (odep (us ! k)) [0..<4])) \<longleftrightarrow> l \<in> fst ` set (all_maps c ?tos (us ! k))"
    unfolding regs_of_maps top_after_eq [OF T] ..
  show ?case
  proof (cases "l \<in> fst ` set (all_maps c ?tos (us ! k))")
    case True
    then have "producer t s us (Suc k) (c, l) = Some k" using w by (simp add: producer_def)
    then show ?thesis using commit_map_written [OF True] by (simp add: m allocated_outs)
  next
    case False
    then have "producer t s us (Suc k) (c, l) = producer t s us k (c, l)" using w by (simp add: producer_def)
    then show ?thesis using Suc by (simp add: m commit_map_unwritten [OF False] split: option.splits)
  qed
qed (simp add: producer_def)

definition input_pending :: "rf_core \<Rightarrow> rf_uop \<Rightarrow> nat \<Rightarrow> bool" where
  "input_pending s u d = (case class_of (idep u d) of None \<Rightarrow> False
     | Some c \<Rightarrow> pending (half_of c (ru_thread u) s) (nat (ru_ph_idep u ! d)))"

lemma ready_loop_ok:
  assumes "\<forall>d \<in> set ds. \<forall>c. class_of (idep u d) = Some c \<longrightarrow> in_file (ru_ph_idep u ! d) (half_of c (ru_thread u) s)"
  shows "ready_loop s u ds = Inr (\<forall>d \<in> set ds. \<not> input_pending s u d)"
  using assms
proof (induction ds)
  case (Cons d ds)
  then have IH: "ready_loop s u ds = Inr (\<forall>d \<in> set ds. \<not> input_pending s u d)" by simp
  show ?case
  proof (cases "class_of (idep u d)")
    case None
    then have n: "\<not> X86_DEP_IS_INT_REG (idep u d)" "\<not> X86_DEP_IS_FP_REG (idep u d)" by (simp_all add: class_of_simps)
    have "\<not> input_pending s u d" using None by (simp add: input_pending_def)
    then show ?thesis using IH n by simp
  next
    case (Some c)
    then have i: "in_file (ru_ph_idep u ! d) (half_of c (ru_thread u) s)" using Cons.prems by simp
    have "input_pending s u d = pending (half_of c (ru_thread u) s) (nat (ru_ph_idep u ! d))"
      using Some by (simp add: input_pending_def)
    moreover have "\<not> (X86_DEP_IS_INT_REG (idep u d) \<and> X86_DEP_IS_FP_REG (idep u d))" using int_not_fp by blast
    ultimately show ?thesis using IH Some i by (cases c) (auto simp: class_of_simps pending_in_def)
  qed
qed simp

lemma input_value:
  assumes T: "thread_ok cfg W t s us C tos" and k: "k < length us" "d < 3" "class_of (idep (us ! k) d) = Some c"
  defines "l \<equiv> lreg c (top_after t s us k) (idep (us ! k) d)"
  shows "ru_ph_idep (us ! k) ! d = int (commit_map (C c) (thread_maps c tos (take k us)) l)"
proof -
  have "inputs_ok C tos us" using T by (simp add: thread_ok_def)
  then have "inputs_ok C tos (take k us @ us ! k # drop (Suc k) us)" using k(1) by (simp add: id_take_nth_drop [symmetric])
  then have "input_ok (\<lambda>c. commit_map (C c) (thread_maps c tos (take k us))) (last_tos tos (take k us)) (us ! k)" by simp
  moreover have "utos (last_tos tos (take k us)) (us ! k) = top_after t s us k"
    unfolding top_after_eq [OF T] using k(1) by (simp add: take_Suc_conv_app_nth)
  ultimately show ?thesis using k(2,3) by (simp add: input_ok_def l_def)
qed

lemma outs_disjoint:
  assumes D: "sorted_wrt (\<lambda>u v. \<forall>c. outs c u \<inter> outs c v = {}) us" and i: "i < length us" "j < length us" "i \<noteq> j"
  shows "outs c (us ! i) \<inter> outs c (us ! j) = {}"
proof (cases "i < j")
  case True
  from sorted_wrt_nth_less [OF D True i(2)] show ?thesis by blast
next
  case False
  with i(3) have "j < i" by simp
  from sorted_wrt_nth_less [OF D this i(1)] show ?thesis by blast
qed

lemma pending_producer:
  assumes T: "thread_ok cfg W t s us C tos" and k: "k \<le> length us" and l: "l < logical c"
  defines "p \<equiv> commit_map (C c) (thread_maps c tos (take k us)) l"
    and "bad \<equiv> (case producer t s us k (c, l) of None \<Rightarrow> False | Some j \<Rightarrow> \<not> ru_completed (us ! j))"
  shows "p < local_size c cfg" "pending (half_of c t s) p \<Longrightarrow> bad"
    "exact True W us \<Longrightarrow> pending (half_of c t s) p \<longleftrightarrow> bad"
proof -
  have R: "regs_ok (logical c) (local_size c cfg) (C c) (thread_maps c tos us) (W c) {} (half_of c t s)"
    and Wp: "W c \<subseteq> pend_regs c us"
    and D: "sorted_wrt (\<lambda>u v. \<forall>c. outs c u \<inter> outs c v = {}) us"
    and E: "\<forall>u \<in> set us. \<forall>c. outs c u \<inter> C c ` {..<logical c} = {}"
    using T by (simp_all add: thread_ok_def halves_ok_def)
  have "allocated (thread_maps c tos (take k us)) \<subseteq> allocated (thread_maps c tos us)"
    unfolding allocated_thread using set_take_subset [of k us] by blast
  then have "p = C c l \<or> p \<in> allocated (thread_maps c tos us)"
    using commit_map_range [of "C c" "thread_maps c tos (take k us)" l] unfolding p_def by blast
  then show sz: "p < local_size c cfg" using R l by (auto simp: regs_ok_def mapping_ok_def)
  then have P: "pending (half_of c t s) p \<longleftrightarrow> p \<in> W c" using R by (simp add: regs_ok_def)
  note V = producer_value [OF T k, of c l, folded p_def]
  have Q: "p \<in> pend_regs c us \<longleftrightarrow> bad"
  proof (cases "producer t s us k (c, l)")
    case None
    then have "p \<in> C c ` {..<logical c}" using V l by simp
    then have "p \<notin> pend_regs c us" using E by (auto simp: pend_regs_def)
    then show ?thesis using None by (simp add: bad_def)
  next
    case (Some j)
    then have j: "j < length us" "p \<in> outs c (us ! j)" using V k by simp_all
    have uniq: "i = j" if "i < length us" "p \<in> outs c (us ! i)" for i
    proof (rule ccontr)
      assume "i \<noteq> j"
      then have "outs c (us ! i) \<inter> outs c (us ! j) = {}"
        by (rule outs_disjoint [OF D that(1) j(1)])
      then show False using that(2) j(2) by blast
    qed
    have "p \<in> pend_regs c us \<longleftrightarrow> \<not> ru_completed (us ! j)"
    proof
      assume "p \<in> pend_regs c us"
      then obtain u where u: "u \<in> set us" "\<not> ru_completed u" "p \<in> outs c u" unfolding pend_regs_def by blast
      from u(1) obtain i where "i < length us" "us ! i = u" unfolding in_set_conv_nth by blast
      with u have "i < length us" "\<not> ru_completed (us ! i)" "p \<in> outs c (us ! i)" by simp_all
      with uniq show "\<not> ru_completed (us ! j)" by blast
    next
      assume "\<not> ru_completed (us ! j)"
      then show "p \<in> pend_regs c us" unfolding pend_regs_def using j nth_mem [OF j(1)] by blast
    qed
    then show ?thesis using Some by (simp add: bad_def)
  qed
  then show "pending (half_of c t s) p \<Longrightarrow> bad" using P Wp by blast
  show "exact True W us \<Longrightarrow> pending (half_of c t s) p \<longleftrightarrow> bad" using P Q by (simp add: exact_def)
qed

text \<open>Completed producers, register by register.\<close>

lemma producers_done_iff:
  "producers_done t s us k \<longleftrightarrow> (\<forall>d \<in> set [0..<3]. \<forall>c. class_of (idep (us ! k) d) = Some c \<longrightarrow>
     \<not> (case producer t s us k (c, lreg c (top_after t s us k) (idep (us ! k) d)) of None \<Rightarrow> False | Some j \<Rightarrow> \<not> ru_completed (us ! j)))"
proof -
  let ?done = "\<lambda>r. case producer t s us k r of None \<Rightarrow> True | Some j \<Rightarrow> ru_completed (us ! j)"
  have d: "?done r \<longleftrightarrow> \<not> (case producer t s us k r of None \<Rightarrow> False | Some j \<Rightarrow> \<not> ru_completed (us ! j))" for r
    by (simp split: option.split)
  have "list_all ?done (regs_of x (map f ds)) \<longleftrightarrow> (\<forall>d \<in> set ds. \<forall>c. class_of (f d) = Some c \<longrightarrow> ?done (c, lreg c x (f d)))"
    for x f and ds :: "nat list"
    by (induction ds) (auto simp: regs_of_def split: option.split)
  then show ?thesis unfolding producers_done_def d .
qed

lemma ready_exact:
  assumes T: "thread_ok cfg W t s us C tos" and k: "k < length us"
  shows "\<exists>b. x86_reg_file_ready s (us ! k) = Inr b \<and> (producers_done t s us k \<longrightarrow> b) \<and>
    (exact True W us \<longrightarrow> b = producers_done t s us k)"
proof -
  let ?u = "us ! k"
  have th: "ru_thread ?u = t" using T k by (simp add: thread_ok_def)
  have len: "length (phreg (hf_regs (half_of c t s))) = local_size c cfg" for c
    using T by (simp add: thread_ok_def halves_ok_def regs_ok_def free_ok_def)
  let ?bad = "\<lambda>c d. case producer t s us k (c, lreg c (top_after t s us k) (idep ?u d)) of None \<Rightarrow> False | Some j \<Rightarrow> \<not> ru_completed (us ! j)"
  have V: "in_file (ru_ph_idep ?u ! d) (half_of c t s)" "input_pending s ?u d \<Longrightarrow> ?bad c d"
      "exact True W us \<Longrightarrow> input_pending s ?u d \<longleftrightarrow> ?bad c d"
    if "d < 3" "class_of (idep ?u d) = Some c" for c d
    using pending_producer [OF T less_imp_le [OF k] lreg_less [OF that(2)], of "top_after t s us k"]
      input_value [OF T k that] that by (simp_all add: in_file_def len th input_pending_def)
  have N: "\<not> input_pending s ?u d" if "class_of (idep ?u d) = None" for d using that by (simp add: input_pending_def)
  let ?b = "\<forall>d \<in> set [0..<3]. \<not> input_pending s ?u d"
  have "x86_reg_file_ready s ?u = Inr ?b"
    unfolding x86_reg_file_ready_def by (rule ready_loop_ok) (use V(1) in \<open>simp add: th\<close>)
  moreover have "producers_done t s us k \<Longrightarrow> ?b"
    unfolding producers_done_iff using V(2) N by (metis atLeastLessThan_iff not_None_eq set_upt)
  moreover have "?b = producers_done t s us k" if W: "exact True W us"
    unfolding producers_done_iff using V(3) [OF _ _ W] N by (metis atLeastLessThan_iff not_None_eq set_upt)
  ultimately show ?thesis by blast
qed

section \<open>The invariant of a core\<close>

definition core_ok :: "rf_cfg \<Rightarrow> bool \<Rightarrow> rf_state \<Rightarrow> bool" where
  "core_ok cfg x = (\<lambda>(s, robs, stores, loads). num_threads s = length robs \<and> (\<forall>c. sum_ok c s) \<and>
     (\<forall>t < length robs. (\<exists>C tos W. thread_ok cfg W t s (robs ! t) C tos \<and> exact x W (robs ! t)) \<and>
       (\<forall>u \<in> set (robs ! t). plain_store (ru_uinst u))) \<and>
     (\<forall>u \<in> set stores. gone_ok cfg s u \<and> (\<forall>c. outs c u = {})) \<and> (\<forall>u \<in> set loads. gone_ok cfg s u))"

lemma thread_ok_others:
  assumes o: "others t s s'" and sum: "\<forall>c. sum_ok c s" and t': "t' \<noteq> t" "t' < num_threads s"
    and ok: "thread_ok cfg W t' s us C tos"
  shows "thread_ok cfg W t' s' us C tos"
proof -
  have e: "half_of c t' s' = (half_of c t' s)\<lparr>hf_core_count := class_count c s'\<rparr>" for c using o t'(1) by (simp add: others_def)
  have "hf_thread_count (half_of c t' s') \<le> class_count c s'" for c
    using sum_ok_le [of c s' t'] o sum t'(2) by (simp add: others_def)
  then have le: "hf_thread_count (half_of c t' s) \<le> class_count c s'" for c by (simp add: e)
  have "halves_ok (size_of cfg) t' C (\<lambda>c. thread_maps c tos us) W s'"
    using ok o t'(2) regs_ok_core [OF _ le] unfolding thread_ok_def halves_ok_def e by (simp add: others_def)
  then show ?thesis using ok o t'(1) by (simp add: thread_ok_def others_def)
qed

lemma core_ok_update:
  assumes ok: "core_ok cfg x (s, robs, stores, loads)" and t: "t < length robs" and o: "others t s s'"
    and T: "thread_ok cfg W t s' us C tos" and W: "y \<longrightarrow> x" "exact y W us"
    and st: "\<forall>u \<in> set us. plain_store (ru_uinst u)"
    and gone: "\<forall>u \<in> set stores'. gone_ok cfg s u \<and> (\<forall>c. outs c u = {})" "\<forall>u \<in> set loads'. gone_ok cfg s u"
  shows "core_ok cfg y (s', robs[t := us], stores', loads')"
proof -
  have "(\<exists>C tos W. thread_ok cfg W t' s' (robs[t := us] ! t') C tos \<and> exact y W (robs[t := us] ! t')) \<and>
      (\<forall>u \<in> set (robs[t := us] ! t'). plain_store (ru_uinst u))" if t': "t' < length robs" for t'
  proof (cases "t' = t")
    case False
    have s: "\<forall>c. sum_ok c s" "t' < num_threads s" using ok t' by (simp_all add: core_ok_def)
    have "(\<exists>C tos W. thread_ok cfg W t' s (robs ! t') C tos \<and> exact x W (robs ! t')) \<and>
        (\<forall>u \<in> set (robs ! t'). plain_store (ru_uinst u))" using ok t' by (simp add: core_ok_def)
    moreover have "exact y W' us'" if "exact x W' us'" for W' us' using that W(1) by (simp add: exact_def)
    ultimately show ?thesis using thread_ok_others [OF o s(1) False s(2)] False by (simp, blast)
  qed (use T t st W in auto)
  moreover have "gone_ok cfg s' u = gone_ok cfg s u" for u using o by (simp add: gone_ok_def others_def)
  ultimately show ?thesis using ok o gone by (simp add: core_ok_def others_def)
qed

lemma undo_completed: "x86_reg_file_undo cfg s (u\<lparr>ru_completed := b\<rparr>) = x86_reg_file_undo cfg s u"
proof -
  have "undo_odep cfg (u\<lparr>ru_completed := b\<rparr>) = undo_odep cfg u" by (rule ext)+ (simp add: undo_odep_def)
  then show ?thesis by (simp add: x86_reg_file_undo_def Let_def)
qed

text \<open>Recovery of one instruction.\<close>

lemma last_fresh:
  assumes "thread_ok cfg W t s (us @ [u]) C tos"
  shows "pend_regs c us \<inter> outs c u = {}"
proof -
  have "\<forall>v \<in> set us. \<forall>c. outs c v \<inter> outs c u = {}" using assms by (simp add: thread_ok_def sorted_wrt_append)
  then show ?thesis by (auto simp: pend_regs_def)
qed

lemma thread_squash:
  assumes T: "thread_ok cfg W t s (us @ [u]) C tos" and u: "ru_specmode u"
  shows "\<exists>s1 s'. (if ru_completed u then Inr s else x86_reg_file_write s u) = Inr s1 \<and>
    x86_reg_file_undo cfg s1 u = Inr s' \<and> others t s s' \<and>
    thread_ok cfg (if ru_completed u then W else pend_del W u) t s' us C tos"
proof (cases "ru_completed u")
  case True
  with thread_undo [OF T True u] show ?thesis by auto
next
  case False
  let ?u = "u\<lparr>ru_completed := True\<rparr>"
  have "length us < length (us @ [u])" "\<not> ru_completed ((us @ [u]) ! length us)" using False by simp_all
  from thread_write [OF T this] obtain s1 where s1: "x86_reg_file_write s u = Inr s1"
    "thread_ok cfg (pend_del W u) t s1 (us @ [?u]) C tos" "frame t s s1" by auto
  from thread_undo [OF s1(2)] u obtain s' where "x86_reg_file_undo cfg s1 ?u = Inr s'"
    "thread_ok cfg (pend_del W u) t s' us C tos" "others t s1 s'" by auto
  moreover have "others t s s'" using frame_others [OF s1(3)] \<open>others t s1 s'\<close> by (simp add: others_def)
  ultimately show ?thesis using s1(1) False by (simp add: undo_completed)
qed

lemma core_thread:
  assumes "core_ok cfg x (s, robs, stores, loads)" "t < length robs"
  obtains C tos W where "thread_ok cfg W t s (robs ! t) C tos" "exact x W (robs ! t)"
    "\<forall>u \<in> set (robs ! t). plain_store (ru_uinst u)"
proof -
  have "(\<exists>C tos W. thread_ok cfg W t s (robs ! t) C tos \<and> exact x W (robs ! t)) \<and>
      (\<forall>u \<in> set (robs ! t). plain_store (ru_uinst u))" using assms by (simp add: core_ok_def)
  then show thesis using that by blast
qed

lemma core_weaken: "core_ok cfg x st \<Longrightarrow> core_ok cfg (x \<and> y) st"
proof -
  assume ok: "core_ok cfg x st"
  obtain s robs stores loads where st: "st = (s, robs, stores, loads)" by (cases st)
  have "exact (x \<and> y) W us" if "exact x W us" for W us using that by (simp add: exact_def)
  then show ?thesis using ok unfolding core_ok_def st by (simp, blast)
qed

lemma core_gone:
  assumes "core_ok cfg x (s, robs, stores, loads)"
  shows "\<forall>c. sum_ok c s" "\<forall>u \<in> set stores. gone_ok cfg s u \<and> (\<forall>c. outs c u = {})" "\<forall>u \<in> set loads. gone_ok cfg s u"
    "num_threads s = length robs"
  using assms by (simp_all add: core_ok_def)

lemma thread_gone:
  assumes "thread_ok cfg W t s us C tos" "u \<in> set us"
  shows "gone_ok cfg s u"
  using assms outs_range [OF assms] by (auto simp: gone_ok_def thread_ok_def halves_ok_def)

abbreviation step_ok :: "rf_cfg \<Rightarrow> bool \<Rightarrow> rf_event \<Rightarrow> rf_state \<Rightarrow> bool" where
  "step_ok cfg x e st \<equiv> \<exists>s' robs' stores' loads'. rf_do cfg e st = Inr (s', robs', stores', loads') \<and>
     core_ok cfg (x \<and> not_late e) (s', robs', stores', loads') \<and> length robs' = length (fst (snd st))"

lemma step_dispatch:
  assumes ok: "core_ok cfg x (s, robs, stores, loads)" and e: "event_ok (Rf_dispatch t ui spec)" "plain_store ui"
  shows "step_ok cfg x (Rf_dispatch t ui spec) (s, robs, stores, loads)"
proof (cases "t < length robs \<and> x86_reg_file_can_rename cfg s (fetch_uop t ui spec)")
  case True
  have t: "t < length robs" using True by simp
  obtain C tos W where C: "thread_ok cfg W t s (robs ! t) C tos"
    and W: "exact x W (robs ! t)" and st: "\<forall>u \<in> set (robs ! t). plain_store (ru_uinst u)" by (rule core_thread [OF ok t])
  have ui: "length (ui_odep ui) = 4" "length (ui_idep ui) = 3" using e by simp_all
  from thread_dispatch [OF C core_gone(1) [OF ok] refl ui] True obtain s' v where
    v: "x86_reg_file_rename s (fetch_uop t ui spec) = Inr (s', v)"
    "thread_ok cfg (pend_add W v) t s' (robs ! t @ [v]) C tos" "others t s s'" "ru_uinst v = ui" "\<not> ru_completed v" by blast
  have w: "exact x (pend_add W v) (robs ! t @ [v])" using W v(5) by (simp add: exact_def pend_add_def)
  have p: "\<forall>u \<in> set (robs ! t @ [v]). plain_store (ru_uinst u)" using st v(4) e(2) by simp
  from core_ok_update [OF ok _ v(3,2) impI [of x x] w p core_gone(2,3) [OF ok]] v(1) True show ?thesis by simp
qed (use ok in auto)

lemma step_writeback:
  assumes ok: "core_ok cfg x (s, robs, stores, loads)"
  shows "step_ok cfg x (Rf_writeback t k) (s, robs, stores, loads)"
proof (cases "t < length robs \<and> k < length (robs ! t) \<and> \<not> ru_completed (robs ! t ! k) \<and>
    ui_opcode (ru_uinst (robs ! t ! k)) \<noteq> x86_uinst_store")
  case True
  let ?u = "robs ! t ! k" and ?us = "(robs ! t)[k := (robs ! t ! k)\<lparr>ru_completed := True\<rparr>]"
  have t: "t < length robs" using True by simp
  obtain C tos W where C: "thread_ok cfg W t s (robs ! t) C tos"
    and W: "exact x W (robs ! t)" and st: "\<forall>u \<in> set (robs ! t). plain_store (ru_uinst u)" by (rule core_thread [OF ok t])
  from thread_write [OF C] True obtain s' where s': "x86_reg_file_write s ?u = Inr s'"
    "thread_ok cfg (pend_del W ?u) t s' ?us C tos" "frame t s s'" by blast
  have D: "sorted_wrt (\<lambda>u v. \<forall>c. outs c u \<inter> outs c v = {}) (robs ! t)" using C by (simp add: thread_ok_def)
  have w: "exact x (pend_del W ?u) ?us" using W pend_update [OF D] True by (simp add: exact_def pend_del_def)
  have "set ?us \<subseteq> insert (?u\<lparr>ru_completed := True\<rparr>) (set (robs ! t))" by (rule set_update_subset_insert)
  moreover have "plain_store (ru_uinst ?u)" using st True by simp
  ultimately have p: "\<forall>u \<in> set ?us. plain_store (ru_uinst u)" using st by auto
  from core_ok_update [OF ok _ frame_others [OF s'(3)] s'(2) impI [of x x] w p core_gone(2,3) [OF ok]] s'(1) True
  show ?thesis by simp
qed (use ok in auto)

lemma step_commit:
  assumes ok: "core_ok cfg x (s, robs, stores, loads)"
  shows "step_ok cfg x (Rf_commit t) (s, robs, stores, loads)"
proof (cases "t < length robs \<and> robs ! t \<noteq> [] \<and> \<not> ru_specmode (hd (robs ! t))")
  case True
  then obtain u us where us: "robs ! t = u # us" by (cases "robs ! t") auto
  have t: "t < length robs" using True by simp
  obtain C tos W where C: "thread_ok cfg W t s (u # us) C tos" and W: "exact x W (u # us)"
    and ps: "\<forall>u \<in> set (u # us). plain_store (ru_uinst u)" by (rule core_thread [OF ok t, unfolded us])
  have st: "plain_store (ru_uinst u)" "\<forall>u \<in> set us. plain_store (ru_uinst u)" using ps by simp_all
  obtain b where b: "can_retire s u = Inr b" "b \<longrightarrow> ru_completed u \<or> (\<forall>c. outs c u = {})"
    using ready_exact [OF C, of 0] store_outs [OF st(1)]
    by (cases "ui_opcode (ru_uinst u) = x86_uinst_store") (auto simp: can_retire_def)
  show ?thesis
  proof (cases b)
    case b': True
    from thread_commit [OF C] True b(2) b' us obtain s' where s': "x86_reg_file_commit cfg s u = Inr s'"
      "thread_ok cfg W t s' us (after C tos u) (utos tos u)" "frame t s s'" by auto
    have w: "exact x W us" using W b(2) b' by (auto simp: exact_def)
    have "gone_ok cfg s u" by (rule thread_gone [OF C]) simp
    then have g: "\<forall>u \<in> set (if ru_completed u then stores else stores @ [u]). gone_ok cfg s u \<and> (\<forall>c. outs c u = {})"
      using core_gone(2) [OF ok] b(2) b' by auto
    from core_ok_update [OF ok _ frame_others [OF s'(3)] s'(2) impI [of x x] w st(2) g core_gone(3) [OF ok]] s'(1) True b(1) b' us
    show ?thesis by (simp cong: if_cong split del: if_split)
  qed (use True b(1) us ok in simp)
qed (use ok in auto)

lemma step_squash:
  assumes ok: "core_ok cfg x (s, robs, stores, loads)"
  shows "step_ok cfg x (Rf_squash t) (s, robs, stores, loads)"
proof (cases "t < length robs \<and> robs ! t \<noteq> [] \<and> ru_specmode (last (robs ! t))")
  case True
  then obtain u us where us: "robs ! t = us @ [u]" by (cases "robs ! t" rule: rev_cases) auto
  have t: "t < length robs" using True by simp
  obtain C tos W where C: "thread_ok cfg W t s (us @ [u]) C tos" and W: "exact x W (us @ [u])"
    and st: "\<forall>u \<in> set (us @ [u]). plain_store (ru_uinst u)" by (rule core_thread [OF ok t, unfolded us])
  from thread_squash [OF C] True us obtain s1 s' where s': "(if ru_completed u then Inr s else x86_reg_file_write s u) = Inr s1"
    "x86_reg_file_undo cfg s1 u = Inr s'" "others t s s'"
    "thread_ok cfg (if ru_completed u then W else pend_del W u) t s' us C tos" by auto
  have "pend_regs c us \<inter> outs c u = {}" for c by (rule last_fresh [OF C])
  then have w: "exact x (if ru_completed u then W else pend_del W u) us"
    using W by (auto simp: exact_def pend_del_def)
  have "gone_ok cfg s u" by (rule thread_gone [OF C]) simp
  then have g: "\<forall>u \<in> set (if \<not> ru_completed u \<and> ui_opcode (ru_uinst u) = x86_uinst_load then loads @ [u] else loads). gone_ok cfg s u"
    using core_gone(3) [OF ok] by auto
  have p: "\<forall>u \<in> set us. plain_store (ru_uinst u)" using st by simp
  let ?loads = "if \<not> ru_completed u \<and> ui_opcode (ru_uinst u) = x86_uinst_load then loads @ [u] else loads"
  have "core_ok cfg x (s', robs[t := us], stores, ?loads)"
    by (rule core_ok_update [OF ok _ s'(3,4) _ w p core_gone(2) [OF ok] g]) (use True in simp_all)
  moreover have "rf_do cfg (Rf_squash t) (s, robs, stores, loads) = Inr (s', robs[t := us], stores, ?loads)"
    using s'(1,2) True us by (simp cong: if_cong split del: if_split)
  ultimately show ?thesis by (simp del: rf_do.simps split del: if_split)
qed (use ok in auto)

lemma step_gone:
  assumes ok: "core_ok cfg x (s, robs, stores, loads)"
  shows "step_ok cfg x (Rf_store k) (s, robs, stores, loads)" "step_ok cfg x (Rf_late k) (s, robs, stores, loads)"
proof -
  have late: "\<exists>s'. x86_reg_file_write s u = Inr s' \<and> core_ok cfg (x \<and> (\<forall>c. outs c u = {})) (s', robs, stores, loads)"
    if u: "gone_ok cfg s u" for u
  proof -
    have t: "ru_thread u < length robs" using u core_gone(4) [OF ok] by (simp add: gone_ok_def)
    obtain C tos W where C: "thread_ok cfg W (ru_thread u) s (robs ! ru_thread u) C tos"
      and W: "exact x W (robs ! ru_thread u)" and st: "\<forall>u \<in> set (robs ! ru_thread u). plain_store (ru_uinst u)"
      by (rule core_thread [OF ok t])
    from thread_late [OF C u refl] obtain s' where s': "x86_reg_file_write s u = Inr s'"
      "thread_ok cfg (pend_del W u) (ru_thread u) s' (robs ! ru_thread u) C tos" "frame (ru_thread u) s s'" by blast
    have w: "exact (x \<and> (\<forall>c. outs c u = {})) (pend_del W u) (robs ! ru_thread u)" using W by (simp add: exact_def pend_del_def)
    have "x \<and> (\<forall>c. outs c u = {}) \<longrightarrow> x" by blast
    from core_ok_update [OF ok t frame_others [OF s'(3)] s'(2) this w st core_gone(2,3) [OF ok]] s'(1) show ?thesis by simp
  qed
  have sub: "set (take k us @ drop (Suc k) us) \<subseteq> set us" for us :: "rf_uop list"
    using set_take_subset set_drop_subset by fastforce
  have less: "core_ok cfg y (s', robs, stores', loads')"
    if "core_ok cfg y (s', robs, stores, loads)" "set stores' \<subseteq> set stores" "set loads' \<subseteq> set loads" for y s' stores' loads'
    using that unfolding core_ok_def by (simp, blast)
  show "step_ok cfg x (Rf_store k) (s, robs, stores, loads)"
  proof (cases "k < length stores")
    case True
    then have "gone_ok cfg s (stores ! k)" "\<forall>c. outs c (stores ! k) = {}" using core_gone(2) [OF ok] by simp_all
    with late obtain s' where "x86_reg_file_write s (stores ! k) = Inr s'" "core_ok cfg x (s', robs, stores, loads)" by fastforce
    with less [OF this(2) sub [of stores] order_refl] True show ?thesis by (simp add: write_out_def)
  qed (use ok in \<open>simp add: write_out_def\<close>)
  show "step_ok cfg x (Rf_late k) (s, robs, stores, loads)"
  proof (cases "k < length loads")
    case True
    then have "gone_ok cfg s (loads ! k)" using core_gone(3) [OF ok] by simp
    with late obtain s' y where s': "x86_reg_file_write s (loads ! k) = Inr s'" "core_ok cfg y (s', robs, stores, loads)" by blast
    from core_weaken [OF s'(2), of False] have "core_ok cfg False (s', robs, stores, loads)" by simp
    from less [OF this order_refl sub [of loads]] s'(1) True show ?thesis by (simp add: write_out_def)
  qed (use core_weaken [OF ok, of False] in \<open>simp add: write_out_def\<close>)
qed

lemma rf_do_ok:
  assumes "core_ok cfg x (s, robs, stores, loads)" "event_ok e" "no_store_output e"
  shows "step_ok cfg x e (s, robs, stores, loads)"
  using assms step_dispatch step_writeback step_commit step_squash step_gone by (cases e) (simp_all del: rf_do.simps not_late.simps)

lemma rf_run_ok:
  "core_ok cfg x (s, robs, stores, loads) \<Longrightarrow> list_all event_ok es \<Longrightarrow> list_all no_store_output es \<Longrightarrow>
   \<exists>s' robs' stores' loads'. rf_run cfg es (s, robs, stores, loads) = Inr (s', robs', stores', loads') \<and>
     core_ok cfg (x \<and> list_all not_late es) (s', robs', stores', loads') \<and> length robs' = length robs"
proof (induction es arbitrary: x s robs stores loads)
  case (Cons e es)
  from rf_do_ok [OF Cons.prems(1), of e] Cons.prems(2,3) obtain s1 robs1 stores1 loads1 where
    1: "rf_do cfg e (s, robs, stores, loads) = Inr (s1, robs1, stores1, loads1)"
    "core_ok cfg (x \<and> not_late e) (s1, robs1, stores1, loads1)" "length robs1 = length robs" by auto
  from Cons.IH [OF 1(2)] Cons.prems(2,3) 1 show ?case by (auto simp: rf_run_def)
qed (simp add: rf_run_def)

section \<open>The initial state\<close>

lemma init_thread_ok:
  assumes t: "t < num_threads s" and k: "26 \<le> rc_int_local_size cfg" "15 \<le> rc_fp_local_size cfg"
    and start: "\<And>c. half_of c t s = \<lparr>hf_regs = half_create (logical c) (local_size c cfg),
      hf_core_count = class_count c s, hf_thread_count = 0\<rparr>" "top_of_stack t s = 0"
  shows "\<exists>s' C. x86_reg_file_init_thread t s = Inr s' \<and> thread_ok cfg (\<lambda>c. {}) t s' [] C 0 \<and> frame t s s'"
proof -
  have I: "init_inv (logical c) (local_size c cfg) 0 (half_of c t s)" for c unfolding start by (rule create_init_inv)
  from init_int_fold [OF I [of Int_class, unfolded logical.simps]] k obtain h p where
    h: "res_fold init_int [0..<x86_dep_int_count] (half_of Int_class t s, -1) = Inr (h, p)"
    "init_inv 22 (rc_int_local_size cfg) 22 h" "same_counts (half_of Int_class t s) h" by auto
  let ?f = "\<lambda>h. res_bind (res_fold init_int [0..<x86_dep_int_count] (h, -1)) (\<lambda>(h, _). Inr h)"
  have "?f (half_of Int_class t s) = Inr h" using h(1) by simp
  from on_half_step [OF t, of ?f Int_class, OF this h(3)] obtain s1 where
    s1: "on_half Int_class t ?f s = Inr s1" "half_of Int_class t s1 = h" "half_of Fp_class t s1 = half_of Fp_class t s"
    "frame t s s1" by auto
  have t1: "t < num_threads s1" using t s1(4) by (simp add: frame_def)
  from init_fp_fold [OF I [of Fp_class, unfolded logical.simps]] k obtain g where
    g: "res_fold init_fp [0..<x86_dep_fp_count] (half_of Fp_class t s1) = Inr g"
    "init_inv 11 (rc_fp_local_size cfg) 11 g" "same_counts (half_of Fp_class t s1) g" by (auto simp: s1(3))
  from on_half_step [OF t1, of "res_fold init_fp [0..<x86_dep_fp_count]" Fp_class, OF g(1,3)] obtain s2 where
    s2: "on_half Fp_class t (res_fold init_fp [0..<x86_dep_fp_count]) s1 = Inr s2" "half_of Fp_class t s2 = g"
    "half_of Int_class t s2 = h" "frame t s1 s2" using s1(2) by auto
  let ?C = "\<lambda>c l. rat (hf_regs (half_of c t s2)) ! l"
  have "regs_ok (logical c) (local_size c cfg) (?C c) [] {} {} (half_of c t s2)" for c
    using init_inv_regs_ok [OF h(2)] init_inv_regs_ok [OF g(2)] by (cases c) (simp_all add: s2(2,3))
  moreover have f: "frame t s s2" using frame_trans [OF s1(4) s2(4)] .
  ultimately have "thread_ok cfg (\<lambda>c. {}) t s2 [] ?C 0"
    using t start(2) by (simp add: thread_ok_def halves_ok_def frame_def)
  moreover have "x86_reg_file_init_thread t s = Inr s2"
    unfolding x86_reg_file_init_thread_def s1(1) res_bind_simps s2(1) ..
  ultimately show ?thesis using f by blast
qed

definition new_thread :: "rf_cfg \<Rightarrow> rf_thread" where
  "new_thread cfg = \<lparr>th_reg_file = x86_reg_file_create (rc_int_local_size cfg) (rc_fp_local_size cfg),
     th_reg_file_int_count = 0, th_reg_file_fp_count = 0, th_rat_int_reads = 0, th_rat_int_writes = 0,
     th_rat_fp_reads = 0, th_rat_fp_writes = 0\<rparr>"

lemma init_loop_ok:
  assumes k: "0 < n \<Longrightarrow> 26 \<le> rc_int_local_size cfg \<and> 15 \<le> rc_fp_local_size cfg"
  defines "s0 \<equiv> \<lparr>co_reg_file_int_count = 0, co_reg_file_fp_count = 0, co_threads = replicate n (new_thread cfg)\<rparr>"
  shows "\<exists>s. res_fold x86_reg_file_init_thread [0..<n] s0 = Inr s \<and> core_ok cfg True (rf_start s n)"
proof -
  let ?new = "\<lambda>t s. (\<forall>c. half_of c t s = \<lparr>hf_regs = half_create (logical c) (local_size c cfg),
      hf_core_count = class_count c s, hf_thread_count = 0\<rparr>) \<and> top_of_stack t s = 0"
  define Q where "Q i s \<longleftrightarrow> num_threads s = n \<and> (\<forall>c. sum_ok c s) \<and>
    (\<forall>t < i. \<exists>C tos. thread_ok cfg (\<lambda>c. {}) t s [] C tos) \<and> (\<forall>t. i \<le> t \<longrightarrow> t < n \<longrightarrow> ?new t s)" for i s
  have "\<exists>s. res_fold x86_reg_file_init_thread [0..<n] s0 = Inr s \<and> Q (length [0..<n]) s"
  proof (rule res_fold_inv)
    have h0: "half_of c t s0 = \<lparr>hf_regs = half_create (logical c) (local_size c cfg), hf_core_count = 0, hf_thread_count = 0\<rparr>"
      if "t < n" for c t using that by (cases c) (simp_all add: half_of.simps x86_reg_file_create_def s0_def new_thread_def)
    have c0: "class_count c s0 = 0" for c by (cases c) (simp_all add: s0_def)
    have n0: "num_threads s0 = n" by (simp add: s0_def)
    have "sum_ok c s0" for c using h0 by (simp add: sum_ok_def c0 n0)
    moreover have "top_of_stack t s0 = 0" if "t < n" for t using that by (simp add: s0_def new_thread_def x86_reg_file_create_def)
    ultimately show "Q 0 s0" using h0 c0 n0 by (simp add: Q_def)
    fix i s
    assume i: "i < length [0..<n]" and q: "Q i s"
    have n: "num_threads s = n" and sum: "\<forall>c. sum_ok c s" and old: "\<forall>t < i. \<exists>C tos. thread_ok cfg (\<lambda>c. {}) t s [] C tos"
      and new: "\<And>t. i \<le> t \<Longrightarrow> t < n \<Longrightarrow> ?new t s" using q by (simp_all add: Q_def)
    have "i < n" using i by simp
    with n new [of i] init_thread_ok [of i s cfg] k obtain s' C where
      s': "x86_reg_file_init_thread i s = Inr s'" "thread_ok cfg (\<lambda>c. {}) i s' [] C 0" "frame i s s'" by auto
    note o = frame_others [OF s'(3)]
    have "\<exists>C tos. thread_ok cfg (\<lambda>c. {}) t s' [] C tos" if "t < Suc i" for t
    proof (cases "t = i")
      case False
      then have "t < i" "t < num_threads s" using that \<open>i < n\<close> n by simp_all
      then show ?thesis using old thread_ok_others [OF o sum False] by blast
    qed (use s'(2) in blast)
    moreover have "?new t s'" if "Suc i \<le> t" "t < n" for t
    proof -
      have "t \<noteq> i" "?new t s" using new [of t] that by auto
      then show ?thesis using o by (simp add: others_def)
    qed
    ultimately have "Q (Suc i) s'" using o n sum by (simp add: Q_def others_def)
    then show "\<exists>s'. x86_reg_file_init_thread ([0..<n] ! i) s = Inr s' \<and> Q (Suc i) s'" using s'(1) i by simp
  qed
  moreover have "core_ok cfg True (rf_start s n)" if "Q n s" for s
  proof -
    have "\<exists>C tos W. thread_ok cfg W t s [] C tos \<and> exact True W []" if "t < n" for t
    proof -
      have "\<exists>C tos. thread_ok cfg (\<lambda>c. {}) t s [] C tos" using \<open>Q n s\<close> that by (simp add: Q_def)
      then obtain C tos where "thread_ok cfg (\<lambda>c. {}) t s [] C tos" by blast
      moreover have "exact True (\<lambda>c. {}) []" by (simp add: exact_def)
      ultimately show ?thesis by blast
    qed
    then show ?thesis using that by (auto simp: core_ok_def Q_def)
  qed
  ultimately show ?thesis by auto
qed

lemma init_ok:
  assumes sz: "26 \<le> int_size" "15 \<le> fp_size"
  shows "\<exists>cfg s. x86_reg_file_init kind int_size fp_size n = Inr (cfg, s) \<and> core_ok cfg True (rf_start s n)"
proof -
  let ?m = "if kind = x86_reg_file_kind_private then 1 else n"
  let ?cfg = "\<lparr>rc_kind = kind, rc_int_local_size = nat int_size * ?m, rc_fp_local_size = nat fp_size * ?m\<rparr>"
  have "26 \<le> rc_int_local_size ?cfg \<and> 15 \<le> rc_fp_local_size ?cfg" if "0 < n"
  proof -
    have m: "1 \<le> ?m" using that by simp
    have "26 \<le> nat int_size" "15 \<le> nat fp_size" using sz by simp_all
    from this [THEN mult_le_mono, OF m] show ?thesis by (simp only: mult_1_right rf_cfg.select_convs)
  qed
  from init_loop_ok [OF this] obtain s where "core_ok ?cfg True (rf_start s n)"
    "res_fold x86_reg_file_init_thread [0..<n]
       \<lparr>co_reg_file_int_count = 0, co_reg_file_fp_count = 0, co_threads = replicate n (new_thread ?cfg)\<rparr> = Inr s" by blast
  then show ?thesis using sz by (simp add: x86_reg_file_init_def Let_def new_thread_def)
qed

section \<open>Integrity\<close>

lemma integrity_ok:
  assumes T: "thread_ok cfg Wp t s us C tos"
  shows "x86_reg_file_check_integrity t s us = Inr ()"
proof -
  have H: "\<And>c. regs_ok (logical c) (local_size c cfg) (C c) (thread_maps c tos us) (Wp c) {} (half_of c t s)"
    and W: "\<forall>u \<in> set us. renamed u" using T by (simp_all add: thread_ok_def halves_ok_def)
  have B: "busy (half_of c t s) p = uses (logical c) (C c) (thread_maps c tos us) p" "pending (half_of c t s) p \<longleftrightarrow> p \<in> Wp c"
    if "p < local_size c cfg" for c p using H [of c] that by (simp_all add: regs_ok_def)
  have M: "mapping_ok (logical c) (local_size c cfg) (C c) (thread_maps c tos us) (half_of c t s)" for c
    using H [of c] by (simp add: regs_ok_def)
  have len: "length (phreg (hf_regs (half_of c t s))) = local_size c cfg" for c using H [of c] by (simp add: regs_ok_def free_ok_def)
  have idle: "busy (half_of c t s) p = 0 \<and> \<not> pending (half_of c t s) p"
    if "p \<in> set (take (free_count (half_of c t s)) (free_phreg (hf_regs (half_of c t s))))" for c p
  proof -
    have p: "p < local_size c cfg" "busy (half_of c t s) p = 0" using H [of c] that by (auto simp: regs_ok_def free_ok_def)
    then have "p \<notin> allocated (thread_maps c tos us)" using B(1) [of p c] uses_allocated [of p "thread_maps c tos us" "logical c" "C c"] by auto
    then show ?thesis using p B(2) [OF p(1)] H [of c] by (auto simp: regs_ok_def)
  qed
  have half: "check_half (logical c) (half_of c t s)" for c
  proof -
    let ?h = "half_of c t s"
    have "free_phreg (hf_regs ?h) ! i \<in> set (take (free_count ?h) (free_phreg (hf_regs ?h)))" if "i < free_count ?h" for i
    proof -
      have "i < length (take (free_count ?h) (free_phreg (hf_regs ?h)))" using that H [of c] by (simp add: regs_ok_def free_ok_def)
      from nth_mem [OF this] that show ?thesis by simp
    qed
    then show ?thesis using idle rat_used [OF M] B(1) [of _ c] by (auto simp: check_half_def Let_def)
  qed
  have uop: "check_uop t s u d" if "u \<in> set us" "d < 4" for u d
  proof (cases "class_of (odep u d)")
    case None
    have "renamed u" using W that(1) by blast
    then have "ru_ph_odep u ! d = -1 \<and> ru_ph_oodep u ! d = -1" using None that(2) by (simp add: renamed_def)
    then show ?thesis using None by (simp add: check_uop_def Let_def class_of_simps)
  next
    case (Some c)
    have "renamed u" using W that(1) by blast
    then have i: "0 \<le> ru_ph_odep u ! d" "0 \<le> ru_ph_oodep u ! d" using Some that(2) by (auto simp: renamed_def)
    from member_maps [OF that(1), of tos] obtain x where "set (all_maps c x u) \<subseteq> set (thread_maps c tos us)" by blast
    moreover have "(lreg c x (odep u d), nat (ru_ph_odep u ! d), nat (ru_ph_oodep u ! d)) \<in> set (all_maps c x u)"
      using that(2) Some unfolding umaps_def by (auto simp: dep_map_def intro!: bexI [of _ d])
    ultimately have m: "(lreg c x (odep u d), nat (ru_ph_odep u ! d), nat (ru_ph_oodep u ! d)) \<in> set (thread_maps c tos us)"
      by blast
    then have "nat (ru_ph_odep u ! d) \<in> allocated (thread_maps c tos us)" by force
    from uses_allocated [OF this] have a: "nat (ru_ph_odep u ! d) < local_size c cfg" "busy (half_of c t s) (nat (ru_ph_odep u ! d)) \<noteq> 0"
      using M [of c] m B(1) by (auto simp: mapping_ok_def)
    note o = old_used [OF M m]
    have "in_file (ru_ph_odep u ! d) (half_of c t s)" "in_file (ru_ph_oodep u ! d) (half_of c t s)"
      using i a(1) o(1) by (simp_all add: in_file_def len)
    then show ?thesis using Some a(2) o B(1) [OF o(1)]
      by (cases c) (simp_all add: check_uop_def Let_def class_of_simps)
  qed
  show ?thesis using half [of Int_class] half [of Fp_class] uop by (simp add: x86_reg_file_check_integrity_def)
qed

section \<open>The properties of register renaming\<close>

text \<open>The invariant determines the registers.\<close>

lemma regs_ok_unique:
  assumes a: "regs_ok n k C ms W {} h" and b: "regs_ok n k C ms W {} h'"
  shows "rat (hf_regs h') = rat (hf_regs h) \<and> phreg (hf_regs h') = phreg (hf_regs h) \<and>
    set (take (free_count h') (free_phreg (hf_regs h'))) = set (take (free_count h) (free_phreg (hf_regs h))) \<and>
    free_count h' = free_count h \<and> hf_thread_count h' = hf_thread_count h"
proof -
  have F: "free_ok k {} h" "free_ok k {} h'" and M: "mapping_ok n k C ms h" "mapping_ok n k C ms h'"
    and B: "\<And>p. p < k \<Longrightarrow> busy h p = busy h' p \<and> pending h p = pending h' p" using a b by (simp_all add: regs_ok_def)
  have r: "rat (hf_regs h') = rat (hf_regs h)" by (rule nth_equalityI) (use M in \<open>simp_all add: mapping_ok_def\<close>)
  have p: "phreg (hf_regs h') = phreg (hf_regs h)" by (rule nth_equalityI) (use F B in \<open>simp_all add: free_ok_def\<close>)
  have s: "set (take (free_count x) (free_phreg (hf_regs x))) = {p. p < k \<and> busy h p = 0}"
    "card (set (take (free_count x) (free_phreg (hf_regs x)))) = free_count x" "hf_thread_count x + free_count x = k"
    if "x = h \<or> x = h'" for x
  proof -
    have f: "free_ok k {} x" and e: "phreg (hf_regs x) = phreg (hf_regs h)" using that F p by auto
    show "set (take (free_count x) (free_phreg (hf_regs x))) = {p. p < k \<and> busy h p = 0}"
      "hf_thread_count x + free_count x = k" using f by (simp_all add: free_ok_def e)
    have "distinct (take (free_count x) (free_phreg (hf_regs x)))" "free_count x \<le> length (free_phreg (hf_regs x))"
      using f by (simp_all add: free_ok_def)
    then show "card (set (take (free_count x) (free_phreg (hf_regs x)))) = free_count x" by (simp add: distinct_card)
  qed
  have e: "set (take (free_count h') (free_phreg (hf_regs h'))) = set (take (free_count h) (free_phreg (hf_regs h)))"
    using s(1) [of h] s(1) [of h'] by simp
  then have "free_count h' = free_count h" using s(2) [of h] s(2) [of h'] by simp
  moreover then have "hf_thread_count h' = hf_thread_count h" using s(3) [of h] s(3) [of h'] by simp
  ultimately show ?thesis using r p e by simp
qed

lemma reach_ok:
  assumes "x86_reg_file_init kind int_size fp_size n = Inr (cfg, s0)" "list_all event_ok es" "list_all no_store_output es"
    "rf_run cfg es (rf_start s0 n) = Inr (s, robs, stores, loads)"
  shows "core_ok cfg (list_all not_late es) (s, robs, stores, loads)" "length robs = n"
proof -
  have "26 \<le> int_size" "15 \<le> fp_size" using assms(1) by (auto simp: x86_reg_file_init_def split: if_splits)
  from init_ok [OF this, of kind n] assms(1) have "core_ok cfg True (rf_start s0 n)" by auto
  from rf_run_ok [OF this assms(2,3)] assms(4)
  show "core_ok cfg (list_all not_late es) (s, robs, stores, loads)" "length robs = n" by auto
qed


text \<open>A run with a store and a late write-back of a squashed load; a store with the output of CMPXCHG8B.\<close>

abbreviation load_uinst :: x86_uinst_t where
  "load_uinst \<equiv> \<lparr>ui_opcode = x86_uinst_load, ui_idep = [21, 0, 0], ui_odep = [1, 0, 0, 0]\<rparr>"

abbreviation store_uinst :: "nat \<Rightarrow> x86_uinst_t" where
  "store_uinst d \<equiv> \<lparr>ui_opcode = x86_uinst_store, ui_idep = [15, 2, 4], ui_odep = [d, 0, 0, 0]\<rparr>"

abbreviation data_uinst :: x86_uinst_t where
  "data_uinst \<equiv> \<lparr>ui_opcode = x86_uinst_other, ui_idep = [1, 0, 0], ui_odep = [22, 0, 0, 0]\<rparr>"


lemma case_result:
  "(case x of Inl e \<Rightarrow> False | Inr (a, b) \<Rightarrow> P a b) \<Longrightarrow> \<exists>a b. x = Inr (a, b) \<and> P a b"
  by (cases x) auto

lemma case_result4:
  "(case x of Inl e \<Rightarrow> False | Inr (a, b, c, d) \<Rightarrow> P a b c d) \<Longrightarrow> \<exists>a b c d. x = Inr (a, b, c, d) \<and> P a b c d"
  by (cases x) auto

text \<open>
  The store commits before it is written back. Its register is still pending when the next writer of
  \<open>x86_dep_data\<close> commits and frees it.
\<close>

lemma store_output_fails:
  "\<exists>cfg s0. x86_reg_file_init x86_reg_file_kind_private 26 15 1 = Inr (cfg, s0) \<and>
    rf_run cfg [Rf_dispatch 0 (store_uinst 22) False, Rf_dispatch 0 data_uinst False, Rf_writeback 0 1,
      Rf_commit 0, Rf_commit 0] (rf_start s0 1) = Inl Assert_failed"
proof -
  have "case x86_reg_file_init x86_reg_file_kind_private 26 15 1 of Inl e \<Rightarrow> False | Inr (cfg, s0) \<Rightarrow>
     rf_run cfg [Rf_dispatch 0 (store_uinst 22) False, Rf_dispatch 0 data_uinst False, Rf_writeback 0 1,
      Rf_commit 0, Rf_commit 0] (rf_start s0 1) = Inl Assert_failed" by code_simp
  then show ?thesis by (rule case_result)
qed

text \<open>A concrete run: the second instruction reads what the first one writes.\<close>

abbreviation run_events :: "rf_event list" where
  "run_events \<equiv> [Rf_dispatch 0 \<lparr>ui_opcode = x86_uinst_other, ui_idep = [1, 0, 0], ui_odep = [2, 15, 0, 0]\<rparr> False,
     Rf_dispatch 0 \<lparr>ui_opcode = x86_uinst_fp_push, ui_idep = [2, 0, 0], ui_odep = [23, 0, 0, 0]\<rparr> False]"

abbreviation next_uinst :: x86_uinst_t where
  "next_uinst \<equiv> \<lparr>ui_opcode = x86_uinst_fp_pop, ui_idep = [23, 0, 0], ui_odep = [24, 1, 1, 0]\<rparr>"

lemma run_events_ok: "list_all event_ok run_events" "list_all no_store_output run_events" "list_all not_late run_events"
  by (simp_all add: plain_store_def)

lemma concrete_run:
  "\<exists>cfg s0 s robs stores loads. x86_reg_file_init x86_reg_file_kind_private 26 15 1 = Inr (cfg, s0) \<and>
    rf_run cfg run_events (rf_start s0 1) = Inr (s, robs, stores, loads) \<and> length (robs ! 0) = 2 \<and>
    \<not> producers_done 0 s (robs ! 0) 1 \<and> x86_reg_file_can_rename cfg s (fetch_uop 0 next_uinst True)"
proof -
  have "case x86_reg_file_init x86_reg_file_kind_private 26 15 1 of Inl e \<Rightarrow> False | Inr (cfg, s0) \<Rightarrow>
     (case rf_run cfg run_events (rf_start s0 1) of Inl e \<Rightarrow> False | Inr (s, robs, stores, loads) \<Rightarrow>
        length (robs ! 0) = 2 \<and> \<not> producers_done 0 s (robs ! 0) 1 \<and>
        x86_reg_file_can_rename cfg s (fetch_uop 0 next_uinst True))" by code_simp
  from case_result [OF this] obtain cfg s0 where "x86_reg_file_init x86_reg_file_kind_private 26 15 1 = Inr (cfg, s0)"
    "case rf_run cfg run_events (rf_start s0 1) of Inl e \<Rightarrow> False | Inr (s, robs, stores, loads) \<Rightarrow>
       length (robs ! 0) = 2 \<and> \<not> producers_done 0 s (robs ! 0) 1 \<and>
        x86_reg_file_can_rename cfg s (fetch_uop 0 next_uinst True)" by blast
  from this(1) case_result4 [OF this(2)] show ?thesis by blast
qed



text \<open>The pending bit of the register of the first instruction is cleared by a load squashed before.\<close>

lemma late_write_breaks_readiness:
  "\<exists>cfg s0 s robs stores loads. x86_reg_file_init x86_reg_file_kind_private 26 15 1 = Inr (cfg, s0) \<and>
    rf_run cfg ([Rf_dispatch 0 load_uinst True, Rf_squash 0] @ run_events @ [Rf_late 0]) (rf_start s0 1) =
      Inr (s, robs, stores, loads) \<and> \<not> producers_done 0 s (robs ! 0) 1 \<and> x86_reg_file_ready s (robs ! 0 ! 1) = Inr True"
proof -
  have "case x86_reg_file_init x86_reg_file_kind_private 26 15 1 of Inl e \<Rightarrow> False | Inr (cfg, s0) \<Rightarrow>
     (case rf_run cfg ([Rf_dispatch 0 load_uinst True, Rf_squash 0] @ run_events @ [Rf_late 0]) (rf_start s0 1) of
        Inl e \<Rightarrow> False | Inr (s, robs, stores, loads) \<Rightarrow>
          \<not> producers_done 0 s (robs ! 0) 1 \<and> x86_reg_file_ready s (robs ! 0 ! 1) = Inr True)" by code_simp
  from case_result [OF this] obtain cfg s0 where "x86_reg_file_init x86_reg_file_kind_private 26 15 1 = Inr (cfg, s0)"
    "case rf_run cfg ([Rf_dispatch 0 load_uinst True, Rf_squash 0] @ run_events @ [Rf_late 0]) (rf_start s0 1) of Inl e \<Rightarrow> False | Inr (s, robs, stores, loads) \<Rightarrow>
       \<not> producers_done 0 s (robs ! 0) 1 \<and> x86_reg_file_ready s (robs ! 0 ! 1) = Inr True" by blast
  from this(1) case_result4 [OF this(2)] show ?thesis by blast
qed

text \<open>C0: Recovery undoes renaming. In every state reached by a run in which no store writes a register,
  dispatching a speculative instruction and squashing it at once gives the reorder buffers back, and for its
  thread the register aliasing tables, the busy
  counters and pending bits of all physical registers, the set of free registers, the counters of registers
  in use and the top of the floating-point stack. If the instruction is a load, it is left among the squashed
  loads.\<close>

theorem reg_file_undo_restores:
  assumes "x86_reg_file_init kind int_size fp_size n = Inr (cfg, s0)" "list_all event_ok es" "list_all no_store_output es"
    "rf_run cfg es (rf_start s0 n) = Inr (s, robs, stores, loads)" "t < n" "event_ok (Rf_dispatch t ui True)"
    "x86_reg_file_can_rename cfg s (fetch_uop t ui True)"
  shows "\<exists>s1 u s'. rf_do cfg (Rf_dispatch t ui True) (s, robs, stores, loads) = Inr (s1, robs[t := robs ! t @ [u]], stores, loads) \<and>
    rf_do cfg (Rf_squash t) (s1, robs[t := robs ! t @ [u]], stores, loads) =
      Inr (s', robs, stores, if ui_opcode ui = x86_uinst_load then loads @ [u] else loads) \<and>
    top_of_stack t s' = top_of_stack t s \<and>
    (\<forall>c. let h = half_of c t s; h' = half_of c t s' in
       rat (hf_regs h') = rat (hf_regs h) \<and> phreg (hf_regs h') = phreg (hf_regs h) \<and>
       set (take (free_count h') (free_phreg (hf_regs h'))) = set (take (free_count h) (free_phreg (hf_regs h))) \<and>
       free_count h' = free_count h \<and> hf_thread_count h' = hf_thread_count h)"
proof -
  note R = reach_ok [OF assms(1-4)]
  have t: "t < length robs" using assms(5) R(2) by simp
  obtain C tos W where T: "thread_ok cfg W t s (robs ! t) C tos" by (rule core_thread [OF R(1) t])
  have ui: "length (ui_odep ui) = 4" "length (ui_idep ui) = 3" using assms(6) by simp_all
  from thread_dispatch [OF T core_gone(1) [OF R(1)] refl ui assms(7)] obtain s1 u where
    1: "x86_reg_file_rename s (fetch_uop t ui True) = Inr (s1, u)"
    "thread_ok cfg (pend_add W u) t s1 (robs ! t @ [u]) C tos" "ru_specmode u" "\<not> ru_completed u" "ru_uinst u = ui"
    by blast
  from thread_squash [OF 1(2,3)] 1(4) obtain s2 s' where
    2: "x86_reg_file_write s1 u = Inr s2" "x86_reg_file_undo cfg s2 u = Inr s'"
    "thread_ok cfg (pend_del (pend_add W u) u) t s' (robs ! t) C tos" by auto
  have "W c \<inter> outs c u = {}" for c
  proof -
    have "W c \<subseteq> pend_regs c (robs ! t)" using T by (simp add: thread_ok_def)
    then show ?thesis using last_fresh [OF 1(2), of c] by blast
  qed
  then have W: "pend_del (pend_add W u) u c = W c" for c by (auto simp: pend_add_def pend_del_def)
  have "rf_do cfg (Rf_dispatch t ui True) (s, robs, stores, loads) = Inr (s1, robs[t := robs ! t @ [u]], stores, loads)"
    using t assms(7) 1(1) by simp
  moreover have "rf_do cfg (Rf_squash t) (s1, robs[t := robs ! t @ [u]], stores, loads) =
      Inr (s', robs, stores, if ui_opcode ui = x86_uinst_load then loads @ [u] else loads)"
    using t 1(3-5) 2(1,2) by simp
  moreover have "top_of_stack t s' = top_of_stack t s" using T 2(3) by (simp add: thread_ok_def)
  moreover have "rat (hf_regs (half_of c t s')) = rat (hf_regs (half_of c t s)) \<and>
      phreg (hf_regs (half_of c t s')) = phreg (hf_regs (half_of c t s)) \<and>
      set (take (free_count (half_of c t s')) (free_phreg (hf_regs (half_of c t s')))) =
        set (take (free_count (half_of c t s)) (free_phreg (hf_regs (half_of c t s)))) \<and>
      free_count (half_of c t s') = free_count (half_of c t s) \<and> hf_thread_count (half_of c t s') = hf_thread_count (half_of c t s)"
    for c
  proof (rule regs_ok_unique)
    let ?ok = "regs_ok (logical c) (local_size c cfg) (C c) (thread_maps c tos (robs ! t)) (W c) {}"
    show "?ok (half_of c t s)" using T by (simp add: thread_ok_def halves_ok_def)
    show "?ok (half_of c t s')" using 2(3) by (simp add: thread_ok_def halves_ok_def W)
  qed
  ultimately show ?thesis unfolding Let_def by blast
qed

lemma reg_file_undo_restores_witness:
  "\<exists>cfg s0 s robs stores loads s1 u s'. x86_reg_file_init x86_reg_file_kind_private 26 15 1 = Inr (cfg, s0) \<and>
    rf_run cfg run_events (rf_start s0 1) = Inr (s, robs, stores, loads) \<and>
    rf_do cfg (Rf_dispatch 0 next_uinst True) (s, robs, stores, loads) = Inr (s1, robs[0 := robs ! 0 @ [u]], stores, loads) \<and>
    rf_do cfg (Rf_squash 0) (s1, robs[0 := robs ! 0 @ [u]], stores, loads) = Inr (s', robs, stores, loads) \<and>
    top_of_stack 0 s' = top_of_stack 0 s"
proof -
  from concrete_run obtain cfg s0 s robs stores loads where r: "x86_reg_file_init x86_reg_file_kind_private 26 15 1 = Inr (cfg, s0)"
    "rf_run cfg run_events (rf_start s0 1) = Inr (s, robs, stores, loads)"
    "x86_reg_file_can_rename cfg s (fetch_uop 0 next_uinst True)" by blast
  have "event_ok (Rf_dispatch 0 next_uinst True)" "(0 :: nat) < 1" by simp_all
  from reg_file_undo_restores [OF r(1) run_events_ok(1,2) r(2) this(2,1) r(3)] r(1,2)
  show ?thesis by (simp only: x86_uinst_t.select_convs x86_uinst_opcode_t.distinct if_False) blast
qed

end
