(* ===== verification/Spec2Isabelle.thy ===== *)
theory Spec2Isabelle
  imports Spec_Mem Cache_Props Directory Mmu Esim Linked_List_Sort List_Struct Bpred SI_Grid Net_Sched Hash_Table Reg_Props
begin

text \<open>
  Verification of parts of Multi2Sim, a simulator of CPUs and GPUs written in C.

  \<^bold>\<open>The program.\<close> A functional simulator per architecture (\<open>src/arch/*/emu\<close>) executes guest instructions on
  a memory image (\<open>src/mem-system/memory.c\<close>). Timing simulators replay the execution on caches
  (\<open>cache.c\<close>), directories (\<open>directory.c\<close>), an address translation (\<open>mmu.c\<close>) and interconnection networks
  (\<open>src/network\<close>). They are driven by events (\<open>src/lib/esim/esim.c\<close>), which wait in a heap
  (\<open>src/lib/struct/heap.c\<close>). Lists (\<open>list.c\<close>, \<open>linked-list.c\<close>) are the containers of all of them.

  \<^bold>\<open>How the code is modelled.\<close> A struct is a record with the field names of the source (prefixed
  where two structs share a name), an enum is a datatype, a 32- or 64-bit unsigned integer is a word. A signed
  counter that the code never lets wrap within a simulation (cycles, identifiers, statistics, sizes)
  is an \<open>int\<close> without bound. A pointer to an owned object is the index of the object in the array or
  list that owns it; \<open>NULL\<close> is \<open>None\<close>. \<open>assert\<close>, \<open>fatal\<close>, \<open>panic\<close>, \<open>abort\<close> and following a \<open>NULL\<close> pointer
  are the values of \<open>sim_error\<close> (theory \<open>Prelude\<close>); an operation that may fail returns
  \<open>'a res = sim_error + 'a\<close>. Allocation does not fail. Output, traces and debug messages are left out.

  A loop that may run forever is a \<open>partial_function (option)\<close>: \<open>None\<close> says that it does not return. This
  concerns the page loops of \<open>mem_map\<close>, \<open>mem_unmap\<close> and \<open>mem_protect\<close>, the free-space searches, the search for the
  next branch, the event loops of the engine, the loops of the Southern Islands emulator over lists that
  change under them, the walk along the paths of a routing table, its depth-first search and the enumeration of a
  hash table. The
  properties prove that they return, under the stated conditions. The only fuel is the constant
  \<open>ESIM_MAX_FINALIZATION_EVENTS\<close>, which is a bound of the program itself.

  \<^bold>\<open>Theories and components.\<close>

  \<^item> \<open>Prelude\<close>: words, errors and their monad, loops that may fail, chains of hash tables, lists by index.

  \<^item> \<open>Memory\<close>, \<open>Memory_Map\<close>, \<open>Memory_Props\<close> (\<open>mem-system/memory.c\<close>): the page table and every operation on
    it. The abstract memory is a partial map from addresses to permissions and bytes. Accesses of any
    length refine it; the locale \<open>page_op\<close> gives the loops of mapping, unmapping and
    protection their result once, and is interpreted for the three; free-space search, clone, load and
    dump follow. \<open>Spec_Mem\<close> (\<open>spec-mem.c\<close>): the copy on write of a mispredicted path, refined to an overlay.

  \<^item> \<open>Lru_Order\<close>, \<open>Cache\<close>, \<open>Cache_Props\<close> (\<open>cache.c\<close>): sets and replacement lists as linked by the code. The
    locale \<open>lru_order\<close> states what a list of ways promises; it is interpreted for cache sets and for
    prefetch streams. No operation with arguments in range fails, and LRU does not evict what was just used.

  \<^item> \<open>Directory\<close> (\<open>directory.c\<close>): owners and sharer bits refine sets; the lock queue loses no access.
    \<open>Mmu\<close> (\<open>mmu.c\<close>): translations are found again, are stable and injective.

  \<^item> \<open>Heap_Queue\<close> (\<open>lib/struct/heap.c\<close>): the locale \<open>priority_queue\<close> over multisets, interpreted by the heap.
    \<open>Esim\<close> (\<open>lib/esim/esim.c\<close>): registration, scheduling, the processing of a cycle; handlers are a parameter
    under a contract, and the events of a cycle run in the order of scheduling.

  \<^item> \<open>Linked_List\<close>, \<open>Ring_Index\<close>, \<open>List_Struct\<close>, \<open>Quick_Sort\<close>, \<open>Linked_List_Sort\<close> (\<open>linked-list.c\<close>, \<open>list.c\<close>): both
    lists with their error codes; the ring buffer refines a plain sequence. The quicksort they
    share is proved once in the locale \<open>sort_array\<close>, interpreted for the array of pointers
    and for the ring.

  \<^item> \<open>Hash_Table\<close> (\<open>lib/struct/hash-table.c\<close>): chains, growth and enumeration; the table refines a finite map.

  \<^item> \<open>Bpred\<close> (\<open>arch/x86/timing/bpred.c\<close>): direction tables, branch target buffer, return stack.

  \<^item> \<open>Reg_File\<close>, \<open>Reg_Half\<close>, \<open>Reg_Rename\<close>, \<open>Reg_Output\<close>, \<open>Reg_Sim\<close>, \<open>Reg_Props\<close> (\<open>arch/x86/timing/reg-file.c\<close>): the
    physical register files of a core with renaming, private to threads or shared. \<open>Reg_File\<close> has the
    operations; \<open>Reg_Half\<close> the invariant of one file (busy counters count the uses of a register by
    the committed mapping and the instructions in flight) and the effect of the primitive steps on
    it; \<open>Reg_Rename\<close> and \<open>Reg_Output\<close> lift it to whole instructions; \<open>Reg_Sim\<close> has the events of the
    pipeline stages and the invariant of a reorder buffer; \<open>Reg_Props\<close> initialisation and the properties.

  \<^item> \<open>SI_Isa\<close>, \<open>SI_Scalar\<close>, \<open>SI_Vector\<close>, \<open>SI_Decode\<close>, \<open>SI_Wavefront\<close>, \<open>SI_Ndrange\<close>, \<open>SI_Emu\<close>
    (\<open>arch/southern-islands\<close>: \<open>emu/isa.c\<close>, \<open>emu/machine.c\<close>, \<open>asm/asm.c\<close>, \<open>emu/wavefront.c\<close>,
    \<open>emu/work-group.c\<close>, \<open>emu/ndrange.c\<close>, \<open>emu/emu.c\<close>): registers, every instruction, the decoder, execution of
    wavefronts with barriers, setup of ND-Ranges, the emulation loop. \<open>SI_Props\<close>, \<open>SI_Run\<close>, \<open>SI_Grid\<close>:
    properties of instructions, of the loop and of the setup. Single-precision arithmetic is a
    parameter \<open>fp\<close> of the instructions that use it; no law is assumed of it.

  \<^item> \<open>Network\<close> (\<open>network/network.c\<close>, \<open>node.c\<close>, \<open>link.c\<close>, \<open>buffer.c\<close>): construction, buffers and their wake-ups,
    the table of messages; the topology invariant \<open>topo_ok\<close>. \<open>Net_Routing\<close> (\<open>routing-table.c\<close>) with \<open>Net_Paths\<close> and
    \<open>Net_Cycles\<close>: the Floyd-Warshall computation yields shortest paths and first hops, the
    depth-first search returns and finds the circular dependences between buffers exactly.
    \<open>Net_Msg\<close> (\<open>message.c\<close>, \<open>node.c\<close>, \<open>network.c\<close>): the events, injection and reception.
    \<open>Net_Flow\<close> (contents of buffers), \<open>Net_Safe\<close> (pending and waiting events as tokens of the messages),
    \<open>Net_Sim\<close> (the step relation \<open>net_step\<close> of network and client over the event engine, its invariant
    by rule induction) and \<open>Net_Sched\<close> (round robin) hold their properties.

  \<^bold>\<open>Hypotheses.\<close> Sort callbacks are total preorders. Handlers of the event engine return and leave it in
  order (\<open>handler_contract\<close>). A network has no link from a node to itself, and its end nodes hang at one
  switch each, so that no route leads through an end node. Clients of a network use events of their
  own and receive a message after its reception was reported. Messages, cycles and sizes are
  unbounded integers there. Keys of a hash
  table are 7-bit characters. A micro-instruction that stores writes no register, and a squashed one is not written
  back later (\<open>late_write_breaks_readiness\<close> shows why).

  \<^bold>\<open>Not modelled.\<close> The emulators of x86, Evergreen, Fermi and ARM (inline assembly, system calls and
  graphics libraries of the host), the stages of the x86 pipeline but for the branch predictor
  and the register files,
  the cache coherence protocols and \<open>module.c\<close>, the OpenCL and CUDA runtimes, the timing model of Southern
  Islands, file formats and configuration, statistics and visualization. The manifest names each
  with its files. A buffer of the shared-bus kind (\<open>net_add_bus\<close>) panics in the code and in the model.
\<close>

end
